(* ===== verification/Prelude.thy ===== *)
theory Prelude
  imports Main "HOL-Library.Word" "HOL-Library.Monad_Syntax"
begin

text \<open>
  What every component theory shares: bytes, the results of code that may panic,
  slices of buffers, little-endian integers, and the generic lemmas about them.

  Conventions of the whole library.
  \<^item> A \<^verbatim>\<open>u8\<close> is an \<^typ>\<open>8 word\<close>, a \<^verbatim>\<open>u32\<close> a \<^typ>\<open>32 word\<close>; \<^verbatim>\<open>Vec<u8>\<close>, \<^verbatim>\<open>Bytes\<close> and
    \<^verbatim>\<open>&[u8]\<close> are byte lists (a shared or borrowed buffer is the value it holds).
  \<^item> A \<^verbatim>\<open>usize\<close> that counts bytes or elements held in memory is a \<^typ>\<open>nat\<close>; where
    the code narrows it (\<^verbatim>\<open>as u32\<close>) the model narrows it too.
  \<^item> Code that can panic (a subslice out of range, a subtraction below zero) has an
    \<open>option\<close> result: \<^const>\<open>None\<close> is the panic. That it does not happen is
    a theorem about the model, never an assumption of it.
  \<^item> Capacities and reallocation (\<^verbatim>\<open>with_capacity\<close>, \<^verbatim>\<open>reserve\<close>) do not change values
    and are not modelled.
\<close>

section \<open>Types and collections of facts\<close>

type_synonym u8 = "8 word"
type_synonym u32 = "32 word"
type_synonym u64 = "64 word"
type_synonym bytes = "u8 list"
type_synonym f64 = u64 \<comment> \<open>the bit pattern of a double\<close>

named_theorems panic_free \<comment> \<open>evaluation rules for accesses that stay in range\<close>
named_theorems refine_simps \<comment> \<open>equations between concrete and abstract operations\<close>

section \<open>Operations that may panic\<close>

text \<open>\<^verbatim>\<open>&xs[a..b]\<close>.\<close>

definition subslice :: "'a list \<Rightarrow> nat \<Rightarrow> nat \<Rightarrow> 'a list option" where
  "subslice xs a b = (if a \<le> b \<and> b \<le> length xs then Some (take (b - a) (drop a xs)) else None)"

text \<open>\<^verbatim>\<open>a - b\<close> on \<^verbatim>\<open>usize\<close>: a panic below zero.\<close>

definition usub :: "nat \<Rightarrow> nat \<Rightarrow> nat option" where
  "usub a b = (if b \<le> a then Some (a - b) else None)"

text \<open>\<^verbatim>\<open>xs[i]\<close>.\<close>

definition index :: "'a list \<Rightarrow> nat \<Rightarrow> 'a option" where
  "index xs i = (if i < length xs then Some (xs ! i) else None)"

text \<open>\<^verbatim>\<open>xs[i] = v\<close>.\<close>

definition index_set :: "'a list \<Rightarrow> nat \<Rightarrow> 'a \<Rightarrow> 'a list option" where
  "index_set xs i v = (if i < length xs then Some (xs[i := v]) else None)"

text \<open>\<^verbatim>\<open>xs[a..b].copy_from_slice(ys)\<close>: a panic unless the range is in bounds and as long as \<open>ys\<close>.\<close>

definition copy_slice :: "'a list \<Rightarrow> nat \<Rightarrow> nat \<Rightarrow> 'a list \<Rightarrow> 'a list option" where
  "copy_slice xs a b ys =
     (if a \<le> b \<and> b \<le> length xs \<and> length ys = b - a
      then Some (take a xs @ ys @ drop b xs) else None)"

lemma subslice_append [panic_free]:
  assumes "a = length pre" and "b = length pre + length xs"
  shows "subslice (pre @ xs @ post) a b = Some xs"
  using assms by (simp add: subslice_def)

lemma subslice_prefix [panic_free]:
  "n \<le> length xs \<Longrightarrow> subslice xs 0 n = Some (take n xs)"
  by (simp add: subslice_def)

lemma subslice_suffix [panic_free]:
  "n \<le> length xs \<Longrightarrow> subslice xs n (length xs) = Some (drop n xs)"
  by (simp add: subslice_def)

lemma subslice_tail [panic_free]:
  "subslice (pre @ xs) (length pre) (length pre + length xs) = Some xs"
  by (simp add: subslice_def)

lemma subslice_length: "subslice xs a b = Some ys \<Longrightarrow> length ys = b - a"
  by (auto simp: subslice_def split: if_splits)

lemma usub_le [panic_free]: "b \<le> a \<Longrightarrow> usub a b = Some (a - b)"
  by (simp add: usub_def)

lemma index_lt [panic_free]: "i < length xs \<Longrightarrow> index xs i = Some (xs ! i)"
  by (simp add: index_def)

lemma index_set_lt [panic_free]: "i < length xs \<Longrightarrow> index_set xs i v = Some (xs[i := v])"
  by (simp add: index_set_def)

lemma copy_slice_append [panic_free]:
  assumes "a = length pre" and "b = length pre + length xs" and "length ys = length xs"
  shows "copy_slice (pre @ xs @ post) a b ys = Some (pre @ ys @ post)"
  using assms by (simp add: copy_slice_def)

text \<open>\<^verbatim>\<open>iter().position(p)\<close>.\<close>

fun position :: "('a \<Rightarrow> bool) \<Rightarrow> 'a list \<Rightarrow> nat option" where
  "position p [] = None"
| "position p (x # xs) = (if p x then Some 0 else map_option Suc (position p xs))"

section \<open>Little-endian \<^verbatim>\<open>u32\<close>\<close>

text \<open>\<^verbatim>\<open>(n as u32).to_le_bytes()\<close>, with the truncation of \<^verbatim>\<open>as u32\<close>.\<close>

definition u32_le :: "nat \<Rightarrow> bytes" where
  "u32_le n = [of_nat n, of_nat (n div 256), of_nat (n div 65536), of_nat (n div 16777216)]"

text \<open>\<^verbatim>\<open>u32::from_le_bytes(s.try_into().unwrap())\<close>, widened to \<^verbatim>\<open>usize\<close>.\<close>

definition u32_from_le :: "bytes \<Rightarrow> nat option" where
  "u32_from_le bs = (case bs of
     [a, b, c, d] \<Rightarrow> Some (unat a + 256 * unat b + 65536 * unat c + 16777216 * unat d)
   | _ \<Rightarrow> None)"

text \<open>\<^verbatim>\<open>u32::from_le_bytes(buf[off..off + 4].try_into().unwrap()) as usize\<close>.\<close>

definition read_u32 :: "bytes \<Rightarrow> nat \<Rightarrow> nat option" where
  "read_u32 buf off = do { s \<leftarrow> subslice buf off (off + 4); u32_from_le s }"

lemma length_u32_le [simp]: "length (u32_le n) = 4"
  by (simp add: u32_le_def)

lemma unat_of_nat_byte: "unat (of_nat n :: u8) = n mod 256"
  by (simp add: unat_of_nat take_bit_eq_mod)

lemma digits_256:
  "n mod 256 + 256 * (n div 256 mod 256) + 65536 * (n div 65536 mod 256)
     + 16777216 * (n div 16777216 mod 256) = n mod 4294967296" for n :: nat
proof -
  have 1: "n mod 65536 = 256 * (n div 256 mod 256) + n mod 256"
    using mod_mult2_eq [of n 256 256] by simp
  have 2: "n mod 16777216 = 65536 * (n div 65536 mod 256) + n mod 65536"
    using mod_mult2_eq [of n 65536 256] by simp
  have 3: "n mod 4294967296 = 16777216 * (n div 16777216 mod 256) + n mod 16777216"
    using mod_mult2_eq [of n 16777216 256] by simp
  show ?thesis using 1 2 3 by linarith
qed

lemma u32_from_to_le: "u32_from_le (u32_le n) = Some (n mod 2 ^ 32)"
  by (simp add: u32_from_le_def u32_le_def unat_of_nat_byte digits_256)

lemma read_u32_append [panic_free]:
  assumes "off = length pre" and "n < 2 ^ 32"
  shows "read_u32 (pre @ u32_le n @ post) off = Some n"
  using assms by (simp add: read_u32_def subslice_append u32_from_to_le)

section \<open>Little-endian integers of any width\<close>

text \<open>\<^verbatim>\<open>to_le_bytes\<close> and \<^verbatim>\<open>from_le_bytes\<close> of an unsigned integer of \<open>k\<close> bytes.\<close>

primrec le_bytes :: "nat \<Rightarrow> nat \<Rightarrow> bytes" where
  "le_bytes 0 n = []"
| "le_bytes (Suc k) n = of_nat n # le_bytes k (n div 256)"

primrec le_nat :: "bytes \<Rightarrow> nat" where
  "le_nat [] = 0"
| "le_nat (b # bs) = unat b + 256 * le_nat bs"

lemma length_le_bytes [simp]: "length (le_bytes k n) = k"
  by (induction k arbitrary: n) auto

lemma le_nat_bytes: "le_nat (le_bytes k n) = n mod 256 ^ k"
  by (induction k arbitrary: n) (simp_all add: unat_of_nat_byte mod_mult2_eq)

section \<open>Doubles\<close>

text \<open>The magnitude bits, the sign, and the comparisons of finite numbers and infinities, which
  are those of the signed magnitudes: the two zeros are equal.\<close>

definition f64_mag :: "f64 \<Rightarrow> nat" where
  "f64_mag b = unat b mod 2 ^ 63"

definition f64_neg :: "f64 \<Rightarrow> bool" where
  "f64_neg b \<longleftrightarrow> unat b \<ge> 2 ^ 63"

definition f64_is_nan :: "f64 \<Rightarrow> bool" where
  "f64_is_nan b \<longleftrightarrow> f64_mag b > 0x7FF0000000000000"

definition f64_ord :: "f64 \<Rightarrow> int" where
  "f64_ord b = (if f64_neg b then - int (f64_mag b) else int (f64_mag b))"

definition f64_eq :: "f64 \<Rightarrow> f64 \<Rightarrow> bool" where
  "f64_eq a b \<longleftrightarrow> \<not> f64_is_nan a \<and> \<not> f64_is_nan b \<and> f64_ord a = f64_ord b"

definition f64_less :: "f64 \<Rightarrow> f64 \<Rightarrow> bool" where
  "f64_less a b \<longleftrightarrow> \<not> f64_is_nan a \<and> \<not> f64_is_nan b \<and> f64_ord a < f64_ord b"

definition f64_le :: "f64 \<Rightarrow> f64 \<Rightarrow> bool" where
  "f64_le a b \<longleftrightarrow> \<not> f64_is_nan a \<and> \<not> f64_is_nan b \<and> f64_ord a \<le> f64_ord b"

section \<open>Text and decimal numbers\<close>

text \<open>The bytes of an ASCII literal.\<close>

definition asc :: "string \<Rightarrow> bytes" where
  "asc s = map of_char s"

text \<open>The decimal digits of a natural number, as \<^verbatim>\<open>Display\<close> prints it.\<close>

fun dec :: "nat \<Rightarrow> bytes" where
  "dec n = (if n < 10 then [0x30 + of_nat n] else dec (n div 10) @ [0x30 + of_nat (n mod 10)])"

declare dec.simps [simp del]

definition dec_int :: "int \<Rightarrow> bytes" where
  "dec_int n = (if n < 0 then 0x2D # dec (nat (- n)) else dec (nat n))"

definition is_digit :: "u8 \<Rightarrow> bool" where
  "is_digit b \<longleftrightarrow> 0x30 \<le> b \<and> b \<le> 0x39"

definition digit_val :: "u8 \<Rightarrow> nat" where
  "digit_val b = unat (b - 0x30)"

definition digits_val :: "bytes \<Rightarrow> nat" where
  "digits_val ds = foldl (\<lambda>n d. n * 10 + digit_val d) 0 ds"

text \<open>\<^verbatim>\<open>s.parse::<i64>()\<close> and \<^verbatim>\<open>s.parse::<usize>()\<close>: an optional sign (minus only for \<^verbatim>\<open>i64\<close>), at least one
  digit, and a value of the type.\<close>

definition parse_digits :: "bytes \<Rightarrow> nat option" where
  "parse_digits ds = (if ds \<noteq> [] \<and> list_all is_digit ds then Some (digits_val ds) else None)"

definition i64_ok :: "int \<Rightarrow> bool" where
  "i64_ok n \<longleftrightarrow> - (2 ^ 63) \<le> n \<and> n < 2 ^ 63"

definition parse_i64 :: "bytes \<Rightarrow> int option" where
  "parse_i64 s = do {
     n \<leftarrow> (case s of
         [] \<Rightarrow> None
       | c # ds \<Rightarrow> if c = 0x2D then map_option (\<lambda>n. - int n) (parse_digits ds)
                   else if c = 0x2B then map_option int (parse_digits ds)
                   else map_option int (parse_digits s));
     if i64_ok n then Some n else None
   }"

definition parse_usize :: "bytes \<Rightarrow> nat option" where
  "parse_usize s = do {
     n \<leftarrow> (case s of
         [] \<Rightarrow> None
       | c # ds \<Rightarrow> if c = 0x2B then parse_digits ds else parse_digits s);
     if n < 2 ^ 64 then Some n else None
   }"

lemma digit_props:
  assumes "k < 10"
  shows "is_digit (0x30 + of_nat k)" and "digit_val (0x30 + of_nat k) = k"
proof -
  have "k \<in> {0, 1, 2, 3, 4, 5, 6, 7, 8, 9}" using assms by auto
  then show "is_digit (0x30 + of_nat k)" "digit_val (0x30 + of_nat k) = k"
    by (auto simp: is_digit_def digit_val_def)
qed

lemma dec_digits: "list_all is_digit (dec n)"
  by (induction n rule: dec.induct) (subst dec.simps, auto simp: digit_props)

lemma dec_nonempty [simp]: "dec n \<noteq> []"
  by (subst dec.simps) simp

lemma digits_val_dec: "digits_val (dec n) = n"
proof (induction n rule: dec.induct)
  case (1 n)
  then show ?case
    by (subst dec.simps) (auto simp: digits_val_def digit_props)
qed

lemma length_dec: "n < 10 ^ k \<Longrightarrow> 0 < k \<Longrightarrow> length (dec n) \<le> k"
proof (induction k arbitrary: n)
  case (Suc k)
  show ?case
  proof (cases "n < 10")
    case True
    then show ?thesis by (subst dec.simps) simp
  next
    case False
    have "n div 10 < 10 ^ k" using Suc.prems(1) by (simp add: less_mult_imp_div_less mult.commute)
    moreover have "0 < k" using False Suc.prems(1) by (cases k) auto
    ultimately have "length (dec (n div 10)) \<le> k" by (rule Suc.IH)
    then show ?thesis using False by (subst dec.simps) simp
  qed
qed simp

lemma parse_digits_dec: "parse_digits (dec n) = Some n"
  by (simp add: parse_digits_def dec_digits digits_val_dec)

lemma is_digit_neq:
  "is_digit b \<Longrightarrow> b \<noteq> 0x2D \<and> b \<noteq> 0x2B \<and> b \<noteq> 0x0D \<and> b \<noteq> 0x0A"
  by (auto simp: is_digit_def)

lemma dec_head: "dec n = c # cs \<Longrightarrow> is_digit c"
  using dec_digits [of n] by simp

lemma parse_i64_dec_int:
  assumes "i64_ok n"
  shows "parse_i64 (dec_int n) = Some n"
proof (cases "n < 0")
  case True
  then show ?thesis using assms by (simp add: parse_i64_def dec_int_def parse_digits_dec)
next
  case False
  obtain c cs where c: "dec (nat n) = c # cs" by (cases "dec (nat n)") simp_all
  then show ?thesis using False assms parse_digits_dec [of "nat n"] is_digit_neq [OF dec_head [OF c]]
    by (simp add: parse_i64_def dec_int_def)
qed

lemma parse_usize_dec: "n < 2 ^ 64 \<Longrightarrow> parse_usize (dec n) = Some n"
proof -
  obtain c cs where c: "dec n = c # cs" by (cases "dec n") simp_all
  then show "n < 2 ^ 64 \<Longrightarrow> ?thesis"
    using parse_digits_dec [of n] is_digit_neq [OF dec_head [OF c]] by (simp add: parse_usize_def)
qed

section \<open>Lists\<close>

lemma take_append_drop_mid:
  "i < length xs \<Longrightarrow> take i xs @ [xs ! i] @ drop (Suc i) xs = xs"
  by (simp add: id_take_nth_drop [symmetric])

lemma drop_update_head: "i < length xs \<Longrightarrow> drop i (xs[i := x]) = x # drop (Suc i) xs"
  by (metis Cons_nth_drop_Suc drop_update_cancel length_list_update lessI nth_list_update_eq)

end
