(* ===== verification/Frames.thy ===== *)
theory Frames
  imports Prelude
begin

text \<open>
  Runs of length-prefixed frames \<^verbatim>\<open>[u32_le len][bytes]\<close>, the storage of compact lists, sets
  and hashes: their content, the facts about reading one frame at an offset, and the
  iterator that all of these encodings share.
\<close>

section \<open>Length-prefixed frames\<close>

text \<open>
  The compact encodings are runs of frames
  \<^verbatim>\<open>[u32_le len][bytes]\<close>. \<open>pk\<close> is one frame, \<open>pks\<close> a run of them: the abstract
  content of a compact buffer.
\<close>

definition pk :: "bytes \<Rightarrow> bytes" where
  "pk v = u32_le (length v) @ v"

definition pks :: "bytes list \<Rightarrow> bytes" where
  "pks vs = concat (map pk vs)"

definition fits :: "bytes \<Rightarrow> bool" where
  "fits v \<longleftrightarrow> length v < 2 ^ 32"

text \<open>\<open>payload vs\<close>: the sum of the element lengths, what the code caches as \<^verbatim>\<open>bytes\<close>.\<close>

definition payload :: "bytes list \<Rightarrow> nat" where
  "payload vs = sum_list (map length vs)"

lemma length_pk [simp]: "length (pk v) = 4 + length v"
  by (simp add: pk_def)

lemma pks_Nil [simp]: "pks [] = []"
  and pks_Cons [simp]: "pks (v # vs) = pk v @ pks vs"
  and pks_append [simp]: "pks (vs @ ws) = pks vs @ pks ws"
  by (simp_all add: pks_def)

lemma payload_Nil [simp]: "payload [] = 0"
  and payload_Cons [simp]: "payload (v # vs) = length v + payload vs"
  and payload_append [simp]: "payload (vs @ ws) = payload vs + payload ws"
  by (simp_all add: payload_def)

lemma payload_rev [simp]: "payload (rev vs) = payload vs"
  by (induction vs) auto

lemma payload_distinct: "distinct vs \<Longrightarrow> payload vs = (\<Sum>v \<in> set vs. length v)"
  by (induction vs) auto

lemma payload_remove1: "v \<in> set vs \<Longrightarrow> payload (remove1 v vs) + length v = payload vs"
  by (induction vs) auto

lemma length_pks: "length (pks vs) = 4 * length vs + payload vs"
  by (induction vs) auto

lemma payload_mem: "v \<in> set vs \<Longrightarrow> length v \<le> payload vs"
  by (induction vs) auto

lemma pks_mem_length: "v \<in> set vs \<Longrightarrow> length v < length (pks vs)"
  by (induction vs) (auto simp: less_Suc_eq_le intro: le_trans [OF less_imp_le])

lemma read_u32_pk [panic_free]:
  assumes "off = length pre" and "fits v"
  shows "read_u32 (pre @ pk v @ post) off = Some (length v)"
  using assms read_u32_append [of off pre "length v" "v @ post"] by (simp add: pk_def fits_def)

lemma subslice_pk_body [panic_free]:
  assumes "a = length pre + 4" and "b = length pre + 4 + length v"
  shows "subslice (pre @ pk v @ post) a b = Some v"
  using assms subslice_append [of a "pre @ u32_le (length v)" b v post] by (simp add: pk_def)

text \<open>Reading a frame anywhere in a buffer: the form the element loops use.\<close>

lemma drop_pk_split:
  assumes "drop off buf = pk v @ post"
  shows "\<exists>pre. buf = pre @ pk v @ post \<and> off = length pre"
proof -
  have "off \<le> length buf"
    using assms by (metis append_is_Nil_conv drop_all length_0_conv length_pk nat_le_linear
        add_is_0 zero_neq_numeral)
  then have "buf = take off buf @ pk v @ post \<and> off = length (take off buf)"
    using assms by (metis append_take_drop_id length_take min.absorb2)
  then show ?thesis by blast
qed

lemma read_u32_drop [panic_free]:
  "drop off buf = pk v @ post \<Longrightarrow> fits v \<Longrightarrow> read_u32 buf off = Some (length v)"
  by (auto dest!: drop_pk_split simp: read_u32_pk)

lemma subslice_body_drop [panic_free]:
  "drop off buf = pk v @ post \<Longrightarrow> b = off + 4 + length v \<Longrightarrow> subslice buf (off + 4) b = Some v"
  by (auto dest!: drop_pk_split simp: subslice_pk_body)

lemma subslice_frame_drop [panic_free]:
  "drop off buf = pk v @ post \<Longrightarrow> b = off + 4 + length v \<Longrightarrow> subslice buf off b = Some (pk v)"
  by (auto dest!: drop_pk_split intro!: subslice_append)

lemma drop_next_pk:
  "drop off buf = pk v @ post \<Longrightarrow> drop (off + 4 + length v) buf = post"
  by (auto dest!: drop_pk_split)

lemma fits_of_bound: "v \<in> set vs \<Longrightarrow> length (pks vs) < 2 ^ 32 \<Longrightarrow> fits v"
  using pks_mem_length [of v vs] by (simp add: fits_def)

section \<open>Iterating over frames\<close>

text \<open>
  The iterators over a run of frames (\<^verbatim>\<open>CompactIter\<close>, \<^verbatim>\<open>CompactRangeIter\<close>, \<^verbatim>\<open>CompactSetIter\<close>,
  \<^verbatim>\<open>CompactSetRefIter\<close>, \<^verbatim>\<open>CompactHashBulkIter\<close> and \<^verbatim>\<open>CompactRegionIter\<close>) have one body:
  a step from \<open>(off, remaining)\<close>. Collecting all steps is a loop whose measure is \<open>remaining\<close>.
\<close>

definition compact_iter_next ::
    "bytes \<Rightarrow> nat \<Rightarrow> nat \<Rightarrow> (bytes \<times> nat \<times> nat) option option" where
  "compact_iter_next buf off remaining =
     (if remaining = 0 then Some None
      else do {
        n \<leftarrow> read_u32 buf off;
        val \<leftarrow> subslice buf (off + 4) (off + 4 + n);
        Some (Some (val, off + (4 + n), remaining - 1))
      })"

function compact_iter_collect :: "bytes \<Rightarrow> nat \<Rightarrow> nat \<Rightarrow> bytes list option" where
  "compact_iter_collect buf off remaining =
     (case compact_iter_next buf off remaining of
        None \<Rightarrow> None
      | Some None \<Rightarrow> Some []
      | Some (Some (val, off', remaining')) \<Rightarrow>
          map_option ((#) val) (compact_iter_collect buf off' remaining'))"
  by pat_completeness auto
termination
  by (relation "measure (\<lambda>(buf, off, remaining). remaining)")
    (auto simp: compact_iter_next_def split: if_splits bind_splits)

declare compact_iter_collect.simps [simp del]

lemma compact_iter_collect_pks:
  assumes "drop off buf = pks vs @ post" and "\<forall>v \<in> set vs. fits v"
  shows "compact_iter_collect buf off (length vs) = Some vs"
  using assms
proof (induction vs arbitrary: off)
  case Nil
  then show ?case by (subst compact_iter_collect.simps) (simp add: compact_iter_next_def)
next
  case (Cons v vs)
  have d: "drop off buf = pk v @ (pks vs @ post)" using Cons.prems by simp
  have "drop (off + 4 + length v) buf = pks vs @ post" using d by (rule drop_next_pk)
  then have "compact_iter_collect buf (off + 4 + length v) (length vs) = Some vs"
    using Cons by simp
  moreover have "compact_iter_next buf off (length (v # vs))
      = Some (Some (v, off + 4 + length v, length vs))"
    using d Cons.prems(2)
    by (simp add: compact_iter_next_def read_u32_drop subslice_body_drop [OF d])
  ultimately show ?case by (subst compact_iter_collect.simps) simp
qed

end
