(* ===== verification/List_Data.thy ===== *)
theory List_Data
  imports Frames
begin

text \<open>
  The dual-encoded list of \<^verbatim>\<open>list_data.rs\<close>: a \<^verbatim>\<open>CompactList\<close> packs the elements into one
  buffer of length-prefixed frames with headroom in front and a table of absolute
  \<^verbatim>\<open>u32\<close> offsets; a \<^verbatim>\<open>LinkedList\<close> is a deque with a cached byte total. Pushes promote
  Compact to Linked when a threshold is passed, removals demote it again.

  The first part translates every operation, panics included. The second part gives the
  relation between an encoding and the plain list of its elements and shows that every
  operation refines the plain list operation, never panics, and keeps the cached totals.
  The thresholds are process-wide atomics in the code; here each operation takes the
  snapshot it reads as an argument.
\<close>

section \<open>Thresholds\<close>

record list_thresholds =
  lt_max_entries :: nat
  lt_max_size :: nat
  lt_max_elem :: nat
  lt_demote_entries :: nat

definition default_list_thresholds :: list_thresholds where
  "default_list_thresholds =
     \<lparr>lt_max_entries = 512, lt_max_size = 8192, lt_max_elem = 256, lt_demote_entries = 128\<rparr>"

section \<open>The linked encoding\<close>

record linked_list =
  ll_items :: "bytes list"
  ll_bytes :: nat

definition ll_with_capacity :: "nat \<Rightarrow> nat \<Rightarrow> linked_list" where
  "ll_with_capacity n pl = \<lparr>ll_items = [], ll_bytes = pl\<rparr>"

definition ll_from_deque :: "bytes list \<Rightarrow> linked_list" where
  "ll_from_deque items = \<lparr>ll_items = items, ll_bytes = sum_list (map length items)\<rparr>"

definition ll_len :: "linked_list \<Rightarrow> nat" where
  "ll_len d = length (ll_items d)"

definition ll_push_front :: "linked_list \<Rightarrow> bytes \<Rightarrow> linked_list" where
  "ll_push_front d v = \<lparr>ll_items = v # ll_items d, ll_bytes = ll_bytes d + length v\<rparr>"

definition ll_push_back :: "linked_list \<Rightarrow> bytes \<Rightarrow> linked_list" where
  "ll_push_back d v = \<lparr>ll_items = ll_items d @ [v], ll_bytes = ll_bytes d + length v\<rparr>"

text \<open>\<^verbatim>\<open>saturating_sub\<close> is subtraction on \<^typ>\<open>nat\<close>.\<close>

definition ll_pop_front :: "linked_list \<Rightarrow> bytes option \<times> linked_list" where
  "ll_pop_front d = (case ll_items d of
     [] \<Rightarrow> (None, d)
   | v # vs \<Rightarrow> (Some v, \<lparr>ll_items = vs, ll_bytes = ll_bytes d - length v\<rparr>))"

definition ll_pop_back :: "linked_list \<Rightarrow> bytes option \<times> linked_list" where
  "ll_pop_back d =
     (if ll_items d = [] then (None, d)
      else let v = last (ll_items d)
           in (Some v, \<lparr>ll_items = butlast (ll_items d), ll_bytes = ll_bytes d - length v\<rparr>))"

section \<open>The compact encoding\<close>

record compact_list =
  cl_buf :: bytes
  cl_head :: nat
  cl_len :: nat
  cl_bytes :: nat
  cl_offsets :: "u32 list"
  cl_off_head :: nat

definition cl_new :: compact_list where
  "cl_new = \<lparr>cl_buf = replicate 128 0, cl_head = 128, cl_len = 0, cl_bytes = 0,
     cl_offsets = replicate 16 0, cl_off_head = 16\<rparr>"

definition cl_with_capacity :: "nat \<Rightarrow> nat \<Rightarrow> compact_list" where
  "cl_with_capacity n_elems pl = \<lparr>cl_buf = [], cl_head = 0, cl_len = 0, cl_bytes = 0,
     cl_offsets = [], cl_off_head = 0\<rparr>"

definition cl_off_at :: "compact_list \<Rightarrow> nat \<Rightarrow> u32 option" where
  "cl_off_at c i = index (cl_offsets c) (cl_off_head c + i)"

text \<open>The live window of the offset table, rewritten in place.\<close>

definition cl_set_window :: "compact_list \<Rightarrow> u32 list \<Rightarrow> u32 list" where
  "cl_set_window c w =
     take (cl_off_head c) (cl_offsets c) @ w @ drop (cl_off_head c + cl_len c) (cl_offsets c)"

definition cl_ensure_front_room :: "compact_list \<Rightarrow> nat \<Rightarrow> compact_list option" where
  "cl_ensure_front_room c need =
     (if cl_head c \<ge> need then Some c
      else do {
        live \<leftarrow> usub (length (cl_buf c)) (cl_head c);
        let spare = max (max (max (need * 8) (live div 2)) 64) need;
        tail \<leftarrow> subslice (cl_buf c) (cl_head c) (length (cl_buf c));
        let delta = int spare - int (cl_head c);
        window \<leftarrow> subslice (cl_offsets c) (cl_off_head c) (cl_off_head c + cl_len c);
        Some (c\<lparr>cl_buf := replicate spare 0 @ tail, cl_head := spare,
                cl_offsets := cl_set_window c (map (\<lambda>o'. word_of_int (uint o' + delta)) window)\<rparr>)
      })"

definition cl_ensure_off_front_room :: "compact_list \<Rightarrow> compact_list option" where
  "cl_ensure_off_front_room c =
     (if cl_off_head c > 0 then Some c
      else do {
        let spare = max (cl_len c) 8;
        window \<leftarrow> subslice (cl_offsets c) (cl_off_head c) (cl_off_head c + cl_len c);
        Some (c\<lparr>cl_offsets := replicate spare 0 @ window, cl_off_head := spare\<rparr>)
      })"

definition cl_push_back :: "compact_list \<Rightarrow> bytes \<Rightarrow> compact_list" where
  "cl_push_back c v =
     (let off = of_nat (length (cl_buf c)) :: u32;
          end' = cl_off_head c + cl_len c;
          offs = (if end' < length (cl_offsets c) then take end' (cl_offsets c) else cl_offsets c)
      in c\<lparr>cl_offsets := offs @ [off],
           cl_buf := cl_buf c @ u32_le (length v) @ v,
           cl_len := cl_len c + 1,
           cl_bytes := cl_bytes c + length v\<rparr>)"

definition cl_push_front :: "compact_list \<Rightarrow> bytes \<Rightarrow> compact_list option" where
  "cl_push_front c v = do {
     let insert' = 4 + length v;
     c1 \<leftarrow> cl_ensure_front_room c insert';
     c2 \<leftarrow> cl_ensure_off_front_room c1;
     head \<leftarrow> usub (cl_head c2) insert';
     b1 \<leftarrow> copy_slice (cl_buf c2) head (head + 4) (u32_le (length v));
     b2 \<leftarrow> copy_slice b1 (head + 4) (head + insert') v;
     off_head \<leftarrow> usub (cl_off_head c2) 1;
     offs \<leftarrow> index_set (cl_offsets c2) off_head (of_nat head);
     Some (c2\<lparr>cl_buf := b2, cl_head := head, cl_off_head := off_head, cl_offsets := offs,
              cl_len := cl_len c2 + 1, cl_bytes := cl_bytes c2 + length v\<rparr>)
   }"

text \<open>\<^verbatim>\<open>*o -= self.head as u32\<close>.\<close>

definition u32_sub :: "u32 \<Rightarrow> u32 \<Rightarrow> u32 option" where
  "u32_sub a b = (if b \<le> a then Some (a - b) else None)"

definition cl_reclaim_prefix :: "compact_list \<Rightarrow> compact_list option" where
  "cl_reclaim_prefix c = do {
     live \<leftarrow> usub (length (cl_buf c)) (cl_head c);
     if cl_head c > 4096 \<and> cl_head c > live then do {
       new_buf \<leftarrow> subslice (cl_buf c) (cl_head c) (length (cl_buf c));
       window \<leftarrow> subslice (cl_offsets c) (cl_off_head c) (cl_off_head c + cl_len c);
       window' \<leftarrow> those (map (\<lambda>o'. u32_sub o' (of_nat (cl_head c))) window);
       Some (c\<lparr>cl_offsets := cl_set_window c window', cl_buf := new_buf, cl_head := 0\<rparr>)
     } else Some c
   }"

definition cl_compact_offsets :: "compact_list \<Rightarrow> compact_list option" where
  "cl_compact_offsets c =
     (if cl_off_head c > 64 \<and> cl_off_head c > cl_len c then do {
        window \<leftarrow> subslice (cl_offsets c) (cl_off_head c) (cl_off_head c + cl_len c);
        Some (c\<lparr>cl_offsets := window, cl_off_head := 0\<rparr>)
      } else Some c)"

definition cl_pop_front :: "compact_list \<Rightarrow> (bytes option \<times> compact_list) option" where
  "cl_pop_front c =
     (if cl_len c = 0 then Some (None, c)
      else do {
        let off = cl_head c;
        n \<leftarrow> read_u32 (cl_buf c) off;
        val \<leftarrow> subslice (cl_buf c) (off + 4) (off + 4 + n);
        len' \<leftarrow> usub (cl_len c) 1;
        bytes' \<leftarrow> usub (cl_bytes c) n;
        let c1 = c\<lparr>cl_head := cl_head c + (4 + n), cl_off_head := cl_off_head c + 1,
                   cl_len := len', cl_bytes := bytes'\<rparr>;
        c2 \<leftarrow> cl_reclaim_prefix c1;
        c3 \<leftarrow> cl_compact_offsets c2;
        Some (Some val, c3)
      })"

definition cl_pop_back :: "compact_list \<Rightarrow> (bytes option \<times> compact_list) option" where
  "cl_pop_back c =
     (if cl_len c = 0 then Some (None, c)
      else do {
        o' \<leftarrow> cl_off_at c (cl_len c - 1);
        let last_start = unat o';
        last_n \<leftarrow> read_u32 (cl_buf c) last_start;
        val \<leftarrow> subslice (cl_buf c) (last_start + 4) (last_start + 4 + last_n);
        end' \<leftarrow> usub (cl_off_head c + cl_len c) 1;
        bytes' \<leftarrow> usub (cl_bytes c) last_n;
        Some (Some val, c\<lparr>cl_buf := take last_start (cl_buf c),
                          cl_offsets := take end' (cl_offsets c),
                          cl_len := cl_len c - 1, cl_bytes := bytes'\<rparr>)
      })"

definition cl_get :: "compact_list \<Rightarrow> nat \<Rightarrow> bytes option option" where
  "cl_get c i =
     (if i \<ge> cl_len c then Some None
      else do {
        o' \<leftarrow> cl_off_at c i;
        let off = unat o';
        n \<leftarrow> read_u32 (cl_buf c) off;
        v \<leftarrow> subslice (cl_buf c) (off + 4) (off + 4 + n);
        Some (Some v)
      })"

definition cl_range_iter :: "compact_list \<Rightarrow> nat \<Rightarrow> nat \<Rightarrow> (nat \<times> nat) option" where
  "cl_range_iter c start stop =
     (if start \<le> stop \<and> stop < cl_len c then do {
        o' \<leftarrow> cl_off_at c start;
        Some (unat o', stop - start + 1)
      } else None)"

definition cl_range_bytes :: "compact_list \<Rightarrow> nat \<Rightarrow> nat \<Rightarrow> bytes list option" where
  "cl_range_bytes c start stop = do {
     (off, remaining) \<leftarrow> cl_range_iter c start stop;
     compact_iter_collect (cl_buf c) off remaining
   }"

text \<open>The byte region of a range, as \<^verbatim>\<open>range_region\<close> and \<^verbatim>\<open>range_snap\<close> compute it.\<close>

definition cl_range_ends :: "compact_list \<Rightarrow> nat \<Rightarrow> nat \<Rightarrow> (nat \<times> nat) option" where
  "cl_range_ends c start stop = do {
     b \<leftarrow> cl_off_at c start;
     e \<leftarrow> cl_off_at c stop;
     end_n \<leftarrow> read_u32 (cl_buf c) (unat e);
     Some (unat b, unat e + 4 + end_n)
   }"

definition cl_range_region :: "compact_list \<Rightarrow> nat \<Rightarrow> nat \<Rightarrow> bytes option" where
  "cl_range_region c start stop =
     (if start \<le> stop \<and> stop < cl_len c then do {
        (b, e) \<leftarrow> cl_range_ends c start stop;
        subslice (cl_buf c) b e
      } else None)"

record compact_range_snap =
  crs_buf :: bytes
  crs_begin :: nat
  crs_end :: nat
  crs_count :: nat
  crs_need :: nat

definition cl_range_snap :: "compact_list \<Rightarrow> nat \<Rightarrow> nat \<Rightarrow> compact_range_snap option" where
  "cl_range_snap c start stop =
     (if start \<le> stop \<and> stop < cl_len c then do {
        (b, e) \<leftarrow> cl_range_ends c start stop;
        let count = stop - start + 1;
        region_len \<leftarrow> usub e b;
        let pl = region_len - count * 4;
        let need = 16 + count * 12 + pl;
        Some \<lparr>crs_buf = cl_buf c, crs_begin = b, crs_end = e, crs_count = count, crs_need = need\<rparr>
      } else None)"

definition cl_range_resp_need :: "compact_list \<Rightarrow> nat \<Rightarrow> nat \<Rightarrow> nat option" where
  "cl_range_resp_need c start stop = do {
     d \<leftarrow> usub stop start;
     let count = d + 1;
     (b, e) \<leftarrow> cl_range_ends c start stop;
     region_len \<leftarrow> usub e b;
     let pl = region_len - count * 4;
     Some (16 + count * 12 + pl)
   }"

definition cl_iter_elements :: "compact_list \<Rightarrow> bytes list option" where
  "cl_iter_elements c = do {
     off \<leftarrow> (if cl_len c = 0 then Some (cl_head c) else map_option unat (cl_off_at c 0));
     compact_iter_collect (cl_buf c) off (cl_len c)
   }"

section \<open>The dual encoding\<close>

datatype list_data = ListCompact compact_list | ListLinked linked_list

definition listdata_new :: list_data where
  "listdata_new = ListCompact cl_new"

definition listdata_from_linked :: "bytes list \<Rightarrow> list_data" where
  "listdata_from_linked d = ListLinked (ll_from_deque d)"

fun listdata_len :: "list_data \<Rightarrow> nat" where
  "listdata_len (ListCompact c) = cl_len c"
| "listdata_len (ListLinked d) = ll_len d"

definition listdata_is_empty :: "list_data \<Rightarrow> bool" where
  "listdata_is_empty l \<longleftrightarrow> listdata_len l = 0"

fun listdata_encoding_name :: "list_data \<Rightarrow> string" where
  "listdata_encoding_name (ListCompact c) = ''listpack''"
| "listdata_encoding_name (ListLinked d) = ''linkedlist''"

fun listdata_payload_bytes :: "list_data \<Rightarrow> nat" where
  "listdata_payload_bytes (ListCompact c) = cl_bytes c"
| "listdata_payload_bytes (ListLinked d) = ll_bytes d"

fun listdata_ensure_linked :: "list_data \<Rightarrow> linked_list option" where
  "listdata_ensure_linked (ListLinked d) = Some d"
| "listdata_ensure_linked (ListCompact c) = do {
     let pl = cl_bytes c;
     let d = ll_with_capacity (cl_len c + cl_len c div 2 + 16) 0;
     es \<leftarrow> cl_iter_elements c;
     let d' = fold (\<lambda>e d. ll_push_back d e) es d;
     Some (d'\<lparr>ll_bytes := pl\<rparr>)
   }"

text \<open>The loop of \<^verbatim>\<open>maybe_demote\<close> that looks for an element or a total too large.\<close>

fun demote_fits :: "nat \<Rightarrow> nat \<Rightarrow> nat \<Rightarrow> bytes list \<Rightarrow> bool" where
  "demote_fits max_elem max_size tot [] \<longleftrightarrow> True"
| "demote_fits max_elem max_size tot (e # es) \<longleftrightarrow>
     (if length e > max_elem then False
      else if tot + length e > max_size then False
      else demote_fits max_elem max_size (tot + length e) es)"

definition ll_maybe_demote :: "list_thresholds \<Rightarrow> linked_list \<Rightarrow> list_data" where
  "ll_maybe_demote thr d =
     (if ll_len d > lt_demote_entries thr then ListLinked d
      else if \<not> demote_fits (lt_max_elem thr) (lt_max_size thr) 0 (ll_items d) then ListLinked d
      else let tot = sum_list (map length (ll_items d));
               c = cl_with_capacity (ll_len d) tot
           in ListCompact (fold (\<lambda>e c. cl_push_back c e) (ll_items d) c))"

fun listdata_maybe_demote :: "list_thresholds \<Rightarrow> list_data \<Rightarrow> list_data" where
  "listdata_maybe_demote thr (ListCompact c) = ListCompact c"
| "listdata_maybe_demote thr (ListLinked d) = ll_maybe_demote thr d"

fun listdata_should_promote_after_push :: "list_thresholds \<Rightarrow> list_data \<Rightarrow> nat \<Rightarrow> bool" where
  "listdata_should_promote_after_push thr (ListLinked d) elem_len \<longleftrightarrow> False"
| "listdata_should_promote_after_push thr (ListCompact c) elem_len \<longleftrightarrow>
     elem_len > lt_max_elem thr \<or> cl_len c + 1 > lt_max_entries thr
       \<or> cl_bytes c + elem_len > lt_max_size thr"

fun listdata_push_front :: "list_thresholds \<Rightarrow> list_data \<Rightarrow> bytes \<Rightarrow> list_data option" where
  "listdata_push_front thr (ListLinked d) v = Some (ListLinked (ll_push_front d v))"
| "listdata_push_front thr (ListCompact c) v =
     (if listdata_should_promote_after_push thr (ListCompact c) (length v) then do {
        d \<leftarrow> listdata_ensure_linked (ListCompact c);
        Some (ListLinked (ll_push_front d v))
      } else map_option ListCompact (cl_push_front c v))"

fun listdata_push_back :: "list_thresholds \<Rightarrow> list_data \<Rightarrow> bytes \<Rightarrow> list_data option" where
  "listdata_push_back thr (ListLinked d) v = Some (ListLinked (ll_push_back d v))"
| "listdata_push_back thr (ListCompact c) v =
     (if listdata_should_promote_after_push thr (ListCompact c) (length v) then do {
        d \<leftarrow> listdata_ensure_linked (ListCompact c);
        Some (ListLinked (ll_push_back d v))
      } else Some (ListCompact (cl_push_back c v)))"

text \<open>\<^verbatim>\<open>if v.is_some() { self.maybe_demote() }\<close>.\<close>

definition demote_if_some ::
    "list_thresholds \<Rightarrow> bytes option \<times> list_data \<Rightarrow> bytes option \<times> list_data" where
  "demote_if_some thr r = (case r of
     (None, l) \<Rightarrow> (None, l)
   | (Some v, l) \<Rightarrow> (Some v, listdata_maybe_demote thr l))"

fun listdata_pop_front :: "list_thresholds \<Rightarrow> list_data \<Rightarrow> (bytes option \<times> list_data) option" where
  "listdata_pop_front thr (ListCompact c) =
     map_option (\<lambda>(v, c'). demote_if_some thr (v, ListCompact c')) (cl_pop_front c)"
| "listdata_pop_front thr (ListLinked d) =
     Some (case ll_pop_front d of (v, d') \<Rightarrow> demote_if_some thr (v, ListLinked d'))"

fun listdata_pop_back :: "list_thresholds \<Rightarrow> list_data \<Rightarrow> (bytes option \<times> list_data) option" where
  "listdata_pop_back thr (ListCompact c) =
     map_option (\<lambda>(v, c'). demote_if_some thr (v, ListCompact c')) (cl_pop_back c)"
| "listdata_pop_back thr (ListLinked d) =
     Some (case ll_pop_back d of (v, d') \<Rightarrow> demote_if_some thr (v, ListLinked d'))"

fun listdata_get :: "list_data \<Rightarrow> nat \<Rightarrow> bytes option option" where
  "listdata_get (ListCompact c) i = cl_get c i"
| "listdata_get (ListLinked d) i = Some (index (ll_items d) i)"

definition listdata_set ::
    "list_data \<Rightarrow> nat \<Rightarrow> bytes \<Rightarrow> ((bool \<times> int) \<times> list_data) option" where
  "listdata_set l i v = do {
     d \<leftarrow> listdata_ensure_linked l;
     if i < ll_len d then do {
       old \<leftarrow> index (ll_items d) i;
       let old_len = length old;
       let delta = int (length v) - int old_len;
       Some ((True, delta),
             ListLinked \<lparr>ll_items = (ll_items d)[i := v],
                         ll_bytes = ll_bytes d - old_len + length v\<rparr>)
     } else Some ((False, 0), ListLinked d)
   }"

definition ll_insert :: "linked_list \<Rightarrow> nat \<Rightarrow> bytes \<Rightarrow> linked_list" where
  "ll_insert d pos v = \<lparr>ll_items = take pos (ll_items d) @ v # drop pos (ll_items d),
     ll_bytes = ll_bytes d + length v\<rparr>"

definition listdata_insert_before ::
    "list_data \<Rightarrow> bytes \<Rightarrow> bytes \<Rightarrow> (nat option \<times> list_data) option" where
  "listdata_insert_before l pivot v = do {
     d \<leftarrow> listdata_ensure_linked l;
     case position (\<lambda>x. x = pivot) (ll_items d) of
       Some pos \<Rightarrow> (let d' = ll_insert d pos v in Some (Some (ll_len d'), ListLinked d'))
     | None \<Rightarrow> Some (None, ListLinked d)
   }"

definition listdata_insert_after ::
    "list_data \<Rightarrow> bytes \<Rightarrow> bytes \<Rightarrow> (nat option \<times> list_data) option" where
  "listdata_insert_after l pivot v = do {
     d \<leftarrow> listdata_ensure_linked l;
     case position (\<lambda>x. x = pivot) (ll_items d) of
       Some pos \<Rightarrow> (let d' = ll_insert d (pos + 1) v in Some (Some (ll_len d'), ListLinked d'))
     | None \<Rightarrow> Some (None, ListLinked d)
   }"

text \<open>
  The three loops of \<^verbatim>\<open>rem\<close> over the drained deque: all occurrences, the first \<open>left\<close>
  from the head, the first \<open>left\<close> from the tail. Each keeps \<open>(removed, keep, new_bytes)\<close>.
\<close>

fun rem_all :: "bytes \<Rightarrow> bytes list \<Rightarrow> nat \<times> bytes list \<times> nat \<Rightarrow> nat \<times> bytes list \<times> nat" where
  "rem_all elem [] st = st"
| "rem_all elem (x # xs) (removed, kept, nb) =
     (if x = elem then rem_all elem xs (removed + 1, kept, nb)
      else rem_all elem xs (removed, kept @ [x], nb + length x))"

fun rem_head :: "bytes \<Rightarrow> nat \<Rightarrow> bytes list \<Rightarrow> nat \<times> bytes list \<times> nat \<Rightarrow> nat \<times> bytes list \<times> nat" where
  "rem_head elem left [] st = st"
| "rem_head elem left (x # xs) (removed, keep, nb) =
     (if left > 0 \<and> x = elem then rem_head elem (left - 1) xs (removed + 1, keep, nb)
      else rem_head elem left xs (removed, keep @ [x], nb + length x))"

fun rem_tail :: "bytes \<Rightarrow> nat \<Rightarrow> bytes list \<Rightarrow> nat \<times> bytes list \<times> nat \<Rightarrow> nat \<times> bytes list \<times> nat" where
  "rem_tail elem left [] st = st"
| "rem_tail elem left (x # xs) (removed, keep, nb) =
     (if left > 0 \<and> x = elem then rem_tail elem (left - 1) xs (removed + 1, keep, nb)
      else rem_tail elem left xs (removed, x # keep, nb + length x))"

definition listdata_rem ::
    "list_thresholds \<Rightarrow> list_data \<Rightarrow> int \<Rightarrow> bytes \<Rightarrow> ((nat \<times> int) \<times> list_data) option" where
  "listdata_rem thr l count elem = do {
     d \<leftarrow> listdata_ensure_linked l;
     let (removed, items, nb) =
       (if count = 0 then rem_all elem (ll_items d) (0, [], 0)
        else if count > 0 then rem_head elem (nat count) (ll_items d) (0, [], 0)
        else rem_tail elem (nat \<bar>count\<bar>) (rev (ll_items d)) (0, [], 0));
     let d' = \<lparr>ll_items = items, ll_bytes = nb\<rparr>;
     let l' = (if removed > 0 then listdata_maybe_demote thr (ListLinked d') else ListLinked d');
     let delta = - int (removed * length elem);
     Some ((removed, delta), l')
   }"

lemma ll_pop_back_shrinks:
  "ll_items d \<noteq> [] \<Longrightarrow> length (ll_items (snd (ll_pop_back d))) < length (ll_items d)"
  by (simp add: ll_pop_back_def Let_def)

text \<open>\<^verbatim>\<open>while d.len() > stop + 1\<close> and \<^verbatim>\<open>for _ in 0..start\<close> of \<^verbatim>\<open>trim\<close>.\<close>

definition popped_len :: "bytes option \<Rightarrow> int" where
  "popped_len v = (case v of Some b \<Rightarrow> int (length b) | None \<Rightarrow> 0)"

function ll_trim_tail :: "linked_list \<Rightarrow> nat \<Rightarrow> int \<Rightarrow> linked_list \<times> int" where
  "ll_trim_tail d stop dropped =
     (if ll_len d > stop + 1
      then ll_trim_tail (snd (ll_pop_back d)) stop (dropped + popped_len (fst (ll_pop_back d)))
      else (d, dropped))"
  by pat_completeness auto
termination
  by (relation "measure (\<lambda>(d, stop, dropped). ll_len d)")
    (auto simp: ll_len_def intro!: ll_pop_back_shrinks)

declare ll_trim_tail.simps [simp del]

fun ll_trim_head :: "linked_list \<Rightarrow> nat \<Rightarrow> int \<Rightarrow> linked_list \<times> int" where
  "ll_trim_head d 0 dropped = (d, dropped)"
| "ll_trim_head d (Suc n) dropped =
     ll_trim_head (snd (ll_pop_front d)) n (dropped + popped_len (fst (ll_pop_front d)))"

definition listdata_trim ::
    "list_thresholds \<Rightarrow> list_data \<Rightarrow> nat \<Rightarrow> nat \<Rightarrow> (int \<times> list_data) option" where
  "listdata_trim thr l start stop = do {
     d \<leftarrow> listdata_ensure_linked l;
     (delta, d') \<leftarrow>
       (if start \<ge> ll_len d \<or> start > stop
        then Some (- int (ll_bytes d), \<lparr>ll_items = [], ll_bytes = 0\<rparr>)
        else do {
          m \<leftarrow> usub (ll_len d) 1;
          let stop' = min stop m;
          let (d1, dropped1) = ll_trim_tail d stop' 0;
          let (d2, dropped2) = ll_trim_head d1 start dropped1;
          Some (- dropped2, d2)
        });
     Some (delta, listdata_maybe_demote thr (ListLinked d'))
   }"

definition listdata_range_bytes :: "list_data \<Rightarrow> nat \<Rightarrow> nat \<Rightarrow> bytes list option" where
  "listdata_range_bytes l start stop =
     (if listdata_is_empty l \<or> start > stop then Some []
      else do {
        m \<leftarrow> usub (listdata_len l) 1;
        let stop' = min stop m;
        if start \<ge> listdata_len l then Some []
        else (case l of
          ListCompact c \<Rightarrow> cl_range_bytes c start stop'
        | ListLinked d \<Rightarrow> subslice (ll_items d) start (stop' + 1))
      })"

fun listdata_to_vec_bytes :: "list_data \<Rightarrow> bytes list option" where
  "listdata_to_vec_bytes (ListCompact c) = cl_iter_elements c"
| "listdata_to_vec_bytes (ListLinked d) = Some (ll_items d)"

definition listdata_iter_lens :: "list_data \<Rightarrow> nat list option" where
  "listdata_iter_lens l = map_option (map length) (listdata_to_vec_bytes l)"

section \<open>Abstract content of a compact list\<close>

text \<open>Where the frames of \<open>vs\<close> start when the first starts at \<open>h\<close>.\<close>

fun frame_offs :: "nat \<Rightarrow> bytes list \<Rightarrow> nat list" where
  "frame_offs h [] = []"
| "frame_offs h (v # vs) = h # frame_offs (h + 4 + length v) vs"

text \<open>
  The compact list with dead prefix \<open>pre\<close>, elements \<open>vs\<close>, and spare offset slots
  \<open>opre\<close> and \<open>opost\<close> around the live window: every well-formed compact list has this shape.
\<close>

definition cl_rep :: "bytes \<Rightarrow> bytes list \<Rightarrow> u32 list \<Rightarrow> u32 list \<Rightarrow> compact_list" where
  "cl_rep pre vs opre opost = \<lparr>cl_buf = pre @ pks vs, cl_head = length pre, cl_len = length vs,
     cl_bytes = payload vs, cl_offsets = opre @ map of_nat (frame_offs (length pre) vs) @ opost,
     cl_off_head = length opre\<rparr>"

lemma cl_rep_sel [simp]:
  "cl_buf (cl_rep pre vs opre opost) = pre @ pks vs"
  "cl_head (cl_rep pre vs opre opost) = length pre"
  "cl_len (cl_rep pre vs opre opost) = length vs"
  "cl_bytes (cl_rep pre vs opre opost) = payload vs"
  "cl_offsets (cl_rep pre vs opre opost) = opre @ map of_nat (frame_offs (length pre) vs) @ opost"
  "cl_off_head (cl_rep pre vs opre opost) = length opre"
  by (simp_all add: cl_rep_def)

definition cl_rel :: "compact_list \<Rightarrow> bytes list \<Rightarrow> bool" where
  "cl_rel c vs \<longleftrightarrow>
     (\<exists>pre opre opost. c = cl_rep pre vs opre opost) \<and> length (cl_buf c) < 2 ^ 32"

lemma length_frame_offs [simp]: "length (frame_offs h vs) = length vs"
  by (induction vs arbitrary: h) auto

lemma frame_offs_append [simp]:
  "frame_offs h (vs @ ws) = frame_offs h vs @ frame_offs (h + length (pks vs)) ws"
  by (induction vs arbitrary: h) (auto simp: algebra_simps)

lemma frame_offs_nth:
  "i < length vs \<Longrightarrow> frame_offs h vs ! i = h + length (pks (take i vs))"
proof (induction vs arbitrary: h i)
  case (Cons v vs)
  then show ?case by (cases i) (auto simp: algebra_simps)
qed simp

lemma frame_offs_shift: "frame_offs (h + k) vs = map (\<lambda>x. x + k) (frame_offs h vs)"
proof (induction vs arbitrary: h)
  case (Cons v vs)
  then show ?case using Cons.IH [of "h + 4 + length v"] by (simp add: algebra_simps)
qed simp

lemma frame_offs_ge: "x \<in> set (frame_offs h vs) \<Longrightarrow> h \<le> x"
  by (induction vs arbitrary: h) force+

lemma frame_offs_less: "x \<in> set (frame_offs h vs) \<Longrightarrow> x < h + length (pks vs)"
  by (induction vs arbitrary: h) force+

lemma unat_of_nat_u32: "x < 2 ^ 32 \<Longrightarrow> unat (of_nat x :: u32) = x"
  by (simp add: unat_of_nat take_bit_eq_mod)

lemma cl_relI: "length pre + length (pks vs) < 2 ^ 32 \<Longrightarrow> cl_rel (cl_rep pre vs opre opost) vs"
  by (auto simp: cl_rel_def cl_rep_def)

lemma cl_relE:
  assumes "cl_rel c vs"
  obtains pre opre opost where "c = cl_rep pre vs opre opost"
    and "length pre + length (pks vs) < 2 ^ 32"
  using assms by (auto simp: cl_rel_def cl_rep_def)

subsection \<open>Reading\<close>

lemma cl_off_at_rep:
  assumes "i < length vs" and "length pre + length (pks vs) < 2 ^ 32"
  shows "\<exists>o'. cl_off_at (cl_rep pre vs opre opost) i = Some o'
    \<and> unat o' = length pre + length (pks (take i vs))"
proof -
  have "length (pks (take i vs)) \<le> length (pks vs)"
    by (metis append_take_drop_id length_append pks_append le_add1)
  then show ?thesis using assms
    by (simp add: cl_off_at_def cl_rep_def index_def nth_append frame_offs_nth unat_of_nat_u32
        del: of_nat_add)
qed

lemma drop_frame:
  assumes "i < length vs"
  shows "drop (length pre + length (pks (take i vs))) (pre @ pks vs)
     = pk (vs ! i) @ pks (drop (Suc i) vs)"
proof -
  have "vs = take i vs @ (vs ! i) # drop (Suc i) vs"
    using assms by (rule id_take_nth_drop)
  then have "pks vs = pks (take i vs) @ pk (vs ! i) @ pks (drop (Suc i) vs)"
    by (metis pks_Cons pks_append)
  then show ?thesis by simp
qed

lemma cl_get_rel [refine_simps]:
  assumes "cl_rel c vs"
  shows "cl_get c i = Some (if i < length vs then Some (vs ! i) else None)"
proof (cases "i < length vs")
  case False
  with assms show ?thesis by (auto simp: cl_get_def cl_rep_def elim!: cl_relE)
next
  case True
  from assms obtain pre opre opost where c: "c = cl_rep pre vs opre opost"
    and b: "length pre + length (pks vs) < 2 ^ 32" by (rule cl_relE)
  obtain o' where o': "cl_off_at c i = Some o'" "unat o' = length pre + length (pks (take i vs))"
    using cl_off_at_rep [OF True b] c by blast
  have f: "fits (vs ! i)" using True b by (intro fits_of_bound [of _ vs]) auto
  have "cl_len c = length vs" and "cl_buf c = pre @ pks vs" by (simp_all add: c cl_rep_def)
  then show ?thesis
    using True o' f drop_frame [OF True, of pre]
    by (simp add: cl_get_def read_u32_drop subslice_body_drop)
qed

lemma cl_iter_elements_rel [refine_simps]:
  assumes "cl_rel c vs"
  shows "cl_iter_elements c = Some vs"
proof -
  from assms obtain pre opre opost where c: "c = cl_rep pre vs opre opost"
    and b: "length pre + length (pks vs) < 2 ^ 32" by (rule cl_relE)
  have f: "\<forall>v \<in> set vs. fits v" using b by (auto intro: fits_of_bound)
  have coll: "compact_iter_collect (pre @ pks vs) (length pre) (length vs) = Some vs"
    using f by (intro compact_iter_collect_pks [where post = "[]"]) simp_all
  show ?thesis
  proof (cases vs)
    case Nil
    then show ?thesis using coll by (simp add: cl_iter_elements_def c cl_rep_def)
  next
    case (Cons v vs')
    then obtain o' where "cl_off_at c 0 = Some o'" "unat o' = length pre"
      using cl_off_at_rep [of 0 vs pre opre opost] b c by auto
    then show ?thesis using coll Cons by (simp add: cl_iter_elements_def c cl_rep_def)
  qed
qed

lemma cl_range_bytes_rel [refine_simps]:
  assumes "cl_rel c vs" and "start \<le> stop" and "stop < length vs"
  shows "cl_range_bytes c start stop = Some (take (stop - start + 1) (drop start vs))"
proof -
  from assms(1) obtain pre opre opost where c: "c = cl_rep pre vs opre opost"
    and b: "length pre + length (pks vs) < 2 ^ 32" by (rule cl_relE)
  let ?ws = "take (stop - start + 1) (drop start vs)"
  let ?rest = "drop (stop - start + 1) (drop start vs)"
  have f: "\<forall>v \<in> set ?ws. fits v" using b
    by (meson fits_of_bound in_set_dropD in_set_takeD le_add2 order_le_less_trans)
  have start: "start < length vs" using assms by simp
  obtain o' where o': "cl_off_at c start = Some o'"
      "unat o' = length pre + length (pks (take start vs))"
    using cl_off_at_rep [OF start b] c by blast
  have "pks vs = pks (take start vs) @ pks ?ws @ pks ?rest"
    by (metis append_take_drop_id pks_append)
  then have "drop (unat o') (pre @ pks vs) = pks ?ws @ pks ?rest" using o' by simp
  moreover have "length ?ws = stop - start + 1" using assms by simp
  ultimately have "compact_iter_collect (pre @ pks vs) (unat o') (stop - start + 1) = Some ?ws"
    using compact_iter_collect_pks [of "unat o'" "pre @ pks vs" ?ws "pks ?rest"] f by simp
  moreover have "cl_len c = length vs" and "cl_buf c = pre @ pks vs" by (simp_all add: c cl_rep_def)
  ultimately show ?thesis
    using assms o' by (simp add: cl_range_bytes_def cl_range_iter_def)
qed

subsection \<open>Pushing\<close>

lemma cl_new_rep: "cl_new = cl_rep (replicate 128 0) [] (replicate 16 0) []"
  by (simp add: cl_new_def cl_rep_def)

lemma cl_with_capacity_rep: "cl_with_capacity n pl = cl_rep [] [] [] []"
  by (simp add: cl_with_capacity_def cl_rep_def)

lemma cl_push_back_rep:
  "cl_push_back (cl_rep pre vs opre opost) v = cl_rep pre (vs @ [v]) opre []"
  by (simp add: cl_push_back_def cl_rep_def Let_def pk_def)

lemma fold_cl_push_back:
  "fold (\<lambda>e c. cl_push_back c e) ws (cl_rep pre vs opre []) = cl_rep pre (vs @ ws) opre []"
  by (induction ws arbitrary: vs) (simp_all add: cl_push_back_rep)

lemma cl_window_rep:
  "subslice (cl_offsets (cl_rep pre vs opre opost)) (cl_off_head (cl_rep pre vs opre opost))
     (cl_off_head (cl_rep pre vs opre opost) + cl_len (cl_rep pre vs opre opost))
   = Some (map of_nat (frame_offs (length pre) vs))"
  by (simp add: cl_rep_def subslice_def)

lemma shift_window:
  "map (\<lambda>o'. word_of_int (uint o' + (int spare - int h)) :: u32)
      (map (of_nat :: nat \<Rightarrow> u32) (frame_offs h vs)) = map of_nat (frame_offs spare vs)"
proof -
  have eq: "word_of_int (uint o' + (int spare - int h)) = o' + (of_nat spare - of_nat h)" for o' :: u32
    by simp
  show ?thesis
    unfolding eq map_map comp_def frame_offs_shift [of 0 h, simplified]
      frame_offs_shift [of 0 spare, simplified] by simp
qed

definition front_spare :: "nat \<Rightarrow> nat \<Rightarrow> nat" where
  "front_spare need live = max (max (max (need * 8) (live div 2)) 64) need"

lemma cl_ensure_front_room_rep:
  "cl_ensure_front_room (cl_rep pre vs opre opost) need =
     Some (cl_rep (if need \<le> length pre then pre
                   else replicate (front_spare need (length (pks vs))) 0) vs opre opost)"
proof (cases "need \<le> length pre")
  case True
  then show ?thesis by (simp add: cl_ensure_front_room_def cl_rep_def)
next
  case False
  let ?c = "cl_rep pre vs opre opost"
  have sel: "cl_head ?c = length pre" "cl_buf ?c = pre @ pks vs"
    by (simp_all add: cl_rep_def)
  show ?thesis using False
    unfolding cl_ensure_front_room_def cl_window_rep sel Let_def
    by (simp add: panic_free front_spare_def [symmetric] shift_window [simplified] cl_set_window_def cl_rep_def)
qed

lemma cl_ensure_off_front_room_rep:
  "\<exists>opre' opost'. cl_ensure_off_front_room (cl_rep pre vs opre opost)
     = Some (cl_rep pre vs opre' opost') \<and> opre' \<noteq> []"
proof (cases opre)
  case (Cons x xs)
  then have "cl_ensure_off_front_room (cl_rep pre vs opre opost) = Some (cl_rep pre vs opre opost)"
    by (simp add: cl_ensure_off_front_room_def cl_rep_def)
  with Cons show ?thesis by blast
next
  case Nil
  then have "cl_ensure_off_front_room (cl_rep pre vs opre opost)
      = Some (cl_rep pre vs (replicate (max (length vs) 8) 0) [])"
    by (simp add: cl_ensure_off_front_room_def Let_def cl_rep_def subslice_def)
  then show ?thesis by (intro exI conjI) (assumption, simp)
qed

text \<open>Writing one frame over the last bytes of the dead prefix.\<close>

lemma cl_write_front:
  assumes "opre \<noteq> []" and "length pre = length pre' + (4 + length v)" and "pre' = take (length pre') pre"
  shows "do {
     head \<leftarrow> usub (length pre) (4 + length v);
     b1 \<leftarrow> copy_slice (pre @ pks vs) head (head + 4) (u32_le (length v));
     b2 \<leftarrow> copy_slice b1 (head + 4) (head + (4 + length v)) v;
     off_head \<leftarrow> usub (length opre) 1;
     offs \<leftarrow> index_set (opre @ map of_nat (frame_offs (length pre) vs) @ opost) off_head (of_nat head);
     Some (b2, head, off_head, offs)
   } = Some (pre' @ pks (v # vs), length pre', length (butlast opre),
             butlast opre @ map of_nat (frame_offs (length pre') (v # vs)) @ opost)"
proof -
  obtain hd4 body where pre: "pre = pre' @ hd4 @ body" "length hd4 = 4" "length body = length v"
  proof
    let ?d = "drop (length pre') pre"
    show "pre = pre' @ take 4 ?d @ drop 4 ?d" using assms(3) by (metis append_take_drop_id)
    show "length (take 4 ?d) = 4" and "length (drop 4 ?d) = length v" using assms(2) by simp_all
  qed
  have b1: "copy_slice (pre @ pks vs) (length pre') (length pre' + 4) (u32_le (length v))
      = Some (pre' @ u32_le (length v) @ body @ pks vs)"
    using copy_slice_append [where pre = pre' and xs = hd4 and ys = "u32_le (length v)"
        and post = "body @ pks vs", OF refl refl] pre(2) unfolding pre(1) by simp
  have b2: "copy_slice (pre' @ u32_le (length v) @ body @ pks vs) (length pre' + 4)
      (length pre' + (4 + length v)) v = Some (pre' @ pks (v # vs))"
    using copy_slice_append [where pre = "pre' @ u32_le (length v)" and xs = body and ys = v
        and post = "pks vs", OF refl refl] pre(3) by (simp add: pk_def add.assoc)
  obtain os o' where opre: "opre = os @ [o']" using assms(1) by (metis append_butlast_last_id)
  show ?thesis using assms(2) b1 b2 opre
    by (simp add: usub_def index_set_def list_update_append add.assoc)
qed

lemma cl_push_front_rep:
  "\<exists>pre' opre' opost'. cl_push_front (cl_rep pre vs opre opost) v
      = Some (cl_rep pre' (v # vs) opre' opost')
    \<and> length pre' + (4 + length v) =
        (if 4 + length v \<le> length pre then length pre
         else front_spare (4 + length v) (length (pks vs)))"
proof -
  define pre1 where "pre1 = (if 4 + length v \<le> length pre then pre
                   else replicate (front_spare (4 + length v) (length (pks vs))) 0)"
  have big: "4 + length v \<le> length pre1" by (auto simp: pre1_def front_spare_def)
  obtain opre' opost' where
    off: "cl_ensure_off_front_room (cl_rep pre1 vs opre opost) = Some (cl_rep pre1 vs opre' opost')"
    and ne: "opre' \<noteq> []"
    using cl_ensure_off_front_room_rep by blast
  define pre' where "pre' = take (length pre1 - (4 + length v)) pre1"
  have len: "length pre1 = length pre' + (4 + length v)"
    and tk: "pre' = take (length pre') pre1"
    using big by (simp_all add: pre'_def)
  have room: "cl_ensure_front_room (cl_rep pre vs opre opost) (4 + length v)
      = Some (cl_rep pre1 vs opre opost)"
    unfolding pre1_def by (rule cl_ensure_front_room_rep)
  from cl_write_front [OF ne len tk, of vs opost']
  have "cl_push_front (cl_rep pre vs opre opost) v
      = Some (cl_rep pre' (v # vs) (butlast opre') opost')"
    by (auto simp: cl_push_front_def room off bind_eq_Some_conv simp del: pks_Cons)
  moreover have "length pre' + (4 + length v) =
        (if 4 + length v \<le> length pre then length pre
         else front_spare (4 + length v) (length (pks vs)))"
    using len unfolding pre1_def by (simp split: if_splits)
  ultimately show ?thesis by blast
qed

subsection \<open>Popping\<close>

lemma those_map_Some: "(\<forall>x \<in> set xs. f x = Some (g x)) \<Longrightarrow> those (map f xs) = Some (map g xs)"
  by (induction xs) auto

lemma u32_sub_offs:
  assumes "length pre + length (pks vs) < 2 ^ 32"
  shows "those (map (\<lambda>o'. u32_sub o' (of_nat (length pre)))
      (map (of_nat :: nat \<Rightarrow> u32) (frame_offs (length pre) vs)))
    = Some (map of_nat (frame_offs 0 vs))"
proof -
  have "u32_sub (of_nat x) (of_nat (length pre)) = Some (of_nat (x - length pre))"
    if "x \<in> set (frame_offs (length pre) vs)" for x
  proof -
    have x: "length pre \<le> x" "x < 2 ^ 32"
      using frame_offs_ge [OF that] frame_offs_less [OF that] assms by simp_all
    then have "(of_nat (length pre) :: u32) \<le> of_nat x"
      by (simp add: word_le_nat_alt unat_of_nat_u32)
    with x show ?thesis by (simp add: u32_sub_def of_nat_diff)
  qed
  then have "those (map (\<lambda>x. u32_sub (of_nat x) (of_nat (length pre))) (frame_offs (length pre) vs))
      = Some (map (\<lambda>x. of_nat (x - length pre)) (frame_offs (length pre) vs))"
    by (intro those_map_Some) blast
  moreover have "map (\<lambda>x. of_nat (x - length pre)) (frame_offs (length pre) vs)
      = map (of_nat :: nat \<Rightarrow> u32) (frame_offs 0 vs)"
    by (simp add: frame_offs_shift [of 0 "length pre", simplified])
  ultimately show ?thesis by (simp add: comp_def)
qed

lemma cl_reclaim_prefix_rep:
  assumes "length pre + length (pks vs) < 2 ^ 32"
  shows "\<exists>pre'. cl_reclaim_prefix (cl_rep pre vs opre opost) = Some (cl_rep pre' vs opre opost)
    \<and> length pre' \<le> length pre \<and> length pre' \<le> max 4096 (length (pks vs))"
proof (cases "length pre > 4096 \<and> length pre > length (pks vs)")
  case False
  then have "cl_reclaim_prefix (cl_rep pre vs opre opost) = Some (cl_rep pre vs opre opost)"
    by (auto simp: cl_reclaim_prefix_def cl_rep_def usub_def)
  then show ?thesis using False by (intro exI [of _ pre]) auto
next
  case True
  let ?c = "cl_rep pre vs opre opost"
  have sel: "cl_head ?c = length pre" "cl_buf ?c = pre @ pks vs"
    by (simp_all add: cl_rep_def)
  have "cl_reclaim_prefix ?c = Some (cl_rep [] vs opre opost)"
    using True
    unfolding cl_reclaim_prefix_def cl_window_rep sel
    by (simp add: panic_free cl_set_window_def u32_sub_offs [OF assms, simplified] cl_rep_def)
  then show ?thesis by (intro exI [of _ "[]"]) simp
qed

lemma cl_compact_offsets_rep:
  "\<exists>opre' opost'. cl_compact_offsets (cl_rep pre vs opre opost) = Some (cl_rep pre vs opre' opost')"
proof (cases "length opre > 64 \<and> length opre > length vs")
  case False
  then have "cl_compact_offsets (cl_rep pre vs opre opost) = Some (cl_rep pre vs opre opost)"
    by (auto simp: cl_compact_offsets_def cl_rep_def)
  then show ?thesis by blast
next
  case True
  then have "cl_compact_offsets (cl_rep pre vs opre opost) = Some (cl_rep pre vs [] [])"
    by (simp add: cl_compact_offsets_def cl_rep_def subslice_def)
  then show ?thesis by blast
qed

lemma cl_pop_front_rep:
  assumes "length pre + length (pks (v # vs)) < 2 ^ 32"
  shows "\<exists>pre' opre' opost'. cl_pop_front (cl_rep pre (v # vs) opre opost)
      = Some (Some v, cl_rep pre' vs opre' opost') \<and> length pre' \<le> max 4096 (length (pks vs))
      \<and> length pre' \<le> length pre + 4 + length v"
proof -
  let ?c = "cl_rep pre (v # vs) opre opost"
  let ?pre = "pre @ pk v"
  have f: "fits v" using assms by (auto simp: fits_def)
  have rd: "read_u32 (cl_buf ?c) (cl_head ?c) = Some (length v)"
      "subslice (cl_buf ?c) (cl_head ?c + 4) (cl_head ?c + 4 + length v) = Some v"
    using f by (simp_all add: cl_rep_def panic_free)
  have c1: "?c\<lparr>cl_head := cl_head ?c + (4 + length v), cl_off_head := cl_off_head ?c + 1,
      cl_len := cl_len ?c - 1, cl_bytes := cl_bytes ?c - length v\<rparr>
    = cl_rep ?pre vs (opre @ [of_nat (length pre)]) opost"
    by (simp add: cl_rep_def add.assoc)
  have b: "length ?pre + length (pks vs) < 2 ^ 32" using assms by simp
  obtain pre' where r: "cl_reclaim_prefix (cl_rep ?pre vs (opre @ [of_nat (length pre)]) opost)
      = Some (cl_rep pre' vs (opre @ [of_nat (length pre)]) opost)"
    and pre': "length pre' \<le> length ?pre" "length pre' \<le> max 4096 (length (pks vs))"
    using cl_reclaim_prefix_rep [OF b] by blast
  obtain opre' opost' where o': "cl_compact_offsets (cl_rep pre' vs (opre @ [of_nat (length pre)]) opost)
      = Some (cl_rep pre' vs opre' opost')"
    using cl_compact_offsets_rep by blast
  have len: "cl_len ?c = Suc (length vs)" "cl_bytes ?c = length v + payload vs"
    by (simp_all add: cl_rep_def)
  have "cl_pop_front ?c = Some (Some v, cl_rep pre' vs opre' opost')"
    using c1 by (simp add: cl_pop_front_def rd [simplified] len usub_def r o')
  moreover have "length pre' \<le> length pre + 4 + length v" using pre'(1) by simp
  ultimately show ?thesis using pre'(2) by blast
qed

lemma cl_pop_back_rep:
  assumes "length pre + length (pks (vs @ [v])) < 2 ^ 32"
  shows "cl_pop_back (cl_rep pre (vs @ [v]) opre opost) = Some (Some v, cl_rep pre vs opre [])"
proof -
  let ?c = "cl_rep pre (vs @ [v]) opre opost"
  have f: "fits v" using assms by (auto simp: fits_def)
  obtain o' where o': "cl_off_at ?c (length vs) = Some o'" "unat o' = length (pre @ pks vs)"
    using cl_off_at_rep [of "length vs" "vs @ [v]" pre opre opost] assms by auto
  have buf: "cl_buf ?c = (pre @ pks vs) @ pk v @ []" by (simp add: cl_rep_def)
  have rd: "read_u32 (cl_buf ?c) (unat o') = Some (length v)"
    "subslice (cl_buf ?c) (unat o' + 4) (unat o' + 4 + length v) = Some v"
    unfolding buf by (rule read_u32_pk [OF o'(2) f], rule subslice_pk_body) (simp_all add: o'(2))
  show ?thesis
    using o' rd by (simp add: cl_pop_back_def) (simp add: cl_rep_def usub_def)
qed

lemma cl_pop_empty:
  "cl_pop_front (cl_rep pre [] opre opost) = Some (None, cl_rep pre [] opre opost)"
  "cl_pop_back (cl_rep pre [] opre opost) = Some (None, cl_rep pre [] opre opost)"
  by (simp_all add: cl_pop_front_def cl_pop_back_def cl_rep_def)

section \<open>The dual encoding as a list\<close>

text \<open>
  Compact lists stay within a limit on their thresholds, and that limit bounds the whole
  buffer, headroom included. When the bound is below \<open>2 ^ 32\<close> no offset is ever truncated
  by \<^verbatim>\<open>as u32\<close>. \<open>list_live_max\<close> bounds the frames, \<open>list_head_max\<close> the dead prefix: the
  reclaim rule of \<^verbatim>\<open>pop_front\<close> and the growth rule of \<^verbatim>\<open>ensure_front_room\<close> keep it there.
\<close>

definition list_live_max :: "list_thresholds \<Rightarrow> nat" where
  "list_live_max lim = 4 * lt_max_entries lim + lt_max_size lim"

definition list_head_max :: "list_thresholds \<Rightarrow> nat" where
  "list_head_max lim =
     max (max 4096 (list_live_max lim)) (front_spare (4 + lt_max_elem lim) (list_live_max lim))"

definition list_limits_ok :: "list_thresholds \<Rightarrow> bool" where
  "list_limits_ok lim \<longleftrightarrow> list_head_max lim + list_live_max lim < 2 ^ 32"

text \<open>Thresholds that operations may use without leaving the limit (\<^verbatim>\<open>CONFIG SET\<close> can change them).\<close>

definition list_within :: "list_thresholds \<Rightarrow> list_thresholds \<Rightarrow> bool" where
  "list_within thr lim \<longleftrightarrow> lt_max_entries thr \<le> lt_max_entries lim
     \<and> lt_demote_entries thr \<le> lt_max_entries lim \<and> lt_max_size thr \<le> lt_max_size lim
     \<and> lt_max_elem thr \<le> lt_max_elem lim"

definition list_small :: "list_thresholds \<Rightarrow> bytes list \<Rightarrow> bool" where
  "list_small lim vs \<longleftrightarrow> length vs \<le> lt_max_entries lim \<and> payload vs \<le> lt_max_size lim
     \<and> (\<forall>v \<in> set vs. length v \<le> lt_max_elem lim)"

fun listdata_rel :: "list_thresholds \<Rightarrow> list_data \<Rightarrow> bytes list \<Rightarrow> bool" where
  "listdata_rel lim (ListCompact c) vs \<longleftrightarrow>
     (\<exists>pre opre opost. c = cl_rep pre vs opre opost \<and> length pre \<le> list_head_max lim)
     \<and> list_small lim vs \<and> list_limits_ok lim"
| "listdata_rel lim (ListLinked d) vs \<longleftrightarrow>
     d = \<lparr>ll_items = vs, ll_bytes = payload vs\<rparr> \<and> list_limits_ok lim"

declare listdata_rel.simps(1) [simp del]

lemma listdata_rel_compactI:
  "length pre \<le> list_head_max lim \<Longrightarrow> list_small lim vs \<Longrightarrow> list_limits_ok lim \<Longrightarrow>
     listdata_rel lim (ListCompact (cl_rep pre vs opre opost)) vs"
  by (auto simp: listdata_rel.simps)

lemma listdata_rel_compactE:
  assumes "listdata_rel lim (ListCompact c) vs"
  obtains pre opre opost where "c = cl_rep pre vs opre opost" and "length pre \<le> list_head_max lim"
    and "list_small lim vs" and "list_limits_ok lim"
  using assms by (auto simp: listdata_rel.simps)

lemma list_small_live: "list_small lim vs \<Longrightarrow> length (pks vs) \<le> list_live_max lim"
  by (simp add: list_small_def list_live_max_def length_pks)

lemma list_bound:
  assumes "list_small lim vs" and "length pre \<le> list_head_max lim" and "list_limits_ok lim"
  shows "length pre + length (pks vs) < 2 ^ 32"
  using assms list_small_live [of lim vs] by (simp add: list_limits_ok_def)

lemma listdata_rel_ok: "listdata_rel lim l vs \<Longrightarrow> list_limits_ok lim"
  by (cases l) (auto elim: listdata_rel_compactE)

lemma listdata_rel_cl: "listdata_rel lim (ListCompact c) vs \<Longrightarrow> cl_rel c vs"
  by (auto elim!: listdata_rel_compactE intro!: cl_relI list_bound)

lemma default_limits_ok: "list_limits_ok default_list_thresholds"
  by (simp add: list_limits_ok_def list_head_max_def list_live_max_def front_spare_def
      default_list_thresholds_def)

lemma list_within_refl: "lt_demote_entries lim \<le> lt_max_entries lim \<Longrightarrow> list_within lim lim"
  by (simp add: list_within_def)

lemma front_spare_mono:
  "n \<le> n' \<Longrightarrow> l \<le> l' \<Longrightarrow> front_spare n l \<le> front_spare n' l'"
  by (auto simp: front_spare_def le_max_iff_disj intro: div_le_mono)

subsection \<open>Observations\<close>

lemma listdata_len_rel [refine_simps]: "listdata_rel lim l vs \<Longrightarrow> listdata_len l = length vs"
  by (cases l) (auto simp: ll_len_def elim: listdata_rel_compactE)

lemma listdata_payload_rel [refine_simps]:
  "listdata_rel lim l vs \<Longrightarrow> listdata_payload_bytes l = payload vs"
  by (cases l) (auto elim: listdata_rel_compactE)

lemma listdata_to_vec_rel [refine_simps]:
  "listdata_rel lim l vs \<Longrightarrow> listdata_to_vec_bytes l = Some vs"
  by (cases l) (auto dest!: listdata_rel_cl simp: cl_iter_elements_rel)

lemma listdata_get_rel [refine_simps]:
  "listdata_rel lim l vs \<Longrightarrow> listdata_get l i = Some (if i < length vs then Some (vs ! i) else None)"
  by (cases l) (auto dest!: listdata_rel_cl simp: cl_get_rel index_def)

lemma listdata_range_rel [refine_simps]:
  assumes "listdata_rel lim l vs"
  shows "listdata_range_bytes l start stop = Some (take (Suc stop - start) (drop start vs))"
proof (cases "start < length vs \<and> start \<le> stop")
  case False
  then show ?thesis using listdata_len_rel [OF assms]
    by (auto simp: listdata_range_bytes_def listdata_is_empty_def usub_def not_less Suc_le_eq)
next
  case True
  define stop' where "stop' = min stop (length vs - 1)"
  have stop': "start \<le> stop'" "stop' < length vs" using True by (auto simp: stop'_def)
  have eq: "take (Suc stop - start) (drop start vs) = take (stop' - start + 1) (drop start vs)"
    using True by (auto simp: stop'_def min_def Suc_diff_le)
  have unf: "listdata_range_bytes l start stop = (case l of
          ListCompact c \<Rightarrow> cl_range_bytes c start stop'
        | ListLinked d \<Rightarrow> subslice (ll_items d) start (stop' + 1))"
    using True listdata_len_rel [OF assms]
    by (auto simp: listdata_range_bytes_def listdata_is_empty_def usub_def stop'_def
        split: list_data.split)
  show ?thesis
  proof (cases l)
    case (ListCompact c)
    then have "cl_rel c vs" using assms listdata_rel_cl by blast
    then show ?thesis unfolding unf eq using ListCompact stop' by (simp add: cl_range_bytes_rel)
  next
    case (ListLinked d)
    then show ?thesis unfolding unf eq using assms stop' by (simp add: subslice_def Suc_diff_le)
  qed
qed

subsection \<open>Promotion and demotion\<close>

lemma fold_ll_push_back:
  "fold (\<lambda>e d. ll_push_back d e) es d
     = \<lparr>ll_items = ll_items d @ es, ll_bytes = ll_bytes d + payload es\<rparr>"
  by (induction es arbitrary: d) (simp_all add: ll_push_back_def)

lemma ensure_linked_rel [refine_simps]:
  "listdata_rel lim l vs \<Longrightarrow>
     listdata_ensure_linked l = Some \<lparr>ll_items = vs, ll_bytes = payload vs\<rparr>"
proof (cases l)
  case (ListCompact c)
  assume "listdata_rel lim l vs"
  then have c: "cl_rel c vs" using ListCompact listdata_rel_cl by blast
  then have "cl_bytes c = payload vs" by (auto elim!: cl_relE)
  then show ?thesis using c ListCompact
    by (simp add: cl_iter_elements_rel fold_ll_push_back ll_with_capacity_def)
qed simp

lemma demote_fits_iff:
  "tot \<le> max_size \<Longrightarrow> demote_fits max_elem max_size tot es \<longleftrightarrow>
     (\<forall>e \<in> set es. length e \<le> max_elem) \<and> tot + payload es \<le> max_size"
  by (induction es arbitrary: tot) (auto simp: not_less)

lemma maybe_demote_rel:
  assumes "list_within thr lim" and "listdata_rel lim l vs"
  shows "listdata_rel lim (listdata_maybe_demote thr l) vs"
proof (cases l)
  case (ListLinked d)
  then have d: "d = \<lparr>ll_items = vs, ll_bytes = payload vs\<rparr>" and ok: "list_limits_ok lim"
    using assms(2) by auto
  have small: "list_small lim vs"
    if "length vs \<le> lt_demote_entries thr" "demote_fits (lt_max_elem thr) (lt_max_size thr) 0 vs"
    using that assms(1) by (auto simp: demote_fits_iff list_small_def list_within_def)
  have fold: "fold (\<lambda>e c. cl_push_back c e) vs (cl_with_capacity n m) = cl_rep [] vs [] []" for n m
    using fold_cl_push_back [of vs "[]" "[]" "[]"] by (simp add: cl_with_capacity_rep)
  have "listdata_rel lim (ListCompact (cl_rep [] vs [] [])) vs" if "list_small lim vs"
    using that ok by (simp add: listdata_rel_compactI)
  then show ?thesis using small ok ListLinked d
    by (auto simp: ll_maybe_demote_def ll_len_def Let_def fold not_less)
qed (use assms in auto)

text \<open>Demotion changes the encoding only.\<close>

lemma demote_if_some_rel:
  assumes "list_within thr lim" and "listdata_rel lim l vs"
  shows "\<exists>l'. demote_if_some thr (v, l) = (v, l') \<and> listdata_rel lim l' vs"
  using assms maybe_demote_rel by (cases v) (auto simp: demote_if_some_def)

subsection \<open>Pushing and popping\<close>

lemma listdata_push_back_rel:
  assumes "list_within thr lim" and "listdata_rel lim l vs"
  shows "\<exists>l'. listdata_push_back thr l v = Some l' \<and> listdata_rel lim l' (vs @ [v])"
proof (cases l)
  case (ListLinked d)
  with assms show ?thesis by (simp add: ll_push_back_def)
next
  case (ListCompact c)
  show ?thesis
  proof (cases "listdata_should_promote_after_push thr l (length v)")
    case True
    with ListCompact assms ensure_linked_rel [OF assms(2)] show ?thesis
      using listdata_rel_ok [OF assms(2)] by (simp add: ll_push_back_def)
  next
    case False
    with ListCompact assms have small: "list_small lim (vs @ [v])"
      by (auto simp: list_small_def list_within_def elim!: listdata_rel_compactE)
    with False ListCompact assms show ?thesis
      by (auto simp: cl_push_back_rep intro!: listdata_rel_compactI elim!: listdata_rel_compactE)
  qed
qed

lemma listdata_push_front_rel:
  assumes "list_within thr lim" and "listdata_rel lim l vs"
  shows "\<exists>l'. listdata_push_front thr l v = Some l' \<and> listdata_rel lim l' (v # vs)"
proof (cases l)
  case (ListLinked d)
  with assms show ?thesis by (simp add: ll_push_front_def)
next
  case (ListCompact c)
  show ?thesis
  proof (cases "listdata_should_promote_after_push thr l (length v)")
    case True
    with ListCompact assms ensure_linked_rel [OF assms(2)] show ?thesis
      using listdata_rel_ok [OF assms(2)] by (simp add: ll_push_front_def)
  next
    case False
    from assms(2) ListCompact obtain pre opre opost where c: "c = cl_rep pre vs opre opost"
      and pre: "length pre \<le> list_head_max lim" and vs: "list_small lim vs"
      and ok: "list_limits_ok lim" by (auto elim: listdata_rel_compactE)
    from False have le: "length v \<le> lt_max_elem thr" "length vs + 1 \<le> lt_max_entries thr"
        "payload vs + length v \<le> lt_max_size thr"
      by (simp_all add: ListCompact c)
    then have small: "list_small lim (v # vs)"
      using assms(1) vs by (auto simp: list_small_def list_within_def)
    obtain pre' opre' opost' where p: "cl_push_front c v = Some (cl_rep pre' (v # vs) opre' opost')"
      and len: "length pre' + (4 + length v) = (if 4 + length v \<le> length pre then length pre
         else front_spare (4 + length v) (length (pks vs)))"
      using cl_push_front_rep [of pre vs opre opost v] c by blast
    have "length v \<le> lt_max_elem lim" using le(1) assms(1) by (simp add: list_within_def)
    then have "front_spare (4 + length v) (length (pks vs))
        \<le> front_spare (4 + lt_max_elem lim) (list_live_max lim)"
      using list_small_live [OF vs] by (intro front_spare_mono) simp_all
    also have "\<dots> \<le> list_head_max lim" by (simp add: list_head_max_def)
    finally have "front_spare (4 + length v) (length (pks vs)) \<le> list_head_max lim" .
    then have "length pre' \<le> list_head_max lim"
      using len pre by (auto split: if_splits)
    then show ?thesis using False ListCompact p small ok by (simp add: listdata_rel_compactI)
  qed
qed

lemma listdata_pop_front_rel:
  assumes "list_within thr lim" and "listdata_rel lim l vs"
  shows "\<exists>l'. listdata_pop_front thr l = Some (case vs of [] \<Rightarrow> None | v # _ \<Rightarrow> Some v, l')
    \<and> listdata_rel lim l' (tl vs)"
proof (cases l)
  case (ListLinked d)
  then have d: "d = \<lparr>ll_items = vs, ll_bytes = payload vs\<rparr>" and ok: "list_limits_ok lim"
    using assms(2) by auto
  have "ll_pop_front d = (case vs of [] \<Rightarrow> None | v # _ \<Rightarrow> Some v,
      \<lparr>ll_items = tl vs, ll_bytes = payload (tl vs)\<rparr>)"
    by (simp add: ll_pop_front_def d split: list.split)
  then show ?thesis
    using ListLinked ok demote_if_some_rel [OF assms(1),
        of "ListLinked \<lparr>ll_items = tl vs, ll_bytes = payload (tl vs)\<rparr>" "tl vs"] by simp
next
  case (ListCompact c)
  from assms(2) ListCompact obtain pre opre opost where c: "c = cl_rep pre vs opre opost"
    and pre: "length pre \<le> list_head_max lim" and vs: "list_small lim vs"
    and ok: "list_limits_ok lim" by (auto elim: listdata_rel_compactE)
  show ?thesis
  proof (cases vs)
    case Nil
    then show ?thesis using assms(2) ListCompact c by (simp add: cl_pop_empty demote_if_some_def)
  next
    case (Cons v ws)
    obtain pre' opre' opost' where p: "cl_pop_front c = Some (Some v, cl_rep pre' ws opre' opost')"
      and len: "length pre' \<le> max 4096 (length (pks ws))"
      using cl_pop_front_rep [of pre v ws opre opost] list_bound [OF vs pre ok] c Cons by blast
    have small: "list_small lim ws" using vs Cons by (simp add: list_small_def)
    then have "length pre' \<le> list_head_max lim"
      using len list_small_live [OF small] by (auto simp: list_head_max_def)
    then show ?thesis using ListCompact p small ok Cons
      by (simp add: demote_if_some_def listdata_rel_compactI)
  qed
qed

lemma listdata_pop_back_rel:
  assumes "list_within thr lim" and "listdata_rel lim l vs"
  shows "\<exists>l'. listdata_pop_back thr l = Some (if vs = [] then None else Some (last vs), l')
    \<and> listdata_rel lim l' (butlast vs)"
proof (cases l)
  case (ListLinked d)
  then have d: "d = \<lparr>ll_items = vs, ll_bytes = payload vs\<rparr>" and ok: "list_limits_ok lim"
    using assms(2) by auto
  have "payload vs - length (last vs) = payload (butlast vs)" if "vs \<noteq> []"
    using that by (induction vs rule: rev_induct) simp_all
  then have "ll_pop_back d = (if vs = [] then None else Some (last vs),
      \<lparr>ll_items = butlast vs, ll_bytes = payload (butlast vs)\<rparr>)"
    by (simp add: ll_pop_back_def d Let_def)
  then show ?thesis
    using ListLinked ok demote_if_some_rel [OF assms(1),
        of "ListLinked \<lparr>ll_items = butlast vs, ll_bytes = payload (butlast vs)\<rparr>" "butlast vs"]
    by simp
next
  case (ListCompact c)
  from assms(2) ListCompact obtain pre opre opost where c: "c = cl_rep pre vs opre opost"
    and pre: "length pre \<le> list_head_max lim" and vs: "list_small lim vs"
    and ok: "list_limits_ok lim" by (auto elim: listdata_rel_compactE)
  show ?thesis
  proof (cases vs rule: rev_cases)
    case Nil
    then show ?thesis using assms(2) ListCompact c by (simp add: cl_pop_empty demote_if_some_def)
  next
    case (snoc ws v)
    have "cl_pop_back c = Some (Some v, cl_rep pre ws opre [])"
      using cl_pop_back_rep [of pre ws v opre opost] list_bound [OF vs pre ok] c snoc by simp
    moreover have "list_small lim ws" using vs snoc by (simp add: list_small_def)
    ultimately show ?thesis using ListCompact pre ok snoc
      by (simp add: demote_if_some_def listdata_rel_compactI)
  qed
qed

subsection \<open>Mid-list operations\<close>

text \<open>
  The plain-list meaning of \<^verbatim>\<open>LREM\<close>: drop the first \<open>n\<close> occurrences, from the head or, for a
  negative count, from the tail; a count of 0 drops all.
\<close>

fun remove_n :: "nat \<Rightarrow> 'a \<Rightarrow> 'a list \<Rightarrow> 'a list" where
  "remove_n n x [] = []"
| "remove_n n x (y # ys) =
     (if n > 0 \<and> y = x then remove_n (n - 1) x ys else y # remove_n n x ys)"

definition lrem_spec :: "int \<Rightarrow> 'a \<Rightarrow> 'a list \<Rightarrow> 'a list" where
  "lrem_spec count x vs =
     (if count = 0 then filter (\<lambda>y. y \<noteq> x) vs
      else if count > 0 then remove_n (nat count) x vs
      else rev (remove_n (nat \<bar>count\<bar>) x (rev vs)))"

lemma length_remove_n: "length (remove_n n x xs) + min n (count_list xs x) = length xs"
  by (induction n x xs rule: remove_n.induct) auto

lemma payload_remove_n:
  "payload (remove_n n x xs) + min n (count_list xs x) * length x = payload xs"
proof (induction xs arbitrary: n)
  case (Cons y ys)
  from Cons.IH [of n] Cons.IH [of "n - 1"] Cons.IH [of 0] show ?case by (cases n) auto
qed simp

lemma payload_filter_neq:
  "payload (filter (\<lambda>y. y \<noteq> x) xs) + count_list xs x * length x = payload xs"
  by (induction xs) auto

lemma rem_all_eq:
  "rem_all e xs (r, k, nb) =
     (r + count_list xs e, k @ filter (\<lambda>y. y \<noteq> e) xs, nb + payload (filter (\<lambda>y. y \<noteq> e) xs))"
  by (induction xs arbitrary: r k nb) auto

lemma rem_head_eq:
  "rem_head e left xs (r, k, nb) =
     (r + min left (count_list xs e), k @ remove_n left e xs, nb + payload (remove_n left e xs))"
  by (induction left e xs arbitrary: r k nb rule: remove_n.induct) auto

lemma rem_tail_eq:
  "rem_tail e left xs (r, k, nb) =
     (r + min left (count_list xs e), rev (remove_n left e xs) @ k, nb + payload (remove_n left e xs))"
  by (induction left e xs arbitrary: r k nb rule: remove_n.induct) auto

definition lrem_count :: "int \<Rightarrow> 'a \<Rightarrow> 'a list \<Rightarrow> nat" where
  "lrem_count count x vs =
     (if count = 0 then count_list vs x else min (nat \<bar>count\<bar>) (count_list vs x))"

lemma payload_lrem:
  "payload (lrem_spec count x vs) + lrem_count count x vs * length x = payload vs"
  using payload_filter_neq [of x vs] payload_remove_n [of "nat count" x vs]
    payload_remove_n [of "nat \<bar>count\<bar>" x "rev vs"]
  by (auto simp: lrem_spec_def lrem_count_def abs_if)

lemma int_delta: "a + b = c \<Longrightarrow> int a - int c = - int b"
  by simp

lemma listdata_rem_rel:
  assumes "list_within thr lim" and "listdata_rel lim l vs"
  shows "\<exists>l'. listdata_rem thr l count elem =
      Some ((lrem_count count elem vs, int (payload (lrem_spec count elem vs)) - int (payload vs)), l')
    \<and> listdata_rel lim l' (lrem_spec count elem vs)"
proof -
  have pay: "int (payload (lrem_spec count elem vs)) - int (payload vs)
      = - int (lrem_count count elem vs * length elem)"
    by (rule int_delta [OF payload_lrem])
  let ?d = "\<lparr>ll_items = lrem_spec count elem vs, ll_bytes = payload (lrem_spec count elem vs)\<rparr>"
  let ?l' = "if lrem_count count elem vs > 0 then listdata_maybe_demote thr (ListLinked ?d)
    else ListLinked ?d"
  have "listdata_rem thr l count elem
      = Some ((lrem_count count elem vs, - int (lrem_count count elem vs * length elem)), ?l')"
    using ensure_linked_rel [OF assms(2)]
    by (simp add: listdata_rem_def rem_all_eq rem_head_eq rem_tail_eq lrem_spec_def lrem_count_def)
  moreover have "listdata_rel lim ?l' (lrem_spec count elem vs)"
    using assms listdata_rel_ok [OF assms(2)]
      maybe_demote_rel [OF assms(1), of "ListLinked ?d" "lrem_spec count elem vs"] by simp
  ultimately show ?thesis unfolding pay by blast
qed

lemma payload_update:
  "i < length vs \<Longrightarrow> payload (vs[i := v]) = payload vs - length (vs ! i) + length v"
proof (induction vs arbitrary: i)
  case (Cons x xs)
  then show ?case
  proof (cases i)
    case (Suc j)
    then have "length (xs ! j) \<le> payload xs" using Cons.prems by (intro payload_mem) simp
    then show ?thesis using Cons Suc by simp
  qed simp
qed simp

lemma listdata_set_rel:
  assumes "listdata_rel lim l vs"
  shows "\<exists>l'. listdata_set l i v = Some (if i < length vs
        then (True, int (length v) - int (length (vs ! i))) else (False, 0), l')
    \<and> listdata_rel lim l' (vs[i := v])"
  using ensure_linked_rel [OF assms] listdata_rel_ok [OF assms]
  by (cases "i < length vs") (auto simp: listdata_set_def ll_len_def index_def payload_update Let_def
      not_less list_update_beyond)

lemma position_Some:
  "position p xs = Some i \<Longrightarrow> \<exists>ys zs. xs = ys @ (xs ! i) # zs \<and> length ys = i \<and> p (xs ! i) \<and> (\<forall>y \<in> set ys. \<not> p y)"
proof (induction xs arbitrary: i)
  case (Cons x xs)
  show ?case
  proof (cases "p x")
    case True
    with Cons.prems show ?thesis by (intro exI [of _ "[]"] exI [of _ xs]) auto
  next
    case False
    with Cons.prems obtain j where j: "position p xs = Some j" "i = Suc j" by auto
    from Cons.IH [OF j(1)] obtain ys zs where "xs = ys @ xs ! j # zs" "length ys = j" "p (xs ! j)"
      "\<forall>y \<in> set ys. \<not> p y" by blast
    with False j(2) show ?thesis by (intro exI [of _ "x # ys"] exI [of _ zs]) auto
  qed
qed simp

lemma position_None: "position p xs = None \<longleftrightarrow> (\<forall>x \<in> set xs. \<not> p x)"
  by (induction xs) auto

lemma listdata_insert_rel:
  assumes "listdata_rel lim l (xs @ pivot # ys)" and "pivot \<notin> set xs"
  shows "\<exists>l'. listdata_insert_before l pivot v = Some (Some (length xs + length ys + 2), l')
      \<and> listdata_rel lim l' (xs @ v # pivot # ys)"
    and "\<exists>l'. listdata_insert_after l pivot v = Some (Some (length xs + length ys + 2), l')
      \<and> listdata_rel lim l' (xs @ pivot # v # ys)"
proof -
  have pos: "position (\<lambda>x. x = pivot) (xs @ pivot # ys) = Some (length xs)"
    using assms(2) by (induction xs) auto
  show "\<exists>l'. listdata_insert_before l pivot v = Some (Some (length xs + length ys + 2), l')
      \<and> listdata_rel lim l' (xs @ v # pivot # ys)"
    using ensure_linked_rel [OF assms(1)] listdata_rel_ok [OF assms(1)] pos
    by (simp add: listdata_insert_before_def ll_insert_def ll_len_def Let_def)
  show "\<exists>l'. listdata_insert_after l pivot v = Some (Some (length xs + length ys + 2), l')
      \<and> listdata_rel lim l' (xs @ pivot # v # ys)"
    using ensure_linked_rel [OF assms(1)] listdata_rel_ok [OF assms(1)] pos
    by (simp add: listdata_insert_after_def ll_insert_def ll_len_def Let_def)
qed

lemma listdata_insert_missing:
  assumes "listdata_rel lim l vs" and "pivot \<notin> set vs"
  shows "\<exists>l'. listdata_insert_before l pivot v = Some (None, l') \<and> listdata_rel lim l' vs"
    and "\<exists>l'. listdata_insert_after l pivot v = Some (None, l') \<and> listdata_rel lim l' vs"
proof -
  have pos: "position (\<lambda>x. x = pivot) vs = None" using assms(2) by (auto simp: position_None)
  show "\<exists>l'. listdata_insert_before l pivot v = Some (None, l') \<and> listdata_rel lim l' vs"
    and "\<exists>l'. listdata_insert_after l pivot v = Some (None, l') \<and> listdata_rel lim l' vs"
    using ensure_linked_rel [OF assms(1)] listdata_rel_ok [OF assms(1)] pos
    by (simp_all add: listdata_insert_before_def listdata_insert_after_def)
qed

lemma payload_take_drop: "payload (take n vs) + payload (drop n vs) = payload vs"
  by (metis append_take_drop_id payload_append)

lemma ll_trim_tail_eq:
  "ll_trim_tail \<lparr>ll_items = vs, ll_bytes = payload vs\<rparr> stop dropped =
     (\<lparr>ll_items = take (Suc stop) vs, ll_bytes = payload (take (Suc stop) vs)\<rparr>,
      dropped + int (payload (drop (Suc stop) vs)))"
proof (induction vs arbitrary: dropped rule: rev_induct)
  case Nil
  then show ?case by (simp add: ll_trim_tail.simps ll_len_def)
next
  case (snoc v vs)
  show ?case
  proof (cases "length vs > stop")
    case True
    then show ?thesis
      by (subst ll_trim_tail.simps)
        (simp add: ll_len_def ll_pop_back_def popped_len_def snoc.IH Let_def)
  next
    case False
    then show ?thesis by (simp add: ll_trim_tail.simps ll_len_def)
  qed
qed

lemma ll_trim_head_eq:
  "ll_trim_head \<lparr>ll_items = vs, ll_bytes = payload vs\<rparr> n dropped =
     (\<lparr>ll_items = drop n vs, ll_bytes = payload (drop n vs)\<rparr>,
      dropped + int (payload (take n vs)))"
proof (induction n arbitrary: vs dropped)
  case (Suc n)
  then show ?case using Suc.IH [of "[]"] by (cases vs) (simp_all add: ll_pop_front_def popped_len_def)
qed simp

lemma listdata_trim_rel:
  assumes "list_within thr lim" and "listdata_rel lim l vs"
  shows "\<exists>l'. listdata_trim thr l start stop =
      Some (int (payload (take (Suc stop - start) (drop start vs))) - int (payload vs), l')
    \<and> listdata_rel lim l' (take (Suc stop - start) (drop start vs))"
proof -
  let ?ws = "take (Suc stop - start) (drop start vs)"
  let ?d = "\<lparr>ll_items = ?ws, ll_bytes = payload ?ws\<rparr>"
  have res: "listdata_trim thr l start stop =
      Some (int (payload ?ws) - int (payload vs), listdata_maybe_demote thr (ListLinked ?d))"
  proof (cases "start \<ge> length vs \<or> start > stop")
    case True
    then have ws: "?ws = []" by auto
    show ?thesis unfolding ws using True ensure_linked_rel [OF assms(2)]
      by (simp add: listdata_trim_def ll_len_def)
  next
    case False
    define stop' where "stop' = min stop (length vs - Suc 0)"
    have ws: "drop start (take (Suc stop') vs) = ?ws"
      using False by (auto simp: stop'_def min_def drop_take)
    have pay: "int (payload ?ws) - int (payload vs)
        = - (int (payload (drop (Suc stop') vs)) + int (payload (take start (take (Suc stop') vs))))"
      using payload_take_drop [of "Suc stop'" vs] payload_take_drop [of start "take (Suc stop') vs"]
      unfolding ws by simp
    have "vs \<noteq> []" using False by auto
    with False show ?thesis using ensure_linked_rel [OF assms(2)] unfolding pay
      by (simp add: listdata_trim_def ll_len_def usub_def Suc_le_eq stop'_def [symmetric]
          ll_trim_tail_eq ll_trim_head_eq ws)
  qed
  have "listdata_rel lim (ListLinked ?d) ?ws" using listdata_rel_ok [OF assms(2)] by simp
  then show ?thesis using res maybe_demote_rel [OF assms(1)] by blast
qed

subsection \<open>Range snapshots\<close>

lemma cl_range_ends_rel:
  assumes c: "c = cl_rep pre vs opre opost" and b: "length pre + length (pks vs) < 2 ^ 32"
    and "start \<le> stop" and "stop < length vs"
  shows "cl_range_ends c start stop = Some (length pre + length (pks (take start vs)),
     length pre + length (pks (take (Suc stop) vs)))"
proof -
  have start: "start < length vs" using assms by simp
  obtain o1 where o1: "cl_off_at c start = Some o1" "unat o1 = length pre + length (pks (take start vs))"
    using cl_off_at_rep [OF start b] c by blast
  obtain o2 where o2: "cl_off_at c stop = Some o2" "unat o2 = length pre + length (pks (take stop vs))"
    using cl_off_at_rep [OF assms(4) b] c by blast
  have "fits (vs ! stop)" using assms(4) b by (intro fits_of_bound [of _ vs]) auto
  then have "read_u32 (cl_buf c) (unat o2) = Some (length (vs ! stop))"
    using drop_frame [OF assms(4), of pre] o2(2) by (simp add: c read_u32_drop)
  moreover have "length (pks (take (Suc stop) vs)) = length (pks (take stop vs)) + (4 + length (vs ! stop))"
    using assms(4) by (simp add: take_Suc_conv_app_nth)
  ultimately show ?thesis using o1 o2 by (simp add: cl_range_ends_def)
qed

lemma pks_range_split:
  assumes "start \<le> stop"
  shows "pks vs = pks (take start vs) @ pks (take (Suc stop - start) (drop start vs))
     @ pks (drop (Suc stop) vs)"
    and "pks (take (Suc stop) vs) = pks (take start vs) @ pks (take (Suc stop - start) (drop start vs))"
proof -
  have "take (Suc stop) vs = take start vs @ take (Suc stop - start) (drop start vs)"
    using assms by (metis le_SucI le_add_diff_inverse take_add)
  then show "pks (take (Suc stop) vs) = pks (take start vs) @ pks (take (Suc stop - start) (drop start vs))"
    by simp
  then show "pks vs = pks (take start vs) @ pks (take (Suc stop - start) (drop start vs))
     @ pks (drop (Suc stop) vs)"
    by (metis append_assoc append_take_drop_id pks_append)
qed

text \<open>A snapshot names exactly the frames of its range, and its RESP budget counts their payload.\<close>

lemma cl_range_snap_rel:
  assumes "cl_rel c vs" and "start \<le> stop" and "stop < length vs"
  defines "ws \<equiv> take (Suc stop - start) (drop start vs)"
  shows "\<exists>s. cl_range_snap c start stop = Some s \<and> crs_count s = length ws
    \<and> subslice (crs_buf s) (crs_begin s) (crs_end s) = Some (pks ws)
    \<and> crs_need s = 16 + 12 * length ws + payload ws
    \<and> cl_range_region c start stop = Some (pks ws)
    \<and> cl_range_resp_need c start stop = Some (crs_need s)"
proof -
  from assms(1) obtain pre opre opost where c: "c = cl_rep pre vs opre opost"
    and b: "length pre + length (pks vs) < 2 ^ 32" by (rule cl_relE)
  note ends = cl_range_ends_rel [OF c b assms(2,3)]
  note split = pks_range_split [OF assms(2), of vs, folded ws_def]
  have buf: "cl_buf c = (pre @ pks (take start vs)) @ pks ws @ pks (drop (Suc stop) vs)"
    using split(1) by (simp add: c)
  have reg: "subslice (cl_buf c) (length pre + length (pks (take start vs)))
      (length pre + length (pks (take (Suc stop) vs))) = Some (pks ws)"
    unfolding buf by (rule subslice_append) (simp_all add: split(2))
  have len: "length ws = Suc stop - start" using assms(3) by (simp add: ws_def)
  show ?thesis
    using assms(2,3) ends reg
    by (simp add: cl_range_snap_def cl_range_region_def cl_range_resp_need_def usub_def len c
        split(2) length_pks Suc_diff_le)
qed

section \<open>The list interface\<close>

text \<open>
  What a list command relies on: the representation relation, and that pushes, pops and
  observations act on the list it represents without panicking. The client lemmas are
  about the push and pop loops of the commands.
\<close>

fun push_loop :: "('l \<Rightarrow> bytes \<Rightarrow> 'l option) \<Rightarrow> 'l \<Rightarrow> bytes list \<Rightarrow> 'l option" where
  "push_loop push l [] = Some l"
| "push_loop push l (v # vs) = do { l' \<leftarrow> push l v; push_loop push l' vs }"

fun pop_loop :: "('l \<Rightarrow> (bytes option \<times> 'l) option) \<Rightarrow> nat \<Rightarrow> 'l \<Rightarrow> (bytes list \<times> 'l) option" where
  "pop_loop pop 0 l = Some ([], l)"
| "pop_loop pop (Suc n) l = do {
     (v, l') \<leftarrow> pop l;
     case v of
       None \<Rightarrow> Some ([], l')
     | Some x \<Rightarrow> do { (xs, l'') \<leftarrow> pop_loop pop n l'; Some (x # xs, l'') }
   }"

locale deque =
  fixes rel :: "'l \<Rightarrow> bytes list \<Rightarrow> bool"
    and push_front :: "'l \<Rightarrow> bytes \<Rightarrow> 'l option"
    and push_back :: "'l \<Rightarrow> bytes \<Rightarrow> 'l option"
    and pop_front :: "'l \<Rightarrow> (bytes option \<times> 'l) option"
    and pop_back :: "'l \<Rightarrow> (bytes option \<times> 'l) option"
    and size_of :: "'l \<Rightarrow> nat"
    and payload_of :: "'l \<Rightarrow> nat"
  assumes push_front_law: "rel l vs \<Longrightarrow> \<exists>l'. push_front l v = Some l' \<and> rel l' (v # vs)"
    and push_back_law: "rel l vs \<Longrightarrow> \<exists>l'. push_back l v = Some l' \<and> rel l' (vs @ [v])"
    and pop_front_law: "rel l vs \<Longrightarrow>
      \<exists>l'. pop_front l = Some (case vs of [] \<Rightarrow> None | v # _ \<Rightarrow> Some v, l') \<and> rel l' (tl vs)"
    and pop_back_law: "rel l vs \<Longrightarrow>
      \<exists>l'. pop_back l = Some (if vs = [] then None else Some (last vs), l') \<and> rel l' (butlast vs)"
    and size_law: "rel l vs \<Longrightarrow> size_of l = length vs"
    and payload_law: "rel l vs \<Longrightarrow> payload_of l = payload vs"
begin

lemma push_back_loop:
  "rel l vs \<Longrightarrow> \<exists>l'. push_loop push_back l xs = Some l' \<and> rel l' (vs @ xs)"
proof (induction xs arbitrary: l vs)
  case (Cons x xs)
  from push_back_law [OF Cons.prems] obtain l1 where "push_back l x = Some l1" "rel l1 (vs @ [x])"
    by blast
  with Cons.IH [of l1 "vs @ [x]"] show ?case by simp
qed simp

lemma push_front_loop:
  "rel l vs \<Longrightarrow> \<exists>l'. push_loop push_front l xs = Some l' \<and> rel l' (rev xs @ vs)"
proof (induction xs arbitrary: l vs)
  case (Cons x xs)
  from push_front_law [OF Cons.prems] obtain l1 where "push_front l x = Some l1" "rel l1 (x # vs)"
    by blast
  with Cons.IH [of l1 "x # vs"] show ?case by simp
qed simp

lemma pop_front_loop:
  "rel l vs \<Longrightarrow> \<exists>l'. pop_loop pop_front n l = Some (take n vs, l') \<and> rel l' (drop n vs)"
proof (induction n arbitrary: l vs)
  case (Suc n)
  from pop_front_law [OF Suc.prems] obtain l1 where
    l1: "pop_front l = Some (case vs of [] \<Rightarrow> None | v # _ \<Rightarrow> Some v, l1)" "rel l1 (tl vs)" by blast
  from Suc.IH [OF l1(2)] obtain l2 where
    "pop_loop pop_front n l1 = Some (take n (tl vs), l2)" "rel l2 (drop n (tl vs))" by blast
  with l1 show ?case by (cases vs) auto
qed simp

lemma pop_back_loop:
  "rel l vs \<Longrightarrow> \<exists>l'. pop_loop pop_back n l = Some (take n (rev vs), l')
     \<and> rel l' (take (length vs - n) vs)"
proof (induction n arbitrary: l vs)
  case (Suc n)
  from pop_back_law [OF Suc.prems] obtain l1 where
    l1: "pop_back l = Some (if vs = [] then None else Some (last vs), l1)" "rel l1 (butlast vs)" by blast
  from Suc.IH [OF l1(2)] obtain l2 where
    "pop_loop pop_back n l1 = Some (take n (rev (butlast vs)), l2)"
    "rel l2 (take (length (butlast vs) - n) (butlast vs))" by blast
  with l1 show ?case by (cases vs rule: rev_cases) auto
qed simp

text \<open>A queue: what is pushed at the back comes out at the front in the same order.\<close>

lemma queue_fifo:
  assumes "rel l vs"
  shows "\<exists>l1 l2. push_loop push_back l xs = Some l1
    \<and> pop_loop pop_front (size_of l + length xs) l1 = Some (vs @ xs, l2) \<and> size_of l2 = 0
    \<and> payload_of l2 = 0"
proof -
  obtain l1 where l1: "push_loop push_back l xs = Some l1" "rel l1 (vs @ xs)"
    using push_back_loop [OF assms] by blast
  obtain l2 where "pop_loop pop_front (length vs + length xs) l1 = Some (vs @ xs, l2)" "rel l2 []"
    using pop_front_loop [OF l1(2), of "length vs + length xs"] by auto
  with l1 assms show ?thesis by (auto simp: size_law payload_law)
qed

end

interpretation ld: deque "\<lambda>l vs. list_within thr lim \<and> listdata_rel lim l vs"
  "listdata_push_front thr" "listdata_push_back thr" "listdata_pop_front thr" "listdata_pop_back thr"
  listdata_len listdata_payload_bytes for thr lim
  by unfold_locales
    (auto simp: listdata_push_front_rel listdata_push_back_rel listdata_pop_front_rel
      listdata_pop_back_rel dest: listdata_len_rel listdata_payload_rel)

lemma listdata_new_rel: "list_limits_ok lim \<Longrightarrow> listdata_rel lim listdata_new []"
  unfolding listdata_new_def cl_new_rep
  by (rule listdata_rel_compactI) (simp_all add: list_small_def list_head_max_def)

end
