(* ===== verification/Set_Data.thy ===== *)
theory Set_Data
  imports Frames "HOL-Library.Multiset"
begin

text \<open>
  The dual-encoded set of \<^verbatim>\<open>set_data.rs\<close>: a \<^verbatim>\<open>CompactSet\<close> is a run of frames, one per member;
  a \<^verbatim>\<open>HashtableSet\<close> wraps an \<^verbatim>\<open>IndexSet\<close> of the \<^verbatim>\<open>indexmap\<close> crate with a cached byte total.

  The \<^verbatim>\<open>IndexSet\<close> is represented by its iteration order, a list of members. The crate's
  insertion and swap-removal are parameters (a record of operations), with what the code
  relies on stated as \<open>index_set_laws\<close>: inserting a new member adds it, removing an index
  removes that member and no other. Where the other members end up is left open.
\<close>

section \<open>Thresholds and the \<^verbatim>\<open>IndexSet\<close> parameter\<close>

record set_thresholds =
  st_max_entries :: nat
  st_max_size :: nat
  st_max_value :: nat
  st_demote_entries :: nat

definition default_set_thresholds :: set_thresholds where
  "default_set_thresholds =
     \<lparr>st_max_entries = 512, st_max_size = 8192, st_max_value = 64, st_demote_entries = 128\<rparr>"

record index_set_ops =
  is_insert :: "bytes list \<Rightarrow> bytes \<Rightarrow> bytes list"
  is_swap_remove_index :: "bytes list \<Rightarrow> nat \<Rightarrow> bytes list"

definition index_set_laws :: "index_set_ops \<Rightarrow> bool" where
  "index_set_laws ops \<longleftrightarrow>
     (\<forall>xs m. m \<notin> set xs \<longrightarrow> mset (is_insert ops xs m) = add_mset m (mset xs))
     \<and> (\<forall>xs i. i < length xs \<longrightarrow>
          mset (is_swap_remove_index ops xs i) = mset xs - {#xs ! i#})"

section \<open>The hashtable encoding\<close>

record hashtable_set =
  hs_set :: "bytes list"
  hs_bytes :: nat

definition hs_with_capacity :: "nat \<Rightarrow> hashtable_set" where
  "hs_with_capacity n = \<lparr>hs_set = [], hs_bytes = 0\<rparr>"

definition hs_from_index_set :: "bytes list \<Rightarrow> hashtable_set" where
  "hs_from_index_set s = \<lparr>hs_set = s, hs_bytes = sum_list (map length s)\<rparr>"

definition hs_len :: "hashtable_set \<Rightarrow> nat" where
  "hs_len s = length (hs_set s)"

definition hs_insert :: "index_set_ops \<Rightarrow> hashtable_set \<Rightarrow> bytes \<Rightarrow> (bool \<times> int) \<times> hashtable_set" where
  "hs_insert ops s member =
     (let n = length member in
      if member \<notin> set (hs_set s)
      then ((True, int n), \<lparr>hs_set = is_insert ops (hs_set s) member, hs_bytes = hs_bytes s + n\<rparr>)
      else ((False, 0), s))"

definition hs_contains :: "hashtable_set \<Rightarrow> bytes \<Rightarrow> bool" where
  "hs_contains s member \<longleftrightarrow> member \<in> set (hs_set s)"

fun find_index :: "'a \<Rightarrow> 'a list \<Rightarrow> nat option" where
  "find_index x [] = None"
| "find_index x (y # ys) = (if y = x then Some 0 else map_option Suc (find_index x ys))"

definition hs_remove :: "index_set_ops \<Rightarrow> hashtable_set \<Rightarrow> bytes \<Rightarrow> (bool \<times> int) \<times> hashtable_set" where
  "hs_remove ops s member = (case find_index member (hs_set s) of
     Some i \<Rightarrow>
       (let n = length member in
        ((True, - int n),
         \<lparr>hs_set = is_swap_remove_index ops (hs_set s) i, hs_bytes = hs_bytes s - n\<rparr>))
   | None \<Rightarrow> ((False, 0), s))"

definition hs_get_index :: "hashtable_set \<Rightarrow> nat \<Rightarrow> bytes option" where
  "hs_get_index s idx = index (hs_set s) idx"

definition hs_swap_remove_index ::
    "index_set_ops \<Rightarrow> hashtable_set \<Rightarrow> nat \<Rightarrow> (bytes \<times> int) option \<times> hashtable_set" where
  "hs_swap_remove_index ops s idx = (case index (hs_set s) idx of
     None \<Rightarrow> (None, s)
   | Some m \<Rightarrow>
       (let n = length m in
        (Some (m, - int n),
         \<lparr>hs_set = is_swap_remove_index ops (hs_set s) idx, hs_bytes = hs_bytes s - n\<rparr>)))"

section \<open>The compact encoding\<close>

record compact_set =
  cs_buf :: bytes
  cs_len :: nat
  cs_bytes :: nat

definition cs_new :: compact_set where
  "cs_new = \<lparr>cs_buf = [], cs_len = 0, cs_bytes = 0\<rparr>"

definition cs_with_capacity :: "nat \<Rightarrow> nat \<Rightarrow> compact_set" where
  "cs_with_capacity n pl = \<lparr>cs_buf = [], cs_len = 0, cs_bytes = 0\<rparr>"

definition cs_append_member :: "compact_set \<Rightarrow> bytes \<Rightarrow> compact_set" where
  "cs_append_member c member =
     \<lparr>cs_buf = cs_buf c @ u32_le (length member) @ member,
      cs_len = cs_len c + 1, cs_bytes = cs_bytes c + length member\<rparr>"

fun cs_contains_loop :: "bytes \<Rightarrow> bytes \<Rightarrow> nat \<Rightarrow> nat \<Rightarrow> bool option" where
  "cs_contains_loop buf member 0 off = Some False"
| "cs_contains_loop buf member (Suc k) off = do {
     n \<leftarrow> read_u32 buf off;
     m \<leftarrow> subslice buf (off + 4) (off + 4 + n);
     if m = member then Some True else cs_contains_loop buf member k (off + 4 + n)
   }"

definition cs_contains :: "compact_set \<Rightarrow> bytes \<Rightarrow> bool option" where
  "cs_contains c member = cs_contains_loop (cs_buf c) member (cs_len c) 0"

definition cs_insert :: "compact_set \<Rightarrow> bytes \<Rightarrow> ((bool \<times> int) \<times> compact_set) option" where
  "cs_insert c member = do {
     present \<leftarrow> cs_contains c member;
     if present then Some ((False, 0), c)
     else Some ((True, int (length member)), cs_append_member c member)
   }"

fun cs_remove_loop ::
    "bytes \<Rightarrow> bytes \<Rightarrow> nat \<Rightarrow> nat \<Rightarrow> bool \<times> bytes \<times> nat \<times> nat \<Rightarrow> (bool \<times> bytes \<times> nat \<times> nat) option" where
  "cs_remove_loop buf member 0 off st = Some st"
| "cs_remove_loop buf member (Suc k) off (found, new_buf, new_len, new_bytes) = do {
     n \<leftarrow> read_u32 buf off;
     m \<leftarrow> subslice buf (off + 4) (off + 4 + n);
     if \<not> found \<and> m = member
     then cs_remove_loop buf member k (off + 4 + n) (True, new_buf, new_len, new_bytes)
     else do {
       frame \<leftarrow> subslice buf off (off + 4 + n);
       cs_remove_loop buf member k (off + 4 + n) (found, new_buf @ frame, new_len + 1, new_bytes + n)
     }
   }"

definition cs_remove :: "compact_set \<Rightarrow> bytes \<Rightarrow> ((bool \<times> int) \<times> compact_set) option" where
  "cs_remove c member = do {
     (found, new_buf, new_len, new_bytes) \<leftarrow>
       cs_remove_loop (cs_buf c) member (cs_len c) 0 (False, [], 0, 0);
     if found
     then Some ((True, int new_bytes - int (cs_bytes c)),
                \<lparr>cs_buf = new_buf, cs_len = new_len, cs_bytes = new_bytes\<rparr>)
     else Some ((False, 0), c)
   }"

fun cs_nth_loop :: "bytes \<Rightarrow> nat \<Rightarrow> nat \<Rightarrow> nat \<Rightarrow> nat \<Rightarrow> bytes option option" where
  "cs_nth_loop buf idx 0 i off = Some None"
| "cs_nth_loop buf idx (Suc k) i off = do {
     n \<leftarrow> read_u32 buf off;
     if i = idx then map_option Some (subslice buf (off + 4) (off + 4 + n))
     else cs_nth_loop buf idx k (i + 1) (off + 4 + n)
   }"

definition cs_nth_ref :: "compact_set \<Rightarrow> nat \<Rightarrow> bytes option option" where
  "cs_nth_ref c idx =
     (if idx \<ge> cs_len c then Some None else cs_nth_loop (cs_buf c) idx (cs_len c) 0 0)"

definition cs_iter_members :: "compact_set \<Rightarrow> bytes list option" where
  "cs_iter_members c = compact_iter_collect (cs_buf c) 0 (cs_len c)"

section \<open>The dual encoding\<close>

datatype set_data = SetCompact compact_set | SetHashtable hashtable_set

definition setdata_new :: set_data where
  "setdata_new = SetCompact cs_new"

text \<open>The loop that decides whether a collection of members fits the compact encoding.\<close>

fun members_fit :: "nat \<Rightarrow> nat \<Rightarrow> nat \<Rightarrow> bytes list \<Rightarrow> bool" where
  "members_fit max_value max_size tot [] \<longleftrightarrow> True"
| "members_fit max_value max_size tot (m # ms) \<longleftrightarrow>
     (if length m > max_value then False
      else if tot + length m > max_size then False
      else members_fit max_value max_size (tot + length m) ms)"

text \<open>\<open>s\<close> is the iteration order of the given \<^verbatim>\<open>HashSet\<close>.\<close>

definition setdata_from_hashset :: "set_thresholds \<Rightarrow> bytes list \<Rightarrow> set_data" where
  "setdata_from_hashset thr s =
     (if length s \<le> st_max_entries thr \<and> members_fit (st_max_value thr) (st_max_size thr) 0 s
      then SetCompact (fold (\<lambda>m c. cs_append_member c m) s
             (cs_with_capacity (length s) (sum_list (map length s))))
      else SetHashtable (hs_from_index_set s))"

fun setdata_len :: "set_data \<Rightarrow> nat" where
  "setdata_len (SetCompact c) = cs_len c"
| "setdata_len (SetHashtable s) = hs_len s"

definition setdata_is_empty :: "set_data \<Rightarrow> bool" where
  "setdata_is_empty s \<longleftrightarrow> setdata_len s = 0"

fun setdata_encoding_name :: "set_data \<Rightarrow> string" where
  "setdata_encoding_name (SetCompact c) = ''listpack''"
| "setdata_encoding_name (SetHashtable s) = ''hashtable''"

fun setdata_payload_bytes :: "set_data \<Rightarrow> nat" where
  "setdata_payload_bytes (SetCompact c) = cs_bytes c"
| "setdata_payload_bytes (SetHashtable s) = hs_bytes s"

fun setdata_ensure_hashtable :: "index_set_ops \<Rightarrow> set_data \<Rightarrow> hashtable_set option" where
  "setdata_ensure_hashtable ops (SetHashtable s) = Some s"
| "setdata_ensure_hashtable ops (SetCompact c) = do {
     ms \<leftarrow> cs_iter_members c;
     let s = fold (\<lambda>m s. snd (hs_insert ops s m)) ms (hs_with_capacity (cs_len c));
     Some (s\<lparr>hs_bytes := cs_bytes c\<rparr>)
   }"

fun setdata_maybe_demote :: "set_thresholds \<Rightarrow> set_data \<Rightarrow> set_data" where
  "setdata_maybe_demote thr (SetCompact c) = SetCompact c"
| "setdata_maybe_demote thr (SetHashtable s) =
     (if hs_len s > st_demote_entries thr then SetHashtable s
      else if \<exists>m \<in> set (hs_set s). length m > st_max_value thr then SetHashtable s
      else if hs_bytes s > st_max_size thr then SetHashtable s
      else SetCompact (fold (\<lambda>m c. cs_append_member c m) (hs_set s)
             (cs_with_capacity (hs_len s) (hs_bytes s))))"

fun setdata_should_promote :: "set_thresholds \<Rightarrow> set_data \<Rightarrow> nat \<Rightarrow> bool \<Rightarrow> bool" where
  "setdata_should_promote thr (SetCompact c) member_len is_new \<longleftrightarrow>
     member_len > st_max_value thr \<or> (is_new \<and> cs_len c + 1 > st_max_entries thr)
       \<or> cs_bytes c + member_len > st_max_size thr"
| "setdata_should_promote thr (SetHashtable s) member_len is_new \<longleftrightarrow> False"

fun setdata_contains :: "set_data \<Rightarrow> bytes \<Rightarrow> bool option" where
  "setdata_contains (SetCompact c) member = cs_contains c member"
| "setdata_contains (SetHashtable s) member = Some (hs_contains s member)"

definition setdata_insert ::
    "index_set_ops \<Rightarrow> set_thresholds \<Rightarrow> set_data \<Rightarrow> bytes \<Rightarrow> ((bool \<times> int) \<times> set_data) option" where
  "setdata_insert ops thr s member = do {
     present \<leftarrow> setdata_contains s member;
     if present then Some ((False, 0), s)
     else do {
       s1 \<leftarrow> (if setdata_should_promote thr s (length member) True
              then map_option SetHashtable (setdata_ensure_hashtable ops s) else Some s);
       case s1 of
         SetCompact c \<Rightarrow> map_option (\<lambda>(r, c'). (r, SetCompact c')) (cs_insert c member)
       | SetHashtable h \<Rightarrow> (case hs_insert ops h member of (r, h') \<Rightarrow> Some (r, SetHashtable h'))
     }
   }"

definition setdata_remove ::
    "index_set_ops \<Rightarrow> set_thresholds \<Rightarrow> set_data \<Rightarrow> bytes \<Rightarrow> ((bool \<times> int) \<times> set_data) option" where
  "setdata_remove ops thr s member = do {
     ((removed, delta), s1) \<leftarrow> (case s of
         SetCompact c \<Rightarrow> map_option (\<lambda>(r, c'). (r, SetCompact c')) (cs_remove c member)
       | SetHashtable h \<Rightarrow> (case hs_remove ops h member of (r, h') \<Rightarrow> Some (r, SetHashtable h')));
     Some ((removed, delta), if removed then setdata_maybe_demote thr s1 else s1)
   }"

fun setdata_to_vec :: "set_data \<Rightarrow> bytes list option" where
  "setdata_to_vec (SetCompact c) = cs_iter_members c"
| "setdata_to_vec (SetHashtable s) = Some (hs_set s)"

definition setdata_to_hashset :: "set_data \<Rightarrow> bytes set option" where
  "setdata_to_hashset s = map_option set (setdata_to_vec s)"

definition setdata_remove_at ::
    "index_set_ops \<Rightarrow> set_thresholds \<Rightarrow> set_data \<Rightarrow> nat \<Rightarrow> (bytes option \<times> set_data) option" where
  "setdata_remove_at ops thr s idx =
     (if setdata_is_empty s \<or> idx \<ge> setdata_len s then Some (None, s)
      else (case s of
        SetCompact c \<Rightarrow> do {
          m \<leftarrow> cs_nth_ref c idx;
          case m of
            None \<Rightarrow> Some (None, s)
          | Some m \<Rightarrow> do {
              (_, c') \<leftarrow> cs_remove c m;
              Some (Some m, setdata_maybe_demote thr (SetCompact c'))
            }
        }
      | SetHashtable h \<Rightarrow>
          (case hs_swap_remove_index ops h idx of
             (None, h') \<Rightarrow> Some (None, SetHashtable h')
           | (Some (m, _), h') \<Rightarrow> Some (Some m, setdata_maybe_demote thr (SetHashtable h')))))"

fun setdata_get_at :: "set_data \<Rightarrow> nat \<Rightarrow> bytes option option" where
  "setdata_get_at (SetCompact c) idx = cs_nth_ref c idx"
| "setdata_get_at (SetHashtable s) idx = Some (hs_get_index s idx)"

section \<open>Abstract content\<close>

definition cs_rep :: "bytes list \<Rightarrow> compact_set" where
  "cs_rep ms = \<lparr>cs_buf = pks ms, cs_len = length ms, cs_bytes = payload ms\<rparr>"

fun setdata_rel :: "set_data \<Rightarrow> bytes list \<Rightarrow> bool" where
  "setdata_rel (SetCompact c) ms \<longleftrightarrow> c = cs_rep ms \<and> distinct ms \<and> (\<forall>m \<in> set ms. fits m)"
| "setdata_rel (SetHashtable h) ms \<longleftrightarrow>
     h = \<lparr>hs_set = ms, hs_bytes = payload ms\<rparr> \<and> distinct ms"

text \<open>The set a \<^verbatim>\<open>SetData\<close> stands for, whatever its encoding and member order.\<close>

definition setdata_is :: "set_data \<Rightarrow> bytes set \<Rightarrow> bool" where
  "setdata_is s A \<longleftrightarrow> (\<exists>ms. setdata_rel s ms \<and> set ms = A)"

text \<open>Members that may be stored compactly have a length that fits the \<^verbatim>\<open>u32\<close> prefix.\<close>

definition set_thr_ok :: "set_thresholds \<Rightarrow> bool" where
  "set_thr_ok thr \<longleftrightarrow> st_max_value thr < 2 ^ 32"

lemma cs_rep_sel [simp]:
  "cs_buf (cs_rep ms) = pks ms" "cs_len (cs_rep ms) = length ms" "cs_bytes (cs_rep ms) = payload ms"
  by (simp_all add: cs_rep_def)

lemma setdata_rel_distinct: "setdata_rel s ms \<Longrightarrow> distinct ms"
  by (cases s) auto

lemma cs_append_rep: "cs_append_member (cs_rep ms) m = cs_rep (ms @ [m])"
  by (simp add: cs_append_member_def cs_rep_def pk_def)

lemma cs_empty_rep: "cs_new = cs_rep []" "cs_with_capacity n pl = cs_rep []"
  by (simp_all add: cs_new_def cs_with_capacity_def cs_rep_def)

lemma fold_cs_append: "fold (\<lambda>m c. cs_append_member c m) ws (cs_rep ms) = cs_rep (ms @ ws)"
  by (induction ws arbitrary: ms) (simp_all add: cs_append_rep)

subsection \<open>The compact loops\<close>

lemma cs_contains_loop_pks:
  "drop off buf = pks ms @ post \<Longrightarrow> \<forall>m \<in> set ms. fits m \<Longrightarrow>
     cs_contains_loop buf member (length ms) off = Some (member \<in> set ms)"
proof (induction ms arbitrary: off)
  case (Cons m ms)
  then have d: "drop off buf = pk m @ (pks ms @ post)" by simp
  then show ?case
    using Cons.prems Cons.IH [OF drop_next_pk [OF d]]
    by (auto simp: read_u32_drop [OF d] subslice_body_drop [OF d])
qed simp

lemma cs_remove_loop_pks:
  "drop off buf = pks ms @ post \<Longrightarrow> \<forall>m \<in> set ms. fits m \<Longrightarrow>
     cs_remove_loop buf member (length ms) off (found, nb, nl, ny) =
       (let ms' = if found then ms else remove1 member ms
        in Some (found \<or> member \<in> set ms, nb @ pks ms', nl + length ms', ny + payload ms'))"
proof (induction ms arbitrary: off found nb nl ny)
  case (Cons m ms)
  then have d: "drop off buf = pk m @ (pks ms @ post)" by simp
  then show ?case
    using Cons.prems Cons.IH [OF drop_next_pk [OF d]]
    by (auto simp: Let_def read_u32_drop [OF d] subslice_body_drop [OF d] subslice_frame_drop [OF d])
qed simp

lemma cs_nth_loop_pks:
  "drop off buf = pks ms @ post \<Longrightarrow> \<forall>m \<in> set ms. fits m \<Longrightarrow> i \<le> idx \<Longrightarrow> idx < i + length ms \<Longrightarrow>
     cs_nth_loop buf idx (length ms) i off = Some (Some (ms ! (idx - i)))"
proof (induction ms arbitrary: off i)
  case (Cons m ms)
  then have d: "drop off buf = pk m @ (pks ms @ post)" by simp
  then show ?case
    using Cons.prems Cons.IH [OF drop_next_pk [OF d], of "Suc i"]
    by (auto simp: read_u32_drop [OF d] subslice_body_drop [OF d] nth_Cons' Suc_diff_Suc)
qed simp

lemma cs_contains_rep: "\<forall>m \<in> set ms. fits m \<Longrightarrow> cs_contains (cs_rep ms) x = Some (x \<in> set ms)"
  using cs_contains_loop_pks [of 0 "pks ms" ms "[]" x] by (simp add: cs_contains_def)

lemma cs_remove_rep:
  "\<forall>m \<in> set ms. fits m \<Longrightarrow> cs_remove (cs_rep ms) x =
     Some (if x \<in> set ms then ((True, - int (length x)), cs_rep (remove1 x ms))
           else ((False, 0), cs_rep ms))"
  using cs_remove_loop_pks [of 0 "pks ms" ms "[]" x False "[]" 0 0]
    payload_remove1 [of x ms]
  by (auto simp: cs_remove_def Let_def cs_rep_def)

lemma cs_nth_rep:
  "\<forall>m \<in> set ms. fits m \<Longrightarrow>
     cs_nth_ref (cs_rep ms) i = Some (if i < length ms then Some (ms ! i) else None)"
  using cs_nth_loop_pks [of 0 "pks ms" ms "[]" 0 i] by (simp add: cs_nth_ref_def)

lemma cs_iter_rep: "\<forall>m \<in> set ms. fits m \<Longrightarrow> cs_iter_members (cs_rep ms) = Some ms"
  using compact_iter_collect_pks [of 0 "pks ms" ms "[]"] by (simp add: cs_iter_members_def)

subsection \<open>The \<^verbatim>\<open>IndexSet\<close>\<close>

lemma find_index_None: "find_index x xs = None \<longleftrightarrow> x \<notin> set xs"
  by (induction xs) auto

lemma find_index_Some: "find_index x xs = Some i \<Longrightarrow> i < length xs \<and> xs ! i = x"
  by (induction xs arbitrary: i) (auto split: if_splits)

lemma payload_mset: "mset xs = mset ys \<Longrightarrow> payload xs = payload ys"
  unfolding payload_def by (metis mset_map sum_mset_sum_list)

lemma insert_distinct:
  assumes "index_set_laws ops" and "x \<notin> set ms" and "distinct ms"
  shows "distinct (is_insert ops ms x)" and "set (is_insert ops ms x) = insert x (set ms)"
    and "payload (is_insert ops ms x) = payload ms + length x"
proof -
  have m: "mset (is_insert ops ms x) = mset (x # ms)" using assms by (simp add: index_set_laws_def)
  then show "set (is_insert ops ms x) = insert x (set ms)" by (metis list.simps(15) mset_eq_setD)
  show "distinct (is_insert ops ms x)" using m assms by (metis distinct.simps(2) mset_eq_imp_distinct_iff)
  show "payload (is_insert ops ms x) = payload ms + length x" using payload_mset [OF m] by simp
qed

lemma swap_remove_distinct:
  assumes "index_set_laws ops" and "i < length ms" and "distinct ms"
  shows "distinct (is_swap_remove_index ops ms i)"
    and "set (is_swap_remove_index ops ms i) = set ms - {ms ! i}"
    and "payload (is_swap_remove_index ops ms i) = payload ms - length (ms ! i)"
proof -
  have m: "mset (is_swap_remove_index ops ms i) = mset (remove1 (ms ! i) ms)"
    using assms by (simp add: index_set_laws_def)
  then show "set (is_swap_remove_index ops ms i) = set ms - {ms ! i}"
    using assms(3) by (metis mset_eq_setD set_remove1_eq)
  show "distinct (is_swap_remove_index ops ms i)"
    using m assms(3) by (metis distinct_remove1 mset_eq_imp_distinct_iff)
  show "payload (is_swap_remove_index ops ms i) = payload ms - length (ms ! i)"
    using payload_mset [OF m] payload_remove1 [of "ms ! i" ms] assms(2) by simp
qed

subsection \<open>Refinement\<close>

lemma fold_hs_insert:
  assumes "index_set_laws ops" and "distinct (ms @ ws)"
  shows "\<exists>ms'. fold (\<lambda>m s. snd (hs_insert ops s m)) ws \<lparr>hs_set = ms, hs_bytes = payload ms\<rparr>
      = \<lparr>hs_set = ms', hs_bytes = payload ms'\<rparr> \<and> distinct ms' \<and> set ms' = set ms \<union> set ws"
  using assms(2)
proof (induction ws arbitrary: ms)
  case (Cons w ws)
  let ?ms = "is_insert ops ms w"
  have i: "distinct ?ms" "set ?ms = insert w (set ms)" "payload ?ms = payload ms + length w"
    using insert_distinct [OF assms(1), of w ms] Cons.prems by auto
  then have "distinct (?ms @ ws)" using Cons.prems by auto
  from Cons.IH [OF this] i Cons.prems show ?case
    by (auto simp: hs_insert_def Let_def)
qed simp

lemma setdata_ensure_hashtable_rel:
  assumes "index_set_laws ops" and "setdata_rel s ms"
  shows "\<exists>ms'. setdata_ensure_hashtable ops s = Some \<lparr>hs_set = ms', hs_bytes = payload ms'\<rparr>
    \<and> distinct ms' \<and> set ms' = set ms"
proof (cases s)
  case (SetCompact c)
  with assms(2) have c: "c = cs_rep ms" "distinct ms" "\<forall>m \<in> set ms. fits m" by auto
  obtain ms' where f: "fold (\<lambda>m s. snd (hs_insert ops s m)) ms \<lparr>hs_set = [], hs_bytes = 0\<rparr>
      = \<lparr>hs_set = ms', hs_bytes = payload ms'\<rparr>" "distinct ms'" "set ms' = set ms"
    using fold_hs_insert [OF assms(1), of "[]" ms] c(2) by auto
  then have "payload ms' = payload ms" using c(2) by (simp add: payload_distinct)
  then show ?thesis using f SetCompact c
    by (simp add: cs_iter_rep hs_with_capacity_def)
qed (use assms in auto)

lemma setdata_maybe_demote_rel:
  assumes "set_thr_ok thr" and "setdata_rel s ms"
  shows "setdata_rel (setdata_maybe_demote thr s) ms"
  using assms fold_cs_append [of ms "[]"]
  by (cases s) (auto simp: cs_empty_rep set_thr_ok_def fits_def not_less)

lemma setdata_contains_rel [refine_simps]:
  "setdata_rel s ms \<Longrightarrow> setdata_contains s x = Some (x \<in> set ms)"
  by (cases s) (auto simp: cs_contains_rep hs_contains_def)

lemma setdata_len_rel [refine_simps]: "setdata_rel s ms \<Longrightarrow> setdata_len s = length ms"
  by (cases s) (auto simp: hs_len_def)

lemma setdata_payload_rel [refine_simps]: "setdata_rel s ms \<Longrightarrow> setdata_payload_bytes s = payload ms"
  by (cases s) auto

lemma setdata_to_vec_rel [refine_simps]: "setdata_rel s ms \<Longrightarrow> setdata_to_vec s = Some ms"
  by (cases s) (auto simp: cs_iter_rep)

lemma setdata_get_at_rel [refine_simps]:
  "setdata_rel s ms \<Longrightarrow> setdata_get_at s i = Some (if i < length ms then Some (ms ! i) else None)"
  by (cases s) (auto simp: cs_nth_rep hs_get_index_def index_def)

lemma setdata_insert_rel:
  assumes laws: "index_set_laws ops" and ok: "set_thr_ok thr" and rel: "setdata_rel s ms"
  shows "\<exists>s' ms'. setdata_insert ops thr s x =
      Some ((x \<notin> set ms, if x \<in> set ms then 0 else int (length x)), s')
    \<and> setdata_rel s' ms' \<and> set ms' = insert x (set ms)"
proof (cases "x \<in> set ms")
  case True
  then have "setdata_insert ops thr s x = Some ((False, 0), s)"
    by (simp add: setdata_insert_def setdata_contains_rel [OF rel])
  with True rel show ?thesis by (simp add: insert_absorb) blast
next
  case new: False
  have hash: "\<exists>h' ms'. hs_insert ops \<lparr>hs_set = ws, hs_bytes = payload ws\<rparr> x = ((True, int (length x)), h')
      \<and> setdata_rel (SetHashtable h') ms' \<and> set ms' = insert x (set ms)"
    if "distinct ws" "set ws = set ms" for ws
    using insert_distinct [OF laws, of x ws] that new by (auto simp: hs_insert_def Let_def)
  show ?thesis
  proof (cases "setdata_should_promote thr s (length x) True")
    case True
    obtain ws where ws: "setdata_ensure_hashtable ops s = Some \<lparr>hs_set = ws, hs_bytes = payload ws\<rparr>"
        "distinct ws" "set ws = set ms"
      using setdata_ensure_hashtable_rel [OF laws rel] by blast
    with True new hash [OF ws(2,3)] show ?thesis
      by (auto simp: setdata_insert_def setdata_contains_rel [OF rel])
  next
    case False
    show ?thesis
    proof (cases s)
      case (SetCompact c)
      with False ok have "fits x" by (auto simp: set_thr_ok_def fits_def)
      then have "setdata_insert ops thr s x = Some ((True, int (length x)), SetCompact (cs_rep (ms @ [x])))
          \<and> setdata_rel (SetCompact (cs_rep (ms @ [x]))) (ms @ [x])"
        using False SetCompact rel new
        by (auto simp: setdata_insert_def cs_contains_rep cs_insert_def cs_append_rep)
      then show ?thesis using new by fastforce
    next
      case (SetHashtable h)
      with rel have h: "h = \<lparr>hs_set = ms, hs_bytes = payload ms\<rparr>" "distinct ms" by auto
      with False SetHashtable new hash [OF h(2) refl] show ?thesis
        by (auto simp: setdata_insert_def hs_contains_def)
    qed
  qed
qed

lemma hs_remove_rel:
  assumes "index_set_laws ops" and "distinct ms"
  shows "\<exists>ms'. hs_remove ops \<lparr>hs_set = ms, hs_bytes = payload ms\<rparr> x =
      ((x \<in> set ms, if x \<in> set ms then - int (length x) else 0), \<lparr>hs_set = ms', hs_bytes = payload ms'\<rparr>)
    \<and> distinct ms' \<and> set ms' = set ms - {x}"
proof (cases "find_index x ms")
  case None
  then have "x \<notin> set ms" by (simp add: find_index_None)
  then show ?thesis using None assms(2) by (intro exI [of _ ms]) (simp add: hs_remove_def)
next
  case (Some i)
  then have i: "i < length ms" "ms ! i = x" using find_index_Some [OF Some] by simp_all
  then have "x \<in> set ms" by auto
  with Some i swap_remove_distinct [OF assms(1) i(1) assms(2)] show ?thesis
    by (intro exI [of _ "is_swap_remove_index ops ms i"]) (simp add: hs_remove_def Let_def)
qed

lemma setdata_remove_rel:
  assumes laws: "index_set_laws ops" and ok: "set_thr_ok thr" and rel: "setdata_rel s ms"
  shows "\<exists>s' ms'. setdata_remove ops thr s x =
      Some ((x \<in> set ms, if x \<in> set ms then - int (length x) else 0), s')
    \<and> setdata_rel s' ms' \<and> set ms' = set ms - {x}"
proof (cases s)
  case (SetCompact c)
  then have c: "c = cs_rep ms" "distinct ms" "\<forall>m \<in> set ms. fits m" using rel by auto
  show ?thesis
  proof (cases "x \<in> set ms")
    case True
    then show ?thesis using SetCompact c
      by (intro exI [of _ "SetCompact (cs_rep (remove1 x ms))"] exI [of _ "remove1 x ms"])
        (auto simp: setdata_remove_def cs_remove_rep dest: notin_set_remove1)
  next
    case False
    then show ?thesis using SetCompact c rel
      by (intro exI [of _ s] exI [of _ ms]) (auto simp: setdata_remove_def cs_remove_rep)
  qed
next
  case (SetHashtable h)
  then have h: "h = \<lparr>hs_set = ms, hs_bytes = payload ms\<rparr>" "distinct ms" using rel by auto
  obtain ms' where r: "hs_remove ops h x =
      ((x \<in> set ms, if x \<in> set ms then - int (length x) else 0), \<lparr>hs_set = ms', hs_bytes = payload ms'\<rparr>)"
      "distinct ms'" "set ms' = set ms - {x}"
    using hs_remove_rel [OF laws h(2)] h(1) by blast
  then have "setdata_rel (SetHashtable \<lparr>hs_set = ms', hs_bytes = payload ms'\<rparr>) ms'" by simp
  with r SetHashtable setdata_maybe_demote_rel [OF ok this] show ?thesis
    by (auto simp: setdata_remove_def simp del: setdata_maybe_demote.simps)
qed

lemma setdata_remove_at_rel:
  assumes laws: "index_set_laws ops" and ok: "set_thr_ok thr" and rel: "setdata_rel s ms"
  shows "\<exists>s' ms'. setdata_remove_at ops thr s i = Some (if i < length ms then Some (ms ! i) else None, s')
    \<and> setdata_rel s' ms' \<and> set ms' = (if i < length ms then set ms - {ms ! i} else set ms)"
proof (cases "i < length ms")
  case False
  then show ?thesis using rel
    by (auto simp: setdata_remove_at_def setdata_len_rel [OF rel])
next
  case True
  then have ne: "\<not> (setdata_is_empty s \<or> i \<ge> setdata_len s)"
    using setdata_len_rel [OF rel] by (auto simp: setdata_is_empty_def)
  show ?thesis
  proof (cases s)
    case (SetCompact c)
    then have c: "c = cs_rep ms" "distinct ms" "\<forall>m \<in> set ms. fits m" using rel by auto
    then show ?thesis using True ne SetCompact
      by (intro exI [of _ "SetCompact (cs_rep (remove1 (ms ! i) ms))"] exI [of _ "remove1 (ms ! i) ms"])
        (auto simp: setdata_remove_at_def cs_nth_rep cs_remove_rep dest: notin_set_remove1)
  next
    case (SetHashtable h)
    then have h: "h = \<lparr>hs_set = ms, hs_bytes = payload ms\<rparr>" "distinct ms" using rel by auto
    let ?ms = "is_swap_remove_index ops ms i"
    note sr = swap_remove_distinct [OF laws True h(2)]
    then have "setdata_rel (SetHashtable \<lparr>hs_set = ?ms, hs_bytes = payload ?ms\<rparr>) ?ms" by simp
    from setdata_maybe_demote_rel [OF ok this] sr True ne SetHashtable h show ?thesis
      by (auto simp: setdata_remove_at_def hs_swap_remove_index_def index_def Let_def
          simp del: setdata_maybe_demote.simps)
  qed
qed

lemma members_fit_iff:
  "tot \<le> max_size \<Longrightarrow> members_fit max_value max_size tot ms \<longleftrightarrow>
     (\<forall>m \<in> set ms. length m \<le> max_value) \<and> tot + payload ms \<le> max_size"
  by (induction ms arbitrary: tot) (auto simp: not_less)

lemma setdata_from_hashset_rel:
  assumes "set_thr_ok thr" and "distinct s"
  shows "setdata_rel (setdata_from_hashset thr s) s"
  using assms fold_cs_append [of s "[]"]
  by (auto simp: setdata_from_hashset_def members_fit_iff cs_empty_rep set_thr_ok_def fits_def
      hs_from_index_set_def payload_def)

section \<open>The set interface\<close>

text \<open>
  What a set command relies on, and the loops of \<^verbatim>\<open>SADD\<close> and \<^verbatim>\<open>SREM\<close> over it: the number of
  members added or removed and the change of the byte total.
\<close>

fun add_loop ::
    "('s \<Rightarrow> bytes \<Rightarrow> ((bool \<times> int) \<times> 's) option) \<Rightarrow> 's \<Rightarrow> bytes list \<Rightarrow> int \<Rightarrow> int \<Rightarrow> ((int \<times> int) \<times> 's) option" where
  "add_loop ins s [] added delta = Some ((added, delta), s)"
| "add_loop ins s (x # xs) added delta = do {
     ((is_new, d), s') \<leftarrow> ins s x;
     add_loop ins s' xs (if is_new then added + 1 else added) (delta + d)
   }"

fun remove_loop ::
    "('s \<Rightarrow> bytes \<Rightarrow> ((bool \<times> int) \<times> 's) option) \<Rightarrow> 's \<Rightarrow> bytes list \<Rightarrow> int \<Rightarrow> int \<Rightarrow> ((int \<times> int) \<times> 's) option" where
  "remove_loop rem s [] removed delta = Some ((removed, delta), s)"
| "remove_loop rem s (x # xs) removed delta = do {
     ((ok, d), s') \<leftarrow> rem s x;
     remove_loop rem s' xs (if ok then removed + 1 else removed) (if ok then delta + d else delta)
   }"

definition set_payload :: "bytes set \<Rightarrow> nat" where
  "set_payload A = (\<Sum>m \<in> A. length m)"

locale byte_set =
  fixes holds :: "'s \<Rightarrow> bytes set \<Rightarrow> bool"
    and ins :: "'s \<Rightarrow> bytes \<Rightarrow> ((bool \<times> int) \<times> 's) option"
    and rem :: "'s \<Rightarrow> bytes \<Rightarrow> ((bool \<times> int) \<times> 's) option"
    and mem :: "'s \<Rightarrow> bytes \<Rightarrow> bool option"
    and size_of :: "'s \<Rightarrow> nat"
    and payload_of :: "'s \<Rightarrow> nat"
    and members :: "'s \<Rightarrow> bytes list option"
  assumes finite_law: "holds s A \<Longrightarrow> finite A"
    and insert_law: "holds s A \<Longrightarrow>
      \<exists>s'. ins s x = Some ((x \<notin> A, if x \<in> A then 0 else int (length x)), s') \<and> holds s' (insert x A)"
    and remove_law: "holds s A \<Longrightarrow>
      \<exists>s'. rem s x = Some ((x \<in> A, if x \<in> A then - int (length x) else 0), s') \<and> holds s' (A - {x})"
    and mem_law: "holds s A \<Longrightarrow> mem s x = Some (x \<in> A)"
    and size_law: "holds s A \<Longrightarrow> size_of s = card A"
    and payload_law: "holds s A \<Longrightarrow> payload_of s = set_payload A"
    and members_law: "holds s A \<Longrightarrow> \<exists>xs. members s = Some xs \<and> distinct xs \<and> set xs = A"
begin

lemma add_loop_correct:
  "holds s A \<Longrightarrow> \<exists>s'. add_loop ins s xs a d =
      Some ((a + (int (card (A \<union> set xs)) - int (card A)),
             d + (int (set_payload (A \<union> set xs)) - int (set_payload A))), s') \<and> holds s' (A \<union> set xs)"
proof (induction xs arbitrary: s A a d)
  case (Cons x xs)
  from insert_law [OF Cons.prems] obtain s1 where
    s1: "ins s x = Some ((x \<notin> A, if x \<in> A then 0 else int (length x)), s1)" "holds s1 (insert x A)"
    by blast
  have fin: "finite A" by (rule finite_law [OF Cons.prems])
  have un: "insert x A \<union> set xs = A \<union> set (x # xs)" by simp
  show ?case
  proof (cases "x \<in> A")
    case True
    then have "insert x A = A" by blast
    with Cons.IH [OF s1(2), of a d] s1(1) True show ?thesis unfolding un by auto
  next
    case False
    then have "card (insert x A) = Suc (card A)" "set_payload (insert x A) = length x + set_payload A"
      using fin by (simp_all add: set_payload_def)
    with Cons.IH [OF s1(2), of "a + 1" "d + int (length x)"] s1(1) False show ?thesis
      unfolding un by simp
  qed
qed simp

lemma remove_loop_correct:
  "holds s A \<Longrightarrow> \<exists>s'. remove_loop rem s xs r d =
      Some ((r + (int (card A) - int (card (A - set xs))),
             d + (int (set_payload (A - set xs)) - int (set_payload A))), s') \<and> holds s' (A - set xs)"
proof (induction xs arbitrary: s A r d)
  case (Cons x xs)
  from remove_law [OF Cons.prems] obtain s1 where
    s1: "rem s x = Some ((x \<in> A, if x \<in> A then - int (length x) else 0), s1)" "holds s1 (A - {x})"
    by blast
  have fin: "finite A" by (rule finite_law [OF Cons.prems])
  have minus: "A - {x} - set xs = A - set (x # xs)" by auto
  show ?case
  proof (cases "x \<in> A")
    case True
    have c: "int (card A) = 1 + int (card (A - {x}))"
      and p: "int (set_payload A) = int (length x) + int (set_payload (A - {x}))"
      unfolding card.remove [OF fin True] set_payload_def sum.remove [OF fin True] by simp_all
    have "rem s x = Some ((True, - int (length x)), s1)" using s1(1) True by simp
    with Cons.IH [OF s1(2), of "r + 1" "d - int (length x)"] show ?thesis
      unfolding minus c p by (simp add: algebra_simps)
  next
    case False
    then have "A - {x} = A" by simp
    with Cons.IH [OF s1(2), of r d] s1(1) False show ?thesis unfolding minus by simp
  qed
qed simp

end

lemma setdata_is_rel: "setdata_is s A \<Longrightarrow> \<exists>ms. setdata_rel s ms \<and> distinct ms \<and> set ms = A"
  using setdata_rel_distinct by (auto simp: setdata_is_def)

interpretation sd: byte_set "\<lambda>s A. index_set_laws ops \<and> set_thr_ok thr \<and> setdata_is s A"
  "setdata_insert ops thr" "setdata_remove ops thr" setdata_contains setdata_len setdata_payload_bytes
  setdata_to_vec for ops thr
proof (unfold_locales, goal_cases)
  case (1 s A)
  then show ?case by (auto simp: setdata_is_def)
next
  case (2 s A x)
  then obtain ms where "setdata_rel s ms" "set ms = A" by (auto simp: setdata_is_def)
  with 2 setdata_insert_rel [of ops thr s ms x] show ?case by (auto simp: setdata_is_def)
next
  case (3 s A x)
  then obtain ms where "setdata_rel s ms" "set ms = A" by (auto simp: setdata_is_def)
  with 3 setdata_remove_rel [of ops thr s ms x] show ?case by (auto simp: setdata_is_def)
next
  case (4 s A x)
  then show ?case by (auto simp: setdata_is_def setdata_contains_rel)
next
  case (5 s A)
  then show ?case by (auto dest!: setdata_is_rel simp: setdata_len_rel distinct_card)
next
  case (6 s A)
  then show ?case
    by (auto dest!: setdata_is_rel simp: setdata_payload_rel set_payload_def payload_distinct)
next
  case (7 s A)
  then show ?case by (auto dest!: setdata_is_rel simp: setdata_to_vec_rel)
qed

lemma setdata_new_is: "setdata_is setdata_new {}"
  by (auto simp: setdata_is_def setdata_new_def cs_empty_rep intro: exI [of _ "[]"])

text \<open>A concrete \<^verbatim>\<open>IndexSet\<close>, with which the laws hold: append, and move the last member into the gap.\<close>

definition list_index_set :: index_set_ops where
  "list_index_set = \<lparr>is_insert = (\<lambda>xs m. xs @ [m]),
     is_swap_remove_index = (\<lambda>xs i. butlast (xs[i := last xs]))\<rparr>"

lemma list_index_set_laws: "index_set_laws list_index_set"
proof -
  have "mset (butlast (xs[i := last xs])) = mset xs - {#xs ! i#}" if i: "i < length xs" for xs :: "bytes list" and i
  proof -
    obtain ys y where xs: "xs = ys @ [y]" using i by (cases xs rule: rev_cases) auto
    show ?thesis
    proof (cases "i = length ys")
      case False
      with i xs have "i < length ys" by simp
      then show ?thesis
        by (simp add: xs list_update_append nth_append butlast_append mset_update)
    qed (simp add: xs)
  qed
  then show ?thesis by (simp add: index_set_laws_def list_index_set_def)
qed

end
