(* ===== verification/Hash_Data.thy ===== *)
theory Hash_Data
  imports Frames "HOL-Library.AList" "HOL-Library.Multiset"
begin

text \<open>
  The dual-encoded hash of \<^verbatim>\<open>hash_data.rs\<close>: a \<^verbatim>\<open>CompactHash\<close> is a run of frames, field and value
  alternating; a \<^verbatim>\<open>HashtableHash\<close> is a \<^verbatim>\<open>HashMap\<close> with a cached byte total.

  A \<^verbatim>\<open>HashMap\<close> is an association list with distinct keys. Its iteration order is unspecified
  in Rust: wherever the code iterates, the model takes an order \<open>ord\<close>, any function that
  permutes the entries (\<open>hash_order\<close>).
\<close>

section \<open>Thresholds and iteration order\<close>

record hash_thresholds =
  ht_max_entries :: nat
  ht_max_size :: nat
  ht_max_value :: nat
  ht_demote_entries :: nat

definition default_hash_thresholds :: hash_thresholds where
  "default_hash_thresholds =
     \<lparr>ht_max_entries = 512, ht_max_size = 8192, ht_max_value = 64, ht_demote_entries = 128\<rparr>"

type_synonym pairs = "(bytes \<times> bytes) list"

definition hash_order :: "(pairs \<Rightarrow> pairs) \<Rightarrow> bool" where
  "hash_order ord \<longleftrightarrow> (\<forall>ps. mset (ord ps) = mset ps)"

section \<open>The hashtable encoding\<close>

record hashtable_hash =
  hh_map :: pairs
  hh_bytes :: nat

definition hh_with_capacity :: "nat \<Rightarrow> hashtable_hash" where
  "hh_with_capacity n = \<lparr>hh_map = [], hh_bytes = 0\<rparr>"

definition hh_from_map :: "pairs \<Rightarrow> hashtable_hash" where
  "hh_from_map m = \<lparr>hh_map = m, hh_bytes = sum_list (map (\<lambda>(k, v). length k + length v) m)\<rparr>"

definition hh_len :: "hashtable_hash \<Rightarrow> nat" where
  "hh_len h = length (hh_map h)"

definition hh_insert :: "hashtable_hash \<Rightarrow> bytes \<Rightarrow> bytes \<Rightarrow> (bool \<times> int) \<times> hashtable_hash" where
  "hh_insert h field val =
     (let fl = length field; vl = length val; m = AList.update field val (hh_map h) in
      case map_of (hh_map h) field of
        None \<Rightarrow> ((True, int (fl + vl)), \<lparr>hh_map = m, hh_bytes = hh_bytes h + (fl + vl)\<rparr>)
      | Some old \<Rightarrow>
          (let ol = length old in
           ((False, int vl - int ol), \<lparr>hh_map = m, hh_bytes = hh_bytes h - ol + vl\<rparr>)))"

definition hh_get :: "hashtable_hash \<Rightarrow> bytes \<Rightarrow> bytes option" where
  "hh_get h field = map_of (hh_map h) field"

definition hh_contains_key :: "hashtable_hash \<Rightarrow> bytes \<Rightarrow> bool" where
  "hh_contains_key h field \<longleftrightarrow> map_of (hh_map h) field \<noteq> None"

definition hh_remove :: "hashtable_hash \<Rightarrow> bytes \<Rightarrow> (bytes \<times> int) option \<times> hashtable_hash" where
  "hh_remove h field = (case map_of (hh_map h) field of
     None \<Rightarrow> (None, h)
   | Some v \<Rightarrow>
       (Some (v, - int (length field + length v)),
        \<lparr>hh_map = AList.delete field (hh_map h), hh_bytes = hh_bytes h - length field - length v\<rparr>))"

section \<open>The compact encoding\<close>

record compact_hash =
  ch_buf :: bytes
  ch_len :: nat
  ch_bytes :: nat

definition ch_new :: compact_hash where
  "ch_new = \<lparr>ch_buf = [], ch_len = 0, ch_bytes = 0\<rparr>"

definition ch_with_capacity :: "nat \<Rightarrow> nat \<Rightarrow> compact_hash" where
  "ch_with_capacity n pl = \<lparr>ch_buf = [], ch_len = 0, ch_bytes = 0\<rparr>"

definition ch_append_pair :: "compact_hash \<Rightarrow> bytes \<Rightarrow> bytes \<Rightarrow> compact_hash" where
  "ch_append_pair c field val =
     \<lparr>ch_buf = ch_buf c @ u32_le (length field) @ field @ u32_le (length val) @ val,
      ch_len = ch_len c + 1, ch_bytes = ch_bytes c + (length field + length val)\<rparr>"

text \<open>The scan of \<^verbatim>\<open>insert\<close>: \<open>Some (Some r)\<close> is an early return, \<open>Some None\<close> the end of the loop.\<close>

fun ch_insert_loop ::
    "compact_hash \<Rightarrow> bytes \<Rightarrow> bytes \<Rightarrow> nat \<Rightarrow> nat \<Rightarrow> ((bool \<times> int) \<times> compact_hash) option option" where
  "ch_insert_loop c field val 0 off = Some None"
| "ch_insert_loop c field val (Suc k) off = do {
     fl \<leftarrow> read_u32 (ch_buf c) off;
     f \<leftarrow> subslice (ch_buf c) (off + 4) (off + 4 + fl);
     let vo = off + 4 + fl;
     vl \<leftarrow> read_u32 (ch_buf c) vo;
     if f = field then do {
       let old_end = vo + 4 + vl;
       if vl = length val then do {
         b \<leftarrow> copy_slice (ch_buf c) (vo + 4) old_end val;
         Some (Some ((False, 0), c\<lparr>ch_buf := b\<rparr>))
       } else do {
         pre \<leftarrow> subslice (ch_buf c) 0 off;
         post \<leftarrow> subslice (ch_buf c) old_end (length (ch_buf c));
         let new_buf = pre @ post @ u32_le (length field) @ field @ u32_le (length val) @ val;
         let delta = int (length val) - int vl;
         b0 \<leftarrow> usub (ch_bytes c) vl;
         Some (Some ((False, delta), c\<lparr>ch_bytes := b0 + length val, ch_buf := new_buf\<rparr>))
       }
     } else ch_insert_loop c field val k (vo + 4 + vl)
   }"

definition ch_insert :: "compact_hash \<Rightarrow> bytes \<Rightarrow> bytes \<Rightarrow> ((bool \<times> int) \<times> compact_hash) option" where
  "ch_insert c field val = do {
     r \<leftarrow> ch_insert_loop c field val (ch_len c) 0;
     case r of
       Some res \<Rightarrow> Some res
     | None \<Rightarrow> Some ((True, int (length field + length val)), ch_append_pair c field val)
   }"

fun ch_get_loop :: "bytes \<Rightarrow> bytes \<Rightarrow> nat \<Rightarrow> nat \<Rightarrow> bytes option option" where
  "ch_get_loop buf field 0 off = Some None"
| "ch_get_loop buf field (Suc k) off = do {
     fl \<leftarrow> read_u32 buf off;
     f \<leftarrow> subslice buf (off + 4) (off + 4 + fl);
     let vo = off + 4 + fl;
     vl \<leftarrow> read_u32 buf vo;
     if f = field then map_option Some (subslice buf (vo + 4) (vo + 4 + vl))
     else ch_get_loop buf field k (vo + 4 + vl)
   }"

definition ch_get :: "compact_hash \<Rightarrow> bytes \<Rightarrow> bytes option option" where
  "ch_get c field = ch_get_loop (ch_buf c) field (ch_len c) 0"

definition ch_contains_key :: "compact_hash \<Rightarrow> bytes \<Rightarrow> bool option" where
  "ch_contains_key c field = map_option (\<lambda>v. v \<noteq> None) (ch_get c field)"

type_synonym remove_state = "(bytes \<times> int) option \<times> bytes \<times> nat \<times> nat"

fun ch_remove_loop ::
    "bytes \<Rightarrow> bytes \<Rightarrow> nat \<Rightarrow> nat \<Rightarrow> remove_state \<Rightarrow> remove_state option" where
  "ch_remove_loop buf field 0 off st = Some st"
| "ch_remove_loop buf field (Suc k) off (found, new_buf, new_len, new_bytes) = do {
     fl \<leftarrow> read_u32 buf off;
     f \<leftarrow> subslice buf (off + 4) (off + 4 + fl);
     let vo = off + 4 + fl;
     vl \<leftarrow> read_u32 buf vo;
     v \<leftarrow> subslice buf (vo + 4) (vo + 4 + vl);
     if f = field \<and> found = None
     then ch_remove_loop buf field k (vo + 4 + vl)
            (Some (v, - int (fl + vl)), new_buf, new_len, new_bytes)
     else do {
       frame \<leftarrow> subslice buf off (vo + 4 + vl);
       ch_remove_loop buf field k (vo + 4 + vl)
         (found, new_buf @ frame, new_len + 1, new_bytes + (fl + vl))
     }
   }"

definition ch_remove :: "compact_hash \<Rightarrow> bytes \<Rightarrow> ((bytes \<times> int) option \<times> compact_hash) option" where
  "ch_remove c field = do {
     (found, new_buf, new_len, new_bytes) \<leftarrow>
       ch_remove_loop (ch_buf c) field (ch_len c) 0 (None, [], 0, 0);
     Some (found, if found \<noteq> None
                  then \<lparr>ch_buf = new_buf, ch_len = new_len, ch_bytes = new_bytes\<rparr> else c)
   }"

text \<open>\<^verbatim>\<open>CompactHashIter\<close>, and its borrowing twin \<^verbatim>\<open>CompactHashRefIter\<close>, run to the end.\<close>

fun ch_iter_collect :: "bytes \<Rightarrow> nat \<Rightarrow> nat \<Rightarrow> pairs option" where
  "ch_iter_collect buf off 0 = Some []"
| "ch_iter_collect buf off (Suc remaining) = do {
     fl \<leftarrow> read_u32 buf off;
     f \<leftarrow> subslice buf (off + 4) (off + 4 + fl);
     let vo = off + 4 + fl;
     vl \<leftarrow> read_u32 buf vo;
     v \<leftarrow> subslice buf (vo + 4) (vo + 4 + vl);
     rest \<leftarrow> ch_iter_collect buf (vo + 4 + vl) remaining;
     Some ((f, v) # rest)
   }"

definition ch_iter_pairs :: "compact_hash \<Rightarrow> pairs option" where
  "ch_iter_pairs c = ch_iter_collect (ch_buf c) 0 (ch_len c)"

definition ch_hgetall_resp_need :: "compact_hash \<Rightarrow> nat" where
  "ch_hgetall_resp_need c = (let n = ch_len c * 2 in 16 + n * 12 + ch_bytes c)"

section \<open>The dual encoding\<close>

datatype hash_data = HashCompact compact_hash | HashHashtable hashtable_hash

definition hashdata_new :: hash_data where
  "hashdata_new = HashCompact ch_new"

definition hashdata_from_map :: "pairs \<Rightarrow> hash_data" where
  "hashdata_from_map m = HashHashtable (hh_from_map m)"

fun hashdata_len :: "hash_data \<Rightarrow> nat" where
  "hashdata_len (HashCompact c) = ch_len c"
| "hashdata_len (HashHashtable h) = hh_len h"

definition hashdata_is_empty :: "hash_data \<Rightarrow> bool" where
  "hashdata_is_empty h \<longleftrightarrow> hashdata_len h = 0"

fun hashdata_encoding_name :: "hash_data \<Rightarrow> string" where
  "hashdata_encoding_name (HashCompact c) = ''listpack''"
| "hashdata_encoding_name (HashHashtable h) = ''hashtable''"

fun hashdata_payload_bytes :: "hash_data \<Rightarrow> nat" where
  "hashdata_payload_bytes (HashCompact c) = ch_bytes c"
| "hashdata_payload_bytes (HashHashtable h) = hh_bytes h"

fun hashdata_ensure_hashtable :: "hash_data \<Rightarrow> hashtable_hash option" where
  "hashdata_ensure_hashtable (HashHashtable h) = Some h"
| "hashdata_ensure_hashtable (HashCompact c) = do {
     ps \<leftarrow> ch_iter_pairs c;
     let h = fold (\<lambda>(f, v) h. snd (hh_insert h f v)) ps (hh_with_capacity (ch_len c));
     Some (h\<lparr>hh_bytes := ch_bytes c\<rparr>)
   }"

fun pairs_fit :: "nat \<Rightarrow> nat \<Rightarrow> nat \<Rightarrow> pairs \<Rightarrow> bool" where
  "pairs_fit max_value max_size tot [] \<longleftrightarrow> True"
| "pairs_fit max_value max_size tot ((k, v) # ps) \<longleftrightarrow>
     (if length v > max_value \<or> length k > max_value then False
      else if tot + (length k + length v) > max_size then False
      else pairs_fit max_value max_size (tot + (length k + length v)) ps)"

fun hashdata_maybe_demote :: "(pairs \<Rightarrow> pairs) \<Rightarrow> hash_thresholds \<Rightarrow> hash_data \<Rightarrow> hash_data" where
  "hashdata_maybe_demote ord thr (HashCompact c) = HashCompact c"
| "hashdata_maybe_demote ord thr (HashHashtable h) =
     (if hh_len h > ht_demote_entries thr then HashHashtable h
      else if \<not> pairs_fit (ht_max_value thr) (ht_max_size thr) 0 (ord (hh_map h)) then HashHashtable h
      else HashCompact (fold (\<lambda>(k, v) c. ch_append_pair c k v) (ord (hh_map h))
             (ch_with_capacity (hh_len h) (hh_bytes h))))"

fun hashdata_get :: "hash_data \<Rightarrow> bytes \<Rightarrow> bytes option option" where
  "hashdata_get (HashCompact c) field = ch_get c field"
| "hashdata_get (HashHashtable h) field = Some (hh_get h field)"

fun hashdata_contains_key :: "hash_data \<Rightarrow> bytes \<Rightarrow> bool option" where
  "hashdata_contains_key (HashCompact c) field = ch_contains_key c field"
| "hashdata_contains_key (HashHashtable h) field = Some (hh_contains_key h field)"

definition hh_insert_wrapped :: "hashtable_hash \<Rightarrow> bytes \<Rightarrow> bytes \<Rightarrow> (bool \<times> int) \<times> hash_data" where
  "hh_insert_wrapped h field val = (case hh_insert h field val of (r, h') \<Rightarrow> (r, HashHashtable h'))"

fun hashdata_insert ::
    "hash_thresholds \<Rightarrow> hash_data \<Rightarrow> bytes \<Rightarrow> bytes \<Rightarrow> ((bool \<times> int) \<times> hash_data) option" where
  "hashdata_insert thr (HashHashtable h) field val = Some (hh_insert_wrapped h field val)"
| "hashdata_insert thr (HashCompact c) field val =
     (if length field > ht_max_value thr \<or> length val > ht_max_value thr
      then do {
        h \<leftarrow> hashdata_ensure_hashtable (HashCompact c);
        Some (hh_insert_wrapped h field val)
      } else do {
        let maybe_need_promote =
          (ch_len c \<ge> ht_max_entries thr \<or> ch_bytes c + length field + length val > ht_max_size thr);
        promote \<leftarrow> (if maybe_need_promote then map_option Not (ch_contains_key c field) else Some False);
        if promote then do {
          h \<leftarrow> hashdata_ensure_hashtable (HashCompact c);
          Some (hh_insert_wrapped h field val)
        } else map_option (\<lambda>(r, c'). (r, HashCompact c')) (ch_insert c field val)
      })"

definition hashdata_remove ::
    "(pairs \<Rightarrow> pairs) \<Rightarrow> hash_thresholds \<Rightarrow> hash_data \<Rightarrow> bytes \<Rightarrow> ((bytes \<times> int) option \<times> hash_data) option" where
  "hashdata_remove ord thr h field = do {
     (v, h1) \<leftarrow> (case h of
         HashCompact c \<Rightarrow> map_option (\<lambda>(v, c'). (v, HashCompact c')) (ch_remove c field)
       | HashHashtable t \<Rightarrow> (case hh_remove t field of (v, t') \<Rightarrow> Some (v, HashHashtable t')));
     Some (v, if v \<noteq> None then hashdata_maybe_demote ord thr h1 else h1)
   }"

fun hashdata_to_pairs :: "(pairs \<Rightarrow> pairs) \<Rightarrow> hash_data \<Rightarrow> pairs option" where
  "hashdata_to_pairs ord (HashCompact c) = ch_iter_pairs c"
| "hashdata_to_pairs ord (HashHashtable h) = Some (ord (hh_map h))"

definition hashdata_keys :: "(pairs \<Rightarrow> pairs) \<Rightarrow> hash_data \<Rightarrow> bytes list option" where
  "hashdata_keys ord h = map_option (map fst) (hashdata_to_pairs ord h)"

definition hashdata_values :: "(pairs \<Rightarrow> pairs) \<Rightarrow> hash_data \<Rightarrow> bytes list option" where
  "hashdata_values ord h = map_option (map snd) (hashdata_to_pairs ord h)"

datatype hash_get_all_snap =
    SnapCompact (snap_buf: bytes) (snap_count: nat) (snap_need: nat)
  | SnapHashtable (snap_pairs: pairs)

fun hashdata_hgetall_snap :: "(pairs \<Rightarrow> pairs) \<Rightarrow> hash_data \<Rightarrow> hash_get_all_snap" where
  "hashdata_hgetall_snap ord (HashCompact c) =
     SnapCompact (ch_buf c) (ch_len c) (ch_hgetall_resp_need c)"
| "hashdata_hgetall_snap ord (HashHashtable h) = SnapHashtable (ord (hh_map h))"

text \<open>\<^verbatim>\<open>CompactHashBulkIter::new(buf, pairs)\<close> run to the end: field, value, field, value, \<open>\<dots>\<close>\<close>

definition ch_bulk_collect :: "bytes \<Rightarrow> nat \<Rightarrow> bytes list option" where
  "ch_bulk_collect buf prs = compact_iter_collect buf 0 (prs * 2)"

section \<open>Abstract content\<close>

definition flat :: "pairs \<Rightarrow> bytes list" where
  "flat ps = concat (map (\<lambda>(f, v). [f, v]) ps)"

definition ch_rep :: "pairs \<Rightarrow> compact_hash" where
  "ch_rep ps = \<lparr>ch_buf = pks (flat ps), ch_len = length ps, ch_bytes = payload (flat ps)\<rparr>"

fun hashdata_rel :: "hash_data \<Rightarrow> pairs \<Rightarrow> bool" where
  "hashdata_rel (HashCompact c) ps \<longleftrightarrow>
     c = ch_rep ps \<and> distinct (map fst ps) \<and> (\<forall>b \<in> set (flat ps). fits b)"
| "hashdata_rel (HashHashtable h) ps \<longleftrightarrow>
     h = \<lparr>hh_map = ps, hh_bytes = payload (flat ps)\<rparr> \<and> distinct (map fst ps)"

text \<open>The finite map a \<^verbatim>\<open>HashData\<close> stands for, whatever its encoding and order.\<close>

definition hashdata_is :: "hash_data \<Rightarrow> (bytes \<rightharpoonup> bytes) \<Rightarrow> bool" where
  "hashdata_is h m \<longleftrightarrow> (\<exists>ps. hashdata_rel h ps \<and> map_of ps = m)"

definition hash_thr_ok :: "hash_thresholds \<Rightarrow> bool" where
  "hash_thr_ok thr \<longleftrightarrow> ht_max_value thr < 2 ^ 32"

definition map_payload :: "(bytes \<rightharpoonup> bytes) \<Rightarrow> nat" where
  "map_payload m = (\<Sum>f \<in> dom m. length f + length (the (m f)))"

lemma flat_simps [simp]:
  "flat [] = []" "flat ((f, v) # ps) = f # v # flat ps" "flat (ps @ qs) = flat ps @ flat qs"
  by (simp_all add: flat_def)

lemma length_flat [simp]: "length (flat ps) = 2 * length ps"
  by (induction ps) auto

lemma set_flat: "set (flat ps) = fst ` set ps \<union> snd ` set ps"
  by (induction ps) force+

lemma ch_rep_sel [simp]:
  "ch_buf (ch_rep ps) = pks (flat ps)" "ch_len (ch_rep ps) = length ps"
  "ch_bytes (ch_rep ps) = payload (flat ps)"
  by (simp_all add: ch_rep_def)

lemma ch_append_rep: "ch_append_pair (ch_rep ps) f v = ch_rep (ps @ [(f, v)])"
  by (simp add: ch_append_pair_def ch_rep_def pk_def)

lemma ch_empty_rep: "ch_new = ch_rep []" "ch_with_capacity n pl = ch_rep []"
  by (simp_all add: ch_new_def ch_with_capacity_def ch_rep_def)

lemma fold_ch_append: "fold (\<lambda>(k, v) c. ch_append_pair c k v) qs (ch_rep ps) = ch_rep (ps @ qs)"
  by (induction qs arbitrary: ps) (auto simp: ch_append_rep)

lemma payload_flat_mset: "mset ps = mset qs \<Longrightarrow> payload (flat ps) = payload (flat qs)"
proof -
  have eq: "payload (flat xs) = sum_list (map (\<lambda>(f, v). length f + length v) xs)" for xs
    by (induction xs) auto
  show "mset ps = mset qs \<Longrightarrow> payload (flat ps) = payload (flat qs)"
    unfolding eq by (simp only: sum_mset_sum_list [symmetric] mset_map)
qed

lemma payload_flat_map:
  "distinct (map fst ps) \<Longrightarrow> payload (flat ps) = map_payload (map_of ps)"
proof (induction ps)
  case (Cons p ps)
  obtain f v where p: "p = (f, v)" by force
  have "f \<notin> dom (map_of ps)" using Cons.prems p by (simp add: dom_map_of_conv_image_fst)
  then have "(\<Sum>g \<in> dom (map_of ps). length g + length (the (((map_of ps)(f \<mapsto> v)) g)))
      = map_payload (map_of ps)"
    unfolding map_payload_def by (intro sum.cong) auto
  then have "map_payload ((map_of ps)(f \<mapsto> v)) = length f + length v + map_payload (map_of ps)"
    using \<open>f \<notin> dom (map_of ps)\<close> unfolding map_payload_def dom_fun_upd
    by (simp add: finite_dom_map_of)
  then show ?case using Cons p by (simp add: fun_upd_def)
qed (simp add: map_payload_def)

subsection \<open>The compact loops\<close>

text \<open>Reading one pair at an offset.\<close>

lemma pair_at:
  assumes d: "drop off buf = pk f @ pk v @ post" and "fits f" and "fits v"
  shows "read_u32 buf off = Some (length f)"
    and "subslice buf (off + 4) (off + 4 + length f) = Some f"
    and "read_u32 buf (off + 4 + length f) = Some (length v)"
    and "subslice buf (off + 4 + length f + 4) (off + 4 + length f + 4 + length v) = Some v"
    and "subslice buf off (off + 4 + length f + 4 + length v) = Some (pk f @ pk v)"
    and "drop (off + 4 + length f + 4 + length v) buf = post"
proof -
  note d2 = drop_next_pk [OF d]
  show "read_u32 buf off = Some (length f)" "subslice buf (off + 4) (off + 4 + length f) = Some f"
    using assms by (simp_all add: read_u32_drop [OF d] subslice_body_drop [OF d])
  show "read_u32 buf (off + 4 + length f) = Some (length v)"
    by (rule read_u32_drop [OF d2 assms(3)])
  show "subslice buf (off + 4 + length f + 4) (off + 4 + length f + 4 + length v) = Some v"
    by (rule subslice_body_drop [OF d2 refl])
  show "drop (off + 4 + length f + 4 + length v) buf = post" by (rule drop_next_pk [OF d2])
  obtain pre where "buf = pre @ (pk f @ pk v) @ post" "off = length pre"
    using drop_pk_split [OF d] by auto
  then show "subslice buf off (off + 4 + length f + 4 + length v) = Some (pk f @ pk v)"
    using subslice_append [of off pre "off + 4 + length f + 4 + length v" "pk f @ pk v" post] by simp
qed

lemma ch_get_loop_flat:
  "drop off buf = pks (flat ps) @ post \<Longrightarrow> \<forall>b \<in> set (flat ps). fits b \<Longrightarrow>
     ch_get_loop buf field (length ps) off = Some (map_of ps field)"
proof (induction ps arbitrary: off)
  case (Cons p ps)
  obtain f v where p: "p = (f, v)" by force
  have d: "drop off buf = pk f @ pk v @ (pks (flat ps) @ post)" using Cons.prems p by simp
  have "fits f" "fits v" using Cons.prems p by auto
  note at = pair_at [OF d this] pair_at [OF d this, simplified]
  show ?case using Cons.prems Cons.IH [OF at(6)] by (simp add: at p)
qed simp

lemma ch_iter_collect_flat:
  "drop off buf = pks (flat ps) @ post \<Longrightarrow> \<forall>b \<in> set (flat ps). fits b \<Longrightarrow>
     ch_iter_collect buf off (length ps) = Some ps"
proof (induction ps arbitrary: off)
  case (Cons p ps)
  obtain f v where p: "p = (f, v)" by force
  have d: "drop off buf = pk f @ pk v @ (pks (flat ps) @ post)" using Cons.prems p by simp
  have "fits f" "fits v" using Cons.prems p by auto
  note at = pair_at [OF d this] pair_at [OF d this, simplified]
  show ?case using Cons.prems Cons.IH [OF at(6)] by (simp add: at p)
qed simp

lemma ch_remove_loop_flat:
  "drop off buf = pks (flat ps) @ post \<Longrightarrow> \<forall>b \<in> set (flat ps). fits b \<Longrightarrow> distinct (map fst ps) \<Longrightarrow>
     ch_remove_loop buf field (length ps) off (None, nb, nl, ny) =
       Some (map_option (\<lambda>v. (v, - int (length field + length v))) (map_of ps field),
             nb @ pks (flat (AList.delete field ps)), nl + length (AList.delete field ps),
             ny + payload (flat (AList.delete field ps)))
   \<and> ch_remove_loop buf field (length ps) off (Some r, nb, nl, ny) =
       Some (Some r, nb @ pks (flat ps), nl + length ps, ny + payload (flat ps))"
proof (induction ps arbitrary: off nb nl ny r)
  case (Cons p ps)
  obtain f v where p: "p = (f, v)" by force
  have d: "drop off buf = pk f @ pk v @ (pks (flat ps) @ post)" using Cons.prems p by simp
  have "fits f" "fits v" using Cons.prems p by auto
  note at = pair_at [OF d this] pair_at [OF d this, simplified]
  have IH: "ch_remove_loop buf field (length ps) (off + 4 + length f + 4 + length v) (None, nb, nl, ny) =
       Some (map_option (\<lambda>v. (v, - int (length field + length v))) (map_of ps field),
             nb @ pks (flat (AList.delete field ps)), nl + length (AList.delete field ps),
             ny + payload (flat (AList.delete field ps)))"
    "ch_remove_loop buf field (length ps) (off + 4 + length f + 4 + length v) (Some r, nb, nl, ny) =
       Some (Some r, nb @ pks (flat ps), nl + length ps, ny + payload (flat ps))" for nb nl ny r
    using Cons.IH [OF at(6)] Cons.prems p by auto
  have del: "AList.delete f ps = ps" using Cons.prems p by (simp add: AList.delete_idem)
  show ?case
  proof (cases "f = field")
    case True
    show ?thesis unfolding True [symmetric] by (auto simp: at p IH [folded True, simplified] del)
  next
    case False
    then show ?thesis by (auto simp: at p IH [simplified])
  qed
qed simp

lemma ch_insert_loop_flat:
  assumes "ch_buf c = pre @ pks (flat ps)" and "\<forall>b \<in> set (flat ps). fits b"
    and "distinct (map fst ps)" and "payload (flat ps) \<le> ch_bytes c"
  shows "ch_insert_loop c field val (length ps) (length pre) = Some (case map_of ps field of
      None \<Rightarrow> None
    | Some old \<Rightarrow> Some (if length old = length val
        then ((False, 0), c\<lparr>ch_buf := pre @ pks (flat (AList.update field val ps))\<rparr>)
        else ((False, int (length val) - int (length old)),
              c\<lparr>ch_bytes := ch_bytes c - length old + length val,
                ch_buf := pre @ pks (flat (AList.delete field ps @ [(field, val)]))\<rparr>)))"
  using assms
proof (induction ps arbitrary: pre)
  case (Cons p ps)
  obtain f v where p: "p = (f, v)" by force
  let ?rest = "pks (flat ps)"
  have buf: "ch_buf c = pre @ pk f @ pk v @ ?rest" using Cons.prems(1) p by simp
  then have d: "drop (length pre) (ch_buf c) = pk f @ pk v @ ?rest" by simp
  have "fits f" "fits v" using Cons.prems p by auto
  note at = pair_at [OF d this] pair_at [OF d this, simplified]
  have IH: "ch_insert_loop c field val (length ps) (length pre + 4 + length f + 4 + length v) =
      Some (case map_of ps field of
        None \<Rightarrow> None
      | Some old \<Rightarrow> Some (if length old = length val
          then ((False, 0), c\<lparr>ch_buf := pre @ pk f @ pk v @ pks (flat (AList.update field val ps))\<rparr>)
          else ((False, int (length val) - int (length old)),
                c\<lparr>ch_bytes := ch_bytes c - length old + length val,
                  ch_buf := pre @ pk f @ pk v @ pks (flat (AList.delete field ps @ [(field, val)]))\<rparr>)))"
    using Cons.IH [of "pre @ pk f @ pk v"] Cons.prems p buf
    by (simp add: add.assoc split: option.split)
  have del: "AList.delete f ps = ps" using Cons.prems p by (simp add: AList.delete_idem)
  have cp: "copy_slice (ch_buf c) (length pre + 4 + length f + 4)
      (length pre + 4 + length f + 4 + length v) val = Some (pre @ pk f @ pk val @ ?rest)"
    if "length v = length val"
    using that copy_slice_append [where pre = "pre @ pk f @ u32_le (length v)" and xs = v and ys = val
        and post = ?rest, OF refl refl] by (simp add: buf pk_def add.assoc)
  have sl: "subslice (ch_buf c) 0 (length pre) = Some pre"
    "subslice (ch_buf c) (length pre + 4 + length f + 4 + length v) (length (ch_buf c)) = Some ?rest"
    using at(6) by (simp_all add: subslice_def buf)
  have "length v \<le> ch_bytes c" using Cons.prems(4) p by simp
  then show ?case
    using cp sl at IH del by (cases "f = field") (simp_all add: p usub_def pk_def split: option.split)
qed simp

lemma ch_get_rep: "\<forall>b \<in> set (flat ps). fits b \<Longrightarrow> ch_get (ch_rep ps) f = Some (map_of ps f)"
  using ch_get_loop_flat [of 0 "pks (flat ps)" ps "[]" f] by (simp add: ch_get_def)

lemma ch_iter_rep: "\<forall>b \<in> set (flat ps). fits b \<Longrightarrow> ch_iter_pairs (ch_rep ps) = Some ps"
  using ch_iter_collect_flat [of 0 "pks (flat ps)" ps "[]"] by (simp add: ch_iter_pairs_def)

subsection \<open>Byte totals of maps\<close>

lemma map_payload_upd:
  assumes "finite (dom m)"
  shows "map_payload (m(f \<mapsto> v)) =
    (case m f of None \<Rightarrow> map_payload m + (length f + length v)
               | Some old \<Rightarrow> map_payload m - length old + length v)"
proof -
  let ?g = "\<lambda>m k. length k + length (the (m k))"
  have rest: "(\<Sum>k \<in> dom m - {f}. ?g (m(f \<mapsto> v)) k) = (\<Sum>k \<in> dom m - {f}. ?g m k)"
    by (intro sum.cong) auto
  have dom: "dom (m(f \<mapsto> v)) = insert f (dom m - {f})" by auto
  have "map_payload (m(f \<mapsto> v)) = length f + length v + (\<Sum>k \<in> dom m - {f}. ?g m k)"
    unfolding map_payload_def dom using assms rest by (subst sum.insert) auto
  moreover have "map_payload m = length f + length old + (\<Sum>k \<in> dom m - {f}. ?g m k)"
    if "m f = Some old" for old
    using that assms unfolding map_payload_def by (subst sum.remove [of _ f]) auto
  moreover have "map_payload m = (\<Sum>k \<in> dom m - {f}. ?g m k)" if "m f = None"
    using that unfolding map_payload_def by (intro sum.cong) auto
  ultimately show ?thesis by (auto split: option.split)
qed

lemma map_payload_del:
  assumes "finite (dom m)" and "m f = Some v"
  shows "map_payload (m(f := None)) + (length f + length v) = map_payload m"
proof -
  have "map_payload m = length f + length v + (\<Sum>k \<in> dom m - {f}. length k + length (the (m k)))"
    using assms unfolding map_payload_def by (subst sum.remove [of _ f]) auto
  moreover have "map_payload (m(f := None)) = (\<Sum>k \<in> dom m - {f}. length k + length (the (m k)))"
    unfolding map_payload_def by (intro sum.cong) auto
  ultimately show ?thesis by simp
qed

subsection \<open>Refinement\<close>

lemma hashdata_rel_distinct: "hashdata_rel h ps \<Longrightarrow> distinct (map fst ps)"
  by (cases h) auto

lemma hashdata_is_rel:
  "hashdata_is h m \<Longrightarrow> \<exists>ps. hashdata_rel h ps \<and> distinct (map fst ps) \<and> map_of ps = m"
  using hashdata_rel_distinct by (auto simp: hashdata_is_def)

lemma hashdata_is_finite: "hashdata_is h m \<Longrightarrow> finite (dom m)"
  by (auto simp: hashdata_is_def finite_dom_map_of)

lemma alist_update_new: "f \<notin> fst ` set ps \<Longrightarrow> AList.update f v ps = ps @ [(f, v)]"
  by (induction ps) auto

lemma fold_hh_insert:
  "distinct (map fst (ps @ qs)) \<Longrightarrow>
     fold (\<lambda>(f, v) h. snd (hh_insert h f v)) qs \<lparr>hh_map = ps, hh_bytes = payload (flat ps)\<rparr>
       = \<lparr>hh_map = ps @ qs, hh_bytes = payload (flat (ps @ qs))\<rparr>"
proof (induction qs arbitrary: ps)
  case (Cons q qs)
  obtain f v where q: "q = (f, v)" by force
  have new: "f \<notin> fst ` set ps" using Cons.prems q by auto
  then have "map_of ps f = None" by (simp add: map_of_eq_None_iff)
  then have "snd (hh_insert \<lparr>hh_map = ps, hh_bytes = payload (flat ps)\<rparr> f v)
      = \<lparr>hh_map = ps @ [(f, v)], hh_bytes = payload (flat (ps @ [(f, v)]))\<rparr>"
    using new by (simp add: hh_insert_def Let_def alist_update_new)
  then show ?case using Cons.IH [of "ps @ [(f, v)]"] Cons.prems q by simp
qed simp

lemma hashdata_ensure_hashtable_rel [refine_simps]:
  assumes "hashdata_rel h ps"
  shows "hashdata_ensure_hashtable h = Some \<lparr>hh_map = ps, hh_bytes = payload (flat ps)\<rparr>"
  using assms fold_hh_insert [of "[]" ps]
  by (cases h) (auto simp: ch_iter_rep hh_with_capacity_def)

lemma hash_order_props:
  assumes "hash_order ord"
  shows "set (ord ps) = set ps" and "payload (flat (ord ps)) = payload (flat ps)"
    and "length (ord ps) = length ps"
    and "distinct (map fst ps) \<Longrightarrow> distinct (map fst (ord ps)) \<and> map_of (ord ps) = map_of ps"
proof -
  have m: "mset (ord ps) = mset ps" using assms by (simp add: hash_order_def)
  then show st: "set (ord ps) = set ps" "length (ord ps) = length ps"
      "payload (flat (ord ps)) = payload (flat ps)"
    by (auto dest: mset_eq_setD mset_eq_length payload_flat_mset)
  have mf: "mset (map fst (ord ps)) = mset (map fst ps)" using m by simp
  show "distinct (map fst (ord ps)) \<and> map_of (ord ps) = map_of ps" if d: "distinct (map fst ps)"
  proof -
    have "distinct (map fst (ord ps))" using d mset_eq_imp_distinct_iff [OF mf] by simp
    then show ?thesis using d st(1) by (simp add: map_of_inject_set)
  qed
qed

lemma pairs_fit_iff:
  "tot \<le> max_size \<Longrightarrow> pairs_fit max_value max_size tot ps \<longleftrightarrow>
     (\<forall>b \<in> set (flat ps). length b \<le> max_value) \<and> tot + payload (flat ps) \<le> max_size"
proof (induction ps arbitrary: tot)
  case (Cons p ps)
  obtain k v where p: "p = (k, v)" by force
  show ?case using Cons.IH [of "tot + (length k + length v)"] Cons.prems
    by (cases "tot + (length k + length v) \<le> max_size") (auto simp: p not_less)
qed simp

lemma hashdata_maybe_demote_is:
  assumes "hash_order ord" and "hash_thr_ok thr" and "hashdata_is h m"
  shows "hashdata_is (hashdata_maybe_demote ord thr h) m"
proof (cases h)
  case (HashHashtable t)
  with assms(3) obtain ps where t: "t = \<lparr>hh_map = ps, hh_bytes = payload (flat ps)\<rparr>"
      "distinct (map fst ps)" "map_of ps = m"
    by (auto simp: hashdata_is_def)
  note op = hash_order_props [OF assms(1)]
  have "hashdata_rel (HashCompact (ch_rep (ord ps))) (ord ps)"
    if "pairs_fit (ht_max_value thr) (ht_max_size thr) 0 (ord ps)"
    using that assms(2) op(4) [OF t(2)] by (auto simp: pairs_fit_iff fits_def hash_thr_ok_def)
  then have "hashdata_is (HashCompact (ch_rep (ord ps))) m"
    if "pairs_fit (ht_max_value thr) (ht_max_size thr) 0 (ord ps)"
    using that op(4) [OF t(2)] t(3) unfolding hashdata_is_def by metis
  then show ?thesis using assms(3) HashHashtable t(1) fold_ch_append [of "ord ps" "[]"]
    by (simp add: ch_empty_rep)
qed (use assms in simp)

lemma hh_insert_is:
  assumes "distinct (map fst ps)"
  shows "\<exists>h'. hh_insert_wrapped \<lparr>hh_map = ps, hh_bytes = payload (flat ps)\<rparr> f v =
      ((map_of ps f = None, int (map_payload ((map_of ps)(f \<mapsto> v))) - int (map_payload (map_of ps))), h')
    \<and> hashdata_is h' ((map_of ps)(f \<mapsto> v))"
proof -
  let ?ps = "AList.update f v ps"
  have d: "distinct (map fst ?ps)" using assms by (rule distinct_update)
  have m: "map_of ?ps = (map_of ps)(f \<mapsto> v)" by (rule update_conv')
  have pay: "payload (flat ?ps) = map_payload ((map_of ps)(f \<mapsto> v))"
    using payload_flat_map [OF d] m by simp
  note upd = map_payload_upd [OF finite_dom_map_of, of ps f v]
  have old: "length w \<le> map_payload (map_of ps)" if "map_of ps f = Some w" for w
    using map_payload_del [OF finite_dom_map_of that] by simp
  have "hashdata_is (HashHashtable \<lparr>hh_map = ?ps, hh_bytes = payload (flat ?ps)\<rparr>) ((map_of ps)(f \<mapsto> v))"
    using d m by (auto simp: hashdata_is_def)
  then show ?thesis
    using upd old payload_flat_map [OF assms] unfolding pay
    by (auto simp: hh_insert_wrapped_def hh_insert_def Let_def split: option.split)
qed

lemma delete_distinct: "distinct (map fst ps) \<Longrightarrow> distinct (map fst (AList.delete f ps))"
  by (rule distinct_delete)

lemma map_of_move_end:
  "map_of (AList.delete f ps @ [(f, v)]) = (map_of ps)(f \<mapsto> v)"
  by (rule ext) (auto simp: map_add_def delete_conv' split: option.split)

text \<open>The in-place case of \<^verbatim>\<open>CompactHash::insert\<close> keeps the position of the field, a value of
  another length moves the pair to the end of the buffer, a new field is appended.\<close>

definition ch_after_insert :: "pairs \<Rightarrow> bytes \<Rightarrow> bytes \<Rightarrow> pairs" where
  "ch_after_insert ps f v = (case map_of ps f of
     None \<Rightarrow> ps @ [(f, v)]
   | Some old \<Rightarrow> if length old = length v then AList.update f v ps
                 else AList.delete f ps @ [(f, v)])"

lemma map_of_after_insert: "map_of (ch_after_insert ps f v) = (map_of ps)(f \<mapsto> v)"
proof (cases "map_of ps f")
  case None
  then show ?thesis
    by (auto simp: ch_after_insert_def map_add_def fun_eq_iff split: option.split)
qed (simp add: ch_after_insert_def map_of_move_end update_conv' del: map_of_append)

lemma distinct_after_insert:
  "distinct (map fst ps) \<Longrightarrow> distinct (map fst (ch_after_insert ps f v))"
proof (cases "map_of ps f")
  case None
  moreover have "f \<notin> fst ` set ps" using None by (simp add: map_of_eq_None_iff)
  ultimately show "distinct (map fst ps) \<Longrightarrow> ?thesis" by (simp add: ch_after_insert_def)
qed (auto simp: ch_after_insert_def distinct_update dest: distinct_delete [of _ f]
       simp: AList.delete_eq)

lemma length_dom: "distinct (map fst ps) \<Longrightarrow> length ps = card (dom (map_of ps))"
  using distinct_card [of "map fst ps"] by (simp add: dom_map_of_conv_image_fst)

lemma ch_insert_rep:
  assumes "\<forall>b \<in> set (flat ps). fits b" and "distinct (map fst ps)"
  shows "ch_insert (ch_rep ps) f v =
    Some ((map_of ps f = None, int (map_payload ((map_of ps)(f \<mapsto> v))) - int (map_payload (map_of ps))),
          ch_rep (ch_after_insert ps f v))"
proof -
  note d = distinct_after_insert [OF assms(2), of f v]
  have pay: "payload (flat (ch_after_insert ps f v)) = map_payload ((map_of ps)(f \<mapsto> v))"
    using payload_flat_map [OF d] by (simp add: map_of_after_insert)
  note upd = map_payload_upd [OF finite_dom_map_of, of ps f v]
  note pm = payload_flat_map [OF assms(2)]
  have loop: "ch_insert_loop (ch_rep ps) f v (length ps) 0 = Some (case map_of ps f of
      None \<Rightarrow> None
    | Some old \<Rightarrow> Some (if length old = length v
        then ((False, 0), (ch_rep ps)\<lparr>ch_buf := pks (flat (AList.update f v ps))\<rparr>)
        else ((False, int (length v) - int (length old)),
              (ch_rep ps)\<lparr>ch_bytes := payload (flat ps) - length old + length v,
                ch_buf := pks (flat (AList.delete f ps @ [(f, v)]))\<rparr>)))"
    using ch_insert_loop_flat [of "ch_rep ps" "[]" ps f v] assms
    by (cases "map_of ps f") simp_all
  show ?thesis
  proof (cases "map_of ps f")
    case None
    then show ?thesis using upd loop pm by (simp add: ch_insert_def ch_append_rep ch_after_insert_def)
  next
    case (Some old)
    have old: "length old + length f \<le> map_payload (map_of ps)"
      using map_payload_del [OF finite_dom_map_of Some] by simp
    have len: "length (ch_after_insert ps f v) = length ps"
      using Some length_dom [OF d] length_dom [OF assms(2)]
      by (simp add: map_of_after_insert insert_absorb domIff)
    show ?thesis
      using Some upd loop pm pay old len
      by (auto simp: ch_insert_def ch_after_insert_def ch_rep_def)
  qed
qed

lemma ch_remove_rep:
  assumes "\<forall>b \<in> set (flat ps). fits b" and "distinct (map fst ps)"
  shows "ch_remove (ch_rep ps) f =
    Some (map_option (\<lambda>v. (v, - int (length f + length v))) (map_of ps f),
          ch_rep (AList.delete f ps))"
proof -
  have "map_of ps f = None \<Longrightarrow> AList.delete f ps = ps"
    by (simp add: AList.delete_idem map_of_eq_None_iff)
  then show ?thesis
    using ch_remove_loop_flat [of 0 "pks (flat ps)" ps "[]" f "[]" 0 0] assms
    by (cases "map_of ps f") (simp_all add: ch_remove_def ch_rep_def)
qed

lemma fits_after_insert:
  assumes "\<forall>b \<in> set (flat ps). fits b" and "fits f" and "fits v"
  shows "\<forall>b \<in> set (flat (ch_after_insert ps f v)). fits b"
proof -
  have "set (AList.update f v ps) \<subseteq> insert (f, v) (set ps)" by (induction ps) auto
  then have "set (ch_after_insert ps f v) \<subseteq> insert (f, v) (set ps)"
    by (auto simp: ch_after_insert_def AList.delete_eq split: option.split)
  then have "set (flat (ch_after_insert ps f v)) \<subseteq> insert f (insert v (set (flat ps)))"
    by (fastforce simp: set_flat)
  then show ?thesis using assms by auto
qed

lemma hashdata_is_compact:
  "distinct (map fst ps) \<Longrightarrow> \<forall>b \<in> set (flat ps). fits b \<Longrightarrow> hashdata_is (HashCompact (ch_rep ps)) (map_of ps)"
  by (auto simp: hashdata_is_def)

lemma hashdata_get_is:
  "hashdata_is h m \<Longrightarrow> hashdata_get h f = Some (m f)"
  by (cases h) (auto simp: hashdata_is_def ch_get_rep hh_get_def)

lemma hashdata_contains_is:
  "hashdata_is h m \<Longrightarrow> hashdata_contains_key h f = Some (f \<in> dom m)"
  by (cases h) (auto simp: hashdata_is_def ch_contains_key_def ch_get_rep hh_contains_key_def)

lemma hashdata_len_is: "hashdata_is h m \<Longrightarrow> hashdata_len h = card (dom m)"
  by (cases h) (auto simp: hashdata_is_def hh_len_def length_dom)

lemma hashdata_payload_is: "hashdata_is h m \<Longrightarrow> hashdata_payload_bytes h = map_payload m"
  by (cases h) (auto simp: hashdata_is_def payload_flat_map)

lemma hashdata_empty_is: "hashdata_is h m \<Longrightarrow> hashdata_is_empty h \<longleftrightarrow> m = Map.empty"
  using hashdata_len_is [of h m] hashdata_is_finite [of h m]
  by (auto simp: hashdata_is_empty_def card_eq_0_iff)

lemma hashdata_insert_is:
  assumes "hashdata_is h m" and "hash_thr_ok thr"
  shows "\<exists>h'. hashdata_insert thr h f v =
      Some ((m f = None, int (map_payload (m(f \<mapsto> v))) - int (map_payload m)), h')
    \<and> hashdata_is h' (m(f \<mapsto> v))"
proof -
  obtain ps where ps: "hashdata_rel h ps" "distinct (map fst ps)" "map_of ps = m"
    using hashdata_is_rel [OF assms(1)] by blast
  note ens = hashdata_ensure_hashtable_rel [OF ps(1)]
  obtain h' where h': "hh_insert_wrapped \<lparr>hh_map = ps, hh_bytes = payload (flat ps)\<rparr> f v =
      ((m f = None, int (map_payload (m(f \<mapsto> v))) - int (map_payload m)), h')"
      "hashdata_is h' (m(f \<mapsto> v))"
    using hh_insert_is [OF ps(2), of f v] ps(3) by auto
  show ?thesis
  proof (cases h)
    case (HashHashtable t)
    then show ?thesis using ps(1) h' by simp
  next
    case (HashCompact c)
    then have c: "c = ch_rep ps" and fit: "\<forall>b \<in> set (flat ps). fits b" using ps(1) by auto
    note ens' = ens [unfolded HashCompact c]
    have comp: "hashdata_is (HashCompact (ch_rep (ch_after_insert ps f v))) (m(f \<mapsto> v))"
      if "length f \<le> ht_max_value thr" "length v \<le> ht_max_value thr"
    proof -
      have "fits f" "fits v" using that assms(2) by (auto simp: fits_def hash_thr_ok_def)
      then show ?thesis
        using hashdata_is_compact [OF distinct_after_insert [OF ps(2)] fits_after_insert [OF fit]]
        by (simp add: map_of_after_insert ps(3))
    qed
    have ins: "ch_insert (ch_rep ps) f v =
      Some ((m f = None, int (map_payload (m(f \<mapsto> v))) - int (map_payload m)),
            ch_rep (ch_after_insert ps f v))"
      using ch_insert_rep [OF fit ps(2)] ps(3) by simp
    show ?thesis
      using comp ins h' ens' ch_get_rep [OF fit, of f]
      by (auto simp: HashCompact c ch_contains_key_def not_less simp del: hashdata_ensure_hashtable.simps)
  qed
qed

lemma hashdata_remove_is:
  assumes "hashdata_is h m" and "hash_order ord" and "hash_thr_ok thr"
  shows "\<exists>h'. hashdata_remove ord thr h f =
      Some (map_option (\<lambda>v. (v, - int (length f + length v))) (m f), h')
    \<and> hashdata_is h' (m(f := None))"
proof -
  obtain ps where ps: "hashdata_rel h ps" "distinct (map fst ps)" "map_of ps = m"
    using hashdata_is_rel [OF assms(1)] by blast
  let ?r = "map_option (\<lambda>v. (v, - int (length f + length v))) (m f)"
  let ?ps = "AList.delete f ps"
  have d: "distinct (map fst ?ps)" by (rule distinct_delete [OF ps(2)])
  have m: "map_of ?ps = m(f := None)" using ps(3) by (auto simp: delete_conv')
  have idem: "m(f := None) = m" if "m f = None" using that by auto
  have "\<exists>h1. (case h of
         HashCompact c \<Rightarrow> map_option (\<lambda>(v, c'). (v, HashCompact c')) (ch_remove c f)
       | HashHashtable t \<Rightarrow> (case hh_remove t f of (v, t') \<Rightarrow> Some (v, HashHashtable t')))
      = Some (?r, h1) \<and> hashdata_is h1 (m(f := None))"
  proof (cases h)
    case (HashCompact c)
    then have c: "c = ch_rep ps" and fit: "\<forall>b \<in> set (flat ps). fits b" using ps(1) by auto
    have "\<forall>b \<in> set (flat ?ps). fits b" using fit by (auto simp: set_flat AList.delete_eq)
    then show ?thesis
      using hashdata_is_compact [OF d] ch_remove_rep [OF fit ps(2), of f] ps(3)
      by (simp add: HashCompact c m)
  next
    case (HashHashtable t)
    then have t: "t = \<lparr>hh_map = ps, hh_bytes = payload (flat ps)\<rparr>" using ps(1) by simp
    have "payload (flat ?ps) = payload (flat ps) - length f - length v" if "m f = Some v" for v
      using map_payload_del [OF hashdata_is_finite [OF assms(1)] that] payload_flat_map [OF d]
        payload_flat_map [OF ps(2)] ps(3) m by simp
    then show ?thesis using d m ps idem assms(1)
      by (cases "m f") (auto simp: HashHashtable t hh_remove_def hashdata_is_def)
  qed
  then obtain h1 where h1: "(case h of
         HashCompact c \<Rightarrow> map_option (\<lambda>(v, c'). (v, HashCompact c')) (ch_remove c f)
       | HashHashtable t \<Rightarrow> (case hh_remove t f of (v, t') \<Rightarrow> Some (v, HashHashtable t')))
      = Some (?r, h1)" "hashdata_is h1 (m(f := None))" by blast
  show ?thesis using h1 hashdata_maybe_demote_is [OF assms(2,3) h1(2)]
    by (cases "m f") (simp_all add: hashdata_remove_def)
qed

lemma hashdata_to_pairs_is:
  assumes "hashdata_is h m" and "hash_order ord"
  shows "\<exists>ps. hashdata_to_pairs ord h = Some ps \<and> distinct (map fst ps) \<and> map_of ps = m"
proof -
  obtain ps where ps: "hashdata_rel h ps" "distinct (map fst ps)" "map_of ps = m"
    using hashdata_is_rel [OF assms(1)] by blast
  then show ?thesis using hash_order_props(4) [OF assms(2) ps(2)]
    by (cases h) (auto simp: ch_iter_rep)
qed

text \<open>The snapshot HGETALL takes under the lock, walked later outside it, lists the fields and
  values of the map the hash stood for when the snapshot was taken.\<close>

lemma hgetall_snap_is:
  assumes "hashdata_is h m" and "hash_order ord"
  shows "\<exists>ps. distinct (map fst ps) \<and> map_of ps = m \<and>
    (case hashdata_hgetall_snap ord h of
       SnapCompact buf n need \<Rightarrow> ch_bulk_collect buf n = Some (flat ps) \<and> n = length ps
     | SnapHashtable qs \<Rightarrow> qs = ps)"
proof -
  obtain ps where ps: "hashdata_rel h ps" "distinct (map fst ps)" "map_of ps = m"
    using hashdata_is_rel [OF assms(1)] by blast
  then show ?thesis using hash_order_props(4) [OF assms(2) ps(2)]
    compact_iter_collect_pks [of 0 "pks (flat ps)" "flat ps" "[]"]
    by (cases h) (auto simp: ch_bulk_collect_def mult.commute)
qed

section \<open>The contract of a byte map\<close>

text \<open>The argument loops of HSET (\<^verbatim>\<open>cmd_hset\<close>) and HDEL (\<^verbatim>\<open>cmd_hdel\<close>), over any
  map with the two operations they call.\<close>

primrec hset_loop ::
    "('h \<Rightarrow> bytes \<Rightarrow> bytes \<Rightarrow> ((bool \<times> int) \<times> 'h) option) \<Rightarrow> 'h \<Rightarrow> pairs \<Rightarrow> int \<Rightarrow> int \<Rightarrow> ((int \<times> int) \<times> 'h) option" where
  "hset_loop ins h [] added delta = Some ((added, delta), h)"
| "hset_loop ins h (fv # fvs) added delta = do {
     ((is_new, d), h') \<leftarrow> ins h (fst fv) (snd fv);
     hset_loop ins h' fvs (if is_new then added + 1 else added) (delta + d)
   }"

primrec hdel_loop ::
    "('h \<Rightarrow> bytes \<Rightarrow> ((bytes \<times> int) option \<times> 'h) option) \<Rightarrow> 'h \<Rightarrow> bytes list \<Rightarrow> int \<Rightarrow> int \<Rightarrow> ((int \<times> int) \<times> 'h) option" where
  "hdel_loop del h [] removed delta = Some ((removed, delta), h)"
| "hdel_loop del h (f # fs) removed delta = do {
     (r, h') \<leftarrow> del h f;
     case r of
       Some (v, d) \<Rightarrow> hdel_loop del h' fs (removed + 1) (delta + d)
     | None \<Rightarrow> hdel_loop del h' fs removed delta
   }"

locale byte_map =
  fixes holds :: "'h \<Rightarrow> (bytes \<rightharpoonup> bytes) \<Rightarrow> bool"
    and ins :: "'h \<Rightarrow> bytes \<Rightarrow> bytes \<Rightarrow> ((bool \<times> int) \<times> 'h) option"
    and del :: "'h \<Rightarrow> bytes \<Rightarrow> ((bytes \<times> int) option \<times> 'h) option"
    and look :: "'h \<Rightarrow> bytes \<Rightarrow> bytes option option"
    and size_of :: "'h \<Rightarrow> nat"
    and payload_of :: "'h \<Rightarrow> nat"
  assumes finite_law: "holds h m \<Longrightarrow> finite (dom m)"
    and insert_law: "holds h m \<Longrightarrow> \<exists>h'. ins h f v =
        Some ((m f = None, int (map_payload (m(f \<mapsto> v))) - int (map_payload m)), h') \<and> holds h' (m(f \<mapsto> v))"
    and remove_law: "holds h m \<Longrightarrow> \<exists>h'. del h f =
        Some (map_option (\<lambda>v. (v, - int (length f + length v))) (m f), h') \<and> holds h' (m(f := None))"
    and look_law: "holds h m \<Longrightarrow> look h f = Some (m f)"
    and size_law: "holds h m \<Longrightarrow> size_of h = card (dom m)"
    and payload_law: "holds h m \<Longrightarrow> payload_of h = map_payload m"
begin

lemma hset_loop_correct:
  "holds h m \<Longrightarrow> \<exists>h'. hset_loop ins h fvs a d =
      Some ((a + (int (card (dom (m ++ map_of (rev fvs)))) - int (card (dom m))),
             d + (int (map_payload (m ++ map_of (rev fvs))) - int (map_payload m))), h')
    \<and> holds h' (m ++ map_of (rev fvs))"
proof (induction fvs arbitrary: h m a d)
  case (Cons fv fvs)
  obtain f v where fv: "fv = (f, v)" by force
  obtain m1 where m1: "m1 = m(f \<mapsto> v)" by simp
  from insert_law [OF Cons.prems, of f v] obtain h1 where
    h1: "ins h f v = Some ((m f = None, int (map_payload m1) - int (map_payload m)), h1)" "holds h1 m1"
    unfolding m1 by blast
  have un: "m1 ++ map_of (rev fvs) = m ++ map_of (rev (fv # fvs))" by (simp add: fv m1 map_add_upd_left)
  have c: "int (card (dom m1)) = int (card (dom m)) + (if m f = None then 1 else 0)"
    using finite_law [OF Cons.prems] by (simp add: card_insert_if domIff m1)
  note IH = Cons.IH [OF h1(2), of "if m f = None then a + 1 else a"
      "d + (int (map_payload m1) - int (map_payload m))", unfolded un c]
  have step: "hset_loop ins h (fv # fvs) a d = hset_loop ins h1 fvs (if m f = None then a + 1 else a)
      (d + (int (map_payload m1) - int (map_payload m)))"
    by (simp add: fv h1(1))
  show ?case using IH unfolding step by (cases "m f") (simp_all add: algebra_simps)
qed simp

lemma hdel_loop_correct:
  "holds h m \<Longrightarrow> \<exists>h'. hdel_loop del h fs r d =
      Some ((r + (int (card (dom m)) - int (card (dom m - set fs))),
             d + (int (map_payload (m |` (- set fs))) - int (map_payload m))), h')
    \<and> holds h' (m |` (- set fs))"
proof (induction fs arbitrary: h m r d)
  case (Cons f fs)
  from remove_law [OF Cons.prems, of f] obtain h1 where
    h1: "del h f = Some (map_option (\<lambda>v. (v, - int (length f + length v))) (m f), h1)"
        "holds h1 (m(f := None))" by blast
  have un: "m(f := None) |` (- set fs) = m |` (- set (f # fs))" by (auto simp: restrict_map_def)
  have dm: "dom (m(f := None)) - set fs = dom m - set (f # fs)" by auto
  note fin = finite_law [OF Cons.prems]
  show ?case
  proof (cases "m f")
    case None
    then have "m(f := None) = m" by auto
    then show ?thesis using Cons.IH [OF h1(2), of r d] h1(1) None unfolding un dm by simp
  next
    case (Some v)
    have "int (card (dom (m(f := None)))) = int (card (dom m)) - 1"
      using fin Some card_Suc_Diff1 [of "dom m" f] by (simp add: domIff)
    moreover have "int (map_payload (m(f := None))) = int (map_payload m) - int (length f + length v)"
      using map_payload_del [OF fin Some] by simp
    note IH = Cons.IH [OF h1(2), of "r + 1" "d + - int (length f + length v)", unfolded un dm calculation this]
    have "hdel_loop del h (f # fs) r d = hdel_loop del h1 fs (r + 1) (d + - int (length f + length v))"
      by (simp add: h1(1) Some)
    then show ?thesis using IH by (simp add: algebra_simps)
  qed
qed (simp add: restrict_map_def)

text \<open>What was set last is what is read, until it is deleted.\<close>

lemma set_get: "holds h m \<Longrightarrow> \<exists>r h'. ins h f v = Some (r, h') \<and> look h' g = Some (if g = f then Some v else m g)"
  using insert_law [of h m f v] look_law by fastforce

lemma del_get: "holds h m \<Longrightarrow> \<exists>r h'. del h f = Some (r, h') \<and> look h' g = Some (if g = f then None else m g)"
  using remove_law [of h m f] look_law by fastforce

end

interpretation hd: byte_map
  "\<lambda>h m. hashdata_is h m \<and> hash_order ord \<and> hash_thr_ok thr" "hashdata_insert thr"
  "hashdata_remove ord thr" hashdata_get hashdata_len hashdata_payload_bytes for ord thr
  using hashdata_insert_is hashdata_remove_is
  by unfold_locales
    (auto simp del: fun_upd_apply dest: hashdata_is_finite hashdata_get_is hashdata_len_is hashdata_payload_is)

lemma hash_order_id: "hash_order id"
  by (simp add: hash_order_def)

lemma default_hash_thr_ok: "hash_thr_ok default_hash_thresholds"
  by (simp add: hash_thr_ok_def default_hash_thresholds_def)

lemma hashdata_new_is: "hashdata_is hashdata_new Map.empty"
  by (auto simp: hashdata_is_def hashdata_new_def ch_empty_rep intro: exI [of _ "[]"])

end
