(* ===== verification/ZSet_Data.thy ===== *)
theory ZSet_Data
  imports Frames "HOL-Library.AList" "HOL-Library.Multiset" "HOL-Library.List_Lexorder" "HOL-Library.Product_Lexorder"
begin

text \<open>
  The dual-encoded sorted set of \<^verbatim>\<open>zset_data.rs\<close>: a \<^verbatim>\<open>CompactZSet\<close> is a buffer of
  \<^verbatim>\<open>[f64_le score][u32_le mlen][member]\<close> entries kept sorted by score and member; a
  \<^verbatim>\<open>SkiplistZSet\<close> is a \<^verbatim>\<open>HashMap\<close> from member to score and a \<^verbatim>\<open>BTreeMap\<close> ordered by
  score and member.

  An \<^verbatim>\<open>f64\<close> is its bit pattern, with the comparisons of IEEE 754. The total order of
  \<^verbatim>\<open>OrderedFloat\<close>, from the crate \<^verbatim>\<open>ordered_float\<close>, is a parameter \<open>olt\<close> (strictly less), with its documented
  behaviour as the law \<open>ordered_float_laws\<close>. A \<^verbatim>\<open>HashMap\<close> is an association list with distinct
  keys and an iteration order \<open>ord\<close>; a \<^verbatim>\<open>BTreeMap\<close> is the sorted list of its keys.
\<close>

section \<open>Floating-point scores\<close>

definition f64_to_le :: "f64 \<Rightarrow> bytes" where
  "f64_to_le b = le_bytes 8 (unat b)"

definition f64_from_le :: "bytes \<Rightarrow> f64" where
  "f64_from_le bs = of_nat (le_nat bs)"

lemma length_f64_to_le [simp]: "length (f64_to_le b) = 8"
  by (simp add: f64_to_le_def)

lemma f64_from_to_le [simp]: "f64_from_le (f64_to_le b) = b"
proof -
  have "unat b < 2 ^ 64" using unsigned_less [of b, where 'a = nat] by simp
  then show ?thesis by (simp add: f64_from_le_def f64_to_le_def le_nat_bytes)
qed

text \<open>What the documentation of \<^verbatim>\<open>OrderedFloat\<close> promises: the order of the numbers, with every NaN
  equal to itself and greater than all other values. \<open>score_key\<close> puts the values in that order.\<close>

definition ordered_float_laws :: "(f64 \<Rightarrow> f64 \<Rightarrow> bool) \<Rightarrow> bool" where
  "ordered_float_laws olt \<longleftrightarrow>
     (\<forall>a b. \<not> f64_is_nan a \<longrightarrow> \<not> f64_is_nan b \<longrightarrow> olt a b = f64_less a b)
     \<and> (\<forall>a b. f64_is_nan a \<longrightarrow> \<not> olt a b)
     \<and> (\<forall>a b. f64_is_nan b \<longrightarrow> \<not> f64_is_nan a \<longrightarrow> olt a b)"

definition score_key :: "f64 \<Rightarrow> int" where
  "score_key b = (if f64_is_nan b then 2 ^ 63 else f64_ord b)"

definition ordered_float_lt :: "f64 \<Rightarrow> f64 \<Rightarrow> bool" where
  "ordered_float_lt a b \<longleftrightarrow> score_key a < score_key b"

lemma f64_ord_bound: "f64_ord b < 2 ^ 63"
  by (simp add: f64_ord_def f64_mag_def)

lemma ordered_float_unique: "ordered_float_laws olt \<Longrightarrow> olt = ordered_float_lt"
proof (intro ext)
  fix a b
  show "ordered_float_laws olt \<Longrightarrow> olt a b = ordered_float_lt a b"
    using f64_ord_bound [of a] f64_ord_bound [of b]
    by (auto simp: ordered_float_laws_def ordered_float_lt_def score_key_def f64_less_def)
qed

lemma ordered_float_lt_laws: "ordered_float_laws ordered_float_lt"
  using f64_ord_bound
  by (auto simp: ordered_float_laws_def ordered_float_lt_def score_key_def f64_less_def not_less
      less_imp_le)

lemma f64_eq_key: "f64_eq a b \<or> (f64_is_nan a \<and> f64_is_nan b) \<longleftrightarrow> score_key a = score_key b"
  using f64_ord_bound [of a] f64_ord_bound [of b] by (auto simp: f64_eq_def score_key_def)

section \<open>Thresholds\<close>

record zset_thresholds =
  zt_max_entries :: nat
  zt_max_size :: nat
  zt_max_value :: nat
  zt_demote_entries :: nat

definition default_zset_thresholds :: zset_thresholds where
  "default_zset_thresholds =
     \<lparr>zt_max_entries = 128, zt_max_size = 8192, zt_max_value = 64, zt_demote_entries = 64\<rparr>"

section \<open>The skiplist encoding\<close>

type_synonym score_member = "f64 \<times> bytes"

text \<open>The derived order of \<^verbatim>\<open>(OrderedFloat<f64>, Vec<u8>)\<close>, and \<^verbatim>\<open>cmp_score_member\<close>: scores first,
  then members.\<close>

definition cmp_score_member_less :: "(f64 \<Rightarrow> f64 \<Rightarrow> bool) \<Rightarrow> score_member \<Rightarrow> score_member \<Rightarrow> bool" where
  "cmp_score_member_less olt a b \<longleftrightarrow>
     olt (fst a) (fst b) \<or> (\<not> olt (fst b) (fst a) \<and> snd a < snd b)"

text \<open>\<^verbatim>\<open>BTreeMap\<close>: inserting a key equal to one present keeps the old key, removal is by
  comparison.\<close>

fun bt_insert :: "(f64 \<Rightarrow> f64 \<Rightarrow> bool) \<Rightarrow> score_member \<Rightarrow> score_member list \<Rightarrow> score_member list" where
  "bt_insert olt k [] = [k]"
| "bt_insert olt k (x # xs) =
     (if cmp_score_member_less olt k x then k # x # xs
      else if cmp_score_member_less olt x k then x # bt_insert olt k xs
      else x # xs)"

fun bt_remove :: "(f64 \<Rightarrow> f64 \<Rightarrow> bool) \<Rightarrow> score_member \<Rightarrow> score_member list \<Rightarrow> score_member list" where
  "bt_remove olt k [] = []"
| "bt_remove olt k (x # xs) =
     (if cmp_score_member_less olt k x then x # xs
      else if cmp_score_member_less olt x k then x # bt_remove olt k xs
      else xs)"

record skiplist_zset =
  sk_members :: "(bytes \<times> f64) list"
  sk_by_score :: "score_member list"
  sk_bytes :: nat

definition sk_new :: skiplist_zset where
  "sk_new = \<lparr>sk_members = [], sk_by_score = [], sk_bytes = 0\<rparr>"

definition sk_with_capacity :: "nat \<Rightarrow> skiplist_zset" where
  "sk_with_capacity n = \<lparr>sk_members = [], sk_by_score = [], sk_bytes = 0\<rparr>"

definition sk_payload_bytes :: "skiplist_zset \<Rightarrow> nat" where
  "sk_payload_bytes s = sk_bytes s"

definition sk_insert ::
    "(f64 \<Rightarrow> f64 \<Rightarrow> bool) \<Rightarrow> skiplist_zset \<Rightarrow> bytes \<Rightarrow> f64 \<Rightarrow> bool \<times> skiplist_zset" where
  "sk_insert olt s member score =
     (case map_of (sk_members s) member of
        Some old_score \<Rightarrow>
          (let t = (if olt old_score score \<or> olt score old_score
                    then bt_insert olt (score, member) (bt_remove olt (old_score, member) (sk_by_score s))
                    else sk_by_score s)
           in (False, s\<lparr>sk_by_score := t, sk_members := AList.update member score (sk_members s)\<rparr>))
      | None \<Rightarrow>
          (True, \<lparr>sk_members = AList.update member score (sk_members s),
                  sk_by_score = bt_insert olt (score, member) (sk_by_score s),
                  sk_bytes = sk_bytes s + length member\<rparr>))"

definition sk_remove ::
    "(f64 \<Rightarrow> f64 \<Rightarrow> bool) \<Rightarrow> skiplist_zset \<Rightarrow> bytes \<Rightarrow> f64 option \<times> skiplist_zset" where
  "sk_remove olt s member =
     (case map_of (sk_members s) member of
        Some score \<Rightarrow>
          (Some score, \<lparr>sk_members = AList.delete member (sk_members s),
                        sk_by_score = bt_remove olt (score, member) (sk_by_score s),
                        sk_bytes = sk_bytes s - length member\<rparr>)
      | None \<Rightarrow> (None, s))"

definition sk_score :: "skiplist_zset \<Rightarrow> bytes \<Rightarrow> f64 option" where
  "sk_score s member = map_of (sk_members s) member"

section \<open>The compact encoding\<close>

record compact_zset =
  cz_buf :: bytes
  cz_len :: nat
  cz_bytes :: nat

definition cz_new :: compact_zset where
  "cz_new = \<lparr>cz_buf = [], cz_len = 0, cz_bytes = 0\<rparr>"

definition cz_with_capacity :: "nat \<Rightarrow> nat \<Rightarrow> compact_zset" where
  "cz_with_capacity n pl = \<lparr>cz_buf = [], cz_len = 0, cz_bytes = 0\<rparr>"

definition cz_append_pair :: "compact_zset \<Rightarrow> f64 \<Rightarrow> bytes \<Rightarrow> compact_zset" where
  "cz_append_pair c score member =
     \<lparr>cz_buf = cz_buf c @ f64_to_le score @ u32_le (length member) @ member,
      cz_len = cz_len c + 1, cz_bytes = cz_bytes c + length member\<rparr>"

text \<open>One step of \<^verbatim>\<open>CompactZSetIter\<close> (and of \<^verbatim>\<open>CompactZSetRefIter\<close>, whose first test is
  implied by the second): \<^const>\<open>None\<close> is the end of the iteration.\<close>

definition cz_iter_next :: "bytes \<Rightarrow> nat \<Rightarrow> ((bytes \<times> f64) \<times> nat) option" where
  "cz_iter_next buf pos =
     (if pos + 12 > length buf \<and> pos \<ge> length buf then None
      else if pos + 8 > length buf then None
      else let score = f64_from_le (take 8 (drop pos buf)) in
        if pos + 8 + 4 > length buf then None
        else case u32_from_le (take 4 (drop (pos + 8) buf)) of
            None \<Rightarrow> None
          | Some mlen \<Rightarrow>
              if pos + 12 + mlen > length buf then None
              else Some ((take mlen (drop (pos + 12) buf), score), pos + 12 + mlen))"

function cz_collect :: "bytes \<Rightarrow> nat \<Rightarrow> (bytes \<times> f64) list" where
  "cz_collect buf pos = (case cz_iter_next buf pos of
     None \<Rightarrow> []
   | Some (ms, pos') \<Rightarrow> ms # cz_collect buf pos')"
  by pat_completeness auto
termination
  by (relation "measure (\<lambda>(buf, pos). length buf - pos)")
    (auto simp: cz_iter_next_def Let_def split: if_splits option.splits)

declare cz_collect.simps [simp del]

definition cz_iter_pairs :: "compact_zset \<Rightarrow> (bytes \<times> f64) list" where
  "cz_iter_pairs c = cz_collect (cz_buf c) 0"

definition cz_score :: "compact_zset \<Rightarrow> bytes \<Rightarrow> f64 option" where
  "cz_score c member = map_option snd (find (\<lambda>(m, s). m = member) (cz_iter_pairs c))"

text \<open>Reading one entry in the scans of \<^verbatim>\<open>insert\<close> and \<^verbatim>\<open>remove\<close>.\<close>

definition cz_read :: "bytes \<Rightarrow> nat \<Rightarrow> (f64 \<times> nat \<times> bytes) option" where
  "cz_read buf off = do {
     sb \<leftarrow> subslice buf off (off + 8);
     mlen \<leftarrow> read_u32 buf (off + 8);
     m \<leftarrow> subslice buf (off + 12) (off + 12 + mlen);
     Some (f64_from_le sb, mlen, m)
   }"

record zscan =
  zs_found :: "(nat \<times> f64 \<times> nat) option"
  zs_insert_off :: nat
  zs_set :: bool
  zs_plen :: nat

fun cz_insert_scan ::
    "(f64 \<Rightarrow> f64 \<Rightarrow> bool) \<Rightarrow> bytes \<Rightarrow> bytes \<Rightarrow> f64 \<Rightarrow> nat \<Rightarrow> nat \<Rightarrow> zscan \<Rightarrow> zscan option" where
  "cz_insert_scan olt buf member score 0 off st = Some st"
| "cz_insert_scan olt buf member score (Suc k) off st = do {
     (s, mlen, m) \<leftarrow> cz_read buf off;
     let plen = 12 + mlen;
     if m = member
     then cz_insert_scan olt buf member score k (off + plen)
            (st\<lparr>zs_found := Some (off, s, plen), zs_plen := plen\<rparr>)
     else do {
       st' \<leftarrow> (if \<not> zs_set st \<and> cmp_score_member_less olt (score, member) (s, m)
              then do {
                io \<leftarrow> (if zs_found st \<noteq> None then usub off (zs_plen st) else Some off);
                Some (st\<lparr>zs_insert_off := io, zs_set := True\<rparr>)
              } else Some st);
       cz_insert_scan olt buf member score k (off + plen) st'
     }
   }"

definition cz_insert ::
    "(f64 \<Rightarrow> f64 \<Rightarrow> bool) \<Rightarrow> compact_zset \<Rightarrow> bytes \<Rightarrow> f64 \<Rightarrow> (bool \<times> compact_zset) option" where
  "cz_insert olt c member score = do {
     let buf = cz_buf c;
     st \<leftarrow> cz_insert_scan olt buf member score (cz_len c) 0
            \<lparr>zs_found = None, zs_insert_off = length buf, zs_set = False, zs_plen = 0\<rparr>;
     insert_off \<leftarrow> (if \<not> zs_set st then usub (length buf) (zs_plen st) else Some (zs_insert_off st));
     case zs_found st of
       Some (old_off, old_score, old_plen) \<Rightarrow>
         if f64_eq old_score score \<or> (f64_is_nan old_score \<and> f64_is_nan score)
         then Some (False, c)
         else do {
           p1 \<leftarrow> subslice buf 0 old_off;
           p2 \<leftarrow> subslice buf (old_off + old_plen) (length buf);
           let without = p1 @ p2;
           q1 \<leftarrow> subslice without 0 insert_off;
           q2 \<leftarrow> subslice without insert_off (length without);
           Some (False, c\<lparr>cz_buf := q1 @ f64_to_le score @ u32_le (length member) @ member @ q2\<rparr>)
         }
     | None \<Rightarrow>
         if insert_off = length buf then Some (True, cz_append_pair c score member)
         else do {
           q1 \<leftarrow> subslice buf 0 insert_off;
           q2 \<leftarrow> subslice buf insert_off (length buf);
           Some (True, \<lparr>cz_buf = q1 @ f64_to_le score @ u32_le (length member) @ member @ q2,
                        cz_len = cz_len c + 1, cz_bytes = cz_bytes c + length member\<rparr>)
         }
   }"

fun cz_remove_loop :: "compact_zset \<Rightarrow> bytes \<Rightarrow> nat \<Rightarrow> nat \<Rightarrow> (f64 option \<times> compact_zset) option" where
  "cz_remove_loop c member 0 off = Some (None, c)"
| "cz_remove_loop c member (Suc k) off = do {
     (s, mlen, m) \<leftarrow> cz_read (cz_buf c) off;
     let plen = 12 + mlen;
     if m = member then do {
       p1 \<leftarrow> subslice (cz_buf c) 0 off;
       p2 \<leftarrow> subslice (cz_buf c) (off + plen) (length (cz_buf c));
       n \<leftarrow> usub (cz_len c) 1;
       b \<leftarrow> usub (cz_bytes c) mlen;
       Some (Some s, \<lparr>cz_buf = p1 @ p2, cz_len = n, cz_bytes = b\<rparr>)
     } else cz_remove_loop c member k (off + plen)
   }"

definition cz_remove :: "compact_zset \<Rightarrow> bytes \<Rightarrow> (f64 option \<times> compact_zset) option" where
  "cz_remove c member = cz_remove_loop c member (cz_len c) 0"

section \<open>The dual encoding\<close>

datatype zset_data = ZSetCompact compact_zset | ZSetSkiplist skiplist_zset

definition zsetdata_new :: zset_data where
  "zsetdata_new = ZSetCompact cz_new"

fun members_fit_z :: "nat \<Rightarrow> nat \<Rightarrow> nat \<Rightarrow> bytes list \<Rightarrow> bool" where
  "members_fit_z max_value max_size tot [] \<longleftrightarrow> True"
| "members_fit_z max_value max_size tot (m # ms) \<longleftrightarrow>
     (if length m > max_value then False
      else if tot + (length m + 8) > max_size then False
      else members_fit_z max_value max_size (tot + (length m + 8)) ms)"

text \<open>\<^verbatim>\<open>sort_unstable\<close> on pairs whose members differ: the sorted order is unique.\<close>

definition sort_score_member :: "(f64 \<Rightarrow> f64 \<Rightarrow> bool) \<Rightarrow> score_member list \<Rightarrow> score_member list" where
  "sort_score_member olt ps = fold (bt_insert olt) ps []"

definition zsetdata_from_pairs ::
    "(f64 \<Rightarrow> f64 \<Rightarrow> bool) \<Rightarrow> ((bytes \<times> f64) list \<Rightarrow> (bytes \<times> f64) list) \<Rightarrow> zset_thresholds \<Rightarrow>
      (bytes \<times> f64) list \<Rightarrow> zset_data" where
  "zsetdata_from_pairs olt ord thr ps =
     (let m = ord (fold (\<lambda>(m, s) acc. AList.update m s acc) ps []) in
      if length m \<le> zt_max_entries thr \<and> members_fit_z (zt_max_value thr) (zt_max_size thr) 0 (map fst m)
      then ZSetCompact (fold (\<lambda>(s, m) c. cz_append_pair c s m)
             (sort_score_member olt (map (\<lambda>(m, s). (s, m)) m)) (cz_with_capacity (length m) (sum_list (map (\<lambda>(m, _). length m + 8) m))))
      else ZSetSkiplist (fold (\<lambda>(m, s) sk. snd (sk_insert olt sk m s)) m sk_new))"

fun zsetdata_len :: "zset_data \<Rightarrow> nat" where
  "zsetdata_len (ZSetCompact c) = cz_len c"
| "zsetdata_len (ZSetSkiplist s) = length (sk_members s)"

definition zsetdata_is_empty :: "zset_data \<Rightarrow> bool" where
  "zsetdata_is_empty z \<longleftrightarrow> zsetdata_len z = 0"

fun zsetdata_encoding_name :: "zset_data \<Rightarrow> string" where
  "zsetdata_encoding_name (ZSetCompact c) = ''listpack''"
| "zsetdata_encoding_name (ZSetSkiplist s) = ''skiplist''"

fun zsetdata_payload_bytes :: "zset_data \<Rightarrow> nat" where
  "zsetdata_payload_bytes (ZSetCompact c) = cz_bytes c"
| "zsetdata_payload_bytes (ZSetSkiplist s) = sk_payload_bytes s"

fun zsetdata_ensure_skiplist :: "(f64 \<Rightarrow> f64 \<Rightarrow> bool) \<Rightarrow> zset_data \<Rightarrow> skiplist_zset" where
  "zsetdata_ensure_skiplist olt (ZSetSkiplist s) = s"
| "zsetdata_ensure_skiplist olt (ZSetCompact c) =
     (fold (\<lambda>(m, s) sk. snd (sk_insert olt sk m s)) (cz_iter_pairs c) (sk_with_capacity (cz_len c)))
       \<lparr>sk_bytes := cz_bytes c\<rparr>"

fun zsetdata_maybe_demote :: "zset_thresholds \<Rightarrow> zset_data \<Rightarrow> zset_data" where
  "zsetdata_maybe_demote thr (ZSetCompact c) = ZSetCompact c"
| "zsetdata_maybe_demote thr (ZSetSkiplist s) =
     (if length (sk_members s) > zt_demote_entries thr then ZSetSkiplist s
      else if list_ex (\<lambda>(m, _). length m > zt_max_value thr) (sk_members s) then ZSetSkiplist s
      else if sum_list (map (\<lambda>(m, _). length m + 8) (sk_members s)) > zt_max_size thr
      then ZSetSkiplist s
      else ZSetCompact (fold (\<lambda>(score, member) c. cz_append_pair c score member) (sk_by_score s)
             (cz_with_capacity (length (sk_members s)) (sk_payload_bytes s))))"

fun zsetdata_score :: "zset_data \<Rightarrow> bytes \<Rightarrow> f64 option" where
  "zsetdata_score (ZSetCompact c) member = cz_score c member"
| "zsetdata_score (ZSetSkiplist s) member = sk_score s member"

definition sk_insert_wrapped ::
    "(f64 \<Rightarrow> f64 \<Rightarrow> bool) \<Rightarrow> skiplist_zset \<Rightarrow> bytes \<Rightarrow> f64 \<Rightarrow> bool \<times> zset_data" where
  "sk_insert_wrapped olt s member score =
     (case sk_insert olt s member score of (r, s') \<Rightarrow> (r, ZSetSkiplist s'))"

fun zsetdata_insert ::
    "(f64 \<Rightarrow> f64 \<Rightarrow> bool) \<Rightarrow> zset_thresholds \<Rightarrow> zset_data \<Rightarrow> bytes \<Rightarrow> f64 \<Rightarrow> (bool \<times> zset_data) option" where
  "zsetdata_insert olt thr (ZSetSkiplist s) member score = Some (sk_insert_wrapped olt s member score)"
| "zsetdata_insert olt thr (ZSetCompact c) member score =
     (if length member > zt_max_value thr
      then Some (sk_insert_wrapped olt (zsetdata_ensure_skiplist olt (ZSetCompact c)) member score)
      else let maybe_need_promote = (cz_len c \<ge> zt_max_entries thr
                 \<or> cz_bytes c + length member + 8 > zt_max_size thr) in
        if maybe_need_promote \<and> zsetdata_score (ZSetCompact c) member = None
        then Some (sk_insert_wrapped olt (zsetdata_ensure_skiplist olt (ZSetCompact c)) member score)
        else map_option (\<lambda>(r, c'). (r, ZSetCompact c')) (cz_insert olt c member score))"

definition zsetdata_remove ::
    "(f64 \<Rightarrow> f64 \<Rightarrow> bool) \<Rightarrow> zset_thresholds \<Rightarrow> zset_data \<Rightarrow> bytes \<Rightarrow> (f64 option \<times> zset_data) option" where
  "zsetdata_remove olt thr z member = do {
     (removed, z1) \<leftarrow> (case z of
         ZSetCompact c \<Rightarrow> map_option (\<lambda>(r, c'). (r, ZSetCompact c')) (cz_remove c member)
       | ZSetSkiplist s \<Rightarrow> (case sk_remove olt s member of (r, s') \<Rightarrow> Some (r, ZSetSkiplist s')));
     Some (removed, if removed \<noteq> None then zsetdata_maybe_demote thr z1 else z1)
   }"

text \<open>The entries as (member, score) in score order, and in the order of the \<^verbatim>\<open>HashMap\<close>.\<close>

fun zsetdata_to_pairs_sorted :: "zset_data \<Rightarrow> (bytes \<times> f64) list" where
  "zsetdata_to_pairs_sorted (ZSetCompact c) = cz_iter_pairs c"
| "zsetdata_to_pairs_sorted (ZSetSkiplist s) = map (\<lambda>(sc, m). (m, sc)) (sk_by_score s)"

fun zsetdata_to_pairs ::
    "((bytes \<times> f64) list \<Rightarrow> (bytes \<times> f64) list) \<Rightarrow> zset_data \<Rightarrow> (bytes \<times> f64) list" where
  "zsetdata_to_pairs ord (ZSetCompact c) = cz_iter_pairs c"
| "zsetdata_to_pairs ord (ZSetSkiplist s) = ord (sk_members s)"

definition zsetdata_member_keys ::
    "((bytes \<times> f64) list \<Rightarrow> (bytes \<times> f64) list) \<Rightarrow> zset_data \<Rightarrow> bytes list" where
  "zsetdata_member_keys ord z = map fst (zsetdata_to_pairs ord z)"

fun position_of :: "('a \<Rightarrow> bool) \<Rightarrow> 'a list \<Rightarrow> nat option" where
  "position_of P [] = None"
| "position_of P (x # xs) = (if P x then Some 0 else map_option Suc (position_of P xs))"

text \<open>\<^verbatim>\<open>rank\<close>: the outer option is the panic of \<^verbatim>\<open>n - pos - 1\<close>, the inner one the reply.\<close>

definition zsetdata_rank :: "zset_data \<Rightarrow> bytes \<Rightarrow> bool \<Rightarrow> nat option option" where
  "zsetdata_rank z member rv =
     (case zsetdata_score z member of
        None \<Rightarrow> Some None
      | Some score \<Rightarrow>
          (let n = zsetdata_len z in
           case position_of (\<lambda>(m, s). f64_eq s score \<and> m = member) (zsetdata_to_pairs_sorted z) of
             None \<Rightarrow> Some None
           | Some pos \<Rightarrow>
               if rv then do { a \<leftarrow> usub n pos; b \<leftarrow> usub a 1; Some (Some b) } else Some (Some pos)))"

definition zsetdata_first :: "zset_data \<Rightarrow> (f64 \<times> bytes) option" where
  "zsetdata_first z = (case zsetdata_to_pairs_sorted z of [] \<Rightarrow> None | (m, s) # _ \<Rightarrow> Some (s, m))"

definition zsetdata_last :: "zset_data \<Rightarrow> (f64 \<times> bytes) option" where
  "zsetdata_last z = fold (\<lambda>(m, s) _. Some (s, m)) (zsetdata_to_pairs_sorted z) None"

definition zsetdata_pop_extreme ::
    "(f64 \<Rightarrow> f64 \<Rightarrow> bool) \<Rightarrow> zset_thresholds \<Rightarrow> zset_data \<Rightarrow> bool \<Rightarrow>
      ((f64 \<times> bytes) option \<times> zset_data) option" where
  "zsetdata_pop_extreme olt thr z mx =
     (case (if mx then zsetdata_last z else zsetdata_first z) of
        None \<Rightarrow> Some (None, z)
      | Some (score, member) \<Rightarrow> do {
          (r, z') \<leftarrow> zsetdata_remove olt thr z member;
          Some (if r = None then None else Some (score, member), z')
        })"

definition normalize_index :: "int \<Rightarrow> int \<Rightarrow> nat" where
  "normalize_index idx len = (if idx < 0 then nat (max (len + idx) 0) else nat idx)"

definition zsetdata_range_by_rank :: "zset_data \<Rightarrow> int \<Rightarrow> int \<Rightarrow> bool \<Rightarrow> (bytes \<times> f64) list option" where
  "zsetdata_range_by_rank z start stop rv =
     (let n = int (zsetdata_len z);
          start = min (normalize_index start n) (nat n);
          stop = normalize_index stop n;
          entries = zsetdata_to_pairs_sorted z;
          entries = (if rv then rev entries else entries) in
      if start \<ge> length entries \<or> start > stop then Some []
      else let stop = min stop (length entries - 1) in subslice entries start (stop + 1))"

definition zsetdata_range_by_score ::
    "zset_data \<Rightarrow> f64 \<Rightarrow> bool \<Rightarrow> f64 \<Rightarrow> bool \<Rightarrow> bool \<Rightarrow> nat \<Rightarrow> nat option \<Rightarrow> (bytes \<times> f64) list" where
  "zsetdata_range_by_score z mn min_excl mx max_excl rv off cnt =
     (let entries = filter (\<lambda>(_, s).
            (if min_excl then f64_less mn s else f64_le mn s)
            \<and> (if max_excl then f64_less s mx else f64_le s mx)) (zsetdata_to_pairs_sorted z);
          entries = (if rv then rev entries else entries);
          entries = drop off entries in
      case cnt of Some n \<Rightarrow> take n entries | None \<Rightarrow> entries)"

definition zsetdata_range_by_lex_members ::
    "((bytes \<times> f64) list \<Rightarrow> (bytes \<times> f64) list) \<Rightarrow> zset_data \<Rightarrow> bytes option \<Rightarrow> bool \<Rightarrow> bytes option \<Rightarrow> bool
      \<Rightarrow> bytes list" where
  "zsetdata_range_by_lex_members ord z min_b min_excl max_b max_excl =
     filter (\<lambda>m.
         (case min_b of None \<Rightarrow> True | Some b \<Rightarrow> if min_excl then m > b else m \<ge> b)
         \<and> (case max_b of None \<Rightarrow> True | Some b \<Rightarrow> if max_excl then m < b else m \<le> b))
       (sort (zsetdata_member_keys ord z))"

section \<open>Abstract content\<close>

text \<open>
  A sorted set stands for a finite map from members to scores, a score being its place in the
  order of \<^verbatim>\<open>OrderedFloat\<close> (\<open>score_key\<close>), so that the two zeros are one score. Its sorted content is the
  list of (score, member) in the lexicographic order of \<^typ>\<open>int \<times> bytes\<close>.
\<close>

definition zk :: "score_member \<Rightarrow> int \<times> bytes" where
  "zk p = (score_key (fst p), snd p)"

definition zgraph :: "(bytes \<rightharpoonup> int) \<Rightarrow> (int \<times> bytes) set" where
  "zgraph m = {(k, x). m x = Some k}"

definition zsorted :: "score_member list \<Rightarrow> bool" where
  "zsorted ps \<longleftrightarrow> sorted_wrt (<) (map zk ps)"

definition zpk :: "score_member \<Rightarrow> bytes" where
  "zpk p = f64_to_le (fst p) @ pk (snd p)"

definition zpks :: "score_member list \<Rightarrow> bytes" where
  "zpks ps = concat (map zpk ps)"

definition cz_rep :: "score_member list \<Rightarrow> compact_zset" where
  "cz_rep ps = \<lparr>cz_buf = zpks ps, cz_len = length ps, cz_bytes = payload (map snd ps)\<rparr>"

definition zset_payload :: "(bytes \<rightharpoonup> int) \<Rightarrow> nat" where
  "zset_payload m = (\<Sum>x \<in> dom m. length x)"

text \<open>The ranked content of a score map: what every sorted reply is a part of.\<close>

definition zranked :: "(bytes \<rightharpoonup> int) \<Rightarrow> (int \<times> bytes) list" where
  "zranked m = sorted_list_of_set (zgraph m)"

fun zset_is :: "zset_data \<Rightarrow> (bytes \<rightharpoonup> int) \<Rightarrow> bool" where
  "zset_is (ZSetCompact c) m \<longleftrightarrow>
     (\<exists>ps. c = cz_rep ps \<and> zsorted ps \<and> zk ` set ps = zgraph m \<and> (\<forall>x \<in> dom m. fits x))"
| "zset_is (ZSetSkiplist s) m \<longleftrightarrow>
     distinct (map fst (sk_members s))
     \<and> (\<lambda>x. map_option score_key (map_of (sk_members s) x)) = m
     \<and> zsorted (sk_by_score s) \<and> zk ` set (sk_by_score s) = zgraph m
     \<and> sk_bytes s = zset_payload m"

definition zset_thr_ok :: "zset_thresholds \<Rightarrow> bool" where
  "zset_thr_ok thr \<longleftrightarrow> zt_max_value thr < 2 ^ 32"

subsection \<open>The order and the tree\<close>

lemma cmp_less_zk [simp]: "cmp_score_member_less ordered_float_lt a b \<longleftrightarrow> zk a < zk b"
  by (auto simp: cmp_score_member_less_def ordered_float_lt_def zk_def less_prod_def)

lemma zsorted_simps [simp]:
  "zsorted []" "zsorted (p # ps) \<longleftrightarrow> (\<forall>q \<in> set ps. zk p < zk q) \<and> zsorted ps"
  by (auto simp: zsorted_def)

lemma zsorted_append [simp]:
  "zsorted (ps @ qs) \<longleftrightarrow> zsorted ps \<and> zsorted qs \<and> (\<forall>p \<in> set ps. \<forall>q \<in> set qs. zk p < zk q)"
  by (induction ps) auto

lemma zsorted_filter: "zsorted ps \<Longrightarrow> zsorted (filter P ps)"
  by (induction ps) auto

lemma zsorted_inj: "zsorted ps \<Longrightarrow> inj_on zk (set ps) \<and> distinct ps"
  by (induction ps) (auto simp: inj_on_def)

lemma bt_insert_set [simp]:
  "zk k \<notin> zk ` set ps \<Longrightarrow> set (bt_insert ordered_float_lt k ps) = insert k (set ps)"
  by (induction ps) auto

lemma bt_insert_sorted:
  "zsorted ps \<Longrightarrow> zk k \<notin> zk ` set ps \<Longrightarrow> zsorted (bt_insert ordered_float_lt k ps)"
  by (induction ps) (auto simp: dest: less_trans)

lemma bt_insert_split:
  "zsorted ps \<Longrightarrow> zk k \<notin> zk ` set ps \<Longrightarrow>
     bt_insert ordered_float_lt k ps =
       takeWhile (\<lambda>p. \<not> zk k < zk p) ps @ k # dropWhile (\<lambda>p. \<not> zk k < zk p) ps"
  by (induction ps) (auto simp: not_less order_less_le)

lemma bt_remove_filter:
  "zsorted ps \<Longrightarrow> bt_remove ordered_float_lt k ps = filter (\<lambda>p. zk p \<noteq> zk k) ps"
proof (induction ps)
  case (Cons p ps)
  have "filter (\<lambda>p. zk p \<noteq> zk k) ps = ps" if "zk k < zk p \<or> zk k = zk p"
    using Cons.prems that by (auto intro!: filter_True dest: less_trans)
  then show ?case using Cons by (auto simp: not_less)
qed simp

subsection \<open>Score maps\<close>

lemma zgraph_upd: "zgraph (m(x \<mapsto> k)) = insert (k, x) {p \<in> zgraph m. snd p \<noteq> x}"
  by (auto simp: zgraph_def)

lemma zgraph_del: "zgraph (m(x := None)) = {p \<in> zgraph m. snd p \<noteq> x}"
  by (auto simp: zgraph_def)

lemma zgraph_fresh: "m x = None \<Longrightarrow> {p \<in> zgraph m. snd p \<noteq> x} = zgraph m"
  by (auto simp: zgraph_def)

lemma zgraph_inj: "zgraph m = zgraph m' \<Longrightarrow> m = m'"
proof (rule ext)
  fix x
  assume "zgraph m = zgraph m'"
  then have "\<And>k. m x = Some k \<longleftrightarrow> m' x = Some k" by (auto simp: zgraph_def set_eq_iff)
  then show "m x = m' x" by (metis not_Some_eq)
qed

lemma zk_image_filter: "zk ` {p \<in> A. snd p \<noteq> x} = {q \<in> zk ` A. snd q \<noteq> x}"
  by (auto simp: zk_def)

lemma members_dom: "zk ` set ps = zgraph m \<Longrightarrow> snd ` set ps = dom m"
proof -
  assume "zk ` set ps = zgraph m"
  then have "snd ` zk ` set ps = snd ` zgraph m" by simp
  moreover have "snd ` zk ` set ps = snd ` set ps" by (simp add: image_image zk_def)
  moreover have "snd ` zgraph m = dom m" by (force simp: zgraph_def)
  ultimately show ?thesis by simp
qed

lemma members_distinct:
  assumes "zsorted ps" and "zk ` set ps = zgraph m"
  shows "distinct (map snd ps)"
proof -
  have "inj_on snd (set ps)"
  proof (rule inj_onI)
    fix p q assume pq: "p \<in> set ps" "q \<in> set ps" "snd p = snd q"
    then have "zk p \<in> zgraph m" "zk q \<in> zgraph m" using assms(2) by auto
    then have "zk p = zk q" using pq(3) by (auto simp: zgraph_def zk_def)
    then show "p = q" using zsorted_inj [OF assms(1)] pq by (auto dest: inj_onD)
  qed
  then show ?thesis using zsorted_inj [OF assms(1)] by (simp add: distinct_map)
qed

lemma members_payload:
  assumes "zsorted ps" and "zk ` set ps = zgraph m"
  shows "payload (map snd ps) = zset_payload m"
  using payload_distinct [OF members_distinct [OF assms]] members_dom [OF assms(2)]
  by (simp add: zset_payload_def)

lemma members_card:
  assumes "zsorted ps" and "zk ` set ps = zgraph m"
  shows "length ps = card (dom m)" and "finite (dom m)"
  using distinct_card [OF members_distinct [OF assms]] members_dom [OF assms(2)] by auto
    (metis List.finite_set finite_imageI)

lemma member_key:
  assumes "zk ` set ps = zgraph m"
  shows "m x = Some k \<longleftrightarrow> (\<exists>s. (s, x) \<in> set ps \<and> score_key s = k)"
proof -
  have "m x = Some k \<longleftrightarrow> (k, x) \<in> zk ` set ps" unfolding assms by (simp add: zgraph_def)
  also have "\<dots> \<longleftrightarrow> (\<exists>s. (s, x) \<in> set ps \<and> score_key s = k)" by (force simp: zk_def)
  finally show ?thesis .
qed

lemma zranked_list:
  assumes "zsorted ps" and "zk ` set ps = zgraph m"
  shows "map zk ps = zranked m"
proof -
  have "sorted_list_of_set (set (map zk ps)) = map zk ps"
    using assms(1) by (intro sorted_list_of_set.idem_if_sorted_distinct)
      (auto simp: zsorted_def strict_sorted_iff)
  then show ?thesis using assms(2) by (simp add: zranked_def)
qed

subsection \<open>The compact buffer\<close>

lemma length_zpk [simp]: "length (zpk p) = 12 + length (snd p)"
  by (simp add: zpk_def)

lemma zpks_simps [simp]:
  "zpks [] = []" "zpks (p # ps) = zpk p @ zpks ps" "zpks (ps @ qs) = zpks ps @ zpks qs"
  by (simp_all add: zpks_def)

lemma cz_rep_sel [simp]:
  "cz_buf (cz_rep ps) = zpks ps" "cz_len (cz_rep ps) = length ps"
  "cz_bytes (cz_rep ps) = payload (map snd ps)"
  by (simp_all add: cz_rep_def)

lemma cz_empty_rep: "cz_new = cz_rep []" "cz_with_capacity n pl = cz_rep []"
  by (simp_all add: cz_new_def cz_with_capacity_def cz_rep_def)

lemma cz_append_rep: "cz_append_pair (cz_rep ps) s m = cz_rep (ps @ [(s, m)])"
  by (simp add: cz_append_pair_def cz_rep_def zpk_def pk_def)

lemma fold_cz_append:
  "fold (\<lambda>(s, m) c. cz_append_pair c s m) qs (cz_rep ps) = cz_rep (ps @ qs)"
  by (induction qs arbitrary: ps) (auto simp: cz_append_rep)

lemma drop_zpk_split:
  assumes "drop off buf = zpk p @ post"
  shows "\<exists>pre. buf = pre @ zpk p @ post \<and> off = length pre"
proof -
  have "off < length buf" using arg_cong [OF assms, of length] by simp
  then have "buf = take off buf @ zpk p @ post \<and> off = length (take off buf)"
    using append_take_drop_id [of off buf] assms by auto
  then show ?thesis by blast
qed

lemma cz_read_at:
  assumes d: "drop off buf = zpk (s, m) @ post" and "fits m"
  shows "cz_read buf off = Some (s, length m, m)" and "drop (off + (12 + length m)) buf = post"
proof -
  obtain pre where buf: "buf = pre @ zpk (s, m) @ post" and off: "off = length pre"
    using drop_zpk_split [OF d] by blast
  have 1: "subslice buf off (off + 8) = Some (f64_to_le s)"
    using subslice_append [of off pre "off + 8" "f64_to_le s" "pk m @ post"] by (simp add: buf off zpk_def)
  have 2: "read_u32 buf (off + 8) = Some (length m)"
    using read_u32_pk [of "off + 8" "pre @ f64_to_le s" m post] assms(2) by (simp add: buf off zpk_def)
  have 3: "subslice buf (off + 12) (off + 12 + length m) = Some m"
    using subslice_pk_body [of "off + 12" "pre @ f64_to_le s" "off + 12 + length m" m post]
    by (simp add: buf off zpk_def)
  show "cz_read buf off = Some (s, length m, m)" using 1 2 3 by (simp add: cz_read_def)
  show "drop (off + (12 + length m)) buf = post" by (simp add: buf off)
qed

lemma cz_iter_next_at:
  assumes d: "drop off buf = zpk (s, m) @ post" and "fits m"
  shows "cz_iter_next buf off = Some ((m, s), off + (12 + length m))"
proof -
  obtain pre where buf: "buf = pre @ zpk (s, m) @ post" and off: "off = length pre"
    using drop_zpk_split [OF d] by blast
  have "drop (off + 8) buf = u32_le (length m) @ m @ post" "drop (off + 12) buf = m @ post"
    by (simp_all add: buf off zpk_def pk_def)
  moreover have "take 8 (drop off buf) = f64_to_le s" using d by (simp add: zpk_def)
  moreover have "length buf = off + 12 + length m + length post" by (simp add: buf off)
  moreover have "length m mod 4294967296 = length m" using assms(2) by (simp add: fits_def)
  ultimately show ?thesis by (simp add: cz_iter_next_def u32_from_to_le)
qed

lemma cz_collect_zpks:
  "drop off buf = zpks ps \<Longrightarrow> off \<le> length buf \<Longrightarrow> \<forall>x \<in> snd ` set ps. fits x \<Longrightarrow>
     cz_collect buf off = map prod.swap ps"
proof (induction ps arbitrary: off)
  case Nil
  then have "cz_iter_next buf off = None" by (simp add: cz_iter_next_def)
  then show ?case by (subst cz_collect.simps) simp
next
  case (Cons p ps)
  obtain s m where p: "p = (s, m)" by force
  have d: "drop off buf = zpk (s, m) @ zpks ps" and f: "fits m" using Cons.prems p by auto
  have "off + (12 + length m) \<le> length buf" using arg_cong [OF d, of length] by simp
  then have "cz_collect buf (off + (12 + length m)) = map prod.swap ps"
    using Cons.IH [OF cz_read_at(2) [OF d f]] Cons.prems(3) by simp
  then show ?case using cz_iter_next_at [OF d f] p by (subst cz_collect.simps) simp
qed

lemma cz_iter_rep: "\<forall>x \<in> snd ` set ps. fits x \<Longrightarrow> cz_iter_pairs (cz_rep ps) = map prod.swap ps"
  by (simp add: cz_iter_pairs_def cz_collect_zpks)

text \<open>The scan of \<^verbatim>\<open>insert\<close>, first past entries of other members.\<close>

lemma scan_others:
  assumes "drop off buf = zpks ps @ post" and "\<forall>y \<in> snd ` set ps. fits y"
    and "x \<notin> snd ` set ps" and "zs_plen st \<le> off" and "zs_found st = None \<longrightarrow> zs_plen st = 0"
  shows "cz_insert_scan ordered_float_lt buf x s (length ps + k) off st =
    cz_insert_scan ordered_float_lt buf x s k (off + length (zpks ps))
      (if \<not> zs_set st \<and> (\<exists>p \<in> set ps. zk (s, x) < zk p)
       then st\<lparr>zs_insert_off := off - zs_plen st + length (zpks (takeWhile (\<lambda>p. \<not> zk (s, x) < zk p) ps)),
               zs_set := True\<rparr>
       else st)"
  using assms
proof (induction ps arbitrary: off st)
  case (Cons p ps)
  obtain t y where p: "p = (t, y)" by force
  have d: "drop off buf = zpk (t, y) @ (zpks ps @ post)" and f: "fits y" and "y \<noteq> x"
    using Cons.prems p by auto
  note rd = cz_read_at [OF d f]
  let ?st = "if \<not> zs_set st \<and> zk (s, x) < zk (t, y)
    then st\<lparr>zs_insert_off := off - zs_plen st, zs_set := True\<rparr> else st"
  have step: "cz_insert_scan ordered_float_lt buf x s (length (p # ps) + k) off st
      = cz_insert_scan ordered_float_lt buf x s (length ps + k) (off + (12 + length y)) ?st"
    using Cons.prems(4,5) \<open>y \<noteq> x\<close> by (auto simp: rd(1) usub_def)
  have "zs_plen ?st \<le> off + (12 + length y)" "zs_found ?st = None \<longrightarrow> zs_plen ?st = 0"
    using Cons.prems(4,5) by auto
  note IH = Cons.IH [OF rd(2) _ _ this]
  show ?case
  proof (cases "zk (s, x) < zk p")
    case True
    then show ?thesis unfolding step using IH Cons.prems(2,3)
      by (cases "zs_set st") (simp_all add: p add.assoc)
  next
    case False
    then show ?thesis unfolding step using IH Cons.prems(2,3,4)
      by (cases "zs_set st") (simp_all add: p add.assoc)
  qed
qed simp

lemma take_drop_zpks:
  "subslice (zpks qs) 0 (length (zpks (takeWhile P qs))) = Some (zpks (takeWhile P qs))"
  "subslice (zpks qs) (length (zpks (takeWhile P qs))) (length (zpks qs)) = Some (zpks (dropWhile P qs))"
proof -
  have qs: "zpks qs = zpks (takeWhile P qs) @ zpks (dropWhile P qs)"
    by (metis takeWhile_dropWhile_id zpks_simps(3))
  show "subslice (zpks qs) 0 (length (zpks (takeWhile P qs))) = Some (zpks (takeWhile P qs))"
    by (simp add: subslice_def qs)
  show "subslice (zpks qs) (length (zpks (takeWhile P qs))) (length (zpks qs)) = Some (zpks (dropWhile P qs))"
    by (simp add: subslice_def qs)
qed

lemma zpks_empty_iff: "length (zpks ps) = 0 \<longleftrightarrow> ps = []"
  by (cases ps) simp_all

lemma cz_insert_new:
  assumes "zsorted ps" and "\<forall>y \<in> snd ` set ps. fits y" and "x \<notin> snd ` set ps"
  shows "cz_insert ordered_float_lt (cz_rep ps) x s =
    Some (True, cz_rep (bt_insert ordered_float_lt (s, x) ps))"
proof -
  let ?P = "\<lambda>p. \<not> zk (s, x) < zk p"
  let ?st = "\<lparr>zs_found = None, zs_insert_off = length (zpks ps), zs_set = False, zs_plen = 0\<rparr>"
  note scan = scan_others [of 0 "zpks ps" ps "[]" x ?st s 0]
  have fresh: "zk (s, x) \<notin> zk ` set ps" using assms(3) by (force simp: zk_def)
  note bt = bt_insert_split [OF assms(1) fresh]
  show ?thesis
  proof (cases "\<exists>p \<in> set ps. zk (s, x) < zk p")
    case True
    then have "dropWhile ?P ps \<noteq> []" by auto
    moreover have "length (zpks ps) = length (zpks (takeWhile ?P ps)) + length (zpks (dropWhile ?P ps))"
      by (metis takeWhile_dropWhile_id zpks_simps(3) length_append)
    ultimately have "length (zpks (takeWhile ?P ps)) \<noteq> length (zpks ps)"
      using zpks_empty_iff [of "dropWhile ?P ps"] by simp
    moreover have "payload (map snd (takeWhile ?P ps)) + payload (map snd (dropWhile ?P ps))
        = payload (map snd ps)" "length (takeWhile ?P ps) + length (dropWhile ?P ps) = length ps"
      by (metis takeWhile_dropWhile_id map_append payload_append,
          metis takeWhile_dropWhile_id length_append)
    ultimately show ?thesis
      using scan assms(2,3) True take_drop_zpks [where P = ?P and qs = ps]
      by (simp add: cz_insert_def bt cz_rep_def zpk_def pk_def)
  next
    case False
    then have bt': "bt_insert ordered_float_lt (s, x) ps = ps @ [(s, x)]"
      unfolding bt by (simp add: takeWhile_eq_all_conv [THEN iffD2] dropWhile_eq_Nil_conv [THEN iffD2])
    then show ?thesis unfolding bt' using scan assms(2,3) False
      by (simp add: cz_insert_def usub_def cz_append_rep)
  qed
qed

lemma scan_found:
  fixes s :: f64
  assumes ps: "ps = ps1 @ (t, x) # ps2" and "\<forall>y \<in> snd ` set ps. fits y"
    and "x \<notin> snd ` set (ps1 @ ps2)"
  defines "P \<equiv> \<lambda>p. \<not> zk (s, x) < zk p"
  shows "\<exists>st. cz_insert_scan ordered_float_lt (zpks ps) x s (length ps) 0
      \<lparr>zs_found = None, zs_insert_off = length (zpks ps), zs_set = False, zs_plen = 0\<rparr> = Some st
    \<and> zs_found st = Some (length (zpks ps1), t, 12 + length x) \<and> zs_plen st = 12 + length x
    \<and> (if zs_set st then Some (zs_insert_off st) else usub (length (zpks ps)) (zs_plen st))
        = Some (length (zpks (takeWhile P (ps1 @ ps2))))"
proof -
  let ?st0 = "\<lparr>zs_found = None, zs_insert_off = length (zpks ps), zs_set = False, zs_plen = 0\<rparr>"
  let ?e1 = "\<exists>p \<in> set ps1. zk (s, x) < zk p" and ?e2 = "\<exists>p \<in> set ps2. zk (s, x) < zk p"
  let ?st1 = "if ?e1 then ?st0\<lparr>zs_insert_off := length (zpks (takeWhile P ps1)), zs_set := True\<rparr> else ?st0"
  let ?st2 = "?st1\<lparr>zs_found := Some (length (zpks ps1), t, 12 + length x), zs_plen := 12 + length x\<rparr>"
  let ?st3 = "if \<not> ?e1 \<and> ?e2 then ?st2\<lparr>zs_insert_off := length (zpks ps1) + length (zpks (takeWhile P ps2)),
      zs_set := True\<rparr> else ?st2"
  have s1: "cz_insert_scan ordered_float_lt (zpks ps) x s (length ps) 0 ?st0
      = cz_insert_scan ordered_float_lt (zpks ps) x s (Suc (length ps2)) (length (zpks ps1)) ?st1"
    using scan_others [of 0 "zpks ps" ps1 "zpk (t, x) @ zpks ps2" x ?st0 s "Suc (length ps2)"] assms(2,3)
    by (simp add: ps P_def image_Un del: cz_insert_scan.simps)
  have d: "drop (length (zpks ps1)) (zpks ps) = zpk (t, x) @ zpks ps2" and "fits x"
    using assms(2) by (simp_all add: ps)
  note rd = cz_read_at [OF this]
  have s2: "cz_insert_scan ordered_float_lt (zpks ps) x s (Suc (length ps2)) (length (zpks ps1)) ?st1
      = cz_insert_scan ordered_float_lt (zpks ps) x s (length ps2) (length (zpks ps1) + (12 + length x)) ?st2"
    by (simp add: rd(1) Let_def)
  have s3: "cz_insert_scan ordered_float_lt (zpks ps) x s (length ps2) (length (zpks ps1) + (12 + length x)) ?st2
      = Some ?st3"
  proof -
    have "x \<notin> snd ` set ps2" "\<forall>y \<in> snd ` set ps2. fits y" using assms(2,3) by (auto simp: ps)
    then show ?thesis
      using scan_others [of "length (zpks ps1) + (12 + length x)" "zpks ps" ps2 "[]" x ?st2 s 0] rd(2)
      by (cases ?e1) (simp_all add: P_def)
  qed
  have tw: "length (zpks (takeWhile P (ps1 @ ps2))) = (if ?e1 then length (zpks (takeWhile P ps1))
      else if ?e2 then length (zpks ps1) + length (zpks (takeWhile P ps2))
      else length (zpks ps1) + length (zpks ps2))"
    by (auto simp: P_def takeWhile_append takeWhile_eq_all_conv [THEN iffD2])
  have "usub (length (zpks ps)) (12 + length x) = Some (length (zpks ps1) + length (zpks ps2))"
    by (simp add: usub_def ps)
  then show ?thesis unfolding s1 s2 s3 tw by (auto simp: P_def)
qed

lemma cz_insert_existing:
  assumes "zsorted ps" and "\<forall>y \<in> snd ` set ps. fits y" and "distinct (map snd ps)" and "(t, x) \<in> set ps"
  shows "cz_insert ordered_float_lt (cz_rep ps) x s = Some (False,
    cz_rep (if score_key t = score_key s then ps
            else bt_insert ordered_float_lt (s, x) (filter (\<lambda>p. snd p \<noteq> x) ps)))"
proof -
  obtain ps1 ps2 where ps: "ps = ps1 @ (t, x) # ps2" using split_list [OF assms(4)] by blast
  have nx: "x \<notin> snd ` set (ps1 @ ps2)" using assms(3) by (auto simp: ps)
  let ?P = "\<lambda>p. \<not> zk (s, x) < zk p" and ?qs = "ps1 @ ps2"
  from scan_found [OF ps assms(2) nx, of s] obtain st where
    st: "cz_insert_scan ordered_float_lt (zpks ps) x s (length ps) 0
      \<lparr>zs_found = None, zs_insert_off = length (zpks ps), zs_set = False, zs_plen = 0\<rparr> = Some st"
    "zs_found st = Some (length (zpks ps1), t, 12 + length x)" "zs_plen st = 12 + length x"
    "(if zs_set st then Some (zs_insert_off st) else usub (length (zpks ps)) (zs_plen st))
        = Some (length (zpks (takeWhile ?P ?qs)))" by blast
  have fil: "filter (\<lambda>p. snd p \<noteq> x) ps = ?qs" 
  proof -
    have "filter (\<lambda>p. snd p \<noteq> x) ?qs = ?qs" using nx by (intro filter_True) force
    then show ?thesis by (simp add: ps)
  qed
  have "zsorted ?qs" using zsorted_filter [OF assms(1)] fil by metis
  moreover have "zk (s, x) \<notin> zk ` set ?qs" using nx by (force simp: zk_def)
  ultimately have bt: "bt_insert ordered_float_lt (s, x) ?qs = takeWhile ?P ?qs @ (s, x) # dropWhile ?P ?qs"
    by (rule bt_insert_split)
  have sub: "subslice (zpks ps) 0 (length (zpks ps1)) = Some (zpks ps1)"
    "subslice (zpks ps) (length (zpks ps1) + (12 + length x)) (length (zpks ps)) = Some (zpks ps2)"
    by (simp_all add: ps subslice_def)
  have pay: "payload (map snd (takeWhile ?P ?qs)) + payload (map snd (dropWhile ?P ?qs))
      = payload (map snd ?qs)" "length (takeWhile ?P ?qs) + length (dropWhile ?P ?qs) = length ?qs"
    by (metis takeWhile_dropWhile_id map_append payload_append,
        metis takeWhile_dropWhile_id length_append)
  have io: "(if \<not> zs_set st then usub (length (zpks ps)) (zs_plen st) else Some (zs_insert_off st))
      = Some (length (zpks (takeWhile ?P ?qs)))" using st(4) by (simp split: if_splits)
  have key: "f64_eq t s \<or> f64_is_nan t \<and> f64_is_nan s \<longleftrightarrow> score_key t = score_key s"
    by (rule f64_eq_key)
  note td = take_drop_zpks [where P = ?P and qs = ?qs, unfolded zpks_simps(3)]
  show ?thesis unfolding fil bt cz_insert_def cz_rep_sel Let_def st(1) Option.bind.bind_lunit io st(2)
      option.case prod.case key
    using sub td pay by (simp add: cz_rep_def zpk_def pk_def ps)
qed

lemma cz_remove_loop_split:
  "drop off (cz_buf c) = zpks ps @ post \<Longrightarrow> \<forall>y \<in> snd ` set ps. fits y \<Longrightarrow> x \<notin> snd ` set ps \<Longrightarrow>
     cz_remove_loop c x (length ps + k) off = cz_remove_loop c x k (off + length (zpks ps))"
proof (induction ps arbitrary: off)
  case (Cons p ps)
  obtain t y where p: "p = (t, y)" by force
  have d: "drop off (cz_buf c) = zpk (t, y) @ (zpks ps @ post)" and f: "fits y" and "y \<noteq> x"
    using Cons.prems p by auto
  note rd = cz_read_at [OF d f]
  show ?case using Cons.IH [OF rd(2)] Cons.prems(2,3) \<open>y \<noteq> x\<close> by (simp add: rd(1) p Let_def add.assoc)
qed simp

lemma cz_remove_rep:
  assumes "\<forall>y \<in> snd ` set ps. fits y" and "distinct (map snd ps)"
  shows "(t, x) \<in> set ps \<Longrightarrow>
      cz_remove (cz_rep ps) x = Some (Some t, cz_rep (filter (\<lambda>p. snd p \<noteq> x) ps))"
    and "x \<notin> snd ` set ps \<Longrightarrow> cz_remove (cz_rep ps) x = Some (None, cz_rep ps)"
proof -
  show "cz_remove (cz_rep ps) x = Some (None, cz_rep ps)" if "x \<notin> snd ` set ps"
    using cz_remove_loop_split [of 0 "cz_rep ps" ps "[]" x 0] assms(1) that by (simp add: cz_remove_def)
  show "cz_remove (cz_rep ps) x = Some (Some t, cz_rep (filter (\<lambda>p. snd p \<noteq> x) ps))" if mem: "(t, x) \<in> set ps"
  proof -
    obtain ps1 ps2 where ps: "ps = ps1 @ (t, x) # ps2" using split_list [OF mem] by blast
    have nx: "x \<notin> snd ` set (ps1 @ ps2)" using assms(2) by (auto simp: ps)
    have fil: "filter (\<lambda>p. snd p \<noteq> x) ps = ps1 @ ps2"
    proof -
      have "filter (\<lambda>p. snd p \<noteq> x) (ps1 @ ps2) = ps1 @ ps2" using nx by (intro filter_True) force
      then show ?thesis by (simp add: ps)
    qed
    have d: "drop (length (zpks ps1)) (zpks ps) = zpk (t, x) @ zpks ps2" and "fits x"
      using assms(1) by (simp_all add: ps)
    note rd = cz_read_at [OF this]
    have "x \<notin> snd ` set ps1" "\<forall>y \<in> snd ` set ps1. fits y" using nx assms(1) by (auto simp: ps)
    then have "cz_remove (cz_rep ps) x = cz_remove_loop (cz_rep ps) x (Suc (length ps2)) (length (zpks ps1))"
      using cz_remove_loop_split [of 0 "cz_rep ps" ps1 "zpk (t, x) @ zpks ps2" x "Suc (length ps2)"]
      by (simp add: cz_remove_def ps del: cz_remove_loop.simps)
    then show ?thesis unfolding fil
      by (simp add: rd(1) Let_def) (simp add: ps subslice_def usub_def cz_rep_def)
  qed
qed

subsection \<open>Refinement\<close>

lemma zset_is_skiplistI:
  assumes "distinct (map fst ms)" and "(\<lambda>x. map_option score_key (map_of ms x)) = m"
    and "zsorted bs" and "zk ` set bs = zgraph m" and "n = zset_payload m"
  shows "zset_is (ZSetSkiplist \<lparr>sk_members = ms, sk_by_score = bs, sk_bytes = n\<rparr>) m"
  using assms by simp

lemma upd_filter:
  fixes x :: bytes
  assumes "zsorted ps" and "zk ` set ps = zgraph m"
  defines "qs \<equiv> filter (\<lambda>p. snd p \<noteq> x) ps"
  shows "zsorted (bt_insert ordered_float_lt (s, x) qs)"
    and "zk ` set (bt_insert ordered_float_lt (s, x) qs) = zgraph (m(x \<mapsto> score_key s))"
    and "zsorted qs" and "zk ` set qs = zgraph (m(x := None))"
proof -
  have img: "zk ` set qs = {p \<in> zgraph m. snd p \<noteq> x}"
    using zk_image_filter [of "set ps" x] assms(2) by (simp add: qs_def)
  have fresh: "zk (s, x) \<notin> zk ` set qs" unfolding img by (simp add: zk_def)
  show srt: "zsorted qs" unfolding qs_def by (rule zsorted_filter [OF assms(1)])
  show "zk ` set qs = zgraph (m(x := None))" using img by (simp add: zgraph_del)
  show "zsorted (bt_insert ordered_float_lt (s, x) qs)" by (rule bt_insert_sorted [OF srt fresh])
  show "zk ` set (bt_insert ordered_float_lt (s, x) qs) = zgraph (m(x \<mapsto> score_key s))"
    unfolding bt_insert_set [OF fresh] zgraph_upd using img by (simp add: zk_def)
qed

lemma filter_fresh: "x \<notin> snd ` set ps \<Longrightarrow> filter (\<lambda>p. snd p \<noteq> x) ps = ps"
  by (intro filter_True) force

lemma bt_remove_member:
  assumes "zsorted ps" and "zk ` set ps = zgraph m" and "m x = Some (score_key t)"
  shows "bt_remove ordered_float_lt (t, x) ps = filter (\<lambda>p. snd p \<noteq> x) ps"
proof -
  have "zk p \<noteq> zk (t, x) \<longleftrightarrow> snd p \<noteq> x" if "p \<in> set ps" for p
  proof -
    have "zk p \<in> zgraph m" using that assms(2) by auto
    then show ?thesis using assms(3) by (auto simp: zgraph_def zk_def)
  qed
  then show ?thesis unfolding bt_remove_filter [OF assms(1)] by (auto intro: filter_cong)
qed

lemma zset_payload_upd:
  "finite (dom m) \<Longrightarrow> zset_payload (m(x \<mapsto> k)) = (if x \<in> dom m then 0 else length x) + zset_payload m"
  by (simp add: zset_payload_def insert_absorb)

lemma zset_payload_del:
  "finite (dom m) \<Longrightarrow> x \<in> dom m \<Longrightarrow> zset_payload (m(x := None)) + length x = zset_payload m"
  using sum.remove [of "dom m" x length] by (simp add: zset_payload_def)

lemma zset_is_finite: "zset_is z m \<Longrightarrow> finite (dom m)"
  by (cases z) (auto dest: members_card(2))

lemma sk_insert_is:
  assumes "zset_is (ZSetSkiplist s) m"
  shows "\<exists>s'. sk_insert ordered_float_lt s x sc = (m x = None, s')
    \<and> zset_is (ZSetSkiplist s') (m(x \<mapsto> score_key sc))"
proof -
  let ?ms = "AList.update x sc (sk_members s)" and ?bs = "sk_by_score s"
  have z: "distinct (map fst (sk_members s))" "(\<lambda>x. map_option score_key (map_of (sk_members s) x)) = m"
    "zsorted ?bs" "zk ` set ?bs = zgraph m" "sk_bytes s = zset_payload m" using assms by auto
  have mx: "map_option score_key (map_of (sk_members s) x) = m x" using z(2) by (rule fun_cong)
  have ms: "distinct (map fst ?ms)" "(\<lambda>x. map_option score_key (map_of ?ms x)) = m(x \<mapsto> score_key sc)"
    using z(1,2) by (auto simp: distinct_update update_conv')
  note upd = upd_filter [OF z(3,4), where x = x]
  note pay = zset_payload_upd [OF zset_is_finite [OF assms], of x "score_key sc"]
  show ?thesis
  proof (cases "map_of (sk_members s) x")
    case None
    then have "m x = None" using mx by simp
    then have "x \<notin> snd ` set ?bs" using members_dom [OF z(4)] by (simp add: domIff)
    then show ?thesis using None upd ms z(5) pay \<open>m x = None\<close>
      by (simp add: sk_insert_def filter_fresh domIff)
  next
    case (Some old)
    then have mo: "m x = Some (score_key old)" using mx by simp
    have same: "m(x \<mapsto> score_key sc) = m" if "score_key old = score_key sc"
      using that mo by auto
    have ne: "ordered_float_lt old sc \<or> ordered_float_lt sc old \<longleftrightarrow> score_key old \<noteq> score_key sc"
      by (auto simp: ordered_float_lt_def)
    show ?thesis
      using Some mo upd ms z same pay bt_remove_member [OF z(3,4) mo]
      by (cases "score_key old = score_key sc") (simp_all add: sk_insert_def ne Let_def domIff)
  qed
qed

lemma sk_remove_is:
  assumes "zset_is (ZSetSkiplist s) m"
  shows "\<exists>r s'. sk_remove ordered_float_lt s x = (r, s') \<and> map_option score_key r = m x
    \<and> zset_is (ZSetSkiplist s') (m(x := None))"
proof -
  have z: "distinct (map fst (sk_members s))" "(\<lambda>x. map_option score_key (map_of (sk_members s) x)) = m"
    "zsorted (sk_by_score s)" "zk ` set (sk_by_score s) = zgraph m" "sk_bytes s = zset_payload m"
    using assms by auto
  have mx: "map_option score_key (map_of (sk_members s) x) = m x" using z(2) by (rule fun_cong)
  have ms: "distinct (map fst (AList.delete x (sk_members s)))"
    "(\<lambda>y. map_option score_key (map_of (AList.delete x (sk_members s)) y)) = m(x := None)"
    using z(1,2) by (auto simp: distinct_delete delete_conv')
  show ?thesis
  proof (cases "map_of (sk_members s) x")
    case None
    then have "m x = None" "m(x := None) = m" using mx by auto
    then show ?thesis using None assms by (simp add: sk_remove_def)
  next
    case (Some old)
    then have mo: "m x = Some (score_key old)" using mx by simp
    then have "zset_payload (m(x := None)) = zset_payload m - length x"
      using zset_payload_del [OF zset_is_finite [OF assms], of x] by (simp add: domIff)
    then show ?thesis using Some mo ms z upd_filter(3,4) [OF z(3,4), where x = x] bt_remove_member [OF z(3,4) mo]
      by (simp add: sk_remove_def)
  qed
qed

lemma map_of_swap:
  "distinct (map snd ps) \<Longrightarrow> map_of (map prod.swap ps) x = Some s \<longleftrightarrow> (s, x) \<in> set ps"
proof -
  assume "distinct (map snd ps)"
  then have "distinct (map fst (map prod.swap ps))" by (simp add: comp_def)
  then have "map_of (map prod.swap ps) x = Some s \<longleftrightarrow> (x, s) \<in> set (map prod.swap ps)" by simp
  also have "\<dots> \<longleftrightarrow> (s, x) \<in> set ps" by force
  finally show ?thesis .
qed

lemma score_map_of:
  assumes "zsorted ps" and "zk ` set ps = zgraph m"
  shows "map_option score_key (map_of (map prod.swap ps) x) = m x"
proof -
  note mo = map_of_swap [OF members_distinct [OF assms], of x]
  have "map_option score_key (map_of (map prod.swap ps) x) = Some k \<longleftrightarrow> m x = Some k" for k
    using member_key [OF assms(2), of x k] mo by auto
  then show ?thesis by (metis not_Some_eq)
qed

lemma find_map_of: "map_option snd (find (\<lambda>(m, s). m = x) ps) = map_of ps x"
  by (induction ps) auto

lemma zsetdata_score_is: "zset_is z m \<Longrightarrow> map_option score_key (zsetdata_score z x) = m x"
proof (cases z)
  case (ZSetCompact c)
  assume "zset_is z m"
  then obtain ps where ps: "c = cz_rep ps" "zsorted ps" "zk ` set ps = zgraph m" "\<forall>x \<in> dom m. fits x"
    using ZSetCompact by auto
  then have "\<forall>x \<in> snd ` set ps. fits x" using members_dom [OF ps(3)] by simp
  then show ?thesis using score_map_of [OF ps(2,3)] ps(1)
    by (simp add: ZSetCompact cz_score_def cz_iter_rep find_map_of)
qed (auto simp: sk_score_def)

lemma fold_sk_insert:
  "zset_is (ZSetSkiplist s) m \<Longrightarrow>
     zset_is (ZSetSkiplist (fold (\<lambda>(x, t) sk. snd (sk_insert ordered_float_lt sk x t)) qs s))
       (fold (\<lambda>(x, t) m. m(x \<mapsto> score_key t)) qs m)"
proof (induction qs arbitrary: s m)
  case (Cons q qs)
  obtain x t where q: "q = (x, t)" by force
  from sk_insert_is [OF Cons.prems, of x t] obtain s' where
    "sk_insert ordered_float_lt s x t = (m x = None, s')"
    "zset_is (ZSetSkiplist s') (m(x \<mapsto> score_key t))" by blast
  with Cons.IH [of s' "m(x \<mapsto> score_key t)"] show ?case
    by (simp add: q del: zset_is.simps fun_upd_apply)
qed simp

lemma fold_map_upd:
  "distinct (map fst qs) \<Longrightarrow>
     fold (\<lambda>(x, t) m. m(x \<mapsto> score_key t)) qs m0 x =
       (case map_of qs x of None \<Rightarrow> m0 x | Some t \<Rightarrow> Some (score_key t))"
proof (induction qs arbitrary: m0)
  case (Cons q qs)
  then have "map_of qs (fst q) = None" by (simp add: map_of_eq_None_iff)
  then show ?case using Cons by (cases q) (auto split: option.split)
qed simp

lemma sk_empty_is: "zset_is (ZSetSkiplist sk_new) Map.empty"
  by (auto simp: sk_new_def zset_payload_def zgraph_def)

lemma ensure_skiplist_is:
  assumes "zset_is z m"
  shows "zset_is (ZSetSkiplist (zsetdata_ensure_skiplist ordered_float_lt z)) m"
proof (cases z)
  case (ZSetCompact c)
  then obtain ps where ps: "c = cz_rep ps" "zsorted ps" "zk ` set ps = zgraph m" "\<forall>x \<in> dom m. fits x"
    using assms by auto
  have it: "cz_iter_pairs c = map prod.swap ps"
    using ps(1,4) members_dom [OF ps(3)] by (simp add: cz_iter_rep)
  have d: "distinct (map fst (map prod.swap ps))"
    using members_distinct [OF ps(2,3)] by (simp add: comp_def)
  have "fold (\<lambda>(x, t) m. m(x \<mapsto> score_key t)) (map prod.swap ps) Map.empty = m"
  proof (rule ext)
    fix x
    show "fold (\<lambda>(x, t) m. m(x \<mapsto> score_key t)) (map prod.swap ps) Map.empty x = m x"
      unfolding fold_map_upd [OF d] using score_map_of [OF ps(2,3), of x]
      by (cases "map_of (map prod.swap ps) x") simp_all
  qed
  then have "zset_is (ZSetSkiplist (fold (\<lambda>(x, t) sk. snd (sk_insert ordered_float_lt sk x t))
      (map prod.swap ps) sk_new)) m"
    using fold_sk_insert [OF sk_empty_is, of "map prod.swap ps"] by simp
  then show ?thesis using members_payload [OF ps(2,3)]
    by (simp add: ZSetCompact it [unfolded ps(1)] sk_with_capacity_def sk_new_def ps(1))
qed (use assms in simp)

lemma sum_members_dom:
  "distinct (map fst ms) \<Longrightarrow> (\<lambda>x. map_option score_key (map_of ms x)) = m \<Longrightarrow> fst ` set ms = dom m"
  by (auto simp: dom_map_of_conv_image_fst [symmetric] dom_def)

lemma maybe_demote_is:
  assumes "zset_is z m" and "zset_thr_ok thr"
  shows "zset_is (zsetdata_maybe_demote thr z) m"
proof (cases z)
  case (ZSetSkiplist s)
  then have z: "distinct (map fst (sk_members s))" "(\<lambda>x. map_option score_key (map_of (sk_members s) x)) = m"
    "zsorted (sk_by_score s)" "zk ` set (sk_by_score s) = zgraph m" using assms by auto
  have "\<forall>x \<in> dom m. fits x" if "\<not> list_ex (\<lambda>(x, _). length x > zt_max_value thr) (sk_members s)"
  proof -
    have "\<forall>x \<in> fst ` set (sk_members s). fits x"
      using that assms(2) by (auto simp: list_ex_iff fits_def zset_thr_ok_def not_less)
    then show ?thesis using sum_members_dom [OF z(1,2)] by simp
  qed
  then show ?thesis using assms(1) z(3,4) fold_cz_append [of "sk_by_score s" "[]"]
    by (auto simp: ZSetSkiplist cz_empty_rep)
qed (use assms in simp)

lemma zsetdata_insert_is:
  assumes "zset_is z m" and "zset_thr_ok thr"
  shows "\<exists>z'. zsetdata_insert ordered_float_lt thr z x s = Some (m x = None, z')
    \<and> zset_is z' (m(x \<mapsto> score_key s))"
proof -
  obtain s' where s': "sk_insert ordered_float_lt (zsetdata_ensure_skiplist ordered_float_lt z) x s = (m x = None, s')"
    "zset_is (ZSetSkiplist s') (m(x \<mapsto> score_key s))"
    using sk_insert_is [OF ensure_skiplist_is [OF assms(1)], of x s] by blast
  have wrap: "sk_insert_wrapped ordered_float_lt (zsetdata_ensure_skiplist ordered_float_lt z) x s
      = (m x = None, ZSetSkiplist s')" by (simp add: sk_insert_wrapped_def s'(1))
  show ?thesis
  proof (cases z)
    case (ZSetSkiplist t)
    then show ?thesis using wrap s'(2) by (auto simp del: zset_is.simps)
  next
    case (ZSetCompact c)
    then obtain ps where ps: "c = cz_rep ps" "zsorted ps" "zk ` set ps = zgraph m" "\<forall>x \<in> dom m. fits x"
      using assms by auto
    have fit: "\<forall>y \<in> snd ` set ps. fits y" using ps(4) members_dom [OF ps(3)] by simp
    have comp: "\<exists>c'. cz_insert ordered_float_lt c x s = Some (m x = None, c')
        \<and> zset_is (ZSetCompact c') (m(x \<mapsto> score_key s))" if "length x \<le> zt_max_value thr"
    proof -
      have fx: "\<forall>y \<in> dom (m(x \<mapsto> score_key s)). fits y"
        using ps(4) that assms(2) by (auto simp: fits_def zset_thr_ok_def)
      note upd = upd_filter(1,2) [OF ps(2,3), of s x]
      show ?thesis
      proof (cases "m x")
        case None
        then have "x \<notin> snd ` set ps" using members_dom [OF ps(3)] by (simp add: domIff)
        then show ?thesis using cz_insert_new [OF ps(2) fit] None upd fx
          by (auto simp: ps(1) filter_fresh)
      next
        case (Some k)
        then obtain t where t: "(t, x) \<in> set ps" "score_key t = k"
          using member_key [OF ps(3)] by auto
        have "m(x \<mapsto> score_key s) = m" if "score_key t = score_key s" using that Some t by auto
        then show ?thesis using cz_insert_existing [OF ps(2) fit members_distinct [OF ps(2,3)] t(1)]
            Some upd fx ps
          by (cases "score_key t = score_key s") auto
      qed
    qed
    show ?thesis
      using comp wrap s'(2) by (auto simp: ZSetCompact not_less Let_def simp del: zset_is.simps
          zsetdata_ensure_skiplist.simps zsetdata_score.simps)
  qed
qed

lemma zsetdata_remove_is:
  assumes "zset_is z m" and "zset_thr_ok thr"
  shows "\<exists>r z'. zsetdata_remove ordered_float_lt thr z x = Some (r, z')
    \<and> map_option score_key r = m x \<and> zset_is z' (m(x := None))"
proof -
  have "\<exists>r z'. (case z of
         ZSetCompact c \<Rightarrow> map_option (\<lambda>(r, c'). (r, ZSetCompact c')) (cz_remove c x)
       | ZSetSkiplist s \<Rightarrow> (case sk_remove ordered_float_lt s x of (r, s') \<Rightarrow> Some (r, ZSetSkiplist s')))
      = Some (r, z') \<and> map_option score_key r = m x \<and> zset_is z' (m(x := None))"
  proof (cases z)
    case (ZSetSkiplist s)
    then show ?thesis using sk_remove_is [of s m x] assms(1) by (auto simp del: zset_is.simps)
  next
    case (ZSetCompact c)
    then obtain ps where ps: "c = cz_rep ps" "zsorted ps" "zk ` set ps = zgraph m" "\<forall>x \<in> dom m. fits x"
      using assms by auto
    have fit: "\<forall>y \<in> snd ` set ps. fits y" using ps(4) members_dom [OF ps(3)] by simp
    note rem = cz_remove_rep [OF fit members_distinct [OF ps(2,3)], where x = x]
    show ?thesis
    proof (cases "m x")
      case None
      then have "x \<notin> snd ` set ps" "m(x := None) = m" using members_dom [OF ps(3)] by (auto simp: domIff)
      then show ?thesis using rem(2) None ps assms(1) by (simp add: ZSetCompact)
    next
      case (Some k)
      then obtain t where t: "(t, x) \<in> set ps" "score_key t = k"
        using member_key [OF ps(3)] by auto
      let ?qs = "filter (\<lambda>p. snd p \<noteq> x) ps"
      have "zset_is (ZSetCompact (cz_rep ?qs)) (m(x := None))"
        unfolding zset_is.simps using upd_filter(3,4) [OF ps(2,3), of x] ps(4)
        by (intro exI [of _ ?qs]) simp
      then show ?thesis using rem(1) [OF t(1)] t(2) Some
        by (simp add: ZSetCompact ps(1) del: zset_is.simps)
    qed
  qed
  then show ?thesis using maybe_demote_is [OF _ assms(2)]
    unfolding zsetdata_remove_def by (force simp del: zset_is.simps)
qed

subsection \<open>Ordered replies\<close>

text \<open>The key of a (member, score) entry as the replies list them.\<close>

definition ek :: "bytes \<times> f64 \<Rightarrow> int \<times> bytes" where
  "ek e = (score_key (snd e), fst e)"

lemma ek_swap: "ek (prod.swap p) = zk p"
  by (simp add: ek_def zk_def)

lemma sorted_entries:
  assumes "zset_is z m"
  obtains ps where "zsetdata_to_pairs_sorted z = map prod.swap ps" and "zsorted ps"
    and "zk ` set ps = zgraph m" and "length ps = zsetdata_len z"
proof (cases z)
  case (ZSetCompact c)
  then obtain ps where ps: "c = cz_rep ps" "zsorted ps" "zk ` set ps = zgraph m" "\<forall>x \<in> dom m. fits x"
    using assms by auto
  then have "cz_iter_pairs c = map prod.swap ps"
    using members_dom [OF ps(3)] by (simp add: cz_iter_rep)
  then show ?thesis using that [of ps] ps by (simp add: ZSetCompact)
next
  case (ZSetSkiplist s)
  then have z: "distinct (map fst (sk_members s))" "(\<lambda>x. map_option score_key (map_of (sk_members s) x)) = m"
    "zsorted (sk_by_score s)" "zk ` set (sk_by_score s) = zgraph m" using assms by auto
  have "length (sk_members s) = card (dom m)"
    using distinct_card [OF z(1)] sum_members_dom [OF z(1,2)] by simp
  then have "length (sk_by_score s) = zsetdata_len z"
    using members_card(1) [OF z(3,4)] by (simp add: ZSetSkiplist)
  then show ?thesis using that [of "sk_by_score s"] z(3,4) by (simp add: ZSetSkiplist prod.swap_def case_prod_unfold)
qed

lemma to_pairs_sorted_is: "zset_is z m \<Longrightarrow> map ek (zsetdata_to_pairs_sorted z) = zranked m"
  by (erule sorted_entries) (simp add: comp_def ek_swap zranked_list)

lemma zsetdata_len_is: "zset_is z m \<Longrightarrow> zsetdata_len z = card (dom m)"
  by (erule sorted_entries) (simp add: members_card(1))

lemma zsetdata_payload_is: "zset_is z m \<Longrightarrow> zsetdata_payload_bytes z = zset_payload m"
  by (cases z) (auto simp: members_payload sk_payload_bytes_def)

lemma zranked_props:
  assumes "zset_is z m"
  shows "set (zranked m) = zgraph m" and "length (zranked m) = card (dom m)"
    and "sorted_wrt (<) (zranked m)"
proof -
  obtain ps where ps: "zsorted ps" "zk ` set ps = zgraph m" using sorted_entries [OF assms] by metis
  have "map zk ps = zranked m" by (rule zranked_list [OF ps])
  then show "set (zranked m) = zgraph m" "length (zranked m) = card (dom m)" "sorted_wrt (<) (zranked m)"
    using ps members_card(1) [OF ps] by (auto simp: zsorted_def dest: arg_cong [of _ _ length] arg_cong [of _ _ set])
qed

lemma position_split:
  "\<forall>x \<in> set xs. \<not> P x \<Longrightarrow> P y \<Longrightarrow> position_of P (xs @ y # ys) = Some (length xs)"
  by (induction xs) auto

lemma position_none: "position_of P xs = None \<longleftrightarrow> (\<forall>x \<in> set xs. \<not> P x)"
  by (induction xs) auto

text \<open>In a strictly sorted list the number of smaller entries is the position.\<close>

lemma sorted_position:
  fixes y :: "'a :: linorder"
  assumes "sorted_wrt (<) (xs @ y # ys)"
  shows "{z \<in> set (xs @ y # ys). z < y} = set xs" and "{z \<in> set (xs @ y # ys). z > y} = set ys"
    and "card (set xs) = length xs" and "card (set ys) = length ys"
proof -
  have a: "\<forall>x \<in> set xs. x < y" "\<forall>x \<in> set ys. y < x" using assms by (auto simp: sorted_wrt_append)
  then show "{z \<in> set (xs @ y # ys). z < y} = set xs" "{z \<in> set (xs @ y # ys). z > y} = set ys"
    by (auto dest: less_asym)
  have "distinct (xs @ y # ys)" using assms by (simp add: strict_sorted_iff del: distinct_append)
  then show "card (set xs) = length xs" "card (set ys) = length ys" by (simp_all add: distinct_card)
qed

lemma zsetdata_rank_is:
  assumes "zset_is z m" and "m x = Some k" and "k \<noteq> 2 ^ 63"
  shows "zsetdata_rank z x False = Some (Some (card {p \<in> zgraph m. p < (k, x)}))"
    and "zsetdata_rank z x True = Some (Some (card {p \<in> zgraph m. p > (k, x)}))"
proof -
  obtain ps where ps: "zsetdata_to_pairs_sorted z = map prod.swap ps" "zsorted ps"
    "zk ` set ps = zgraph m" "length ps = zsetdata_len z" by (rule sorted_entries [OF assms(1)])
  obtain sc where sc: "zsetdata_score z x = Some sc" "score_key sc = k"
    using zsetdata_score_is [OF assms(1), of x] assms(2) by auto
  obtain t where t: "(t, x) \<in> set ps" "score_key t = k" using member_key [OF ps(3)] assms(2) by auto
  obtain ps1 ps2 where sp: "ps = ps1 @ (t, x) # ps2" using split_list [OF t(1)] by blast
  have "x \<notin> snd ` set ps1" using members_distinct [OF ps(2,3)] by (auto simp: sp)
  then have no: "\<forall>e \<in> set (map prod.swap ps1). \<not> (\<lambda>(y, s). f64_eq s sc \<and> y = x) e" by force
  have "f64_eq t sc" using f64_eq_key [of t sc] t(2) sc(2) assms(3) by (auto simp: score_key_def split: if_splits)
  then have pos: "position_of (\<lambda>(y, s). f64_eq s sc \<and> y = x) (map prod.swap ps) = Some (length ps1)"
    unfolding sp using position_split [OF no, of "(x, t)" "map prod.swap ps2"] by simp
  have srt: "sorted_wrt (<) (map zk ps1 @ (k, x) # map zk ps2)"
    using ps(2) t(2) by (simp add: zsorted_def sp zk_def)
  have gr: "zgraph m = set (map zk ps1 @ (k, x) # map zk ps2)"
    using t(2) by (simp add: ps(3) [symmetric] sp zk_def image_Un)
  have c: "card {p \<in> zgraph m. p < (k, x)} = length ps1" "card {p \<in> zgraph m. p > (k, x)} = length ps2"
    using sorted_position [OF srt] unfolding gr by (simp_all only: length_map)
  have n: "zsetdata_len z = length ps1 + Suc (length ps2)" using ps(4) by (simp add: sp)
  show "zsetdata_rank z x False = Some (Some (card {p \<in> zgraph m. p < (k, x)}))"
    "zsetdata_rank z x True = Some (Some (card {p \<in> zgraph m. p > (k, x)}))"
    unfolding zsetdata_rank_def sc(1) option.case ps(1) pos c Let_def by (simp_all add: n usub_def)
qed

lemma zsetdata_rank_missing: "zset_is z m \<Longrightarrow> m x = None \<Longrightarrow> zsetdata_rank z x rv = Some None"
  using zsetdata_score_is [of z m x] by (simp add: zsetdata_rank_def)

lemma zsetdata_rank_nan:
  assumes "zset_is z m" and "m x = Some (2 ^ 63)"
  shows "zsetdata_rank z x rv = Some None"
proof -
  obtain sc where sc: "zsetdata_score z x = Some sc" "score_key sc = 2 ^ 63"
    using zsetdata_score_is [OF assms(1), of x] assms(2) by auto
  then have "f64_is_nan sc" using f64_ord_bound [of sc] by (auto simp: score_key_def split: if_splits)
  then have "position_of (\<lambda>(y, s). f64_eq s sc \<and> y = x) es = None" for es
    by (auto simp: position_none f64_eq_def)
  then show ?thesis by (simp add: zsetdata_rank_def sc(1))
qed

lemma fold_last: "fold (\<lambda>(m, s) _. Some (s, m)) es a = (if es = [] then a else Some (prod.swap (last es)))"
  by (induction es arbitrary: a) auto

lemma zsetdata_pop_is:
  assumes "zset_is z m" and "zset_thr_ok thr"
  shows "\<exists>r z'. zsetdata_pop_extreme ordered_float_lt thr z mx = Some (r, z')
    \<and> (if zranked m = [] then r = None \<and> z' = z
       else let (k, x) = (if mx then last (zranked m) else hd (zranked m)) in
         (\<exists>s. r = Some (s, x) \<and> score_key s = k) \<and> m x = Some k \<and> zset_is z' (m(x := None)))"
proof -
  let ?es = "zsetdata_to_pairs_sorted z"
  note keys = to_pairs_sorted_is [OF assms(1)]
  have empty: "zranked m = [] \<longleftrightarrow> ?es = []" using keys by (metis map_is_Nil_conv)
  let ?e = "if mx then last ?es else hd ?es"
  have ext: "(if mx then zsetdata_last z else zsetdata_first z) = (if ?es = [] then None else Some (prod.swap ?e))"
    by (auto simp: zsetdata_last_def zsetdata_first_def fold_last split: list.split)
  show ?thesis
  proof (cases "?es = []")
    case True
    then show ?thesis using ext empty by (simp add: zsetdata_pop_extreme_def)
  next
    case False
    obtain x s where e: "?e = (x, s)" by force
    have key: "(if mx then last (zranked m) else hd (zranked m)) = (score_key s, x)"
    proof -
      have "(if mx then last (zranked m) else hd (zranked m)) = ek ?e"
        unfolding keys [symmetric] using False by (simp add: last_map hd_map)
      then show ?thesis by (simp only: e ek_def fst_conv snd_conv)
    qed
    have "(if mx then last (zranked m) else hd (zranked m)) \<in> set (zranked m)"
      using False empty by simp
    then have mx: "m x = Some (score_key s)"
      unfolding key zranked_props(1) [OF assms(1)] by (simp add: zgraph_def)
    obtain r z' where r: "zsetdata_remove ordered_float_lt thr z x = Some (r, z')"
      "map_option score_key r = m x" "zset_is z' (m(x := None))"
      using zsetdata_remove_is [OF assms, of x] by blast
    have "zsetdata_pop_extreme ordered_float_lt thr z mx = Some (Some (s, x), z')"
      unfolding zsetdata_pop_extreme_def ext e using False r(1,2) mx by auto
    then show ?thesis using False empty r(3) mx unfolding key by (simp del: zset_is.simps)
  qed
qed

lemma zsetdata_range_by_rank_is:
  assumes "zset_is z m"
  shows "\<exists>es. zsetdata_range_by_rank z a b rv = Some es \<and> map ek es =
    (let n = int (card (dom m)); i = normalize_index a n; j = normalize_index b n;
         L = (if rv then rev (zranked m) else zranked m) in take (Suc j - i) (drop i L))"
proof -
  let ?n = "int (card (dom m))"
  let ?L = "if rv then rev (zranked m) else zranked m"
  let ?es = "if rv then rev (zsetdata_to_pairs_sorted z) else zsetdata_to_pairs_sorted z"
  let ?i = "normalize_index a ?n" and ?j = "normalize_index b ?n"
  have L: "map ek ?es = ?L" using to_pairs_sorted_is [OF assms] by (simp flip: rev_map)
  have n: "length ?es = card (dom m)" "length ?L = card (dom m)"
    using arg_cong [OF L, of length] zranked_props(2) [OF assms] by simp_all
  have "\<exists>es. (if min ?i (card (dom m)) \<ge> length ?es \<or> min ?i (card (dom m)) > ?j then Some []
      else subslice ?es (min ?i (card (dom m))) (min ?j (length ?es - 1) + 1)) = Some es
      \<and> map ek es = take (Suc ?j - ?i) (drop ?i ?L)"
  proof (cases "?i \<ge> card (dom m) \<or> ?i > ?j")
    case True
    then have "take (Suc ?j - ?i) (drop ?i ?L) = []" using n(2) by auto
    then show ?thesis using True n(1) by auto
  next
    case False
    then have "subslice ?es ?i (min ?j (length ?es - 1) + 1) = Some (take (Suc ?j - ?i) (drop ?i ?es))"
      using n(1) by (auto simp: subslice_def min_def)
    moreover have "map ek (take (Suc ?j - ?i) (drop ?i ?es)) = take (Suc ?j - ?i) (drop ?i ?L)"
      unfolding L [symmetric] by (simp only: take_map drop_map)
    ultimately show ?thesis using False n(1) by (simp add: min_def)
  qed
  then show ?thesis
    unfolding zsetdata_range_by_rank_def zsetdata_len_is [OF assms] Let_def nat_int by blast
qed

lemma map_page:
  "map f (case cnt of None \<Rightarrow> drop off (if rv then rev es else es)
          | Some n \<Rightarrow> take n (drop off (if rv then rev es else es))) =
   (case cnt of None \<Rightarrow> drop off (if rv then rev (map f es) else map f es)
    | Some n \<Rightarrow> take n (drop off (if rv then rev (map f es) else map f es)))"
  by (cases cnt) (simp_all add: take_map drop_map rev_map)

lemma zsetdata_range_by_score_is:
  assumes "zset_is z m" and "\<not> f64_is_nan mn" and "\<not> f64_is_nan mx"
  shows "map ek (zsetdata_range_by_score z mn lx mx hx rv off cnt) =
    (let L = filter (\<lambda>(k, x). k < 2 ^ 63 \<and> (if lx then score_key mn < k else score_key mn \<le> k)
                       \<and> (if hx then k < score_key mx else k \<le> score_key mx)) (zranked m);
         L = drop off (if rv then rev L else L) in
     case cnt of None \<Rightarrow> L | Some n \<Rightarrow> take n L)"
proof -
  let ?P = "\<lambda>(_, s). (if lx then f64_less mn s else f64_le mn s) \<and> (if hx then f64_less s mx else f64_le s mx)"
  let ?Q = "\<lambda>(k, x). k < 2 ^ 63 \<and> (if lx then score_key mn < k else score_key mn \<le> k)
                       \<and> (if hx then k < score_key mx else k \<le> score_key mx)"
  have PQ: "?P e = ?Q (ek e)" for e
    using f64_ord_bound [of "snd e"] assms(2,3)
    by (cases e) (auto simp: ek_def score_key_def f64_less_def f64_le_def)
  have "map ek (filter ?P es) = filter ?Q (map ek es)" for es
    unfolding filter_map comp_def PQ ..
  then have L: "map ek (filter ?P (zsetdata_to_pairs_sorted z)) = filter ?Q (zranked m)"
    unfolding to_pairs_sorted_is [OF assms(1), symmetric] .
  show ?thesis unfolding zsetdata_range_by_score_def Let_def map_page L ..
qed

subsection \<open>Building from pairs, and lexicographic ranges\<close>

definition zset_order :: "((bytes \<times> f64) list \<Rightarrow> (bytes \<times> f64) list) \<Rightarrow> bool" where
  "zset_order ord \<longleftrightarrow> (\<forall>ps. mset (ord ps) = mset ps)"

lemma zset_order_props:
  assumes "zset_order ord" and "distinct (map fst ps)"
  shows "distinct (map fst (ord ps))" and "map_of (ord ps) = map_of ps" and "set (ord ps) = set ps"
proof -
  have m: "mset (ord ps) = mset ps" using assms(1) by (simp add: zset_order_def)
  then have mf: "mset (map fst (ord ps)) = mset (map fst ps)" by simp
  show d: "distinct (map fst (ord ps))" using assms(2) mset_eq_imp_distinct_iff [OF mf] by simp
  show st: "set (ord ps) = set ps" using m by (rule mset_eq_setD)
  show "map_of (ord ps) = map_of ps" using d assms(2) st by (simp add: map_of_inject_set)
qed

lemma fold_update_props:
  "distinct (map fst acc) \<Longrightarrow>
     distinct (map fst (fold (\<lambda>(x, s) acc. AList.update x s acc) ps acc))
     \<and> (\<lambda>y. map_option score_key (map_of (fold (\<lambda>(x, s) acc. AList.update x s acc) ps acc) y))
         = fold (\<lambda>(x, s) m. m(x \<mapsto> score_key s)) ps (\<lambda>y. map_option score_key (map_of acc y))"
proof (induction ps arbitrary: acc)
  case (Cons p ps)
  obtain x s where p: "p = (x, s)" by force
  have "distinct (map fst (AList.update x s acc))" using Cons.prems by (rule distinct_update)
  moreover have "(\<lambda>y. map_option score_key (map_of (AList.update x s acc) y))
      = (\<lambda>y. map_option score_key (map_of acc y))(x \<mapsto> score_key s)" by (auto simp: update_conv')
  ultimately show ?case using Cons.IH [of "AList.update x s acc"] by (simp add: p del: fun_upd_apply)
qed simp

lemma fold_bt_insert:
  "zsorted acc \<Longrightarrow> distinct (map snd (acc @ ps)) \<Longrightarrow>
     zsorted (fold (bt_insert ordered_float_lt) ps acc)
     \<and> set (fold (bt_insert ordered_float_lt) ps acc) = set acc \<union> set ps
     \<and> length (fold (bt_insert ordered_float_lt) ps acc) = length acc + length ps"
proof (induction ps arbitrary: acc)
  case (Cons p ps)
  let ?acc = "bt_insert ordered_float_lt p acc"
  have "snd p \<notin> snd ` set acc" using Cons.prems(2) by auto
  then have fresh: "zk p \<notin> zk ` set acc" by (auto simp: zk_def)
  have srt: "zsorted ?acc" by (rule bt_insert_sorted [OF Cons.prems(1) fresh])
  have "mset ?acc = add_mset p (mset acc)"
    using bt_insert_split [OF Cons.prems(1) fresh]
      mset_append [of "takeWhile (\<lambda>q. \<not> zk p < zk q) acc" "dropWhile (\<lambda>q. \<not> zk p < zk q) acc"]
    by (simp only: takeWhile_dropWhile_id mset_append mset.simps union_mset_add_mset_right)
  then have m: "mset (map snd (?acc @ ps)) = mset (map snd (acc @ p # ps))" "length ?acc = Suc (length acc)"
    using size_mset [of ?acc] by simp_all
  have "distinct (map snd (?acc @ ps))" using mset_eq_imp_distinct_iff [OF m(1)] Cons.prems(2) by blast
  from Cons.IH [OF srt this] show ?case unfolding fold_simps bt_insert_set [OF fresh] m(2) by auto
qed simp

lemma members_fit_z_values:
  "members_fit_z max_value max_size tot ms \<Longrightarrow> \<forall>x \<in> set ms. length x \<le> max_value"
  by (induction ms arbitrary: tot) (auto split: if_splits)

lemma zsetdata_from_pairs_is:
  assumes "zset_order ord" and "zset_thr_ok thr"
  shows "zset_is (zsetdata_from_pairs ordered_float_lt ord thr ps)
    (fold (\<lambda>(x, s) m. m(x \<mapsto> score_key s)) ps Map.empty)"
proof -
  let ?u = "fold (\<lambda>(x, s) acc. AList.update x s acc) ps []"
  let ?m = "fold (\<lambda>(x, s) m. m(x \<mapsto> score_key s)) ps Map.empty"
  have u: "distinct (map fst ?u)" "(\<lambda>y. map_option score_key (map_of ?u y)) = ?m"
    using fold_update_props [of "[]" ps] by simp_all
  define e where "e = ord ?u"
  have e: "distinct (map fst e)" "(\<lambda>y. map_option score_key (map_of e y)) = ?m"
    using zset_order_props [OF assms(1) u(1)] u(2) by (simp_all add: e_def)
  have "fold (\<lambda>(x, t) m. m(x \<mapsto> score_key t)) e Map.empty = ?m"
    unfolding e(2) [symmetric] using fold_map_upd [OF e(1)] by (auto simp: fun_eq_iff split: option.split)
  then have sk: "zset_is (ZSetSkiplist (fold (\<lambda>(x, t) sk. snd (sk_insert ordered_float_lt sk x t)) e sk_new)) ?m"
    using fold_sk_insert [OF sk_empty_is, of e] by simp
  let ?qs = "sort_score_member ordered_float_lt (map prod.swap e)"
  have "distinct (map snd (map prod.swap e))" using e(1) by (simp add: comp_def)
  then have qs: "zsorted ?qs" "set ?qs = prod.swap ` set e"
    using fold_bt_insert [of "[]" "map prod.swap e"] by (simp_all add: sort_score_member_def)
  have "zk ` set ?qs = zgraph ?m"
  proof -
    have "zgraph ?m = {(k, x). \<exists>s. (x, s) \<in> set e \<and> score_key s = k}"
      unfolding e(2) [symmetric] zgraph_def using e(1) by (auto simp: map_of_eq_Some_iff)
    then show ?thesis unfolding qs(2) by (force simp: zk_def)
  qed
  moreover have "\<forall>x \<in> dom ?m. fits x"
    if "members_fit_z (zt_max_value thr) (zt_max_size thr) 0 (map fst e)"
  proof -
    have "\<forall>x \<in> fst ` set e. fits x"
      using members_fit_z_values [OF that] assms(2) by (auto simp: fits_def zset_thr_ok_def)
    then show ?thesis using sum_members_dom [OF e] by simp
  qed
  ultimately have cz: "zset_is (ZSetCompact (cz_rep ?qs)) ?m"
    if "members_fit_z (zt_max_value thr) (zt_max_size thr) 0 (map fst e)"
    using that qs(1) by auto
  have sw: "map (\<lambda>(x, s). (s, x)) e = map prod.swap e" by (simp add: prod.swap_def case_prod_unfold)
  show ?thesis
    unfolding zsetdata_from_pairs_def e_def [symmetric] Let_def sw cz_empty_rep
    using sk cz fold_cz_append [of ?qs "[]"] by (simp del: zset_is.simps)
qed

lemma zsetdata_member_keys_is:
  assumes "zset_is z m" and "zset_order ord"
  shows "distinct (zsetdata_member_keys ord z)" and "set (zsetdata_member_keys ord z) = dom m"
proof -
  have "distinct (zsetdata_member_keys ord z) \<and> set (zsetdata_member_keys ord z) = dom m"
  proof (cases z)
    case (ZSetCompact c)
    then obtain ps where ps: "c = cz_rep ps" "zsorted ps" "zk ` set ps = zgraph m" "\<forall>x \<in> dom m. fits x"
      using assms by auto
    then have "cz_iter_pairs c = map prod.swap ps" using members_dom [OF ps(3)] by (simp add: cz_iter_rep)
    then show ?thesis using members_dom [OF ps(3)] members_distinct [OF ps(2,3)]
      by (simp add: ZSetCompact zsetdata_member_keys_def comp_def)
  next
    case (ZSetSkiplist s)
    then have z: "distinct (map fst (sk_members s))"
      "(\<lambda>x. map_option score_key (map_of (sk_members s) x)) = m" using assms by auto
    then show ?thesis using zset_order_props [OF assms(2) z(1)] sum_members_dom [OF z]
      by (simp add: ZSetSkiplist zsetdata_member_keys_def)
  qed
  then show "distinct (zsetdata_member_keys ord z)" "set (zsetdata_member_keys ord z) = dom m" by auto
qed

lemma zsetdata_range_by_lex_is:
  assumes "zset_is z m" and "zset_order ord"
  shows "zsetdata_range_by_lex_members ord z lo lx hi hx =
    filter (\<lambda>y. (case lo of None \<Rightarrow> True | Some b \<Rightarrow> if lx then y > b else y \<ge> b)
         \<and> (case hi of None \<Rightarrow> True | Some b \<Rightarrow> if hx then y < b else y \<le> b))
      (sorted_list_of_set (dom m))"
proof -
  note mk = zsetdata_member_keys_is [OF assms]
  have "sort (zsetdata_member_keys ord z) = sorted_list_of_set (dom m)"
    using sorted_list_of_set_sort_remdups [of "zsetdata_member_keys ord z"] mk
    by (simp add: distinct_remdups_id)
  then show ?thesis unfolding zsetdata_range_by_lex_members_def by (rule arg_cong)
qed

end
