(* ===== verification/Collections.thy ===== *)
theory Collections
  imports List_Data Set_Data Hash_Data ZSet_Data
begin

text \<open>
  Histories of the collection types. A history is a sequence of operations, each run with the
  encoding thresholds in force at that moment (\<^verbatim>\<open>CONFIG SET\<close> may change them between two
  operations). The theorems say that, whatever the history does to the encoding, every
  reply is the one a plain list, set or map gives, and no operation panics.
\<close>

section \<open>Lists\<close>

datatype list_op =
    PushFront bytes | PushBack bytes | PopFront | PopBack | SetAt nat bytes
  | InsertBefore bytes bytes | InsertAfter bytes bytes | Rem int bytes | Trim nat nat
  | Get nat | RangeBytes nat nat | Len | PayloadBytes

datatype list_out =
    Done | Elem "bytes option" | WasSet bool int | NewLen "nat option" | Removed nat int
  | Delta int | Elems "bytes list" | Count nat

fun list_exec :: "list_thresholds \<Rightarrow> list_op \<Rightarrow> list_data \<Rightarrow> (list_out \<times> list_data) option" where
  "list_exec thr (PushFront v) l = map_option (Pair Done) (listdata_push_front thr l v)"
| "list_exec thr (PushBack v) l = map_option (Pair Done) (listdata_push_back thr l v)"
| "list_exec thr PopFront l = map_option (map_prod Elem id) (listdata_pop_front thr l)"
| "list_exec thr PopBack l = map_option (map_prod Elem id) (listdata_pop_back thr l)"
| "list_exec thr (SetAt i v) l = map_option (map_prod (case_prod WasSet) id) (listdata_set l i v)"
| "list_exec thr (InsertBefore p v) l = map_option (map_prod NewLen id) (listdata_insert_before l p v)"
| "list_exec thr (InsertAfter p v) l = map_option (map_prod NewLen id) (listdata_insert_after l p v)"
| "list_exec thr (Rem n v) l = map_option (map_prod (case_prod Removed) id) (listdata_rem thr l n v)"
| "list_exec thr (Trim i j) l = map_option (map_prod Delta id) (listdata_trim thr l i j)"
| "list_exec thr (Get i) l = map_option (\<lambda>v. (Elem v, l)) (listdata_get l i)"
| "list_exec thr (RangeBytes i j) l = map_option (\<lambda>vs. (Elems vs, l)) (listdata_range_bytes l i j)"
| "list_exec thr Len l = Some (Count (listdata_len l), l)"
| "list_exec thr PayloadBytes l = Some (Count (listdata_payload_bytes l), l)"

text \<open>The meaning on plain lists. The first element equal to the pivot splits the list.\<close>

definition list_insert_spec :: "(bytes \<Rightarrow> bytes list) \<Rightarrow> bytes \<Rightarrow> bytes list \<Rightarrow> list_out \<times> bytes list" where
  "list_insert_spec new p vs =
     (if p \<in> set vs
      then (NewLen (Some (length vs + 1)),
            takeWhile (\<lambda>x. x \<noteq> p) vs @ new p @ tl (dropWhile (\<lambda>x. x \<noteq> p) vs))
      else (NewLen None, vs))"

fun list_spec :: "list_op \<Rightarrow> bytes list \<Rightarrow> list_out \<times> bytes list" where
  "list_spec (PushFront v) vs = (Done, v # vs)"
| "list_spec (PushBack v) vs = (Done, vs @ [v])"
| "list_spec PopFront vs = (Elem (case vs of [] \<Rightarrow> None | v # _ \<Rightarrow> Some v), tl vs)"
| "list_spec PopBack vs = (Elem (if vs = [] then None else Some (last vs)), butlast vs)"
| "list_spec (SetAt i v) vs =
     (if i < length vs then WasSet True (int (length v) - int (length (vs ! i))) else WasSet False 0,
      vs[i := v])"
| "list_spec (InsertBefore p v) vs = list_insert_spec (\<lambda>p. [v, p]) p vs"
| "list_spec (InsertAfter p v) vs = list_insert_spec (\<lambda>p. [p, v]) p vs"
| "list_spec (Rem n v) vs =
     (Removed (lrem_count n v vs) (int (payload (lrem_spec n v vs)) - int (payload vs)), lrem_spec n v vs)"
| "list_spec (Trim i j) vs =
     (let ws = take (Suc j - i) (drop i vs) in (Delta (int (payload ws) - int (payload vs)), ws))"
| "list_spec (Get i) vs = (Elem (if i < length vs then Some (vs ! i) else None), vs)"
| "list_spec (RangeBytes i j) vs = (Elems (take (Suc j - i) (drop i vs)), vs)"
| "list_spec Len vs = (Count (length vs), vs)"
| "list_spec PayloadBytes vs = (Count (payload vs), vs)"

section \<open>Runs\<close>

text \<open>A fallible step repeated over a history, and its total specification.\<close>

fun run_ops :: "('t \<Rightarrow> 'o \<Rightarrow> 's \<Rightarrow> ('r \<times> 's) option) \<Rightarrow> ('t \<times> 'o) list \<Rightarrow> 's \<Rightarrow> ('r list \<times> 's) option" where
  "run_ops exec [] s = Some ([], s)"
| "run_ops exec ((t, q) # qs) s = do {
     (r, s1) \<leftarrow> exec t q s;
     (rs, s2) \<leftarrow> run_ops exec qs s1;
     Some (r # rs, s2)
   }"

fun run_spec :: "('o \<Rightarrow> 'a \<Rightarrow> 'r \<times> 'a) \<Rightarrow> ('t \<times> 'o) list \<Rightarrow> 'a \<Rightarrow> 'r list \<times> 'a" where
  "run_spec spec [] a = ([], a)"
| "run_spec spec ((t, q) # qs) a =
     (let (r, a1) = spec q a; (rs, a2) = run_spec spec qs a1 in (r # rs, a2))"

locale refinement =
  fixes rel :: "'s \<Rightarrow> 'a \<Rightarrow> bool"
    and ok :: "'t \<Rightarrow> bool"
    and exec :: "'t \<Rightarrow> 'o \<Rightarrow> 's \<Rightarrow> ('r \<times> 's) option"
    and spec :: "'o \<Rightarrow> 'a \<Rightarrow> 'r \<times> 'a"
  assumes step_law: "rel s a \<Longrightarrow> ok t \<Longrightarrow>
      \<exists>s'. exec t q s = Some (fst (spec q a), s') \<and> rel s' (snd (spec q a))"
begin

lemma run_refines:
  "rel s a \<Longrightarrow> \<forall>(t, q) \<in> set qs. ok t \<Longrightarrow>
     \<exists>s'. run_ops exec qs s = Some (fst (run_spec spec qs a), s') \<and> rel s' (snd (run_spec spec qs a))"
proof (induction qs arbitrary: s a)
  case (Cons tq qs)
  obtain t q where tq: "tq = (t, q)" by force
  with Cons.prems have "ok t" by auto
  from step_law [OF Cons.prems(1) this, of q] obtain s1 where
    s1: "exec t q s = Some (fst (spec q a), s1)" "rel s1 (snd (spec q a))" by blast
  from Cons.IH [OF s1(2)] Cons.prems(2) obtain s2 where
    "run_ops exec qs s1 = Some (fst (run_spec spec qs (snd (spec q a))), s2)"
    "rel s2 (snd (run_spec spec qs (snd (spec q a))))" by auto
  with s1(1) show ?case by (auto simp: tq Let_def split: prod.split)
qed simp

end

lemma pivot_split:
  assumes "p \<in> set vs"
  obtains xs ys where "vs = xs @ p # ys" and "p \<notin> set xs"
    and "takeWhile (\<lambda>x. x \<noteq> p) vs = xs" and "dropWhile (\<lambda>x. x \<noteq> p) vs = p # ys"
proof -
  from split_list_first [OF assms] obtain xs ys where v: "vs = xs @ p # ys" "p \<notin> set xs" by blast
  then have "takeWhile (\<lambda>x. x \<noteq> p) vs = xs" "dropWhile (\<lambda>x. x \<noteq> p) vs = p # ys"
    by (auto simp: takeWhile_append dropWhile_append)
  then show ?thesis using v that by blast
qed

lemma list_insert_exec:
  assumes "listdata_rel lim l vs"
  shows "\<exists>l'. listdata_insert_before l p v = Some (if p \<in> set vs then Some (length vs + 1) else None, l')
      \<and> listdata_rel lim l' (snd (list_insert_spec (\<lambda>p. [v, p]) p vs))"
    and "\<exists>l'. listdata_insert_after l p v = Some (if p \<in> set vs then Some (length vs + 1) else None, l')
      \<and> listdata_rel lim l' (snd (list_insert_spec (\<lambda>p. [p, v]) p vs))"
proof -
  show "\<exists>l'. listdata_insert_before l p v = Some (if p \<in> set vs then Some (length vs + 1) else None, l')
      \<and> listdata_rel lim l' (snd (list_insert_spec (\<lambda>p. [v, p]) p vs))"
  proof (cases "p \<in> set vs")
    case True
    then obtain xs ys where v: "vs = xs @ p # ys" "p \<notin> set xs" "takeWhile (\<lambda>x. x \<noteq> p) vs = xs"
        "dropWhile (\<lambda>x. x \<noteq> p) vs = p # ys" by (rule pivot_split)
    then show ?thesis using listdata_insert_rel(1) [of lim l xs p ys v] assms
      by (simp add: list_insert_spec_def)
  next
    case False
    then show ?thesis using listdata_insert_missing(1) [OF assms False] by (simp add: list_insert_spec_def)
  qed
  show "\<exists>l'. listdata_insert_after l p v = Some (if p \<in> set vs then Some (length vs + 1) else None, l')
      \<and> listdata_rel lim l' (snd (list_insert_spec (\<lambda>p. [p, v]) p vs))"
  proof (cases "p \<in> set vs")
    case True
    then obtain xs ys where v: "vs = xs @ p # ys" "p \<notin> set xs" "takeWhile (\<lambda>x. x \<noteq> p) vs = xs"
        "dropWhile (\<lambda>x. x \<noteq> p) vs = p # ys" by (rule pivot_split)
    then show ?thesis using listdata_insert_rel(2) [of lim l xs p ys v] assms
      by (simp add: list_insert_spec_def)
  next
    case False
    then show ?thesis using listdata_insert_missing(2) [OF assms False] by (simp add: list_insert_spec_def)
  qed
qed

lemma list_step:
  assumes "listdata_rel lim l vs" and "list_within thr lim"
  shows "\<exists>l'. list_exec thr q l = Some (fst (list_spec q vs), l') \<and> listdata_rel lim l' (snd (list_spec q vs))"
proof (cases q)
  case (PushFront v)
  then show ?thesis using listdata_push_front_rel [OF assms(2,1), of v] by auto
next
  case (PushBack v)
  then show ?thesis using listdata_push_back_rel [OF assms(2,1), of v] by auto
next
  case PopFront
  then show ?thesis using listdata_pop_front_rel [OF assms(2,1)] by auto
next
  case PopBack
  then show ?thesis using listdata_pop_back_rel [OF assms(2,1)] by auto
next
  case (SetAt i v)
  obtain l' where "listdata_set l i v = Some (if i < length vs
        then (True, int (length v) - int (length (vs ! i))) else (False, 0), l')"
      "listdata_rel lim l' (vs[i := v])" using listdata_set_rel [OF assms(1), of i v] by blast
  then show ?thesis by (simp add: SetAt)
next
  case (InsertBefore p v)
  then show ?thesis using list_insert_exec(1) [OF assms(1), of p v] by (auto simp: list_insert_spec_def)
next
  case (InsertAfter p v)
  then show ?thesis using list_insert_exec(2) [OF assms(1), of p v] by (auto simp: list_insert_spec_def)
next
  case (Rem n v)
  then show ?thesis using listdata_rem_rel [OF assms(2,1), of n v] by auto
next
  case (Trim i j)
  then show ?thesis using listdata_trim_rel [OF assms(2,1), of i j] by (auto simp: Let_def)
qed (use assms(1) in \<open>auto simp: listdata_get_rel listdata_range_rel listdata_len_rel listdata_payload_rel\<close>)

interpretation lt: refinement "listdata_rel lim" "\<lambda>thr. list_within thr lim" list_exec list_spec for lim
  by unfold_locales (rule list_step)

text \<open>C1. Whatever sequence of operations a new \<^verbatim>\<open>ListData\<close> goes through, with thresholds
  that may change between operations but stay within a limit that keeps compact buffers below
  4 GiB, no operation panics and every reply (elements, lengths, removal counts, payload
  deltas) is the reply of the same operations on a plain list.\<close>

theorem list_history:
  assumes "list_limits_ok lim" and "\<forall>(thr, q) \<in> set qs. list_within thr lim"
  shows "\<exists>l. run_ops list_exec qs listdata_new = Some (fst (run_spec list_spec qs []), l)
    \<and> listdata_to_vec_bytes l = Some (snd (run_spec list_spec qs []))"
  using lt.run_refines [OF listdata_new_rel [OF assms(1)] assms(2)] listdata_to_vec_rel by blast

text \<open>Six operations with the default thresholds.\<close>

theorem list_history_witness:
  "\<exists>l. run_ops list_exec (map (Pair default_list_thresholds)
        [PushBack [1], PushFront [2, 3], InsertAfter [1] [4], Rem 0 [1], PopBack, PayloadBytes]) listdata_new
      = Some ([Done, Done, NewLen (Some 3), Removed 1 (- 1), Elem (Some [4]), Count 2], l)
    \<and> listdata_to_vec_bytes l = Some [[2, 3]]"
  using list_history [OF default_limits_ok, of "map (Pair default_list_thresholds)
      [PushBack [1], PushFront [2, 3], InsertAfter [1] [4], Rem 0 [1], PopBack, PayloadBytes]"]
  by (simp add: list_insert_spec_def lrem_spec_def lrem_count_def default_list_thresholds_def
      list_within_def del: run_ops.simps list_exec.simps) (simp only: numeral_3_eq_3 numeral_2_eq_2)

section \<open>Sets\<close>

datatype set_op = SInsert bytes | SRemove bytes | SContains bytes | SLen | SPayloadBytes

datatype set_out = SChanged bool int | SMember bool | SCount nat

fun set_exec :: "index_set_ops \<Rightarrow> set_thresholds \<Rightarrow> set_op \<Rightarrow> set_data \<Rightarrow> (set_out \<times> set_data) option" where
  "set_exec ops thr (SInsert x) s = map_option (map_prod (case_prod SChanged) id) (setdata_insert ops thr s x)"
| "set_exec ops thr (SRemove x) s = map_option (map_prod (case_prod SChanged) id) (setdata_remove ops thr s x)"
| "set_exec ops thr (SContains x) s = map_option (\<lambda>b. (SMember b, s)) (setdata_contains s x)"
| "set_exec ops thr SLen s = Some (SCount (setdata_len s), s)"
| "set_exec ops thr SPayloadBytes s = Some (SCount (setdata_payload_bytes s), s)"

fun set_spec :: "set_op \<Rightarrow> bytes set \<Rightarrow> set_out \<times> bytes set" where
  "set_spec (SInsert x) A = (SChanged (x \<notin> A) (if x \<in> A then 0 else int (length x)), insert x A)"
| "set_spec (SRemove x) A = (SChanged (x \<in> A) (if x \<in> A then - int (length x) else 0), A - {x})"
| "set_spec (SContains x) A = (SMember (x \<in> A), A)"
| "set_spec SLen A = (SCount (card A), A)"
| "set_spec SPayloadBytes A = (SCount (set_payload A), A)"

lemma set_step:
  assumes "setdata_is s A" and "index_set_laws ops" and "set_thr_ok thr"
  shows "\<exists>s'. set_exec ops thr q s = Some (fst (set_spec q A), s') \<and> setdata_is s' (snd (set_spec q A))"
proof (cases q)
  case (SInsert x)
  then show ?thesis using sd.insert_law [of ops thr s A x] assms by auto
next
  case (SRemove x)
  then show ?thesis using sd.remove_law [of ops thr s A x] assms by auto
next
  case (SContains x)
  then show ?thesis using sd.mem_law [of ops thr s A x] assms by simp
next
  case SLen
  then show ?thesis using sd.size_law [of ops thr s A] assms by simp
next
  case SPayloadBytes
  then show ?thesis using sd.payload_law [of ops thr s A] assms by simp
qed

interpretation st: refinement "\<lambda>s A. setdata_is s A \<and> index_set_laws ops" set_thr_ok
  "set_exec ops" set_spec for ops
  by unfold_locales (use set_step in blast)

text \<open>C4. Whatever sequence of operations a new \<^verbatim>\<open>SetData\<close> goes through, while its encoding
  moves between the compact and the hashtable form, no operation panics, every reply is the
  reply of the same operations on a mathematical set, and the members listed at the end are
  the set's, each once.\<close>

theorem set_history:
  assumes "index_set_laws ops" and "\<forall>(thr, q) \<in> set qs. set_thr_ok thr"
  shows "\<exists>s ms. run_ops (set_exec ops) qs setdata_new = Some (fst (run_spec set_spec qs {}), s)
    \<and> setdata_to_vec s = Some ms \<and> distinct ms \<and> set ms = snd (run_spec set_spec qs {})"
proof -
  have "setdata_is setdata_new {} \<and> index_set_laws ops" using assms(1) setdata_new_is by simp
  from st.run_refines [OF this assms(2)] obtain s where
    s: "run_ops (set_exec ops) qs setdata_new = Some (fst (run_spec set_spec qs {}), s)"
       "setdata_is s (snd (run_spec set_spec qs {}))" by blast
  from setdata_is_rel [OF s(2)] s(1) show ?thesis using setdata_to_vec_rel by blast
qed

theorem set_history_witness:
  "\<exists>s ms. run_ops (set_exec list_index_set) (map (Pair default_set_thresholds)
        [SInsert [1], SInsert [2, 3], SInsert [1], SRemove [1], SContains [2, 3], SPayloadBytes]) setdata_new
      = Some ([SChanged True 1, SChanged True 2, SChanged False 0, SChanged True (- 1),
               SMember True, SCount 2], s)
    \<and> setdata_to_vec s = Some ms \<and> distinct ms \<and> set ms = {[2, 3]}"
  using set_history [OF list_index_set_laws, of "map (Pair default_set_thresholds)
      [SInsert [1], SInsert [2, 3], SInsert [1], SRemove [1], SContains [2, 3], SPayloadBytes]"]
  by (simp add: default_set_thresholds_def set_thr_ok_def set_payload_def insert_Diff_if
      del: run_ops.simps set_exec.simps) (simp only: numeral_2_eq_2)

section \<open>Hashes\<close>

datatype hash_op = HInsert bytes bytes | HRemove bytes | HGet bytes | HContains bytes | HLen | HPayloadBytes

datatype hash_out =
  HInserted bool int | HRemoved "(bytes \<times> int) option" | HValue "bytes option" | HHas bool | HCount nat

fun hash_exec :: "(pairs \<Rightarrow> pairs) \<Rightarrow> hash_thresholds \<Rightarrow> hash_op \<Rightarrow> hash_data \<Rightarrow> (hash_out \<times> hash_data) option" where
  "hash_exec ord thr (HInsert f v) h =
     map_option (map_prod (case_prod HInserted) id) (hashdata_insert thr h f v)"
| "hash_exec ord thr (HRemove f) h = map_option (map_prod HRemoved id) (hashdata_remove ord thr h f)"
| "hash_exec ord thr (HGet f) h = map_option (\<lambda>v. (HValue v, h)) (hashdata_get h f)"
| "hash_exec ord thr (HContains f) h = map_option (\<lambda>b. (HHas b, h)) (hashdata_contains_key h f)"
| "hash_exec ord thr HLen h = Some (HCount (hashdata_len h), h)"
| "hash_exec ord thr HPayloadBytes h = Some (HCount (hashdata_payload_bytes h), h)"

fun hash_spec :: "hash_op \<Rightarrow> (bytes \<rightharpoonup> bytes) \<Rightarrow> hash_out \<times> (bytes \<rightharpoonup> bytes)" where
  "hash_spec (HInsert f v) m =
     (HInserted (m f = None) (int (map_payload (m(f \<mapsto> v))) - int (map_payload m)), m(f \<mapsto> v))"
| "hash_spec (HRemove f) m =
     (HRemoved (map_option (\<lambda>v. (v, - int (length f + length v))) (m f)), m(f := None))"
| "hash_spec (HGet f) m = (HValue (m f), m)"
| "hash_spec (HContains f) m = (HHas (m f \<noteq> None), m)"
| "hash_spec HLen m = (HCount (card (dom m)), m)"
| "hash_spec HPayloadBytes m = (HCount (map_payload m), m)"

lemma hash_step:
  assumes "hashdata_is h m" and "hash_order ord" and "hash_thr_ok thr"
  shows "\<exists>h'. hash_exec ord thr q h = Some (fst (hash_spec q m), h') \<and> hashdata_is h' (snd (hash_spec q m))"
proof (cases q)
  case (HInsert f v)
  then show ?thesis using hashdata_insert_is [OF assms(1,3), of f v] by (auto simp del: fun_upd_apply)
next
  case (HRemove f)
  then show ?thesis using hashdata_remove_is [OF assms, of f] by (auto simp del: fun_upd_apply)
qed (use assms(1) in \<open>auto simp: hashdata_get_is hashdata_contains_is hashdata_len_is hashdata_payload_is\<close>)

interpretation ht: refinement "\<lambda>h m. hashdata_is h m \<and> hash_order ord" hash_thr_ok
  "hash_exec ord" hash_spec for ord
  by unfold_locales (use hash_step in blast)

text \<open>C3. Whatever sequence of operations a new \<^verbatim>\<open>HashData\<close> goes through, and in whatever order
  a \<^verbatim>\<open>HashMap\<close> iterates, no operation panics, every reply (new or replaced, value removed, byte
  delta) is the reply of the same operations on a finite map, and the pairs listed at the end
  are the map's.\<close>

theorem hash_history:
  assumes "hash_order ord" and "\<forall>(thr, q) \<in> set qs. hash_thr_ok thr"
  shows "\<exists>h ps. run_ops (hash_exec ord) qs hashdata_new = Some (fst (run_spec hash_spec qs Map.empty), h)
    \<and> hashdata_to_pairs ord h = Some ps \<and> distinct (map fst ps)
    \<and> map_of ps = snd (run_spec hash_spec qs Map.empty)"
proof -
  have "hashdata_is hashdata_new Map.empty \<and> hash_order ord" using assms(1) hashdata_new_is by simp
  from ht.run_refines [OF this assms(2)] obtain h where
    h: "run_ops (hash_exec ord) qs hashdata_new = Some (fst (run_spec hash_spec qs Map.empty), h)"
       "hashdata_is h (snd (run_spec hash_spec qs Map.empty))" by blast
  from hashdata_to_pairs_is [OF h(2) assms(1)] h(1) show ?thesis by blast
qed

theorem hash_history_witness:
  "\<exists>h ps. run_ops (hash_exec id) (map (Pair default_hash_thresholds)
        [HInsert [1] [2], HInsert [1] [3, 4], HRemove [9], HGet [1]]) hashdata_new
      = Some ([HInserted True 2, HInserted False 1, HRemoved None, HValue (Some [3, 4])], h)
    \<and> hashdata_to_pairs id h = Some ps \<and> distinct (map fst ps) \<and> map_of ps = [[1] \<mapsto> [3, 4]]"
proof -
  let ?m = "[[1] \<mapsto> [3, 4]] :: bytes \<rightharpoonup> bytes"
  have "?m([9] := None) = ?m" by (rule ext) simp
  then show ?thesis
    using hash_history [OF hash_order_id, of "map (Pair default_hash_thresholds)
        [HInsert [1] [2], HInsert [1] [3, 4], HRemove [9], HGet [1]]"] default_hash_thr_ok
    by (simp add: map_payload_def del: run_ops.simps hash_exec.simps)
qed

section \<open>Sorted sets\<close>

datatype zset_op = ZInsert bytes f64 | ZRemove bytes | ZScore bytes | ZPop bool | ZRank bytes bool | ZLen | ZPayloadBytes

text \<open>Scores in replies are observed through \<open>score_key\<close>.\<close>

datatype zset_out = ZNew bool | ZKey "int option" | ZPopped "(int \<times> bytes) option" | ZPos "nat option" | ZCount nat

fun zset_exec :: "(f64 \<Rightarrow> f64 \<Rightarrow> bool) \<Rightarrow> zset_thresholds \<Rightarrow> zset_op \<Rightarrow> zset_data \<Rightarrow> (zset_out \<times> zset_data) option" where
  "zset_exec olt thr (ZInsert x s) z = map_option (map_prod ZNew id) (zsetdata_insert olt thr z x s)"
| "zset_exec olt thr (ZRemove x) z =
     map_option (map_prod (ZKey \<circ> map_option score_key) id) (zsetdata_remove olt thr z x)"
| "zset_exec olt thr (ZScore x) z = Some (ZKey (map_option score_key (zsetdata_score z x)), z)"
| "zset_exec olt thr (ZPop mx) z =
     map_option (map_prod (ZPopped \<circ> map_option zk) id) (zsetdata_pop_extreme olt thr z mx)"
| "zset_exec olt thr (ZRank x rv) z = map_option (\<lambda>r. (ZPos r, z)) (zsetdata_rank z x rv)"
| "zset_exec olt thr ZLen z = Some (ZCount (zsetdata_len z), z)"
| "zset_exec olt thr ZPayloadBytes z = Some (ZCount (zsetdata_payload_bytes z), z)"

text \<open>A member whose score is NaN has no rank in the code's reply, and so in the specification.\<close>

fun zset_spec :: "zset_op \<Rightarrow> (bytes \<rightharpoonup> int) \<Rightarrow> zset_out \<times> (bytes \<rightharpoonup> int)" where
  "zset_spec (ZInsert x s) m = (ZNew (m x = None), m(x \<mapsto> score_key s))"
| "zset_spec (ZRemove x) m = (ZKey (m x), m(x := None))"
| "zset_spec (ZScore x) m = (ZKey (m x), m)"
| "zset_spec (ZPop mx) m =
     (if zranked m = [] then (ZPopped None, m)
      else let p = (if mx then last (zranked m) else hd (zranked m)) in (ZPopped (Some p), m(snd p := None)))"
| "zset_spec (ZRank x rv) m =
     (ZPos (case m x of
        None \<Rightarrow> None
      | Some k \<Rightarrow> if k = 2 ^ 63 then None
                  else Some (card {p \<in> zgraph m. if rv then p > (k, x) else p < (k, x)})), m)"
| "zset_spec ZLen m = (ZCount (card (dom m)), m)"
| "zset_spec ZPayloadBytes m = (ZCount (zset_payload m), m)"

lemma zset_rank_step:
  assumes "zset_is z m"
  shows "zset_exec ordered_float_lt thr (ZRank x rv) z = Some (fst (zset_spec (ZRank x rv) m), z)"
proof (cases "m x")
  case None
  then show ?thesis using zsetdata_rank_missing [OF assms None] by simp
next
  case (Some k)
  show ?thesis
  proof (cases "k = 2 ^ 63")
    case True
    then show ?thesis using zsetdata_rank_nan [OF assms, of x] Some by simp
  next
    case False
    then show ?thesis using zsetdata_rank_is [OF assms Some False] Some by (cases rv) simp_all
  qed
qed

lemma zset_step:
  assumes "zset_is z m" and "zset_thr_ok thr"
  shows "\<exists>z'. zset_exec ordered_float_lt thr q z = Some (fst (zset_spec q m), z') \<and> zset_is z' (snd (zset_spec q m))"
proof (cases q)
  case (ZInsert x s)
  then show ?thesis using zsetdata_insert_is [OF assms, of x s]
    by (auto simp del: zset_is.simps fun_upd_apply)
next
  case (ZRemove x)
  then show ?thesis using zsetdata_remove_is [OF assms, of x]
    by (auto simp del: zset_is.simps fun_upd_apply)
next
  case (ZPop mx)
  obtain r z' where r: "zsetdata_pop_extreme ordered_float_lt thr z mx = Some (r, z')"
    "if zranked m = [] then r = None \<and> z' = z
       else let (k, x) = (if mx then last (zranked m) else hd (zranked m)) in
         (\<exists>s. r = Some (s, x) \<and> score_key s = k) \<and> m x = Some k \<and> zset_is z' (m(x := None))"
    using zsetdata_pop_is [OF assms, of mx] by blast
  show ?thesis
  proof (cases "zranked m = []")
    case True
    then show ?thesis using r assms(1) by (simp add: ZPop del: zset_is.simps)
  next
    case False
    obtain k x where kx: "(if mx then last (zranked m) else hd (zranked m)) = (k, x)" by force
    then obtain s where "r = Some (s, x)" "score_key s = k" "zset_is z' (m(x := None))"
      using r(2) False by (auto simp del: zset_is.simps)
    moreover have "zset_spec (ZPop mx) m = (ZPopped (Some (k, x)), m(x := None))"
      unfolding zset_spec.simps kx Let_def using False by simp
    ultimately show ?thesis using r(1) by (simp add: ZPop zk_def del: zset_is.simps zset_spec.simps)
  qed
next
  case (ZRank x rv)
  then show ?thesis using zset_rank_step [OF assms(1), of thr x rv] assms(1) by simp
qed (use assms(1) in \<open>auto simp: zsetdata_score_is zsetdata_len_is zsetdata_payload_is simp del: zset_is.simps\<close>)

interpretation zt: refinement zset_is zset_thr_ok "zset_exec ordered_float_lt" zset_spec
  by unfold_locales (rule zset_step)

lemma zsetdata_new_is: "zset_is zsetdata_new Map.empty"
  by (auto simp: zsetdata_new_def cz_empty_rep zgraph_def intro!: exI [of _ "[]"])

text \<open>C2. Whatever sequence of inserts, removals, pops, score and rank queries a new \<^verbatim>\<open>ZSetData\<close>
  goes through, in either encoding, no operation panics and every reply is the one of a
  finite map from members to scores: the rank of a member is the number of entries below it
  (above it, reversed) in (score, member) order, a pop takes the least or greatest entry, and
  the entries listed at the end are the map's, sorted.\<close>

theorem zset_history:
  assumes "ordered_float_laws olt" and "\<forall>(thr, q) \<in> set qs. zset_thr_ok thr"
  shows "\<exists>z. run_ops (zset_exec olt) qs zsetdata_new = Some (fst (run_spec zset_spec qs Map.empty), z)
    \<and> map ek (zsetdata_to_pairs_sorted z) = zranked (snd (run_spec zset_spec qs Map.empty))"
proof -
  from zt.run_refines [OF zsetdata_new_is assms(2)] obtain z where
    "run_ops (zset_exec ordered_float_lt) qs zsetdata_new = Some (fst (run_spec zset_spec qs Map.empty), z)"
    "zset_is z (snd (run_spec zset_spec qs Map.empty))" by blast
  then show ?thesis unfolding ordered_float_unique [OF assms(1)] using to_pairs_sorted_is by blast
qed

text \<open>Two members, the scores 1.0 and 2.0, then the score of one raised to 3.0.\<close>

theorem zset_history_witness:
  "\<exists>z. run_ops (zset_exec ordered_float_lt) (map (Pair default_zset_thresholds)
      [ZInsert [1] 0x3FF0000000000000, ZInsert [2] 0x4000000000000000, ZInsert [1] 0x4008000000000000,
       ZScore [1], ZPayloadBytes]) zsetdata_new =
    Some ([ZNew True, ZNew True, ZNew False, ZKey (Some 0x4008000000000000), ZCount 2], z)"
proof -
  let ?qs = "[ZInsert [1] 0x3FF0000000000000, ZInsert [2] 0x4000000000000000,
     ZInsert [1] 0x4008000000000000, ZScore [1], ZPayloadBytes]"
  have "\<forall>(thr, q) \<in> set (map (Pair default_zset_thresholds) ?qs). zset_thr_ok thr"
    by (simp add: default_zset_thresholds_def zset_thr_ok_def)
  moreover have two: "{[1 :: u8], [2], [1]} = {[1], [2]}" by auto
  ultimately show ?thesis using zset_history [OF ordered_float_lt_laws]
    by (fastforce simp: score_key_def f64_is_nan_def f64_ord_def f64_mag_def f64_neg_def zset_payload_def two
        simp del: run_ops.simps zset_exec.simps)
qed

text \<open>\<^verbatim>\<open>ZSetData::from_pairs\<close> stands for the map the successive inserts of its pairs give, with
  the last score of a repeated member, whatever encoding it chooses.\<close>

theorem zset_from_pairs:
  assumes "ordered_float_laws olt" and "zset_order ord" and "zset_thr_ok thr"
  shows "map ek (zsetdata_to_pairs_sorted (zsetdata_from_pairs olt ord thr ps)) =
      zranked (fold (\<lambda>(x, s) m. m(x \<mapsto> score_key s)) ps Map.empty)"
  unfolding ordered_float_unique [OF assms(1)]
  by (rule to_pairs_sorted_is [OF zsetdata_from_pairs_is [OF assms(2,3)]])

theorem zset_from_pairs_witness:
  "map ek (zsetdata_to_pairs_sorted (zsetdata_from_pairs ordered_float_lt id default_zset_thresholds
      [([7], 0), ([7], 1)])) = [(1, [7])]"
proof -
  have g: "zgraph [[7] \<mapsto> 1] = {(1, [7])}" by (auto simp: zgraph_def split: if_splits)
  show ?thesis
    using zset_from_pairs [OF ordered_float_lt_laws, of id default_zset_thresholds "[([7], 0), ([7], 1)]"]
    by (simp add: zset_order_def default_zset_thresholds_def zset_thr_ok_def score_key_def f64_is_nan_def
        f64_ord_def f64_mag_def f64_neg_def zranked_def g)
qed

text \<open>\<^verbatim>\<open>ZRANGE\<close> by rank: in either direction the reply is the slice between the normalised
  indices of the sorted entries, and no index makes the slice panic.\<close>

theorem zset_range_by_rank:
  assumes "zset_is z m"
  shows "\<exists>es. zsetdata_range_by_rank z a b rv = Some es \<and> map ek es =
    (let n = int (card (dom m)); i = normalize_index a n; j = normalize_index b n;
         L = (if rv then rev (zranked m) else zranked m) in take (Suc j - i) (drop i L))"
  by (rule zsetdata_range_by_rank_is [OF assms])

theorem zset_range_by_rank_witness:
  "\<exists>es. zsetdata_range_by_rank zsetdata_new (- 3) 5 True = Some es \<and> es = []"
  using zset_range_by_rank [OF zsetdata_new_is, of "- 3" 5 True]
  by (auto simp: normalize_index_def zranked_def zgraph_def)

text \<open>\<^verbatim>\<open>ZRANGEBYSCORE\<close>: for bounds that are numbers, the reply is the entries whose score is within
  the bounds, in score order or its reverse, paged by offset and count; entries whose score
  is NaN are in no range.\<close>

theorem zset_range_by_score:
  assumes "zset_is z m" and "\<not> f64_is_nan mn" and "\<not> f64_is_nan mx"
  shows "map ek (zsetdata_range_by_score z mn lx mx hx rv off cnt) =
    (let L = filter (\<lambda>(k, x). k < 2 ^ 63 \<and> (if lx then score_key mn < k else score_key mn \<le> k)
                       \<and> (if hx then k < score_key mx else k \<le> score_key mx)) (zranked m);
         L = drop off (if rv then rev L else L) in
     case cnt of None \<Rightarrow> L | Some n \<Rightarrow> take n L)"
  by (rule zsetdata_range_by_score_is [OF assms])

theorem zset_range_by_score_witness:
  "map ek (zsetdata_range_by_score (zsetdata_from_pairs ordered_float_lt id default_zset_thresholds
      [([7], 0), ([8], 9)]) 0 True 9 False False 0 None) = [(9, [8])]"
proof -
  have m: "zset_is (zsetdata_from_pairs ordered_float_lt id default_zset_thresholds [([7], 0), ([8], 9)])
      [[7] \<mapsto> 0, [8] \<mapsto> 9]"
    using zsetdata_from_pairs_is [of id default_zset_thresholds "[([7], 0), ([8], 9)]"]
    by (simp add: zset_order_def default_zset_thresholds_def zset_thr_ok_def score_key_def f64_is_nan_def
        f64_ord_def f64_mag_def f64_neg_def)
  have "zgraph [[7] \<mapsto> 0, [8] \<mapsto> 9] = {(0, [7]), (9, [8])}" by (auto simp: zgraph_def split: if_splits)
  then have "zranked [[7] \<mapsto> 0, [8] \<mapsto> 9] = [(0, [7]), (9, [8])]"
    by (simp add: zranked_def less_prod_def insort_key_def less_eq_prod_def)
  then show ?thesis
    using zset_range_by_score [OF m, of 0 9 True False False 0 None]
    by (simp add: score_key_def f64_is_nan_def f64_ord_def f64_mag_def f64_neg_def)
qed

text \<open>A member whose score is NaN (\<^verbatim>\<open>ZINCRBY\<close> can produce one by adding infinities of opposite signs)
  is in the set, with its score, and yet \<^verbatim>\<open>rank\<close> answers that it is missing.\<close>

theorem zset_nan_has_no_rank:
  assumes "zset_is z m" and "m x = Some (2 ^ 63)"
  shows "(\<exists>s. zsetdata_score z x = Some s \<and> f64_is_nan s) \<and> zsetdata_rank z x rv = Some None"
proof
  show "zsetdata_rank z x rv = Some None" by (rule zsetdata_rank_nan [OF assms])
  obtain s where s: "zsetdata_score z x = Some s" "score_key s = 2 ^ 63"
    using zsetdata_score_is [OF assms(1), of x] assms(2) by auto
  then show "\<exists>s. zsetdata_score z x = Some s \<and> f64_is_nan s"
    using f64_ord_bound [of s] by (auto simp: score_key_def split: if_splits)
qed

theorem zset_nan_has_no_rank_witness:
  "(\<exists>s. zsetdata_score (zsetdata_from_pairs ordered_float_lt id default_zset_thresholds
       [([7], 0x7FF8000000000000)]) [7] = Some s \<and> f64_is_nan s)
   \<and> zsetdata_rank (zsetdata_from_pairs ordered_float_lt id default_zset_thresholds
       [([7], 0x7FF8000000000000)]) [7] False = Some None"
proof (rule zset_nan_has_no_rank)
  show "zset_is (zsetdata_from_pairs ordered_float_lt id default_zset_thresholds
      [([7], 0x7FF8000000000000)]) [[7] \<mapsto> 2 ^ 63]"
    using zsetdata_from_pairs_is [of id default_zset_thresholds "[([7], 0x7FF8000000000000)]"]
    by (simp add: zset_order_def default_zset_thresholds_def zset_thr_ok_def score_key_def f64_is_nan_def
        f64_mag_def)
qed simp

end
