(* ===== verification/Resp.thy ===== *)
theory Resp
  imports Prelude
begin

text \<open>
  RESP values and their serialisation (\<^verbatim>\<open>resp.rs\<close>, first half): the value type, the integer
  writers, the segmented output buffer \<^verbatim>\<open>SegBuf\<close> with its \<^verbatim>\<open>Buf\<close> reader, and the
  writers for the two protocol versions.

  A \<^verbatim>\<open>String\<close> is its UTF-8 bytes, an \<^verbatim>\<open>i64\<close> an integer (in range where it matters: \<open>i64_ok\<close>).
  Parameters: the crate \<^verbatim>\<open>itoa\<close> (\<open>itoa_laws\<close>: the decimal digits of a \<^verbatim>\<open>u64\<close>), and how
  \<^verbatim>\<open>Display\<close> prints a double, \<open>fmt_f64\<close>.
\<close>

section \<open>Values\<close>

datatype resp =
    SimpleString bytes
  | RError bytes
  | RInteger int
  | BulkString "bytes option"
  | RArray "resp list option"
  | RNull
  | RBool bool
  | RDouble f64
  | RMap "(resp \<times> resp) list"
  | RSet "resp list"
  | RPush "resp list"
  | RRaw bytes

definition resp_ok :: resp where
  "resp_ok = SimpleString (asc ''OK'')"

definition resp_null :: resp where
  "resp_null = BulkString None"

definition resp_null_array :: resp where
  "resp_null_array = RArray None"

definition resp_error :: "bytes \<Rightarrow> resp" where
  "resp_error msg = RError msg"

definition resp_bulk :: "bytes \<Rightarrow> resp" where
  "resp_bulk s = BulkString (Some s)"

definition resp_bulk_str :: "bytes \<Rightarrow> resp" where
  "resp_bulk_str s = BulkString (Some s)"

definition resp_int :: "int \<Rightarrow> resp" where
  "resp_int n = RInteger n"

definition resp_array :: "resp list \<Rightarrow> resp" where
  "resp_array items = RArray (Some items)"

section \<open>UTF-8\<close>

text \<open>The first character of a byte sequence: its length and whether it is well formed; if not, the
  length of the maximal ill-formed part, which \<^verbatim>\<open>from_utf8_lossy\<close> replaces by one U+FFFD.\<close>

definition utf8_cont :: "u8 \<Rightarrow> bool" where
  "utf8_cont b \<longleftrightarrow> 0x80 \<le> b \<and> b \<le> 0xBF"

definition utf8_second :: "u8 \<Rightarrow> u8 \<Rightarrow> bool" where
  "utf8_second a b \<longleftrightarrow>
     (if a = 0xE0 then 0xA0 \<le> b \<and> b \<le> 0xBF
      else if a = 0xED then 0x80 \<le> b \<and> b \<le> 0x9F
      else if a = 0xF0 then 0x90 \<le> b \<and> b \<le> 0xBF
      else if a = 0xF4 then 0x80 \<le> b \<and> b \<le> 0x8F
      else utf8_cont b)"

fun utf8_head :: "bytes \<Rightarrow> nat \<times> bool" where
  "utf8_head [] = (0, False)"
| "utf8_head (a # bs) =
     (if a < 0x80 then (1, True)
      else if 0xC2 \<le> a \<and> a \<le> 0xDF then
        (case bs of b # _ \<Rightarrow> if utf8_cont b then (2, True) else (1, False) | [] \<Rightarrow> (1, False))
      else if 0xE0 \<le> a \<and> a \<le> 0xEF then
        (case bs of
           b # c # _ \<Rightarrow> if \<not> utf8_second a b then (1, False)
                        else if utf8_cont c then (3, True) else (2, False)
         | [b] \<Rightarrow> if utf8_second a b then (2, False) else (1, False)
         | [] \<Rightarrow> (1, False))
      else if 0xF0 \<le> a \<and> a \<le> 0xF4 then
        (case bs of
           b # c # d # _ \<Rightarrow> if \<not> utf8_second a b then (1, False)
                            else if \<not> utf8_cont c then (2, False)
                            else if utf8_cont d then (4, True) else (3, False)
         | [b, c] \<Rightarrow> if \<not> utf8_second a b then (1, False)
                     else if utf8_cont c then (3, False) else (2, False)
         | [b] \<Rightarrow> if utf8_second a b then (2, False) else (1, False)
         | [] \<Rightarrow> (1, False))
      else (1, False))"

lemma utf8_head_pos: "bs \<noteq> [] \<Longrightarrow> 0 < fst (utf8_head bs)"
  by (cases bs) (auto split: list.split)

function utf8_lossy :: "bytes \<Rightarrow> bytes" where
  "utf8_lossy [] = []"
| "utf8_lossy (a # bs) = (case utf8_head (a # bs) of (n, ok) \<Rightarrow>
     (if ok then take n (a # bs) else [0xEF, 0xBF, 0xBD]) @ utf8_lossy (drop n (a # bs)))"
  by pat_completeness auto
termination
  by (relation "measure length") (auto dest!: arg_cong [of _ _ fst] simp: utf8_head_pos diff_less
      simp del: utf8_head.simps)

function utf8_valid :: "bytes \<Rightarrow> bool" where
  "utf8_valid [] = True"
| "utf8_valid (a # bs) = (case utf8_head (a # bs) of (n, ok) \<Rightarrow> ok \<and> utf8_valid (drop n (a # bs)))"
  by pat_completeness auto
termination
  by (relation "measure length") (auto dest!: arg_cong [of _ _ fst] simp: utf8_head_pos diff_less
      simp del: utf8_head.simps)

lemma utf8_lossy_valid: "utf8_valid bs \<Longrightarrow> utf8_lossy bs = bs"
  by (induction bs rule: utf8_valid.induct)
    (auto split: prod.splits simp del: utf8_head.simps)

text \<open>The accessors the command handlers use.\<close>

fun resp_as_str :: "resp \<Rightarrow> bytes option" where
  "resp_as_str (BulkString (Some b)) = (if utf8_valid b then Some b else None)"
| "resp_as_str (SimpleString s) = Some s"
| "resp_as_str _ = None"

fun resp_as_bytes :: "resp \<Rightarrow> bytes option" where
  "resp_as_bytes (BulkString (Some b)) = Some b"
| "resp_as_bytes _ = None"

section \<open>Writing integers\<close>

definition itoa_laws :: "(nat \<Rightarrow> bytes) \<Rightarrow> bool" where
  "itoa_laws itoa \<longleftrightarrow> (\<forall>n < 2 ^ 64. itoa n = dec n)"

text \<open>The digit loop of \<^verbatim>\<open>put_i64\<close>, filling the 20-byte scratch array from its end; \<^const>\<open>None\<close> is a
  panic (a position below zero). \<open>v\<close> is the \<^verbatim>\<open>u64\<close> magnitude.\<close>

function put_i64_loop :: "bytes \<Rightarrow> nat \<Rightarrow> nat \<Rightarrow> (bytes \<times> nat) option" where
  "put_i64_loop tmp pos v =
     (if v > 0 then do {
        p \<leftarrow> usub pos 1;
        tmp' \<leftarrow> index_set tmp p (0x30 + of_nat (v mod 10));
        put_i64_loop tmp' p (v div 10)
      } else Some (tmp, pos))"
  by pat_completeness auto
termination
  by (relation "measure (\<lambda>(tmp, pos, v). v)") auto

declare put_i64_loop.simps [simp del]

definition put_i64 :: "bytes \<Rightarrow> int \<Rightarrow> bytes option" where
  "put_i64 buf n =
     (if n = 0 then Some (buf @ [0x30])
      else if n = 1 then Some (buf @ [0x31])
      else let neg = n < 0; v = nat \<bar>n\<bar> in
        if v = 0 then Some (buf @ [0x30])
        else do {
          (tmp, pos) \<leftarrow> put_i64_loop (replicate 20 0) 20 v;
          (tmp, pos) \<leftarrow> (if neg then do {
              p \<leftarrow> usub pos 1;
              tmp' \<leftarrow> index_set tmp p 0x2D;
              Some (tmp', p)
            } else Some (tmp, pos));
          s \<leftarrow> subslice tmp pos (length tmp);
          Some (buf @ s)
        })"

definition put_usize :: "(nat \<Rightarrow> bytes) \<Rightarrow> bytes \<Rightarrow> nat \<Rightarrow> bytes" where
  "put_usize itoa buf n = buf @ itoa n"

lemma dec_step: "0 < v \<Longrightarrow> (if v < 10 then [] else dec (v div 10)) @ [0x30 + of_nat (v mod 10)] = dec v"
  by (subst (2) dec.simps) auto

lemma put_i64_loop_dec:
  assumes "length tmp = 20" and "length (dec v) \<le> pos" and "pos \<le> 20" and "0 < v"
  shows "\<exists>tmp'. put_i64_loop tmp pos v = Some (tmp', pos - length (dec v)) \<and> length tmp' = 20
    \<and> drop (pos - length (dec v)) tmp' = dec v @ drop pos tmp"
  using assms
proof (induction v arbitrary: tmp pos rule: less_induct)
  case (less v)
  let ?d = "0x30 + of_nat (v mod 10) :: u8"
  have pos: "0 < pos" using less.prems(2) by (cases "dec v") simp_all
  define tmp1 where "tmp1 = tmp[pos - 1 := ?d]"
  have l1: "length tmp1 = 20" using less.prems(1) by (simp add: tmp1_def)
  have d1: "drop (pos - 1) tmp1 = ?d # drop pos tmp"
    using less.prems(1,3) pos by (simp add: tmp1_def drop_update_head)
  have step: "put_i64_loop tmp pos v = put_i64_loop tmp1 (pos - 1) (v div 10)"
  proof -
    have "pos - 1 < length tmp" using less.prems(1,3) pos by simp
    then show ?thesis using less.prems(4) pos
      by (subst put_i64_loop.simps) (simp add: usub_def index_set_def tmp1_def)
  qed
  show ?case
  proof (cases "v < 10")
    case True
    then have "dec v = [?d]" by (subst dec.simps) simp
    then show ?thesis unfolding step using True l1 d1 by (simp add: put_i64_loop.simps)
  next
    case False
    then have dv: "dec v = dec (v div 10) @ [?d]" by (subst dec.simps) simp
    have "\<exists>tmp'. put_i64_loop tmp1 (pos - 1) (v div 10) = Some (tmp', pos - 1 - length (dec (v div 10)))
        \<and> length tmp' = 20 \<and> drop (pos - 1 - length (dec (v div 10))) tmp'
          = dec (v div 10) @ drop (pos - 1) tmp1"
      using less.prems(2,3,4) False l1 dv by (intro less.IH) auto
    then show ?thesis unfolding step dv using d1 by auto
  qed
qed

lemma put_i64_dec:
  assumes "i64_ok n"
  shows "put_i64 buf n = Some (buf @ dec_int n)"
proof -
  consider "n = 0" | "n = 1" | "n \<noteq> 0" "n \<noteq> 1" by blast
  then show ?thesis
  proof cases
    case 3
    let ?v = "nat \<bar>n\<bar>"
    have "?v < 10 ^ 19" using assms by (auto simp: i64_ok_def)
    then have len: "length (dec ?v) \<le> 19" using length_dec [of ?v 19] by simp
    have v: "0 < ?v" using 3 by simp
    obtain tmp where t: "put_i64_loop (replicate 20 0) 20 ?v = Some (tmp, 20 - length (dec ?v))"
      "length tmp = 20" "drop (20 - length (dec ?v)) tmp = dec ?v"
      using put_i64_loop_dec [of "replicate 20 0" ?v 20] len v by auto
    show ?thesis
    proof (cases "n < 0")
      case False
      then show ?thesis using 3 t v
        by (simp add: put_i64_def dec_int_def subslice_def)
    next
      case True
      let ?p = "20 - length (dec ?v) - 1"
      have "drop ?p (tmp[?p := 0x2D]) = 0x2D # dec ?v"
      proof -
        have "?p < length tmp" and s: "Suc ?p = 20 - length (dec ?v)" using len t(2) by auto
        then show ?thesis using t(3) by (simp only: drop_update_head s)
      qed
      moreover have "Suc 0 \<le> 20 - length (dec (nat (- n)))" "19 - length (dec (nat (- n))) < 20"
        using len True by (simp_all add: abs_if Suc_le_eq)
      ultimately show ?thesis using True 3 t v len
        by (simp add: put_i64_def dec_int_def subslice_def usub_def index_set_def Let_def)
    qed
  qed (simp_all add: put_i64_def dec_int_def dec.simps)
qed

section \<open>The segmented buffer\<close>

record seg_buf =
  sb_active :: bytes
  sb_segments :: "bytes list"
  sb_read_pos :: nat
  sb_read_offset :: nat

definition sb_with_capacity :: "nat \<Rightarrow> seg_buf" where
  "sb_with_capacity cap = \<lparr>sb_active = [], sb_segments = [], sb_read_pos = 0, sb_read_offset = 0\<rparr>"

text \<open>\<^verbatim>\<open>buf.inner().put(bs)\<close>.\<close>

definition sb_put :: "seg_buf \<Rightarrow> bytes \<Rightarrow> seg_buf" where
  "sb_put b bs = b\<lparr>sb_active := sb_active b @ bs\<rparr>"

definition sb_finalize :: "seg_buf \<Rightarrow> seg_buf" where
  "sb_finalize b =
     (if sb_active b \<noteq> [] then b\<lparr>sb_segments := sb_segments b @ [sb_active b], sb_active := []\<rparr> else b)"

definition sb_push_raw :: "seg_buf \<Rightarrow> bytes \<Rightarrow> seg_buf" where
  "sb_push_raw b raw =
     (let b = (if sb_active b \<noteq> [] then b\<lparr>sb_segments := sb_segments b @ [sb_active b], sb_active := []\<rparr>
               else b) in
      b\<lparr>sb_segments := sb_segments b @ [raw]\<rparr>)"

definition sb_clear :: "seg_buf \<Rightarrow> seg_buf" where
  "sb_clear b = \<lparr>sb_active = [], sb_segments = [], sb_read_pos = 0, sb_read_offset = 0\<rparr>"

definition sb_is_empty :: "seg_buf \<Rightarrow> bool" where
  "sb_is_empty b \<longleftrightarrow> sb_segments b = [] \<and> sb_active b = []"

text \<open>The reader (\<^verbatim>\<open>impl Buf for SegBuf\<close>).\<close>

definition sb_remaining :: "seg_buf \<Rightarrow> nat option" where
  "sb_remaining b = do {
     segs \<leftarrow> subslice (sb_segments b) (sb_read_pos b) (length (sb_segments b));
     case segs of
       [] \<Rightarrow> Some (length (sb_active b))
     | seg # rest \<Rightarrow> do {
         n \<leftarrow> usub (length seg) (sb_read_offset b);
         Some (length (sb_active b) + n + sum_list (map length rest))
       }
   }"

definition sb_chunk :: "seg_buf \<Rightarrow> bytes option" where
  "sb_chunk b =
     (if sb_read_pos b < length (sb_segments b) then
        (let seg = sb_segments b ! sb_read_pos b in subslice seg (sb_read_offset b) (length seg))
      else Some (sb_active b))"

function sb_advance :: "seg_buf \<Rightarrow> nat \<Rightarrow> seg_buf option" where
  "sb_advance b cnt =
     (if cnt = 0 then Some b
      else if sb_read_pos b < length (sb_segments b) then
        (case usub (length (sb_segments b ! sb_read_pos b)) (sb_read_offset b) of
           None \<Rightarrow> None
         | Some avail \<Rightarrow>
             if cnt < avail then Some (b\<lparr>sb_read_offset := sb_read_offset b + cnt\<rparr>)
             else sb_advance (b\<lparr>sb_read_pos := sb_read_pos b + 1, sb_read_offset := 0\<rparr>) (cnt - avail))
      else if cnt \<le> length (sb_active b) then Some (b\<lparr>sb_active := drop cnt (sb_active b)\<rparr>)
      else None)"
  by pat_completeness auto
termination
  by (relation "measure (\<lambda>(b, cnt). length (sb_segments b) - sb_read_pos b)") auto

declare sb_advance.simps [simp del]

text \<open>The slices \<^verbatim>\<open>chunks_vectored\<close> fills in, at most \<open>room\<close> of them.\<close>

fun vectored_loop :: "nat \<Rightarrow> bytes list \<Rightarrow> bytes list" where
  "vectored_loop room [] = []"
| "vectored_loop room (seg # segs) =
     (if room = 0 then []
      else if seg \<noteq> [] then seg # vectored_loop (room - 1) segs
      else vectored_loop room segs)"

definition sb_chunks_vectored :: "seg_buf \<Rightarrow> nat \<Rightarrow> bytes list option" where
  "sb_chunks_vectored b room = do {
     segs \<leftarrow> subslice (sb_segments b) (sb_read_pos b) (length (sb_segments b));
     data \<leftarrow> (case segs of
         [] \<Rightarrow> Some []
       | seg # rest \<Rightarrow>
           if room = 0 then Some []
           else do { s \<leftarrow> subslice seg (sb_read_offset b) (length seg); Some (s # rest) });
     let out = vectored_loop room data;
     Some (if length out < room \<and> sb_active b \<noteq> [] then out @ [sb_active b] else out)
   }"

section \<open>Writing values\<close>

abbreviation crlf :: bytes where
  "crlf \<equiv> [0x0D, 0x0A]"

function (sequential) write_to_for_version ::
    "(nat \<Rightarrow> bytes) \<Rightarrow> (f64 \<Rightarrow> bytes) \<Rightarrow> nat \<Rightarrow> resp \<Rightarrow> seg_buf \<Rightarrow> seg_buf option"
  and write_items ::
    "(nat \<Rightarrow> bytes) \<Rightarrow> (f64 \<Rightarrow> bytes) \<Rightarrow> nat \<Rightarrow> resp list \<Rightarrow> seg_buf \<Rightarrow> seg_buf option"
  and write_pairs ::
    "(nat \<Rightarrow> bytes) \<Rightarrow> (f64 \<Rightarrow> bytes) \<Rightarrow> nat \<Rightarrow> (resp \<times> resp) list \<Rightarrow> seg_buf \<Rightarrow> seg_buf option" where
  "write_to_for_version itoa fmt_f64 v (SimpleString s) b =
     Some (if s = asc ''OK'' then sb_put b ([0x2B] @ asc ''OK'' @ crlf)
           else if s = asc ''PONG'' then sb_put b ([0x2B] @ asc ''PONG'' @ crlf)
           else sb_put (sb_put (sb_put b [0x2B]) s) crlf)"
| "write_to_for_version itoa fmt_f64 v (RError s) b = Some (sb_put (sb_put (sb_put b [0x2D]) s) crlf)"
| "write_to_for_version itoa fmt_f64 v (RInteger n) b =
     map_option (\<lambda>a. sb_put (b\<lparr>sb_active := a\<rparr>) crlf) (put_i64 (sb_active (sb_put b [0x3A])) n)"
| "write_to_for_version itoa fmt_f64 v (BulkString None) b =
     Some (sb_put b (if v \<ge> 3 then [0x5F] @ crlf else [0x24, 0x2D, 0x31] @ crlf))"
| "write_to_for_version itoa fmt_f64 v (BulkString (Some data)) b =
     Some (sb_put (sb_put (sb_put (sb_put (sb_put b [0x24]) (put_usize itoa [] (length data))) crlf) data) crlf)"
| "write_to_for_version itoa fmt_f64 v (RArray None) b =
     Some (sb_put b (if v \<ge> 3 then [0x5F] @ crlf else [0x2A, 0x2D, 0x31] @ crlf))"
| "write_to_for_version itoa fmt_f64 v (RArray (Some items)) b =
     write_items itoa fmt_f64 v items
       (sb_put (sb_put (sb_put b [0x2A]) (put_usize itoa [] (length items))) crlf)"
| "write_to_for_version itoa fmt_f64 v RNull b = Some (sb_put b ([0x5F] @ crlf))"
| "write_to_for_version itoa fmt_f64 v (RBool x) b =
     Some (if v \<ge> 3 then sb_put (sb_put (sb_put b [0x23]) [if x then 0x74 else 0x66]) crlf
           else sb_put (sb_put (sb_put b [0x3A]) [if x then 0x31 else 0x30]) crlf)"
| "write_to_for_version itoa fmt_f64 v (RDouble d) b =
     Some (if v \<ge> 3 then sb_put (sb_put (sb_put b [0x2C]) (fmt_f64 d)) crlf
           else let s = fmt_f64 d in
             sb_put (sb_put (sb_put (sb_put (sb_put b [0x24]) (put_usize itoa [] (length s))) crlf) s) crlf)"
| "write_to_for_version itoa fmt_f64 v (RMap ps) b =
     write_pairs itoa fmt_f64 v ps
       ((if v \<ge> 3 then sb_put (sb_put (sb_put b [0x25]) (put_usize itoa [] (length ps))) crlf
              else sb_put (sb_put (sb_put b [0x2A]) (put_usize itoa [] (length ps * 2))) crlf))"
| "write_to_for_version itoa fmt_f64 v (RSet items) b =
     write_items itoa fmt_f64 v items
       ((sb_put (sb_put (sb_put b [if v \<ge> 3 then 0x7E else 0x2A]) (put_usize itoa [] (length items))) crlf))"
| "write_to_for_version itoa fmt_f64 v (RPush items) b =
     write_items itoa fmt_f64 v items
       ((sb_put (sb_put (sb_put b [if v \<ge> 3 then 0x3E else 0x2A]) (put_usize itoa [] (length items))) crlf))"
| "write_to_for_version itoa fmt_f64 v (RRaw bs) b = Some (sb_push_raw b bs)"
| "write_items itoa fmt_f64 v [] b = Some b"
| "write_items itoa fmt_f64 v (item # items) b = do {
     b1 \<leftarrow> write_to_for_version itoa fmt_f64 v item b;
     write_items itoa fmt_f64 v items b1
   }"
| "write_pairs itoa fmt_f64 v [] b = Some b"
| "write_pairs itoa fmt_f64 v ((k, w) # ps) b = do {
     b1 \<leftarrow> write_to_for_version itoa fmt_f64 v k b;
     b2 \<leftarrow> write_to_for_version itoa fmt_f64 v w b1;
     write_pairs itoa fmt_f64 v ps b2
   }"
  by pat_completeness auto
termination
  by (relation "measure (\<lambda>a. case a of
        Inl (_, _, _, r, _) \<Rightarrow> size r
      | Inr (Inl (_, _, _, items, _)) \<Rightarrow> size_list size items
      | Inr (Inr (_, _, _, ps, _)) \<Rightarrow> size_list (size_prod size size) ps)") auto

definition write_to_for_version_owned ::
    "(nat \<Rightarrow> bytes) \<Rightarrow> (f64 \<Rightarrow> bytes) \<Rightarrow> nat \<Rightarrow> resp \<Rightarrow> seg_buf \<Rightarrow> seg_buf option" where
  "write_to_for_version_owned itoa fmt_f64 v r b = (case r of
     RRaw bs \<Rightarrow> Some (sb_push_raw b bs)
   | other \<Rightarrow> write_to_for_version itoa fmt_f64 v other b)"

definition serialize_for_version ::
    "(nat \<Rightarrow> bytes) \<Rightarrow> (f64 \<Rightarrow> bytes) \<Rightarrow> nat \<Rightarrow> resp \<Rightarrow> bytes option" where
  "serialize_for_version itoa fmt_f64 v r = do {
     b \<leftarrow> write_to_for_version itoa fmt_f64 v r (sb_with_capacity 64);
     let b = sb_finalize b;
     Some (if length (sb_segments b) = 1 then last (sb_segments b)
           else fold (\<lambda>seg out. out @ seg) (sb_segments b) [])
   }"

definition serialize :: "(nat \<Rightarrow> bytes) \<Rightarrow> (f64 \<Rightarrow> bytes) \<Rightarrow> resp \<Rightarrow> bytes option" where
  "serialize itoa fmt_f64 r = serialize_for_version itoa fmt_f64 2 r"

text \<open>The direct writer of an array of bulk strings (LRANGE and its like).\<close>

definition write_bulk_array_into :: "(nat \<Rightarrow> bytes) \<Rightarrow> bytes \<Rightarrow> bytes list \<Rightarrow> bytes" where
  "write_bulk_array_into itoa buf elems =
     fold (\<lambda>data buf. put_usize itoa (buf @ [0x24]) (length data) @ crlf @ data @ crlf) elems
       (put_usize itoa (buf @ [0x2A]) (length elems) @ crlf)"

section \<open>What the writers produce\<close>

text \<open>The wire form as a function of the value alone.\<close>

definition header :: "u8 \<Rightarrow> nat \<Rightarrow> bytes" where
  "header c n = c # dec n @ crlf"

fun resp_bytes :: "(f64 \<Rightarrow> bytes) \<Rightarrow> nat \<Rightarrow> resp \<Rightarrow> bytes" where
  "resp_bytes fmt v (SimpleString s) = 0x2B # s @ crlf"
| "resp_bytes fmt v (RError s) = 0x2D # s @ crlf"
| "resp_bytes fmt v (RInteger n) = 0x3A # dec_int n @ crlf"
| "resp_bytes fmt v (BulkString None) = (if v \<ge> 3 then [0x5F] else [0x24, 0x2D, 0x31]) @ crlf"
| "resp_bytes fmt v (BulkString (Some data)) = header 0x24 (length data) @ data @ crlf"
| "resp_bytes fmt v (RArray None) = (if v \<ge> 3 then [0x5F] else [0x2A, 0x2D, 0x31]) @ crlf"
| "resp_bytes fmt v (RArray (Some items)) = header 0x2A (length items) @ concat (map (resp_bytes fmt v) items)"
| "resp_bytes fmt v RNull = [0x5F] @ crlf"
| "resp_bytes fmt v (RBool x) =
     (if v \<ge> 3 then [0x23, if x then 0x74 else 0x66] else [0x3A, if x then 0x31 else 0x30]) @ crlf"
| "resp_bytes fmt v (RDouble d) =
     (if v \<ge> 3 then 0x2C # fmt d @ crlf else header 0x24 (length (fmt d)) @ fmt d @ crlf)"
| "resp_bytes fmt v (RMap ps) =
     (if v \<ge> 3 then header 0x25 (length ps) else header 0x2A (length ps * 2))
       @ concat (map (\<lambda>(k, w). resp_bytes fmt v k @ resp_bytes fmt v w) ps)"
| "resp_bytes fmt v (RSet items) =
     header (if v \<ge> 3 then 0x7E else 0x2A) (length items) @ concat (map (resp_bytes fmt v) items)"
| "resp_bytes fmt v (RPush items) =
     header (if v \<ge> 3 then 0x3E else 0x2A) (length items) @ concat (map (resp_bytes fmt v) items)"
| "resp_bytes fmt v (RRaw bs) = bs"

text \<open>Values that exist in memory: integers are \<^verbatim>\<open>i64\<close> and lengths are below \<^verbatim>\<open>isize::MAX\<close>.\<close>

fun resp_repr :: "(f64 \<Rightarrow> bytes) \<Rightarrow> resp \<Rightarrow> bool" where
  "resp_repr fmt (RInteger n) \<longleftrightarrow> i64_ok n"
| "resp_repr fmt (BulkString (Some data)) \<longleftrightarrow> length data < 2 ^ 63"
| "resp_repr fmt (RArray (Some items)) \<longleftrightarrow> length items < 2 ^ 63 \<and> (\<forall>r \<in> set items. resp_repr fmt r)"
| "resp_repr fmt (RDouble d) \<longleftrightarrow> length (fmt d) < 2 ^ 63"
| "resp_repr fmt (RMap ps) \<longleftrightarrow> length ps < 2 ^ 63 \<and> (\<forall>(k, w) \<in> set ps. resp_repr fmt k \<and> resp_repr fmt w)"
| "resp_repr fmt (RSet items) \<longleftrightarrow> length items < 2 ^ 63 \<and> (\<forall>r \<in> set items. resp_repr fmt r)"
| "resp_repr fmt (RPush items) \<longleftrightarrow> length items < 2 ^ 63 \<and> (\<forall>r \<in> set items. resp_repr fmt r)"
| "resp_repr fmt _ \<longleftrightarrow> True"

text \<open>The unread content of a \<^verbatim>\<open>SegBuf\<close>, and the invariant of its read position.\<close>

definition sb_content :: "seg_buf \<Rightarrow> bytes" where
  "sb_content b =
     drop (sb_read_offset b) (concat (drop (sb_read_pos b) (sb_segments b))) @ sb_active b"

definition sb_ok :: "seg_buf \<Rightarrow> bool" where
  "sb_ok b \<longleftrightarrow> sb_read_pos b \<le> length (sb_segments b)
     \<and> (if sb_read_pos b < length (sb_segments b)
        then sb_read_offset b \<le> length (sb_segments b ! sb_read_pos b) else sb_read_offset b = 0)"

lemma sb_put_content [simp]: "sb_content (sb_put b bs) = sb_content b @ bs"
  "sb_ok (sb_put b bs) = sb_ok b"
  by (simp_all add: sb_content_def sb_put_def sb_ok_def)

lemma sb_offset_concat:
  "sb_ok b \<Longrightarrow> sb_read_offset b \<le> length (concat (drop (sb_read_pos b) (sb_segments b)))"
  by (auto simp: sb_ok_def Cons_nth_drop_Suc [symmetric] split: if_splits)

lemma sb_freeze:
  assumes "sb_ok b"
  shows "sb_ok (b\<lparr>sb_segments := sb_segments b @ [x], sb_active := []\<rparr>)"
    and "sb_content (b\<lparr>sb_segments := sb_segments b @ [x], sb_active := []\<rparr>)
      = drop (sb_read_offset b) (concat (drop (sb_read_pos b) (sb_segments b))) @ x"
  using assms sb_offset_concat [OF assms]
  by (auto simp: sb_ok_def sb_content_def nth_append split: if_splits)

lemma sb_finalize_content:
  assumes "sb_ok b"
  shows "sb_ok (sb_finalize b)" and "sb_content (sb_finalize b) = sb_content b"
    and "sb_active (sb_finalize b) = []"
  using sb_freeze [OF assms, of "sb_active b"] assms
  by (auto simp: sb_finalize_def sb_content_def)

lemma sb_push_raw_content:
  assumes "sb_ok b"
  shows "sb_ok (sb_push_raw b raw)" and "sb_content (sb_push_raw b raw) = sb_content b @ raw"
proof -
  let ?b = "sb_finalize b"
  have eq: "sb_push_raw b raw = ?b\<lparr>sb_segments := sb_segments ?b @ [raw], sb_active := []\<rparr>"
    by (cases b) (simp add: sb_push_raw_def sb_finalize_def Let_def)
  note f = sb_finalize_content [OF assms]
  show "sb_ok (sb_push_raw b raw)" "sb_content (sb_push_raw b raw) = sb_content b @ raw"
    unfolding eq using sb_freeze [OF f(1), of raw] f(2,3) by (simp_all add: sb_content_def)
qed

lemma sb_content_len: "sb_ok b \<Longrightarrow> sb_remaining b = Some (length (sb_content b))"
proof (cases "drop (sb_read_pos b) (sb_segments b)")
  case (Cons seg rest)
  assume ok: "sb_ok b"
  then have "sb_read_pos b < length (sb_segments b)" using Cons by (metis drop_all list.distinct(1) not_less)
  moreover have "seg = sb_segments b ! sb_read_pos b"
    using Cons calculation by (simp add: Cons_nth_drop_Suc [symmetric])
  ultimately have "sb_read_offset b \<le> length seg" "sb_read_pos b \<le> length (sb_segments b)"
    using ok by (auto simp: sb_ok_def)
  then show ?thesis using Cons
    by (simp add: sb_remaining_def subslice_suffix usub_def sb_content_def length_concat)
qed (auto simp: sb_remaining_def subslice_def sb_content_def sb_ok_def)

lemma sb_advance_content:
  "sb_ok b \<Longrightarrow> n \<le> length (sb_content b) \<Longrightarrow>
     \<exists>b'. sb_advance b n = Some b' \<and> sb_ok b' \<and> sb_content b' = drop n (sb_content b)"
proof (induction b n rule: sb_advance.induct)
  case (1 b n)
  consider "n = 0" | "n > 0" "sb_read_pos b < length (sb_segments b)"
    | "n > 0" "sb_read_pos b = length (sb_segments b)" using 1(2) by (auto simp: sb_ok_def) linarith
  then show ?case
  proof cases
    case 1
    then show ?thesis using \<open>sb_ok b\<close> by (simp add: sb_advance.simps)
  next
    case 2
    let ?seg = "sb_segments b ! sb_read_pos b"
    let ?b = "b\<lparr>sb_read_pos := sb_read_pos b + 1, sb_read_offset := 0\<rparr>"
    define avail where "avail = length ?seg - sb_read_offset b"
    have off: "sb_read_offset b \<le> length ?seg" using 1(2) 2(2) by (auto simp: sb_ok_def)
    have u: "usub (length ?seg) (sb_read_offset b) = Some avail" using off by (simp add: usub_def avail_def)
    have cont: "sb_content b = drop (sb_read_offset b) ?seg @ sb_content ?b"
      using off by (simp add: sb_content_def Cons_nth_drop_Suc [OF 2(2), symmetric])
    have len: "length (drop (sb_read_offset b) ?seg) = avail" by (simp add: avail_def)
    show ?thesis
    proof (cases "n < avail")
      case True
      let ?b' = "b\<lparr>sb_read_offset := sb_read_offset b + n\<rparr>"
      have "sb_ok ?b'" using 1(2) 2(2) True off by (auto simp: sb_ok_def avail_def)
      moreover have "sb_content ?b' = drop n (sb_content b)"
        using True off
        by (simp add: sb_content_def Cons_nth_drop_Suc [OF 2(2), symmetric] add.commute avail_def)
      ultimately show ?thesis using 2 u True by (subst sb_advance.simps) simp
    next
      case False
      have "sb_ok ?b" using 1(2) 2(2) by (auto simp: sb_ok_def)
      moreover have "n - avail \<le> length (sb_content ?b)" using 1(3) len unfolding cont by simp
      ultimately obtain b' where "sb_advance ?b (n - avail) = Some b'" "sb_ok b'"
          "sb_content b' = drop (n - avail) (sb_content ?b)"
        using 1(1) [OF _ 2(2) u False] 2(1) by auto
      moreover have "drop n (sb_content b) = drop (n - avail) (sb_content ?b)"
        using False len unfolding cont by simp
      ultimately show ?thesis using 2 u False by (subst sb_advance.simps) simp
    qed
  next
    case 3
    have c: "sb_content b = sb_active b" using 3(2) 1(2) by (simp add: sb_content_def sb_ok_def)
    then show ?thesis using 3 1(2,3)
      by (subst sb_advance.simps) (auto simp: sb_ok_def sb_content_def)
  qed
qed

lemma sb_put_eq [simp]: "sb_put (sb_put b xs) ys = sb_put b (xs @ ys)"
  by (simp add: sb_put_def)

lemma sb_set_active:
  "sb_ok b \<Longrightarrow> sb_ok (b\<lparr>sb_active := a\<rparr>)"
  "sb_content (b\<lparr>sb_active := sb_active b @ xs\<rparr>) = sb_content b @ xs"
  by (simp_all add: sb_ok_def sb_content_def)

lemma put_usize_dec: "itoa_laws itoa \<Longrightarrow> n < 2 ^ 64 \<Longrightarrow> put_usize itoa [] n = dec n"
  by (simp add: put_usize_def itoa_laws_def)

text \<open>Writing never moves the read position.\<close>

lemma put_read_pos [simp]: "sb_read_pos (sb_put b xs) = sb_read_pos b"
  "sb_read_offset (sb_put b xs) = sb_read_offset b"
  by (simp_all add: sb_put_def)

lemma push_raw_read_pos [simp]: "sb_read_pos (sb_push_raw b xs) = sb_read_pos b"
  "sb_read_offset (sb_push_raw b xs) = sb_read_offset b"
  by (simp_all add: sb_push_raw_def Let_def)

definition same_read :: "seg_buf \<Rightarrow> seg_buf \<Rightarrow> bool" where
  "same_read b b' \<longleftrightarrow> sb_read_pos b' = sb_read_pos b \<and> sb_read_offset b' = sb_read_offset b"

lemma write_appends:
  shows "itoa_laws itoa \<Longrightarrow> resp_repr fmt r \<Longrightarrow> sb_ok b \<Longrightarrow> \<exists>b'. write_to_for_version itoa fmt v r b = Some b'
      \<and> sb_ok b' \<and> same_read b b' \<and> sb_content b' = sb_content b @ resp_bytes fmt v r"
    and "itoa_laws itoa \<Longrightarrow> \<forall>r \<in> set items. resp_repr fmt r \<Longrightarrow> sb_ok b \<Longrightarrow> \<exists>b'. write_items itoa fmt v items b = Some b'
      \<and> sb_ok b' \<and> same_read b b' \<and> sb_content b' = sb_content b @ concat (map (resp_bytes fmt v) items)"
    and "itoa_laws itoa \<Longrightarrow> \<forall>(k, w) \<in> set ps. resp_repr fmt k \<and> resp_repr fmt w \<Longrightarrow> sb_ok b \<Longrightarrow>
      \<exists>b'. write_pairs itoa fmt v ps b = Some b' \<and> sb_ok b' \<and> same_read b b'
      \<and> sb_content b' = sb_content b @ concat (map (\<lambda>(k, w). resp_bytes fmt v k @ resp_bytes fmt v w) ps)"
proof (induction itoa fmt v r b and itoa fmt v items b and itoa fmt v ps b
    rule: write_to_for_version_write_items_write_pairs.induct)
  case (1 itoa fmt v s b)
  then show ?case by (simp add: same_read_def)
next
  case (3 itoa fmt v n b)
  then show ?case
    using put_i64_dec [of n "sb_active (sb_put b [0x3A])"] sb_set_active(2) [of b "0x3A # dec_int n"]
    by (auto simp: sb_set_active(1) sb_put_def [of b] same_read_def)
next
  case (18 itoa fmt v k w ps b)
  then have rk: "resp_repr fmt k" and rw: "resp_repr fmt w"
    and rps: "\<forall>(k, w) \<in> set ps. resp_repr fmt k \<and> resp_repr fmt w" by auto
  from 18(1) [OF 18(4) rk 18(6)] obtain b1 where b1: "write_to_for_version itoa fmt v k b = Some b1"
    "sb_ok b1" "same_read b b1" "sb_content b1 = sb_content b @ resp_bytes fmt v k" by blast
  from 18(2) [OF b1(1) 18(4) rw b1(2)] obtain b2 where b2: "write_to_for_version itoa fmt v w b1 = Some b2"
    "sb_ok b2" "same_read b1 b2" "sb_content b2 = sb_content b1 @ resp_bytes fmt v w" by blast
  from 18(3) [OF b1(1) b2(1) 18(4) rps b2(2)] b1 b2 show ?case by (auto simp: same_read_def)
qed (auto simp: put_usize_dec header_def sb_push_raw_content Let_def same_read_def)

lemma serialize_bytes:
  assumes "itoa_laws itoa" and "resp_repr fmt r"
  shows "serialize_for_version itoa fmt v r = Some (resp_bytes fmt v r)"
proof -
  have "sb_ok (sb_with_capacity 64)" "sb_content (sb_with_capacity 64) = []"
    by (simp_all add: sb_with_capacity_def sb_ok_def sb_content_def)
  then obtain b where b: "write_to_for_version itoa fmt v r (sb_with_capacity 64) = Some b"
    "sb_ok b" "sb_content b = resp_bytes fmt v r" "same_read (sb_with_capacity 64) b"
    using write_appends(1) [OF assms] by fastforce
  have pos: "sb_read_pos b = 0 \<and> sb_read_offset b = 0"
    using b(4) by (simp add: sb_with_capacity_def same_read_def)
  note f = sb_finalize_content [OF b(2)]
  have "sb_read_pos (sb_finalize b) = 0 \<and> sb_read_offset (sb_finalize b) = 0"
    using pos by (simp add: sb_finalize_def)
  then have c: "concat (sb_segments (sb_finalize b)) = resp_bytes fmt v r"
    using f(2,3) b(3) by (simp add: sb_content_def)
  moreover have "fold (\<lambda>seg out. out @ seg) segs acc = acc @ concat segs" for segs :: "bytes list" and acc
    by (induction segs arbitrary: acc) simp_all
  moreover have "last segs = concat segs" if "length segs = 1" for segs :: "bytes list"
    using that by (cases segs) simp_all
  ultimately show ?thesis by (simp add: serialize_for_version_def b(1) Let_def)
qed

lemma write_bulk_array_bytes:
  assumes "itoa_laws itoa" and "length elems < 2 ^ 63" and "\<forall>e \<in> set elems. length e < 2 ^ 63"
  shows "write_bulk_array_into itoa buf elems
    = buf @ resp_bytes fmt v (RArray (Some (map resp_bulk elems)))"
proof -
  have "fold (\<lambda>data buf. put_usize itoa (buf @ [0x24]) (length data) @ crlf @ data @ crlf) es acc
      = acc @ concat (map (\<lambda>e. header 0x24 (length e) @ e @ crlf) es)"
    if "\<forall>e \<in> set es. length e < 2 ^ 63" for es acc
    using that assms(1) by (induction es arbitrary: acc) (simp_all add: put_usize_def itoa_laws_def header_def)
  then show ?thesis using assms
    by (simp add: write_bulk_array_into_def put_usize_def itoa_laws_def header_def resp_bulk_def comp_def)
qed

text \<open>Reading: the chunk is the front of the content, and the vectored slices, given room for all
  of them, are exactly the content.\<close>

lemma sb_chunk_prefix:
  assumes "sb_ok b"
  shows "\<exists>c rest. sb_chunk b = Some c \<and> sb_content b = c @ rest"
proof (cases "sb_read_pos b < length (sb_segments b)")
  case True
  then have "sb_read_offset b \<le> length (sb_segments b ! sb_read_pos b)" using assms by (simp add: sb_ok_def)
  then show ?thesis using True
    by (simp add: sb_chunk_def Let_def subslice_suffix sb_content_def Cons_nth_drop_Suc [OF True, symmetric])
next
  case False
  then show ?thesis using assms by (simp add: sb_chunk_def sb_content_def sb_ok_def)
qed

lemma vectored_concat: "length data \<le> room \<Longrightarrow> concat (vectored_loop room data) = concat data
    \<and> length (vectored_loop room data) \<le> length data"
  by (induction room data rule: vectored_loop.induct) auto

lemma sb_vectored_content:
  assumes "sb_ok b" and "length (sb_segments b) < room"
  shows "\<exists>out. sb_chunks_vectored b room = Some out \<and> concat out = sb_content b"
proof -
  let ?segs = "drop (sb_read_pos b) (sb_segments b)"
  have pos: "sb_read_pos b \<le> length (sb_segments b)" using assms(1) by (simp add: sb_ok_def)
  show ?thesis
  proof (cases "sb_read_pos b < length (sb_segments b)")
    case False
    then show ?thesis using assms pos
      by (auto simp: sb_chunks_vectored_def subslice_suffix sb_content_def sb_ok_def)
  next
    case True
    let ?seg = "sb_segments b ! sb_read_pos b" and ?rest = "drop (Suc (sb_read_pos b)) (sb_segments b)"
    have off: "sb_read_offset b \<le> length ?seg" using assms(1) True by (simp add: sb_ok_def)
    let ?data = "drop (sb_read_offset b) ?seg # ?rest"
    have "length ?data \<le> room" "length ?data < room" using assms(2) True by auto
    note v = vectored_concat [OF this(1)] this(2)
    have "concat ?data @ sb_active b = sb_content b"
      using off by (simp add: sb_content_def Cons_nth_drop_Suc [OF True, symmetric])
    then show ?thesis using v off pos assms(2)
      by (auto simp: sb_chunks_vectored_def subslice_suffix Cons_nth_drop_Suc [OF True, symmetric] Let_def
          simp del: vectored_loop.simps)
  qed
qed

end
