(* ===== verification/Resp_Parser.thy ===== *)
theory Resp_Parser
  imports Resp
begin

text \<open>
  The RESP parser (\<^verbatim>\<open>resp.rs\<close>, second half): one value from a byte buffer, inline commands, and
  the incremental \<^verbatim>\<open>RespParser\<close>.

  A result is \<open>POk value consumed\<close>, \<open>PIncomplete\<close> or \<open>PInvalid message\<close>, as in the code, or
  \<open>PPanic\<close> where a slice would be out of range; that the last never happens is proved. How
  \<^verbatim>\<open>str::parse::<f64>\<close> reads a double is the parameter \<open>pf\<close>.
\<close>

section \<open>Results\<close>

datatype 'a pres = POk 'a nat | PIncomplete | PInvalid bytes | PPanic

fun pbind :: "'a pres \<Rightarrow> ('a \<Rightarrow> nat \<Rightarrow> 'b pres) \<Rightarrow> 'b pres" where
  "pbind (POk x n) f = f x n"
| "pbind PIncomplete f = PIncomplete"
| "pbind (PInvalid m) f = PInvalid m"
| "pbind PPanic f = PPanic"

lemma pbind_cong [fundef_cong]:
  "r = r' \<Longrightarrow> (\<And>x n. r' = POk x n \<Longrightarrow> f x n = g x n) \<Longrightarrow> pbind r f = pbind r' g"
  by (cases r') auto

lemma pbind_split:
  "P (pbind r f) \<longleftrightarrow> (\<forall>x n. r = POk x n \<longrightarrow> P (f x n)) \<and> (r = PIncomplete \<longrightarrow> P PIncomplete)
     \<and> (\<forall>m. r = PInvalid m \<longrightarrow> P (PInvalid m)) \<and> (r = PPanic \<longrightarrow> P PPanic)"
  by (cases r) auto

section \<open>Lines\<close>

fun find_crlf :: "bytes \<Rightarrow> nat option" where
  "find_crlf (a # b # bs) =
     (if a = 0x0D \<and> b = 0x0A then Some 0 else map_option Suc (find_crlf (b # bs)))"
| "find_crlf _ = None"

definition parse_line :: "bytes \<Rightarrow> bytes pres" where
  "parse_line buf = (case find_crlf buf of
     None \<Rightarrow> PIncomplete
   | Some pos \<Rightarrow> (case subslice buf 1 pos of None \<Rightarrow> PPanic | Some l \<Rightarrow> POk l (pos + 2)))"

definition parse_simple_string :: "bytes \<Rightarrow> resp pres" where
  "parse_simple_string buf = pbind (parse_line buf) (\<lambda>line n. POk (SimpleString (utf8_lossy line)) n)"

definition parse_error :: "bytes \<Rightarrow> resp pres" where
  "parse_error buf = pbind (parse_line buf) (\<lambda>line n. POk (RError (utf8_lossy line)) n)"

definition parse_integer :: "bytes \<Rightarrow> resp pres" where
  "parse_integer buf = pbind (parse_line buf) (\<lambda>line n.
     if \<not> utf8_valid line then PInvalid (asc ''invalid integer encoding'')
     else case parse_i64 line of
         None \<Rightarrow> PInvalid (asc ''invalid integer: '' @ line)
       | Some k \<Rightarrow> POk (RInteger k) n)"

definition MAX_BULK_LEN :: nat where
  "MAX_BULK_LEN = 512 * 1024 * 1024"

definition MAX_ARRAY_LEN :: nat where
  "MAX_ARRAY_LEN = 1024000"

definition parse_bulk_string :: "bytes \<Rightarrow> resp pres" where
  "parse_bulk_string buf = pbind (parse_line buf) (\<lambda>line header_len.
     if \<not> utf8_valid line then PInvalid (asc ''invalid bulk string length'')
     else case parse_i64 line of
         None \<Rightarrow> PInvalid (asc ''invalid bulk length: '' @ line)
       | Some len \<Rightarrow>
           if len = -1 then POk (BulkString None) header_len
           else if len < 0 then PInvalid (asc ''invalid bulk length: '' @ dec_int len)
           else let len = nat len in
             if len > MAX_BULK_LEN then PInvalid (asc ''invalid bulk length: '' @ dec len)
             else let total = header_len + len + 2 in
               if length buf < total then PIncomplete
               else case subslice buf header_len (header_len + len) of
                   None \<Rightarrow> PPanic
                 | Some data \<Rightarrow>
                     (case subslice buf (header_len + len) (header_len + len + 2) of
                        None \<Rightarrow> PPanic
                      | Some e \<Rightarrow> if e \<noteq> crlf then PInvalid (asc ''missing CRLF after bulk string'')
                                 else POk (BulkString (Some data)) total))"

text \<open>The header of \<^verbatim>\<open>parse_array\<close>: \<^const>\<open>None\<close> is the null array.\<close>

definition array_header :: "bytes \<Rightarrow> nat option pres" where
  "array_header buf = pbind (parse_line buf) (\<lambda>line header_len.
     if \<not> utf8_valid line then PInvalid (asc ''invalid array length'')
     else case parse_i64 line of
         None \<Rightarrow> PInvalid (asc ''invalid array length: '' @ line)
       | Some len \<Rightarrow>
           if len = -1 then POk None header_len
           else if len < 0 then PInvalid (asc ''invalid array length: '' @ dec_int len)
           else let len = nat len in
             if len > MAX_ARRAY_LEN then PInvalid (asc ''invalid multibulk length: '' @ dec len)
             else POk (Some len) header_len)"

text \<open>The headers of \<^verbatim>\<open>parse_resp3_map\<close>, \<^verbatim>\<open>parse_resp3_set\<close> and \<^verbatim>\<open>parse_resp3_push\<close>, which differ in the
  word of their messages only.\<close>

definition resp3_header :: "string \<Rightarrow> bytes \<Rightarrow> nat pres" where
  "resp3_header what buf = pbind (parse_line buf) (\<lambda>line header_len.
     if \<not> utf8_valid line then PInvalid (asc ''invalid RESP3 '' @ asc what @ asc '' length'')
     else case parse_usize line of
         None \<Rightarrow> PInvalid (asc ''invalid '' @ asc what @ asc '' length: '' @ line)
       | Some count \<Rightarrow>
           if count > MAX_ARRAY_LEN
           then PInvalid (asc ''invalid '' @ asc what @ asc '' length: '' @ dec count)
           else POk count header_len)"

definition parse_resp3_null :: "bytes \<Rightarrow> resp pres" where
  "parse_resp3_null buf =
     (if length buf < 3 then PIncomplete
      else case subslice buf 1 3 of
          None \<Rightarrow> PPanic
        | Some e \<Rightarrow> if e \<noteq> crlf then PInvalid (asc ''invalid RESP3 null'') else POk RNull 3)"

definition parse_resp3_bool :: "bytes \<Rightarrow> resp pres" where
  "parse_resp3_bool buf =
     (if length buf < 4 then PIncomplete
      else case index buf 1 of
          None \<Rightarrow> PPanic
        | Some c \<Rightarrow>
            if c \<noteq> 0x74 \<and> c \<noteq> 0x66 then PInvalid (asc ''invalid RESP3 boolean'')
            else case subslice buf 2 4 of
                None \<Rightarrow> PPanic
              | Some e \<Rightarrow> if e \<noteq> crlf then PInvalid (asc ''invalid RESP3 boolean'')
                         else POk (RBool (c = 0x74)) 4)"

definition parse_resp3_double :: "(bytes \<Rightarrow> f64 option) \<Rightarrow> bytes \<Rightarrow> resp pres" where
  "parse_resp3_double pf buf = pbind (parse_line buf) (\<lambda>line n.
     if \<not> utf8_valid line then PInvalid (asc ''invalid RESP3 double'')
     else case pf line of
         None \<Rightarrow> PInvalid (asc ''invalid double: '' @ line)
       | Some d \<Rightarrow> POk (RDouble d) n)"

section \<open>Inline commands\<close>

text \<open>The scanners of \<^verbatim>\<open>tokenize_inline\<close> on the rest of the line from the current index. A quoted token
  ends at its quote; a backslash escapes inside double quotes only.\<close>

definition unescape :: "u8 \<Rightarrow> u8" where
  "unescape c =
     (if c = 0x6E then 0x0A else if c = 0x72 then 0x0D else if c = 0x74 then 0x09 else c)"

fun quoted_token :: "u8 \<Rightarrow> bytes \<Rightarrow> bytes \<Rightarrow> (bytes \<times> bytes) option" where
  "quoted_token quote token [] = None"
| "quoted_token quote token (c # cs) =
     (if c = quote then Some (token, cs)
      else if quote = 0x22 \<and> c = 0x5C \<and> cs \<noteq> []
      then quoted_token quote (token @ [unescape (hd cs)]) (tl cs)
      else quoted_token quote (token @ [c]) cs)"

lemma quoted_token_shorter: "quoted_token quote token cs = Some (t, rest) \<Longrightarrow> length rest < length cs"
proof (induction quote token cs rule: quoted_token.induct)
  case (2 quote token c cs)
  show ?case
  proof (cases "c = quote")
    case False
    show ?thesis
    proof (cases "quote = 0x22 \<and> c = 0x5C \<and> cs \<noteq> []")
      case True
      have "quoted_token quote (token @ [unescape (hd cs)]) (tl cs) = Some (t, rest)"
        using 2(3) False True by simp
      from 2(1) [OF False True this] show ?thesis by simp
    next
      case f: False
      have "quoted_token quote (token @ [c]) cs = Some (t, rest)" using 2(3) False f by (simp only: quoted_token.simps if_False)
      then show ?thesis using 2(2) [OF False f] by simp
    qed
  qed (use 2(3) in simp)
qed simp

lemma dropWhile_Cons_length: "dropWhile P xs = c # cs \<Longrightarrow> length cs < length xs"
  using length_dropWhile_le [of P xs] by simp

lemma dropWhile_hd: "dropWhile P xs = c # cs \<Longrightarrow> \<not> P c"
  by (metis hd_dropWhile list.distinct(1) list.sel(1))

function tokenize_inline :: "bytes \<Rightarrow> resp list option" where
  "tokenize_inline line =
     (case dropWhile (\<lambda>c. c = 0x20) line of
        [] \<Rightarrow> Some []
      | c # cs \<Rightarrow>
          if c = 0x22 \<or> c = 0x27 then
            (case quoted_token c [] cs of
               None \<Rightarrow> None
             | Some (token, rest) \<Rightarrow> map_option ((#) (BulkString (Some token))) (tokenize_inline rest))
          else map_option ((#) (BulkString (Some (takeWhile (\<lambda>c. c \<noteq> 0x20) (c # cs)))))
                 (tokenize_inline (dropWhile (\<lambda>c. c \<noteq> 0x20) (c # cs))))"
  by pat_completeness auto
termination
proof (relation "measure length", goal_cases)
  case (2 line c cs p token rest)
  then show ?case using quoted_token_shorter [of c "[]" cs token rest] dropWhile_Cons_length [OF 2(1)]
    by auto
next
  case (3 line c cs)
  have "length (dropWhile (\<lambda>c. c \<noteq> 0x20) (c # cs)) \<le> length cs"
    using dropWhile_hd [OF 3(1)] length_dropWhile_le [of "\<lambda>c. c \<noteq> 0x20" cs] by simp
  then show ?case using dropWhile_Cons_length [OF 3(1)] by auto
qed simp

declare tokenize_inline.simps [simp del]

definition parse_inline :: "bytes \<Rightarrow> resp pres" where
  "parse_inline buf = (case find_crlf buf of
     None \<Rightarrow> PIncomplete
   | Some pos \<Rightarrow>
       (case tokenize_inline (take pos buf) of
          None \<Rightarrow> PInvalid (asc ''unterminated quoted string in inline command'')
        | Some parts \<Rightarrow> if parts = [] then PInvalid (asc ''empty inline command'')
                        else POk (RArray (Some parts)) (pos + 2)))"

section \<open>One value\<close>

lemma pbind_OkE:
  assumes "pbind r f = POk y m"
  obtains x n where "r = POk x n" and "f x n = POk y m"
  using assms by (cases r) auto

lemma parse_line_consumed: "parse_line buf = POk l n \<Longrightarrow> 2 \<le> n"
  by (auto simp: parse_line_def split: option.splits)

lemma array_header_line: "array_header buf = POk h n \<Longrightarrow> \<exists>l. parse_line buf = POk l n"
  unfolding array_header_def
  by (erule pbind_OkE) (auto simp: Let_def split: option.splits if_splits)

lemma resp3_header_line: "resp3_header what buf = POk h n \<Longrightarrow> \<exists>l. parse_line buf = POk l n"
  unfolding resp3_header_def
  by (erule pbind_OkE) (auto split: option.splits if_splits)

lemma header_consumed:
  "array_header buf = POk h n \<Longrightarrow> 2 \<le> n" "resp3_header what buf = POk k n \<Longrightarrow> 2 \<le> n"
  by (auto dest!: array_header_line resp3_header_line dest: parse_line_consumed)

text \<open>\<^verbatim>\<open>parse_resp\<close> with the loops of \<^verbatim>\<open>parse_array\<close>, \<^verbatim>\<open>parse_resp3_set\<close> and \<^verbatim>\<open>parse_resp3_push\<close>
  (\<open>parse_items\<close>) and of \<^verbatim>\<open>parse_resp3_map\<close> (\<open>parse_pairs\<close>): the loops take the buffer of the aggregate
  and the current offset, and return the elements and the final offset.\<close>

function (sequential) parse_resp :: "(bytes \<Rightarrow> f64 option) \<Rightarrow> bytes \<Rightarrow> resp pres"
  and parse_items :: "(bytes \<Rightarrow> f64 option) \<Rightarrow> nat \<Rightarrow> bytes \<Rightarrow> nat \<Rightarrow> resp list pres"
  and parse_pairs :: "(bytes \<Rightarrow> f64 option) \<Rightarrow> nat \<Rightarrow> bytes \<Rightarrow> nat \<Rightarrow> (resp \<times> resp) list pres" where
  "parse_resp pf [] = PIncomplete"
| "parse_resp pf (c # cs) =
     (if c = 0x2B then parse_simple_string (c # cs)
      else if c = 0x2D then parse_error (c # cs)
      else if c = 0x3A then parse_integer (c # cs)
      else if c = 0x24 then parse_bulk_string (c # cs)
      else if c = 0x2A then pbind (array_header (c # cs)) (\<lambda>h header_len.
        case h of
          None \<Rightarrow> POk (RArray None) header_len
        | Some len \<Rightarrow> pbind (parse_items pf len (c # cs) header_len) (\<lambda>items n. POk (RArray (Some items)) n))
      else if c = 0x5F then parse_resp3_null (c # cs)
      else if c = 0x23 then parse_resp3_bool (c # cs)
      else if c = 0x2C then parse_resp3_double pf (c # cs)
      else if c = 0x25 then pbind (resp3_header ''map'' (c # cs)) (\<lambda>count header_len.
        pbind (parse_pairs pf count (c # cs) header_len) (\<lambda>ps n. POk (RMap ps) n))
      else if c = 0x7E then pbind (resp3_header ''set'' (c # cs)) (\<lambda>count header_len.
        pbind (parse_items pf count (c # cs) header_len) (\<lambda>items n. POk (RSet items) n))
      else if c = 0x3E then pbind (resp3_header ''push'' (c # cs)) (\<lambda>count header_len.
        pbind (parse_items pf count (c # cs) header_len) (\<lambda>items n. POk (RPush items) n))
      else parse_inline (c # cs))"
| "parse_items pf 0 buf off = POk [] off"
| "parse_items pf (Suc k) buf off = (case subslice buf off (length buf) of
     None \<Rightarrow> PPanic
   | Some b \<Rightarrow> pbind (parse_resp pf b) (\<lambda>item n.
       pbind (parse_items pf k buf (off + n)) (\<lambda>items m. POk (item # items) m)))"
| "parse_pairs pf 0 buf off = POk [] off"
| "parse_pairs pf (Suc k) buf off = (case subslice buf off (length buf) of
     None \<Rightarrow> PPanic
   | Some b \<Rightarrow> pbind (parse_resp pf b) (\<lambda>key n.
       case subslice buf (off + n) (length buf) of
         None \<Rightarrow> PPanic
       | Some b' \<Rightarrow> pbind (parse_resp pf b') (\<lambda>val n'.
           pbind (parse_pairs pf k buf (off + n + n')) (\<lambda>ps m. POk ((key, val) # ps) m))))"
  by pat_completeness auto
termination
  by (relation "measures [
        \<lambda>a. case a of Inl (_, buf) \<Rightarrow> length buf
            | Inr (Inl (_, _, buf, off)) \<Rightarrow> length buf - off
            | Inr (Inr (_, _, buf, off)) \<Rightarrow> length buf - off,
        \<lambda>a. case a of Inl _ \<Rightarrow> 0 | Inr (Inl (_, k, _, _)) \<Rightarrow> Suc k | Inr (Inr (_, k, _, _)) \<Rightarrow> Suc k]")
    (auto dest!: header_consumed subslice_length)

declare parse_resp.simps [simp del]

section \<open>The incremental parser\<close>

record resp_parser =
  rp_buf :: bytes

definition parser_new :: resp_parser where
  "parser_new = \<lparr>rp_buf = []\<rparr>"

definition parser_feed :: "resp_parser \<Rightarrow> bytes \<Rightarrow> resp_parser" where
  "parser_feed p data = p\<lparr>rp_buf := rp_buf p @ data\<rparr>"

definition parser_buffered_len :: "resp_parser \<Rightarrow> nat" where
  "parser_buffered_len p = length (rp_buf p)"

text \<open>The outcomes of \<^verbatim>\<open>parse_one\<close>: \<open>Ok(Some v)\<close>, \<open>Ok(None)\<close>, \<open>Err(ProtocolError m)\<close>.\<close>

datatype parsed = Value resp | NeedMore | ProtocolError bytes

definition parser_parse_one :: "(bytes \<Rightarrow> f64 option) \<Rightarrow> resp_parser \<Rightarrow> (parsed \<times> resp_parser) option" where
  "parser_parse_one pf p =
     (if rp_buf p = [] then Some (NeedMore, p)
      else case parse_resp pf (rp_buf p) of
          POk v n \<Rightarrow> if n \<le> length (rp_buf p) then Some (Value v, p\<lparr>rp_buf := drop n (rp_buf p)\<rparr>) else None
        | PIncomplete \<Rightarrow> Some (NeedMore, p)
        | PInvalid m \<Rightarrow> Some (ProtocolError m, p)
        | PPanic \<Rightarrow> None)"

section \<open>No panic\<close>

lemma find_crlf_Some:
  "find_crlf buf = Some pos \<Longrightarrow> pos + 2 \<le> length buf \<and> drop pos buf = crlf @ drop (pos + 2) buf
     \<and> find_crlf (take (pos + 1) buf) = None"
proof (induction buf arbitrary: pos rule: find_crlf.induct)
  case (1 a b bs)
  show ?case
  proof (cases "a = 0x0D \<and> b = 0x0A")
    case True
    then show ?thesis using 1(2) by simp
  next
    case False
    then obtain q where q: "find_crlf (b # bs) = Some q" "pos = Suc q" using 1(2) by auto
    then show ?thesis using 1(1) [OF False q(1)] False by (cases "take q bs") auto
  qed
qed auto

lemma parse_line_ok:
  assumes "c \<noteq> 0x0D"
  shows "parse_line (c # cs) \<noteq> PPanic"
    and "parse_line (c # cs) = POk l n \<Longrightarrow> n \<le> length (c # cs)"
proof -
  have "0 < pos" if "find_crlf (c # cs) = Some pos" for pos
    using that assms by (cases cs) (auto split: if_splits)
  then show "parse_line (c # cs) \<noteq> PPanic" "parse_line (c # cs) = POk l n \<Longrightarrow> n \<le> length (c # cs)"
    using find_crlf_Some [of "c # cs"]
    by (auto simp: parse_line_def subslice_def split: option.splits if_splits)
qed

text \<open>What a parser of a value promises: it does not panic and consumes at least two bytes of those given.\<close>

definition in_bounds :: "bytes \<Rightarrow> 'a pres \<Rightarrow> bool" where
  "in_bounds buf r \<longleftrightarrow> r \<noteq> PPanic \<and> (\<forall>x n. r = POk x n \<longrightarrow> 0 < n \<and> n \<le> length buf)"

lemma in_bounds_line:
  assumes "c \<noteq> 0x0D"
    and "\<And>l n. parse_line (c # cs) = POk l n \<Longrightarrow> 0 < n \<Longrightarrow> n \<le> length (c # cs) \<Longrightarrow> in_bounds (c # cs) (f l n)"
  shows "in_bounds (c # cs) (pbind (parse_line (c # cs)) f)"
  using parse_line_ok [OF assms(1), of cs] parse_line_consumed [of "c # cs"] assms(2)
  by (cases "parse_line (c # cs)") (auto simp: in_bounds_def)

lemma in_bounds_leaf [simp]:
  "in_bounds buf PIncomplete" "in_bounds buf (PInvalid m)"
  "in_bounds buf (POk x n) \<longleftrightarrow> 0 < n \<and> n \<le> length buf"
  by (auto simp: in_bounds_def)

lemma in_bounds_bulk: "c \<noteq> 0x0D \<Longrightarrow> in_bounds (c # cs) (parse_bulk_string (c # cs))"
  unfolding parse_bulk_string_def
  by (rule in_bounds_line) (auto simp: Let_def subslice_def split: option.split)

lemma in_bounds_null: "in_bounds buf (parse_resp3_null buf)"
  by (auto simp: parse_resp3_null_def subslice_def)

lemma in_bounds_bool: "in_bounds buf (parse_resp3_bool buf)"
  by (auto simp: parse_resp3_bool_def subslice_def index_def)

lemma in_bounds_inline: "in_bounds buf (parse_inline buf)"
  using find_crlf_Some [of buf]
  by (auto simp: parse_inline_def in_bounds_def split: option.split)

lemma in_bounds_simple:
  assumes "c \<noteq> 0x0D"
  shows "in_bounds (c # cs) (parse_simple_string (c # cs))" "in_bounds (c # cs) (parse_error (c # cs))"
    "in_bounds (c # cs) (parse_integer (c # cs))" "in_bounds (c # cs) (parse_resp3_double pf (c # cs))"
    "in_bounds (c # cs) (array_header (c # cs))" "in_bounds (c # cs) (resp3_header what (c # cs))"
  unfolding parse_simple_string_def parse_error_def parse_integer_def parse_resp3_double_def
    array_header_def resp3_header_def
  by (rule in_bounds_line [OF assms], auto simp: Let_def split: option.split)+

text \<open>A loop started inside the buffer stays in it.\<close>

definition off_bounds :: "nat \<Rightarrow> bytes \<Rightarrow> 'a pres \<Rightarrow> bool" where
  "off_bounds off buf r \<longleftrightarrow> r \<noteq> PPanic \<and> (\<forall>x m. r = POk x m \<longrightarrow> off \<le> m \<and> m \<le> length buf)"

lemma agg_bounds:
  assumes "in_bounds buf h" and "\<And>x n. h = POk x n \<Longrightarrow> off_bounds n buf (f x n)"
  shows "in_bounds buf (pbind h f)"
proof (cases h)
  case (POk x n)
  have "0 < n" using assms(1) by (simp add: POk)
  moreover have "f x n \<noteq> PPanic" "f x n = POk y m \<Longrightarrow> n \<le> m \<and> m \<le> length buf" for y m
    using assms(2) [OF POk] by (auto simp: off_bounds_def)
  ultimately have "f x n = POk y m \<Longrightarrow> 0 < m \<and> m \<le> length buf" for y m by (meson less_le_trans)
  then show ?thesis using \<open>f x n \<noteq> PPanic\<close> by (simp add: POk in_bounds_def)
qed (use assms(1) in \<open>auto simp: in_bounds_def\<close>)

lemma off_bounds_map: "off_bounds n buf r \<Longrightarrow> off_bounds n buf (pbind r (\<lambda>x m. POk (g x) m))"
  by (cases r) (auto simp: off_bounds_def)

lemma off_bounds_step:
  assumes "off \<le> length buf" and "in_bounds (drop off buf) r"
    and "\<And>x n. r = POk x n \<Longrightarrow> off + n \<le> length buf \<Longrightarrow> off_bounds (off + n) buf (f x n)"
  shows "off_bounds off buf (pbind r f)"
proof (cases r)
  case (POk x n)
  have "off + n \<le> length buf" using assms(1,2) by (auto simp: POk)
  then have "f x n \<noteq> PPanic" "f x n = POk y m \<Longrightarrow> off + n \<le> m \<and> m \<le> length buf" for y m
    using assms(3) [OF POk] by (auto simp: off_bounds_def)
  then have "f x n = POk y m \<Longrightarrow> off \<le> m \<and> m \<le> length buf" for y m by (meson add_leD1)
  then show ?thesis using \<open>f x n \<noteq> PPanic\<close> by (simp add: POk off_bounds_def)
qed (use assms(2) in \<open>auto simp: in_bounds_def off_bounds_def\<close>)

lemma parse_bounds:
  shows "in_bounds buf (parse_resp pf buf)"
    and "off \<le> length buf \<Longrightarrow> off_bounds off buf (parse_items pf k buf off)"
    and "off \<le> length buf \<Longrightarrow> off_bounds off buf (parse_pairs pf k buf off)"
proof (induction pf buf and pf k buf off and pf k buf off rule: parse_resp_parse_items_parse_pairs.induct)
  case (2 pf c cs)
  note IH = 2
  have agg: "in_bounds (c # cs) (array_header (c # cs))" "in_bounds (c # cs) (resp3_header what (c # cs))"
    if "c \<noteq> 0x0D" for what using in_bounds_simple [OF that] by auto
  have hl: "n \<le> length (c # cs)" if "array_header (c # cs) = POk h n" "c \<noteq> 0x0D" for h n
    using agg(1) [OF that(2)] that(1) by (simp add: in_bounds_def)
  have hl3: "n \<le> length (c # cs)" if "resp3_header what (c # cs) = POk h n" "c \<noteq> 0x0D" for h n what
    using agg(2) [OF that(2), of what] that(1) by (simp add: in_bounds_def)
  consider "c = 0x2B" | "c = 0x2D" | "c = 0x3A" | "c = 0x24" | "c = 0x2A" | "c = 0x5F" | "c = 0x23" | "c = 0x2C"
    | "c = 0x25" | "c = 0x7E" | "c = 0x3E"
    | "c \<notin> {0x2B, 0x2D, 0x3A, 0x24, 0x2A, 0x5F, 0x23, 0x2C, 0x25, 0x7E, 0x3E}" by blast
  then show ?case
  proof cases
    case 5
    have it: "off_bounds n (c # cs) (parse_items pf len (c # cs) n)"
      if "array_header (c # cs) = POk (Some len) n" for len n
      using IH(1) [of "Some len" n len] hl [OF that] that 5 by simp
    have "parse_resp pf (c # cs) = pbind (array_header (c # cs)) (\<lambda>h header_len.
        case h of
          None \<Rightarrow> POk (RArray None) header_len
        | Some len \<Rightarrow> pbind (parse_items pf len (c # cs) header_len) (\<lambda>items n. POk (RArray (Some items)) n))"
      unfolding parse_resp.simps 5 by simp
    then show ?thesis using 5 hl it agg(1)
      by (auto intro!: agg_bounds off_bounds_map simp: off_bounds_def [of _ _ "POk _ _"] split: option.split)
  next
    case 9
    have it: "off_bounds n (c # cs) (parse_pairs pf len (c # cs) n)"
      if "resp3_header ''map'' (c # cs) = POk len n" for len n
      using IH(2) [of len n] hl3 [OF that] that 9 by simp
    have "parse_resp pf (c # cs) = pbind (resp3_header ''map'' (c # cs)) (\<lambda>count header_len.
        pbind (parse_pairs pf count (c # cs) header_len) (\<lambda>ps n. POk (RMap ps) n))"
      by (simp add: parse_resp.simps 9)
    then show ?thesis using 9 it agg(2) by (auto intro!: agg_bounds off_bounds_map)
  next
    case 10
    have it: "off_bounds n (c # cs) (parse_items pf len (c # cs) n)"
      if "resp3_header ''set'' (c # cs) = POk len n" for len n
      using IH(3) [of len n] hl3 [OF that] that 10 by simp
    have "parse_resp pf (c # cs) = pbind (resp3_header ''set'' (c # cs)) (\<lambda>count header_len.
        pbind (parse_items pf count (c # cs) header_len) (\<lambda>items n. POk (RSet items) n))"
      by (simp add: parse_resp.simps 10)
    then show ?thesis using 10 it agg(2) by (auto intro!: agg_bounds off_bounds_map)
  next
    case 11
    have it: "off_bounds n (c # cs) (parse_items pf len (c # cs) n)"
      if "resp3_header ''push'' (c # cs) = POk len n" for len n
      using IH(4) [of len n] hl3 [OF that] that 11 by simp
    have "parse_resp pf (c # cs) = pbind (resp3_header ''push'' (c # cs)) (\<lambda>count header_len.
        pbind (parse_items pf count (c # cs) header_len) (\<lambda>items n. POk (RPush items) n))"
      by (simp add: parse_resp.simps 11)
    then show ?thesis using 11 it agg(2) by (auto intro!: agg_bounds off_bounds_map)
  qed (auto simp: parse_resp.simps in_bounds_simple in_bounds_bulk in_bounds_null in_bounds_bool in_bounds_inline)
next
  case (4 pf k buf off)
  then have s: "subslice buf off (length buf) = Some (drop off buf)" by (simp add: subslice_suffix)
  show ?case unfolding parse_items.simps s option.case
    by (rule off_bounds_step [OF 4(3) 4(1) [OF s]]) (intro off_bounds_map 4(2) [OF s])
next
  case (6 pf k buf off)
  then have s: "subslice buf off (length buf) = Some (drop off buf)" by (simp add: subslice_suffix)
  show ?case unfolding parse_pairs.simps s option.case
  proof (rule off_bounds_step [OF 6(4) 6(1) [OF s]])
    fix key n assume k: "parse_resp pf (drop off buf) = POk key n" and le: "off + n \<le> length buf"
    then have s': "subslice buf (off + n) (length buf) = Some (drop (off + n) buf)"
      by (simp add: subslice_suffix)
    show "off_bounds (off + n) buf (case subslice buf (off + n) (length buf) of None \<Rightarrow> PPanic
       | Some b' \<Rightarrow> pbind (parse_resp pf b') (\<lambda>val n'.
           pbind (parse_pairs pf k buf (off + n + n')) (\<lambda>ps m. POk ((key, val) # ps) m)))"
      unfolding s' option.case
      by (rule off_bounds_step [OF le 6(2) [OF s k s']]) (intro off_bounds_map 6(3) [OF s k s'])
  qed
qed (auto simp: off_bounds_def parse_resp.simps)

section \<open>Reading back what was written\<close>

text \<open>What a client that speaks the given protocol version reads for a value: the degradations the
  serialiser makes for RESP2, and the single null of RESP3.\<close>

fun resp_norm :: "(f64 \<Rightarrow> bytes) \<Rightarrow> nat \<Rightarrow> resp \<Rightarrow> resp" where
  "resp_norm fmt v (BulkString None) = (if v \<ge> 3 then RNull else BulkString None)"
| "resp_norm fmt v (RArray None) = (if v \<ge> 3 then RNull else RArray None)"
| "resp_norm fmt v (RArray (Some items)) = RArray (Some (map (resp_norm fmt v) items))"
| "resp_norm fmt v (RBool b) = (if v \<ge> 3 then RBool b else RInteger (if b then 1 else 0))"
| "resp_norm fmt v (RDouble d) = (if v \<ge> 3 then RDouble d else BulkString (Some (fmt d)))"
| "resp_norm fmt v (RMap ps) =
     (if v \<ge> 3 then RMap (map (\<lambda>(k, w). (resp_norm fmt v k, resp_norm fmt v w)) ps)
      else RArray (Some (concat (map (\<lambda>(k, w). [resp_norm fmt v k, resp_norm fmt v w]) ps))))"
| "resp_norm fmt v (RSet items) =
     (if v \<ge> 3 then RSet (map (resp_norm fmt v) items) else RArray (Some (map (resp_norm fmt v) items)))"
| "resp_norm fmt v (RPush items) =
     (if v \<ge> 3 then RPush (map (resp_norm fmt v) items) else RArray (Some (map (resp_norm fmt v) items)))"
| "resp_norm fmt v r = r"

text \<open>Values the parser accepts: lines without CRLF, lengths within its limits, numbers in range, no
  preserialised bytes.\<close>

fun resp_wf :: "resp \<Rightarrow> bool" where
  "resp_wf (SimpleString s) \<longleftrightarrow> find_crlf s = None \<and> utf8_valid s"
| "resp_wf (RError s) \<longleftrightarrow> find_crlf s = None \<and> utf8_valid s"
| "resp_wf (RInteger n) \<longleftrightarrow> i64_ok n"
| "resp_wf (BulkString None) \<longleftrightarrow> True"
| "resp_wf (BulkString (Some data)) \<longleftrightarrow> length data \<le> MAX_BULK_LEN"
| "resp_wf (RArray None) \<longleftrightarrow> True"
| "resp_wf (RArray (Some items)) \<longleftrightarrow> length items \<le> MAX_ARRAY_LEN \<and> (\<forall>r \<in> set items. resp_wf r)"
| "resp_wf RNull \<longleftrightarrow> True"
| "resp_wf (RBool b) \<longleftrightarrow> True"
| "resp_wf (RDouble d) \<longleftrightarrow> \<not> f64_is_nan d"
| "resp_wf (RMap ps) \<longleftrightarrow> length ps * 2 \<le> MAX_ARRAY_LEN \<and> (\<forall>(k, w) \<in> set ps. resp_wf k \<and> resp_wf w)"
| "resp_wf (RSet items) \<longleftrightarrow> length items \<le> MAX_ARRAY_LEN \<and> (\<forall>r \<in> set items. resp_wf r)"
| "resp_wf (RPush items) \<longleftrightarrow> length items \<le> MAX_ARRAY_LEN \<and> (\<forall>r \<in> set items. resp_wf r)"
| "resp_wf (RRaw bs) \<longleftrightarrow> False"

text \<open>How doubles are printed and read: the text of a number reads back as it (the documented round
  trip of \<^verbatim>\<open>Display\<close> and \<^verbatim>\<open>FromStr\<close>), in ASCII, on one line.\<close>

definition f64_text_laws :: "(f64 \<Rightarrow> bytes) \<Rightarrow> (bytes \<Rightarrow> f64 option) \<Rightarrow> bool" where
  "f64_text_laws fmt pf \<longleftrightarrow>
     (\<forall>d. \<not> f64_is_nan d \<longrightarrow> pf (fmt d) = Some d)
     \<and> (\<forall>d. (\<forall>b \<in> set (fmt d). b < 0x80 \<and> b \<noteq> 0x0D) \<and> length (fmt d) \<le> MAX_BULK_LEN)"

subsection \<open>Lines\<close>

lemma find_crlf_no_cr: "0x0D \<notin> set s \<Longrightarrow> find_crlf s = None"
  by (induction s rule: find_crlf.induct) auto

lemma find_crlf_append: "find_crlf s = None \<Longrightarrow> find_crlf (s @ crlf @ rest) = Some (length s)"
proof (induction s rule: find_crlf.induct)
  case (1 a b bs)
  then show ?case by (auto split: if_splits)
qed simp_all

lemma find_crlf_take: "find_crlf s = None \<Longrightarrow> find_crlf (take k s) = None"
proof (induction s arbitrary: k rule: find_crlf.induct)
  case (1 a b bs)
  have tl: "find_crlf (b # bs) = None" using 1(2) by (auto split: if_splits)
  have ne: "\<not> (a = 0x0D \<and> b = 0x0A)" using 1(2) by (auto split: if_splits)
  show ?case
  proof (cases k)
    case (Suc j)
    then show ?thesis using 1(1) [OF ne tl, of j] ne by (cases j) auto
  qed simp
next
  case "2_2"
  then show ?case by (cases k) simp_all
qed simp

lemma find_crlf_Cons: "c \<noteq> 0x0D \<Longrightarrow> find_crlf s = None \<Longrightarrow> find_crlf (c # s) = None"
  by (cases s) simp_all

lemma find_crlf_cut: "find_crlf s = None \<Longrightarrow> k < length s + 2 \<Longrightarrow> find_crlf (take k (s @ crlf)) = None"
proof -
  assume a: "find_crlf s = None" "k < length s + 2"
  have "find_crlf (take (length s + 1) (s @ crlf)) = None"
    using find_crlf_Some [OF find_crlf_append [OF a(1), of "[]"]] by simp
  moreover have "take k (take (length s + 1) (s @ crlf)) = take k (s @ crlf)"
    using a(2) by (simp only: take_take) (simp add: min_def)
  ultimately show ?thesis using find_crlf_take [of "take (length s + 1) (s @ crlf)" k] by simp
qed

lemma line_full:
  assumes "c \<noteq> 0x0D" and "find_crlf s = None"
  shows "parse_line (c # s @ crlf @ rest) = POk s (length s + 3)"
  using find_crlf_append [OF find_crlf_Cons [OF assms], of rest]
  by (simp add: parse_line_def subslice_def)

lemma line_cut:
  assumes "c \<noteq> 0x0D" and "find_crlf s = None" and "k < length s + 3"
  shows "parse_line (take k (c # s @ crlf @ rest)) = PIncomplete"
proof -
  have "take k (c # s @ crlf @ rest) = take k ((c # s) @ crlf)" using assms(3) by (simp add: take_Cons')
  then show ?thesis using find_crlf_cut [OF find_crlf_Cons [OF assms(1,2)], of k] assms(3)
    by (simp add: parse_line_def)
qed

lemma utf8_ascii: "\<forall>b \<in> set s. b < 0x80 \<Longrightarrow> utf8_valid s"
  by (induction s) auto

lemma digits_ascii: "list_all is_digit ds \<Longrightarrow> (\<forall>b \<in> set ds. b < 0x80 \<and> b \<noteq> 0x0D)"
proof (induction ds)
  case (Cons d ds)
  then have "d \<le> 0x39" by (simp add: is_digit_def)
  then have "d < 0x80" by (rule order_le_less_trans) simp
  moreover have "d \<noteq> 0x0D" using Cons.prems is_digit_neq by auto
  ultimately show ?case using Cons by simp
qed simp

lemma dec_line: "find_crlf (dec n) = None" "utf8_valid (dec n)"
  "find_crlf (dec_int i) = None" "utf8_valid (dec_int i)"
proof -
  have a: "\<forall>b \<in> set (dec m). b < 0x80 \<and> b \<noteq> 0x0D" for m by (rule digits_ascii [OF dec_digits])
  then have b: "\<forall>b \<in> set (dec_int i). b < 0x80 \<and> b \<noteq> 0x0D" by (auto simp: dec_int_def)
  show "find_crlf (dec n) = None" "utf8_valid (dec n)" using a [of n] by (auto intro: find_crlf_no_cr utf8_ascii)
  show "find_crlf (dec_int i) = None" "utf8_valid (dec_int i)" using b by (auto intro: find_crlf_no_cr utf8_ascii)
qed

lemma dec_line_i64: "n < 2 ^ 63 \<Longrightarrow> parse_i64 (dec n) = Some (int n)"
  using parse_i64_dec_int [of "int n"] by (simp add: i64_ok_def dec_int_def)

subsection \<open>Leaves\<close>

text \<open>A line-based value: complete with anything after it, incomplete at every proper prefix.\<close>

lemma parse_cut:
  assumes "c \<notin> {0x5F, 0x23}" and "c \<in> {0x2B, 0x2D, 0x3A, 0x24, 0x2A, 0x2C, 0x25, 0x7E, 0x3E}"
    and "find_crlf s = None" and "k < length s + 3"
  shows "parse_resp pf (take k (c # s @ crlf @ rest)) = PIncomplete"
proof (cases k)
  case 0
  then show ?thesis by (simp add: parse_resp.simps)
next
  case (Suc j)
  have "c \<noteq> 0x0D" using assms(2) by auto
  then have "parse_line (c # take j (s @ crlf @ rest)) = PIncomplete"
    using line_cut [OF _ assms(3,4), of c rest] Suc by simp
  then show ?thesis using assms(2) Suc
    by (auto simp: parse_resp.simps parse_simple_string_def parse_error_def parse_integer_def
        parse_bulk_string_def array_header_def resp3_header_def parse_resp3_double_def)
qed

lemma parse_int_full:
  assumes "i64_ok n"
  shows "parse_resp pf (0x3A # dec_int n @ crlf @ rest) = POk (RInteger n) (length (dec_int n) + 3)"
  using line_full [of "0x3A" "dec_int n" rest] assms
  by (simp add: parse_resp.simps parse_integer_def dec_line parse_i64_dec_int)

lemma parse_bulk_full:
  assumes "length data \<le> MAX_BULK_LEN"
  shows "parse_resp pf (header 0x24 (length data) @ data @ crlf @ rest)
    = POk (BulkString (Some data)) (length (header 0x24 (length data)) + length data + 2)"
proof -
  let ?h = "header 0x24 (length data)"
  let ?buf = "0x24 # dec (length data) @ crlf @ data @ crlf @ rest"
  have "parse_line ?buf = POk (dec (length data)) (length (dec (length data)) + 3)"
    using line_full [of "0x24" "dec (length data)" "data @ crlf @ rest"] dec_line by simp
  moreover have "parse_i64 (dec (length data)) = Some (int (length data))"
    using assms by (intro dec_line_i64) (simp add: MAX_BULK_LEN_def)
  moreover have "subslice ?buf (length (dec (length data)) + 3) (length (dec (length data)) + 3 + length data)
      = Some data"
    using subslice_append [of "length (dec (length data)) + 3" ?h
        "length (dec (length data)) + 3 + length data" data "crlf @ rest"] by (simp add: header_def)
  moreover have "subslice ?buf (length (dec (length data)) + 3 + length data)
      (length (dec (length data)) + 3 + length data + 2) = Some crlf"
    using subslice_append [of "length (dec (length data)) + 3 + length data" "?h @ data"
        "length (dec (length data)) + 3 + length data + 2" crlf rest] by (simp add: header_def)
  ultimately have "parse_bulk_string ?buf = POk (BulkString (Some data)) (length ?h + length data + 2)"
    using assms dec_line by (simp add: parse_bulk_string_def header_def Let_def)
  then show ?thesis by (simp add: parse_resp.simps header_def)
qed

lemma parse_bulk_cut:
  assumes "length data \<le> MAX_BULK_LEN" and "k < length (header 0x24 (length data)) + length data + 2"
  shows "parse_resp pf (take k (header 0x24 (length data) @ data @ crlf)) = PIncomplete"
proof (cases "k < length (dec (length data)) + 3")
  case True
  then show ?thesis
    using parse_cut [of "0x24" "dec (length data)" k pf "data @ crlf"] dec_line by (simp add: header_def)
next
  case False
  define r where "r = take (k - (length (dec (length data)) + 3)) (data @ crlf)"
  have t: "take k (header 0x24 (length data) @ data @ crlf) = 0x24 # dec (length data) @ crlf @ r"
    using False take_append [of k "header 0x24 (length data)" "data @ crlf"]
    by (simp add: r_def header_def numeral_3_eq_3)
  have "length r < length data + 2" using assms(2) False by (simp add: r_def header_def)
  moreover have "parse_i64 (dec (length data)) = Some (int (length data))"
    using assms(1) by (intro dec_line_i64) (simp add: MAX_BULK_LEN_def)
  moreover have "parse_line (0x24 # dec (length data) @ crlf @ r)
      = POk (dec (length data)) (length (dec (length data)) + 3)"
    using line_full [of "0x24" "dec (length data)" r] dec_line by simp
  ultimately have "parse_bulk_string (0x24 # dec (length data) @ crlf @ r) = PIncomplete"
    using assms(1) dec_line by (simp add: parse_bulk_string_def Let_def)
  then show ?thesis unfolding t by (simp add: parse_resp.simps)
qed

lemma array_header_full:
  assumes "n \<le> MAX_ARRAY_LEN"
  shows "array_header (header 0x2A n @ rest) = POk (Some n) (length (header 0x2A n))"
proof -
  have "parse_i64 (dec n) = Some (int n)"
    using assms by (intro dec_line_i64) (simp add: MAX_ARRAY_LEN_def)
  then show ?thesis using line_full [of "0x2A" "dec n" rest] assms dec_line
    by (simp add: array_header_def header_def Let_def)
qed

lemma resp3_header_full:
  assumes "n \<le> MAX_ARRAY_LEN" and "c \<noteq> 0x0D"
  shows "resp3_header what (header c n @ rest) = POk n (length (header c n))"
proof -
  have "parse_usize (dec n) = Some n"
    using assms by (intro parse_usize_dec) (simp add: MAX_ARRAY_LEN_def)
  then show ?thesis using line_full [of c "dec n" rest] assms dec_line
    by (simp add: resp3_header_def header_def)
qed

lemma parse_null_bool:
  "parse_resp pf ([0x5F] @ crlf @ rest) = POk RNull 3"
  "parse_resp pf ([0x23, if b then 0x74 else 0x66] @ crlf @ rest) = POk (RBool b) 4"
  by (simp_all add: parse_resp.simps parse_resp3_null_def parse_resp3_bool_def subslice_def index_def)

lemma parse_null_bool_cut:
  "k < 3 \<Longrightarrow> parse_resp pf (take k ([0x5F] @ crlf)) = PIncomplete"
  "k < 4 \<Longrightarrow> parse_resp pf (take k ([0x23, x] @ crlf)) = PIncomplete"
proof -
  show "k < 3 \<Longrightarrow> parse_resp pf (take k ([0x5F] @ crlf)) = PIncomplete"
    by (cases k) (simp_all add: parse_resp.simps parse_resp3_null_def)
  show "k < 4 \<Longrightarrow> parse_resp pf (take k ([0x23, x] @ crlf)) = PIncomplete"
    by (cases k) (simp_all add: parse_resp.simps parse_resp3_bool_def)
qed

subsection \<open>Aggregates\<close>

lemma length_header [simp]: "length (header c n) = length (dec n) + 3"
  by (simp add: header_def)

definition reads :: "(bytes \<Rightarrow> f64 option) \<Rightarrow> bytes \<Rightarrow> resp \<Rightarrow> bool" where
  "reads pf e r \<longleftrightarrow> (\<forall>rest. parse_resp pf (e @ rest) = POk r (length e))
     \<and> (\<forall>k < length e. parse_resp pf (take k e) = PIncomplete)"

lemma parse_items_full:
  assumes "list_all2 (reads pf) es rs"
  shows "parse_items pf (length es) (pre @ concat es @ rest) (length pre)
    = POk rs (length pre + length (concat es))"
  using assms
proof (induction es rs arbitrary: pre rule: list_all2_induct)
  case (Cons e es r rs)
  have "parse_resp pf (e @ concat es @ rest) = POk r (length e)" using Cons(1) by (simp add: reads_def)
  moreover have "subslice (pre @ e @ concat es @ rest) (length pre) (length (pre @ e @ concat es @ rest))
      = Some (e @ concat es @ rest)" by (simp add: subslice_def)
  moreover note Cons.IH [of "pre @ e"]
  ultimately show ?case by simp
qed simp

lemma parse_items_cut:
  assumes "list_all2 (reads pf) es rs" and "k < length (concat es)"
  shows "parse_items pf (length es) (pre @ take k (concat es)) (length pre) = PIncomplete"
  using assms
proof (induction es rs arbitrary: pre k rule: list_all2_induct)
  case (Cons e es r rs)
  let ?buf = "pre @ take k (e @ concat es)"
  have s: "subslice ?buf (length pre) (length ?buf) = Some (take k (e @ concat es))"
    using subslice_suffix [of "length pre" ?buf] by (simp del: take_append)
  show ?case
  proof (cases "k < length e")
    case True
    then have "parse_resp pf (take k (e @ concat es)) = PIncomplete" using Cons(1) by (simp add: reads_def)
    then show ?thesis using s by (simp del: take_append)
  next
    case False
    then have t: "take k (e @ concat es) = e @ take (k - length e) (concat es)" by simp
    have "parse_resp pf (take k (e @ concat es)) = POk r (length e)"
      unfolding t using Cons(1) by (simp add: reads_def)
    moreover have "parse_items pf (length es) ?buf (length pre + length e) = PIncomplete"
      using Cons.IH [of "k - length e" "pre @ e"] Cons.prems False unfolding t by simp
    ultimately show ?thesis using s by (simp del: take_append)
  qed
qed simp

lemma take_beyond: "length h \<le> k \<Longrightarrow> take k (h @ b) = h @ take (k - length h) b"
  by simp

text \<open>An aggregate reads back when its elements do: the loop it runs after its header is
  \<^const>\<open>parse_items\<close> over the encoded elements.\<close>

lemma reads_agg:
  assumes el: "list_all2 (reads pf) es rs" and n: "n = length es" "n \<le> MAX_ARRAY_LEN"
    and c: "c \<in> {0x2A, 0x7E, 0x3E}"
    and step: "\<And>buf. parse_resp pf (header c n @ buf) =
       pbind (parse_items pf n (header c n @ buf) (length (header c n))) (\<lambda>items m. POk (f items) m)"
  shows "reads pf (header c n @ concat es) (f rs)"
  unfolding reads_def
proof (intro conjI allI impI)
  fix rest
  show "parse_resp pf ((header c n @ concat es) @ rest) = POk (f rs) (length (header c n @ concat es))"
    using step [of "concat es @ rest"] parse_items_full [OF el, of "header c n" rest] n(1) by simp
next
  fix k
  assume k: "k < length (header c n @ concat es)"
  show "parse_resp pf (take k (header c n @ concat es)) = PIncomplete"
  proof (cases "k < length (header c n)")
    case True
    then show ?thesis
      using parse_cut [of c "dec n" k pf "concat es"] c dec_line(1) [of n] by (auto simp: header_def)
  next
    case False
    then have t: "take k (header c n @ concat es) = header c n @ take (k - length (header c n)) (concat es)"
      by (intro take_beyond) simp
    have "k - length (header c n) < length (concat es)" using k False by simp
    then show ?thesis unfolding t step using parse_items_cut [OF el, of _ "header c n"] n(1) by simp
  qed
qed

lemma header_Cons: "\<exists>t. header c n @ buf = c # t"
  by (simp add: header_def)

lemma step_array:
  assumes "n \<le> MAX_ARRAY_LEN"
  shows "parse_resp pf (header 0x2A n @ buf) =
    pbind (parse_items pf n (header 0x2A n @ buf) (length (header 0x2A n))) (\<lambda>items m. POk (RArray (Some items)) m)"
proof -
  obtain t where t: "header 0x2A n @ buf = 0x2A # t" using header_Cons by blast
  show ?thesis using array_header_full [OF assms, of buf] unfolding t by (simp add: parse_resp.simps)
qed

lemma step_resp3:
  assumes "n \<le> MAX_ARRAY_LEN"
  shows "parse_resp pf (header 0x7E n @ buf) =
      pbind (parse_items pf n (header 0x7E n @ buf) (length (header 0x7E n))) (\<lambda>items m. POk (RSet items) m)"
    and "parse_resp pf (header 0x3E n @ buf) =
      pbind (parse_items pf n (header 0x3E n @ buf) (length (header 0x3E n))) (\<lambda>items m. POk (RPush items) m)"
    and "parse_resp pf (header 0x25 n @ buf) =
      pbind (parse_pairs pf n (header 0x25 n @ buf) (length (header 0x25 n))) (\<lambda>ps m. POk (RMap ps) m)"
proof -
  obtain t1 t2 t3 where t: "header 0x7E n @ buf = 0x7E # t1" "header 0x3E n @ buf = 0x3E # t2"
    "header 0x25 n @ buf = 0x25 # t3" using header_Cons by metis
  note h = resp3_header_full [OF assms]
  show "parse_resp pf (header 0x7E n @ buf) =
      pbind (parse_items pf n (header 0x7E n @ buf) (length (header 0x7E n))) (\<lambda>items m. POk (RSet items) m)"
    using h [of "0x7E" "''set''" buf] unfolding t by (simp add: parse_resp.simps)
  show "parse_resp pf (header 0x3E n @ buf) =
      pbind (parse_items pf n (header 0x3E n @ buf) (length (header 0x3E n))) (\<lambda>items m. POk (RPush items) m)"
    using h [of "0x3E" "''push''" buf] unfolding t by (simp add: parse_resp.simps)
  show "parse_resp pf (header 0x25 n @ buf) =
      pbind (parse_pairs pf n (header 0x25 n @ buf) (length (header 0x25 n))) (\<lambda>ps m. POk (RMap ps) m)"
    using h [of "0x25" "''map''" buf] unfolding t by (simp add: parse_resp.simps)
qed

lemma reads_array:
  assumes "list_all2 (reads pf) es rs" and "length es \<le> MAX_ARRAY_LEN"
  shows "reads pf (header 0x2A (length es) @ concat es) (RArray (Some rs))"
    and "reads pf (header 0x7E (length es) @ concat es) (RSet rs)"
    and "reads pf (header 0x3E (length es) @ concat es) (RPush rs)"
  using reads_agg [OF assms(1) refl assms(2), of "0x2A" "\<lambda>items. RArray (Some items)"]
    reads_agg [OF assms(1) refl assms(2), of "0x7E" RSet]
    reads_agg [OF assms(1) refl assms(2), of "0x3E" RPush] step_array [OF assms(2)] step_resp3 [OF assms(2)]
  by simp_all

text \<open>Maps: the same, two values at a time.\<close>

lemma parse_pairs_items:
  "parse_pairs pf k buf off = pbind (parse_items pf (2 * k) buf off) (\<lambda>xs m.
     POk (map (\<lambda>i. (xs ! (2 * i), xs ! (2 * i + 1))) [0 ..< k]) m)"
proof (induction k arbitrary: off)
  case (Suc k)
  have two: "2 * Suc k = Suc (Suc (2 * k))" by simp
  have up: "[0 ..< Suc k] = 0 # map Suc [0 ..< k]" by (simp only: upt_conv_Cons map_Suc_upt zero_less_Suc)
  show ?case unfolding two parse_items.simps parse_pairs.simps Suc.IH up
    by (cases "subslice buf off (length buf)"; simp split: pbind_split option.split; force)
qed simp

definition flat2 :: "('a \<times> 'a) list \<Rightarrow> 'a list" where
  "flat2 ps = concat (map (\<lambda>(k, w). [k, w]) ps)"

lemma flat2_simps [simp]: "flat2 [] = []" "flat2 ((k, w) # ps) = k # w # flat2 ps"
  by (simp_all add: flat2_def)

lemma length_flat2 [simp]: "length (flat2 ps) = 2 * length ps"
  by (induction ps) auto

lemma unflat2: "map (\<lambda>i. (flat2 ps ! (2 * i), flat2 ps ! (2 * i + 1))) [0 ..< length ps] = ps"
proof (induction ps)
  case (Cons p ps)
  have up: "[0 ..< Suc (length ps)] = 0 # map Suc [0 ..< length ps]"
    by (simp only: upt_conv_Cons map_Suc_upt zero_less_Suc)
  show ?case using Cons by (cases p) (simp add: up comp_def del: upt_Suc)
qed simp

lemma reads_map:
  assumes "list_all2 (reads pf) (flat2 es) (flat2 rs)" and "length es = length rs"
    and "length es \<le> MAX_ARRAY_LEN"
  shows "reads pf (header 0x25 (length es) @ concat (flat2 es)) (RMap rs)"
proof -
  let ?n = "length es"
  have step: "parse_resp pf (header 0x25 ?n @ buf) =
      pbind (parse_items pf (length (flat2 es)) (header 0x25 ?n @ buf) (length (header 0x25 ?n)))
        (\<lambda>xs m. POk (RMap (map (\<lambda>i. (xs ! (2 * i), xs ! (2 * i + 1))) [0 ..< ?n])) m)" for buf
    unfolding step_resp3(3) [OF assms(3)] parse_pairs_items length_flat2
    by (cases "parse_items pf (2 * ?n) (header 0x25 ?n @ buf) (length (header 0x25 ?n))") simp_all
  show ?thesis unfolding reads_def
  proof (intro conjI allI impI)
    fix rest
    show "parse_resp pf ((header 0x25 ?n @ concat (flat2 es)) @ rest)
        = POk (RMap rs) (length (header 0x25 ?n @ concat (flat2 es)))"
      using step [of "concat (flat2 es) @ rest"] parse_items_full [OF assms(1), of "header 0x25 ?n" rest]
        unflat2 [of rs] assms(2) by simp
  next
    fix k
    assume k: "k < length (header 0x25 ?n @ concat (flat2 es))"
    show "parse_resp pf (take k (header 0x25 ?n @ concat (flat2 es))) = PIncomplete"
    proof (cases "k < length (header 0x25 ?n)")
      case True
      then show ?thesis using parse_cut [of "0x25" "dec ?n" k pf "concat (flat2 es)"] dec_line(1) [of ?n]
        by (auto simp: header_def)
    next
      case False
      then have t: "take k (header 0x25 ?n @ concat (flat2 es))
          = header 0x25 ?n @ take (k - length (header 0x25 ?n)) (concat (flat2 es))"
        by (intro take_beyond) simp
      have "k - length (header 0x25 ?n) < length (concat (flat2 es))" using k False by simp
      then show ?thesis unfolding t step using parse_items_cut [OF assms(1), of _ "header 0x25 ?n"] by simp
    qed
  qed
qed

subsection \<open>All values\<close>

lemma reads_line:
  assumes "c \<in> {0x2B, 0x2D, 0x3A, 0x2C}" and "find_crlf s = None"
    and "\<And>rest. parse_resp pf (c # s @ crlf @ rest) = POk r (length s + 3)"
  shows "reads pf (c # s @ crlf) r"
  unfolding reads_def
proof (intro conjI allI impI)
  show "parse_resp pf ((c # s @ crlf) @ rest) = POk r (length (c # s @ crlf))" for rest
    using assms(3) [of rest] by simp
  show "parse_resp pf (take k (c # s @ crlf)) = PIncomplete" if "k < length (c # s @ crlf)" for k
    using parse_cut [of c s k pf "[]"] assms(1,2) that by auto
qed

lemma reads_bulk: "length data \<le> MAX_BULK_LEN \<Longrightarrow>
    reads pf (header 0x24 (length data) @ data @ crlf) (BulkString (Some data))"
  using parse_bulk_full [of data pf] parse_bulk_cut [of data _ pf] by (simp add: reads_def)

lemma reads_null: "reads pf ([0x5F] @ crlf) RNull"
  using parse_null_bool(1) [of pf] parse_null_bool_cut(1) [of _ pf] by (simp add: reads_def)

lemma reads_bool: "reads pf ([0x23, if b then 0x74 else 0x66] @ crlf) (RBool b)"
  using parse_null_bool(2) [of pf b] parse_null_bool_cut(2) [of _ pf] by (simp add: reads_def)

lemma reads_minus_one:
  "reads pf ([0x24, 0x2D, 0x31] @ crlf) (BulkString None)" "reads pf ([0x2A, 0x2D, 0x31] @ crlf) (RArray None)"
proof -
  have m: "find_crlf [0x2D, 0x31] = None" "utf8_valid [0x2D, 0x31]" "parse_i64 [0x2D, 0x31] = Some (- 1)"
    by (simp_all add: parse_i64_def parse_digits_def digits_val_def digit_val_def is_digit_def i64_ok_def)
  have l: "parse_line (c # 0x2D # 0x31 # 0x0D # 0x0A # rest) = POk [0x2D, 0x31] 5" if "c \<noteq> 0x0D" for c rest
    using line_full [OF that m(1), of rest] by simp
  have cut: "parse_resp pf (take k (c # 0x2D # 0x31 # crlf)) = PIncomplete"
    if "c \<in> {0x24, 0x2A}" "k < 5" for c k
    using parse_cut [of c "[0x2D, 0x31]" k pf "[]"] that m(1) by auto
  show "reads pf ([0x24, 0x2D, 0x31] @ crlf) (BulkString None)"
    using cut [of "0x24"] l [of "0x24"] m by (simp add: reads_def parse_resp.simps(2) parse_bulk_string_def)
  show "reads pf ([0x2A, 0x2D, 0x31] @ crlf) (RArray None)"
    using cut [of "0x2A"] l [of "0x2A"] m by (simp add: reads_def parse_resp.simps(2) array_header_def)
qed

lemma reads_resp:
  "f64_text_laws fmt pf \<Longrightarrow> resp_wf r \<Longrightarrow> reads pf (resp_bytes fmt v r) (resp_norm fmt v r)"
proof (induction fmt v r rule: resp_bytes.induct)
  case (1 fmt v s)
  then show ?case using line_full [of "0x2B" s]
    by (auto intro!: reads_line simp: parse_resp.simps parse_simple_string_def utf8_lossy_valid)
next
  case (2 fmt v s)
  then show ?case using line_full [of "0x2D" s]
    by (auto intro!: reads_line simp: parse_resp.simps parse_error_def utf8_lossy_valid)
next
  case (3 fmt v n)
  then show ?case using parse_int_full [of n pf] by (auto intro!: reads_line simp: dec_line)
next
  case (4 fmt v)
  then show ?case using reads_null reads_minus_one(1) by simp
next
  case (5 fmt v data)
  then show ?case using reads_bulk by simp
next
  case (6 fmt v)
  then show ?case using reads_null reads_minus_one(2) by simp
next
  case (7 fmt v items)
  then have "list_all2 (reads pf) (map (resp_bytes fmt v) items) (map (resp_norm fmt v) items)"
    by (simp add: list_all2_map1 list_all2_map2 list.rel_refl_strong)
  from reads_array(1) [OF this] 7(3) show ?case by simp
next
  case (8 fmt v)
  then show ?case using reads_null by simp
next
  case (9 fmt v b)
  have i: "parse_resp pf (0x3A # [if b then 0x31 else 0x30] @ crlf @ rest)
      = POk (RInteger (if b then 1 else 0)) 4" for rest
    using parse_int_full [of 1 pf rest] parse_int_full [of 0 pf rest]
    by (cases b) (simp_all add: i64_ok_def dec_int_def dec.simps)
  have "reads pf (0x3A # [if b then 0x31 else 0x30] @ crlf) (RInteger (if b then 1 else 0))"
    using i by (intro reads_line) simp_all
  then show ?case using reads_bool by simp
next
  case (10 fmt v d)
  then have d: "pf (fmt d) = Some d" "find_crlf (fmt d) = None" "utf8_valid (fmt d)"
      "length (fmt d) \<le> MAX_BULK_LEN"
    by (auto simp: f64_text_laws_def intro: find_crlf_no_cr utf8_ascii)
  have "parse_resp pf (0x2C # fmt d @ crlf @ rest) = POk (RDouble d) (length (fmt d) + 3)" for rest
    using line_full [of "0x2C" "fmt d" rest] d by (simp add: parse_resp.simps parse_resp3_double_def)
  then have "reads pf (0x2C # fmt d @ crlf) (RDouble d)" using d(2) by (intro reads_line) simp_all
  then show ?case using reads_bulk [OF d(4)] by simp
next
  case (11 fmt v ps)
  let ?es = "map (\<lambda>(k, w). (resp_bytes fmt v k, resp_bytes fmt v w)) ps"
  let ?rs = "map (\<lambda>(k, w). (resp_norm fmt v k, resp_norm fmt v w)) ps"
  have el: "reads pf (resp_bytes fmt v k) (resp_norm fmt v k) \<and> reads pf (resp_bytes fmt v w) (resp_norm fmt v w)"
    if "(k, w) \<in> set ps" for k w using 11 that by (auto split: prod.splits)
  then have "\<forall>(k, w) \<in> set ps. reads pf (resp_bytes fmt v k) (resp_norm fmt v k)
      \<and> reads pf (resp_bytes fmt v w) (resp_norm fmt v w)" by auto
  then have el2: "list_all2 (reads pf) (flat2 ?es) (flat2 ?rs)" by (induction ps) auto
  have cc: "concat (map (\<lambda>(k, w). resp_bytes fmt v k @ resp_bytes fmt v w) ps) = concat (flat2 ?es)"
    by (induction ps) auto
  have fl: "concat (map (\<lambda>(k, w). [resp_norm fmt v k, resp_norm fmt v w]) ps) = flat2 ?rs"
    by (induction ps) auto
  show ?case using reads_map [OF el2] reads_array(1) [OF el2] 11(4) unfolding resp_bytes.simps resp_norm.simps cc fl
    by (simp add: mult.commute)
next
  case (12 fmt v items)
  then have "list_all2 (reads pf) (map (resp_bytes fmt v) items) (map (resp_norm fmt v) items)"
    by (simp add: list_all2_map1 list_all2_map2 list.rel_refl_strong)
  from reads_array [OF this] 12(3) show ?case by simp
next
  case (13 fmt v items)
  then have "list_all2 (reads pf) (map (resp_bytes fmt v) items) (map (resp_norm fmt v) items)"
    by (simp add: list_all2_map1 list_all2_map2 list.rel_refl_strong)
  from reads_array [OF this] 13(3) show ?case by simp
qed simp

section \<open>Streams\<close>

lemma parse_one_shrinks:
  assumes "parser_parse_one pf p = Some (Value v, p')"
  shows "length (rp_buf p') < length (rp_buf p)"
proof -
  obtain n where n: "parse_resp pf (rp_buf p) = POk v n" "p' = p\<lparr>rp_buf := drop n (rp_buf p)\<rparr>" "rp_buf p \<noteq> []"
    using assms by (auto simp: parser_parse_one_def split: if_splits pres.splits)
  have "0 < n" using parse_bounds(1) [of "rp_buf p" pf] n(1) by (auto simp: in_bounds_def)
  then show ?thesis using n by simp
qed

text \<open>The loop around \<^verbatim>\<open>parse_one\<close>: take values until it asks for more or fails.\<close>

function parser_drain :: "(bytes \<Rightarrow> f64 option) \<Rightarrow> resp_parser \<Rightarrow> resp list \<times> resp_parser" where
  "parser_drain pf p = (case parser_parse_one pf p of
     Some (Value v, p') \<Rightarrow> (let (vs, p'') = parser_drain pf p' in (v # vs, p''))
   | _ \<Rightarrow> ([], p))"
  by pat_completeness auto
termination
  by (relation "measure (\<lambda>(pf, p). length (rp_buf p))") (auto dest: parse_one_shrinks)

declare parser_drain.simps [simp del]

text \<open>Reading a connection: feed a segment, take what is complete, go on.\<close>

fun read_segments :: "(bytes \<Rightarrow> f64 option) \<Rightarrow> resp_parser \<Rightarrow> bytes list \<Rightarrow> resp list \<times> resp_parser" where
  "read_segments pf p [] = ([], p)"
| "read_segments pf p (seg # segs) =
     (let (vs, p1) = parser_drain pf (parser_feed p seg); (ws, p2) = read_segments pf p1 segs in (vs @ ws, p2))"

text \<open>A buffer that holds whole values and then a proper prefix of the next.\<close>

lemma reads_nonempty: "reads pf e r \<Longrightarrow> e \<noteq> []"
  by (auto simp: reads_def parse_resp.simps dest: spec [of _ "[]"])

lemma drain_values:
  assumes "list_all2 (reads pf) es rs" and "parser_parse_one pf \<lparr>rp_buf = t\<rparr> = Some (NeedMore, \<lparr>rp_buf = t\<rparr>)"
  shows "parser_drain pf \<lparr>rp_buf = concat es @ t\<rparr> = (rs, \<lparr>rp_buf = t\<rparr>)"
  using assms(1)
proof (induction es rs rule: list_all2_induct)
  case Nil
  show ?case using assms(2) by (subst parser_drain.simps) simp
next
  case (Cons f es q rs)
  have "parse_resp pf (f @ concat es @ t) = POk q (length f)" using Cons(1) by (simp add: reads_def)
  moreover have "f \<noteq> []" by (rule reads_nonempty [OF Cons(1)])
  ultimately have "parser_parse_one pf \<lparr>rp_buf = concat (f # es) @ t\<rparr>
      = Some (Value q, \<lparr>rp_buf = concat es @ t\<rparr>)"
    by (simp add: parser_parse_one_def)
  then show ?case using Cons.IH by (subst parser_drain.simps) simp
qed

text \<open>Splitting a stream of frames at any point.\<close>

lemma split_frames:
  assumes "n < length (concat es)"
  shows "\<exists>i k. i < length es \<and> k < length (es ! i) \<and> take n (concat es) = concat (take i es) @ take k (es ! i)
    \<and> n = length (concat (take i es)) + k"
  using assms
proof (induction es arbitrary: n)
  case (Cons e es)
  show ?case
  proof (cases "n < length e")
    case True
    then show ?thesis by (intro exI [of _ 0] exI [of _ n]) simp
  next
    case False
    then have "n - length e < length (concat es)" using Cons.prems by auto
    from Cons.IH [OF this] obtain i k where "i < length es" "k < length (es ! i)"
      "take (n - length e) (concat es) = concat (take i es) @ take k (es ! i)"
      "n - length e = length (concat (take i es)) + k" by blast
    then show ?thesis using False by (intro exI [of _ "Suc i"] exI [of _ k]) auto
  qed
qed simp

lemma take_concat_prefix: "i \<le> length es \<Longrightarrow> concat es = concat (take i es) @ concat (drop i es)"
  by (metis append_take_drop_id concat_append)

lemma read_segments_frames:
  assumes "list_all2 (reads pf) es rs" and "buf @ concat segs = concat es"
    and "es \<noteq> [] \<longrightarrow> length buf < length (hd es)"
  shows "read_segments pf \<lparr>rp_buf = buf\<rparr> segs = (rs, \<lparr>rp_buf = []\<rparr>)"
  using assms
proof (induction segs arbitrary: es rs buf)
  case Nil
  have "es = []"
  proof (rule ccontr)
    assume "es \<noteq> []"
    then show False using Nil.prems(2,3) by (cases es) auto
  qed
  then show ?case using Nil.prems by simp
next
  case (Cons seg segs)
  let ?n = "length (buf @ seg)"
  have pre: "buf @ seg = take ?n (concat es)" using Cons.prems(2) by (metis append.assoc append_eq_conv_conj concat.simps(2))
  have le: "?n \<le> length (concat es)" using arg_cong [OF Cons.prems(2), of length] by simp
  show ?case
  proof (cases "?n < length (concat es)")
    case True
    then obtain i k where ik: "i < length es" "k < length (es ! i)"
      "buf @ seg = concat (take i es) @ take k (es ! i)" using split_frames [of ?n es] pre by metis
    have li: "length es = length rs" using Cons.prems(1) by (rule list_all2_lengthD)
    have "reads pf (es ! i) (rs ! i)" using Cons.prems(1) ik(1) by (rule list_all2_nthD)
    then have nm: "parser_parse_one pf \<lparr>rp_buf = take k (es ! i)\<rparr> = Some (NeedMore, \<lparr>rp_buf = take k (es ! i)\<rparr>)"
      using ik(2) by (simp add: parser_parse_one_def reads_def)
    have "parser_drain pf \<lparr>rp_buf = concat (take i es) @ take k (es ! i)\<rparr>
        = (take i rs, \<lparr>rp_buf = take k (es ! i)\<rparr>)"
      using Cons.prems(1) by (intro drain_values nm) (rule list_all2_takeI)
    moreover have "read_segments pf \<lparr>rp_buf = take k (es ! i)\<rparr> segs = (drop i rs, \<lparr>rp_buf = []\<rparr>)"
    proof (rule Cons.IH)
      show "list_all2 (reads pf) (drop i es) (drop i rs)" using Cons.prems(1) by (rule list_all2_dropI)
      have "(buf @ seg) @ concat segs = concat (take i es) @ concat (drop i es)"
        using Cons.prems(2) ik(1) take_concat_prefix [of i es] by simp
      then show "take k (es ! i) @ concat segs = concat (drop i es)" unfolding ik(3) by simp
      show "drop i es \<noteq> [] \<longrightarrow> length (take k (es ! i)) < length (hd (drop i es))"
        using ik(1,2) by (simp add: hd_drop_conv_nth)
    qed
    ultimately show ?thesis using ik(3) by (simp add: parser_feed_def)
  next
    case False
    then have full: "buf @ seg = concat es" using pre le by simp
    have "length (concat es) + length (concat segs) = length (concat es)"
      using arg_cong [OF Cons.prems(2), of length] arg_cong [OF full, of length] by (simp only: length_append concat.simps)
    then have rest: "concat segs = []" by (simp only: add_cancel_left_right length_0_conv)
    have nm: "parser_parse_one pf \<lparr>rp_buf = []\<rparr> = Some (NeedMore, \<lparr>rp_buf = []\<rparr>)"
      by (simp add: parser_parse_one_def)
    have "parser_drain pf \<lparr>rp_buf = concat es\<rparr> = (rs, \<lparr>rp_buf = []\<rparr>)"
      using drain_values [OF Cons.prems(1) nm] by simp
    moreover have "read_segments pf \<lparr>rp_buf = []\<rparr> segs = ([], \<lparr>rp_buf = []\<rparr>)"
      by (rule Cons.IH [of "[]"]) (simp_all only: rest list_all2_Nil concat.simps append_Nil simp_thms)
    ultimately show ?thesis using full by (simp add: parser_feed_def)
  qed
qed

end
