(* ===== verification/Protocol.thy ===== *)
theory Protocol
  imports Resp_Parser
begin

text \<open>
  The properties of the wire protocol (\<^verbatim>\<open>resp.rs\<close>): what is written is read back, however the bytes
  arrive; the parser is total and stays within its buffer; the integer writer, the direct array writer
  and the segmented buffer agree with the specification of the wire form; inline commands.
\<close>

section \<open>Support\<close>

lemma wf_repr: "f64_text_laws fmt pf \<Longrightarrow> resp_wf r \<Longrightarrow> resp_repr fmt r"
proof (induction r rule: resp_wf.induct)
  case (10 d)
  then have "length (fmt d) \<le> MAX_BULK_LEN" by (simp add: f64_text_laws_def)
  then show ?case by (simp add: MAX_BULK_LEN_def)
qed (auto simp: MAX_BULK_LEN_def MAX_ARRAY_LEN_def split: prod.splits)

lemma serialize_reads:
  assumes "itoa_laws itoa" and "f64_text_laws fmt pf" and "resp_wf r"
  shows "serialize_for_version itoa fmt v r = Some (resp_bytes fmt v r)
    \<and> reads pf (resp_bytes fmt v r) (resp_norm fmt v r)"
  using serialize_bytes [OF assms(1) wf_repr [OF assms(2,3)]] reads_resp [OF assms(2,3)] by simp

text \<open>A double-quoted inline argument: the escapes the tokenizer undoes.\<close>

definition escape_byte :: "u8 \<Rightarrow> bytes" where
  "escape_byte c =
     (if c = 0x0A then [0x5C, 0x6E] else if c = 0x0D then [0x5C, 0x72] else if c = 0x09 then [0x5C, 0x74]
      else if c = 0x22 \<or> c = 0x5C then [0x5C, c] else [c])"

definition quote_arg :: "bytes \<Rightarrow> bytes" where
  "quote_arg s = 0x22 # concat (map escape_byte s) @ [0x22]"

fun inline_line :: "bytes list \<Rightarrow> bytes" where
  "inline_line [] = []"
| "inline_line (s # ss) = quote_arg s @ (if ss = [] then [] else 0x20 # inline_line ss)"

lemma quoted_escaped:
  "quoted_token 0x22 token (concat (map escape_byte s) @ 0x22 # rest) = Some (token @ s, rest)"
  by (induction s arbitrary: token) (auto simp: escape_byte_def unescape_def)

lemma tokenize_inline_line:
  "tokenize_inline (inline_line ss) = Some (map (\<lambda>s. BulkString (Some s)) ss)"
proof (induction ss)
  case Nil
  then show ?case by (simp add: tokenize_inline.simps)
next
  case (Cons s ss)
  have skip: "tokenize_inline (0x20 # l) = tokenize_inline l" for l
    by (simp add: tokenize_inline.simps [of "0x20 # l"] tokenize_inline.simps [of l])
  show ?case
    by (subst tokenize_inline.simps) (simp add: quote_arg_def quoted_escaped Cons.IH skip tokenize_inline.simps [of "[]"])
qed

lemma escaped_no_cr: "0x0D \<notin> set (inline_line ss)"
  by (induction ss) (auto simp: quote_arg_def escape_byte_def split: if_splits)

text \<open>Concrete printers and readers for the instances below: the decimal text of the bit pattern.\<close>

definition bits_text :: "f64 \<Rightarrow> bytes" where
  "bits_text d = dec (unat d)"

definition bits_read :: "bytes \<Rightarrow> f64 option" where
  "bits_read s = Some (of_nat (digits_val s))"

lemma bits_text_laws: "f64_text_laws bits_text bits_read"
proof -
  have "length (dec (unat d)) \<le> MAX_BULK_LEN" for d :: f64
  proof -
    have "unat d < 10 ^ 20" using unsigned_less [of d, where 'a = nat] by simp
    then have "length (dec (unat d)) \<le> 20" using length_dec [of "unat d" 20] by simp
    then show ?thesis by (simp add: MAX_BULK_LEN_def)
  qed
  then show ?thesis using digits_ascii [OF dec_digits]
    by (auto simp: f64_text_laws_def bits_text_def bits_read_def digits_val_dec)
qed

lemma dec_itoa: "itoa_laws dec"
  by (simp add: itoa_laws_def)

section \<open>Properties\<close>

text \<open>C5. Round trip: a value within the protocol's limits, serialised for either protocol version, is
  parsed back as its version's normal form, whatever follows it in the buffer, and consumes exactly the
  bytes written; every proper prefix of its bytes is reported incomplete.\<close>

theorem resp_roundtrip:
  assumes "itoa_laws itoa" and "f64_text_laws fmt pf" and "resp_wf r"
  shows "\<exists>enc. serialize_for_version itoa fmt v r = Some enc
    \<and> (\<forall>rest. parse_resp pf (enc @ rest) = POk (resp_norm fmt v r) (length enc))
    \<and> (\<forall>k < length enc. parse_resp pf (take k enc) = PIncomplete)"
  using serialize_reads [OF assms, of v] by (auto simp: reads_def)

theorem resp_roundtrip_witness:
  "\<exists>enc. serialize_for_version dec bits_text 2 (RMap [(resp_bulk [0x61], RArray (Some [RInteger (- 5), RBool True]))]) = Some enc
    \<and> (\<forall>rest. parse_resp bits_read (enc @ rest)
         = POk (RArray (Some [BulkString (Some [0x61]), RArray (Some [RInteger (- 5), RInteger 1])])) (length enc))
    \<and> (\<forall>k < length enc. parse_resp bits_read (take k enc) = PIncomplete)"
  using resp_roundtrip [OF dec_itoa bits_text_laws,
      of "RMap [(resp_bulk [0x61], RArray (Some [RInteger (- 5), RBool True]))]" 2]
  by (simp add: resp_bulk_def MAX_ARRAY_LEN_def MAX_BULK_LEN_def i64_ok_def)

text \<open>C6. Reading a stream does not depend on how it is cut: the bytes of any sequence of values, split
  into any sequence of segments and fed one by one to a new parser that is drained after each feed,
  give exactly those values (in normal form), in order, and leave the buffer empty.\<close>

theorem resp_stream:
  assumes "itoa_laws itoa" and "f64_text_laws fmt pf" and "\<forall>r \<in> set rs. resp_wf r"
    and "concat segs = concat (map (\<lambda>r. the (serialize_for_version itoa fmt v r)) rs)"
  shows "read_segments pf parser_new segs = (map (resp_norm fmt v) rs, parser_new)"
proof -
  let ?enc = "\<lambda>r. the (serialize_for_version itoa fmt v r)"
  have "list_all2 (reads pf) (map ?enc rs) (map (resp_norm fmt v) rs)"
    using serialize_reads [OF assms(1,2), of _ v] assms(3)
    by (auto simp: list_all2_map1 list_all2_map2 intro!: list_all2_refl list.rel_refl_strong)
  moreover from this have "map ?enc rs \<noteq> [] \<longrightarrow> length [] < length (hd (map ?enc rs))"
    by (cases rs) (auto dest: reads_nonempty)
  ultimately show ?thesis using read_segments_frames [of pf "map ?enc rs" "map (resp_norm fmt v) rs" "[]" segs] assms(4)
    by (simp add: parser_new_def)
qed

theorem resp_stream_witness:
  "read_segments bits_read parser_new
     [[0x2B, 0x4F], [0x4B, 0x0D], [], [0x0A, 0x24, 0x31, 0x0D, 0x0A, 0x61], [0x0D, 0x0A]]
   = ([SimpleString [0x4F, 0x4B], BulkString (Some [0x61])], parser_new)"
proof -
  have "concat [[0x2B, 0x4F], [0x4B, 0x0D], [], [0x0A, 0x24, 0x31, 0x0D, 0x0A, 0x61], [0x0D, 0x0A]]
      = concat (map (\<lambda>r. the (serialize_for_version dec bits_text 3 r)) [resp_ok, resp_bulk [0x61]])"
    by (simp add: serialize_bytes [OF dec_itoa] resp_ok_def resp_bulk_def asc_def header_def dec.simps)
  moreover have "\<forall>r \<in> set [resp_ok, resp_bulk [0x61]]. resp_wf r"
    by (simp add: resp_ok_def resp_bulk_def asc_def MAX_BULK_LEN_def utf8_ascii)
  moreover have "map (resp_norm bits_text 3) [resp_ok, resp_bulk [0x61]] = [SimpleString [0x4F, 0x4B], BulkString (Some [0x61])]"
    by (simp add: resp_ok_def resp_bulk_def asc_def)
  ultimately show ?thesis using resp_stream [OF dec_itoa bits_text_laws, of "[resp_ok, resp_bulk [0x61]]" _ 3]
    by (simp only:)
qed

text \<open>C7. On any buffer whatever, parsing one value does not panic, and a value is never produced out of
  thin air: it consumes at least one byte and no more than are buffered, the rest staying in the
  buffer; when more bytes are needed, or the bytes are malformed, the buffer is unchanged.\<close>

theorem parse_one_total:
  "\<exists>out p'. parser_parse_one pf p = Some (out, p')
     \<and> (case out of
          Value _ \<Rightarrow> \<exists>n. 0 < n \<and> n \<le> parser_buffered_len p \<and> rp_buf p' = drop n (rp_buf p)
        | _ \<Rightarrow> p' = p)"
proof (cases "rp_buf p = []")
  case False
  then show ?thesis using parse_bounds(1) [of "rp_buf p" pf]
    by (auto simp: parser_parse_one_def parser_buffered_len_def in_bounds_def split: pres.splits)
qed (simp add: parser_parse_one_def)

text \<open>The hand-written integer writer appends the decimal text of every \<^verbatim>\<open>i64\<close>, the smallest included,
  without running out of its 20-byte scratch array, and the parser's reader inverts it.\<close>

theorem put_i64_reads:
  assumes "i64_ok n"
  shows "\<exists>s. put_i64 buf n = Some (buf @ s) \<and> s = dec_int n \<and> parse_i64 s = Some n"
  using put_i64_dec [OF assms] parse_i64_dec_int [OF assms] by simp

theorem put_i64_reads_witness:
  "\<exists>s. put_i64 [0x3A] (- 9223372036854775808) = Some ([0x3A] @ s) \<and> s = dec_int (- 9223372036854775808)
     \<and> parse_i64 s = Some (- 9223372036854775808)"
  by (rule put_i64_reads) (simp add: i64_ok_def)

text \<open>The direct writer of bulk arrays produces byte for byte what the generic serialiser produces for
  the array of bulk strings, in either protocol version.\<close>

theorem bulk_array_equiv:
  assumes "itoa_laws itoa" and "length elems < 2 ^ 63" and "\<forall>e \<in> set elems. length e < 2 ^ 63"
  shows "\<exists>enc. serialize_for_version itoa fmt v (resp_array (map resp_bulk elems)) = Some enc
    \<and> write_bulk_array_into itoa buf elems = buf @ enc"
proof -
  have "resp_repr fmt (resp_array (map resp_bulk elems))"
    using assms(2,3) by (simp add: resp_array_def resp_bulk_def)
  from serialize_bytes [OF assms(1) this, of v] show ?thesis
    using write_bulk_array_bytes [OF assms, of buf fmt v] by (simp add: resp_array_def)
qed

theorem bulk_array_equiv_witness:
  "\<exists>enc. serialize_for_version dec bits_text 2 (resp_array (map resp_bulk [[0x61], []])) = Some enc
     \<and> write_bulk_array_into dec [0x2B] [[0x61], []] = [0x2B] @ enc"
  by (rule bulk_array_equiv [OF dec_itoa]) simp_all

text \<open>C8. The output buffer: writing a value into a buffer, even one that is partly drained, appends the
  value's wire form to the unread bytes; then the reader reports their number, can advance by any
  amount up to it and drops exactly that many, hands out a prefix as its chunk, and, given room for
  every segment, gathers all of them for a vectored write.\<close>

theorem segbuf_write_read:
  assumes "itoa_laws itoa" and "resp_repr fmt r" and "sb_ok b"
    and "cnt \<le> length (sb_content b @ resp_bytes fmt v r)"
  shows "\<exists>b1 b2. write_to_for_version_owned itoa fmt v r b = Some b1
    \<and> sb_remaining b1 = Some (length (sb_content b @ resp_bytes fmt v r))
    \<and> sb_advance b1 cnt = Some b2 \<and> sb_ok b2
    \<and> sb_content b2 = drop cnt (sb_content b @ resp_bytes fmt v r)
    \<and> (\<exists>c rest. sb_chunk b2 = Some c \<and> sb_content b2 = c @ rest)
    \<and> (\<forall>room > length (sb_segments b2). \<exists>out. sb_chunks_vectored b2 room = Some out \<and> concat out = sb_content b2)"
proof -
  obtain b1 where b1: "write_to_for_version itoa fmt v r b = Some b1" "sb_ok b1"
    "sb_content b1 = sb_content b @ resp_bytes fmt v r"
    using write_appends(1) [OF assms(1-3)] by blast
  have own: "write_to_for_version_owned itoa fmt v r b = Some b1"
    using b1(1) by (cases r) (simp_all add: write_to_for_version_owned_def)
  obtain b2 where b2: "sb_advance b1 cnt = Some b2" "sb_ok b2" "sb_content b2 = drop cnt (sb_content b1)"
    using sb_advance_content [OF b1(2), of cnt] assms(4) b1(3) by auto
  show ?thesis using own b1 b2 sb_content_len [OF b1(2)] sb_chunk_prefix [OF b2(2)] sb_vectored_content [OF b2(2)]
    by auto
qed

theorem segbuf_write_read_witness:
  "\<exists>b1 b2. write_to_for_version_owned dec bits_text 2 (RRaw [7, 8]) (sb_put (sb_with_capacity 64) [1, 2]) = Some b1
    \<and> sb_remaining b1 = Some 4 \<and> sb_advance b1 3 = Some b2 \<and> sb_content b2 = [8]"
proof -
  let ?b = "sb_put (sb_with_capacity 64) [1, 2]"
  have "sb_content ?b = [1, 2]" "sb_ok ?b"
    by (simp_all add: sb_content_def sb_with_capacity_def sb_put_def sb_ok_def)
  then show ?thesis using segbuf_write_read [OF dec_itoa, of bits_text "RRaw [7, 8]" ?b 3 2] by auto
qed

text \<open>C9. Inline commands: a line of double-quoted arguments, with their control characters, quotes and
  backslashes escaped, is parsed as the array of exactly those arguments and is consumed with its
  line end.\<close>

theorem inline_roundtrip:
  assumes "ss \<noteq> []"
  shows "parse_resp pf (inline_line ss @ crlf @ rest)
    = POk (RArray (Some (map (\<lambda>s. BulkString (Some s)) ss))) (length (inline_line ss) + 2)"
proof -
  obtain t where t: "inline_line ss @ crlf @ rest = 0x22 # t"
    using assms by (cases ss) (auto simp: quote_arg_def)
  have "parse_resp pf (inline_line ss @ crlf @ rest) = parse_inline (inline_line ss @ crlf @ rest)"
    unfolding t by (simp add: parse_resp.simps)
  also have "\<dots> = POk (RArray (Some (map (\<lambda>s. BulkString (Some s)) ss))) (length (inline_line ss) + 2)"
    using find_crlf_append [OF find_crlf_no_cr [OF escaped_no_cr], of ss rest] assms
    by (simp add: parse_inline_def tokenize_inline_line)
  finally show ?thesis .
qed

theorem inline_roundtrip_witness:
  "parse_resp bits_read (inline_line [[0x67, 0x65, 0x74], [0x61, 0x20, 0x22, 0x0A]] @ crlf @ [0x2B])
     = POk (RArray (Some [BulkString (Some [0x67, 0x65, 0x74]), BulkString (Some [0x61, 0x20, 0x22, 0x0A])]))
         (length (inline_line [[0x67, 0x65, 0x74], [0x61, 0x20, 0x22, 0x0A]]) + 2)"
  by (subst inline_roundtrip) simp_all

end
