(* ===== verification/Types.thy ===== *)
theory Types
  imports List_Data Set_Data Hash_Data ZSet_Data
begin

text \<open>
  Values, entries and expiry (\<^verbatim>\<open>types.rs\<close>, \<^verbatim>\<open>expiry.rs\<close>, \<^verbatim>\<open>error.rs\<close>): the integer cell
  behind INCR, the tagged union of all value types, HyperLogLog registers, expiry times, and the
  errors of the command handlers.

  The clock \<^verbatim>\<open>system_now_ms\<close> is an argument (\<open>now\<close>, milliseconds); a \<^verbatim>\<open>u128\<close> is a natural number.
\<close>

unbundle bit_operations_syntax

section \<open>Errors\<close>

datatype nexrade_error =
    WrongType | NoKey | NotInteger | NotFloat | Overflow | SyntaxError
  | UnknownCommand bytes bytes | WrongArity bytes | IndexOutOfRange | BitError
  | Generic bytes | Prefixed bytes | ExecAbort | ExecWithoutMulti | NestedMulti
  | DiscardWithoutMulti | Loading | ReadOnly | ProtocolErr bytes | Io bytes

text \<open>The text of an error reply (the \<^verbatim>\<open>Display\<close> the \<^verbatim>\<open>thiserror\<close> attributes spell out).\<close>

fun error_text :: "nexrade_error \<Rightarrow> bytes" where
  "error_text WrongType = asc ''WRONGTYPE Operation against a key holding the wrong kind of value''"
| "error_text NoKey = asc ''ERR no such key''"
| "error_text NotInteger = asc ''ERR value is not an integer or out of range''"
| "error_text NotFloat = asc ''ERR value is not a valid float''"
| "error_text Overflow = asc ''ERR out of range value for incr''"
| "error_text SyntaxError = asc ''ERR syntax error''"
| "error_text (UnknownCommand c a) = asc ''ERR unknown command '' @ [0x27] @ c @ [0x27] @ a"
| "error_text (WrongArity c) = asc ''ERR wrong number of arguments for '' @ [0x27] @ c @ [0x27] @ asc '' command''"
| "error_text IndexOutOfRange = asc ''ERR index out of range''"
| "error_text BitError = asc ''ERR bit offset is not an integer or out of range''"
| "error_text (Generic m) = asc ''ERR '' @ m"
| "error_text (Prefixed m) = m"
| "error_text ExecAbort = asc ''EXECABORT Transaction discarded because of previous errors''"
| "error_text ExecWithoutMulti = asc ''ERR EXEC without MULTI''"
| "error_text NestedMulti = asc ''ERR MULTI calls can not be nested''"
| "error_text DiscardWithoutMulti = asc ''ERR DISCARD without MULTI''"
| "error_text Loading = asc ''LOADING Redis is loading the dataset in memory''"
| "error_text ReadOnly = asc ''READONLY You can'' @ [0x27] @ asc ''t write against a read only replica''"
| "error_text (ProtocolErr m) = asc ''ERR Protocol error: '' @ m"
| "error_text (Io m) = asc ''ERR '' @ m"

section \<open>Expiry\<close>

text \<open>An \<^verbatim>\<open>Expiry\<close> is its one field, \<^verbatim>\<open>expires_at_ms\<close>.\<close>

type_synonym expiry = nat

definition expiry_from_duration :: "nat \<Rightarrow> nat \<Rightarrow> expiry" where
  "expiry_from_duration now ttl_ms = now + ttl_ms"

definition expiry_from_ms :: "nat \<Rightarrow> expiry" where
  "expiry_from_ms ms = ms"

definition expiry_from_secs :: "nat \<Rightarrow> expiry" where
  "expiry_from_secs secs = secs * 1000"

definition expiry_is_expired :: "nat \<Rightarrow> expiry \<Rightarrow> bool" where
  "expiry_is_expired now e \<longleftrightarrow> now \<ge> e"

text \<open>\<^verbatim>\<open>(self.expires_at_ms - now) as u64\<close> truncates.\<close>

definition expiry_remaining_ms :: "nat \<Rightarrow> expiry \<Rightarrow> nat" where
  "expiry_remaining_ms now e = (if now \<ge> e then 0 else (e - now) mod 2 ^ 64)"

definition expiry_remaining_secs :: "nat \<Rightarrow> expiry \<Rightarrow> nat" where
  "expiry_remaining_secs now e = (expiry_remaining_ms now e + 999) div 1000"

section \<open>The integer cell\<close>

record int_cell =
  ic_value :: int
  ic_version :: u64

definition cell_new :: "int \<Rightarrow> int_cell" where
  "cell_new v = \<lparr>ic_value = v, ic_version = 0\<rparr>"

definition cell_load :: "int_cell \<Rightarrow> int" where
  "cell_load c = ic_value c"

definition cell_store :: "int_cell \<Rightarrow> int \<Rightarrow> int_cell" where
  "cell_store c v = c\<lparr>ic_value := v\<rparr>"

definition i64_checked_add :: "int \<Rightarrow> int \<Rightarrow> int option" where
  "i64_checked_add a b = (if i64_ok (a + b) then Some (a + b) else None)"

text \<open>\<^verbatim>\<open>checked_add\<close> run alone; the loop under interference is the step relation of \<open>Int_Cell\<close>.\<close>

definition cell_checked_add :: "int_cell \<Rightarrow> int \<Rightarrow> int option \<times> int_cell" where
  "cell_checked_add c delta = (case i64_checked_add (ic_value c) delta of
     None \<Rightarrow> (None, c)
   | Some v \<Rightarrow> (Some v, c\<lparr>ic_value := v, ic_version := ic_version c + 1\<rparr>))"

section \<open>Streams and geospatial members\<close>

record stream_entry =
  se_id :: bytes
  se_fields :: "(bytes \<times> bytes) list"

definition se_payload_bytes :: "stream_entry \<Rightarrow> nat" where
  "se_payload_bytes e = length (se_id e) + sum_list (map (\<lambda>(k, v). length k + length v) (se_fields e))"

record pending_entry =
  pe_consumer :: bytes
  pe_delivery_time_ms :: nat
  pe_delivery_count :: nat

record consumer =
  co_name :: bytes
  co_pending_ids :: "bytes list"

record consumer_group =
  cg_name :: bytes
  cg_last_delivered_id :: bytes
  cg_pending :: "(bytes \<times> pending_entry) list"
  cg_consumers :: "(bytes \<times> consumer) list"

definition cg_new :: "bytes \<Rightarrow> bytes \<Rightarrow> consumer_group" where
  "cg_new name last_id =
     \<lparr>cg_name = name, cg_last_delivered_id = last_id, cg_pending = [], cg_consumers = []\<rparr>"

record stream_data =
  sd_entries :: "stream_entry list"
  sd_groups :: "(bytes \<times> consumer_group) list"
  sd_last_id :: bytes
  sd_entries_added :: nat

definition sd_new :: stream_data where
  "sd_new = \<lparr>sd_entries = [], sd_groups = [], sd_last_id = [], sd_entries_added = 0\<rparr>"

definition sd_last_generated_id :: "stream_data \<Rightarrow> bytes" where
  "sd_last_generated_id s =
     (if sd_last_id s \<noteq> [] then sd_last_id s
      else if sd_entries s \<noteq> [] then se_id (last (sd_entries s))
      else asc ''0-0'')"

definition sd_estimated_size :: "stream_data \<Rightarrow> nat" where
  "sd_estimated_size s = sum_list (map se_payload_bytes (sd_entries s))"

record geo_point =
  gp_longitude :: f64
  gp_latitude :: f64

record geo_data =
  gd_members :: "(bytes \<times> geo_point) list"

definition gd_new :: geo_data where
  "gd_new = \<lparr>gd_members = []\<rparr>"

section \<open>Values\<close>

datatype data_type =
    DString bytes
  | DInt int_cell
  | DList list_data
  | DSet set_data
  | DZSet zset_data
  | DHash hash_data
  | DBitmap bytes
  | DHyperLogLog bytes
  | DStream stream_data
  | DGeo geo_data

text \<open>The size match that \<^verbatim>\<open>estimate_entry_size\<close>, \<^verbatim>\<open>set_plain\<close> and \<^verbatim>\<open>estimated_memory_bytes\<close> repeat.\<close>

fun value_size :: "data_type \<Rightarrow> nat" where
  "value_size (DString v) = length v"
| "value_size (DInt _) = 8"
| "value_size (DList l) = listdata_payload_bytes l"
| "value_size (DSet s) = setdata_payload_bytes s"
| "value_size (DHash h) = hashdata_payload_bytes h"
| "value_size (DBitmap v) = length v"
| "value_size (DHyperLogLog v) = length v"
| "value_size (DZSet z) = zsetdata_payload_bytes z"
| "value_size (DStream s) = sd_estimated_size s"
| "value_size (DGeo g) = length (gd_members g) * 24"

text \<open>\<^verbatim>\<open>as_string_bytes\<close>; \<open>itoa\<close> prints an \<^verbatim>\<open>i64\<close> (the crate's documented decimal text, \<open>itoa_int_laws\<close>).\<close>

definition itoa_int_laws :: "(int \<Rightarrow> bytes) \<Rightarrow> bool" where
  "itoa_int_laws itoa \<longleftrightarrow> (\<forall>n. i64_ok n \<longrightarrow> itoa n = dec_int n)"

fun as_string_bytes :: "(int \<Rightarrow> bytes) \<Rightarrow> data_type \<Rightarrow> bytes option" where
  "as_string_bytes itoa (DString v) = Some v"
| "as_string_bytes itoa (DInt cell) = Some (itoa (cell_load cell))"
| "as_string_bytes itoa (DBitmap v) = Some v"
| "as_string_bytes itoa _ = None"

fun type_name :: "data_type \<Rightarrow> bytes" where
  "type_name (DString _) = asc ''string''"
| "type_name (DInt _) = asc ''string''"
| "type_name (DList _) = asc ''list''"
| "type_name (DSet _) = asc ''set''"
| "type_name (DZSet _) = asc ''zset''"
| "type_name (DHash _) = asc ''hash''"
| "type_name (DBitmap _) = asc ''string''"
| "type_name (DHyperLogLog _) = asc ''string''"
| "type_name (DStream _) = asc ''stream''"
| "type_name (DGeo _) = asc ''zset''"

fun encoding :: "data_type \<Rightarrow> bytes" where
  "encoding (DString v) =
     (if parse_i64 v \<noteq> None then asc ''int'' else if length v \<le> 44 then asc ''embstr'' else asc ''raw'')"
| "encoding (DInt _) = asc ''int''"
| "encoding (DList l) = asc (listdata_encoding_name l)"
| "encoding (DSet s) = asc (setdata_encoding_name s)"
| "encoding (DZSet z) = asc (zsetdata_encoding_name z)"
| "encoding (DHash h) = asc (hashdata_encoding_name h)"
| "encoding (DBitmap _) = asc ''raw''"
| "encoding (DHyperLogLog _) = asc ''raw''"
| "encoding (DStream _) = asc ''stream''"
| "encoding (DGeo _) = asc ''skiplist''"

section \<open>HyperLogLog\<close>

definition HLL_PRECISION :: nat where "HLL_PRECISION = 14"

definition HLL_REGISTERS :: nat where "HLL_REGISTERS = 2 ^ 14"

definition HLL_REGISTER_MAX :: nat where "HLL_REGISTER_MAX = 2 ^ 6 - 1"

definition fnv1a_64 :: "bytes \<Rightarrow> u64" where
  "fnv1a_64 bs =
     (let h = fold (\<lambda>b h. (h XOR ucast b) * 0x100000001b3) bs 0xcbf29ce484222325;
          h = h XOR drop_bit 33 h;
          h = h * 0xff51afd7ed558ccd;
          h = h XOR drop_bit 33 h;
          h = h * 0xc4ceb9fe1a85ec53
      in h XOR drop_bit 33 h)"

text \<open>\<^verbatim>\<open>64 - rest.leading_zeros()\<close> is the length of the binary representation.\<close>

fun bit_len :: "nat \<Rightarrow> nat" where
  "bit_len n = (if n = 0 then 0 else Suc (bit_len (n div 2)))"

declare bit_len.simps [simp del]

definition hll_rank :: "u64 \<Rightarrow> nat" where
  "hll_rank rest = min (if rest = 0 then 64 - HLL_PRECISION + 1 else bit_len (unat rest)) HLL_REGISTER_MAX"

definition hll_index :: "u64 \<Rightarrow> nat" where
  "hll_index h = unat (drop_bit (64 - HLL_PRECISION) h)"

definition hll_add :: "bytes \<Rightarrow> bytes \<Rightarrow> (bool \<times> bytes) option" where
  "hll_add registers element = do {
     let h = fnv1a_64 element;
     let idx = hll_index h;
     let rest = h AND (push_bit (64 - HLL_PRECISION) 1 - 1);
     let rank = hll_rank rest;
     r \<leftarrow> index registers idx;
     if rank > unat r then do {
       regs \<leftarrow> index_set registers idx (of_nat rank);
       Some (True, regs)
     } else Some (False, registers)
   }"

definition hll_merge_into :: "bytes \<Rightarrow> bytes \<Rightarrow> bytes" where
  "hll_merge_into dest other = map2 (\<lambda>d r. if r > d then r else d) dest other @ drop (length other) dest"

section \<open>The environment of an operation\<close>

text \<open>What an operation reads from outside the keyspace: the clock, the encoding thresholds in force, and
  the third-party code that is a parameter of the model.\<close>

record env =
  env_now :: nat
  env_list :: list_thresholds
  env_set :: set_thresholds
  env_hash :: hash_thresholds
  env_zset :: zset_thresholds
  env_index_set :: index_set_ops
  env_hash_order :: "(bytes \<times> bytes) list \<Rightarrow> (bytes \<times> bytes) list"
  env_olt :: "f64 \<Rightarrow> f64 \<Rightarrow> bool"
  env_itoa :: "int \<Rightarrow> bytes"
  env_member_order :: "bytes set \<Rightarrow> bytes list"
  env_nanos :: "nat \<Rightarrow> nat"
  env_zset_order :: "(bytes \<times> f64) list \<Rightarrow> (bytes \<times> f64) list"

text \<open>The order in which a \<^verbatim>\<open>HashSet\<close> lists its members; \<open>env_nanos i\<close> is the \<open>i\<close>th reading of the clock's
  nanoseconds within a command, any numbers.\<close>

definition set_order :: "(bytes set \<Rightarrow> bytes list) \<Rightarrow> bool" where
  "set_order ord \<longleftrightarrow> (\<forall>S. finite S \<longrightarrow> distinct (ord S) \<and> set (ord S) = S)"

definition env_ok :: "list_thresholds \<Rightarrow> env \<Rightarrow> bool" where
  "env_ok lim E \<longleftrightarrow> list_limits_ok lim \<and> list_within (env_list E) lim \<and> set_thr_ok (env_set E)
     \<and> hash_thr_ok (env_hash E) \<and> zset_thr_ok (env_zset E) \<and> index_set_laws (env_index_set E)
     \<and> hash_order (env_hash_order E) \<and> ordered_float_laws (env_olt E) \<and> itoa_int_laws (env_itoa E)
     \<and> set_order (env_member_order E) \<and> zset_order (env_zset_order E)"

text \<open>A concrete environment: the default thresholds and straightforward third-party code.\<close>

definition default_env :: "nat \<Rightarrow> env" where
  "default_env now = \<lparr>env_now = now, env_list = default_list_thresholds, env_set = default_set_thresholds,
     env_hash = default_hash_thresholds, env_zset = default_zset_thresholds, env_index_set = list_index_set,
     env_hash_order = (\<lambda>x. x), env_olt = ordered_float_lt, env_itoa = dec_int,
     env_member_order = sorted_list_of_set, env_nanos = (\<lambda>i. 0), env_zset_order = (\<lambda>x. x)\<rparr>"

lemma default_env_ok: "env_ok default_list_thresholds (default_env now)"
  using default_limits_ok default_hash_thr_ok hash_order_id list_index_set_laws ordered_float_lt_laws
  by (simp add: env_ok_def default_env_def list_within_def default_list_thresholds_def set_thr_ok_def
      default_set_thresholds_def zset_thr_ok_def default_zset_thresholds_def itoa_int_laws_def hash_order_def
      set_order_def zset_order_def)

text \<open>Values that stand for an abstract one: the collections represent a list, set or map.\<close>

fun value_ok :: "list_thresholds \<Rightarrow> data_type \<Rightarrow> bool" where
  "value_ok lim (DList l) \<longleftrightarrow> (\<exists>vs. listdata_rel lim l vs)"
| "value_ok lim (DSet s) \<longleftrightarrow> (\<exists>A. setdata_is s A)"
| "value_ok lim (DHash h) \<longleftrightarrow> (\<exists>m. hashdata_is h m)"
| "value_ok lim (DZSet z) \<longleftrightarrow> (\<exists>m. zset_is z m)"
| "value_ok lim (DInt c) \<longleftrightarrow> i64_ok (ic_value c)"
| "value_ok lim _ \<longleftrightarrow> True"

end
