(* ===== verification/Database.thy ===== *)
theory Database
  imports Types "HOL-Library.AList" "HOL-Library.List_Lexorder" "HOL-Library.Product_Lexorder"
begin

text \<open>
  One shard of the keyspace (\<^verbatim>\<open>store.rs\<close>, \<^verbatim>\<open>Entry\<close>, \<^verbatim>\<open>Database\<close>, \<^verbatim>\<open>sample_lru_victim\<close>,
  \<^verbatim>\<open>glob_match\<close>).

  A \<^verbatim>\<open>HashMap\<close> is an association list with distinct keys; the order in which the code iterates over
  one is the parameter \<open>ord\<close> (\<open>iter_order\<close>: some permutation). A \<^verbatim>\<open>BTreeSet\<close> is its sorted list. The
  clocks are arguments: \<open>now\<close> is \<^verbatim>\<open>system_now_ms\<close>, read once per operation, and the cached LRU clock is
  the field \<open>db_clock\<close>. The counter \<^verbatim>\<open>live_bytes\<close> is a natural number (it counts bytes that are in memory).
\<close>

section \<open>State\<close>

record entry =
  en_value :: data_type
  en_expiry :: "expiry option"
  en_lru_clock :: u32

definition entry_new :: "data_type \<Rightarrow> entry" where
  "entry_new v = \<lparr>en_value = v, en_expiry = None, en_lru_clock = 0\<rparr>"

definition entry_with_expiry :: "data_type \<Rightarrow> expiry \<Rightarrow> entry" where
  "entry_with_expiry v e = \<lparr>en_value = v, en_expiry = Some e, en_lru_clock = 0\<rparr>"

definition entry_is_expired :: "nat \<Rightarrow> entry \<Rightarrow> bool" where
  "entry_is_expired now e = (case en_expiry e of None \<Rightarrow> False | Some x \<Rightarrow> expiry_is_expired now x)"

record database =
  db_entries :: "(bytes \<times> entry) list"
  db_key_versions :: "(bytes \<times> u64) list"
  db_removals :: nat
  db_expiry_index :: "(nat \<times> bytes) list"
  db_live_bytes :: nat
  db_clock :: u32

definition db_new :: database where
  "db_new = \<lparr>db_entries = [], db_key_versions = [], db_removals = 0, db_expiry_index = [],
             db_live_bytes = 0, db_clock = 0\<rparr>"

abbreviation find_entry :: "database \<Rightarrow> bytes \<Rightarrow> entry option" where
  "find_entry d k \<equiv> map_of (db_entries d) k"

text \<open>\<^verbatim>\<open>BTreeSet::insert\<close> and \<^verbatim>\<open>remove\<close>.\<close>

definition bset_insert :: "'a::linorder \<Rightarrow> 'a list \<Rightarrow> 'a list" where
  "bset_insert x xs = (if x \<in> set xs then xs else insort x xs)"

definition bset_remove :: "'a \<Rightarrow> 'a list \<Rightarrow> 'a list" where
  "bset_remove x xs = remove1 x xs"

definition estimate_entry_size :: "bytes \<Rightarrow> entry \<Rightarrow> nat" where
  "estimate_entry_size key e = 64 + length key + value_size (en_value e)"

section \<open>Counters\<close>

definition db_adjust_live_bytes :: "int \<Rightarrow> database \<Rightarrow> database" where
  "db_adjust_live_bytes delta d =
     (if delta > 0 then d\<lparr>db_live_bytes := db_live_bytes d + nat delta\<rparr>
      else if delta < 0 then d\<lparr>db_live_bytes := db_live_bytes d - nat (- delta)\<rparr>
      else d)"

definition db_sub_live_bytes :: "nat \<Rightarrow> database \<Rightarrow> database" where
  "db_sub_live_bytes amount d = d\<lparr>db_live_bytes := db_live_bytes d - amount\<rparr>"

definition db_bump_version :: "bytes \<Rightarrow> database \<Rightarrow> database" where
  "db_bump_version key d = d\<lparr>db_key_versions :=
     AList.update key (case map_of (db_key_versions d) key of Some v \<Rightarrow> v + 1 | None \<Rightarrow> 1) (db_key_versions d)\<rparr>"

definition db_bump_version_if_present :: "bytes \<Rightarrow> database \<Rightarrow> database" where
  "db_bump_version_if_present key d = (case map_of (db_key_versions d) key of
     Some v \<Rightarrow> d\<lparr>db_key_versions := AList.update key (v + 1) (db_key_versions d)\<rparr>
   | None \<Rightarrow> d)"

definition VERSION_PRUNE_INTERVAL :: nat where "VERSION_PRUNE_INTERVAL = 1024"

definition VERSION_PRUNE_RATIO :: nat where "VERSION_PRUNE_RATIO = 2"

definition VERSION_PRUNE_MIN :: nat where "VERSION_PRUNE_MIN = 4096"

definition db_maybe_prune_versions :: "nat \<Rightarrow> database \<Rightarrow> database" where
  "db_maybe_prune_versions removals d =
     (let d = d\<lparr>db_removals := min (db_removals d + removals) (2 ^ 32 - 1)\<rparr> in
      if db_removals d < VERSION_PRUNE_INTERVAL then d
      else let d = d\<lparr>db_removals := 0\<rparr>;
               cap = max (length (db_entries d) * VERSION_PRUNE_RATIO) VERSION_PRUNE_MIN
        in if length (db_key_versions d) \<le> cap then d
           else d\<lparr>db_key_versions := filter (\<lambda>(k, _). find_entry d k \<noteq> None) (db_key_versions d)\<rparr>)"

definition db_key_version :: "nat \<Rightarrow> bytes \<Rightarrow> database \<Rightarrow> u64" where
  "db_key_version now key d =
     (let base = (case map_of (db_key_versions d) key of Some v \<Rightarrow> v | None \<Rightarrow> 0) in
      case find_entry d key of
        Some e \<Rightarrow> if \<not> entry_is_expired now e
                  then (case en_value e of DInt cell \<Rightarrow> base + ic_version cell | _ \<Rightarrow> base)
                  else base
      | None \<Rightarrow> base)"

section \<open>Single-key operations\<close>

definition index_drop :: "bytes \<Rightarrow> expiry option \<Rightarrow> database \<Rightarrow> database" where
  "index_drop key x d = (case x of
     Some t \<Rightarrow> d\<lparr>db_expiry_index := bset_remove (t, key) (db_expiry_index d)\<rparr> | None \<Rightarrow> d)"

definition index_add :: "bytes \<Rightarrow> expiry option \<Rightarrow> database \<Rightarrow> database" where
  "index_add key x d = (case x of
     Some t \<Rightarrow> d\<lparr>db_expiry_index := bset_insert (t, key) (db_expiry_index d)\<rparr> | None \<Rightarrow> d)"

definition put_entry :: "bytes \<Rightarrow> entry \<Rightarrow> database \<Rightarrow> database" where
  "put_entry key e d = d\<lparr>db_entries := AList.update key e (db_entries d)\<rparr>"

definition db_remove :: "bytes \<Rightarrow> database \<Rightarrow> entry option \<times> database" where
  "db_remove key d =
     (let removed = find_entry d key;
          d = d\<lparr>db_entries := AList.delete key (db_entries d)\<rparr>;
          d = (case removed of
                 Some e \<Rightarrow> db_sub_live_bytes (estimate_entry_size key e)
                             (db_bump_version_if_present key (index_drop key (en_expiry e) d))
               | None \<Rightarrow> d)
      in (removed, db_maybe_prune_versions 1 d))"

definition db_remove_empty_key :: "bytes \<Rightarrow> database \<Rightarrow> bool \<times> database" where
  "db_remove_empty_key key d = (let (r, d) = db_remove key d in (r \<noteq> None, d))"

definition db_get :: "nat \<Rightarrow> bytes \<Rightarrow> database \<Rightarrow> entry option \<times> database" where
  "db_get now key d = (case find_entry d key of
     Some e \<Rightarrow> if entry_is_expired now e then (None, snd (db_remove key d))
               else let e = e\<lparr>en_lru_clock := db_clock d\<rparr> in (Some e, put_entry key e d)
   | None \<Rightarrow> (None, d))"

definition db_get_ro :: "nat \<Rightarrow> bytes \<Rightarrow> database \<Rightarrow> entry option" where
  "db_get_ro now key d = (case find_entry d key of
     Some e \<Rightarrow> if \<not> entry_is_expired now e then Some e else None
   | None \<Rightarrow> None)"

text \<open>The entry \<^verbatim>\<open>get_mut\<close> lends; the caller writes it back with \<open>put_entry\<close>.\<close>

definition db_get_mut :: "nat \<Rightarrow> bytes \<Rightarrow> database \<Rightarrow> entry option \<times> database" where
  "db_get_mut now key d = (case find_entry d key of
     Some e \<Rightarrow> if entry_is_expired now e then (None, snd (db_remove key d))
               else (Some e, db_bump_version key d)
   | None \<Rightarrow> (None, d))"

definition db_insert :: "bytes \<Rightarrow> entry \<Rightarrow> database \<Rightarrow> database" where
  "db_insert key e d = (case find_entry d key of
     Some old \<Rightarrow>
       (let d = index_drop key (en_expiry old) d;
            old_sz = estimate_entry_size key old;
            new_sz = estimate_entry_size key e;
            d = (if new_sz \<noteq> old_sz then
                   (if new_sz > old_sz then d\<lparr>db_live_bytes := db_live_bytes d + (new_sz - old_sz)\<rparr>
                    else db_sub_live_bytes (old_sz - new_sz) d)
                 else d);
            d = index_add key (en_expiry e) d;
            d = db_bump_version key d
        in put_entry key e d)
   | None \<Rightarrow>
       (let d = index_add key (en_expiry e) d;
            d = d\<lparr>db_key_versions := AList.update key 1 (db_key_versions d)\<rparr>;
            d = d\<lparr>db_live_bytes := db_live_bytes d + estimate_entry_size key e\<rparr>
        in put_entry key e d))"

definition db_set_plain :: "nat \<Rightarrow> bytes \<Rightarrow> bytes \<Rightarrow> database \<Rightarrow> database" where
  "db_set_plain now key v d =
     (let fresh = db_insert key (entry_new (DString v)) d in
      case find_entry d key of
        Some e \<Rightarrow>
          if \<not> entry_is_expired now e then
            (let old_val_sz = value_size (en_value e);
                 new_val_sz = length v;
                 d = index_drop key (en_expiry e) d;
                 d = (if new_val_sz \<noteq> old_val_sz then
                        (if new_val_sz > old_val_sz
                         then d\<lparr>db_live_bytes := db_live_bytes d + (new_val_sz - old_val_sz)\<rparr>
                         else db_sub_live_bytes (old_val_sz - new_val_sz) d)
                      else d);
                 d = db_bump_version key d
             in put_entry key \<lparr>en_value = DString v, en_expiry = None, en_lru_clock = db_clock d\<rparr> d)
          else fresh
      | None \<Rightarrow> fresh)"

text \<open>\<^verbatim>\<open>get_or_insert_with\<close>: the closure is the entry it makes; the entry lent is the first result.\<close>

definition db_get_or_insert_with :: "nat \<Rightarrow> bytes \<Rightarrow> entry \<Rightarrow> database \<Rightarrow> entry \<times> database" where
  "db_get_or_insert_with now key new d = (case find_entry d key of
     Some e \<Rightarrow>
       if \<not> entry_is_expired now e
       then let e = e\<lparr>en_lru_clock := db_clock d\<rparr> in (e, db_bump_version key (put_entry key e d))
       else (let d = index_drop key (en_expiry e) d;
                 d = db_sub_live_bytes (estimate_entry_size key e) d;
                 d = index_add key (en_expiry new) d;
                 d = d\<lparr>db_live_bytes := db_live_bytes d + estimate_entry_size key new\<rparr>;
                 d = db_bump_version key d
             in (new, put_entry key new d))
   | None \<Rightarrow>
       (let d = index_add key (en_expiry new) d;
            d = db_bump_version key d;
            d = d\<lparr>db_live_bytes := db_live_bytes d + estimate_entry_size key new\<rparr>
        in (new, put_entry key new d)))"

text \<open>\<^verbatim>\<open>*entry(key).or_insert(0) += 1\<close> is \<open>db_bump_version\<close>.\<close>

definition db_incr_int :: "nat \<Rightarrow> bytes \<Rightarrow> int \<Rightarrow> database \<Rightarrow> (nexrade_error + int) \<times> database" where
  "db_incr_int now key delta d = (case find_entry d key of
     Some e \<Rightarrow>
       if entry_is_expired now e then
         (let d = index_drop key (en_expiry e) d;
              d = db_sub_live_bytes (estimate_entry_size key e) d;
              new = entry_new (DInt (cell_new delta));
              d = d\<lparr>db_live_bytes := db_live_bytes d + estimate_entry_size key new\<rparr>;
              d = db_bump_version key d
          in (Inr delta, put_entry key new d))
       else (case en_value e of
           DInt cell \<Rightarrow> (case i64_checked_add (cell_load cell) delta of
               None \<Rightarrow> (Inl Overflow, d)
             | Some v \<Rightarrow> (Inr v, db_bump_version key
                 (put_entry key (e\<lparr>en_value := DInt (cell_store cell v), en_lru_clock := db_clock d\<rparr>) d)))
         | DString s \<Rightarrow> (case parse_i64 s of
               None \<Rightarrow> (Inl NotInteger, d)
             | Some current \<Rightarrow> (case i64_checked_add current delta of
                   None \<Rightarrow> (Inl Overflow, d)
                 | Some v \<Rightarrow>
                     (let old_size = estimate_entry_size key e;
                          e' = e\<lparr>en_value := DInt (cell_new v), en_lru_clock := db_clock d\<rparr>;
                          new_size = estimate_entry_size key e';
                          d = put_entry key e' d;
                          d = (if new_size \<ge> old_size
                               then d\<lparr>db_live_bytes := db_live_bytes d + (new_size - old_size)\<rparr>
                               else db_sub_live_bytes (old_size - new_size) d)
                      in (Inr v, db_bump_version key d))))
         | _ \<Rightarrow> (Inl WrongType, d))
   | None \<Rightarrow>
       (let new = entry_new (DInt (cell_new delta));
            d = d\<lparr>db_live_bytes := db_live_bytes d + estimate_entry_size key new\<rparr>;
            d = db_bump_version key d
        in (Inr delta, put_entry key new d)))"

definition db_contains_key :: "nat \<Rightarrow> bytes \<Rightarrow> database \<Rightarrow> bool \<times> database" where
  "db_contains_key now key d = (let (e, d) = db_get now key d in (e \<noteq> None, d))"

definition db_len :: "database \<Rightarrow> nat" where
  "db_len d = length (db_entries d)"

definition db_is_empty :: "database \<Rightarrow> bool" where
  "db_is_empty d \<longleftrightarrow> db_entries d = []"

definition db_set_expiry :: "bytes \<Rightarrow> expiry option \<Rightarrow> database \<Rightarrow> database" where
  "db_set_expiry key x d = (case find_entry d key of
     Some e \<Rightarrow> db_bump_version key
       (put_entry key (e\<lparr>en_expiry := x\<rparr>) (index_add key x (index_drop key (en_expiry e) d)))
   | None \<Rightarrow> d)"

definition db_estimated_memory_bytes :: "database \<Rightarrow> nat" where
  "db_estimated_memory_bytes d =
     sum_list (map (\<lambda>(k, e). 64 + length k + value_size (en_value e)) (db_entries d))"

section \<open>Active expiry\<close>

fun expire_loop :: "(nat \<times> bytes) list \<Rightarrow> bytes list \<Rightarrow> database \<Rightarrow> bytes list \<times> database" where
  "expire_loop [] deleted d = (deleted, d)"
| "expire_loop ((t, key) # rest) deleted d =
     (let (deleted, d) = (case find_entry d key of
            Some e \<Rightarrow>
              (deleted @ [key],
               db_bump_version_if_present key (db_sub_live_bytes (estimate_entry_size key e)
                 (d\<lparr>db_entries := AList.delete key (db_entries d)\<rparr>)))
          | None \<Rightarrow> (deleted, d));
          d = d\<lparr>db_expiry_index := bset_remove (t, key) (db_expiry_index d)\<rparr>
      in expire_loop rest deleted d)"

definition db_expire_batch :: "nat \<Rightarrow> nat \<Rightarrow> database \<Rightarrow> bytes list \<times> database" where
  "db_expire_batch now max_n d =
     (let to_delete = take max_n (takeWhile (\<lambda>(t, _). t \<le> now) (db_expiry_index d));
          (deleted, d) = expire_loop to_delete [] d
      in (deleted, db_maybe_prune_versions (length deleted mod 2 ^ 32) d))"

text \<open>The budget loop: \<open>fuel\<close> is the cap of 16 rounds the code has.\<close>

fun expire_rounds :: "nat \<Rightarrow> nat \<Rightarrow> nat \<Rightarrow> bytes list \<Rightarrow> nat \<Rightarrow> database \<Rightarrow> (bytes list \<times> nat) \<times> database" where
  "expire_rounds now 0 budget acc rounds d = ((acc, rounds), d)"
| "expire_rounds now (Suc fuel) budget acc rounds d =
     (let rounds = rounds + 1; have = length (db_expiry_index d) in
      if have = 0 \<or> budget = 0 then ((acc, rounds), d)
      else let (deleted, d) = db_expire_batch now (min budget have) d;
               acc = acc @ deleted
        in if length deleted \<ge> budget \<and> budget < 256
           then expire_rounds now fuel (min (budget * 2) 256) acc rounds d
           else if length deleted < budget then ((acc, rounds), d)
           else expire_rounds now fuel budget acc rounds d)"

definition db_expire_cycle :: "nat \<Rightarrow> database \<Rightarrow> (bytes list \<times> nat) \<times> database" where
  "db_expire_cycle now d = expire_rounds now 16 20 [] 0 d"

section \<open>Eviction\<close>

datatype max_memory_policy =
    NoEviction | AllKeysRandom | VolatileRandom | AllKeysLru | VolatileLru | VolatileTtl

text \<open>The reservoir loop: \<open>idx\<close> counts all items, \<open>sample\<close> holds the kept ones with their scores.\<close>

fun sample_loop :: "nat \<Rightarrow> (('k \<times> 'v) \<Rightarrow> u32) \<Rightarrow> (('k \<times> 'v) \<Rightarrow> bool) \<Rightarrow>
    ('k \<times> 'v) list \<Rightarrow> nat \<Rightarrow> (('k \<times> 'v) \<times> u32) list \<Rightarrow> (('k \<times> 'v) \<times> u32) list" where
  "sample_loop n score keep [] idx sample = sample"
| "sample_loop n score keep (kv # rest) idx sample =
     (let idx = idx + 1 in
      if \<not> keep kv then sample_loop n score keep rest idx sample
      else if length sample < n then sample_loop n score keep rest idx (sample @ [(kv, score kv)])
      else let slot = (idx * 2654435761 mod 2 ^ 64) mod (idx + 1)
        in sample_loop n score keep rest idx (if slot < n then sample[slot := (kv, score kv)] else sample))"

text \<open>\<^verbatim>\<open>min_by_key\<close>: the first of the minimal elements.\<close>

fun min_by_score :: "(('k \<times> 'v) \<times> u32) list \<Rightarrow> ('k \<times> 'v) option" where
  "min_by_score [] = None"
| "min_by_score ((kv, s) # rest) =
     (if \<forall>(_, t) \<in> set rest. s \<le> t then Some kv else min_by_score rest)"

definition sample_lru_victim :: "(('k \<times> 'v) list) \<Rightarrow> nat \<Rightarrow> (('k \<times> 'v) \<Rightarrow> u32) \<Rightarrow> (('k \<times> 'v) \<Rightarrow> bool)
    \<Rightarrow> ('k \<times> 'v) option" where
  "sample_lru_victim items n score keep = min_by_score (sample_loop n score keep items 0 [])"

type_synonym iter_order = "(bytes \<times> entry) list \<Rightarrow> (bytes \<times> entry) list"

definition evict_victim :: "iter_order \<Rightarrow> nat \<Rightarrow> max_memory_policy \<Rightarrow> database \<Rightarrow> bytes option" where
  "evict_victim ord now policy d = (let items = ord (db_entries d);
       volatile = (\<lambda>(_, e). en_expiry e \<noteq> None \<and> \<not> entry_is_expired now e) in
     case policy of
       NoEviction \<Rightarrow> None
     | AllKeysRandom \<Rightarrow> (case items of [] \<Rightarrow> None | (k, _) # _ \<Rightarrow> Some k)
     | VolatileRandom \<Rightarrow> map_option fst (find volatile items)
     | AllKeysLru \<Rightarrow> map_option fst (sample_lru_victim items 5 (\<lambda>(_, e). en_lru_clock e) (\<lambda>_. True))
     | VolatileLru \<Rightarrow> map_option fst (sample_lru_victim items 5 (\<lambda>(_, e). en_lru_clock e) volatile)
     | VolatileTtl \<Rightarrow> (case db_expiry_index d of [] \<Rightarrow> None | (_, k) # _ \<Rightarrow> Some k))"

definition db_evict_one :: "iter_order \<Rightarrow> nat \<Rightarrow> max_memory_policy \<Rightarrow> database \<Rightarrow> bytes option \<times> database" where
  "db_evict_one ord now policy d = (case evict_victim ord now policy d of
     Some k \<Rightarrow> (Some k, snd (db_remove k d))
   | None \<Rightarrow> (None, d))"

section \<open>What a shard stands for\<close>

text \<open>A shard stands for a map from keys to entries when its entries are that map, its expiry index holds
  exactly the keys that have an expiry, its byte counter is the sum of the sizes, and every key it
  holds has a version.\<close>

definition map_size :: "(bytes \<rightharpoonup> entry) \<Rightarrow> nat" where
  "map_size m = (\<Sum>k \<in> dom m. estimate_entry_size k (the (m k)))"

definition exp_set :: "bytes \<Rightarrow> expiry option \<Rightarrow> (nat \<times> bytes) set" where
  "exp_set key x = (case x of Some t \<Rightarrow> {(t, key)} | None \<Rightarrow> {})"

definition index_of :: "(bytes \<rightharpoonup> entry) \<Rightarrow> (nat \<times> bytes) set" where
  "index_of m = {(t, k). \<exists>e. m k = Some e \<and> en_expiry e = Some t}"

definition db_is :: "database \<Rightarrow> (bytes \<rightharpoonup> entry) \<Rightarrow> bool" where
  "db_is d m \<longleftrightarrow>
     distinct (map fst (db_entries d)) \<and> map_of (db_entries d) = m
     \<and> distinct (map fst (db_key_versions d)) \<and> dom m \<subseteq> dom (map_of (db_key_versions d))
     \<and> sorted (db_expiry_index d) \<and> distinct (db_expiry_index d) \<and> set (db_expiry_index d) = index_of m
     \<and> db_live_bytes d = map_size m"

abbreviation db_ok :: "database \<Rightarrow> bool" where
  "db_ok d \<equiv> db_is d (map_of (db_entries d))"

lemma db_isD:
  assumes "db_is d m"
  shows "map_of (db_entries d) = m" "distinct (map fst (db_entries d))" "finite (dom m)"
    "distinct (map fst (db_key_versions d))" "dom m \<subseteq> dom (map_of (db_key_versions d))"
    "sorted (db_expiry_index d)" "distinct (db_expiry_index d)" "set (db_expiry_index d) = index_of m"
    "db_live_bytes d = map_size m"
  using assms by (auto simp: db_is_def finite_dom_map_of)

lemma db_is_ok: "db_is d m \<Longrightarrow> db_ok d"
  by (simp add: db_is_def)

subsection \<open>Sizes\<close>

lemma map_size_split: "finite (dom m) \<Longrightarrow> m k = Some e \<Longrightarrow>
    map_size m = estimate_entry_size k e + (\<Sum>x \<in> dom m - {k}. estimate_entry_size x (the (m x)))"
  unfolding map_size_def by (subst sum.remove [of _ k]) (auto simp: domIff)

lemma map_size_upd:
  assumes "finite (dom m)"
  shows "map_size (m(k \<mapsto> e)) = estimate_entry_size k e + (\<Sum>x \<in> dom m - {k}. estimate_entry_size x (the (m x)))"
proof -
  have "(\<Sum>x \<in> dom m - {k}. estimate_entry_size x (the ((m(k \<mapsto> e)) x)))
      = (\<Sum>x \<in> dom m - {k}. estimate_entry_size x (the (m x)))" by (rule sum.cong) auto
  moreover have "dom (m(k \<mapsto> e)) - {k} = dom m - {k}" by auto
  ultimately show ?thesis using map_size_split [of "m(k \<mapsto> e)" k e] assms by simp
qed

lemma map_size_del:
  "finite (dom m) \<Longrightarrow> map_size (m(k := None)) = (\<Sum>x \<in> dom m - {k}. estimate_entry_size x (the (m x)))"
  unfolding map_size_def by (rule sum.cong) auto

lemma map_size_new: "finite (dom m) \<Longrightarrow> m k = None \<Longrightarrow> map_size (m(k \<mapsto> e)) = map_size m + estimate_entry_size k e"
  using map_size_upd [of m k e] by (simp add: map_size_def domIff)

text \<open>The two ways the code moves the counter when an entry is replaced.\<close>

lemma map_size_replace:
  assumes "finite (dom m)" and "m k = Some old"
  shows "map_size (m(k \<mapsto> e)) = map_size m - estimate_entry_size k old + estimate_entry_size k e"
    and "estimate_entry_size k old \<le> map_size m"
    and "map_size (m(k := None)) = map_size m - estimate_entry_size k old"
  using map_size_upd [OF assms(1), of k e] map_size_split [OF assms] map_size_del [OF assms(1), of k] by simp_all

subsection \<open>The expiry index\<close>

lemma index_of_upd: "index_of (m(k \<mapsto> e)) = index_of m - exp_set k (Option.bind (m k) en_expiry) \<union> exp_set k (en_expiry e)"
  by (auto simp: index_of_def exp_set_def split: option.splits if_splits bind_splits)

lemma index_of_del: "index_of (m(k := None)) = index_of m - exp_set k (Option.bind (m k) en_expiry)"
  by (auto simp: index_of_def exp_set_def split: option.splits if_splits bind_splits)

lemma bset_insert_props:
  "set (bset_insert x xs) = insert x (set xs)"
  "sorted xs \<Longrightarrow> sorted (bset_insert x xs)" "distinct xs \<Longrightarrow> distinct (bset_insert x xs)"
  by (auto simp: bset_insert_def set_insort_key sorted_insort distinct_insort)

lemma bset_remove_props:
  "distinct xs \<Longrightarrow> set (bset_remove x xs) = set xs - {x}"
  "sorted xs \<Longrightarrow> sorted (bset_remove x xs)" "distinct xs \<Longrightarrow> distinct (bset_remove x xs)"
  by (auto simp: bset_remove_def sorted_remove1 distinct_remove1)

lemma index_drop_props [simp]:
  "db_entries (index_drop k x d) = db_entries d" "db_key_versions (index_drop k x d) = db_key_versions d"
  "db_live_bytes (index_drop k x d) = db_live_bytes d" "db_removals (index_drop k x d) = db_removals d"
  "db_clock (index_drop k x d) = db_clock d"
  "sorted (db_expiry_index d) \<Longrightarrow> sorted (db_expiry_index (index_drop k x d))"
  "distinct (db_expiry_index d) \<Longrightarrow> distinct (db_expiry_index (index_drop k x d))"
  "distinct (db_expiry_index d) \<Longrightarrow> set (db_expiry_index (index_drop k x d)) = set (db_expiry_index d) - exp_set k x"
  by (simp_all add: index_drop_def exp_set_def bset_remove_props split: option.split)

lemma index_add_props [simp]:
  "db_entries (index_add k x d) = db_entries d" "db_key_versions (index_add k x d) = db_key_versions d"
  "db_live_bytes (index_add k x d) = db_live_bytes d" "db_removals (index_add k x d) = db_removals d"
  "db_clock (index_add k x d) = db_clock d"
  "sorted (db_expiry_index d) \<Longrightarrow> sorted (db_expiry_index (index_add k x d))"
  "distinct (db_expiry_index d) \<Longrightarrow> distinct (db_expiry_index (index_add k x d))"
  "set (db_expiry_index (index_add k x d)) = set (db_expiry_index d) \<union> exp_set k x"
  by (simp_all add: index_add_def exp_set_def bset_insert_props split: option.split)

subsection \<open>Versions\<close>

lemma bump_props [simp]:
  "db_entries (db_bump_version k d) = db_entries d" "db_expiry_index (db_bump_version k d) = db_expiry_index d"
  "db_live_bytes (db_bump_version k d) = db_live_bytes d" "db_removals (db_bump_version k d) = db_removals d"
  "db_clock (db_bump_version k d) = db_clock d"
  "distinct (map fst (db_key_versions d)) \<Longrightarrow> distinct (map fst (db_key_versions (db_bump_version k d)))"
  "dom (map_of (db_key_versions (db_bump_version k d))) = insert k (dom (map_of (db_key_versions d)))"
  by (simp_all add: db_bump_version_def distinct_update update_conv')

lemma bump_if_present_props [simp]:
  "db_entries (db_bump_version_if_present k d) = db_entries d"
  "db_expiry_index (db_bump_version_if_present k d) = db_expiry_index d"
  "db_live_bytes (db_bump_version_if_present k d) = db_live_bytes d"
  "db_clock (db_bump_version_if_present k d) = db_clock d"
  "distinct (map fst (db_key_versions d)) \<Longrightarrow> distinct (map fst (db_key_versions (db_bump_version_if_present k d)))"
  "dom (map_of (db_key_versions (db_bump_version_if_present k d))) = dom (map_of (db_key_versions d))"
  by (auto simp: db_bump_version_if_present_def distinct_update update_conv' split: option.split)

lemma sub_live_props [simp]:
  "db_entries (db_sub_live_bytes n d) = db_entries d" "db_expiry_index (db_sub_live_bytes n d) = db_expiry_index d"
  "db_key_versions (db_sub_live_bytes n d) = db_key_versions d" "db_clock (db_sub_live_bytes n d) = db_clock d"
  "db_live_bytes (db_sub_live_bytes n d) = db_live_bytes d - n"
  by (simp_all add: db_sub_live_bytes_def)

lemma put_entry_props [simp]:
  "map_of (db_entries (put_entry k e d)) = (map_of (db_entries d))(k \<mapsto> e)"
  "distinct (map fst (db_entries d)) \<Longrightarrow> distinct (map fst (db_entries (put_entry k e d)))"
  "db_expiry_index (put_entry k e d) = db_expiry_index d" "db_key_versions (put_entry k e d) = db_key_versions d"
  "db_live_bytes (put_entry k e d) = db_live_bytes d" "db_clock (put_entry k e d) = db_clock d"
  "db_removals (put_entry k e d) = db_removals d"
  by (simp_all add: put_entry_def distinct_update update_conv')

lemma prune_is: "db_is d m \<Longrightarrow> db_is (db_maybe_prune_versions n d) m"
proof -
  assume a: "db_is d m"
  let ?vs = "filter (\<lambda>(k, _). map_of (db_entries d) k \<noteq> None) (db_key_versions d)"
  have "distinct (map fst ?vs)" using db_isD(4) [OF a] by (simp add: distinct_map_filter)
  moreover have "dom m \<subseteq> dom (map_of ?vs)"
  proof
    fix k assume k: "k \<in> dom m"
    then obtain v where "(k, v) \<in> set (db_key_versions d)" using db_isD(5) [OF a] by (auto dest: map_of_SomeD)
    then have "k \<in> fst ` set ?vs" using k db_isD(1) [OF a] by (force simp: image_iff)
    then show "k \<in> dom (map_of ?vs)" by (simp add: dom_map_of_conv_image_fst)
  qed
  ultimately show ?thesis using a by (simp add: db_maybe_prune_versions_def Let_def db_is_def)
qed

lemma prune_clock [simp]: "db_clock (db_maybe_prune_versions n d) = db_clock d"
  by (simp add: db_maybe_prune_versions_def Let_def)

section \<open>Every operation keeps it\<close>

lemma db_new_is: "db_is db_new Map.empty"
  by (simp add: db_is_def db_new_def index_of_def map_size_def)

lemma db_remove_is:
  assumes "db_is d m"
  shows "fst (db_remove k d) = m k" and "db_is (snd (db_remove k d)) (m(k := None))"
proof -
  note a = db_isD [OF assms]
  show "fst (db_remove k d) = m k" by (simp add: db_remove_def Let_def a(1))
  have "db_is (case m k of Some e \<Rightarrow> db_sub_live_bytes (estimate_entry_size k e) (db_bump_version_if_present k
           (index_drop k (en_expiry e) (d\<lparr>db_entries := AList.delete k (db_entries d)\<rparr>)))
       | None \<Rightarrow> d\<lparr>db_entries := AList.delete k (db_entries d)\<rparr>) (m(k := None))"
  proof (cases "m k")
    case None
    then have "m(k := None) = m" by auto
    then show ?thesis using None a by (simp add: db_is_def delete_conv' distinct_delete)
  next
    case (Some e)
    then show ?thesis using a map_size_replace [OF a(3) Some]
      by (auto simp: db_is_def delete_conv' distinct_delete index_of_del)
  qed
  then show "db_is (snd (db_remove k d)) (m(k := None))"
    by (simp add: db_remove_def Let_def a(1) prune_is)
qed

lemma db_insert_is:
  assumes "db_is d m"
  shows "db_is (db_insert k e d) (m(k \<mapsto> e))"
proof (cases "m k")
  case None
  note a = db_isD [OF assms]
  show ?thesis using None a map_size_new [OF a(3) None]
    by (auto simp: db_insert_def Let_def db_is_def distinct_update update_conv' index_of_upd exp_set_def)
next
  case (Some old)
  note a = db_isD [OF assms]
  show ?thesis using Some a map_size_replace [OF a(3) Some]
    by (auto simp: db_insert_def Let_def db_is_def index_of_upd)
qed

text \<open>Writing an entry that differs from the stored one in neither expiry nor size.\<close>

lemma put_entry_is:
  assumes "db_is d m" and "m k = Some old" and "en_expiry e = en_expiry old"
    and "value_size (en_value e) = value_size (en_value old)"
  shows "db_is (put_entry k e d) (m(k \<mapsto> e))"
proof -
  note a = db_isD [OF assms(1)]
  have "index_of (m(k \<mapsto> e)) = index_of m"
    unfolding index_of_upd using assms(2,3) by (auto simp: exp_set_def index_of_def split: option.splits)
  moreover have "map_size (m(k \<mapsto> e)) = map_size m"
    using map_size_replace [OF a(3) assms(2)] assms(4) by (simp add: estimate_entry_size_def)
  ultimately show ?thesis using a assms(2) by (auto simp: db_is_def)
qed

lemma bump_is: "db_is d m \<Longrightarrow> db_is (db_bump_version k d) m"
  by (auto simp: db_is_def)

lemma db_get_is:
  assumes "db_is d m"
  shows "fst (db_get now k d) = (case m k of Some e \<Rightarrow> if entry_is_expired now e then None
        else Some (e\<lparr>en_lru_clock := db_clock d\<rparr>) | None \<Rightarrow> None)"
    and "db_is (snd (db_get now k d)) (case m k of Some e \<Rightarrow> if entry_is_expired now e then m(k := None)
        else m(k \<mapsto> e\<lparr>en_lru_clock := db_clock d\<rparr>) | None \<Rightarrow> m)"
  using assms db_remove_is(2) [OF assms, of k] put_entry_is [OF assms, of k]
  by (auto simp: db_get_def db_isD(1) [OF assms] Let_def split: option.split)

lemma db_get_mut_is:
  assumes "db_is d m"
  shows "fst (db_get_mut now k d) = (case m k of Some e \<Rightarrow> if entry_is_expired now e then None
        else Some e | None \<Rightarrow> None)"
    and "db_is (snd (db_get_mut now k d)) (case m k of Some e \<Rightarrow> if entry_is_expired now e then m(k := None)
        else m | None \<Rightarrow> m)"
  using assms db_remove_is(2) [OF assms, of k] bump_is [OF assms, of k]
  by (auto simp: db_get_mut_def db_isD(1) [OF assms] Let_def split: option.split)

lemma db_set_plain_is:
  assumes "db_is d m"
  shows "\<exists>lru. db_is (db_set_plain now k v d) (m(k \<mapsto> \<lparr>en_value = DString v, en_expiry = None, en_lru_clock = lru\<rparr>))"
proof (cases "\<exists>e. m k = Some e \<and> \<not> entry_is_expired now e")
  case True
  then obtain e where e: "m k = Some e" "\<not> entry_is_expired now e" by blast
  note a = db_isD [OF assms]
  let ?n = "\<lparr>en_value = DString v, en_expiry = None, en_lru_clock = db_clock d\<rparr>"
  have "db_is (db_set_plain now k v d) (m(k \<mapsto> ?n))"
    using e a map_size_replace(1) [OF a(3) e(1), of ?n] map_size_replace(2) [OF a(3) e(1)]
    by (auto simp: db_set_plain_def Let_def db_is_def index_of_upd exp_set_def estimate_entry_size_def)
  then show ?thesis by blast
next
  case False
  then have "db_set_plain now k v d = db_insert k (entry_new (DString v)) d"
    by (auto simp: db_set_plain_def Let_def db_isD(1) [OF assms] split: option.split)
  then show ?thesis using db_insert_is [OF assms, of k "entry_new (DString v)"] by (auto simp: entry_new_def)
qed

lemma db_get_or_insert_is:
  assumes "db_is d m"
  shows "db_is (snd (db_get_or_insert_with now k new d)) (m(k \<mapsto> fst (db_get_or_insert_with now k new d)))"
    and "fst (db_get_or_insert_with now k new d) = (case m k of
        Some e \<Rightarrow> if entry_is_expired now e then new else e\<lparr>en_lru_clock := db_clock d\<rparr> | None \<Rightarrow> new)"
proof -
  note a = db_isD [OF assms]
  show f: "fst (db_get_or_insert_with now k new d) = (case m k of
      Some e \<Rightarrow> if entry_is_expired now e then new else e\<lparr>en_lru_clock := db_clock d\<rparr> | None \<Rightarrow> new)"
    by (simp add: db_get_or_insert_with_def Let_def a(1) split: option.split)
  show "db_is (snd (db_get_or_insert_with now k new d)) (m(k \<mapsto> fst (db_get_or_insert_with now k new d)))"
  proof (cases "m k")
    case None
    then show ?thesis unfolding f using a map_size_new [OF a(3) None]
      by (auto simp: db_get_or_insert_with_def Let_def db_is_def index_of_upd exp_set_def)
  next
    case (Some e)
    show ?thesis
    proof (cases "entry_is_expired now e")
      case True
      then show ?thesis unfolding f using Some a map_size_replace [OF a(3) Some]
        by (auto simp: db_get_or_insert_with_def Let_def db_is_def index_of_upd)
    next
      case False
      then show ?thesis unfolding f using Some bump_is [OF put_entry_is [OF assms Some, of "e\<lparr>en_lru_clock := db_clock d\<rparr>"]] a(1)
        by (simp add: db_get_or_insert_with_def Let_def)
    qed
  qed
qed

lemma db_set_expiry_is:
  assumes "db_is d m"
  shows "db_is (db_set_expiry k x d) (case m k of Some e \<Rightarrow> m(k \<mapsto> e\<lparr>en_expiry := x\<rparr>) | None \<Rightarrow> m)"
proof (cases "m k")
  case None
  then show ?thesis using assms db_isD(1) [OF assms] by (simp add: db_set_expiry_def)
next
  case (Some e)
  note a = db_isD [OF assms]
  have "map_size (m(k \<mapsto> e\<lparr>en_expiry := x\<rparr>)) = map_size m"
    using map_size_replace [OF a(3) Some] by (simp add: estimate_entry_size_def)
  then show ?thesis using Some a by (auto simp: db_set_expiry_def db_is_def index_of_upd)
qed

end
