(* ===== verification/Expire.thy ===== *)
theory Expire
  imports Database
begin

text \<open>
  INCR on a shard, active expiry and eviction: what the operations of \<open>Database\<close> that loop or branch on
  the stored value do to the map a shard stands for.
\<close>

section \<open>Reading through expiry\<close>

text \<open>The entry a client sees: none once it has expired.\<close>

definition live_entry :: "nat \<Rightarrow> entry option \<Rightarrow> entry option" where
  "live_entry now x = (case x of Some e \<Rightarrow> if entry_is_expired now e then None else Some e | None \<Rightarrow> None)"

lemma live_entry_simps [simp]:
  "live_entry now None = None"
  "live_entry now (Some e) = (if entry_is_expired now e then None else Some e)"
  by (simp_all add: live_entry_def)

lemma db_get_ro_is: "db_is d m \<Longrightarrow> db_get_ro now k d = live_entry now (m k)"
  by (simp add: db_get_ro_def db_isD(1) live_entry_def split: option.split)

section \<open>INCR\<close>

fun int_of_value :: "data_type \<Rightarrow> nexrade_error + int" where
  "int_of_value (DInt c) = Inr (ic_value c)"
| "int_of_value (DString s) = (case parse_i64 s of None \<Rightarrow> Inl NotInteger | Some n \<Rightarrow> Inr n)"
| "int_of_value _ = Inl WrongType"

definition incr_spec :: "entry option \<Rightarrow> int \<Rightarrow> nexrade_error + int" where
  "incr_spec x delta = (case x of
     None \<Rightarrow> Inr delta
   | Some e \<Rightarrow> (case int_of_value (en_value e) of
       Inl err \<Rightarrow> Inl err
     | Inr n \<Rightarrow> (case i64_checked_add n delta of None \<Rightarrow> Inl Overflow | Some v \<Rightarrow> Inr v)))"

lemma db_incr_int_reply:
  "db_is d m \<Longrightarrow> fst (db_incr_int now k delta d) = incr_spec (live_entry now (m k)) delta"
  by (cases "m k") (auto simp: db_incr_int_def db_isD(1) Let_def incr_spec_def cell_load_def
      split: data_type.split option.split)

lemma db_incr_int_error:
  "db_is d m \<Longrightarrow> fst (db_incr_int now k delta d) = Inl err \<Longrightarrow> snd (db_incr_int now k delta d) = d"
  by (cases "m k") (auto simp: db_incr_int_def db_isD(1) Let_def
      split: data_type.splits option.splits if_splits)

lemma new_int_is:
  assumes "db_is d m" and "live_entry now (m k) = None"
  shows "db_is (snd (db_incr_int now k delta d)) (m(k \<mapsto> entry_new (DInt (cell_new delta))))"
proof -
  note a = db_isD [OF assms(1)]
  let ?n = "entry_new (DInt (cell_new delta))"
  show ?thesis
  proof (cases "m k")
    case None
    then show ?thesis using a map_size_new [OF a(3) None, of ?n]
      by (auto simp: db_incr_int_def Let_def db_is_def index_of_upd exp_set_def entry_new_def)
  next
    case (Some e)
    then have "entry_is_expired now e" using assms(2) by (simp split: if_splits)
    then show ?thesis using Some a map_size_replace(1) [OF a(3) Some, of ?n] map_size_replace(2) [OF a(3) Some]
      by (auto simp: db_incr_int_def Let_def db_is_def index_of_upd exp_set_def entry_new_def)
  qed
qed

lemma db_incr_int_old:
  assumes "db_is d m" and "m k = Some e" and "\<not> entry_is_expired now e"
    and "fst (db_incr_int now k delta d) = Inr v"
  shows "\<exists>c. ic_value c = v
    \<and> db_is (snd (db_incr_int now k delta d)) (m(k \<mapsto> e\<lparr>en_value := DInt c, en_lru_clock := db_clock d\<rparr>))"
proof -
  note a = db_isD [OF assms(1)]
  consider (int) cell where "en_value e = DInt cell" "i64_checked_add (cell_load cell) delta = Some v"
    | (str) s n where "en_value e = DString s" "parse_i64 s = Some n" "i64_checked_add n delta = Some v"
    using assms(2,3,4) a(1)
    by (auto simp: db_incr_int_def Let_def split: data_type.splits option.splits)
  then show ?thesis
  proof cases
    case int
    let ?e = "e\<lparr>en_value := DInt (cell_store cell v), en_lru_clock := db_clock d\<rparr>"
    have "db_is (put_entry k ?e d) (m(k \<mapsto> ?e))" using int by (intro put_entry_is [OF assms(1,2)]) simp_all
    then have "db_is (snd (db_incr_int now k delta d)) (m(k \<mapsto> ?e))"
      using int assms(2,3) a(1) by (simp add: db_incr_int_def bump_is)
    then show ?thesis by (intro exI [of _ "cell_store cell v"]) (simp add: cell_store_def)
  next
    case str
    let ?e = "e\<lparr>en_value := DInt (cell_new v), en_lru_clock := db_clock d\<rparr>"
    have ix: "index_of (m(k \<mapsto> ?e)) = index_of m"
      unfolding index_of_upd using assms(2) by (auto simp: exp_set_def index_of_def split: option.splits)
    have "db_is (snd (db_incr_int now k delta d)) (m(k \<mapsto> ?e))"
      using str assms(2,3) a ix map_size_replace(1) [OF a(3) assms(2), of ?e] map_size_replace(2) [OF a(3) assms(2)]
      by (auto simp: db_incr_int_def Let_def db_is_def estimate_entry_size_def)
    then show ?thesis by (intro exI [of _ "cell_new v"]) (simp add: cell_new_def)
  qed
qed

section \<open>Active expiry\<close>

definition expired_keys :: "nat \<Rightarrow> (bytes \<rightharpoonup> entry) \<Rightarrow> bytes set" where
  "expired_keys now m = {k. \<exists>e. m k = Some e \<and> entry_is_expired now e}"

lemma expired_index: "k \<in> expired_keys now m \<longleftrightarrow> (\<exists>t. (t, k) \<in> index_of m \<and> t \<le> now)"
  by (auto simp: expired_keys_def index_of_def entry_is_expired_def expiry_is_expired_def split: option.splits)

lemma index_functional: "(t, k) \<in> index_of m \<Longrightarrow> (u, k) \<in> index_of m \<Longrightarrow> t = u"
  by (auto simp: index_of_def)

lemma restrict_UNIV [simp]: "m |` UNIV = m"
  by (simp add: restrict_map_def)

text \<open>One round of the loop is a removal without the prune.\<close>

lemma expire_one:
  assumes "db_is d m" and "(t, k) \<in> index_of m"
  shows "expire_loop ((t, k) # rest) acc d = expire_loop rest (acc @ [k])
      ((db_bump_version_if_present k (db_sub_live_bytes (estimate_entry_size k (the (m k)))
         (d\<lparr>db_entries := AList.delete k (db_entries d)\<rparr>)))\<lparr>db_expiry_index := bset_remove (t, k) (db_expiry_index d)\<rparr>)"
    and "db_is ((db_bump_version_if_present k (db_sub_live_bytes (estimate_entry_size k (the (m k)))
         (d\<lparr>db_entries := AList.delete k (db_entries d)\<rparr>)))\<lparr>db_expiry_index := bset_remove (t, k) (db_expiry_index d)\<rparr>)
      (m(k := None))"
proof -
  note a = db_isD [OF assms(1)]
  obtain e where e: "m k = Some e" "en_expiry e = Some t" using assms(2) by (auto simp: index_of_def)
  show "expire_loop ((t, k) # rest) acc d = expire_loop rest (acc @ [k])
      ((db_bump_version_if_present k (db_sub_live_bytes (estimate_entry_size k (the (m k)))
         (d\<lparr>db_entries := AList.delete k (db_entries d)\<rparr>)))\<lparr>db_expiry_index := bset_remove (t, k) (db_expiry_index d)\<rparr>)"
    using e a(1) by (simp add: Let_def)
  show "db_is ((db_bump_version_if_present k (db_sub_live_bytes (estimate_entry_size k (the (m k)))
         (d\<lparr>db_entries := AList.delete k (db_entries d)\<rparr>)))\<lparr>db_expiry_index := bset_remove (t, k) (db_expiry_index d)\<rparr>)
      (m(k := None))"
    using e a map_size_replace(2,3) [OF a(3) e(1)]
    by (auto simp: db_is_def delete_conv' distinct_delete index_of_del exp_set_def bset_remove_props)
qed

lemma expire_loop_is:
  "db_is d m \<Longrightarrow> set del \<subseteq> index_of m \<Longrightarrow> distinct del \<Longrightarrow>
     \<exists>d'. expire_loop del acc d = (acc @ map snd del, d') \<and> db_is d' (m |` (- snd ` set del))"
proof (induction del arbitrary: d m acc)
  case Nil
  then show ?case by simp
next
  case (Cons tk del)
  obtain t k where tk: "tk = (t, k)" by force
  have i: "(t, k) \<in> index_of m" and dd: "distinct del" using Cons.prems(2,3) tk by auto
  have sub: "set del \<subseteq> index_of (m(k := None))"
  proof
    fix x assume x: "x \<in> set del"
    obtain u j where uj: "x = (u, j)" by force
    then have "(u, j) \<in> index_of m" "(u, j) \<noteq> (t, k)" using x Cons.prems(2,3) tk by auto
    then show "x \<in> index_of (m(k := None))" using i index_functional uj by (auto simp: index_of_def)
  qed
  have "(m(k := None)) |` (- snd ` set del) = m |` (- snd ` set (tk # del))"
    by (auto simp: tk restrict_map_def fun_eq_iff)
  moreover obtain d' where "expire_loop (tk # del) acc d = ((acc @ [k]) @ map snd del, d')"
    "db_is d' ((m(k := None)) |` (- snd ` set del))"
    using Cons.IH [OF expire_one(2) [OF Cons.prems(1) i] sub dd, of "acc @ [k]"]
    unfolding tk expire_one(1) [OF Cons.prems(1) i] by blast
  ultimately show ?case by (simp only: tk) auto
qed

lemma due_prefix:
  assumes "sorted (xs :: (nat \<times> bytes) list)"
  shows "set (takeWhile (\<lambda>(t, _). t \<le> now) xs) = {x \<in> set xs. fst x \<le> now}"
  using assms
proof (induction xs)
  case (Cons x xs)
  then have IH: "set (takeWhile (\<lambda>(t, _). t \<le> now) xs) = {x \<in> set xs. fst x \<le> now}" by simp
  show ?case
  proof (cases "fst x \<le> now")
    case True
    then have t: "takeWhile (\<lambda>(t, _). t \<le> now) (x # xs) = x # takeWhile (\<lambda>(t, _). t \<le> now) xs"
      by (cases x) simp
    show ?thesis unfolding t list.set IH using True by blast
  next
    case False
    have "fst x \<le> fst y" if "y \<in> set xs" for y
      using that Cons.prems by (cases x, cases y) (auto simp: less_eq_prod_def)
    then have "{y \<in> set (x # xs). fst y \<le> now} = {}" using False order_trans by fastforce
    moreover have "takeWhile (\<lambda>(t, _). t \<le> now) (x # xs) = []" using False by (cases x) simp
    ultimately show ?thesis by (simp only: list.set)
  qed
qed simp

lemma db_expire_batch_is:
  assumes "db_is d m"
  obtains ks d' where "db_expire_batch now n d = (ks, d')" and "distinct ks" and "set ks \<subseteq> expired_keys now m"
    and "length ks = min n (card (expired_keys now m))" and "db_is d' (m |` (- set ks))"
proof -
  note a = db_isD [OF assms]
  let ?due = "takeWhile (\<lambda>(t, _). t \<le> now) (db_expiry_index d)"
  let ?del = "take n ?due"
  have due: "set ?due = {x \<in> index_of m. fst x \<le> now}" using due_prefix [OF a(6)] a(8) by simp
  have ddue: "distinct ?due" using a(7) by (rule distinct_takeWhile)
  have inj: "inj_on snd (index_of m)" by (auto simp: inj_on_def intro: index_functional)
  have keys: "snd ` set ?due = expired_keys now m" unfolding due by (force simp: expired_index image_iff)
  have sub: "set ?del \<subseteq> index_of m" using due set_take_subset [of n ?due] by auto
  have dd: "distinct ?del" using ddue by (rule distinct_take)
  from expire_loop_is [OF assms sub dd, of "[]"] obtain d1 where
    l: "expire_loop ?del [] d = (map snd ?del, d1)" "db_is d1 (m |` (- snd ` set ?del))" by auto
  show thesis
  proof
    show "db_expire_batch now n d = (map snd ?del, db_maybe_prune_versions (length (map snd ?del) mod 2 ^ 32) d1)"
      by (simp add: db_expire_batch_def Let_def l(1))
    show "distinct (map snd ?del)" using dd inj sub by (simp add: distinct_map inj_on_subset)
    show "set (map snd ?del) \<subseteq> expired_keys now m" unfolding keys [symmetric] set_map by (intro image_mono set_take_subset)
    have "card (expired_keys now m) = length ?due"
      unfolding keys [symmetric] using due inj ddue
      by (metis (no_types, lifting) card_image distinct_card inj_on_subset mem_Collect_eq subsetI)
    then show "length (map snd ?del) = min n (card (expired_keys now m))" by (simp add: min.commute)
    show "db_is (db_maybe_prune_versions (length (map snd ?del) mod 2 ^ 32) d1) (m |` (- set (map snd ?del)))"
      using prune_is [OF l(2)] by simp
  qed
qed

lemma expired_restrict: "expired_keys now (m |` (- A)) = expired_keys now m - A"
  by (auto simp: expired_keys_def restrict_map_def split: if_splits)

text \<open>The sum of the budgets the rounds may spend.\<close>

fun budgets :: "nat \<Rightarrow> nat \<Rightarrow> nat" where
  "budgets 0 b = 0"
| "budgets (Suc fuel) b = b + budgets fuel (if b < 256 then min (b * 2) 256 else b)"

lemma index_empty_expired: "db_is d m \<Longrightarrow> db_expiry_index d = [] \<Longrightarrow> expired_keys now m = {}"
  using db_isD(8) expired_index by fastforce

lemma finite_expired: "db_is d m \<Longrightarrow> finite (expired_keys now m)"
  by (rule finite_subset [OF _ db_isD(3)]) (auto simp: expired_keys_def)

lemma card_expired_index: "db_is d m \<Longrightarrow> card (expired_keys now m) \<le> length (db_expiry_index d)"
proof -
  assume a: "db_is d m"
  have "expired_keys now m \<subseteq> snd ` index_of m" by (force simp: expired_index image_iff)
  then have "card (expired_keys now m) \<le> card (snd ` set (db_expiry_index d))"
    unfolding db_isD(8) [OF a, symmetric] by (intro card_mono) auto
  also have "\<dots> \<le> length (db_expiry_index d)" by (meson card_image_le card_length finite_set le_trans)
  finally show ?thesis .
qed

lemma expire_rounds_is:
  assumes "db_is d m" and "0 < b"
  shows "\<exists>ks r d'. expire_rounds now fuel b acc n d = ((acc @ ks, r), d') \<and> distinct ks
    \<and> set ks \<subseteq> expired_keys now m \<and> db_is d' (m |` (- set ks))
    \<and> (card (expired_keys now m) < budgets fuel b \<longrightarrow> set ks = expired_keys now m)"
  using assms
proof (induction fuel arbitrary: b acc n d m)
  case 0
  then show ?case by (auto intro!: exI [of _ "[]"])
next
  case (Suc fuel)
  note fin = finite_expired [OF Suc.prems(1), of now]
  show ?case
  proof (cases "db_expiry_index d = []")
    case True
    then show ?thesis using Suc.prems index_empty_expired [OF Suc.prems(1) True, of now]
      by (intro exI [of _ "[]"]) auto
  next
    case False
    let ?n = "min b (length (db_expiry_index d))" and ?b = "if b < 256 then min (b * 2) 256 else b"
    obtain ks d1 where b: "db_expire_batch now ?n d = (ks, d1)" "distinct ks" "set ks \<subseteq> expired_keys now m"
      "length ks = min ?n (card (expired_keys now m))" "db_is d1 (m |` (- set ks))"
      using db_expire_batch_is [OF Suc.prems(1), of now ?n] by blast
    have len: "length ks = min b (card (expired_keys now m))"
      using b(4) card_expired_index [OF Suc.prems(1), of now] by simp
    show ?thesis
    proof (cases "length ks < b")
      case True
      then have "card (set ks) = card (expired_keys now m)" using len distinct_card [OF b(2)] by simp
      then have "set ks = expired_keys now m" using b(3) fin by (intro card_subset_eq) auto
      moreover have "expire_rounds now (Suc fuel) b acc n d = ((acc @ ks, Suc n), d1)"
        using True False b(1) Suc.prems(2) by (simp add: Let_def)
      ultimately show ?thesis using b(2,5) by (intro exI [of _ ks] exI [of _ "Suc n"] exI [of _ d1]) simp
    next
      case nf: False
      have "0 < ?b" using Suc.prems(2) by simp
      from Suc.IH [OF b(5) this, of "acc @ ks" "Suc n"] obtain ks' r d' where
        r: "expire_rounds now fuel ?b (acc @ ks) (Suc n) d1 = (((acc @ ks) @ ks', r), d')" "distinct ks'"
        "set ks' \<subseteq> expired_keys now m - set ks" "db_is d' (m |` (- set ks) |` (- set ks'))"
        "card (expired_keys now m - set ks) < budgets fuel ?b \<longrightarrow> set ks' = expired_keys now m - set ks"
        unfolding expired_restrict by blast
      have step: "expire_rounds now (Suc fuel) b acc n d = expire_rounds now fuel ?b (acc @ ks) (Suc n) d1"
        using False nf Suc.prems(2) b(1) by (simp add: Let_def)
      have "card (expired_keys now m - set ks) = card (expired_keys now m) - b"
        using b(3) nf len distinct_card [OF b(2)] by (simp add: card_Diff_subset)
      then have "card (expired_keys now m) < budgets (Suc fuel) b \<longrightarrow> set (ks @ ks') = expired_keys now m"
        using r(5) b(3) nf len by auto
      moreover have "m |` (- set ks) |` (- set ks') = m |` (- set (ks @ ks'))"
        by (simp add: restrict_restrict Compl_Un)
      ultimately show ?thesis using step r b(2,3) by (intro exI [of _ "ks @ ks'"]) auto
    qed
  qed
qed

lemma budgets_cycle: "budgets 16 20 = 3372"
  by (simp add: eval_nat_numeral)

section \<open>Eviction\<close>

lemma sample_loop_from:
  "set (sample_loop n score keep items idx sample) \<subseteq> set sample \<union> {(kv, score kv) | kv. kv \<in> set items \<and> keep kv}"
proof (induction items arbitrary: idx sample)
  case (Cons kv rest)
  let ?S = "\<lambda>xs. {(kv, score kv) | kv. kv \<in> set xs \<and> keep kv}"
  have mono: "?S rest \<subseteq> ?S (kv # rest)" by auto
  show ?case
  proof (cases "keep kv")
    case False
    then show ?thesis using Cons.IH [of "Suc idx" sample] mono by (simp add: Let_def) blast
  next
    case True
    then have kv: "(kv, score kv) \<in> ?S (kv # rest)" by (cases kv) auto
    define slot where "slot = (idx + 1) * 2654435761 mod 2 ^ 64 mod (idx + 1 + 1)"
    define s' where "s' = (if length sample < n then sample @ [(kv, score kv)]
      else if slot < n then sample[slot := (kv, score kv)] else sample)"
    have eq: "sample_loop n score keep (kv # rest) idx sample = sample_loop n score keep rest (Suc idx) s'"
      unfolding s'_def slot_def using True by (simp only: sample_loop.simps Let_def) simp
    have s': "set s' \<subseteq> insert (kv, score kv) (set sample)"
      unfolding s'_def by (simp add: subset_insertI set_update_subset_insert)
    have ins: "insert (kv, score kv) (set sample) \<subseteq> set sample \<union> ?S (kv # rest)"
      using kv by (simp only: insert_subset Un_iff Un_upper1 simp_thms)
    show ?thesis unfolding eq
      by (rule order_trans [OF Cons.IH]) (intro Un_least order_trans [OF s' ins] le_supI2 mono)
  qed
qed simp

lemma sample_loop_length: "length (sample_loop n score keep items idx sample) \<ge> length sample"
proof (induction n score keep items idx sample rule: sample_loop.induct)
  case (2 n score keep kv rest idx sample)
  then show ?case by (auto simp: Let_def split: if_splits)
qed simp

lemma sample_loop_small:
  "length sample + length (filter keep items) \<le> n \<Longrightarrow>
     sample_loop n score keep items idx sample = sample @ map (\<lambda>kv. (kv, score kv)) (filter keep items)"
  by (induction n score keep items idx sample rule: sample_loop.induct) (auto simp: Let_def)

lemma sample_loop_nonempty:
  "0 < n \<Longrightarrow> kv \<in> set items \<Longrightarrow> keep kv \<Longrightarrow> sample_loop n score keep items idx sample \<noteq> []"
proof (induction n score keep items idx sample rule: sample_loop.induct)
  case (2 n score keep kv' rest idx sample)
  have ne: "sample_loop n score keep rest i s \<noteq> []" if "s \<noteq> []" for i s
    using sample_loop_length [of s n score keep rest i] that by auto
  show ?case
  proof (cases "keep kv'")
    case False
    then show ?thesis using 2 by (auto simp: Let_def)
  next
    case True
    show ?thesis
    proof (cases "length sample < n")
      case True
      then show ?thesis using \<open>keep kv'\<close> ne [of "sample @ [(kv', score kv')]"] by (simp add: Let_def)
    next
      case False
      then have "sample \<noteq> []" using 2(4) by auto
      then show ?thesis using False \<open>keep kv'\<close> ne by (simp add: Let_def)
    qed
  qed
qed simp

lemma min_by_score_Some:
  "min_by_score xs = Some kv \<Longrightarrow> \<exists>s. (kv, s) \<in> set xs \<and> (\<forall>(_, t) \<in> set xs. s \<le> t)"
proof (induction xs rule: min_by_score.induct)
  case (2 kv' s' rest)
  show ?case
  proof (cases "\<forall>(_, t) \<in> set rest. s' \<le> t")
    case True
    then show ?thesis using 2(2) by auto
  next
    case False
    have "min_by_score rest = Some kv" using 2(2) False by (simp only: min_by_score.simps if_False)
    from 2(1) [OF False this] obtain s where s: "(kv, s) \<in> set rest" "\<forall>(_, t) \<in> set rest. s \<le> t" by blast
    from False obtain y where y: "y \<in> set rest" "snd y < s'" by (auto simp: case_prod_beta not_le)
    then have "s \<le> snd y" using s(2) by (auto simp: case_prod_beta)
    then have "s \<le> s'" using y(2) by simp
    then show ?thesis using s by (intro exI [of _ s]) auto
  qed
qed simp

lemma min_by_score_None: "min_by_score xs = None \<longleftrightarrow> xs = []"
proof (induction xs rule: min_by_score.induct)
  case (2 kv s rest)
  show ?case using 2 by (cases rest) auto
qed simp

text \<open>The victim is a candidate, there is one whenever there is a candidate, and among at most
  \<open>n\<close> candidates it is a least recently used one.\<close>

lemma sample_lru_victim_correct:
  assumes "0 < n"
  shows "sample_lru_victim items n score keep = None \<longleftrightarrow> (\<forall>kv \<in> set items. \<not> keep kv)"
    and "sample_lru_victim items n score keep = Some kv \<Longrightarrow> kv \<in> set items \<and> keep kv"
    and "sample_lru_victim items n score keep = Some kv \<Longrightarrow> length (filter keep items) \<le> n \<Longrightarrow>
      \<forall>x \<in> set items. keep x \<longrightarrow> score kv \<le> score x"
proof -
  note from_items = sample_loop_from [of n score keep items 0 "[]"]
  show "sample_lru_victim items n score keep = None \<longleftrightarrow> (\<forall>kv \<in> set items. \<not> keep kv)"
  proof
    assume "sample_lru_victim items n score keep = None"
    then have "sample_loop n score keep items 0 [] = []" by (simp add: sample_lru_victim_def min_by_score_None)
    then show "\<forall>kv \<in> set items. \<not> keep kv" using sample_loop_nonempty [OF assms] by blast
  next
    assume "\<forall>kv \<in> set items. \<not> keep kv"
    then have "x \<notin> set (sample_loop n score keep items 0 [])" for x using from_items by fastforce
    then have "sample_loop n score keep items 0 [] = []" by (metis list.set_intros(1) neq_Nil_conv)
    then show "sample_lru_victim items n score keep = None" by (simp add: sample_lru_victim_def)
  qed
  show "kv \<in> set items \<and> keep kv" if "sample_lru_victim items n score keep = Some kv"
    using min_by_score_Some [OF that [unfolded sample_lru_victim_def]] from_items by auto
  show "\<forall>x \<in> set items. keep x \<longrightarrow> score kv \<le> score x"
    if v: "sample_lru_victim items n score keep = Some kv" and "length (filter keep items) \<le> n"
  proof -
    have "sample_loop n score keep items 0 [] = map (\<lambda>kv. (kv, score kv)) (filter keep items)"
      using sample_loop_small [of "[]"] that(2) by simp
    with min_by_score_Some [OF v [unfolded sample_lru_victim_def]] show ?thesis by auto
  qed
qed

definition iter_laws :: "iter_order \<Rightarrow> bool" where
  "iter_laws ord \<longleftrightarrow> (\<forall>xs. mset (ord xs) = mset xs)"

lemma iter_lawsD: "iter_laws ord \<Longrightarrow> set (ord xs) = set xs" "iter_laws ord \<Longrightarrow> length (ord xs) = length xs"
  by (metis iter_laws_def set_mset_mset) (metis iter_laws_def size_mset)

definition volatile_keys :: "nat \<Rightarrow> (bytes \<rightharpoonup> entry) \<Rightarrow> bytes set" where
  "volatile_keys now m = {k. \<exists>e. m k = Some e \<and> en_expiry e \<noteq> None \<and> \<not> entry_is_expired now e}"

text \<open>The keys a policy may evict.\<close>

definition evictable :: "nat \<Rightarrow> max_memory_policy \<Rightarrow> (bytes \<rightharpoonup> entry) \<Rightarrow> bytes set" where
  "evictable now policy m = (case policy of
     NoEviction \<Rightarrow> {}
   | AllKeysRandom \<Rightarrow> dom m
   | AllKeysLru \<Rightarrow> dom m
   | VolatileRandom \<Rightarrow> volatile_keys now m
   | VolatileLru \<Rightarrow> volatile_keys now m
   | VolatileTtl \<Rightarrow> snd ` index_of m)"

lemma entries_graph: "db_is d m \<Longrightarrow> (k, e) \<in> set (db_entries d) \<longleftrightarrow> m k = Some e"
  using db_isD(1,2) by (metis map_of_eq_Some_iff)

lemma evict_victim_correct:
  assumes "db_is d m" and "iter_laws ord"
  shows "evict_victim ord now policy d = None \<longleftrightarrow> evictable now policy m = {}"
    and "evict_victim ord now policy d = Some k \<Longrightarrow> k \<in> evictable now policy m"
proof -
  note g = entries_graph [OF assms(1)]
  let ?items = "ord (db_entries d)"
  have items: "(k, e) \<in> set ?items \<longleftrightarrow> m k = Some e" for k e using iter_lawsD(1) [OF assms(2)] g by simp
  note lru = sample_lru_victim_correct [of 5 ?items "\<lambda>(_, e). en_lru_clock e"]
  let ?vol = "\<lambda>(_ :: bytes, e). en_expiry e \<noteq> None \<and> \<not> entry_is_expired now e"
  have e0: "?items = [] \<longleftrightarrow> dom m = {}" using items by (cases ?items) (auto simp: dom_def)
  have idx: "set (db_expiry_index d) = index_of m" by (rule db_isD(8) [OF assms(1)])
  show "evict_victim ord now policy d = None \<longleftrightarrow> evictable now policy m = {}"
  proof (cases policy)
    case VolatileRandom
    have "find ?vol ?items = None \<longleftrightarrow> volatile_keys now m = {}"
      unfolding find_None_iff volatile_keys_def using items by fastforce
    then show ?thesis by (simp add: VolatileRandom evict_victim_def evictable_def)
  next
    case AllKeysLru
    then show ?thesis using lru(1) [of "\<lambda>_. True"] items by (auto simp: evict_victim_def evictable_def)
  next
    case VolatileLru
    have "sample_lru_victim ?items 5 (\<lambda>(_, e). en_lru_clock e) ?vol = None \<longleftrightarrow> volatile_keys now m = {}"
      using lru(1) [of ?vol] items by (fastforce simp: volatile_keys_def)
    then show ?thesis by (simp add: VolatileLru evict_victim_def evictable_def)
  next
    case AllKeysRandom
    then show ?thesis using e0 by (cases ?items) (auto simp: evict_victim_def evictable_def)
  next
    case VolatileTtl
    then show ?thesis using idx by (cases "db_expiry_index d") (auto simp: evict_victim_def evictable_def)
  qed (simp add: evict_victim_def evictable_def)
  show "k \<in> evictable now policy m" if v: "evict_victim ord now policy d = Some k"
  proof (cases policy)
    case VolatileRandom
    then obtain e where "find ?vol ?items = Some (k, e)" using v by (auto simp: evict_victim_def)
    then have "(k, e) \<in> set ?items" "?vol (k, e)"
      by (auto simp: find_Some_iff in_set_conv_nth)
    then show ?thesis using items VolatileRandom by (auto simp: evictable_def volatile_keys_def)
  next
    case AllKeysLru
    then show ?thesis using v lru(2) [of "\<lambda>_. True"] items by (fastforce simp: evict_victim_def evictable_def)
  next
    case VolatileLru
    then obtain e where "sample_lru_victim ?items 5 (\<lambda>(_, e). en_lru_clock e) ?vol = Some (k, e)"
      using v by (auto simp: evict_victim_def)
    from lru(2) [OF _ this] show ?thesis using items VolatileLru by (auto simp: evictable_def volatile_keys_def)
  next
    case AllKeysRandom
    then show ?thesis using v items by (cases ?items) (auto simp: evict_victim_def evictable_def)
  next
    case VolatileTtl
    then show ?thesis using v idx by (cases "db_expiry_index d") (force simp: evict_victim_def evictable_def)+
  qed (use v in \<open>simp add: evict_victim_def\<close>)
qed

lemma db_evict_one_is:
  assumes "db_is d m" and "iter_laws ord"
  shows "case fst (db_evict_one ord now policy d) of
      None \<Rightarrow> evictable now policy m = {} \<and> snd (db_evict_one ord now policy d) = d
    | Some k \<Rightarrow> k \<in> evictable now policy m \<and> db_is (snd (db_evict_one ord now policy d)) (m(k := None))"
  using evict_victim_correct [OF assms, of now policy] db_remove_is(2) [OF assms(1)]
  by (auto simp: db_evict_one_def split: option.split)

end
