(* ===== verification/Glob.thy ===== *)
theory Glob
  imports Prelude
begin

text \<open>
  The glob matcher of \<^verbatim>\<open>KEYS\<close>, \<^verbatim>\<open>SCAN\<close>, \<^verbatim>\<open>PSUBSCRIBE\<close> and \<^verbatim>\<open>ACL\<close> key patterns (\<^verbatim>\<open>glob_match\<close> in
  \<^verbatim>\<open>store.rs\<close>): the backtracking loop over indices, and its relation to the matching a pattern means.
\<close>

section \<open>The loop\<close>

text \<open>\<open>star_pi\<close> is \<^const>\<open>None\<close> where the code has \<^verbatim>\<open>usize::MAX\<close>. \<open>0x2A\<close> is the star, \<open>0x3F\<close> the question mark.\<close>

function glob_loop :: "bytes \<Rightarrow> bytes \<Rightarrow> nat \<Rightarrow> nat \<Rightarrow> nat option \<Rightarrow> nat \<Rightarrow> bool" where
  "glob_loop pat s pi si star_pi star_si =
     (if si < length s then
        if pi < length pat \<and> (pat ! pi = 0x3F \<or> pat ! pi = s ! si)
        then glob_loop pat s (pi + 1) (si + 1) star_pi star_si
        else if pi < length pat \<and> pat ! pi = 0x2A
        then glob_loop pat s (pi + 1) si (Some pi) si
        else (case star_pi of
            Some sp \<Rightarrow> glob_loop pat s (sp + 1) (star_si + 1) (Some sp) (star_si + 1)
          | None \<Rightarrow> False)
      else \<forall>c \<in> set (drop pi pat). c = 0x2A)"
  by pat_completeness auto
termination
  by (relation "measures [
      \<lambda>(pat, s, pi, si, star, ss). case star of None \<Rightarrow> 0 | Some sp \<Rightarrow> if sp < pi \<and> ss \<le> si then 0 else 1,
      \<lambda>(pat, s, pi, si, star, ss). case star of None \<Rightarrow> Suc (length pat) - pi | Some sp \<Rightarrow> length pat - sp,
      \<lambda>(pat, s, pi, si, star, ss). case star of None \<Rightarrow> 0 | Some sp \<Rightarrow> length s - ss,
      \<lambda>(pat, s, pi, si, star, ss). length s - si]") (auto split: option.splits)

declare glob_loop.simps [simp del]

text \<open>The trailing loop \<^verbatim>\<open>while pi < pat.len() && pat[pi] == b'*'\<close> followed by \<^verbatim>\<open>pi == pat.len()\<close> says that only
  stars are left. \<open>pi\<close> never passes the end of the pattern, so \<^term>\<open>drop pi pat\<close> is what remains.\<close>

definition glob_match :: "bytes \<Rightarrow> bytes \<Rightarrow> bool" where
  "glob_match pattern s = glob_loop pattern s 0 0 None 0"

section \<open>What a pattern means\<close>

fun gmatch :: "bytes \<Rightarrow> bytes \<Rightarrow> bool" where
  "gmatch [] s \<longleftrightarrow> s = []"
| "gmatch (p # ps) [] \<longleftrightarrow> p = 0x2A \<and> gmatch ps []"
| "gmatch (p # ps) (c # cs) \<longleftrightarrow>
     (if p = 0x2A then gmatch ps (c # cs) \<or> gmatch (p # ps) cs else (p = 0x3F \<or> p = c) \<and> gmatch ps cs)"

lemma gmatch_star: "gmatch (0x2A # ps) s \<longleftrightarrow> (\<exists>j \<le> length s. gmatch ps (drop j s))"
proof (induction s)
  case (Cons c cs)
  have "(\<exists>j \<le> length (c # cs). gmatch ps (drop j (c # cs))) \<longleftrightarrow>
      gmatch ps (c # cs) \<or> (\<exists>j \<le> length cs. gmatch ps (drop j cs))"
  proof
    assume "\<exists>j \<le> length (c # cs). gmatch ps (drop j (c # cs))"
    then obtain j where j: "j \<le> length (c # cs)" "gmatch ps (drop j (c # cs))" by blast
    then show "gmatch ps (c # cs) \<or> (\<exists>j \<le> length cs. gmatch ps (drop j cs))" by (cases j) auto
  next
    assume "gmatch ps (c # cs) \<or> (\<exists>j \<le> length cs. gmatch ps (drop j cs))"
    then show "\<exists>j \<le> length (c # cs). gmatch ps (drop j (c # cs))"
      by (metis Suc_le_mono drop0 drop_Suc_Cons le0 length_Cons)
  qed
  then show ?case using Cons by simp
qed simp

lemma gmatch_stars: "gmatch ps [] \<longleftrightarrow> (\<forall>c \<in> set ps. c = 0x2A)"
  by (induction ps) auto

lemma gmatch_star_earlier: "gmatch (0x2A # ps) (drop j s) \<Longrightarrow> i \<le> j \<Longrightarrow> gmatch (0x2A # ps) (drop i s)"
proof -
  assume a: "gmatch (0x2A # ps) (drop j s)" "i \<le> j"
  then obtain n where n: "n \<le> length (drop j s)" "gmatch ps (drop n (drop j s))" by (auto simp: gmatch_star)
  show "gmatch (0x2A # ps) (drop i s)"
  proof (cases "j \<le> length s")
    case True
    then have "drop (n + (j - i)) (drop i s) = drop n (drop j s)" "n + (j - i) \<le> length (drop i s)"
      using a(2) n(1) by (simp_all add: add.commute)
    then show ?thesis unfolding gmatch_star using n(2) by metis
  next
    case False
    then have "drop (length (drop i s)) (drop i s) = drop n (drop j s)" by simp
    then show ?thesis unfolding gmatch_star using n(2) by (metis order_refl)
  qed
qed

lemma gmatch_seg: "0x2A \<notin> set seg \<Longrightarrow> gmatch (seg @ ps) s \<Longrightarrow> gmatch ps (drop (length seg) s)"
proof (induction seg arbitrary: s)
  case (Cons p seg)
  then show ?case by (cases s) auto
qed simp

section \<open>Soundness\<close>

text \<open>What a state of the loop may still accept: the current position, or a later start for the last star.\<close>

definition star_alt :: "bytes \<Rightarrow> bytes \<Rightarrow> nat option \<Rightarrow> nat \<Rightarrow> bool" where
  "star_alt pat s star ss \<longleftrightarrow>
     (\<exists>sp j. star = Some sp \<and> ss < j \<and> j \<le> length s \<and> gmatch (drop (sp + 1) pat) (drop j s))"

lemma star_alt_step: "ss < length s \<Longrightarrow> star_alt pat s (Some sp) ss \<longleftrightarrow>
    gmatch (drop (sp + 1) pat) (drop (ss + 1) s) \<or> star_alt pat s (Some sp) (ss + 1)"
proof
  assume "ss < length s" "star_alt pat s (Some sp) ss"
  then obtain j where "ss < j" "j \<le> length s" "gmatch (drop (sp + 1) pat) (drop j s)" by (auto simp: star_alt_def)
  then show "gmatch (drop (sp + 1) pat) (drop (ss + 1) s) \<or> star_alt pat s (Some sp) (ss + 1)"
    by (cases "j = ss + 1") (auto simp: star_alt_def)
next
  assume "ss < length s" "gmatch (drop (sp + 1) pat) (drop (ss + 1) s) \<or> star_alt pat s (Some sp) (ss + 1)"
  then show "star_alt pat s (Some sp) ss" by (auto simp: star_alt_def intro: Suc_leI Suc_lessD)
qed

lemma drop_head: "i < length xs \<Longrightarrow> drop i xs = xs ! i # drop (i + 1) xs"
  by (simp add: Cons_nth_drop_Suc)

lemma gmatch_matched:
  assumes "pi < length pat" and "si < length s" and "pat ! pi = 0x3F \<or> pat ! pi = s ! si"
  shows "gmatch (drop (pi + 1) pat) (drop (si + 1) s) \<Longrightarrow> gmatch (drop pi pat) (drop si s)"
    and "pat ! pi \<noteq> 0x2A \<Longrightarrow> gmatch (drop pi pat) (drop si s) \<Longrightarrow> gmatch (drop (pi + 1) pat) (drop (si + 1) s)"
proof -
  assume m: "gmatch (drop (pi + 1) pat) (drop (si + 1) s)"
  have "gmatch (0x2A # drop (pi + 1) pat) (drop si s)"
    using gmatch_star_earlier [of "drop (pi + 1) pat" "si + 1" s si] m gmatch_star [of "drop (pi + 1) pat" "drop (si + 1) s"]
    by (metis drop0 le0 le_add1)
  then show "gmatch (drop pi pat) (drop si s)"
    unfolding drop_head [OF assms(1)] drop_head [OF assms(2)] using m assms(3) by auto
next
  assume "pat ! pi \<noteq> 0x2A" "gmatch (drop pi pat) (drop si s)"
  then show "gmatch (drop (pi + 1) pat) (drop (si + 1) s)"
    unfolding drop_head [OF assms(1)] drop_head [OF assms(2)] by simp
qed

lemma star_opened:
  assumes "pi < length pat" and "si < length s" and "pat ! pi = 0x2A"
  shows "gmatch (drop pi pat) (drop si s) \<longleftrightarrow> gmatch (drop (pi + 1) pat) (drop si s) \<or> star_alt pat s (Some pi) si"
proof
  assume "gmatch (drop pi pat) (drop si s)"
  then obtain j where "j \<le> length (drop si s)" "gmatch (drop (pi + 1) pat) (drop (si + j) s)"
    unfolding drop_head [OF assms(1)] assms(3) gmatch_star by (auto simp: add.commute)
  then show "gmatch (drop (pi + 1) pat) (drop si s) \<or> star_alt pat s (Some pi) si"
    using assms(2) by (cases j) (auto simp: star_alt_def intro!: exI [of _ "si + j"])
next
  assume "gmatch (drop (pi + 1) pat) (drop si s) \<or> star_alt pat s (Some pi) si"
  then obtain j where "si \<le> j" "j \<le> length s" "gmatch (drop (pi + 1) pat) (drop j s)"
    using assms(2) unfolding star_alt_def by (metis less_imp_le option.inject order_refl)
  then have "j - si \<le> length (drop si s)" "gmatch (drop (pi + 1) pat) (drop (j - si) (drop si s))"
    by simp_all
  then show "gmatch (drop pi pat) (drop si s)"
    unfolding drop_head [OF assms(1)] assms(3) gmatch_star by blast
qed

lemma glob_loop_sound:
  "glob_loop pat s pi si star ss \<Longrightarrow> si \<le> length s \<Longrightarrow> ss \<le> si \<Longrightarrow>
     gmatch (drop pi pat) (drop si s) \<or> star_alt pat s star ss"
proof (induction pat s pi si star ss rule: glob_loop.induct)
  case (1 pat s pi si star ss)
  note step = glob_loop.simps [of pat s pi si star ss]
  show ?case
  proof (cases "si < length s")
    case False
    then show ?thesis using 1(4,5) step gmatch_stars by simp
  next
    case si: True
    consider (a) "pi < length pat \<and> (pat ! pi = 0x3F \<or> pat ! pi = s ! si)"
      | (b) "\<not> (pi < length pat \<and> (pat ! pi = 0x3F \<or> pat ! pi = s ! si))" "pi < length pat \<and> pat ! pi = 0x2A"
      | (c) "\<not> (pi < length pat \<and> (pat ! pi = 0x3F \<or> pat ! pi = s ! si))" "\<not> (pi < length pat \<and> pat ! pi = 0x2A)"
      by blast
    then show ?thesis
    proof cases
      case a
      then have "glob_loop pat s (pi + 1) (si + 1) star ss" using 1(4) step si by (simp only: if_True)
      from 1(1) [OF si a this] si 1(6) show ?thesis using gmatch_matched(1) [of pi pat si s] a by auto
    next
      case b
      then have "glob_loop pat s (pi + 1) si (Some pi) si" using 1(4) step si by (simp only: if_True if_False)
      from 1(2) [OF si b this 1(5) order_refl] show ?thesis using star_opened [of pi pat si s] b si by blast
    next
      case c
      then obtain sp where sp: "star = Some sp" "glob_loop pat s (sp + 1) (ss + 1) (Some sp) (ss + 1)"
        using 1(4) step si by (simp only: if_True if_False) (auto split: option.splits)
      have "ss + 1 \<le> length s" using si 1(6) by simp
      from 1(3) [OF si c sp(1) sp(2) this order_refl] show ?thesis
        using star_alt_step [of ss s pat sp] sp(1) si 1(6) by auto
    qed
  qed
qed

section \<open>Completeness\<close>

text \<open>Between the last star and the current position the pattern has no star, and as many characters of
  the string were consumed; so an earlier star never helps once a later one is reached.\<close>

lemma later_star_suffices:
  assumes "star_alt pat s (Some sp) ss" and "sp < pi" and "si = ss + (pi - sp - 1)"
    and "\<forall>i. sp < i \<and> i < pi \<longrightarrow> pat ! i \<noteq> 0x2A" and "pi < length pat" and "pat ! pi = 0x2A"
  shows "gmatch (drop pi pat) (drop si s)"
proof -
  obtain j where j: "ss < j" "gmatch (drop (sp + 1) pat) (drop j s)" using assms(1) by (auto simp: star_alt_def)
  let ?seg = "take (pi - sp - 1) (drop (sp + 1) pat)"
  have len: "length ?seg = pi - sp - 1" using assms(2,5) by simp
  have "drop (pi - sp - 1) (drop (sp + 1) pat) = drop pi pat" using assms(2) by (simp add: Suc_le_eq)
  then have split: "drop (sp + 1) pat = ?seg @ drop pi pat" by (metis append_take_drop_id)
  have "0x2A \<notin> set ?seg" using assms(4) by (auto simp: in_set_conv_nth len)
  from gmatch_seg [OF this, of "drop pi pat" "drop j s", folded split, OF j(2)]
  have "gmatch (drop pi pat) (drop (j + (pi - sp - 1)) s)" unfolding len drop_drop by (simp add: add.commute)
  then show ?thesis using gmatch_star_earlier [of "drop (pi + 1) pat" "j + (pi - sp - 1)" s si] assms(3,5,6) j(1)
    by (simp add: drop_head)
qed

lemma glob_loop_complete:
  "0x2A \<notin> set s \<Longrightarrow> si \<le> length s \<Longrightarrow>
     (\<forall>sp. star = Some sp \<longrightarrow> sp < pi \<and> si = ss + (pi - sp - 1) \<and> (\<forall>i. sp < i \<and> i < pi \<longrightarrow> pat ! i \<noteq> 0x2A)) \<Longrightarrow>
     gmatch (drop pi pat) (drop si s) \<or> star_alt pat s star ss \<Longrightarrow> glob_loop pat s pi si star ss"
proof (induction pat s pi si star ss rule: glob_loop.induct)
  case (1 pat s pi si star ss)
  note step = glob_loop.simps [of pat s pi si star ss]
  show ?case
  proof (cases "si < length s")
    case False
    have "\<not> star_alt pat s star ss \<or> gmatch (drop pi pat) []"
    proof (rule ccontr)
      assume a: "\<not> ?thesis"
      then obtain sp j where sp: "star = Some sp" "ss < j" "j \<le> length s" "gmatch (drop (sp + 1) pat) (drop j s)"
        by (auto simp: star_alt_def)
      let ?seg = "take (pi - sp - 1) (drop (sp + 1) pat)"
      have inv: "sp < pi" "si = ss + (pi - sp - 1)" "\<forall>i. sp < i \<and> i < pi \<longrightarrow> pat ! i \<noteq> 0x2A" using 1(6) sp(1) by auto
      have "drop (pi - sp - 1) (drop (sp + 1) pat) = drop pi pat" using inv(1) by (simp add: Suc_le_eq)
      then have "drop (sp + 1) pat = ?seg @ drop pi pat" by (metis append_take_drop_id)
      moreover have "0x2A \<notin> set ?seg" using inv(3)
        by (auto simp: in_set_conv_nth)
      ultimately have "gmatch (drop pi pat) (drop (length ?seg) (drop j s))" using gmatch_seg sp(4) by metis
      moreover have "length ?seg = pi - sp - 1 \<or> drop pi pat = []" by auto
      ultimately show False using a False inv(2) sp(2,3) 1(5) by (auto simp: gmatch_stars)
    qed
    then show ?thesis using 1(7) False step gmatch_stars by auto
  next
    case si: True
    consider (a) "pi < length pat \<and> (pat ! pi = 0x3F \<or> pat ! pi = s ! si)"
      | (b) "\<not> (pi < length pat \<and> (pat ! pi = 0x3F \<or> pat ! pi = s ! si))" "pi < length pat \<and> pat ! pi = 0x2A"
      | (c) "\<not> (pi < length pat \<and> (pat ! pi = 0x3F \<or> pat ! pi = s ! si))" "\<not> (pi < length pat \<and> pat ! pi = 0x2A)"
      by blast
    then show ?thesis
    proof cases
      case a
      have ns: "pat ! pi \<noteq> 0x2A" using a 1(4) si by (auto simp: in_set_conv_nth)
      have inv: "\<forall>sp. star = Some sp \<longrightarrow> sp < pi + 1 \<and> si + 1 = ss + (pi + 1 - sp - 1)
          \<and> (\<forall>i. sp < i \<and> i < pi + 1 \<longrightarrow> pat ! i \<noteq> 0x2A)"
        using 1(6) ns by (auto simp: less_Suc_eq)
      have "glob_loop pat s (pi + 1) (si + 1) star ss"
        using 1(1) [OF si a 1(4) _ inv] si 1(7) gmatch_matched(2) [of pi pat si s] a ns by auto
      then show ?thesis using step si a by simp
    next
      case b
      have "gmatch (drop pi pat) (drop si s)"
      proof (cases "star_alt pat s star ss")
        case True
        then obtain sp where sp: "star = Some sp" by (auto simp: star_alt_def)
        show ?thesis by (rule later_star_suffices [of pat s sp ss]) (use True sp 1(6) b(2) in blast)+
      qed (use 1(7) in blast)
      moreover have "\<forall>i. pi < i \<and> i < Suc pi \<longrightarrow> pat ! i \<noteq> 0x2A" by auto
      ultimately have "glob_loop pat s (pi + 1) si (Some pi) si"
        using 1(2) [OF si b 1(4,5)] star_opened [of pi pat si s] b(2) si by auto
      then show ?thesis using step si b by simp
    next
      case c
      have "\<not> gmatch (drop pi pat) (drop si s)"
      proof (cases "pi < length pat")
        case True
        then show ?thesis using c unfolding drop_head [OF True] drop_head [OF si] by auto
      qed (use drop_head [OF si] in auto)
      then obtain sp where sp: "star = Some sp" "star_alt pat s (Some sp) ss"
        using 1(7) by (auto simp: star_alt_def)
      have ss: "ss \<le> si" using 1(6) sp(1) by auto
      moreover have "\<forall>i. sp < i \<and> i < Suc sp \<longrightarrow> pat ! i \<noteq> 0x2A" by auto
      ultimately have "glob_loop pat s (sp + 1) (ss + 1) (Some sp) (ss + 1)"
        using 1(3) [OF si c sp(1) 1(4)] sp(2) star_alt_step [of ss s pat sp] si by auto
      then show ?thesis using step si c sp(1) by simp
    qed
  qed
qed

text \<open>The matcher never accepts what the pattern does not mean, and accepts everything it means on
  strings without a literal star.\<close>

lemma glob_match_sound: "glob_match pattern s \<Longrightarrow> gmatch pattern s"
  using glob_loop_sound [of pattern s 0 0 None 0] by (simp add: glob_match_def star_alt_def)

lemma glob_match_complete: "0x2A \<notin> set s \<Longrightarrow> gmatch pattern s \<Longrightarrow> glob_match pattern s"
  using glob_loop_complete [of s 0 None 0 0 pattern] by (simp add: glob_match_def)

section \<open>Properties\<close>

text \<open>C39. The glob matcher of KEYS and SCAN terminates on every input; whatever it accepts is matched by
  the pattern (star for any string, question mark for any byte), and on strings that contain no star
  byte it accepts exactly those.\<close>

theorem glob_match_correct:
  shows "(glob_match pattern s \<longrightarrow> gmatch pattern s) \<and> (0x2A \<notin> set s \<longrightarrow> (glob_match pattern s \<longleftrightarrow> gmatch pattern s))"
  using glob_match_sound glob_match_complete by blast

theorem glob_match_correct_witness:
  "0x2A \<notin> set ([0x61, 0x62, 0x63] :: bytes) \<and> (glob_match [0x61, 0x2A, 0x3F] [0x61, 0x62, 0x63] \<longleftrightarrow> True)
   \<and> (glob_match [0x61, 0x2A, 0x62] [0x61, 0x62, 0x63] \<longleftrightarrow> False)"
  using glob_match_correct [of "[0x61, 0x2A, 0x3F]" "[0x61, 0x62, 0x63]"]
    glob_match_correct [of "[0x61, 0x2A, 0x62]" "[0x61, 0x62, 0x63]"] by simp

text \<open>A string that begins with a star byte is not matched by the pattern \<open>*\<close> unless it is that star
  alone: the loop compares the bytes before it looks for a star, so it takes the pattern's star for a
  literal one. \<^verbatim>\<open>KEYS *\<close> and \<^verbatim>\<open>SCAN\<close> miss such keys.\<close>

theorem glob_star_misses_star:
  "gmatch [0x2A] (0x2A # c # cs) \<and> \<not> glob_match [0x2A] (0x2A # c # cs)"
proof
  show "gmatch [0x2A] (0x2A # c # cs)" unfolding gmatch_star by (rule exI [of _ "length (0x2A # c # cs)"]) simp
  show "\<not> glob_match [0x2A] (0x2A # c # cs)" by (simp add: glob_match_def glob_loop.simps)
qed

end
