(* ===== verification/Sharded.thy ===== *)
theory Sharded
  imports Expire Glob
begin

text \<open>
  The sharded keyspace (\<^verbatim>\<open>store.rs\<close>, \<^verbatim>\<open>ShardedDatabase\<close>): routing by hash, single-key operations under
  one shard's lock, the whole-keyspace operations, and the operations that lock several shards.

  Locks are not part of the state: an operation that holds the locks of all the shards it touches is one
  step. The order in which locks are taken is \<open>lock_order\<close> and the sorted index list of
  \<open>tag_and_sort_pairs\<close>. \<^const>\<open>None\<close> is a panic (an index out of range).
\<close>

section \<open>Routing\<close>

definition fnv1a :: "bytes \<Rightarrow> u64" where
  "fnv1a key = fold (\<lambda>b h. (h XOR ucast b) * 0x100000001b3) key 0xcbf29ce484222325"

text \<open>\<^verbatim>\<open>cpus.max(64).next_power_of_two().clamp(64, 256)\<close>.\<close>

function next_power_of_two_from :: "nat \<Rightarrow> nat \<Rightarrow> nat" where
  "next_power_of_two_from p n = (if n \<le> p \<or> p = 0 then p else next_power_of_two_from (2 * p) n)"
  by pat_completeness auto
termination
  by (relation "measure (\<lambda>(p, n). n - p)") auto

declare next_power_of_two_from.simps [simp del]

definition compute_num_shards :: "nat \<Rightarrow> nat" where
  "compute_num_shards cpus = min (max (next_power_of_two_from 1 (max cpus 64)) 64) 256"

record sharded =
  sh_shards :: "database list"
  sh_num :: nat

definition sh_new :: "nat \<Rightarrow> sharded" where
  "sh_new num = \<lparr>sh_shards = replicate num db_new, sh_num = num\<rparr>"

definition sh_set_lru_clock :: "u32 \<Rightarrow> sharded \<Rightarrow> sharded" where
  "sh_set_lru_clock clock s = s\<lparr>sh_shards := map (\<lambda>d. d\<lparr>db_clock := clock\<rparr>) (sh_shards s)\<rparr>"

definition shard_idx :: "nat \<Rightarrow> bytes \<Rightarrow> nat" where
  "shard_idx num key = unat (fnv1a key AND (of_nat num - 1))"

definition read_for :: "sharded \<Rightarrow> bytes \<Rightarrow> database option" where
  "read_for s key = index (sh_shards s) (shard_idx (sh_num s) key)"

text \<open>\<^verbatim>\<open>write_for(key)\<close> and what the caller does under that guard.\<close>

definition write_shard :: "nat \<Rightarrow> (database \<Rightarrow> 'r \<times> database) \<Rightarrow> sharded \<Rightarrow> ('r \<times> sharded) option" where
  "write_shard i f s = do {
     d \<leftarrow> index (sh_shards s) i;
     let (r, d') = f d;
     Some (r, s\<lparr>sh_shards := (sh_shards s)[i := d']\<rparr>)
   }"

definition write_for :: "bytes \<Rightarrow> (database \<Rightarrow> 'r \<times> database) \<Rightarrow> sharded \<Rightarrow> ('r \<times> sharded) option" where
  "write_for key f s = write_shard (shard_idx (sh_num s) key) f s"

text \<open>The fast path adds through the shared cell under a read lock; the value it leaves in the entry is
  the cell's, and neither the entry nor its version slot is touched.\<close>

definition sh_incr_int :: "nat \<Rightarrow> bytes \<Rightarrow> int \<Rightarrow> sharded \<Rightarrow> ((nexrade_error + int) \<times> sharded) option" where
  "sh_incr_int now key delta s = do {
     d \<leftarrow> read_for s key;
     case db_get_ro now key d of
       Some e \<Rightarrow> (case en_value e of
           DInt cell \<Rightarrow> (case cell_checked_add cell delta of
               (None, _) \<Rightarrow> Some (Inl Overflow, s)
             | (Some v, cell') \<Rightarrow>
                 map_option (\<lambda>(_, s'). (Inr v, s'))
                   (write_for key (\<lambda>d. ((), put_entry key (e\<lparr>en_value := DInt cell'\<rparr>) d)) s))
         | _ \<Rightarrow> write_for key (db_incr_int now key delta) s)
     | None \<Rightarrow> write_for key (db_incr_int now key delta) s
   }"

section \<open>Whole-keyspace operations\<close>

definition db_flush :: "database \<Rightarrow> database" where
  "db_flush d = d\<lparr>db_entries := [], db_expiry_index := [], db_key_versions := [], db_live_bytes := 0\<rparr>"

definition sh_flush :: "sharded \<Rightarrow> sharded" where
  "sh_flush s = s\<lparr>sh_shards := map db_flush (sh_shards s)\<rparr>"

definition sh_len :: "sharded \<Rightarrow> nat" where
  "sh_len s = sum_list (map db_len (sh_shards s))"

definition sh_is_empty :: "sharded \<Rightarrow> bool" where
  "sh_is_empty s \<longleftrightarrow> (\<forall>d \<in> set (sh_shards s). db_is_empty d)"

definition sh_expiry_count :: "sharded \<Rightarrow> nat" where
  "sh_expiry_count s = sum_list (map (\<lambda>d. length (db_expiry_index d)) (sh_shards s))"

text \<open>\<^verbatim>\<open>for s in &self.shards { out.extend(f(s.write())) }\<close>.\<close>

fun each_shard :: "(database \<Rightarrow> 'r list \<times> database) \<Rightarrow> database list \<Rightarrow> 'r list \<times> database list" where
  "each_shard f [] = ([], [])"
| "each_shard f (d # ds) = (let (r, d') = f d; (rs, ds') = each_shard f ds in (r @ rs, d' # ds'))"

definition sh_expire_batch :: "nat \<Rightarrow> nat \<Rightarrow> sharded \<Rightarrow> bytes list \<times> sharded" where
  "sh_expire_batch now max_total s =
     (let per_shard = max (max_total div sh_num s) 1;
          (deleted, ds) = each_shard (db_expire_batch now per_shard) (sh_shards s)
      in (deleted, s\<lparr>sh_shards := ds\<rparr>))"

definition sh_expire_cycle :: "nat \<Rightarrow> sharded \<Rightarrow> bytes list \<times> sharded" where
  "sh_expire_cycle now s =
     (let (deleted, ds) = each_shard (\<lambda>d. let ((ks, rounds), d') = db_expire_cycle now d in (ks, d')) (sh_shards s)
      in (deleted, s\<lparr>sh_shards := ds\<rparr>))"

text \<open>\<^verbatim>\<open>Database::keys_matching\<close>: reap what has expired, then filter.\<close>

definition db_keys_matching :: "iter_order \<Rightarrow> nat \<Rightarrow> bytes \<Rightarrow> database \<Rightarrow> bytes list \<times> database" where
  "db_keys_matching ord now pattern d =
     (let expired = map fst (filter (\<lambda>(_, e). entry_is_expired now e) (ord (db_entries d)));
          d = fold (\<lambda>k d. snd (db_remove k d)) expired d
      in (filter (glob_match pattern) (map fst (ord (db_entries d))), d))"

definition sh_keys_matching :: "iter_order \<Rightarrow> nat \<Rightarrow> bytes \<Rightarrow> sharded \<Rightarrow> bytes list \<times> sharded" where
  "sh_keys_matching ord now pattern s =
     (let (keys, ds) = each_shard (db_keys_matching ord now pattern) (sh_shards s)
      in (keys, s\<lparr>sh_shards := ds\<rparr>))"

definition sh_live_bytes :: "sharded \<Rightarrow> nat" where
  "sh_live_bytes s = sum_list (map db_live_bytes (sh_shards s))"

fun evict_first :: "iter_order \<Rightarrow> nat \<Rightarrow> max_memory_policy \<Rightarrow> database list \<Rightarrow> bytes option \<times> database list" where
  "evict_first ord now policy [] = (None, [])"
| "evict_first ord now policy (d # ds) = (case db_evict_one ord now policy d of
     (Some k, d') \<Rightarrow> (Some k, d' # ds)
   | (None, d') \<Rightarrow> (let (r, ds') = evict_first ord now policy ds in (r, d' # ds')))"

definition sh_evict_one :: "iter_order \<Rightarrow> nat \<Rightarrow> max_memory_policy \<Rightarrow> sharded \<Rightarrow> bytes option \<times> sharded" where
  "sh_evict_one ord now policy s =
     (let (r, ds) = evict_first ord now policy (sh_shards s) in (r, s\<lparr>sh_shards := ds\<rparr>))"

definition snapshot_entry :: "database \<Rightarrow> bytes \<times> entry \<Rightarrow> database" where
  "snapshot_entry db kv = (case kv of (k, e) \<Rightarrow> put_entry k e (index_add k (en_expiry e) db))"

definition snapshot_version :: "database \<Rightarrow> bytes \<times> u64 \<Rightarrow> database" where
  "snapshot_version db kv = (case kv of (k, v) \<Rightarrow> db\<lparr>db_key_versions := AList.update k v (db_key_versions db)\<rparr>)"

definition sh_snapshot :: "iter_order \<Rightarrow> sharded \<Rightarrow> database" where
  "sh_snapshot ord s = fold (\<lambda>d db.
     fold (\<lambda>kv db. snapshot_version db kv) (db_key_versions d)
       (fold (\<lambda>kv db. snapshot_entry db kv) (ord (db_entries d)) db)) (sh_shards s) db_new"

fun first_key :: "iter_order \<Rightarrow> database list \<Rightarrow> bytes option" where
  "first_key ord [] = None"
| "first_key ord (d # ds) = (case ord (db_entries d) of (k, _) # _ \<Rightarrow> Some k | [] \<Rightarrow> first_key ord ds)"

definition sh_random_key :: "iter_order \<Rightarrow> sharded \<Rightarrow> bytes option" where
  "sh_random_key ord s = first_key ord (sh_shards s)"

section \<open>Operations on two shards\<close>

text \<open>The order in which \<^verbatim>\<open>lock_two\<close> takes the locks.\<close>

definition lock_order :: "nat \<Rightarrow> nat \<Rightarrow> nat list" where
  "lock_order si di = (if si = di then [si] else if si > di then [di, si] else [si, di])"

definition sh_rename :: "bytes \<Rightarrow> bytes \<Rightarrow> sharded \<Rightarrow> (unit option \<times> sharded) option" where
  "sh_rename src dst s =
     (let si = shard_idx (sh_num s) src; di = shard_idx (sh_num s) dst in
      if si \<noteq> di then do {
        (r, s1) \<leftarrow> write_shard si (db_remove src) s;
        case r of
          None \<Rightarrow> Some (None, s1)
        | Some e \<Rightarrow> do {
            (_, s2) \<leftarrow> write_shard di (\<lambda>d. ((), db_insert dst e d)) s1;
            Some (Some (), s2)
          }
      } else write_shard si (\<lambda>d. let (r, d1) = db_remove src d in
          case r of None \<Rightarrow> (None, d1) | Some e \<Rightarrow> (Some (), db_insert dst e d1)) s)"

definition sh_renamenx :: "nat \<Rightarrow> bytes \<Rightarrow> bytes \<Rightarrow> sharded \<Rightarrow> (int option \<times> sharded) option" where
  "sh_renamenx now src dst s =
     (let si = shard_idx (sh_num s) src; di = shard_idx (sh_num s) dst in
      if si \<noteq> di then do {
        (c, s0) \<leftarrow> write_shard di (db_contains_key now dst) s;
        if c then Some (Some 0, s0)
        else do {
          (r, s1) \<leftarrow> write_shard si (db_remove src) s0;
          case r of
            None \<Rightarrow> Some (None, s1)
          | Some e \<Rightarrow> do {
              (_, s2) \<leftarrow> write_shard di (\<lambda>d. ((), db_insert dst e d)) s1;
              Some (Some 1, s2)
            }
        }
      } else write_shard si (\<lambda>d. let (c, d0) = db_contains_key now dst d in
          if c then (Some 0, d0)
          else let (r, d1) = db_remove src d0 in
            case r of None \<Rightarrow> (None, d1) | Some e \<Rightarrow> (Some 1, db_insert dst e d1)) s)"

definition sh_copy_entry :: "nat \<Rightarrow> bytes \<Rightarrow> bytes \<Rightarrow> bool \<Rightarrow> sharded \<Rightarrow> (bool \<times> sharded) option" where
  "sh_copy_entry now src dst replace s =
     (let si = shard_idx (sh_num s) src; di = shard_idx (sh_num s) dst in
      if si \<noteq> di then do {
        (c, s0) \<leftarrow> (if \<not> replace then write_shard di (db_contains_key now dst) s else Some (False, s));
        if c then Some (False, s0)
        else do {
          (r, s1) \<leftarrow> write_shard si (db_get now src) s0;
          case r of
            None \<Rightarrow> Some (False, s1)
          | Some e \<Rightarrow> do {
              (_, s2) \<leftarrow> write_shard di (\<lambda>d. ((), db_insert dst e d)) s1;
              Some (True, s2)
            }
        }
      } else write_shard si (\<lambda>d. let (c, d0) = (if \<not> replace then db_contains_key now dst d else (False, d)) in
          if c then (False, d0)
          else let (r, d1) = db_get now src d0 in
            case r of None \<Rightarrow> (False, d1) | Some e \<Rightarrow> (True, db_insert dst e d1)) s)"

section \<open>Operations on many shards\<close>

type_synonym tagged_pair = "nat \<times> bytes \<times> entry"

text \<open>\<open>srt\<close> is \<^verbatim>\<open>sort_unstable_by_key\<close> on the shard index: a permutation, sorted by index, with equal indices in
  an unspecified order.\<close>

definition sort_laws :: "(tagged_pair list \<Rightarrow> tagged_pair list) \<Rightarrow> bool" where
  "sort_laws srt \<longleftrightarrow> (\<forall>xs. mset (srt xs) = mset xs \<and> sorted (map fst (srt xs)))"

fun dedup_last :: "nat list \<Rightarrow> nat list \<Rightarrow> nat list" where
  "dedup_last acc [] = acc"
| "dedup_last acc (s # ss) =
     dedup_last (if acc \<noteq> [] \<and> last acc = s then acc else acc @ [s]) ss"

definition tag_and_sort_pairs :: "(tagged_pair list \<Rightarrow> tagged_pair list) \<Rightarrow> nat \<Rightarrow> (bytes \<times> entry) list
    \<Rightarrow> tagged_pair list \<times> nat list" where
  "tag_and_sort_pairs srt num pairs =
     (let tagged = srt (map (\<lambda>(k, e). (shard_idx num k, k, e)) pairs)
      in (tagged, dedup_last [] (map fst tagged)))"

text \<open>\<^verbatim>\<open>while si[gi] != shard { gi += 1 }\<close>: the loop panics when it runs past the end.\<close>

function guard_pos :: "nat list \<Rightarrow> nat \<Rightarrow> nat \<Rightarrow> nat option" where
  "guard_pos si shard gi = (if gi < length si then (if si ! gi \<noteq> shard then guard_pos si shard (gi + 1) else Some gi) else None)"
  by pat_completeness auto
termination
  by (relation "measure (\<lambda>(si, shard, gi). length si - gi)") auto

declare guard_pos.simps [simp del]

fun commit_tagged_mset :: "nat list \<Rightarrow> tagged_pair list \<Rightarrow> nat \<Rightarrow> database list \<Rightarrow> database list option" where
  "commit_tagged_mset si [] gi guards = Some guards"
| "commit_tagged_mset si ((shard, key, e) # rest) gi guards = do {
     gi \<leftarrow> guard_pos si shard gi;
     d \<leftarrow> index guards gi;
     commit_tagged_mset si rest gi (guards[gi := db_insert key e d])
   }"

fun check_tagged :: "nat \<Rightarrow> nat list \<Rightarrow> tagged_pair list \<Rightarrow> nat \<Rightarrow> database list \<Rightarrow> bool option" where
  "check_tagged now si [] gi guards = Some True"
| "check_tagged now si ((shard, key, e) # rest) gi guards = do {
     gi \<leftarrow> guard_pos si shard gi;
     d \<leftarrow> index guards gi;
     if db_get_ro now key d \<noteq> None then Some False else check_tagged now si rest gi guards
   }"

definition commit_tagged_msetnx :: "nat \<Rightarrow> nat list \<Rightarrow> tagged_pair list \<Rightarrow> database list \<Rightarrow> (bool \<times> database list) option" where
  "commit_tagged_msetnx now si tagged guards = do {
     free \<leftarrow> check_tagged now si tagged 0 guards;
     if \<not> free then Some (False, guards)
     else map_option (Pair True) (commit_tagged_mset si tagged 0 guards)
   }"

text \<open>The guards are the shards at the indices; what is written through them lands in those shards.\<close>

definition lock_shards :: "sharded \<Rightarrow> nat list \<Rightarrow> database list option" where
  "lock_shards s si = those (map (index (sh_shards s)) si)"

definition unlock_shards :: "nat list \<Rightarrow> database list \<Rightarrow> sharded \<Rightarrow> sharded" where
  "unlock_shards si guards s = s\<lparr>sh_shards := fold (\<lambda>(i, d) ds. ds[i := d]) (zip si guards) (sh_shards s)\<rparr>"

definition sh_mset :: "(tagged_pair list \<Rightarrow> tagged_pair list) \<Rightarrow> (bytes \<times> entry) list \<Rightarrow> sharded \<Rightarrow> sharded option" where
  "sh_mset srt pairs s =
     (if pairs = [] then Some s
      else let (tagged, si) = tag_and_sort_pairs srt (sh_num s) pairs in
        if length si = 1 then
          map_option snd (write_shard (hd si) (\<lambda>d. ((), fold (\<lambda>(_, k, e) d. db_insert k e d) tagged d)) s)
        else do {
          guards \<leftarrow> lock_shards s si;
          guards \<leftarrow> commit_tagged_mset si tagged 0 guards;
          Some (unlock_shards si guards s)
        })"

definition sh_msetnx :: "(tagged_pair list \<Rightarrow> tagged_pair list) \<Rightarrow> nat \<Rightarrow> (bytes \<times> entry) list \<Rightarrow> sharded
    \<Rightarrow> (bool \<times> sharded) option" where
  "sh_msetnx srt now pairs s =
     (if pairs = [] then Some (True, s)
      else let (tagged, si) = tag_and_sort_pairs srt (sh_num s) pairs in
        if length si = 1 then
          write_shard (hd si) (\<lambda>d. if \<exists>(_, k, _) \<in> set tagged. db_get_ro now k d \<noteq> None then (False, d)
            else (True, fold (\<lambda>(_, k, e) d. db_insert k e d) tagged d)) s
        else do {
          guards \<leftarrow> lock_shards s si;
          (ok, guards) \<leftarrow> commit_tagged_msetnx now si tagged guards;
          Some (ok, unlock_shards si guards s)
        })"

section \<open>What the shards stand for together\<close>

text \<open>The keyspace is one map; a shard holds the part of it that hashes to its index.\<close>

definition part :: "nat \<Rightarrow> nat \<Rightarrow> (bytes \<rightharpoonup> entry) \<Rightarrow> (bytes \<rightharpoonup> entry)" where
  "part num i m = m |` {k. shard_idx num k = i}"

definition sharded_is :: "u32 \<Rightarrow> sharded \<Rightarrow> (bytes \<rightharpoonup> entry) \<Rightarrow> bool" where
  "sharded_is clk s m \<longleftrightarrow>
     (\<exists>k. sh_num s = 2 ^ k \<and> k < 64) \<and> length (sh_shards s) = sh_num s
     \<and> (\<forall>i < sh_num s. db_is (sh_shards s ! i) (part (sh_num s) i m) \<and> db_clock (sh_shards s ! i) = clk)"

lemma mask_less: "k < 64 \<Longrightarrow> unat ((h :: u64) AND (of_nat (2 ^ k) - 1)) < 2 ^ k"
proof -
  assume k: "k < 64"
  have "(of_nat (2 ^ k) :: u64) - 1 = mask k" by (simp add: mask_eq_exp_minus_1)
  then have "h AND (of_nat (2 ^ k) - 1) = take_bit k h" by (simp add: take_bit_eq_mask)
  then show ?thesis by (simp add: unsigned_take_bit_eq)
qed

lemma shard_idx_less: "sharded_is clk s m \<Longrightarrow> shard_idx (sh_num s) key < sh_num s"
  using mask_less [of _ "fnv1a key"] by (auto simp: sharded_is_def shard_idx_def)

lemma part_key: "part num (shard_idx num k) m k = m k"
  by (simp add: part_def)

lemma part_upd: "part num i (m(k := x)) = (if shard_idx num k = i then (part num i m)(k := x) else part num i m)"
  by (auto simp: part_def restrict_map_def fun_eq_iff)

lemma sharded_isD:
  assumes "sharded_is clk s m" and "i < sh_num s"
  shows "index (sh_shards s) i = Some (sh_shards s ! i)" "db_is (sh_shards s ! i) (part (sh_num s) i m)"
    "db_clock (sh_shards s ! i) = clk" "i < length (sh_shards s)"
  using assms by (auto simp: sharded_is_def index_def)

text \<open>Replacing one shard by what stands for its part of another map.\<close>

lemma sharded_update:
  assumes "sharded_is clk s m" and "i < sh_num s" and "db_is d' (part (sh_num s) i m')" and "db_clock d' = clk"
    and "\<forall>j. j \<noteq> i \<longrightarrow> part (sh_num s) j m' = part (sh_num s) j m"
  shows "sharded_is clk (s\<lparr>sh_shards := (sh_shards s)[i := d']\<rparr>) m'"
  using assms by (auto simp: sharded_is_def nth_list_update)

section \<open>The contract of an operation on one key\<close>

text \<open>An operation under a shard's lock that reads and writes one key: its reply and what it leaves at the
  key are functions of what the key holds (and of the LRU clock), and it keeps the rest.\<close>

locale key_op =
  fixes oper :: "database \<Rightarrow> 'r \<times> database"
    and key :: bytes
    and reply :: "u32 \<Rightarrow> entry option \<Rightarrow> 'r"
    and after :: "u32 \<Rightarrow> entry option \<Rightarrow> entry option"
  assumes op_law: "db_is d m \<Longrightarrow> fst (oper d) = reply (db_clock d) (m key)
      \<and> db_is (snd (oper d)) (m(key := after (db_clock d) (m key))) \<and> db_clock (snd (oper d)) = db_clock d"
begin

lemma under_lock:
  assumes "sharded_is clk s m"
  shows "\<exists>s'. write_for key oper s = Some (reply clk (m key), s')
    \<and> sharded_is clk s' (m(key := after clk (m key))) \<and> sh_num s' = sh_num s"
proof -
  let ?i = "shard_idx (sh_num s) key"
  have i: "?i < sh_num s" by (rule shard_idx_less [OF assms])
  note d = sharded_isD [OF assms i]
  note l = op_law [OF d(2), unfolded part_key d(3)]
  obtain r d' where rd: "oper (sh_shards s ! ?i) = (r, d')" by force
  have "sharded_is clk (s\<lparr>sh_shards := (sh_shards s)[?i := d']\<rparr>) (m(key := after clk (m key)))"
  proof (rule sharded_update [OF assms i])
    show "db_is d' (part (sh_num s) ?i (m(key := after clk (m key))))" using l rd by (simp add: part_upd)
    show "db_clock d' = clk" using l rd by simp
  qed (simp add: part_upd)
  then show ?thesis using l rd d(1) by (simp add: write_for_def write_shard_def)
qed

end

lemma bump_if_present_clock [simp]: "db_clock (db_bump_version_if_present k d) = db_clock d"
  by (rule bump_if_present_props(4))

lemma remove_clock [simp]: "db_clock (snd (db_remove k d)) = db_clock d"
  by (simp add: db_remove_def Let_def split: option.split)

lemma insert_clock [simp]: "db_clock (db_insert k e d) = db_clock d"
  by (simp add: db_insert_def Let_def split: option.split)

lemma get_clock [simp]: "db_clock (snd (db_get now k d)) = db_clock d"
  by (simp add: db_get_def Let_def split: option.split)

lemma get_mut_clock [simp]: "db_clock (snd (db_get_mut now k d)) = db_clock d"
  by (simp add: db_get_mut_def Let_def split: option.split)

interpretation ins: key_op "\<lambda>d. ((), db_insert key e d)" key "\<lambda>_ _. ()" "\<lambda>_ _. Some e" for key e
  by unfold_locales (simp add: db_insert_is)

interpretation rem: key_op "db_remove key" key "\<lambda>_ x. x" "\<lambda>_ _. None" for key
  by unfold_locales (simp add: db_remove_is)

definition touched :: "nat \<Rightarrow> u32 \<Rightarrow> entry option \<Rightarrow> entry option" where
  "touched now clk x = map_option (\<lambda>e. e\<lparr>en_lru_clock := clk\<rparr>) (live_entry now x)"

lemma get_law: "db_is d m \<Longrightarrow> fst (db_get now key d) = touched now (db_clock d) (m key)
    \<and> db_is (snd (db_get now key d)) (m(key := touched now (db_clock d) (m key)))"
  using db_get_is [of d m now key] by (cases "m key") (auto simp: touched_def fun_upd_idem)

interpretation get: key_op "db_get now key" key "touched now" "touched now" for now key
  by unfold_locales (simp add: get_law)

interpretation has: key_op "db_contains_key now key" key "\<lambda>_ x. live_entry now x \<noteq> None" "touched now" for now key
  using get_law by unfold_locales (auto simp: db_contains_key_def touched_def case_prod_beta)

end
