(* ===== verification/Keyspace.thy ===== *)
theory Keyspace
  imports Sharded
begin

text \<open>
  What the operations of the sharded keyspace do to the one map it stands for: renames and copies across
  shards, multi-key writes, and the operations that visit every shard.
\<close>

section \<open>Composing operations under locks\<close>

lemma write_shard_compose:
  "write_shard i (\<lambda>d. let (r, d1) = f d in g r d1) s =
     do { (r, s1) \<leftarrow> write_shard i f s; write_shard i (g r) s1 }"
proof (cases "i < length (sh_shards s)")
  case True
  then show ?thesis by (auto simp: write_shard_def index_def Let_def split: prod.splits)
qed (simp add: write_shard_def index_def)

lemma write_shard_return: "write_shard i (\<lambda>d. (r, d)) s = (if i < length (sh_shards s) then Some (r, s) else None)"
  by (simp add: write_shard_def index_def)

lemma write_shard_map: "write_shard i (\<lambda>d. let (r, d1) = f d in (h r, d1)) s = map_option (map_prod h id) (write_shard i f s)"
  by (cases "i < length (sh_shards s)") (auto simp: write_shard_def index_def Let_def split: prod.splits)

lemma write_for_length:
  "write_shard i f s = Some (r, s') \<Longrightarrow> length (sh_shards s') = length (sh_shards s) \<and> sh_num s' = sh_num s"
  by (cases "i < length (sh_shards s)") (auto simp: write_shard_def index_def Let_def split: prod.splits)

section \<open>RENAME, RENAMENX, COPY\<close>

text \<open>Whether or not the two keys share a shard, the operations are the same sequences of operations on
  single keys.\<close>

lemma sh_rename_steps:
  assumes "length (sh_shards s) > shard_idx (sh_num s) src"
  shows "sh_rename src dst s = do {
     (r, s1) \<leftarrow> write_for src (db_remove src) s;
     case r of None \<Rightarrow> Some (None, s1)
     | Some e \<Rightarrow> map_option (\<lambda>(_, s2). (Some (), s2)) (write_for dst (\<lambda>d. ((), db_insert dst e d)) s1)
   }"
proof (cases "shard_idx (sh_num s) src = shard_idx (sh_num s) dst")
  case True
  let ?i = "shard_idx (sh_num s) src"
  let ?g = "\<lambda>r d1. case r of None \<Rightarrow> (None, d1) | Some e \<Rightarrow> (Some (), db_insert dst e d1)"
  have "sh_rename src dst s = do { (r, s1) \<leftarrow> write_shard ?i (db_remove src) s; write_shard ?i (?g r) s1 }"
    unfolding sh_rename_def using True write_shard_compose [of ?i "db_remove src" ?g s] by (simp add: Let_def)
  then show ?thesis using True assms
    by (auto simp: write_for_def write_shard_def index_def Let_def split: option.splits prod.splits)
next
  case False
  then show ?thesis using assms
    by (auto simp: sh_rename_def write_for_def write_shard_def index_def Let_def split: option.splits prod.splits)
qed

lemma sh_rename_is:
  assumes "sharded_is clk s m"
  shows "\<exists>s'. sh_rename src dst s = Some (map_option (\<lambda>_. ()) (m src), s')
    \<and> sharded_is clk s' (case m src of None \<Rightarrow> m | Some e \<Rightarrow> (m(src := None))(dst \<mapsto> e))"
proof -
  have len: "length (sh_shards s) > shard_idx (sh_num s) src"
    using shard_idx_less [OF assms] assms by (simp add: sharded_is_def)
  from rem.under_lock [OF assms, of src] obtain s1 where
    s1: "write_for src (db_remove src) s = Some (m src, s1)" "sharded_is clk s1 (m(src := None))" by blast
  show ?thesis
  proof (cases "m src")
    case None
    then have "m(src := None) = m" by auto
    then show ?thesis unfolding sh_rename_steps [OF len] using s1 None by simp
  next
    case (Some e)
    from ins.under_lock [OF s1(2), of dst e] obtain s2 where
      "write_for dst (\<lambda>d. ((), db_insert dst e d)) s1 = Some ((), s2)" "sharded_is clk s2 ((m(src := None))(dst \<mapsto> e))" by blast
    then show ?thesis unfolding sh_rename_steps [OF len] using s1 Some by simp
  qed
qed

lemma sh_renamenx_steps:
  assumes "length (sh_shards s) > shard_idx (sh_num s) src"
  shows "sh_renamenx now src dst s = do {
     (c, s0) \<leftarrow> write_for dst (db_contains_key now dst) s;
     if c then Some (Some 0, s0) else do {
       (r, s1) \<leftarrow> write_for src (db_remove src) s0;
       case r of None \<Rightarrow> Some (None, s1)
       | Some e \<Rightarrow> map_option (\<lambda>(_, s2). (Some 1, s2)) (write_for dst (\<lambda>d. ((), db_insert dst e d)) s1)
     }
   }"
proof (cases "shard_idx (sh_num s) src = shard_idx (sh_num s) dst")
  case True
  then show ?thesis using assms
    by (auto simp: sh_renamenx_def write_for_def write_shard_def index_def Let_def split: option.splits prod.splits)
next
  case False
  then show ?thesis using assms
    by (auto simp: sh_renamenx_def write_for_def write_shard_def index_def Let_def split: option.splits prod.splits)
qed

lemma sh_renamenx_is:
  assumes "sharded_is clk s m"
  shows "\<exists>s'. sh_renamenx now src dst s = Some (
      if live_entry now (m dst) \<noteq> None then Some 0 else map_option (\<lambda>_. 1) ((m(dst := None)) src), s')
    \<and> sharded_is clk s' (
      if live_entry now (m dst) \<noteq> None then m(dst := touched now clk (m dst))
      else case (m(dst := None)) src of None \<Rightarrow> m(dst := None) | Some e \<Rightarrow> (m(dst := None, src := None))(dst \<mapsto> e))"
proof -
  have len: "length (sh_shards s) > shard_idx (sh_num s) src"
    using shard_idx_less [OF assms] assms by (simp add: sharded_is_def)
  from has.under_lock [OF assms, of dst now] obtain s0 where
    s0: "write_for dst (db_contains_key now dst) s = Some (live_entry now (m dst) \<noteq> None, s0)"
      "sharded_is clk s0 (m(dst := touched now clk (m dst)))" by blast
  show ?thesis
  proof (cases "live_entry now (m dst)")
    case (Some x)
    then show ?thesis unfolding sh_renamenx_steps [OF len] using s0 by auto
  next
    case None
    let ?m = "m(dst := None)"
    have s0': "sharded_is clk s0 ?m" using s0(2) None by (simp add: touched_def)
    from rem.under_lock [OF s0', of src] obtain s1 where
      s1: "write_for src (db_remove src) s0 = Some (?m src, s1)" "sharded_is clk s1 (?m(src := None))" by blast
    show ?thesis
    proof (cases "?m src")
      case n: None
      then have "?m(src := None) = ?m" by (rule fun_upd_idem)
      then have "sharded_is clk s1 ?m" using s1(2) by simp
      then show ?thesis unfolding sh_renamenx_steps [OF len] using s0(1) s1(1) None n
        by (simp split: option.split)
    next
      case (Some e)
      from ins.under_lock [OF s1(2), of dst e] obtain s2 where
        "write_for dst (\<lambda>d. ((), db_insert dst e d)) s1 = Some ((), s2)" "sharded_is clk s2 ((?m(src := None))(dst \<mapsto> e))" by blast
      then show ?thesis unfolding sh_renamenx_steps [OF len] using s0(1) s1(1) None Some
        by (simp split: if_splits)
    qed
  qed
qed

lemma sh_copy_steps:
  assumes "length (sh_shards s) > shard_idx (sh_num s) src"
  shows "sh_copy_entry now src dst replace s = do {
     (c, s0) \<leftarrow> (if replace then Some (False, s) else write_for dst (db_contains_key now dst) s);
     if c then Some (False, s0) else do {
       (r, s1) \<leftarrow> write_for src (db_get now src) s0;
       case r of None \<Rightarrow> Some (False, s1)
       | Some e \<Rightarrow> map_option (\<lambda>(_, s2). (True, s2)) (write_for dst (\<lambda>d. ((), db_insert dst e d)) s1)
     }
   }"
  using assms
  by (cases "shard_idx (sh_num s) src = shard_idx (sh_num s) dst"; cases replace)
    (auto simp: sh_copy_entry_def write_for_def write_shard_def index_def Let_def split: option.splits prod.splits)

lemma copy_get_insert:
  assumes "sharded_is clk s m"
  shows "\<exists>s'. (do {
       (r, s1) \<leftarrow> write_for src (db_get now src) s;
       case r of None \<Rightarrow> Some (False, s1)
       | Some e \<Rightarrow> map_option (\<lambda>(_, s2). (True, s2)) (write_for dst (\<lambda>d. ((), db_insert dst e d)) s1)
     }) = Some (live_entry now (m src) \<noteq> None, s')
    \<and> sharded_is clk s' (case touched now clk (m src) of None \<Rightarrow> m(src := None)
        | Some e \<Rightarrow> (m(src \<mapsto> e))(dst \<mapsto> e))"
proof -
  from get.under_lock [OF assms, of src now] obtain s1 where
    s1: "write_for src (db_get now src) s = Some (touched now clk (m src), s1)"
      "sharded_is clk s1 (m(src := touched now clk (m src)))" by blast
  show ?thesis
  proof (cases "touched now clk (m src)")
    case None
    then show ?thesis using s1 by (simp add: touched_def)
  next
    case (Some e)
    from ins.under_lock [OF s1(2), of dst e] obtain s2 where
      "write_for dst (\<lambda>d. ((), db_insert dst e d)) s1 = Some ((), s2)"
      "sharded_is clk s2 ((m(src := touched now clk (m src)))(dst \<mapsto> e))" by blast
    moreover have "live_entry now (m src) \<noteq> None" using Some by (auto simp: touched_def)
    ultimately show ?thesis using s1 Some by simp
  qed
qed

section \<open>Operations on every shard\<close>

lemma each_shard_map: "each_shard f ds = (concat (map (fst \<circ> f) ds), map (snd \<circ> f) ds)"
  by (induction ds) (auto simp: Let_def split: prod.splits)

lemma parts_cover:
  assumes "sharded_is clk s m"
  shows "m k = part (sh_num s) (shard_idx (sh_num s) k) m k"
    and "dom m = (\<Union>i < sh_num s. dom (part (sh_num s) i m))"
    and "finite (dom m)"
proof -
  show "m k = part (sh_num s) (shard_idx (sh_num s) k) m k" by (simp add: part_key)
  show u: "dom m = (\<Union>i < sh_num s. dom (part (sh_num s) i m))"
    using shard_idx_less [OF assms] by (auto simp: part_def restrict_map_def dom_def split: if_splits)
  have "finite (dom (part (sh_num s) i m))" if "i < sh_num s" for i
    using db_isD(3) [OF sharded_isD(2) [OF assms that]] .
  then show "finite (dom m)" unfolding u by auto
qed

lemma parts_disjoint: "i \<noteq> j \<Longrightarrow> dom (part num i m) \<inter> dom (part num j m) = {}"
  by (auto simp: part_def restrict_map_def split: if_splits)

lemma sum_list_shards:
  assumes "length ds = n"
  shows "sum_list (map f ds) = (\<Sum>i < n. f (ds ! i))"
  using assms by (auto simp: sum_list_sum_nth lessThan_atLeast0)

text \<open>DBSIZE and the memory estimate add up what the shards say.\<close>

lemma sh_len_is:
  assumes "sharded_is clk s m"
  shows "sh_len s = card (dom m)"
proof -
  have len: "length (sh_shards s) = sh_num s" using assms by (simp add: sharded_is_def)
  have "db_len (sh_shards s ! i) = card (dom (part (sh_num s) i m))" if "i < sh_num s" for i
  proof -
    note d = db_isD [OF sharded_isD(2) [OF assms that]]
    have "card (fst ` set (db_entries (sh_shards s ! i))) = length (db_entries (sh_shards s ! i))"
      using distinct_card [OF d(2)] by simp
    then show ?thesis unfolding db_len_def d(1) [symmetric] by (simp add: dom_map_of_conv_image_fst)
  qed
  then have "sh_len s = (\<Sum>i < sh_num s. card (dom (part (sh_num s) i m)))"
    by (simp add: sh_len_def sum_list_shards [OF len])
  also have "\<dots> = card (dom m)"
    unfolding parts_cover(2) [OF assms] using parts_disjoint db_isD(3) [OF sharded_isD(2) [OF assms]]
    by (subst card_UN_disjoint) auto
  finally show ?thesis .
qed

lemma sh_live_bytes_is:
  assumes "sharded_is clk s m"
  shows "sh_live_bytes s = map_size m"
proof -
  have len: "length (sh_shards s) = sh_num s" using assms by (simp add: sharded_is_def)
  have "sh_live_bytes s = (\<Sum>i < sh_num s. map_size (part (sh_num s) i m))"
    unfolding sh_live_bytes_def sum_list_shards [OF len]
    using db_isD(9) [OF sharded_isD(2) [OF assms]] by simp
  also have "\<dots> = (\<Sum>i < sh_num s. \<Sum>k \<in> dom (part (sh_num s) i m). estimate_entry_size k (the (m k)))"
    unfolding map_size_def by (intro sum.cong) (auto simp: part_def restrict_map_def split: if_splits)
  also have "\<dots> = map_size m"
    unfolding map_size_def parts_cover(2) [OF assms]
    using parts_disjoint db_isD(3) [OF sharded_isD(2) [OF assms]]
    by (subst sum.UNION_disjoint) auto
  finally show ?thesis .
qed

lemma part_restrict:
  "part num i (m |` (- A)) = part num i m |` (- A)"
  by (auto simp: part_def restrict_map_def fun_eq_iff)

lemma restrict_other: "A \<inter> dom m \<subseteq> B \<Longrightarrow> B \<subseteq> A \<Longrightarrow> m |` (- A) = m |` (- B)"
proof
  fix x assume "A \<inter> dom m \<subseteq> B" "B \<subseteq> A"
  then show "(m |` (- A)) x = (m |` (- B)) x" by (cases "m x") (auto simp: restrict_map_def)
qed

text \<open>Operations that delete keys shard by shard delete the union.\<close>

lemma each_shard_deletes:
  assumes "sharded_is clk s m"
    and f: "\<And>i d. i < sh_num s \<Longrightarrow> d = sh_shards s ! i \<Longrightarrow> set (del i) \<subseteq> dom (part (sh_num s) i m)
      \<and> db_is (snd (f d)) (part (sh_num s) i m |` (- set (del i))) \<and> db_clock (snd (f d)) = db_clock d"
  shows "sharded_is clk (s\<lparr>sh_shards := map (snd \<circ> f) (sh_shards s)\<rparr>) (m |` (- (\<Union>i < sh_num s. set (del i))))"
proof -
  let ?A = "\<Union>i < sh_num s. set (del i)"
  have len: "length (sh_shards s) = sh_num s" using assms(1) by (simp add: sharded_is_def)
  have "db_is (snd (f (sh_shards s ! i))) (part (sh_num s) i (m |` (- ?A)))
      \<and> db_clock (snd (f (sh_shards s ! i))) = clk" if i: "i < sh_num s" for i
  proof -
    have "?A \<inter> dom (part (sh_num s) i m) \<subseteq> set (del i)"
    proof
      fix k assume k: "k \<in> ?A \<inter> dom (part (sh_num s) i m)"
      then obtain j where j: "j < sh_num s" "k \<in> set (del j)" by auto
      then have "k \<in> dom (part (sh_num s) j m)" using f [of j] by auto
      then have "j = i" using k parts_disjoint [of i j "sh_num s" m] by auto
      then show "k \<in> set (del i)" using j(2) by simp
    qed
    moreover have "set (del i) \<subseteq> ?A" using i by auto
    ultimately have "part (sh_num s) i (m |` (- ?A)) = part (sh_num s) i m |` (- set (del i))"
      unfolding part_restrict by (rule restrict_other)
    then show ?thesis using f [OF i refl] sharded_isD(3) [OF assms(1) i] by simp
  qed
  then show ?thesis using assms(1) len by (auto simp: sharded_is_def)
qed

lemma prune_clock' [simp]: "db_clock (db_maybe_prune_versions n d) = db_clock d"
  by (rule prune_clock)

lemma expire_loop_clock: "db_clock (snd (expire_loop del acc d)) = db_clock d"
  by (induction del acc d rule: expire_loop.induct) (auto simp: Let_def split: option.splits prod.splits)

lemma expire_batch_clock [simp]: "db_clock (snd (db_expire_batch now n d)) = db_clock d"
  using expire_loop_clock by (auto simp: db_expire_batch_def Let_def split: prod.splits) (metis snd_conv)

lemma expire_rounds_clock: "db_clock (snd (expire_rounds now fuel b acc n d)) = db_clock d"
proof (induction now fuel b acc n d rule: expire_rounds.induct)
  case (2 now fuel budget acc rounds d)
  have "db_clock d2 = db_clock d" if "db_expire_batch now n d = (ks, d2)" for n ks d2
    using expire_batch_clock [of now n d] that by simp
  with 2 show ?case by (auto simp: Let_def split: prod.splits)
qed simp

lemma expired_parts:
  assumes "sharded_is clk s m"
  shows "expired_keys now m = (\<Union>i < sh_num s. expired_keys now (part (sh_num s) i m))"
  using shard_idx_less [OF assms] by (auto simp: expired_keys_def part_def restrict_map_def split: if_splits)

text \<open>One cycle of active expiry over all shards.\<close>

lemma sh_expire_cycle_is:
  assumes "sharded_is clk s m"
  shows "\<exists>ks s'. sh_expire_cycle now s = (ks, s') \<and> set ks \<subseteq> expired_keys now m
    \<and> sharded_is clk s' (m |` (- set ks))
    \<and> ((\<forall>i < sh_num s. card (expired_keys now (part (sh_num s) i m)) < 3372) \<longrightarrow> set ks = expired_keys now m)"
proof -
  let ?f = "\<lambda>d. let ((ks, rounds), d') = db_expire_cycle now d in (ks, d')"
  let ?p = "\<lambda>i. part (sh_num s) i m" and ?del = "\<lambda>i. fst (?f (sh_shards s ! i))"
  have len: "length (sh_shards s) = sh_num s" using assms by (simp add: sharded_is_def)
  have one: "set (?del i) \<subseteq> expired_keys now (?p i) \<and> db_is (snd (?f (sh_shards s ! i))) (?p i |` (- set (?del i)))
      \<and> db_clock (snd (?f (sh_shards s ! i))) = db_clock (sh_shards s ! i)
      \<and> (card (expired_keys now (?p i)) < 3372 \<longrightarrow> set (?del i) = expired_keys now (?p i))"
    if "i < sh_num s" for i
    using expire_rounds_is [OF sharded_isD(2) [OF assms that], of 20 now 16 "[]" 0]
      expire_rounds_clock [of now 16 20 "[]" 0 "sh_shards s ! i"]
    by (auto simp: db_expire_cycle_def budgets_cycle Let_def)
  have ex: "expired_keys now (?p i) \<subseteq> dom (?p i)" for i by (auto simp: expired_keys_def)
  have all: "set (concat (map (fst \<circ> ?f) (sh_shards s))) = (\<Union>i < sh_num s. set (?del i))"
    using len by (auto simp: set_conv_nth [of "sh_shards s"])
  have cyc: "sh_expire_cycle now s = (concat (map (fst \<circ> ?f) (sh_shards s)), s\<lparr>sh_shards := map (snd \<circ> ?f) (sh_shards s)\<rparr>)"
    by (simp add: sh_expire_cycle_def each_shard_map)
  have "sharded_is clk (s\<lparr>sh_shards := map (snd \<circ> ?f) (sh_shards s)\<rparr>) (m |` (- (\<Union>i < sh_num s. set (?del i))))"
    by (rule each_shard_deletes [OF assms]) (use one ex in blast)
  moreover have "(\<Union>i < sh_num s. set (?del i)) \<subseteq> expired_keys now m"
    unfolding expired_parts [OF assms] using one by blast
  moreover have "(\<Union>i < sh_num s. set (?del i)) = expired_keys now m"
    if "\<forall>i < sh_num s. card (expired_keys now (?p i)) < 3372"
    unfolding expired_parts [OF assms] using one that by (intro SUP_cong) auto
  ultimately show ?thesis unfolding cyc all [symmetric] by blast
qed

section \<open>KEYS\<close>

lemma distinct_concat_disjoint:
  assumes "\<And>i. i < length xss \<Longrightarrow> distinct (xss ! i)"
    and "\<And>i j. i < length xss \<Longrightarrow> j < length xss \<Longrightarrow> i \<noteq> j \<Longrightarrow> set (xss ! i) \<inter> set (xss ! j) = {}"
  shows "distinct (concat xss)"
  using assms
proof (induction xss)
  case (Cons xs xss)
  have "distinct (concat xss)"
  proof (rule Cons.IH)
    show "distinct (xss ! i)" if "i < length xss" for i using Cons.prems(1) [of "Suc i"] that by simp
    show "set (xss ! i) \<inter> set (xss ! j) = {}" if "i < length xss" "j < length xss" "i \<noteq> j" for i j
      using Cons.prems(2) [of "Suc i" "Suc j"] that by simp
  qed
  moreover have "set xs \<inter> set ys = {}" if ys: "ys \<in> set xss" for ys
  proof -
    obtain j where "j < length xss" "ys = xss ! j" using ys by (auto simp: in_set_conv_nth)
    then show ?thesis using Cons.prems(2) [of 0 "Suc j"] by simp
  qed
  ultimately show ?case using Cons.prems(1) [of 0] by auto
qed simp

lemma fold_remove_is:
  "db_is d m \<Longrightarrow> db_is (fold (\<lambda>k d. snd (db_remove k d)) ks d) (m |` (- set ks))"
proof (induction ks arbitrary: d m)
  case (Cons k ks)
  have "(m(k := None)) |` (- set ks) = m |` (- set (k # ks))" by (auto simp: restrict_map_def fun_eq_iff)
  then show ?case using Cons.IH [OF db_remove_is(2) [OF Cons.prems, of k]] by (simp only: fold.simps comp_def)
qed simp

lemma fold_remove_clock [simp]: "db_clock (fold (\<lambda>k d. snd (db_remove k d)) ks d) = db_clock d"
  by (induction ks arbitrary: d) simp_all

lemma db_keys_matching_is:
  assumes "db_is d m" and "iter_laws ord"
  shows "set (fst (db_keys_matching ord now pattern d)) = {k. live_entry now (m k) \<noteq> None \<and> glob_match pattern k}"
    and "distinct (fst (db_keys_matching ord now pattern d))"
    and "db_is (snd (db_keys_matching ord now pattern d)) (m |` (- expired_keys now m))"
    and "db_clock (snd (db_keys_matching ord now pattern d)) = db_clock d"
proof -
  let ?ex = "map fst (filter (\<lambda>(_, e). entry_is_expired now e) (ord (db_entries d)))"
  let ?d = "fold (\<lambda>k d. snd (db_remove k d)) ?ex d"
  have ex: "set ?ex = expired_keys now m"
    using iter_lawsD(1) [OF assms(2)] entries_graph [OF assms(1)] by (force simp: expired_keys_def)
  have d: "db_is ?d (m |` (- expired_keys now m))" using fold_remove_is [OF assms(1), of ?ex] ex by simp
  show "db_is (snd (db_keys_matching ord now pattern d)) (m |` (- expired_keys now m))"
    "db_clock (snd (db_keys_matching ord now pattern d)) = db_clock d"
    using d by (simp_all add: db_keys_matching_def Let_def)
  have keys: "set (map fst (ord (db_entries ?d))) = dom (m |` (- expired_keys now m))"
    using iter_lawsD(1) [OF assms(2)] db_isD(1) [OF d] by (simp add: dom_map_of_conv_image_fst [symmetric])
  have "k \<in> dom (m |` (- expired_keys now m)) \<longleftrightarrow> live_entry now (m k) \<noteq> None" for k
    by (cases "m k") (auto simp: expired_keys_def)
  then show "set (fst (db_keys_matching ord now pattern d)) = {k. live_entry now (m k) \<noteq> None \<and> glob_match pattern k}"
    using keys by (auto simp: db_keys_matching_def Let_def)
  have "mset (map fst (ord (db_entries ?d))) = mset (map fst (db_entries ?d))"
    using assms(2) by (simp add: iter_laws_def)
  then have "distinct (map fst (ord (db_entries ?d)))" using db_isD(2) [OF d] by (metis mset_eq_imp_distinct_iff)
  then show "distinct (fst (db_keys_matching ord now pattern d))" by (simp add: db_keys_matching_def Let_def)
qed

lemma sh_keys_matching_is:
  assumes "sharded_is clk s m" and "iter_laws ord"
  shows "\<exists>ks s'. sh_keys_matching ord now pattern s = (ks, s')
    \<and> set ks = {k. live_entry now (m k) \<noteq> None \<and> glob_match pattern k} \<and> distinct ks
    \<and> sharded_is clk s' (m |` (- expired_keys now m))"
proof -
  let ?f = "db_keys_matching ord now pattern" and ?p = "\<lambda>i. part (sh_num s) i m"
  have len: "length (sh_shards s) = sh_num s" using assms by (simp add: sharded_is_def)
  note one = db_keys_matching_is [OF sharded_isD(2) [OF assms(1)] assms(2), of _ now pattern]
  have "\<exists>xs. set xs = expired_keys now (?p i)" if "i < sh_num s" for i
    using finite_expired [OF sharded_isD(2) [OF assms(1) that]] by (rule finite_list)
  then obtain del where del: "\<And>i. i < sh_num s \<Longrightarrow> set (del i) = expired_keys now (?p i)" by metis
  have "sharded_is clk (s\<lparr>sh_shards := map (snd \<circ> ?f) (sh_shards s)\<rparr>) (m |` (- (\<Union>i < sh_num s. set (del i))))"
    using one(3,4) del by (intro each_shard_deletes [OF assms(1)]) (auto simp: expired_keys_def)
  then have sh: "sharded_is clk (s\<lparr>sh_shards := map (snd \<circ> ?f) (sh_shards s)\<rparr>) (m |` (- expired_keys now m))"
    unfolding expired_parts [OF assms(1), of now] using del by simp
  let ?ks = "concat (map (fst \<circ> ?f) (sh_shards s))"
  have "set ?ks = (\<Union>i < sh_num s. set (fst (?f (sh_shards s ! i))))"
    using len by (auto simp: set_conv_nth [of "sh_shards s"])
  also have "\<dots> = (\<Union>i < sh_num s. {k. live_entry now (?p i k) \<noteq> None \<and> glob_match pattern k})"
    using one(1) by (intro SUP_cong) auto
  also have "\<dots> = {k. live_entry now (m k) \<noteq> None \<and> glob_match pattern k}"
    using shard_idx_less [OF assms(1)] by (auto simp: part_def restrict_map_def)
  finally have set: "set ?ks = {k. live_entry now (m k) \<noteq> None \<and> glob_match pattern k}" .
  have "distinct ?ks"
    by (rule distinct_concat_disjoint) (use one(1,2) len in \<open>auto simp: part_def restrict_map_def split: if_splits\<close>)
  then show ?thesis using sh set by (simp add: sh_keys_matching_def each_shard_map)
qed

end
