(* ===== verification/Multi_Key.thy ===== *)
theory Multi_Key
  imports Keyspace
begin

text \<open>
  MSET and MSETNX over several shards: the pairs are tagged with their shards, sorted, the shards are
  locked in ascending order and the pairs written through the guards. Whatever order the unstable sort
  leaves between pairs of one shard, the writes land in the right shards and nothing panics.
\<close>

section \<open>The sorted index list\<close>

lemma sorted_le_last: "sorted xs \<Longrightarrow> x \<in> set xs \<Longrightarrow> x \<le> last xs"
  by (induction xs) auto

lemma dedup_last_props:
  "sorted (acc @ xs) \<Longrightarrow> distinct acc \<Longrightarrow>
     sorted (dedup_last acc xs) \<and> distinct (dedup_last acc xs) \<and> set (dedup_last acc xs) = set acc \<union> set xs"
proof (induction acc xs rule: dedup_last.induct)
  case (2 acc s ss)
  let ?a = "if acc \<noteq> [] \<and> last acc = s then acc else acc @ [s]"
  have acc: "sorted acc" "\<forall>x \<in> set acc. x \<le> s" using 2(2) by (auto simp: sorted_append)
  have "sorted (?a @ ss)" using 2(2) by (auto simp: sorted_append)
  moreover have "distinct ?a"
  proof (cases "acc \<noteq> [] \<and> last acc = s")
    case False
    have "s \<notin> set acc"
    proof
      assume s: "s \<in> set acc"
      then have ne: "acc \<noteq> []" by auto
      have "s \<le> last acc" by (rule sorted_le_last [OF acc(1) s])
      moreover have "last acc \<le> s" using acc(2) last_in_set [OF ne] by blast
      ultimately show False using False ne by simp
    qed
    then show ?thesis using 2(3) False by simp
  qed (use 2(3) in simp)
  ultimately have "sorted (dedup_last ?a ss) \<and> distinct (dedup_last ?a ss) \<and> set (dedup_last ?a ss) = set ?a \<union> set ss"
    by (rule 2(1))
  moreover have "set ?a = insert s (set acc)" by auto
  ultimately show ?case by (simp only: dedup_last.simps) auto
qed simp

lemma guard_pos_found:
  assumes "distinct si" and "p < length si" and "gi \<le> p"
  shows "guard_pos si (si ! p) gi = Some p"
  using assms(2,3)
proof (induction "p - gi" arbitrary: gi)
  case 0
  then show ?case by (simp add: guard_pos.simps)
next
  case (Suc n)
  then have "si ! gi \<noteq> si ! p" using assms(1) by (simp add: nth_eq_iff_index_eq)
  then show ?case using Suc by (simp add: guard_pos.simps [of _ _ gi])
qed

section \<open>Writing through the guards\<close>

definition insert_pairs :: "tagged_pair list \<Rightarrow> database \<Rightarrow> database" where
  "insert_pairs ts d = fold (\<lambda>(_, k, e) d. db_insert k e d) ts d"

definition upd_pairs :: "tagged_pair list \<Rightarrow> (bytes \<rightharpoonup> entry) \<Rightarrow> (bytes \<rightharpoonup> entry)" where
  "upd_pairs ts m = fold (\<lambda>(_, k, e) m. m(k \<mapsto> e)) ts m"

lemma insert_pairs_is: "db_is d m \<Longrightarrow> db_is (insert_pairs ts d) (upd_pairs ts m)"
  by (induction ts arbitrary: d m) (auto simp: insert_pairs_def upd_pairs_def db_insert_is)

lemma insert_pairs_clock [simp]: "db_clock (insert_pairs ts d) = db_clock d"
  by (induction ts arbitrary: d) (auto simp: insert_pairs_def)

lemma part_upd_pairs:
  assumes "\<forall>(t, k, _) \<in> set ts. t = shard_idx num k"
  shows "part num i (upd_pairs ts m) = upd_pairs (filter (\<lambda>x. fst x = i) ts) (part num i m)"
  using assms
proof (induction ts arbitrary: m)
  case (Cons x ts)
  obtain t k e where x: "x = (t, k, e)" by (cases x) auto
  then show ?case using Cons by (simp add: upd_pairs_def part_upd)
qed (simp add: upd_pairs_def)

text \<open>Shards that come later in sorted order are at later positions.\<close>

lemma later_positions:
  assumes "distinct si" and "sorted si" and "p < length si" and "A \<subseteq> set si" and "\<forall>u \<in> A. si ! p \<le> u"
  shows "A \<subseteq> set (drop p si)"
proof
  fix u assume u: "u \<in> A"
  then obtain q where q: "q < length si" "si ! q = u" using assms(4) by (metis in_set_conv_nth subsetD)
  have "p \<le> q"
  proof (rule ccontr)
    assume n: "\<not> p \<le> q"
    then have "si ! q \<le> si ! p" using assms(2,3) by (simp add: sorted_nth_mono)
    then have "si ! q = si ! p" using q(2) assms(5) u by auto
    then show False using assms(1,3) q(1) n by (simp add: nth_eq_iff_index_eq)
  qed
  then show "u \<in> set (drop p si)" using q by (intro in_set_conv_nth [THEN iffD2] exI [of _ "q - p"]) simp
qed

lemma commit_tagged_mset_writes:
  assumes "distinct si" and "sorted si" and "sorted (map fst ts)" and "fst ` set ts \<subseteq> set (drop gi si)"
    and "length guards = length si"
  shows "\<exists>gs. commit_tagged_mset si ts gi guards = Some gs \<and> length gs = length si
    \<and> (\<forall>p < length si. gs ! p = insert_pairs (filter (\<lambda>x. fst x = si ! p) ts) (guards ! p))"
  using assms(3-5)
proof (induction ts arbitrary: gi guards)
  case Nil
  then show ?case by (simp add: insert_pairs_def)
next
  case (Cons x ts)
  obtain t k e where x: "x = (t, k, e)" by (cases x) auto
  have "t \<in> set (drop gi si)" using Cons.prems(2) x by auto
  then obtain n where n: "n < length si - gi" "drop gi si ! n = t" by (metis in_set_conv_nth length_drop)
  obtain p where p: "gi \<le> p" "p < length si" "si ! p = t"
    using n by (intro that [of "gi + n"]) simp_all
  have gp: "guard_pos si t gi = Some p" using guard_pos_found [OF assms(1) p(2,1)] p(3) by simp
  have "fst ` set ts \<subseteq> set (drop p si)"
    by (rule later_positions [OF assms(1,2) p(2)]) (use Cons.prems(1,2) x p(3) set_drop_subset [of gi si] in auto)
  moreover have "sorted (map fst ts)" using Cons.prems(1) by simp
  ultimately obtain gs where gs: "commit_tagged_mset si ts p (guards[p := db_insert k e (guards ! p)]) = Some gs"
    "length gs = length si"
    "\<forall>q < length si. gs ! q = insert_pairs (filter (\<lambda>x. fst x = si ! q) ts) (guards[p := db_insert k e (guards ! p)] ! q)"
    using Cons.IH [of p "guards[p := db_insert k e (guards ! p)]"] Cons.prems(3) by auto
  have "gs ! q = insert_pairs (filter (\<lambda>x. fst x = si ! q) (x # ts)) (guards ! q)" if q: "q < length si" for q
  proof (cases "q = p")
    case True
    then show ?thesis using gs(3) q p(3) Cons.prems(3) by (simp add: x insert_pairs_def)
  next
    case False
    then have "si ! q \<noteq> t" using assms(1) p q by (metis nth_eq_iff_index_eq)
    then show ?thesis using gs(3) q False by (simp add: x)
  qed
  then show ?case using gs(1,2) gp p(2) Cons.prems(3) by (simp add: x index_def)
qed

lemma lock_shards_ok: "\<forall>i \<in> set si. i < length (sh_shards s) \<Longrightarrow> lock_shards s si = Some (map (\<lambda>i. sh_shards s ! i) si)"
  unfolding lock_shards_def by (induction si) (auto simp: index_def)

lemma unlock_nth:
  "distinct si \<Longrightarrow> length gs = length si \<Longrightarrow> i < length ds \<Longrightarrow>
     fold (\<lambda>(i, d) ds. ds[i := d]) (zip si gs) ds ! i =
       (case map_of (zip si gs) i of Some d \<Rightarrow> d | None \<Rightarrow> ds ! i)
     \<and> length (fold (\<lambda>(i, d) ds. ds[i := d]) (zip si gs) ds) = length ds"
proof (induction si arbitrary: gs ds)
  case (Cons j si)
  then obtain g gs' where gs: "gs = g # gs'" by (cases gs) auto
  have "fst ` set (zip si gs') \<subseteq> set si" by (auto dest: set_zip_leftD)
  then have j: "map_of (zip si gs') j = None" using Cons.prems(1) unfolding map_of_eq_None_iff by auto
  have IH: "fold (\<lambda>(i, d) ds. ds[i := d]) (zip si gs') (ds[j := g]) ! i =
      (case map_of (zip si gs') i of Some d \<Rightarrow> d | None \<Rightarrow> ds[j := g] ! i)
    \<and> length (fold (\<lambda>(i, d) ds. ds[i := d]) (zip si gs') (ds[j := g])) = length ds"
    using Cons.IH [of gs' "ds[j := g]"] Cons.prems gs by simp
  show ?case
  proof (cases "i = j")
    case True
    then show ?thesis using IH j Cons.prems(3) gs by simp
  next
    case False
    then have m: "map_of (zip (j # si) gs) i = map_of (zip si gs') i" using gs by simp
    show ?thesis unfolding m using IH False gs by (simp split: option.split)
  qed
qed simp

section \<open>MSET and MSETNX\<close>

lemma tagged_props:
  assumes "sort_laws srt" and "tag_and_sort_pairs srt num pairs = (ts, si)"
  shows "sorted (map fst ts)" "sorted si" "distinct si" "set si = fst ` set ts"
    "\<forall>(t, k, _) \<in> set ts. t = shard_idx num k" "mset (map snd ts) = mset pairs"
proof -
  have ts: "ts = srt (map (\<lambda>(k, e). (shard_idx num k, k, e)) pairs)" "si = dedup_last [] (map fst ts)"
    using assms(2) by (auto simp: tag_and_sort_pairs_def Let_def)
  have m: "mset ts = mset (map (\<lambda>(k, e). (shard_idx num k, k, e)) pairs)" and st: "sorted (map fst ts)"
    using assms(1) ts(1) by (auto simp: sort_laws_def)
  show "sorted (map fst ts)" by (rule st)
  show "sorted si" "distinct si" "set si = fst ` set ts"
    using dedup_last_props [of "[]" "map fst ts"] st ts(2) by auto
  show "\<forall>(t, k, _) \<in> set ts. t = shard_idx num k" using mset_eq_setD [OF m] by auto
  have "mset (map snd ts) = image_mset snd (mset (map (\<lambda>(k, e). (shard_idx num k, k, e)) pairs))"
    unfolding m [symmetric] by simp
  also have "\<dots> = mset pairs" by (induction pairs) auto
  finally show "mset (map snd ts) = mset pairs" .
qed

text \<open>A shard list in which each shard has its own pairs inserted stands for the updated map.\<close>

lemma sharded_insert_pairs:
  assumes "sharded_is clk s m" and "\<forall>(t, k, _) \<in> set ts. t = shard_idx (sh_num s) k"
    and "length ds = sh_num s"
    and "\<forall>i < sh_num s. ds ! i = insert_pairs (filter (\<lambda>x. fst x = i) ts) (sh_shards s ! i)"
  shows "sharded_is clk (s\<lparr>sh_shards := ds\<rparr>) (upd_pairs ts m)"
  using assms sharded_isD(2,3) [OF assms(1)] part_upd_pairs [OF assms(2)]
  by (auto simp: sharded_is_def insert_pairs_is)

lemma upd_pairs_map:
  assumes "distinct (map fst pairs)" and "mset (map snd ts) = mset pairs"
  shows "upd_pairs ts m = m ++ map_of pairs"
proof -
  have u: "upd_pairs ts m = m ++ map_of (rev (map snd ts))" for m
  proof (induction ts arbitrary: m)
    case (Cons x ts)
    obtain t k e where x: "x = (t, k, e)" by (cases x) auto
    have "upd_pairs (x # ts) m = upd_pairs ts (m(k \<mapsto> e))" by (simp add: upd_pairs_def x)
    then show ?case unfolding Cons.IH by (simp add: x map_add_upd_left [symmetric] map_add_assoc map_add_def fun_eq_iff split: option.split)
  qed (simp add: upd_pairs_def)
  have "mset (map fst (rev (map snd ts))) = mset (map fst pairs)" using assms(2) by (metis mset_map mset_rev)
  then have "distinct (map fst (rev (map snd ts)))" using assms(1) by (metis mset_eq_imp_distinct_iff)
  moreover have "set (rev (map snd ts)) = set pairs" using assms(2) by (metis mset_rev mset_eq_setD)
  ultimately have "map_of (rev (map snd ts)) = map_of pairs" using assms(1) by (metis map_of_inject_set)
  then show ?thesis by (simp add: u)
qed

lemma guards_written:
  assumes "sharded_is clk s m" and "sort_laws srt" and "tag_and_sort_pairs srt (sh_num s) pairs = (ts, si)"
  shows "\<exists>gs. lock_shards s si = Some (map (\<lambda>i. sh_shards s ! i) si)
    \<and> commit_tagged_mset si ts 0 (map (\<lambda>i. sh_shards s ! i) si) = Some gs
    \<and> sharded_is clk (unlock_shards si gs s) (upd_pairs ts m)"
proof -
  note t = tagged_props [OF assms(2,3)]
  have len: "length (sh_shards s) = sh_num s" using assms(1) by (simp add: sharded_is_def)
  have bound: "\<forall>i \<in> set si. i < length (sh_shards s)"
    unfolding len t(4) using t(5) shard_idx_less [OF assms(1)] by fastforce
  obtain gs where gs: "commit_tagged_mset si ts 0 (map (\<lambda>i. sh_shards s ! i) si) = Some gs" "length gs = length si"
    "\<forall>p < length si. gs ! p = insert_pairs (filter (\<lambda>x. fst x = si ! p) ts) (map (\<lambda>i. sh_shards s ! i) si ! p)"
    using commit_tagged_mset_writes [OF t(3,2,1), of 0 "map (\<lambda>i. sh_shards s ! i) si"] t(4) by auto
  let ?ds = "fold (\<lambda>(i, d) ds. ds[i := d]) (zip si gs) (sh_shards s)"
  have "?ds ! i = insert_pairs (filter (\<lambda>x. fst x = i) ts) (sh_shards s ! i)" if i: "i < sh_num s" for i
  proof (cases "i \<in> set si")
    case True
    then obtain p where p: "p < length si" "si ! p = i" by (metis in_set_conv_nth)
    have "map_of (zip si gs) (si ! p) = Some (gs ! p)" by (rule map_of_zip_nth [OF gs(2) [symmetric] t(3)]) (use p gs(2) in simp)
    then have "map_of (zip si gs) i = Some (gs ! p)" unfolding p(2) .
    then show ?thesis using unlock_nth [OF t(3) gs(2), of i "sh_shards s"] i len gs(3) p by auto
  next
    case False
    then have "map_of (zip si gs) i = None" unfolding map_of_eq_None_iff by (auto dest: set_zip_leftD)
    moreover have "filter (\<lambda>x. fst x = i) ts = []" using False t(4) by (auto simp: filter_empty_conv)
    ultimately show ?thesis using unlock_nth [OF t(3) gs(2), of i "sh_shards s"] i len by (simp add: insert_pairs_def)
  qed
  moreover have "length ?ds = sh_num s"
    using unlock_nth [OF t(3) gs(2), of 0 "sh_shards s"] len assms(1) by (auto simp: sharded_is_def)
  ultimately have "sharded_is clk (unlock_shards si gs s) (upd_pairs ts m)"
    unfolding unlock_shards_def by (intro sharded_insert_pairs [OF assms(1) t(5)]) auto
  then show ?thesis using lock_shards_ok [OF bound] gs(1) by blast
qed

lemma one_shard_written:
  assumes "sharded_is clk s m" and "sort_laws srt" and "tag_and_sort_pairs srt (sh_num s) pairs = (ts, si)" and "length si = 1"
  shows "hd si < sh_num s" and "sharded_is clk (s\<lparr>sh_shards := (sh_shards s)[hd si := insert_pairs ts (sh_shards s ! hd si)]\<rparr>) (upd_pairs ts m)"
proof -
  note t = tagged_props [OF assms(2,3)]
  obtain i where si: "si = [i]" using assms(4) by (cases si) auto
  have len: "length (sh_shards s) = sh_num s" using assms(1) by (simp add: sharded_is_def)
  have tags: "\<forall>x \<in> set ts. fst x = i" using t(4) si by auto
  obtain x where "x \<in> set ts" "fst x = i" using t(4) si by (metis image_iff list.set_intros(1))
  then have i: "i < sh_num s" using t(5) shard_idx_less [OF assms(1)] by fastforce
  then show "hd si < sh_num s" by (simp add: si)
  have "(sh_shards s)[i := insert_pairs ts (sh_shards s ! i)] ! j = insert_pairs (filter (\<lambda>x. fst x = j) ts) (sh_shards s ! j)"
    if "j < sh_num s" for j
  proof (cases "j = i")
    case True
    then have "filter (\<lambda>x. fst x = j) ts = ts" using tags by simp
    then show ?thesis using True i len by simp
  next
    case False
    then have "filter (\<lambda>x. fst x = j) ts = []" using tags by (auto simp: filter_empty_conv)
    then show ?thesis using False by (simp add: insert_pairs_def)
  qed
  then show "sharded_is clk (s\<lparr>sh_shards := (sh_shards s)[hd si := insert_pairs ts (sh_shards s ! hd si)]\<rparr>) (upd_pairs ts m)"
    unfolding si list.sel using len by (intro sharded_insert_pairs [OF assms(1) t(5)]) auto
qed

lemma sh_mset_upd:
  assumes "sharded_is clk s m" and "sort_laws srt" and "tag_and_sort_pairs srt (sh_num s) pairs = (ts, si)" and "pairs \<noteq> []"
  shows "\<exists>s'. sh_mset srt pairs s = Some s' \<and> sharded_is clk s' (upd_pairs ts m)"
proof (cases "length si = 1")
  case True
  note o = one_shard_written [OF assms(1,2,3) True]
  show ?thesis using o assms(3,4) True sharded_isD(1) [OF assms(1) o(1)]
    by (simp add: sh_mset_def write_shard_def insert_pairs_def [symmetric])
next
  case False
  then show ?thesis using guards_written [OF assms(1,2,3)] assms(3,4) by (auto simp: sh_mset_def)
qed

lemma check_tagged_correct:
  assumes "distinct si" and "sorted si" and "sorted (map fst ts)" and "fst ` set ts \<subseteq> set (drop gi si)"
    and "length guards = length si"
    and "\<forall>p < length si. \<forall>k. shard_idx num k = si ! p \<longrightarrow> db_get_ro now k (guards ! p) = live_entry now (m k)"
    and "\<forall>(t, k, _) \<in> set ts. t = shard_idx num k"
  shows "check_tagged now si ts gi guards = Some (\<forall>(_, k, _) \<in> set ts. live_entry now (m k) = None)"
  using assms(3,4,7)
proof (induction ts arbitrary: gi)
  case (Cons x ts)
  obtain t k e where x: "x = (t, k, e)" by (cases x) auto
  have "t \<in> set (drop gi si)" using Cons.prems(2) x by auto
  then obtain n where n: "n < length si - gi" "drop gi si ! n = t" by (metis in_set_conv_nth length_drop)
  obtain p where p: "gi \<le> p" "p < length si" "si ! p = t"
    using n by (intro that [of "gi + n"]) simp_all
  have gp: "guard_pos si t gi = Some p" using guard_pos_found [OF assms(1) p(2,1)] p(3) by simp
  have "fst ` set ts \<subseteq> set (drop p si)" by (rule later_positions [OF assms(1,2) p(2)]) (use Cons.prems(1,2) x p(3) set_drop_subset [of gi si] in auto)
  then have IH: "check_tagged now si ts p guards = Some (\<forall>(_, k, _) \<in> set ts. live_entry now (m k) = None)"
    using Cons.IH [of p] Cons.prems by simp
  have "db_get_ro now k (guards ! p) = live_entry now (m k)" using assms(6) p(2,3) Cons.prems(3) x by auto
  then show ?case using gp p(2) assms(5) IH by (auto simp: x index_def)
qed simp

lemma sh_msetnx_upd:
  assumes "sharded_is clk s m" and "sort_laws srt" and "tag_and_sort_pairs srt (sh_num s) pairs = (ts, si)" and "pairs \<noteq> []"
  shows "\<exists>s'. sh_msetnx srt now pairs s = Some (\<forall>k \<in> fst ` set pairs. live_entry now (m k) = None, s')
    \<and> sharded_is clk s' (if \<forall>k \<in> fst ` set pairs. live_entry now (m k) = None then upd_pairs ts m else m)"
proof -
  note t = tagged_props [OF assms(2,3)]
  have "fst ` set pairs = fst ` set (map snd ts)" unfolding mset_eq_setD [OF t(6)] ..
  also have "\<dots> = (\<lambda>(_, k, _). k) ` set ts" by (simp add: image_image case_prod_beta)
  finally have keys: "fst ` set pairs = (\<lambda>(_, k, _). k) ` set ts" .
  have ro: "db_get_ro now k (sh_shards s ! shard_idx (sh_num s) k) = live_entry now (m k)" for k
    using db_get_ro_is [OF sharded_isD(2) [OF assms(1) shard_idx_less [OF assms(1)]]] by (simp add: part_key)
  let ?free = "\<forall>k \<in> fst ` set pairs. live_entry now (m k) = None"
  show ?thesis
  proof (cases "length si = 1")
    case True
    note o = one_shard_written [OF assms(1,2,3) True]
    obtain i where si: "si = [i]" using True by (cases si) auto
    have at_i: "live_entry now (m k) = db_get_ro now k (sh_shards s ! i)" if "(u, k, e) \<in> set ts" for u k e
    proof -
      have "u = shard_idx (sh_num s) k" using bspec [OF t(5) that] by simp
      moreover have "u \<in> set si" unfolding t(4) using imageI [OF that, of fst] by simp
      ultimately have "u = shard_idx (sh_num s) k" "u = i" by (simp_all add: si)
      then show ?thesis using ro [of k] by simp
    qed
    have "(\<exists>(_, k, _) \<in> set ts. db_get_ro now k (sh_shards s ! i) \<noteq> None) \<longleftrightarrow> (\<exists>x \<in> set ts. live_entry now (m (fst (snd x))) \<noteq> None)"
      unfolding case_prod_beta by (rule bex_cong [OF refl]) (use at_i in \<open>metis prod.collapse\<close>)
    then have "(\<exists>(_, k, _) \<in> set ts. db_get_ro now k (sh_shards s ! i) \<noteq> None) \<longleftrightarrow> \<not> ?free"
      unfolding keys case_prod_beta ball_simps(9) by simp
    then show ?thesis using o assms(1,3,4) True sharded_isD(1) [OF assms(1) o(1)]
      by (simp add: sh_msetnx_def write_shard_def insert_pairs_def [symmetric] si)
  next
    case False
    let ?g = "map (\<lambda>i. sh_shards s ! i) si"
    have "check_tagged now si ts 0 ?g = Some (\<forall>(_, k, _) \<in> set ts. live_entry now (m k) = None)"
      by (rule check_tagged_correct [OF t(3,2,1) _ _ _ t(5)]) (use t(4) in \<open>auto simp: ro [symmetric]\<close>)
    moreover have "(\<forall>(_, k, _) \<in> set ts. live_entry now (m k) = None) \<longleftrightarrow> ?free" unfolding keys by auto
    moreover have "unlock_shards si ?g s = s"
    proof -
      have "fold (\<lambda>(i, d) ds. ds[i := d]) (zip js (map (\<lambda>i. sh_shards s ! i) js)) (sh_shards s) = sh_shards s" for js
        by (induction js) auto
      then show ?thesis by (simp add: unlock_shards_def)
    qed
    ultimately show ?thesis using guards_written [OF assms(1,2,3)] assms(1,3,4) False
      by (auto simp: sh_msetnx_def commit_tagged_msetnx_def)
  qed
qed

end
