(* ===== verification/Key_Ops.thy ===== *)
theory Key_Ops
  imports Multi_Key
begin

text \<open>
  The single-key operations of the keyspace as instances of the contract \<open>key_op\<close>, and sequences of
  keyspace operations (\<open>kcmd\<close>): every operation of \<^verbatim>\<open>ShardedDatabase\<close> on keys and entries,
  run one after another.
\<close>

section \<open>More instances of the contract\<close>

definition plain_after :: "nat \<Rightarrow> bytes \<Rightarrow> u32 \<Rightarrow> entry option \<Rightarrow> entry option" where
  "plain_after now v clk x =
     Some \<lparr>en_value = DString v, en_expiry = None, en_lru_clock = (if live_entry now x = None then 0 else clk)\<rparr>"

lemma set_plain_law:
  assumes "db_is d m"
  shows "db_is (db_set_plain now k v d) (m(k := plain_after now v (db_clock d) (m k))) \<and> db_clock (db_set_plain now k v d) = db_clock d"
proof (cases "live_entry now (m k)")
  case (Some x)
  then obtain e where e: "m k = Some e" "\<not> entry_is_expired now e" by (cases "m k") (auto split: if_splits)
  note a = db_isD [OF assms]
  let ?n = "\<lparr>en_value = DString v, en_expiry = None, en_lru_clock = db_clock d\<rparr>"
  have "db_is (db_set_plain now k v d) (m(k \<mapsto> ?n))"
    using e a map_size_replace(1) [OF a(3) e(1), of ?n] map_size_replace(2) [OF a(3) e(1)]
    by (auto simp: db_set_plain_def Let_def db_is_def index_of_upd exp_set_def estimate_entry_size_def)
  then show ?thesis using e a(1) by (simp add: plain_after_def db_set_plain_def Let_def)
next
  case None
  then have "db_set_plain now k v d = db_insert k (entry_new (DString v)) d"
    by (auto simp: db_set_plain_def Let_def db_isD(1) [OF assms] split: option.split if_splits)
  then show ?thesis using None db_insert_is [OF assms, of k "entry_new (DString v)"] by (simp add: plain_after_def entry_new_def)
qed

interpretation setp: key_op "\<lambda>d. ((), db_set_plain now key v d)" key "\<lambda>_ _. ()" "plain_after now v" for now key v
  using set_plain_law by unfold_locales simp

text \<open>What \<^verbatim>\<open>get_mut\<close> leaves before the caller writes.\<close>

interpretation getm: key_op "db_get_mut now key" key "\<lambda>_. live_entry now" "\<lambda>_. live_entry now" for now key
proof
  fix d :: database and m
  assume a: "db_is d m"
  show "fst (db_get_mut now key d) = live_entry now (m key)
      \<and> db_is (snd (db_get_mut now key d)) (m(key := live_entry now (m key)))
      \<and> db_clock (snd (db_get_mut now key d)) = db_clock d"
    using db_get_mut_is [OF a, of now key] by (cases "m key") (auto simp: fun_upd_idem)
qed

definition goi_entry :: "nat \<Rightarrow> entry \<Rightarrow> u32 \<Rightarrow> entry option \<Rightarrow> entry" where
  "goi_entry now new clk x = (case live_entry now x of None \<Rightarrow> new | Some e \<Rightarrow> e\<lparr>en_lru_clock := clk\<rparr>)"

lemma goi_clock [simp]: "db_clock (snd (db_get_or_insert_with now k new d)) = db_clock d"
  by (simp add: db_get_or_insert_with_def Let_def split: option.split)

interpretation goi: key_op "db_get_or_insert_with now key new" key "goi_entry now new" "\<lambda>clk x. Some (goi_entry now new clk x)"
  for now key new
proof
  fix d :: database and m
  assume a: "db_is d m"
  have "fst (db_get_or_insert_with now key new d) = goi_entry now new (db_clock d) (m key)"
    unfolding db_get_or_insert_is(2) [OF a] by (simp add: goi_entry_def split: option.split)
  then show "fst (db_get_or_insert_with now key new d) = goi_entry now new (db_clock d) (m key)
      \<and> db_is (snd (db_get_or_insert_with now key new d)) (m(key := Some (goi_entry now new (db_clock d) (m key))))
      \<and> db_clock (snd (db_get_or_insert_with now key new d)) = db_clock d"
    using db_get_or_insert_is(1) [OF a, of now key new] by simp
qed

lemma set_expiry_law:
  "db_is d m \<Longrightarrow> db_is (db_set_expiry k x d) (m(k := map_option (\<lambda>e. e\<lparr>en_expiry := x\<rparr>) (m k)))
    \<and> db_clock (db_set_expiry k x d) = db_clock d"
  using db_set_expiry_is [of d m k x]
  by (cases "m k") (auto simp: fun_upd_idem db_set_expiry_def split: option.split)

interpretation sete: key_op "\<lambda>d. ((), db_set_expiry key x d)" key "\<lambda>_ _. ()" "\<lambda>_. map_option (\<lambda>e. e\<lparr>en_expiry := x\<rparr>)" for key x
  using set_expiry_law by unfold_locales simp

text \<open>INCR: what the slow path under the write lock leaves, and what the fast path leaves.\<close>

definition incr_after :: "nat \<Rightarrow> int \<Rightarrow> u32 \<Rightarrow> entry option \<Rightarrow> entry option" where
  "incr_after now delta clk x = (case live_entry now x of
     None \<Rightarrow> Some (entry_new (DInt (cell_new delta)))
   | Some e \<Rightarrow> (case incr_spec (Some e) delta of
       Inl _ \<Rightarrow> Some e
     | Inr v \<Rightarrow> Some (e\<lparr>en_value := DInt (case en_value e of DInt c \<Rightarrow> cell_store c v | _ \<Rightarrow> cell_new v),
                        en_lru_clock := clk\<rparr>)))"

lemma incr_clock [simp]: "db_clock (snd (db_incr_int now k delta d)) = db_clock d"
  by (auto simp: db_incr_int_def Let_def split: option.split data_type.split)

lemma incr_law:
  assumes "db_is d m"
  shows "db_is (snd (db_incr_int now k delta d)) (m(k := incr_after now delta (db_clock d) (m k)))"
proof (cases "live_entry now (m k)")
  case None
  then show ?thesis using new_int_is [OF assms None] by (simp add: incr_after_def)
next
  case (Some e)
  then have e: "m k = Some e" "\<not> entry_is_expired now e" by (cases "m k", auto split: if_splits)+
  note a = db_isD [OF assms]
  show ?thesis
  proof (cases "incr_spec (Some e) delta")
    case (Inl err)
    then have "snd (db_incr_int now k delta d) = d"
      using db_incr_int_error [OF assms] db_incr_int_reply [OF assms, of now k delta] Some by simp
    moreover have "m(k := incr_after now delta (db_clock d) (m k)) = m"
      using Some Inl e by (intro fun_upd_idem) (simp add: incr_after_def)
    ultimately show ?thesis using assms by simp
  next
    case (Inr v)
    then have r: "fst (db_incr_int now k delta d) = Inr v"
      using db_incr_int_reply [OF assms, of now k delta] Some by simp
    have "find_entry (snd (db_incr_int now k delta d)) k = incr_after now delta (db_clock d) (m k)"
      using e Inr a(1) by (auto simp: db_incr_int_def incr_after_def incr_spec_def Let_def cell_load_def
          split: data_type.splits option.splits)
    moreover obtain c where "db_is (snd (db_incr_int now k delta d)) (m(k \<mapsto> e\<lparr>en_value := DInt c, en_lru_clock := db_clock d\<rparr>))"
      using db_incr_int_old [OF assms e r] by blast
    ultimately show ?thesis using db_isD(1) by (metis fun_upd_same)
  qed
qed

interpretation incr: key_op "db_incr_int now key delta" key "\<lambda>_ x. incr_spec (live_entry now x) delta" "incr_after now delta"
  for now key delta
  using incr_law db_incr_int_reply by unfold_locales simp

text \<open>The value a live key holds after a successful INCR by \<open>delta\<close>, by either path.\<close>

definition holds_int :: "entry option \<Rightarrow> int \<Rightarrow> bool" where
  "holds_int x v \<longleftrightarrow> (\<exists>e c. x = Some e \<and> en_value e = DInt c \<and> ic_value c = v)"

lemma put_cell_is:
  assumes "db_is d m" and "m k = Some e" and "en_value e = DInt c"
  shows "db_is (put_entry k (e\<lparr>en_value := DInt c'\<rparr>) d) (m(k \<mapsto> e\<lparr>en_value := DInt c'\<rparr>))"
  by (rule put_entry_is [OF assms(1,2)]) (simp_all add: assms(3))

lemma sh_incr_int_is:
  assumes "sharded_is clk s m"
  shows "\<exists>s' x. sh_incr_int now key delta s = Some (incr_spec (live_entry now (m key)) delta, s')
    \<and> sharded_is clk s' (m(key := x))
    \<and> (case incr_spec (live_entry now (m key)) delta of
         Inl _ \<Rightarrow> x = m key | Inr v \<Rightarrow> holds_int x v \<and> Option.bind x en_expiry = Option.bind (live_entry now (m key)) en_expiry)"
proof -
  let ?i = "shard_idx (sh_num s) key" and ?r = "incr_spec (live_entry now (m key)) delta"
  let ?d = "sh_shards s ! ?i"
  have i: "?i < sh_num s" by (rule shard_idx_less [OF assms])
  note d = sharded_isD [OF assms i]
  have ro: "db_get_ro now key ?d = live_entry now (m key)" using db_get_ro_is [OF d(2)] by (simp add: part_key)
  have at: "case ?r of Inl _ \<Rightarrow> incr_after now delta clk (m key) = m key
      | Inr v \<Rightarrow> holds_int (incr_after now delta clk (m key)) v
          \<and> Option.bind (incr_after now delta clk (m key)) en_expiry = Option.bind (live_entry now (m key)) en_expiry"
    by (cases "m key") (auto simp: incr_after_def incr_spec_def holds_int_def entry_new_def cell_new_def cell_store_def
        split: sum.split data_type.split option.split)
  from incr.under_lock [OF assms, of key now delta] obtain s' where slow:
    "write_for key (db_incr_int now key delta) s = Some (?r, s')" "sharded_is clk s' (m(key := incr_after now delta clk (m key)))"
    by blast
  show ?thesis
  proof (cases "\<exists>e c. live_entry now (m key) = Some e \<and> en_value e = DInt c")
    case False
    then have "sh_incr_int now key delta s = write_for key (db_incr_int now key delta) s"
      using d(1) ro by (auto simp: sh_incr_int_def read_for_def split: option.split data_type.split)
    then show ?thesis using slow at by (intro exI [of _ s'] exI [of _ "incr_after now delta clk (m key)"] conjI) simp_all
  next
    case True
    then obtain e c where e: "live_entry now (m key) = Some e" "en_value e = DInt c" by blast
    then have mk: "m key = Some e" by (cases "m key") (auto split: if_splits)
    show ?thesis
    proof (cases "i64_checked_add (ic_value c) delta")
      case None
      then have "sh_incr_int now key delta s = Some (Inl Overflow, s)" "?r = Inl Overflow" "m(key := m key) = m"
        using e d(1) ro by (simp_all add: sh_incr_int_def read_for_def cell_checked_add_def incr_spec_def)
      then show ?thesis using assms by (intro exI [of _ s] exI [of _ "m key"]) simp
    next
      case (Some v)
      let ?c = "c\<lparr>ic_value := v, ic_version := ic_version c + 1\<rparr>"
      let ?e = "e\<lparr>en_value := DInt ?c\<rparr>"
      have pk: "part (sh_num s) ?i m key = Some e" by (simp add: part_key mk)
      have "sharded_is clk (s\<lparr>sh_shards := (sh_shards s)[?i := put_entry key ?e ?d]\<rparr>) (m(key \<mapsto> ?e))"
        by (rule sharded_update [OF assms i])
          (use put_cell_is [OF d(2) pk e(2), of ?c] d(3) in \<open>simp_all add: part_upd\<close>)
      moreover have "sh_incr_int now key delta s = Some (Inr v, s\<lparr>sh_shards := (sh_shards s)[?i := put_entry key ?e ?d]\<rparr>)"
        using e d(1) ro Some by (simp add: sh_incr_int_def read_for_def cell_checked_add_def write_for_def write_shard_def)
      moreover have "?r = Inr v" using e Some by (simp add: incr_spec_def)
      moreover have "holds_int (Some ?e) v \<and> Option.bind (Some ?e) en_expiry = Option.bind (live_entry now (m key)) en_expiry"
        using e(1) by (simp add: holds_int_def)
      ultimately show ?thesis by auto
    qed
  qed
qed

section \<open>Whole-keyspace operations\<close>

lemma sh_new_is: "k < 64 \<Longrightarrow> sharded_is 0 (sh_new (2 ^ k)) Map.empty"
  using db_new_is by (auto simp: sharded_is_def sh_new_def part_def db_new_def)

lemma sh_flush_is: "sharded_is clk s m \<Longrightarrow> sharded_is clk (sh_flush s) Map.empty"
  by (auto simp: sharded_is_def sh_flush_def db_flush_def part_def db_is_def index_of_def map_size_def)

lemma sh_expire_batch_is:
  assumes "sharded_is clk s m"
  shows "\<exists>ks s'. sh_expire_batch now n s = (ks, s') \<and> set ks \<subseteq> expired_keys now m \<and> sharded_is clk s' (m |` (- set ks))"
proof -
  let ?f = "db_expire_batch now (max (n div sh_num s) 1)"
  let ?p = "\<lambda>i. part (sh_num s) i m" and ?del = "\<lambda>i. fst (?f (sh_shards s ! i))"
  have len: "length (sh_shards s) = sh_num s" using assms by (simp add: sharded_is_def)
  have one: "set (?del i) \<subseteq> expired_keys now (?p i) \<and> db_is (snd (?f (sh_shards s ! i))) (?p i |` (- set (?del i)))"
    if "i < sh_num s" for i
    by (rule db_expire_batch_is [OF sharded_isD(2) [OF assms that], of now "max (n div sh_num s) 1"]) simp
  have ex: "expired_keys now (?p i) \<subseteq> dom (?p i)" for i by (auto simp: expired_keys_def)
  have all: "set (concat (map (fst \<circ> ?f) (sh_shards s))) = (\<Union>i < sh_num s. set (?del i))"
    using len by (auto simp: set_conv_nth [of "sh_shards s"])
  have "sharded_is clk (s\<lparr>sh_shards := map (snd \<circ> ?f) (sh_shards s)\<rparr>) (m |` (- (\<Union>i < sh_num s. set (?del i))))"
  proof (rule each_shard_deletes [OF assms])
    fix i d assume i: "i < sh_num s" and d: "d = sh_shards s ! i"
    have "set (?del i) \<subseteq> dom (?p i)" using one [OF i] ex [of i] by (rule subset_trans [OF conjunct1])
    then show "set (?del i) \<subseteq> dom (?p i) \<and> db_is (snd (?f d)) (?p i |` (- set (?del i))) \<and> db_clock (snd (?f d)) = db_clock d"
      unfolding d using one [OF i] by (simp only: expire_batch_clock simp_thms)
  qed
  moreover have "(\<Union>i < sh_num s. set (?del i)) \<subseteq> expired_keys now m"
    unfolding expired_parts [OF assms] using one by blast
  moreover have eq: "sh_expire_batch now n s = (concat (map (fst \<circ> ?f) (sh_shards s)), s\<lparr>sh_shards := map (snd \<circ> ?f) (sh_shards s)\<rparr>)"
    by (simp add: sh_expire_batch_def each_shard_map Let_def)
  ultimately show ?thesis unfolding eq all [symmetric] by blast
qed

text \<open>Eviction takes the first shard that has a victim.\<close>

lemma evict_first_is:
  assumes "iter_laws ord" and "\<And>i. i < length ds \<Longrightarrow> db_is (ds ! i) (f i)"
  shows "case evict_first ord now policy ds of
      (None, ds') \<Rightarrow> ds' = ds \<and> (\<forall>i < length ds. evictable now policy (f i) = {})
    | (Some k, ds') \<Rightarrow> \<exists>i d'. i < length ds \<and> k \<in> evictable now policy (f i) \<and> ds' = ds[i := d']
        \<and> db_is d' ((f i)(k := None)) \<and> db_clock d' = db_clock (ds ! i)"
  using assms(2)
proof (induction ds arbitrary: f)
  case (Cons d ds)
  have d: "db_is d (f 0)" using Cons.prems [of 0] by simp
  have ds: "db_is (ds ! i) (f (Suc i))" if "i < length ds" for i using Cons.prems [of "Suc i"] that by simp
  note one = db_evict_one_is [OF d assms(1), of now policy]
  obtain r d1 where e: "db_evict_one ord now policy d = (r, d1)" by force
  have clk: "db_clock d1 = db_clock d" using e by (auto simp: db_evict_one_def split: option.splits)
  show ?case
  proof (cases r)
    case (Some k)
    then have "k \<in> evictable now policy (f 0)" "db_is d1 ((f 0)(k := None))" using one e by simp_all
    then show ?thesis using e Some clk
      by (auto intro!: exI [of _ "0 :: nat"] exI [of _ d1])
  next
    case None
    then have n: "d1 = d" "evictable now policy (f 0) = {}" using one e by simp_all
    obtain r2 ds2 where e2: "evict_first ord now policy ds = (r2, ds2)" by force
    show ?thesis
    proof (cases r2)
      case None
      have "ds2 = ds" "\<forall>i < length ds. evictable now policy (f (Suc i)) = {}"
        using Cons.IH [of "\<lambda>i. f (Suc i)", OF ds] e2 None by simp_all
      then show ?thesis using e \<open>r = None\<close> n e2 None by (auto simp: less_Suc_eq_0_disj)
    next
      case (Some k)
      then obtain i d' where "i < length ds" "k \<in> evictable now policy (f (Suc i))" "ds2 = ds[i := d']"
        "db_is d' ((f (Suc i))(k := None))" "db_clock d' = db_clock (ds ! i)"
        using Cons.IH [of "\<lambda>i. f (Suc i)", OF ds] e2 by auto
      then show ?thesis using e \<open>r = None\<close> n e2 Some by (auto intro!: exI [of _ "Suc i"] exI [of _ d'])
    qed
  qed
qed simp

lemma evictable_part:
  assumes "sharded_is clk s m"
  shows "evictable now policy m = (\<Union>i < sh_num s. evictable now policy (part (sh_num s) i m))"
  using shard_idx_less [OF assms]
  by (cases policy) (force simp: evictable_def volatile_keys_def part_def restrict_map_def index_of_def split: if_splits)+

lemma evictable_dom: "evictable now policy m \<subseteq> dom m"
  by (cases policy) (auto simp: evictable_def volatile_keys_def index_of_def)

lemma sh_evict_one_is:
  assumes "sharded_is clk s m" and "iter_laws ord"
  shows "case sh_evict_one ord now policy s of
      (None, s') \<Rightarrow> s' = s \<and> evictable now policy m = {}
    | (Some k, s') \<Rightarrow> k \<in> evictable now policy m \<and> sharded_is clk s' (m(k := None)) \<and> sh_num s' = sh_num s"
proof -
  have len: "length (sh_shards s) = sh_num s" using assms by (simp add: sharded_is_def)
  obtain r ds where e: "evict_first ord now policy (sh_shards s) = (r, ds)" by force
  note ev = evict_first_is [OF assms(2), of "sh_shards s" "\<lambda>i. part (sh_num s) i m" now policy]
  show ?thesis
  proof (cases r)
    case None
    then have "ds = sh_shards s" "\<forall>i < sh_num s. evictable now policy (part (sh_num s) i m) = {}"
      using ev e sharded_isD(2) [OF assms(1)] len by simp_all
    then show ?thesis using e None evictable_part [OF assms(1), of now policy] by (simp add: sh_evict_one_def)
  next
    case (Some k)
    then obtain i d' where i: "i < sh_num s" "k \<in> evictable now policy (part (sh_num s) i m)"
      "ds = (sh_shards s)[i := d']" "db_is d' ((part (sh_num s) i m)(k := None))" "db_clock d' = db_clock (sh_shards s ! i)"
      using ev e sharded_isD(2) [OF assms(1)] len by auto
    have ki: "shard_idx (sh_num s) k = i"
      using subsetD [OF evictable_dom i(2)] by (auto simp: part_def restrict_map_def split: if_splits)
    have "sharded_is clk (s\<lparr>sh_shards := (sh_shards s)[i := d']\<rparr>) (m(k := None))"
      by (rule sharded_update [OF assms(1) i(1)]) (use i(4,5) ki sharded_isD(3) [OF assms(1) i(1)] in \<open>simp_all add: part_upd\<close>)
    moreover have "k \<in> evictable now policy m" unfolding evictable_part [OF assms(1)] using i(1,2) by blast
    ultimately show ?thesis using e Some i(3) by (simp add: sh_evict_one_def)
  qed
qed

end
