(* ===== verification/Cluster.thy ===== *)
theory Cluster
  imports Prelude
begin

text \<open>
  Hash slots (\<^verbatim>\<open>cluster.rs\<close>): the table-driven CRC-16, hash tags, and the slot of a key. The lemmas
  show that the table-driven checksum is the bit-by-bit CRC-16/XMODEM of its polynomial, that slots are
  below 16384 and that keys with one hash tag share a slot.

  Not here: \<^verbatim>\<open>self_assigned_slot\<close> (constantly true) and \<^verbatim>\<open>generate_node_id\<close> (a random UUID).
\<close>

unbundle bit_operations_syntax

type_synonym u16 = "16 word"

section \<open>The checksum and the slots\<close>

definition CLUSTER_SLOTS :: u16 where "CLUSTER_SLOTS = 16384"

definition CRC16_TAB :: "u16 list" where
  "CRC16_TAB = [
     0x0000, 0x1021, 0x2042, 0x3063, 0x4084, 0x50A5, 0x60C6, 0x70E7, 0x8108, 0x9129, 0xA14A, 0xB16B,
     0xC18C, 0xD1AD, 0xE1CE, 0xF1EF, 0x1231, 0x0210, 0x3273, 0x2252, 0x52B5, 0x4294, 0x72F7, 0x62D6,
     0x9339, 0x8318, 0xB37B, 0xA35A, 0xD3BD, 0xC39C, 0xF3FF, 0xE3DE, 0x2462, 0x3443, 0x0420, 0x1401,
     0x64E6, 0x74C7, 0x44A4, 0x5485, 0xA56A, 0xB54B, 0x8528, 0x9509, 0xE5EE, 0xF5CF, 0xC5AC, 0xD58D,
     0x3653, 0x2672, 0x1611, 0x0630, 0x76D7, 0x66F6, 0x5695, 0x46B4, 0xB75B, 0xA77A, 0x9719, 0x8738,
     0xF7DF, 0xE7FE, 0xD79D, 0xC7BC, 0x48C4, 0x58E5, 0x6886, 0x78A7, 0x0840, 0x1861, 0x2802, 0x3823,
     0xC9CC, 0xD9ED, 0xE98E, 0xF9AF, 0x8948, 0x9969, 0xA90A, 0xB92B, 0x5AF5, 0x4AD4, 0x7AB7, 0x6A96,
     0x1A71, 0x0A50, 0x3A33, 0x2A12, 0xDBFD, 0xCBDC, 0xFBBF, 0xEB9E, 0x9B79, 0x8B58, 0xBB3B, 0xAB1A,
     0x6CA6, 0x7C87, 0x4CE4, 0x5CC5, 0x2C22, 0x3C03, 0x0C60, 0x1C41, 0xEDAE, 0xFD8F, 0xCDEC, 0xDDCD,
     0xAD2A, 0xBD0B, 0x8D68, 0x9D49, 0x7E97, 0x6EB6, 0x5ED5, 0x4EF4, 0x3E13, 0x2E32, 0x1E51, 0x0E70,
     0xFF9F, 0xEFBE, 0xDFDD, 0xCFFC, 0xBF1B, 0xAF3A, 0x9F59, 0x8F78, 0x9188, 0x81A9, 0xB1CA, 0xA1EB,
     0xD10C, 0xC12D, 0xF14E, 0xE16F, 0x1080, 0x00A1, 0x30C2, 0x20E3, 0x5004, 0x4025, 0x7046, 0x6067,
     0x83B9, 0x9398, 0xA3FB, 0xB3DA, 0xC33D, 0xD31C, 0xE37F, 0xF35E, 0x02B1, 0x1290, 0x22F3, 0x32D2,
     0x4235, 0x5214, 0x6277, 0x7256, 0xB5EA, 0xA5CB, 0x95A8, 0x8589, 0xF56E, 0xE54F, 0xD52C, 0xC50D,
     0x34E2, 0x24C3, 0x14A0, 0x0481, 0x7466, 0x6447, 0x5424, 0x4405, 0xA7DB, 0xB7FA, 0x8799, 0x97B8,
     0xE75F, 0xF77E, 0xC71D, 0xD73C, 0x26D3, 0x36F2, 0x0691, 0x16B0, 0x6657, 0x7676, 0x4615, 0x5634,
     0xD94C, 0xC96D, 0xF90E, 0xE92F, 0x99C8, 0x89E9, 0xB98A, 0xA9AB, 0x5844, 0x4865, 0x7806, 0x6827,
     0x18C0, 0x08E1, 0x3882, 0x28A3, 0xCB7D, 0xDB5C, 0xEB3F, 0xFB1E, 0x8BF9, 0x9BD8, 0xABBB, 0xBB9A,
     0x4A75, 0x5A54, 0x6A37, 0x7A16, 0x0AF1, 0x1AD0, 0x2AB3, 0x3A92, 0xFD2E, 0xED0F, 0xDD6C, 0xCD4D,
     0xBDAA, 0xAD8B, 0x9DE8, 0x8DC9, 0x7C26, 0x6C07, 0x5C64, 0x4C45, 0x3CA2, 0x2C83, 0x1CE0, 0x0CC1,
     0xEF1F, 0xFF3E, 0xCF5D, 0xDF7C, 0xAF9B, 0xBFBA, 0x8FD9, 0x9FF8, 0x6E17, 0x7E36, 0x4E55, 0x5E74,
     0x2E93, 0x3EB2, 0x0ED1, 0x1EF0]"

text \<open>\<^verbatim>\<open>(((crc >> 8) ^ b as u16) & 0xff) as usize\<close> is below 256; the model reads the table with \<open>index\<close>,
  so an index past the end would be the panic it is in the code.\<close>

fun crc16_loop :: "u16 \<Rightarrow> bytes \<Rightarrow> u16 option" where
  "crc16_loop crc [] = Some crc"
| "crc16_loop crc (b # bs) = do {
     t \<leftarrow> index CRC16_TAB (unat ((drop_bit 8 crc XOR ucast b) AND 0xFF));
     crc16_loop (push_bit 8 crc XOR t) bs
   }"

definition crc16_hash :: "bytes \<Rightarrow> u16 option" where
  "crc16_hash bs = crc16_loop 0 bs"

definition extract_hash_tag :: "bytes \<Rightarrow> bytes option" where
  "extract_hash_tag key = (case position (\<lambda>b. b = 0x7B) key of
     None \<Rightarrow> Some key
   | Some op \<Rightarrow> do {
       after \<leftarrow> subslice key (op + 1) (length key);
       case position (\<lambda>b. b = 0x7D) after of
         None \<Rightarrow> Some key
       | Some close \<Rightarrow> do {
           inner \<leftarrow> subslice key (op + 1) (op + 1 + close);
           Some (if inner \<noteq> [] then inner else key)
         }
     })"

definition keyslot :: "bytes \<Rightarrow> u16 option" where
  "keyslot key = do {
     tag \<leftarrow> extract_hash_tag key;
     crc \<leftarrow> crc16_hash tag;
     Some (crc mod CLUSTER_SLOTS)
   }"

text \<open>The error carries what its text is formatted from: the key, its slot and the slot expected.\<close>

fun check_slots :: "u16 \<Rightarrow> bytes list \<Rightarrow> (bytes \<times> u16 \<times> u16 + unit) option" where
  "check_slots base [] = Some (Inr ())"
| "check_slots base (k # ks) = do {
     slot \<leftarrow> keyslot k;
     if slot \<noteq> base then Some (Inl (k, slot, base)) else check_slots base ks
   }"

definition check_same_slot :: "bytes list \<Rightarrow> (bytes \<times> u16 \<times> u16 + unit) option" where
  "check_same_slot keys = (case keys of
     k # k2 # ks \<Rightarrow> do { base \<leftarrow> keyslot k; check_slots base (k2 # ks) }
   | _ \<Rightarrow> Some (Inr ()))"

section \<open>The reference checksum\<close>

text \<open>CRC-16/XMODEM one bit at a time: shift left, and subtract the polynomial \<open>0x1021\<close> when a one
  falls out at the top.\<close>

definition crc_bit :: "u16 \<Rightarrow> u16" where
  "crc_bit c = (if bit c 15 then push_bit 1 c XOR 0x1021 else push_bit 1 c)"

fun crc_bits :: "nat \<Rightarrow> u16 \<Rightarrow> u16" where
  "crc_bits 0 c = c"
| "crc_bits (Suc n) c = crc_bits n (crc_bit c)"

definition crc16_xmodem :: "bytes \<Rightarrow> u16" where
  "crc16_xmodem bs = fold (\<lambda>b crc. crc_bits 8 (crc XOR push_bit 8 (ucast b))) bs 0"

lemma crc_bit_xor: "crc_bit (a XOR b) = crc_bit a XOR crc_bit b"
  by (auto simp: crc_bit_def push_bit_xor bit_xor_iff ac_simps xor.left_commute)

lemma crc_bits_xor: "crc_bits n (a XOR b) = crc_bits n a XOR crc_bits n b"
  by (induction n arbitrary: a b) (simp_all add: crc_bit_xor)

text \<open>Eight steps on a value without high bits only shift it; on a value without low bits they give the
  table.\<close>

lemma crc_bits_shift: "\<forall>j. 16 \<le> j + n \<longrightarrow> \<not> bit c j \<Longrightarrow> n \<le> 16 \<Longrightarrow> crc_bits n c = push_bit n c"
proof (induction n arbitrary: c)
  case (Suc n)
  have "\<not> bit c 15" using Suc.prems(1) by simp
  then have "crc_bit c = push_bit 1 c" by (simp add: crc_bit_def)
  moreover have "\<forall>j. 16 \<le> j + n \<longrightarrow> \<not> bit (push_bit 1 c) j"
    using Suc.prems(1) by (auto simp: bit_push_bit_iff simp del: push_bit_numeral push_bit_Suc)
  ultimately show ?case using Suc.IH [of "push_bit 1 c"] Suc.prems(2) by (simp add: push_bit_push_bit)
qed simp

fun crc_table :: "u16 \<Rightarrow> nat \<Rightarrow> u16 list" where
  "crc_table i 0 = []"
| "crc_table i (Suc n) = crc_bits 8 (push_bit 8 i) # crc_table (i + 1) n"

lemma crc_table_nth: "j < n \<Longrightarrow> crc_table i n ! j = crc_bits 8 (push_bit 8 (i + of_nat j))"
  by (induction i n arbitrary: j rule: crc_table.induct) (auto simp: nth_Cons' ac_simps of_nat_diff)

lemma crc_table_length [simp]: "length (crc_table i n) = n"
  by (induction i n rule: crc_table.induct) auto

lemma crc_table_add: "crc_table i (m + n) = crc_table i m @ crc_table (i + of_nat m) n"
  by (induction i m rule: crc_table.induct) (auto simp: ac_simps)

lemma crc_bits_8: "crc_bits 8 c = crc_bit (crc_bit (crc_bit (crc_bit (crc_bit (crc_bit (crc_bit (crc_bit c)))))))"
  by (simp add: eval_nat_numeral)

lemma crc_table_numeral: "crc_table i (numeral n) = crc_bits 8 (push_bit 8 i) # crc_table (i + 1) (pred_numeral n)"
  by (simp add: numeral_eq_Suc)

lemma crc_table_halves: "crc_table 0 128 = take 128 CRC16_TAB" "crc_table 128 128 = drop 128 CRC16_TAB"
  by (simp_all add: crc_bits_8 crc_table_numeral crc_bit_def CRC16_TAB_def)

lemma crc_table_is: "CRC16_TAB = crc_table 0 256"
  using crc_table_add [of 0 128 128] crc_table_halves append_take_drop_id [of 128 CRC16_TAB] by simp

lemma table_entries: "i < 256 \<Longrightarrow> index CRC16_TAB i = Some (crc_bits 8 (push_bit 8 (of_nat i)))"
  by (simp add: crc_table_is index_def crc_table_nth)

lemma byte_split:
  fixes c :: u16
  shows "c = push_bit 8 (drop_bit 8 c AND 0xFF) XOR (c AND 0xFF)" and "unat (c AND 0xFF) < 256"
    and "16 \<le> j + 8 \<Longrightarrow> \<not> bit (c AND 0xFF) j"
proof -
  have m: "(0xFF :: u16) = mask 8" by (simp add: mask_eq_exp_minus_1)
  show "c = push_bit 8 (drop_bit 8 c AND 0xFF) XOR (c AND 0xFF)"
    unfolding m by (rule bit_eqI) (auto simp: bit_simps)
  have "unat (c AND mask 8) = take_bit 8 (unat c)" by (simp add: take_bit_eq_mask [symmetric] unsigned_take_bit_eq)
  also have "\<dots> < 2 ^ 8" by (rule take_bit_nat_less_exp)
  finally show "unat (c AND 0xFF) < 256" unfolding m by simp
  show "\<not> bit (c AND 0xFF) j" if "16 \<le> j + 8" unfolding m using that by (simp add: bit_simps)
qed

text \<open>One byte: the table step is eight bit steps.\<close>

lemma crc_step:
  "\<exists>t. index CRC16_TAB (unat ((drop_bit 8 crc XOR ucast b) AND 0xFF)) = Some t
     \<and> push_bit 8 crc XOR t = crc_bits 8 (crc XOR push_bit 8 (ucast (b :: u8)))"
proof -
  let ?i = "(drop_bit 8 crc XOR ucast b) AND 0xFF :: u16"
  have t: "index CRC16_TAB (unat ?i) = Some (crc_bits 8 (push_bit 8 ?i))"
    using table_entries [OF byte_split(2) [of "drop_bit 8 crc XOR ucast b"]] by simp
  have m: "(0xFF :: u16) = mask 8" by (simp add: mask_eq_exp_minus_1)
  have "push_bit 8 crc = push_bit 8 (crc AND mask 8)" by (rule bit_eqI) (auto simp: bit_simps)
  then have "push_bit 8 crc = push_bit 8 (crc AND 0xFF)" unfolding m .
  moreover have "crc_bits 8 (crc AND 0xFF) = push_bit 8 (crc AND 0xFF)"
    by (rule crc_bits_shift) (use byte_split(3) in auto)
  moreover have "crc XOR push_bit 8 (ucast b) = push_bit 8 ?i XOR (crc AND 0xFF)"
  proof -
    have "push_bit 8 (ucast b AND mask 8) = (push_bit 8 (ucast b) :: u16)" by (rule bit_eqI) (auto simp: bit_simps)
    then have "push_bit 8 (ucast b AND 0xFF) = (push_bit 8 (ucast b) :: u16)" unfolding m .
    then have "push_bit 8 ?i = push_bit 8 (drop_bit 8 crc AND 0xFF) XOR push_bit 8 (ucast b)"
      by (simp only: bit.conj_xor_distrib2 push_bit_xor)
    then show ?thesis using byte_split(1) [of crc] by (simp only: ac_simps)
  qed
  ultimately show ?thesis using t by (simp add: crc_bits_xor xor.commute)
qed

lemma crc16_loop_is:
  "crc16_loop crc bs = Some (fold (\<lambda>b crc. crc_bits 8 (crc XOR push_bit 8 (ucast b))) bs crc)"
proof (induction bs arbitrary: crc)
  case (Cons b bs)
  then show ?case using crc_step [of crc b] by auto
qed simp

lemma crc16_hash_is: "crc16_hash bs = Some (crc16_xmodem bs)"
  by (simp add: crc16_hash_def crc16_loop_is crc16_xmodem_def)

section \<open>Tags and slots\<close>

lemma position_takeWhile:
  "position P xs = (if \<exists>x \<in> set xs. P x then Some (length (takeWhile (\<lambda>x. \<not> P x) xs)) else None)"
  by (induction xs) auto

text \<open>The tag of a key: what stands between the first opening brace and the first closing brace after it.\<close>

lemma extract_hash_tag_tagged:
  assumes "0x7B \<notin> set pre" and "0x7D \<notin> set tag" and "tag \<noteq> []"
  shows "extract_hash_tag (pre @ [0x7B] @ tag @ [0x7D] @ post) = Some tag"
proof -
  have "takeWhile (\<lambda>b. b \<noteq> 0x7B) (pre @ 0x7B # tag @ 0x7D # post) = pre"
    "takeWhile (\<lambda>b. b \<noteq> 0x7D) (tag @ 0x7D # post) = tag"
    using assms(1,2) by (auto simp: takeWhile_append takeWhile_eq_all_conv)
  then show ?thesis using assms(3) by (simp add: extract_hash_tag_def position_takeWhile subslice_def)
qed

lemma extract_hash_tag_total: "\<exists>t. extract_hash_tag key = Some t"
proof (cases "position (\<lambda>b. b = 0x7B) key")
  case (Some p)
  then have "key ! p = 0x7B \<and> p < length key"
    by (induction key arbitrary: p) (auto split: if_splits)
  then have p: "p < length key" ..
  then have "p + 1 + c \<le> length key" if "position (\<lambda>b. b = 0x7D) (drop (Suc p) key) = Some c" for c
    using that length_takeWhile_le [of "\<lambda>x. x \<noteq> 0x7D" "drop (Suc p) key"] by (auto simp: position_takeWhile split: if_splits)
  then show ?thesis using Some p by (auto simp: extract_hash_tag_def subslice_def split: option.split)
qed (simp add: extract_hash_tag_def)

lemma keyslot_is: "\<exists>t. extract_hash_tag key = Some t \<and> keyslot key = Some (crc16_xmodem t mod 16384)"
  using extract_hash_tag_total [of key] by (auto simp: keyslot_def crc16_hash_is CLUSTER_SLOTS_def)

lemma mod_slots: "(c :: u16) mod 16384 < 16384"
  by (simp add: word_less_nat_alt unat_mod)

lemma check_slots_is: "check_slots base ks = Some (Inr ()) \<longleftrightarrow> (\<forall>k \<in> set ks. keyslot k = Some base)"
proof (induction ks)
  case (Cons k ks)
  obtain slot where "keyslot k = Some slot" using keyslot_is [of k] by blast
  then show ?case using Cons by (cases "slot = base") auto
qed simp

text \<open>C40. The table-driven checksum never reads outside its table, and is CRC-16/XMODEM computed one bit
  at a time over the polynomial 0x1021.\<close>

theorem crc16_table_correct: "crc16_hash bs = Some (crc16_xmodem bs)"
  by (rule crc16_hash_is)

text \<open>Every key has a slot below 16384; a key whose braces enclose a tag has the slot of the tag alone,
  whatever stands before and after the braces.\<close>

theorem keyslot_of_tag:
  assumes "0x7B \<notin> set pre" and "0x7D \<notin> set tag" and "tag \<noteq> []"
  shows "keyslot (pre @ [0x7B] @ tag @ [0x7D] @ post) = Some (crc16_xmodem tag mod 16384)
    \<and> (\<exists>slot. keyslot key = Some slot \<and> slot < 16384)"
proof
  show "keyslot (pre @ [0x7B] @ tag @ [0x7D] @ post) = Some (crc16_xmodem tag mod 16384)"
    using extract_hash_tag_tagged [OF assms, of post] by (simp add: keyslot_def crc16_hash_is CLUSTER_SLOTS_def)
  show "\<exists>slot. keyslot key = Some slot \<and> slot < 16384" using keyslot_is [of key] mod_slots by blast
qed

text \<open>The vector of the Redis documentation: \<^verbatim>\<open>foo\<close> has slot 12182.\<close>

theorem keyslot_of_tag_witness:
  "keyslot ([0x61] @ [0x7B] @ [0x66, 0x6F, 0x6F] @ [0x7D] @ []) = Some 12182
   \<and> (\<exists>slot. keyslot [0x66, 0x6F, 0x6F] = Some slot \<and> slot < 16384)"
proof -
  have "crc16_xmodem [0x66, 0x6F, 0x6F] = 0xAF96"
    by (simp add: crc16_xmodem_def) (simp add: crc_bits_8 crc_bit_def)
  moreover have "(0xAF96 :: u16) mod 16384 = 12182" by (simp add: word_unat_eq_iff unat_mod)
  ultimately have "crc16_xmodem [0x66, 0x6F, 0x6F] mod 16384 = 12182" by simp
  then show ?thesis using keyslot_of_tag [of "[0x61]" "[0x66, 0x6F, 0x6F]" "[]" "[0x66, 0x6F, 0x6F]"] by simp
qed

text \<open>\<^verbatim>\<open>check_same_slot\<close> accepts exactly the key lists that live in one slot.\<close>

theorem check_same_slot_correct:
  "check_same_slot keys = Some (Inr ()) \<longleftrightarrow> card (keyslot ` set keys) \<le> 1"
proof (cases keys)
  case (Cons k ks)
  obtain slot where slot: "keyslot k = Some slot" using keyslot_is [of k] by blast
  have "card (keyslot ` set keys) \<le> 1 \<longleftrightarrow> keyslot ` set ks \<subseteq> {Some slot}"
  proof
    assume "card (keyslot ` set keys) \<le> 1"
    then have eq: "\<forall>x \<in> keyslot ` set keys. \<forall>y \<in> keyslot ` set keys. x = y"
      using card_le_Suc0_iff_eq [of "keyslot ` set keys"] by (simp only: One_nat_def finite_imageI finite_set simp_thms)
    have "y = Some slot" if "y \<in> keyslot ` set ks" for y
      by (rule bspec [OF bspec [OF eq]]) (use that slot Cons in \<open>auto intro: image_eqI [of _ _ k]\<close>)
    then show "keyslot ` set ks \<subseteq> {Some slot}" by blast
  next
    assume "keyslot ` set ks \<subseteq> {Some slot}"
    then have "keyslot ` set keys \<subseteq> {Some slot}" using slot Cons by simp
    then show "card (keyslot ` set keys) \<le> 1" using card_mono [of "{Some slot}"] by simp
  qed
  also have "\<dots> \<longleftrightarrow> check_slots slot ks = Some (Inr ())" unfolding check_slots_is by auto
  also have "\<dots> \<longleftrightarrow> check_same_slot keys = Some (Inr ())" using slot Cons by (cases ks) (simp_all add: check_same_slot_def)
  finally show ?thesis by simp
qed (simp add: check_same_slot_def)

end
