(* ===== verification/Store.thy ===== *)
theory Store
  imports Key_Ops Cluster
begin

text \<open>
  The store of several databases (\<^verbatim>\<open>store.rs\<close>, \<^verbatim>\<open>Store\<close>): selection by index, flushing, counters,
  active expiry over all databases, eviction under a memory limit, and the keys of a hash slot.

  The eviction loop need not end, so it has fuel: \<^const>\<open>None\<close> is a loop that is still running. The
  clock may advance while it runs: \<open>nows i\<close> is the time at its \<open>i\<close>-th round.
\<close>

section \<open>State and operations\<close>

record store =
  st_dbs :: "sharded list"
  st_db_count :: nat
  st_lru_clock :: u32
  st_wired :: bool \<comment> \<open>whether the shards read the store's clock (\<^verbatim>\<open>set_lru_clock\<close> was called)\<close>

definition store_new :: "nat \<Rightarrow> nat \<Rightarrow> store" where
  "store_new cpus db_count =
     \<lparr>st_dbs = replicate db_count (sh_new (compute_num_shards cpus)), st_db_count = db_count,
      st_lru_clock = 0, st_wired = False\<rparr>"

definition store_set_lru_clock :: "u32 \<Rightarrow> store \<Rightarrow> store" where
  "store_set_lru_clock clock st =
     st\<lparr>st_dbs := map (sh_set_lru_clock clock) (st_dbs st), st_lru_clock := clock, st_wired := True\<rparr>"

text \<open>The shards share the atomic once they are wired to it.\<close>

definition store_refresh_lru_clock :: "u32 \<Rightarrow> store \<Rightarrow> store" where
  "store_refresh_lru_clock v st =
     (if st_wired st then st\<lparr>st_dbs := map (sh_set_lru_clock v) (st_dbs st), st_lru_clock := v\<rparr>
      else st\<lparr>st_lru_clock := v\<rparr>)"

definition store_lru_now :: "store \<Rightarrow> u32" where
  "store_lru_now st = st_lru_clock st"

text \<open>\<^verbatim>\<open>&self.dbs[index % self.db_count]\<close>: a panic when there are no databases.\<close>

definition db_slot :: "store \<Rightarrow> nat \<Rightarrow> nat option" where
  "db_slot st i = (if st_db_count st = 0 then None else Some (i mod st_db_count st))"

definition store_db :: "store \<Rightarrow> nat \<Rightarrow> sharded option" where
  "store_db st i = do { j \<leftarrow> db_slot st i; index (st_dbs st) j }"

text \<open>What a caller does with the database it is lent.\<close>

definition with_db :: "nat \<Rightarrow> (sharded \<Rightarrow> ('r \<times> sharded) option) \<Rightarrow> store \<Rightarrow> ('r \<times> store) option" where
  "with_db i f st = do {
     j \<leftarrow> db_slot st i;
     s \<leftarrow> index (st_dbs st) j;
     (r, s') \<leftarrow> f s;
     Some (r, st\<lparr>st_dbs := (st_dbs st)[j := s']\<rparr>)
   }"

definition store_flush_db :: "nat \<Rightarrow> store \<Rightarrow> store option" where
  "store_flush_db i st = map_option snd (with_db i (\<lambda>s. Some ((), sh_flush s)) st)"

definition store_flush_all :: "store \<Rightarrow> store" where
  "store_flush_all st = st\<lparr>st_dbs := map sh_flush (st_dbs st)\<rparr>"

definition store_total_keys :: "store \<Rightarrow> nat" where
  "store_total_keys st = sum_list (map sh_len (st_dbs st))"

definition dbs_memory :: "sharded list \<Rightarrow> nat" where
  "dbs_memory dbs = sum_list (map sh_live_bytes dbs)"

definition store_estimated_memory_bytes :: "store \<Rightarrow> nat" where
  "store_estimated_memory_bytes st = dbs_memory (st_dbs st)"

text \<open>\<^verbatim>\<open>for (i, sdb) in self.dbs.iter().enumerate()\<close>: the keys removed, with their database.\<close>

fun expire_dbs :: "(sharded \<Rightarrow> bytes list \<times> sharded) \<Rightarrow> nat \<Rightarrow> sharded list \<Rightarrow> (nat \<times> bytes) list \<times> sharded list" where
  "expire_dbs f i [] = ([], [])"
| "expire_dbs f i (s # ss) =
     (let (ks, s') = f s; (out, ss') = expire_dbs f (i + 1) ss in (map (Pair i) ks @ out, s' # ss'))"

definition store_active_expire :: "nat \<Rightarrow> nat \<Rightarrow> store \<Rightarrow> (nat \<times> bytes) list \<times> store" where
  "store_active_expire now max_per_db st =
     (let (out, dbs) = expire_dbs (sh_expire_batch now max_per_db) 0 (st_dbs st) in (out, st\<lparr>st_dbs := dbs\<rparr>))"

definition store_active_expire_cycle :: "nat \<Rightarrow> store \<Rightarrow> (nat \<times> bytes) list \<times> store" where
  "store_active_expire_cycle now st =
     (let (out, dbs) = expire_dbs (sh_expire_cycle now) 0 (st_dbs st) in (out, st\<lparr>st_dbs := dbs\<rparr>))"

fun evict_dbs :: "iter_order \<Rightarrow> nat \<Rightarrow> max_memory_policy \<Rightarrow> sharded list \<Rightarrow> bytes option \<times> sharded list" where
  "evict_dbs ord now policy [] = (None, [])"
| "evict_dbs ord now policy (s # ss) = (case sh_evict_one ord now policy s of
     (Some k, s') \<Rightarrow> (Some k, s' # ss)
   | (None, s') \<Rightarrow> (let (r, ss') = evict_dbs ord now policy ss in (r, s' # ss')))"

fun evict_loop :: "iter_order \<Rightarrow> (nat \<Rightarrow> nat) \<Rightarrow> max_memory_policy \<Rightarrow> nat \<Rightarrow> nat \<Rightarrow> nat \<Rightarrow> bytes list \<Rightarrow> sharded list
    \<Rightarrow> (bytes list \<times> sharded list) option" where
  "evict_loop ord nows policy limit 0 i evicted dbs = None"
| "evict_loop ord nows policy limit (Suc fuel) i evicted dbs =
     (if dbs_memory dbs \<le> limit then Some (evicted, dbs)
      else case evict_dbs ord (nows i) policy dbs of
        (Some k, dbs) \<Rightarrow> evict_loop ord nows policy limit fuel (i + 1) (evicted @ [k]) dbs
      | (None, dbs) \<Rightarrow>
          if list_ex (\<lambda>s. \<not> sh_is_empty s) dbs then evict_loop ord nows policy limit fuel (i + 1) evicted dbs
          else Some (evicted, dbs))"

definition store_evict_if_needed :: "iter_order \<Rightarrow> (nat \<Rightarrow> nat) \<Rightarrow> nat \<Rightarrow> max_memory_policy \<Rightarrow> nat \<Rightarrow> store
    \<Rightarrow> (bytes list \<times> store) option" where
  "store_evict_if_needed ord nows fuel policy limit st =
     (if policy = NoEviction \<or> limit = 0 then Some ([], st)
      else let st = snd (store_active_expire_cycle (nows 0) st) in
        if store_estimated_memory_bytes st \<le> limit then Some ([], st)
        else map_option (\<lambda>(ks, dbs). (ks, st\<lparr>st_dbs := dbs\<rparr>))
               (evict_loop ord nows policy limit fuel 0 [] (st_dbs st)))"

text \<open>\<^verbatim>\<open>CLUSTER COUNTKEYSINSLOT\<close> and \<^verbatim>\<open>GETKEYSINSLOT\<close>: the keys of one database after another.\<close>

fun keys_of_dbs :: "iter_order \<Rightarrow> nat \<Rightarrow> nat list \<Rightarrow> store \<Rightarrow> (bytes list \<times> store) option" where
  "keys_of_dbs ord now [] st = Some ([], st)"
| "keys_of_dbs ord now (i # is) st = do {
     (ks, st) \<leftarrow> with_db i (\<lambda>s. Some (sh_keys_matching ord now [0x2A] s)) st;
     (rest, st) \<leftarrow> keys_of_dbs ord now is st;
     Some (ks @ rest, st)
   }"

definition in_slot :: "u16 \<Rightarrow> bytes \<Rightarrow> bool" where
  "in_slot slot key \<longleftrightarrow> keyslot key = Some slot"

definition store_count_keys_in_slot :: "iter_order \<Rightarrow> nat \<Rightarrow> u16 \<Rightarrow> store \<Rightarrow> (nat \<times> store) option" where
  "store_count_keys_in_slot ord now slot st = do {
     (ks, st) \<leftarrow> keys_of_dbs ord now [0..<st_db_count st] st;
     Some (length (filter (in_slot slot) ks), st)
   }"

text \<open>\<^verbatim>\<open>if out.len() >= count { return out; }\<close> leaves the later databases alone.\<close>

fun slot_keys :: "iter_order \<Rightarrow> nat \<Rightarrow> u16 \<Rightarrow> nat \<Rightarrow> nat list \<Rightarrow> bytes list \<Rightarrow> store \<Rightarrow> (bytes list \<times> store) option" where
  "slot_keys ord now slot cnt [] out st = Some (out, st)"
| "slot_keys ord now slot cnt (i # is) out st = do {
     (ks, st) \<leftarrow> with_db i (\<lambda>s. Some (sh_keys_matching ord now [0x2A] s)) st;
     let found = out @ filter (in_slot slot) ks;
     if cnt \<le> length found then Some (take cnt found, st)
     else slot_keys ord now slot cnt is found st
   }"

definition store_get_keys_in_slot :: "iter_order \<Rightarrow> nat \<Rightarrow> u16 \<Rightarrow> nat \<Rightarrow> store \<Rightarrow> (bytes list \<times> store) option" where
  "store_get_keys_in_slot ord now slot cnt st =
     (if cnt = 0 then Some ([], st) else slot_keys ord now slot cnt [0..<st_db_count st] [] st)"

definition store_snapshot_dbs :: "iter_order \<Rightarrow> store \<Rightarrow> (nat \<times> database) list" where
  "store_snapshot_dbs ord st = List.map_filter (\<lambda>i. case store_db st i of
       Some s \<Rightarrow> if sh_is_empty s then None else Some (i, sh_snapshot ord s)
     | None \<Rightarrow> None) [0..<st_db_count st]"

section \<open>What the databases stand for\<close>

text \<open>\<open>ms i\<close> is the map of database \<open>i\<close>.\<close>

definition dbs_are :: "u32 \<Rightarrow> sharded list \<Rightarrow> (nat \<Rightarrow> bytes \<rightharpoonup> entry) \<Rightarrow> bool" where
  "dbs_are clk dbs ms \<longleftrightarrow> (\<forall>i < length dbs. sharded_is clk (dbs ! i) (ms i))"

lemma dbs_are_Cons [simp]: "dbs_are clk (s # ss) ms \<longleftrightarrow> sharded_is clk s (ms 0) \<and> dbs_are clk ss (\<lambda>i. ms (Suc i))"
  by (auto simp: dbs_are_def nth_Cons split: nat.splits)

lemma dbs_are_Nil [simp]: "dbs_are clk [] ms"
  by (simp add: dbs_are_def)

lemma dbs_memory_is: "dbs_are clk dbs ms \<Longrightarrow> dbs_memory dbs = (\<Sum>i < length dbs. map_size (ms i))"
  by (auto simp: dbs_memory_def sum_list_shards [OF refl] dbs_are_def intro!: sum.cong sh_live_bytes_is)

definition keys_in :: "nat \<Rightarrow> (nat \<Rightarrow> bytes \<rightharpoonup> entry) \<Rightarrow> nat" where
  "keys_in n ms = (\<Sum>i < n. card (dom (ms i)))"

lemma total_keys_is: "dbs_are clk dbs ms \<Longrightarrow> sum_list (map sh_len dbs) = keys_in (length dbs) ms"
  by (auto simp: keys_in_def sum_list_shards [OF refl] dbs_are_def intro!: sum.cong sh_len_is)

lemma evict_dbs_is:
  assumes "iter_laws ord" and "dbs_are clk dbs ms"
  shows "case evict_dbs ord now policy dbs of
      (None, dbs') \<Rightarrow> dbs' = dbs \<and> (\<forall>i < length dbs. evictable now policy (ms i) = {})
    | (Some k, dbs') \<Rightarrow> \<exists>i < length dbs. k \<in> evictable now policy (ms i) \<and> length dbs' = length dbs
        \<and> dbs_are clk dbs' (ms(i := (ms i)(k := None)))"
  using assms(2)
proof (induction dbs arbitrary: ms)
  case (Cons s ss)
  obtain r s1 where e: "sh_evict_one ord now policy s = (r, s1)" by force
  note one = sh_evict_one_is [OF _ assms(1), of clk s "ms 0" now policy]
  show ?case
  proof (cases r)
    case (Some k)
    then have "k \<in> evictable now policy (ms 0)" "sharded_is clk s1 ((ms 0)(k := None))" using one e Cons.prems by simp_all
    then show ?thesis using e Some Cons.prems by (auto intro!: exI [of _ "0 :: nat"])
  next
    case None
    then have n: "s1 = s" "evictable now policy (ms 0) = {}" using one e Cons.prems by simp_all
    obtain r2 ss2 where e2: "evict_dbs ord now policy ss = (r2, ss2)" by force
    show ?thesis
    proof (cases r2)
      case None
      then show ?thesis using Cons.IH [of "\<lambda>i. ms (Suc i)"] Cons.prems e \<open>r = None\<close> n e2
        by (auto simp: less_Suc_eq_0_disj)
    next
      case (Some k)
      then obtain i where i: "i < length ss" "k \<in> evictable now policy (ms (Suc i))" "length ss2 = length ss"
        "dbs_are clk ss2 ((\<lambda>i. ms (Suc i))(i := (ms (Suc i))(k := None)))"
        using Cons.IH [of "\<lambda>i. ms (Suc i)"] Cons.prems e2 by auto
      have "(\<lambda>i. ms (Suc i))(i := (ms (Suc i))(k := None)) = (\<lambda>j. (ms(Suc i := (ms (Suc i))(k := None))) (Suc j))" by auto
      then show ?thesis using e \<open>r = None\<close> n e2 Some i Cons.prems by (auto intro!: exI [of _ "Suc i"])
    qed
  qed
qed simp

section \<open>When eviction ends\<close>

text \<open>The keys a policy never evicts, at no time: all but the all-keys policies spare the keys without an
  expiry.\<close>

definition pinned :: "max_memory_policy \<Rightarrow> (bytes \<rightharpoonup> entry) \<Rightarrow> bytes set" where
  "pinned policy m = (if policy = AllKeysRandom \<or> policy = AllKeysLru then {}
     else {k. \<exists>e. m k = Some e \<and> en_expiry e = None})"

definition pinned_bytes :: "max_memory_policy \<Rightarrow> nat \<Rightarrow> (nat \<Rightarrow> bytes \<rightharpoonup> entry) \<Rightarrow> nat" where
  "pinned_bytes policy n ms = (\<Sum>i < n. map_size (ms i |` pinned policy (ms i)))"

lemma evictable_not_pinned: "k \<in> evictable now policy m \<Longrightarrow> k \<notin> pinned policy m"
  by (cases policy) (auto simp: evictable_def pinned_def volatile_keys_def index_of_def)

lemma pinned_delete: "A \<inter> pinned policy m = {} \<Longrightarrow> (m |` (- A)) |` pinned policy (m |` (- A)) = m |` pinned policy m"
  by (force simp: pinned_def restrict_map_def fun_eq_iff)

lemma restrict_one: "m(k := None) = m |` (- {k})"
  by (auto simp: restrict_map_def fun_eq_iff)

lemma pinned_evict: "k \<in> evictable now policy m \<Longrightarrow>
    (m(k := None)) |` pinned policy (m(k := None)) = m |` pinned policy m"
  unfolding restrict_one by (rule pinned_delete) (use evictable_not_pinned in blast)

lemma pinned_bytes_upd:
  assumes "k \<in> evictable now policy (ms i)"
  shows "pinned_bytes policy n (ms(i := (ms i)(k := None))) = pinned_bytes policy n ms"
  unfolding pinned_bytes_def
proof (rule sum.cong)
  show "map_size ((ms(i := (ms i)(k := None))) j |` pinned policy ((ms(i := (ms i)(k := None))) j))
      = map_size (ms j |` pinned policy (ms j))" for j
  proof (cases "j = i")
    case False
    then have "(ms(i := (ms i)(k := None))) j = ms j" by simp
    then show ?thesis by (simp only:)
  qed (simp only: fun_upd_same pinned_evict [OF assms])
qed simp

lemma keys_in_upd:
  assumes "i < n" and "finite (dom (ms i))" and "k \<in> dom (ms i)"
  shows "keys_in n (ms(i := (ms i)(k := None))) < keys_in n ms"
  unfolding keys_in_def
proof (rule sum_strict_mono_ex1)
  show "\<forall>j \<in> {..<n}. card (dom ((ms(i := (ms i)(k := None))) j)) \<le> card (dom (ms j))"
    using assms(2) by (auto intro: card_mono)
  have "card (dom (ms i) - {k}) < card (dom (ms i))" using assms(2,3) by (rule card_Diff1_less)
  then show "\<exists>j \<in> {..<n}. card (dom ((ms(i := (ms i)(k := None))) j)) < card (dom (ms j))"
    using assms(1) by (intro bexI [of _ i]) simp_all
qed simp

lemma map_size_mono:
  assumes "finite (dom m)"
  shows "map_size (m |` A) \<le> map_size m"
proof -
  have "map_size (m |` A) = (\<Sum>k \<in> dom m \<inter> A. estimate_entry_size k (the (m k)))"
    unfolding map_size_def by (rule sum.cong) auto
  also have "\<dots> \<le> map_size m" unfolding map_size_def by (rule sum_mono2) (use assms in auto)
  finally show ?thesis .
qed

lemma pinned_le_memory:
  assumes "dbs_are clk dbs ms"
  shows "pinned_bytes policy (length dbs) ms \<le> dbs_memory dbs"
  unfolding dbs_memory_is [OF assms] pinned_bytes_def
  by (rule sum_mono) (use assms parts_cover(3) map_size_mono in \<open>auto simp: dbs_are_def\<close>)

text \<open>A policy that evicts everything it does not pin.\<close>

definition thorough :: "max_memory_policy \<Rightarrow> bool" where
  "thorough policy \<longleftrightarrow> policy = AllKeysRandom \<or> policy = AllKeysLru \<or> policy = VolatileTtl"

lemma thorough_evictable: "thorough policy \<Longrightarrow> evictable now policy m = dom m - pinned policy m"
proof -
  have "snd ` index_of m = dom m - {k. \<exists>e. m k = Some e \<and> en_expiry e = None}"
    by (auto simp: index_of_def image_iff)
  then show "thorough policy \<Longrightarrow> ?thesis" by (auto simp: thorough_def evictable_def pinned_def)
qed

lemma nothing_left:
  assumes "dbs_are clk dbs ms" and "thorough policy" and "\<forall>i < length dbs. evictable now policy (ms i) = {}"
  shows "dbs_memory dbs = pinned_bytes policy (length dbs) ms"
proof -
  have "ms i |` pinned policy (ms i) = ms i" if "i < length dbs" for i
  proof -
    have "dom (ms i) \<subseteq> pinned policy (ms i)" using assms(3) that thorough_evictable [OF assms(2), of now "ms i"] by blast
    then show ?thesis by (intro map_le_antisym) (auto simp: map_le_def)
  qed
  then show ?thesis unfolding dbs_memory_is [OF assms(1)] pinned_bytes_def by simp
qed

text \<open>With a thorough policy and a limit above what is pinned, one round per key is enough.\<close>

lemma evict_loop_ends:
  assumes "iter_laws ord" and "thorough policy"
  shows "dbs_are clk dbs ms \<Longrightarrow> pinned_bytes policy (length dbs) ms \<le> limit \<Longrightarrow> keys_in (length dbs) ms < fuel \<Longrightarrow>
    \<exists>ks dbs' ms'. evict_loop ord nows policy limit fuel i acc dbs = Some (acc @ ks, dbs') \<and> dbs_are clk dbs' ms'
      \<and> dbs_memory dbs' \<le> limit \<and> length dbs' = length dbs \<and> (\<forall>j. ms' j \<subseteq>\<^sub>m ms j)
      \<and> (\<forall>j < length dbs. ms j |` pinned policy (ms j) \<subseteq>\<^sub>m ms' j)"
proof (induction fuel arbitrary: dbs ms i acc)
  case (Suc fuel)
  show ?case
  proof (cases "dbs_memory dbs \<le> limit")
    case True
    have "ms j |` pinned policy (ms j) \<subseteq>\<^sub>m ms j" for j by (auto simp: map_le_def)
    then show ?thesis using True Suc.prems(1) by (intro exI [of _ "[]"] exI [of _ dbs] exI [of _ ms]) simp
  next
    case False
    obtain r dbs1 where e: "evict_dbs ord (nows i) policy dbs = (r, dbs1)" by force
    note ev = evict_dbs_is [OF assms(1) Suc.prems(1), of "nows i" policy, unfolded e]
    show ?thesis
    proof (cases r)
      case None
      then have "\<forall>j < length dbs. evictable (nows i) policy (ms j) = {}" using ev by simp
      then have False using nothing_left [OF Suc.prems(1) assms(2)] False Suc.prems(2) by auto
      then show ?thesis ..
    next
      case (Some k)
      then obtain j where j: "j < length dbs" "k \<in> evictable (nows i) policy (ms j)" "length dbs1 = length dbs"
        "dbs_are clk dbs1 (ms(j := (ms j)(k := None)))" using ev by auto
      let ?ms = "ms(j := (ms j)(k := None))"
      have "finite (dom (ms j))" using Suc.prems(1) j(1) parts_cover(3) by (auto simp: dbs_are_def)
      then have "keys_in (length dbs) ?ms < keys_in (length dbs) ms"
        using keys_in_upd [OF j(1), of ms k] subsetD [OF evictable_dom j(2)] by blast
      then obtain ks dbs' ms' where IH: "evict_loop ord nows policy limit fuel (i + 1) (acc @ [k]) dbs1 = Some ((acc @ [k]) @ ks, dbs')"
        "dbs_are clk dbs' ms'" "dbs_memory dbs' \<le> limit" "length dbs' = length dbs1"
        "\<forall>l. ms' l \<subseteq>\<^sub>m ?ms l" "\<forall>l < length dbs1. ?ms l |` pinned policy (?ms l) \<subseteq>\<^sub>m ms' l"
        using Suc.IH [OF j(4), of "i + 1" "acc @ [k]"] Suc.prems(2,3) j(3) pinned_bytes_upd [of k "nows i" policy ms j, OF j(2)]
        by (auto simp del: fun_upd_apply)
      have "?ms l \<subseteq>\<^sub>m ms l" for l by (auto simp: map_le_def)
      then have "\<forall>l. ms' l \<subseteq>\<^sub>m ms l" using IH(5) map_le_trans by blast
      moreover have "?ms l |` pinned policy (?ms l) = ms l |` pinned policy (ms l)" for l
        using pinned_evict [OF j(2)] by (cases "l = j") simp_all
      then have "\<forall>l < length dbs. ms l |` pinned policy (ms l) \<subseteq>\<^sub>m ms' l" using IH(6) j(3) by simp
      ultimately show ?thesis using e Some IH(1-4) j(3) False by (intro exI [of _ "k # ks"]) auto
    qed
  qed
qed simp

text \<open>Above the limit with what is pinned alone, the loop runs on.\<close>

lemma nonempty_db:
  assumes "dbs_are clk dbs ms" and "0 < dbs_memory dbs"
  shows "list_ex (\<lambda>s. \<not> sh_is_empty s) dbs"
proof (rule ccontr)
  assume n: "\<not> list_ex (\<lambda>s. \<not> sh_is_empty s) dbs"
  have "sh_live_bytes s = 0" if s: "s \<in> set dbs" for s
  proof -
    obtain i where i: "i < length dbs" "dbs ! i = s" using s by (metis in_set_conv_nth)
    have e: "\<forall>d \<in> set (sh_shards s). db_is_empty d" using n s by (auto simp: list_ex_iff sh_is_empty_def)
    have "sharded_is clk s (ms i)" using assms(1) i by (auto simp: dbs_are_def)
    have "db_live_bytes d = 0" if d: "d \<in> set (sh_shards s)" for d
    proof -
      obtain j m where "db_is d m" using d \<open>sharded_is clk s (ms i)\<close> by (auto simp: sharded_is_def in_set_conv_nth)
      moreover have "map_of (db_entries d) = Map.empty" using e d by (simp add: db_is_empty_def)
      ultimately show ?thesis using db_isD(1,9) [of d m] by (simp add: map_size_def)
    qed
    then show ?thesis by (simp add: sh_live_bytes_def)
  qed
  then have "dbs_memory dbs = 0" by (simp add: dbs_memory_def)
  then show False using assms(2) by simp
qed

lemma evict_loop_runs:
  assumes "iter_laws ord"
  shows "dbs_are clk dbs ms \<Longrightarrow> limit < pinned_bytes policy (length dbs) ms \<Longrightarrow>
    evict_loop ord nows policy limit fuel i acc dbs = None"
proof (induction fuel arbitrary: dbs ms i acc)
  case (Suc fuel)
  have over: "limit < dbs_memory dbs" using pinned_le_memory [OF Suc.prems(1), of policy] Suc.prems(2) by simp
  obtain r dbs1 where e: "evict_dbs ord (nows i) policy dbs = (r, dbs1)" by force
  note ev = evict_dbs_is [OF assms Suc.prems(1), of "nows i" policy, unfolded e]
  show ?case
  proof (cases r)
    case None
    then show ?thesis using e ev over Suc.IH [OF Suc.prems] nonempty_db [OF Suc.prems(1)] by auto
  next
    case (Some k)
    then obtain j where j: "k \<in> evictable (nows i) policy (ms j)" "length dbs1 = length dbs"
      "dbs_are clk dbs1 (ms(j := (ms j)(k := None)))" using ev by auto
    then show ?thesis using e Some over Suc.IH [OF j(3)] Suc.prems(2) pinned_bytes_upd [of k "nows i" policy ms j, OF j(1)]
      by (simp del: fun_upd_apply)
  qed
qed simp

end
