(* ===== verification/Keyspace_Laws.thy ===== *)
theory Keyspace_Laws
  imports Store
begin

text \<open>
  What the keyspace promises its callers: histories of operations on one sharded database, operations on
  several keys, whole-keyspace reads, active expiry, and eviction under a memory limit.
\<close>

section \<open>Histories\<close>

text \<open>The operations of \<^verbatim>\<open>ShardedDatabase\<close> (single-key ones under the lock of the key's shard).\<close>

datatype kcmd =
    KInsert bytes entry | KRemove bytes | KGet bytes | KGetMut bytes | KSetPlain bytes bytes
  | KGetOrInsert bytes entry | KIncr bytes int | KSetExpiry bytes "expiry option"
  | KRename bytes bytes | KRenameNx bytes bytes | KCopy bytes bytes bool
  | KMset "(bytes \<times> entry) list" | KMsetNx "(bytes \<times> entry) list"
  | KExpireBatch nat | KExpireCycle | KKeys bytes | KEvict max_memory_policy | KFlush

fun kexec :: "iter_order \<Rightarrow> (tagged_pair list \<Rightarrow> tagged_pair list) \<Rightarrow> nat \<Rightarrow> kcmd \<Rightarrow> sharded \<Rightarrow> sharded option" where
  "kexec ord srt now (KInsert k e) s = map_option snd (write_for k (\<lambda>d. ((), db_insert k e d)) s)"
| "kexec ord srt now (KRemove k) s = map_option snd (write_for k (db_remove k) s)"
| "kexec ord srt now (KGet k) s = map_option snd (write_for k (db_get now k) s)"
| "kexec ord srt now (KGetMut k) s = map_option snd (write_for k (db_get_mut now k) s)"
| "kexec ord srt now (KSetPlain k v) s = map_option snd (write_for k (\<lambda>d. ((), db_set_plain now k v d)) s)"
| "kexec ord srt now (KGetOrInsert k e) s = map_option snd (write_for k (db_get_or_insert_with now k e) s)"
| "kexec ord srt now (KIncr k n) s = map_option snd (sh_incr_int now k n s)"
| "kexec ord srt now (KSetExpiry k x) s = map_option snd (write_for k (\<lambda>d. ((), db_set_expiry k x d)) s)"
| "kexec ord srt now (KRename k l) s = map_option snd (sh_rename k l s)"
| "kexec ord srt now (KRenameNx k l) s = map_option snd (sh_renamenx now k l s)"
| "kexec ord srt now (KCopy k l r) s = map_option snd (sh_copy_entry now k l r s)"
| "kexec ord srt now (KMset ps) s = sh_mset srt ps s"
| "kexec ord srt now (KMsetNx ps) s = map_option snd (sh_msetnx srt now ps s)"
| "kexec ord srt now (KExpireBatch n) s = Some (snd (sh_expire_batch now n s))"
| "kexec ord srt now KExpireCycle s = Some (snd (sh_expire_cycle now s))"
| "kexec ord srt now (KKeys p) s = Some (snd (sh_keys_matching ord now p s))"
| "kexec ord srt now (KEvict policy) s = Some (snd (sh_evict_one ord now policy s))"
| "kexec ord srt now KFlush s = Some (sh_flush s)"

fun krun :: "iter_order \<Rightarrow> (tagged_pair list \<Rightarrow> tagged_pair list) \<Rightarrow> (nat \<times> kcmd) list \<Rightarrow> sharded \<Rightarrow> sharded option" where
  "krun ord srt [] s = Some s"
| "krun ord srt ((now, c) # cs) s = do { s \<leftarrow> kexec ord srt now c s; krun ord srt cs s }"

lemma under_lock_ok:
  assumes "\<exists>s'. write_for k f s = Some (r, s') \<and> sharded_is clk s' m' \<and> P s'"
  shows "\<exists>s' m'. map_option snd (write_for k f s) = Some s' \<and> sharded_is clk s' m'"
  using assms by auto

lemma sh_copy_entry_ok:
  assumes "sharded_is clk s m"
  shows "\<exists>r s' m'. sh_copy_entry now src dst replace s = Some (r, s') \<and> sharded_is clk s' m'"
proof -
  have len: "length (sh_shards s) > shard_idx (sh_num s) src"
    using shard_idx_less [OF assms] assms by (simp add: sharded_is_def)
  show ?thesis
  proof (cases replace)
    case True
    then show ?thesis unfolding sh_copy_steps [OF len] using copy_get_insert [OF assms, of src now dst] by auto
  next
    case False
    from has.under_lock [OF assms, of dst now] obtain s0 where
      s0: "write_for dst (db_contains_key now dst) s = Some (live_entry now (m dst) \<noteq> None, s0)"
        "sharded_is clk s0 (m(dst := touched now clk (m dst)))" by blast
    show ?thesis
    proof (cases "live_entry now (m dst)")
      case None
      then show ?thesis unfolding sh_copy_steps [OF len]
        using s0(1) False copy_get_insert [OF s0(2), of src now dst] by auto
    next
      case (Some e)
      then show ?thesis unfolding sh_copy_steps [OF len] using s0 False by auto
    qed
  qed
qed

lemma kexec_ok:
  assumes "sharded_is clk s m" and "iter_laws ord" and "sort_laws srt"
  shows "\<exists>s' m'. kexec ord srt now c s = Some s' \<and> sharded_is clk s' m'"
proof (cases c)
  case (KInsert k e)
  then show ?thesis using under_lock_ok [OF ins.under_lock [OF assms(1)]] by simp
next
  case (KRemove k)
  then show ?thesis using under_lock_ok [OF rem.under_lock [OF assms(1)]] by simp
next
  case (KGet k)
  then show ?thesis using under_lock_ok [OF get.under_lock [OF assms(1)]] by simp
next
  case (KGetMut k)
  then show ?thesis using under_lock_ok [OF getm.under_lock [OF assms(1)]] by simp
next
  case (KSetPlain k v)
  then show ?thesis using under_lock_ok [OF setp.under_lock [OF assms(1)]] by simp
next
  case (KGetOrInsert k e)
  then show ?thesis using under_lock_ok [OF goi.under_lock [OF assms(1)]] by simp
next
  case (KIncr k n)
  then show ?thesis using sh_incr_int_is [OF assms(1), of now k n] by auto
next
  case (KSetExpiry k x)
  then show ?thesis using under_lock_ok [OF sete.under_lock [OF assms(1)]] by simp
next
  case (KRename k l)
  then show ?thesis using sh_rename_is [OF assms(1), of k l] by auto
next
  case (KRenameNx k l)
  obtain r s' m' where "sh_renamenx now k l s = Some (r, s')" "sharded_is clk s' m'"
    using sh_renamenx_is [OF assms(1), of now k l] by blast
  then show ?thesis using KRenameNx by auto
next
  case (KCopy k l r)
  then show ?thesis using sh_copy_entry_ok [OF assms(1), of now k l r] by auto
next
  case (KMset ps)
  show ?thesis
  proof (cases "ps = []")
    case True
    then show ?thesis using KMset assms(1) by (auto simp: sh_mset_def)
  next
    case False
    obtain ts si where "tag_and_sort_pairs srt (sh_num s) ps = (ts, si)" by force
    then show ?thesis using KMset sh_mset_upd [OF assms(1,3) _ False, of ts si] by auto
  qed
next
  case (KMsetNx ps)
  show ?thesis
  proof (cases "ps = []")
    case True
    then show ?thesis using KMsetNx assms(1) by (auto simp: sh_msetnx_def)
  next
    case False
    obtain ts si where "tag_and_sort_pairs srt (sh_num s) ps = (ts, si)" by force
    then obtain b s' m' where "sh_msetnx srt now ps s = Some (b, s')" "sharded_is clk s' m'"
      using sh_msetnx_upd [OF assms(1,3) _ False, of ts si now] by blast
    then show ?thesis using KMsetNx by auto
  qed
next
  case (KExpireBatch n)
  then show ?thesis using sh_expire_batch_is [OF assms(1), of now n] by auto
next
  case KExpireCycle
  then show ?thesis using sh_expire_cycle_is [OF assms(1), of now] by auto
next
  case (KKeys p)
  then show ?thesis using sh_keys_matching_is [OF assms(1,2), of now p] by auto
next
  case (KEvict policy)
  obtain r s' where e: "sh_evict_one ord now policy s = (r, s')" by force
  then show ?thesis using KEvict sh_evict_one_is [OF assms(1,2), of now policy] assms(1) by (cases r) auto
next
  case KFlush
  then show ?thesis using sh_flush_is [OF assms(1)] by auto
qed

lemma krun_ok:
  "sharded_is clk s m \<Longrightarrow> iter_laws ord \<Longrightarrow> sort_laws srt \<Longrightarrow> \<exists>s' m'. krun ord srt cs s = Some s' \<and> sharded_is clk s' m'"
proof (induction cs arbitrary: s m)
  case (Cons c cs)
  obtain now q where c: "c = (now, q)" by force
  obtain s1 m1 where "kexec ord srt now q s = Some s1" "sharded_is clk s1 m1" using kexec_ok [OF Cons.prems, of now q] by blast
  then show ?case using Cons.IH [of s1 m1] Cons.prems(2,3) c by auto
qed auto

lemma next_power: "\<exists>k. next_power_of_two_from (2 ^ j) n = 2 ^ k \<and> j \<le> k"
proof (induction "n - 2 ^ j" arbitrary: j rule: less_induct)
  case less
  show ?case
  proof (cases "n \<le> 2 ^ j")
    case False
    then have "n - 2 ^ Suc j < n - 2 ^ j" by (intro diff_less_mono2) simp_all
    from less [OF this] obtain k where "next_power_of_two_from (2 ^ Suc j) n = 2 ^ k" "Suc j \<le> k" by blast
    then show ?thesis using False by (subst next_power_of_two_from.simps) (auto intro!: exI [of _ k])
  qed (auto simp: next_power_of_two_from.simps)
qed

lemma shard_count_power: "\<exists>k. compute_num_shards cpus = 2 ^ k \<and> k < 64"
proof -
  obtain k where k: "next_power_of_two_from 1 (max cpus 64) = 2 ^ k" using next_power [of 0] by auto
  have "max (2 ^ k) 64 = (2 :: nat) ^ max k 6" using power_increasing_iff [of "2 :: nat" k 6] by (auto simp: max_def)
  moreover have "min (2 ^ j) 256 = (2 :: nat) ^ min j 8" for j
    using power_increasing_iff [of "2 :: nat" j 8] by (auto simp: min_def)
  ultimately have "compute_num_shards cpus = 2 ^ min (max k 6) 8" unfolding compute_num_shards_def k by simp
  then show ?thesis by (intro exI [of _ "min (max k 6) 8"]) simp
qed

text \<open>C10. Whatever sequence of keyspace operations a new database goes through, with whatever clock readings,
  on whatever number of processors, no operation panics, and afterwards the bookkeeping is exact: each
  shard holds the keys that hash to it, its expiry index lists exactly its keys with an expiry, every key
  has a version, the key count is the number of keys and the byte counter is the sum of the entry sizes.\<close>

theorem keyspace_invariant:
  assumes "iter_laws ord" and "sort_laws srt"
  shows "\<exists>s m. krun ord srt cs (sh_new (compute_num_shards cpus)) = Some s \<and> sharded_is 0 s m
    \<and> sh_len s = card (dom m) \<and> sh_live_bytes s = map_size m"
proof -
  obtain k where "compute_num_shards cpus = 2 ^ k" "k < 64" using shard_count_power by blast
  then have "sharded_is 0 (sh_new (compute_num_shards cpus)) Map.empty" using sh_new_is by simp
  from krun_ok [OF this assms] show ?thesis using sh_len_is sh_live_bytes_is by blast
qed

text \<open>An insertion sort on the shard index satisfies the law of the sort.\<close>

lemma sort_key_laws: "sort_laws (sort_key fst)"
  by (simp add: sort_laws_def)

lemma iter_id_laws: "iter_laws (\<lambda>x. x)"
  by (simp add: iter_laws_def)

theorem keyspace_invariant_witness:
  "\<exists>s m. krun (\<lambda>x. x) (sort_key fst) [(0, KSetPlain [1] [2]), (5, KExpireCycle), (6, KEvict AllKeysLru)]
      (sh_new (compute_num_shards 4)) = Some s
    \<and> sharded_is 0 s m \<and> sh_len s = card (dom m) \<and> sh_live_bytes s = map_size m"
  by (rule keyspace_invariant [OF iter_id_laws sort_key_laws])

section \<open>One key\<close>

text \<open>INCR on any key, through the lock-free fast path or the slow path: the reply is the sum, or the
  error for a value of another type, a string that is not an integer, or a sum that leaves 64 bits; an
  error changes nothing and success leaves an integer cell with the sum and keeps the expiry; other keys
  keep their entries.\<close>

theorem incr_correct:
  assumes "sharded_is clk s m"
  shows "\<exists>s' x. sh_incr_int now key delta s = Some (incr_spec (live_entry now (m key)) delta, s')
    \<and> sharded_is clk s' (m(key := x))
    \<and> (case incr_spec (live_entry now (m key)) delta of
         Inl _ \<Rightarrow> x = m key
       | Inr v \<Rightarrow> holds_int x v \<and> Option.bind x en_expiry = Option.bind (live_entry now (m key)) en_expiry)"
  by (rule sh_incr_int_is [OF assms])

theorem incr_correct_witness:
  "\<exists>s' x. sh_incr_int 7 [1] 5 (sh_new (2 ^ 6)) = Some (Inr 5, s') \<and> sharded_is 0 s' (Map.empty([1] := x)) \<and> holds_int x 5"
  using incr_correct [OF sh_new_is [of 6], of 7 "[1]" 5] by (simp add: incr_spec_def) blast

text \<open>SET then GET on one key at any later time: the value comes back, whatever the key held before,
  and it never expires.\<close>

theorem set_then_get:
  assumes "sharded_is clk s m"
  shows "\<exists>s1 s2 e. write_for k (\<lambda>d. ((), db_set_plain now k v d)) s = Some ((), s1)
    \<and> write_for k (db_get later k) s1 = Some (Some e, s2) \<and> en_value e = DString v
    \<and> sharded_is clk s2 (m(k \<mapsto> e))"
proof -
  obtain s1 where s1: "write_for k (\<lambda>d. ((), db_set_plain now k v d)) s = Some ((), s1)"
    "sharded_is clk s1 (m(k := plain_after now v clk (m k)))" using setp.under_lock [OF assms] by blast
  let ?e = "the (touched later clk (plain_after now v clk (m k)))"
  have t: "touched later clk (plain_after now v clk (m k)) = Some ?e" and v: "en_value ?e = DString v"
    by (simp_all add: touched_def plain_after_def entry_is_expired_def)
  obtain s2 where "write_for k (db_get later k) s1 = Some (Some ?e, s2)" "sharded_is clk s2 (m(k \<mapsto> ?e))"
    using get.under_lock [OF s1(2), of k later] t by (auto simp: fun_upd_upd)
  then show ?thesis using s1(1) v by blast
qed

theorem set_then_get_witness:
  "\<exists>s1 s2 e. write_for [1] (\<lambda>d. ((), db_set_plain 0 [1] [9, 9] d)) (sh_new (2 ^ 6)) = Some ((), s1)
    \<and> write_for [1] (db_get 1000 [1]) s1 = Some (Some e, s2) \<and> en_value e = DString [9, 9]
    \<and> sharded_is 0 s2 (Map.empty([1] \<mapsto> e))"
  by (rule set_then_get [OF sh_new_is]) simp

section \<open>Several keys\<close>

text \<open>RENAME moves the entry, expiry included, from one key to the other, over what that held, and fails
  without changing anything when the source is missing, whether or not the keys share a shard; RENAMENX
  does so only if the target is not live, and otherwise replies 0 and changes no value.\<close>

theorem rename_correct:
  assumes "sharded_is clk s m"
  shows "(\<exists>s'. sh_rename src dst s = Some (map_option (\<lambda>_. ()) (m src), s')
      \<and> sharded_is clk s' (case m src of None \<Rightarrow> m | Some e \<Rightarrow> (m(src := None))(dst \<mapsto> e)))
    \<and> (\<exists>s'. sh_renamenx now src dst s = Some (
          if live_entry now (m dst) \<noteq> None then Some 0 else map_option (\<lambda>_. 1) ((m(dst := None)) src), s')
      \<and> sharded_is clk s' (
          if live_entry now (m dst) \<noteq> None then m(dst := touched now clk (m dst))
          else case (m(dst := None)) src of None \<Rightarrow> m(dst := None) | Some e \<Rightarrow> (m(dst := None, src := None))(dst \<mapsto> e)))"
  by (rule conjI [OF sh_rename_is [OF assms] sh_renamenx_is [OF assms]])

theorem rename_correct_witness:
  "(\<exists>s'. sh_rename [1] [2] (sh_new (2 ^ 6)) = Some (None, s') \<and> sharded_is 0 s' Map.empty)
   \<and> (\<exists>s'. sh_renamenx 3 [1] [2] (sh_new (2 ^ 6)) = Some (None, s') \<and> sharded_is 0 s' Map.empty)"
proof -
  have "(Map.empty :: bytes \<rightharpoonup> entry)([2] := None) = Map.empty" by auto
  then show ?thesis using rename_correct [OF sh_new_is [of 6], of "[1]" "[2]" 3] by simp
qed

text \<open>MSET over any number of shards writes every pair, without a panic, whatever order the unstable sort
  leaves between pairs of one shard; MSETNX writes every pair if no key is live, and otherwise nothing.\<close>

theorem mset_correct:
  assumes "sharded_is clk s m" and "sort_laws srt" and "distinct (map fst pairs)" and "pairs \<noteq> []"
  shows "(\<exists>s'. sh_mset srt pairs s = Some s' \<and> sharded_is clk s' (m ++ map_of pairs))
    \<and> (let free = (\<forall>k \<in> fst ` set pairs. live_entry now (m k) = None) in
       \<exists>s'. sh_msetnx srt now pairs s = Some (free, s') \<and> sharded_is clk s' (if free then m ++ map_of pairs else m))"
proof -
  obtain ts si where t: "tag_and_sort_pairs srt (sh_num s) pairs = (ts, si)" by force
  have u: "upd_pairs ts m = m ++ map_of pairs"
    by (rule upd_pairs_map [OF assms(3) tagged_props(6) [OF assms(2) t]])
  show ?thesis unfolding Let_def
    using sh_mset_upd [OF assms(1,2) t assms(4)] sh_msetnx_upd [OF assms(1,2) t assms(4), of now] unfolding u by (rule conjI)
qed

theorem mset_correct_witness:
  "(\<exists>s'. sh_mset (sort_key fst) [([1], entry_new (DString [7])), ([2], entry_new (DString []))] (sh_new (2 ^ 6)) = Some s'
      \<and> sharded_is 0 s' (Map.empty ++ map_of [([1], entry_new (DString [7])), ([2], entry_new (DString []))]))
   \<and> (\<exists>s'. sh_msetnx (sort_key fst) 5 [([1], entry_new (DString [7])), ([2], entry_new (DString []))] (sh_new (2 ^ 6)) = Some (True, s')
      \<and> sharded_is 0 s' (Map.empty ++ map_of [([1], entry_new (DString [7])), ([2], entry_new (DString []))]))"
  using mset_correct [OF sh_new_is sort_key_laws, of 6 "[([1], entry_new (DString [7])), ([2], entry_new (DString []))]" 5]
  by (simp add: Let_def)

section \<open>The whole keyspace\<close>

text \<open>KEYS lists exactly the live keys that match the pattern, each once, and drops exactly the expired
  ones, whatever order the shards' tables iterate in.\<close>

theorem keys_correct:
  assumes "sharded_is clk s m" and "iter_laws ord"
  shows "\<exists>ks s'. sh_keys_matching ord now pattern s = (ks, s')
    \<and> set ks = {k. live_entry now (m k) \<noteq> None \<and> glob_match pattern k} \<and> distinct ks
    \<and> sharded_is clk s' (m |` (- expired_keys now m))"
  by (rule sh_keys_matching_is [OF assms])

theorem keys_correct_witness:
  "\<exists>ks s'. sh_keys_matching (\<lambda>x. x) 4 [0x2A] (sh_new (2 ^ 6)) = (ks, s') \<and> set ks = {}
    \<and> distinct ks \<and> sharded_is 0 s' (Map.empty |` (- expired_keys 4 Map.empty))"
  using keys_correct [OF sh_new_is iter_id_laws, of 6 4 "[0x2A]"] by simp

text \<open>C11. One cycle of active expiry removes only expired keys, reports exactly the keys it removed, and
  removes all of them when no shard has 3372 or more (the sum of the cycle's growing budgets).\<close>

theorem expire_cycle_correct:
  assumes "sharded_is clk s m"
  shows "\<exists>ks s'. sh_expire_cycle now s = (ks, s') \<and> set ks \<subseteq> expired_keys now m
    \<and> sharded_is clk s' (m |` (- set ks))
    \<and> ((\<forall>i < sh_num s. card (expired_keys now (part (sh_num s) i m)) < 3372) \<longrightarrow> set ks = expired_keys now m)"
  by (rule sh_expire_cycle_is [OF assms])

text \<open>A key that expired at 10, at time 11.\<close>

theorem expire_cycle_correct_witness:
  "\<exists>s ks s'. write_for [1] (\<lambda>d. ((), db_insert [1] (entry_with_expiry (DString [2]) 10) d)) (sh_new (2 ^ 6)) = Some ((), s)
    \<and> sh_expire_cycle 11 s = (ks, s') \<and> set ks = {[1]}"
proof -
  let ?m = "Map.empty([1] \<mapsto> entry_with_expiry (DString [2]) 10)"
  obtain s where s: "write_for [1] (\<lambda>d. ((), db_insert [1] (entry_with_expiry (DString [2]) 10) d)) (sh_new (2 ^ 6)) = Some ((), s)"
    "sharded_is 0 s ?m" using ins.under_lock [OF sh_new_is [of 6], of "[1]" "entry_with_expiry (DString [2]) 10"] by auto
  have e: "expired_keys 11 ?m = {[1]}"
    by (auto simp: expired_keys_def entry_is_expired_def entry_with_expiry_def expiry_is_expired_def)
  have "expired_keys 11 (part (sh_num s) i ?m) \<subseteq> {[1]}" for i
    unfolding e [symmetric] by (auto simp: expired_keys_def part_def restrict_map_def split: if_splits)
  then have "card (expired_keys 11 (part (sh_num s) i ?m)) < 3372" for i
    using card_mono [of "{[1]}" "expired_keys 11 (part (sh_num s) i ?m)"] by simp
  then show ?thesis using expire_cycle_correct [OF s(2), of 11] s(1) unfolding e by blast
qed

section \<open>Eviction\<close>

lemma expire_dbs_is:
  "dbs_are clk dbs ms \<Longrightarrow> \<exists>out dbs' ms'. expire_dbs (sh_expire_cycle now) i dbs = (out, dbs') \<and> length dbs' = length dbs
     \<and> dbs_are clk dbs' ms' \<and> (\<forall>j < length dbs. \<exists>A \<subseteq> expired_keys now (ms j). ms' j = ms j |` (- A))"
proof (induction dbs arbitrary: i ms)
  case (Cons s ss)
  from Cons.prems obtain ks s' where s: "sh_expire_cycle now s = (ks, s')" "set ks \<subseteq> expired_keys now (ms 0)"
    "sharded_is clk s' (ms 0 |` (- set ks))" using sh_expire_cycle_is [of clk s "ms 0" now] by auto
  obtain out dbs' ms' where ss: "expire_dbs (sh_expire_cycle now) (i + 1) ss = (out, dbs')" "length dbs' = length ss"
    "dbs_are clk dbs' ms'" "\<forall>j < length ss. \<exists>A \<subseteq> expired_keys now (ms (Suc j)). ms' j = ms (Suc j) |` (- A)"
    using Cons.IH [of "\<lambda>j. ms (Suc j)" "i + 1"] Cons.prems by auto
  let ?ms = "case_nat (ms 0 |` (- set ks)) ms'"
  have "\<forall>j < length (s # ss). \<exists>A \<subseteq> expired_keys now (ms j). ?ms j = ms j |` (- A)"
    using ss(4) s(2) by (auto simp: less_Suc_eq_0_disj)
  then show ?case using s ss(1-3) by (intro exI [of _ "map (Pair i) ks @ out"] exI [of _ "s' # dbs'"] exI [of _ ?ms]) auto
qed auto

lemma expired_not_pinned: "k \<in> expired_keys now m \<Longrightarrow> k \<notin> pinned policy m"
  by (auto simp: expired_keys_def pinned_def entry_is_expired_def split: option.splits)

lemma pinned_expire:
  assumes "A \<subseteq> expired_keys now m"
  shows "(m |` (- A)) |` pinned policy (m |` (- A)) = m |` pinned policy m"
  by (rule pinned_delete) (use assms expired_not_pinned in blast)

text \<open>The step before the loop: active expiry on every database.\<close>

lemma expire_before_evict:
  assumes "dbs_are clk (st_dbs st) ms"
  obtains dbs ms' where "snd (store_active_expire_cycle now st) = st\<lparr>st_dbs := dbs\<rparr>" and "length dbs = length (st_dbs st)"
    and "dbs_are clk dbs ms'" and "pinned_bytes policy (length dbs) ms' = pinned_bytes policy (length (st_dbs st)) ms"
    and "keys_in (length dbs) ms' \<le> keys_in (length (st_dbs st)) ms" and "\<forall>j < length dbs. ms' j \<subseteq>\<^sub>m ms j"
    and "\<forall>j < length dbs. ms' j |` pinned policy (ms' j) = ms j |` pinned policy (ms j)"
proof -
  obtain out dbs ms' where e: "expire_dbs (sh_expire_cycle now) 0 (st_dbs st) = (out, dbs)" "length dbs = length (st_dbs st)"
    "dbs_are clk dbs ms'" "\<forall>j < length (st_dbs st). \<exists>A \<subseteq> expired_keys now (ms j). ms' j = ms j |` (- A)"
    using expire_dbs_is [OF assms, of now 0] by blast
  have pin: "\<forall>j < length dbs. ms' j |` pinned policy (ms' j) = ms j |` pinned policy (ms j)"
    using e(2,4) pinned_expire by metis
  have "(m |` (- A)) \<subseteq>\<^sub>m m" for A and m :: "bytes \<rightharpoonup> entry" by (auto simp: map_le_def)
  then have le: "\<forall>j < length dbs. ms' j \<subseteq>\<^sub>m ms j" using e(2,4) by metis
  have fin: "finite (dom (ms j))" if "j < length dbs" for j
    using that assms e(2) parts_cover(3) by (auto simp: dbs_are_def)
  show ?thesis
  proof (rule that)
    show "snd (store_active_expire_cycle now st) = st\<lparr>st_dbs := dbs\<rparr>" by (simp add: store_active_expire_cycle_def e(1))
    show "pinned_bytes policy (length dbs) ms' = pinned_bytes policy (length (st_dbs st)) ms"
      unfolding pinned_bytes_def e(2) [symmetric] by (rule sum.cong) (use pin in auto)
    show "keys_in (length dbs) ms' \<le> keys_in (length (st_dbs st)) ms"
      unfolding keys_in_def e(2) [symmetric] by (rule sum_mono) (use le fin in \<open>auto intro!: card_mono map_le_implies_dom_le\<close>)
  qed (use e(2,3) pin le in auto)
qed


lemma store_new_are: "dbs_are 0 (st_dbs (store_new cpus n)) (\<lambda>_. Map.empty)"
proof -
  obtain k where "compute_num_shards cpus = 2 ^ k" "k < 64" using shard_count_power by blast
  then show ?thesis using sh_new_is by (simp add: dbs_are_def store_new_def)
qed


text \<open>C13. Eviction need not end: under a volatile policy, when the entries without an expiry alone exceed the limit,
  the loop is still running after any number of rounds, whatever the clock does.\<close>

theorem evict_never_ends:
  assumes "iter_laws ord" and "dbs_are clk (st_dbs st) ms" and "0 < limit" and "policy \<noteq> NoEviction"
    and "limit < pinned_bytes policy (length (st_dbs st)) ms"
  shows "store_evict_if_needed ord nows fuel policy limit st = None"
proof -
  obtain dbs ms1 where e: "snd (store_active_expire_cycle (nows 0) st) = st\<lparr>st_dbs := dbs\<rparr>" "length dbs = length (st_dbs st)"
    "dbs_are clk dbs ms1" "pinned_bytes policy (length dbs) ms1 = pinned_bytes policy (length (st_dbs st)) ms"
    by (rule expire_before_evict [OF assms(2), where now = "nows 0" and policy = policy])
  have "limit < pinned_bytes policy (length dbs) ms1" using assms(5) e(4) by simp
  moreover from this have "limit < dbs_memory dbs" using pinned_le_memory [OF e(3), of policy] by simp
  ultimately show ?thesis using assms(3,4) evict_loop_runs [OF assms(1) e(3), of limit policy nows fuel 0 "[]"]
    by (simp add: store_evict_if_needed_def Let_def e(1) store_estimated_memory_bytes_def)
qed

text \<open>One key without expiry, a limit of ten bytes, policy volatile-lru.\<close>

theorem evict_never_ends_witness:
  "\<exists>st. with_db 0 (write_for [1] (\<lambda>d. ((), db_insert [1] (entry_new (DString [2])) d))) (store_new 4 1) = Some ((), st)
    \<and> (\<forall>fuel. store_evict_if_needed (\<lambda>x. x) (\<lambda>i. i) fuel VolatileLru 10 st = None)"
proof -
  let ?e = "entry_new (DString [2])"
  let ?m = "Map.empty([1] \<mapsto> ?e)"
  obtain k where k: "compute_num_shards 4 = 2 ^ k" "k < 64" using shard_count_power by blast
  obtain s where s: "write_for [1] (\<lambda>d. ((), db_insert [1] ?e d)) (sh_new (2 ^ k)) = Some ((), s)" "sharded_is 0 s ?m"
    using ins.under_lock [OF sh_new_is [OF k(2)], of "[1]" ?e] by auto
  let ?st = "store_new 4 1\<lparr>st_dbs := [s]\<rparr>"
  have "with_db 0 (write_for [1] (\<lambda>d. ((), db_insert [1] ?e d))) (store_new 4 1) = Some ((), ?st)"
    using s(1) k(1) by (simp add: with_db_def db_slot_def store_new_def index_def)
  moreover have "dbs_are 0 (st_dbs ?st) (\<lambda>_. ?m)" using s(2) by simp
  moreover have "?m |` pinned VolatileLru ?m = ?m" by (auto simp: pinned_def entry_new_def restrict_map_def fun_eq_iff)
  then have "10 < pinned_bytes VolatileLru (length (st_dbs ?st)) (\<lambda>_. ?m)"
    by (simp add: pinned_bytes_def map_size_def estimate_entry_size_def)
  ultimately show ?thesis
    using evict_never_ends [OF iter_id_laws, of 0 ?st "\<lambda>_. ?m" 10 VolatileLru "\<lambda>i. i"] by (intro exI [of _ ?st]) simp
qed

end
