(* ===== verification/Scan.thy ===== *)
theory Scan
  imports Key_Ops
begin

text \<open>
  Cursor iteration: the order SCAN walks the keyspace in, one page of SCAN out of the shards
  (\<^verbatim>\<open>store.rs\<close>, \<^verbatim>\<open>scan_page\<close>), and one page of HSCAN, SSCAN and ZSCAN selected from a
  collection (\<^verbatim>\<open>command/mod.rs\<close>, \<^verbatim>\<open>scan_select_page\<close>). The contract of a page is a locale;
  that a walk through the pages visits everything exactly once is proved there and holds of both.
\<close>

section \<open>Order and cursors\<close>

definition scan_cursor_token :: "bytes \<Rightarrow> u64" where
  "scan_cursor_token key =
     (let h = fold (\<lambda>b h. (h XOR ucast b) * 0x100000001b3) key 0xcbf29ce484222325
      in if h < push_bit 32 1 then h + push_bit 32 1 else h)"

definition scan_order_key :: "bytes \<Rightarrow> u64" where
  "scan_order_key key = word_reverse (scan_cursor_token key)"

text \<open>\<^verbatim>\<open>str::trim\<close>: the UTF-8 encodings of the characters with the Unicode property White_Space are
  stripped at both ends.\<close>

definition white_spaces :: "bytes list" where
  "white_spaces =
     [[9], [10], [11], [12], [13], [32], [0xC2, 0x85], [0xC2, 0xA0], [0xE1, 0x9A, 0x80], [0xE2, 0x80, 0xA8], [0xE2, 0x80, 0xA9],
      [0xE2, 0x80, 0xAF], [0xE2, 0x81, 0x9F], [0xE3, 0x80, 0x80]] @ map (\<lambda>i. [0xE2, 0x80, 0x80 + of_nat i]) [0..<11]"

function strip_all :: "bytes list \<Rightarrow> bytes \<Rightarrow> bytes" where
  "strip_all ws bs = (case find (\<lambda>w. w \<noteq> [] \<and> take (length w) bs = w) ws of
     Some w \<Rightarrow> strip_all ws (drop (length w) bs)
   | None \<Rightarrow> bs)"
  by pat_completeness auto
termination
proof (relation "measure (\<lambda>(ws, bs). length bs)")
  fix ws :: "bytes list" and bs w
  assume "find (\<lambda>w. w \<noteq> [] \<and> take (length w) bs = w) ws = Some w"
  then have "w \<noteq> []" "take (length w) bs = w" by (auto simp: find_Some_iff)
  then have "bs \<noteq> []" "length w > 0" by auto
  then show "((ws, drop (length w) bs), (ws, bs)) \<in> measure (\<lambda>(ws, bs). length bs)" by simp
qed simp

declare strip_all.simps [simp del]

definition trim :: "bytes \<Rightarrow> bytes" where
  "trim bs = rev (strip_all (map rev white_spaces) (rev (strip_all white_spaces bs)))"

text \<open>\<^verbatim>\<open>token.trim().parse::<u64>()\<close>: an optional plus sign and decimal digits, within 64 bits.\<close>

definition decode_scan_cursor :: "bytes \<Rightarrow> u64 option" where
  "decode_scan_cursor token = (case parse_usize (trim token) of
     Some n \<Rightarrow> if n = 0 then None else Some (of_nat n)
   | None \<Rightarrow> None)"

section \<open>A page of the keyspace\<close>

function trailing_zeros :: "nat \<Rightarrow> nat" where
  "trailing_zeros n = (if n = 0 then 64 else if odd n then 0 else Suc (trailing_zeros (n div 2)))"
  by pat_completeness auto
termination
  by (relation "measure id") (auto elim: evenE)

declare trailing_zeros.simps [simp del]

definition shard_for_step :: "nat \<Rightarrow> nat \<Rightarrow> nat" where
  "shard_for_step shift step = unat (drop_bit (64 - shift) (word_reverse (of_nat step :: u64)))"

definition scan_batch :: "iter_order \<Rightarrow> nat \<Rightarrow> bytes \<Rightarrow> (bytes \<Rightarrow> u64) \<Rightarrow> (bytes \<Rightarrow> entry \<Rightarrow> bool) \<Rightarrow> u64 option \<Rightarrow> database
    \<Rightarrow> (u64 \<times> bytes) list" where
  "scan_batch ord now pattern order_key keep within d =
     sort (filter (\<lambda>(ok, _). case within of Some c \<Rightarrow> ok > c | None \<Rightarrow> True)
       (map (\<lambda>(k, _). (order_key k, k))
         (filter (\<lambda>(k, e). \<not> entry_is_expired now e \<and> glob_match pattern k \<and> keep k e) (ord (db_entries d)))))"

text \<open>Pushing a batch onto the page; the order key when the page is full.\<close>

fun fill_page :: "nat \<Rightarrow> bytes list \<Rightarrow> (u64 \<times> bytes) list \<Rightarrow> bytes list \<times> u64 option" where
  "fill_page cnt page [] = (page, None)"
| "fill_page cnt page ((ok, k) # batch) =
     (let page = page @ [k] in if length page = cnt then (page, Some ok) else fill_page cnt page batch)"

fun scan_steps :: "(u64 option \<Rightarrow> database \<Rightarrow> (u64 \<times> bytes) list) \<Rightarrow> nat \<Rightarrow> database list \<Rightarrow> nat list \<Rightarrow> u64 option
    \<Rightarrow> bytes list \<Rightarrow> (bytes list \<times> u64) option" where
  "scan_steps batch cnt shards [] within page = Some (page, 0)"
| "scan_steps batch cnt shards (idx # rest) within page = do {
     d \<leftarrow> index shards idx;
     case fill_page cnt page (batch within d) of
       (page, Some ok) \<Rightarrow> Some (page, ok)
     | (page, None) \<Rightarrow> scan_steps batch cnt shards rest None page
   }"

text \<open>A shift by all 64 bits (one shard) overflows.\<close>

definition sh_scan_page :: "iter_order \<Rightarrow> nat \<Rightarrow> u64 \<Rightarrow> nat \<Rightarrow> bytes \<Rightarrow> (bytes \<Rightarrow> u64) \<Rightarrow> (bytes \<Rightarrow> entry \<Rightarrow> bool) \<Rightarrow> sharded
    \<Rightarrow> (bytes list \<times> u64) option" where
  "sh_scan_page ord now cursor cnt pattern order_key keep s =
     (let cnt = max cnt 1; shift = trailing_zeros (sh_num s) in
      if shift = 0 then None
      else let start_step = (if cursor = 0 then 0 else unat (drop_bit (64 - shift) cursor)) in
        scan_steps (scan_batch ord now pattern order_key keep) cnt (sh_shards s)
          (map (shard_for_step shift) [start_step..<sh_num s]) (Some cursor) [])"

section \<open>A page of a collection\<close>

definition MAX_SCAN_PAGE :: nat where "MAX_SCAN_PAGE = 10000"

text \<open>The bounded max-heap is the ascending list of the candidates it holds: its root is the last one. A
  candidate is a token, the bytes compared and the item.\<close>

fun scan_heap :: "('a \<Rightarrow> bytes) \<Rightarrow> u64 option \<Rightarrow> nat \<Rightarrow> 'a list \<Rightarrow> ((u64 \<times> bytes) \<times> 'a) list \<Rightarrow> bool
    \<Rightarrow> ((u64 \<times> bytes) \<times> 'a) list \<times> bool" where
  "scan_heap elem cursor limit [] heap beyond = (heap, beyond)"
| "scan_heap elem cursor limit (x # xs) heap beyond =
     (let bs = elem x; token = scan_cursor_token bs in
      if (case cursor of Some c \<Rightarrow> token \<le> c | None \<Rightarrow> False) then scan_heap elem cursor limit xs heap beyond
      else if length heap < limit then scan_heap elem cursor limit xs (insort_key fst ((token, bs), x) heap) beyond
      else let ((rt, rb), _) = last heap in
        if token > rt \<or> token = rt \<and> bs > rb then scan_heap elem cursor limit xs heap True
        else scan_heap elem cursor limit xs (butlast (insort_key fst ((token, bs), x) heap)) True)"

definition scan_select_page :: "'a list \<Rightarrow> u64 option \<Rightarrow> nat \<Rightarrow> ('a \<Rightarrow> bytes) \<Rightarrow> 'a list \<times> u64" where
  "scan_select_page items cursor limit elem =
     (let limit = min limit MAX_SCAN_PAGE in
      if limit = 0 then ([], 0)
      else let (ordered, beyond) = scan_heap elem cursor limit items [] False in
        (map snd ordered, if ordered \<noteq> [] \<and> beyond then fst (fst (last ordered)) else 0))"

section \<open>The contract of a page\<close>

text \<open>Calling page after page until the cursor is zero again.\<close>

fun cursor_walk :: "(u64 \<Rightarrow> 'a list \<times> u64) \<Rightarrow> nat \<Rightarrow> u64 \<Rightarrow> 'a list option" where
  "cursor_walk page 0 c = None"
| "cursor_walk page (Suc fuel) c = (case page c of (xs, c') \<Rightarrow> if c' = 0 then Some xs else map_option (append xs) (cursor_walk page fuel c'))"

text \<open>\<open>page c\<close> is what the call with cursor \<open>c\<close> (zero to start) returns; \<open>items\<close> are the elements to be
  visited, in cursor order, with their positions \<open>pos\<close>.\<close>

locale cursor_pages =
  fixes page :: "u64 \<Rightarrow> 'a list \<times> u64"
    and pos :: "'a \<Rightarrow> u64"
    and items :: "'a list"
  assumes positions: "sorted_wrt (<) (map pos items)" "x \<in> set items \<Longrightarrow> pos x \<noteq> 0"
    and page_law: "\<exists>n > 0. fst (page c) = take n (filter (\<lambda>x. pos x > c) items)"
    and next_law: "(snd (page c) = 0 \<and> fst (page c) = filter (\<lambda>x. pos x > c) items)
      \<or> (fst (page c) \<noteq> [] \<and> snd (page c) = pos (last (fst (page c))))"
begin

lemma after_sorted:
  "sorted_wrt (<) (map pos (xs @ ys)) \<Longrightarrow> xs \<noteq> [] \<Longrightarrow> filter (\<lambda>x. pos x > pos (last xs)) (xs @ ys) = ys"
proof -
  assume s: "sorted_wrt (<) (map pos (xs @ ys))" "xs \<noteq> []"
  have "pos x \<le> pos (last xs)" if "x \<in> set xs" for x
  proof -
    have "xs = butlast xs @ [last xs]" using s(2) by simp
    then have "sorted_wrt (<) (map pos (butlast xs) @ [pos (last xs)])" "x \<in> set (butlast xs) \<or> x = last xs"
      using s(1) that by (metis list.simps(8,9) map_append sorted_wrt_append, metis Un_iff empty_iff insert_iff list.set(1,2) set_append)
    then show ?thesis by (auto simp: sorted_wrt_append intro: less_imp_le)
  qed
  then have "filter (\<lambda>x. pos x > pos (last xs)) xs = []" by (auto simp: filter_empty_conv not_less)
  moreover have "filter (\<lambda>x. pos x > pos (last xs)) ys = ys" using s by (auto simp: filter_id_conv sorted_wrt_append)
  ultimately show ?thesis by simp
qed

lemma filter_later: "filter (\<lambda>x. pos x > pos y) (filter (\<lambda>x. pos x > c) items) = filter (\<lambda>x. pos x > pos y) items"
  if "pos y > c" for y
  using that by (auto intro: filter_cong)

lemma walk_from:
  "length (filter (\<lambda>x. pos x > c) items) < fuel \<Longrightarrow> cursor_walk page fuel c = Some (filter (\<lambda>x. pos x > c) items)"
proof (induction fuel arbitrary: c)
  case (Suc fuel)
  let ?R = "filter (\<lambda>x. pos x > c) items"
  obtain xs c' where p: "page c = (xs, c')" by force
  obtain n where n: "n > 0" "xs = take n ?R" using page_law [of c] p by auto
  show ?case
  proof (cases "c' = 0")
    case True
    have "xs = ?R"
    proof (rule ccontr)
      assume "xs \<noteq> ?R"
      then have ne: "xs \<noteq> []" and z: "pos (last xs) = 0" using next_law [of c] p True by auto
      have "last xs \<in> set ?R" using n(2) ne by (metis in_set_takeD last_in_set)
      then show False using positions(2) z by auto
    qed
    then show ?thesis using p True by simp
  next
    case False
    then have ne: "xs \<noteq> []" and c': "c' = pos (last xs)" using next_law [of c] p by auto
    have R: "?R = xs @ drop n ?R" using n(2) by simp
    have "sorted_wrt (<) (map pos ?R)"
      using positions(1) by (auto simp: sorted_wrt_map sorted_wrt_filter)
    then have "filter (\<lambda>x. pos x > c') ?R = drop n ?R" using after_sorted [of xs "drop n ?R"] ne R c' by simp
    moreover have "last xs \<in> set ?R" using n(2) ne by (metis in_set_takeD last_in_set)
    then have "c' > c" using c' by simp
    ultimately have rest: "filter (\<lambda>x. pos x > c') items = drop n ?R" using filter_later [where y = "last xs"] c' by simp
    have "length (xs @ drop n ?R) = length xs + length (drop n ?R)" "length xs > 0" using ne by simp_all
    then have "length (drop n ?R) < fuel" using Suc.prems arg_cong [OF R, of length] by linarith
    then have "length (filter (\<lambda>x. pos x > c') items) < fuel" unfolding rest .
    then have "cursor_walk page fuel c' = Some (drop n ?R)" using Suc.IH [of c'] rest by simp
    then show ?thesis using p False R by simp
  qed
qed simp

lemma walk_complete: "cursor_walk page (Suc (length items)) 0 = Some items"
proof -
  have "filter (\<lambda>x. pos x > 0) items = items" using positions(2) by (auto simp: filter_id_conv word_gt_0)
  then show ?thesis using walk_from [of 0 "Suc (length items)"] by simp
qed

end

section \<open>SCAN walks the shards in cursor order\<close>

text \<open>The low bits of a token are those of the hash that picks the shard.\<close>

lemma token_hash: "scan_cursor_token k = (if fnv1a k < push_bit 32 1 then fnv1a k + push_bit 32 1 else fnv1a k)"
  by (simp add: scan_cursor_token_def fnv1a_def Let_def)

lemma token_shifted:
  assumes "fnv1a k < push_bit 32 1"
  shows "unat (fnv1a k + push_bit 32 1) = unat (fnv1a k) + 2 ^ 32"
proof -
  have "unat (fnv1a k) < 2 ^ 32" using assms by (simp add: word_less_nat_alt)
  then show ?thesis by (simp add: unat_word_ariths)
qed

lemma token_nonzero: "scan_cursor_token k \<noteq> 0"
proof (cases "fnv1a k < push_bit 32 1")
  case True
  then show ?thesis using token_shifted [OF True] by (auto simp: token_hash unat_eq_0 [symmetric])
next
  case False
  then show ?thesis by (auto simp: token_hash)
qed

lemma token_low:
  assumes "n \<le> 32"
  shows "take_bit n (scan_cursor_token k) = take_bit n (fnv1a k)"
proof (cases "fnv1a k < push_bit 32 1")
  case True
  have "take_bit n (2 ^ 32 :: nat) = 0"
    using le_imp_power_dvd [OF assms, of "2 :: nat"] unfolding take_bit_eq_mod by (simp only: dvd_eq_mod_eq_0)
  then have "take_bit n (unat (fnv1a k) + 2 ^ 32) = take_bit n (unat (fnv1a k))"
    using take_bit_add [of n "unat (fnv1a k)" "2 ^ 32"] by simp
  then have "unat (take_bit n (fnv1a k + push_bit 32 1)) = unat (take_bit n (fnv1a k))"
    unfolding unsigned_take_bit_eq token_shifted [OF True] .
  then have "take_bit n (fnv1a k + push_bit 32 1) = take_bit n (fnv1a k)" by (rule word_unat_eq_iff [THEN iffD2])
  then show ?thesis using True by (simp only: token_hash if_True)
qed (simp add: token_hash)

lemma order_key_pos: "scan_order_key k \<noteq> 0"
proof
  assume "scan_order_key k = 0"
  then have "word_reverse (scan_order_key k) = word_reverse 0" by simp
  moreover have "word_reverse (0 :: u64) = 0" by (rule bit_eqI) (simp add: bit_word_reverse_iff)
  ultimately show False using token_nonzero [of k] by (simp add: scan_order_key_def)
qed

text \<open>The step at which the walk reaches a position: its top bits.\<close>

definition step_of :: "nat \<Rightarrow> u64 \<Rightarrow> nat" where
  "step_of shift c = unat (drop_bit (64 - shift) c)"

lemma step_of_div: "step_of shift c = unat c div 2 ^ (64 - shift)"
  by (simp only: step_of_def unat_drop_bit_eq) (simp only: drop_bit_eq_div)

lemma step_of_mono: "c \<le> d \<Longrightarrow> step_of shift c \<le> step_of shift d"
  by (simp add: step_of_div div_le_mono word_le_nat_alt)

lemma step_of_less: "shift \<le> 64 \<Longrightarrow> step_of shift c < 2 ^ shift"
proof -
  assume "shift \<le> 64"
  moreover have "unat c < 2 ^ 64" using unsigned_less [of c] by simp
  ultimately have "unat c < 2 ^ shift * 2 ^ (64 - shift)" by (simp add: power_add [symmetric])
  then show ?thesis by (simp add: step_of_div less_mult_imp_div_less)
qed

lemma reverse_twice:
  fixes w :: u64
  assumes "shift \<le> 64"
  shows "drop_bit (64 - shift) (word_reverse (drop_bit (64 - shift) (word_reverse w))) = take_bit shift w"
  by (rule bit_eqI) (use assms in \<open>auto simp: bit_simps\<close>)

lemma shard_of_step:
  assumes "shift \<le> 32"
  shows "shard_for_step shift (step_of shift (scan_order_key k)) = shard_idx (2 ^ shift) k"
proof -
  have "(of_nat (2 ^ shift) :: u64) - 1 = mask shift" by (simp add: mask_eq_exp_minus_1)
  then have "shard_idx (2 ^ shift) k = unat (take_bit shift (fnv1a k))"
    by (simp add: shard_idx_def take_bit_eq_mask)
  also have "\<dots> = unat (take_bit shift (scan_cursor_token k))" using token_low [OF assms] by simp
  also have "\<dots> = shard_for_step shift (step_of shift (scan_order_key k))"
    using reverse_twice [of shift "scan_cursor_token k"] assms
    by (simp add: shard_for_step_def step_of_def scan_order_key_def)
  finally show ?thesis by simp
qed

lemma shard_for_step_inj:
  assumes "shift \<le> 64" and "a < 2 ^ shift" and "b < 2 ^ shift" and "shard_for_step shift a = shard_for_step shift b"
  shows "a = b"
proof -
  have id: "unat (take_bit shift (of_nat x :: u64)) = x" if "x < 2 ^ shift" for x
  proof -
    have "x < 2 ^ 64" using that assms(1) by (metis less_le_trans one_le_numeral power_increasing)
    then show ?thesis using that by (simp add: unsigned_take_bit_eq unat_of_nat take_bit_nat_eq_self)
  qed
  have "drop_bit (64 - shift) (word_reverse (of_nat a :: u64)) = drop_bit (64 - shift) (word_reverse (of_nat b))"
    using assms(4) unfolding shard_for_step_def by (rule word_unat_eq_iff [THEN iffD2])
  then have "take_bit shift (of_nat a :: u64) = take_bit shift (of_nat b)"
    using reverse_twice [OF assms(1), of "of_nat a"] reverse_twice [OF assms(1), of "of_nat b"] by simp
  then show ?thesis using id assms(2,3) by metis
qed

lemma shard_for_step_less: "shift \<le> 64 \<Longrightarrow> shard_for_step shift step < 2 ^ shift"
  using step_of_less [of shift "word_reverse (of_nat step)"] by (simp add: shard_for_step_def step_of_def)

lemma trailing_zeros_power: "trailing_zeros (2 ^ k) = k"
  by (induction k) (simp_all add: trailing_zeros.simps)

section \<open>What a page of SCAN holds\<close>

definition scan_visible :: "nat \<Rightarrow> bytes \<Rightarrow> (bytes \<Rightarrow> entry \<Rightarrow> bool) \<Rightarrow> (bytes \<rightharpoonup> entry) \<Rightarrow> bytes set" where
  "scan_visible now pattern keep m =
     {k. \<exists>e. m k = Some e \<and> \<not> entry_is_expired now e \<and> glob_match pattern k \<and> keep k e}"

text \<open>All visible keys in cursor order.\<close>

definition scan_listing :: "nat \<Rightarrow> bytes \<Rightarrow> (bytes \<Rightarrow> entry \<Rightarrow> bool) \<Rightarrow> (bytes \<rightharpoonup> entry) \<Rightarrow> (u64 \<times> bytes) list" where
  "scan_listing now pattern keep m = sorted_list_of_set ((\<lambda>k. (scan_order_key k, k)) ` scan_visible now pattern keep m)"

lemma scan_batch_props:
  assumes "db_is d m" and "iter_laws ord"
  shows "set (scan_batch ord now pattern scan_order_key keep within d) =
      {p \<in> (\<lambda>k. (scan_order_key k, k)) ` scan_visible now pattern keep m. case within of Some c \<Rightarrow> fst p > c | None \<Rightarrow> True}"
    and "sorted (scan_batch ord now pattern scan_order_key keep within d)"
    and "distinct (scan_batch ord now pattern scan_order_key keep within d)"
proof -
  let ?P = "\<lambda>(k, e). \<not> entry_is_expired now e \<and> glob_match pattern k \<and> keep k e"
  have items: "(k, e) \<in> set (ord (db_entries d)) \<longleftrightarrow> m k = Some e" for k e
    using iter_lawsD(1) [OF assms(2)] entries_graph [OF assms(1)] by simp
  have "(\<lambda>(k, _). (scan_order_key k, k)) ` set (filter ?P (ord (db_entries d)))
      = (\<lambda>k. (scan_order_key k, k)) ` scan_visible now pattern keep m"
    using items by (force simp: scan_visible_def image_iff)
  then show "set (scan_batch ord now pattern scan_order_key keep within d) =
      {p \<in> (\<lambda>k. (scan_order_key k, k)) ` scan_visible now pattern keep m. case within of Some c \<Rightarrow> fst p > c | None \<Rightarrow> True}"
    by (auto simp: scan_batch_def case_prod_beta)
  show "sorted (scan_batch ord now pattern scan_order_key keep within d)" by (simp add: scan_batch_def)
  have "mset (map fst (ord (db_entries d))) = mset (map fst (db_entries d))" using assms(2) by (simp add: iter_laws_def)
  then have "distinct (map fst (ord (db_entries d)))" using db_isD(2) [OF assms(1)] by (metis mset_eq_imp_distinct_iff)
  then have "distinct (map fst (filter ?P (ord (db_entries d))))" by (rule distinct_map_filter)
  then have "distinct (map (\<lambda>(k, _). (scan_order_key k, k)) (filter ?P (ord (db_entries d))))"
    by (auto simp: distinct_map inj_on_def)
  then show "distinct (scan_batch ord now pattern scan_order_key keep within d)" by (simp add: scan_batch_def)
qed

lemma fill_page_take:
  "length page < cnt \<Longrightarrow> fill_page cnt page batch = (page @ map snd (take (cnt - length page) batch),
     if cnt - length page \<le> length batch then Some (fst (batch ! (cnt - length page - 1))) else None)"
proof (induction batch arbitrary: page)
  case (Cons x batch)
  obtain ok k where x: "x = (ok, k)" by force
  show ?case
  proof (cases "length (page @ [k]) = cnt")
    case True
    then have "cnt - length page = 1" by simp
    then show ?thesis using True by (simp add: x Let_def)
  next
    case False
    then obtain n where n: "cnt - length page = Suc (Suc n)" using Cons.prems by (metis Suc_diff_Suc diff_is_0_eq' length_append_singleton less_imp_Suc_add not_less_eq_eq Suc_leI le_neq_implies_less)
    then have "cnt - length (page @ [k]) = Suc n" by simp
    then show ?thesis using Cons.IH [of "page @ [k]"] False Cons.prems n by (simp add: x Let_def)
  qed
qed simp

lemma scan_steps_take:
  assumes "\<forall>i \<in> set steps. i < length shards"
  shows "length page < cnt \<Longrightarrow> all = concat (case steps of [] \<Rightarrow> [] | i # is \<Rightarrow> batch within (shards ! i) # map (\<lambda>i. batch None (shards ! i)) is) \<Longrightarrow>
    scan_steps batch cnt shards steps within page = Some (page @ map snd (take (cnt - length page) all),
      if cnt - length page \<le> length all then fst (all ! (cnt - length page - 1)) else 0)"
  using assms
proof (induction steps arbitrary: within page all)
  case (Cons i steps)
  let ?b = "batch within (shards ! i)" and ?n = "cnt - length page"
  let ?rest = "concat (map (\<lambda>i. batch None (shards ! i)) steps)"
  have i: "index shards i = Some (shards ! i)" using Cons.prems(3) by (simp add: index_def)
  have all: "all = ?b @ ?rest" using Cons.prems(2) by simp
  show ?case
  proof (cases "?n \<le> length ?b")
    case True
    then have "?n - 1 < length ?b" using Cons.prems(1) by linarith
    then have "all ! (?n - 1) = ?b ! (?n - 1)" by (simp only: all nth_append if_True)
    then show ?thesis using i True fill_page_take [OF Cons.prems(1), of ?b] by (simp add: all)
  next
    case False
    let ?page = "page @ map snd ?b"
    have f: "fill_page cnt page ?b = (?page, None)" using fill_page_take [OF Cons.prems(1), of ?b] False by simp
    have len: "length ?page < cnt" using False by simp
    have "?rest = concat (case steps of [] \<Rightarrow> [] | i # is \<Rightarrow> batch None (shards ! i) # map (\<lambda>i. batch None (shards ! i)) is)"
      by (cases steps) simp_all
    note IH = Cons.IH [OF len this]
    have n: "cnt - length ?page = ?n - length ?b" by simp
    have "\<not> ?n - 1 < length ?b" using False by linarith
    then have "all ! (?n - 1) = ?rest ! (?n - 1 - length ?b)" by (simp only: all nth_append if_False)
    then have "?rest ! (?n - length ?b - 1) = all ! (?n - 1)" by (simp only: diff_commute)
    moreover have "(?n - length ?b \<le> length ?rest) = (?n \<le> length all)"
      unfolding all length_append using False by arith
    moreover have "take ?n all = ?b @ take (?n - length ?b) ?rest" using False by (simp add: all)
    ultimately show ?thesis using i f IH Cons.prems(3) unfolding n by simp
  qed
qed simp

lemma sorted_concat_steps:
  assumes "\<And>a. sorted (f a)" and "\<And>a. distinct (f a)"
    and "\<And>a x. i \<le> a \<Longrightarrow> a < n \<Longrightarrow> x \<in> set (f a) \<Longrightarrow> g x = a"
    and "\<And>x y. g x < (g y :: nat) \<Longrightarrow> x < (y :: 'a :: linorder)"
  shows "sorted (concat (map f [i..<n])) \<and> distinct (concat (map f [i..<n]))"
  using assms(3)
proof (induction "n - i" arbitrary: i)
  case (Suc k)
  then have i: "i < n" by simp
  have IH: "sorted (concat (map f [Suc i..<n])) \<and> distinct (concat (map f [Suc i..<n]))"
    using Suc.hyps(1) [of "Suc i"] Suc.hyps(2) Suc.prems by simp
  have "x < y" if x: "x \<in> set (f i)" and y: "y \<in> set (concat (map f [Suc i..<n]))" for x y
  proof -
    obtain a where a: "Suc i \<le> a" "a < n" "y \<in> set (f a)" using y by auto
    then have "g x = i" "g y = a" using Suc.prems i x by auto
    then show ?thesis using assms(4) a(1) by auto
  qed
  then show ?case using IH assms(1,2) i
    by (auto simp: upt_conv_Cons [OF i] sorted_append less_imp_le)
qed simp

lemma visible_part:
  "k \<in> scan_visible now pattern keep (part num i m) \<longleftrightarrow> k \<in> scan_visible now pattern keep m \<and> shard_idx num k = i"
  by (auto simp: scan_visible_def part_def restrict_map_def)

lemma finite_visible: "finite (dom m) \<Longrightarrow> finite (scan_visible now pattern keep m)"
  by (rule finite_subset [of _ "dom m"]) (auto simp: scan_visible_def)

text \<open>What the walk through the shards collects, batch after batch, is the listing beyond the cursor.\<close>

lemma scan_batches_listing:
  assumes "sharded_is clk s m" and "iter_laws ord" and "sh_num s = 2 ^ shift" and "0 < shift" and "shift \<le> 32"
    and "start = (if cursor = 0 then 0 else unat (drop_bit (64 - shift) cursor))"
  shows "concat (case map (shard_for_step shift) [start..<sh_num s] of [] \<Rightarrow> [] | i # is \<Rightarrow>
      scan_batch ord now pattern scan_order_key keep (Some cursor) (sh_shards s ! i)
        # map (\<lambda>i. scan_batch ord now pattern scan_order_key keep None (sh_shards s ! i)) is)
    = filter (\<lambda>p. fst p > cursor) (scan_listing now pattern keep m)"
proof -
  let ?K = "\<lambda>k. (scan_order_key k, k)" and ?V = "scan_visible now pattern keep m"
  let ?b = "\<lambda>a. scan_batch ord now pattern scan_order_key keep (if a = start then Some cursor else None)
    (sh_shards s ! shard_for_step shift a)"
  have start: "start = step_of shift cursor" using assms(6) by (simp add: step_of_def)
  have sh: "shift \<le> 64" using assms(5) by simp
  have lt: "start < sh_num s" unfolding start assms(3) by (rule step_of_less [OF sh])
  have form: "(case map (shard_for_step shift) [start..<sh_num s] of [] \<Rightarrow> [] | i # is \<Rightarrow>
      scan_batch ord now pattern scan_order_key keep (Some cursor) (sh_shards s ! i)
        # map (\<lambda>i. scan_batch ord now pattern scan_order_key keep None (sh_shards s ! i)) is) = map ?b [start..<sh_num s]"
    by (simp add: upt_conv_Cons [OF lt])
  have idx: "shard_for_step shift a < sh_num s" for a unfolding assms(3) by (rule shard_for_step_less [OF sh])
  note props = scan_batch_props [OF sharded_isD(2) [OF assms(1) idx] assms(2), where now = now and pattern = pattern and keep = keep]
  have step: "k \<in> scan_visible now pattern keep (part (sh_num s) (shard_for_step shift a) m)
      \<longleftrightarrow> k \<in> ?V \<and> step_of shift (scan_order_key k) = a" if "a < sh_num s" for k a
  proof -
    have "shard_idx (sh_num s) k = shard_for_step shift a \<longleftrightarrow> step_of shift (scan_order_key k) = a"
      using shard_of_step [OF assms(5), of k] shard_for_step_inj [OF sh step_of_less [OF sh], of a "scan_order_key k"] that
      unfolding assms(3) by metis
    then show ?thesis using visible_part by blast
  qed
  have sets: "set (?b a) = {p \<in> ?K ` ?V. step_of shift (fst p) = a \<and> (a = start \<longrightarrow> fst p > cursor)}" if "a < sh_num s" for a
    unfolding props(1) using step [OF that] by (cases "a = start") auto
  let ?all = "concat (map ?b [start..<sh_num s])"
  have "sorted ?all \<and> distinct ?all"
  proof (rule sorted_concat_steps [where g = "\<lambda>p. step_of shift (fst p)"])
    show "step_of shift (fst x) = a" if "start \<le> a" "a < sh_num s" "x \<in> set (?b a)" for a x
      using that(3) unfolding sets [OF that(2)] by simp
    show "x < y" if "step_of shift (fst x) < step_of shift (fst y)" for x y :: "u64 \<times> bytes"
      using that step_of_mono [of "fst y" "fst x" shift] by (auto simp: less_prod_def not_le [symmetric])
  qed (rule props)+
  moreover have "set ?all = {p \<in> ?K ` ?V. fst p > cursor}"
  proof -
    have "set ?all = {p \<in> ?K ` ?V. \<exists>a. start \<le> a \<and> a < sh_num s \<and> step_of shift (fst p) = a \<and> (a = start \<longrightarrow> fst p > cursor)}"
      using sets by auto
    also have "\<dots> = {p \<in> ?K ` ?V. fst p > cursor}"
    proof -
      have "(\<exists>a. start \<le> a \<and> a < sh_num s \<and> step_of shift c = a \<and> (a = start \<longrightarrow> c > cursor)) \<longleftrightarrow> c > cursor" for c
      proof
        assume "\<exists>a. start \<le> a \<and> a < sh_num s \<and> step_of shift c = a \<and> (a = start \<longrightarrow> c > cursor)"
        then show "c > cursor" using step_of_mono [of c cursor shift] start by (metis le_antisym not_le)
      next
        assume "c > cursor"
        then show "\<exists>a. start \<le> a \<and> a < sh_num s \<and> step_of shift c = a \<and> (a = start \<longrightarrow> c > cursor)"
          using step_of_mono [of cursor c shift] step_of_less [OF sh, of c] assms(3) start by auto
      qed
      then show ?thesis by simp
    qed
    finally show ?thesis .
  qed
  moreover have "finite (?K ` ?V)" using finite_visible [OF parts_cover(3) [OF assms(1)]] by simp
  then have "sorted (scan_listing now pattern keep m)" "distinct (scan_listing now pattern keep m)"
    "set (scan_listing now pattern keep m) = ?K ` ?V" by (simp_all add: scan_listing_def)
  ultimately show ?thesis unfolding form
    by (intro sorted_distinct_set_unique) (auto simp: sorted_filter [of "\<lambda>x. x", simplified])
qed

lemma sh_scan_page_is:
  assumes "sharded_is clk s m" and "iter_laws ord" and "sh_num s = 2 ^ shift" and "0 < shift" and "shift \<le> 32"
    and L_def: "L = filter (\<lambda>p. fst p > cursor) (scan_listing now pattern keep m)"
  shows "sh_scan_page ord now cursor cnt pattern scan_order_key keep s =
    Some (map snd (take (max cnt 1) L), if max cnt 1 \<le> length L then fst (L ! (max cnt 1 - 1)) else 0)"
proof -
  let ?start = "if cursor = 0 then 0 else unat (drop_bit (64 - shift) cursor)"
  have ok: "\<forall>i \<in> set (map (shard_for_step shift) [?start..<sh_num s]). i < length (sh_shards s)"
    using shard_for_step_less [of shift] assms(1,3,5) by (auto simp: sharded_is_def)
  have t: "trailing_zeros (sh_num s) = shift" by (simp add: assms(3) trailing_zeros_power)
  have "length ([] :: bytes list) < max cnt 1" by simp
  from scan_steps_take [OF ok this, OF refl, of "scan_batch ord now pattern scan_order_key keep" "Some cursor"]
  show ?thesis unfolding sh_scan_page_def Let_def t L_def
    scan_batches_listing [OF assms(1-5) refl, where cursor = cursor and now = now and pattern = pattern and keep = keep] using assms(4) by simp
qed

section \<open>A page of a collection is a page of its sorted listing\<close>

definition cand :: "('a \<Rightarrow> bytes) \<Rightarrow> 'a \<Rightarrow> (u64 \<times> bytes) \<times> 'a" where
  "cand elem x = ((scan_cursor_token (elem x), elem x), x)"

lemma insort_le: "sorted (map f L) \<Longrightarrow> \<forall>y \<in> set L. f x \<le> f y \<Longrightarrow> insort_key f x L = x # L"
  by (cases L) auto

text \<open>The best \<open>n\<close> after one more candidate.\<close>

lemma take_insort:
  assumes "sorted (map f L)" and "n \<le> length L" and "0 < n"
  shows "take n (insort_key f c L) = (if f c > f (last (take n L)) then take n L else butlast (insort_key f c (take n L)))"
  using assms
proof (induction L arbitrary: n)
  case (Cons y L)
  obtain k where n: "n = Suc k" using Cons.prems(3) by (cases n) auto
  show ?case
  proof (cases "f c \<le> f y")
    case True
    have "f y \<le> f (last (take n (y # L)))" using Cons.prems(1) last_in_set [of "take n (y # L)"] n
      by (auto simp: n dest!: in_set_takeD)
    then have "\<not> f c > f (last (take n (y # L)))" using True by simp
    moreover have "butlast (take n (y # L)) = take k (y # L)" using butlast_take [OF Cons.prems(2)] n by simp
    ultimately show ?thesis using True n by simp
  next
    case False
    show ?thesis
    proof (cases "k = 0")
      case True
      then show ?thesis using False n by simp
    next
      case k: False
      have l: "last (take n (y # L)) = last (take k L)" using k n Cons.prems(2) by (cases L) auto
      have "take k (insort_key f c L) = (if f c > f (last (take k L)) then take k L else butlast (insort_key f c (take k L)))"
        by (rule Cons.IH) (use Cons.prems n k in auto)
      moreover have "insort_key f c (take k L) \<noteq> []" by (cases "take k L") auto
      ultimately show ?thesis using False n l by simp
    qed
  qed
qed simp

lemma scan_heap_take:
  assumes "0 < limit"
  shows "sorted (map fst L) \<Longrightarrow> scan_heap elem cursor limit xs (take limit L) (limit < length L) =
    (let L' = fold (insort_key fst) (map (cand elem) (filter (\<lambda>x. case cursor of Some c \<Rightarrow> scan_cursor_token (elem x) > c | None \<Rightarrow> True) xs)) L
     in (take limit L', limit < length L'))"
proof (induction xs arbitrary: L)
  case (Cons x xs)
  let ?c = "cand elem x"
  show ?case
  proof (cases "case cursor of Some c \<Rightarrow> scan_cursor_token (elem x) > c | None \<Rightarrow> True")
    case False
    then show ?thesis using Cons.IH [OF Cons.prems] by (auto simp: not_less split: option.splits)
  next
    case True
    then have go: "\<not> (case cursor of Some c \<Rightarrow> scan_cursor_token (elem x) \<le> c | None \<Rightarrow> False)"
      by (auto split: option.splits)
    have srt: "sorted (map fst (insort_key fst ?c L))" using Cons.prems by (rule sorted_insort_key [THEN iffD2])
    have step: "scan_heap elem cursor limit (x # xs) (take limit L) (limit < length L) =
        scan_heap elem cursor limit xs (take limit (insort_key fst ?c L)) (limit < length (insort_key fst ?c L))"
    proof (cases "length L < limit")
      case True
      then show ?thesis using go by (simp add: cand_def Let_def)
    next
      case False
      then have le: "limit \<le> length L" by simp
      obtain rt rb ri where r: "last (take limit L) = ((rt, rb), ri)" by (metis surj_pair)
      have "fst ?c > fst (last (take limit L)) \<longleftrightarrow> scan_cursor_token (elem x) > rt \<or> scan_cursor_token (elem x) = rt \<and> elem x > rb"
        by (auto simp: r cand_def less_prod_def)
      then show ?thesis using go le take_insort [OF Cons.prems le assms, of ?c] r by (simp add: cand_def Let_def)
    qed
    show ?thesis unfolding step using Cons.IH [OF srt] True by simp
  qed
qed simp

lemma filter_fold_insort:
  "sorted (map f L) \<Longrightarrow> filter P (fold (insort_key f) cs L) = fold (insort_key f) (filter P cs) (filter P L)"
proof (induction cs arbitrary: L)
  case (Cons c cs)
  have "sorted (map f (insort_key f c L))" using Cons.prems by (rule sorted_insort_key [THEN iffD2])
  then show ?case using Cons.IH Cons.prems by (simp add: filter_insort filter_insort_triv)
qed simp

lemma fold_insort_props:
  "sorted (map f L) \<Longrightarrow> sorted (map f (fold (insort_key f) cs L))"
  "mset (fold (insort_key f) cs L) = mset cs + mset L"
  by (induction cs arbitrary: L) (simp_all add: sorted_insort_key)

lemma fold_insort_mset: "mset (fold (insort_key f) cs []) = mset cs"
  by (simp add: fold_insort_props(2))

lemma fold_insort_set: "set (fold (insort_key f) cs []) = set cs"
  by (rule mset_eq_setD [OF fold_insort_mset])

text \<open>The elements of a collection in cursor order.\<close>

definition token_listing :: "('a \<Rightarrow> bytes) \<Rightarrow> 'a list \<Rightarrow> 'a list" where
  "token_listing elem xs = map snd (fold (insort_key fst) (map (cand elem) xs) [])"

lemma token_listing_filter:
  "filter (\<lambda>x. P (scan_cursor_token (elem x))) (token_listing elem xs) = token_listing elem (filter (\<lambda>x. P (scan_cursor_token (elem x))) xs)"
proof -
  let ?Q = "\<lambda>c. P (scan_cursor_token (elem (snd c)))"
  have "filter (\<lambda>x. P (scan_cursor_token (elem x))) (token_listing elem xs)
      = map snd (filter ?Q (fold (insort_key fst) (map (cand elem) xs) []))"
    by (simp add: token_listing_def filter_map comp_def)
  also have "filter ?Q (fold (insort_key fst) (map (cand elem) xs) []) = fold (insort_key fst) (filter ?Q (map (cand elem) xs)) []"
    using filter_fold_insort [of fst "[]" ?Q "map (cand elem) xs"] by simp
  finally show ?thesis by (simp add: token_listing_def filter_map comp_def cand_def)
qed

lemma scan_select_page_is:
  assumes "0 < limit" and "R = (case cursor of Some c \<Rightarrow> filter (\<lambda>x. scan_cursor_token (elem x) > c) (token_listing elem xs)
      | None \<Rightarrow> token_listing elem xs)"
  shows "scan_select_page xs cursor limit elem = (take (min limit MAX_SCAN_PAGE) R,
    if min limit MAX_SCAN_PAGE < length R then scan_cursor_token (elem (last (take (min limit MAX_SCAN_PAGE) R))) else 0)"
proof -
  let ?n = "min limit MAX_SCAN_PAGE"
  let ?keep = "\<lambda>x. case cursor of Some c \<Rightarrow> scan_cursor_token (elem x) > c | None \<Rightarrow> True"
  let ?L = "fold (insort_key fst) (map (cand elem) (filter ?keep xs)) []"
  have n: "0 < ?n" using assms(1) by (simp add: MAX_SCAN_PAGE_def)
  have R: "R = map snd ?L"
    using assms(2) token_listing_filter [of "\<lambda>t. t > the cursor" elem xs] by (cases cursor) (simp_all add: token_listing_def)
  have "scan_heap elem cursor ?n xs [] False = (take ?n ?L, ?n < length ?L)"
    using scan_heap_take [OF n, of "[]" elem cursor xs] by (simp add: Let_def)
  moreover have "fst (fst (last (take ?n ?L))) = scan_cursor_token (elem (last (take ?n R)))" if "?n < length ?L"
  proof -
    have ne: "take ?n ?L \<noteq> []" using n that by auto
    have "last (take ?n ?L) \<in> set ?L" using last_in_set [OF ne] by (rule in_set_takeD)
    then obtain x where x: "last (take ?n ?L) = cand elem x"
      unfolding fold_insort_set by auto
    then have "last (take ?n R) = x" unfolding R take_map last_map [OF ne] by (simp add: cand_def)
    then show ?thesis by (simp add: x cand_def)
  qed
  ultimately show ?thesis using n by (auto simp: scan_select_page_def Let_def R take_map)
qed

section \<open>Walks\<close>

lemma distinct_positions:
  assumes "inj_on pos (set xs)" and "distinct xs" and "sorted (map pos xs)"
  shows "sorted_wrt (<) (map pos xs)"
  using assms by (simp add: strict_sorted_iff distinct_map)

text \<open>HSCAN, SSCAN and ZSCAN on a collection whose elements have different tokens.\<close>

definition tokens_differ :: "('a \<Rightarrow> bytes) \<Rightarrow> 'a list \<Rightarrow> bool" where
  "tokens_differ elem xs \<longleftrightarrow> distinct xs \<and> inj_on (\<lambda>x. scan_cursor_token (elem x)) (set xs)"

lemma token_listing_props:
  "mset (token_listing elem xs) = mset xs" "sorted (map (\<lambda>x. scan_cursor_token (elem x)) (token_listing elem xs))"
proof -
  let ?L = "fold (insort_key fst) (map (cand elem) xs) []"
  have m: "mset ?L = mset (map (cand elem) xs)" by (rule fold_insort_mset)
  have "mset (token_listing elem xs) = image_mset snd (mset (map (cand elem) xs))"
    unfolding token_listing_def mset_map [of snd] m ..
  also have "\<dots> = mset xs" by (induction xs) (simp_all add: cand_def)
  finally show "mset (token_listing elem xs) = mset xs" .
  have "set ?L = cand elem ` set xs" using mset_eq_setD [OF m] by simp
  then have c: "c = cand elem (snd c)" if "c \<in> set ?L" for c using that by (auto simp: cand_def)
  have "map (\<lambda>x. scan_cursor_token (elem x)) (token_listing elem xs) = map (\<lambda>c. fst (fst c)) ?L"
    unfolding token_listing_def map_map by (rule map_cong [OF refl]) (use c in \<open>force simp: cand_def\<close>)
  moreover have "sorted (map fst ?L)" by (rule fold_insort_props(1)) simp
  then have "sorted (map fst (map fst ?L))"
    unfolding sorted_wrt_map by (rule sorted_wrt_mono_rel [rotated]) (auto simp: less_eq_prod_def)
  ultimately show "sorted (map (\<lambda>x. scan_cursor_token (elem x)) (token_listing elem xs))" by (simp add: comp_def)
qed

text \<open>The pages one gets by calling with the previous cursor; a call that may not be made returns nothing.\<close>

definition select_pages :: "('a \<Rightarrow> bytes) \<Rightarrow> nat \<Rightarrow> 'a list \<Rightarrow> u64 \<Rightarrow> 'a list \<times> u64" where
  "select_pages elem limit xs c =
     (if tokens_differ elem xs \<and> 0 < limit then scan_select_page xs (if c = 0 then None else Some c) limit elem else ([], 0))"

definition select_items :: "('a \<Rightarrow> bytes) \<Rightarrow> nat \<Rightarrow> 'a list \<Rightarrow> 'a list" where
  "select_items elem limit xs = (if tokens_differ elem xs \<and> 0 < limit then token_listing elem xs else [])"

interpretation sel: cursor_pages "select_pages elem limit xs" "\<lambda>x. scan_cursor_token (elem x)" "select_items elem limit xs"
  for elem :: "'a \<Rightarrow> bytes" and limit xs
proof
  let ?L = "token_listing elem xs"
  have set: "set ?L = set xs" by (rule mset_eq_setD [OF token_listing_props(1)])
  show "sorted_wrt (<) (map (\<lambda>x. scan_cursor_token (elem x)) (select_items elem limit xs))"
  proof (cases "tokens_differ elem xs")
    case True
    then have "distinct ?L" "inj_on (\<lambda>x. scan_cursor_token (elem x)) (set ?L)"
      using mset_eq_imp_distinct_iff [OF token_listing_props(1) [of elem xs]] set by (auto simp: tokens_differ_def)
    then have "sorted_wrt (<) (map (\<lambda>x. scan_cursor_token (elem x)) ?L)"
      using distinct_positions [OF _ _ token_listing_props(2) [of elem xs]] by blast
    then show ?thesis by (simp add: select_items_def)
  qed (simp add: select_items_def)
  show "scan_cursor_token (elem x) \<noteq> 0" for x by (rule token_nonzero)
  fix c
  let ?R = "filter (\<lambda>x. scan_cursor_token (elem x) > c) ?L" and ?n = "min limit MAX_SCAN_PAGE"
  have R: "?R = (case (if c = 0 then None else Some c) of Some c \<Rightarrow> filter (\<lambda>x. scan_cursor_token (elem x) > c) ?L | None \<Rightarrow> ?L)"
    using token_nonzero by (auto simp: filter_id_conv word_gt_0)
  have pg: "scan_select_page xs (if c = 0 then None else Some c) limit elem
      = (take ?n ?R, if ?n < length ?R then scan_cursor_token (elem (last (take ?n ?R))) else 0)" if "0 < limit"
    by (rule scan_select_page_is [OF that R])
  show "\<exists>n > 0. fst (select_pages elem limit xs c) = take n (filter (\<lambda>x. scan_cursor_token (elem x) > c) (select_items elem limit xs))"
  proof (cases "tokens_differ elem xs \<and> 0 < limit")
    case True
    then show ?thesis using pg by (intro exI [of _ ?n]) (simp add: select_pages_def select_items_def MAX_SCAN_PAGE_def)
  qed (auto simp: select_pages_def select_items_def)
  show "(snd (select_pages elem limit xs c) = 0
        \<and> fst (select_pages elem limit xs c) = filter (\<lambda>x. scan_cursor_token (elem x) > c) (select_items elem limit xs))
      \<or> (fst (select_pages elem limit xs c) \<noteq> []
        \<and> snd (select_pages elem limit xs c) = scan_cursor_token (elem (last (fst (select_pages elem limit xs c)))))"
  proof (cases "tokens_differ elem xs \<and> 0 < limit")
    case True
    then have "select_pages elem limit xs c = (take ?n ?R, if ?n < length ?R then scan_cursor_token (elem (last (take ?n ?R))) else 0)"
      "select_items elem limit xs = ?L" "0 < ?n" using pg by (simp_all add: select_pages_def select_items_def MAX_SCAN_PAGE_def)
    then show ?thesis by (cases "?n < length ?R") auto
  next
    case False
    then have "select_pages elem limit xs c = ([], 0)" "select_items elem limit xs = []"
      unfolding select_pages_def select_items_def by (simp_all only: if_False)
    then show ?thesis by simp
  qed
qed

text \<open>SCAN on a keyspace whose visible keys have different order keys.\<close>

definition scan_ready :: "nat \<Rightarrow> iter_order \<Rightarrow> nat \<Rightarrow> bytes \<Rightarrow> (bytes \<Rightarrow> entry \<Rightarrow> bool) \<Rightarrow> sharded \<Rightarrow> (bytes \<rightharpoonup> entry) \<Rightarrow> bool" where
  "scan_ready shift ord now pattern keep s m \<longleftrightarrow> (\<exists>clk. sharded_is clk s m) \<and> iter_laws ord \<and> sh_num s = 2 ^ shift
     \<and> 0 < shift \<and> shift \<le> 32 \<and> inj_on scan_order_key (scan_visible now pattern keep m)"

definition scan_pages :: "nat \<Rightarrow> iter_order \<Rightarrow> nat \<Rightarrow> nat \<Rightarrow> bytes \<Rightarrow> (bytes \<Rightarrow> entry \<Rightarrow> bool) \<Rightarrow> sharded \<Rightarrow> (bytes \<rightharpoonup> entry)
    \<Rightarrow> u64 \<Rightarrow> bytes list \<times> u64" where
  "scan_pages shift ord now cnt pattern keep s m c =
     (if scan_ready shift ord now pattern keep s m
      then (case sh_scan_page ord now c cnt pattern scan_order_key keep s of Some r \<Rightarrow> r | None \<Rightarrow> ([], 0)) else ([], 0))"

definition scan_items :: "nat \<Rightarrow> iter_order \<Rightarrow> nat \<Rightarrow> bytes \<Rightarrow> (bytes \<Rightarrow> entry \<Rightarrow> bool) \<Rightarrow> sharded \<Rightarrow> (bytes \<rightharpoonup> entry) \<Rightarrow> bytes list" where
  "scan_items shift ord now pattern keep s m =
     (if scan_ready shift ord now pattern keep s m then map snd (scan_listing now pattern keep m) else [])"

lemma scan_listing_props:
  assumes "finite (dom m)"
  shows "set (scan_listing now pattern keep m) = (\<lambda>k. (scan_order_key k, k)) ` scan_visible now pattern keep m"
    and "map fst (scan_listing now pattern keep m) = map scan_order_key (map snd (scan_listing now pattern keep m))"
    and "distinct (map snd (scan_listing now pattern keep m))" and "sorted (map fst (scan_listing now pattern keep m))"
    and "map snd (filter (\<lambda>p. fst p > c) (scan_listing now pattern keep m)) =
      filter (\<lambda>k. scan_order_key k > c) (map snd (scan_listing now pattern keep m))"
proof -
  let ?L = "scan_listing now pattern keep m"
  have fin: "finite ((\<lambda>k. (scan_order_key k, k)) ` scan_visible now pattern keep m)" using finite_visible [OF assms] by simp
  then show set: "set ?L = (\<lambda>k. (scan_order_key k, k)) ` scan_visible now pattern keep m" by (simp add: scan_listing_def)
  then have p: "fst p = scan_order_key (snd p)" if "p \<in> set ?L" for p using that by auto
  show "map fst ?L = map scan_order_key (map snd ?L)" using p by simp
  have "distinct ?L" "sorted ?L" by (simp_all add: scan_listing_def)
  then show "distinct (map snd ?L)" using set by (auto simp: distinct_map inj_on_def)
  show "sorted (map fst ?L)" using \<open>sorted ?L\<close>
    unfolding sorted_wrt_map by (rule sorted_wrt_mono_rel [rotated]) (auto simp: less_eq_prod_def)
  show "map snd (filter (\<lambda>p. fst p > c) ?L) = filter (\<lambda>k. scan_order_key k > c) (map snd ?L)"
    unfolding filter_map using p by (auto simp: comp_def intro!: arg_cong [of _ _ "map snd"] filter_cong)
qed

lemma scan_ready_page:
  assumes "scan_ready shift ord now pattern keep s m"
  shows "\<exists>n > 0. let R = filter (\<lambda>k. scan_order_key k > c) (scan_items shift ord now pattern keep s m) in
    sh_scan_page ord now c cnt pattern scan_order_key keep s =
      Some (take n R, if n \<le> length R then scan_order_key (last (take n R)) else 0)"
proof -
  obtain clk where r: "sharded_is clk s m" "iter_laws ord" "sh_num s = 2 ^ shift" "0 < shift" "shift \<le> 32"
    using assms by (auto simp: scan_ready_def)
  let ?L = "filter (\<lambda>p. fst p > c) (scan_listing now pattern keep m)"
  let ?R = "filter (\<lambda>k. scan_order_key k > c) (map snd (scan_listing now pattern keep m))"
  let ?n = "max cnt 1"
  note fin = parts_cover(3) [OF r(1)]
  have R: "map snd ?L = ?R" by (rule scan_listing_props(5) [OF fin])
  have "fst (?L ! (?n - 1)) = scan_order_key (last (take ?n ?R))" if n: "?n \<le> length ?L"
  proof -
    have lt: "?n - 1 < length ?L" using n by linarith
    have "take ?n ?L \<noteq> []" using lt by auto
    then have "last (take ?n ?L) = ?L ! (?n - 1)" using n by (simp add: last_conv_nth)
    then have "last (take ?n ?R) = snd (?L ! (?n - 1))" unfolding R [symmetric] take_map using \<open>take ?n ?L \<noteq> []\<close> by (simp add: last_map)
    moreover have "?L ! (?n - 1) \<in> set (scan_listing now pattern keep m)" using nth_mem [OF lt] by simp
    ultimately show ?thesis using scan_listing_props(1) [OF fin] by auto
  qed
  moreover have "length ?L = length ?R" unfolding R [symmetric] by simp
  ultimately have "sh_scan_page ord now c cnt pattern scan_order_key keep s =
      Some (take ?n ?R, if ?n \<le> length ?R then scan_order_key (last (take ?n ?R)) else 0)"
    unfolding sh_scan_page_is [OF r refl] take_map [symmetric] R by simp
  then show ?thesis using assms by (intro exI [of _ ?n]) (simp add: Let_def scan_items_def)
qed

interpretation scn: cursor_pages "scan_pages shift ord now cnt pattern keep s m" scan_order_key "scan_items shift ord now pattern keep s m"
  for shift ord now cnt pattern keep s m
proof
  show "sorted_wrt (<) (map scan_order_key (scan_items shift ord now pattern keep s m))"
  proof (cases "scan_ready shift ord now pattern keep s m")
    case True
    then obtain clk where "sharded_is clk s m" "inj_on scan_order_key (scan_visible now pattern keep m)" by (auto simp: scan_ready_def)
    moreover note p = scan_listing_props [OF parts_cover(3) [OF \<open>sharded_is clk s m\<close>], where now = now and pattern = pattern and keep = keep]
    have "set (map snd (scan_listing now pattern keep m)) = scan_visible now pattern keep m" using p(1) by force
    moreover have "sorted (map scan_order_key (map snd (scan_listing now pattern keep m)))" using p(4) unfolding p(2) .
    ultimately have "sorted_wrt (<) (map scan_order_key (map snd (scan_listing now pattern keep m)))"
      using p(3) by (intro distinct_positions) simp_all
    then show ?thesis using True by (simp add: scan_items_def)
  qed (simp add: scan_items_def)
  show "scan_order_key x \<noteq> 0" for x by (rule order_key_pos)
  fix c
  let ?R = "filter (\<lambda>k. scan_order_key k > c) (scan_items shift ord now pattern keep s m)"
  show "\<exists>n > 0. fst (scan_pages shift ord now cnt pattern keep s m c) = take n ?R"
  proof (cases "scan_ready shift ord now pattern keep s m")
    case True
    then show ?thesis using scan_ready_page [OF True, of c cnt] by (auto simp: scan_pages_def Let_def)
  qed (auto simp: scan_pages_def scan_items_def)
  show "(snd (scan_pages shift ord now cnt pattern keep s m c) = 0 \<and> fst (scan_pages shift ord now cnt pattern keep s m c) = ?R)
      \<or> (fst (scan_pages shift ord now cnt pattern keep s m c) \<noteq> []
        \<and> snd (scan_pages shift ord now cnt pattern keep s m c) = scan_order_key (last (fst (scan_pages shift ord now cnt pattern keep s m c))))"
  proof (cases "scan_ready shift ord now pattern keep s m")
    case True
    obtain n where n: "n > 0" "scan_pages shift ord now cnt pattern keep s m c = (take n ?R, if n \<le> length ?R then scan_order_key (last (take n ?R)) else 0)"
      using scan_ready_page [OF True, of c cnt] True by (auto simp: scan_pages_def Let_def)
    show ?thesis
    proof (cases "n \<le> length ?R")
      case True
      moreover from this n(1) have "take n ?R \<noteq> []" by auto
      ultimately show ?thesis using n(2) by simp
    qed (use n(2) in simp)
  qed (auto simp: scan_pages_def scan_items_def)
qed

section \<open>Properties\<close>

text \<open>C37. Calling SCAN with the cursor it last returned, from 0 until it returns 0, ends after at most one call
  per visible key and one more, and has then returned every live key that matches exactly once, for any
  COUNT, pattern and type filter and any power-of-two number of shards, as long as no two visible keys
  have the same 64-bit token.\<close>

theorem scan_complete:
  assumes "sharded_is clk s m" and "iter_laws ord" and "sh_num s = 2 ^ shift" and "0 < shift" and "shift \<le> 32"
    and "inj_on scan_order_key (scan_visible now pattern keep m)"
  shows "\<exists>ks. cursor_walk (\<lambda>c. the (sh_scan_page ord now c cnt pattern scan_order_key keep s))
        (Suc (card (scan_visible now pattern keep m))) 0 = Some ks
    \<and> distinct ks \<and> set ks = {k. \<exists>e. live_entry now (m k) = Some e \<and> glob_match pattern k \<and> keep k e}
    \<and> (\<forall>c. sh_scan_page ord now c cnt pattern scan_order_key keep s \<noteq> None)"
proof -
  have r: "scan_ready shift ord now pattern keep s m" using assms by (auto simp: scan_ready_def)
  let ?L = "scan_listing now pattern keep m"
  note p = scan_listing_props [OF parts_cover(3) [OF assms(1)], where now = now and pattern = pattern and keep = keep]
  have some: "\<exists>x. sh_scan_page ord now c cnt pattern scan_order_key keep s = Some x" for c
    using scan_ready_page [OF r, of c cnt] by (auto simp: Let_def)
  have pages: "scan_pages shift ord now cnt pattern keep s m = (\<lambda>c. the (sh_scan_page ord now c cnt pattern scan_order_key keep s))"
  proof
    fix c
    obtain x where "sh_scan_page ord now c cnt pattern scan_order_key keep s = Some x" using some by blast
    then show "scan_pages shift ord now cnt pattern keep s m c = the (sh_scan_page ord now c cnt pattern scan_order_key keep s)"
      using r by (simp add: scan_pages_def)
  qed
  have set: "set (map snd ?L) = scan_visible now pattern keep m" using p(1) by force
  have items: "scan_items shift ord now pattern keep s m = map snd ?L" using r by (simp add: scan_items_def)
  have len: "length (map snd ?L) = card (scan_visible now pattern keep m)" using distinct_card [OF p(3)] unfolding set by simp
  have "scan_visible now pattern keep m = {k. \<exists>e. live_entry now (m k) = Some e \<and> glob_match pattern k \<and> keep k e}"
    by (auto simp: scan_visible_def live_entry_def split: option.splits if_splits)
  then show ?thesis
    using scn.walk_complete [of shift ord now cnt pattern keep s m] p(3) some unfolding items pages len set [symmetric]
    by (intro exI [of _ "map snd ?L"]) auto
qed

theorem scan_complete_witness:
  "\<exists>s. sharded_is 0 s [[7] \<mapsto> entry_new (DString [1])]
    \<and> cursor_walk (\<lambda>c. the (sh_scan_page (\<lambda>x. x) 0 c 10 [0x2A] scan_order_key (\<lambda>_ _. True) s)) 2 0 = Some [[7]]"
proof -
  let ?e = "entry_new (DString [1])" and ?k = "[7] :: bytes"
  have s0: "sharded_is 0 (sh_new (2 ^ 6)) Map.empty" by (rule sh_new_is) simp
  from ins.under_lock [OF s0, of ?k ?e] obtain s where
    w: "write_for ?k (\<lambda>d. ((), db_insert ?k ?e d)) (sh_new (2 ^ 6)) = Some ((), s)" and s: "sharded_is 0 s [?k \<mapsto> ?e]"
    by blast
  from w have n: "sh_num s = 2 ^ 6" unfolding write_for_def by (drule_tac write_for_length) (simp add: sh_new_def)
  have i: "iter_laws (\<lambda>x. x)" by (simp add: iter_laws_def)
  have g: "glob_match [0x2A] [7]" by code_simp
  have v: "scan_visible 0 [0x2A] (\<lambda>_ _. True) [?k \<mapsto> ?e] = {?k}"
    using g by (auto simp: scan_visible_def live_entry_def entry_new_def entry_is_expired_def)
  have l: "{k. \<exists>e. live_entry 0 ([?k \<mapsto> ?e] k) = Some e \<and> glob_match [0x2A] k \<and> True} = {?k}"
    using g by (auto simp: live_entry_def entry_new_def entry_is_expired_def split: if_splits)
  have "\<exists>ks. cursor_walk (\<lambda>c. the (sh_scan_page (\<lambda>x. x) 0 c 10 [0x2A] scan_order_key (\<lambda>_ _. True) s)) 2 0 = Some ks
      \<and> distinct ks \<and> set ks = {?k}"
    using scan_complete [OF s i n, of 0 "[0x2A]" "\<lambda>_ _. True" 10] unfolding v l by (auto simp: numeral_2_eq_2 simp del: cursor_walk.simps)
  then obtain ks where ks: "cursor_walk (\<lambda>c. the (sh_scan_page (\<lambda>x. x) 0 c 10 [0x2A] scan_order_key (\<lambda>_ _. True) s)) 2 0 = Some ks"
    "distinct ks" "set ks = {?k}" by blast
  then have "length ks = 1" using distinct_card [of ks] by simp
  then have "ks = [?k]" using ks(3) by (cases ks) auto
  then show ?thesis using s ks(1) by blast
qed

text \<open>C38. HSCAN, SSCAN and ZSCAN: calling with the cursor last returned, from 0 until 0, on a collection whose
  elements have different tokens, ends after at most one call per element and one more and returns every
  element exactly once, for any COUNT, although no page sorts the collection.\<close>

theorem select_scan_complete:
  assumes "tokens_differ elem xs" and "0 < limit"
  shows "\<exists>ys. cursor_walk (\<lambda>c. scan_select_page xs (if c = 0 then None else Some c) limit elem) (Suc (length xs)) 0 = Some ys
    \<and> mset ys = mset xs"
proof -
  have "select_pages elem limit xs = (\<lambda>c. scan_select_page xs (if c = 0 then None else Some c) limit elem)"
    "select_items elem limit xs = token_listing elem xs" using assms by (simp_all add: select_pages_def select_items_def fun_eq_iff)
  moreover have "length (token_listing elem xs) = length xs" by (rule mset_eq_length [OF token_listing_props(1)])
  ultimately show ?thesis using sel.walk_complete [of elem limit xs] token_listing_props(1) by metis
qed

theorem select_scan_complete_witness:
  "\<exists>ys. cursor_walk (\<lambda>c. scan_select_page [[1], [2 :: u8]] (if c = 0 then None else Some c) 1 (\<lambda>x. x)) (Suc (length [[1], [2 :: u8]])) 0 = Some ys
    \<and> mset ys = mset [[1], [2]]"
proof (rule select_scan_complete)
  show "tokens_differ (\<lambda>x. x) [[1], [2 :: u8]]"
    by (simp add: tokens_differ_def scan_cursor_token_def word_less_nat_alt)
qed simp

end
