(* ===== verification/Handlers.thy ===== *)
theory Handlers
  imports Key_Ops Resp
begin

text \<open>
  What the command handlers share: the argument accessors of \<^verbatim>\<open>command/mod.rs\<close>, the state a handler
  runs on (the selected database and the wake-ups it has sent to blocked clients), the
  patterns by which a handler edits the value of one key under its shard's lock, and what those patterns
  do to the abstract keyspace, in which a key holds a list, a set, a map and not one of its encodings.

  A handler returns \<^const>\<open>None\<close> when the code panics, and otherwise its result and the new state.
\<close>

section \<open>Arguments\<close>

type_synonym 'r result = "nexrade_error + 'r"

text \<open>The command names are ASCII literals.\<close>

definition to_lowercase :: "bytes \<Rightarrow> bytes" where
  "to_lowercase = map (\<lambda>b. if 0x41 \<le> b \<and> b \<le> 0x5A then b + 0x20 else b)"

definition to_ascii_uppercase :: "bytes \<Rightarrow> bytes" where
  "to_ascii_uppercase = map (\<lambda>b. if 0x61 \<le> b \<and> b \<le> 0x7A then b - 0x20 else b)"

text \<open>\<^verbatim>\<open>str::to_uppercase\<close>, compared with ASCII literals only: the characters outside ASCII whose upper case is
  ASCII are mapped, every other one is kept (its upper case is outside ASCII too).\<close>

definition wide_upper :: "(bytes \<times> bytes) list" where
  "wide_upper =
     [([0xC4, 0xB1], asc ''I''), ([0xC5, 0xBF], asc ''S''), ([0xC3, 0x9F], asc ''SS''), ([0xEF, 0xAC, 0x80], asc ''FF''),
      ([0xEF, 0xAC, 0x81], asc ''FI''), ([0xEF, 0xAC, 0x82], asc ''FL''), ([0xEF, 0xAC, 0x83], asc ''FFI''),
      ([0xEF, 0xAC, 0x84], asc ''FFL''), ([0xEF, 0xAC, 0x85], asc ''ST''), ([0xEF, 0xAC, 0x86], asc ''ST'')]"

fun to_uppercase :: "bytes \<Rightarrow> bytes" where
  "to_uppercase (a # b # c # bs) = (case map_of wide_upper [a, b] of Some u \<Rightarrow> u @ to_uppercase (c # bs)
     | None \<Rightarrow> (case map_of wide_upper [a, b, c] of Some u \<Rightarrow> u @ to_uppercase bs
       | None \<Rightarrow> to_ascii_uppercase [a] @ to_uppercase (b # c # bs)))"
| "to_uppercase [a, b] = (case map_of wide_upper [a, b] of Some u \<Rightarrow> u | None \<Rightarrow> to_ascii_uppercase [a, b])"
| "to_uppercase bs = to_ascii_uppercase bs"

definition eq_ignore_ascii_case :: "bytes \<Rightarrow> bytes \<Rightarrow> bool" where
  "eq_ignore_ascii_case a b \<longleftrightarrow> to_ascii_uppercase a = to_ascii_uppercase b"

abbreviation arg :: "resp list \<Rightarrow> nat \<Rightarrow> (resp \<Rightarrow> 'a option) \<Rightarrow> 'a option" where
  "arg args i f \<equiv> Option.bind (index args i) f"

definition ok_or_arity :: "'a option \<Rightarrow> bytes \<Rightarrow> 'a result" where
  "ok_or_arity x cmd = (case x of Some v \<Rightarrow> Inr v | None \<Rightarrow> Inl (WrongArity (to_lowercase cmd)))"

definition get_str :: "resp list \<Rightarrow> nat \<Rightarrow> bytes \<Rightarrow> bytes result" where
  "get_str args i cmd = ok_or_arity (arg args i resp_as_str) cmd"

definition get_bytes :: "resp list \<Rightarrow> nat \<Rightarrow> bytes \<Rightarrow> bytes result" where
  "get_bytes args i cmd = ok_or_arity (arg args i resp_as_bytes) cmd"

fun bulk_or_simple :: "resp \<Rightarrow> bytes option" where
  "bulk_or_simple (BulkString (Some b)) = Some b"
| "bulk_or_simple (SimpleString s) = Some s"
| "bulk_or_simple _ = None"

definition get_bytes_vec :: "resp list \<Rightarrow> nat \<Rightarrow> bytes \<Rightarrow> bytes result" where
  "get_bytes_vec args i cmd = ok_or_arity (arg args i bulk_or_simple) cmd"

definition get_i64 :: "resp list \<Rightarrow> nat \<Rightarrow> bytes \<Rightarrow> int result" where
  "get_i64 args i cmd = (case get_str args i cmd of
     Inl e \<Rightarrow> Inl e
   | Inr s \<Rightarrow> (case parse_i64 s of Some n \<Rightarrow> Inr n | None \<Rightarrow> Inl NotInteger))"

text \<open>\<^verbatim>\<open>.map(Resp::bulk).unwrap_or(Resp::null())\<close>.\<close>

fun bulk_or_null :: "bytes option \<Rightarrow> resp" where
  "bulk_or_null (Some v) = resp_bulk v"
| "bulk_or_null None = resp_null"

section \<open>The state of a handler\<close>

text \<open>\<open>cs_db\<close> is the database \<^verbatim>\<open>db.store.db(db_index)\<close>; \<open>cs_wakes\<close> counts the calls of
  \<^verbatim>\<open>notify_list_waiters\<close> and \<open>cs_zset_wakes\<close> those of \<^verbatim>\<open>notify_zset_waiters\<close>.\<close>

record cmd_state =
  cs_db :: sharded
  cs_wakes :: nat
  cs_zset_wakes :: nat

type_synonym 'r handler = "cmd_state \<Rightarrow> ('r result \<times> cmd_state) option"

definition fail :: "nexrade_error \<Rightarrow> 'r handler" where
  "fail e s = Some (Inl e, s)"

definition reply :: "'r \<Rightarrow> 'r handler" where
  "reply r s = Some (Inr r, s)"

text \<open>The operator \<^verbatim>\<open>?\<close>.\<close>

definition attempt :: "'a result \<Rightarrow> ('a \<Rightarrow> 'r handler) \<Rightarrow> 'r handler" where
  "attempt x f = (case x of Inl e \<Rightarrow> fail e | Inr v \<Rightarrow> f v)"

definition attempt_e :: "'a result \<Rightarrow> ('a \<Rightarrow> 'b result) \<Rightarrow> 'b result" where
  "attempt_e x f = (case x of Inl e \<Rightarrow> Inl e | Inr v \<Rightarrow> f v)"

lemma attempt_e_cong [fundef_cong]: "x = x' \<Longrightarrow> (\<And>v. x' = Inr v \<Longrightarrow> f v = g v) \<Longrightarrow> attempt_e x f = attempt_e x' g"
  by (auto simp: attempt_e_def split: sum.split)

definition notify_list_waiters :: "cmd_state \<Rightarrow> cmd_state" where
  "notify_list_waiters s = s\<lparr>cs_wakes := cs_wakes s + 1\<rparr>"

definition notify_zset_waiters :: "cmd_state \<Rightarrow> cmd_state" where
  "notify_zset_waiters s = s\<lparr>cs_zset_wakes := cs_zset_wakes s + 1\<rparr>"

text \<open>Work under the write lock of the key's shard that may panic, and under its read lock.\<close>

definition locked :: "bytes \<Rightarrow> (database \<Rightarrow> ('r \<times> database) option) \<Rightarrow> sharded \<Rightarrow> ('r \<times> sharded) option" where
  "locked key f s = do {
     let i = shard_idx (sh_num s) key;
     d \<leftarrow> index (sh_shards s) i;
     (r, d') \<leftarrow> f d;
     Some (r, s\<lparr>sh_shards := (sh_shards s)[i := d']\<rparr>)
   }"

definition on_key :: "bytes \<Rightarrow> (database \<Rightarrow> ('a \<times> database) option) \<Rightarrow> cmd_state \<Rightarrow> ('a \<times> cmd_state) option" where
  "on_key key f s = map_option (\<lambda>(r, db). (r, s\<lparr>cs_db := db\<rparr>)) (locked key f (cs_db s))"

definition on_key_ro :: "bytes \<Rightarrow> (database \<Rightarrow> 'a option) \<Rightarrow> cmd_state \<Rightarrow> ('a \<times> cmd_state) option" where
  "on_key_ro key f s = do { d \<leftarrow> read_for (cs_db s) key; r \<leftarrow> f d; Some (r, s) }"

section \<open>Editing the value of a key\<close>

text \<open>An edit of a value returns a reply, the new value, the change of its payload and whether the key is to
  be removed. \<open>write_back\<close> is what the handlers do with it: the value has been changed in place, the byte counter
  is adjusted, and an emptied key is removed.\<close>

definition write_back :: "bytes \<Rightarrow> entry \<Rightarrow> 'r \<times> data_type \<times> int \<times> bool \<Rightarrow> database \<Rightarrow> 'r \<times> database" where
  "write_back key e res d = (case res of (r, v, delta, emptied) \<Rightarrow>
     let d = put_entry key (e\<lparr>en_value := v\<rparr>) d;
         d = db_adjust_live_bytes delta d
     in (r, if emptied then snd (db_remove_empty_key key d) else d))"

text \<open>\<^verbatim>\<open>match store_db.get_mut(&key)\<close>: \<open>none\<close> is the reply when there is no live key.\<close>

definition edit_live :: "nat \<Rightarrow> bytes \<Rightarrow> 'r \<Rightarrow> (data_type \<Rightarrow> ('r \<times> data_type \<times> int \<times> bool) option) \<Rightarrow> database
    \<Rightarrow> ('r \<times> database) option" where
  "edit_live now key none f d = (case db_get_mut now key d of
     (None, d) \<Rightarrow> Some (none, d)
   | (Some e, d) \<Rightarrow> map_option (\<lambda>res. write_back key e res d) (f (en_value e)))"

text \<open>\<^verbatim>\<open>store_db.get_or_insert_with(key, || Entry::new(new))\<close>.\<close>

definition upsert :: "nat \<Rightarrow> bytes \<Rightarrow> data_type \<Rightarrow> (data_type \<Rightarrow> ('r \<times> data_type \<times> int \<times> bool) option) \<Rightarrow> database
    \<Rightarrow> ('r \<times> database) option" where
  "upsert now key new f d = (case db_get_or_insert_with now key (entry_new new) d of
     (e, d) \<Rightarrow> map_option (\<lambda>res. write_back key e res d) (f (en_value e)))"

text \<open>\<^verbatim>\<open>match store_db.get_ro(&key)\<close> under the read lock.\<close>

definition view_ro :: "env \<Rightarrow> bytes \<Rightarrow> 'r result \<Rightarrow> (data_type \<Rightarrow> 'r result option) \<Rightarrow> 'r handler" where
  "view_ro E key none f = on_key_ro key (\<lambda>d. case db_get_ro (env_now E) key d of
     None \<Rightarrow> Some none | Some e \<Rightarrow> f (en_value e))"

section \<open>The abstract keyspace\<close>

text \<open>The scores of a sorted set are the ranks of their values in the order of doubles (\<open>score_key\<close>).\<close>

datatype aval = AStr bytes | AInt int | AList "bytes list" | ASet "bytes set" | AHash "bytes \<rightharpoonup> bytes"
  | AZSet "bytes \<rightharpoonup> int" | AOther data_type

type_synonym content = "aval \<times> expiry option"

fun val_is :: "list_thresholds \<Rightarrow> data_type \<Rightarrow> aval \<Rightarrow> bool" where
  "val_is lim (DString b) a \<longleftrightarrow> a = AStr b"
| "val_is lim (DInt c) a \<longleftrightarrow> a = AInt (ic_value c) \<and> i64_ok (ic_value c)"
| "val_is lim (DList l) a \<longleftrightarrow> (\<exists>vs. a = AList vs \<and> listdata_rel lim l vs)"
| "val_is lim (DSet s) a \<longleftrightarrow> (\<exists>X. a = ASet X \<and> setdata_is s X)"
| "val_is lim (DHash h) a \<longleftrightarrow> (\<exists>m. a = AHash m \<and> hashdata_is h m)"
| "val_is lim (DZSet z) a \<longleftrightarrow> (\<exists>m. a = AZSet m \<and> zset_is z m)"
| "val_is lim v a \<longleftrightarrow> a = AOther v"

definition ent_is :: "list_thresholds \<Rightarrow> entry option \<Rightarrow> content option \<Rightarrow> bool" where
  "ent_is lim x c = (case x of None \<Rightarrow> c = None
     | Some e \<Rightarrow> (\<exists>a. c = Some (a, en_expiry e) \<and> val_is lim (en_value e) a))"

definition alive :: "nat \<Rightarrow> content option \<Rightarrow> content option" where
  "alive now c = (case c of Some (a, Some t) \<Rightarrow> if expiry_is_expired now t then None else c | _ \<Rightarrow> c)"

definition ks_is :: "list_thresholds \<Rightarrow> u32 \<Rightarrow> sharded \<Rightarrow> (bytes \<rightharpoonup> content) \<Rightarrow> bool" where
  "ks_is lim clk s A \<longleftrightarrow> (\<exists>m. sharded_is clk s m \<and> (\<forall>k. ent_is lim (m k) (A k)))"

lemma ent_is_simps [simp]:
  "ent_is lim None c \<longleftrightarrow> c = None"
  "ent_is lim (Some e) c \<longleftrightarrow> (\<exists>a. c = Some (a, en_expiry e) \<and> val_is lim (en_value e) a)"
  by (simp_all add: ent_is_def)

lemma ent_is_alive: "ent_is lim x c \<Longrightarrow> ent_is lim (live_entry now x) (alive now c)"
  by (cases x) (auto simp: alive_def entry_is_expired_def split: option.splits)

lemma ks_is_new: "k < 64 \<Longrightarrow> ks_is lim 0 (sh_new (2 ^ k)) Map.empty"
  unfolding ks_is_def using sh_new_is by fastforce

lemma get_ro_is: "db_is d m \<Longrightarrow> db_get_ro now key d = live_entry now (m key)"
  by (auto simp: db_get_ro_def db_isD(1) split: option.split)

text \<open>What a read under the shard's lock sees.\<close>

lemma ks_read:
  assumes "ks_is lim clk s A"
  obtains d where "read_for s key = Some d" and "ent_is lim (db_get_ro now key d) (alive now (A key))"
proof -
  from assms obtain m where m: "sharded_is clk s m" "\<And>k. ent_is lim (m k) (A k)" by (auto simp: ks_is_def)
  note i = shard_idx_less [OF m(1), of key]
  note d = sharded_isD [OF m(1) i]
  show thesis
  proof (rule that)
    show "read_for s key = Some (sh_shards s ! shard_idx (sh_num s) key)" using d(1) by (simp add: read_for_def)
    show "ent_is lim (db_get_ro now key (sh_shards s ! shard_idx (sh_num s) key)) (alive now (A key))"
      unfolding get_ro_is [OF d(2)] part_key by (rule ent_is_alive) (rule m(2))
  qed
qed

text \<open>Steps under one lock, and under the same lock taken again.\<close>

lemma locked_compose:
  "locked key (\<lambda>d. let (r, d1) = f d in h r d1) s = do { (r, s1) \<leftarrow> write_for key f s; locked key (h r) s1 }"
proof (cases "shard_idx (sh_num s) key < length (sh_shards s)")
  case True
  then show ?thesis
    by (auto simp: locked_def write_for_def write_shard_def index_def Let_def split: prod.splits bind_splits)
qed (simp add: locked_def write_for_def write_shard_def index_def)

lemma locked_cong:
  "read_for s key = Some d \<Longrightarrow> f d = h d \<Longrightarrow> locked key f s = locked key h s"
  by (simp add: locked_def read_for_def)

lemma ks_has:
  assumes "ks_is lim clk s A"
  shows "\<exists>s1. write_for key (db_contains_key now key) s = Some (alive now (A key) \<noteq> None, s1)
    \<and> ks_is lim clk s1 (A(key := alive now (A key)))"
proof -
  from assms obtain m where m: "sharded_is clk s m" "\<And>k. ent_is lim (m k) (A k)" by (auto simp: ks_is_def)
  from has.under_lock [OF m(1), of key now] obtain s1 where
    s1: "write_for key (db_contains_key now key) s = Some (live_entry now (m key) \<noteq> None, s1)"
      "sharded_is clk s1 (m(key := touched now clk (m key)))" by blast
  have l: "ent_is lim (live_entry now (m key)) (alive now (A key))" by (rule ent_is_alive) (rule m(2))
  then have "live_entry now (m key) \<noteq> None \<longleftrightarrow> alive now (A key) \<noteq> None" by (cases "live_entry now (m key)") auto
  moreover have "ent_is lim (touched now clk (m key)) (alive now (A key))"
    using l by (cases "live_entry now (m key)") (auto simp: touched_def)
  then have "\<forall>k. ent_is lim ((m(key := touched now clk (m key))) k) ((A(key := alive now (A key))) k)" using m(2) by simp
  then have "ks_is lim clk s1 (A(key := alive now (A key)))" unfolding ks_is_def using s1(2) by blast
  ultimately show ?thesis using s1(1) by auto
qed

section \<open>The contract of an edit\<close>

text \<open>Work under one shard's lock whose effect on the abstract keyspace is the relation \<open>spec\<close> between what
  the key held, the reply, and what it holds then. \<open>ok\<close> collects what is required of the environment.\<close>

locale typed_op =
  fixes ok :: bool
    and lim :: list_thresholds
    and key :: bytes
    and oper :: "database \<Rightarrow> ('r \<times> database) option"
    and spec :: "content option \<Rightarrow> 'r \<Rightarrow> content option \<Rightarrow> bool"
  assumes typed_law: "ok \<Longrightarrow> db_is d m \<Longrightarrow> ent_is lim (m key) c \<Longrightarrow>
      \<exists>r d' x c'. oper d = Some (r, d') \<and> db_is d' (m(key := x)) \<and> db_clock d' = db_clock d
        \<and> ent_is lim x c' \<and> spec c r c'"
begin

lemma under_typed_lock:
  assumes "ok" and "ks_is lim clk s A"
  shows "\<exists>r s' c'. locked key oper s = Some (r, s') \<and> spec (A key) r c' \<and> ks_is lim clk s' (A(key := c'))"
proof -
  from assms(2) obtain m where m: "sharded_is clk s m" "\<And>k. ent_is lim (m k) (A k)" by (auto simp: ks_is_def)
  let ?i = "shard_idx (sh_num s) key"
  have i: "?i < sh_num s" by (rule shard_idx_less [OF m(1)])
  note d = sharded_isD [OF m(1) i]
  from typed_law [OF assms(1) d(2), of "A key"] m(2) obtain r d' x c' where
    o: "oper (sh_shards s ! ?i) = Some (r, d')" "db_is d' ((part (sh_num s) ?i m)(key := x))" "db_clock d' = clk"
      "ent_is lim x c'" "spec (A key) r c'" by (auto simp: part_key d(3))
  have "sharded_is clk (s\<lparr>sh_shards := (sh_shards s)[?i := d']\<rparr>) (m(key := x))"
    by (rule sharded_update [OF m(1) i]) (use o(2,3) in \<open>simp_all add: part_upd\<close>)
  moreover have "\<forall>k. ent_is lim ((m(key := x)) k) ((A(key := c')) k)" using m(2) o(4) by simp
  ultimately have "ks_is lim clk (s\<lparr>sh_shards := (sh_shards s)[?i := d']\<rparr>) (A(key := c'))" unfolding ks_is_def by blast
  moreover have "locked key oper s = Some (r, s\<lparr>sh_shards := (sh_shards s)[?i := d']\<rparr>)" using o(1) d(1) by (simp add: locked_def)
  ultimately show ?thesis using o(5) by blast
qed

lemma on_key_ok:
  assumes "ok" and "ks_is lim clk (cs_db s) A"
  shows "\<exists>r s' c'. on_key key oper s = Some (r, s') \<and> spec (A key) r c' \<and> ks_is lim clk (cs_db s') (A(key := c'))
    \<and> cs_wakes s' = cs_wakes s"
  using under_typed_lock [OF assms] by (auto simp: on_key_def)

end

text \<open>Writing an edited value back.\<close>

lemma put_adjust_is:
  assumes "db_is d m" and "m key = Some e" and "int (value_size v) = int (value_size (en_value e)) + delta"
  shows "db_is (db_adjust_live_bytes delta (put_entry key (e\<lparr>en_value := v\<rparr>) d)) (m(key \<mapsto> e\<lparr>en_value := v\<rparr>))"
proof -
  let ?e = "e\<lparr>en_value := v\<rparr>"
  note a = db_isD [OF assms(1)]
  have idx: "index_of (m(key \<mapsto> ?e)) = index_of m"
    unfolding index_of_upd using assms(2) by (auto simp: exp_set_def index_of_def split: option.splits)
  have "int (map_size (m(key \<mapsto> ?e))) = int (map_size m) + delta" "estimate_entry_size key e \<le> map_size m"
    using map_size_replace(1) [OF a(3) assms(2), of ?e] map_size_replace(2) [OF a(3) assms(2)] assms(3) by (simp_all add: estimate_entry_size_def)
  then have "db_live_bytes (db_adjust_live_bytes delta (put_entry key ?e d)) = map_size (m(key \<mapsto> ?e))"
    using a(9) by (auto simp: db_adjust_live_bytes_def)
  moreover have "db_adjust_live_bytes delta x = x\<lparr>db_live_bytes := db_live_bytes (db_adjust_live_bytes delta x)\<rparr>" for x
    by (simp add: db_adjust_live_bytes_def)
  ultimately have "db_adjust_live_bytes delta (put_entry key ?e d) = (put_entry key ?e d)\<lparr>db_live_bytes := map_size (m(key \<mapsto> ?e))\<rparr>"
    by metis
  then show ?thesis using a assms(2) idx by (auto simp: db_is_def)
qed

lemma adjust_clock [simp]: "db_clock (db_adjust_live_bytes delta d) = db_clock d"
  by (simp add: db_adjust_live_bytes_def)

lemma write_back_is:
  assumes "db_is d m" and "m key = Some e" and "int (value_size v) = int (value_size (en_value e)) + delta"
  shows "\<exists>d'. write_back key e (r, v, delta, emptied) d = (r, d') \<and> db_clock d' = db_clock d
    \<and> db_is d' (m(key := if emptied then None else Some (e\<lparr>en_value := v\<rparr>)))"
  using put_adjust_is [OF assms] db_remove_is(2) [OF put_adjust_is [OF assms], of key]
  by (auto simp: write_back_def db_remove_empty_key_def case_prod_beta Let_def)

text \<open>The contract of the edit of a value: the new value represents the abstract result, and the change of
  the payload is the one reported. \<open>eff a r (Some a')\<close> relates the values when the key stays.\<close>

definition edit_spec :: "nat \<Rightarrow> 'r \<Rightarrow> (aval \<Rightarrow> 'r \<Rightarrow> aval option \<Rightarrow> bool) \<Rightarrow> content option \<Rightarrow> 'r \<Rightarrow> content option \<Rightarrow> bool" where
  "edit_spec now none eff c r c' = (case alive now c of
     None \<Rightarrow> r = none \<and> c' = None
   | Some (a, t) \<Rightarrow> (\<exists>a'. eff a r a' \<and> c' = map_option (\<lambda>x. (x, t)) a'))"

definition upsert_spec :: "nat \<Rightarrow> aval \<Rightarrow> (aval \<Rightarrow> 'r \<Rightarrow> aval option \<Rightarrow> bool) \<Rightarrow> content option \<Rightarrow> 'r \<Rightarrow> content option \<Rightarrow> bool" where
  "upsert_spec now new eff c r c' = (case (case alive now c of None \<Rightarrow> (new, None) | Some p \<Rightarrow> p) of
     (a, t) \<Rightarrow> (\<exists>a'. eff a r a' \<and> c' = map_option (\<lambda>x. (x, t)) a'))"

locale value_op =
  fixes ok :: bool
    and lim :: list_thresholds
    and f :: "data_type \<Rightarrow> ('r \<times> data_type \<times> int \<times> bool) option"
    and eff :: "aval \<Rightarrow> 'r \<Rightarrow> aval option \<Rightarrow> bool"
  assumes value_law: "ok \<Longrightarrow> val_is lim v a \<Longrightarrow>
      \<exists>r v' delta emptied a'. f v = Some (r, v', delta, emptied) \<and> val_is lim v' a'
        \<and> int (value_size v') = int (value_size v) + delta \<and> eff a r (if emptied then None else Some a')"
begin

lemma edit_entry:
  assumes "ok" and "db_is d m" and "m key = Some e" and "val_is lim (en_value e) a"
  shows "\<exists>r d' x a'. map_option (\<lambda>res. write_back key e res d) (f (en_value e)) = Some (r, d') \<and> db_is d' (m(key := x))
    \<and> db_clock d' = db_clock d \<and> ent_is lim x (map_option (\<lambda>y. (y, en_expiry e)) a') \<and> eff a r a'"
proof -
  from value_law [OF assms(1,4)] obtain r v' delta emptied a' where
    f: "f (en_value e) = Some (r, v', delta, emptied)" "val_is lim v' a'"
      "int (value_size v') = int (value_size (en_value e)) + delta" "eff a r (if emptied then None else Some a')" by blast
  from write_back_is [OF assms(2,3) f(3), of r emptied] obtain d' where
    d': "write_back key e (r, v', delta, emptied) d = (r, d')" "db_clock d' = db_clock d"
      "db_is d' (m(key := if emptied then None else Some (e\<lparr>en_value := v'\<rparr>)))" by blast
  show ?thesis
  proof (intro exI conjI)
    show "map_option (\<lambda>res. write_back key e res d) (f (en_value e)) = Some (r, d')" using f(1) d'(1) by simp
    show "db_is d' (m(key := if emptied then None else Some (e\<lparr>en_value := v'\<rparr>)))" by (rule d'(3))
    show "eff a r (if emptied then None else Some a')" by (rule f(4))
    show "ent_is lim (if emptied then None else Some (e\<lparr>en_value := v'\<rparr>))
        (map_option (\<lambda>y. (y, en_expiry e)) (if emptied then None else Some a'))" using f(2) by simp
  qed (rule d'(2))
qed

lemma edit_live_law:
  assumes "ok" and "db_is d m" and "ent_is lim (m key) c"
  shows "\<exists>r d' x c'. edit_live now key none f d = Some (r, d') \<and> db_is d' (m(key := x)) \<and> db_clock d' = db_clock d
    \<and> ent_is lim x c' \<and> edit_spec now none eff c r c'"
proof -
  obtain x d1 where g: "db_get_mut now key d = (x, d1)" by force
  note l = getm.op_law [OF assms(2), of now key, unfolded g, simplified]
  have al: "ent_is lim x (alive now c)" using ent_is_alive [OF assms(3)] l by simp
  show ?thesis
  proof (cases x)
    case None
    then have "edit_live now key none f d = Some (none, d1)" "alive now c = None" using g al by (simp_all add: edit_live_def)
    then show ?thesis using l None by (auto simp: edit_spec_def intro!: exI [of _ None])
  next
    case (Some e)
    with al obtain a where a: "alive now c = Some (a, en_expiry e)" "val_is lim (en_value e) a" by auto
    have d1: "db_is d1 (m(key \<mapsto> e))" "db_clock d1 = db_clock d" using l Some by simp_all
    from edit_entry [OF assms(1) d1(1) fun_upd_same a(2)] obtain r d' y a' where
      r: "map_option (\<lambda>res. write_back key e res d1) (f (en_value e)) = Some (r, d')" "db_is d' (m(key := y))"
        "db_clock d' = db_clock d1" "ent_is lim y (map_option (\<lambda>y. (y, en_expiry e)) a')" "eff a r a'" unfolding fun_upd_upd by blast
    have "edit_live now key none f d = Some (r, d')" using r(1) g Some by (simp add: edit_live_def)
    moreover have "edit_spec now none eff c r (map_option (\<lambda>y. (y, en_expiry e)) a')"
      using a(1) r(5) by (auto simp: edit_spec_def)
    ultimately show ?thesis using r d1(2) by metis
  qed
qed

lemma upsert_law:
  assumes "ok" and "val_is lim new anew" and "db_is d m" and "ent_is lim (m key) c"
  shows "\<exists>r d' x c'. upsert now key new f d = Some (r, d') \<and> db_is d' (m(key := x)) \<and> db_clock d' = db_clock d
    \<and> ent_is lim x c' \<and> upsert_spec now anew eff c r c'"
proof -
  obtain e d1 where g: "db_get_or_insert_with now key (entry_new new) d = (e, d1)" by force
  note l = goi.op_law [OF assms(3), of now key "entry_new new", unfolded g, simplified]
  have d1: "db_is d1 (m(key \<mapsto> e))" "db_clock d1 = db_clock d" using l by simp_all
  have e: "e = goi_entry now (entry_new new) (db_clock d) (m key)" using l by simp
  note al = ent_is_alive [OF assms(4), of now]
  obtain a where a: "(case alive now c of None \<Rightarrow> (anew, None) | Some p \<Rightarrow> p) = (a, en_expiry e)" "val_is lim (en_value e) a"
    using al assms(2) e by (cases "live_entry now (m key)") (auto simp: goi_entry_def entry_new_def)
  from edit_entry [OF assms(1) d1(1) fun_upd_same a(2)] obtain r d' y a' where
    r: "map_option (\<lambda>res. write_back key e res d1) (f (en_value e)) = Some (r, d')" "db_is d' (m(key := y))"
      "db_clock d' = db_clock d1" "ent_is lim y (map_option (\<lambda>y. (y, en_expiry e)) a')" "eff a r a'" unfolding fun_upd_upd by blast
  have "upsert now key new f d = Some (r, d')" using r(1) g by (simp add: upsert_def)
  moreover have "upsert_spec now anew eff c r (map_option (\<lambda>y. (y, en_expiry e)) a')"
    using a(1) r(5) by (auto simp: upsert_spec_def)
  ultimately show ?thesis using r d1(2) by metis
qed

end

sublocale value_op \<subseteq> ed: typed_op ok lim key "edit_live now key none f" "edit_spec now none eff" for now key none
  by unfold_locales (rule edit_live_law)

sublocale value_op \<subseteq> up: typed_op "ok \<and> val_is lim new anew" lim key "upsert now key new f" "upsert_spec now anew eff"
  for now key new anew
  by unfold_locales (rule upsert_law; simp)

section \<open>Commands on one type of value\<close>

text \<open>The same effects as functions on the abstract keyspace, for the values of one type: \<open>proj\<close> and \<open>emb\<close>
  select them, \<open>wrong\<close> is the reply on a value of another type, and \<open>g\<close> the effect on a value (no value
  when the key is removed).\<close>

definition apply_at :: "(aval \<Rightarrow> 'v option) \<Rightarrow> ('v \<Rightarrow> aval) \<Rightarrow> bytes \<Rightarrow> 'r \<Rightarrow> ('v \<Rightarrow> 'r \<times> 'v option) \<Rightarrow> content
    \<Rightarrow> (bytes \<rightharpoonup> content) \<Rightarrow> 'r \<times> (bytes \<rightharpoonup> content)" where
  "apply_at proj emb key wrong g c A = (case c of (a, t) \<Rightarrow> (case proj a of
     None \<Rightarrow> (wrong, A)
   | Some x \<Rightarrow> (case g x of (r, y) \<Rightarrow> (r, A(key := map_option (\<lambda>w. (emb w, t)) y)))))"

definition edit_at :: "(aval \<Rightarrow> 'v option) \<Rightarrow> ('v \<Rightarrow> aval) \<Rightarrow> nat \<Rightarrow> bytes \<Rightarrow> 'r \<Rightarrow> 'r \<Rightarrow> ('v \<Rightarrow> 'r \<times> 'v option)
    \<Rightarrow> (bytes \<rightharpoonup> content) \<Rightarrow> 'r \<times> (bytes \<rightharpoonup> content)" where
  "edit_at proj emb now key none wrong g A = (case alive now (A key) of
     None \<Rightarrow> (none, A(key := None))
   | Some c \<Rightarrow> apply_at proj emb key wrong g c A)"

definition upsert_at :: "(aval \<Rightarrow> 'v option) \<Rightarrow> ('v \<Rightarrow> aval) \<Rightarrow> nat \<Rightarrow> bytes \<Rightarrow> 'v \<Rightarrow> 'r \<Rightarrow> ('v \<Rightarrow> 'r \<times> 'v option)
    \<Rightarrow> (bytes \<rightharpoonup> content) \<Rightarrow> 'r \<times> (bytes \<rightharpoonup> content)" where
  "upsert_at proj emb now key new wrong g A =
     apply_at proj emb key wrong g (case alive now (A key) of None \<Rightarrow> (emb new, None) | Some c \<Rightarrow> c) A"

definition view_at :: "(aval \<Rightarrow> 'v option) \<Rightarrow> nat \<Rightarrow> bytes \<Rightarrow> 'r \<Rightarrow> 'r \<Rightarrow> ('v \<Rightarrow> 'r) \<Rightarrow> (bytes \<rightharpoonup> content) \<Rightarrow> 'r" where
  "view_at proj now key none wrong h A = (case alive now (A key) of
     None \<Rightarrow> none
   | Some (a, t) \<Rightarrow> (case proj a of None \<Rightarrow> wrong | Some x \<Rightarrow> h x))"

definition by_val :: "(aval \<Rightarrow> 'v option) \<Rightarrow> ('v \<Rightarrow> aval) \<Rightarrow> 'r \<Rightarrow> ('v \<Rightarrow> 'r \<times> 'v option) \<Rightarrow> aval \<Rightarrow> 'r \<Rightarrow> aval option \<Rightarrow> bool" where
  "by_val proj emb wrong g a r a' = (case proj a of
     None \<Rightarrow> r = wrong \<and> a' = Some a
   | Some x \<Rightarrow> (case g x of (r0, y) \<Rightarrow> r = r0 \<and> a' = map_option emb y))"

lemma alive_same: "alive now c = Some x \<Longrightarrow> c = Some x"
  by (auto simp: alive_def split: option.splits prod.splits if_splits)

lemma apply_at_by_val:
  assumes "by_val proj emb wrong g a r a'" and "A key = Some (a, t) \<or> proj a \<noteq> None"
  shows "apply_at proj emb key wrong g (a, t) A = (r, A(key := map_option (\<lambda>x. (x, t)) a'))"
  using assms by (auto simp: apply_at_def by_val_def option.map_comp comp_def fun_upd_idem split: option.splits prod.splits)

lemma edit_at_spec:
  assumes "edit_spec now none (by_val proj emb wrong g) (A key) r c'"
  shows "edit_at proj emb now key none wrong g A = (r, A(key := c'))"
proof (cases "alive now (A key)")
  case None
  then show ?thesis using assms by (simp add: edit_spec_def edit_at_def)
next
  case (Some c)
  obtain a t where c: "c = (a, t)" by force
  show ?thesis using assms Some alive_same [OF Some] apply_at_by_val [of proj emb wrong g a r _ A key t]
    by (auto simp: edit_spec_def edit_at_def c)
qed

lemma upsert_at_spec:
  assumes "upsert_spec now (emb new) (by_val proj emb wrong g) (A key) r c'" and "proj (emb new) \<noteq> None"
  shows "upsert_at proj emb now key new wrong g A = (r, A(key := c'))"
proof (cases "alive now (A key)")
  case None
  then show ?thesis using assms apply_at_by_val [of proj emb wrong g "emb new" r _ A key None]
    by (auto simp: upsert_spec_def upsert_at_def)
next
  case (Some c)
  obtain a t where c: "c = (a, t)" by force
  show ?thesis using assms Some alive_same [OF Some] apply_at_by_val [of proj emb wrong g a r _ A key t]
    by (auto simp: upsert_spec_def upsert_at_def c)
qed

text \<open>A type of collections: its constructor among the values, its abstract counterpart, and the
  representation relation.\<close>

locale coll_type =
  fixes lim :: list_thresholds
    and con :: "'c \<Rightarrow> data_type"
    and proj :: "aval \<Rightarrow> 'v option"
    and emb :: "'v \<Rightarrow> aval"
    and rel :: "'c \<Rightarrow> 'v \<Rightarrow> bool"
  assumes proj_emb: "proj a = Some x \<longleftrightarrow> a = emb x"
    and con_rel: "val_is lim (con c) a \<longleftrightarrow> (\<exists>x. a = emb x \<and> rel c x)"
    and con_only: "val_is lim v (emb x) \<Longrightarrow> \<exists>c. v = con c"
begin

lemma val_cases:
  assumes "val_is lim v a"
  obtains (this_type) c x where "v = con c" and "a = emb x" and "rel c x"
  | (other) "\<nexists>c. v = con c" and "proj a = None"
  using assms con_rel con_only proj_emb by (metis option.exhaust)

end

locale coll_op = coll_type lim con proj emb rel
  for lim :: list_thresholds and con :: "'c \<Rightarrow> data_type" and proj :: "aval \<Rightarrow> 'v option" and emb :: "'v \<Rightarrow> aval"
    and rel :: "'c \<Rightarrow> 'v \<Rightarrow> bool" +
  fixes ok :: bool
    and f :: "data_type \<Rightarrow> ('r \<times> data_type \<times> int \<times> bool) option"
    and wrong :: 'r
    and g :: "'v \<Rightarrow> 'r \<times> 'v option"
  assumes coll_law: "ok \<Longrightarrow> rel c x \<Longrightarrow>
      \<exists>r c' delta emptied y. f (con c) = Some (r, con c', delta, emptied) \<and> rel c' y
        \<and> int (value_size (con c')) = int (value_size (con c)) + delta \<and> g x = (r, if emptied then None else Some y)"
    and wrong_law: "\<nexists>c. v = con c \<Longrightarrow> f v = Some (wrong, v, 0, False)"
begin

lemma coll_value_law:
  assumes "ok" and "val_is lim v a"
  shows "\<exists>r v' delta emptied a'. f v = Some (r, v', delta, emptied) \<and> val_is lim v' a'
    \<and> int (value_size v') = int (value_size v) + delta \<and> by_val proj emb wrong g a r (if emptied then None else Some a')"
  using assms(2)
proof (cases rule: val_cases)
  case (this_type c x)
  from coll_law [OF assms(1) this_type(3)] obtain r c' delta emptied y where
    l: "f (con c) = Some (r, con c', delta, emptied)" "rel c' y"
      "int (value_size (con c')) = int (value_size (con c)) + delta" "g x = (r, if emptied then None else Some y)" by blast
  have "val_is lim (con c') (emb y)" using con_rel l(2) by blast
  moreover have "by_val proj emb wrong g a r (if emptied then None else Some (emb y))"
    using l(4) proj_emb [of a x] this_type(2) by (simp add: by_val_def)
  ultimately show ?thesis using l this_type(1) by blast
next
  case other
  then have "by_val proj emb wrong g a wrong (if False then None else Some a)" by (simp add: by_val_def)
  then show ?thesis using wrong_law [OF other(1)] assms(2) by fastforce
qed

end

sublocale coll_op \<subseteq> value_op ok lim f "by_val proj emb wrong g"
  by unfold_locales (rule coll_value_law)

context coll_op begin

lemma edit_at_locked:
  assumes "ok" and "ks_is lim clk s A"
  shows "\<exists>s'. locked key (edit_live now key none f) s = Some (fst (edit_at proj emb now key none wrong g A), s')
    \<and> ks_is lim clk s' (snd (edit_at proj emb now key none wrong g A))"
proof -
  from ed.under_typed_lock [OF assms, of key now none] obtain r s' c' where
    l: "locked key (edit_live now key none f) s = Some (r, s')" "edit_spec now none (by_val proj emb wrong g) (A key) r c'"
      "ks_is lim clk s' (A(key := c'))" by blast
  then show ?thesis using edit_at_spec [where A = A and key = key, OF l(2)] by simp
qed

lemma upsert_at_typed:
  assumes "typed_op ok' lim key oper (upsert_spec now (emb new) (by_val proj emb wrong g))" and "ok'" and "ks_is lim clk s A"
  shows "\<exists>s'. locked key oper s = Some (fst (upsert_at proj emb now key new wrong g A), s')
    \<and> ks_is lim clk s' (snd (upsert_at proj emb now key new wrong g A))"
proof -
  from typed_op.under_typed_lock [OF assms] obtain r s' c' where
    l: "locked key oper s = Some (r, s')" "upsert_spec now (emb new) (by_val proj emb wrong g) (A key) r c'"
      "ks_is lim clk s' (A(key := c'))" by blast
  have "proj (emb new) \<noteq> None" using proj_emb [of "emb new" new] by simp
  then show ?thesis using l upsert_at_spec [where A = A and key = key and emb = emb and new = new, OF l(2)] by simp
qed

lemma upsert_at_locked:
  assumes "ok" and "rel c new" and "ks_is lim clk s A"
  shows "\<exists>s'. locked key (upsert now key (con c) f) s = Some (fst (upsert_at proj emb now key new wrong g A), s')
    \<and> ks_is lim clk s' (snd (upsert_at proj emb now key new wrong g A))"
proof -
  have "ok \<and> val_is lim (con c) (emb new)" using assms(1,2) con_rel by blast
  then show ?thesis by (rule upsert_at_typed [OF up.typed_op_axioms _ assms(3)])
qed

lemma edit_at_ok:
  assumes "ok" and "ks_is lim clk (cs_db s) A"
  shows "\<exists>s'. on_key key (edit_live now key none f) s = Some (fst (edit_at proj emb now key none wrong g A), s')
    \<and> ks_is lim clk (cs_db s') (snd (edit_at proj emb now key none wrong g A)) \<and> cs_wakes s' = cs_wakes s"
  using edit_at_locked [OF assms, of key now none] by (auto simp: on_key_def)

lemma upsert_at_ok:
  assumes "ok" and "rel c new" and "ks_is lim clk (cs_db s) A"
  shows "\<exists>s'. on_key key (upsert now key (con c) f) s = Some (fst (upsert_at proj emb now key new wrong g A), s')
    \<and> ks_is lim clk (cs_db s') (snd (upsert_at proj emb now key new wrong g A)) \<and> cs_wakes s' = cs_wakes s"
  using upsert_at_locked [OF assms, of key now] by (auto simp: on_key_def)

end

locale coll_view = coll_type lim con proj emb rel
  for lim :: list_thresholds and con :: "'c \<Rightarrow> data_type" and proj :: "aval \<Rightarrow> 'v option" and emb :: "'v \<Rightarrow> aval"
    and rel :: "'c \<Rightarrow> 'v \<Rightarrow> bool" +
  fixes ok :: bool
    and f :: "data_type \<Rightarrow> 'r result option"
    and wrong :: "'r result"
    and h :: "'v \<Rightarrow> 'r result"
  assumes view_law: "ok \<Longrightarrow> rel c x \<Longrightarrow> f (con c) = Some (h x)"
    and view_wrong: "\<nexists>c. v = con c \<Longrightarrow> f v = Some wrong"
begin

lemma view_at_ok:
  assumes "ok" and "ks_is lim clk (cs_db s) A"
  shows "view_ro E key none f s = Some (view_at proj (env_now E) key none wrong h A, s)"
proof -
  obtain d where d: "read_for (cs_db s) key = Some d" "ent_is lim (db_get_ro (env_now E) key d) (alive (env_now E) (A key))"
    by (rule ks_read [OF assms(2)])
  show ?thesis
  proof (cases "db_get_ro (env_now E) key d")
    case None
    then show ?thesis using d by (simp add: view_ro_def on_key_ro_def view_at_def)
  next
    case (Some e)
    with d(2) obtain a where a: "alive (env_now E) (A key) = Some (a, en_expiry e)" "val_is lim (en_value e) a" by auto
    from a(2) have "f (en_value e) = Some (case proj a of None \<Rightarrow> wrong | Some x \<Rightarrow> h x)"
    proof (cases rule: val_cases)
      case (this_type c x)
      then show ?thesis using view_law [OF assms(1)] proj_emb [of a x] by simp
    qed (simp add: view_wrong)
    then show ?thesis using d(1) Some a(1) by (simp add: view_ro_def on_key_ro_def view_at_def)
  qed
qed

end

section \<open>Families of commands\<close>

text \<open>A family of commands with their well-formed arguments, executed on the state, and its specification on
  the abstract keyspace; a history is a sequence of commands, each in its own environment (clock, thresholds).\<close>

type_synonym keyspace = "bytes \<rightharpoonup> content"

fun run_cmds :: "(env \<Rightarrow> 'c \<Rightarrow> 'r handler) \<Rightarrow> (env \<times> 'c) list \<Rightarrow> cmd_state \<Rightarrow> ('r result list \<times> cmd_state) option" where
  "run_cmds exec [] s = Some ([], s)"
| "run_cmds exec ((E, c) # cs) s = do {
     (r, s) \<leftarrow> exec E c s;
     (rs, s) \<leftarrow> run_cmds exec cs s;
     Some (r # rs, s)
   }"

fun spec_cmds :: "(env \<Rightarrow> 'c \<Rightarrow> keyspace \<Rightarrow> 'r result \<times> keyspace) \<Rightarrow> (env \<times> 'c) list \<Rightarrow> keyspace \<Rightarrow> 'r result list \<times> keyspace" where
  "spec_cmds spec [] A = ([], A)"
| "spec_cmds spec ((E, c) # cs) A = (let (r, A) = spec E c A; (rs, A) = spec_cmds spec cs A in (r # rs, A))"

locale command_family =
  fixes lim :: list_thresholds
    and wf :: "'c \<Rightarrow> bool"
    and exec :: "env \<Rightarrow> 'c \<Rightarrow> 'r handler"
    and spec :: "env \<Rightarrow> 'c \<Rightarrow> keyspace \<Rightarrow> 'r result \<times> keyspace"
  assumes command_law: "env_ok lim E \<Longrightarrow> wf c \<Longrightarrow> ks_is lim clk (cs_db s) A \<Longrightarrow>
      \<exists>s'. exec E c s = Some (fst (spec E c A), s') \<and> ks_is lim clk (cs_db s') (snd (spec E c A))"
begin

lemma history:
  assumes "ks_is lim clk (cs_db s) A" and "\<forall>(E, c) \<in> set cs. env_ok lim E \<and> wf c"
  shows "\<exists>s'. run_cmds exec cs s = Some (fst (spec_cmds spec cs A), s') \<and> ks_is lim clk (cs_db s') (snd (spec_cmds spec cs A))"
  using assms
proof (induction cs arbitrary: s A)
  case (Cons ec cs)
  obtain E c where ec: "ec = (E, c)" by force
  with Cons.prems(2) have "env_ok lim E" "wf c" by auto
  from command_law [OF this Cons.prems(1)] obtain s1 where
    s1: "exec E c s = Some (fst (spec E c A), s1)" "ks_is lim clk (cs_db s1) (snd (spec E c A))" by blast
  from Cons.IH [OF s1(2)] Cons.prems(2) obtain s2 where
    "run_cmds exec cs s1 = Some (fst (spec_cmds spec cs (snd (spec E c A))), s2)"
    "ks_is lim clk (cs_db s2) (snd (spec_cmds spec cs (snd (spec E c A))))" by auto
  with s1(1) show ?case by (auto simp: ec Let_def split: prod.split)
qed simp

end

text \<open>Arguments as they come from the wire.\<close>

definition bulks :: "bytes list \<Rightarrow> resp list" where
  "bulks = map (\<lambda>b. BulkString (Some b))"

lemma bulks_simps [simp]:
  "bulks [] = []" "bulks (b # bs) = BulkString (Some b) # bulks bs" "length (bulks bs) = length bs" "drop n (bulks bs) = bulks (drop n bs)"
  "bulks (xs @ ys) = bulks xs @ bulks ys"
  by (simp_all add: bulks_def drop_map)

lemma index_bulks: "index (bulks bs) i = (if i < length bs then Some (BulkString (Some (bs ! i))) else None)"
  by (simp add: index_def bulks_def)

lemma get_bulks:
  assumes "i < length bs"
  shows "get_bytes (bulks bs) i cmd = Inr (bs ! i)" "get_bytes_vec (bulks bs) i cmd = Inr (bs ! i)"
    "utf8_valid (bs ! i) \<Longrightarrow> get_str (bulks bs) i cmd = Inr (bs ! i)"
    "utf8_valid (bs ! i) \<Longrightarrow> parse_i64 (bs ! i) = Some n \<Longrightarrow> get_i64 (bulks bs) i cmd = Inr n"
  using assms by (simp_all add: get_bytes_def get_bytes_vec_def get_str_def get_i64_def ok_or_arity_def index_bulks)

lemma bulks_as_bytes: "map resp_as_bytes (bulks bs) = map Some bs"
  by (simp add: bulks_def)

lemma attempt_simps [simp]:
  "attempt (Inr v) f = f v" "attempt (Inl e) f = fail e" "attempt_e (Inr v) h = h v" "attempt_e (Inl e) h = Inl e"
  by (simp_all add: attempt_def attempt_e_def)

end
