(* ===== verification/Families.thy ===== *)
theory Families
  imports Handlers Scan
begin

text \<open>
  Commands whose reply is not a function of the abstract keyspace: the order in which a hash or a set lists
  its members and the member a random pick chooses are the implementation's. Their contracts are relations
  between the keyspace, the reply and the new keyspace; those of \<^verbatim>\<open>Handlers\<close> are the functional case.
\<close>

section \<open>Reading under the write lock\<close>

text \<open>\<^verbatim>\<open>match store_db.get(&key)\<close> under the write lock: an expired key is removed, a live one touched.\<close>

definition view_rw :: "env \<Rightarrow> bytes \<Rightarrow> 'r result \<Rightarrow> (data_type \<Rightarrow> 'r result option) \<Rightarrow> 'r handler" where
  "view_rw E key none f = on_key key (\<lambda>d. case db_get (env_now E) key d of
     (None, d) \<Rightarrow> Some (none, d)
   | (Some e, d) \<Rightarrow> map_option (\<lambda>r. (r, d)) (f (en_value e)))"

section \<open>Random picks and cursor options\<close>

text \<open>The clock's nanoseconds serve as the random number.\<close>

definition pseudo_rand_idx :: "nat \<Rightarrow> nat \<Rightarrow> nat" where
  "pseudo_rand_idx nanos len = (if len = 0 then 0 else nanos mod len)"

definition MAX_RANDOM_SAMPLE :: nat where "MAX_RANDOM_SAMPLE = 100000"

text \<open>The options of HSCAN and SSCAN from position 3 on: the pattern and the page size.\<close>

fun scan_options :: "bytes \<Rightarrow> resp list \<Rightarrow> bytes option \<times> nat \<Rightarrow> (bytes option \<times> nat) result" where
  "scan_options cmd [] op = Inr op"
| "scan_options cmd (a # rest) op = attempt_e (get_str (a # rest) 0 cmd) (\<lambda>w. let opt = to_uppercase w in
     if opt = asc ''MATCH'' then attempt_e (get_bytes_vec rest 0 cmd) (\<lambda>p. scan_options cmd (drop 1 rest) (Some p, snd op))
     else if opt = asc ''COUNT'' then attempt_e (get_i64 rest 0 cmd) (\<lambda>n.
       if n \<le> 0 then Inl (Generic (asc ''syntax error'')) else scan_options cmd (drop 1 rest) (fst op, nat n))
     else scan_options cmd rest op)"

definition scan_cursor_arg :: "resp list \<Rightarrow> nat \<Rightarrow> bytes \<Rightarrow> u64 option" where
  "scan_cursor_arg args i cmd = (case get_str args i cmd of Inl e \<Rightarrow> None | Inr t \<Rightarrow> decode_scan_cursor t)"

definition scan_reply :: "bytes list \<Rightarrow> u64 \<Rightarrow> resp" where
  "scan_reply items next_cursor =
     resp_array [resp_bulk_str (dec_int (int (unat next_cursor))), resp_array (map resp_bulk items)]"

definition scan_empty_reply :: resp where
  "scan_empty_reply = resp_array [resp_bulk_str (asc ''0''), resp_array []]"

definition scan_pattern :: "bytes option \<Rightarrow> bytes" where
  "scan_pattern p = (case p of Some pat \<Rightarrow> pat | None \<Rightarrow> asc ''*'')"

lemma pseudo_rand_less: "len > 0 \<Longrightarrow> pseudo_rand_idx nanos len < len"
  by (simp add: pseudo_rand_idx_def)

section \<open>Relational contracts\<close>

definition edit_rel :: "(aval \<Rightarrow> 'v option) \<Rightarrow> ('v \<Rightarrow> aval) \<Rightarrow> nat \<Rightarrow> bytes \<Rightarrow> 'r \<Rightarrow> 'r \<Rightarrow> ('v \<Rightarrow> 'r \<Rightarrow> 'v option \<Rightarrow> bool)
    \<Rightarrow> keyspace \<Rightarrow> 'r \<Rightarrow> keyspace \<Rightarrow> bool" where
  "edit_rel proj emb now key none wrong G A r A' = (case alive now (A key) of
     None \<Rightarrow> r = none \<and> A' = A(key := None)
   | Some (a, t) \<Rightarrow> (case proj a of
       None \<Rightarrow> r = wrong \<and> A' = A
     | Some x \<Rightarrow> (\<exists>y. G x r y \<and> A' = A(key := map_option (\<lambda>w. (emb w, t)) y))))"

definition view_rel :: "(aval \<Rightarrow> 'v option) \<Rightarrow> nat \<Rightarrow> bytes \<Rightarrow> 'r \<Rightarrow> 'r \<Rightarrow> ('v \<Rightarrow> 'r \<Rightarrow> bool) \<Rightarrow> keyspace \<Rightarrow> 'r \<Rightarrow> bool" where
  "view_rel proj now key none wrong H A r = (case alive now (A key) of
     None \<Rightarrow> r = none
   | Some (a, t) \<Rightarrow> (case proj a of None \<Rightarrow> r = wrong | Some x \<Rightarrow> H x r))"

definition by_rel :: "(aval \<Rightarrow> 'v option) \<Rightarrow> ('v \<Rightarrow> aval) \<Rightarrow> 'r \<Rightarrow> ('v \<Rightarrow> 'r \<Rightarrow> 'v option \<Rightarrow> bool) \<Rightarrow> aval \<Rightarrow> 'r \<Rightarrow> aval option \<Rightarrow> bool" where
  "by_rel proj emb wrong G a r a' = (case proj a of
     None \<Rightarrow> r = wrong \<and> a' = Some a
   | Some x \<Rightarrow> (\<exists>y. G x r y \<and> a' = map_option emb y))"

lemma edit_rel_spec:
  assumes "edit_spec now none (by_rel proj emb wrong G) (A key) r c'"
  shows "edit_rel proj emb now key none wrong G A r (A(key := c'))"
proof (cases "alive now (A key)")
  case None
  then show ?thesis using assms by (simp add: edit_spec_def edit_rel_def)
next
  case (Some c)
  obtain a t where c: "c = (a, t)" by force
  with Some assms obtain a' where a': "by_rel proj emb wrong G a r a'" "c' = map_option (\<lambda>x. (x, t)) a'"
    by (auto simp: edit_spec_def)
  show ?thesis
  proof (cases "proj a")
    case None
    then show ?thesis using a' Some alive_same [OF Some] by (simp add: edit_rel_def by_rel_def c fun_upd_idem)
  next
    case p: (Some x)
    then show ?thesis using a' Some by (auto simp: edit_rel_def by_rel_def c option.map_comp comp_def)
  qed
qed

locale coll_rop = coll_type lim con proj emb rel
  for lim :: list_thresholds and con :: "'c \<Rightarrow> data_type" and proj :: "aval \<Rightarrow> 'v option" and emb :: "'v \<Rightarrow> aval"
    and rel :: "'c \<Rightarrow> 'v \<Rightarrow> bool" +
  fixes ok :: bool
    and f :: "data_type \<Rightarrow> ('r \<times> data_type \<times> int \<times> bool) option"
    and wrong :: 'r
    and G :: "'v \<Rightarrow> 'r \<Rightarrow> 'v option \<Rightarrow> bool"
  assumes coll_rlaw: "ok \<Longrightarrow> rel c x \<Longrightarrow>
      \<exists>r c' delta emptied y. f (con c) = Some (r, con c', delta, emptied) \<and> rel c' y
        \<and> int (value_size (con c')) = int (value_size (con c)) + delta \<and> G x r (if emptied then None else Some y)"
    and wrong_rlaw: "\<nexists>c. v = con c \<Longrightarrow> f v = Some (wrong, v, 0, False)"
begin

lemma coll_rvalue_law:
  assumes "ok" and "val_is lim v a"
  shows "\<exists>r v' delta emptied a'. f v = Some (r, v', delta, emptied) \<and> val_is lim v' a'
    \<and> int (value_size v') = int (value_size v) + delta \<and> by_rel proj emb wrong G a r (if emptied then None else Some a')"
  using assms(2)
proof (cases rule: val_cases)
  case (this_type c x)
  from coll_rlaw [OF assms(1) this_type(3)] obtain r c' delta emptied y where
    l: "f (con c) = Some (r, con c', delta, emptied)" "rel c' y"
      "int (value_size (con c')) = int (value_size (con c)) + delta" "G x r (if emptied then None else Some y)" by blast
  have "val_is lim (con c') (emb y)" using con_rel l(2) by blast
  moreover have "by_rel proj emb wrong G a r (if emptied then None else Some (emb y))"
    using l(4) proj_emb [of a x] this_type(2) by (auto simp: by_rel_def)
  ultimately show ?thesis using l this_type(1) by blast
next
  case other
  then have "by_rel proj emb wrong G a wrong (if False then None else Some a)" by (simp add: by_rel_def)
  then show ?thesis using wrong_rlaw [OF other(1)] assms(2) by fastforce
qed

end

sublocale coll_rop \<subseteq> value_op ok lim f "by_rel proj emb wrong G"
  by unfold_locales (rule coll_rvalue_law)

context coll_rop begin

lemma edit_rel_ok:
  assumes "ok" and "ks_is lim clk (cs_db s) A"
  shows "\<exists>r s' A'. on_key key (edit_live now key none f) s = Some (r, s') \<and> edit_rel proj emb now key none wrong G A r A'
    \<and> ks_is lim clk (cs_db s') A' \<and> cs_wakes s' = cs_wakes s"
proof -
  from ed.on_key_ok [OF assms, of key now none] obtain r s' c' where
    l: "on_key key (edit_live now key none f) s = Some (r, s')" "edit_spec now none (by_rel proj emb wrong G) (A key) r c'"
      "ks_is lim clk (cs_db s') (A(key := c'))" "cs_wakes s' = cs_wakes s" by blast
  then show ?thesis using edit_rel_spec [where A = A and key = key, OF l(2)] by blast
qed

end

text \<open>A reader of one type of value.\<close>

locale coll_rview = coll_type lim con proj emb rel
  for lim :: list_thresholds and con :: "'c \<Rightarrow> data_type" and proj :: "aval \<Rightarrow> 'v option" and emb :: "'v \<Rightarrow> aval"
    and rel :: "'c \<Rightarrow> 'v \<Rightarrow> bool" +
  fixes ok :: bool
    and f :: "data_type \<Rightarrow> 'r result option"
    and wrong :: "'r result"
    and H :: "'v \<Rightarrow> 'r result \<Rightarrow> bool"
  assumes rview_law: "ok \<Longrightarrow> rel c x \<Longrightarrow> \<exists>r. f (con c) = Some r \<and> H x r"
    and rview_wrong: "\<nexists>c. v = con c \<Longrightarrow> f v = Some wrong"
begin

lemma rview_value:
  assumes "ok" and "val_is lim v a"
  shows "\<exists>r. f v = Some r \<and> (case proj a of None \<Rightarrow> r = wrong | Some x \<Rightarrow> H x r)"
  using assms(2)
proof (cases rule: val_cases)
  case (this_type c x)
  then show ?thesis using rview_law [OF assms(1) this_type(3)] proj_emb [of a x] by auto
next
  case other
  then show ?thesis using rview_wrong by simp
qed

lemma view_rel_ok:
  assumes "ok" and "ks_is lim clk (cs_db s) A"
  shows "\<exists>r. view_ro E key none f s = Some (r, s) \<and> view_rel proj (env_now E) key none wrong H A r"
proof -
  obtain d where d: "read_for (cs_db s) key = Some d" "ent_is lim (db_get_ro (env_now E) key d) (alive (env_now E) (A key))"
    by (rule ks_read [OF assms(2)])
  show ?thesis
  proof (cases "db_get_ro (env_now E) key d")
    case None
    then show ?thesis using d by (simp add: view_ro_def on_key_ro_def view_rel_def)
  next
    case (Some e)
    with d(2) obtain a where a: "alive (env_now E) (A key) = Some (a, en_expiry e)" "val_is lim (en_value e) a" by auto
    from rview_value [OF assms(1) a(2)] obtain r where
      "f (en_value e) = Some r" "case proj a of None \<Rightarrow> r = wrong | Some x \<Rightarrow> H x r" by blast
    then show ?thesis using d(1) Some a(1) by (simp add: view_ro_def on_key_ro_def view_rel_def)
  qed
qed

lemma rview_locked:
  assumes "ok" and "db_is d m" and "ent_is lim (m key) c"
  shows "\<exists>r d' x c'. (case db_get now key d of (None, d) \<Rightarrow> Some (none, d) | (Some e, d) \<Rightarrow> map_option (\<lambda>r. (r, d)) (f (en_value e))) = Some (r, d')
    \<and> db_is d' (m(key := x)) \<and> db_clock d' = db_clock d \<and> ent_is lim x c'
    \<and> (c' = alive now c \<and> (case alive now c of None \<Rightarrow> r = none | Some (a, t) \<Rightarrow> (case proj a of None \<Rightarrow> r = wrong | Some x \<Rightarrow> H x r)))"
proof -
  obtain x d1 where g: "db_get now key d = (x, d1)" by force
  note l = get.op_law [OF assms(2), of now key, unfolded g, simplified]
  have al: "ent_is lim x (alive now c)"
    using ent_is_alive [OF assms(3), of now] l by (cases "live_entry now (m key)") (auto simp: touched_def)
  have d1: "db_is d1 (m(key := x))" "db_clock d1 = db_clock d" using l by simp_all
  show ?thesis
  proof (cases x)
    case None
    then show ?thesis using g al d1 by (auto intro!: exI [of _ None])
  next
    case (Some e)
    with al obtain a where a: "alive now c = Some (a, en_expiry e)" "val_is lim (en_value e) a" by auto
    from rview_value [OF assms(1) a(2)] obtain r where
      r: "f (en_value e) = Some r" "case proj a of None \<Rightarrow> r = wrong | Some x \<Rightarrow> H x r" by blast
    show ?thesis
    proof (intro exI conjI)
      show "(case db_get now key d of (None, d) \<Rightarrow> Some (none, d) | (Some e, d) \<Rightarrow> map_option (\<lambda>r. (r, d)) (f (en_value e))) = Some (r, d1)"
        using g Some r(1) by simp
      show "ent_is lim x (alive now c)" by (rule al)
      show "case alive now c of None \<Rightarrow> r = none | Some (a, t) \<Rightarrow> (case proj a of None \<Rightarrow> r = wrong | Some x \<Rightarrow> H x r)" using a r(2) by simp
    qed (use d1 in simp_all)
  qed
qed

end

sublocale coll_rview \<subseteq> rw: typed_op ok lim key
  "\<lambda>d. case db_get now key d of (None, d) \<Rightarrow> Some (none, d) | (Some e, d) \<Rightarrow> map_option (\<lambda>r. (r, d)) (f (en_value e))"
  "\<lambda>c r c'. c' = alive now c \<and> (case alive now c of None \<Rightarrow> r = none | Some (a, t) \<Rightarrow> (case proj a of None \<Rightarrow> r = wrong | Some x \<Rightarrow> H x r))"
  for now key none
  by unfold_locales (rule rview_locked)

context coll_rview begin

lemma view_rw_ok:
  assumes "ok" and "ks_is lim clk (cs_db s) A"
  shows "\<exists>r s'. view_rw E key none f s = Some (r, s') \<and> view_rel proj (env_now E) key none wrong H A r
    \<and> ks_is lim clk (cs_db s') (A(key := alive (env_now E) (A key))) \<and> cs_wakes s' = cs_wakes s"
  using rw.on_key_ok [where key = key and now = "env_now E" and none = none, OF assms] by (auto simp: view_rw_def view_rel_def)

end

section \<open>Families of commands\<close>

text \<open>What a sequence of commands may reply and leave behind, by a relational specification.\<close>

fun spec_run :: "(env \<Rightarrow> 'c \<Rightarrow> keyspace \<Rightarrow> 'r result \<Rightarrow> keyspace \<Rightarrow> bool) \<Rightarrow> (env \<times> 'c) list \<Rightarrow> keyspace \<Rightarrow> 'r result list \<Rightarrow> keyspace \<Rightarrow> bool" where
  "spec_run spec [] A rs B \<longleftrightarrow> rs = [] \<and> B = A"
| "spec_run spec ((E, c) # cs) A rs B \<longleftrightarrow> (\<exists>r rs' A'. rs = r # rs' \<and> spec E c A r A' \<and> spec_run spec cs A' rs' B)"

locale command_rel =
  fixes lim :: list_thresholds
    and wf :: "'c \<Rightarrow> bool"
    and exec :: "env \<Rightarrow> 'c \<Rightarrow> 'r handler"
    and spec :: "env \<Rightarrow> 'c \<Rightarrow> keyspace \<Rightarrow> 'r result \<Rightarrow> keyspace \<Rightarrow> bool"
  assumes command_rlaw: "env_ok lim E \<Longrightarrow> wf c \<Longrightarrow> ks_is lim clk (cs_db s) A \<Longrightarrow>
      \<exists>r s' A'. exec E c s = Some (r, s') \<and> spec E c A r A' \<and> ks_is lim clk (cs_db s') A'"
begin

lemma rhistory:
  assumes "ks_is lim clk (cs_db s) A" and "\<forall>(E, c) \<in> set cs. env_ok lim E \<and> wf c"
  shows "\<exists>rs s' B. run_cmds exec cs s = Some (rs, s') \<and> spec_run spec cs A rs B \<and> ks_is lim clk (cs_db s') B"
  using assms
proof (induction cs arbitrary: s A)
  case (Cons ec cs)
  obtain E c where ec: "ec = (E, c)" by force
  with Cons.prems(2) have "env_ok lim E" "wf c" by auto
  from command_rlaw [OF this Cons.prems(1)] obtain r s1 A1 where
    s1: "exec E c s = Some (r, s1)" "spec E c A r A1" "ks_is lim clk (cs_db s1) A1" by blast
  from Cons.IH [OF s1(3)] Cons.prems(2) obtain rs s2 B where
    s2: "run_cmds exec cs s1 = Some (rs, s2)" "spec_run spec cs A1 rs B" "ks_is lim clk (cs_db s2) B" by auto
  have "run_cmds exec (ec # cs) s = Some (r # rs, s2)" using s1(1) s2(1) by (simp add: ec)
  moreover have "spec_run spec (ec # cs) A (r # rs) B" using s1(2) s2(2) by (auto simp: ec)
  ultimately show ?case using s2(3) by blast
qed simp

end

sublocale command_family \<subseteq> fam: command_rel lim wf exec "\<lambda>E c A r A'. (r, A') = spec E c A"
  using command_law by unfold_locales (metis prod.collapse)

end
