(* ===== verification/Set_Cmds.thy ===== *)
theory Set_Cmds
  imports Families
begin

text \<open>
  The set commands (\<^verbatim>\<open>command/set.rs\<close>) and the move between two sets (\<^verbatim>\<open>smove_atomic\<close> of
  \<^verbatim>\<open>store.rs\<close>). A \<^verbatim>\<open>HashSet\<close> of members is a set; the order it is listed in is a parameter
  (\<open>env_member_order\<close>).
\<close>

section \<open>Adding and removing members\<close>

text \<open>The loop of SADD: an argument that is no string returns early, with the members before it stored and the byte
  counter not adjusted.\<close>

fun sadd_args :: "env \<Rightarrow> resp list \<Rightarrow> set_data \<Rightarrow> int \<Rightarrow> int \<Rightarrow> ((int \<times> int) result \<times> set_data) option" where
  "sadd_args E [] s added delta = Some (Inr (added, delta), s)"
| "sadd_args E (a # rest) s added delta =
     (case ok_or_arity (bulk_or_simple a) (asc ''SADD'') of
        Inl e \<Rightarrow> Some (Inl e, s)
      | Inr member \<Rightarrow> do {
          ((is_new, d), s) \<leftarrow> setdata_insert (env_index_set E) (env_set E) s member;
          sadd_args E rest s (if is_new then added + 1 else added) (delta + d)
        })"

fun sadd_value :: "env \<Rightarrow> resp list \<Rightarrow> data_type \<Rightarrow> (resp result \<times> data_type \<times> int \<times> bool) option" where
  "sadd_value E vals (DSet s) = do {
     (r, s) \<leftarrow> sadd_args E vals s 0 0;
     Some (case r of Inl e \<Rightarrow> (Inl e, DSet s, 0, False) | Inr (added, delta) \<Rightarrow> (Inr (resp_int added), DSet s, delta, False))
   }"
| "sadd_value E vals v = Some (Inl WrongType, v, 0, False)"

definition cmd_sadd :: "env \<Rightarrow> resp list \<Rightarrow> resp handler" where
  "cmd_sadd E args =
     (if length args < 3 then fail (WrongArity (asc ''sadd''))
      else attempt (get_bytes_vec args 1 (asc ''SADD'')) (\<lambda>key.
        on_key key (upsert (env_now E) key (DSet setdata_new) (sadd_value E (drop 2 args)))))"

fun srem_value :: "env \<Rightarrow> resp list \<Rightarrow> data_type \<Rightarrow> (resp result \<times> data_type \<times> int \<times> bool) option" where
  "srem_value E vals (DSet s) = do {
     ((removed, delta), s) \<leftarrow> remove_loop (setdata_remove (env_index_set E) (env_set E)) s (List.map_filter bulk_or_simple vals) 0 0;
     Some (Inr (resp_int removed), DSet s, delta, setdata_is_empty s)
   }"
| "srem_value E vals v = Some (Inl WrongType, v, 0, False)"

definition cmd_srem :: "env \<Rightarrow> resp list \<Rightarrow> resp handler" where
  "cmd_srem E args =
     (if length args < 3 then fail (WrongArity (asc ''srem''))
      else attempt (get_bytes_vec args 1 (asc ''SREM'')) (\<lambda>key.
        on_key key (edit_live (env_now E) key (Inr (resp_int 0)) (srem_value E (drop 2 args)))))"

section \<open>Reading\<close>

fun sismember_value :: "bytes \<Rightarrow> data_type \<Rightarrow> resp result option" where
  "sismember_value member (DSet s) = map_option (\<lambda>b. Inr (resp_int (of_bool b))) (setdata_contains s member)"
| "sismember_value member v = Some (Inl WrongType)"

definition cmd_sismember :: "env \<Rightarrow> resp list \<Rightarrow> resp handler" where
  "cmd_sismember E args =
     (if length args \<noteq> 3 then fail (WrongArity (asc ''sismember''))
      else attempt (get_bytes_vec args 1 (asc ''SISMEMBER'')) (\<lambda>key.
        attempt (get_bytes_vec args 2 (asc ''SISMEMBER'')) (\<lambda>member.
        view_ro E key (Inr (resp_int 0)) (sismember_value member))))"

text \<open>SMISMEMBER replies 0 for every member of a missing key, and of a value of another type too.\<close>

definition zeros :: "resp list \<Rightarrow> resp" where
  "zeros vals = resp_array (map (\<lambda>_. resp_int 0) vals)"

fun smismember_members :: "set_data \<Rightarrow> resp list \<Rightarrow> resp list option" where
  "smismember_members s [] = Some []"
| "smismember_members s (a # rest) = do {
     b \<leftarrow> (case bulk_or_simple a of None \<Rightarrow> Some False | Some member \<Rightarrow> setdata_contains s member);
     rs \<leftarrow> smismember_members s rest;
     Some (resp_int (of_bool b) # rs)
   }"

fun smismember_value :: "resp list \<Rightarrow> data_type \<Rightarrow> resp result option" where
  "smismember_value vals (DSet s) = map_option (\<lambda>rs. Inr (resp_array rs)) (smismember_members s vals)"
| "smismember_value vals v = Some (Inr (zeros vals))"

definition cmd_smismember :: "env \<Rightarrow> resp list \<Rightarrow> resp handler" where
  "cmd_smismember E args =
     (if length args < 3 then fail (WrongArity (asc ''smismember''))
      else attempt (get_bytes_vec args 1 (asc ''SMISMEMBER'')) (\<lambda>key.
        view_ro E key (Inr (zeros (drop 2 args))) (smismember_value (drop 2 args))))"

fun smembers_value :: "data_type \<Rightarrow> resp result option" where
  "smembers_value (DSet s) = map_option (\<lambda>ms. Inr (resp_array (map resp_bulk ms))) (setdata_to_vec s)"
| "smembers_value v = Some (Inl WrongType)"

definition cmd_smembers :: "env \<Rightarrow> resp list \<Rightarrow> resp handler" where
  "cmd_smembers E args =
     (if length args \<noteq> 2 then fail (WrongArity (asc ''smembers''))
      else attempt (get_bytes_vec args 1 (asc ''SMEMBERS'')) (\<lambda>key. view_ro E key (Inr (resp_array [])) smembers_value))"

fun scard_value :: "data_type \<Rightarrow> resp result option" where
  "scard_value (DSet s) = Some (Inr (resp_int (int (setdata_len s))))"
| "scard_value v = Some (Inl WrongType)"

definition cmd_scard :: "env \<Rightarrow> resp list \<Rightarrow> resp handler" where
  "cmd_scard E args =
     (if length args \<noteq> 2 then fail (WrongArity (asc ''scard''))
      else attempt (get_bytes_vec args 1 (asc ''SCARD'')) (\<lambda>key. view_ro E key (Inr (resp_int 0)) scard_value))"

section \<open>Union, intersection and difference\<close>

text \<open>The members of one operand, read under its shard's write lock.\<close>

fun members_value :: "data_type \<Rightarrow> bytes set option result option" where
  "members_value (DSet s) = map_option (\<lambda>S. Inr (Some S)) (setdata_to_hashset s)"
| "members_value v = Some (Inl WrongType)"

definition operand :: "env \<Rightarrow> bytes \<Rightarrow> resp \<Rightarrow> bytes set option handler" where
  "operand E cmd a = attempt (ok_or_arity (bulk_or_simple a) cmd) (\<lambda>key. view_rw E key (Inr None) members_value)"

fun collect_union :: "env \<Rightarrow> resp list \<Rightarrow> bytes set \<Rightarrow> bytes set handler" where
  "collect_union E [] result s = reply result s"
| "collect_union E (a # rest) result s = do {
     (r, s) \<leftarrow> operand E (asc ''SUNION'') a s;
     case r of
       Inl e \<Rightarrow> fail e s
     | Inr None \<Rightarrow> collect_union E rest result s
     | Inr (Some S) \<Rightarrow> collect_union E rest (result \<union> S) s
   }"

text \<open>A missing operand ends the loop with the empty set.\<close>

fun collect_inter :: "env \<Rightarrow> resp list \<Rightarrow> bytes set list \<Rightarrow> bytes set handler" where
  "collect_inter E [] Ss s = (case Ss of [] \<Rightarrow> reply {} s | S # rest \<Rightarrow> reply (fold (\<lambda>T result. result \<inter> T) rest S) s)"
| "collect_inter E (a # rest) Ss s = do {
     (r, s) \<leftarrow> operand E (asc ''SINTER'') a s;
     case r of
       Inl e \<Rightarrow> fail e s
     | Inr None \<Rightarrow> reply {} s
     | Inr (Some S) \<Rightarrow> collect_inter E rest (Ss @ [S]) s
   }"

fun diff_rest :: "env \<Rightarrow> resp list \<Rightarrow> bytes set \<Rightarrow> bytes set handler" where
  "diff_rest E [] result s = reply result s"
| "diff_rest E (a # rest) result s = do {
     (r, s) \<leftarrow> operand E (asc ''SDIFF'') a s;
     case r of
       Inl e \<Rightarrow> fail e s
     | Inr None \<Rightarrow> diff_rest E rest result s
     | Inr (Some S) \<Rightarrow> diff_rest E rest (result - S) s
   }"

definition collect_diff :: "env \<Rightarrow> resp list \<Rightarrow> bytes set handler" where
  "collect_diff E operands s = (case operands of
     [] \<Rightarrow> fail (WrongArity (to_lowercase (asc ''SDIFF''))) s
   | a # rest \<Rightarrow> do {
       (r, s) \<leftarrow> operand E (asc ''SDIFF'') a s;
       case r of
         Inl e \<Rightarrow> fail e s
       | Inr None \<Rightarrow> diff_rest E rest {} s
       | Inr (Some S) \<Rightarrow> diff_rest E rest S s
     })"

definition members_reply :: "env \<Rightarrow> bytes set handler \<Rightarrow> resp handler" where
  "members_reply E collect s = do {
     (r, s) \<leftarrow> collect s;
     Some (map_sum id (\<lambda>S. resp_array (map resp_bulk (env_member_order E S))) r, s)
   }"

text \<open>The stores replace whatever the destination holds, by an empty set too.\<close>

definition store_members :: "env \<Rightarrow> bytes \<Rightarrow> bytes set handler \<Rightarrow> resp handler" where
  "store_members E dst collect s = do {
     (r, s) \<leftarrow> collect s;
     case r of
       Inl e \<Rightarrow> fail e s
     | Inr S \<Rightarrow> do {
         (_, s) \<leftarrow> on_key dst (\<lambda>d. Some ((), db_insert dst (entry_new (DSet (setdata_from_hashset (env_set E) (env_member_order E S)))) d)) s;
         reply (resp_int (int (card S))) s
       }
   }"

definition cmd_sunion :: "env \<Rightarrow> resp list \<Rightarrow> resp handler" where
  "cmd_sunion E args =
     (if length args < 2 then fail (WrongArity (asc ''sunion'')) else members_reply E (collect_union E (drop 1 args) {}))"

definition cmd_sinter :: "env \<Rightarrow> resp list \<Rightarrow> resp handler" where
  "cmd_sinter E args =
     (if length args < 2 then fail (WrongArity (asc ''sinter'')) else members_reply E (collect_inter E (drop 1 args) []))"

definition cmd_sdiff :: "env \<Rightarrow> resp list \<Rightarrow> resp handler" where
  "cmd_sdiff E args =
     (if length args < 2 then fail (WrongArity (asc ''sdiff'')) else members_reply E (collect_diff E (drop 1 args)))"

definition cmd_sunionstore :: "env \<Rightarrow> resp list \<Rightarrow> resp handler" where
  "cmd_sunionstore E args =
     (if length args < 3 then fail (WrongArity (asc ''sunionstore''))
      else attempt (get_bytes_vec args 1 (asc ''SUNIONSTORE'')) (\<lambda>dst. store_members E dst (collect_union E (drop 2 args) {})))"

definition cmd_sinterstore :: "env \<Rightarrow> resp list \<Rightarrow> resp handler" where
  "cmd_sinterstore E args =
     (if length args < 3 then fail (WrongArity (asc ''sinterstore''))
      else attempt (get_bytes_vec args 1 (asc ''SINTERSTORE'')) (\<lambda>dst. store_members E dst (collect_inter E (drop 2 args) [])))"

definition cmd_sdiffstore :: "env \<Rightarrow> resp list \<Rightarrow> resp handler" where
  "cmd_sdiffstore E args =
     (if length args < 3 then fail (WrongArity (asc ''sdiffstore''))
      else attempt (get_bytes_vec args 1 (asc ''SDIFFSTORE'')) (\<lambda>dst. store_members E dst (collect_diff E (drop 2 args))))"

section \<open>The size of an intersection\<close>

text \<open>The counting loop over the members of the smallest set; the limit is checked after each hit.\<close>

fun intercard_loop :: "bytes set list \<Rightarrow> nat option \<Rightarrow> bytes list \<Rightarrow> nat \<Rightarrow> nat" where
  "intercard_loop others limit [] cnt = cnt"
| "intercard_loop others limit (m # ms) cnt =
     (if list_all (\<lambda>S. m \<in> S) others then
        if (case limit of Some l \<Rightarrow> cnt + 1 \<ge> l | None \<Rightarrow> False) then cnt + 1 else intercard_loop others limit ms (cnt + 1)
      else intercard_loop others limit ms cnt)"

text \<open>The operands, each read under its own lock, with the length and index of the smallest.\<close>

fun intercard_sets :: "env \<Rightarrow> bytes list \<Rightarrow> nat \<Rightarrow> nat \<times> nat \<Rightarrow> bytes set list \<Rightarrow> (bytes set list \<times> nat) option handler" where
  "intercard_sets E [] i best Ss s = reply (Some (Ss, snd best)) s"
| "intercard_sets E (key # keys) i best Ss s = do {
     (r, s) \<leftarrow> view_ro E key (Inr None) members_value s;
     case r of
       Inl e \<Rightarrow> fail e s
     | Inr None \<Rightarrow> reply None s
     | Inr (Some S) \<Rightarrow> intercard_sets E keys (i + 1) (if card S < fst best then (card S, i) else best) (Ss @ [S]) s
   }"

text \<open>The options after the keys; a LIMIT of 0 is none, and a negative one is huge.\<close>

definition intercard_limit :: "resp list \<Rightarrow> nat \<Rightarrow> nat option result" where
  "intercard_limit args i =
     (if length args > i then
        attempt_e (get_str args i (asc ''SINTERCARD'')) (\<lambda>opt.
          if to_uppercase opt \<noteq> asc ''LIMIT'' then Inl (Generic (asc ''syntax error''))
          else attempt_e (get_i64 args (i + 1) (asc ''SINTERCARD'')) (\<lambda>n.
            if length args \<noteq> i + 2 then Inl (Generic (asc ''syntax error''))
            else Inr (if n = 0 then None else Some (nat (n mod 2 ^ 64)))))
      else if length args \<noteq> i then Inl (Generic (asc ''syntax error''))
      else Inr None)"

fun keys_from :: "resp list \<Rightarrow> bytes \<Rightarrow> bytes list result" where
  "keys_from [] cmd = Inr []"
| "keys_from (a # rest) cmd = attempt_e (ok_or_arity (bulk_or_simple a) cmd) (\<lambda>k. attempt_e (keys_from rest cmd) (\<lambda>ks. Inr (k # ks)))"

definition intercard_count :: "env \<Rightarrow> nat option \<Rightarrow> bytes set list \<Rightarrow> nat \<Rightarrow> resp handler" where
  "intercard_count E limit Ss best s =
     (if Ss = [] then reply (resp_int 0) s
      else do {
        S \<leftarrow> index Ss best;
        reply (resp_int (int (intercard_loop (take best Ss @ drop (Suc best) Ss) limit (env_member_order E S) 0))) s
      })"

definition cmd_sintercard :: "env \<Rightarrow> resp list \<Rightarrow> resp handler" where
  "cmd_sintercard E args =
     (if length args < 3 then fail (WrongArity (asc ''sintercard''))
      else attempt (get_i64 args 1 (asc ''SINTERCARD'')) (\<lambda>num_keys.
        if num_keys \<le> 0 then fail (Generic (asc ''numkeys should be greater than 0''))
        else if length args < 2 + nat num_keys then fail (WrongArity (asc ''sintercard''))
        else attempt (keys_from (take (nat num_keys) (drop 2 args)) (asc ''SINTERCARD'')) (\<lambda>keys.
          attempt (intercard_limit args (2 + nat num_keys)) (\<lambda>limit s. do {
            (r, s) \<leftarrow> intercard_sets E keys 0 (2 ^ 64 - 1, 0) [] s;
            case r of
              Inl e \<Rightarrow> fail e s
            | Inr None \<Rightarrow> reply (resp_int 0) s
            | Inr (Some (Ss, best)) \<Rightarrow> intercard_count E limit Ss best s
          }))))"

section \<open>Moving a member\<close>

fun smove_remove_value :: "env \<Rightarrow> bytes \<Rightarrow> data_type \<Rightarrow> (bool result \<times> data_type \<times> int \<times> bool) option" where
  "smove_remove_value E member (DSet s) = do {
     ((removed, d), s) \<leftarrow> setdata_remove (env_index_set E) (env_set E) s member;
     Some (if removed then (Inr True, DSet s, d, setdata_is_empty s) else (Inr False, DSet s, 0, False))
   }"
| "smove_remove_value E member v = Some (Inl WrongType, v, 0, False)"

fun smove_insert_value :: "env \<Rightarrow> bytes \<Rightarrow> data_type \<Rightarrow> (unit \<times> data_type \<times> int \<times> bool) option" where
  "smove_insert_value E member (DSet s) = do {
     ((_, d), s) \<leftarrow> setdata_insert (env_index_set E) (env_set E) s member;
     Some ((), DSet s, d, False)
   }"
| "smove_insert_value E member v = Some ((), v, 0, False)"

text \<open>The destination is looked up without regard to its expiry.\<close>

definition dst_is_usable :: "bytes \<Rightarrow> database \<Rightarrow> bool" where
  "dst_is_usable dst d = (case find_entry d dst of None \<Rightarrow> True | Some e \<Rightarrow> (case en_value e of DSet _ \<Rightarrow> True | _ \<Rightarrow> False))"

text \<open>Both shards stay locked from the check to the end, so the steps are one.\<close>

definition smove_atomic :: "env \<Rightarrow> bytes \<Rightarrow> bytes \<Rightarrow> bytes \<Rightarrow> sharded \<Rightarrow> (int result \<times> sharded) option" where
  "smove_atomic E src dst member s = do {
     d \<leftarrow> read_for s dst;
     if \<not> dst_is_usable dst d then Some (Inl WrongType, s)
     else do {
       (r, s) \<leftarrow> locked src (edit_live (env_now E) src (Inr False) (smove_remove_value E member)) s;
       case r of
         Inl e \<Rightarrow> Some (Inl e, s)
       | Inr False \<Rightarrow> Some (Inr 0, s)
       | Inr True \<Rightarrow> do {
           (_, s) \<leftarrow> locked dst (\<lambda>d. map_option (\<lambda>(r, d). (r, db_bump_version dst d))
             (upsert (env_now E) dst (DSet setdata_new) (smove_insert_value E member) d)) s;
           Some (Inr 1, s)
         }
     }
   }"

definition cmd_smove :: "env \<Rightarrow> resp list \<Rightarrow> resp handler" where
  "cmd_smove E args =
     (if length args \<noteq> 4 then fail (WrongArity (asc ''smove''))
      else attempt (get_bytes_vec args 1 (asc ''SMOVE'')) (\<lambda>src.
        attempt (get_bytes_vec args 2 (asc ''SMOVE'')) (\<lambda>dst.
        attempt (get_bytes_vec args 3 (asc ''SMOVE'')) (\<lambda>member s.
        map_option (\<lambda>(r, db). (map_sum id resp_int r, s\<lparr>cs_db := db\<rparr>)) (smove_atomic E src dst member (cs_db s))))))"

section \<open>Random members and cursors\<close>

fun srandmember_value :: "env \<Rightarrow> int option \<Rightarrow> data_type \<Rightarrow> resp result option" where
  "srandmember_value E None (DSet s) =
     map_option (\<lambda>x. Inr (bulk_or_null x)) (setdata_get_at s (pseudo_rand_idx (env_nanos E 0) (setdata_len s)))"
| "srandmember_value E (Some n) (DSet s) =
     (if n < 0 then map_option (\<lambda>xs. Inr (resp_array (map bulk_or_null xs)))
        (those (map (\<lambda>i. setdata_get_at s (pseudo_rand_idx (env_nanos E i) (setdata_len s))) [0..<min (nat (- n)) MAX_RANDOM_SAMPLE]))
      else map_option (\<lambda>ms. Inr (resp_array (map resp_bulk (take (nat n) ms)))) (setdata_to_vec s))"
| "srandmember_value E cnt v = Some (Inl WrongType)"

definition cmd_srandmember :: "env \<Rightarrow> resp list \<Rightarrow> resp handler" where
  "cmd_srandmember E args =
     (if length args < 2 then fail (WrongArity (asc ''srandmember''))
      else attempt (get_bytes_vec args 1 (asc ''SRANDMEMBER'')) (\<lambda>key.
        attempt (if length args \<ge> 3 then map_sum id Some (get_i64 args 2 (asc ''SRANDMEMBER'')) else Inr None) (\<lambda>cnt.
        view_ro E key (Inr (if cnt \<noteq> None then resp_array [] else resp_null)) (srandmember_value E cnt))))"

fun spop_loop :: "env \<Rightarrow> nat \<Rightarrow> nat \<Rightarrow> set_data \<Rightarrow> bytes list \<Rightarrow> int \<Rightarrow> ((bytes list \<times> int) \<times> set_data) option" where
  "spop_loop E 0 i s result delta = Some ((result, delta), s)"
| "spop_loop E (Suc n) i s result delta =
     (if setdata_is_empty s then Some ((result, delta), s)
      else do {
        (x, s) \<leftarrow> setdata_remove_at (env_index_set E) (env_set E) s (pseudo_rand_idx (env_nanos E i) (setdata_len s));
        case x of
          Some m \<Rightarrow> spop_loop E n (i + 1) s (result @ [m]) (delta - int (length m))
        | None \<Rightarrow> spop_loop E n (i + 1) s result delta
      })"

fun spop_value :: "env \<Rightarrow> nat option \<Rightarrow> data_type \<Rightarrow> (resp result \<times> data_type \<times> int \<times> bool) option" where
  "spop_value E (Some n) (DSet s) = do {
     ((ms, delta), s) \<leftarrow> spop_loop E n 0 s [] 0;
     Some (Inr (resp_array (map resp_bulk ms)), DSet s, delta, setdata_is_empty s)
   }"
| "spop_value E None (DSet s) =
     (if setdata_is_empty s then Some (Inr resp_null, DSet s, 0, True)
      else do {
        (x, s) \<leftarrow> setdata_remove_at (env_index_set E) (env_set E) s (pseudo_rand_idx (env_nanos E 0) (setdata_len s));
        Some (case x of Some m \<Rightarrow> (Inr (resp_bulk m), DSet s, - int (length m), setdata_is_empty s)
          | None \<Rightarrow> (Inr resp_null, DSet s, 0, setdata_is_empty s))
      })"
| "spop_value E cnt v = Some (Inl WrongType, v, 0, False)"

definition cmd_spop :: "env \<Rightarrow> resp list \<Rightarrow> resp handler" where
  "cmd_spop E args =
     (if length args < 2 then fail (WrongArity (asc ''spop''))
      else attempt (get_bytes_vec args 1 (asc ''SPOP'')) (\<lambda>key.
        attempt (if length args \<ge> 3
          then attempt_e (get_i64 args 2 (asc ''SPOP'')) (\<lambda>n.
            if n < 0 then Inl (Generic (asc ''value is out of range, must be positive'')) else Inr (Some (nat n)))
          else Inr None) (\<lambda>cnt.
        on_key key (edit_live (env_now E) key (Inr (if cnt \<noteq> None then resp_array [] else resp_null)) (spop_value E cnt)))))"

fun sscan_value :: "u64 option \<Rightarrow> bytes option \<times> nat \<Rightarrow> data_type \<Rightarrow> resp result option" where
  "sscan_value cursor op (DSet s) = do {
     ms \<leftarrow> setdata_to_vec s;
     let (items, next_cursor) = scan_select_page (filter (glob_match (scan_pattern (fst op))) ms) cursor (snd op) (\<lambda>m. m);
     Some (Inr (scan_reply items next_cursor))
   }"
| "sscan_value cursor op v = Some (Inl WrongType)"

definition cmd_sscan :: "env \<Rightarrow> resp list \<Rightarrow> resp handler" where
  "cmd_sscan E args =
     (if length args < 3 then fail (WrongArity (asc ''sscan''))
      else attempt (get_bytes_vec args 1 (asc ''SSCAN'')) (\<lambda>key.
        attempt (scan_options (asc ''SSCAN'') (drop 3 args) (None, 10)) (\<lambda>op.
        view_ro E key (Inr scan_empty_reply) (sscan_value (scan_cursor_arg args 2 (asc ''SSCAN'')) op))))"

end
