(* ===== verification/Hash_Cmds.thy ===== *)
theory Hash_Cmds
  imports Families
begin

text \<open>
  The hash commands (\<^verbatim>\<open>command/hash.rs\<close>), except HINCRBYFLOAT: argument parsing, the edit of the value,
  the byte counter and the removal of emptied keys.
\<close>

section \<open>Writing fields\<close>

text \<open>The loop of HSET over the field and value arguments: an argument that is no string returns early, with the pairs
  before it stored and the byte counter not adjusted.\<close>

fun hset_args :: "hash_thresholds \<Rightarrow> bytes \<Rightarrow> resp list \<Rightarrow> hash_data \<Rightarrow> int \<Rightarrow> int \<Rightarrow> ((int \<times> int) result \<times> hash_data) option" where
  "hset_args thr cmd (a # b # rest) h added delta =
     (case ok_or_arity (bulk_or_simple a) cmd of
        Inl e \<Rightarrow> Some (Inl e, h)
      | Inr field \<Rightarrow> (case ok_or_arity (bulk_or_simple b) cmd of
          Inl e \<Rightarrow> Some (Inl e, h)
        | Inr val \<Rightarrow> do {
            ((is_new, d), h) \<leftarrow> hashdata_insert thr h field val;
            hset_args thr cmd rest h (if is_new then added + 1 else added) (delta + d)
          }))"
| "hset_args thr cmd _ h added delta = Some (Inr (added, delta), h)"

fun hset_value :: "env \<Rightarrow> bytes \<Rightarrow> (int \<Rightarrow> resp) \<Rightarrow> resp list \<Rightarrow> data_type \<Rightarrow> (resp result \<times> data_type \<times> int \<times> bool) option" where
  "hset_value E cmd rep vals (DHash h) = do {
     (r, h) \<leftarrow> hset_args (env_hash E) cmd vals h 0 0;
     Some (case r of Inl e \<Rightarrow> (Inl e, DHash h, 0, False) | Inr (added, delta) \<Rightarrow> (Inr (rep added), DHash h, delta, False))
   }"
| "hset_value E cmd rep vals v = Some (Inl WrongType, v, 0, False)"

definition cmd_hset :: "env \<Rightarrow> resp list \<Rightarrow> resp handler" where
  "cmd_hset E args =
     (if length args < 4 \<or> odd (length args) then fail (WrongArity (asc ''hset''))
      else attempt (get_bytes_vec args 1 (asc ''HSET'')) (\<lambda>key.
        on_key key (upsert (env_now E) key (DHash hashdata_new) (hset_value E (asc ''HSET'') resp_int (drop 2 args)))))"

definition cmd_hmset :: "env \<Rightarrow> resp list \<Rightarrow> resp handler" where
  "cmd_hmset E args =
     (if length args < 4 \<or> odd (length args) then fail (WrongArity (asc ''hmset''))
      else attempt (get_bytes_vec args 1 (asc ''HMSET'')) (\<lambda>key.
        on_key key (upsert (env_now E) key (DHash hashdata_new) (hset_value E (asc ''HMSET'') (\<lambda>added. resp_ok) (drop 2 args)))))"

fun hsetnx_value :: "env \<Rightarrow> bytes \<Rightarrow> bytes \<Rightarrow> data_type \<Rightarrow> (resp result \<times> data_type \<times> int \<times> bool) option" where
  "hsetnx_value E field val (DHash h) = do {
     present \<leftarrow> hashdata_contains_key h field;
     if present then Some (Inr (resp_int 0), DHash h, 0, False)
     else do {
       ((is_new, d), h) \<leftarrow> hashdata_insert (env_hash E) h field val;
       Some (Inr (resp_int 1), DHash h, d, False)
     }
   }"
| "hsetnx_value E field val v = Some (Inl WrongType, v, 0, False)"

definition cmd_hsetnx :: "env \<Rightarrow> resp list \<Rightarrow> resp handler" where
  "cmd_hsetnx E args =
     (if length args \<noteq> 4 then fail (WrongArity (asc ''hsetnx''))
      else attempt (get_bytes_vec args 1 (asc ''HSETNX'')) (\<lambda>key.
        attempt (get_bytes_vec args 2 (asc ''HSETNX'')) (\<lambda>field.
        attempt (get_bytes_vec args 3 (asc ''HSETNX'')) (\<lambda>val.
        on_key key (upsert (env_now E) key (DHash hashdata_new) (hsetnx_value E field val))))))"

text \<open>The current number of a field: \<^verbatim>\<open>from_utf8\<close> then \<^verbatim>\<open>parse\<close>, either failure is the same error.\<close>

definition field_number :: "bytes option \<Rightarrow> int result" where
  "field_number x = (case x of None \<Rightarrow> Inr 0
     | Some v \<Rightarrow> if utf8_valid v then (case parse_i64 v of Some n \<Rightarrow> Inr n | None \<Rightarrow> Inl NotInteger) else Inl NotInteger)"

definition checked_add :: "int \<Rightarrow> int \<Rightarrow> int option" where
  "checked_add a b = (if i64_ok (a + b) then Some (a + b) else None)"

text \<open>An error returns after the hash has been created.\<close>

fun hincrby_value :: "env \<Rightarrow> bytes \<Rightarrow> int \<Rightarrow> data_type \<Rightarrow> (resp result \<times> data_type \<times> int \<times> bool) option" where
  "hincrby_value E field delta (DHash h) = do {
     x \<leftarrow> hashdata_get h field;
     case field_number x of
       Inl e \<Rightarrow> Some (Inl e, DHash h, 0, False)
     | Inr current \<Rightarrow> (case checked_add current delta of
         None \<Rightarrow> Some (Inl Overflow, DHash h, 0, False)
       | Some new_val \<Rightarrow> do {
           ((is_new, d), h) \<leftarrow> hashdata_insert (env_hash E) h field (dec_int new_val);
           Some (Inr (resp_int new_val), DHash h, d, False)
         })
   }"
| "hincrby_value E field delta v = Some (Inl WrongType, v, 0, False)"

definition cmd_hincrby :: "env \<Rightarrow> resp list \<Rightarrow> resp handler" where
  "cmd_hincrby E args =
     (if length args \<noteq> 4 then fail (WrongArity (asc ''hincrby''))
      else attempt (get_bytes_vec args 1 (asc ''HINCRBY'')) (\<lambda>key.
        attempt (get_bytes_vec args 2 (asc ''HINCRBY'')) (\<lambda>field.
        attempt (get_i64 args 3 (asc ''HINCRBY'')) (\<lambda>delta.
        on_key key (upsert (env_now E) key (DHash hashdata_new) (hincrby_value E field delta))))))"

text \<open>HDEL skips an argument that is no string.\<close>

fun hdel_value :: "env \<Rightarrow> resp list \<Rightarrow> data_type \<Rightarrow> (resp result \<times> data_type \<times> int \<times> bool) option" where
  "hdel_value E fs (DHash h) = do {
     ((removed, delta), h) \<leftarrow> hdel_loop (hashdata_remove (env_hash_order E) (env_hash E)) h (List.map_filter bulk_or_simple fs) 0 0;
     Some (Inr (resp_int removed), DHash h, delta, hashdata_is_empty h)
   }"
| "hdel_value E fs v = Some (Inl WrongType, v, 0, False)"

definition cmd_hdel :: "env \<Rightarrow> resp list \<Rightarrow> resp handler" where
  "cmd_hdel E args =
     (if length args < 3 then fail (WrongArity (asc ''hdel''))
      else attempt (get_bytes_vec args 1 (asc ''HDEL'')) (\<lambda>key.
        on_key key (edit_live (env_now E) key (Inr (resp_int 0)) (hdel_value E (drop 2 args)))))"

section \<open>Reading\<close>

fun hget_value :: "bytes \<Rightarrow> data_type \<Rightarrow> resp result option" where
  "hget_value field (DHash h) = map_option (\<lambda>x. Inr (bulk_or_null x)) (hashdata_get h field)"
| "hget_value field v = Some (Inl WrongType)"

definition cmd_hget :: "env \<Rightarrow> resp list \<Rightarrow> resp handler" where
  "cmd_hget E args =
     (if length args \<noteq> 3 then fail (WrongArity (asc ''hget''))
      else attempt (get_bytes_vec args 1 (asc ''HGET'')) (\<lambda>key.
        attempt (get_bytes_vec args 2 (asc ''HGET'')) (\<lambda>field.
        view_ro E key (Inr resp_null) (hget_value field))))"

text \<open>HMGET replies nil for every field of a missing key, and of a value of another type too.\<close>

definition nulls :: "resp list \<Rightarrow> resp" where
  "nulls fs = resp_array (map (\<lambda>_. resp_null) fs)"

fun hmget_fields :: "hash_data \<Rightarrow> resp list \<Rightarrow> resp list option" where
  "hmget_fields h [] = Some []"
| "hmget_fields h (a # rest) = do {
     x \<leftarrow> (case bulk_or_simple a of None \<Rightarrow> Some None | Some field \<Rightarrow> hashdata_get h field);
     rs \<leftarrow> hmget_fields h rest;
     Some (bulk_or_null x # rs)
   }"

fun hmget_value :: "resp list \<Rightarrow> data_type \<Rightarrow> resp result option" where
  "hmget_value fs (DHash h) = map_option (\<lambda>rs. Inr (resp_array rs)) (hmget_fields h fs)"
| "hmget_value fs v = Some (Inr (nulls fs))"

definition cmd_hmget :: "env \<Rightarrow> resp list \<Rightarrow> resp handler" where
  "cmd_hmget E args =
     (if length args < 3 then fail (WrongArity (asc ''hmget''))
      else attempt (get_bytes_vec args 1 (asc ''HMGET'')) (\<lambda>key.
        view_ro E key (Inr (nulls (drop 2 args))) (hmget_value (drop 2 args))))"

fun hexists_value :: "bytes \<Rightarrow> data_type \<Rightarrow> resp result option" where
  "hexists_value field (DHash h) = map_option (\<lambda>b. Inr (resp_int (of_bool b))) (hashdata_contains_key h field)"
| "hexists_value field v = Some (Inl WrongType)"

definition cmd_hexists :: "env \<Rightarrow> resp list \<Rightarrow> resp handler" where
  "cmd_hexists E args =
     (if length args \<noteq> 3 then fail (WrongArity (asc ''hexists''))
      else attempt (get_bytes_vec args 1 (asc ''HEXISTS'')) (\<lambda>key.
        attempt (get_bytes_vec args 2 (asc ''HEXISTS'')) (\<lambda>field.
        view_ro E key (Inr (resp_int 0)) (hexists_value field))))"

fun hlen_value :: "data_type \<Rightarrow> resp result option" where
  "hlen_value (DHash h) = Some (Inr (resp_int (int (hashdata_len h))))"
| "hlen_value v = Some (Inl WrongType)"

definition cmd_hlen :: "env \<Rightarrow> resp list \<Rightarrow> resp handler" where
  "cmd_hlen E args =
     (if length args \<noteq> 2 then fail (WrongArity (asc ''hlen''))
      else attempt (get_bytes_vec args 1 (asc ''HLEN'')) (\<lambda>key. view_ro E key (Inr (resp_int 0)) hlen_value))"

text \<open>HGETALL takes a snapshot under the lock and frames it outside.\<close>

definition hgetall_items :: "hash_get_all_snap \<Rightarrow> bytes list option" where
  "hgetall_items sn = (case sn of SnapCompact buf n need \<Rightarrow> ch_bulk_collect buf n | SnapHashtable ps \<Rightarrow> Some (flat ps))"

fun hgetall_value :: "env \<Rightarrow> data_type \<Rightarrow> resp result option" where
  "hgetall_value E (DHash h) =
     (if hashdata_is_empty h then Some (Inr (resp_array []))
      else map_option (\<lambda>bs. Inr (resp_array (map resp_bulk bs))) (hgetall_items (hashdata_hgetall_snap (env_hash_order E) h)))"
| "hgetall_value E v = Some (Inl WrongType)"

definition cmd_hgetall :: "env \<Rightarrow> resp list \<Rightarrow> resp handler" where
  "cmd_hgetall E args =
     (if length args \<noteq> 2 then fail (WrongArity (asc ''hgetall''))
      else attempt (get_bytes_vec args 1 (asc ''HGETALL'')) (\<lambda>key. view_ro E key (Inr (resp_array [])) (hgetall_value E)))"

fun hkeys_value :: "env \<Rightarrow> data_type \<Rightarrow> resp result option" where
  "hkeys_value E (DHash h) = map_option (\<lambda>bs. Inr (resp_array (map resp_bulk bs))) (hashdata_keys (env_hash_order E) h)"
| "hkeys_value E v = Some (Inl WrongType)"

definition cmd_hkeys :: "env \<Rightarrow> resp list \<Rightarrow> resp handler" where
  "cmd_hkeys E args =
     (if length args \<noteq> 2 then fail (WrongArity (asc ''hkeys''))
      else attempt (get_bytes_vec args 1 (asc ''HKEYS'')) (\<lambda>key. view_ro E key (Inr (resp_array [])) (hkeys_value E)))"

fun hvals_value :: "env \<Rightarrow> data_type \<Rightarrow> resp result option" where
  "hvals_value E (DHash h) = map_option (\<lambda>bs. Inr (resp_array (map resp_bulk bs))) (hashdata_values (env_hash_order E) h)"
| "hvals_value E v = Some (Inl WrongType)"

definition cmd_hvals :: "env \<Rightarrow> resp list \<Rightarrow> resp handler" where
  "cmd_hvals E args =
     (if length args \<noteq> 2 then fail (WrongArity (asc ''hvals''))
      else attempt (get_bytes_vec args 1 (asc ''HVALS'')) (\<lambda>key. view_ro E key (Inr (resp_array [])) (hvals_value E)))"

section \<open>Cursors and random fields\<close>

fun hscan_value :: "env \<Rightarrow> u64 option \<Rightarrow> bytes option \<times> nat \<Rightarrow> data_type \<Rightarrow> resp result option" where
  "hscan_value E cursor op (DHash h) = do {
     ps \<leftarrow> hashdata_to_pairs (env_hash_order E) h;
     let (items, next_cursor) = scan_select_page (filter (\<lambda>p. glob_match (scan_pattern (fst op)) (fst p)) ps) cursor (snd op) fst;
     Some (Inr (scan_reply (flat items) next_cursor))
   }"
| "hscan_value E cursor op v = Some (Inl WrongType)"

definition cmd_hscan :: "env \<Rightarrow> resp list \<Rightarrow> resp handler" where
  "cmd_hscan E args =
     (if length args < 3 then fail (WrongArity (asc ''hscan''))
      else attempt (get_bytes_vec args 1 (asc ''HSCAN'')) (\<lambda>key.
        attempt (scan_options (asc ''HSCAN'') (drop 3 args) (None, 10)) (\<lambda>op.
        view_ro E key (Inr scan_empty_reply) (hscan_value E (scan_cursor_arg args 2 (asc ''HSCAN'')) op))))"

text \<open>The clock is read once per field picked.\<close>

definition hrandfield_reply :: "env \<Rightarrow> int option \<Rightarrow> bytes list \<Rightarrow> resp" where
  "hrandfield_reply E cnt fs = (case cnt of
     None \<Rightarrow> bulk_or_null (index fs (pseudo_rand_idx (env_nanos E 0) (length fs)))
   | Some n \<Rightarrow> resp_array
       (if n < 0 then map (\<lambda>i. bulk_or_null (index fs (pseudo_rand_idx (env_nanos E i) (length fs))))
            [0..<min (nat (- n)) MAX_RANDOM_SAMPLE]
        else map resp_bulk (take (nat n) fs)))"

fun hrandfield_value :: "env \<Rightarrow> int option \<Rightarrow> data_type \<Rightarrow> resp result option" where
  "hrandfield_value E cnt (DHash h) = map_option (\<lambda>fs. Inr (hrandfield_reply E cnt fs)) (hashdata_keys (env_hash_order E) h)"
| "hrandfield_value E cnt v = Some (Inl WrongType)"

definition cmd_hrandfield :: "env \<Rightarrow> resp list \<Rightarrow> resp handler" where
  "cmd_hrandfield E args =
     (if length args < 2 then fail (WrongArity (asc ''hrandfield''))
      else attempt (get_bytes_vec args 1 (asc ''HRANDFIELD'')) (\<lambda>key.
        attempt (if length args \<ge> 3 then map_sum id Some (get_i64 args 2 (asc ''HRANDFIELD'')) else Inr None) (\<lambda>cnt.
        view_rw E key (Inr resp_null) (hrandfield_value E cnt))))"

end
