(* ===== verification/List_Cmds.thy ===== *)
theory List_Cmds
  imports Handlers
begin

text \<open>
  The list commands (\<^verbatim>\<open>command/list.rs\<close>) and the move between two lists they share with
  \<^verbatim>\<open>store.rs\<close> (\<^verbatim>\<open>lmove_atomic\<close>): argument parsing, the edit of the value, the byte
  counter, the removal of emptied keys and the wake-up of blocked clients. The blocking variants retry
  \<open>lmpop_attempt\<close>, \<open>lmove_atomic\<close> or a pop until it succeeds; their waiting is not modelled.
\<close>

section \<open>Pushing and popping\<close>

text \<open>The loop over the values to push: a value that is no bulk string returns early.\<close>

fun push_args :: "list_thresholds \<Rightarrow> bool \<Rightarrow> bytes \<Rightarrow> resp list \<Rightarrow> list_data \<Rightarrow> int
    \<Rightarrow> (int result \<times> list_data \<times> int) option" where
  "push_args thr left cmd [] l delta = Some (Inr (int (listdata_len l)), l, delta)"
| "push_args thr left cmd (a # rest) l delta = (case resp_as_bytes a of
     None \<Rightarrow> Some (Inl (WrongArity (to_lowercase cmd)), l, 0)
   | Some val \<Rightarrow> do {
       l \<leftarrow> (if left then listdata_push_front thr l val else listdata_push_back thr l val);
       push_args thr left cmd rest l (delta + int (length val))
     })"

text \<open>The first component of the reply says whether the waiters are notified.\<close>

fun push_value :: "env \<Rightarrow> bool \<Rightarrow> bytes \<Rightarrow> resp list \<Rightarrow> data_type
    \<Rightarrow> ((bool \<times> resp result) \<times> data_type \<times> int \<times> bool) option" where
  "push_value E left cmd vals (DList l) = do {
     (r, l, delta) \<leftarrow> push_args (env_list E) left cmd vals l 0;
     Some (case r of Inl e \<Rightarrow> (False, Inl e) | Inr n \<Rightarrow> (True, Inr (resp_int n)), DList l, delta, False)
   }"
| "push_value E left cmd vals v = Some ((False, Inl WrongType), v, 0, False)"

definition push_db :: "env \<Rightarrow> bool \<Rightarrow> bool \<Rightarrow> bytes \<Rightarrow> bytes \<Rightarrow> resp list \<Rightarrow> database \<Rightarrow> ((bool \<times> resp result) \<times> database) option" where
  "push_db E left only_if_exists cmd key vals d =
     (let (present, d) = (if only_if_exists then db_contains_key (env_now E) key d else (True, d)) in
      if \<not> present then Some ((False, Inr (resp_int 0)), d)
      else upsert (env_now E) key (DList listdata_new) (push_value E left cmd vals) d)"

definition list_push :: "env \<Rightarrow> resp list \<Rightarrow> bool \<Rightarrow> bool \<Rightarrow> bytes \<Rightarrow> resp handler" where
  "list_push E args left only_if_exists cmd s =
     (if length args < 3 then fail (WrongArity cmd) s
      else case arg args 1 resp_as_bytes of
        None \<Rightarrow> fail (WrongArity (to_lowercase cmd)) s
      | Some key \<Rightarrow> map_option (\<lambda>((notify, r), s). (r, if notify then notify_list_waiters s else s))
          (on_key key (push_db E left only_if_exists cmd key (drop 2 args)) s))"

definition cmd_lpush :: "env \<Rightarrow> resp list \<Rightarrow> resp handler" where
  "cmd_lpush E args = list_push E args True False (asc ''LPUSH'')"

definition cmd_rpush :: "env \<Rightarrow> resp list \<Rightarrow> resp handler" where
  "cmd_rpush E args = list_push E args False False (asc ''RPUSH'')"

definition cmd_lpushx :: "env \<Rightarrow> resp list \<Rightarrow> resp handler" where
  "cmd_lpushx E args = list_push E args True True (asc ''LPUSHX'')"

definition cmd_rpushx :: "env \<Rightarrow> resp list \<Rightarrow> resp handler" where
  "cmd_rpushx E args = list_push E args False True (asc ''RPUSHX'')"

abbreviation pop_end :: "env \<Rightarrow> bool \<Rightarrow> list_data \<Rightarrow> (bytes option \<times> list_data) option" where
  "pop_end E left \<equiv> (if left then listdata_pop_front (env_list E) else listdata_pop_back (env_list E))"

fun pop_value :: "env \<Rightarrow> bool \<Rightarrow> nat option \<Rightarrow> data_type \<Rightarrow> (resp result \<times> data_type \<times> int \<times> bool) option" where
  "pop_value E left (Some n) (DList l) = do {
     (vs, l) \<leftarrow> pop_loop (pop_end E left) n l;
     Some (Inr (resp_array (map resp_bulk vs)), DList l, - int (payload vs), listdata_is_empty l)
   }"
| "pop_value E left None (DList l) = do {
     (x, l) \<leftarrow> pop_end E left l;
     Some (case x of Some v \<Rightarrow> (Inr (resp_bulk v), DList l, - int (length v), listdata_is_empty l)
       | None \<Rightarrow> (Inr resp_null, DList l, 0, listdata_is_empty l))
   }"
| "pop_value E left cnt v = Some (Inl WrongType, v, 0, False)"

definition list_pop :: "env \<Rightarrow> resp list \<Rightarrow> bool \<Rightarrow> bytes \<Rightarrow> resp handler" where
  "list_pop E args left cmd =
     (if length args < 2 then fail (WrongArity cmd)
      else attempt (get_bytes_vec args 1 cmd) (\<lambda>key.
        attempt (if length args \<ge> 3
          then attempt_e (get_i64 args 2 cmd) (\<lambda>n. if n < 0 then Inl (Generic (asc ''value is not an integer or out of range''))
            else Inr (Some (nat n)))
          else Inr None) (\<lambda>cnt.
        on_key key (edit_live (env_now E) key (Inr resp_null) (pop_value E left cnt)))))"

definition cmd_lpop :: "env \<Rightarrow> resp list \<Rightarrow> resp handler" where
  "cmd_lpop E args = list_pop E args True (asc ''LPOP'')"

definition cmd_rpop :: "env \<Rightarrow> resp list \<Rightarrow> resp handler" where
  "cmd_rpop E args = list_pop E args False (asc ''RPOP'')"

section \<open>Reading\<close>

definition normalize_idx :: "int \<Rightarrow> int \<Rightarrow> nat" where
  "normalize_idx idx len = (if idx < 0 then nat (max (len + idx) 0) else nat idx)"

fun llen_value :: "data_type \<Rightarrow> resp result option" where
  "llen_value (DList l) = Some (Inr (resp_int (int (listdata_len l))))"
| "llen_value v = Some (Inl WrongType)"

definition cmd_llen :: "env \<Rightarrow> resp list \<Rightarrow> resp handler" where
  "cmd_llen E args =
     (if length args \<noteq> 2 then fail (WrongArity (asc ''llen''))
      else attempt (get_bytes_vec args 1 (asc ''LLEN'')) (\<lambda>key. view_ro E key (Inr (resp_int 0)) llen_value))"

definition EMPTY_ARRAY :: bytes where "EMPTY_ARRAY = [0x2A, 0x30, 0x0D, 0x0A]"

abbreviation usize_text :: "env \<Rightarrow> nat \<Rightarrow> bytes" where
  "usize_text E n \<equiv> env_itoa E (int n)"

text \<open>The elements of the range, snapshotted under the lock and framed outside it. The walk over the snapshot
  (\<^verbatim>\<open>CompactRegionIter\<close>) is the walk over the frames of a compact list.\<close>

fun lrange_elems :: "list_data \<Rightarrow> nat \<Rightarrow> nat \<Rightarrow> bytes list option" where
  "lrange_elems (ListCompact c) start stop = do {
     sn \<leftarrow> cl_range_snap c start stop;
     region \<leftarrow> subslice (crs_buf sn) (crs_begin sn) (crs_end sn);
     compact_iter_collect region 0 (crs_count sn)
   }"
| "lrange_elems (ListLinked d) start stop = subslice (ll_items d) start (stop + 1)"

fun lrange_value :: "env \<Rightarrow> int \<Rightarrow> int \<Rightarrow> data_type \<Rightarrow> resp result option" where
  "lrange_value E start stop (DList l) =
     (let len = int (listdata_len l); start = normalize_idx start len; stop = normalize_idx stop len in
      if start \<ge> listdata_len l \<or> start > stop then Some (Inr (RRaw EMPTY_ARRAY))
      else do {
        elems \<leftarrow> lrange_elems l start (min stop (listdata_len l - 1));
        Some (Inr (RRaw (write_bulk_array_into (usize_text E) [] elems)))
      })"
| "lrange_value E start stop v = Some (Inl WrongType)"

definition cmd_lrange :: "env \<Rightarrow> resp list \<Rightarrow> resp handler" where
  "cmd_lrange E args =
     (if length args \<noteq> 4 then fail (WrongArity (asc ''lrange''))
      else attempt (get_bytes args 1 (asc ''LRANGE'')) (\<lambda>key.
        attempt (get_i64 args 2 (asc ''LRANGE'')) (\<lambda>start.
        attempt (get_i64 args 3 (asc ''LRANGE'')) (\<lambda>stop.
        view_ro E key (Inr (RRaw EMPTY_ARRAY)) (lrange_value E start stop)))))"

fun lindex_value :: "int \<Rightarrow> data_type \<Rightarrow> resp result option" where
  "lindex_value idx (DList l) = do {
     x \<leftarrow> listdata_get l (normalize_idx idx (int (listdata_len l)));
     Some (Inr (case x of Some v \<Rightarrow> resp_bulk v | None \<Rightarrow> resp_null))
   }"
| "lindex_value idx v = Some (Inl WrongType)"

definition cmd_lindex :: "env \<Rightarrow> resp list \<Rightarrow> resp handler" where
  "cmd_lindex E args =
     (if length args \<noteq> 3 then fail (WrongArity (asc ''lindex''))
      else attempt (get_bytes_vec args 1 (asc ''LINDEX'')) (\<lambda>key.
        attempt (get_i64 args 2 (asc ''LINDEX'')) (\<lambda>idx.
        view_ro E key (Inr resp_null) (lindex_value idx))))"

section \<open>Changing elements\<close>

text \<open>An index out of range returns before the counter is adjusted, by nothing.\<close>

fun lset_value :: "int \<Rightarrow> bytes \<Rightarrow> data_type \<Rightarrow> (resp result \<times> data_type \<times> int \<times> bool) option" where
  "lset_value idx val (DList l) = do {
     ((done, delta), l) \<leftarrow> listdata_set l (normalize_idx idx (int (listdata_len l))) val;
     Some (if \<not> done then (Inl IndexOutOfRange, DList l, 0, False) else (Inr resp_ok, DList l, delta, False))
   }"
| "lset_value idx val v = Some (Inl WrongType, v, 0, False)"

definition cmd_lset :: "env \<Rightarrow> resp list \<Rightarrow> resp handler" where
  "cmd_lset E args =
     (if length args \<noteq> 4 then fail (WrongArity (asc ''lset''))
      else attempt (get_bytes_vec args 1 (asc ''LSET'')) (\<lambda>key.
        attempt (get_i64 args 2 (asc ''LSET'')) (\<lambda>idx.
        attempt (get_bytes args 3 (asc ''LSET'')) (\<lambda>val.
        on_key key (edit_live (env_now E) key (Inl (Generic (asc ''no such key''))) (lset_value idx val))))))"

fun linsert_value :: "bool \<Rightarrow> bytes \<Rightarrow> bytes \<Rightarrow> data_type \<Rightarrow> (resp result \<times> data_type \<times> int \<times> bool) option" where
  "linsert_value before pivot element (DList l) = do {
     (n, l) \<leftarrow> (if before then listdata_insert_before l pivot element else listdata_insert_after l pivot element);
     Some (case n of Some len \<Rightarrow> (Inr (resp_int (int len)), DList l, int (length element), False)
       | None \<Rightarrow> (Inr (resp_int (- 1)), DList l, 0, False))
   }"
| "linsert_value before pivot element v = Some (Inl WrongType, v, 0, False)"

definition cmd_linsert :: "env \<Rightarrow> resp list \<Rightarrow> resp handler" where
  "cmd_linsert E args =
     (if length args \<noteq> 5 then fail (WrongArity (asc ''linsert''))
      else attempt (get_bytes_vec args 1 (asc ''LINSERT'')) (\<lambda>key.
        attempt (get_str args 2 (asc ''LINSERT'')) (\<lambda>where_opt.
        attempt (get_bytes args 3 (asc ''LINSERT'')) (\<lambda>pivot.
        attempt (get_bytes args 4 (asc ''LINSERT'')) (\<lambda>element.
        attempt (if to_uppercase where_opt = asc ''BEFORE'' then Inr True
                 else if to_uppercase where_opt = asc ''AFTER'' then Inr False else Inl SyntaxError) (\<lambda>before.
        on_key key (edit_live (env_now E) key (Inr (resp_int (- 1))) (linsert_value before pivot element))))))))"

fun lrem_value :: "env \<Rightarrow> int \<Rightarrow> bytes \<Rightarrow> data_type \<Rightarrow> (resp result \<times> data_type \<times> int \<times> bool) option" where
  "lrem_value E cnt element (DList l) = do {
     ((removed, delta), l) \<leftarrow> listdata_rem (env_list E) l cnt element;
     Some (Inr (resp_int (int removed)), DList l, delta, listdata_is_empty l)
   }"
| "lrem_value E cnt element v = Some (Inl WrongType, v, 0, False)"

definition cmd_lrem :: "env \<Rightarrow> resp list \<Rightarrow> resp handler" where
  "cmd_lrem E args =
     (if length args \<noteq> 4 then fail (WrongArity (asc ''lrem''))
      else attempt (get_bytes_vec args 1 (asc ''LREM'')) (\<lambda>key.
        attempt (get_i64 args 2 (asc ''LREM'')) (\<lambda>cnt.
        attempt (get_bytes args 3 (asc ''LREM'')) (\<lambda>element.
        on_key key (edit_live (env_now E) key (Inr (resp_int 0)) (lrem_value E cnt element))))))"

fun ltrim_value :: "env \<Rightarrow> int \<Rightarrow> int \<Rightarrow> data_type \<Rightarrow> (resp result \<times> data_type \<times> int \<times> bool) option" where
  "ltrim_value E start stop (DList l) =
     (let len = int (listdata_len l); start = normalize_idx start len; stop = normalize_idx stop len in do {
        (delta, l) \<leftarrow> (if start \<ge> listdata_len l \<or> start > stop then listdata_trim (env_list E) l 1 0
          else listdata_trim (env_list E) l start (min stop (listdata_len l - 1)));
        Some (Inr resp_ok, DList l, delta, listdata_is_empty l)
      })"
| "ltrim_value E start stop v = Some (Inl WrongType, v, 0, False)"

definition cmd_ltrim :: "env \<Rightarrow> resp list \<Rightarrow> resp handler" where
  "cmd_ltrim E args =
     (if length args \<noteq> 4 then fail (WrongArity (asc ''ltrim''))
      else attempt (get_bytes_vec args 1 (asc ''LTRIM'')) (\<lambda>key.
        attempt (get_i64 args 2 (asc ''LTRIM'')) (\<lambda>start.
        attempt (get_i64 args 3 (asc ''LTRIM'')) (\<lambda>stop.
        on_key key (edit_live (env_now E) key (Inr resp_ok) (ltrim_value E start stop))))))"

section \<open>Moving an element between two lists\<close>

fun pop_list_value :: "env \<Rightarrow> bool \<Rightarrow> data_type \<Rightarrow> (bytes option result \<times> data_type \<times> int \<times> bool) option" where
  "pop_list_value E left (DList l) = do {
     (x, l) \<leftarrow> pop_end E left l;
     Some (case x of Some v \<Rightarrow> (Inr (Some v), DList l, - int (length v), listdata_is_empty l)
       | None \<Rightarrow> (Inr None, DList l, 0, False))
   }"
| "pop_list_value E left v = Some (Inl WrongType, v, 0, False)"

fun push_list_value :: "env \<Rightarrow> bool \<Rightarrow> bytes \<Rightarrow> data_type \<Rightarrow> (unit \<times> data_type \<times> int \<times> bool) option" where
  "push_list_value E left val (DList l) = do {
     l \<leftarrow> (if left then listdata_push_front (env_list E) l val else listdata_push_back (env_list E) l val);
     Some ((), DList l, int (length val), False)
   }"
| "push_list_value E left val v = Some ((), v, int (length val), False)"

definition push_list :: "env \<Rightarrow> bool \<Rightarrow> bytes \<Rightarrow> bytes \<Rightarrow> database \<Rightarrow> (unit \<times> database) option" where
  "push_list E left key val d =
     map_option (\<lambda>(r, d). (r, db_bump_version key d)) (upsert (env_now E) key (DList listdata_new) (push_list_value E left val) d)"

definition dst_ok :: "env \<Rightarrow> bytes \<Rightarrow> database \<Rightarrow> unit result" where
  "dst_ok E dst d = (case db_get_ro (env_now E) dst d of
     None \<Rightarrow> Inr ()
   | Some e \<Rightarrow> (case en_value e of DList _ \<Rightarrow> Inr () | _ \<Rightarrow> Inl WrongType))"

text \<open>Both branches of the code run the same steps, on two guarded shards or on one; all locks are held
  throughout.\<close>

definition lmove_atomic :: "env \<Rightarrow> bytes \<Rightarrow> bytes \<Rightarrow> bool \<Rightarrow> bool \<Rightarrow> sharded \<Rightarrow> (bytes option result \<times> sharded) option" where
  "lmove_atomic E src dst from_left to_left s = do {
     d \<leftarrow> read_for s dst;
     case dst_ok E dst d of
       Inl e \<Rightarrow> Some (Inl e, s)
     | Inr _ \<Rightarrow> do {
         (r, s) \<leftarrow> locked src (edit_live (env_now E) src (Inr None) (pop_list_value E from_left)) s;
         case r of
           Inr (Some val) \<Rightarrow> do {
             (_, s) \<leftarrow> locked dst (push_list E to_left dst val) s;
             Some (Inr (Some val), s)
           }
         | r \<Rightarrow> Some (r, s)
       }
   }"

definition lmove_reply :: "env \<Rightarrow> bytes \<Rightarrow> bytes \<Rightarrow> bool \<Rightarrow> bool \<Rightarrow> resp handler" where
  "lmove_reply E src dst from_left to_left s = do {
     (r, db) \<leftarrow> lmove_atomic E src dst from_left to_left (cs_db s);
     let s = s\<lparr>cs_db := db\<rparr>;
     Some (case r of
         Inl e \<Rightarrow> (Inl e, s)
       | Inr (Some val) \<Rightarrow> (Inr (resp_bulk val), notify_list_waiters s)
       | Inr None \<Rightarrow> (Inr resp_null, s))
   }"

definition cmd_lmove :: "env \<Rightarrow> resp list \<Rightarrow> resp handler" where
  "cmd_lmove E args =
     (if length args \<noteq> 5 then fail (WrongArity (asc ''lmove''))
      else attempt (get_bytes_vec args 1 (asc ''LMOVE'')) (\<lambda>src.
        attempt (get_bytes_vec args 2 (asc ''LMOVE'')) (\<lambda>dst.
        attempt (get_str args 3 (asc ''LMOVE'')) (\<lambda>wherefrom.
        attempt (get_str args 4 (asc ''LMOVE'')) (\<lambda>whereto.
        lmove_reply E src dst (to_uppercase wherefrom = asc ''LEFT'') (to_uppercase whereto = asc ''LEFT''))))))"

definition cmd_rpoplpush :: "env \<Rightarrow> resp list \<Rightarrow> resp handler" where
  "cmd_rpoplpush E args =
     (if length args \<noteq> 3 then fail (WrongArity (asc ''rpoplpush''))
      else attempt (get_bytes_vec args 1 (asc ''RPOPLPUSH'')) (\<lambda>src.
        attempt (get_bytes_vec args 2 (asc ''RPOPLPUSH'')) (\<lambda>dst.
        lmove_reply E src dst False True)))"

section \<open>LPOS\<close>

record lpos_opts =
  lp_rank :: int
  lp_count :: "nat option"
  lp_maxlen :: nat

text \<open>The options from position \<^verbatim>\<open>i\<close> on.\<close>

fun lpos_options :: "resp list \<Rightarrow> lpos_opts \<Rightarrow> lpos_opts result" where
  "lpos_options [] op = Inr op"
| "lpos_options (a # rest) op =
     (let word = map_option to_uppercase (resp_as_str a); bad = Generic (asc ''value is not an integer or out of range'') in
      if word = Some (asc ''RANK'') then attempt_e (get_i64 rest 0 (asc ''LPOS'')) (\<lambda>r.
        if r = 0 then Inl (Generic (asc ''RANK can'' @ [0x27] @ asc ''t be zero: use 1 to start from the first match, 2 from the second, ...''))
        else lpos_options (drop 1 rest) (op\<lparr>lp_rank := r\<rparr>))
      else if word = Some (asc ''COUNT'') then attempt_e (get_i64 rest 0 (asc ''LPOS'')) (\<lambda>n.
        if n < 0 then Inl bad else lpos_options (drop 1 rest) (op\<lparr>lp_count := Some (nat n)\<rparr>))
      else if word = Some (asc ''MAXLEN'') then attempt_e (get_i64 rest 0 (asc ''LPOS'')) (\<lambda>n.
        if n < 0 then Inl bad else lpos_options (drop 1 rest) (op\<lparr>lp_maxlen := nat n\<rparr>))
      else Inl SyntaxError)"

text \<open>The scan over the numbered elements, from either end; \<open>rank\<close> is the magnitude of RANK.\<close>

fun lpos_loop :: "nat \<Rightarrow> nat \<Rightarrow> bytes \<Rightarrow> (nat \<times> bytes) list \<Rightarrow> nat \<Rightarrow> nat list \<Rightarrow> nat list" where
  "lpos_loop rank want element [] matches_seen results = results"
| "lpos_loop rank want element ((idx, v) # rest) matches_seen results =
     (if v = element then
        let matches_seen = matches_seen + 1 in
        if matches_seen \<ge> rank then
          let results = results @ [idx] in
          if length results \<ge> want then results else lpos_loop rank want element rest matches_seen results
        else lpos_loop rank want element rest matches_seen results
      else lpos_loop rank want element rest matches_seen results)"

fun lpos_value :: "bytes \<Rightarrow> lpos_opts \<Rightarrow> data_type \<Rightarrow> resp result option" where
  "lpos_value element op (DList l) = do {
     elems \<leftarrow> listdata_to_vec_bytes l;
     let limit = (if lp_maxlen op = 0 then length elems else min (lp_maxlen op) (length elems));
     let want = (case lp_count op of Some n \<Rightarrow> n | None \<Rightarrow> 1);
     let numbered = enumerate 0 elems;
     let results = (if lp_rank op \<ge> 0 then lpos_loop (nat (lp_rank op)) want element (take limit numbered) 0 []
       else rev (lpos_loop (nat (- lp_rank op)) want element (take limit (rev numbered)) 0 []));
     Some (Inr (if lp_count op \<noteq> None then resp_array (map (resp_int \<circ> int) results)
       else case results of i # _ \<Rightarrow> resp_int (int i) | [] \<Rightarrow> resp_null))
   }"
| "lpos_value element op v = Some (Inl WrongType)"

definition cmd_lpos :: "env \<Rightarrow> resp list \<Rightarrow> resp handler" where
  "cmd_lpos E args =
     (if length args < 3 then fail (WrongArity (asc ''lpos''))
      else attempt (get_bytes_vec args 1 (asc ''LPOS'')) (\<lambda>key.
        attempt (get_bytes args 2 (asc ''LPOS'')) (\<lambda>element.
        attempt (lpos_options (drop 3 args) \<lparr>lp_rank = 1, lp_count = None, lp_maxlen = 0\<rparr>) (\<lambda>op.
        view_ro E key (Inr (if lp_count op \<noteq> None then resp_array [] else resp_null)) (lpos_value element op)))))"

section \<open>LMPOP\<close>

fun lmpop_value :: "env \<Rightarrow> bytes \<Rightarrow> bool \<Rightarrow> nat \<Rightarrow> data_type \<Rightarrow> (resp option \<times> data_type \<times> int \<times> bool) option" where
  "lmpop_value E key left cnt (DList l) =
     (if listdata_is_empty l then Some (None, DList l, 0, False)
      else do {
        (vs, l) \<leftarrow> pop_loop (pop_end E left) cnt l;
        Some (Some (resp_array [resp_bulk key, resp_array (map resp_bulk vs)]), DList l, - int (payload vs), listdata_is_empty l)
      })"
| "lmpop_value E key left cnt v = Some (None, v, 0, False)"

fun lmpop_attempt :: "env \<Rightarrow> bytes list \<Rightarrow> bool \<Rightarrow> nat \<Rightarrow> cmd_state \<Rightarrow> (resp option \<times> cmd_state) option" where
  "lmpop_attempt E [] left cnt s = Some (None, s)"
| "lmpop_attempt E (key # keys) left cnt s = do {
     (r, s) \<leftarrow> on_key key (edit_live (env_now E) key None (lmpop_value E key left cnt)) s;
     case r of Some resp \<Rightarrow> Some (Some resp, s) | None \<Rightarrow> lmpop_attempt E keys left cnt s
   }"

definition parse_numkeys :: "resp list \<Rightarrow> nat \<Rightarrow> bytes \<Rightarrow> nat result" where
  "parse_numkeys args i cmd = attempt_e (get_i64 args i cmd) (\<lambda>n.
     if n \<le> 0 then Inl (Generic (asc ''numkeys should be greater than 0'')) else Inr (nat n))"

text \<open>\<^verbatim>\<open>collect::<Result<_>>\<close> stops at the first error.\<close>

fun collect_results :: "'a result list \<Rightarrow> 'a list result" where
  "collect_results [] = Inr []"
| "collect_results (x # xs) = attempt_e x (\<lambda>v. attempt_e (collect_results xs) (\<lambda>vs. Inr (v # vs)))"

definition parse_keys :: "resp list \<Rightarrow> nat \<Rightarrow> nat \<Rightarrow> bytes \<Rightarrow> (bytes list \<times> nat) result" where
  "parse_keys args i n cmd =
     (if length args < i + n then Inl (WrongArity cmd)
      else attempt_e (collect_results (map (\<lambda>j. get_bytes_vec args j cmd) [i..<i + n])) (\<lambda>keys. Inr (keys, i + n)))"

definition parse_lmpop_tail :: "resp list \<Rightarrow> bytes \<Rightarrow> (bool \<times> nat) result" where
  "parse_lmpop_tail args cmd =
     (if args = [] then Inl (WrongArity cmd)
      else attempt_e (get_str args 0 cmd) (\<lambda>dir.
        attempt_e (if to_ascii_uppercase dir = asc ''LEFT'' then Inr True
          else if to_ascii_uppercase dir = asc ''RIGHT'' then Inr False else Inl (Generic (asc ''syntax error''))) (\<lambda>left.
        attempt_e (if 1 < length args
          then attempt_e (get_str args 1 cmd) (\<lambda>w. if to_ascii_uppercase w = asc ''COUNT''
            then (if 2 \<ge> length args then Inl (WrongArity cmd)
                  else attempt_e (get_i64 args 2 cmd) (\<lambda>n. if n < 0 then Inl (Generic (asc ''value is out of range'')) else Inr (nat n, 3)))
            else Inr (1, 1))
          else Inr (1, 1)) (\<lambda>(cnt, i).
        if i \<noteq> length args then Inl (Generic (asc ''syntax error'')) else Inr (left, cnt)))))"

definition cmd_lmpop :: "env \<Rightarrow> resp list \<Rightarrow> resp handler" where
  "cmd_lmpop E args =
     (if length args < 4 then fail (WrongArity (asc ''lmpop''))
      else attempt (parse_numkeys args 1 (asc ''LMPOP'')) (\<lambda>numkeys.
        attempt (parse_keys args 2 numkeys (asc ''LMPOP'')) (\<lambda>(keys, rest_start).
        attempt (parse_lmpop_tail (drop rest_start args) (asc ''LMPOP'')) (\<lambda>(left, cnt) s.
        map_option (\<lambda>(r, s). (Inr (case r of Some resp \<Rightarrow> resp | None \<Rightarrow> resp_null_array), s)) (lmpop_attempt E keys left cnt s)))))"

end
