(* ===== verification/List_Laws.thy ===== *)
theory List_Laws
  imports List_Cmds
begin

text \<open>
  What the list commands do: the edits of \<^verbatim>\<open>command/list.rs\<close> as instances of the contract of a
  command on one type of value, the specification of the commands on a keyspace of plain lists
  (\<open>list_spec\<close>), and that every command, from its arguments on, implements it.
\<close>

section \<open>The effects on a list\<close>

fun proj_list :: "aval \<Rightarrow> bytes list option" where
  "proj_list (AList vs) = Some vs"
| "proj_list _ = None"

definition unless_empty :: "'a list \<Rightarrow> 'a list option" where
  "unless_empty ws = (if ws = [] then None else Some ws)"

definition push_spec :: "bool \<Rightarrow> bytes list \<Rightarrow> bytes list \<Rightarrow> (bool \<times> resp result) \<times> bytes list option" where
  "push_spec left xs vs = (let ws = (if left then rev xs @ vs else vs @ xs) in
     ((True, Inr (resp_int (int (length ws)))), Some ws))"

definition taken :: "bool \<Rightarrow> nat \<Rightarrow> bytes list \<Rightarrow> bytes list" where
  "taken left n vs = (if left then take n vs else take n (rev vs))"

definition remains :: "bool \<Rightarrow> nat \<Rightarrow> bytes list \<Rightarrow> bytes list" where
  "remains left n vs = (if left then drop n vs else take (length vs - n) vs)"

fun pop_spec :: "bool \<Rightarrow> nat option \<Rightarrow> bytes list \<Rightarrow> resp result \<times> bytes list option" where
  "pop_spec left (Some n) vs = (Inr (resp_array (map resp_bulk (taken left n vs))), unless_empty (remains left n vs))"
| "pop_spec left None vs =
     (Inr (case taken left 1 vs of [] \<Rightarrow> resp_null | v # _ \<Rightarrow> resp_bulk v), unless_empty (remains left 1 vs))"

definition lset_spec :: "int \<Rightarrow> bytes \<Rightarrow> bytes list \<Rightarrow> resp result \<times> bytes list option" where
  "lset_spec idx val vs = (let i = normalize_idx idx (int (length vs)) in
     if i < length vs then (Inr resp_ok, Some (vs[i := val])) else (Inl IndexOutOfRange, Some vs))"

definition linsert_spec :: "bool \<Rightarrow> bytes \<Rightarrow> bytes \<Rightarrow> bytes list \<Rightarrow> resp result \<times> bytes list option" where
  "linsert_spec before pivot element vs =
     (let xs = takeWhile (\<lambda>v. v \<noteq> pivot) vs; ys = dropWhile (\<lambda>v. v \<noteq> pivot) vs in
      if ys = [] then (Inr (resp_int (- 1)), Some vs)
      else (Inr (resp_int (int (length vs + 1))), Some (if before then xs @ element # ys else xs @ hd ys # element # tl ys)))"

definition lrem_effect :: "int \<Rightarrow> bytes \<Rightarrow> bytes list \<Rightarrow> resp result \<times> bytes list option" where
  "lrem_effect cnt element vs = (Inr (resp_int (int (lrem_count cnt element vs))), unless_empty (lrem_spec cnt element vs))"

text \<open>The elements from \<open>start\<close> to \<open>stop\<close>, both counted from the end when negative.\<close>

definition list_slice :: "int \<Rightarrow> int \<Rightarrow> 'a list \<Rightarrow> 'a list" where
  "list_slice start stop vs = (let i = normalize_idx start (int (length vs)); j = normalize_idx stop (int (length vs)) in
     take (Suc j - i) (drop i vs))"

definition ltrim_spec :: "int \<Rightarrow> int \<Rightarrow> bytes list \<Rightarrow> resp result \<times> bytes list option" where
  "ltrim_spec start stop vs = (Inr resp_ok, unless_empty (list_slice start stop vs))"

definition pop_one_spec :: "bool \<Rightarrow> bytes list \<Rightarrow> bytes option result \<times> bytes list option" where
  "pop_one_spec left vs = (case taken left 1 vs of [] \<Rightarrow> (Inr None, Some vs)
     | v # _ \<Rightarrow> (Inr (Some v), unless_empty (remains left 1 vs)))"

definition push_one_spec :: "bool \<Rightarrow> bytes \<Rightarrow> bytes list \<Rightarrow> unit \<times> bytes list option" where
  "push_one_spec left val vs = ((), Some (if left then val # vs else vs @ [val]))"

definition lmpop_spec :: "bytes \<Rightarrow> bool \<Rightarrow> nat \<Rightarrow> bytes list \<Rightarrow> resp option \<times> bytes list option" where
  "lmpop_spec key left cnt vs = (if vs = [] then (None, Some vs)
     else (Some (resp_array [resp_bulk key, resp_array (map resp_bulk (taken left cnt vs))]), unless_empty (remains left cnt vs)))"

section \<open>The edits implement them\<close>

interpretation lty: coll_type lim DList proj_list AList "listdata_rel lim" for lim
proof
  fix a :: aval and x show "(proj_list a = Some x) = (a = AList x)" by (cases a) auto
next
  fix v x assume "val_is lim v (AList x)" then show "\<exists>c. v = DList c" by (cases v) auto
qed auto

lemma list_opI:
  assumes "\<And>l vs. ok \<Longrightarrow> listdata_rel lim l vs \<Longrightarrow> \<exists>r l' emptied ws. f (DList l) = Some (r, DList l', int (payload ws) - int (payload vs), emptied)
      \<and> listdata_rel lim l' ws \<and> g vs = (r, if emptied then None else Some ws)"
    and "\<And>v. \<nexists>l. v = DList l \<Longrightarrow> f v = Some (wrong, v, 0, False)"
  shows "coll_op lim DList proj_list AList (listdata_rel lim) ok f wrong g"
proof
  fix l vs assume "ok" and l: "listdata_rel lim l vs"
  from assms(1) [OF this] obtain r l' emptied ws where
    f: "f (DList l) = Some (r, DList l', int (payload ws) - int (payload vs), emptied)" "listdata_rel lim l' ws"
      "g vs = (r, if emptied then None else Some ws)" by blast
  then show "\<exists>r c' delta emptied y. f (DList l) = Some (r, DList c', delta, emptied) \<and> listdata_rel lim c' y
      \<and> int (value_size (DList c')) = int (value_size (DList l)) + delta \<and> g vs = (r, if emptied then None else Some y)"
    using listdata_payload_rel [OF l] listdata_payload_rel [OF f(2)] by auto
qed (rule assms(2))

lemma list_res:
  "fv = Some (r, DList l', int (payload ws) - int (payload vs), emptied) \<Longrightarrow> listdata_rel lim l' ws
    \<Longrightarrow> gv = (r, if emptied then None else Some ws) \<Longrightarrow>
   \<exists>r l' emptied ws. fv = Some (r, DList l', int (payload ws) - int (payload vs), emptied)
      \<and> listdata_rel lim l' ws \<and> gv = (r, if emptied then None else Some ws)"
  by (intro exI conjI)

lemma is_empty_rel: "listdata_rel lim l vs \<Longrightarrow> listdata_is_empty l \<longleftrightarrow> vs = []"
  by (simp add: listdata_is_empty_def listdata_len_rel)

lemma push_loop_args:
  assumes "map resp_as_bytes vals = map Some xs"
  shows "push_args thr left cmd vals l delta = map_option (\<lambda>l. (Inr (int (listdata_len l)), l, delta + int (payload xs)))
    (push_loop (if left then listdata_push_front thr else listdata_push_back thr) l xs)"
  using assms
proof (induction vals arbitrary: xs l delta)
  case (Cons a vals)
  then obtain x ys where x: "xs = x # ys" "resp_as_bytes a = Some x" "map resp_as_bytes vals = map Some ys" by auto
  show ?case using Cons.IH [OF x(3)] x by (cases left) (auto simp: add.assoc split: bind_splits)
qed simp

interpretation pu: coll_op lim DList proj_list AList "listdata_rel lim"
  "env_ok lim E \<and> map resp_as_bytes vals = map Some xs" "push_value E left cmd vals" "(False, Inl WrongType)" "push_spec left xs"
  for lim E vals xs left cmd
proof (rule list_opI)
  fix l vs
  assume a: "env_ok lim E \<and> map resp_as_bytes vals = map Some xs" and l: "listdata_rel lim l vs"
  then have r: "list_within (env_list E) lim \<and> listdata_rel lim l vs" by (simp add: env_ok_def)
  define ws where "ws = (if left then rev xs @ vs else vs @ xs)"
  obtain l' where l': "push_loop (if left then listdata_push_front (env_list E) else listdata_push_back (env_list E)) l xs = Some l'"
    "listdata_rel lim l' ws"
    using ld.push_front_loop [OF r, of xs] ld.push_back_loop [OF r, of xs] by (cases left) (auto simp: ws_def)
  then have "push_value E left cmd vals (DList l)
      = Some ((True, Inr (resp_int (int (length ws)))), DList l', int (payload ws) - int (payload vs), False)"
    using a by (simp add: push_loop_args listdata_len_rel) (simp add: ws_def)
  then show "\<exists>r l' emptied ws. push_value E left cmd vals (DList l) = Some (r, DList l', int (payload ws) - int (payload vs), emptied)
      \<and> listdata_rel lim l' ws \<and> push_spec left xs vs = (r, if emptied then None else Some ws)"
    by (rule list_res [OF _ l'(2)]) (simp add: push_spec_def ws_def Let_def)
next
  fix v :: data_type assume "\<nexists>l. v = DList l"
  then show "push_value E left cmd vals v = Some ((False, Inl WrongType), v, 0, False)" by (cases v) auto
qed

text \<open>Popping \<open>n\<close> elements, by the loop or one.\<close>

lemma payload_taken: "payload (taken left n vs) + payload (remains left n vs) = payload vs"
proof (cases left)
  case True
  then show ?thesis using payload_take_drop by (simp add: taken_def remains_def)
next
  case False
  have "payload (take n (rev vs)) = payload (drop (length vs - n) vs)" by (simp add: take_rev)
  then show ?thesis using False payload_take_drop [of "length vs - n" vs] by (simp add: taken_def remains_def)
qed

lemma pop_end_loop:
  assumes "env_ok lim E" and "listdata_rel lim l vs"
  shows "\<exists>l'. pop_loop (pop_end E left) n l = Some (taken left n vs, l') \<and> listdata_rel lim l' (remains left n vs)"
proof -
  have r: "list_within (env_list E) lim \<and> listdata_rel lim l vs" using assms by (simp add: env_ok_def)
  show ?thesis using ld.pop_front_loop [OF r, of n] ld.pop_back_loop [OF r, of n] by (cases left) (auto simp: taken_def remains_def)
qed

lemma taken_one: "taken left 1 vs = (if vs = [] then [] else [if left then hd vs else last vs])"
  "remains left 1 vs = (if left then tl vs else butlast vs)"
proof -
  show "taken left 1 vs = (if vs = [] then [] else [if left then hd vs else last vs])"
    by (simp add: taken_def take_Suc hd_rev)
  show "remains left 1 vs = (if left then tl vs else butlast vs)"
    by (simp add: remains_def drop_Suc butlast_conv_take)
qed

lemma pop_end_one:
  assumes "env_ok lim E" and "listdata_rel lim l vs"
  shows "\<exists>l'. pop_end E left l = Some (case taken left 1 vs of [] \<Rightarrow> None | v # _ \<Rightarrow> Some v, l')
    \<and> listdata_rel lim l' (remains left 1 vs)"
proof -
  have r: "list_within (env_list E) lim" using assms by (simp add: env_ok_def)
  have "(case vs of [] \<Rightarrow> None | v # _ \<Rightarrow> Some v) = (if vs = [] then None else Some (hd vs))" by (cases vs) simp_all
  then show ?thesis using listdata_pop_front_rel [OF r assms(2)] listdata_pop_back_rel [OF r assms(2)]
    unfolding taken_one by (cases left; cases "vs = []") simp_all
qed

lemma payload_popped: "taken left 1 vs = v # xs \<Longrightarrow> - int (length v) = int (payload (remains left 1 vs)) - int (payload vs)"
  using payload_taken [of left 1 vs] unfolding taken_one by (auto split: if_splits)

lemma taken_none: "taken left 1 vs = [] \<Longrightarrow> vs = [] \<and> remains left 1 vs = []"
  unfolding taken_one by (auto split: if_splits)

lemma pop_value_law:
  assumes "env_ok lim E" and "listdata_rel lim l vs"
  shows "\<exists>r l' emptied ws. pop_value E left cnt (DList l) = Some (r, DList l', int (payload ws) - int (payload vs), emptied)
    \<and> listdata_rel lim l' ws \<and> pop_spec left cnt vs = (r, if emptied then None else Some ws)"
proof (cases cnt)
  case (Some n)
  let ?ws = "remains left n vs"
  from pop_end_loop [OF assms, of left n] obtain l' where
    l': "pop_loop (pop_end E left) n l = Some (taken left n vs, l')" "listdata_rel lim l' ?ws" by blast
  have f: "pop_value E left cnt (DList l) = Some (Inr (resp_array (map resp_bulk (taken left n vs))), DList l',
      int (payload ?ws) - int (payload vs), ?ws = [])"
    using l' payload_taken [of left n vs] by (simp add: Some is_empty_rel)
  have "pop_spec left cnt vs = (Inr (resp_array (map resp_bulk (taken left n vs))), if ?ws = [] then None else Some ?ws)"
    by (simp add: Some unless_empty_def)
  then show ?thesis by (rule list_res [OF f l'(2)])
next
  case None
  let ?ws = "remains left 1 vs" and ?r = "Inr (case taken left 1 vs of [] \<Rightarrow> resp_null | v # _ \<Rightarrow> resp_bulk v)"
  from pop_end_one [OF assms, of left] obtain l' where
    l': "pop_end E left l = Some (case taken left 1 vs of [] \<Rightarrow> None | v # _ \<Rightarrow> Some v, l')" "listdata_rel lim l' ?ws" by blast
  have f: "pop_value E left cnt (DList l) = Some (?r, DList l', int (payload ?ws) - int (payload vs), ?ws = [])"
  proof (cases "taken left 1 vs")
    case Nil
    note n = taken_none [OF Nil]
    have "listdata_is_empty l'" using l'(2) is_empty_rel n by metis
    then show ?thesis using l'(1) Nil conjunct1 [OF n] conjunct2 [OF n] by (simp add: None)
  next
    case (Cons v xs)
    then show ?thesis using l' payload_popped [OF Cons] by (simp add: None is_empty_rel)
  qed
  have "pop_spec left cnt vs = (?r, if ?ws = [] then None else Some ?ws)" by (simp add: None unless_empty_def)
  then show ?thesis by (rule list_res [OF f l'(2)])
qed

interpretation po: coll_op lim DList proj_list AList "listdata_rel lim" "env_ok lim E" "pop_value E left cnt" "Inl WrongType"
  "pop_spec left cnt" for lim E left cnt
proof (rule list_opI)
  fix v :: data_type assume "\<nexists>l. v = DList l"
  then show "pop_value E left cnt v = Some (Inl WrongType, v, 0, False)" by (cases v; cases cnt) auto
qed (rule pop_value_law)

lemma payload_nth: "i < length vs \<Longrightarrow> length (vs ! i) \<le> payload vs"
proof (induction vs arbitrary: i)
  case (Cons v vs)
  then show ?case by (cases i) (auto intro: trans_le_add2)
qed simp

lemma lset_value_law:
  assumes "listdata_rel lim l vs"
  shows "\<exists>r l' emptied ws. lset_value idx val (DList l) = Some (r, DList l', int (payload ws) - int (payload vs), emptied)
    \<and> listdata_rel lim l' ws \<and> lset_spec idx val vs = (r, if emptied then None else Some ws)"
proof -
  let ?i = "normalize_idx idx (int (length vs))"
  from listdata_set_rel [OF assms, of ?i val] obtain l' where
    l': "listdata_set l ?i val = Some (if ?i < length vs then (True, int (length val) - int (length (vs ! ?i))) else (False, 0), l')"
      "listdata_rel lim l' (vs[?i := val])" by blast
  have len: "listdata_len l = length vs" by (rule listdata_len_rel [OF assms])
  show ?thesis
  proof (cases "?i < length vs")
    case True
    then have p: "int (length val) - int (length (vs ! ?i)) = int (payload (vs[?i := val])) - int (payload vs)"
      using payload_update [OF True, of val] payload_nth [OF True] by simp
    have "lset_value idx val (DList l) = Some (Inr resp_ok, DList l', int (payload (vs[?i := val])) - int (payload vs), False)"
      using l'(1) True p by (simp add: len)
    then show ?thesis by (rule list_res [OF _ l'(2)]) (simp add: lset_spec_def True)
  next
    case False
    have "lset_value idx val (DList l) = Some (Inl IndexOutOfRange, DList l', int (payload (vs[?i := val])) - int (payload vs), False)"
      using l'(1) False by (simp add: len list_update_beyond)
    then show ?thesis by (rule list_res [OF _ l'(2)]) (use False in \<open>simp add: lset_spec_def list_update_beyond\<close>)
  qed
qed

interpretation ls: coll_op lim DList proj_list AList "listdata_rel lim" True "lset_value idx val" "Inl WrongType" "lset_spec idx val"
  for lim idx val
proof (rule list_opI)
  fix v :: data_type assume "\<nexists>l. v = DList l"
  then show "lset_value idx val v = Some (Inl WrongType, v, 0, False)" by (cases v) auto
qed (rule lset_value_law)

lemma linsert_value_law:
  assumes l: "listdata_rel lim l vs"
  shows "\<exists>r l' emptied ws. linsert_value before pivot x (DList l) = Some (r, DList l', int (payload ws) - int (payload vs), emptied)
    \<and> listdata_rel lim l' ws \<and> linsert_spec before pivot x vs = (r, if emptied then None else Some ws)"
proof (cases "dropWhile (\<lambda>v. v \<noteq> pivot) vs")
  case Nil
  then have "pivot \<notin> set vs" by (auto simp: dropWhile_eq_Nil_conv)
  from listdata_insert_missing [OF l this, of x] obtain l' where
    l': "(if before then listdata_insert_before l pivot x else listdata_insert_after l pivot x) = Some (None, l')" "listdata_rel lim l' vs"
    by (cases before) auto
  have "linsert_value before pivot x (DList l) = Some (Inr (resp_int (- 1)), DList l', int (payload vs) - int (payload vs), False)"
    using l'(1) by simp
  then show ?thesis by (rule list_res [OF _ l'(2)]) (simp add: linsert_spec_def Nil)
next
  case (Cons p ys)
  define xs where "xs = takeWhile (\<lambda>v. v \<noteq> pivot) vs"
  have p: "p = pivot" using hd_dropWhile [of "\<lambda>v. v \<noteq> pivot" vs] Cons by simp
  have vs: "vs = xs @ pivot # ys" using takeWhile_dropWhile_id [of "\<lambda>v. v \<noteq> pivot" vs] Cons p by (simp add: xs_def)
  have nin: "pivot \<notin> set xs" by (auto simp: xs_def dest: set_takeWhileD)
  define ws where "ws = (if before then xs @ x # pivot # ys else xs @ pivot # x # ys)"
  from listdata_insert_rel [of lim l xs pivot ys x] l nin obtain l' where
    l': "(if before then listdata_insert_before l pivot x else listdata_insert_after l pivot x) = Some (Some (length xs + length ys + 2), l')"
      "listdata_rel lim l' ws" by (cases before) (auto simp: vs ws_def)
  have len: "length xs + length ys + 2 = length vs + 1" "int (length x) = int (payload ws) - int (payload vs)"
    by (simp_all add: vs ws_def)
  have "linsert_value before pivot x (DList l) = Some (Inr (resp_int (int (length vs + 1))), DList l', int (payload ws) - int (payload vs), False)"
    using l'(1) len by simp
  then show ?thesis by (rule list_res [OF _ l'(2)]) (simp add: linsert_spec_def Cons ws_def p flip: xs_def)
qed

interpretation li: coll_op lim DList proj_list AList "listdata_rel lim" True "linsert_value before pivot x" "Inl WrongType"
  "linsert_spec before pivot x" for lim before pivot x
proof (rule list_opI)
  fix v :: data_type assume "\<nexists>l. v = DList l"
  then show "linsert_value before pivot x v = Some (Inl WrongType, v, 0, False)" by (cases v) auto
qed (rule linsert_value_law)

lemma within: "env_ok lim E \<Longrightarrow> list_within (env_list E) lim"
  by (simp add: env_ok_def)

interpretation lr: coll_op lim DList proj_list AList "listdata_rel lim" "env_ok lim E" "lrem_value E cnt x" "Inl WrongType"
  "lrem_effect cnt x" for lim E cnt x
proof (rule list_opI)
  fix l vs assume e: "env_ok lim E" and l: "listdata_rel lim l vs"
  let ?ws = "lrem_spec cnt x vs"
  from listdata_rem_rel [OF within [OF e] l, of cnt x] obtain l' where
    l': "listdata_rem (env_list E) l cnt x = Some ((lrem_count cnt x vs, int (payload ?ws) - int (payload vs)), l')" "listdata_rel lim l' ?ws" by blast
  then have "lrem_value E cnt x (DList l) = Some (Inr (resp_int (int (lrem_count cnt x vs))), DList l', int (payload ?ws) - int (payload vs), ?ws = [])"
    by (simp add: is_empty_rel)
  then show "\<exists>r l' emptied ws. lrem_value E cnt x (DList l) = Some (r, DList l', int (payload ws) - int (payload vs), emptied)
      \<and> listdata_rel lim l' ws \<and> lrem_effect cnt x vs = (r, if emptied then None else Some ws)"
    by (rule list_res [OF _ l'(2)]) (simp add: lrem_effect_def unless_empty_def)
next
  fix v :: data_type assume "\<nexists>l. v = DList l"
  then show "lrem_value E cnt x v = Some (Inl WrongType, v, 0, False)" by (cases v) auto
qed

lemma list_slice_empty: "normalize_idx start (int (length vs)) \<ge> length vs \<or> normalize_idx start (int (length vs)) > normalize_idx stop (int (length vs))
    \<Longrightarrow> list_slice start stop vs = []"
  by (auto simp: list_slice_def)

lemma list_slice_some:
  assumes "i = normalize_idx start (int (length vs))" and "j = normalize_idx stop (int (length vs))" and "i < length vs" and "i \<le> j"
  shows "list_slice start stop vs = take (Suc (min j (length vs - 1)) - i) (drop i vs)" "min j (length vs - 1) < length vs" "i \<le> min j (length vs - 1)"
  using assms by (auto simp: list_slice_def min_def Let_def)

interpretation lt: coll_op lim DList proj_list AList "listdata_rel lim" "env_ok lim E" "ltrim_value E start stop" "Inl WrongType"
  "ltrim_spec start stop" for lim E start stop
proof (rule list_opI)
  fix l vs assume e: "env_ok lim E" and l: "listdata_rel lim l vs"
  let ?ws = "list_slice start stop vs"
  let ?i = "normalize_idx start (int (length vs))" and ?j = "normalize_idx stop (int (length vs))"
  have len: "listdata_len l = length vs" by (rule listdata_len_rel [OF l])
  obtain l' where l': "(if ?i \<ge> length vs \<or> ?i > ?j then listdata_trim (env_list E) l 1 0
      else listdata_trim (env_list E) l ?i (min ?j (length vs - 1))) = Some (int (payload ?ws) - int (payload vs), l')" "listdata_rel lim l' ?ws"
  proof (cases "?i \<ge> length vs \<or> ?i > ?j")
    case True
    then show ?thesis using that listdata_trim_rel [OF within [OF e] l, of 1 0] list_slice_empty [OF True] by auto
  next
    case False
    then show ?thesis using that listdata_trim_rel [OF within [OF e] l, of ?i "min ?j (length vs - 1)"]
        list_slice_some(1) [OF refl refl, of start vs stop] by auto
  qed
  have "ltrim_value E start stop (DList l) = Some (Inr resp_ok, DList l', int (payload ?ws) - int (payload vs), ?ws = [])"
    unfolding ltrim_value.simps Let_def len l'(1) by (simp add: is_empty_rel [OF l'(2)])
  then show "\<exists>r l' emptied ws. ltrim_value E start stop (DList l) = Some (r, DList l', int (payload ws) - int (payload vs), emptied)
      \<and> listdata_rel lim l' ws \<and> ltrim_spec start stop vs = (r, if emptied then None else Some ws)"
    by (rule list_res [OF _ l'(2)]) (simp add: ltrim_spec_def unless_empty_def)
next
  fix v :: data_type assume "\<nexists>l. v = DList l"
  then show "ltrim_value E start stop v = Some (Inl WrongType, v, 0, False)" by (cases v) auto
qed

interpretation p1: coll_op lim DList proj_list AList "listdata_rel lim" "env_ok lim E" "pop_list_value E left" "Inl WrongType"
  "pop_one_spec left" for lim E left
proof (rule list_opI)
  fix l vs assume e: "env_ok lim E" and l: "listdata_rel lim l vs"
  from pop_end_one [OF e l, of left] obtain l' where
    l': "pop_end E left l = Some (case taken left 1 vs of [] \<Rightarrow> None | v # _ \<Rightarrow> Some v, l')" "listdata_rel lim l' (remains left 1 vs)" by blast
  show "\<exists>r l' emptied ws. pop_list_value E left (DList l) = Some (r, DList l', int (payload ws) - int (payload vs), emptied)
      \<and> listdata_rel lim l' ws \<and> pop_one_spec left vs = (r, if emptied then None else Some ws)"
  proof (cases "taken left 1 vs")
    case Nil
    note n = taken_none [OF Nil]
    have r: "listdata_rel lim l' vs" using l'(2) n by metis
    have "pop_list_value E left (DList l) = Some (Inr None, DList l', int (payload vs) - int (payload vs), False)" using l'(1) Nil by simp
    then show ?thesis by (rule list_res [OF _ r]) (use Nil in \<open>simp add: pop_one_spec_def\<close>)
  next
    case (Cons v xs)
    have "pop_list_value E left (DList l) = Some (Inr (Some v), DList l',
        int (payload (remains left 1 vs)) - int (payload vs), remains left 1 vs = [])"
      using l'(1) payload_popped [OF Cons] Cons is_empty_rel [OF l'(2)] by simp
    then show ?thesis by (rule list_res [OF _ l'(2)]) (use Cons in \<open>simp add: pop_one_spec_def unless_empty_def\<close>)
  qed
next
  fix v :: data_type assume "\<nexists>l. v = DList l"
  then show "pop_list_value E left v = Some (Inl WrongType, v, 0, False)" by (cases v) auto
qed

interpretation lm: coll_op lim DList proj_list AList "listdata_rel lim" "env_ok lim E" "lmpop_value E key left cnt" None
  "lmpop_spec key left cnt" for lim E key left cnt
proof (rule list_opI)
  fix l vs assume e: "env_ok lim E" and l: "listdata_rel lim l vs"
  let ?ws = "remains left cnt vs"
  from pop_end_loop [OF e l, of left cnt] obtain l' where
    l': "pop_loop (pop_end E left) cnt l = Some (taken left cnt vs, l')" "listdata_rel lim l' ?ws" by blast
  show "\<exists>r l' emptied ws. lmpop_value E key left cnt (DList l) = Some (r, DList l', int (payload ws) - int (payload vs), emptied)
      \<and> listdata_rel lim l' ws \<and> lmpop_spec key left cnt vs = (r, if emptied then None else Some ws)"
  proof (cases "vs = []")
    case True
    have "lmpop_value E key left cnt (DList l) = Some (None, DList l, int (payload vs) - int (payload vs), False)"
      using is_empty_rel [OF l] True by simp
    then show ?thesis by (rule list_res [OF _ l]) (use True in \<open>simp add: lmpop_spec_def\<close>)
  next
    case False
    have "lmpop_value E key left cnt (DList l) = Some (Some (resp_array [resp_bulk key, resp_array (map resp_bulk (taken left cnt vs))]),
        DList l', int (payload ?ws) - int (payload vs), ?ws = [])"
      using is_empty_rel [OF l] is_empty_rel [OF l'(2)] l'(1) payload_taken [of left cnt vs] False by simp
    then show ?thesis by (rule list_res [OF _ l'(2)]) (use False in \<open>simp add: lmpop_spec_def unless_empty_def\<close>)
  qed
next
  fix v :: data_type assume "\<nexists>l. v = DList l"
  then show "lmpop_value E key left cnt v = Some (None, v, 0, False)" by (cases v) auto
qed

text \<open>The push of a move, on a destination known to be a list: on another value the code would
  count bytes it does not store, so the contract is that of the edit that does not.\<close>

definition push_one_value :: "env \<Rightarrow> bool \<Rightarrow> bytes \<Rightarrow> data_type \<Rightarrow> (unit \<times> data_type \<times> int \<times> bool) option" where
  "push_one_value E left val v = (case v of DList l \<Rightarrow> push_list_value E left val v | _ \<Rightarrow> Some ((), v, 0, False))"

interpretation q1: coll_op lim DList proj_list AList "listdata_rel lim" "env_ok lim E" "push_one_value E left val" "()"
  "push_one_spec left val" for lim E left val
proof (rule list_opI)
  fix l vs assume e: "env_ok lim E" and l: "listdata_rel lim l vs"
  define ws where "ws = (if left then val # vs else vs @ [val])"
  obtain l' where l': "(if left then listdata_push_front (env_list E) l val else listdata_push_back (env_list E) l val) = Some l'"
    "listdata_rel lim l' ws"
    using listdata_push_front_rel [OF within [OF e] l, of val] listdata_push_back_rel [OF within [OF e] l, of val]
    by (cases left) (auto simp: ws_def)
  have "push_one_value E left val (DList l) = Some ((), DList l', int (payload ws) - int (payload vs), False)"
    using l'(1) by (simp add: push_one_value_def ws_def)
  then show "\<exists>r l' emptied ws. push_one_value E left val (DList l) = Some (r, DList l', int (payload ws) - int (payload vs), emptied)
      \<and> listdata_rel lim l' ws \<and> push_one_spec left val vs = (r, if emptied then None else Some ws)"
    by (rule list_res [OF _ l'(2)]) (simp add: push_one_spec_def ws_def)
next
  fix v :: data_type assume "\<nexists>l. v = DList l"
  then show "push_one_value E left val v = Some ((), v, 0, False)" by (cases v) (auto simp: push_one_value_def)
qed

section \<open>Reading\<close>

lemma list_viewI:
  assumes "\<And>l vs. ok \<Longrightarrow> listdata_rel lim l vs \<Longrightarrow> f (DList l) = Some (h vs)"
    and "\<And>v. \<nexists>l. v = DList l \<Longrightarrow> f v = Some wrong"
  shows "coll_view lim DList proj_list AList (listdata_rel lim) ok f wrong h"
  using assms by unfold_locales

interpretation vl: coll_view lim DList proj_list AList "listdata_rel lim" True llen_value "Inl WrongType" "\<lambda>vs. Inr (resp_int (int (length vs)))" for lim
proof (rule list_viewI)
  fix v :: data_type assume "\<nexists>l. v = DList l"
  then show "llen_value v = Some (Inl WrongType)" by (cases v) auto
qed (simp add: listdata_len_rel)

definition lrange_reply :: "env \<Rightarrow> int \<Rightarrow> int \<Rightarrow> bytes list \<Rightarrow> resp result" where
  "lrange_reply E start stop vs = (let ws = list_slice start stop vs in
     Inr (RRaw (if ws = [] then EMPTY_ARRAY else write_bulk_array_into (usize_text E) [] ws)))"

lemma lrange_elems_rel:
  assumes "listdata_rel lim l vs" and "i \<le> j" and "j < length vs"
  shows "lrange_elems l i j = Some (take (Suc j - i) (drop i vs))"
proof (cases l)
  case (ListLinked d)
  then show ?thesis using assms by (auto simp: subslice_def take_drop)
next
  case (ListCompact c)
  let ?ws = "take (Suc j - i) (drop i vs)"
  have c: "cl_rel c vs" using assms(1) ListCompact listdata_rel_cl by blast
  from cl_range_snap_rel [OF c assms(2,3)] obtain s where
    s: "cl_range_snap c i j = Some s" "crs_count s = length ?ws" "subslice (crs_buf s) (crs_begin s) (crs_end s) = Some (pks ?ws)" by blast
  from c obtain pre opre opost where "c = cl_rep pre vs opre opost" and b: "length pre + length (pks vs) < 2 ^ 32" by (rule cl_relE)
  have "\<forall>v \<in> set ?ws. fits v"
  proof
    fix v assume "v \<in> set ?ws"
    then have "v \<in> set vs" by (meson in_set_dropD in_set_takeD)
    then show "fits v" using b by (intro fits_of_bound [of _ vs]) auto
  qed
  then have "compact_iter_collect (pks ?ws) 0 (length ?ws) = Some ?ws" by (intro compact_iter_collect_pks [where post = "[]"]) simp_all
  then show ?thesis using s ListCompact by simp
qed

interpretation vr: coll_view lim DList proj_list AList "listdata_rel lim" True "lrange_value E start stop" "Inl WrongType"
  "lrange_reply E start stop" for lim E start stop
proof (rule list_viewI)
  fix l vs assume l: "listdata_rel lim l vs"
  let ?i = "normalize_idx start (int (length vs))" and ?j = "normalize_idx stop (int (length vs))"
  have len: "listdata_len l = length vs" by (rule listdata_len_rel [OF l])
  show "lrange_value E start stop (DList l) = Some (lrange_reply E start stop vs)"
  proof (cases "?i \<ge> length vs \<or> ?i > ?j")
    case True
    then show ?thesis by (simp add: len lrange_reply_def list_slice_empty [OF True] Let_def)
  next
    case False
    then have ij: "?i < length vs" "?i \<le> ?j" by auto
    note w = list_slice_some [OF refl refl ij]
    have "lrange_elems l ?i (min ?j (length vs - 1)) = Some (list_slice start stop vs)"
      using lrange_elems_rel [OF l w(3,2)] w(1) by simp
    moreover have "list_slice start stop vs \<noteq> []" using ij by (simp add: list_slice_def Let_def)
    ultimately show ?thesis using False by (simp add: len lrange_reply_def Let_def)
  qed
next
  fix v :: data_type assume "\<nexists>l. v = DList l"
  then show "lrange_value E start stop v = Some (Inl WrongType)" by (cases v) auto
qed

definition lindex_reply :: "int \<Rightarrow> bytes list \<Rightarrow> resp result" where
  "lindex_reply idx vs = (let i = normalize_idx idx (int (length vs)) in Inr (if i < length vs then resp_bulk (vs ! i) else resp_null))"

interpretation vi: coll_view lim DList proj_list AList "listdata_rel lim" True "lindex_value idx" "Inl WrongType" "lindex_reply idx" for lim idx
proof (rule list_viewI)
  fix v :: data_type assume "\<nexists>l. v = DList l"
  then show "lindex_value idx v = Some (Inl WrongType)" by (cases v) auto
qed (simp add: lindex_reply_def listdata_len_rel listdata_get_rel Let_def)

text \<open>LPOS: the positions of the element among the first or last MAXLEN elements, without the RANK - 1 nearest
  to that end, at most COUNT of them and at least one, in the order of the list.\<close>

definition lpos_matches :: "bytes \<Rightarrow> lpos_opts \<Rightarrow> bytes list \<Rightarrow> nat list" where
  "lpos_matches x op vs =
     (let len = length vs; limit = (if lp_maxlen op = 0 then len else min (lp_maxlen op) len);
          want = max 1 (case lp_count op of Some n \<Rightarrow> n | None \<Rightarrow> 1) in
      if lp_rank op \<ge> 0
      then take want (drop (nat (lp_rank op) - 1) (filter (\<lambda>i. vs ! i = x) [0..<limit]))
      else rev (take want (drop (nat (- lp_rank op) - 1) (filter (\<lambda>i. vs ! i = x) (rev [len - limit..<len])))))"

definition lpos_reply :: "bytes \<Rightarrow> lpos_opts \<Rightarrow> bytes list \<Rightarrow> resp result" where
  "lpos_reply x op vs = (let is = lpos_matches x op vs in
     Inr (if lp_count op \<noteq> None then resp_array (map (resp_int \<circ> int) is)
       else case is of i # _ \<Rightarrow> resp_int (int i) | [] \<Rightarrow> resp_null))"

lemma lpos_loop_matches:
  assumes "length res < max 1 want" and "seen < rank \<Longrightarrow> res = []"
  shows "lpos_loop rank want x ps seen res
    = res @ take (max 1 want - length res) (drop (rank - 1 - seen) (map fst (filter (\<lambda>(i, v). v = x) ps)))"
  using assms
proof (induction rank want x ps seen res rule: lpos_loop.induct)
  case (2 rank want x idx v ps seen res)
  show ?case
  proof (cases "v = x \<and> seen + 1 \<ge> rank")
    case True
    then show ?thesis using "2.IH"(1) "2.prems"
      by (cases "length res + 1 \<ge> want") (auto simp: Let_def max_def take_Cons' split: if_splits)
  next
    case False
    then show ?thesis using "2.IH"(2,3) "2.prems" by (auto simp: Let_def drop_Cons' Suc_diff_Suc split: if_splits)
  qed
qed simp

lemma enumerate_filter: "map fst (filter (\<lambda>(i, v). v = x) (map (\<lambda>i. (i, vs ! i)) is)) = filter (\<lambda>i. vs ! i = x) is"
  by (induction "is") auto

lemma enumerate_map: "enumerate 0 vs = map (\<lambda>i. (i, vs ! i)) [0..<length vs]"
  by (rule nth_equalityI) (simp_all add: nth_enumerate_eq)

interpretation vp: coll_view lim DList proj_list AList "listdata_rel lim" "lp_rank op \<noteq> 0" "lpos_value x op" "Inl WrongType" "lpos_reply x op" for lim x op
proof (rule list_viewI)
  fix l vs assume l: "listdata_rel lim l vs" and rank: "lp_rank op \<noteq> 0"
  define len where "len = length vs"
  define limit where "limit = (if lp_maxlen op = 0 then len else min (lp_maxlen op) len)"
  define want where "want = (case lp_count op of Some n \<Rightarrow> n | None \<Rightarrow> 1)"
  have le: "limit \<le> len" by (simp add: limit_def)
  have loop: "lpos_loop r want x (map (\<lambda>i. (i, vs ! i)) is) 0 [] = take (max 1 want) (drop (r - 1) (filter (\<lambda>i. vs ! i = x) is))" for r "is"
    by (subst lpos_loop_matches) (simp_all only: enumerate_filter, simp_all)
  have fwd: "take limit (enumerate 0 vs) = map (\<lambda>i. (i, vs ! i)) [0..<limit]"
    using le by (simp add: enumerate_map take_map len_def)
  have "take limit (rev [0..<len]) = rev [len - limit..<len]" using le by (simp add: take_rev)
  then have bwd: "take limit (rev (enumerate 0 vs)) = map (\<lambda>i. (i, vs ! i)) (rev [len - limit..<len])"
    by (simp add: enumerate_map rev_map take_map flip: len_def)
  have "(if lp_rank op \<ge> 0 then lpos_loop (nat (lp_rank op)) want x (take limit (enumerate 0 vs)) 0 []
      else rev (lpos_loop (nat (- lp_rank op)) want x (take limit (rev (enumerate 0 vs))) 0 [])) = lpos_matches x op vs"
    unfolding fwd bwd loop lpos_matches_def Let_def by (simp add: len_def limit_def want_def)
  note m = this [unfolded limit_def want_def len_def]
  show "lpos_value x op (DList l) = Some (lpos_reply x op vs)"
    unfolding lpos_value.simps listdata_to_vec_rel [OF l] bind.bind_lunit Let_def lpos_reply_def m by (rule refl)
next
  fix v :: data_type assume "\<nexists>l. v = DList l"
  then show "lpos_value x op v = Some (Inl WrongType)" by (cases v) auto
qed

end
