(* ===== verification/List_Spec.thy ===== *)
theory List_Spec
  imports List_Laws Resp_Parser
begin

text \<open>
  The list commands as a family: the abstract commands with the words that spell them on the wire, their
  execution by the handlers, and their specification on a keyspace of plain lists. Every command implements
  its specification, alone and in any history.
\<close>

section \<open>Commands and their words\<close>

datatype list_cmd =
    LPush bool bool bytes "bytes list" \<comment> \<open>at the head, only if the key exists\<close>
  | LPop bool bytes "nat option"
  | LLen bytes
  | LRange bytes int int
  | LIndex bytes int
  | LSet bytes int bytes
  | LInsert bytes bool bytes bytes
  | LRem bytes int bytes
  | LTrim bytes int int
  | LMove bytes bytes bool bool
  | RPopLPush bytes bytes
  | LPos bytes bytes lpos_opts
  | LMPop "bytes list" bool nat

abbreviation side :: "bool \<Rightarrow> bytes" where
  "side left \<equiv> (if left then asc ''LEFT'' else asc ''RIGHT'')"

definition lpos_words :: "lpos_opts \<Rightarrow> bytes list" where
  "lpos_words op = [asc ''RANK'', dec_int (lp_rank op)]
     @ (case lp_count op of Some n \<Rightarrow> [asc ''COUNT'', dec_int (int n)] | None \<Rightarrow> [])
     @ [asc ''MAXLEN'', dec_int (int (lp_maxlen op))]"

fun list_words :: "list_cmd \<Rightarrow> bytes list" where
  "list_words (LPush left only key xs) = (if left then if only then asc ''LPUSHX'' else asc ''LPUSH''
     else if only then asc ''RPUSHX'' else asc ''RPUSH'') # key # xs"
| "list_words (LPop left key None) = [if left then asc ''LPOP'' else asc ''RPOP'', key]"
| "list_words (LPop left key (Some n)) = [if left then asc ''LPOP'' else asc ''RPOP'', key, dec_int (int n)]"
| "list_words (LLen key) = [asc ''LLEN'', key]"
| "list_words (LRange key i j) = [asc ''LRANGE'', key, dec_int i, dec_int j]"
| "list_words (LIndex key i) = [asc ''LINDEX'', key, dec_int i]"
| "list_words (LSet key i v) = [asc ''LSET'', key, dec_int i, v]"
| "list_words (LInsert key before pivot x) = [asc ''LINSERT'', key, if before then asc ''BEFORE'' else asc ''AFTER'', pivot, x]"
| "list_words (LRem key n x) = [asc ''LREM'', key, dec_int n, x]"
| "list_words (LTrim key i j) = [asc ''LTRIM'', key, dec_int i, dec_int j]"
| "list_words (LMove src dst from_l to_l) = [asc ''LMOVE'', src, dst, side from_l, side to_l]"
| "list_words (RPopLPush src dst) = [asc ''RPOPLPUSH'', src, dst]"
| "list_words (LPos key x op) = [asc ''LPOS'', key, x] @ lpos_words op"
| "list_words (LMPop keys left n) = [asc ''LMPOP'', dec_int (int (length keys))] @ keys @ [side left, asc ''COUNT'', dec_int (int n)]"

fun list_handler :: "list_cmd \<Rightarrow> env \<Rightarrow> resp list \<Rightarrow> resp handler" where
  "list_handler (LPush left only _ _) = (if left then if only then cmd_lpushx else cmd_lpush else if only then cmd_rpushx else cmd_rpush)"
| "list_handler (LPop left _ _) = (if left then cmd_lpop else cmd_rpop)"
| "list_handler (LLen _) = cmd_llen"
| "list_handler (LRange _ _ _) = cmd_lrange"
| "list_handler (LIndex _ _) = cmd_lindex"
| "list_handler (LSet _ _ _) = cmd_lset"
| "list_handler (LInsert _ _ _ _) = cmd_linsert"
| "list_handler (LRem _ _ _) = cmd_lrem"
| "list_handler (LTrim _ _ _) = cmd_ltrim"
| "list_handler (LMove _ _ _ _) = cmd_lmove"
| "list_handler (RPopLPush _ _) = cmd_rpoplpush"
| "list_handler (LPos _ _ _) = cmd_lpos"
| "list_handler (LMPop _ _ _) = cmd_lmpop"

definition list_exec :: "env \<Rightarrow> list_cmd \<Rightarrow> resp handler" where
  "list_exec E c = list_handler c E (bulks (list_words c))"

text \<open>Integers that fit \<^verbatim>\<open>i64\<close>, at least one value to push and one key to pop from, and a RANK other than zero.\<close>

fun list_wf :: "list_cmd \<Rightarrow> bool" where
  "list_wf (LPush _ _ _ xs) \<longleftrightarrow> xs \<noteq> []"
| "list_wf (LPop _ _ (Some n)) \<longleftrightarrow> i64_ok (int n)"
| "list_wf (LRange _ i j) \<longleftrightarrow> i64_ok i \<and> i64_ok j"
| "list_wf (LIndex _ i) \<longleftrightarrow> i64_ok i"
| "list_wf (LSet _ i _) \<longleftrightarrow> i64_ok i"
| "list_wf (LRem _ n _) \<longleftrightarrow> i64_ok n"
| "list_wf (LTrim _ i j) \<longleftrightarrow> i64_ok i \<and> i64_ok j"
| "list_wf (LPos _ _ op) \<longleftrightarrow> i64_ok (lp_rank op) \<and> lp_rank op \<noteq> 0 \<and> i64_ok (int (lp_maxlen op))
     \<and> (\<forall>n. lp_count op = Some n \<longrightarrow> i64_ok (int n))"
| "list_wf (LMPop keys _ n) \<longleftrightarrow> keys \<noteq> [] \<and> i64_ok (int (length keys)) \<and> i64_ok (int n)"
| "list_wf _ \<longleftrightarrow> True"

section \<open>The specification\<close>

abbreviation "edit_list \<equiv> edit_at proj_list AList"

abbreviation "upsert_list \<equiv> upsert_at proj_list AList"

abbreviation "view_list \<equiv> view_at proj_list"

definition push_at :: "nat \<Rightarrow> bool \<Rightarrow> bool \<Rightarrow> bytes \<Rightarrow> bytes list \<Rightarrow> keyspace \<Rightarrow> (bool \<times> resp result) \<times> keyspace" where
  "push_at now left only key xs A =
     (if only \<and> alive now (A key) = None then ((False, Inr (resp_int 0)), A(key := None))
      else upsert_list now key [] (False, Inl WrongType) (push_spec left xs) A)"

definition holds_other :: "nat \<Rightarrow> keyspace \<Rightarrow> bytes \<Rightarrow> bool" where
  "holds_other now A key = (case alive now (A key) of None \<Rightarrow> False | Some (a, _) \<Rightarrow> proj_list a = None)"

definition lmove_at :: "nat \<Rightarrow> bytes \<Rightarrow> bytes \<Rightarrow> bool \<Rightarrow> bool \<Rightarrow> keyspace \<Rightarrow> bytes option result \<times> keyspace" where
  "lmove_at now src dst from_l to_l A =
     (if holds_other now A dst then (Inl WrongType, A)
      else case edit_list now src (Inr None) (Inl WrongType) (pop_one_spec from_l) A of
        (Inr (Some v), A) \<Rightarrow> (Inr (Some v), snd (upsert_list now dst [] () (push_one_spec to_l v) A))
      | (r, A) \<Rightarrow> (r, A))"

fun lmpop_at :: "nat \<Rightarrow> bytes list \<Rightarrow> bool \<Rightarrow> nat \<Rightarrow> keyspace \<Rightarrow> resp option \<times> keyspace" where
  "lmpop_at now [] left n A = (None, A)"
| "lmpop_at now (key # keys) left n A = (case edit_list now key None None (lmpop_spec key left n) A of
     (Some r, A) \<Rightarrow> (Some r, A)
   | (None, A) \<Rightarrow> lmpop_at now keys left n A)"

fun list_spec :: "env \<Rightarrow> list_cmd \<Rightarrow> keyspace \<Rightarrow> resp result \<times> keyspace" where
  "list_spec E (LPush left only key xs) A = map_prod snd id (push_at (env_now E) left only key xs A)"
| "list_spec E (LPop left key n) A = edit_list (env_now E) key (Inr resp_null) (Inl WrongType) (pop_spec left n) A"
| "list_spec E (LLen key) A = (view_list (env_now E) key (Inr (resp_int 0)) (Inl WrongType) (\<lambda>vs. Inr (resp_int (int (length vs)))) A, A)"
| "list_spec E (LRange key i j) A = (view_list (env_now E) key (Inr (RRaw EMPTY_ARRAY)) (Inl WrongType) (lrange_reply E i j) A, A)"
| "list_spec E (LIndex key i) A = (view_list (env_now E) key (Inr resp_null) (Inl WrongType) (lindex_reply i) A, A)"
| "list_spec E (LSet key i v) A = edit_list (env_now E) key (Inl (Generic (asc ''no such key''))) (Inl WrongType) (lset_spec i v) A"
| "list_spec E (LInsert key before pivot x) A =
     edit_list (env_now E) key (Inr (resp_int (- 1))) (Inl WrongType) (linsert_spec before pivot x) A"
| "list_spec E (LRem key n x) A = edit_list (env_now E) key (Inr (resp_int 0)) (Inl WrongType) (lrem_effect n x) A"
| "list_spec E (LTrim key i j) A = edit_list (env_now E) key (Inr resp_ok) (Inl WrongType) (ltrim_spec i j) A"
| "list_spec E (LMove src dst from_l to_l) A = map_prod (map_sum id bulk_or_null) id (lmove_at (env_now E) src dst from_l to_l A)"
| "list_spec E (RPopLPush src dst) A = map_prod (map_sum id bulk_or_null) id (lmove_at (env_now E) src dst False True A)"
| "list_spec E (LPos key x op) A =
     (view_list (env_now E) key (Inr (if lp_count op \<noteq> None then resp_array [] else resp_null)) (Inl WrongType) (lpos_reply x op) A, A)"
| "list_spec E (LMPop keys left n) A =
     map_prod (\<lambda>r. Inr (case r of Some resp \<Rightarrow> resp | None \<Rightarrow> resp_null_array)) id (lmpop_at (env_now E) keys left n A)"

text \<open>Whether the command wakes blocked clients.\<close>

fun list_wakes :: "env \<Rightarrow> list_cmd \<Rightarrow> keyspace \<Rightarrow> bool" where
  "list_wakes E (LPush left only key xs) A = fst (fst (push_at (env_now E) left only key xs A))"
| "list_wakes E (LMove src dst from_l to_l) A = (case fst (lmove_at (env_now E) src dst from_l to_l A) of Inr (Some _) \<Rightarrow> True | _ \<Rightarrow> False)"
| "list_wakes E (RPopLPush src dst) A = (case fst (lmove_at (env_now E) src dst False True A) of Inr (Some _) \<Rightarrow> True | _ \<Rightarrow> False)"
| "list_wakes E _ A = False"

section \<open>The handlers implement it\<close>

lemma upsert_alive: "alive now (A key) \<noteq> None \<Longrightarrow> A(key := alive now (A key)) = A"
  using alive_same [of now "A key"] by (cases "alive now (A key)") (auto simp: fun_upd_idem)

lemma push_db_locked:
  assumes "env_ok lim E" and "ks_is lim clk s A" and "map resp_as_bytes vals = map Some xs"
  shows "\<exists>s'. locked key (push_db E left only cmd key vals) s = Some (fst (push_at (env_now E) left only key xs A), s')
    \<and> ks_is lim clk s' (snd (push_at (env_now E) left only key xs A))"
proof -
  let ?now = "env_now E"
  have new: "listdata_rel lim listdata_new []" using assms(1) by (simp add: env_ok_def listdata_new_rel)
  have up: "\<exists>s'. locked key (upsert ?now key (DList listdata_new) (push_value E left cmd vals)) t
      = Some (fst (upsert_list ?now key [] (False, Inl WrongType) (push_spec left xs) B), s')
    \<and> ks_is lim clk s' (snd (upsert_list ?now key [] (False, Inl WrongType) (push_spec left xs) B))"
    if "ks_is lim clk t B" for t B
    using pu.upsert_at_locked [of lim E vals xs listdata_new "[]", OF _ new that] assms(1,3) by blast
  show ?thesis
  proof (cases only)
    case False
    have "push_db E left only cmd key vals = upsert ?now key (DList listdata_new) (push_value E left cmd vals)"
      by (rule ext) (simp add: push_db_def False)
    then show ?thesis using up [OF assms(2)] False by (simp add: push_at_def)
  next
    case True
    have "push_db E left only cmd key vals = (\<lambda>d. let (present, d1) = db_contains_key ?now key d in
        (\<lambda>present d. if \<not> present then Some ((False, Inr (resp_int 0)), d)
          else upsert ?now key (DList listdata_new) (push_value E left cmd vals) d) present d1)"
      by (rule ext) (simp add: push_db_def True)
    note steps = arg_cong [OF this, of "\<lambda>f. locked key f s", unfolded locked_compose]
    from ks_has [OF assms(2), of key ?now] obtain s1 where
      s1: "write_for key (db_contains_key ?now key) s = Some (alive ?now (A key) \<noteq> None, s1)"
        "ks_is lim clk s1 (A(key := alive ?now (A key)))" by blast
    show ?thesis
    proof (cases "alive ?now (A key) = None")
      case n: True
      have "locked key (push_db E left only cmd key vals) s = Some ((False, Inr (resp_int 0)), s1)"
      proof -
        obtain d where "read_for s1 key = Some d" using ks_read [OF s1(2)] by blast
        then have "locked key (\<lambda>d. Some ((False, Inr (resp_int 0)), d)) s1 = Some ((False, Inr (resp_int 0)), s1)"
          by (auto simp: locked_def read_for_def index_def split: if_splits)
        then show ?thesis using steps s1(1) n by simp
      qed
      then show ?thesis using s1(2) n True by (simp add: push_at_def)
    next
      case s: False
      have "locked key (push_db E left only cmd key vals) s
          = locked key (upsert ?now key (DList listdata_new) (push_value E left cmd vals)) s1" using steps s1(1) s by simp
      then show ?thesis using up [OF s1(2) [unfolded upsert_alive [where A = A and key = key, OF s]]] s by (auto simp: push_at_def)
    qed
  qed
qed

lemma list_push_ok:
  assumes "env_ok lim E" and "ks_is lim clk (cs_db s) A" and "xs \<noteq> []"
  shows "\<exists>s'. list_push E (bulks (name # key # xs)) left only cmd s = Some (snd (fst (push_at (env_now E) left only key xs A)), s')
    \<and> ks_is lim clk (cs_db s') (snd (push_at (env_now E) left only key xs A))
    \<and> cs_wakes s' = cs_wakes s + (if fst (fst (push_at (env_now E) left only key xs A)) then 1 else 0)"
proof -
  let ?p = "push_at (env_now E) left only key xs A"
  from push_db_locked [OF assms(1,2) bulks_as_bytes, of key left only cmd xs] obtain t where
    t: "locked key (push_db E left only cmd key (bulks xs)) (cs_db s) = Some (fst ?p, t)" "ks_is lim clk t (snd ?p)" by blast
  obtain n r where nr: "fst ?p = (n, r)" by force
  have "length xs \<noteq> 0" using assms(3) by simp
  then have "list_push E (bulks (name # key # xs)) left only cmd s
      = Some (r, if n then notify_list_waiters (s\<lparr>cs_db := t\<rparr>) else s\<lparr>cs_db := t\<rparr>)"
    using t(1) nr by (auto simp: list_push_def on_key_def index_def)
  then show ?thesis using t(2) nr by (auto simp: notify_list_waiters_def)
qed

text \<open>A move between two lists.\<close>

lemma dst_ok_is:
  assumes "ks_is lim clk s A" and "read_for s dst = Some d"
  shows "dst_ok E dst d = (if holds_other (env_now E) A dst then Inl WrongType else Inr ())"
proof -
  obtain d' where d': "read_for s dst = Some d'" "ent_is lim (db_get_ro (env_now E) dst d') (alive (env_now E) (A dst))"
    by (rule ks_read [OF assms(1)])
  then have e: "ent_is lim (db_get_ro (env_now E) dst d) (alive (env_now E) (A dst))" using assms(2) by simp
  show ?thesis
  proof (cases "db_get_ro (env_now E) dst d")
    case None
    then show ?thesis using e by (simp add: dst_ok_def holds_other_def)
  next
    case (Some x)
    with e obtain a where a: "alive (env_now E) (A dst) = Some (a, en_expiry x)" "val_is lim (en_value x) a" by auto
    from a(2) show ?thesis
    proof (cases rule: lty.val_cases)
      case (this_type c y)
      then show ?thesis using Some a(1) by (simp add: dst_ok_def holds_other_def)
    next
      case other
      then have "(case en_value x of DList _ \<Rightarrow> Inr () | _ \<Rightarrow> Inl WrongType) = Inl WrongType" by (cases "en_value x") auto
      then show ?thesis using Some a(1) other by (simp add: dst_ok_def holds_other_def)
    qed
  qed
qed

lemma push_list_typed:
  "typed_op (env_ok lim E) lim key (\<lambda>d. map_option (\<lambda>(r, d). (r, db_bump_version key d)) (upsert now key (DList listdata_new) (push_one_value E left val) d))
     (upsert_spec now (AList []) (by_val proj_list AList () (push_one_spec left val)))"
proof
  fix d :: database and m c
  assume e: "env_ok lim E" and d: "db_is d m" "ent_is lim (m key) c"
  have "val_is lim (DList listdata_new) (AList [])" using e by (simp add: env_ok_def listdata_new_rel)
  from q1.upsert_law [OF e this d, of now] obtain r d' x c' where
    l: "upsert now key (DList listdata_new) (push_one_value E left val) d = Some (r, d')" "db_is d' (m(key := x))" "db_clock d' = db_clock d"
      "ent_is lim x c'" "upsert_spec now (AList []) (by_val proj_list AList () (push_one_spec left val)) c r c'" by blast
  then show "\<exists>r d' x c'. map_option (\<lambda>(r, d). (r, db_bump_version key d)) (upsert now key (DList listdata_new) (push_one_value E left val) d) = Some (r, d')
      \<and> db_is d' (m(key := x)) \<and> db_clock d' = db_clock d \<and> ent_is lim x c'
      \<and> upsert_spec now (AList []) (by_val proj_list AList () (push_one_spec left val)) c r c'"
    using bump_is [OF l(2), of key] by fastforce
qed

lemma push_list_locked:
  assumes "env_ok lim E" and "ks_is lim clk s A" and "\<not> holds_other (env_now E) A dst"
  shows "\<exists>r s'. locked dst (push_list E left dst val) s = Some (r, s')
    \<and> ks_is lim clk s' (snd (upsert_list (env_now E) dst [] () (push_one_spec left val) A))"
proof -
  let ?now = "env_now E"
  let ?u = "\<lambda>d. map_option (\<lambda>(r, d). (r, db_bump_version dst d)) (upsert ?now dst (DList listdata_new) (push_one_value E left val) d)"
  from assms(2) obtain m where m: "sharded_is clk s m" "\<And>k. ent_is lim (m k) (A k)" by (auto simp: ks_is_def)
  note d = sharded_isD [OF m(1) shard_idx_less [OF m(1), of dst]]
  let ?d = "sh_shards s ! shard_idx (sh_num s) dst"
  obtain e d1 where g: "db_get_or_insert_with ?now dst (entry_new (DList listdata_new)) ?d = (e, d1)" by force
  have e: "e = goi_entry ?now (entry_new (DList listdata_new)) clk (m dst)"
    using goi.op_law [OF d(2), of ?now dst "entry_new (DList listdata_new)"] g by (simp add: part_key d(3))
  have al: "ent_is lim (live_entry ?now (m dst)) (alive ?now (A dst))" by (rule ent_is_alive) (rule m(2))
  have "\<exists>l. en_value e = DList l"
  proof (cases "live_entry ?now (m dst)")
    case None
    then show ?thesis by (simp add: e goi_entry_def entry_new_def)
  next
    case (Some x)
    then obtain a where a: "alive ?now (A dst) = Some (a, en_expiry x)" "val_is lim (en_value x) a" using al by auto
    then have "proj_list a \<noteq> None" using assms(3) by (simp add: holds_other_def)
    then show ?thesis using a(2) Some lty.con_only lty.proj_emb by (auto simp: e goi_entry_def)
  qed
  then have "push_list_value E left val (en_value e) = push_one_value E left val (en_value e)" by (auto simp: push_one_value_def)
  then have "push_list E left dst val ?d = ?u ?d" by (simp add: push_list_def upsert_def g)
  then have "locked dst (push_list E left dst val) s = locked dst ?u s"
    by (intro locked_cong [where d = ?d]) (simp_all add: read_for_def d(1))
  then show ?thesis using q1.upsert_at_typed [OF push_list_typed assms(1,2)] by metis
qed

lemma edit_keeps_list:
  "\<not> holds_other now A dst \<Longrightarrow> \<not> holds_other now (snd (edit_list now src none wrong g A)) dst"
  by (auto simp: holds_other_def edit_at_def apply_at_def alive_def split: option.splits prod.splits if_splits)

lemma lmove_atomic_ok:
  assumes "env_ok lim E" and "ks_is lim clk s A"
  shows "\<exists>s'. lmove_atomic E src dst from_l to_l s = Some (fst (lmove_at (env_now E) src dst from_l to_l A), s')
    \<and> ks_is lim clk s' (snd (lmove_at (env_now E) src dst from_l to_l A))"
proof -
  let ?now = "env_now E" and ?e = "edit_list (env_now E) src (Inr None) (Inl WrongType) (pop_one_spec from_l) A"
  obtain d where d: "read_for s dst = Some d" using ks_read [OF assms(2)] by blast
  note ok = dst_ok_is [OF assms(2) d, of E]
  show ?thesis
  proof (cases "holds_other ?now A dst")
    case True
    then show ?thesis using d ok assms(2) by (simp add: lmove_atomic_def lmove_at_def)
  next
    case False
    from p1.edit_at_locked [OF assms, of src ?now "Inr None" from_l] obtain s1 where
      s1: "locked src (edit_live ?now src (Inr None) (pop_list_value E from_l)) s = Some (fst ?e, s1)" "ks_is lim clk s1 (snd ?e)" by blast
    obtain r B where e: "?e = (r, B)" by force
    show ?thesis
    proof (cases "\<exists>v. r = Inr (Some v)")
      case v: True
      then obtain v where v: "r = Inr (Some v)" by blast
      have B: "\<not> holds_other ?now B dst" using edit_keeps_list [OF False, of src "Inr None" "Inl WrongType" "pop_one_spec from_l"] e by simp
      have kB: "ks_is lim clk s1 B" using s1(2) e by simp
      from push_list_locked [OF assms(1) kB B, of to_l v] obtain u s2 where
        "locked dst (push_list E to_l dst v) s1 = Some (u, s2)" "ks_is lim clk s2 (snd (upsert_list ?now dst [] () (push_one_spec to_l v) B))" by blast
      then show ?thesis using d ok False s1(1) e v by (simp add: lmove_atomic_def lmove_at_def)
    next
      case n: False
      then have "(case r of Inr (Some v) \<Rightarrow> x v | _ \<Rightarrow> y r) = y r" for x and y :: "_ \<Rightarrow> 'z" by (auto split: sum.split option.split)
      then show ?thesis using d ok False s1 e n
        by (auto simp: lmove_atomic_def lmove_at_def split: sum.split option.split)
    qed
  qed
qed

lemma lmove_reply_ok:
  assumes "env_ok lim E" and "ks_is lim clk (cs_db s) A"
  shows "\<exists>s'. lmove_reply E src dst from_l to_l s = Some (map_sum id bulk_or_null (fst (lmove_at (env_now E) src dst from_l to_l A)), s')
    \<and> ks_is lim clk (cs_db s') (snd (lmove_at (env_now E) src dst from_l to_l A))
    \<and> cs_wakes s' = cs_wakes s + (case fst (lmove_at (env_now E) src dst from_l to_l A) of Inr (Some _) \<Rightarrow> 1 | _ \<Rightarrow> 0)"
  using lmove_atomic_ok [OF assms, of src dst from_l to_l]
  by (auto simp: lmove_reply_def notify_list_waiters_def split: sum.split option.split)

lemma lmpop_attempt_ok:
  assumes "env_ok lim E" and "ks_is lim clk (cs_db s) A"
  shows "\<exists>s'. lmpop_attempt E keys left n s = Some (fst (lmpop_at (env_now E) keys left n A), s')
    \<and> ks_is lim clk (cs_db s') (snd (lmpop_at (env_now E) keys left n A)) \<and> cs_wakes s' = cs_wakes s"
  using assms(2)
proof (induction keys arbitrary: s A)
  case (Cons key keys)
  let ?e = "edit_list (env_now E) key None None (lmpop_spec key left n) A"
  from lm.edit_at_ok [OF assms(1) Cons.prems, of key "env_now E" None key left n] obtain s1 where
    s1: "on_key key (edit_live (env_now E) key None (lmpop_value E key left n)) s = Some (fst ?e, s1)"
      "ks_is lim clk (cs_db s1) (snd ?e)" "cs_wakes s1 = cs_wakes s" by blast
  obtain r B where e: "?e = (r, B)" by force
  show ?case
  proof (cases r)
    case None
    then show ?thesis using s1 e Cons.IH [of s1 B] by simp
  next
    case (Some x)
    then show ?thesis using s1 e by simp
  qed
qed simp

text \<open>Reading the words.\<close>

lemma upper_words:
  "to_uppercase (asc ''BEFORE'') = asc ''BEFORE''" "to_uppercase (asc ''AFTER'') = asc ''AFTER''"
  "to_uppercase (asc ''LEFT'') = asc ''LEFT''" "to_uppercase (asc ''RIGHT'') = asc ''RIGHT''"
  "to_uppercase (asc ''RANK'') = asc ''RANK''" "to_uppercase (asc ''COUNT'') = asc ''COUNT''" "to_uppercase (asc ''MAXLEN'') = asc ''MAXLEN''"
  "to_ascii_uppercase (asc ''LEFT'') = asc ''LEFT''" "to_ascii_uppercase (asc ''RIGHT'') = asc ''RIGHT''"
  "to_ascii_uppercase (asc ''COUNT'') = asc ''COUNT''"
  by code_simp+

lemma valid_words:
  "utf8_valid (asc ''BEFORE'')" "utf8_valid (asc ''AFTER'')" "utf8_valid (asc ''LEFT'')" "utf8_valid (asc ''RIGHT'')"
  "utf8_valid (asc ''RANK'')" "utf8_valid (asc ''COUNT'')" "utf8_valid (asc ''MAXLEN'')"
  by code_simp+

lemma distinct_words [simp]:
  "asc ''AFTER'' \<noteq> asc ''BEFORE''" "asc ''RIGHT'' \<noteq> asc ''LEFT''" "asc ''COUNT'' \<noteq> asc ''RANK''" "asc ''MAXLEN'' \<noteq> asc ''RANK''"
  "asc ''MAXLEN'' \<noteq> asc ''COUNT''"
  by code_simp+

lemmas word_simps = upper_words valid_words dec_line(4) parse_i64_dec_int

lemma get_word_i64: "i < length bs \<Longrightarrow> bs ! i = dec_int n \<Longrightarrow> i64_ok n \<Longrightarrow> get_i64 (bulks bs) i cmd = Inr n"
  by (simp add: get_bulks word_simps)

lemma lpos_options_words:
  assumes "list_wf (LPos key x op)"
  shows "lpos_options (bulks (lpos_words op)) \<lparr>lp_rank = 1, lp_count = None, lp_maxlen = 0\<rparr> = Inr op"
proof -
  have i: "get_i64 (BulkString (Some (dec_int n)) # rest) 0 cmd = Inr n" if "i64_ok n" for n rest cmd
    using that by (simp add: get_i64_def get_str_def ok_or_arity_def index_def word_simps)
  show ?thesis
    using assms by (cases "lp_count op") (simp_all add: lpos_words_def word_simps i Let_def)
qed

lemma collect_Inr: "(\<And>j. j \<in> set js \<Longrightarrow> f j = Inr (h j)) \<Longrightarrow> collect_results (map f js) = Inr (map h js)"
  by (induction js) simp_all

lemma parse_keys_words:
  assumes "bs = pre @ keys @ post" and "length pre = i"
  shows "parse_keys (bulks bs) i (length keys) cmd = Inr (keys, i + length keys)"
proof -
  have "collect_results (map (\<lambda>j. get_bytes_vec (bulks bs) j cmd) [i..<i + length keys]) = Inr (map (nth bs) [i..<i + length keys])"
    by (intro collect_Inr get_bulks(2)) (use assms in simp)
  moreover have "map (nth bs) [i..<i + length keys] = keys"
    by (rule nth_equalityI) (use assms in \<open>simp_all add: nth_append\<close>)
  ultimately show ?thesis using assms by (simp add: parse_keys_def)
qed

lemma parse_lmpop_tail_words:
  assumes "i64_ok (int n)"
  shows "parse_lmpop_tail (bulks [side left, asc ''COUNT'', dec_int (int n)]) cmd = Inr (left, n)"
proof -
  let ?bs = "[side left, asc ''COUNT'', dec_int (int n)]"
  have "get_str (bulks ?bs) 0 cmd = Inr (side left)" "get_str (bulks ?bs) 1 cmd = Inr (asc ''COUNT'')" "get_i64 (bulks ?bs) 2 cmd = Inr (int n)"
    using assms by (auto simp: get_str_def get_i64_def ok_or_arity_def index_def word_simps)
  then show ?thesis by (cases left) (simp_all add: parse_lmpop_tail_def word_simps)
qed

lemma cmd_lmpop_words:
  assumes "list_wf (LMPop keys left n)"
  shows "cmd_lmpop E (bulks (list_words (LMPop keys left n))) s
    = map_option (\<lambda>(r, s). (Inr (case r of Some resp \<Rightarrow> resp | None \<Rightarrow> resp_null_array), s)) (lmpop_attempt E keys left n s)"
proof -
  let ?bs = "list_words (LMPop keys left n)" and ?nm = "asc ''LMPOP''"
  let ?tail = "[side left, asc ''COUNT'', dec_int (int n)]"
  have w: "keys \<noteq> []" "i64_ok (int (length keys))" "i64_ok (int n)" using assms by auto
  have n: "parse_numkeys (bulks ?bs) 1 ?nm = Inr (length keys)"
    using get_word_i64 [of 1 ?bs "int (length keys)" ?nm] w by (simp add: parse_numkeys_def)
  have k: "parse_keys (bulks ?bs) 2 (length keys) ?nm = Inr (keys, 2 + length keys)"
    by (rule parse_keys_words [where pre = "[asc ''LMPOP'', dec_int (int (length keys))]" and post = ?tail]) simp_all
  have "drop (2 + length keys) ?bs = ?tail" by simp
  then have t: "parse_lmpop_tail (drop (2 + length keys) (bulks ?bs)) ?nm = Inr (left, n)"
    using parse_lmpop_tail_words [OF w(3), of left ?nm] by (simp only: bulks_simps)
  have "length ?bs \<ge> 4" using w(1) by (cases keys) simp_all
  then show ?thesis unfolding cmd_lmpop_def n attempt_simps k prod.case t by (simp del: list_words.simps)
qed

lemmas arg_defs = get_bytes_vec_def get_bytes_def get_str_def get_i64_def ok_or_arity_def index_def word_simps

text \<open>Every command, from its words on.\<close>

lemma list_command_law:
  assumes "env_ok lim E" and "list_wf c" and "ks_is lim clk (cs_db s) A"
  shows "\<exists>s'. list_exec E c s = Some (fst (list_spec E c A), s') \<and> ks_is lim clk (cs_db s') (snd (list_spec E c A))
    \<and> cs_wakes s' = cs_wakes s + (if list_wakes E c A then 1 else 0)"
proof (cases c)
  case (LPush left only key xs)
  then have "xs \<noteq> []" using assms(2) by simp
  note l = list_push_ok [OF assms(1,3) this]
  show ?thesis
    using l [of _ key left only] by (cases left; cases only)
      (simp_all add: LPush list_exec_def cmd_lpush_def cmd_rpush_def cmd_lpushx_def cmd_rpushx_def del: bulks_simps)
next
  case (LPop left key n)
  have "list_exec E c s = on_key key (edit_live (env_now E) key (Inr resp_null) (pop_value E left n)) s"
    using assms(2) by (cases left; cases n) (auto simp: LPop list_exec_def cmd_lpop_def cmd_rpop_def list_pop_def arg_defs)
  then show ?thesis using po.edit_at_ok [OF assms(1,3), of key "env_now E" "Inr resp_null" left n] by (simp add: LPop)
next
  case (LLen key)
  then show ?thesis using vl.view_at_ok [OF TrueI assms(3), of E key "Inr (resp_int 0)"] assms(3)
    by (simp add: list_exec_def cmd_llen_def arg_defs)
next
  case (LRange key i j)
  then show ?thesis using vr.view_at_ok [OF TrueI assms(3), of E key "Inr (RRaw EMPTY_ARRAY)" E i j] assms(2,3)
    by (simp add: list_exec_def cmd_lrange_def arg_defs)
next
  case (LIndex key i)
  then show ?thesis using vi.view_at_ok [OF TrueI assms(3), of E key "Inr resp_null" i] assms(2,3)
    by (simp add: list_exec_def cmd_lindex_def arg_defs)
next
  case (LSet key i v)
  then show ?thesis using ls.edit_at_ok [OF TrueI assms(3), of key "env_now E" "Inl (Generic (asc ''no such key''))" i v] assms(2)
    by (simp add: list_exec_def cmd_lset_def arg_defs)
next
  case (LInsert key before pivot x)
  then show ?thesis using li.edit_at_ok [OF TrueI assms(3), of key "env_now E" "Inr (resp_int (- 1))" before pivot x] assms(2)
    by (cases before) (simp_all add: list_exec_def cmd_linsert_def arg_defs)
next
  case (LRem key n x)
  then show ?thesis using lr.edit_at_ok [OF assms(1,3), of key "env_now E" "Inr (resp_int 0)" n x] assms(2)
    by (simp add: list_exec_def cmd_lrem_def arg_defs)
next
  case (LTrim key i j)
  then show ?thesis using lt.edit_at_ok [OF assms(1,3), of key "env_now E" "Inr resp_ok" i j] assms(2)
    by (simp add: list_exec_def cmd_ltrim_def arg_defs)
next
  case (LMove src dst from_l to_l)
  have "list_exec E c s = lmove_reply E src dst from_l to_l s"
    by (cases from_l; cases to_l) (simp_all add: LMove list_exec_def cmd_lmove_def arg_defs)
  then show ?thesis using lmove_reply_ok [OF assms(1,3), of src dst from_l to_l]
    by (auto simp: LMove split: sum.splits option.splits)
next
  case (RPopLPush src dst)
  have "list_exec E c s = lmove_reply E src dst False True s" by (simp add: RPopLPush list_exec_def cmd_rpoplpush_def arg_defs)
  then show ?thesis using lmove_reply_ok [OF assms(1,3), of src dst False True]
    by (auto simp: RPopLPush split: sum.splits option.splits)
next
  case (LPos key x op)
  have r: "lp_rank op \<noteq> 0" using assms(2) LPos by simp
  have "list_exec E c s = view_ro E key (Inr (if lp_count op \<noteq> None then resp_array [] else resp_null)) (lpos_value x op) s"
    using lpos_options_words [of key x op] assms(2) by (simp add: LPos list_exec_def cmd_lpos_def arg_defs)
  then show ?thesis using vp.view_at_ok [OF r assms(3), of E key _ x] assms(3) by (simp add: LPos)
next
  case (LMPop keys left n)
  then show ?thesis using cmd_lmpop_words [of keys left n E s] lmpop_attempt_ok [OF assms(1,3), of keys left n] assms(2)
    by (auto simp: list_exec_def)
qed

interpretation lc: command_family lim list_wf list_exec list_spec for lim
  using list_command_law by unfold_locales blast

end
