(* ===== verification/Hash_Spec.thy ===== *)
theory Hash_Spec
  imports Hash_Cmds List_Spec
begin

text \<open>
  What the hash commands do: their specification on a keyspace of plain maps (\<open>hash_spec\<close>), a relation where
  the reply depends on the order a hash lists its fields in or on a random pick, and that every command, from
  its words on, implements it.
\<close>

section \<open>The effects on a map\<close>

fun proj_hash :: "aval \<Rightarrow> (bytes \<rightharpoonup> bytes) option" where
  "proj_hash (AHash m) = Some m"
| "proj_hash _ = None"

definition hset_effect :: "(int \<Rightarrow> resp) \<Rightarrow> pairs \<Rightarrow> (bytes \<rightharpoonup> bytes) \<Rightarrow> resp result \<times> (bytes \<rightharpoonup> bytes) option" where
  "hset_effect rep fvs m = (let m' = m ++ map_of (rev fvs) in
     (Inr (rep (int (card (dom m')) - int (card (dom m)))), Some m'))"

definition hsetnx_effect :: "bytes \<Rightarrow> bytes \<Rightarrow> (bytes \<rightharpoonup> bytes) \<Rightarrow> resp result \<times> (bytes \<rightharpoonup> bytes) option" where
  "hsetnx_effect field val m = (if field \<in> dom m then (Inr (resp_int 0), Some m) else (Inr (resp_int 1), Some (m(field \<mapsto> val))))"

definition hincrby_effect :: "bytes \<Rightarrow> int \<Rightarrow> (bytes \<rightharpoonup> bytes) \<Rightarrow> resp result \<times> (bytes \<rightharpoonup> bytes) option" where
  "hincrby_effect field delta m = (case field_number (m field) of
     Inl e \<Rightarrow> (Inl e, Some m)
   | Inr n \<Rightarrow> if i64_ok (n + delta) then (Inr (resp_int (n + delta)), Some (m(field \<mapsto> dec_int (n + delta)))) else (Inl Overflow, Some m))"

definition hdel_effect :: "bytes list \<Rightarrow> (bytes \<rightharpoonup> bytes) \<Rightarrow> resp result \<times> (bytes \<rightharpoonup> bytes) option" where
  "hdel_effect fs m = (let m' = m |` (- set fs) in
     (Inr (resp_int (int (card (dom m)) - int (card (dom m - set fs)))), if m' = Map.empty then None else Some m'))"

text \<open>The ways to list a map.\<close>

definition lists_map :: "pairs \<Rightarrow> (bytes \<rightharpoonup> bytes) \<Rightarrow> bool" where
  "lists_map ps m \<longleftrightarrow> distinct (map fst ps) \<and> map_of ps = m"

definition hscan_rel :: "u64 option \<Rightarrow> bytes option \<times> nat \<Rightarrow> (bytes \<rightharpoonup> bytes) \<Rightarrow> resp result \<Rightarrow> bool" where
  "hscan_rel cursor op m r \<longleftrightarrow> (\<exists>ps items nxt. lists_map ps m
     \<and> scan_select_page (filter (\<lambda>p. glob_match (scan_pattern (fst op)) (fst p)) ps) cursor (snd op) fst = (items, nxt)
     \<and> r = Inr (scan_reply (flat items) nxt))"

text \<open>Random members of a set: one, some different ones, or some with repetition.\<close>

definition sample_rel :: "int option \<Rightarrow> bytes set \<Rightarrow> resp \<Rightarrow> bool" where
  "sample_rel cnt S r \<longleftrightarrow> (case cnt of
     None \<Rightarrow> if S = {} then r = resp_null else \<exists>x \<in> S. r = resp_bulk x
   | Some n \<Rightarrow>
       if n < 0 then (let k = min (nat (- n)) MAX_RANDOM_SAMPLE in
         if S = {} then r = resp_array (replicate k resp_null)
         else \<exists>xs. r = resp_array (map resp_bulk xs) \<and> length xs = k \<and> set xs \<subseteq> S)
       else \<exists>xs. r = resp_array (map resp_bulk xs) \<and> distinct xs \<and> set xs \<subseteq> S \<and> length xs = min (nat n) (card S))"

section \<open>The edits implement them\<close>

interpretation hty: coll_type lim DHash proj_hash AHash hashdata_is for lim
proof
  fix a :: aval and x show "(proj_hash a = Some x) = (a = AHash x)" by (cases a) auto
next
  fix v x assume "val_is lim v (AHash x)" then show "\<exists>c. v = DHash c" by (cases v) auto
qed auto

lemma hash_opI:
  assumes "\<And>h m. ok \<Longrightarrow> hashdata_is h m \<Longrightarrow> \<exists>r h' emptied m'. f (DHash h) = Some (r, DHash h', int (map_payload m') - int (map_payload m), emptied)
      \<and> hashdata_is h' m' \<and> g m = (r, if emptied then None else Some m')"
    and "\<And>v. \<nexists>h. v = DHash h \<Longrightarrow> f v = Some (wrong, v, 0, False)"
  shows "coll_op lim DHash proj_hash AHash hashdata_is ok f wrong g"
proof
  fix h m assume "ok" and h: "hashdata_is h m"
  from assms(1) [OF this] obtain r h' emptied m' where
    f: "f (DHash h) = Some (r, DHash h', int (map_payload m') - int (map_payload m), emptied)" "hashdata_is h' m'"
      "g m = (r, if emptied then None else Some m')" by blast
  then show "\<exists>r c' delta emptied y. f (DHash h) = Some (r, DHash c', delta, emptied) \<and> hashdata_is c' y
      \<and> int (value_size (DHash c')) = int (value_size (DHash h)) + delta \<and> g m = (r, if emptied then None else Some y)"
    using hashdata_payload_is [OF h] hashdata_payload_is [OF f(2)] by auto
qed (rule assms(2))

lemma hash_res:
  "fv = Some (r, DHash h', int (map_payload m') - int (map_payload m), emptied) \<Longrightarrow> hashdata_is h' m'
    \<Longrightarrow> gv = (r, if emptied then None else Some m') \<Longrightarrow>
   \<exists>r h' emptied m'. fv = Some (r, DHash h', int (map_payload m') - int (map_payload m), emptied)
      \<and> hashdata_is h' m' \<and> gv = (r, if emptied then None else Some m')"
  by (intro exI conjI)

lemma hash_envD:
  assumes "env_ok lim E" and "hashdata_is h m"
  shows "hashdata_is h m \<and> hash_order (env_hash_order E) \<and> hash_thr_ok (env_hash E)"
  using assms by (simp add: env_ok_def)

lemma hset_args_loop:
  assumes "map bulk_or_simple vals = map Some (flat fvs)"
  shows "hset_args thr cmd vals h added delta = map_option (\<lambda>(r, h). (Inr r, h)) (hset_loop (hashdata_insert thr) h fvs added delta)"
  using assms
proof (induction fvs arbitrary: vals h added delta)
  case (Cons fv fvs)
  obtain f v where fv: "fv = (f, v)" by force
  with Cons.prems obtain a b rest where "vals = a # b # rest" "bulk_or_simple a = Some f" "bulk_or_simple b = Some v"
    "map bulk_or_simple rest = map Some (flat fvs)" by auto
  then show ?case using Cons.IH [of rest] by (auto simp: fv ok_or_arity_def split: bind_splits)
qed simp

interpretation hs: coll_op lim DHash proj_hash AHash hashdata_is
  "env_ok lim E \<and> map bulk_or_simple vals = map Some (flat fvs)" "hset_value E cmd rep vals" "Inl WrongType" "hset_effect rep fvs"
  for lim E vals fvs cmd rep
proof (rule hash_opI)
  fix h m assume a: "env_ok lim E \<and> map bulk_or_simple vals = map Some (flat fvs)" and h: "hashdata_is h m"
  let ?m = "m ++ map_of (rev fvs)"
  from hd.hset_loop_correct [OF hash_envD [OF _ h], of lim E fvs 0 0] a obtain h' where
    h': "hset_loop (hashdata_insert (env_hash E)) h fvs 0 0 = Some ((int (card (dom ?m)) - int (card (dom m)), int (map_payload ?m) - int (map_payload m)), h')"
      "hashdata_is h' ?m" by auto
  have "hset_value E cmd rep vals (DHash h)
      = Some (Inr (rep (int (card (dom ?m)) - int (card (dom m)))), DHash h', int (map_payload ?m) - int (map_payload m), False)"
    using a h'(1) by (simp add: hset_args_loop)
  then show "\<exists>r h' emptied m'. hset_value E cmd rep vals (DHash h) = Some (r, DHash h', int (map_payload m') - int (map_payload m), emptied)
      \<and> hashdata_is h' m' \<and> hset_effect rep fvs m = (r, if emptied then None else Some m')"
    by (rule hash_res [OF _ h'(2)]) (simp add: hset_effect_def Let_def)
next
  fix v :: data_type assume "\<nexists>h. v = DHash h"
  then show "hset_value E cmd rep vals v = Some (Inl WrongType, v, 0, False)" by (cases v) auto
qed

text \<open>Storing one field.\<close>

lemma hash_insert_env:
  assumes "env_ok lim E" and "hashdata_is h m"
  shows "\<exists>h'. hashdata_insert (env_hash E) h f v = Some ((m f = None, int (map_payload (m(f \<mapsto> v))) - int (map_payload m)), h')
    \<and> hashdata_is h' (m(f \<mapsto> v))"
  using hashdata_insert_is [OF assms(2), of "env_hash E" f v] hash_envD [OF assms] by blast

interpretation hx: coll_op lim DHash proj_hash AHash hashdata_is "env_ok lim E" "hsetnx_value E field val" "Inl WrongType"
  "hsetnx_effect field val" for lim E field val
proof (rule hash_opI)
  fix h m assume e: "env_ok lim E" and h: "hashdata_is h m"
  show "\<exists>r h' emptied m'. hsetnx_value E field val (DHash h) = Some (r, DHash h', int (map_payload m') - int (map_payload m), emptied)
      \<and> hashdata_is h' m' \<and> hsetnx_effect field val m = (r, if emptied then None else Some m')"
  proof (cases "field \<in> dom m")
    case True
    then have "hsetnx_value E field val (DHash h) = Some (Inr (resp_int 0), DHash h, int (map_payload m) - int (map_payload m), False)"
      by (simp add: hashdata_contains_is [OF h])
    then show ?thesis by (rule hash_res [OF _ h]) (simp add: hsetnx_effect_def True)
  next
    case False
    from hash_insert_env [OF e h, of field val] obtain h' where
      h': "hashdata_insert (env_hash E) h field val = Some ((m field = None, int (map_payload (m(field \<mapsto> val))) - int (map_payload m)), h')"
        "hashdata_is h' (m(field \<mapsto> val))" by blast
    have "hsetnx_value E field val (DHash h) = Some (Inr (resp_int 1), DHash h', int (map_payload (m(field \<mapsto> val))) - int (map_payload m), False)"
      using False h'(1) by (simp add: hashdata_contains_is [OF h] del: fun_upd_apply)
    then show ?thesis by (rule hash_res [OF _ h'(2)]) (simp add: hsetnx_effect_def False)
  qed
next
  fix v :: data_type assume "\<nexists>h. v = DHash h"
  then show "hsetnx_value E field val v = Some (Inl WrongType, v, 0, False)" by (cases v) auto
qed

interpretation hi: coll_op lim DHash proj_hash AHash hashdata_is "env_ok lim E" "hincrby_value E field delta" "Inl WrongType"
  "hincrby_effect field delta" for lim E field delta
proof (rule hash_opI)
  fix h m assume e: "env_ok lim E" and h: "hashdata_is h m"
  note get = hashdata_get_is [OF h, of field]
  have same: "\<exists>r h' emptied m'. fv = Some (r, DHash h', int (map_payload m') - int (map_payload m), emptied)
      \<and> hashdata_is h' m' \<and> gv = (r, if emptied then None else Some m')"
    if "fv = Some (Inl x, DHash h, 0, False)" "gv = (Inl x, Some m)" for x and fv gv :: "_"
    by (rule hash_res [where r = "Inl x" and emptied = False, OF _ h]) (use that in simp_all)
  show "\<exists>r h' emptied m'. hincrby_value E field delta (DHash h) = Some (r, DHash h', int (map_payload m') - int (map_payload m), emptied)
      \<and> hashdata_is h' m' \<and> hincrby_effect field delta m = (r, if emptied then None else Some m')"
  proof (cases "field_number (m field)")
    case (Inl x)
    show ?thesis by (rule same [of _ x]) (use Inl get in \<open>simp_all add: hincrby_effect_def\<close>)
  next
    case (Inr n)
    show ?thesis
    proof (cases "i64_ok (n + delta)")
      case False
      show ?thesis by (rule same [of _ Overflow]) (use Inr False get in \<open>simp_all add: hincrby_effect_def checked_add_def\<close>)
    next
      case True
      let ?m = "m(field \<mapsto> dec_int (n + delta))"
      from hash_insert_env [OF e h, of field "dec_int (n + delta)"] obtain h' where
        h': "hashdata_insert (env_hash E) h field (dec_int (n + delta)) = Some ((m field = None, int (map_payload ?m) - int (map_payload m)), h')"
          "hashdata_is h' ?m" by blast
      have "hincrby_value E field delta (DHash h) = Some (Inr (resp_int (n + delta)), DHash h', int (map_payload ?m) - int (map_payload m), False)"
        using Inr True h'(1) get by (simp add: checked_add_def del: fun_upd_apply)
      then show ?thesis by (rule hash_res [OF _ h'(2)]) (simp add: hincrby_effect_def Inr True)
    qed
  qed
next
  fix v :: data_type assume "\<nexists>h. v = DHash h"
  then show "hincrby_value E field delta v = Some (Inl WrongType, v, 0, False)" by (cases v) auto
qed

lemma map_filter_words: "map bulk_or_simple vals = map Some fs \<Longrightarrow> List.map_filter bulk_or_simple vals = fs"
  by (induction vals arbitrary: fs) auto

interpretation hr: coll_op lim DHash proj_hash AHash hashdata_is "env_ok lim E \<and> map bulk_or_simple vals = map Some fs"
  "hdel_value E vals" "Inl WrongType" "hdel_effect fs" for lim E vals fs
proof (rule hash_opI)
  fix h m assume a: "env_ok lim E \<and> map bulk_or_simple vals = map Some fs" and h: "hashdata_is h m"
  let ?m = "m |` (- set fs)" and ?n = "int (card (dom m)) - int (card (dom m - set fs))"
  have fs: "List.map_filter bulk_or_simple vals = fs" using a map_filter_words by blast
  from hd.hdel_loop_correct [OF hash_envD [OF _ h], of lim E fs 0 0] a obtain h' where
    h': "hdel_loop (hashdata_remove (env_hash_order E) (env_hash E)) h fs 0 0 = Some ((?n, int (map_payload ?m) - int (map_payload m)), h')"
      "hashdata_is h' ?m" by auto
  have "hdel_value E vals (DHash h) = Some (Inr (resp_int ?n), DHash h', int (map_payload ?m) - int (map_payload m), ?m = Map.empty)"
    using h' by (simp add: fs hashdata_empty_is)
  then show "\<exists>r h' emptied m'. hdel_value E vals (DHash h) = Some (r, DHash h', int (map_payload m') - int (map_payload m), emptied)
      \<and> hashdata_is h' m' \<and> hdel_effect fs m = (r, if emptied then None else Some m')"
    by (rule hash_res [OF _ h'(2)]) (simp add: hdel_effect_def Let_def)
next
  fix v :: data_type assume "\<nexists>h. v = DHash h"
  then show "hdel_value E vals v = Some (Inl WrongType, v, 0, False)" by (cases v) auto
qed

section \<open>The readers\<close>

interpretation vg: coll_view lim DHash proj_hash AHash hashdata_is True "hget_value field" "Inl WrongType" "\<lambda>m. Inr (bulk_or_null (m field))"
  for lim field
proof
  fix v :: data_type assume "\<nexists>h. v = DHash h"
  then show "hget_value field v = Some (Inl WrongType)" by (cases v) auto
qed (simp add: hashdata_get_is)

lemma hmget_fields_is:
  assumes "hashdata_is h m" and "map bulk_or_simple vals = map Some fs"
  shows "hmget_fields h vals = Some (map (\<lambda>f. bulk_or_null (m f)) fs)"
  using assms(2)
proof (induction vals arbitrary: fs)
  case (Cons a vals)
  then show ?case by (auto simp: hashdata_get_is [OF assms(1)])
qed simp

interpretation vm: coll_view lim DHash proj_hash AHash hashdata_is "map bulk_or_simple vals = map Some fs" "hmget_value vals"
  "Inr (nulls vals)" "\<lambda>m. Inr (resp_array (map (\<lambda>f. bulk_or_null (m f)) fs))" for lim vals fs
proof
  fix v :: data_type assume "\<nexists>h. v = DHash h"
  then show "hmget_value vals v = Some (Inr (nulls vals))" by (cases v) auto
qed (simp add: hmget_fields_is)

interpretation ve: coll_view lim DHash proj_hash AHash hashdata_is True "hexists_value field" "Inl WrongType"
  "\<lambda>m. Inr (resp_int (of_bool (field \<in> dom m)))" for lim field
proof
  fix v :: data_type assume "\<nexists>h. v = DHash h"
  then show "hexists_value field v = Some (Inl WrongType)" by (cases v) auto
qed (simp add: hashdata_contains_is)

interpretation vh: coll_view lim DHash proj_hash AHash hashdata_is True hlen_value "Inl WrongType"
  "\<lambda>m. Inr (resp_int (int (card (dom m))))" for lim
proof
  fix v :: data_type assume "\<nexists>h. v = DHash h"
  then show "hlen_value v = Some (Inl WrongType)" by (cases v) auto
qed (simp add: hashdata_len_is)

lemma hash_lists:
  assumes "env_ok lim E" and "hashdata_is h m"
  obtains ps where "hashdata_to_pairs (env_hash_order E) h = Some ps" and "lists_map ps m"
  using hashdata_to_pairs_is [OF assms(2), of "env_hash_order E"] hash_envD [OF assms] by (auto simp: lists_map_def)

lemma lists_map_dom: "lists_map ps m \<Longrightarrow> distinct (map fst ps) \<and> set (map fst ps) = dom m"
  using dom_map_of_conv_image_fst [of ps] by (auto simp only: lists_map_def set_map)

definition hgetall_rel :: "(bytes \<rightharpoonup> bytes) \<Rightarrow> resp result \<Rightarrow> bool" where
  "hgetall_rel m r \<longleftrightarrow> (\<exists>ps. lists_map ps m \<and> r = Inr (resp_array (map resp_bulk (flat ps))))"

definition hkeys_rel :: "(bytes \<rightharpoonup> bytes) \<Rightarrow> resp result \<Rightarrow> bool" where
  "hkeys_rel m r \<longleftrightarrow> (\<exists>ks. distinct ks \<and> set ks = dom m \<and> r = Inr (resp_array (map resp_bulk ks)))"

definition hvals_rel :: "(bytes \<rightharpoonup> bytes) \<Rightarrow> resp result \<Rightarrow> bool" where
  "hvals_rel m r \<longleftrightarrow> (\<exists>ps. lists_map ps m \<and> r = Inr (resp_array (map resp_bulk (map snd ps))))"

interpretation va: coll_rview lim DHash proj_hash AHash hashdata_is "env_ok lim E" "hgetall_value E" "Inl WrongType" hgetall_rel for lim E
proof
  fix v :: data_type assume "\<nexists>h. v = DHash h"
  then show "hgetall_value E v = Some (Inl WrongType)" by (cases v) auto
next
  fix h m assume e: "env_ok lim E" and h: "hashdata_is h m"
  show "\<exists>r. hgetall_value E (DHash h) = Some r \<and> hgetall_rel m r"
  proof (cases "m = Map.empty")
    case True
    then show ?thesis using hashdata_empty_is [OF h] by (auto simp: hgetall_rel_def lists_map_def intro!: exI [of _ "[]"])
  next
    case False
    from hgetall_snap_is [OF h, of "env_hash_order E"] hash_envD [OF e h] obtain ps where
      ps: "distinct (map fst ps)" "map_of ps = m" "case hashdata_hgetall_snap (env_hash_order E) h of
         SnapCompact buf n need \<Rightarrow> ch_bulk_collect buf n = Some (flat ps) \<and> n = length ps | SnapHashtable qs \<Rightarrow> qs = ps" by blast
    then have "hgetall_items (hashdata_hgetall_snap (env_hash_order E) h) = Some (flat ps)"
      by (auto simp: hgetall_items_def split: hash_get_all_snap.splits)
    then show ?thesis using ps(1,2) False hashdata_empty_is [OF h] by (auto simp: hgetall_rel_def lists_map_def)
  qed
qed

interpretation vk: coll_rview lim DHash proj_hash AHash hashdata_is "env_ok lim E" "hkeys_value E" "Inl WrongType" hkeys_rel for lim E
proof
  fix v :: data_type assume "\<nexists>h. v = DHash h"
  then show "hkeys_value E v = Some (Inl WrongType)" by (cases v) auto
next
  fix h m assume "env_ok lim E" and "hashdata_is h m"
  then obtain ps where ps: "hashdata_to_pairs (env_hash_order E) h = Some ps" "lists_map ps m" by (rule hash_lists)
  then show "\<exists>r. hkeys_value E (DHash h) = Some r \<and> hkeys_rel m r"
    using lists_map_dom [OF ps(2)] by (auto simp: hashdata_keys_def hkeys_rel_def intro!: exI [of _ "map fst ps"])
qed

interpretation vv: coll_rview lim DHash proj_hash AHash hashdata_is "env_ok lim E" "hvals_value E" "Inl WrongType" hvals_rel for lim E
proof
  fix v :: data_type assume "\<nexists>h. v = DHash h"
  then show "hvals_value E v = Some (Inl WrongType)" by (cases v) auto
next
  fix h m assume "env_ok lim E" and "hashdata_is h m"
  then obtain ps where "hashdata_to_pairs (env_hash_order E) h = Some ps" "lists_map ps m" by (rule hash_lists)
  then show "\<exists>r. hvals_value E (DHash h) = Some r \<and> hvals_rel m r" by (auto simp: hashdata_values_def hvals_rel_def)
qed

interpretation vc: coll_rview lim DHash proj_hash AHash hashdata_is "env_ok lim E" "hscan_value E cursor op" "Inl WrongType" "hscan_rel cursor op"
  for lim E cursor op
proof
  fix v :: data_type assume "\<nexists>h. v = DHash h"
  then show "hscan_value E cursor op v = Some (Inl WrongType)" by (cases v) auto
next
  fix h m assume "env_ok lim E" and "hashdata_is h m"
  then obtain ps where ps: "hashdata_to_pairs (env_hash_order E) h = Some ps" "lists_map ps m" by (rule hash_lists)
  obtain items nxt where "scan_select_page (filter (\<lambda>p. glob_match (scan_pattern (fst op)) (fst p)) ps) cursor (snd op) fst = (items, nxt)" by force
  then show "\<exists>r. hscan_value E cursor op (DHash h) = Some r \<and> hscan_rel cursor op m r" using ps by (auto simp: hscan_rel_def)
qed

text \<open>A sample of a listed set.\<close>

lemma pick_listed:
  assumes "xs \<noteq> []"
  shows "\<exists>x \<in> set xs. bulk_or_null (index xs (pseudo_rand_idx n (length xs))) = resp_bulk x"
  using pseudo_rand_less [of "length xs" n] assms by (auto simp: index_def)

lemma sample_picks:
  assumes "xs \<noteq> []"
  shows "\<exists>ys. map (\<lambda>i. bulk_or_null (index xs (pseudo_rand_idx (nanos i) (length xs)))) is = map resp_bulk ys \<and> length ys = length is \<and> set ys \<subseteq> set xs"
proof (induction "is")
  case (Cons i "is")
  then obtain ys where ys: "map (\<lambda>i. bulk_or_null (index xs (pseudo_rand_idx (nanos i) (length xs)))) is = map resp_bulk ys"
    "length ys = length is" "set ys \<subseteq> set xs" by blast
  obtain x where "x \<in> set xs" "bulk_or_null (index xs (pseudo_rand_idx (nanos i) (length xs))) = resp_bulk x" using pick_listed [OF assms] by blast
  then show ?case using ys by (auto intro!: exI [of _ "x # ys"])
qed simp

lemma sample_listed:
  assumes "distinct xs" and "set xs = S"
  shows "sample_rel cnt S (hrandfield_reply E cnt xs)"
proof (cases cnt)
  case None
  show ?thesis
  proof (cases "xs = []")
    case True
    then show ?thesis using assms None by (simp add: sample_rel_def hrandfield_reply_def index_def)
  next
    case False
    then show ?thesis using pick_listed [OF False] assms None by (auto simp: sample_rel_def hrandfield_reply_def)
  qed
next
  case (Some n)
  show ?thesis
  proof (cases "n < 0")
    case True
    let ?is = "[0..<min (nat (- n)) MAX_RANDOM_SAMPLE]"
    show ?thesis
    proof (cases "xs = []")
      case e: True
      have "map (\<lambda>i. resp_null) ?is = replicate (min (nat (- n)) MAX_RANDOM_SAMPLE) resp_null" by (simp add: map_replicate_const)
      then show ?thesis using assms Some True e by (simp add: sample_rel_def hrandfield_reply_def index_def Let_def)
    next
      case False
      from sample_picks [OF False, of "env_nanos E" ?is] obtain ys where
        "map (\<lambda>i. bulk_or_null (index xs (pseudo_rand_idx (env_nanos E i) (length xs)))) ?is = map resp_bulk ys"
        "length ys = length ?is" "set ys \<subseteq> set xs" by blast
      then show ?thesis using assms Some True False by (auto simp: sample_rel_def hrandfield_reply_def Let_def)
    qed
  next
    case False
    have "distinct (take (nat n) xs)" "set (take (nat n) xs) \<subseteq> S" "length (take (nat n) xs) = min (nat n) (card S)"
      using assms set_take_subset [of "nat n" xs] by (auto simp: distinct_card [symmetric] min.commute)
    then show ?thesis using Some False by (auto simp: sample_rel_def hrandfield_reply_def)
  qed
qed

interpretation vf: coll_rview lim DHash proj_hash AHash hashdata_is "env_ok lim E" "hrandfield_value E cnt" "Inl WrongType"
  "\<lambda>m r. \<exists>x. r = Inr x \<and> sample_rel cnt (dom m) x" for lim E cnt
proof
  fix v :: data_type assume "\<nexists>h. v = DHash h"
  then show "hrandfield_value E cnt v = Some (Inl WrongType)" by (cases v) auto
next
  fix h m assume "env_ok lim E" and "hashdata_is h m"
  then obtain ps where ps: "hashdata_to_pairs (env_hash_order E) h = Some ps" "lists_map ps m" by (rule hash_lists)
  note d = lists_map_dom [OF ps(2)]
  have "sample_rel cnt (dom m) (hrandfield_reply E cnt (map fst ps))" by (rule sample_listed) (use d in auto)
  then show "\<exists>r. hrandfield_value E cnt (DHash h) = Some r \<and> (\<exists>x. r = Inr x \<and> sample_rel cnt (dom m) x)"
    using ps(1) by (simp add: hashdata_keys_def)
qed

section \<open>The commands\<close>

datatype hash_cmd =
    HSet bytes pairs | HMSet bytes pairs | HSetNX bytes bytes bytes | HIncrBy bytes bytes int | HDel bytes "bytes list"
  | HGet bytes bytes | HMGet bytes "bytes list" | HExists bytes bytes | HLen bytes | HGetAll bytes | HKeys bytes | HVals bytes
  | HScan bytes bytes "bytes option \<times> nat" | HRandField bytes "int option"

definition scan_words :: "bytes option \<times> nat \<Rightarrow> bytes list" where
  "scan_words op = (case fst op of None \<Rightarrow> [] | Some p \<Rightarrow> [asc ''MATCH'', p]) @ [asc ''COUNT'', dec_int (int (snd op))]"

fun hash_words :: "hash_cmd \<Rightarrow> bytes list" where
  "hash_words (HSet key fvs) = asc ''HSET'' # key # flat fvs"
| "hash_words (HMSet key fvs) = asc ''HMSET'' # key # flat fvs"
| "hash_words (HSetNX key f v) = [asc ''HSETNX'', key, f, v]"
| "hash_words (HIncrBy key f n) = [asc ''HINCRBY'', key, f, dec_int n]"
| "hash_words (HDel key fs) = asc ''HDEL'' # key # fs"
| "hash_words (HGet key f) = [asc ''HGET'', key, f]"
| "hash_words (HMGet key fs) = asc ''HMGET'' # key # fs"
| "hash_words (HExists key f) = [asc ''HEXISTS'', key, f]"
| "hash_words (HLen key) = [asc ''HLEN'', key]"
| "hash_words (HGetAll key) = [asc ''HGETALL'', key]"
| "hash_words (HKeys key) = [asc ''HKEYS'', key]"
| "hash_words (HVals key) = [asc ''HVALS'', key]"
| "hash_words (HScan key cursor op) = [asc ''HSCAN'', key, cursor] @ scan_words op"
| "hash_words (HRandField key cnt) = [asc ''HRANDFIELD'', key] @ (case cnt of None \<Rightarrow> [] | Some n \<Rightarrow> [dec_int n])"

fun hash_wf :: "hash_cmd \<Rightarrow> bool" where
  "hash_wf (HSet key fvs) \<longleftrightarrow> fvs \<noteq> []"
| "hash_wf (HMSet key fvs) \<longleftrightarrow> fvs \<noteq> []"
| "hash_wf (HIncrBy key f n) \<longleftrightarrow> i64_ok n"
| "hash_wf (HDel key fs) \<longleftrightarrow> fs \<noteq> []"
| "hash_wf (HMGet key fs) \<longleftrightarrow> fs \<noteq> []"
| "hash_wf (HScan key cursor op) \<longleftrightarrow> snd op > 0 \<and> i64_ok (int (snd op))"
| "hash_wf (HRandField key cnt) \<longleftrightarrow> (case cnt of None \<Rightarrow> True | Some n \<Rightarrow> i64_ok n)"
| "hash_wf _ \<longleftrightarrow> True"

fun hash_handler :: "hash_cmd \<Rightarrow> env \<Rightarrow> resp list \<Rightarrow> resp handler" where
  "hash_handler (HSet key fvs) = cmd_hset"
| "hash_handler (HMSet key fvs) = cmd_hmset"
| "hash_handler (HSetNX key f v) = cmd_hsetnx"
| "hash_handler (HIncrBy key f n) = cmd_hincrby"
| "hash_handler (HDel key fs) = cmd_hdel"
| "hash_handler (HGet key f) = cmd_hget"
| "hash_handler (HMGet key fs) = cmd_hmget"
| "hash_handler (HExists key f) = cmd_hexists"
| "hash_handler (HLen key) = cmd_hlen"
| "hash_handler (HGetAll key) = cmd_hgetall"
| "hash_handler (HKeys key) = cmd_hkeys"
| "hash_handler (HVals key) = cmd_hvals"
| "hash_handler (HScan key cursor op) = cmd_hscan"
| "hash_handler (HRandField key cnt) = cmd_hrandfield"

definition hash_exec :: "env \<Rightarrow> hash_cmd \<Rightarrow> resp handler" where
  "hash_exec E c = hash_handler c E (bulks (hash_words c))"

abbreviation upsert_hash :: "nat \<Rightarrow> bytes \<Rightarrow> ((bytes \<rightharpoonup> bytes) \<Rightarrow> resp result \<times> (bytes \<rightharpoonup> bytes) option) \<Rightarrow> keyspace \<Rightarrow> resp result \<times> keyspace" where
  "upsert_hash now key g A \<equiv> upsert_at proj_hash AHash now key Map.empty (Inl WrongType) g A"

abbreviation view_hash :: "nat \<Rightarrow> bytes \<Rightarrow> resp \<Rightarrow> ((bytes \<rightharpoonup> bytes) \<Rightarrow> resp) \<Rightarrow> keyspace \<Rightarrow> resp result" where
  "view_hash now key none h A \<equiv> view_at proj_hash now key (Inr none) (Inl WrongType) (\<lambda>m. Inr (h m)) A"

abbreviation list_hash :: "nat \<Rightarrow> bytes \<Rightarrow> resp \<Rightarrow> ((bytes \<rightharpoonup> bytes) \<Rightarrow> resp result \<Rightarrow> bool) \<Rightarrow> keyspace \<Rightarrow> resp result \<Rightarrow> bool" where
  "list_hash now key none H A r \<equiv> view_rel proj_hash now key (Inr none) (Inl WrongType) H A r"

fun hash_spec :: "env \<Rightarrow> hash_cmd \<Rightarrow> keyspace \<Rightarrow> resp result \<Rightarrow> keyspace \<Rightarrow> bool" where
  "hash_spec E (HSet key fvs) A r A' \<longleftrightarrow> (r, A') = upsert_hash (env_now E) key (hset_effect resp_int fvs) A"
| "hash_spec E (HMSet key fvs) A r A' \<longleftrightarrow> (r, A') = upsert_hash (env_now E) key (hset_effect (\<lambda>_. resp_ok) fvs) A"
| "hash_spec E (HSetNX key f v) A r A' \<longleftrightarrow> (r, A') = upsert_hash (env_now E) key (hsetnx_effect f v) A"
| "hash_spec E (HIncrBy key f n) A r A' \<longleftrightarrow> (r, A') = upsert_hash (env_now E) key (hincrby_effect f n) A"
| "hash_spec E (HDel key fs) A r A' \<longleftrightarrow>
     (r, A') = edit_at proj_hash AHash (env_now E) key (Inr (resp_int 0)) (Inl WrongType) (hdel_effect fs) A"
| "hash_spec E (HGet key f) A r A' \<longleftrightarrow> A' = A \<and> r = view_hash (env_now E) key resp_null (\<lambda>m. bulk_or_null (m f)) A"
| "hash_spec E (HMGet key fs) A r A' \<longleftrightarrow> A' = A \<and> r = view_at proj_hash (env_now E) key (Inr (nulls (bulks fs))) (Inr (nulls (bulks fs)))
     (\<lambda>m. Inr (resp_array (map (\<lambda>f. bulk_or_null (m f)) fs))) A"
| "hash_spec E (HExists key f) A r A' \<longleftrightarrow> A' = A \<and> r = view_hash (env_now E) key (resp_int 0) (\<lambda>m. resp_int (of_bool (f \<in> dom m))) A"
| "hash_spec E (HLen key) A r A' \<longleftrightarrow> A' = A \<and> r = view_hash (env_now E) key (resp_int 0) (\<lambda>m. resp_int (int (card (dom m)))) A"
| "hash_spec E (HGetAll key) A r A' \<longleftrightarrow> A' = A \<and> list_hash (env_now E) key (resp_array []) hgetall_rel A r"
| "hash_spec E (HKeys key) A r A' \<longleftrightarrow> A' = A \<and> list_hash (env_now E) key (resp_array []) hkeys_rel A r"
| "hash_spec E (HVals key) A r A' \<longleftrightarrow> A' = A \<and> list_hash (env_now E) key (resp_array []) hvals_rel A r"
| "hash_spec E (HScan key cursor op) A r A' \<longleftrightarrow> A' = A \<and> list_hash (env_now E) key scan_empty_reply
     (hscan_rel (if utf8_valid cursor then decode_scan_cursor cursor else None) op) A r"
| "hash_spec E (HRandField key cnt) A r A' \<longleftrightarrow> A' = A(key := alive (env_now E) (A key))
     \<and> list_hash (env_now E) key resp_null (\<lambda>m r. \<exists>x. r = Inr x \<and> sample_rel cnt (dom m) x) A r"

section \<open>Every command implements its specification\<close>

lemma bulks_as_words: "map bulk_or_simple (bulks bs) = map Some bs"
  by (simp add: bulks_def)

lemma upper_scan_words:
  "to_uppercase (asc ''MATCH'') = asc ''MATCH''" "utf8_valid (asc ''MATCH'')" "asc ''COUNT'' \<noteq> asc ''MATCH''"
  by code_simp+

lemma scan_options_words:
  assumes "snd op > 0" and "i64_ok (int (snd op))"
  shows "scan_options cmd (bulks (scan_words op)) (None, 10) = Inr op"
proof -
  have n: "get_i64 (BulkString (Some (dec_int n)) # rest) 0 cmd = Inr n" if "i64_ok n" for n rest
    using that by (simp add: arg_defs)
  have w: "get_str (BulkString (Some b) # rest) 0 cmd = (if utf8_valid b then Inr b else get_str (BulkString (Some b) # rest) 0 cmd)" for b rest
    by (simp add: arg_defs)
  have c: "scan_options cmd (bulks [asc ''COUNT'', dec_int (int (snd op))]) q = Inr (fst q, snd op)" for q
    using assms n [OF assms(2)] by (simp add: arg_defs upper_scan_words Let_def)
  obtain p k where op: "op = (p, k)" by force
  show ?thesis
  proof (cases p)
    case None
    then show ?thesis using c [of "(None, 10)"] by (simp add: op scan_words_def)
  next
    case (Some x)
    have "get_bytes_vec (BulkString (Some x) # rest) 0 cmd = Inr x" for rest by (simp add: arg_defs)
    then show ?thesis using c [of "(Some x, 10)"]
      by (simp add: Some op scan_words_def upper_scan_words Let_def) (simp add: arg_defs upper_scan_words Let_def)
  qed
qed

lemma fst_pair [simp]: "(fst p, B) = p \<longleftrightarrow> B = snd p"
  by (cases p) auto

lemma hash_command_law:
  assumes "env_ok lim E" and "hash_wf c" and "ks_is lim clk (cs_db s) A"
  shows "\<exists>r s' A'. hash_exec E c s = Some (r, s') \<and> hash_spec E c A r A' \<and> ks_is lim clk (cs_db s') A'"
proof (cases c)
  case (HSet key fvs)
  have "hash_exec E c s = on_key key (upsert (env_now E) key (DHash hashdata_new) (hset_value E (asc ''HSET'') resp_int (bulks (flat fvs)))) s"
    using assms(2) by (simp add: HSet hash_exec_def cmd_hset_def arg_defs)
  then show ?thesis
    using hs.upsert_at_ok [of lim E "bulks (flat fvs)" fvs, OF _ hashdata_new_is assms(3), of key "env_now E" "asc ''HSET''" resp_int] assms(1)
    by (auto simp: HSet bulks_as_words)
next
  case (HMSet key fvs)
  have "hash_exec E c s = on_key key (upsert (env_now E) key (DHash hashdata_new) (hset_value E (asc ''HMSET'') (\<lambda>_. resp_ok) (bulks (flat fvs)))) s"
    using assms(2) by (simp add: HMSet hash_exec_def cmd_hmset_def arg_defs)
  then show ?thesis
    using hs.upsert_at_ok [of lim E "bulks (flat fvs)" fvs, OF _ hashdata_new_is assms(3), of key "env_now E" "asc ''HMSET''" "\<lambda>_. resp_ok"] assms(1)
    by (auto simp: HMSet bulks_as_words)
next
  case (HSetNX key f v)
  then show ?thesis using hx.upsert_at_ok [OF assms(1) hashdata_new_is assms(3), of key "env_now E" f v]
    by (auto simp: hash_exec_def cmd_hsetnx_def arg_defs)
next
  case (HIncrBy key f n)
  then show ?thesis using hi.upsert_at_ok [OF assms(1) hashdata_new_is assms(3), of key "env_now E" f n] assms(2)
    by (auto simp: hash_exec_def cmd_hincrby_def arg_defs)
next
  case (HDel key fs)
  then have "fs \<noteq> []" using assms(2) by simp
  then have "hash_exec E c s = on_key key (edit_live (env_now E) key (Inr (resp_int 0)) (hdel_value E (bulks fs))) s"
    by (cases fs) (simp_all add: HDel hash_exec_def cmd_hdel_def arg_defs)
  then show ?thesis
    using hr.edit_at_ok [of lim E "bulks fs" fs, OF _ assms(3), of key "env_now E" "Inr (resp_int 0)"] assms(1)
    by (auto simp: HDel bulks_as_words)
next
  case (HGet key f)
  then show ?thesis using vg.view_at_ok [OF TrueI assms(3), of E key "Inr resp_null" f] assms(3)
    by (simp add: hash_exec_def cmd_hget_def arg_defs)
next
  case (HMGet key fs)
  then have "fs \<noteq> []" using assms(2) by simp
  then have "hash_exec E c s = view_ro E key (Inr (nulls (bulks fs))) (hmget_value (bulks fs)) s"
    by (cases fs) (simp_all add: HMGet hash_exec_def cmd_hmget_def arg_defs)
  then show ?thesis
    using vm.view_at_ok [of "bulks fs" fs, OF bulks_as_words assms(3), of E key "Inr (nulls (bulks fs))"] assms(3) by (simp add: HMGet)
next
  case (HExists key f)
  then show ?thesis using ve.view_at_ok [OF TrueI assms(3), of E key "Inr (resp_int 0)" f] assms(3)
    by (simp add: hash_exec_def cmd_hexists_def arg_defs)
next
  case (HLen key)
  then show ?thesis using vh.view_at_ok [OF TrueI assms(3), of E key "Inr (resp_int 0)"] assms(3)
    by (simp add: hash_exec_def cmd_hlen_def arg_defs)
next
  case (HGetAll key)
  then show ?thesis using va.view_rel_ok [OF assms(1,3), of E key "Inr (resp_array [])"] assms(3)
    by (auto simp: hash_exec_def cmd_hgetall_def arg_defs)
next
  case (HKeys key)
  then show ?thesis using vk.view_rel_ok [OF assms(1,3), of E key "Inr (resp_array [])"] assms(3)
    by (auto simp: hash_exec_def cmd_hkeys_def arg_defs)
next
  case (HVals key)
  then show ?thesis using vv.view_rel_ok [OF assms(1,3), of E key "Inr (resp_array [])"] assms(3)
    by (auto simp: hash_exec_def cmd_hvals_def arg_defs)
next
  case (HScan key cursor op)
  have o: "scan_options (asc ''HSCAN'') (bulks (scan_words op)) (None, 10) = Inr op" using scan_options_words assms(2) HScan by simp
  have "scan_cursor_arg (bulks (hash_words c)) 2 (asc ''HSCAN'') = (if utf8_valid cursor then decode_scan_cursor cursor else None)"
    by (simp add: HScan scan_cursor_arg_def get_str_def ok_or_arity_def index_def)
  then have "hash_exec E c s = view_ro E key (Inr scan_empty_reply) (hscan_value E (if utf8_valid cursor then decode_scan_cursor cursor else None) op) s"
    using o by (simp add: HScan hash_exec_def cmd_hscan_def arg_defs del: scan_options.simps)
  then show ?thesis
    using vc.view_rel_ok [OF assms(1,3), of E key "Inr scan_empty_reply" "if utf8_valid cursor then decode_scan_cursor cursor else None" op] assms(3)
    by (auto simp: HScan)
next
  case (HRandField key cnt)
  have "hash_exec E c s = view_rw E key (Inr resp_null) (hrandfield_value E cnt) s"
    using assms(2) by (cases cnt) (simp_all add: HRandField hash_exec_def cmd_hrandfield_def arg_defs)
  then show ?thesis using vf.view_rw_ok [OF assms(1,3), of E key "Inr resp_null" cnt] by (auto simp: HRandField)
qed

interpretation hc: command_rel lim hash_wf hash_exec hash_spec for lim
  by unfold_locales (rule hash_command_law)

end
