(* ===== verification/Set_Laws.thy ===== *)
theory Set_Laws
  imports Set_Cmds Hash_Spec
begin

text \<open>
  The effects of the set commands on a set, and that the edits and readers of \<^verbatim>\<open>command/set.rs\<close>
  implement them.
\<close>

section \<open>The effects on a set\<close>

fun proj_set :: "aval \<Rightarrow> bytes set option" where
  "proj_set (ASet S) = Some S"
| "proj_set _ = None"

definition unless_void :: "'a set \<Rightarrow> 'a set option" where
  "unless_void S = (if S = {} then None else Some S)"

definition sadd_effect :: "bytes list \<Rightarrow> bytes set \<Rightarrow> resp result \<times> bytes set option" where
  "sadd_effect ms S = (Inr (resp_int (int (card (S \<union> set ms)) - int (card S))), Some (S \<union> set ms))"

definition srem_effect :: "bytes list \<Rightarrow> bytes set \<Rightarrow> resp result \<times> bytes set option" where
  "srem_effect ms S = (Inr (resp_int (int (card S) - int (card (S - set ms)))), unless_void (S - set ms))"

definition take_effect :: "bytes \<Rightarrow> bytes set \<Rightarrow> bool result \<times> bytes set option" where
  "take_effect m S = (if m \<in> S then (Inr True, unless_void (S - {m})) else (Inr False, Some S))"

definition put_effect :: "bytes \<Rightarrow> bytes set \<Rightarrow> unit \<times> bytes set option" where
  "put_effect m S = ((), Some (insert m S))"

definition spop_rel :: "nat option \<Rightarrow> bytes set \<Rightarrow> resp result \<Rightarrow> bytes set option \<Rightarrow> bool" where
  "spop_rel cnt S r S' \<longleftrightarrow> (case cnt of
     None \<Rightarrow> if S = {} then r = Inr resp_null \<and> S' = None else \<exists>x \<in> S. r = Inr (resp_bulk x) \<and> S' = unless_void (S - {x})
   | Some n \<Rightarrow> \<exists>xs. distinct xs \<and> set xs \<subseteq> S \<and> length xs = min n (card S) \<and> r = Inr (resp_array (map resp_bulk xs))
       \<and> S' = unless_void (S - set xs))"

definition smembers_rel :: "bytes set \<Rightarrow> resp result \<Rightarrow> bool" where
  "smembers_rel S r \<longleftrightarrow> (\<exists>ms. distinct ms \<and> set ms = S \<and> r = Inr (resp_array (map resp_bulk ms)))"

definition sscan_rel :: "u64 option \<Rightarrow> bytes option \<times> nat \<Rightarrow> bytes set \<Rightarrow> resp result \<Rightarrow> bool" where
  "sscan_rel cursor op S r \<longleftrightarrow> (\<exists>ms items nxt. distinct ms \<and> set ms = S
     \<and> scan_select_page (filter (glob_match (scan_pattern (fst op))) ms) cursor (snd op) (\<lambda>m. m) = (items, nxt)
     \<and> r = Inr (scan_reply items nxt))"

section \<open>The edits implement them\<close>

interpretation sty: coll_type lim DSet proj_set ASet setdata_is for lim
proof
  fix a :: aval and x show "(proj_set a = Some x) = (a = ASet x)" by (cases a) auto
next
  fix v x assume "val_is lim v (ASet x)" then show "\<exists>c. v = DSet c" by (cases v) auto
qed auto

lemma setdata_payload_is: "setdata_is s S \<Longrightarrow> setdata_payload_bytes s = set_payload S"
  by (auto dest!: setdata_is_rel simp: setdata_payload_rel set_payload_def payload_distinct)

lemma setdata_len_is: "setdata_is s S \<Longrightarrow> setdata_len s = card S"
  by (auto dest!: setdata_is_rel simp: setdata_len_rel distinct_card)

lemma setdata_is_finite: "setdata_is s S \<Longrightarrow> finite S"
  by (auto simp: setdata_is_def)

lemma setdata_empty_is: "setdata_is s S \<Longrightarrow> setdata_is_empty s \<longleftrightarrow> S = {}"
  using setdata_len_is [of s S] setdata_is_finite [of s S] by (auto simp: setdata_is_empty_def)

lemma setdata_contains_is: "setdata_is s S \<Longrightarrow> setdata_contains s x = Some (x \<in> S)"
  by (auto simp: setdata_is_def setdata_contains_rel)

lemma set_ropI:
  assumes "\<And>s S. ok \<Longrightarrow> setdata_is s S \<Longrightarrow> \<exists>r s' emptied S'. f (DSet s) = Some (r, DSet s', int (set_payload S') - int (set_payload S), emptied)
      \<and> setdata_is s' S' \<and> G S r (if emptied then None else Some S')"
    and "\<And>v. \<nexists>s. v = DSet s \<Longrightarrow> f v = Some (wrong, v, 0, False)"
  shows "coll_rop lim DSet proj_set ASet setdata_is ok f wrong G"
proof
  fix s S assume "ok" and s: "setdata_is s S"
  from assms(1) [OF this] obtain r s' emptied S' where
    f: "f (DSet s) = Some (r, DSet s', int (set_payload S') - int (set_payload S), emptied)" "setdata_is s' S'"
      "G S r (if emptied then None else Some S')" by blast
  then show "\<exists>r c' delta emptied y. f (DSet s) = Some (r, DSet c', delta, emptied) \<and> setdata_is c' y
      \<and> int (value_size (DSet c')) = int (value_size (DSet s)) + delta \<and> G S r (if emptied then None else Some y)"
    using setdata_payload_is [OF s] setdata_payload_is [OF f(2)] by auto
qed (rule assms(2))

lemma set_opI:
  assumes "\<And>s S. ok \<Longrightarrow> setdata_is s S \<Longrightarrow> \<exists>r s' emptied S'. f (DSet s) = Some (r, DSet s', int (set_payload S') - int (set_payload S), emptied)
      \<and> setdata_is s' S' \<and> g S = (r, if emptied then None else Some S')"
    and "\<And>v. \<nexists>s. v = DSet s \<Longrightarrow> f v = Some (wrong, v, 0, False)"
  shows "coll_op lim DSet proj_set ASet setdata_is ok f wrong g"
proof -
  have "coll_rop lim DSet proj_set ASet setdata_is ok f wrong (\<lambda>S r S'. g S = (r, S'))" by (rule set_ropI) (rule assms, assumption+)+
  then show ?thesis by (simp add: coll_rop_def coll_rop_axioms_def coll_op_def coll_op_axioms_def)
qed

lemma set_res:
  "fv = Some (r, DSet s', int (set_payload S') - int (set_payload S), emptied) \<Longrightarrow> setdata_is s' S'
    \<Longrightarrow> P r (if emptied then None else Some S') \<Longrightarrow>
   \<exists>r s' emptied S'. fv = Some (r, DSet s', int (set_payload S') - int (set_payload S), emptied)
      \<and> setdata_is s' S' \<and> P r (if emptied then None else Some S')"
  by (intro exI conjI)

lemma set_envD:
  assumes "env_ok lim E" and "setdata_is s S"
  shows "index_set_laws (env_index_set E) \<and> set_thr_ok (env_set E) \<and> setdata_is s S"
  using assms by (simp add: env_ok_def)

lemma sadd_args_loop:
  assumes "map bulk_or_simple vals = map Some ms"
  shows "sadd_args E vals s added delta
    = map_option (\<lambda>(r, s). (Inr r, s)) (add_loop (setdata_insert (env_index_set E) (env_set E)) s ms added delta)"
  using assms
proof (induction vals arbitrary: ms s added delta)
  case (Cons a vals)
  then show ?case by (auto simp: ok_or_arity_def split: bind_splits)
qed simp

interpretation sa: coll_op lim DSet proj_set ASet setdata_is "env_ok lim E \<and> map bulk_or_simple vals = map Some ms"
  "sadd_value E vals" "Inl WrongType" "sadd_effect ms" for lim E vals ms
proof (rule set_opI)
  fix s S assume a: "env_ok lim E \<and> map bulk_or_simple vals = map Some ms" and s: "setdata_is s S"
  let ?S = "S \<union> set ms" and ?n = "int (card (S \<union> set ms)) - int (card S)"
  from sd.add_loop_correct [OF set_envD [OF _ s], of lim E ms 0 0] a obtain s' where
    s': "add_loop (setdata_insert (env_index_set E) (env_set E)) s ms 0 0 = Some ((?n, int (set_payload ?S) - int (set_payload S)), s')"
      "setdata_is s' ?S" by auto
  have "sadd_value E vals (DSet s) = Some (Inr (resp_int ?n), DSet s', int (set_payload ?S) - int (set_payload S), False)"
    using a s'(1) by (simp add: sadd_args_loop)
  then show "\<exists>r s' emptied S'. sadd_value E vals (DSet s) = Some (r, DSet s', int (set_payload S') - int (set_payload S), emptied)
      \<and> setdata_is s' S' \<and> sadd_effect ms S = (r, if emptied then None else Some S')"
    by (rule set_res [OF _ s'(2)]) (simp add: sadd_effect_def)
next
  fix v :: data_type assume "\<nexists>s. v = DSet s"
  then show "sadd_value E vals v = Some (Inl WrongType, v, 0, False)" by (cases v) auto
qed

interpretation sr: coll_op lim DSet proj_set ASet setdata_is "env_ok lim E \<and> map bulk_or_simple vals = map Some ms"
  "srem_value E vals" "Inl WrongType" "srem_effect ms" for lim E vals ms
proof (rule set_opI)
  fix s S assume a: "env_ok lim E \<and> map bulk_or_simple vals = map Some ms" and s: "setdata_is s S"
  let ?S = "S - set ms" and ?n = "int (card S) - int (card (S - set ms))"
  from sd.remove_loop_correct [OF set_envD [OF _ s], of lim E ms 0 0] a obtain s' where
    s': "remove_loop (setdata_remove (env_index_set E) (env_set E)) s ms 0 0 = Some ((?n, int (set_payload ?S) - int (set_payload S)), s')"
      "setdata_is s' ?S" by auto
  have "srem_value E vals (DSet s) = Some (Inr (resp_int ?n), DSet s', int (set_payload ?S) - int (set_payload S), ?S = {})"
    using a s' by (simp add: map_filter_words setdata_empty_is)
  then show "\<exists>r s' emptied S'. srem_value E vals (DSet s) = Some (r, DSet s', int (set_payload S') - int (set_payload S), emptied)
      \<and> setdata_is s' S' \<and> srem_effect ms S = (r, if emptied then None else Some S')"
    by (rule set_res [OF _ s'(2)]) (simp add: srem_effect_def unless_void_def)
next
  fix v :: data_type assume "\<nexists>s. v = DSet s"
  then show "srem_value E vals v = Some (Inl WrongType, v, 0, False)" by (cases v) auto
qed

lemma set_payload_insert: "finite S \<Longrightarrow> int (set_payload (insert m S)) - int (set_payload S) = (if m \<in> S then 0 else int (length m))"
  by (simp add: set_payload_def insert_absorb)

lemma set_payload_remove: "finite S \<Longrightarrow> int (set_payload (S - {m})) - int (set_payload S) = (if m \<in> S then - int (length m) else 0)"
  by (auto simp: set_payload_def sum.remove)

interpretation st: coll_op lim DSet proj_set ASet setdata_is "env_ok lim E" "smove_remove_value E m" "Inl WrongType" "take_effect m" for lim E m
proof (rule set_opI)
  fix s S assume e: "env_ok lim E" and s: "setdata_is s S"
  from sd.remove_law [OF set_envD [OF e s], of m] obtain s' where
    s': "setdata_remove (env_index_set E) (env_set E) s m = Some ((m \<in> S, if m \<in> S then - int (length m) else 0), s')" "setdata_is s' (S - {m})" by blast
  note p = set_payload_remove [OF setdata_is_finite [OF s], of m]
  have "smove_remove_value E m (DSet s) = Some (Inr (m \<in> S), DSet s', int (set_payload (S - {m})) - int (set_payload S), m \<in> S \<and> S - {m} = {})"
    using s'(1) setdata_empty_is [OF s'(2)] by (simp add: p)
  then show "\<exists>r s' emptied S'. smove_remove_value E m (DSet s) = Some (r, DSet s', int (set_payload S') - int (set_payload S), emptied)
      \<and> setdata_is s' S' \<and> take_effect m S = (r, if emptied then None else Some S')"
    by (rule set_res [OF _ s'(2)]) (auto simp: take_effect_def unless_void_def)
next
  fix v :: data_type assume "\<nexists>s. v = DSet s"
  then show "smove_remove_value E m v = Some (Inl WrongType, v, 0, False)" by (cases v) auto
qed

interpretation sp: coll_op lim DSet proj_set ASet setdata_is "env_ok lim E" "smove_insert_value E m" "()" "put_effect m" for lim E m
proof (rule set_opI)
  fix s S assume e: "env_ok lim E" and s: "setdata_is s S"
  from sd.insert_law [OF set_envD [OF e s], of m] obtain s' where
    s': "setdata_insert (env_index_set E) (env_set E) s m = Some ((m \<notin> S, if m \<in> S then 0 else int (length m)), s')" "setdata_is s' (insert m S)" by blast
  note p = set_payload_insert [OF setdata_is_finite [OF s], of m]
  have "smove_insert_value E m (DSet s) = Some ((), DSet s', int (set_payload (insert m S)) - int (set_payload S), False)"
    using s'(1) by (simp add: p)
  then show "\<exists>r s' emptied S'. smove_insert_value E m (DSet s) = Some (r, DSet s', int (set_payload S') - int (set_payload S), emptied)
      \<and> setdata_is s' S' \<and> put_effect m S = (r, if emptied then None else Some S')"
    by (rule set_res [OF _ s'(2)]) (simp add: put_effect_def)
next
  fix v :: data_type assume "\<nexists>s. v = DSet s"
  then show "smove_insert_value E m v = Some ((), v, 0, False)" by (cases v) auto
qed

text \<open>Popping random members.\<close>

lemma remove_at_is:
  assumes "env_ok lim E" and "setdata_is s S" and "S \<noteq> {}"
  shows "\<exists>x s'. x \<in> S \<and> setdata_remove_at (env_index_set E) (env_set E) s (pseudo_rand_idx n (setdata_len s)) = Some (Some x, s')
    \<and> setdata_is s' (S - {x})"
proof -
  obtain ms where ms: "setdata_rel s ms" "distinct ms" "set ms = S" using setdata_is_rel [OF assms(2)] by blast
  have i: "pseudo_rand_idx n (setdata_len s) < length ms"
    using pseudo_rand_less [of "length ms" n] ms(3) assms(3) by (auto simp: setdata_len_rel [OF ms(1)])
  then show ?thesis
    using setdata_remove_at_rel [OF _ _ ms(1), of "env_index_set E" "env_set E" "pseudo_rand_idx n (setdata_len s)"] set_envD [OF assms(1,2)] ms(3)
    by (auto simp: setdata_is_def)
qed

lemma spop_loop_is:
  assumes "env_ok lim E" and "setdata_is s S"
  shows "\<exists>xs s'. distinct xs \<and> set xs \<subseteq> S \<and> length xs = min n (card S)
    \<and> spop_loop E n i s result delta = Some ((result @ xs, delta + (int (set_payload (S - set xs)) - int (set_payload S))), s')
    \<and> setdata_is s' (S - set xs)"
  using assms(2)
proof (induction n arbitrary: i s S result delta)
  case (Suc n)
  show ?case
  proof (cases "S = {}")
    case True
    then show ?thesis using Suc.prems setdata_empty_is [OF Suc.prems] by (auto intro!: exI [of _ "[]"])
  next
    case False
    from remove_at_is [OF assms(1) Suc.prems False, of "env_nanos E i"] obtain x s1 where
      x: "x \<in> S" "setdata_remove_at (env_index_set E) (env_set E) s (pseudo_rand_idx (env_nanos E i) (setdata_len s)) = Some (Some x, s1)"
        "setdata_is s1 (S - {x})" by blast
    from Suc.IH [OF x(3), of "i + 1" "result @ [x]" "delta - int (length x)"] obtain xs s' where
      xs: "distinct xs" "set xs \<subseteq> S - {x}" "length xs = min n (card (S - {x}))"
        "spop_loop E n (i + 1) s1 (result @ [x]) (delta - int (length x))
          = Some ((result @ [x] @ xs, delta - int (length x) + (int (set_payload (S - {x} - set xs)) - int (set_payload (S - {x})))), s')"
        "setdata_is s' (S - {x} - set xs)" by auto
    note fin = setdata_is_finite [OF Suc.prems]
    have S: "S - set (x # xs) = S - {x} - set xs" by auto
    have c: "length (x # xs) = min (Suc n) (card S)" using xs(3) card_Suc_Diff1 [OF fin x(1)] by simp
    have "spop_loop E (Suc n) i s result delta = Some ((result @ (x # xs), delta + (int (set_payload (S - set (x # xs))) - int (set_payload S))), s')"
      using xs(4) x set_payload_remove [OF fin, of x] False setdata_empty_is [OF Suc.prems] unfolding S by simp
    then show ?thesis using xs x(1) c unfolding S [symmetric] by (intro exI [of _ "x # xs"] exI [of _ s']) auto
  qed
qed (auto intro!: exI [of _ "[]"])

interpretation so: coll_rop lim DSet proj_set ASet setdata_is "env_ok lim E" "spop_value E cnt" "Inl WrongType" "spop_rel cnt" for lim E cnt
proof (rule set_ropI)
  fix s S assume e: "env_ok lim E" and s: "setdata_is s S"
  show "\<exists>r s' emptied S'. spop_value E cnt (DSet s) = Some (r, DSet s', int (set_payload S') - int (set_payload S), emptied)
      \<and> setdata_is s' S' \<and> spop_rel cnt S r (if emptied then None else Some S')"
  proof (cases cnt)
    case (Some n)
    from spop_loop_is [OF e s, of n 0 "[]" 0] obtain xs s' where
      xs: "distinct xs" "set xs \<subseteq> S" "length xs = min n (card S)"
        "spop_loop E n 0 s [] 0 = Some ((xs, int (set_payload (S - set xs)) - int (set_payload S)), s')" "setdata_is s' (S - set xs)" by auto
    have "spop_value E cnt (DSet s) = Some (Inr (resp_array (map resp_bulk xs)), DSet s', int (set_payload (S - set xs)) - int (set_payload S), S - set xs = {})"
      using xs(4) setdata_empty_is [OF xs(5)] by (simp add: Some)
    then show ?thesis by (rule set_res [OF _ xs(5)]) (use xs in \<open>auto simp: spop_rel_def Some unless_void_def\<close>)
  next
    case None
    show ?thesis
    proof (cases "S = {}")
      case True
      then have "spop_value E cnt (DSet s) = Some (Inr resp_null, DSet s, int (set_payload S) - int (set_payload S), True)"
        using setdata_empty_is [OF s] by (simp add: None)
      then show ?thesis by (rule set_res [OF _ s]) (simp add: spop_rel_def None True)
    next
      case False
      from remove_at_is [OF e s False, of "env_nanos E 0"] obtain x s' where
        x: "x \<in> S" "setdata_remove_at (env_index_set E) (env_set E) s (pseudo_rand_idx (env_nanos E 0) (setdata_len s)) = Some (Some x, s')"
          "setdata_is s' (S - {x})" by blast
      have "spop_value E cnt (DSet s) = Some (Inr (resp_bulk x), DSet s', int (set_payload (S - {x})) - int (set_payload S), S - {x} = {})"
        using x set_payload_remove [OF setdata_is_finite [OF s], of x] setdata_empty_is [OF s] setdata_empty_is [OF x(3)] False by (simp add: None)
      then show ?thesis by (rule set_res [OF _ x(3)]) (use x(1) False in \<open>auto simp: spop_rel_def None unless_void_def\<close>)
    qed
  qed
next
  fix v :: data_type assume "\<nexists>s. v = DSet s"
  then show "spop_value E cnt v = Some (Inl WrongType, v, 0, False)" by (cases v; cases cnt) auto
qed

section \<open>The readers\<close>

interpretation wi: coll_view lim DSet proj_set ASet setdata_is True "sismember_value m" "Inl WrongType"
  "\<lambda>S. Inr (resp_int (of_bool (m \<in> S)))" for lim m
proof
  fix v :: data_type assume "\<nexists>s. v = DSet s"
  then show "sismember_value m v = Some (Inl WrongType)" by (cases v) auto
qed (simp add: setdata_contains_is)

lemma smismember_members_is:
  assumes "setdata_is s S" and "map bulk_or_simple vals = map Some ms"
  shows "smismember_members s vals = Some (map (\<lambda>m. resp_int (of_bool (m \<in> S))) ms)"
  using assms(2)
proof (induction vals arbitrary: ms)
  case (Cons a vals)
  then show ?case by (auto simp: setdata_contains_is [OF assms(1)])
qed simp

interpretation wm: coll_view lim DSet proj_set ASet setdata_is "map bulk_or_simple vals = map Some ms" "smismember_value vals"
  "Inr (zeros vals)" "\<lambda>S. Inr (resp_array (map (\<lambda>m. resp_int (of_bool (m \<in> S))) ms))" for lim vals ms
proof
  fix v :: data_type assume "\<nexists>s. v = DSet s"
  then show "smismember_value vals v = Some (Inr (zeros vals))" by (cases v) auto
qed (simp add: smismember_members_is)

interpretation wc: coll_view lim DSet proj_set ASet setdata_is True scard_value "Inl WrongType" "\<lambda>S. Inr (resp_int (int (card S)))" for lim
proof
  fix v :: data_type assume "\<nexists>s. v = DSet s"
  then show "scard_value v = Some (Inl WrongType)" by (cases v) auto
qed (simp add: setdata_len_is)

interpretation we: coll_rview lim DSet proj_set ASet setdata_is True smembers_value "Inl WrongType" smembers_rel for lim
proof
  fix v :: data_type assume "\<nexists>s. v = DSet s"
  then show "smembers_value v = Some (Inl WrongType)" by (cases v) auto
qed (auto dest!: setdata_is_rel simp: smembers_rel_def setdata_to_vec_rel)

interpretation wo: coll_rview lim DSet proj_set ASet setdata_is True members_value "Inl WrongType" "\<lambda>S r. r = Inr (Some S)" for lim
proof
  fix v :: data_type assume "\<nexists>s. v = DSet s"
  then show "members_value v = Some (Inl WrongType)" by (cases v) auto
qed (auto dest!: setdata_is_rel simp: setdata_to_hashset_def setdata_to_vec_rel)

lemma those_Some: "those (map (\<lambda>i. Some (f i)) is) = Some (map f is)"
  by (induction "is") simp_all

lemma srandmember_listed:
  assumes "setdata_rel s ms"
  shows "srandmember_value E cnt (DSet s) = Some (Inr (hrandfield_reply E cnt ms))"
proof -
  have "setdata_get_at s i = Some (index ms i)" for i by (simp add: setdata_get_at_rel [OF assms] index_def)
  then show ?thesis
    by (cases cnt) (simp_all add: hrandfield_reply_def those_Some setdata_len_rel [OF assms] setdata_to_vec_rel [OF assms] comp_def)
qed

interpretation wr: coll_rview lim DSet proj_set ASet setdata_is True "srandmember_value E cnt" "Inl WrongType"
  "\<lambda>S r. \<exists>x. r = Inr x \<and> sample_rel cnt S x" for lim E cnt
proof
  fix v :: data_type assume "\<nexists>s. v = DSet s"
  then show "srandmember_value E cnt v = Some (Inl WrongType)" by (cases v; cases cnt) auto
next
  fix s S assume "setdata_is s S"
  then obtain ms where "setdata_rel s ms" "distinct ms" "set ms = S" using setdata_is_rel by blast
  then show "\<exists>r. srandmember_value E cnt (DSet s) = Some r \<and> (\<exists>x. r = Inr x \<and> sample_rel cnt S x)"
    using srandmember_listed sample_listed by simp
qed

interpretation ws: coll_rview lim DSet proj_set ASet setdata_is True "sscan_value cursor op" "Inl WrongType" "sscan_rel cursor op" for lim cursor op
proof
  fix v :: data_type assume "\<nexists>s. v = DSet s"
  then show "sscan_value cursor op v = Some (Inl WrongType)" by (cases v) auto
next
  fix s S assume "setdata_is s S"
  then obtain ms where ms: "setdata_rel s ms" "distinct ms" "set ms = S" using setdata_is_rel by blast
  obtain items nxt where "scan_select_page (filter (glob_match (scan_pattern (fst op))) ms) cursor (snd op) (\<lambda>m. m) = (items, nxt)" by force
  then show "\<exists>r. sscan_value cursor op (DSet s) = Some r \<and> sscan_rel cursor op S r"
    using ms setdata_to_vec_rel [OF ms(1)] by (auto simp: sscan_rel_def)
qed

end
