(* ===== verification/Set_Spec.thy ===== *)
theory Set_Spec
  imports Set_Laws
begin

text \<open>
  What the set commands do: their specification on a keyspace of plain sets (\<open>set_spec\<close>) and that every
  command, from its words on, implements it.
\<close>

section \<open>Operands\<close>

text \<open>What a key holds as an operand: nothing, a set, or a value of another type. Reading an operand may drop
  it when it has expired (\<open>lazy_expire\<close>), which no later read can tell.\<close>

definition set_at :: "nat \<Rightarrow> keyspace \<Rightarrow> bytes \<Rightarrow> bytes set option result" where
  "set_at now A k = view_at proj_set now k (Inr None) (Inl WrongType) (\<lambda>S. Inr (Some S)) A"

definition members_at :: "nat \<Rightarrow> keyspace \<Rightarrow> bytes \<Rightarrow> bytes set" where
  "members_at now A k = (case set_at now A k of Inr (Some S) \<Rightarrow> S | _ \<Rightarrow> {})"

definition lazy_expire :: "nat \<Rightarrow> keyspace \<Rightarrow> keyspace \<Rightarrow> bool" where
  "lazy_expire now A B \<longleftrightarrow> (\<forall>k. B k = A k \<or> B k = None \<and> alive now (A k) = None)"

definition union_at :: "nat \<Rightarrow> bytes list \<Rightarrow> keyspace \<Rightarrow> bytes set result" where
  "union_at now ks A =
     (if \<exists>k \<in> set ks. set_at now A k = Inl WrongType then Inl WrongType else Inr (\<Union>k \<in> set ks. members_at now A k))"

text \<open>The first operand that is missing or of another type decides.\<close>

definition inter_at :: "nat \<Rightarrow> bytes list \<Rightarrow> keyspace \<Rightarrow> bytes set result" where
  "inter_at now ks A = (case find (\<lambda>k. \<forall>S. set_at now A k \<noteq> Inr (Some S)) ks of
     Some k \<Rightarrow> map_sum id (\<lambda>_. {}) (set_at now A k)
   | None \<Rightarrow> Inr (if ks = [] then {} else \<Inter>k \<in> set ks. members_at now A k))"

definition diff_at :: "nat \<Rightarrow> bytes list \<Rightarrow> keyspace \<Rightarrow> bytes set result" where
  "diff_at now ks A =
     (if \<exists>k \<in> set ks. set_at now A k = Inl WrongType then Inl WrongType
      else Inr (members_at now A (hd ks) - (\<Union>k \<in> set (tl ks). members_at now A k)))"

lemma lazy_alive: "lazy_expire now A B \<Longrightarrow> alive now (B k) = alive now (A k)"
  unfolding lazy_expire_def by (metis alive_def option.case(1))

lemma lazy_set_at: "lazy_expire now A B \<Longrightarrow> set_at now B k = set_at now A k"
  by (simp add: set_at_def view_at_def lazy_alive)

lemma lazy_refl: "lazy_expire now A A"
  by (simp add: lazy_expire_def)

lemma lazy_trans: "lazy_expire now A B \<Longrightarrow> lazy_expire now B C \<Longrightarrow> lazy_expire now A C"
  unfolding lazy_expire_def by (metis alive_def option.case(1))

lemma lazy_step: "lazy_expire now A (A(key := alive now (A key)))"
  using alive_same [of now "A key"] by (cases "alive now (A key)") (auto simp: lazy_expire_def)

lemma set_at_cases: obtains "set_at now A k = Inl WrongType" | "set_at now A k = Inr None" | S where "set_at now A k = Inr (Some S)"
proof (cases "alive now (A k)")
  case (Some c)
  obtain a t where "c = (a, t)" by force
  then show thesis using that Some by (cases "proj_set a") (auto simp: set_at_def view_at_def)
qed (use that in \<open>simp add: set_at_def view_at_def\<close>)

lemma union_at_Cons:
  "set_at now A k = Inl WrongType \<Longrightarrow> union_at now (k # ks) A = Inl WrongType"
  "set_at now A k = Inr None \<Longrightarrow> union_at now (k # ks) A = union_at now ks A"
  "set_at now A k = Inr (Some S) \<Longrightarrow> union_at now (k # ks) A = map_sum id (\<lambda>T. S \<union> T) (union_at now ks A)"
proof -
  have m: "members_at now A k = (case set_at now A k of Inr (Some S) \<Rightarrow> S | _ \<Rightarrow> {})" by (rule members_at_def)
  show "set_at now A k = Inl WrongType \<Longrightarrow> union_at now (k # ks) A = Inl WrongType" by (simp add: union_at_def)
  show "set_at now A k = Inr None \<Longrightarrow> union_at now (k # ks) A = union_at now ks A" using m by (simp add: union_at_def)
  show "set_at now A k = Inr (Some S) \<Longrightarrow> union_at now (k # ks) A = map_sum id (\<lambda>T. S \<union> T) (union_at now ks A)" using m by (simp add: union_at_def)
qed

lemma diff_at_Cons:
  "set_at now A k = Inl WrongType \<Longrightarrow> diff_at now (k # ks) A = Inl WrongType"
  "set_at now A k = Inr None \<Longrightarrow> diff_at now (k # ks) A = map_sum id (\<lambda>_. {}) (union_at now ks A)"
  "set_at now A k = Inr (Some S) \<Longrightarrow> diff_at now (k # ks) A = map_sum id (\<lambda>T. S - T) (union_at now ks A)"
proof -
  have m: "members_at now A k = (case set_at now A k of Inr (Some S) \<Rightarrow> S | _ \<Rightarrow> {})" by (rule members_at_def)
  show "set_at now A k = Inl WrongType \<Longrightarrow> diff_at now (k # ks) A = Inl WrongType" by (simp add: diff_at_def)
  show "set_at now A k = Inr None \<Longrightarrow> diff_at now (k # ks) A = map_sum id (\<lambda>_. {}) (union_at now ks A)" using m by (simp add: diff_at_def union_at_def)
  show "set_at now A k = Inr (Some S) \<Longrightarrow> diff_at now (k # ks) A = map_sum id (\<lambda>T. S - T) (union_at now ks A)" using m by (simp add: diff_at_def union_at_def)
qed

lemma operand_ok:
  assumes "ks_is lim clk (cs_db s) A" and "bulk_or_simple a = Some key"
  shows "\<exists>s' B. operand E cmd a s = Some (set_at (env_now E) A key, s') \<and> lazy_expire (env_now E) A B \<and> ks_is lim clk (cs_db s') B"
proof -
  from wo.view_rw_ok [OF TrueI assms(1), of E key "Inr None"] obtain r s' where
    r: "view_rw E key (Inr None) members_value s = Some (r, s')"
      "view_rel proj_set (env_now E) key (Inr None) (Inl WrongType) (\<lambda>S r. r = Inr (Some S)) A r"
      "ks_is lim clk (cs_db s') (A(key := alive (env_now E) (A key)))" by blast
  have "r = set_at (env_now E) A key"
    using r(2) by (auto simp: view_rel_def set_at_def view_at_def split: option.splits)
  then show ?thesis using r lazy_step assms(2) by (auto simp: operand_def ok_or_arity_def)
qed

lemma collect_union_ok:
  assumes "ks_is lim clk (cs_db s) A" and "map bulk_or_simple vals = map Some ks"
  shows "\<exists>s' B. collect_union E vals acc s = Some (map_sum id (\<lambda>S. acc \<union> S) (union_at (env_now E) ks A), s')
    \<and> lazy_expire (env_now E) A B \<and> ks_is lim clk (cs_db s') B"
  using assms
proof (induction vals arbitrary: ks s A acc)
  case Nil
  then show ?case using lazy_refl by (auto simp: reply_def union_at_def)
next
  case (Cons a vals)
  then obtain k ks' where ks: "ks = k # ks'" "bulk_or_simple a = Some k" "map bulk_or_simple vals = map Some ks'" by auto
  let ?now = "env_now E"
  from operand_ok [OF Cons.prems(1) ks(2), of E "asc ''SUNION''"] obtain s1 B where
    o: "operand E (asc ''SUNION'') a s = Some (set_at ?now A k, s1)" "lazy_expire ?now A B" "ks_is lim clk (cs_db s1) B" by blast
  have m: "union_at ?now ks' B = union_at ?now ks' A" using lazy_set_at [OF o(2)] by (simp add: union_at_def members_at_def)
  have IH: "\<exists>s' C. collect_union E vals acc' s1 = Some (map_sum id (\<lambda>S. acc' \<union> S) (union_at ?now ks' A), s')
      \<and> lazy_expire ?now A C \<and> ks_is lim clk (cs_db s') C" for acc'
    using Cons.IH [OF o(3) ks(3), of acc'] lazy_trans [OF o(2)] unfolding m by blast
  show ?case
  proof (cases rule: set_at_cases [of ?now A k])
    case 1
    then show ?thesis using o by (auto simp: ks(1) union_at_Cons fail_def)
  next
    case 2
    then show ?thesis using IH [of acc] o(1) by (simp add: ks(1) union_at_Cons id_def)
  next
    case (3 S)
    then show ?thesis using IH [of "acc \<union> S"] o(1) by (cases "union_at ?now ks' A") (simp_all add: ks(1) union_at_Cons Un_assoc)
  qed
qed

lemma fold_inter: "fold (\<lambda>T result. result \<inter> T) Ts S = S \<inter> \<Inter> (set Ts)"
  by (induction Ts arbitrary: S) auto

lemma collect_inter_ok:
  assumes "ks_is lim clk (cs_db s) A" and "map bulk_or_simple vals = map Some ks"
  shows "\<exists>s' B. collect_inter E vals Ss s = Some (case find (\<lambda>k. \<forall>S. set_at (env_now E) A k \<noteq> Inr (Some S)) ks of
       Some k \<Rightarrow> map_sum id (\<lambda>_. {}) (set_at (env_now E) A k)
     | None \<Rightarrow> Inr (if Ss = [] \<and> ks = [] then {} else \<Inter> (set Ss) \<inter> (\<Inter>k \<in> set ks. members_at (env_now E) A k)), s')
    \<and> lazy_expire (env_now E) A B \<and> ks_is lim clk (cs_db s') B"
  using assms
proof (induction vals arbitrary: ks s A Ss)
  case Nil
  then show ?case using lazy_refl by (auto simp: reply_def fold_inter split: list.split)
next
  case (Cons a vals)
  then obtain k ks' where ks: "ks = k # ks'" "bulk_or_simple a = Some k" "map bulk_or_simple vals = map Some ks'" by auto
  let ?now = "env_now E"
  from operand_ok [OF Cons.prems(1) ks(2), of E "asc ''SINTER''"] obtain s1 B where
    o: "operand E (asc ''SINTER'') a s = Some (set_at ?now A k, s1)" "lazy_expire ?now A B" "ks_is lim clk (cs_db s1) B" by blast
  note b = lazy_set_at [OF o(2)]
  show ?case
  proof (cases rule: set_at_cases [of ?now A k])
    case 1
    then show ?thesis using o by (auto simp: ks(1) fail_def)
  next
    case 2
    then show ?thesis using o by (auto simp: ks(1) reply_def)
  next
    case (3 S)
    have m: "members_at ?now B j = members_at ?now A j" for j by (simp add: members_at_def b)
    have k: "members_at ?now A k = S" using 3 by (simp add: members_at_def)
    have n: "(if Ss @ [S] = [] \<and> ks' = [] then {} else \<Inter> (set (Ss @ [S])) \<inter> (\<Inter>k \<in> set ks'. members_at ?now A k))
        = (if Ss = [] \<and> ks = [] then {} else \<Inter> (set Ss) \<inter> (\<Inter>k \<in> set ks. members_at ?now A k))" using k by (auto simp: ks(1))
    have f: "find (\<lambda>k. \<forall>S. set_at ?now A k \<noteq> Inr (Some S)) ks = find (\<lambda>k. \<forall>S. set_at ?now A k \<noteq> Inr (Some S)) ks'"
      using 3 by (simp add: ks(1))
    have "collect_inter E (a # vals) Ss s = collect_inter E vals (Ss @ [S]) s1" using 3 o(1) by simp
    then show ?thesis using Cons.IH [OF o(3) ks(3), of "Ss @ [S]", unfolded b m n] lazy_trans [OF o(2)] unfolding f by (elim exE conjE) (simp, blast)
  qed
qed

lemma diff_rest_ok:
  assumes "ks_is lim clk (cs_db s) A" and "map bulk_or_simple vals = map Some ks"
  shows "\<exists>s' B. diff_rest E vals acc s = Some (map_sum id (\<lambda>S. acc - S) (union_at (env_now E) ks A), s')
    \<and> lazy_expire (env_now E) A B \<and> ks_is lim clk (cs_db s') B"
  using assms
proof (induction vals arbitrary: ks s A acc)
  case Nil
  then show ?case using lazy_refl by (auto simp: reply_def union_at_def)
next
  case (Cons a vals)
  then obtain k ks' where ks: "ks = k # ks'" "bulk_or_simple a = Some k" "map bulk_or_simple vals = map Some ks'" by auto
  let ?now = "env_now E"
  from operand_ok [OF Cons.prems(1) ks(2), of E "asc ''SDIFF''"] obtain s1 B where
    o: "operand E (asc ''SDIFF'') a s = Some (set_at ?now A k, s1)" "lazy_expire ?now A B" "ks_is lim clk (cs_db s1) B" by blast
  have m: "union_at ?now ks' B = union_at ?now ks' A" using lazy_set_at [OF o(2)] by (simp add: union_at_def members_at_def)
  have IH: "\<exists>s' C. diff_rest E vals acc' s1 = Some (map_sum id (\<lambda>S. acc' - S) (union_at ?now ks' A), s')
      \<and> lazy_expire ?now A C \<and> ks_is lim clk (cs_db s') C" for acc'
    using Cons.IH [OF o(3) ks(3), of acc'] lazy_trans [OF o(2)] unfolding m by blast
  show ?case
  proof (cases rule: set_at_cases [of ?now A k])
    case 1
    then show ?thesis using o by (auto simp: ks(1) union_at_Cons fail_def)
  next
    case 2
    then show ?thesis using IH [of acc] o(1) by (simp add: ks(1) union_at_Cons id_def)
  next
    case (3 S)
    have "acc - S - T = acc - (S \<union> T)" for T by auto
    then show ?thesis using 3 IH [of "acc - S"] o(1) by (cases "union_at ?now ks' A") (simp_all add: ks(1) union_at_Cons)
  qed
qed

lemma collect_diff_ok:
  assumes "ks_is lim clk (cs_db s) A" and "map bulk_or_simple vals = map Some ks" and "ks \<noteq> []"
  shows "\<exists>s' B. collect_diff E vals s = Some (diff_at (env_now E) ks A, s') \<and> lazy_expire (env_now E) A B \<and> ks_is lim clk (cs_db s') B"
proof -
  obtain a rest k ks' where ks: "vals = a # rest" "ks = k # ks'" "bulk_or_simple a = Some k" "map bulk_or_simple rest = map Some ks'"
    using assms(2,3) by (cases ks; cases vals) auto
  let ?now = "env_now E"
  from operand_ok [OF assms(1) ks(3), of E "asc ''SDIFF''"] obtain s1 B where
    o: "operand E (asc ''SDIFF'') a s = Some (set_at ?now A k, s1)" "lazy_expire ?now A B" "ks_is lim clk (cs_db s1) B" by blast
  have m: "union_at ?now ks' B = union_at ?now ks' A" using lazy_set_at [OF o(2)] by (simp add: union_at_def members_at_def)
  have r: "\<exists>s' C. diff_rest E rest acc s1 = Some (map_sum id (\<lambda>S. acc - S) (union_at ?now ks' A), s')
      \<and> lazy_expire ?now A C \<and> ks_is lim clk (cs_db s') C" for acc
    using diff_rest_ok [OF o(3) ks(4), of E acc] lazy_trans [OF o(2)] unfolding m by blast
  show ?thesis
  proof (cases rule: set_at_cases [of ?now A k])
    case 1
    then show ?thesis using o by (auto simp: ks(1,2) collect_diff_def diff_at_Cons fail_def)
  next
    case 2
    then show ?thesis using r [of "{}"] o(1) unfolding ks(1,2) collect_diff_def diff_at_Cons(2) [OF 2] by simp
  next
    case (3 S)
    then show ?thesis using r [of S] o(1) unfolding ks(1,2) collect_diff_def diff_at_Cons(3) [OF 3] by simp
  qed
qed

text \<open>What the collected members are used for.\<close>

definition listed :: "bytes set result \<Rightarrow> resp result \<Rightarrow> bool" where
  "listed x r \<longleftrightarrow> (case x of Inl e \<Rightarrow> r = Inl e | Inr S \<Rightarrow> smembers_rel S r)"

definition stored :: "bytes \<Rightarrow> bytes set result \<Rightarrow> keyspace \<Rightarrow> resp result \<Rightarrow> keyspace \<Rightarrow> bool" where
  "stored dst x B r A' \<longleftrightarrow> (case x of Inl e \<Rightarrow> r = Inl e \<and> A' = B
     | Inr S \<Rightarrow> r = Inr (resp_int (int (card S))) \<and> A' = B(dst \<mapsto> (ASet S, None)))"

lemma members_reply_ok:
  assumes "env_ok lim E" and "collect s = Some (x, s')" and "\<And>S. x = Inr S \<Longrightarrow> finite S"
  shows "\<exists>r. members_reply E collect s = Some (r, s') \<and> listed x r"
proof (cases x)
  case (Inr S)
  have "set_order (env_member_order E)" using assms(1) by (simp add: env_ok_def)
  then show ?thesis using assms(2,3) Inr by (auto simp: members_reply_def listed_def smembers_rel_def set_order_def)
qed (simp add: members_reply_def listed_def assms(2))

lemma insert_typed: "typed_op (val_is lim v a) lim key (\<lambda>d. Some ((), db_insert key (entry_new v) d)) (\<lambda>c r c'. c' = Some (a, None))"
proof
  fix d m c assume "val_is lim v a" and "db_is d m" and "ent_is lim (m key) c"
  then show "\<exists>r d' x c'. Some ((), db_insert key (entry_new v) d) = Some (r, d') \<and> db_is d' (m(key := x)) \<and> db_clock d' = db_clock d
      \<and> ent_is lim x c' \<and> c' = Some (a, None)"
    using ins.op_law [of d m key "entry_new v"] by (auto simp: entry_new_def)
qed

lemma store_members_ok:
  assumes "env_ok lim E" and "collect s = Some (x, s1)" and "ks_is lim clk (cs_db s1) B" and "\<And>S. x = Inr S \<Longrightarrow> finite S"
  shows "\<exists>r s' A'. store_members E dst collect s = Some (r, s') \<and> stored dst x B r A' \<and> ks_is lim clk (cs_db s') A'"
proof (cases x)
  case (Inl e)
  then show ?thesis using assms by (auto simp: store_members_def stored_def fail_def)
next
  case (Inr S)
  have o: "distinct (env_member_order E S)" "set (env_member_order E S) = S"
    using assms(1,4) Inr by (auto simp: env_ok_def set_order_def)
  let ?v = "DSet (setdata_from_hashset (env_set E) (env_member_order E S))"
  have "set_thr_ok (env_set E)" using assms(1) by (simp add: env_ok_def)
  then have "setdata_rel (setdata_from_hashset (env_set E) (env_member_order E S)) (env_member_order E S)"
    using setdata_from_hashset_rel o(1) by blast
  then have v: "val_is lim ?v (ASet S)" using o(2) by (auto simp: setdata_is_def)
  from typed_op.on_key_ok [OF insert_typed v assms(3), of dst] obtain r s' c' where
    "on_key dst (\<lambda>d. Some ((), db_insert dst (entry_new ?v) d)) s1 = Some (r, s')" "ks_is lim clk (cs_db s') (B(dst \<mapsto> (ASet S, None)))" by blast
  then show ?thesis using assms(2) Inr by (auto simp: store_members_def stored_def reply_def)
qed

lemma set_at_finite: "ks_is lim clk s A \<Longrightarrow> set_at now A k = Inr (Some S) \<Longrightarrow> finite S"
proof -
  assume ks: "ks_is lim clk s A" and k: "set_at now A k = Inr (Some S)"
  obtain d where "read_for s k = Some d" and e: "ent_is lim (db_get_ro now k d) (alive now (A k))" by (rule ks_read [OF ks])
  obtain t where a: "alive now (A k) = Some (ASet S, t)"
    using k sty.proj_emb by (auto simp: set_at_def view_at_def split: option.splits prod.splits)
  with e obtain x where "db_get_ro now k d = Some x" "val_is lim (en_value x) (ASet S)" by (cases "db_get_ro now k d") auto
  then show "finite S" using sty.con_only [of lim "en_value x" S] setdata_is_finite by fastforce
qed

lemma members_finite: "ks_is lim clk s A \<Longrightarrow> finite (members_at now A k)"
  using set_at_finite by (cases rule: set_at_cases [of now A k]) (auto simp: members_at_def)

lemma operands_finite:
  assumes "ks_is lim clk s A"
  shows "union_at now ks A = Inr S \<Longrightarrow> finite S" and "inter_at now ks A = Inr S \<Longrightarrow> finite S" and "diff_at now ks A = Inr S \<Longrightarrow> finite S"
proof -
  note f = members_finite [OF assms, of now]
  show "finite S" if "union_at now ks A = Inr S" using that f by (auto simp: union_at_def split: if_splits)
  show "finite S" if "diff_at now ks A = Inr S" using that f by (auto simp: diff_at_def split: if_splits)
  show "finite S" if i: "inter_at now ks A = Inr S"
  proof (cases "find (\<lambda>k. \<forall>S. set_at now A k \<noteq> Inr (Some S)) ks")
    case None
    show ?thesis
    proof (cases ks)
      case (Cons k ks')
      then have "S \<subseteq> members_at now A k" using i None by (auto simp: inter_at_def)
      then show ?thesis using f finite_subset by blast
    qed (use i None in \<open>simp add: inter_at_def\<close>)
  next
    case (Some k)
    then show ?thesis using i by (cases "set_at now A k") (simp_all add: inter_at_def)
  qed
qed

section \<open>The size of an intersection\<close>

definition capped :: "nat option \<Rightarrow> nat \<Rightarrow> nat" where
  "capped limit n = (case limit of Some l \<Rightarrow> min l n | None \<Rightarrow> n)"

lemma intercard_loop_is:
  assumes "\<And>l. limit = Some l \<Longrightarrow> cnt < l"
  shows "intercard_loop others limit ms cnt = capped limit (cnt + length (filter (\<lambda>m. \<forall>S \<in> set others. m \<in> S) ms))"
  using assms
proof (induction ms arbitrary: cnt)
  case Nil
  then show ?case by (cases limit) (auto simp: capped_def min_absorb2 less_imp_le)
next
  case (Cons m ms)
  show ?case
  proof (cases "(\<forall>S \<in> set others. m \<in> S) \<and> (case limit of Some l \<Rightarrow> cnt + 1 < l | None \<Rightarrow> True)")
    case True
    then have "\<And>l. limit = Some l \<Longrightarrow> cnt + 1 < l" by auto
    from Cons.IH [OF this] True show ?thesis by (auto simp: list_all_iff split: option.splits)
  next
    case False
    then show ?thesis using Cons.IH [OF Cons.prems] Cons.prems
      by (cases limit) (auto simp: list_all_iff capped_def)
  qed
qed

lemma nth_inter:
  assumes "i < length Ss"
  shows "{m \<in> Ss ! i. \<forall>S \<in> set (take i Ss @ drop (Suc i) Ss). m \<in> S} = \<Inter> (set Ss)"
proof -
  have "set Ss = insert (Ss ! i) (set (take i Ss @ drop (Suc i) Ss))"
    using arg_cong [OF id_take_nth_drop [OF assms], of set] by simp
  then show ?thesis by auto
qed

lemma intercard_count_is:
  assumes "env_ok lim E" and "Ss \<noteq> []" and "best < length Ss" and "finite (Ss ! best)" and "limit \<noteq> Some 0"
  shows "intercard_count E limit Ss best s = Some (Inr (resp_int (int (capped limit (card (\<Inter> (set Ss)))))), s)"
proof -
  let ?ms = "env_member_order E (Ss ! best)" and ?others = "take best Ss @ drop (Suc best) Ss"
  have o: "distinct ?ms" "set ?ms = Ss ! best" using assms(1,4) by (auto simp: env_ok_def set_order_def)
  have "length (filter (\<lambda>m. \<forall>S \<in> set ?others. m \<in> S) ?ms) = card {m \<in> Ss ! best. \<forall>S \<in> set ?others. m \<in> S}"
    using distinct_card [OF distinct_filter [OF o(1)], of "\<lambda>m. \<forall>S \<in> set ?others. m \<in> S"] by (simp add: o(2))
  then have "length (filter (\<lambda>m. \<forall>S \<in> set ?others. m \<in> S) ?ms) = card (\<Inter> (set Ss))" unfolding nth_inter [OF assms(3)] .
  moreover have "\<And>l. limit = Some l \<Longrightarrow> 0 < l" using assms(5) by (cases limit) auto
  ultimately show ?thesis using intercard_loop_is [of limit 0 ?others ?ms] assms(2,3)
    by (auto simp: intercard_count_def reply_def index_def)
qed

lemma intercard_sets_is:
  assumes "ks_is lim clk (cs_db s) A"
  shows "\<exists>best'. intercard_sets E ks i best Ss s = Some (case find (\<lambda>k. \<forall>S. set_at (env_now E) A k \<noteq> Inr (Some S)) ks of
       Some k \<Rightarrow> map_sum id (\<lambda>_. None) (set_at (env_now E) A k)
     | None \<Rightarrow> Inr (Some (Ss @ map (members_at (env_now E) A) ks, best')), s) \<and> (best' = snd best \<or> i \<le> best' \<and> best' < i + length ks)"
proof (induction ks arbitrary: i best Ss)
  case Nil
  then show ?case by (simp add: reply_def)
next
  case (Cons k ks)
  let ?now = "env_now E"
  from wo.view_rel_ok [OF TrueI assms, of E k "Inr None"] obtain r where
    r: "view_ro E k (Inr None) members_value s = Some (r, s)" "view_rel proj_set ?now k (Inr None) (Inl WrongType) (\<lambda>S r. r = Inr (Some S)) A r" by blast
  have v: "view_ro E k (Inr None) members_value s = Some (set_at ?now A k, s)"
    using r by (auto simp: view_rel_def set_at_def view_at_def split: option.splits)
  show ?case
  proof (cases rule: set_at_cases [of ?now A k])
    case 1
    then show ?thesis using v by (auto simp: fail_def)
  next
    case 2
    then show ?thesis using v by (auto simp: reply_def)
  next
    case (3 S)
    then have m: "Ss @ map (members_at ?now A) (k # ks) = (Ss @ [S]) @ map (members_at ?now A) ks" by (simp add: members_at_def)
    obtain best2 where b: "best2 = (if card S < fst best then (card S, i) else best)" by simp
    then have s: "snd best2 = snd best \<or> snd best2 = i" by simp
    have e: "intercard_sets E (k # ks) i best Ss s = intercard_sets E ks (i + 1) best2 (Ss @ [S]) s" using v 3 by (simp add: b)
    have f: "find (\<lambda>k. \<forall>S. set_at ?now A k \<noteq> Inr (Some S)) (k # ks) = find (\<lambda>k. \<forall>S. set_at ?now A k \<noteq> Inr (Some S)) ks" using 3 by simp
    from Cons.IH [of "i + 1" best2 "Ss @ [S]"] obtain best' where
      b': "intercard_sets E ks (i + 1) best2 (Ss @ [S]) s = Some (case find (\<lambda>k. \<forall>S. set_at ?now A k \<noteq> Inr (Some S)) ks of
          Some k \<Rightarrow> map_sum id (\<lambda>_. None) (set_at ?now A k) | None \<Rightarrow> Inr (Some ((Ss @ [S]) @ map (members_at ?now A) ks, best')), s)"
        "best' = snd best2 \<or> i + 1 \<le> best' \<and> best' < i + 1 + length ks" by (elim exE conjE)
    show ?thesis unfolding e f m b'(1) using b'(2) s by (intro exI [of _ best']) auto
  qed
qed

section \<open>Moving a member\<close>

definition smove_at :: "nat \<Rightarrow> bytes \<Rightarrow> bytes \<Rightarrow> bytes \<Rightarrow> keyspace \<Rightarrow> int result \<times> keyspace" where
  "smove_at now src dst m A =
     (if (case A dst of None \<Rightarrow> False | Some (a, _) \<Rightarrow> proj_set a = None) then (Inl WrongType, A)
      else case edit_at proj_set ASet now src (Inr False) (Inl WrongType) (take_effect m) A of
        (Inr True, B) \<Rightarrow> (Inr 1, snd (upsert_at proj_set ASet now dst {} () (put_effect m) B))
      | (Inr False, B) \<Rightarrow> (Inr 0, B)
      | (Inl e, B) \<Rightarrow> (Inl e, B))"

lemma smove_put_typed:
  "typed_op (env_ok lim E) lim dst (\<lambda>d. map_option (\<lambda>(r, d). (r, db_bump_version dst d)) (upsert now dst (DSet setdata_new) (smove_insert_value E m) d))
     (upsert_spec now (ASet {}) (by_val proj_set ASet () (put_effect m)))"
proof
  fix d ma c assume e: "env_ok lim E" and d: "db_is d ma" and c: "ent_is lim (ma dst) c"
  have "env_ok lim E \<and> val_is lim (DSet setdata_new) (ASet {})" using e setdata_new_is by simp
  from sp.up.typed_law [OF this d c, of now] obtain r d' x c' where
    l: "upsert now dst (DSet setdata_new) (smove_insert_value E m) d = Some (r, d')" "db_is d' (ma(dst := x))" "db_clock d' = db_clock d"
      "ent_is lim x c'" "upsert_spec now (ASet {}) (by_val proj_set ASet () (put_effect m)) c r c'" by blast
  then show "\<exists>r d' x c'. map_option (\<lambda>(r, d). (r, db_bump_version dst d)) (upsert now dst (DSet setdata_new) (smove_insert_value E m) d) = Some (r, d')
      \<and> db_is d' (ma(dst := x)) \<and> db_clock d' = db_clock d \<and> ent_is lim x c'
      \<and> upsert_spec now (ASet {}) (by_val proj_set ASet () (put_effect m)) c r c'"
    using bump_is [OF l(2), of dst] by fastforce
qed

lemma usable_is:
  assumes "ks_is lim clk s A" and "read_for s dst = Some d"
  shows "dst_is_usable dst d \<longleftrightarrow> \<not> (case A dst of None \<Rightarrow> False | Some (a, _) \<Rightarrow> proj_set a = None)"
proof -
  from assms(1) obtain m where m: "sharded_is clk s m" "\<And>k. ent_is lim (m k) (A k)" by (auto simp: ks_is_def)
  note i = shard_idx_less [OF m(1), of dst]
  have "db_is d (part (sh_num s) (shard_idx (sh_num s) dst) m)" using sharded_isD [OF m(1) i] assms(2) by (simp add: read_for_def)
  then have f: "find_entry d dst = m dst" using db_isD(1) part_key by metis
  show ?thesis
  proof (cases "m dst")
    case None
    then show ?thesis using f m(2) [of dst] by (simp add: dst_is_usable_def)
  next
    case (Some e)
    with m(2) [of dst] obtain a where a: "A dst = Some (a, en_expiry e)" "val_is lim (en_value e) a" by auto
    from a(2) show ?thesis
    proof (cases rule: sty.val_cases)
      case (this_type c x)
      then show ?thesis using f Some a(1) by (simp add: dst_is_usable_def)
    next
      case other
      then show ?thesis using f Some a(1) by (cases "en_value e") (auto simp: dst_is_usable_def)
    qed
  qed
qed

lemma smove_atomic_ok:
  assumes "env_ok lim E" and "ks_is lim clk s A"
  shows "\<exists>s'. smove_atomic E src dst m s = Some (fst (smove_at (env_now E) src dst m A), s')
    \<and> ks_is lim clk s' (snd (smove_at (env_now E) src dst m A))"
proof -
  let ?now = "env_now E" and ?e = "edit_at proj_set ASet (env_now E) src (Inr False) (Inl WrongType) (take_effect m) A"
  obtain d where d: "read_for s dst = Some d" using ks_read [OF assms(2)] by blast
  note ok = usable_is [OF assms(2) d]
  show ?thesis
  proof (cases "case A dst of None \<Rightarrow> False | Some (a, _) \<Rightarrow> proj_set a = None")
    case True
    then show ?thesis using d ok assms(2) by (simp add: smove_atomic_def smove_at_def)
  next
    case False
    from st.edit_at_locked [OF assms, of src ?now "Inr False" m] obtain s1 where
      s1: "locked src (edit_live ?now src (Inr False) (smove_remove_value E m)) s = Some (fst ?e, s1)" "ks_is lim clk s1 (snd ?e)" by blast
    obtain r B where e: "?e = (r, B)" by force
    from sp.upsert_at_typed [OF smove_put_typed assms(1), of clk s1 B dst ?now m] s1(2) e obtain s2 where
      s2: "locked dst (\<lambda>d. map_option (\<lambda>(r, d). (r, db_bump_version dst d)) (upsert ?now dst (DSet setdata_new) (smove_insert_value E m) d)) s1
          = Some (fst (upsert_at proj_set ASet ?now dst {} () (put_effect m) B), s2)"
        "ks_is lim clk s2 (snd (upsert_at proj_set ASet ?now dst {} () (put_effect m) B))" by auto
    show ?thesis using d ok False s1 s2 e by (auto simp: smove_atomic_def smove_at_def split: sum.split bool.split)
  qed
qed

section \<open>The commands\<close>

datatype set_cmd =
    SAdd bytes "bytes list" | SRem bytes "bytes list" | SIsMember bytes bytes | SMIsMember bytes "bytes list" | SMembers bytes | SCard bytes
  | SUnion "bytes list" | SInter "bytes list" | SDiff "bytes list"
  | SUnionStore bytes "bytes list" | SInterStore bytes "bytes list" | SDiffStore bytes "bytes list"
  | SInterCard "bytes list" "nat option" | SMove bytes bytes bytes | SRandMember bytes "int option" | SPop bytes "nat option"
  | SScan bytes bytes "bytes option \<times> nat"

fun set_words :: "set_cmd \<Rightarrow> bytes list" where
  "set_words (SAdd key ms) = asc ''SADD'' # key # ms"
| "set_words (SRem key ms) = asc ''SREM'' # key # ms"
| "set_words (SIsMember key m) = [asc ''SISMEMBER'', key, m]"
| "set_words (SMIsMember key ms) = asc ''SMISMEMBER'' # key # ms"
| "set_words (SMembers key) = [asc ''SMEMBERS'', key]"
| "set_words (SCard key) = [asc ''SCARD'', key]"
| "set_words (SUnion ks) = asc ''SUNION'' # ks"
| "set_words (SInter ks) = asc ''SINTER'' # ks"
| "set_words (SDiff ks) = asc ''SDIFF'' # ks"
| "set_words (SUnionStore dst ks) = asc ''SUNIONSTORE'' # dst # ks"
| "set_words (SInterStore dst ks) = asc ''SINTERSTORE'' # dst # ks"
| "set_words (SDiffStore dst ks) = asc ''SDIFFSTORE'' # dst # ks"
| "set_words (SInterCard ks limit) = [asc ''SINTERCARD'', dec_int (int (length ks))] @ ks
     @ (case limit of None \<Rightarrow> [] | Some l \<Rightarrow> [asc ''LIMIT'', dec_int (int l)])"
| "set_words (SMove src dst m) = [asc ''SMOVE'', src, dst, m]"
| "set_words (SRandMember key cnt) = [asc ''SRANDMEMBER'', key] @ (case cnt of None \<Rightarrow> [] | Some n \<Rightarrow> [dec_int n])"
| "set_words (SPop key cnt) = [asc ''SPOP'', key] @ (case cnt of None \<Rightarrow> [] | Some n \<Rightarrow> [dec_int (int n)])"
| "set_words (SScan key cursor op) = [asc ''SSCAN'', key, cursor] @ scan_words op"

fun set_wf :: "set_cmd \<Rightarrow> bool" where
  "set_wf (SAdd key ms) \<longleftrightarrow> ms \<noteq> []"
| "set_wf (SRem key ms) \<longleftrightarrow> ms \<noteq> []"
| "set_wf (SMIsMember key ms) \<longleftrightarrow> ms \<noteq> []"
| "set_wf (SUnion ks) \<longleftrightarrow> ks \<noteq> []"
| "set_wf (SInter ks) \<longleftrightarrow> ks \<noteq> []"
| "set_wf (SDiff ks) \<longleftrightarrow> ks \<noteq> []"
| "set_wf (SUnionStore dst ks) \<longleftrightarrow> ks \<noteq> []"
| "set_wf (SInterStore dst ks) \<longleftrightarrow> ks \<noteq> []"
| "set_wf (SDiffStore dst ks) \<longleftrightarrow> ks \<noteq> []"
| "set_wf (SInterCard ks limit) \<longleftrightarrow> ks \<noteq> [] \<and> i64_ok (int (length ks)) \<and> (case limit of None \<Rightarrow> True | Some l \<Rightarrow> l > 0 \<and> i64_ok (int l))"
| "set_wf (SRandMember key cnt) \<longleftrightarrow> (case cnt of None \<Rightarrow> True | Some n \<Rightarrow> i64_ok n)"
| "set_wf (SPop key cnt) \<longleftrightarrow> (case cnt of None \<Rightarrow> True | Some n \<Rightarrow> i64_ok (int n))"
| "set_wf (SScan key cursor op) \<longleftrightarrow> snd op > 0 \<and> i64_ok (int (snd op))"
| "set_wf _ \<longleftrightarrow> True"

fun set_handler :: "set_cmd \<Rightarrow> env \<Rightarrow> resp list \<Rightarrow> resp handler" where
  "set_handler (SAdd key ms) = cmd_sadd"
| "set_handler (SRem key ms) = cmd_srem"
| "set_handler (SIsMember key m) = cmd_sismember"
| "set_handler (SMIsMember key ms) = cmd_smismember"
| "set_handler (SMembers key) = cmd_smembers"
| "set_handler (SCard key) = cmd_scard"
| "set_handler (SUnion ks) = cmd_sunion"
| "set_handler (SInter ks) = cmd_sinter"
| "set_handler (SDiff ks) = cmd_sdiff"
| "set_handler (SUnionStore dst ks) = cmd_sunionstore"
| "set_handler (SInterStore dst ks) = cmd_sinterstore"
| "set_handler (SDiffStore dst ks) = cmd_sdiffstore"
| "set_handler (SInterCard ks limit) = cmd_sintercard"
| "set_handler (SMove src dst m) = cmd_smove"
| "set_handler (SRandMember key cnt) = cmd_srandmember"
| "set_handler (SPop key cnt) = cmd_spop"
| "set_handler (SScan key cursor op) = cmd_sscan"

definition set_exec :: "env \<Rightarrow> set_cmd \<Rightarrow> resp handler" where
  "set_exec E c = set_handler c E (bulks (set_words c))"

abbreviation view_set :: "nat \<Rightarrow> bytes \<Rightarrow> resp \<Rightarrow> (bytes set \<Rightarrow> resp) \<Rightarrow> keyspace \<Rightarrow> resp result" where
  "view_set now key none h A \<equiv> view_at proj_set now key (Inr none) (Inl WrongType) (\<lambda>S. Inr (h S)) A"

abbreviation list_set :: "nat \<Rightarrow> bytes \<Rightarrow> resp \<Rightarrow> (bytes set \<Rightarrow> resp result \<Rightarrow> bool) \<Rightarrow> keyspace \<Rightarrow> resp result \<Rightarrow> bool" where
  "list_set now key none H A r \<equiv> view_rel proj_set now key (Inr none) (Inl WrongType) H A r"

fun set_spec :: "env \<Rightarrow> set_cmd \<Rightarrow> keyspace \<Rightarrow> resp result \<Rightarrow> keyspace \<Rightarrow> bool" where
  "set_spec E (SAdd key ms) A r A' \<longleftrightarrow> (r, A') = upsert_at proj_set ASet (env_now E) key {} (Inl WrongType) (sadd_effect ms) A"
| "set_spec E (SRem key ms) A r A' \<longleftrightarrow> (r, A') = edit_at proj_set ASet (env_now E) key (Inr (resp_int 0)) (Inl WrongType) (srem_effect ms) A"
| "set_spec E (SIsMember key m) A r A' \<longleftrightarrow> A' = A \<and> r = view_set (env_now E) key (resp_int 0) (\<lambda>S. resp_int (of_bool (m \<in> S))) A"
| "set_spec E (SMIsMember key ms) A r A' \<longleftrightarrow> A' = A \<and> r = view_at proj_set (env_now E) key (Inr (zeros (bulks ms))) (Inr (zeros (bulks ms)))
     (\<lambda>S. Inr (resp_array (map (\<lambda>m. resp_int (of_bool (m \<in> S))) ms))) A"
| "set_spec E (SMembers key) A r A' \<longleftrightarrow> A' = A \<and> list_set (env_now E) key (resp_array []) smembers_rel A r"
| "set_spec E (SCard key) A r A' \<longleftrightarrow> A' = A \<and> r = view_set (env_now E) key (resp_int 0) (\<lambda>S. resp_int (int (card S))) A"
| "set_spec E (SUnion ks) A r A' \<longleftrightarrow> lazy_expire (env_now E) A A' \<and> listed (union_at (env_now E) ks A) r"
| "set_spec E (SInter ks) A r A' \<longleftrightarrow> lazy_expire (env_now E) A A' \<and> listed (inter_at (env_now E) ks A) r"
| "set_spec E (SDiff ks) A r A' \<longleftrightarrow> lazy_expire (env_now E) A A' \<and> listed (diff_at (env_now E) ks A) r"
| "set_spec E (SUnionStore dst ks) A r A' \<longleftrightarrow> (\<exists>B. lazy_expire (env_now E) A B \<and> stored dst (union_at (env_now E) ks A) B r A')"
| "set_spec E (SInterStore dst ks) A r A' \<longleftrightarrow> (\<exists>B. lazy_expire (env_now E) A B \<and> stored dst (inter_at (env_now E) ks A) B r A')"
| "set_spec E (SDiffStore dst ks) A r A' \<longleftrightarrow> (\<exists>B. lazy_expire (env_now E) A B \<and> stored dst (diff_at (env_now E) ks A) B r A')"
| "set_spec E (SInterCard ks limit) A r A' \<longleftrightarrow> A' = A \<and> r = map_sum id (\<lambda>S. resp_int (int (capped limit (card S)))) (inter_at (env_now E) ks A)"
| "set_spec E (SMove src dst m) A r A' \<longleftrightarrow> (r, A') = map_prod (map_sum id resp_int) id (smove_at (env_now E) src dst m A)"
| "set_spec E (SRandMember key cnt) A r A' \<longleftrightarrow> A' = A \<and> list_set (env_now E) key (if cnt \<noteq> None then resp_array [] else resp_null)
     (\<lambda>S r. \<exists>x. r = Inr x \<and> sample_rel cnt S x) A r"
| "set_spec E (SPop key cnt) A r A' \<longleftrightarrow>
     edit_rel proj_set ASet (env_now E) key (Inr (if cnt \<noteq> None then resp_array [] else resp_null)) (Inl WrongType) (spop_rel cnt) A r A'"
| "set_spec E (SScan key cursor op) A r A' \<longleftrightarrow> A' = A \<and> list_set (env_now E) key scan_empty_reply
     (sscan_rel (if utf8_valid cursor then decode_scan_cursor cursor else None) op) A r"

section \<open>Every command implements its specification\<close>

lemma capped_zero [simp]: "capped limit 0 = 0"
  by (cases limit) (simp_all add: capped_def)

lemma keys_from_words: "keys_from (bulks ks) cmd = Inr ks"
  by (induction ks) (simp_all add: ok_or_arity_def)

lemma limit_word: "to_uppercase (asc ''LIMIT'') = asc ''LIMIT''" "utf8_valid (asc ''LIMIT'')"
  by code_simp+

lemma intercard_limit_words:
  assumes "set_wf (SInterCard ks limit)"
  shows "intercard_limit (bulks (set_words (SInterCard ks limit))) (2 + length ks) = Inr limit"
proof (cases limit)
  case None
  then show ?thesis by (simp add: intercard_limit_def)
next
  case (Some l)
  let ?bs = "set_words (SInterCard ks limit)" and ?i = "2 + length ks"
  have w: "?bs ! ?i = asc ''LIMIT''" "?bs ! (?i + 1) = dec_int (int l)" "length ?bs = ?i + 2" by (simp_all add: Some nth_append)
  have l: "l > 0" "i64_ok (int l)" using assms Some by simp_all
  have s: "get_str (bulks ?bs) ?i (asc ''SINTERCARD'') = Inr (asc ''LIMIT'')"
    using get_bulks(3) [of ?i ?bs "asc ''SINTERCARD''"] w limit_word by (simp del: set_words.simps)
  have n: "get_i64 (bulks ?bs) (?i + 1) (asc ''SINTERCARD'') = Inr (int l)"
    using get_word_i64 [of "?i + 1" ?bs "int l"] w l by (simp del: set_words.simps)
  have "int l mod 2 ^ 64 = int l" using l(2) by (simp add: i64_ok_def)
  then show ?thesis unfolding intercard_limit_def s n attempt_simps limit_word using l(1) w(3) by (simp add: Some)
qed

lemma intercard_ok:
  assumes "env_ok lim E" and "set_wf (SInterCard ks limit)" and "ks_is lim clk (cs_db s) A"
  shows "set_exec E (SInterCard ks limit) s
    = Some (map_sum id (\<lambda>S. resp_int (int (capped limit (card S)))) (inter_at (env_now E) ks A), s)"
proof -
  let ?bs = "set_words (SInterCard ks limit)" and ?now = "env_now E" and ?nm = "asc ''SINTERCARD''"
  let ?find = "find (\<lambda>k. \<forall>S. set_at ?now A k \<noteq> Inr (Some S)) ks"
  have w: "ks \<noteq> []" "i64_ok (int (length ks))" using assms(2) by auto
  have lim: "limit \<noteq> Some 0" using assms(2) by auto
  have len: "length ?bs \<ge> 2 + length ks" "length ?bs \<ge> 3" using w(1) by (cases ks; cases limit; simp)+
  have n: "get_i64 (bulks ?bs) 1 ?nm = Inr (int (length ks))"
    using get_word_i64 [of 1 ?bs "int (length ks)" ?nm] w len by simp
  have "take (length ks) (drop 2 (bulks ?bs)) = bulks ks" by (simp add: bulks_def)
  then have k: "keys_from (take (length ks) (drop 2 (bulks ?bs))) ?nm = Inr ks" by (simp only: keys_from_words)
  from intercard_sets_is [OF assms(3), of E ks 0 "(2 ^ 64 - 1, 0)" "[]", unfolded append_Nil snd_conv add_0] obtain best where
    b: "intercard_sets E ks 0 (2 ^ 64 - 1, 0) [] s = Some (case ?find of
       Some k \<Rightarrow> map_sum id (\<lambda>_. None) (set_at ?now A k) | None \<Rightarrow> Inr (Some (map (members_at ?now A) ks, best)), s)"
      "best = 0 \<or> 0 \<le> best \<and> best < length ks" by (elim exE conjE)
  have step: "set_exec E (SInterCard ks limit) s = (case ?find of
       Some k \<Rightarrow> (case map_sum id (\<lambda>_. None) (set_at ?now A k) of Inl e \<Rightarrow> fail e s | Inr None \<Rightarrow> reply (resp_int 0) s
         | Inr (Some (Ss, best)) \<Rightarrow> intercard_count E limit Ss best s)
     | None \<Rightarrow> intercard_count E limit (map (members_at ?now A) ks) best s)"
  proof -
    have c: "\<not> length (bulks ?bs) < 3" "\<not> int (length ks) \<le> 0" "nat (int (length ks)) = length ks" "\<not> length (bulks ?bs) < 2 + length ks"
      using len w(1) by (simp_all del: set_words.simps)
    show ?thesis
      unfolding set_exec_def set_handler.simps cmd_sintercard_def n attempt_simps
      by (simp only: c if_False attempt_simps k intercard_limit_words [OF assms(2)] b(1) Option.bind.simps prod.case split: option.split) simp
  qed
  show ?thesis
  proof (cases ?find)
    case None
    have "best < length ks" using b(2) w(1) by (cases ks) auto
    then show ?thesis
      using intercard_count_is [OF assms(1), of "map (members_at ?now A) ks" best limit s] w(1) lim members_finite [OF assms(3)]
      by (simp add: step None inter_at_def)
  next
    case (Some k)
    then show ?thesis using step by (cases rule: set_at_cases [of ?now A k]) (auto simp: inter_at_def fail_def reply_def)
  qed
qed

lemma collect_ok:
  assumes "ks_is lim clk (cs_db s) A"
  shows "\<exists>s' B. collect_union E (bulks ks) {} s = Some (union_at (env_now E) ks A, s') \<and> lazy_expire (env_now E) A B \<and> ks_is lim clk (cs_db s') B"
    and "\<exists>s' B. collect_inter E (bulks ks) [] s = Some (inter_at (env_now E) ks A, s') \<and> lazy_expire (env_now E) A B \<and> ks_is lim clk (cs_db s') B"
    and "ks \<noteq> [] \<Longrightarrow> \<exists>s' B. collect_diff E (bulks ks) s = Some (diff_at (env_now E) ks A, s') \<and> lazy_expire (env_now E) A B \<and> ks_is lim clk (cs_db s') B"
proof -
  have "map_sum id (\<lambda>S. {} \<union> S) x = x" for x :: "bytes set result" by (cases x) simp_all
  then show "\<exists>s' B. collect_union E (bulks ks) {} s = Some (union_at (env_now E) ks A, s') \<and> lazy_expire (env_now E) A B \<and> ks_is lim clk (cs_db s') B"
    using collect_union_ok [where E = E and acc = "{}" and ks = ks, OF assms bulks_as_words] by metis
  show "\<exists>s' B. collect_inter E (bulks ks) [] s = Some (inter_at (env_now E) ks A, s') \<and> lazy_expire (env_now E) A B \<and> ks_is lim clk (cs_db s') B"
  proof -
    have "(case find (\<lambda>k. \<forall>S. set_at (env_now E) A k \<noteq> Inr (Some S)) ks of Some k \<Rightarrow> map_sum id (\<lambda>_. {}) (set_at (env_now E) A k)
        | None \<Rightarrow> Inr (if [] = [] \<and> ks = [] then {} else \<Inter> (set []) \<inter> (\<Inter>k \<in> set ks. members_at (env_now E) A k))) = inter_at (env_now E) ks A"
      by (simp add: inter_at_def split: option.split)
    then show ?thesis using collect_inter_ok [where E = E and Ss = "[]" and ks = ks, OF assms bulks_as_words] by metis
  qed
  show "ks \<noteq> [] \<Longrightarrow> \<exists>s' B. collect_diff E (bulks ks) s = Some (diff_at (env_now E) ks A, s') \<and> lazy_expire (env_now E) A B \<and> ks_is lim clk (cs_db s') B"
    by (rule collect_diff_ok [OF assms bulks_as_words])
qed

lemma members_family:
  assumes "env_ok lim E" and "exec = members_reply E collect" and "\<And>S. x = Inr S \<Longrightarrow> finite S"
    and "\<exists>s' B. collect s = Some (x, s') \<and> lazy_expire (env_now E) A B \<and> ks_is lim clk (cs_db s') B"
  shows "\<exists>r s' A'. exec s = Some (r, s') \<and> (lazy_expire (env_now E) A A' \<and> listed x r) \<and> ks_is lim clk (cs_db s') A'"
  using assms(2,4) members_reply_ok [OF assms(1) _ assms(3), of collect s] by blast

lemma store_family:
  assumes "env_ok lim E" and "exec = store_members E dst collect" and "\<And>S. x = Inr S \<Longrightarrow> finite S"
    and "\<exists>s' B. collect s = Some (x, s') \<and> lazy_expire (env_now E) A B \<and> ks_is lim clk (cs_db s') B"
  shows "\<exists>r s' A'. exec s = Some (r, s') \<and> (\<exists>B. lazy_expire (env_now E) A B \<and> stored dst x B r A') \<and> ks_is lim clk (cs_db s') A'"
  using assms(2,4) store_members_ok [OF assms(1) _ _ assms(3), of collect s] by blast

lemma set_command_law:
  assumes "env_ok lim E" and "set_wf c" and "ks_is lim clk (cs_db s) A"
  shows "\<exists>r s' A'. set_exec E c s = Some (r, s') \<and> set_spec E c A r A' \<and> ks_is lim clk (cs_db s') A'"
proof (cases c)
  case (SAdd key ms)
  then have "set_exec E c s = on_key key (upsert (env_now E) key (DSet setdata_new) (sadd_value E (bulks ms))) s"
    using assms(2) by (cases ms) (simp_all add: set_exec_def cmd_sadd_def arg_defs)
  then show ?thesis using sa.upsert_at_ok [of lim E "bulks ms" ms, OF _ setdata_new_is assms(3), of key "env_now E"] assms(1)
    by (auto simp: SAdd bulks_as_words)
next
  case (SRem key ms)
  then have "set_exec E c s = on_key key (edit_live (env_now E) key (Inr (resp_int 0)) (srem_value E (bulks ms))) s"
    using assms(2) by (cases ms) (simp_all add: set_exec_def cmd_srem_def arg_defs)
  then show ?thesis using sr.edit_at_ok [of lim E "bulks ms" ms, OF _ assms(3), of key "env_now E" "Inr (resp_int 0)"] assms(1)
    by (auto simp: SRem bulks_as_words)
next
  case (SIsMember key m)
  then show ?thesis using wi.view_at_ok [OF TrueI assms(3), of E key "Inr (resp_int 0)" m] assms(3)
    by (simp add: set_exec_def cmd_sismember_def arg_defs)
next
  case (SMIsMember key ms)
  then have "set_exec E c s = view_ro E key (Inr (zeros (bulks ms))) (smismember_value (bulks ms)) s"
    using assms(2) by (cases ms) (simp_all add: set_exec_def cmd_smismember_def arg_defs)
  then show ?thesis using wm.view_at_ok [of "bulks ms" ms, OF bulks_as_words assms(3), of E key "Inr (zeros (bulks ms))"] assms(3)
    by (simp add: SMIsMember)
next
  case (SMembers key)
  then show ?thesis using we.view_rel_ok [OF TrueI assms(3), of E key "Inr (resp_array [])"] assms(3)
    by (auto simp: set_exec_def cmd_smembers_def arg_defs)
next
  case (SCard key)
  then show ?thesis using wc.view_at_ok [OF TrueI assms(3), of E key "Inr (resp_int 0)"] assms(3)
    by (simp add: set_exec_def cmd_scard_def arg_defs)
next
  case (SUnion ks)
  then have "set_exec E c = members_reply E (collect_union E (bulks ks) {})"
    using assms(2) by (cases ks) (simp_all add: set_exec_def cmd_sunion_def)
  then show ?thesis unfolding SUnion set_spec.simps
    by (rule members_family [where s = s and A = A and exec = "set_exec E (SUnion ks)" and collect = "collect_union E (bulks ks) {}" and x = "union_at (env_now E) ks A",
        OF assms(1) _ operands_finite(1) [OF assms(3)] collect_ok(1) [OF assms(3)]])
next
  case (SInter ks)
  then have "set_exec E c = members_reply E (collect_inter E (bulks ks) [])"
    using assms(2) by (cases ks) (simp_all add: set_exec_def cmd_sinter_def)
  then show ?thesis unfolding SInter set_spec.simps
    by (rule members_family [where s = s and A = A and exec = "set_exec E (SInter ks)" and collect = "collect_inter E (bulks ks) []" and x = "inter_at (env_now E) ks A",
        OF assms(1) _ operands_finite(2) [OF assms(3)] collect_ok(2) [OF assms(3)]])
next
  case (SDiff ks)
  then have k: "ks \<noteq> []" "set_exec E c = members_reply E (collect_diff E (bulks ks))"
    using assms(2) by (cases ks; simp add: set_exec_def cmd_sdiff_def)+
  show ?thesis using k(2) unfolding SDiff set_spec.simps
    by (rule members_family [where s = s and A = A and exec = "set_exec E (SDiff ks)" and collect = "collect_diff E (bulks ks)" and x = "diff_at (env_now E) ks A",
        OF assms(1) _ operands_finite(3) [OF assms(3)] collect_ok(3) [OF assms(3) k(1)]])
next
  case (SUnionStore dst ks)
  then have "set_exec E c = store_members E dst (collect_union E (bulks ks) {})"
    using assms(2) by (cases ks) (simp_all add: set_exec_def cmd_sunionstore_def arg_defs)
  then show ?thesis unfolding SUnionStore set_spec.simps
    by (rule store_family [where s = s and A = A and exec = "set_exec E (SUnionStore dst ks)" and collect = "collect_union E (bulks ks) {}" and x = "union_at (env_now E) ks A",
        OF assms(1) _ operands_finite(1) [OF assms(3)] collect_ok(1) [OF assms(3)]])
next
  case (SInterStore dst ks)
  then have "set_exec E c = store_members E dst (collect_inter E (bulks ks) [])"
    using assms(2) by (cases ks) (simp_all add: set_exec_def cmd_sinterstore_def arg_defs)
  then show ?thesis unfolding SInterStore set_spec.simps
    by (rule store_family [where s = s and A = A and exec = "set_exec E (SInterStore dst ks)" and collect = "collect_inter E (bulks ks) []" and x = "inter_at (env_now E) ks A",
        OF assms(1) _ operands_finite(2) [OF assms(3)] collect_ok(2) [OF assms(3)]])
next
  case (SDiffStore dst ks)
  then have k: "ks \<noteq> []" "set_exec E c = store_members E dst (collect_diff E (bulks ks))"
    using assms(2) by (cases ks; simp add: set_exec_def cmd_sdiffstore_def arg_defs)+
  show ?thesis using k(2) unfolding SDiffStore set_spec.simps
    by (rule store_family [where s = s and A = A and exec = "set_exec E (SDiffStore dst ks)" and collect = "collect_diff E (bulks ks)" and x = "diff_at (env_now E) ks A",
        OF assms(1) _ operands_finite(3) [OF assms(3)] collect_ok(3) [OF assms(3) k(1)]])
next
  case (SInterCard ks limit)
  then show ?thesis using intercard_ok [OF assms(1) _ assms(3), of ks limit] assms(2,3) by auto
next
  case (SMove src dst m)
  then show ?thesis using smove_atomic_ok [OF assms(1,3), of src dst m]
    by (cases "smove_at (env_now E) src dst m A") (auto simp: set_exec_def cmd_smove_def arg_defs)
next
  case (SRandMember key cnt)
  then have "set_exec E c s = view_ro E key (Inr (if cnt \<noteq> None then resp_array [] else resp_null)) (srandmember_value E cnt) s"
    using assms(2) by (cases cnt) (simp_all add: set_exec_def cmd_srandmember_def arg_defs)
  then show ?thesis using wr.view_rel_ok [OF TrueI assms(3), of E key "Inr (if cnt \<noteq> None then resp_array [] else resp_null)" E cnt] assms(3)
    by (auto simp: SRandMember)
next
  case (SPop key cnt)
  then have "set_exec E c s = on_key key (edit_live (env_now E) key (Inr (if cnt \<noteq> None then resp_array [] else resp_null)) (spop_value E cnt)) s"
    using assms(2) by (cases cnt) (simp_all add: set_exec_def cmd_spop_def arg_defs)
  then show ?thesis
    using so.edit_rel_ok [OF assms(1,3), of key "env_now E" "Inr (if cnt \<noteq> None then resp_array [] else resp_null)" cnt] by (auto simp: SPop)
next
  case (SScan key cursor op)
  let ?cur = "if utf8_valid cursor then decode_scan_cursor cursor else None"
  have o: "scan_options (asc ''SSCAN'') (bulks (scan_words op)) (None, 10) = Inr op" using scan_options_words assms(2) SScan by simp
  have "scan_cursor_arg (bulks (set_words c)) 2 (asc ''SSCAN'') = ?cur"
    by (simp add: SScan scan_cursor_arg_def get_str_def ok_or_arity_def index_def)
  then have "set_exec E c s = view_ro E key (Inr scan_empty_reply) (sscan_value ?cur op) s"
    using o by (simp add: SScan set_exec_def cmd_sscan_def arg_defs del: scan_options.simps)
  then show ?thesis using ws.view_rel_ok [OF TrueI assms(3), of E key "Inr scan_empty_reply" ?cur op] assms(3) by (auto simp: SScan)
qed

interpretation sc: command_rel lim set_wf set_exec set_spec for lim
  by unfold_locales (rule set_command_law)

end
