(* ===== verification/Float64.thy ===== *)
theory Float64
  imports Complex_Main Prelude
begin

text \<open>
  The \<^verbatim>\<open>f64\<close> of Rust as far as the command handlers compute with it: the value of a bit pattern as a
  rational number, rounding to nearest even, addition, multiplication, \<^verbatim>\<open>str::parse::<f64>\<close>, and the printer
  \<^verbatim>\<open>format_float\<close> of \<^verbatim>\<open>command/string.rs\<close>, which prints 17 decimals and strips trailing zeros.
\<close>

section \<open>Values\<close>

definition f64_exp :: "f64 \<Rightarrow> nat" where
  "f64_exp b = f64_mag b div 2 ^ 52"

definition f64_frac :: "f64 \<Rightarrow> nat" where
  "f64_frac b = f64_mag b mod 2 ^ 52"

definition f64_is_infinite :: "f64 \<Rightarrow> bool" where
  "f64_is_infinite b \<longleftrightarrow> f64_mag b = 0x7FF0000000000000"

definition f64_is_finite :: "f64 \<Rightarrow> bool" where
  "f64_is_finite b \<longleftrightarrow> f64_mag b < 0x7FF0000000000000"

definition pow2 :: "int \<Rightarrow> rat" where
  "pow2 k = (if k \<ge> 0 then 2 ^ nat k else 1 / 2 ^ nat (- k))"

text \<open>The magnitude of a finite number: subnormal when the exponent field is 0.\<close>

definition f64_abs_val :: "f64 \<Rightarrow> rat" where
  "f64_abs_val b = (if f64_exp b = 0 then of_nat (f64_frac b) * pow2 (- 1074)
     else of_nat (2 ^ 52 + f64_frac b) * pow2 (int (f64_exp b) - 1075))"

definition f64_val :: "f64 \<Rightarrow> rat" where
  "f64_val b = (if f64_neg b then - f64_abs_val b else f64_abs_val b)"

section \<open>Rounding\<close>

definition round_even :: "rat \<Rightarrow> int" where
  "round_even r = (let n = \<lfloor>r\<rfloor>; d = r - of_int n in
     if d < 1 / 2 \<or> d = 1 / 2 \<and> even n then n else n + 1)"

function bits_of :: "nat \<Rightarrow> nat" where
  "bits_of n = (if n = 0 then 0 else Suc (bits_of (n div 2)))"
  by pat_completeness auto
termination
  by (relation "measure id") auto

declare bits_of.simps [simp del]

text \<open>The exponent of a positive number: \<open>pow2 k \<le> r < pow2 (k + 1)\<close>.\<close>

definition floor_log2 :: "rat \<Rightarrow> int" where
  "floor_log2 r = (case quotient_of r of (n, d) \<Rightarrow>
     let k = int (bits_of (nat n)) - int (bits_of (nat d)) in if pow2 k \<le> r then k else k - 1)"

definition f64_inf_mag :: nat where "f64_inf_mag = 0x7FF0000000000000"

definition round_mag :: "rat \<Rightarrow> nat" where
  "round_mag r = (if r = 0 then 0
     else let e = max (floor_log2 r) (- 1022); n = round_even (r * pow2 (52 - e)) in
       min f64_inf_mag (nat ((e + 1022) * 2 ^ 52 + n)))"

definition f64_of :: "bool \<Rightarrow> nat \<Rightarrow> f64" where
  "f64_of neg mag = of_nat (if neg then 2 ^ 63 + mag else mag)"

definition f64_round :: "bool \<Rightarrow> rat \<Rightarrow> f64" where
  "f64_round neg r = f64_of neg (round_mag r)"

definition f64_nan :: f64 where "f64_nan = 0x7FF8000000000000"

definition f64_add :: "f64 \<Rightarrow> f64 \<Rightarrow> f64" where
  "f64_add a b =
     (if f64_is_nan a \<or> f64_is_nan b then f64_nan
      else if f64_is_infinite a then (if f64_is_infinite b \<and> f64_neg a \<noteq> f64_neg b then f64_nan else a)
      else if f64_is_infinite b then b
      else let s = f64_val a + f64_val b in
        if s = 0 then f64_of (f64_neg a \<and> f64_neg b) 0 else f64_round (s < 0) \<bar>s\<bar>)"

definition f64_mul :: "f64 \<Rightarrow> f64 \<Rightarrow> f64" where
  "f64_mul a b = (let neg = (f64_neg a \<noteq> f64_neg b) in
     if f64_is_nan a \<or> f64_is_nan b then f64_nan
     else if f64_is_infinite a \<or> f64_is_infinite b then (if f64_mag a = 0 \<or> f64_mag b = 0 then f64_nan else f64_of neg f64_inf_mag)
     else f64_round neg (f64_abs_val a * f64_abs_val b))"

text \<open>\<^verbatim>\<open>f64::min\<close> and \<^verbatim>\<open>f64::max\<close>: a number wins against no number; of two zeros the first is taken, which Rust leaves open.\<close>

definition f64_min :: "f64 \<Rightarrow> f64 \<Rightarrow> f64" where
  "f64_min a b = (if f64_is_nan a then b else if f64_is_nan b then a else if f64_less b a then b else a)"

definition f64_max :: "f64 \<Rightarrow> f64 \<Rightarrow> f64" where
  "f64_max a b = (if f64_is_nan a then b else if f64_is_nan b then a else if f64_less a b then b else a)"

section \<open>Reading\<close>

definition lower :: "bytes \<Rightarrow> bytes" where
  "lower = map (\<lambda>b. if 0x41 \<le> b \<and> b \<le> 0x5A then b + 0x20 else b)"

text \<open>\<^verbatim>\<open>Digit+ ('.' Digit* )? | '.' Digit+\<close>, then an optional exponent; \<open>pow10 k\<close> is the power of ten.\<close>

definition pow10 :: "int \<Rightarrow> rat" where
  "pow10 k = (if k \<ge> 0 then 10 ^ nat k else 1 / 10 ^ nat (- k))"

definition parse_exponent :: "bytes \<Rightarrow> int option" where
  "parse_exponent s = (case s of
     [] \<Rightarrow> Some 0
   | c # ds \<Rightarrow>
       if c \<noteq> 0x65 \<and> c \<noteq> 0x45 then None
       else (case ds of
           [] \<Rightarrow> None
         | g # gs \<Rightarrow>
             if g = 0x2D then map_option (\<lambda>n. - int n) (parse_digits gs)
             else if g = 0x2B then map_option int (parse_digits gs)
             else map_option int (parse_digits ds)))"

definition parse_number :: "bytes \<Rightarrow> rat option" where
  "parse_number s =
     (let ip = takeWhile is_digit s; rest = dropWhile is_digit s;
          (fp, rest) = (case rest of c # cs \<Rightarrow> if c = 0x2E then (takeWhile is_digit cs, dropWhile is_digit cs) else ([], rest) | [] \<Rightarrow> ([], [])) in
      if ip = [] \<and> fp = [] then None
      else map_option (\<lambda>e. of_nat (digits_val (ip @ fp)) * pow10 (e - int (length fp))) (parse_exponent rest))"

definition parse_f64 :: "bytes \<Rightarrow> f64 option" where
  "parse_f64 s =
     (let (neg, body) = (case s of c # cs \<Rightarrow> if c = 0x2D then (True, cs) else if c = 0x2B then (False, cs) else (False, s) | [] \<Rightarrow> (False, [])) in
      if lower body = asc ''inf'' \<or> lower body = asc ''infinity'' then Some (f64_of neg f64_inf_mag)
      else if lower body = asc ''nan'' then Some (f64_of neg (unat f64_nan))
      else map_option (f64_round neg) (parse_number body))"

section \<open>Printing\<close>

text \<open>\<^verbatim>\<open>format!("{:.17}", f)\<close>: the exact value rounded to 17 decimals, half to even.\<close>

definition pad_zeros :: "nat \<Rightarrow> bytes \<Rightarrow> bytes" where
  "pad_zeros n ds = replicate (n - length ds) 0x30 @ ds"

definition fixed17 :: "rat \<Rightarrow> bytes" where
  "fixed17 r = (let n = nat (round_even (r * 10 ^ 17)) in dec (n div 10 ^ 17) @ [0x2E] @ pad_zeros 17 (dec (n mod 10 ^ 17)))"

definition trim_end :: "u8 \<Rightarrow> bytes \<Rightarrow> bytes" where
  "trim_end c s = rev (dropWhile (\<lambda>b. b = c) (rev s))"

definition format_float :: "f64 \<Rightarrow> bytes" where
  "format_float b =
     (if f64_is_nan b then asc ''NaN''
      else let sign = (if f64_neg b then [0x2D] else []) in
        if f64_is_infinite b then sign @ asc ''inf''
        else trim_end 0x2E (trim_end 0x30 (sign @ fixed17 (f64_abs_val b))))"

end
