(* ===== verification/ZSet_Cmds.thy ===== *)
theory ZSet_Cmds
  imports Families Float64
begin

text \<open>
  The sorted set commands (\<^verbatim>\<open>command/zset.rs\<close>), as far as they do not wait: adding and changing scores, reading
  by rank, score and member, removing, popping, the operations on several sets and the cursor. The values they work on are
  those of \<open>ZSet_Data\<close>; the order of a \<^verbatim>\<open>HashMap\<close> of members is a parameter (\<open>env_zset_order\<close>).
\<close>

section \<open>Bounds\<close>

definition parse_score_bound :: "bytes \<Rightarrow> (f64 \<times> bool) result" where
  "parse_score_bound s =
     (let (body, excl) = (case s of
          c # cs \<Rightarrow> if c = 0x28 then (cs, True) else if c = 0x5B then (cs, False) else (s, False)
        | [] \<Rightarrow> (s, False)) in
      attempt_e (if body = asc ''+inf'' \<or> body = asc ''+INF'' then Inr (f64_of False f64_inf_mag)
         else if body = asc ''-inf'' \<or> body = asc ''-INF'' then Inr (f64_of True f64_inf_mag)
         else (case parse_f64 body of Some v \<Rightarrow> Inr v | None \<Rightarrow> Inl NotFloat)) (\<lambda>v.
      if f64_is_nan v then Inl NotFloat else Inr (v, excl)))"

definition score_arg :: "resp list \<Rightarrow> nat \<Rightarrow> bytes \<Rightarrow> (f64 \<times> bool) result" where
  "score_arg args i cmd = attempt_e (get_str args i cmd) parse_score_bound"

definition strip_exclusive :: "bytes \<Rightarrow> bytes" where
  "strip_exclusive s = (case s of c # cs \<Rightarrow> if c = 0x28 \<or> c = 0x5B then cs else s | [] \<Rightarrow> s)"

type_synonym lex_bounds = "bytes option \<times> bool \<times> bytes option \<times> bool"

definition starts_open :: "bytes \<Rightarrow> bool" where
  "starts_open s \<longleftrightarrow> (case s of c # _ \<Rightarrow> c = 0x28 | [] \<Rightarrow> False)"

definition parse_lex_bounds :: "bytes \<Rightarrow> bytes \<Rightarrow> lex_bounds" where
  "parse_lex_bounds min_s max_s =
     (if min_s = asc ''-'' then None else Some (strip_exclusive min_s), starts_open min_s,
      if max_s = asc ''+'' then None else Some (strip_exclusive max_s), starts_open max_s)"

text \<open>ZLEXCOUNT and ZRANGESTORE strip every leading bracket.\<close>

definition trim_brackets :: "bytes \<Rightarrow> bytes" where
  "trim_brackets = dropWhile (\<lambda>c. c = 0x5B \<or> c = 0x28)"

definition trimmed_lex_bounds :: "bytes \<Rightarrow> bytes \<Rightarrow> lex_bounds" where
  "trimmed_lex_bounds min_s max_s =
     (if min_s = asc ''-'' then None else Some (trim_brackets min_s), starts_open min_s,
      if max_s = asc ''+'' then None else Some (trim_brackets max_s), starts_open max_s)"

definition lex_members :: "env \<Rightarrow> lex_bounds \<Rightarrow> zset_data \<Rightarrow> bytes list" where
  "lex_members E lb z = (case lb of (lo, lx, hi, hx) \<Rightarrow> zsetdata_range_by_lex_members (env_zset_order E) z lo lx hi hx)"

section \<open>Replies\<close>

definition format_zrange_result :: "(bytes \<times> f64) list \<Rightarrow> bool \<Rightarrow> resp list" where
  "format_zrange_result entries withscores =
     concat (map (\<lambda>(m, s). resp_bulk m # (if withscores then [resp_bulk_str (format_float s)] else [])) entries)"

definition zset_to_array :: "zset_data \<Rightarrow> bool \<Rightarrow> resp" where
  "zset_to_array z withscores =
     resp_array (concat (map (\<lambda>(m, s). resp_bulk m # (if withscores then [resp_bulk_str (format_float s)] else []))
       (zsetdata_to_pairs_sorted z)))"

text \<open>A reply with the wish to wake the clients that wait for a sorted set, which is done after the lock is released.\<close>

definition wake_zset :: "(resp \<times> bool) handler \<Rightarrow> resp handler" where
  "wake_zset h s = map_option (\<lambda>(r, s). case r of
       Inl e \<Rightarrow> (Inl e, s)
     | Inr (v, w) \<Rightarrow> (Inr v, if w then notify_zset_waiters s else s)) (h s)"

section \<open>ZADD and ZINCRBY\<close>

record zadd_opts =
  za_nx :: bool
  za_xx :: bool
  za_gt :: bool
  za_lt :: bool
  za_ch :: bool
  za_incr :: bool

definition no_zadd_opts :: zadd_opts where
  "no_zadd_opts = \<lparr>za_nx = False, za_xx = False, za_gt = False, za_lt = False, za_ch = False, za_incr = False\<rparr>"

fun zadd_options :: "resp list \<Rightarrow> zadd_opts \<Rightarrow> (zadd_opts \<times> resp list) result" where
  "zadd_options [] op = Inr (op, [])"
| "zadd_options (a # rest) op = attempt_e (ok_or_arity (resp_as_str a) (asc ''ZADD'')) (\<lambda>w. let opt = to_uppercase w in
     if opt = asc ''NX'' then zadd_options rest (op\<lparr>za_nx := True\<rparr>)
     else if opt = asc ''XX'' then zadd_options rest (op\<lparr>za_xx := True\<rparr>)
     else if opt = asc ''GT'' then zadd_options rest (op\<lparr>za_gt := True\<rparr>)
     else if opt = asc ''LT'' then zadd_options rest (op\<lparr>za_lt := True\<rparr>)
     else if opt = asc ''CH'' then zadd_options rest (op\<lparr>za_ch := True\<rparr>)
     else if opt = asc ''INCR'' then zadd_options rest (op\<lparr>za_incr := True\<rparr>)
     else Inr (op, a # rest))"

text \<open>The increment of one member's score: the new score and the change of the payload.\<close>

definition zset_incr :: "env \<Rightarrow> bytes \<Rightarrow> f64 \<Rightarrow> zset_data \<Rightarrow> (f64 \<times> int \<times> zset_data) option" where
  "zset_incr E member delta z = do {
     let old = (case zsetdata_score z member of Some s \<Rightarrow> s | None \<Rightarrow> 0);
     let new_score = f64_add old delta;
     (added, z) \<leftarrow> zsetdata_insert (env_olt E) (env_zset E) z member new_score;
     Some (new_score, if added then int (length member) else 0, z)
   }"

definition zadd_skips :: "zadd_opts \<Rightarrow> f64 \<Rightarrow> f64 option \<Rightarrow> bool" where
  "zadd_skips op score existing \<longleftrightarrow>
     za_nx op \<and> existing \<noteq> None
     \<or> za_xx op \<and> existing = None
     \<or> za_gt op \<and> (case existing of Some old \<Rightarrow> f64_le score old | None \<Rightarrow> False)
     \<or> za_lt op \<and> (case existing of Some old \<Rightarrow> f64_le old score | None \<Rightarrow> False)"

text \<open>The loop over the pairs; the counters are the members added, the scores changed, and the bytes. An argument that is no
  score or no string returns early, with the pairs before it stored and the byte counter not adjusted.\<close>

fun zadd_loop :: "env \<Rightarrow> zadd_opts \<Rightarrow> resp list \<Rightarrow> zset_data \<Rightarrow> int \<times> int \<times> int \<Rightarrow> ((int \<times> int \<times> int) result \<times> zset_data) option" where
  "zadd_loop E op (a # b # rest) z (added, changed, delta) =
     (case attempt_e (ok_or_arity (resp_as_str a) (asc ''ZADD'')) parse_score_bound of
        Inl e \<Rightarrow> Some (Inl e, z)
      | Inr (score, _) \<Rightarrow> (case ok_or_arity (bulk_or_simple b) (asc ''ZADD'') of
          Inl e \<Rightarrow> Some (Inl e, z)
        | Inr member \<Rightarrow>
            if za_nx op \<or> za_xx op \<or> za_gt op \<or> za_lt op \<or> za_ch op then
              let existing = zsetdata_score z member in
              if zadd_skips op score existing then zadd_loop E op rest z (added, changed, delta)
              else do {
                (is_new, z) \<leftarrow> zsetdata_insert (env_olt E) (env_zset E) z member score;
                zadd_loop E op rest z (if is_new then (added + 1, changed, delta + int (length member))
                  else (added, if (case existing of Some old \<Rightarrow> \<not> f64_eq old score | None \<Rightarrow> False) then changed + 1 else changed, delta))
              }
            else do {
              (is_new, z) \<leftarrow> zsetdata_insert (env_olt E) (env_zset E) z member score;
              zadd_loop E op rest z (if is_new then (added + 1, changed, delta + int (length member)) else (added, changed, delta))
            }))"
| "zadd_loop E op _ z counts = Some (Inr counts, z)"

fun zadd_value :: "env \<Rightarrow> zadd_opts \<Rightarrow> resp list \<Rightarrow> data_type \<Rightarrow> ((resp \<times> bool) result \<times> data_type \<times> int \<times> bool) option" where
  "zadd_value E op vals (DZSet z) =
     (if za_incr op then
        (case attempt_e (score_arg vals 0 (asc ''ZADD'')) (\<lambda>(delta, _). attempt_e (get_bytes_vec vals 1 (asc ''ZADD'')) (\<lambda>m. Inr (delta, m))) of
           Inl e \<Rightarrow> Some (Inl e, DZSet z, 0, False)
         | Inr (delta, member) \<Rightarrow> do {
             (new_score, d, z) \<leftarrow> zset_incr E member delta z;
             Some (Inr (resp_bulk_str (format_float new_score), True), DZSet z, d, False)
           })
      else do {
        (r, z) \<leftarrow> zadd_loop E op vals z (0, 0, 0);
        Some (case r of
            Inl e \<Rightarrow> (Inl e, DZSet z, 0, False)
          | Inr (added, changed, delta) \<Rightarrow>
              (Inr (resp_int (if za_ch op then added + changed else added), added > 0 \<or> changed > 0), DZSet z, delta, False))
      })"
| "zadd_value E op vals v = Some (Inl WrongType, v, 0, False)"

definition zadd_check :: "zadd_opts \<Rightarrow> nat \<Rightarrow> unit result" where
  "zadd_check op n =
     (if za_nx op \<and> (za_gt op \<or> za_lt op \<or> za_incr op) then Inl SyntaxError
      else if za_gt op \<and> za_lt op then Inl SyntaxError
      else if za_incr op then
        (if n \<noteq> 2 then Inl (Generic (asc ''INCR option supports a single increment-element pair'')) else Inr ())
      else if n \<le> 1 \<or> odd n then Inl (WrongArity (asc ''zadd''))
      else Inr ())"

definition cmd_zadd :: "env \<Rightarrow> resp list \<Rightarrow> resp handler" where
  "cmd_zadd E args =
     (if length args < 4 then fail (WrongArity (asc ''zadd''))
      else attempt (get_bytes_vec args 1 (asc ''ZADD'')) (\<lambda>key.
        attempt (zadd_options (drop 2 args) no_zadd_opts) (\<lambda>(op, vals).
        attempt (zadd_check op (length vals)) (\<lambda>_.
        wake_zset (on_key key (\<lambda>d.
          let (absent, d) = (if za_xx op then (case db_get (env_now E) key d of (x, d) \<Rightarrow> (x = None, d)) else (False, d)) in
          if absent then Some (Inr (if za_incr op then resp_null else resp_int 0, False), d)
          else upsert (env_now E) key (DZSet zsetdata_new) (zadd_value E op vals) d))))))"

fun zincrby_value :: "env \<Rightarrow> f64 \<Rightarrow> bytes \<Rightarrow> data_type \<Rightarrow> ((resp \<times> bool) result \<times> data_type \<times> int \<times> bool) option" where
  "zincrby_value E delta member (DZSet z) = do {
     (new_score, d, z) \<leftarrow> zset_incr E member delta z;
     Some (Inr (resp_bulk_str (format_float new_score), True), DZSet z, d, False)
   }"
| "zincrby_value E delta member v = Some (Inl WrongType, v, 0, False)"

definition cmd_zincrby :: "env \<Rightarrow> resp list \<Rightarrow> resp handler" where
  "cmd_zincrby E args =
     (if length args \<noteq> 4 then fail (WrongArity (asc ''zincrby''))
      else attempt (get_bytes_vec args 1 (asc ''ZINCRBY'')) (\<lambda>key.
        attempt (score_arg args 2 (asc ''ZINCRBY'')) (\<lambda>(delta, _).
        attempt (get_bytes_vec args 3 (asc ''ZINCRBY'')) (\<lambda>member.
        wake_zset (on_key key (upsert (env_now E) key (DZSet zsetdata_new) (zincrby_value E delta member)))))))"

section \<open>Scores and ranks\<close>

fun zcard_value :: "data_type \<Rightarrow> resp result option" where
  "zcard_value (DZSet z) = Some (Inr (resp_int (int (zsetdata_len z))))"
| "zcard_value v = Some (Inl WrongType)"

definition cmd_zcard :: "env \<Rightarrow> resp list \<Rightarrow> resp handler" where
  "cmd_zcard E args =
     (if length args \<noteq> 2 then fail (WrongArity (asc ''zcard''))
      else attempt (get_bytes_vec args 1 (asc ''ZCARD'')) (\<lambda>key. view_ro E key (Inr (resp_int 0)) zcard_value))"

definition score_or_null :: "f64 option \<Rightarrow> resp" where
  "score_or_null x = (case x of Some s \<Rightarrow> resp_bulk_str (format_float s) | None \<Rightarrow> resp_null)"

fun zscore_value :: "bytes \<Rightarrow> data_type \<Rightarrow> resp result option" where
  "zscore_value member (DZSet z) = Some (Inr (score_or_null (zsetdata_score z member)))"
| "zscore_value member v = Some (Inl WrongType)"

definition cmd_zscore :: "env \<Rightarrow> resp list \<Rightarrow> resp handler" where
  "cmd_zscore E args =
     (if length args \<noteq> 3 then fail (WrongArity (asc ''zscore''))
      else attempt (get_bytes_vec args 1 (asc ''ZSCORE'')) (\<lambda>key.
        attempt (get_bytes_vec args 2 (asc ''ZSCORE'')) (\<lambda>member. view_ro E key (Inr resp_null) (zscore_value member))))"

text \<open>ZMSCORE replies nulls for a missing key and for a value of another type.\<close>

fun zmscore_value :: "resp list \<Rightarrow> data_type \<Rightarrow> resp result option" where
  "zmscore_value vals (DZSet z) = Some (Inr (resp_array (map (\<lambda>a. case bulk_or_simple a of
       None \<Rightarrow> resp_null
     | Some member \<Rightarrow> score_or_null (zsetdata_score z member)) vals)))"
| "zmscore_value vals v = Some (Inr (resp_array (map (\<lambda>_. resp_null) vals)))"

definition cmd_zmscore :: "env \<Rightarrow> resp list \<Rightarrow> resp handler" where
  "cmd_zmscore E args =
     (if length args < 3 then fail (WrongArity (asc ''zmscore''))
      else attempt (get_bytes_vec args 1 (asc ''ZMSCORE'')) (\<lambda>key.
        view_ro E key (Inr (resp_array (map (\<lambda>_. resp_null) (drop 2 args)))) (zmscore_value (drop 2 args))))"

fun zrank_value :: "bytes \<Rightarrow> bool \<Rightarrow> data_type \<Rightarrow> resp result option" where
  "zrank_value member rv (DZSet z) = map_option (\<lambda>x. Inr (case x of Some n \<Rightarrow> resp_int (int n) | None \<Rightarrow> resp_null)) (zsetdata_rank z member rv)"
| "zrank_value member rv v = Some (Inl WrongType)"

definition zset_rank :: "env \<Rightarrow> resp list \<Rightarrow> bool \<Rightarrow> bytes \<Rightarrow> resp handler" where
  "zset_rank E args rv cmd =
     (if length args < 3 then fail (WrongArity cmd)
      else attempt (get_bytes_vec args 1 cmd) (\<lambda>key.
        attempt (get_bytes_vec args 2 cmd) (\<lambda>member. view_ro E key (Inr resp_null) (zrank_value member rv))))"

definition cmd_zrank :: "env \<Rightarrow> resp list \<Rightarrow> resp handler" where
  "cmd_zrank E args = zset_rank E args False (asc ''ZRANK'')"

definition cmd_zrevrank :: "env \<Rightarrow> resp list \<Rightarrow> resp handler" where
  "cmd_zrevrank E args = zset_rank E args True (asc ''ZREVRANK'')"

section \<open>Ranges\<close>

datatype zrange_kind = ByRank | ByScore | ByLex

record zrange_opts =
  zr_withscores :: bool
  zr_rev :: bool
  zr_kind :: "zrange_kind option"
  zr_limit :: "nat \<times> nat option"

definition no_zrange_opts :: zrange_opts where
  "no_zrange_opts = \<lparr>zr_withscores = False, zr_rev = False, zr_kind = None, zr_limit = (0, None)\<rparr>"

definition limit_args :: "resp list \<Rightarrow> bytes \<Rightarrow> (nat \<times> nat option) result" where
  "limit_args rest cmd = attempt_e (get_i64 rest 0 cmd) (\<lambda>off. attempt_e (get_i64 rest 1 cmd) (\<lambda>cnt.
     if off < 0 \<or> cnt < 0 then Inl (Generic (asc ''LIMIT can'' @ [0x27] @ asc ''t be negative'')) else Inr (nat off, Some (nat cnt))))"

function zrange_options :: "resp list \<Rightarrow> zrange_opts \<Rightarrow> zrange_opts result" where
  "zrange_options [] op = Inr op"
| "zrange_options (a # rest) op = attempt_e (ok_or_arity (resp_as_str a) (asc ''ZRANGE'')) (\<lambda>w. let opt = to_uppercase w in
     if opt = asc ''WITHSCORES'' then zrange_options rest (op\<lparr>zr_withscores := True\<rparr>)
     else if opt = asc ''REV'' then zrange_options rest (op\<lparr>zr_rev := True\<rparr>)
     else if opt = asc ''BYSCORE'' then zrange_options rest (op\<lparr>zr_kind := Some ByScore\<rparr>)
     else if opt = asc ''BYLEX'' then zrange_options rest (op\<lparr>zr_kind := Some ByLex\<rparr>)
     else if opt = asc ''LIMIT'' then attempt_e (limit_args rest (asc ''ZRANGE'')) (\<lambda>lm. zrange_options (drop 2 rest) (op\<lparr>zr_limit := lm\<rparr>))
     else Inl SyntaxError)"
  by pat_completeness auto
termination by (relation "measure (\<lambda>(as, _). length as)") auto

text \<open>Without an option, a bound that is a plus or a minus sign makes it a range of scores if both are numbers, else of members.\<close>

definition zrange_kind_of :: "zrange_kind option \<Rightarrow> bytes \<Rightarrow> bytes \<Rightarrow> zrange_kind" where
  "zrange_kind_of k fst_s snd_s = (case k of
     Some k \<Rightarrow> k
   | None \<Rightarrow>
       if fst_s = asc ''+'' \<or> fst_s = asc ''-'' \<or> snd_s = asc ''+'' \<or> snd_s = asc ''-''
       then (if parse_f64 (strip_exclusive fst_s) \<noteq> None \<and> parse_f64 (strip_exclusive snd_s) \<noteq> None then ByScore else ByLex)
       else ByRank)"

definition page_of :: "nat \<times> nat option \<Rightarrow> 'a list \<Rightarrow> 'a list" where
  "page_of lm xs = (case snd lm of Some n \<Rightarrow> take n (drop (fst lm) xs) | None \<Rightarrow> drop (fst lm) xs)"

text \<open>In a range of members the score comes before its member.\<close>

definition lex_replies :: "env \<Rightarrow> zset_data \<Rightarrow> bool \<Rightarrow> bytes list \<Rightarrow> resp list" where
  "lex_replies E z withscores ms = concat (map (\<lambda>m.
     (if withscores then [resp_bulk_str (format_float (case zsetdata_score z m of Some s \<Rightarrow> s | None \<Rightarrow> 0))] else []) @ [resp_bulk m]) ms)"

definition rank_bound :: "bytes \<Rightarrow> int result" where
  "rank_bound s = (case parse_i64 s of Some n \<Rightarrow> Inr n | None \<Rightarrow> Inl NotInteger)"

fun zrange_value :: "env \<Rightarrow> zrange_opts \<Rightarrow> zrange_kind \<Rightarrow> bytes \<Rightarrow> bytes \<Rightarrow> data_type \<Rightarrow> resp result option" where
  "zrange_value E op ByRank fst_s snd_s (DZSet z) =
     (case attempt_e (rank_bound fst_s) (\<lambda>start. attempt_e (rank_bound snd_s) (\<lambda>stop. Inr (start, stop))) of
        Inl e \<Rightarrow> Some (Inl e)
      | Inr (start, stop) \<Rightarrow>
          map_option (\<lambda>es. Inr (resp_array (format_zrange_result es (zr_withscores op)))) (zsetdata_range_by_rank z start stop (zr_rev op)))"
| "zrange_value E op ByScore fst_s snd_s (DZSet z) =
     Some (attempt_e (parse_score_bound fst_s) (\<lambda>(mn, min_excl). attempt_e (parse_score_bound snd_s) (\<lambda>(mx, max_excl).
       Inr (resp_array (format_zrange_result
         (zsetdata_range_by_score z mn min_excl mx max_excl (zr_rev op) (fst (zr_limit op)) (snd (zr_limit op))) (zr_withscores op))))))"
| "zrange_value E op ByLex fst_s snd_s (DZSet z) =
     (let members = lex_members E (parse_lex_bounds fst_s snd_s) z;
          members = (if zr_rev op then rev members else members)
      in Some (Inr (resp_array (lex_replies E z (zr_withscores op) (page_of (zr_limit op) members)))))"
| "zrange_value E op k fst_s snd_s v = Some (Inl WrongType)"

definition cmd_zrange :: "env \<Rightarrow> resp list \<Rightarrow> resp handler" where
  "cmd_zrange E args =
     (if length args < 4 then fail (WrongArity (asc ''zrange''))
      else attempt (get_bytes_vec args 1 (asc ''ZRANGE'')) (\<lambda>key.
        attempt (get_str args 2 (asc ''ZRANGE'')) (\<lambda>fst_s.
        attempt (get_str args 3 (asc ''ZRANGE'')) (\<lambda>snd_s.
        attempt (zrange_options (drop 4 args) no_zrange_opts) (\<lambda>op.
        let kind = zrange_kind_of (zr_kind op) fst_s snd_s in
        if kind = ByRank \<and> snd (zr_limit op) \<noteq> None
        then fail (Generic (asc ''syntax error, LIMIT is only supported in combination with either BYSCORE or BYLEX''))
        else view_ro E key (Inr (resp_array [])) (zrange_value E op kind fst_s snd_s))))))"

fun zrevrange_value :: "int \<Rightarrow> int \<Rightarrow> bool \<Rightarrow> data_type \<Rightarrow> resp result option" where
  "zrevrange_value start stop withscores (DZSet z) =
     map_option (\<lambda>es. Inr (resp_array (format_zrange_result es withscores))) (zsetdata_range_by_rank z start stop True)"
| "zrevrange_value start stop withscores v = Some (Inl WrongType)"

definition cmd_zrevrange :: "env \<Rightarrow> resp list \<Rightarrow> resp handler" where
  "cmd_zrevrange E args =
     (if length args < 4 then fail (WrongArity (asc ''zrevrange''))
      else attempt (get_bytes_vec args 1 (asc ''ZREVRANGE'')) (\<lambda>key.
        attempt (get_i64 args 2 (asc ''ZREVRANGE'')) (\<lambda>start.
        attempt (get_i64 args 3 (asc ''ZREVRANGE'')) (\<lambda>stop.
        let withscores = (case arg args 4 resp_as_str of Some w \<Rightarrow> eq_ignore_ascii_case w (asc ''WITHSCORES'') | None \<Rightarrow> False) in
        view_ro E key (Inr (resp_array [])) (zrevrange_value start stop withscores)))))"

function score_range_options :: "bytes \<Rightarrow> resp list \<Rightarrow> bool \<times> nat \<times> nat option \<Rightarrow> (bool \<times> nat \<times> nat option) result" where
  "score_range_options cmd [] op = Inr op"
| "score_range_options cmd (a # rest) op = attempt_e (ok_or_arity (resp_as_str a) cmd) (\<lambda>w. let opt = to_uppercase w in
     if opt = asc ''WITHSCORES'' then score_range_options cmd rest (True, snd op)
     else if opt = asc ''LIMIT'' then attempt_e (limit_args rest cmd) (\<lambda>lm. score_range_options cmd (drop 2 rest) (fst op, lm))
     else Inl SyntaxError)"
  by pat_completeness auto
termination by (relation "measure (\<lambda>(_, as, _). length as)") auto

fun score_range_value :: "f64 \<times> bool \<Rightarrow> f64 \<times> bool \<Rightarrow> bool \<Rightarrow> bool \<times> nat \<times> nat option \<Rightarrow> data_type \<Rightarrow> resp result option" where
  "score_range_value lo hi rv op (DZSet z) =
     Some (Inr (resp_array (format_zrange_result
       (zsetdata_range_by_score z (fst lo) (snd lo) (fst hi) (snd hi) rv (fst (snd op)) (snd (snd op))) (fst op))))"
| "score_range_value lo hi rv op v = Some (Inl WrongType)"

definition range_by_score :: "env \<Rightarrow> resp list \<Rightarrow> bool \<Rightarrow> bytes \<Rightarrow> resp handler" where
  "range_by_score E args rv cmd =
     (if length args < 4 then fail (WrongArity cmd)
      else attempt (get_bytes_vec args 1 cmd) (\<lambda>key.
        attempt (get_str args (if rv then 3 else 2) cmd) (\<lambda>min_s.
        attempt (get_str args (if rv then 2 else 3) cmd) (\<lambda>max_s.
        attempt (parse_score_bound min_s) (\<lambda>lo.
        attempt (parse_score_bound max_s) (\<lambda>hi.
        attempt (score_range_options cmd (drop 4 args) (False, 0, None)) (\<lambda>op.
        view_ro E key (Inr (resp_array [])) (score_range_value lo hi rv op))))))))"

definition cmd_zrangebyscore :: "env \<Rightarrow> resp list \<Rightarrow> resp handler" where
  "cmd_zrangebyscore E args = range_by_score E args False (asc ''ZRANGEBYSCORE'')"

definition cmd_zrevrangebyscore :: "env \<Rightarrow> resp list \<Rightarrow> resp handler" where
  "cmd_zrevrangebyscore E args = range_by_score E args True (asc ''ZREVRANGEBYSCORE'')"

fun zrangebylex_value :: "env \<Rightarrow> lex_bounds \<Rightarrow> data_type \<Rightarrow> resp result option" where
  "zrangebylex_value E lb (DZSet z) = Some (Inr (resp_array (map resp_bulk (lex_members E lb z))))"
| "zrangebylex_value E lb v = Some (Inl WrongType)"

definition cmd_zrangebylex :: "env \<Rightarrow> resp list \<Rightarrow> resp handler" where
  "cmd_zrangebylex E args =
     (if length args < 4 then fail (WrongArity (asc ''zrangebylex''))
      else attempt (get_bytes_vec args 1 (asc ''ZRANGEBYLEX'')) (\<lambda>key.
        attempt (get_str args 2 (asc ''ZRANGEBYLEX'')) (\<lambda>min_s.
        attempt (get_str args 3 (asc ''ZRANGEBYLEX'')) (\<lambda>max_s.
        view_ro E key (Inr (resp_array [])) (zrangebylex_value E (parse_lex_bounds min_s max_s))))))"

fun zcount_value :: "f64 \<times> bool \<Rightarrow> f64 \<times> bool \<Rightarrow> data_type \<Rightarrow> resp result option" where
  "zcount_value lo hi (DZSet z) =
     Some (Inr (resp_int (int (length (zsetdata_range_by_score z (fst lo) (snd lo) (fst hi) (snd hi) False 0 None)))))"
| "zcount_value lo hi v = Some (Inl WrongType)"

definition cmd_zcount :: "env \<Rightarrow> resp list \<Rightarrow> resp handler" where
  "cmd_zcount E args =
     (if length args \<noteq> 4 then fail (WrongArity (asc ''zcount''))
      else attempt (get_bytes_vec args 1 (asc ''ZCOUNT'')) (\<lambda>key.
        attempt (score_arg args 2 (asc ''ZCOUNT'')) (\<lambda>lo.
        attempt (score_arg args 3 (asc ''ZCOUNT'')) (\<lambda>hi.
        view_ro E key (Inr (resp_int 0)) (zcount_value lo hi)))))"

fun zlexcount_value :: "env \<Rightarrow> lex_bounds \<Rightarrow> data_type \<Rightarrow> resp result option" where
  "zlexcount_value E lb (DZSet z) = Some (Inr (resp_int (int (length (lex_members E lb z)))))"
| "zlexcount_value E lb v = Some (Inl WrongType)"

definition cmd_zlexcount :: "env \<Rightarrow> resp list \<Rightarrow> resp handler" where
  "cmd_zlexcount E args =
     (if length args \<noteq> 4 then fail (WrongArity (asc ''zlexcount''))
      else attempt (get_bytes_vec args 1 (asc ''ZLEXCOUNT'')) (\<lambda>key.
        attempt (get_str args 2 (asc ''ZLEXCOUNT'')) (\<lambda>min_s.
        attempt (get_str args 3 (asc ''ZLEXCOUNT'')) (\<lambda>max_s.
        view_ro E key (Inr (resp_int 0)) (zlexcount_value E (trimmed_lex_bounds min_s max_s))))))"

section \<open>Removing and popping\<close>

fun zrem_loop :: "env \<Rightarrow> bytes list \<Rightarrow> zset_data \<Rightarrow> int \<Rightarrow> int \<Rightarrow> (int \<times> int \<times> zset_data) option" where
  "zrem_loop E [] z removed delta = Some (removed, delta, z)"
| "zrem_loop E (m # ms) z removed delta = do {
     (x, z) \<leftarrow> zsetdata_remove (env_olt E) (env_zset E) z m;
     if x \<noteq> None then zrem_loop E ms z (removed + 1) (delta - int (length m)) else zrem_loop E ms z removed delta
   }"

fun zrem_value :: "env \<Rightarrow> resp list \<Rightarrow> data_type \<Rightarrow> (resp result \<times> data_type \<times> int \<times> bool) option" where
  "zrem_value E vals (DZSet z) = do {
     (removed, delta, z) \<leftarrow> zrem_loop E (List.map_filter bulk_or_simple vals) z 0 0;
     Some (Inr (resp_int removed), DZSet z, delta, zsetdata_is_empty z)
   }"
| "zrem_value E vals v = Some (Inl WrongType, v, 0, False)"

definition cmd_zrem :: "env \<Rightarrow> resp list \<Rightarrow> resp handler" where
  "cmd_zrem E args =
     (if length args < 3 then fail (WrongArity (asc ''zrem''))
      else attempt (get_bytes_vec args 1 (asc ''ZREM'')) (\<lambda>key.
        on_key key (edit_live (env_now E) key (Inr (resp_int 0)) (zrem_value E (drop 2 args)))))"

text \<open>The members found are removed one by one; their number is the reply.\<close>

fun remove_found :: "env \<Rightarrow> bytes list \<Rightarrow> zset_data \<Rightarrow> int \<Rightarrow> (int \<times> zset_data) option" where
  "remove_found E [] z delta = Some (delta, z)"
| "remove_found E (m # ms) z delta = do {
     (_, z) \<leftarrow> zsetdata_remove (env_olt E) (env_zset E) z m;
     remove_found E ms z (delta - int (length m))
   }"

definition remove_entries :: "env \<Rightarrow> (bytes \<times> f64) list \<Rightarrow> zset_data \<Rightarrow> (resp result \<times> data_type \<times> int \<times> bool) option" where
  "remove_entries E es z = do {
     (delta, z) \<leftarrow> remove_found E (map fst es) z 0;
     Some (Inr (resp_int (int (length es))), DZSet z, delta, zsetdata_is_empty z)
   }"

fun zremrangebyrank_value :: "env \<Rightarrow> int \<Rightarrow> int \<Rightarrow> data_type \<Rightarrow> (resp result \<times> data_type \<times> int \<times> bool) option" where
  "zremrangebyrank_value E start stop (DZSet z) = do { es \<leftarrow> zsetdata_range_by_rank z start stop False; remove_entries E es z }"
| "zremrangebyrank_value E start stop v = Some (Inl WrongType, v, 0, False)"

definition cmd_zremrangebyrank :: "env \<Rightarrow> resp list \<Rightarrow> resp handler" where
  "cmd_zremrangebyrank E args =
     (if length args \<noteq> 4 then fail (WrongArity (asc ''zremrangebyrank''))
      else attempt (get_bytes_vec args 1 (asc ''ZREMRANGEBYRANK'')) (\<lambda>key.
        attempt (get_i64 args 2 (asc ''ZREMRANGEBYRANK'')) (\<lambda>start.
        attempt (get_i64 args 3 (asc ''ZREMRANGEBYRANK'')) (\<lambda>stop.
        on_key key (edit_live (env_now E) key (Inr (resp_int 0)) (zremrangebyrank_value E start stop))))))"

fun zremrangebyscore_value :: "env \<Rightarrow> f64 \<times> bool \<Rightarrow> f64 \<times> bool \<Rightarrow> data_type \<Rightarrow> (resp result \<times> data_type \<times> int \<times> bool) option" where
  "zremrangebyscore_value E lo hi (DZSet z) =
     remove_entries E (zsetdata_range_by_score z (fst lo) (snd lo) (fst hi) (snd hi) False 0 None) z"
| "zremrangebyscore_value E lo hi v = Some (Inl WrongType, v, 0, False)"

definition cmd_zremrangebyscore :: "env \<Rightarrow> resp list \<Rightarrow> resp handler" where
  "cmd_zremrangebyscore E args =
     (if length args \<noteq> 4 then fail (WrongArity (asc ''zremrangebyscore''))
      else attempt (get_bytes_vec args 1 (asc ''ZREMRANGEBYSCORE'')) (\<lambda>key.
        attempt (score_arg args 2 (asc ''ZREMRANGEBYSCORE'')) (\<lambda>lo.
        attempt (score_arg args 3 (asc ''ZREMRANGEBYSCORE'')) (\<lambda>hi.
        on_key key (edit_live (env_now E) key (Inr (resp_int 0)) (zremrangebyscore_value E lo hi))))))"

fun zpop_loop :: "env \<Rightarrow> bool \<Rightarrow> nat \<Rightarrow> zset_data \<Rightarrow> (bytes \<times> f64) list \<Rightarrow> int \<Rightarrow> ((bytes \<times> f64) list \<times> int \<times> zset_data) option" where
  "zpop_loop E mx 0 z popped delta = Some (popped, delta, z)"
| "zpop_loop E mx (Suc n) z popped delta = do {
     (x, z) \<leftarrow> zsetdata_pop_extreme (env_olt E) (env_zset E) z mx;
     (case x of
        Some (score, member) \<Rightarrow> zpop_loop E mx n z (popped @ [(member, score)]) (delta - int (length member))
      | None \<Rightarrow> Some (popped, delta, z))
   }"

fun zpop_value :: "env \<Rightarrow> bool \<Rightarrow> nat \<Rightarrow> data_type \<Rightarrow> (resp result \<times> data_type \<times> int \<times> bool) option" where
  "zpop_value E mx n (DZSet z) = do {
     (popped, delta, z) \<leftarrow> zpop_loop E mx n z [] 0;
     Some (Inr (resp_array (format_zrange_result popped True)), DZSet z, delta, zsetdata_is_empty z)
   }"
| "zpop_value E mx n v = Some (Inl WrongType, v, 0, False)"

definition zpop :: "env \<Rightarrow> resp list \<Rightarrow> bool \<Rightarrow> bytes \<Rightarrow> resp handler" where
  "zpop E args mx cmd =
     (if length args < 2 then fail (WrongArity cmd)
      else attempt (get_bytes_vec args 1 cmd) (\<lambda>key.
        attempt (if length args \<ge> 3
          then attempt_e (get_i64 args 2 cmd) (\<lambda>n. if n < 0 then Inl (Generic (asc ''value is not an integer or out of range'')) else Inr (nat n))
          else Inr 1) (\<lambda>n.
        on_key key (edit_live (env_now E) key (Inr (resp_array [])) (zpop_value E mx n)))))"

definition cmd_zpopmin :: "env \<Rightarrow> resp list \<Rightarrow> resp handler" where
  "cmd_zpopmin E args = zpop E args False (asc ''ZPOPMIN'')"

definition cmd_zpopmax :: "env \<Rightarrow> resp list \<Rightarrow> resp handler" where
  "cmd_zpopmax E args = zpop E args True (asc ''ZPOPMAX'')"

end
