(* ===== verification/ZSet_Combine.thy ===== *)
theory ZSet_Combine
  imports ZSet_Cmds Set_Cmds
begin

text \<open>
  The sorted set commands over several keys (\<^verbatim>\<open>command/zset.rs\<close>): union, intersection and difference with weights and
  an aggregate, ZMPOP, ZINTERCARD, ZRANGESTORE; and ZRANDMEMBER and ZSCAN.
\<close>

section \<open>Random members and the cursor\<close>

definition zrandmember_args :: "resp list \<Rightarrow> (int option \<times> bool) result" where
  "zrandmember_args args =
     (let cmd = asc ''ZRANDMEMBER'' in
      attempt_e (if 2 < length args then (case get_str args 2 cmd of
            Inl _ \<Rightarrow> Inr (None, 2)
          | Inr s \<Rightarrow>
              if eq_ignore_ascii_case s (asc ''WITHSCORES'') then Inl SyntaxError
              else (case parse_i64 s of Some n \<Rightarrow> Inr (Some n, 3) | None \<Rightarrow> Inl NotInteger))
        else Inr (None, 2)) (\<lambda>(cnt, i).
      attempt_e (if i < length args then attempt_e (get_str args i cmd) (\<lambda>w.
            if eq_ignore_ascii_case w (asc ''WITHSCORES'') then Inr (True, i + 1) else Inl SyntaxError)
        else Inr (False, i)) (\<lambda>(withscores, i).
      if i \<noteq> length args then Inl SyntaxError else Inr (cnt, withscores))))"

text \<open>Without a count the reply is one member; WITHSCORES needs a count.\<close>

fun zrandmember_value :: "env \<Rightarrow> int option \<Rightarrow> bool \<Rightarrow> data_type \<Rightarrow> resp result option" where
  "zrandmember_value E cnt withscores (DZSet z) =
     (let pairs = zsetdata_to_pairs (env_zset_order E) z in
      if pairs = [] then Some (Inr (if cnt \<noteq> None then resp_array [] else resp_null))
      else (case cnt of
          None \<Rightarrow> do {
            (m, s) \<leftarrow> index pairs (pseudo_rand_idx (env_nanos E 0) (length pairs));
            Some (Inr (if withscores then resp_array [resp_bulk m, resp_bulk_str (format_float s)] else resp_bulk m))
          }
        | Some n \<Rightarrow>
            if n < 0 then map_option (\<lambda>ps. Inr (resp_array (format_zrange_result ps withscores)))
              (those (map (\<lambda>i. index pairs (pseudo_rand_idx (env_nanos E i) (length pairs))) [0..<min (nat (- n)) MAX_RANDOM_SAMPLE]))
            else Some (Inr (resp_array (format_zrange_result (take (nat n) pairs) withscores)))))"
| "zrandmember_value E cnt withscores v = Some (Inl WrongType)"

definition cmd_zrandmember :: "env \<Rightarrow> resp list \<Rightarrow> resp handler" where
  "cmd_zrandmember E args =
     (if length args < 2 then fail (WrongArity (asc ''zrandmember''))
      else attempt (get_bytes_vec args 1 (asc ''ZRANDMEMBER'')) (\<lambda>key.
        attempt (zrandmember_args args) (\<lambda>(cnt, withscores).
        view_ro E key (Inr (if cnt \<noteq> None then resp_array [] else resp_null)) (zrandmember_value E cnt withscores))))"

fun zscan_value :: "env \<Rightarrow> u64 option \<Rightarrow> bytes option \<times> nat \<Rightarrow> data_type \<Rightarrow> resp result option" where
  "zscan_value E cursor op (DZSet z) =
     (let (items, next_cursor) = scan_select_page
        (filter (\<lambda>(m, _). glob_match (scan_pattern (fst op)) m) (zsetdata_to_pairs (env_zset_order E) z)) cursor (snd op) fst in
      Some (Inr (resp_array [resp_bulk_str (dec_int (int (unat next_cursor))), resp_array (format_zrange_result items True)])))"
| "zscan_value E cursor op v = Some (Inl WrongType)"

definition cmd_zscan :: "env \<Rightarrow> resp list \<Rightarrow> resp handler" where
  "cmd_zscan E args =
     (if length args < 3 then fail (WrongArity (asc ''zscan''))
      else attempt (get_bytes_vec args 1 (asc ''ZSCAN'')) (\<lambda>key.
        attempt (scan_options (asc ''ZSCAN'') (drop 3 args) (None, 10)) (\<lambda>op.
        view_ro E key (Inr scan_empty_reply) (zscan_value E (scan_cursor_arg args 2 (asc ''ZSCAN'')) op))))"

section \<open>Weights and aggregates\<close>

datatype aggregate = AggSum | AggMin | AggMax

definition f64_one :: f64 where "f64_one = 0x3FF0000000000000"

definition apply_aggregate :: "aggregate \<Rightarrow> f64 option \<Rightarrow> f64 \<Rightarrow> f64" where
  "apply_aggregate agg existing new = (case existing of
     None \<Rightarrow> new
   | Some e \<Rightarrow> (case agg of AggSum \<Rightarrow> f64_add e new | AggMin \<Rightarrow> f64_min e new | AggMax \<Rightarrow> f64_max e new))"

fun weights_from :: "bytes \<Rightarrow> nat \<Rightarrow> resp list \<Rightarrow> f64 list result" where
  "weights_from cmd 0 args = Inr []"
| "weights_from cmd (Suc n) args =
     attempt_e (score_arg args 0 cmd) (\<lambda>(v, _). attempt_e (weights_from cmd n (drop 1 args)) (\<lambda>ws. Inr (v # ws)))"

definition parse_aggregate :: "bytes \<Rightarrow> aggregate result" where
  "parse_aggregate w = (let name = to_uppercase w in
     if name = asc ''SUM'' then Inr AggSum else if name = asc ''MIN'' then Inr AggMin
     else if name = asc ''MAX'' then Inr AggMax else Inl SyntaxError)"

text \<open>The options after the keys; \<open>ws_ok\<close> tells whether WITHSCORES is one of them.\<close>

function weights_agg_loop :: "bool \<Rightarrow> bytes \<Rightarrow> nat \<Rightarrow> resp list \<Rightarrow> f64 list \<times> aggregate \<times> bool \<Rightarrow> (f64 list \<times> aggregate \<times> bool) result" where
  "weights_agg_loop ws_ok cmd n [] op = Inr op"
| "weights_agg_loop ws_ok cmd n (a # rest) op = attempt_e (ok_or_arity (resp_as_str a) cmd) (\<lambda>w. let opt = to_uppercase w in
     if opt = asc ''WEIGHTS'' then attempt_e (weights_from cmd n rest) (\<lambda>ws. weights_agg_loop ws_ok cmd n (drop n rest) (ws, snd op))
     else if opt = asc ''AGGREGATE'' then attempt_e (attempt_e (get_str rest 0 cmd) parse_aggregate) (\<lambda>agg.
       weights_agg_loop ws_ok cmd n (drop 1 rest) (fst op, agg, snd (snd op)))
     else if ws_ok \<and> opt = asc ''WITHSCORES'' then weights_agg_loop ws_ok cmd n rest (fst op, fst (snd op), True)
     else Inl SyntaxError)"
  by pat_completeness auto
termination by (relation "measure (\<lambda>(_, _, _, as, _). length as)") auto

definition parse_weights_agg_withscores :: "resp list \<Rightarrow> nat \<Rightarrow> bytes \<Rightarrow> (f64 list \<times> aggregate \<times> bool) result" where
  "parse_weights_agg_withscores rest n cmd = weights_agg_loop True cmd n rest (replicate n f64_one, AggSum, False)"

definition parse_aggregate_weights :: "resp list \<Rightarrow> nat \<Rightarrow> bytes \<Rightarrow> (f64 list \<times> aggregate) result" where
  "parse_aggregate_weights rest n cmd =
     attempt_e (weights_agg_loop False cmd n rest (replicate n f64_one, AggSum, False)) (\<lambda>(ws, agg, _). Inr (ws, agg))"

definition parse_numkeys_for_set_op :: "resp list \<Rightarrow> nat \<Rightarrow> bytes \<Rightarrow> nat result" where
  "parse_numkeys_for_set_op args i cmd = attempt_e (get_i64 args i cmd) (\<lambda>n.
     if n \<le> 0 then Inl (Generic (asc ''ERR at least 1 input key is needed for '' @ cmd)) else Inr (nat n))"

text \<open>The keys at the positions from \<open>i\<close> on; the first that is missing or no string is the error.\<close>

definition keys_at :: "resp list \<Rightarrow> nat \<Rightarrow> nat \<Rightarrow> bytes \<Rightarrow> bytes list result" where
  "keys_at args i n cmd = attempt_e (keys_from (take n (drop i args)) cmd) (\<lambda>ks.
     if length args < i + n then Inl (WrongArity (to_lowercase cmd)) else Inr ks)"

section \<open>Union, intersection and difference\<close>

text \<open>An operand that is missing or of another type counts as empty in a union.\<close>

fun zset_or_none :: "data_type \<Rightarrow> zset_data option result option" where
  "zset_or_none (DZSet z) = Some (Inr (Some z))"
| "zset_or_none v = Some (Inr None)"

fun zset_or_wrong :: "data_type \<Rightarrow> zset_data option result option" where
  "zset_or_wrong (DZSet z) = Some (Inr (Some z))"
| "zset_or_wrong v = Some (Inl WrongType)"

fun union_pairs :: "env \<Rightarrow> aggregate \<Rightarrow> f64 \<Rightarrow> (bytes \<times> f64) list \<Rightarrow> zset_data \<Rightarrow> zset_data option" where
  "union_pairs E agg weight [] result = Some result"
| "union_pairs E agg weight ((member, score) # ps) result = do {
     let new_score = apply_aggregate agg (zsetdata_score result member) (f64_mul score weight);
     (_, result) \<leftarrow> zsetdata_insert (env_olt E) (env_zset E) result member new_score;
     union_pairs E agg weight ps result
   }"

fun zunion_loop :: "env \<Rightarrow> aggregate \<Rightarrow> bytes list \<Rightarrow> f64 list \<Rightarrow> zset_data \<Rightarrow> zset_data handler" where
  "zunion_loop E agg [] ws result s = reply result s"
| "zunion_loop E agg (key # keys) ws result s = do {
     (r, s) \<leftarrow> view_rw E key (Inr None) zset_or_none s;
     case r of
       Inr (Some z) \<Rightarrow> do {
         result \<leftarrow> union_pairs E agg (case ws of w # _ \<Rightarrow> w | [] \<Rightarrow> f64_one) (zsetdata_to_pairs (env_zset_order E) z) result;
         zunion_loop E agg keys (drop 1 ws) result s
       }
     | _ \<Rightarrow> zunion_loop E agg keys (drop 1 ws) result s
   }"

definition compute_zunion_result :: "env \<Rightarrow> bytes list \<Rightarrow> f64 list \<Rightarrow> aggregate \<Rightarrow> zset_data handler" where
  "compute_zunion_result E keys ws agg = zunion_loop E agg keys ws zsetdata_new"

text \<open>The intersection ends at the first operand that is missing.\<close>

fun zinter_sets :: "env \<Rightarrow> bytes list \<Rightarrow> zset_data list \<Rightarrow> zset_data list option handler" where
  "zinter_sets E [] Zs s = reply (Some Zs) s"
| "zinter_sets E (key # keys) Zs s = do {
     (r, s) \<leftarrow> view_rw E key (Inr None) zset_or_wrong s;
     case r of
       Inl e \<Rightarrow> fail e s
     | Inr None \<Rightarrow> reply None s
     | Inr (Some z) \<Rightarrow> zinter_sets E keys (Zs @ [z]) s
   }"

fun inter_score :: "aggregate \<Rightarrow> bytes \<Rightarrow> (zset_data \<times> f64) list \<Rightarrow> f64 \<Rightarrow> f64 option" where
  "inter_score agg member [] acc = Some acc"
| "inter_score agg member ((z, w) # others) acc = (case zsetdata_score z member of
     Some s \<Rightarrow> inter_score agg member others (apply_aggregate agg (Some acc) (f64_mul s w))
   | None \<Rightarrow> None)"

fun inter_pairs :: "env \<Rightarrow> aggregate \<Rightarrow> f64 \<Rightarrow> (zset_data \<times> f64) list \<Rightarrow> (bytes \<times> f64) list \<Rightarrow> zset_data \<Rightarrow> zset_data option" where
  "inter_pairs E agg weight others [] result = Some result"
| "inter_pairs E agg weight others ((member, score) # ps) result = (case inter_score agg member others (f64_mul score weight) of
     Some acc \<Rightarrow> do {
       (_, result) \<leftarrow> zsetdata_insert (env_olt E) (env_zset E) result member acc;
       inter_pairs E agg weight others ps result
     }
   | None \<Rightarrow> inter_pairs E agg weight others ps result)"

definition compute_zinter_result :: "env \<Rightarrow> bytes list \<Rightarrow> f64 list \<Rightarrow> aggregate \<Rightarrow> zset_data handler" where
  "compute_zinter_result E keys ws agg s = do {
     (r, s) \<leftarrow> zinter_sets E keys [] s;
     case r of
       Inl e \<Rightarrow> fail e s
     | Inr None \<Rightarrow> reply zsetdata_new s
     | Inr (Some []) \<Rightarrow> reply zsetdata_new s
     | Inr (Some (z # Zs)) \<Rightarrow> do {
         let w = (case ws of w # _ \<Rightarrow> w | [] \<Rightarrow> f64_one);
         result \<leftarrow> inter_pairs E agg w (zip Zs (drop 1 ws @ replicate (length Zs) f64_one)) (zsetdata_to_pairs (env_zset_order E) z) zsetdata_new;
         reply result s
       }
   }"

fun diff_members :: "env \<Rightarrow> bytes list \<Rightarrow> zset_data \<Rightarrow> zset_data option" where
  "diff_members E [] result = Some result"
| "diff_members E (m # ms) result = do {
     (_, result) \<leftarrow> zsetdata_remove (env_olt E) (env_zset E) result m;
     diff_members E ms result
   }"

fun zdiff_loop :: "env \<Rightarrow> bytes list \<Rightarrow> zset_data \<Rightarrow> zset_data handler" where
  "zdiff_loop E [] result s = reply result s"
| "zdiff_loop E (key # keys) result s = do {
     (r, s) \<leftarrow> view_rw E key (Inr None) zset_or_none s;
     case r of
       Inr (Some z) \<Rightarrow> do {
         result \<leftarrow> diff_members E (zsetdata_member_keys (env_zset_order E) z) result;
         zdiff_loop E keys result s
       }
     | _ \<Rightarrow> zdiff_loop E keys result s
   }"

definition compute_zdiff_result :: "env \<Rightarrow> bytes list \<Rightarrow> zset_data handler" where
  "compute_zdiff_result E keys s = (case keys of
     [] \<Rightarrow> reply zsetdata_new s
   | key # keys \<Rightarrow> do {
       (r, s) \<leftarrow> view_rw E key (Inr None) zset_or_wrong s;
       case r of
         Inl e \<Rightarrow> fail e s
       | Inr None \<Rightarrow> reply zsetdata_new s
       | Inr (Some z) \<Rightarrow> zdiff_loop E keys z s
     })"

text \<open>The stores replace whatever the destination holds, by an empty set too.\<close>

definition store_zset :: "bytes \<Rightarrow> zset_data handler \<Rightarrow> resp handler" where
  "store_zset dst compute s = do {
     (r, s) \<leftarrow> compute s;
     case r of
       Inl e \<Rightarrow> fail e s
     | Inr z \<Rightarrow> do {
         (_, s) \<leftarrow> on_key dst (\<lambda>d. Some ((), db_insert dst (entry_new (DZSet z)) d)) s;
         reply (resp_int (int (zsetdata_len z))) (if zsetdata_len z > 0 then notify_zset_waiters s else s)
       }
   }"

definition reply_zset :: "bool \<Rightarrow> zset_data handler \<Rightarrow> resp handler" where
  "reply_zset withscores compute s = do {
     (r, s) \<leftarrow> compute s;
     Some (map_sum id (\<lambda>z. zset_to_array z withscores) r, s)
   }"

definition zset_store_op :: "bytes \<Rightarrow> (bytes list \<Rightarrow> f64 list \<Rightarrow> aggregate \<Rightarrow> zset_data handler) \<Rightarrow> resp list \<Rightarrow> resp handler" where
  "zset_store_op cmd compute args =
     (if length args < 4 then fail (WrongArity (to_lowercase cmd))
      else attempt (get_bytes_vec args 1 cmd) (\<lambda>dst.
        attempt (parse_numkeys_for_set_op args 2 cmd) (\<lambda>n.
        attempt (keys_at args 3 n cmd) (\<lambda>keys.
        attempt (parse_aggregate_weights (drop (3 + n) args) n cmd) (\<lambda>(ws, agg).
        store_zset dst (compute keys ws agg))))))"

definition zset_reply_op :: "bytes \<Rightarrow> (bytes list \<Rightarrow> f64 list \<Rightarrow> aggregate \<Rightarrow> zset_data handler) \<Rightarrow> resp list \<Rightarrow> resp handler" where
  "zset_reply_op cmd compute args =
     (if length args < 3 then fail (WrongArity (to_lowercase cmd))
      else attempt (parse_numkeys_for_set_op args 1 cmd) (\<lambda>n.
        attempt (keys_at args 2 n cmd) (\<lambda>keys.
        attempt (parse_weights_agg_withscores (drop (2 + n) args) n cmd) (\<lambda>(ws, agg, withscores).
        reply_zset withscores (compute keys ws agg)))))"

definition cmd_zunionstore :: "env \<Rightarrow> resp list \<Rightarrow> resp handler" where
  "cmd_zunionstore E = zset_store_op (asc ''ZUNIONSTORE'') (compute_zunion_result E)"

definition cmd_zunion :: "env \<Rightarrow> resp list \<Rightarrow> resp handler" where
  "cmd_zunion E = zset_reply_op (asc ''ZUNION'') (compute_zunion_result E)"

definition cmd_zinterstore :: "env \<Rightarrow> resp list \<Rightarrow> resp handler" where
  "cmd_zinterstore E = zset_store_op (asc ''ZINTERSTORE'') (compute_zinter_result E)"

definition cmd_zinter :: "env \<Rightarrow> resp list \<Rightarrow> resp handler" where
  "cmd_zinter E = zset_reply_op (asc ''ZINTER'') (compute_zinter_result E)"

definition cmd_zdiffstore :: "env \<Rightarrow> resp list \<Rightarrow> resp handler" where
  "cmd_zdiffstore E args =
     (if length args < 4 then fail (WrongArity (asc ''zdiffstore''))
      else attempt (get_bytes_vec args 1 (asc ''ZDIFFSTORE'')) (\<lambda>dst.
        attempt (parse_numkeys_for_set_op args 2 (asc ''ZDIFFSTORE'')) (\<lambda>n.
        attempt (keys_at args 3 n (asc ''ZDIFFSTORE'')) (\<lambda>keys.
        if length args \<noteq> 3 + n then fail (Generic (asc ''syntax error''))
        else store_zset dst (compute_zdiff_result E keys)))))"

definition zdiff_withscores :: "resp list \<Rightarrow> nat \<Rightarrow> bool result" where
  "zdiff_withscores args i =
     (if length args > i then attempt_e (get_str args i (asc ''ZDIFF'')) (\<lambda>w.
        if to_uppercase w \<noteq> asc ''WITHSCORES'' then Inl (Generic (asc ''syntax error''))
        else if length args \<noteq> i + 1 then Inl (Generic (asc ''syntax error''))
        else Inr True)
      else if length args \<noteq> i then Inl (Generic (asc ''syntax error'')) else Inr False)"

definition cmd_zdiff :: "env \<Rightarrow> resp list \<Rightarrow> resp handler" where
  "cmd_zdiff E args =
     (if length args < 3 then fail (WrongArity (asc ''zdiff''))
      else attempt (parse_numkeys_for_set_op args 1 (asc ''ZDIFF'')) (\<lambda>n.
        attempt (keys_at args 2 n (asc ''ZDIFF'')) (\<lambda>keys.
        attempt (zdiff_withscores args (2 + n)) (\<lambda>withscores. reply_zset withscores (compute_zdiff_result E keys)))))"

section \<open>The size of an intersection\<close>

definition zintercard_limit :: "resp list \<Rightarrow> nat \<Rightarrow> nat option result" where
  "zintercard_limit args i =
     (if length args > i then
        attempt_e (get_str args i (asc ''ZINTERCARD'')) (\<lambda>opt.
          if to_uppercase opt \<noteq> asc ''LIMIT'' then Inl (Generic (asc ''syntax error''))
          else attempt_e (get_i64 args (i + 1) (asc ''ZINTERCARD'')) (\<lambda>n.
            if length args \<noteq> i + 2 then Inl (Generic (asc ''syntax error''))
            else Inr (if n = 0 then None else Some (nat (n mod 2 ^ 64)))))
      else if length args \<noteq> i then Inl (Generic (asc ''syntax error''))
      else Inr None)"

text \<open>The operands with the size and index of the smallest.\<close>

fun zintercard_sets :: "env \<Rightarrow> bytes list \<Rightarrow> nat \<Rightarrow> nat \<times> nat \<Rightarrow> zset_data list \<Rightarrow> (zset_data list \<times> nat) option handler" where
  "zintercard_sets E [] i best Zs s = reply (Some (Zs, snd best)) s"
| "zintercard_sets E (key # keys) i best Zs s = do {
     (r, s) \<leftarrow> view_rw E key (Inr None) zset_or_wrong s;
     case r of
       Inl e \<Rightarrow> fail e s
     | Inr None \<Rightarrow> reply None s
     | Inr (Some z) \<Rightarrow> zintercard_sets E keys (i + 1) (if zsetdata_len z < fst best then (zsetdata_len z, i) else best) (Zs @ [z]) s
   }"

fun zintercard_loop :: "zset_data list \<Rightarrow> nat option \<Rightarrow> bytes list \<Rightarrow> nat \<Rightarrow> nat" where
  "zintercard_loop others limit [] cnt = cnt"
| "zintercard_loop others limit (m # ms) cnt =
     (if list_all (\<lambda>z. zsetdata_score z m \<noteq> None) others then
        if (case limit of Some l \<Rightarrow> cnt + 1 \<ge> l | None \<Rightarrow> False) then cnt + 1 else zintercard_loop others limit ms (cnt + 1)
      else zintercard_loop others limit ms cnt)"

definition cmd_zintercard :: "env \<Rightarrow> resp list \<Rightarrow> resp handler" where
  "cmd_zintercard E args =
     (if length args < 3 then fail (WrongArity (asc ''zintercard''))
      else attempt (parse_numkeys_for_set_op args 1 (asc ''ZINTERCARD'')) (\<lambda>n.
        attempt (keys_at args 2 n (asc ''ZINTERCARD'')) (\<lambda>keys.
        attempt (zintercard_limit args (2 + n)) (\<lambda>limit s. do {
          (r, s) \<leftarrow> zintercard_sets E keys 0 (2 ^ 64 - 1, 0) [] s;
          case r of
            Inl e \<Rightarrow> fail e s
          | Inr None \<Rightarrow> reply (resp_int 0) s
          | Inr (Some (Zs, best)) \<Rightarrow>
              if Zs = [] then reply (resp_int 0) s
              else do {
                z \<leftarrow> index Zs best;
                reply (resp_int (int (zintercard_loop (take best Zs @ drop (Suc best) Zs) limit
                  (zsetdata_member_keys (env_zset_order E) z) 0))) s
              }
        }))))"

section \<open>ZMPOP\<close>

definition parse_numkeys_z :: "resp list \<Rightarrow> nat \<Rightarrow> bytes \<Rightarrow> nat result" where
  "parse_numkeys_z args i cmd = attempt_e (get_i64 args i cmd) (\<lambda>n.
     if n \<le> 0 then Inl (Generic (asc ''numkeys should be greater than 0'')) else Inr (nat n))"

definition parse_keys_z :: "resp list \<Rightarrow> nat \<Rightarrow> nat \<Rightarrow> bytes \<Rightarrow> (bytes list \<times> nat) result" where
  "parse_keys_z args i n cmd =
     (if length args < i + n then Inl (WrongArity cmd)
      else attempt_e (keys_from (take n (drop i args)) cmd) (\<lambda>keys. Inr (keys, i + n)))"

definition parse_zmpop_tail :: "resp list \<Rightarrow> bytes \<Rightarrow> (bool \<times> nat) result" where
  "parse_zmpop_tail args cmd =
     (if args = [] then Inl (WrongArity cmd)
      else attempt_e (get_str args 0 cmd) (\<lambda>w. let dir = to_ascii_uppercase w in
        if dir \<noteq> asc ''MIN'' \<and> dir \<noteq> asc ''MAX'' then Inl (Generic (asc ''syntax error''))
        else attempt_e (if 1 < length args then attempt_e (get_str args 1 cmd) (\<lambda>w.
            if eq_ignore_ascii_case w (asc ''COUNT'') then
              (if 2 \<ge> length args then Inl (WrongArity cmd)
               else attempt_e (get_i64 args 2 cmd) (\<lambda>n.
                 if n < 0 then Inl (Generic (asc ''value is out of range'')) else Inr (nat n, 3)))
            else Inr (1, 1)) else Inr (1, 1)) (\<lambda>(cnt, i).
          if i \<noteq> length args then Inl (Generic (asc ''syntax error'')) else Inr (dir = asc ''MIN'', cnt))))"

text \<open>One key: the reply if something was popped; an empty set and a value of another type are passed over.\<close>

fun zmpop_value :: "env \<Rightarrow> bytes \<Rightarrow> bool \<Rightarrow> nat \<Rightarrow> data_type \<Rightarrow> (resp option \<times> data_type \<times> int \<times> bool) option" where
  "zmpop_value E key mn n (DZSet z) =
     (if zsetdata_is_empty z then Some (None, DZSet z, 0, False)
      else do {
        (popped, delta, z') \<leftarrow> zpop_loop E (\<not> mn) n z [] 0;
        Some (if popped = [] then (None, DZSet z', 0, False)
          else (Some (resp_array [resp_bulk key,
              resp_array (map (\<lambda>(m, s). resp_array [resp_bulk m, resp_bulk_str (format_float s)]) popped)]),
            DZSet z', delta, zsetdata_is_empty z'))
      })"
| "zmpop_value E key mn n v = Some (None, v, 0, False)"

fun zmpop_attempt :: "env \<Rightarrow> bytes list \<Rightarrow> bool \<Rightarrow> nat \<Rightarrow> cmd_state \<Rightarrow> (resp option \<times> cmd_state) option" where
  "zmpop_attempt E [] mn n s = Some (None, s)"
| "zmpop_attempt E (key # keys) mn n s = do {
     (r, s) \<leftarrow> on_key key (edit_live (env_now E) key None (zmpop_value E key mn n)) s;
     case r of Some v \<Rightarrow> Some (Some v, s) | None \<Rightarrow> zmpop_attempt E keys mn n s
   }"

definition zmpop_once :: "env \<Rightarrow> resp list \<Rightarrow> resp handler" where
  "zmpop_once E args =
     (if length args < 4 then fail (WrongArity (asc ''zmpop''))
      else attempt (parse_numkeys_z args 1 (asc ''ZMPOP'')) (\<lambda>numkeys.
        attempt (parse_keys_z args 2 numkeys (asc ''ZMPOP'')) (\<lambda>(keys, rest_start).
        attempt (parse_zmpop_tail (drop rest_start args) (asc ''ZMPOP'')) (\<lambda>(mn, n) s.
        map_option (\<lambda>(r, s). (Inr (case r of Some v \<Rightarrow> v | None \<Rightarrow> resp_null_array), s)) (zmpop_attempt E keys mn n s)))))"

definition cmd_zmpop :: "env \<Rightarrow> resp list \<Rightarrow> resp handler" where
  "cmd_zmpop E args = zmpop_once E args"

section \<open>ZRANGESTORE\<close>

record rangestore_opts =
  rs_byscore :: bool
  rs_bylex :: bool
  rs_rev :: bool
  rs_limit :: "nat \<times> nat option"

definition no_rangestore_opts :: rangestore_opts where
  "no_rangestore_opts = \<lparr>rs_byscore = False, rs_bylex = False, rs_rev = False, rs_limit = (0, None)\<rparr>"

text \<open>The numbers of LIMIT are cast, so that a negative one becomes huge.\<close>

function rangestore_options :: "resp list \<Rightarrow> rangestore_opts \<Rightarrow> rangestore_opts result" where
  "rangestore_options [] op = Inr op"
| "rangestore_options (a # rest) op = attempt_e (ok_or_arity (resp_as_str a) (asc ''ZRANGESTORE'')) (\<lambda>w. let opt = to_ascii_uppercase w in
     if opt = asc ''BYSCORE'' then rangestore_options rest (op\<lparr>rs_byscore := True\<rparr>)
     else if opt = asc ''BYLEX'' then rangestore_options rest (op\<lparr>rs_bylex := True\<rparr>)
     else if opt = asc ''REV'' then rangestore_options rest (op\<lparr>rs_rev := True\<rparr>)
     else if opt = asc ''LIMIT'' then attempt_e (get_i64 rest 0 (asc ''ZRANGESTORE'')) (\<lambda>off. attempt_e (get_i64 rest 1 (asc ''ZRANGESTORE'')) (\<lambda>cnt.
       rangestore_options (drop 2 rest) (op\<lparr>rs_limit := (nat (off mod 2 ^ 64), Some (nat (cnt mod 2 ^ 64)))\<rparr>)))
     else Inl (Generic (asc ''syntax error'')))"
  by pat_completeness auto
termination by (relation "measure (\<lambda>(as, _). length as)") auto

definition range_by_lex :: "env \<Rightarrow> zset_data \<Rightarrow> bytes \<Rightarrow> bytes \<Rightarrow> bool \<Rightarrow> nat \<times> nat option \<Rightarrow> (bytes \<times> f64) list" where
  "range_by_lex E z min_s max_s rv lm =
     (let out = List.map_filter (\<lambda>m. map_option (\<lambda>s. (m, s)) (zsetdata_score z m)) (lex_members E (trimmed_lex_bounds min_s max_s) z)
      in page_of lm (if rv then rev out else out))"

definition rank_bound_store :: "bytes \<Rightarrow> int result" where
  "rank_bound_store s = (case parse_i64 s of Some n \<Rightarrow> Inr n | None \<Rightarrow> Inl (Generic (asc ''value is not an integer or out of range'')))"

fun rangestore_value :: "env \<Rightarrow> rangestore_opts \<Rightarrow> bytes \<Rightarrow> bytes \<Rightarrow> data_type \<Rightarrow> (bytes \<times> f64) list result option" where
  "rangestore_value E op start_s stop_s (DZSet z) =
     (if rs_byscore op then
        Some (attempt_e (parse_score_bound start_s) (\<lambda>(mn, min_excl). attempt_e (parse_score_bound stop_s) (\<lambda>(mx, max_excl).
          Inr (zsetdata_range_by_score z mn min_excl mx max_excl (rs_rev op) (fst (rs_limit op)) (snd (rs_limit op))))))
      else if rs_bylex op then Some (Inr (range_by_lex E z start_s stop_s (rs_rev op) (rs_limit op)))
      else (case attempt_e (rank_bound_store start_s) (\<lambda>start. attempt_e (rank_bound_store stop_s) (\<lambda>stop. Inr (start, stop))) of
          Inl e \<Rightarrow> Some (Inl e)
        | Inr (start, stop) \<Rightarrow> map_option Inr (zsetdata_range_by_rank z start stop (rs_rev op))))"
| "rangestore_value E op start_s stop_s v = Some (Inl WrongType)"

fun insert_all :: "env \<Rightarrow> (bytes \<times> f64) list \<Rightarrow> zset_data \<Rightarrow> zset_data option" where
  "insert_all E [] z = Some z"
| "insert_all E ((m, s) # ps) z = do { (_, z) \<leftarrow> zsetdata_insert (env_olt E) (env_zset E) z m s; insert_all E ps z }"

definition cmd_zrangestore :: "env \<Rightarrow> resp list \<Rightarrow> resp handler" where
  "cmd_zrangestore E args =
     (if length args < 5 then fail (WrongArity (asc ''zrangestore''))
      else attempt (get_bytes_vec args 1 (asc ''ZRANGESTORE'')) (\<lambda>dst.
        attempt (get_bytes_vec args 2 (asc ''ZRANGESTORE'')) (\<lambda>src.
        attempt (get_str args 3 (asc ''ZRANGESTORE'')) (\<lambda>start_s.
        attempt (get_str args 4 (asc ''ZRANGESTORE'')) (\<lambda>stop_s.
        attempt (rangestore_options (drop 5 args) no_rangestore_opts) (\<lambda>op.
        if rs_byscore op \<and> rs_bylex op then fail (Generic (asc ''syntax error''))
        else store_zset dst (\<lambda>s. do {
          (r, s) \<leftarrow> view_ro E src (Inr []) (rangestore_value E op start_s stop_s) s;
          case r of
            Inl e \<Rightarrow> fail e s
          | Inr es \<Rightarrow> do { z \<leftarrow> insert_all E es zsetdata_new; reply z s }
        })))))))"

end
