(* ===== verification/ZSet_Laws.thy ===== *)
theory ZSet_Laws
  imports ZSet_Combine Set_Spec
begin

text \<open>
  The effects of the sorted set commands on a map from members to scores, and that the edits and readers of
  \<^verbatim>\<open>command/zset.rs\<close> implement them. A score counts by its place in the order (\<open>score_key\<close>); which of the two
  zeros, or which NaN, a reply prints is left open.
\<close>

section \<open>Scores up to their place in the order\<close>

definition f64_of_key :: "int \<Rightarrow> f64" where
  "f64_of_key k = (if k \<ge> 2 ^ 63 then f64_nan else f64_of (k < 0) (nat \<bar>k\<bar>))"

lemma f64_of_fields:
  assumes "mag < 2 ^ 63"
  shows "f64_mag (f64_of neg mag) = mag" and "f64_neg (f64_of neg mag) = neg"
proof -
  have "unat (f64_of neg mag) = (if neg then 2 ^ 63 + mag else mag)"
    using assms by (simp add: f64_of_def unat_of_nat)
  then show "f64_mag (f64_of neg mag) = mag" "f64_neg (f64_of neg mag) = neg"
    using assms by (auto simp: f64_mag_def f64_neg_def)
qed

lemma f64_fields_inj:
  assumes "f64_mag a = f64_mag b" and "f64_neg a = f64_neg b"
  shows "a = b"
proof -
  have "unat x = (if f64_neg x then 2 ^ 63 else 0) + f64_mag x" for x :: f64
  proof -
    have "unat x < 2 ^ 64" using unsigned_less [of x, where 'a = nat] by simp
    then have "unat x div 2 ^ 63 < 2" by (simp add: div_less_iff_less_mult)
    then have "unat x div 2 ^ 63 = (if f64_neg x then 1 else 0)"
      by (auto simp: f64_neg_def not_le dest: div_greater_zero_iff [THEN iffD2])
    then show ?thesis using div_mult_mod_eq [of "unat x" "2 ^ 63"] by (cases "f64_neg x") (simp_all add: f64_mag_def)
  qed
  then show ?thesis using assms by (metis word_unat_eq_iff)
qed

lemma key_cases:
  assumes "score_key a = score_key b"
  obtains "a = b" | "f64_is_nan a" and "f64_is_nan b" | "f64_mag a = 0" and "f64_mag b = 0"
proof (cases "f64_is_nan a \<or> f64_is_nan b")
  case True
  then show thesis using assms that(2) f64_ord_bound [of a] f64_ord_bound [of b] by (auto simp: score_key_def split: if_splits)
next
  case False
  then have "f64_ord a = f64_ord b" using assms by (simp add: score_key_def)
  then show thesis using that(1) [OF f64_fields_inj] that(3)
    by (cases "f64_neg a"; cases "f64_neg b") (auto simp: f64_ord_def)
qed

lemma score_key_of_key [simp]: "score_key (f64_of_key (score_key a)) = score_key a"
proof (cases "f64_is_nan a")
  case True
  moreover have "f64_is_nan f64_nan" by (simp add: f64_is_nan_def f64_mag_def f64_nan_def)
  ultimately show ?thesis by (simp add: score_key_def f64_of_key_def)
next
  case False
  have m: "f64_mag a < 2 ^ 63" by (simp add: f64_mag_def)
  note f = f64_of_fields [OF m]
  have "nat \<bar>f64_ord a\<bar> = f64_mag a" by (simp add: f64_ord_def)
  then have "f64_of_key (score_key a) = f64_of (f64_ord a < 0) (f64_mag a)"
    using False f64_ord_bound [of a] by (simp add: score_key_def f64_of_key_def)
  then show ?thesis using False f by (auto simp: score_key_def f64_is_nan_def f64_ord_def)
qed

lemma f64_zero_props: "f64_mag a = 0 \<Longrightarrow> \<not> f64_is_nan a \<and> \<not> f64_is_infinite a \<and> f64_val a = 0 \<and> f64_abs_val a = 0"
  by (simp add: f64_is_nan_def f64_is_infinite_def f64_val_def f64_abs_val_def f64_exp_def f64_frac_def)

lemma key_of_zero: "score_key (f64_of neg 0) = 0"
  using f64_of_fields(1) [of 0 neg] by (cases neg) (simp_all add: score_key_def f64_is_nan_def f64_ord_def)

lemma f64_mul_key: "score_key a = score_key b \<Longrightarrow> score_key (f64_mul a w) = score_key (f64_mul b w)"
proof (erule key_cases)
  assume z: "f64_mag a = 0" "f64_mag b = 0"
  then show ?thesis using f64_zero_props [OF z(1)] f64_zero_props [OF z(2)]
    by (simp add: f64_mul_def Let_def f64_round_def round_mag_def key_of_zero)
qed (simp_all add: f64_mul_def)

lemma f64_add_commute: "f64_add a b = f64_add b a"
proof (cases "f64_is_infinite a \<and> f64_is_infinite b")
  case True
  then show ?thesis using f64_fields_inj [of a b] by (auto simp: f64_add_def f64_is_infinite_def)
qed (auto simp: f64_add_def Let_def add.commute conj_commute)

lemma f64_add_key1: "score_key a = score_key b \<Longrightarrow> score_key (f64_add a w) = score_key (f64_add b w)"
proof (erule key_cases)
  assume z: "f64_mag a = 0" "f64_mag b = 0"
  then show ?thesis using f64_zero_props [OF z(1)] f64_zero_props [OF z(2)]
    by (simp add: f64_add_def Let_def key_of_zero)
qed (simp_all add: f64_add_def)

lemma f64_add_key: "score_key a = score_key b \<Longrightarrow> score_key c = score_key d \<Longrightarrow> score_key (f64_add a c) = score_key (f64_add b d)"
  using f64_add_key1 [of a b c] f64_add_key1 [of c d b] by (simp add: f64_add_commute)

lemma f64_cmp_key:
  "f64_is_nan a \<longleftrightarrow> score_key a = 2 ^ 63" "f64_less a b \<longleftrightarrow> score_key a < score_key b \<and> score_key b < 2 ^ 63"
  "f64_le a b \<longleftrightarrow> score_key a \<le> score_key b \<and> score_key b < 2 ^ 63" "f64_eq a b \<longleftrightarrow> score_key a = score_key b \<and> score_key b < 2 ^ 63"
  using f64_ord_bound [of a] f64_ord_bound [of b] by (auto simp: score_key_def f64_less_def f64_le_def f64_eq_def)

definition agg_key :: "aggregate \<Rightarrow> int \<Rightarrow> int \<Rightarrow> int" where
  "agg_key agg j k = (case agg of
     AggSum \<Rightarrow> score_key (f64_add (f64_of_key j) (f64_of_key k))
   | AggMin \<Rightarrow> min j k
   | AggMax \<Rightarrow> if j = 2 ^ 63 then k else if k = 2 ^ 63 then j else max j k)"

definition weight_key :: "f64 \<Rightarrow> int \<Rightarrow> int" where
  "weight_key w k = score_key (f64_mul (f64_of_key k) w)"

lemma score_key_bound: "score_key a \<le> 2 ^ 63"
  using f64_ord_bound [of a] by (simp add: score_key_def)

lemma weight_key_is: "score_key (f64_mul s w) = weight_key w (score_key s)"
  unfolding weight_key_def by (rule f64_mul_key) simp

lemma apply_aggregate_key: "score_key (apply_aggregate agg (Some e) new) = agg_key agg (score_key e) (score_key new)"
proof (cases agg)
  case AggSum
  have "score_key (f64_add e new) = score_key (f64_add (f64_of_key (score_key e)) (f64_of_key (score_key new)))"
    by (rule f64_add_key) simp_all
  then show ?thesis by (simp add: apply_aggregate_def agg_key_def AggSum)
next
  case AggMin
  then show ?thesis using score_key_bound [of e] score_key_bound [of new]
    by (auto simp: apply_aggregate_def agg_key_def f64_min_def f64_cmp_key)
next
  case AggMax
  then show ?thesis using score_key_bound [of e] score_key_bound [of new]
    by (auto simp: apply_aggregate_def agg_key_def f64_max_def f64_cmp_key)
qed

section \<open>The effects on a score map\<close>

type_synonym scores = "bytes \<rightharpoonup> int"

fun proj_zset :: "aval \<Rightarrow> scores option" where
  "proj_zset (AZSet m) = Some m"
| "proj_zset _ = None"

definition unless_bare :: "scores \<Rightarrow> scores option" where
  "unless_bare m = (if m = Map.empty then None else Some m)"

text \<open>A reply that lists entries whose places in the order are the given ones.\<close>

definition lists_scores :: "(int \<times> bytes) list \<Rightarrow> bool \<Rightarrow> resp result \<Rightarrow> bool" where
  "lists_scores L ws r \<longleftrightarrow> (\<exists>es. map ek es = L \<and> r = Inr (resp_array (format_zrange_result es ws)))"

definition score_reply :: "int option \<Rightarrow> resp \<Rightarrow> bool" where
  "score_reply k r \<longleftrightarrow> (\<exists>x. map_option score_key x = k \<and> r = score_or_null x)"

definition key_skips :: "zadd_opts \<Rightarrow> int \<Rightarrow> int option \<Rightarrow> bool" where
  "key_skips op k existing \<longleftrightarrow>
     za_nx op \<and> existing \<noteq> None
     \<or> za_xx op \<and> existing = None
     \<or> za_gt op \<and> (case existing of Some old \<Rightarrow> k \<le> old \<and> old < 2 ^ 63 | None \<Rightarrow> False)
     \<or> za_lt op \<and> (case existing of Some old \<Rightarrow> old \<le> k | None \<Rightarrow> False)"

text \<open>The members added, the scores changed, and the new map.\<close>

fun zadd_fold :: "zadd_opts \<Rightarrow> (int \<times> bytes) list \<Rightarrow> scores \<Rightarrow> int \<times> int \<times> scores" where
  "zadd_fold op [] m = (0, 0, m)"
| "zadd_fold op ((k, x) # ps) m =
     (if key_skips op k (m x) then zadd_fold op ps m
      else case zadd_fold op ps (m(x \<mapsto> k)) of (added, changed, m') \<Rightarrow>
        (added + (if m x = None then 1 else 0), changed + (if m x \<noteq> None \<and> m x \<noteq> Some k then 1 else 0), m'))"

definition zadd_rel :: "zadd_opts \<Rightarrow> (int \<times> bytes) list \<Rightarrow> scores \<Rightarrow> resp result \<Rightarrow> scores option \<Rightarrow> bool" where
  "zadd_rel op ps m r m' \<longleftrightarrow> (case zadd_fold op ps m of (added, changed, n) \<Rightarrow>
     r = Inr (resp_int (if za_ch op then added + changed else added)) \<and> m' = Some n)"

definition zincr_rel :: "f64 \<Rightarrow> bytes \<Rightarrow> scores \<Rightarrow> resp result \<Rightarrow> scores option \<Rightarrow> bool" where
  "zincr_rel delta x m r m' \<longleftrightarrow> (\<exists>old. score_key old = (case m x of Some k \<Rightarrow> k | None \<Rightarrow> 0)
     \<and> r = Inr (resp_bulk_str (format_float (f64_add old delta))) \<and> m' = Some (m(x \<mapsto> score_key (f64_add old delta))))"

definition without :: "bytes set \<Rightarrow> scores \<Rightarrow> scores" where
  "without X m = m |` (- X)"

definition zrem_effect :: "bytes list \<Rightarrow> scores \<Rightarrow> resp result \<times> scores option" where
  "zrem_effect ms m = (Inr (resp_int (int (card (set ms \<inter> dom m)))), unless_bare (without (set ms) m))"

definition rank_range :: "int \<Rightarrow> int \<Rightarrow> bool \<Rightarrow> scores \<Rightarrow> (int \<times> bytes) list" where
  "rank_range a b rv m = (let n = int (card (dom m)); i = normalize_index a n; j = normalize_index b n;
     L = (if rv then rev (zranked m) else zranked m) in take (Suc j - i) (drop i L))"

definition score_in :: "f64 \<times> bool \<Rightarrow> f64 \<times> bool \<Rightarrow> int \<Rightarrow> bool" where
  "score_in lo hi k \<longleftrightarrow> k < 2 ^ 63 \<and> (if snd lo then score_key (fst lo) < k else score_key (fst lo) \<le> k)
     \<and> (if snd hi then k < score_key (fst hi) else k \<le> score_key (fst hi))"

definition score_range :: "f64 \<times> bool \<Rightarrow> f64 \<times> bool \<Rightarrow> bool \<Rightarrow> nat \<times> nat option \<Rightarrow> scores \<Rightarrow> (int \<times> bytes) list" where
  "score_range lo hi rv lm m =
     (let L = filter (\<lambda>(k, x). score_in lo hi k) (zranked m) in page_of lm (if rv then rev L else L))"

definition lex_in :: "lex_bounds \<Rightarrow> bytes \<Rightarrow> bool" where
  "lex_in lb y \<longleftrightarrow> (case lb of (lo, lx, hi, hx) \<Rightarrow>
     (case lo of None \<Rightarrow> True | Some b \<Rightarrow> if lx then y > b else y \<ge> b) \<and> (case hi of None \<Rightarrow> True | Some b \<Rightarrow> if hx then y < b else y \<le> b))"

definition lex_range :: "lex_bounds \<Rightarrow> scores \<Rightarrow> bytes list" where
  "lex_range lb m = filter (lex_in lb) (sorted_list_of_set (dom m))"

definition remove_listed :: "(int \<times> bytes) list \<Rightarrow> scores \<Rightarrow> resp result \<times> scores option" where
  "remove_listed L m = (Inr (resp_int (int (length L))), unless_bare (without (snd ` set L) m))"

text \<open>The first or the last entries of the order.\<close>

definition extremes :: "bool \<Rightarrow> nat \<Rightarrow> scores \<Rightarrow> (int \<times> bytes) list" where
  "extremes mx n m = take n (if mx then rev (zranked m) else zranked m)"

definition zpop_rel :: "bool \<Rightarrow> nat \<Rightarrow> scores \<Rightarrow> resp result \<Rightarrow> scores option \<Rightarrow> bool" where
  "zpop_rel mx n m r m' \<longleftrightarrow> lists_scores (extremes mx n m) True r \<and> m' = unless_bare (without (snd ` set (extremes mx n m)) m)"

section \<open>Edits that create the key, and edits after a lookup\<close>

definition upsert_rel :: "(aval \<Rightarrow> 'v option) \<Rightarrow> ('v \<Rightarrow> aval) \<Rightarrow> nat \<Rightarrow> bytes \<Rightarrow> 'v \<Rightarrow> 'r \<Rightarrow> ('v \<Rightarrow> 'r \<Rightarrow> 'v option \<Rightarrow> bool)
    \<Rightarrow> keyspace \<Rightarrow> 'r \<Rightarrow> keyspace \<Rightarrow> bool" where
  "upsert_rel proj emb now key new wrong G A r A' = (case (case alive now (A key) of None \<Rightarrow> (emb new, None) | Some c \<Rightarrow> c) of
     (a, t) \<Rightarrow> (case proj a of
       None \<Rightarrow> r = wrong \<and> A' = A
     | Some x \<Rightarrow> (\<exists>y. G x r y \<and> A' = A(key := map_option (\<lambda>w. (emb w, t)) y))))"

lemma upsert_rel_spec:
  assumes "upsert_spec now (emb new) (by_rel proj emb wrong G) (A key) r c'" and "proj (emb new) \<noteq> None"
  shows "upsert_rel proj emb now key new wrong G A r (A(key := c'))"
proof -
  obtain a t where at: "(case alive now (A key) of None \<Rightarrow> (emb new, None) | Some c \<Rightarrow> c) = (a, t)" by force
  with assms(1) obtain a' where a': "by_rel proj emb wrong G a r a'" "c' = map_option (\<lambda>x. (x, t)) a'" by (auto simp: upsert_spec_def)
  show ?thesis
  proof (cases "proj a")
    case None
    then have "A key = Some (a, t)" using at assms(2) alive_same [of now "A key"] by (cases "alive now (A key)") auto
    then show ?thesis using a' None at by (simp add: upsert_rel_def by_rel_def fun_upd_idem)
  next
    case (Some x)
    then show ?thesis using a' at by (auto simp: upsert_rel_def by_rel_def option.map_comp comp_def)
  qed
qed

text \<open>A reply that carries more than the client sees.\<close>

lemma edit_rel_map:
  assumes "edit_rel proj emb now key none wrong G A r A'" and "\<And>x y. G x r y \<Longrightarrow> G' x (f r) y"
  shows "edit_rel proj emb now key (f none) (f wrong) G' A (f r) A'"
  using assms by (fastforce simp: edit_rel_def split: option.splits prod.splits)

lemma upsert_rel_map:
  assumes "upsert_rel proj emb now key new wrong G A r A'" and "\<And>x y. G x r y \<Longrightarrow> G' x (f r) y"
  shows "upsert_rel proj emb now key new (f wrong) G' A (f r) A'"
  using assms by (fastforce simp: upsert_rel_def split: option.splits prod.splits)

context value_op begin

text \<open>An edit of a key that is looked up first, and only changed when it is there.\<close>

lemma present_law:
  assumes "ok \<and> val_is lim new anew" and "db_is d m" and "ent_is lim (m key) c"
  shows "\<exists>r d' x c'. (case db_get now key d of (x, d1) \<Rightarrow> if x = None then Some (none, d1) else upsert now key new f d1) = Some (r, d')
    \<and> db_is d' (m(key := x)) \<and> db_clock d' = db_clock d \<and> ent_is lim x c' \<and> edit_spec now none eff c r c'"
proof -
  obtain x d1 where g: "db_get now key d = (x, d1)" by force
  note l = get.op_law [OF assms(2), of now key, unfolded g, simplified]
  have al: "ent_is lim x (alive now c)"
    using ent_is_alive [OF assms(3), of now] l by (cases "live_entry now (m key)") (auto simp: touched_def)
  have d1: "db_is d1 (m(key := x))" "db_clock d1 = db_clock d" using l by simp_all
  show ?thesis
  proof (cases "x = None")
    case True
    then have "alive now c = None" using al by simp
    then show ?thesis using g d1 True by (auto simp: edit_spec_def intro!: exI [of _ None])
  next
    case False
    from upsert_law [of new anew d1 "m(key := x)" key "alive now c" now] assms(1) d1(1) al obtain r d' y c' where
      u: "upsert now key new f d1 = Some (r, d')" "db_is d' (m(key := y))" "db_clock d' = db_clock d1" "ent_is lim y c'"
        "upsert_spec now anew eff (alive now c) r c'" by (auto simp del: fun_upd_apply simp add: fun_upd_same)
    obtain a t where a: "alive now c = Some (a, t)" using False al by (cases x) auto
    then have "alive now (alive now c) = alive now c" using alive_same by metis
    then have "edit_spec now none eff c r c'" using u(5) a by (simp add: upsert_spec_def edit_spec_def)
    then show ?thesis using g u d1(2) False by auto
  qed
qed

end

sublocale value_op \<subseteq> pr: typed_op "ok \<and> val_is lim new anew" lim key
  "\<lambda>d. case db_get now key d of (x, d1) \<Rightarrow> if x = None then Some (none, d1) else upsert now key new f d1" "edit_spec now none eff"
  for now key new anew none
  by unfold_locales (rule present_law)

context coll_rop begin

lemma upsert_rel_ok:
  assumes "ok" and "rel c new" and "ks_is lim clk (cs_db s) A"
  shows "\<exists>r s' A'. on_key key (upsert now key (con c) f) s = Some (r, s') \<and> upsert_rel proj emb now key new wrong G A r A'
    \<and> ks_is lim clk (cs_db s') A'"
proof -
  have v: "ok \<and> val_is lim (con c) (emb new)" using assms(1,2) con_rel by blast
  from up.on_key_ok [OF v assms(3), of key now] obtain r s' c' where
    l: "on_key key (upsert now key (con c) f) s = Some (r, s')" "upsert_spec now (emb new) (by_rel proj emb wrong G) (A key) r c'"
      "ks_is lim clk (cs_db s') (A(key := c'))" by blast
  have "proj (emb new) \<noteq> None" using proj_emb [of "emb new" new] by simp
  then show ?thesis using l upsert_rel_spec [where A = A and key = key and emb = emb and new = new, OF l(2)] by blast
qed

lemma present_rel_ok:
  assumes "ok" and "rel c new" and "ks_is lim clk (cs_db s) A"
  shows "\<exists>r s' A'. on_key key (\<lambda>d. case db_get now key d of (x, d1) \<Rightarrow> if x = None then Some (none, d1) else upsert now key (con c) f d1) s = Some (r, s')
    \<and> edit_rel proj emb now key none wrong G A r A' \<and> ks_is lim clk (cs_db s') A'"
proof -
  have v: "ok \<and> val_is lim (con c) (emb new)" using assms(1,2) con_rel by blast
  from pr.on_key_ok [OF v assms(3), where key = key and now = now and none = none] obtain r s' c' where
    l: "on_key key (\<lambda>d. case db_get now key d of (x, d1) \<Rightarrow> if x = None then Some (none, d1) else upsert now key (con c) f d1) s = Some (r, s')"
      "edit_spec now none (by_rel proj emb wrong G) (A key) r c'" "ks_is lim clk (cs_db s') (A(key := c'))" by blast
  then show ?thesis using edit_rel_spec [where A = A and key = key, OF l(2)] by blast
qed

end

section \<open>The edits implement them\<close>

interpretation zty: coll_type lims DZSet proj_zset AZSet zset_is for lims
proof
  fix a :: aval and x show "(proj_zset a = Some x) = (a = AZSet x)" by (cases a) auto
next
  fix v x assume "val_is lims v (AZSet x)" then show "\<exists>c. v = DZSet c" by (cases v) auto
qed auto

lemma zset_ropI:
  assumes "\<And>z m. ok \<Longrightarrow> zset_is z m \<Longrightarrow> \<exists>r z' emptied m'. f (DZSet z) = Some (r, DZSet z', int (zset_payload m') - int (zset_payload m), emptied)
      \<and> zset_is z' m' \<and> G m r (if emptied then None else Some m')"
    and "\<And>v. \<nexists>z. v = DZSet z \<Longrightarrow> f v = Some (wrong, v, 0, False)"
  shows "coll_rop lims DZSet proj_zset AZSet zset_is ok f wrong G"
proof
  fix z m assume "ok" and z: "zset_is z m"
  from assms(1) [OF this] obtain r z' emptied m' where
    f: "f (DZSet z) = Some (r, DZSet z', int (zset_payload m') - int (zset_payload m), emptied)" "zset_is z' m'"
      "G m r (if emptied then None else Some m')" by blast
  then show "\<exists>r c' delta emptied y. f (DZSet z) = Some (r, DZSet c', delta, emptied) \<and> zset_is c' y
      \<and> int (value_size (DZSet c')) = int (value_size (DZSet z)) + delta \<and> G m r (if emptied then None else Some y)"
    using zsetdata_payload_is [OF z] zsetdata_payload_is [OF f(2)] by auto
qed (rule assms(2))

lemma zset_opI:
  assumes "\<And>z m. ok \<Longrightarrow> zset_is z m \<Longrightarrow> \<exists>r z' emptied m'. f (DZSet z) = Some (r, DZSet z', int (zset_payload m') - int (zset_payload m), emptied)
      \<and> zset_is z' m' \<and> g m = (r, if emptied then None else Some m')"
    and "\<And>v. \<nexists>z. v = DZSet z \<Longrightarrow> f v = Some (wrong, v, 0, False)"
  shows "coll_op lims DZSet proj_zset AZSet zset_is ok f wrong g"
proof -
  have "coll_rop lims DZSet proj_zset AZSet zset_is ok f wrong (\<lambda>m r m'. g m = (r, m'))" by (rule zset_ropI) (rule assms, assumption+)+
  then show ?thesis by (simp add: coll_rop_def coll_rop_axioms_def coll_op_def coll_op_axioms_def)
qed

lemma zset_res:
  "fv = Some (r, DZSet z', int (zset_payload m') - int (zset_payload m), emptied) \<Longrightarrow> zset_is z' m'
    \<Longrightarrow> P r (if emptied then None else Some m') \<Longrightarrow>
   \<exists>r z' emptied m'. fv = Some (r, DZSet z', int (zset_payload m') - int (zset_payload m), emptied)
      \<and> zset_is z' m' \<and> P r (if emptied then None else Some m')"
  by (intro exI conjI)

text \<open>The operations on a value, in an admissible environment.\<close>

lemma zset_env:
  assumes "env_ok lims E"
  shows "env_olt E = ordered_float_lt" and "zset_thr_ok (env_zset E)" and "zset_order (env_zset_order E)"
  using assms ordered_float_unique by (simp_all add: env_ok_def)

lemma zinsert_env:
  assumes "env_ok lims E" and "zset_is z m"
  shows "\<exists>z'. zsetdata_insert (env_olt E) (env_zset E) z x s = Some (m x = None, z') \<and> zset_is z' (m(x \<mapsto> score_key s))"
  using zsetdata_insert_is [OF assms(2) zset_env(2) [OF assms(1)]] unfolding zset_env(1) [OF assms(1)] .

lemma zremove_env:
  assumes "env_ok lims E" and "zset_is z m"
  shows "\<exists>r z'. zsetdata_remove (env_olt E) (env_zset E) z x = Some (r, z') \<and> map_option score_key r = m x \<and> zset_is z' (m(x := None))"
  using zsetdata_remove_is [OF assms(2) zset_env(2) [OF assms(1)]] unfolding zset_env(1) [OF assms(1)] .

lemma zpayload_upd: "finite (dom m) \<Longrightarrow> int (zset_payload (m(x \<mapsto> k))) = int (zset_payload m) + (if m x = None then int (length x) else 0)"
  by (auto simp: zset_payload_upd domIff)

lemma zpayload_del: "finite (dom m) \<Longrightarrow> int (zset_payload (m(x := None))) = int (zset_payload m) - (if m x = None then 0 else int (length x))"
  using zset_payload_del [of m x] by (cases "m x") (auto simp: fun_upd_idem domIff)

lemma zempty_is: "zset_is z m \<Longrightarrow> zsetdata_is_empty z \<longleftrightarrow> m = Map.empty"
  using zsetdata_len_is [of z m] zset_is_finite [of z m] by (auto simp: zsetdata_is_empty_def dom_eq_empty_conv)

lemma zset_new_is: "zset_is zsetdata_new Map.empty"
  using cz_empty_rep(1) by (auto simp: zsetdata_new_def zgraph_def intro!: exI [of _ "[]"])

section \<open>Adding and incrementing\<close>

text \<open>A score as it is written.\<close>

definition score_text :: "bytes \<Rightarrow> bool" where
  "score_text t \<longleftrightarrow> utf8_valid t \<and> (case parse_score_bound t of Inl e \<Rightarrow> False | Inr v \<Rightarrow> True)"

definition score_of :: "bytes \<Rightarrow> f64" where
  "score_of t = (case parse_score_bound t of Inl e \<Rightarrow> 0 | Inr v \<Rightarrow> fst v)"

definition keyed :: "(bytes \<times> bytes) list \<Rightarrow> (int \<times> bytes) list" where
  "keyed = map (\<lambda>(t, x). (score_key (score_of t), x))"

lemma parsed_number: "parse_score_bound t = Inr v \<Longrightarrow> \<not> f64_is_nan (fst v)"
  by (cases v) (auto simp: parse_score_bound_def attempt_e_def Let_def split: sum.splits if_splits prod.splits)

lemma score_of_number: "\<not> f64_is_nan (score_of t)"
  using parsed_number [of t] by (auto simp: score_of_def f64_is_nan_def f64_mag_def split: sum.split)

lemma zadd_skips_is:
  assumes "zset_is z m" and "\<not> f64_is_nan sc"
  shows "zadd_skips op sc (zsetdata_score z x) \<longleftrightarrow> key_skips op (score_key sc) (m x)"
proof -
  have "score_key sc < 2 ^ 63" using assms(2) score_key_bound [of sc] by (simp add: f64_cmp_key)
  then show ?thesis unfolding zsetdata_score_is [OF assms(1), of x, symmetric]
    by (cases "zsetdata_score z x") (auto simp: zadd_skips_def key_skips_def f64_cmp_key)
qed

lemma zadd_changed_is:
  assumes "zset_is z m" and "\<not> f64_is_nan sc"
  shows "(case zsetdata_score z x of Some old \<Rightarrow> \<not> f64_eq old sc | None \<Rightarrow> False) \<longleftrightarrow> m x \<noteq> None \<and> m x \<noteq> Some (score_key sc)"
proof -
  have "score_key sc < 2 ^ 63" using assms(2) score_key_bound [of sc] by (simp add: f64_cmp_key)
  then show ?thesis unfolding zsetdata_score_is [OF assms(1), of x, symmetric]
    by (cases "zsetdata_score z x") (auto simp: f64_cmp_key)
qed

lemma zadd_loop_step:
  assumes "env_ok lims E" and "zset_is z m" and "score_text t"
  shows "\<exists>z1 c1. zadd_loop E op (bulks (t # x # ts)) z (a, c, d) = zadd_loop E op (bulks ts) z1 c1
    \<and> (let k = score_key (score_of t); m1 = (if key_skips op k (m x) then m else m(x \<mapsto> k)) in zset_is z1 m1
      \<and> fst c1 = a + (if \<not> key_skips op k (m x) \<and> m x = None then 1 else 0)
      \<and> (za_ch op \<longrightarrow> fst (snd c1) = c + (if \<not> key_skips op k (m x) \<and> m x \<noteq> None \<and> m x \<noteq> Some k then 1 else 0))
      \<and> snd (snd c1) = d + (int (zset_payload m1) - int (zset_payload m)))"
proof -
  obtain sc ex where v: "parse_score_bound t = Inr (sc, ex)" using assms(3) by (auto simp: score_text_def split: sum.splits)
  have so: "score_of t = sc" "\<not> f64_is_nan sc" using parsed_number [OF v] v by (simp_all add: score_of_def)
  let ?k = "score_key sc" and ?opts = "za_nx op \<or> za_xx op \<or> za_gt op \<or> za_lt op \<or> za_ch op"
  let ?skip = "key_skips op ?k (m x)" and ?ch = "m x \<noteq> None \<and> m x \<noteq> Some ?k"
  from zinsert_env [OF assms(1,2), of x sc] obtain z1 where
    z1: "zsetdata_insert (env_olt E) (env_zset E) z x sc = Some (m x = None, z1)" "zset_is z1 (m(x \<mapsto> ?k))" by blast
  have args: "attempt_e (ok_or_arity (resp_as_str (BulkString (Some t))) (asc ''ZADD'')) parse_score_bound = Inr (sc, ex)"
    "ok_or_arity (bulk_or_simple (BulkString (Some x))) (asc ''ZADD'') = Inr x"
    using assms(3) v by (simp_all add: ok_or_arity_def score_text_def)
  have plain: "?opts" if "?skip" using that by (auto simp: key_skips_def)
  have "zadd_loop E op (bulks (t # x # ts)) z (a, c, d) =
      (if ?skip then zadd_loop E op (bulks ts) z (a, c, d)
       else zadd_loop E op (bulks ts) z1 (if m x = None then (a + 1, c, d + int (length x)) else (a, if ?opts \<and> ?ch then c + 1 else c, d)))"
    unfolding bulks_simps zadd_loop.simps args sum.case prod.case Let_def zadd_skips_is [OF assms(2) so(2)] zadd_changed_is [OF assms(2) so(2)] z1(1)
    using plain by auto
  then show ?thesis
    using z1(2) assms(2) zpayload_upd [OF zset_is_finite [OF assms(2)], of x ?k]
    by (cases "?skip"; cases "m x = None") (auto simp: so(1) Let_def simp del: zset_is.simps fun_upd_apply zadd_loop.simps)
qed

lemma zadd_loop_is:
  assumes "env_ok lims E" and "zset_is z m" and "\<forall>(t, x) \<in> set ps. score_text t" and "zadd_fold op (keyed ps) m = (added, changed, n)"
  shows "\<exists>z' c'. zadd_loop E op (bulks (flat ps)) z (a, c, d) = Some (Inr (a + added, c', d + (int (zset_payload n) - int (zset_payload m))), z')
    \<and> zset_is z' n \<and> (za_ch op \<longrightarrow> c' = c + changed)"
  using assms(2-4)
proof (induction ps arbitrary: z m a c d added changed n)
  case Nil
  then show ?case by (auto simp: keyed_def)
next
  case (Cons p ps)
  obtain t x where p: "p = (t, x)" by force
  let ?k = "score_key (score_of t)"
  let ?skip = "key_skips op ?k (m x)"
  let ?m1 = "if ?skip then m else m(x \<mapsto> ?k)"
  obtain added1 changed1 n1 where f1: "zadd_fold op (keyed ps) ?m1 = (added1, changed1, n1)" by (metis prod_cases3)
  have f: "added = added1 + (if \<not> ?skip \<and> m x = None then 1 else 0)"
      "changed = changed1 + (if \<not> ?skip \<and> m x \<noteq> None \<and> m x \<noteq> Some ?k then 1 else 0)" "n = n1"
    using Cons.prems(3) f1 by (auto simp: p keyed_def split: if_splits)
  have "score_text t" using Cons.prems(2) by (simp add: p)
  from zadd_loop_step [OF assms(1) Cons.prems(1) this, of op x "flat ps" a c d, unfolded Let_def] obtain z1 a1 c1 d1 where
    st: "zadd_loop E op (bulks (t # x # flat ps)) z (a, c, d) = zadd_loop E op (bulks (flat ps)) z1 (a1, c1, d1)" "zset_is z1 ?m1"
      "a1 = a + (if \<not> ?skip \<and> m x = None then 1 else 0)"
      "za_ch op \<longrightarrow> c1 = c + (if \<not> ?skip \<and> m x \<noteq> None \<and> m x \<noteq> Some ?k then 1 else 0)"
      "d1 = d + (int (zset_payload ?m1) - int (zset_payload m))" by (metis fst_conv snd_conv prod_cases3)
  from Cons.IH [OF st(2) _ f1, of a1 c1 d1] Cons.prems(2) obtain z' c' where
    ih: "zadd_loop E op (bulks (flat ps)) z1 (a1, c1, d1) = Some (Inr (a1 + added1, c', d1 + (int (zset_payload n1) - int (zset_payload ?m1))), z')"
      "zset_is z' n1" "za_ch op \<longrightarrow> c' = c1 + changed1" by auto
  have "flat (p # ps) = t # x # flat ps" by (simp add: p)
  then show ?case using st(1,3,4,5) ih f by (intro exI [of _ z'] exI [of _ c']) (simp del: zadd_loop.simps zset_is.simps)
qed

lemma other_type_zadd: "\<nexists>z. v = DZSet z \<Longrightarrow> zadd_value E op vals v = Some (Inl WrongType, v, 0, False)"
  by (cases v) auto

interpretation za: coll_rop lims DZSet proj_zset AZSet zset_is "env_ok lims E \<and> \<not> za_incr op \<and> (\<forall>(t, x) \<in> set ps. score_text t)"
  "zadd_value E op (bulks (flat ps))" "Inl WrongType" "\<lambda>m w. zadd_rel op (keyed ps) m (map_sum id fst w)" for lims E op ps
proof (rule zset_ropI)
  fix z m assume a: "env_ok lims E \<and> \<not> za_incr op \<and> (\<forall>(t, x) \<in> set ps. score_text t)" and z: "zset_is z m"
  obtain added changed n where f: "zadd_fold op (keyed ps) m = (added, changed, n)" by (metis prod_cases3)
  from zadd_loop_is [OF _ z _ f, of lims E 0 0 0] a obtain z' c' where
    l: "zadd_loop E op (bulks (flat ps)) z (0, 0, 0) = Some (Inr (added, c', int (zset_payload n) - int (zset_payload m)), z')"
      "zset_is z' n" "za_ch op \<longrightarrow> c' = changed" by auto
  have "zadd_value E op (bulks (flat ps)) (DZSet z) =
      Some (Inr (resp_int (if za_ch op then added + c' else added), added > 0 \<or> c' > 0), DZSet z', int (zset_payload n) - int (zset_payload m), False)"
    using a l(1) by (simp del: zadd_loop.simps)
  then show "\<exists>r z' emptied m'. zadd_value E op (bulks (flat ps)) (DZSet z) = Some (r, DZSet z', int (zset_payload m') - int (zset_payload m), emptied)
      \<and> zset_is z' m' \<and> zadd_rel op (keyed ps) m (map_sum id fst r) (if emptied then None else Some m')"
    by (rule zset_res [OF _ l(2)]) (use l(3) in \<open>simp add: zadd_rel_def f\<close>)
qed (rule other_type_zadd)

lemma zset_incr_is:
  assumes "env_ok lims E" and "zset_is z m"
  shows "\<exists>old z'. score_key old = (case m x of Some k \<Rightarrow> k | None \<Rightarrow> 0)
    \<and> zset_incr E x delta z = Some (f64_add old delta, int (zset_payload (m(x \<mapsto> score_key (f64_add old delta)))) - int (zset_payload m), z')
    \<and> zset_is z' (m(x \<mapsto> score_key (f64_add old delta)))"
proof -
  let ?old = "case zsetdata_score z x of Some s \<Rightarrow> s | None \<Rightarrow> 0"
  have "score_key 0 = 0" by (simp add: score_key_def f64_is_nan_def f64_ord_def f64_mag_def)
  then have k: "score_key ?old = (case m x of Some k \<Rightarrow> k | None \<Rightarrow> 0)"
    unfolding zsetdata_score_is [OF assms(2), of x, symmetric] by (cases "zsetdata_score z x") simp_all
  from zinsert_env [OF assms, of x "f64_add ?old delta"] obtain z' where
    z': "zsetdata_insert (env_olt E) (env_zset E) z x (f64_add ?old delta) = Some (m x = None, z')" "zset_is z' (m(x \<mapsto> score_key (f64_add ?old delta)))" by blast
  then show ?thesis using k zpayload_upd [OF zset_is_finite [OF assms(2)], of x "score_key (f64_add ?old delta)"]
    by (intro exI [of _ ?old] exI [of _ z']) (simp add: zset_incr_def Let_def del: zset_is.simps fun_upd_apply)
qed

interpretation zb: coll_rop lims DZSet proj_zset AZSet zset_is "env_ok lims E" "zincrby_value E delta x" "Inl WrongType"
  "\<lambda>m w. zincr_rel delta x m (map_sum id fst w)" for lims E delta x
proof (rule zset_ropI)
  fix z m assume e: "env_ok lims E" and z: "zset_is z m"
  from zset_incr_is [OF e z, of x delta] obtain old z' where
    i: "score_key old = (case m x of Some k \<Rightarrow> k | None \<Rightarrow> 0)"
      "zset_incr E x delta z = Some (f64_add old delta, int (zset_payload (m(x \<mapsto> score_key (f64_add old delta)))) - int (zset_payload m), z')"
      "zset_is z' (m(x \<mapsto> score_key (f64_add old delta)))" by blast
  have "zincrby_value E delta x (DZSet z) = Some (Inr (resp_bulk_str (format_float (f64_add old delta)), True), DZSet z',
      int (zset_payload (m(x \<mapsto> score_key (f64_add old delta)))) - int (zset_payload m), False)" using i(2) by simp
  then show "\<exists>r z' emptied m'. zincrby_value E delta x (DZSet z) = Some (r, DZSet z', int (zset_payload m') - int (zset_payload m), emptied)
      \<and> zset_is z' m' \<and> zincr_rel delta x m (map_sum id fst r) (if emptied then None else Some m')"
    by (rule zset_res [OF _ i(3)]) (use i(1) in \<open>auto simp: zincr_rel_def\<close>)
next
  fix v :: data_type assume "\<nexists>z. v = DZSet z"
  then show "zincrby_value E delta x v = Some (Inl WrongType, v, 0, False)" by (cases v) auto
qed

text \<open>ZADD with INCR does the same.\<close>

lemma zadd_incr:
  assumes "za_incr op" and "score_text t"
  shows "zadd_value E op (bulks [t, x]) = zincrby_value E (score_of t) x"
proof
  fix v
  have "score_arg (bulks [t, x]) 0 (asc ''ZADD'') = parse_score_bound t"
    using assms(2) by (simp add: score_arg_def get_str_def ok_or_arity_def index_def score_text_def)
  moreover obtain sc ex where "parse_score_bound t = Inr (sc, ex)" using assms(2) by (auto simp: score_text_def split: sum.splits)
  moreover have "get_bytes_vec (bulks [t, x]) 1 (asc ''ZADD'') = Inr x" by (simp add: get_bytes_vec_def ok_or_arity_def index_def)
  ultimately show "zadd_value E op (bulks [t, x]) v = zincrby_value E (score_of t) x v"
    using assms(1) by (cases v) (auto simp: score_of_def simp del: bulks_simps)
qed

section \<open>Removing and popping\<close>

lemma without_simps [simp]:
  "without {} m = m" "without X (m(x := None)) = without (insert x X) m" "dom (without X m) = dom m - X"
  by (auto simp: without_def restrict_map_def fun_eq_iff split: if_splits)

lemma zrem_loop_is:
  assumes "env_ok lims E" and "zset_is z m"
  shows "\<exists>z'. zrem_loop E ms z removed delta = Some (removed + int (card (set ms \<inter> dom m)),
      delta + (int (zset_payload (without (set ms) m)) - int (zset_payload m)), z') \<and> zset_is z' (without (set ms) m)"
  using assms(2)
proof (induction ms arbitrary: z m removed delta)
  case (Cons x ms)
  from zremove_env [OF assms(1) Cons.prems, of x] obtain r z1 where
    r: "zsetdata_remove (env_olt E) (env_zset E) z x = Some (r, z1)" "map_option score_key r = m x" "zset_is z1 (m(x := None))" by blast
  have rx: "r \<noteq> None \<longleftrightarrow> m x \<noteq> None" using r(2) [symmetric] by (cases r) auto
  let ?c = "card (set ms \<inter> (dom m - {x}))" and ?w = "without (insert x (set ms)) m"
  note fin = zset_is_finite [OF Cons.prems]
  have "set (x # ms) \<inter> dom m = (if m x = None then {} else {x}) \<union> (set ms \<inter> (dom m - {x}))" by auto
  then have c: "card (set (x # ms) \<inter> dom m) = (if m x = None then 0 else 1) + ?c" using fin by (simp add: card_insert_if)
  from Cons.IH [OF r(3), of "if m x = None then removed else removed + 1" "if m x = None then delta else delta - int (length x)"] obtain z' where
    z': "zrem_loop E ms z1 (if m x = None then removed else removed + 1) (if m x = None then delta else delta - int (length x))
        = Some ((if m x = None then removed else removed + 1) + int ?c,
            (if m x = None then delta else delta - int (length x)) + (int (zset_payload ?w) - int (zset_payload (m(x := None)))), z')"
      "zset_is z' ?w" by (auto simp del: fun_upd_apply)
  have "zrem_loop E (x # ms) z removed delta = Some (removed + int (card (set (x # ms) \<inter> dom m)),
      delta + (int (zset_payload ?w) - int (zset_payload m)), z')"
    using r(1) rx z'(1) zpayload_del [OF fin, of x] unfolding c by (cases "m x = None") simp_all
  then show ?case using z'(2) by (intro exI [of _ z']) (simp del: zset_is.simps)
qed simp

lemma map_filter_bulks: "List.map_filter bulk_or_simple (bulks ms) = ms"
  by (induction ms) (simp_all add: List.map_filter_simps)

interpretation zr: coll_op lims DZSet proj_zset AZSet zset_is "env_ok lims E" "zrem_value E (bulks ms)" "Inl WrongType" "zrem_effect ms" for lims E ms
proof (rule zset_opI)
  fix z m assume e: "env_ok lims E" and z: "zset_is z m"
  from zrem_loop_is [OF e z, of ms 0 0] obtain z' where
    z': "zrem_loop E ms z 0 0 = Some (int (card (set ms \<inter> dom m)), int (zset_payload (without (set ms) m)) - int (zset_payload m), z')"
      "zset_is z' (without (set ms) m)" by auto
  have "zrem_value E (bulks ms) (DZSet z) = Some (Inr (resp_int (int (card (set ms \<inter> dom m)))), DZSet z',
      int (zset_payload (without (set ms) m)) - int (zset_payload m), without (set ms) m = Map.empty)"
    using z'(1) zempty_is [OF z'(2)] by (simp add: map_filter_bulks)
  then show "\<exists>r z' emptied m'. zrem_value E (bulks ms) (DZSet z) = Some (r, DZSet z', int (zset_payload m') - int (zset_payload m), emptied)
      \<and> zset_is z' m' \<and> zrem_effect ms m = (r, if emptied then None else Some m')"
    by (rule zset_res [OF _ z'(2)]) (simp add: zrem_effect_def unless_bare_def)
next
  fix v :: data_type assume "\<nexists>z. v = DZSet z"
  then show "zrem_value E (bulks ms) v = Some (Inl WrongType, v, 0, False)" by (cases v) auto
qed

text \<open>Entries of the set, each once.\<close>

definition entries_of :: "scores \<Rightarrow> (int \<times> bytes) list \<Rightarrow> bool" where
  "entries_of m L \<longleftrightarrow> distinct L \<and> set L \<subseteq> zgraph m"

lemma entries_members: "entries_of m L \<Longrightarrow> distinct (map snd L) \<and> snd ` set L \<subseteq> dom m"
proof -
  assume "entries_of m L"
  then have L: "distinct L" "set L \<subseteq> zgraph m" by (simp_all add: entries_of_def)
  have "inj_on snd (zgraph m)" by (auto simp: zgraph_def intro!: inj_onI)
  then have "inj_on snd (set L)" using L(2) by (rule inj_on_subset)
  moreover have "snd ` zgraph m \<subseteq> dom m" by (auto simp: zgraph_def)
  ultimately show ?thesis using L by (auto simp: distinct_map)
qed

lemma remove_found_is:
  assumes "env_ok lims E" and "zset_is z m" and "distinct ms" and "set ms \<subseteq> dom m"
  shows "\<exists>z'. remove_found E ms z delta = Some (delta + (int (zset_payload (without (set ms) m)) - int (zset_payload m)), z')
    \<and> zset_is z' (without (set ms) m)"
  using assms(2-4)
proof (induction ms arbitrary: z m delta)
  case (Cons x ms)
  from zremove_env [OF assms(1) Cons.prems(1), of x] obtain r z1 where
    r: "zsetdata_remove (env_olt E) (env_zset E) z x = Some (r, z1)" "zset_is z1 (m(x := None))" by blast
  have "set ms \<subseteq> dom (m(x := None))" using Cons.prems(2,3) by auto
  from Cons.IH [OF r(2) _ this, of "delta - int (length x)"] Cons.prems(2) obtain z' where
    "remove_found E ms z1 (delta - int (length x)) = Some (delta - int (length x)
        + (int (zset_payload (without (set (x # ms)) m)) - int (zset_payload (m(x := None)))), z')"
      "zset_is z' (without (set (x # ms)) m)" by (auto simp del: fun_upd_apply)
  then show ?case using r(1) zpayload_del [OF zset_is_finite [OF Cons.prems(1)], of x] Cons.prems(3)
    by (intro exI [of _ z']) (auto simp del: zset_is.simps)
qed simp

lemma remove_entries_is:
  assumes "env_ok lims E" and "zset_is z m" and "map ek es = L" and "entries_of m L"
  shows "\<exists>r z' emptied m'. remove_entries E es z = Some (r, DZSet z', int (zset_payload m') - int (zset_payload m), emptied)
    \<and> zset_is z' m' \<and> remove_listed L m = (r, if emptied then None else Some m')"
proof -
  have ms: "map fst es = map snd L" using assms(3) by (auto simp: ek_def)
  note d = entries_members [OF assms(4)]
  let ?m = "without (snd ` set L) m"
  from remove_found_is [OF assms(1,2), of "map snd L" 0] d obtain z' where
    z': "remove_found E (map snd L) z 0 = Some (int (zset_payload ?m) - int (zset_payload m), z')" "zset_is z' ?m" by auto
  have "length es = length L" using assms(3) by auto
  then have "remove_entries E es z = Some (Inr (resp_int (int (length L))), DZSet z', int (zset_payload ?m) - int (zset_payload m), ?m = Map.empty)"
    using z'(1) zempty_is [OF z'(2)] by (simp add: remove_entries_def ms)
  then show ?thesis by (rule zset_res [OF _ z'(2)]) (simp add: remove_listed_def unless_bare_def)
qed

lemma zranked_entries:
  assumes "zset_is z m"
  shows "entries_of m (zranked m)"
  using zranked_props [OF assms] by (auto simp: entries_of_def strict_sorted_iff)

lemma entries_of_part: "entries_of m L \<Longrightarrow> entries_of m (take n (drop i (filter P L)))"
  unfolding entries_of_def by (auto dest!: in_set_takeD in_set_dropD)

lemma rank_range_is:
  assumes "zset_is z m"
  shows "\<exists>es. zsetdata_range_by_rank z a b rv = Some es \<and> map ek es = rank_range a b rv m"
  using zsetdata_range_by_rank_is [OF assms] by (simp add: rank_range_def)

lemma rank_range_entries:
  assumes "zset_is z m"
  shows "entries_of m (rank_range a b rv m)"
proof -
  have "entries_of m (if rv then rev (zranked m) else zranked m)" using zranked_entries [OF assms] by (auto simp: entries_of_def)
  then show ?thesis using entries_of_part [where P = "\<lambda>_. True"] by (simp add: rank_range_def Let_def del: if_split)
qed

lemma score_range_is:
  assumes "zset_is z m" and "\<not> f64_is_nan (fst lo)" and "\<not> f64_is_nan (fst hi)"
  shows "map ek (zsetdata_range_by_score z (fst lo) (snd lo) (fst hi) (snd hi) rv off cnt) = score_range lo hi rv (off, cnt) m"
  unfolding zsetdata_range_by_score_is [OF assms] score_range_def score_in_def page_of_def Let_def by (simp split: option.split)

lemma score_range_entries:
  assumes "zset_is z m"
  shows "entries_of m (score_range lo hi False (0, None) m)"
  using entries_of_part [OF zranked_entries [OF assms], where i = 0 and P = "\<lambda>(k, x). score_in lo hi k" and n = "length (filter (\<lambda>(k, x). score_in lo hi k) (zranked m))"]
  by (simp add: score_range_def page_of_def Let_def)

interpretation zk: coll_op lims DZSet proj_zset AZSet zset_is "env_ok lims E" "zremrangebyrank_value E a b" "Inl WrongType"
  "\<lambda>m. remove_listed (rank_range a b False m) m" for lims E a b
proof (rule zset_opI)
  fix z m assume e: "env_ok lims E" and z: "zset_is z m"
  from rank_range_is [OF z, of a b False] obtain es where
    es: "zsetdata_range_by_rank z a b False = Some es" "map ek es = rank_range a b False m" by blast
  then show "\<exists>r z' emptied m'. zremrangebyrank_value E a b (DZSet z) = Some (r, DZSet z', int (zset_payload m') - int (zset_payload m), emptied)
      \<and> zset_is z' m' \<and> remove_listed (rank_range a b False m) m = (r, if emptied then None else Some m')"
    using remove_entries_is [OF e z es(2) rank_range_entries [OF z]] by simp
next
  fix v :: data_type assume "\<nexists>z. v = DZSet z"
  then show "zremrangebyrank_value E a b v = Some (Inl WrongType, v, 0, False)" by (cases v) auto
qed

interpretation zs: coll_op lims DZSet proj_zset AZSet zset_is "env_ok lims E \<and> \<not> f64_is_nan (fst lo) \<and> \<not> f64_is_nan (fst hi)"
  "zremrangebyscore_value E lo hi" "Inl WrongType" "\<lambda>m. remove_listed (score_range lo hi False (0, None) m) m" for lims E lo hi
proof (rule zset_opI)
  fix z m assume a: "env_ok lims E \<and> \<not> f64_is_nan (fst lo) \<and> \<not> f64_is_nan (fst hi)" and z: "zset_is z m"
  then show "\<exists>r z' emptied m'. zremrangebyscore_value E lo hi (DZSet z) = Some (r, DZSet z', int (zset_payload m') - int (zset_payload m), emptied)
      \<and> zset_is z' m' \<and> remove_listed (score_range lo hi False (0, None) m) m = (r, if emptied then None else Some m')"
    using remove_entries_is [OF _ z score_range_is [OF z, of lo hi] score_range_entries [OF z], of lims E] unfolding zremrangebyscore_value.simps by blast
next
  fix v :: data_type assume "\<nexists>z. v = DZSet z"
  then show "zremrangebyscore_value E lo hi v = Some (Inl WrongType, v, 0, False)" by (cases v) auto
qed

text \<open>Popping takes the first or last entry of what is left.\<close>

lemma zranked_del:
  assumes "zset_is z m"
  shows "zranked (m(x := None)) = filter (\<lambda>p. snd p \<noteq> x) (zranked m)"
proof -
  let ?L = "filter (\<lambda>p. snd p \<noteq> x) (zranked m)"
  note r = zranked_props [OF assms]
  have "set ?L = zgraph (m(x := None))" using r(1) by (simp add: zgraph_del)
  moreover have "sorted ?L" "distinct ?L" using r(3) by (simp_all add: strict_sorted_iff sorted_filter [where f = "\<lambda>x. x", simplified])
  ultimately show ?thesis unfolding zranked_def [of "m(x := None)"] by (metis sorted_list_of_set.idem_if_sorted_distinct)
qed

lemma drop_one_entry:
  assumes "distinct (map snd L)" and "L \<noteq> []"
  shows "filter (\<lambda>p. snd p \<noteq> snd (hd L)) L = tl L"
proof -
  obtain p qs where L: "L = p # qs" using assms(2) by (cases L) auto
  then have "snd p \<notin> snd ` set qs" using assms(1) by simp
  then have "filter (\<lambda>q. snd q \<noteq> snd p) qs = qs" by (intro filter_True) (metis imageI)
  then show ?thesis by (simp add: L)
qed

lemma extremes_step:
  fixes mx :: bool
  assumes "zset_is z m" and "zranked m \<noteq> []"
  defines "p \<equiv> (if mx then last (zranked m) else hd (zranked m))"
  shows "extremes mx (Suc n) m = p # extremes mx n (m(snd p := None))"
proof -
  let ?L = "if mx then rev (zranked m) else zranked m"
  have d: "distinct (map snd ?L)" "?L \<noteq> []"
    using entries_members [OF zranked_entries [OF assms(1)]] assms(2) by (simp_all flip: rev_map)
  have p: "p = hd ?L" using assms(2) by (simp add: p_def hd_rev)
  have "filter (\<lambda>q. snd q \<noteq> snd p) ?L = tl ?L" unfolding p by (rule drop_one_entry [OF d])
  then have "(if mx then rev (zranked (m(snd p := None))) else zranked (m(snd p := None))) = tl ?L"
    unfolding zranked_del [OF assms(1)] by (simp add: rev_filter split: if_splits)
  then show ?thesis using d(2) p by (cases ?L) (auto simp: extremes_def simp del: fun_upd_apply)
qed

lemma zpop_loop_is:
  assumes "env_ok lims E" and "zset_is z m"
  shows "\<exists>es z'. map ek es = extremes mx n m
    \<and> zpop_loop E mx n z popped delta = Some (popped @ es,
        delta + (int (zset_payload (without (snd ` set (extremes mx n m)) m)) - int (zset_payload m)), z')
    \<and> zset_is z' (without (snd ` set (extremes mx n m)) m)"
  using assms(2)
proof (induction n arbitrary: z m popped delta)
  case 0
  then show ?case by (auto simp: extremes_def)
next
  case (Suc n)
  let ?p = "if mx then last (zranked m) else hd (zranked m)"
  obtain k x where p: "?p = (k, x)" by force
  from zsetdata_pop_is [OF Suc.prems zset_env(2) [OF assms(1)], of mx, unfolded p Let_def prod.case] obtain r z1 where
    r: "zsetdata_pop_extreme (env_olt E) (env_zset E) z mx = Some (r, z1)"
      "if zranked m = [] then r = None \<and> z1 = z else (\<exists>s. r = Some (s, x) \<and> score_key s = k) \<and> m x = Some k \<and> zset_is z1 (m(x := None))"
    unfolding zset_env(1) [OF assms(1)] by blast
  show ?case
  proof (cases "zranked m = []")
    case True
    then show ?thesis using r Suc.prems by (auto simp: extremes_def simp del: zset_is.simps)
  next
    case False
    then obtain s where s: "r = Some (s, x)" "score_key s = k" "m x = Some k" "zset_is z1 (m(x := None))" using r(2) by auto
    have ext: "extremes mx (Suc n) m = (k, x) # extremes mx n (m(x := None))"
      using extremes_step [OF Suc.prems False, of mx n] unfolding p by simp
    let ?X = "snd ` set (extremes mx n (m(x := None)))"
    from Suc.IH [OF s(4), of "popped @ [(x, s)]" "delta - int (length x)"] obtain es z' where
      ih: "map ek es = extremes mx n (m(x := None))" "zset_is z' (without (insert x ?X) m)"
        "zpop_loop E mx n z1 (popped @ [(x, s)]) (delta - int (length x)) = Some (popped @ (x, s) # es,
          delta - int (length x) + (int (zset_payload (without (insert x ?X) m)) - int (zset_payload (m(x := None)))), z')"
      by (auto simp del: fun_upd_apply)
    have "zpop_loop E mx (Suc n) z popped delta = Some (popped @ (x, s) # es,
        delta + (int (zset_payload (without (insert x ?X) m)) - int (zset_payload m)), z')"
      using r(1) s(1,3) ih(3) zpayload_del [OF zset_is_finite [OF Suc.prems], of x] by simp
    moreover have "map ek ((x, s) # es) = extremes mx (Suc n) m" using ih(1) s(2) by (simp add: ext ek_def)
    moreover have "snd ` set (extremes mx (Suc n) m) = insert x ?X" by (simp add: ext)
    ultimately show ?thesis using ih(2) by metis
  qed
qed

interpretation zp: coll_rop lims DZSet proj_zset AZSet zset_is "env_ok lims E" "zpop_value E mx n" "Inl WrongType" "zpop_rel mx n" for lims E mx n
proof (rule zset_ropI)
  fix z m assume e: "env_ok lims E" and z: "zset_is z m"
  let ?m = "without (snd ` set (extremes mx n m)) m"
  from zpop_loop_is [OF e z, of mx n "[]" 0] obtain es z' where
    l: "map ek es = extremes mx n m" "zpop_loop E mx n z [] 0 = Some (es, int (zset_payload ?m) - int (zset_payload m), z')" "zset_is z' ?m" by auto
  have "zpop_value E mx n (DZSet z) = Some (Inr (resp_array (format_zrange_result es True)), DZSet z', int (zset_payload ?m) - int (zset_payload m), ?m = Map.empty)"
    using l(2) zempty_is [OF l(3)] by simp
  then show "\<exists>r z' emptied m'. zpop_value E mx n (DZSet z) = Some (r, DZSet z', int (zset_payload m') - int (zset_payload m), emptied)
      \<and> zset_is z' m' \<and> zpop_rel mx n m r (if emptied then None else Some m')"
    by (rule zset_res [OF _ l(3)]) (use l(1) in \<open>auto simp: zpop_rel_def lists_scores_def unless_bare_def\<close>)
next
  fix v :: data_type assume "\<nexists>z. v = DZSet z"
  then show "zpop_value E mx n v = Some (Inl WrongType, v, 0, False)" by (cases v) auto
qed

definition zmpop_rel :: "bytes \<Rightarrow> bool \<Rightarrow> nat \<Rightarrow> scores \<Rightarrow> resp option \<Rightarrow> scores option \<Rightarrow> bool" where
  "zmpop_rel key mn n m r m' \<longleftrightarrow> (let L = extremes (\<not> mn) n m in
     if L = [] then r = None \<and> m' = Some m
     else m' = unless_bare (without (snd ` set L) m) \<and> (\<exists>es. map ek es = L
       \<and> r = Some (resp_array [resp_bulk key, resp_array (map (\<lambda>(x, s). resp_array [resp_bulk x, resp_bulk_str (format_float s)]) es)])))"

interpretation zm: coll_rop lims DZSet proj_zset AZSet zset_is "env_ok lims E" "zmpop_value E key mn n" None "zmpop_rel key mn n" for lims E key mn n
proof (rule zset_ropI)
  fix z m assume e: "env_ok lims E" and z: "zset_is z m"
  let ?L = "extremes (\<not> mn) n m"
  let ?m = "without (snd ` set ?L) m"
  from zpop_loop_is [OF e z, of "\<not> mn" n "[]" 0] obtain es z' where
    l: "map ek es = ?L" "zpop_loop E (\<not> mn) n z [] 0 = Some (es, int (zset_payload ?m) - int (zset_payload m), z')" "zset_is z' ?m" by auto
  have nil: "es = [] \<longleftrightarrow> ?L = []" using l(1) by auto
  let ?P = "\<lambda>fv. \<exists>r z' emptied m'. fv = Some (r, DZSet z', int (zset_payload m') - int (zset_payload m), emptied)
      \<and> zset_is z' m' \<and> zmpop_rel key mn n m r (if emptied then None else Some m')"
  show "?P (zmpop_value E key mn n (DZSet z))"
  proof (cases "m = Map.empty")
    case True
    then have "zranked m = []" by (simp add: zranked_def zgraph_def)
    then have L: "?L = []" by (simp add: extremes_def)
    have "zmpop_value E key mn n (DZSet z) = Some (None, DZSet z, int (zset_payload m) - int (zset_payload m), False)"
      using zempty_is [OF z] True by simp
    then show ?thesis by (rule zset_res [OF _ z]) (simp add: zmpop_rel_def L)
  next
    case False
    let ?r = "resp_array [resp_bulk key, resp_array (map (\<lambda>(x, s). resp_array [resp_bulk x, resp_bulk_str (format_float s)]) es)]"
    have v: "zmpop_value E key mn n (DZSet z) = Some (if es = [] then (None, DZSet z', 0, False)
        else (Some ?r, DZSet z', int (zset_payload ?m) - int (zset_payload m), ?m = Map.empty))"
      using zempty_is [OF z] zempty_is [OF l(3)] False l(2) by simp
    show ?thesis
    proof (cases "es = []")
      case True
      then have "zmpop_value E key mn n (DZSet z) = Some (None, DZSet z', int (zset_payload ?m) - int (zset_payload m), False)"
        using v nil by simp
      then show ?thesis by (rule zset_res [OF _ l(3)]) (use True nil in \<open>simp add: zmpop_rel_def\<close>)
    next
      case ne: False
      then have "zmpop_value E key mn n (DZSet z) = Some (Some ?r, DZSet z', int (zset_payload ?m) - int (zset_payload m), ?m = Map.empty)" using v by simp
      then show ?thesis by (rule zset_res [OF _ l(3)]) (use ne nil l(1) in \<open>auto simp: zmpop_rel_def unless_bare_def Let_def\<close>)
    qed
  qed
next
  fix v :: data_type assume "\<nexists>z. v = DZSet z"
  then show "zmpop_value E key mn n v = Some (None, v, 0, False)" by (cases v) auto
qed

section \<open>The readers\<close>

definition rank_of :: "bytes \<Rightarrow> bool \<Rightarrow> scores \<Rightarrow> nat option" where
  "rank_of x rv m = (case m x of
     None \<Rightarrow> None
   | Some k \<Rightarrow> if k = 2 ^ 63 then None else Some (card {p \<in> zgraph m. if rv then p > (k, x) else p < (k, x)}))"

definition int_or_null :: "nat option \<Rightarrow> resp" where
  "int_or_null x = (case x of Some n \<Rightarrow> resp_int (int n) | None \<Rightarrow> resp_null)"

text \<open>A list of the members with their scores, in any order.\<close>

definition lists_zset :: "(bytes \<times> f64) list \<Rightarrow> scores \<Rightarrow> bool" where
  "lists_zset ps m \<longleftrightarrow> distinct (map fst ps) \<and> (\<lambda>x. map_option score_key (map_of ps x)) = m"

definition zscan_rel :: "u64 option \<Rightarrow> bytes option \<times> nat \<Rightarrow> scores \<Rightarrow> resp result \<Rightarrow> bool" where
  "zscan_rel cursor op m r \<longleftrightarrow> (\<exists>ps items nxt. lists_zset ps m
     \<and> scan_select_page (filter (\<lambda>(x, _). glob_match (scan_pattern (fst op)) x) ps) cursor (snd op) fst = (items, nxt)
     \<and> r = Inr (resp_array [resp_bulk_str (dec_int (int (unat nxt))), resp_array (format_zrange_result items True)]))"

definition zsample_rel :: "int option \<Rightarrow> bool \<Rightarrow> scores \<Rightarrow> resp result \<Rightarrow> bool" where
  "zsample_rel cnt ws m r \<longleftrightarrow>
     (if m = Map.empty then r = Inr (if cnt \<noteq> None then resp_array [] else resp_null)
      else case cnt of
        None \<Rightarrow> \<exists>x s. m x = Some (score_key s) \<and> r = Inr (if ws then resp_array [resp_bulk x, resp_bulk_str (format_float s)] else resp_bulk x)
      | Some n \<Rightarrow> \<exists>es. r = Inr (resp_array (format_zrange_result es ws)) \<and> ek ` set es \<subseteq> zgraph m
          \<and> (if n < 0 then length es = min (nat (- n)) MAX_RANDOM_SAMPLE
             else distinct (map fst es) \<and> length es = min (nat n) (card (dom m))))"

text \<open>Members with their scores before them.\<close>

definition lists_lex :: "bytes list \<Rightarrow> bool \<Rightarrow> scores \<Rightarrow> resp result \<Rightarrow> bool" where
  "lists_lex ms ws m r \<longleftrightarrow> (\<exists>f. (\<forall>x. x \<in> set ms \<longrightarrow> m x = Some (score_key (f x)))
     \<and> r = Inr (resp_array (concat (map (\<lambda>x. (if ws then [resp_bulk_str (format_float (f x))] else []) @ [resp_bulk x]) ms))))"

lemma to_pairs_is:
  assumes "zset_is z m" and "zset_order ord"
  shows "lists_zset (zsetdata_to_pairs ord z) m"
proof (cases z)
  case (ZSetCompact c)
  then obtain ps where ps: "c = cz_rep ps" "zsorted ps" "zk ` set ps = zgraph m" "\<forall>x \<in> dom m. fits x" using assms by auto
  then have "cz_iter_pairs c = map prod.swap ps" using members_dom [OF ps(3)] by (simp add: cz_iter_rep)
  then show ?thesis using members_distinct [OF ps(2,3)] score_map_of [OF ps(2,3)] by (auto simp: ZSetCompact lists_zset_def comp_def)
next
  case (ZSetSkiplist s)
  then have z: "distinct (map fst (sk_members s))" "(\<lambda>x. map_option score_key (map_of (sk_members s) x)) = m" using assms by auto
  then show ?thesis using zset_order_props [OF assms(2) z(1)] by (simp add: ZSetSkiplist lists_zset_def)
qed

lemma lists_zset_props:
  assumes "lists_zset ps m"
  shows "ek ` set ps = zgraph m" and "fst ` set ps = dom m" and "length ps = card (dom m)"
proof -
  have d: "distinct (map fst ps)" and m: "\<And>x. map_option score_key (map_of ps x) = m x"
    using assms by (auto simp: lists_zset_def fun_eq_iff)
  have "(k, x) \<in> ek ` set ps \<longleftrightarrow> m x = Some k" for k x
    using m [of x, symmetric] map_of_eq_Some_iff [OF d, of x] by (force simp: ek_def)
  then show "ek ` set ps = zgraph m" by (auto simp: zgraph_def)
  show f: "fst ` set ps = dom m" unfolding dom_map_of_conv_image_fst [symmetric] by (auto simp: domIff m [symmetric])
  show "length ps = card (dom m)" using distinct_card [OF d] f by simp
qed

interpretation rc: coll_view lims DZSet proj_zset AZSet zset_is True zcard_value "Inl WrongType" "\<lambda>m. Inr (resp_int (int (card (dom m))))" for lims
proof
  fix v :: data_type assume "\<nexists>z. v = DZSet z"
  then show "zcard_value v = Some (Inl WrongType)" by (cases v) auto
qed (simp add: zsetdata_len_is)

lemma score_or_null_is: "zset_is z m \<Longrightarrow> score_reply (m x) (score_or_null (zsetdata_score z x))"
  using zsetdata_score_is [of z m x] by (auto simp: score_reply_def)

interpretation re: coll_rview lims DZSet proj_zset AZSet zset_is True "zscore_value x" "Inl WrongType"
  "\<lambda>m r. \<exists>v. score_reply (m x) v \<and> r = Inr v" for lims x
proof
  fix v :: data_type assume "\<nexists>z. v = DZSet z"
  then show "zscore_value x v = Some (Inl WrongType)" by (cases v) auto
qed (use score_or_null_is in auto)

interpretation rm: coll_rview lims DZSet proj_zset AZSet zset_is True "zmscore_value (bulks xs)" "Inr (resp_array (map (\<lambda>_. resp_null) (bulks xs)))"
  "\<lambda>m r. \<exists>vs. list_all2 score_reply (map m xs) vs \<and> r = Inr (resp_array vs)" for lims xs
proof
  fix z m assume z: "zset_is z m"
  have "zmscore_value (bulks xs) (DZSet z) = Some (Inr (resp_array (map (\<lambda>x. score_or_null (zsetdata_score z x)) xs)))"
    by (simp add: bulks_def comp_def)
  moreover have "list_all2 score_reply (map m xs) (map (\<lambda>x. score_or_null (zsetdata_score z x)) xs)"
    using score_or_null_is [OF z] by (simp add: list_all2_conv_all_nth)
  ultimately show "\<exists>r. zmscore_value (bulks xs) (DZSet z) = Some r \<and> (\<exists>vs. list_all2 score_reply (map m xs) vs \<and> r = Inr (resp_array vs))" by blast
next
  fix v :: data_type assume "\<nexists>z. v = DZSet z"
  then show "zmscore_value (bulks xs) v = Some (Inr (resp_array (map (\<lambda>_. resp_null) (bulks xs))))" by (cases v) auto
qed

interpretation rk: coll_view lims DZSet proj_zset AZSet zset_is True "zrank_value x rv" "Inl WrongType" "\<lambda>m. Inr (int_or_null (rank_of x rv m))" for lims x rv
proof
  fix z m assume z: "zset_is z m"
  have "zsetdata_rank z x rv = Some (rank_of x rv m)"
  proof (cases "m x")
    case None
    then show ?thesis using zsetdata_rank_missing [OF z] by (simp add: rank_of_def)
  next
    case (Some k)
    then show ?thesis using zsetdata_rank_nan [OF z, of x rv] zsetdata_rank_is [OF z Some] by (cases "k = 2 ^ 63"; cases rv) (simp_all add: rank_of_def)
  qed
  then show "zrank_value x rv (DZSet z) = Some (Inr (int_or_null (rank_of x rv m)))" by (simp add: int_or_null_def)
next
  fix v :: data_type assume "\<nexists>z. v = DZSet z"
  then show "zrank_value x rv v = Some (Inl WrongType)" by (cases v) auto
qed

definition zrange_rel :: "zrange_opts \<Rightarrow> zrange_kind \<Rightarrow> bytes \<Rightarrow> bytes \<Rightarrow> scores \<Rightarrow> resp result \<Rightarrow> bool" where
  "zrange_rel op kind a b m r \<longleftrightarrow> (case kind of
     ByRank \<Rightarrow> (case attempt_e (rank_bound a) (\<lambda>i. attempt_e (rank_bound b) (\<lambda>j. Inr (i, j))) of
       Inl e \<Rightarrow> r = Inl e | Inr (i, j) \<Rightarrow> lists_scores (rank_range i j (zr_rev op) m) (zr_withscores op) r)
   | ByScore \<Rightarrow> (case attempt_e (parse_score_bound a) (\<lambda>lo. attempt_e (parse_score_bound b) (\<lambda>hi. Inr (lo, hi))) of
       Inl e \<Rightarrow> r = Inl e | Inr (lo, hi) \<Rightarrow> lists_scores (score_range lo hi (zr_rev op) (zr_limit op) m) (zr_withscores op) r)
   | ByLex \<Rightarrow> (let ms = lex_range (parse_lex_bounds a b) m in
       lists_lex (page_of (zr_limit op) (if zr_rev op then rev ms else ms)) (zr_withscores op) m r))"

lemma lists_scoresI: "map ek es = L \<Longrightarrow> lists_scores L ws (Inr (resp_array (format_zrange_result es ws)))"
  by (auto simp: lists_scores_def)

lemma lex_members_is:
  assumes "env_ok lims E" and "zset_is z m"
  shows "lex_members E lb z = lex_range lb m"
proof -
  obtain lo lx hi hx where lb: "lb = (lo, lx, hi, hx)" by (metis prod_cases4)
  show ?thesis using zsetdata_range_by_lex_is [OF assms(2) zset_env(3) [OF assms(1)], of lo lx hi hx]
    by (simp add: lb lex_members_def lex_range_def lex_in_def [abs_def])
qed

lemma set_page_of: "x \<in> set (page_of lm xs) \<Longrightarrow> x \<in> set xs"
  by (cases lm) (auto simp: page_of_def split: option.splits dest: in_set_takeD in_set_dropD)

lemma set_lex_range: "finite (dom m) \<Longrightarrow> set (lex_range lb m) \<subseteq> dom m"
  by (auto simp: lex_range_def)

lemma lex_replies_is:
  assumes "zset_is z m" and "set ms \<subseteq> dom m"
  shows "lists_lex ms ws m (Inr (resp_array (lex_replies E z ws ms)))"
proof -
  have "m x = Some (score_key (case zsetdata_score z x of Some s \<Rightarrow> s | None \<Rightarrow> 0))" if "x \<in> dom m" for x
    using that zsetdata_score_is [OF assms(1), of x] by auto
  then have "\<forall>x. x \<in> set ms \<longrightarrow> m x = Some (score_key (case zsetdata_score z x of Some s \<Rightarrow> s | None \<Rightarrow> 0))" using subsetD [OF assms(2)] by blast
  then show ?thesis unfolding lists_lex_def lex_replies_def by (intro exI conjI) (assumption, rule refl)
qed

interpretation rr: coll_rview lims DZSet proj_zset AZSet zset_is "env_ok lims E" "zrange_value E op kind a b" "Inl WrongType"
  "zrange_rel op kind a b" for lims E op kind a b
proof
  fix z m assume e: "env_ok lims E" and z: "zset_is z m"
  show "\<exists>r. zrange_value E op kind a b (DZSet z) = Some r \<and> zrange_rel op kind a b m r"
  proof (cases kind)
    case ByRank
    show ?thesis
    proof (cases "attempt_e (rank_bound a) (\<lambda>i. attempt_e (rank_bound b) (\<lambda>j. Inr (i, j)))")
      case (Inr ij)
      obtain es where "zsetdata_range_by_rank z (fst ij) (snd ij) (zr_rev op) = Some es" "map ek es = rank_range (fst ij) (snd ij) (zr_rev op) m"
        using rank_range_is [OF z] by blast
      then show ?thesis using Inr lists_scoresI by (cases ij) (simp add: ByRank zrange_rel_def)
    qed (simp add: ByRank zrange_rel_def)
  next
    case ByScore
    show ?thesis
    proof (cases "parse_score_bound a"; cases "parse_score_bound b")
      fix lo hi assume p: "parse_score_bound a = Inr lo" "parse_score_bound b = Inr hi"
      note es = score_range_is [OF z parsed_number [OF p(1)] parsed_number [OF p(2)], of "zr_rev op" "fst (zr_limit op)" "snd (zr_limit op)"]
      show ?thesis using p lists_scoresI [OF es, of "zr_withscores op"] by (cases lo; cases hi) (simp add: ByScore zrange_rel_def)
    qed (simp_all add: ByScore zrange_rel_def split: prod.split)
  next
    case ByLex
    let ?ms = "page_of (zr_limit op) (if zr_rev op then rev (lex_range (parse_lex_bounds a b) m) else lex_range (parse_lex_bounds a b) m)"
    have "set ?ms \<subseteq> set (lex_range (parse_lex_bounds a b) m)" by (auto dest!: set_page_of split: if_splits)
    then have "set ?ms \<subseteq> dom m" using set_lex_range [OF zset_is_finite [OF z], of "parse_lex_bounds a b"] by (rule subset_trans)
    from lex_replies_is [OF z this, of "zr_withscores op" E] show ?thesis by (simp add: ByLex zrange_rel_def lex_members_is [OF e z] Let_def)
  qed
next
  fix v :: data_type assume "\<nexists>z. v = DZSet z"
  then show "zrange_value E op kind a b v = Some (Inl WrongType)" by (cases v; cases kind) auto
qed

interpretation rv: coll_rview lims DZSet proj_zset AZSet zset_is True "zrevrange_value i j ws" "Inl WrongType"
  "\<lambda>m. lists_scores (rank_range i j True m) ws" for lims i j ws
proof
  fix z m assume "zset_is z m"
  from rank_range_is [OF this, of i j True] show "\<exists>r. zrevrange_value i j ws (DZSet z) = Some r \<and> lists_scores (rank_range i j True m) ws r"
    using lists_scoresI by auto
next
  fix v :: data_type assume "\<nexists>z. v = DZSet z"
  then show "zrevrange_value i j ws v = Some (Inl WrongType)" by (cases v) auto
qed

interpretation rs: coll_rview lims DZSet proj_zset AZSet zset_is "\<not> f64_is_nan (fst lo) \<and> \<not> f64_is_nan (fst hi)" "score_range_value lo hi rv op" "Inl WrongType"
  "\<lambda>m. lists_scores (score_range lo hi rv (snd op) m) (fst op)" for lims lo hi rv op
proof
  fix z m assume "\<not> f64_is_nan (fst lo) \<and> \<not> f64_is_nan (fst hi)" and "zset_is z m"
  then show "\<exists>r. score_range_value lo hi rv op (DZSet z) = Some r \<and> lists_scores (score_range lo hi rv (snd op) m) (fst op) r"
    using lists_scoresI [OF score_range_is [of z m lo hi rv "fst (snd op)" "snd (snd op)"], of "fst op"] by simp
next
  fix v :: data_type assume "\<nexists>z. v = DZSet z"
  then show "score_range_value lo hi rv op v = Some (Inl WrongType)" by (cases v) auto
qed

interpretation rl: coll_view lims DZSet proj_zset AZSet zset_is "env_ok lims E" "zrangebylex_value E lb" "Inl WrongType"
  "\<lambda>m. Inr (resp_array (map resp_bulk (lex_range lb m)))" for lims E lb
proof
  fix v :: data_type assume "\<nexists>z. v = DZSet z"
  then show "zrangebylex_value E lb v = Some (Inl WrongType)" by (cases v) auto
qed (simp add: lex_members_is)

interpretation rn: coll_view lims DZSet proj_zset AZSet zset_is "\<not> f64_is_nan (fst lo) \<and> \<not> f64_is_nan (fst hi)" "zcount_value lo hi" "Inl WrongType"
  "\<lambda>m. Inr (resp_int (int (length (score_range lo hi False (0, None) m))))" for lims lo hi
proof
  fix z m assume "\<not> f64_is_nan (fst lo) \<and> \<not> f64_is_nan (fst hi)" and "zset_is z m"
  then show "zcount_value lo hi (DZSet z) = Some (Inr (resp_int (int (length (score_range lo hi False (0, None) m)))))"
    using arg_cong [OF score_range_is [of z m lo hi False 0 None], of length] by simp
next
  fix v :: data_type assume "\<nexists>z. v = DZSet z"
  then show "zcount_value lo hi v = Some (Inl WrongType)" by (cases v) auto
qed

interpretation rx: coll_view lims DZSet proj_zset AZSet zset_is "env_ok lims E" "zlexcount_value E lb" "Inl WrongType"
  "\<lambda>m. Inr (resp_int (int (length (lex_range lb m))))" for lims E lb
proof
  fix v :: data_type assume "\<nexists>z. v = DZSet z"
  then show "zlexcount_value E lb v = Some (Inl WrongType)" by (cases v) auto
qed (simp add: lex_members_is)

lemma those_picks:
  assumes "xs \<noteq> []"
  shows "\<exists>ys. those (map (\<lambda>i. index xs (pseudo_rand_idx (nanos i) (length xs))) is) = Some ys \<and> length ys = length is \<and> set ys \<subseteq> set xs"
proof (induction "is")
  case (Cons i "is")
  then obtain ys where "those (map (\<lambda>i. index xs (pseudo_rand_idx (nanos i) (length xs))) is) = Some ys" "length ys = length is" "set ys \<subseteq> set xs" by blast
  moreover have "pseudo_rand_idx (nanos i) (length xs) < length xs" using pseudo_rand_less assms by simp
  ultimately show ?case by (auto simp: index_def intro!: exI [of _ "xs ! pseudo_rand_idx (nanos i) (length xs) # ys"])
qed simp

interpretation ra: coll_rview lims DZSet proj_zset AZSet zset_is "env_ok lims E" "zrandmember_value E cnt ws" "Inl WrongType" "zsample_rel cnt ws" for lims E cnt ws
proof
  fix z m assume e: "env_ok lims E" and z: "zset_is z m"
  let ?ps = "zsetdata_to_pairs (env_zset_order E) z"
  have l: "lists_zset ?ps m" by (rule to_pairs_is [OF z zset_env(3) [OF e]])
  note p = lists_zset_props [OF l]
  have nil: "?ps = [] \<longleftrightarrow> m = Map.empty" using p(2) [symmetric] by (auto simp flip: dom_eq_empty_conv)
  have d: "distinct (map fst ?ps)" using l by (simp add: lists_zset_def)
  show "\<exists>r. zrandmember_value E cnt ws (DZSet z) = Some r \<and> zsample_rel cnt ws m r"
  proof (cases "m = Map.empty")
    case True
    then show ?thesis using nil by (simp add: zsample_rel_def)
  next
    case False
    then have ne: "?ps \<noteq> []" using nil by simp
    show ?thesis
    proof (cases cnt)
      case None
      let ?i = "pseudo_rand_idx (env_nanos E 0) (length ?ps)"
      obtain x s where xs: "?ps ! ?i = (x, s)" by force
      have i: "?i < length ?ps" using pseudo_rand_less ne by simp
      then have "(x, s) \<in> set ?ps" using nth_mem xs by metis
      then have "ek (x, s) \<in> zgraph m" using p(1) by blast
      then have "m x = Some (score_key s)" by (simp add: zgraph_def ek_def)
      then show ?thesis using False ne i xs by (auto simp: None zsample_rel_def index_def Let_def)
    next
      case (Some n)
      show ?thesis
      proof (cases "n < 0")
        case True
        from those_picks [OF ne, of "env_nanos E" "[0..<min (nat (- n)) MAX_RANDOM_SAMPLE]"] obtain ys where
          ys: "those (map (\<lambda>i. index ?ps (pseudo_rand_idx (env_nanos E i) (length ?ps))) [0..<min (nat (- n)) MAX_RANDOM_SAMPLE]) = Some ys"
            "length ys = min (nat (- n)) MAX_RANDOM_SAMPLE" "set ys \<subseteq> set ?ps" by auto
        have "ek ` set ys \<subseteq> zgraph m" unfolding p(1) [symmetric] using ys(3) by (rule image_mono)
        then show ?thesis using False ne True ys(1,2) by (auto simp: Some zsample_rel_def Let_def)
      next
        case pos: False
        have "ek ` set (take (nat n) ?ps) \<subseteq> zgraph m" unfolding p(1) [symmetric] by (rule image_mono [OF set_take_subset])
        moreover have "distinct (map fst (take (nat n) ?ps))" using d by (simp flip: take_map)
        moreover have "length (take (nat n) ?ps) = min (nat n) (card (dom m))" using p(3) by simp
        moreover have "zrandmember_value E cnt ws (DZSet z) = Some (Inr (resp_array (format_zrange_result (take (nat n) ?ps) ws)))"
          using ne pos by (simp add: Some Let_def)
        ultimately show ?thesis using False pos unfolding zsample_rel_def Some by auto
      qed
    qed
  qed
next
  fix v :: data_type assume "\<nexists>z. v = DZSet z"
  then show "zrandmember_value E cnt ws v = Some (Inl WrongType)" by (cases v) auto
qed

interpretation ro: coll_rview lims DZSet proj_zset AZSet zset_is "env_ok lims E" "zscan_value E cursor op" "Inl WrongType" "zscan_rel cursor op" for lims E cursor op
proof
  fix z m assume "env_ok lims E" and "zset_is z m"
  then have "lists_zset (zsetdata_to_pairs (env_zset_order E) z) m" using to_pairs_is zset_env(3) by blast
  moreover obtain items nxt where
    "scan_select_page (filter (\<lambda>(x, _). glob_match (scan_pattern (fst op)) x) (zsetdata_to_pairs (env_zset_order E) z)) cursor (snd op) fst = (items, nxt)" by force
  ultimately show "\<exists>r. zscan_value E cursor op (DZSet z) = Some r \<and> zscan_rel cursor op m r" by (auto simp: zscan_rel_def)
next
  fix v :: data_type assume "\<nexists>z. v = DZSet z"
  then show "zscan_value E cursor op v = Some (Inl WrongType)" by (cases v) auto
qed

text \<open>Reading an operand.\<close>

interpretation ou: coll_rview lims DZSet proj_zset AZSet zset_is True zset_or_none "Inr None" "\<lambda>m r. \<exists>z. r = Inr (Some z) \<and> zset_is z m" for lims
proof
  fix v :: data_type assume "\<nexists>z. v = DZSet z"
  then show "zset_or_none v = Some (Inr None)" by (cases v) auto
qed auto

interpretation oi: coll_rview lims DZSet proj_zset AZSet zset_is True zset_or_wrong "Inl WrongType" "\<lambda>m r. \<exists>z. r = Inr (Some z) \<and> zset_is z m" for lims
proof
  fix v :: data_type assume "\<nexists>z. v = DZSet z"
  then show "zset_or_wrong v = Some (Inl WrongType)" by (cases v) auto
qed auto

text \<open>The entries ZRANGESTORE copies.\<close>

definition range_entries :: "rangestore_opts \<Rightarrow> bytes \<Rightarrow> bytes \<Rightarrow> scores \<Rightarrow> (int \<times> bytes) list result" where
  "range_entries op a b m =
     (if rs_byscore op then attempt_e (parse_score_bound a) (\<lambda>lo. attempt_e (parse_score_bound b) (\<lambda>hi.
        Inr (score_range lo hi (rs_rev op) (rs_limit op) m)))
      else if rs_bylex op then (let ms = lex_range (trimmed_lex_bounds a b) m in
        Inr (map (\<lambda>x. (the (m x), x)) (page_of (rs_limit op) (if rs_rev op then rev ms else ms))))
      else attempt_e (rank_bound_store a) (\<lambda>i. attempt_e (rank_bound_store b) (\<lambda>j. Inr (rank_range i j (rs_rev op) m))))"

lemma map_page_of: "map f (page_of lm xs) = page_of lm (map f xs)"
  by (cases "snd lm") (simp_all add: page_of_def take_map drop_map)

lemma range_by_lex_is:
  assumes "env_ok lims E" and "zset_is z m"
  shows "map ek (range_by_lex E z a b rv lm) = (let ms = lex_range (trimmed_lex_bounds a b) m in
    map (\<lambda>x. (the (m x), x)) (page_of lm (if rv then rev ms else ms)))"
proof -
  have f: "map ek (List.map_filter (\<lambda>x. map_option (\<lambda>s. (x, s)) (zsetdata_score z x)) ms) = map (\<lambda>x. (the (m x), x)) ms" if "set ms \<subseteq> dom m" for ms
    using that
  proof (induction ms)
    case (Cons x ms)
    obtain s where "zsetdata_score z x = Some s" "m x = Some (score_key s)"
      using Cons.prems zsetdata_score_is [OF assms(2), of x] by auto
    then show ?case using Cons by (simp add: List.map_filter_simps ek_def)
  qed (simp add: List.map_filter_simps)
  note s = f [OF set_lex_range [OF zset_is_finite [OF assms(2)], of "trimmed_lex_bounds a b"]]
  show ?thesis unfolding range_by_lex_def Let_def lex_members_is [OF assms] map_page_of
    by (cases rv) (simp_all add: s flip: rev_map)
qed

interpretation og: coll_rview lims DZSet proj_zset AZSet zset_is "env_ok lims E" "rangestore_value E op a b" "Inl WrongType"
  "\<lambda>m r. map_sum id (map ek) r = range_entries op a b m" for lims E op a b
proof
  fix z m assume e: "env_ok lims E" and z: "zset_is z m"
  show "\<exists>r. rangestore_value E op a b (DZSet z) = Some r \<and> map_sum id (map ek) r = range_entries op a b m"
  proof (cases "rs_byscore op")
    case True
    show ?thesis
    proof (cases "parse_score_bound a"; cases "parse_score_bound b")
      fix lo hi assume p: "parse_score_bound a = Inr lo" "parse_score_bound b = Inr hi"
      show ?thesis using p score_range_is [OF z parsed_number [OF p(1)] parsed_number [OF p(2)], of "rs_rev op" "fst (rs_limit op)" "snd (rs_limit op)"]
        by (cases lo; cases hi) (simp add: True range_entries_def)
    qed (simp_all add: True range_entries_def split: prod.split)
  next
    case score: False
    show ?thesis
    proof (cases "rs_bylex op")
      case True
      then show ?thesis using score range_by_lex_is [OF e z, of a b "rs_rev op" "rs_limit op"] by (simp add: range_entries_def Let_def)
    next
      case lex: False
      show ?thesis
      proof (cases "attempt_e (rank_bound_store a) (\<lambda>i. attempt_e (rank_bound_store b) (\<lambda>j. Inr (i, j)))")
        case (Inl err)
        then show ?thesis using score lex by (auto simp: range_entries_def attempt_e_def split: sum.splits)
      next
        case (Inr ij)
        obtain es where es: "zsetdata_range_by_rank z (fst ij) (snd ij) (rs_rev op) = Some es" "map ek es = rank_range (fst ij) (snd ij) (rs_rev op) m"
          using rank_range_is [OF z] by blast
        show ?thesis using es Inr score lex by (auto simp: range_entries_def attempt_e_def split: sum.splits)
      qed
    qed
  qed
next
  fix v :: data_type assume "\<nexists>z. v = DZSet z"
  then show "rangestore_value E op a b v = Some (Inl WrongType)" by (cases v) auto
qed

end
