(* ===== verification/ZSet_Join.thy ===== *)
theory ZSet_Join
  imports ZSet_Laws
begin

text \<open>
  The sorted set commands over several keys: what a union, an intersection and a difference of the operands are, member by
  member, and that the loops of \<^verbatim>\<open>command/zset.rs\<close> compute them.
\<close>

section \<open>Operands\<close>

definition zset_at :: "nat \<Rightarrow> keyspace \<Rightarrow> bytes \<Rightarrow> scores option result" where
  "zset_at now A k = view_at proj_zset now k (Inr None) (Inl WrongType) (\<lambda>m. Inr (Some m)) A"

definition scores_at :: "nat \<Rightarrow> keyspace \<Rightarrow> bytes \<Rightarrow> scores" where
  "scores_at now A k = (case zset_at now A k of Inr (Some m) \<Rightarrow> m | _ \<Rightarrow> Map.empty)"

lemma zset_at_cases: obtains "zset_at now A k = Inl WrongType" | "zset_at now A k = Inr None" | m where "zset_at now A k = Inr (Some m)"
proof (cases "alive now (A k)")
  case (Some c)
  obtain a t where "c = (a, t)" by force
  then show thesis using that Some by (cases "proj_zset a") (auto simp: zset_at_def view_at_def)
qed (use that in \<open>simp add: zset_at_def view_at_def\<close>)

lemma lazy_zset_at: "lazy_expire now A B \<Longrightarrow> zset_at now B k = zset_at now A k"
  by (simp add: zset_at_def view_at_def lazy_alive)

lemma lazy_scores_at: "lazy_expire now A B \<Longrightarrow> scores_at now B k = scores_at now A k"
  by (simp add: scores_at_def lazy_zset_at)

text \<open>Reading an operand: a value of another type is an error or counts as nothing.\<close>

lemma read_or_none:
  fixes s :: cmd_state
  assumes "ks_is lims clk (cs_db s) A"
  shows "\<exists>r s' B. view_rw E k (Inr None) zset_or_none s = Some (Inr r, s') \<and> lazy_expire (env_now E) A B \<and> ks_is lims clk (cs_db s') B
    \<and> (case r of None \<Rightarrow> scores_at (env_now E) A k = Map.empty | Some z \<Rightarrow> zset_is z (scores_at (env_now E) A k))"
proof -
  from ou.view_rw_ok [OF TrueI assms, of E k "Inr None"] obtain r s' where
    r: "view_rw E k (Inr None) zset_or_none s = Some (r, s')"
      "view_rel proj_zset (env_now E) k (Inr None) (Inr None) (\<lambda>m r. \<exists>z. r = Inr (Some z) \<and> zset_is z m) A r"
      "ks_is lims clk (cs_db s') (A(k := alive (env_now E) (A k)))" by blast
  have "\<exists>x. r = Inr x \<and> (case x of None \<Rightarrow> scores_at (env_now E) A k = Map.empty | Some z \<Rightarrow> zset_is z (scores_at (env_now E) A k))"
    using r(2) by (auto simp: view_rel_def scores_at_def zset_at_def view_at_def simp del: zset_is.simps split: option.splits)
  then show ?thesis using r(1,3) lazy_step by blast
qed

lemma read_or_wrong:
  fixes s :: cmd_state
  assumes "ks_is lims clk (cs_db s) A"
  shows "\<exists>r s' B. view_rw E k (Inr None) zset_or_wrong s = Some (r, s') \<and> lazy_expire (env_now E) A B \<and> ks_is lims clk (cs_db s') B
    \<and> (case zset_at (env_now E) A k of Inl e \<Rightarrow> r = Inl e | Inr None \<Rightarrow> r = Inr None | Inr (Some m) \<Rightarrow> \<exists>z. r = Inr (Some z) \<and> zset_is z m)"
proof -
  from oi.view_rw_ok [OF TrueI assms, of E k "Inr None"] obtain r s' where
    r: "view_rw E k (Inr None) zset_or_wrong s = Some (r, s')"
      "view_rel proj_zset (env_now E) k (Inr None) (Inl WrongType) (\<lambda>m r. \<exists>z. r = Inr (Some z) \<and> zset_is z m) A r"
      "ks_is lims clk (cs_db s') (A(k := alive (env_now E) (A k)))" by blast
  have "case zset_at (env_now E) A k of Inl e \<Rightarrow> r = Inl e | Inr None \<Rightarrow> r = Inr None | Inr (Some m) \<Rightarrow> \<exists>z. r = Inr (Some z) \<and> zset_is z m"
    using r(2) by (auto simp: view_rel_def zset_at_def view_at_def simp del: zset_is.simps split: option.splits)
  then show ?thesis using r(1,3) lazy_step by blast
qed

text \<open>What a computation over the operands returns, with the keys that have expired dropped on the way.\<close>

definition computes :: "list_thresholds \<Rightarrow> u32 \<Rightarrow> nat \<Rightarrow> zset_data handler \<Rightarrow> cmd_state \<Rightarrow> keyspace \<Rightarrow> scores result \<Rightarrow> bool" where
  "computes lims clk now compute s A x \<longleftrightarrow> (\<exists>r s' B. compute s = Some (r, s') \<and> lazy_expire now A B \<and> ks_is lims clk (cs_db s') B
     \<and> (case x of Inl e \<Rightarrow> r = Inl e | Inr m \<Rightarrow> \<exists>z. r = Inr z \<and> zset_is z m))"

lemma computesI:
  "compute s = Some (r, s') \<Longrightarrow> lazy_expire now A B \<Longrightarrow> ks_is lims clk (cs_db s') B
    \<Longrightarrow> (case x of Inl e \<Rightarrow> r = Inl e | Inr m \<Rightarrow> \<exists>z. r = Inr z \<and> zset_is z m) \<Longrightarrow> computes lims clk now compute s A x"
  unfolding computes_def by blast

lemma computes_after:
  assumes "computes lims clk now compute' s1 B x" and "lazy_expire now A B" and "compute s = compute' s1"
  shows "computes lims clk now compute s A x"
proof -
  from assms(1) obtain r s' C where
    c: "compute' s1 = Some (r, s')" "lazy_expire now B C" "ks_is lims clk (cs_db s') C"
      "case x of Inl e \<Rightarrow> r = Inl e | Inr m \<Rightarrow> \<exists>z. r = Inr z \<and> zset_is z m" by (auto simp: computes_def simp del: zset_is.simps)
  show ?thesis by (rule computesI [OF _ lazy_trans [OF assms(2) c(2)] c(3,4)]) (simp add: assms(3) c(1))
qed

section \<open>Union\<close>

definition union_scores :: "aggregate \<Rightarrow> f64 \<Rightarrow> scores \<Rightarrow> scores \<Rightarrow> scores" where
  "union_scores agg w m acc = (\<lambda>x. case m x of
     None \<Rightarrow> acc x
   | Some k \<Rightarrow> Some (case acc x of None \<Rightarrow> weight_key w k | Some e \<Rightarrow> agg_key agg e (weight_key w k)))"

definition zunion_at :: "nat \<Rightarrow> bytes list \<Rightarrow> f64 list \<Rightarrow> aggregate \<Rightarrow> keyspace \<Rightarrow> scores result" where
  "zunion_at now ks ws agg A = Inr (fold (\<lambda>(k, w). union_scores agg w (scores_at now A k)) (zip ks ws) Map.empty)"

lemma union_pairs_is:
  assumes "env_ok lims E" and "zset_is r acc" and "distinct (map fst ps)"
  shows "\<exists>r'. union_pairs E agg w ps r = Some r' \<and> zset_is r' (union_scores agg w (\<lambda>x. map_option score_key (map_of ps x)) acc)"
  using assms(2,3)
proof (induction ps arbitrary: r acc)
  case Nil
  then show ?case by (simp add: union_scores_def del: zset_is.simps)
next
  case (Cons p ps)
  obtain x s where p: "p = (x, s)" by force
  let ?new = "apply_aggregate agg (zsetdata_score r x) (f64_mul s w)"
  from zinsert_env [OF assms(1) Cons.prems(1), of x ?new] obtain r1 where
    r1: "zsetdata_insert (env_olt E) (env_zset E) r x ?new = Some (acc x = None, r1)" "zset_is r1 (acc(x \<mapsto> score_key ?new))" by blast
  have k: "score_key ?new = (case acc x of None \<Rightarrow> weight_key w (score_key s) | Some e \<Rightarrow> agg_key agg e (weight_key w (score_key s)))"
    unfolding zsetdata_score_is [OF Cons.prems(1), of x, symmetric]
    by (cases "zsetdata_score r x") (simp_all add: apply_aggregate_key weight_key_is, simp add: apply_aggregate_def weight_key_is)
  have "map_of ps x = None" using Cons.prems(2) by (auto simp: p map_of_eq_None_iff)
  then have "union_scores agg w (\<lambda>y. map_option score_key (map_of (p # ps) y)) acc
      = union_scores agg w (\<lambda>y. map_option score_key (map_of ps y)) (acc(x \<mapsto> score_key ?new))"
    by (auto simp: union_scores_def p k fun_eq_iff split: option.split)
  moreover have "distinct (map fst ps)" using Cons.prems(2) by simp
  moreover have "union_pairs E agg w (p # ps) r = union_pairs E agg w ps r1" using r1(1) by (simp add: p Let_def)
  ultimately show ?case using Cons.IH [OF r1(2)] by (simp only:)
qed

lemma union_operand:
  assumes "env_ok lims E" and "zset_is r acc" and "zset_is z m"
  shows "\<exists>r'. union_pairs E agg w (zsetdata_to_pairs (env_zset_order E) z) r = Some r' \<and> zset_is r' (union_scores agg w m acc)"
  using union_pairs_is [OF assms(1,2)] to_pairs_is [OF assms(3) zset_env(3) [OF assms(1)]] by (auto simp: lists_zset_def simp del: zset_is.simps)

lemma union_nothing: "union_scores agg w Map.empty acc = acc"
  by (simp add: union_scores_def)

lemma zunion_loop_is:
  fixes s :: cmd_state
  assumes "env_ok lims E" and "ks_is lims clk (cs_db s) A" and "zset_is r acc" and "length ws = length ks"
  shows "computes lims clk (env_now E) (zunion_loop E agg ks ws r) s A
    (Inr (fold (\<lambda>(k, w). union_scores agg w (scores_at (env_now E) A k)) (zip ks ws) acc))"
  using assms(2-4)
proof (induction ks arbitrary: s A r acc ws)
  case Nil
  show ?case by (rule computesI [OF _ lazy_refl Nil.prems(1)]) (use Nil.prems(2) in \<open>auto simp: reply_def simp del: zset_is.simps\<close>)
next
  case (Cons k ks)
  then obtain w ws' where ws: "ws = w # ws'" "length ws' = length ks" by (cases ws) auto
  let ?now = "env_now E"
  from read_or_none [OF Cons.prems(1), of E k] obtain x s1 B where
    v: "view_rw E k (Inr None) zset_or_none s = Some (Inr x, s1)" "lazy_expire ?now A B" "ks_is lims clk (cs_db s1) B"
      "case x of None \<Rightarrow> scores_at ?now A k = Map.empty | Some z \<Rightarrow> zset_is z (scores_at ?now A k)" by blast
  let ?acc = "union_scores agg w (scores_at ?now A k) acc"
  obtain r1 where r1: "zset_is r1 ?acc" "zunion_loop E agg (k # ks) ws r s = zunion_loop E agg ks ws' r1 s1"
  proof (cases x)
    case None
    then show thesis using that [of r] v(1,4) Cons.prems(2) by (simp add: ws union_nothing del: zset_is.simps)
  next
    case (Some z)
    with v(4) have "zset_is z (scores_at ?now A k)" by simp
    from union_operand [OF assms(1) Cons.prems(2) this, of agg w] obtain r1 where
      "union_pairs E agg w (zsetdata_to_pairs (env_zset_order E) z) r = Some r1" "zset_is r1 ?acc" by blast
    then show thesis using that [of r1] v(1) Some by (simp add: ws del: zset_is.simps)
  qed
  from computes_after [where compute = "zunion_loop E agg (k # ks) ws r", OF Cons.IH [OF v(3) r1(1) ws(2)] v(2) r1(2)] show ?case
    unfolding ws zip_Cons_Cons fold_simps prod.case lazy_scores_at [OF v(2)] .
qed

lemma zunion_computes:
  fixes s :: cmd_state
  assumes "env_ok lims E" and "ks_is lims clk (cs_db s) A" and "length ws = length ks"
  shows "computes lims clk (env_now E) (compute_zunion_result E ks ws agg) s A (zunion_at (env_now E) ks ws agg A)"
  unfolding compute_zunion_result_def zunion_at_def by (rule zunion_loop_is [OF assms(1,2) zset_new_is assms(3)])

section \<open>Intersection\<close>

text \<open>The score of one member over the operands after the first.\<close>

fun inter_key :: "aggregate \<Rightarrow> bytes \<Rightarrow> (scores \<times> f64) list \<Rightarrow> int \<Rightarrow> int option" where
  "inter_key agg x [] acc = Some acc"
| "inter_key agg x ((m, w) # others) acc = (case m x of Some k \<Rightarrow> inter_key agg x others (agg_key agg acc (weight_key w k)) | None \<Rightarrow> None)"

fun inter_scores :: "aggregate \<Rightarrow> (scores \<times> f64) list \<Rightarrow> scores" where
  "inter_scores agg [] = Map.empty"
| "inter_scores agg ((m, w) # others) = (\<lambda>x. Option.bind (m x) (\<lambda>k. inter_key agg x others (weight_key w k)))"

text \<open>The first operand that is missing or of another type decides.\<close>

definition missing_operand :: "nat \<Rightarrow> bytes list \<Rightarrow> keyspace \<Rightarrow> bytes option" where
  "missing_operand now ks A = find (\<lambda>k. \<forall>m. zset_at now A k \<noteq> Inr (Some m)) ks"

definition zinter_at :: "nat \<Rightarrow> bytes list \<Rightarrow> f64 list \<Rightarrow> aggregate \<Rightarrow> keyspace \<Rightarrow> scores result" where
  "zinter_at now ks ws agg A = (case missing_operand now ks A of
     Some k \<Rightarrow> map_sum id (\<lambda>_. Map.empty) (zset_at now A k)
   | None \<Rightarrow> Inr (inter_scores agg (zip (map (scores_at now A) ks) ws)))"

lemma inter_score_is:
  assumes "list_all2 zset_is Zs ms" and "length ws = length Zs"
  shows "map_option score_key (inter_score agg x (zip Zs ws) acc) = inter_key agg x (zip ms ws) (score_key acc)"
  using assms
proof (induction Zs ms arbitrary: ws acc rule: list_all2_induct)
  case (Cons z Zs m ms)
  then obtain w ws' where ws: "ws = w # ws'" "length ws' = length Zs" by (cases ws) auto
  note IH = Cons.IH [OF ws(2)]
  show ?case
  proof (cases "zsetdata_score z x")
    case None
    then have "m x = None" using zsetdata_score_is [OF Cons.hyps(1), of x] by simp
    then show ?thesis using None by (simp add: ws)
  next
    case (Some s)
    then have "m x = Some (score_key s)" using zsetdata_score_is [OF Cons.hyps(1), of x] by simp
    then show ?thesis using Some by (simp add: ws IH apply_aggregate_key weight_key_is)
  qed
qed simp

lemma inter_pairs_is:
  assumes "env_ok lims E" and "list_all2 zset_is Zs ms" and "length ws = length Zs" and "zset_is r acc" and "distinct (map fst ps)"
  shows "\<exists>r'. inter_pairs E agg w (zip Zs ws) ps r = Some r' \<and> zset_is r' (acc ++
      (\<lambda>x. Option.bind (map_option score_key (map_of ps x)) (\<lambda>k. inter_key agg x (zip ms ws) (weight_key w k))))"
  using assms(4,5)
proof (induction ps arbitrary: r acc)
  case Nil
  then show ?case by (simp add: map_add_def del: zset_is.simps)
next
  case (Cons p ps)
  obtain x s where p: "p = (x, s)" by force
  let ?G = "\<lambda>ps x. Option.bind (map_option score_key (map_of ps x)) (\<lambda>k. inter_key agg x (zip ms ws) (weight_key w k))"
  have k: "map_option score_key (inter_score agg x (zip Zs ws) (f64_mul s w)) = inter_key agg x (zip ms ws) (weight_key w (score_key s))"
    using inter_score_is [OF assms(2,3)] by (simp add: weight_key_is)
  have new: "map_of ps x = None" using Cons.prems(2) by (auto simp: p map_of_eq_None_iff)
  have d: "distinct (map fst ps)" using Cons.prems(2) by simp
  show ?case
  proof (cases "inter_score agg x (zip Zs ws) (f64_mul s w)")
    case None
    then have "acc ++ ?G (p # ps) = acc ++ ?G ps" using k new by (auto simp: p fun_eq_iff map_add_def)
    then show ?thesis using Cons.IH [OF Cons.prems(1) d] None by (simp add: p del: zset_is.simps)
  next
    case (Some sc)
    from zinsert_env [OF assms(1) Cons.prems(1), of x sc] obtain r1 where
      r1: "zsetdata_insert (env_olt E) (env_zset E) r x sc = Some (acc x = None, r1)" "zset_is r1 (acc(x \<mapsto> score_key sc))" by blast
    have "?G ps x = None" "?G (p # ps) x = Some (score_key sc)" using k new Some by (simp_all add: p)
    then have "acc ++ ?G (p # ps) = acc(x \<mapsto> score_key sc) ++ ?G ps" by (auto simp: p fun_eq_iff map_add_def split: option.split)
    moreover have "inter_pairs E agg w (zip Zs ws) (p # ps) r = inter_pairs E agg w (zip Zs ws) ps r1" using r1(1) Some by (simp add: p)
    ultimately show ?thesis using Cons.IH [OF r1(2) d] by (simp only:)
  qed
qed

lemma missing_Cons:
  "zset_at now A k = Inr (Some m) \<Longrightarrow> missing_operand now (k # ks) A = missing_operand now ks A"
  "zset_at now A k = Inr None \<or> zset_at now A k = Inl e \<Longrightarrow> missing_operand now (k # ks) A = Some k"
  by (auto simp: missing_operand_def)

lemma missing_lazy: "lazy_expire now A B \<Longrightarrow> missing_operand now ks B = missing_operand now ks A"
  by (simp add: missing_operand_def lazy_zset_at)

lemma zinter_sets_is:
  fixes s :: cmd_state
  assumes "ks_is lims clk (cs_db s) A"
  shows "\<exists>r s' B. zinter_sets E ks Zs s = Some (r, s') \<and> lazy_expire (env_now E) A B \<and> ks_is lims clk (cs_db s') B
    \<and> (case missing_operand (env_now E) ks A of
         Some k \<Rightarrow> r = map_sum id (\<lambda>_. None) (zset_at (env_now E) A k)
       | None \<Rightarrow> \<exists>Ys. r = Inr (Some (Zs @ Ys)) \<and> list_all2 zset_is Ys (map (scores_at (env_now E) A) ks))"
  using assms
proof (induction ks arbitrary: s A Zs)
  case Nil
  then show ?case using lazy_refl by (auto simp: reply_def missing_operand_def)
next
  case (Cons k ks)
  let ?now = "env_now E"
  from read_or_wrong [OF Cons.prems, of E k] obtain x s1 B where
    v: "view_rw E k (Inr None) zset_or_wrong s = Some (x, s1)" "lazy_expire ?now A B" "ks_is lims clk (cs_db s1) B"
      "case zset_at ?now A k of Inl e \<Rightarrow> x = Inl e | Inr None \<Rightarrow> x = Inr None | Inr (Some m) \<Rightarrow> \<exists>z. x = Inr (Some z) \<and> zset_is z m" by blast
  show ?case
  proof (cases rule: zset_at_cases [of ?now A k])
    case 1
    then show ?thesis using v by (auto simp: missing_Cons fail_def)
  next
    case 2
    then show ?thesis using v by (auto simp: missing_Cons reply_def)
  next
    case (3 m)
    then obtain z where z: "x = Inr (Some z)" "zset_is z m" using v(4) by auto
    have sc: "scores_at ?now A k = m" using 3 by (simp add: scores_at_def)
    from Cons.IH [OF v(3), of "Zs @ [z]"] obtain r s' C where
      ih: "zinter_sets E ks (Zs @ [z]) s1 = Some (r, s')" "lazy_expire ?now B C" "ks_is lims clk (cs_db s') C"
        "case missing_operand ?now ks B of Some k \<Rightarrow> r = map_sum id (\<lambda>_. None) (zset_at ?now B k)
         | None \<Rightarrow> \<exists>Ys. r = Inr (Some ((Zs @ [z]) @ Ys)) \<and> list_all2 zset_is Ys (map (scores_at ?now B) ks)" by blast
    have "case missing_operand ?now (k # ks) A of Some k \<Rightarrow> r = map_sum id (\<lambda>_. None) (zset_at ?now A k)
        | None \<Rightarrow> \<exists>Ys. r = Inr (Some (Zs @ Ys)) \<and> list_all2 zset_is Ys (map (scores_at ?now A) (k # ks))"
    proof (cases "missing_operand ?now ks A")
      case None
      have same: "map (scores_at ?now B) ks = map (scores_at ?now A) ks" by (simp add: lazy_scores_at [OF v(2)])
      from None obtain Ys where Ys: "r = Inr (Some ((Zs @ [z]) @ Ys))" "list_all2 zset_is Ys (map (scores_at ?now A) ks)"
        using ih(4) by (auto simp: missing_lazy [OF v(2)] same simp del: zset_is.simps)
      then show ?thesis using z(2) None by (simp add: missing_Cons(1) [OF 3] sc exI [of _ "z # Ys"] del: zset_is.simps)
    next
      case (Some j)
      then show ?thesis using ih(4) by (simp add: missing_Cons(1) [OF 3] missing_lazy [OF v(2)] lazy_zset_at [OF v(2)])
    qed
    moreover have "zinter_sets E (k # ks) Zs s = Some (r, s')" using v(1) ih(1) z(1) by simp
    ultimately show ?thesis using ih(3) lazy_trans [OF v(2) ih(2)] by blast
  qed
qed

lemma zinter_computes:
  fixes s :: cmd_state
  assumes "env_ok lims E" and "ks_is lims clk (cs_db s) A" and "length ws = length ks"
  shows "computes lims clk (env_now E) (compute_zinter_result E ks ws agg) s A (zinter_at (env_now E) ks ws agg A)"
proof -
  let ?now = "env_now E"
  from zinter_sets_is [OF assms(2), of E ks "[]"] obtain r s' B where
    v: "zinter_sets E ks [] s = Some (r, s')" "lazy_expire ?now A B" "ks_is lims clk (cs_db s') B"
      "case missing_operand ?now ks A of Some k \<Rightarrow> r = map_sum id (\<lambda>_. None) (zset_at ?now A k)
       | None \<Rightarrow> \<exists>Ys. r = Inr (Some ([] @ Ys)) \<and> list_all2 zset_is Ys (map (scores_at ?now A) ks)" by blast
  show ?thesis
  proof (cases "missing_operand ?now ks A")
    case (Some k)
    then have r: "r = map_sum id (\<lambda>_. None) (zset_at ?now A k)" using v(4) by simp
    show ?thesis
    proof (cases "zset_at ?now A k")
      case (Inl e)
      then show ?thesis using Some r v(1) by (intro computesI [OF _ v(2,3)]) (simp_all add: compute_zinter_result_def zinter_at_def fail_def)
    next
      case (Inr x)
      then show ?thesis using Some r v(1) zset_new_is
        by (intro computesI [OF _ v(2,3)]) (auto simp: compute_zinter_result_def zinter_at_def reply_def simp del: zset_is.simps)
    qed
  next
    case None
    then obtain Ys where Ys: "r = Inr (Some Ys)" "list_all2 zset_is Ys (map (scores_at ?now A) ks)" using v(4) by (auto simp del: zset_is.simps)
    show ?thesis
    proof (cases ks)
      case Nil
      then show ?thesis using None Ys v(1) zset_new_is
        by (intro computesI [OF _ v(2,3)]) (auto simp: compute_zinter_result_def zinter_at_def reply_def simp del: zset_is.simps)
    next
      case (Cons k ks')
      let ?ms = "map (scores_at ?now A) ks'" and ?m = "scores_at ?now A k"
      from Ys(2) obtain z Zs where Z: "Ys = z # Zs" "zset_is z ?m" "list_all2 zset_is Zs ?ms" by (auto simp: Cons list_all2_Cons2 simp del: zset_is.simps)
      obtain w ws' where ws: "ws = w # ws'" "length ws' = length Zs" using assms(3) list_all2_lengthD [OF Z(3)] by (cases ws) (auto simp: Cons)
      have zip: "zip Zs (ws' @ replicate (length Zs) f64_one) = zip Zs ws'" using ws(2) by (simp add: zip_append2)
      let ?ps = "zsetdata_to_pairs (env_zset_order E) z"
      have ps: "distinct (map fst ?ps)" "(\<lambda>x. map_option score_key (map_of ?ps x)) = ?m"
        using to_pairs_is [OF Z(2) zset_env(3) [OF assms(1)]] by (simp_all add: lists_zset_def)
      from inter_pairs_is [OF assms(1) Z(3) ws(2) zset_new_is ps(1), of agg w] obtain r' where
        r': "inter_pairs E agg w (zip Zs ws') ?ps zsetdata_new = Some r'"
          "zset_is r' (Map.empty ++ (\<lambda>x. Option.bind (map_option score_key (map_of ?ps x)) (\<lambda>k. inter_key agg x (zip ?ms ws') (weight_key w k))))" by blast
      have "zinter_at ?now ks ws agg A = Inr (\<lambda>x. Option.bind (?m x) (\<lambda>k. inter_key agg x (zip ?ms ws') (weight_key w k)))"
        using None by (simp add: zinter_at_def Cons ws)
      moreover have "zset_is r' (\<lambda>x. Option.bind (?m x) (\<lambda>k. inter_key agg x (zip ?ms ws') (weight_key w k)))"
        using r'(2) unfolding fun_cong [OF ps(2)] by (simp del: zset_is.simps)
      moreover have "compute_zinter_result E ks ws agg s = Some (Inr r', s')"
        using v(1) r'(1) zip by (simp add: compute_zinter_result_def Ys(1) Z(1) ws reply_def Let_def)
      ultimately show ?thesis by (intro computesI [OF _ v(2,3)]) (auto simp del: zset_is.simps)
    qed
  qed
qed

section \<open>Difference\<close>

text \<open>An operand of another type is an error in first place and nothing after it.\<close>

definition zdiff_at :: "nat \<Rightarrow> bytes list \<Rightarrow> keyspace \<Rightarrow> scores result" where
  "zdiff_at now ks A = (case ks of
     [] \<Rightarrow> Inr Map.empty
   | k # ks \<Rightarrow> map_sum id (\<lambda>x. case x of None \<Rightarrow> Map.empty | Some m \<Rightarrow> without (\<Union>j \<in> set ks. dom (scores_at now A j)) m) (zset_at now A k))"

lemma without_without [simp]: "without X (without Y m) = without (Y \<union> X) m"
  by (auto simp: without_def restrict_map_def fun_eq_iff)

lemma diff_members_is:
  assumes "env_ok lims E" and "zset_is r acc"
  shows "\<exists>r'. diff_members E ms r = Some r' \<and> zset_is r' (without (set ms) acc)"
  using assms(2)
proof (induction ms arbitrary: r acc)
  case (Cons x ms)
  from zremove_env [OF assms(1) Cons.prems, of x] obtain v r1 where
    "zsetdata_remove (env_olt E) (env_zset E) r x = Some (v, r1)" "zset_is r1 (acc(x := None))" by blast
  then show ?case using Cons.IH [of r1 "acc(x := None)"] by (simp del: zset_is.simps fun_upd_apply)
qed simp

lemma zdiff_loop_is:
  fixes s :: cmd_state
  assumes "env_ok lims E" and "ks_is lims clk (cs_db s) A" and "zset_is r acc"
  shows "computes lims clk (env_now E) (zdiff_loop E ks r) s A (Inr (without (\<Union>j \<in> set ks. dom (scores_at (env_now E) A j)) acc))"
  using assms(2,3)
proof (induction ks arbitrary: s A r acc)
  case Nil
  show ?case by (rule computesI [OF _ lazy_refl Nil.prems(1)]) (use Nil.prems(2) in \<open>auto simp: reply_def simp del: zset_is.simps\<close>)
next
  case (Cons k ks)
  let ?now = "env_now E"
  from read_or_none [OF Cons.prems(1), of E k] obtain x s1 B where
    v: "view_rw E k (Inr None) zset_or_none s = Some (Inr x, s1)" "lazy_expire ?now A B" "ks_is lims clk (cs_db s1) B"
      "case x of None \<Rightarrow> scores_at ?now A k = Map.empty | Some z \<Rightarrow> zset_is z (scores_at ?now A k)" by blast
  let ?acc = "without (dom (scores_at ?now A k)) acc"
  obtain r1 where r1: "zset_is r1 ?acc" "zdiff_loop E (k # ks) r s = zdiff_loop E ks r1 s1"
  proof (cases x)
    case None
    then show thesis using that [of r] v(1,4) Cons.prems(2) by (simp del: zset_is.simps)
  next
    case (Some z)
    with v(4) have z: "zset_is z (scores_at ?now A k)" by simp
    from diff_members_is [OF assms(1) Cons.prems(2), of "zsetdata_member_keys (env_zset_order E) z"] obtain r1 where
      "diff_members E (zsetdata_member_keys (env_zset_order E) z) r = Some r1" "zset_is r1 ?acc"
      unfolding zsetdata_member_keys_is(2) [OF z zset_env(3) [OF assms(1)]] by blast
    then show thesis using that [of r1] v(1) Some by (simp del: zset_is.simps)
  qed
  have "without (\<Union>j \<in> set ks. dom (scores_at ?now B j)) ?acc = without (\<Union>j \<in> set (k # ks). dom (scores_at ?now A j)) acc"
    by (simp add: lazy_scores_at [OF v(2)])
  then show ?case using computes_after [where compute = "zdiff_loop E (k # ks) r", OF Cons.IH [OF v(3) r1(1)] v(2) r1(2)] by (simp only:)
qed

lemma zdiff_computes:
  fixes s :: cmd_state
  assumes "env_ok lims E" and "ks_is lims clk (cs_db s) A"
  shows "computes lims clk (env_now E) (compute_zdiff_result E ks) s A (zdiff_at (env_now E) ks A)"
proof (cases ks)
  case Nil
  then show ?thesis using zset_new_is
    by (intro computesI [OF _ lazy_refl assms(2)]) (auto simp: compute_zdiff_result_def zdiff_at_def reply_def simp del: zset_is.simps)
next
  case (Cons k ks')
  let ?now = "env_now E"
  from read_or_wrong [OF assms(2), of E k] obtain x s1 B where
    v: "view_rw E k (Inr None) zset_or_wrong s = Some (x, s1)" "lazy_expire ?now A B" "ks_is lims clk (cs_db s1) B"
      "case zset_at ?now A k of Inl e \<Rightarrow> x = Inl e | Inr None \<Rightarrow> x = Inr None | Inr (Some m) \<Rightarrow> \<exists>z. x = Inr (Some z) \<and> zset_is z m" by blast
  show ?thesis
  proof (cases rule: zset_at_cases [of ?now A k])
    case 1
    then show ?thesis using v(1,4) by (intro computesI [OF _ v(2,3)]) (auto simp: Cons compute_zdiff_result_def zdiff_at_def fail_def)
  next
    case 2
    then show ?thesis using v(1,4) zset_new_is
      by (intro computesI [OF _ v(2,3)]) (auto simp: Cons compute_zdiff_result_def zdiff_at_def reply_def simp del: zset_is.simps)
  next
    case (3 m)
    then obtain z where z: "x = Inr (Some z)" "zset_is z m" using v(4) by auto
    have "compute_zdiff_result E ks s = zdiff_loop E ks' z s1" using v(1) z(1) by (simp add: Cons compute_zdiff_result_def)
    note c = computes_after [where compute = "compute_zdiff_result E ks", OF zdiff_loop_is [OF assms(1) v(3) z(2)] v(2) this]
    show ?thesis using c 3 by (simp add: Cons zdiff_at_def lazy_scores_at [OF v(2)])
  qed
qed

section \<open>What the results are used for\<close>

definition zlisted :: "bool \<Rightarrow> scores result \<Rightarrow> resp result \<Rightarrow> bool" where
  "zlisted ws x r \<longleftrightarrow> (case x of Inl e \<Rightarrow> r = Inl e | Inr m \<Rightarrow> lists_scores (zranked m) ws r)"

definition zstored :: "bytes \<Rightarrow> scores result \<Rightarrow> keyspace \<Rightarrow> resp result \<Rightarrow> keyspace \<Rightarrow> bool" where
  "zstored dst x B r A' \<longleftrightarrow> (case x of Inl e \<Rightarrow> r = Inl e \<and> A' = B
     | Inr m \<Rightarrow> r = Inr (resp_int (int (card (dom m)))) \<and> A' = B(dst \<mapsto> (AZSet m, None)))"

lemma zset_to_array_is: "zset_is z m \<Longrightarrow> lists_scores (zranked m) ws (Inr (zset_to_array z ws))"
  using to_pairs_sorted_is [of z m] by (auto simp: lists_scores_def zset_to_array_def format_zrange_result_def simp del: zset_is.simps)

lemma reply_family:
  assumes "computes lims clk now compute s A x"
  shows "\<exists>r s' A'. reply_zset ws compute s = Some (r, s') \<and> (lazy_expire now A A' \<and> zlisted ws x r) \<and> ks_is lims clk (cs_db s') A'"
proof -
  from assms obtain r s' B where
    c: "compute s = Some (r, s')" "lazy_expire now A B" "ks_is lims clk (cs_db s') B"
      "case x of Inl e \<Rightarrow> r = Inl e | Inr m \<Rightarrow> \<exists>z. r = Inr z \<and> zset_is z m" by (auto simp: computes_def simp del: zset_is.simps)
  have "zlisted ws x (map_sum id (\<lambda>z. zset_to_array z ws) r)"
    using c(4) zset_to_array_is by (auto simp: zlisted_def simp del: zset_is.simps split: sum.splits)
  then show ?thesis using c(1-3) by (auto simp: reply_zset_def)
qed

lemma zset_wakes_db: "cs_db (if b then notify_zset_waiters s else s) = cs_db s"
  by (simp add: notify_zset_waiters_def)

lemma zstore_family:
  assumes "computes lims clk now compute s A x"
  shows "\<exists>r s' A'. store_zset dst compute s = Some (r, s') \<and> (\<exists>B. lazy_expire now A B \<and> zstored dst x B r A') \<and> ks_is lims clk (cs_db s') A'"
proof -
  from assms obtain r s1 B where
    c: "compute s = Some (r, s1)" "lazy_expire now A B" "ks_is lims clk (cs_db s1) B"
      "case x of Inl e \<Rightarrow> r = Inl e | Inr m \<Rightarrow> \<exists>z. r = Inr z \<and> zset_is z m" by (auto simp: computes_def simp del: zset_is.simps)
  show ?thesis
  proof (cases x)
    case (Inl e)
    then show ?thesis using c by (auto simp: store_zset_def zstored_def fail_def)
  next
    case (Inr m)
    then obtain z where z: "r = Inr z" "zset_is z m" using c(4) by auto
    have "val_is lims (DZSet z) (AZSet m)" using z(2) by (simp del: zset_is.simps)
    from typed_op.on_key_ok [OF insert_typed this c(3), of dst] obtain u s2 c' where
      o: "on_key dst (\<lambda>d. Some ((), db_insert dst (entry_new (DZSet z)) d)) s1 = Some (u, s2)" "ks_is lims clk (cs_db s2) (B(dst \<mapsto> (AZSet m, None)))" by blast
    have "store_zset dst compute s = Some (Inr (resp_int (int (card (dom m)))), if zsetdata_len z > 0 then notify_zset_waiters s2 else s2)"
      using c(1) z(1) o(1) zsetdata_len_is [OF z(2)] by (simp add: store_zset_def reply_def)
    moreover have "zstored dst x B (Inr (resp_int (int (card (dom m))))) (B(dst \<mapsto> (AZSet m, None)))" by (simp add: zstored_def Inr)
    ultimately show ?thesis using c(2) o(2) zset_wakes_db by metis
  qed
qed

section \<open>The size of an intersection\<close>

definition zintercard_at :: "nat \<Rightarrow> bytes list \<Rightarrow> nat option \<Rightarrow> keyspace \<Rightarrow> nat result" where
  "zintercard_at now ks limit A = (case missing_operand now ks A of
     Some k \<Rightarrow> map_sum id (\<lambda>_. 0) (zset_at now A k)
   | None \<Rightarrow> Inr (capped limit (card (\<Inter>k \<in> set ks. dom (scores_at now A k)))))"

lemma zintercard_loop_sets:
  "zintercard_loop others limit ms cnt = intercard_loop (map (\<lambda>z. {x. zsetdata_score z x \<noteq> None}) others) limit ms cnt"
  by (induction ms arbitrary: cnt) (auto simp: list_all_iff split: option.split)

lemma score_dom: "zset_is z m \<Longrightarrow> {x. zsetdata_score z x \<noteq> None} = dom m"
  using zsetdata_score_is [of z m] by (auto simp: dom_def) (metis option.distinct(1) option.map_disc_iff not_Some_eq)+

lemma map_score_dom: "list_all2 zset_is Zs ms \<Longrightarrow> map (\<lambda>z. {x. zsetdata_score z x \<noteq> None}) Zs = map dom ms"
  by (induction rule: list_all2_induct) (simp_all add: score_dom del: zset_is.simps not_None_eq)

lemma zintercard_count:
  assumes "env_ok lims E" and "list_all2 zset_is Zs ms" and "best < length Zs" and "limit \<noteq> Some 0"
  shows "zintercard_loop (take best Zs @ drop (Suc best) Zs) limit (zsetdata_member_keys (env_zset_order E) (Zs ! best)) 0
    = capped limit (card (\<Inter> (dom ` set ms)))"
proof -
  let ?Ss = "map dom ms" and ?z = "Zs ! best"
  let ?ks = "zsetdata_member_keys (env_zset_order E) ?z" and ?others = "take best (map dom ms) @ drop (Suc best) (map dom ms)"
  have b: "best < length ?Ss" using assms(3) list_all2_lengthD [OF assms(2)] by simp
  have z: "zset_is ?z (ms ! best)" using assms(2,3) by (rule list_all2_nthD)
  note mk = zsetdata_member_keys_is [OF z zset_env(3) [OF assms(1)]]
  have "length (filter (\<lambda>x. \<forall>S \<in> set ?others. x \<in> S) ?ks) = card {x \<in> ?Ss ! best. \<forall>S \<in> set ?others. x \<in> S}"
    using distinct_card [OF distinct_filter [OF mk(1)], of "\<lambda>x. \<forall>S \<in> set ?others. x \<in> S"] b by (simp add: mk(2))
  then have "length (filter (\<lambda>x. \<forall>S \<in> set ?others. x \<in> S) ?ks) = card (\<Inter> (dom ` set ms))" unfolding nth_inter [OF b] by simp
  moreover have "map (\<lambda>z. {x. zsetdata_score z x \<noteq> None}) (take best Zs @ drop (Suc best) Zs) = ?others"
    using map_score_dom [OF assms(2)] by (simp flip: take_map drop_map)
  moreover have "\<And>l. limit = Some l \<Longrightarrow> 0 < l" using assms(4) by (cases limit) auto
  ultimately show ?thesis using intercard_loop_is [of limit 0 ?others ?ks] unfolding zintercard_loop_sets by simp
qed

lemma zintercard_sets_is:
  fixes s :: cmd_state
  assumes "ks_is lims clk (cs_db s) A"
  shows "\<exists>r s' B. zintercard_sets E ks i best Zs s = Some (r, s') \<and> lazy_expire (env_now E) A B \<and> ks_is lims clk (cs_db s') B
    \<and> (case missing_operand (env_now E) ks A of
         Some k \<Rightarrow> r = map_sum id (\<lambda>_. None) (zset_at (env_now E) A k)
       | None \<Rightarrow> \<exists>Ys b. r = Inr (Some (Zs @ Ys, b)) \<and> list_all2 zset_is Ys (map (scores_at (env_now E) A) ks)
           \<and> (b = snd best \<or> i \<le> b \<and> b < i + length ks))"
  using assms
proof (induction ks arbitrary: s A i best Zs)
  case Nil
  then show ?case using lazy_refl by (auto simp: reply_def missing_operand_def)
next
  case (Cons k ks)
  let ?now = "env_now E"
  from read_or_wrong [OF Cons.prems, of E k] obtain x s1 B where
    v: "view_rw E k (Inr None) zset_or_wrong s = Some (x, s1)" "lazy_expire ?now A B" "ks_is lims clk (cs_db s1) B"
      "case zset_at ?now A k of Inl e \<Rightarrow> x = Inl e | Inr None \<Rightarrow> x = Inr None | Inr (Some m) \<Rightarrow> \<exists>z. x = Inr (Some z) \<and> zset_is z m" by blast
  show ?case
  proof (cases rule: zset_at_cases [of ?now A k])
    case 1
    then show ?thesis using v by (auto simp: missing_Cons fail_def)
  next
    case 2
    then show ?thesis using v by (auto simp: missing_Cons reply_def)
  next
    case (3 m)
    then obtain z where z: "x = Inr (Some z)" "zset_is z m" using v(4) by auto
    have sc: "scores_at ?now A k = m" using 3 by (simp add: scores_at_def)
    let ?best = "if zsetdata_len z < fst best then (zsetdata_len z, i) else best"
    from Cons.IH [OF v(3), of "i + 1" ?best "Zs @ [z]"] obtain r s' C where
      ih: "zintercard_sets E ks (i + 1) ?best (Zs @ [z]) s1 = Some (r, s')" "lazy_expire ?now B C" "ks_is lims clk (cs_db s') C"
        "case missing_operand ?now ks B of Some k \<Rightarrow> r = map_sum id (\<lambda>_. None) (zset_at ?now B k)
         | None \<Rightarrow> \<exists>Ys b. r = Inr (Some ((Zs @ [z]) @ Ys, b)) \<and> list_all2 zset_is Ys (map (scores_at ?now B) ks)
             \<and> (b = snd ?best \<or> i + 1 \<le> b \<and> b < i + 1 + length ks)" by blast
    have "case missing_operand ?now (k # ks) A of Some k \<Rightarrow> r = map_sum id (\<lambda>_. None) (zset_at ?now A k)
        | None \<Rightarrow> \<exists>Ys b. r = Inr (Some (Zs @ Ys, b)) \<and> list_all2 zset_is Ys (map (scores_at ?now A) (k # ks)) \<and> (b = snd best \<or> i \<le> b \<and> b < i + length (k # ks))"
    proof (cases "missing_operand ?now ks A")
      case None
      have same: "map (scores_at ?now B) ks = map (scores_at ?now A) ks" by (simp add: lazy_scores_at [OF v(2)])
      from None obtain Ys b where Ys: "r = Inr (Some ((Zs @ [z]) @ Ys, b))" "list_all2 zset_is Ys (map (scores_at ?now A) ks)"
          "b = snd ?best \<or> i + 1 \<le> b \<and> b < i + 1 + length ks"
        using ih(4) by (auto simp: missing_lazy [OF v(2)] same simp del: zset_is.simps)
      have "b = snd best \<or> i \<le> b \<and> b < i + length (k # ks)" using Ys(3) by (auto split: if_splits)
      then show ?thesis using z(2) None Ys(1,2) by (simp add: missing_Cons(1) [OF 3] sc exI [of _ "z # Ys"] del: zset_is.simps)
    next
      case (Some j)
      then show ?thesis using ih(4) by (simp add: missing_Cons(1) [OF 3] missing_lazy [OF v(2)] lazy_zset_at [OF v(2)])
    qed
    moreover have "zintercard_sets E (k # ks) i best Zs s = Some (r, s')" using v(1) ih(1) z(1) by simp
    ultimately show ?thesis using ih(3) lazy_trans [OF v(2) ih(2)] by blast
  qed
qed

section \<open>Popping from the first set that has something\<close>

fun zmpop_at :: "nat \<Rightarrow> bytes list \<Rightarrow> bool \<Rightarrow> nat \<Rightarrow> keyspace \<Rightarrow> resp option \<Rightarrow> keyspace \<Rightarrow> bool" where
  "zmpop_at now [] mn n A r A' \<longleftrightarrow> r = None \<and> A' = A"
| "zmpop_at now (k # ks) mn n A r A' \<longleftrightarrow> (\<exists>x B. edit_rel proj_zset AZSet now k None None (zmpop_rel k mn n) A x B
     \<and> (case x of Some v \<Rightarrow> r = Some v \<and> A' = B | None \<Rightarrow> zmpop_at now ks mn n B r A'))"

lemma zmpop_attempt_ok:
  fixes s :: cmd_state
  assumes "env_ok lims E" and "ks_is lims clk (cs_db s) A"
  shows "\<exists>r s' A'. zmpop_attempt E ks mn n s = Some (r, s') \<and> zmpop_at (env_now E) ks mn n A r A' \<and> ks_is lims clk (cs_db s') A'"
  using assms(2)
proof (induction ks arbitrary: s A)
  case (Cons k ks)
  from zm.edit_rel_ok [OF assms(1) Cons.prems, of k "env_now E" None k mn n] obtain x s1 B where
    x: "on_key k (edit_live (env_now E) k None (zmpop_value E k mn n)) s = Some (x, s1)"
      "edit_rel proj_zset AZSet (env_now E) k None None (zmpop_rel k mn n) A x B" "ks_is lims clk (cs_db s1) B" by blast
  show ?case
  proof (cases x)
    case None
    then show ?thesis using Cons.IH [OF x(3)] x(1,2) by fastforce
  next
    case (Some v)
    then show ?thesis using x by fastforce
  qed
qed simp

section \<open>Storing a range\<close>

definition scores_of :: "(int \<times> bytes) list \<Rightarrow> scores" where
  "scores_of L = fold (\<lambda>(k, x) m. m(x \<mapsto> k)) L Map.empty"

lemma insert_all_is:
  assumes "env_ok lims E" and "zset_is r acc"
  shows "\<exists>r'. insert_all E es r = Some r' \<and> zset_is r' (fold (\<lambda>(k, x) m. m(x \<mapsto> k)) (map ek es) acc)"
  using assms(2)
proof (induction es arbitrary: r acc)
  case (Cons p es)
  obtain x s where p: "p = (x, s)" by force
  from zinsert_env [OF assms(1) Cons.prems, of x s] obtain r1 where
    "zsetdata_insert (env_olt E) (env_zset E) r x s = Some (acc x = None, r1)" "zset_is r1 (acc(x \<mapsto> score_key s))" by blast
  then show ?case using Cons.IH [of r1 "acc(x \<mapsto> score_key s)"] by (simp add: p ek_def del: zset_is.simps fun_upd_apply)
qed simp

definition zrangestore_at :: "nat \<Rightarrow> rangestore_opts \<Rightarrow> bytes \<Rightarrow> bytes \<Rightarrow> bytes \<Rightarrow> keyspace \<Rightarrow> scores result" where
  "zrangestore_at now op src a b A =
     map_sum id scores_of (view_at proj_zset now src (Inr []) (Inl WrongType) (range_entries op a b) A)"

lemma zrangestore_computes:
  fixes s :: cmd_state
  assumes "env_ok lims E" and "ks_is lims clk (cs_db s) A"
  shows "computes lims clk (env_now E) (\<lambda>s. do {
          (r, s) \<leftarrow> view_ro E src (Inr []) (rangestore_value E op a b) s;
          case r of Inl e \<Rightarrow> fail e s | Inr es \<Rightarrow> do { z \<leftarrow> insert_all E es zsetdata_new; reply z s }
        }) s A (zrangestore_at (env_now E) op src a b A)"
proof -
  from og.view_rel_ok [OF assms, of E src "Inr []" op a b] obtain r where
    r: "view_ro E src (Inr []) (rangestore_value E op a b) s = Some (r, s)"
      "view_rel proj_zset (env_now E) src (Inr []) (Inl WrongType) (\<lambda>m r. map_sum id (map ek) r = range_entries op a b m) A r" by blast
  have e: "map_sum id (map ek) r = view_at proj_zset (env_now E) src (Inr []) (Inl WrongType) (range_entries op a b) A"
    using r(2) by (auto simp: view_rel_def view_at_def split: option.splits)
  show ?thesis
  proof (cases r)
    case (Inl x)
    then show ?thesis using r(1) e by (intro computesI [OF _ lazy_refl assms(2)]) (simp_all add: fail_def zrangestore_at_def flip: e)
  next
    case (Inr es)
    from insert_all_is [OF assms(1) zset_new_is, of es] obtain z where
      "insert_all E es zsetdata_new = Some z" "zset_is z (scores_of (map ek es))" by (auto simp: scores_of_def simp del: zset_is.simps)
    then show ?thesis using r(1) Inr by (intro computesI [OF _ lazy_refl assms(2)]) (auto simp: reply_def zrangestore_at_def simp del: zset_is.simps simp flip: e)
  qed
qed

end
