(* ===== verification/ZSet_Spec.thy ===== *)
theory ZSet_Spec
  imports ZSet_Join
begin

text \<open>
  What the sorted set commands do: their words, their specification on a keyspace of score maps (\<open>zset_spec\<close>), and that every
  command, from its words on, implements it.
\<close>

section \<open>The commands and their words\<close>

datatype zset_join = JoinUnion | JoinInter

datatype zset_cmd =
    ZAdd bytes zadd_opts "(bytes \<times> bytes) list" | ZIncrBy bytes bytes bytes
  | ZCard bytes | ZScore bytes bytes | ZMScore bytes "bytes list" | ZRank bool bytes bytes
  | ZRange bytes bytes bytes zrange_opts | ZRevRange bytes int int bool
  | ZRangeByScore bool bytes bytes bytes bool "nat \<times> nat option" | ZRangeByLex bytes bytes bytes
  | ZCount bytes bytes bytes | ZLexCount bytes bytes bytes
  | ZRem bytes "bytes list" | ZRemRangeByRank bytes int int | ZRemRangeByScore bytes bytes bytes
  | ZPop bool bytes "nat option" | ZRandMember bytes "(int \<times> bool) option" | ZScan bytes bytes "bytes option \<times> nat"
  | ZJoin zset_join "bytes list" "bytes list option" "aggregate option" bool
  | ZJoinStore zset_join bytes "bytes list" "bytes list option" "aggregate option"
  | ZDiff "bytes list" bool | ZDiffStore bytes "bytes list" | ZInterCard "bytes list" "nat option"
  | ZMPop "bytes list" bool nat | ZRangeStore bytes bytes bytes bytes rangestore_opts

definition given :: "bool \<Rightarrow> string \<Rightarrow> bytes list" where
  "given b w = (if b then [asc w] else [])"

definition zadd_words :: "zadd_opts \<Rightarrow> bytes list" where
  "zadd_words op = given (za_nx op) ''NX'' @ given (za_xx op) ''XX'' @ given (za_gt op) ''GT'' @ given (za_lt op) ''LT''
     @ given (za_ch op) ''CH'' @ given (za_incr op) ''INCR''"

definition limit_words :: "nat \<times> nat option \<Rightarrow> bytes list" where
  "limit_words lm = (case snd lm of None \<Rightarrow> [] | Some n \<Rightarrow> [asc ''LIMIT'', dec_int (int (fst lm)), dec_int (int n)])"

definition limit_ok :: "nat \<times> nat option \<Rightarrow> bool" where
  "limit_ok lm \<longleftrightarrow> (case snd lm of None \<Rightarrow> fst lm = 0 | Some n \<Rightarrow> i64_ok (int (fst lm)) \<and> i64_ok (int n))"

definition zrange_words :: "zrange_opts \<Rightarrow> bytes list" where
  "zrange_words op = given (zr_withscores op) ''WITHSCORES'' @ given (zr_rev op) ''REV'' @ given (zr_kind op = Some ByScore) ''BYSCORE''
     @ given (zr_kind op = Some ByLex) ''BYLEX'' @ limit_words (zr_limit op)"

definition rangestore_words :: "rangestore_opts \<Rightarrow> bytes list" where
  "rangestore_words op = given (rs_byscore op) ''BYSCORE'' @ given (rs_bylex op) ''BYLEX'' @ given (rs_rev op) ''REV'' @ limit_words (rs_limit op)"

fun agg_name :: "aggregate \<Rightarrow> string" where
  "agg_name AggSum = ''SUM''"
| "agg_name AggMin = ''MIN''"
| "agg_name AggMax = ''MAX''"

definition join_words :: "bytes list option \<Rightarrow> aggregate option \<Rightarrow> bool \<Rightarrow> bytes list" where
  "join_words wts agg ws = (case wts of None \<Rightarrow> [] | Some ts \<Rightarrow> asc ''WEIGHTS'' # ts)
     @ (case agg of None \<Rightarrow> [] | Some g \<Rightarrow> [asc ''AGGREGATE'', asc (agg_name g)]) @ given ws ''WITHSCORES''"

definition counted :: "bytes list \<Rightarrow> bytes list" where
  "counted ks = dec_int (int (length ks)) # ks"

fun join_name :: "zset_join \<Rightarrow> string" where
  "join_name JoinUnion = ''ZUNION''"
| "join_name JoinInter = ''ZINTER''"

fun zset_words :: "zset_cmd \<Rightarrow> bytes list" where
  "zset_words (ZAdd key op ps) = [asc ''ZADD'', key] @ zadd_words op @ flat ps"
| "zset_words (ZIncrBy key t x) = [asc ''ZINCRBY'', key, t, x]"
| "zset_words (ZCard key) = [asc ''ZCARD'', key]"
| "zset_words (ZScore key x) = [asc ''ZSCORE'', key, x]"
| "zset_words (ZMScore key xs) = [asc ''ZMSCORE'', key] @ xs"
| "zset_words (ZRank rv key x) = [if rv then asc ''ZREVRANK'' else asc ''ZRANK'', key, x]"
| "zset_words (ZRange key a b op) = [asc ''ZRANGE'', key, a, b] @ zrange_words op"
| "zset_words (ZRevRange key i j ws) = [asc ''ZREVRANGE'', key, dec_int i, dec_int j] @ given ws ''WITHSCORES''"
| "zset_words (ZRangeByScore rv key a b ws lm) =
     [if rv then asc ''ZREVRANGEBYSCORE'' else asc ''ZRANGEBYSCORE'', key, if rv then b else a, if rv then a else b]
       @ given ws ''WITHSCORES'' @ limit_words lm"
| "zset_words (ZRangeByLex key a b) = [asc ''ZRANGEBYLEX'', key, a, b]"
| "zset_words (ZCount key a b) = [asc ''ZCOUNT'', key, a, b]"
| "zset_words (ZLexCount key a b) = [asc ''ZLEXCOUNT'', key, a, b]"
| "zset_words (ZRem key xs) = [asc ''ZREM'', key] @ xs"
| "zset_words (ZRemRangeByRank key i j) = [asc ''ZREMRANGEBYRANK'', key, dec_int i, dec_int j]"
| "zset_words (ZRemRangeByScore key a b) = [asc ''ZREMRANGEBYSCORE'', key, a, b]"
| "zset_words (ZPop mx key cnt) = [if mx then asc ''ZPOPMAX'' else asc ''ZPOPMIN'', key] @ (case cnt of None \<Rightarrow> [] | Some n \<Rightarrow> [dec_int (int n)])"
| "zset_words (ZRandMember key cnt) = [asc ''ZRANDMEMBER'', key] @ (case cnt of None \<Rightarrow> [] | Some (n, ws) \<Rightarrow> dec_int n # given ws ''WITHSCORES'')"
| "zset_words (ZScan key cursor op) = [asc ''ZSCAN'', key, cursor] @ scan_words op"
| "zset_words (ZJoin j ks wts agg ws) = [asc (join_name j)] @ counted ks @ join_words wts agg ws"
| "zset_words (ZJoinStore j dst ks wts agg) = [asc (join_name j @ ''STORE''), dst] @ counted ks @ join_words wts agg False"
| "zset_words (ZDiff ks ws) = [asc ''ZDIFF''] @ counted ks @ given ws ''WITHSCORES''"
| "zset_words (ZDiffStore dst ks) = [asc ''ZDIFFSTORE'', dst] @ counted ks"
| "zset_words (ZInterCard ks limit) = [asc ''ZINTERCARD''] @ counted ks @ (case limit of None \<Rightarrow> [] | Some l \<Rightarrow> [asc ''LIMIT'', dec_int (int l)])"
| "zset_words (ZMPop ks mn n) = [asc ''ZMPOP''] @ counted ks @ [if mn then asc ''MIN'' else asc ''MAX'', asc ''COUNT'', dec_int (int n)]"
| "zset_words (ZRangeStore dst src a b op) = [asc ''ZRANGESTORE'', dst, src, a, b] @ rangestore_words op"

definition zadd_free :: "bytes \<Rightarrow> bool" where
  "zadd_free t \<longleftrightarrow> to_uppercase t \<notin> asc ` {''NX'', ''XX'', ''GT'', ''LT'', ''CH'', ''INCR''}"

definition keys_ok :: "bytes list \<Rightarrow> bool" where
  "keys_ok ks \<longleftrightarrow> ks \<noteq> [] \<and> i64_ok (int (length ks))"

definition weights_ok :: "bytes list \<Rightarrow> bytes list option \<Rightarrow> bool" where
  "weights_ok ks wts \<longleftrightarrow> (case wts of None \<Rightarrow> True | Some ts \<Rightarrow> length ts = length ks \<and> list_all score_text ts)"

fun zset_wf :: "zset_cmd \<Rightarrow> bool" where
  "zset_wf (ZAdd key op ps) \<longleftrightarrow> ps \<noteq> [] \<and> list_all (\<lambda>(t, x). score_text t) ps \<and> zadd_free (fst (hd ps))"
| "zset_wf (ZIncrBy key t x) \<longleftrightarrow> utf8_valid t"
| "zset_wf (ZMScore key xs) \<longleftrightarrow> xs \<noteq> []"
| "zset_wf (ZRange key a b op) \<longleftrightarrow> utf8_valid a \<and> utf8_valid b \<and> zr_kind op \<noteq> Some ByRank \<and> limit_ok (zr_limit op)"
| "zset_wf (ZRevRange key i j ws) \<longleftrightarrow> i64_ok i \<and> i64_ok j"
| "zset_wf (ZRangeByScore rv key a b ws lm) \<longleftrightarrow> utf8_valid a \<and> utf8_valid b \<and> limit_ok lm"
| "zset_wf (ZRangeByLex key a b) \<longleftrightarrow> utf8_valid a \<and> utf8_valid b"
| "zset_wf (ZCount key a b) \<longleftrightarrow> utf8_valid a \<and> utf8_valid b"
| "zset_wf (ZLexCount key a b) \<longleftrightarrow> utf8_valid a \<and> utf8_valid b"
| "zset_wf (ZRem key xs) \<longleftrightarrow> xs \<noteq> []"
| "zset_wf (ZRemRangeByRank key i j) \<longleftrightarrow> i64_ok i \<and> i64_ok j"
| "zset_wf (ZRemRangeByScore key a b) \<longleftrightarrow> utf8_valid a \<and> utf8_valid b"
| "zset_wf (ZPop mx key cnt) \<longleftrightarrow> (case cnt of None \<Rightarrow> True | Some n \<Rightarrow> i64_ok (int n))"
| "zset_wf (ZRandMember key cnt) \<longleftrightarrow> (case cnt of None \<Rightarrow> True | Some (n, ws) \<Rightarrow> i64_ok n)"
| "zset_wf (ZScan key cursor op) \<longleftrightarrow> snd op > 0 \<and> i64_ok (int (snd op))"
| "zset_wf (ZJoin j ks wts agg ws) \<longleftrightarrow> keys_ok ks \<and> weights_ok ks wts"
| "zset_wf (ZJoinStore j dst ks wts agg) \<longleftrightarrow> keys_ok ks \<and> weights_ok ks wts"
| "zset_wf (ZDiff ks ws) \<longleftrightarrow> keys_ok ks"
| "zset_wf (ZDiffStore dst ks) \<longleftrightarrow> keys_ok ks"
| "zset_wf (ZInterCard ks limit) \<longleftrightarrow> keys_ok ks \<and> (case limit of None \<Rightarrow> True | Some l \<Rightarrow> l > 0 \<and> i64_ok (int l))"
| "zset_wf (ZMPop ks mn n) \<longleftrightarrow> keys_ok ks \<and> i64_ok (int n)"
| "zset_wf (ZRangeStore dst src a b op) \<longleftrightarrow> utf8_valid a \<and> utf8_valid b \<and> \<not> (rs_byscore op \<and> rs_bylex op) \<and> limit_ok (rs_limit op)"
| "zset_wf _ \<longleftrightarrow> True"

fun zset_handler :: "zset_cmd \<Rightarrow> env \<Rightarrow> resp list \<Rightarrow> resp handler" where
  "zset_handler (ZAdd key op ps) = cmd_zadd"
| "zset_handler (ZIncrBy key t x) = cmd_zincrby"
| "zset_handler (ZCard key) = cmd_zcard"
| "zset_handler (ZScore key x) = cmd_zscore"
| "zset_handler (ZMScore key xs) = cmd_zmscore"
| "zset_handler (ZRank rv key x) = (if rv then cmd_zrevrank else cmd_zrank)"
| "zset_handler (ZRange key a b op) = cmd_zrange"
| "zset_handler (ZRevRange key i j ws) = cmd_zrevrange"
| "zset_handler (ZRangeByScore rv key a b ws lm) = (if rv then cmd_zrevrangebyscore else cmd_zrangebyscore)"
| "zset_handler (ZRangeByLex key a b) = cmd_zrangebylex"
| "zset_handler (ZCount key a b) = cmd_zcount"
| "zset_handler (ZLexCount key a b) = cmd_zlexcount"
| "zset_handler (ZRem key xs) = cmd_zrem"
| "zset_handler (ZRemRangeByRank key i j) = cmd_zremrangebyrank"
| "zset_handler (ZRemRangeByScore key a b) = cmd_zremrangebyscore"
| "zset_handler (ZPop mx key cnt) = (if mx then cmd_zpopmax else cmd_zpopmin)"
| "zset_handler (ZRandMember key cnt) = cmd_zrandmember"
| "zset_handler (ZScan key cursor op) = cmd_zscan"
| "zset_handler (ZJoin JoinUnion ks wts agg ws) = cmd_zunion"
| "zset_handler (ZJoin JoinInter ks wts agg ws) = cmd_zinter"
| "zset_handler (ZJoinStore JoinUnion dst ks wts agg) = cmd_zunionstore"
| "zset_handler (ZJoinStore JoinInter dst ks wts agg) = cmd_zinterstore"
| "zset_handler (ZDiff ks ws) = cmd_zdiff"
| "zset_handler (ZDiffStore dst ks) = cmd_zdiffstore"
| "zset_handler (ZInterCard ks limit) = cmd_zintercard"
| "zset_handler (ZMPop ks mn n) = cmd_zmpop"
| "zset_handler (ZRangeStore dst src a b op) = cmd_zrangestore"

definition zset_exec :: "env \<Rightarrow> zset_cmd \<Rightarrow> resp handler" where
  "zset_exec E c = zset_handler c E (bulks (zset_words c))"

section \<open>The specification\<close>

abbreviation see_zset :: "nat \<Rightarrow> bytes \<Rightarrow> resp \<Rightarrow> (scores \<Rightarrow> resp) \<Rightarrow> keyspace \<Rightarrow> resp result" where
  "see_zset now key none h A \<equiv> view_at proj_zset now key (Inr none) (Inl WrongType) (\<lambda>m. Inr (h m)) A"

abbreviation list_zset :: "nat \<Rightarrow> bytes \<Rightarrow> resp \<Rightarrow> (scores \<Rightarrow> resp result \<Rightarrow> bool) \<Rightarrow> keyspace \<Rightarrow> resp result \<Rightarrow> bool" where
  "list_zset now key none H A r \<equiv> view_rel proj_zset now key (Inr none) (Inl WrongType) H A r"

text \<open>A command whose bounds are read first: an argument that is no number is the reply.\<close>

definition bounded :: "bytes \<Rightarrow> bytes \<Rightarrow> (f64 \<times> bool \<Rightarrow> f64 \<times> bool \<Rightarrow> keyspace \<Rightarrow> resp result \<Rightarrow> keyspace \<Rightarrow> bool)
    \<Rightarrow> keyspace \<Rightarrow> resp result \<Rightarrow> keyspace \<Rightarrow> bool" where
  "bounded a b P A r A' \<longleftrightarrow> (case attempt_e (parse_score_bound a) (\<lambda>lo. attempt_e (parse_score_bound b) (\<lambda>hi. Inr (lo, hi))) of
     Inl e \<Rightarrow> r = Inl e \<and> A' = A
   | Inr (lo, hi) \<Rightarrow> P lo hi A r A')"

definition weights_of :: "bytes list \<Rightarrow> bytes list option \<Rightarrow> f64 list" where
  "weights_of ks wts = (case wts of None \<Rightarrow> replicate (length ks) f64_one | Some ts \<Rightarrow> map score_of ts)"

definition agg_of :: "aggregate option \<Rightarrow> aggregate" where
  "agg_of agg = (case agg of None \<Rightarrow> AggSum | Some g \<Rightarrow> g)"

fun join_at :: "zset_join \<Rightarrow> nat \<Rightarrow> bytes list \<Rightarrow> f64 list \<Rightarrow> aggregate \<Rightarrow> keyspace \<Rightarrow> scores result" where
  "join_at JoinUnion = zunion_at"
| "join_at JoinInter = zinter_at"

definition zadd_at :: "nat \<Rightarrow> bytes \<Rightarrow> zadd_opts \<Rightarrow> (bytes \<times> bytes) list \<Rightarrow> keyspace \<Rightarrow> resp result \<Rightarrow> keyspace \<Rightarrow> bool" where
  "zadd_at now key op ps A r A' =
     (let G = (if za_incr op then zincr_rel (score_of (fst (hd ps))) (snd (hd ps)) else zadd_rel op (keyed ps)) in
      if za_xx op then edit_rel proj_zset AZSet now key (Inr (if za_incr op then resp_null else resp_int 0)) (Inl WrongType) G A r A'
      else upsert_rel proj_zset AZSet now key Map.empty (Inl WrongType) G A r A')"

definition rank_limit_error :: nexrade_error where
  "rank_limit_error = Generic (asc ''syntax error, LIMIT is only supported in combination with either BYSCORE or BYLEX'')"

fun zset_spec :: "env \<Rightarrow> zset_cmd \<Rightarrow> keyspace \<Rightarrow> resp result \<Rightarrow> keyspace \<Rightarrow> bool" where
  "zset_spec E (ZAdd key op ps) A r A' \<longleftrightarrow> (case zadd_check op (2 * length ps) of
     Inl e \<Rightarrow> r = Inl e \<and> A' = A | Inr _ \<Rightarrow> zadd_at (env_now E) key op ps A r A')"
| "zset_spec E (ZIncrBy key t x) A r A' \<longleftrightarrow> (case parse_score_bound t of
     Inl e \<Rightarrow> r = Inl e \<and> A' = A
   | Inr (delta, _) \<Rightarrow> upsert_rel proj_zset AZSet (env_now E) key Map.empty (Inl WrongType) (zincr_rel delta x) A r A')"
| "zset_spec E (ZCard key) A r A' \<longleftrightarrow> A' = A \<and> r = see_zset (env_now E) key (resp_int 0) (\<lambda>m. resp_int (int (card (dom m)))) A"
| "zset_spec E (ZScore key x) A r A' \<longleftrightarrow> A' = A \<and> list_zset (env_now E) key resp_null (\<lambda>m r. \<exists>v. score_reply (m x) v \<and> r = Inr v) A r"
| "zset_spec E (ZMScore key xs) A r A' \<longleftrightarrow> A' = A \<and> (let nulls = Inr (resp_array (map (\<lambda>_. resp_null) (bulks xs))) in
     view_rel proj_zset (env_now E) key nulls nulls (\<lambda>m r. \<exists>vs. list_all2 score_reply (map m xs) vs \<and> r = Inr (resp_array vs)) A r)"
| "zset_spec E (ZRank rv key x) A r A' \<longleftrightarrow> A' = A \<and> r = see_zset (env_now E) key resp_null (\<lambda>m. int_or_null (rank_of x rv m)) A"
| "zset_spec E (ZRange key a b op) A r A' \<longleftrightarrow> A' = A \<and> (let kind = zrange_kind_of (zr_kind op) a b in
     if kind = ByRank \<and> snd (zr_limit op) \<noteq> None then r = Inl rank_limit_error
     else list_zset (env_now E) key (resp_array []) (zrange_rel op kind a b) A r)"
| "zset_spec E (ZRevRange key i j ws) A r A' \<longleftrightarrow> A' = A \<and> list_zset (env_now E) key (resp_array []) (\<lambda>m. lists_scores (rank_range i j True m) ws) A r"
| "zset_spec E (ZRangeByScore rv key a b ws lm) A r A' \<longleftrightarrow> bounded a b (\<lambda>lo hi A r A'. A' = A
     \<and> list_zset (env_now E) key (resp_array []) (\<lambda>m. lists_scores (score_range lo hi rv lm m) ws) A r) A r A'"
| "zset_spec E (ZRangeByLex key a b) A r A' \<longleftrightarrow> A' = A
     \<and> r = see_zset (env_now E) key (resp_array []) (\<lambda>m. resp_array (map resp_bulk (lex_range (parse_lex_bounds a b) m))) A"
| "zset_spec E (ZCount key a b) A r A' \<longleftrightarrow> bounded a b (\<lambda>lo hi A r A'. A' = A
     \<and> r = see_zset (env_now E) key (resp_int 0) (\<lambda>m. resp_int (int (length (score_range lo hi False (0, None) m)))) A) A r A'"
| "zset_spec E (ZLexCount key a b) A r A' \<longleftrightarrow> A' = A
     \<and> r = see_zset (env_now E) key (resp_int 0) (\<lambda>m. resp_int (int (length (lex_range (trimmed_lex_bounds a b) m)))) A"
| "zset_spec E (ZRem key xs) A r A' \<longleftrightarrow> (r, A') = edit_at proj_zset AZSet (env_now E) key (Inr (resp_int 0)) (Inl WrongType) (zrem_effect xs) A"
| "zset_spec E (ZRemRangeByRank key i j) A r A' \<longleftrightarrow>
     (r, A') = edit_at proj_zset AZSet (env_now E) key (Inr (resp_int 0)) (Inl WrongType) (\<lambda>m. remove_listed (rank_range i j False m) m) A"
| "zset_spec E (ZRemRangeByScore key a b) A r A' \<longleftrightarrow> bounded a b (\<lambda>lo hi A r A'. (r, A')
     = edit_at proj_zset AZSet (env_now E) key (Inr (resp_int 0)) (Inl WrongType) (\<lambda>m. remove_listed (score_range lo hi False (0, None) m) m) A) A r A'"
| "zset_spec E (ZPop mx key cnt) A r A' \<longleftrightarrow> edit_rel proj_zset AZSet (env_now E) key (Inr (resp_array [])) (Inl WrongType)
     (zpop_rel mx (case cnt of None \<Rightarrow> 1 | Some n \<Rightarrow> n)) A r A'"
| "zset_spec E (ZRandMember key cnt) A r A' \<longleftrightarrow> A' = A \<and> list_zset (env_now E) key (if cnt \<noteq> None then resp_array [] else resp_null)
     (zsample_rel (map_option fst cnt) (case cnt of None \<Rightarrow> False | Some (_, ws) \<Rightarrow> ws)) A r"
| "zset_spec E (ZScan key cursor op) A r A' \<longleftrightarrow> A' = A \<and> list_zset (env_now E) key scan_empty_reply
     (zscan_rel (if utf8_valid cursor then decode_scan_cursor cursor else None) op) A r"
| "zset_spec E (ZJoin j ks wts agg ws) A r A' \<longleftrightarrow>
     lazy_expire (env_now E) A A' \<and> zlisted ws (join_at j (env_now E) ks (weights_of ks wts) (agg_of agg) A) r"
| "zset_spec E (ZJoinStore j dst ks wts agg) A r A' \<longleftrightarrow>
     (\<exists>B. lazy_expire (env_now E) A B \<and> zstored dst (join_at j (env_now E) ks (weights_of ks wts) (agg_of agg) A) B r A')"
| "zset_spec E (ZDiff ks ws) A r A' \<longleftrightarrow> lazy_expire (env_now E) A A' \<and> zlisted ws (zdiff_at (env_now E) ks A) r"
| "zset_spec E (ZDiffStore dst ks) A r A' \<longleftrightarrow> (\<exists>B. lazy_expire (env_now E) A B \<and> zstored dst (zdiff_at (env_now E) ks A) B r A')"
| "zset_spec E (ZInterCard ks limit) A r A' \<longleftrightarrow>
     lazy_expire (env_now E) A A' \<and> r = map_sum id (\<lambda>n. resp_int (int n)) (zintercard_at (env_now E) ks limit A)"
| "zset_spec E (ZMPop ks mn n) A r A' \<longleftrightarrow>
     (\<exists>x. zmpop_at (env_now E) ks mn n A x A' \<and> r = Inr (case x of Some v \<Rightarrow> v | None \<Rightarrow> resp_null_array))"
| "zset_spec E (ZRangeStore dst src a b op) A r A' \<longleftrightarrow>
     (\<exists>B. lazy_expire (env_now E) A B \<and> zstored dst (zrangestore_at (env_now E) op src a b A) B r A')"

end
