(* ===== verification/ZSet_Correct.thy ===== *)
theory ZSet_Correct
  imports ZSet_Spec
begin

text \<open>
  Every sorted set command, from its words on, implements its specification (\<open>zset_command_law\<close>).
\<close>

section \<open>Reading the words\<close>

lemma asc_inject: "asc s = asc t \<longleftrightarrow> s = t"
proof -
  have u: "unat (of_char c :: u8) = of_char c" for c
    by (subst of_nat_of_char [symmetric]) (simp add: unat_of_nat of_char_mod_256 del: of_nat_of_char)
  have "inj (of_char :: char \<Rightarrow> u8)" by (rule injI) (metis u inj_of_char inj_eq)
  then show ?thesis by (simp add: asc_def inj_map_eq_map)
qed

lemma zset_upper:
  "to_uppercase (asc ''NX'') = asc ''NX''" "to_uppercase (asc ''XX'') = asc ''XX''" "to_uppercase (asc ''GT'') = asc ''GT''"
  "to_uppercase (asc ''LT'') = asc ''LT''" "to_uppercase (asc ''CH'') = asc ''CH''" "to_uppercase (asc ''INCR'') = asc ''INCR''"
  "to_uppercase (asc ''WITHSCORES'') = asc ''WITHSCORES''" "to_uppercase (asc ''REV'') = asc ''REV''"
  "to_uppercase (asc ''BYSCORE'') = asc ''BYSCORE''" "to_uppercase (asc ''BYLEX'') = asc ''BYLEX''" "to_uppercase (asc ''LIMIT'') = asc ''LIMIT''"
  "to_uppercase (asc ''WEIGHTS'') = asc ''WEIGHTS''" "to_uppercase (asc ''AGGREGATE'') = asc ''AGGREGATE''"
  "to_uppercase (asc ''SUM'') = asc ''SUM''" "to_uppercase (asc ''MIN'') = asc ''MIN''" "to_uppercase (asc ''MAX'') = asc ''MAX''"
  "to_ascii_uppercase (asc ''BYSCORE'') = asc ''BYSCORE''" "to_ascii_uppercase (asc ''BYLEX'') = asc ''BYLEX''"
  "to_ascii_uppercase (asc ''REV'') = asc ''REV''" "to_ascii_uppercase (asc ''LIMIT'') = asc ''LIMIT''"
  "to_ascii_uppercase (asc ''MIN'') = asc ''MIN''" "to_ascii_uppercase (asc ''MAX'') = asc ''MAX''"
  "to_ascii_uppercase (asc ''COUNT'') = asc ''COUNT''" "to_ascii_uppercase (asc ''WITHSCORES'') = asc ''WITHSCORES''"
  by code_simp+

lemma zset_valid:
  "utf8_valid (asc ''NX'')" "utf8_valid (asc ''XX'')" "utf8_valid (asc ''GT'')" "utf8_valid (asc ''LT'')" "utf8_valid (asc ''CH'')"
  "utf8_valid (asc ''INCR'')" "utf8_valid (asc ''WITHSCORES'')" "utf8_valid (asc ''REV'')" "utf8_valid (asc ''BYSCORE'')"
  "utf8_valid (asc ''BYLEX'')" "utf8_valid (asc ''LIMIT'')" "utf8_valid (asc ''WEIGHTS'')" "utf8_valid (asc ''AGGREGATE'')"
  "utf8_valid (asc ''SUM'')" "utf8_valid (asc ''MIN'')" "utf8_valid (asc ''MAX'')" "utf8_valid (asc ''COUNT'')"
  by code_simp+

lemmas zword = zset_upper zset_valid asc_inject ok_or_arity_def

lemma word_i64:
  "i64_ok n \<Longrightarrow> get_i64 (BulkString (Some (dec_int n)) # rest) 0 cmd = Inr n"
  "i64_ok n \<Longrightarrow> get_i64 (a # BulkString (Some (dec_int n)) # rest) (Suc 0) cmd = Inr n"
  by (simp_all add: arg_defs)

lemma word_str: "utf8_valid t \<Longrightarrow> get_str (BulkString (Some t) # rest) 0 cmd = Inr t"
  by (simp add: arg_defs)

lemma zadd_options_step:
  "zadd_options (bulks (asc ''NX'' # ts)) op = zadd_options (bulks ts) (op\<lparr>za_nx := True\<rparr>)"
  "zadd_options (bulks (asc ''XX'' # ts)) op = zadd_options (bulks ts) (op\<lparr>za_xx := True\<rparr>)"
  "zadd_options (bulks (asc ''GT'' # ts)) op = zadd_options (bulks ts) (op\<lparr>za_gt := True\<rparr>)"
  "zadd_options (bulks (asc ''LT'' # ts)) op = zadd_options (bulks ts) (op\<lparr>za_lt := True\<rparr>)"
  "zadd_options (bulks (asc ''CH'' # ts)) op = zadd_options (bulks ts) (op\<lparr>za_ch := True\<rparr>)"
  "zadd_options (bulks (asc ''INCR'' # ts)) op = zadd_options (bulks ts) (op\<lparr>za_incr := True\<rparr>)"
  by (simp_all add: zword)

lemma zadd_options_stop:
  assumes "zadd_free t" and "utf8_valid t"
  shows "zadd_options (bulks (t # ts)) op = Inr (op, bulks (t # ts))"
  using assms by (simp add: zadd_free_def zword Let_def)

lemma given_step: "(\<And>op. f (bulks (asc w # ts)) op = f (bulks ts) (g op)) \<Longrightarrow> f (bulks (given b w @ ts)) op = f (bulks ts) (if b then g op else op)"
  by (simp add: given_def)

lemma zadd_options_words:
  assumes "zadd_free t" and "utf8_valid t"
  shows "zadd_options (bulks (zadd_words op @ t # ts)) no_zadd_opts = Inr (op, bulks (t # ts))"
proof -
  note steps = zadd_options_step [THEN given_step [where f = zadd_options]]
  show ?thesis unfolding zadd_words_def append_assoc steps zadd_options_stop [OF assms]
    by (cases op) (simp add: no_zadd_opts_def)
qed

lemma limit_args_words:
  assumes "limit_ok (off, Some n)"
  shows "limit_args (bulks [dec_int (int off), dec_int (int n)]) cmd = Inr (off, Some n)"
  using assms by (simp add: limit_args_def limit_ok_def word_i64)

lemma zrange_options_step:
  "zrange_options (bulks (asc ''WITHSCORES'' # ts)) op = zrange_options (bulks ts) (op\<lparr>zr_withscores := True\<rparr>)"
  "zrange_options (bulks (asc ''REV'' # ts)) op = zrange_options (bulks ts) (op\<lparr>zr_rev := True\<rparr>)"
  "zrange_options (bulks (asc ''BYSCORE'' # ts)) op = zrange_options (bulks ts) (op\<lparr>zr_kind := Some ByScore\<rparr>)"
  "zrange_options (bulks (asc ''BYLEX'' # ts)) op = zrange_options (bulks ts) (op\<lparr>zr_kind := Some ByLex\<rparr>)"
  by (simp_all add: zword)

lemma limit_word_args:
  assumes "limit_ok (off, Some n)"
  shows "get_i64 (bulks [dec_int (int off), dec_int (int n)]) 0 cmd = Inr (int off)" "get_i64 (bulks [dec_int (int off), dec_int (int n)]) 1 cmd = Inr (int n)"
  using assms by (simp_all add: limit_ok_def word_i64)

lemma zrange_options_limit:
  assumes "limit_ok lm"
  shows "zrange_options (bulks (limit_words lm)) op = Inr (if snd lm = None then op else op\<lparr>zr_limit := lm\<rparr>)"
proof (cases "snd lm")
  case (Some n)
  then have "limit_ok (fst lm, Some n)" "lm = (fst lm, Some n)" using assms by (simp_all add: limit_ok_def prod_eq_iff)
  then show ?thesis using limit_args_words [of "fst lm" n "asc ''ZRANGE''"] by (simp add: limit_words_def Some zword Let_def)
qed (simp add: limit_words_def)

lemma zrange_options_words:
  assumes "limit_ok (zr_limit op)" and "zr_kind op \<noteq> Some ByRank"
  shows "zrange_options (bulks (zrange_words op)) no_zrange_opts = Inr op"
proof -
  note steps = zrange_options_step [THEN given_step [where f = zrange_options]]
  have k: "zr_kind op = None \<or> zr_kind op = Some ByScore \<or> zr_kind op = Some ByLex"
  proof (cases "zr_kind op")
    case (Some k)
    then show ?thesis using assms(2) by (cases k) simp_all
  qed simp
  have l: "snd (zr_limit op) = None \<Longrightarrow> zr_limit op = (0, None)" using assms(1) by (auto simp: limit_ok_def prod_eq_iff)
  show ?thesis unfolding zrange_words_def append_assoc steps zrange_options_limit [OF assms(1)]
    using k l by (cases op) (auto simp: no_zrange_opts_def)
qed

lemma score_range_options_words:
  assumes "limit_ok lm"
  shows "score_range_options cmd (bulks (given ws ''WITHSCORES'' @ limit_words lm)) (False, 0, None) = Inr (ws, lm)"
proof -
  have l: "score_range_options cmd (bulks (limit_words lm)) (b, 0, None) = Inr (b, lm)" for b
  proof (cases "snd lm")
    case (Some n)
    then have "limit_ok (fst lm, Some n)" "lm = (fst lm, Some n)" using assms by (simp_all add: limit_ok_def prod_eq_iff)
    then show ?thesis using limit_args_words [of "fst lm" n cmd] by (simp add: limit_words_def Some zword Let_def)
  next
    case None
    then show ?thesis using assms by (simp add: limit_words_def limit_ok_def prod_eq_iff)
  qed
  show ?thesis by (cases ws) (simp_all add: given_def l zword Let_def)
qed

lemma rangestore_options_words:
  assumes "limit_ok (rs_limit op)"
  shows "rangestore_options (bulks (rangestore_words op)) no_rangestore_opts = Inr op"
proof -
  have s: "rangestore_options (bulks (asc ''BYSCORE'' # ts)) q = rangestore_options (bulks ts) (q\<lparr>rs_byscore := True\<rparr>)"
    "rangestore_options (bulks (asc ''BYLEX'' # ts)) q = rangestore_options (bulks ts) (q\<lparr>rs_bylex := True\<rparr>)"
    "rangestore_options (bulks (asc ''REV'' # ts)) q = rangestore_options (bulks ts) (q\<lparr>rs_rev := True\<rparr>)" for ts q
    by (simp_all add: zword)
  note steps = s [THEN given_step [where f = rangestore_options]]
  have l: "rangestore_options (bulks (limit_words lm)) q = Inr (if snd lm = None then q else q\<lparr>rs_limit := lm\<rparr>)" if "limit_ok lm" for lm q
  proof (cases "snd lm")
    case (Some n)
    then have a: "limit_ok (fst lm, Some n)" "lm = (fst lm, Some n)" using that by (simp_all add: limit_ok_def prod_eq_iff)
    have i: "int (fst lm) mod 2 ^ 64 = int (fst lm)" "int n mod 2 ^ 64 = int n" using a(1) by (simp_all add: limit_ok_def i64_ok_def)
    have "rangestore_options (bulks (limit_words lm)) q
        = rangestore_options [] (q\<lparr>rs_limit := (nat (int (fst lm) mod 2 ^ 64), Some (nat (int n mod 2 ^ 64)))\<rparr>)"
      using limit_word_args [OF a(1), of "asc ''ZRANGESTORE''"] by (simp add: limit_words_def Some zword Let_def)
    then show ?thesis unfolding i nat_int a(2) [symmetric] by (simp add: Some)
  qed (simp add: limit_words_def)
  have "snd (rs_limit op) = None \<Longrightarrow> rs_limit op = (0, None)" using assms by (auto simp: limit_ok_def prod_eq_iff)
  then show ?thesis unfolding rangestore_words_def append_assoc steps l [OF assms] by (cases op) (auto simp: no_rangestore_opts_def)
qed

lemma keys_at_words:
  assumes "bs = pre @ ks @ post" and "length pre = i"
  shows "keys_at (bulks bs) i (length ks) cmd = Inr ks"
proof -
  have "take (length ks) (drop i (bulks bs)) = bulks ks" using assms by (simp add: bulks_def)
  then show ?thesis using assms by (simp add: keys_at_def keys_from_words)
qed

lemma numkeys_words:
  assumes "keys_ok ks" and "bs = pre @ counted ks @ post" and "length pre = i"
  shows "get_i64 (bulks bs) i cmd = Inr (int (length ks))" and "parse_numkeys_for_set_op (bulks bs) i cmd = Inr (length ks)"
    and "parse_numkeys_z (bulks bs) i cmd = Inr (length ks)"
proof -
  have i: "bs ! i = dec_int (int (length ks))" "i < length bs" using assms(2,3) by (simp_all add: counted_def nth_append)
  show g: "get_i64 (bulks bs) i cmd = Inr (int (length ks))" by (rule get_word_i64) (use i assms(1) in \<open>simp_all add: keys_ok_def\<close>)
  have "ks \<noteq> []" using assms(1) by (simp add: keys_ok_def)
  then show "parse_numkeys_for_set_op (bulks bs) i cmd = Inr (length ks)" "parse_numkeys_z (bulks bs) i cmd = Inr (length ks)"
    by (simp_all add: parse_numkeys_for_set_op_def parse_numkeys_z_def g)
qed

lemma weights_from_words:
  assumes "list_all score_text ts"
  shows "weights_from cmd (length ts) (bulks (ts @ rest)) = Inr (map score_of ts)"
  using assms
proof (induction ts)
  case (Cons t ts)
  then obtain v e where v: "parse_score_bound t = Inr (v, e)" "utf8_valid t" by (auto simp: score_text_def split: sum.splits)
  then have "score_arg (bulks (t # ts @ rest)) 0 cmd = Inr (v, e)" by (simp add: score_arg_def word_str)
  then show ?case using Cons v(1) by (simp add: score_of_def)
qed simp

lemma join_options_words:
  assumes "weights_ok ks wts" and "ws \<longrightarrow> ok"
  shows "weights_agg_loop ok cmd (length ks) (bulks (join_words wts agg ws)) (replicate (length ks) f64_one, AggSum, False)
    = Inr (weights_of ks wts, agg_of agg, ws)"
proof -
  let ?loop = "weights_agg_loop ok cmd (length ks)"
  have w: "?loop (bulks (given ws ''WITHSCORES'')) (q, g, False) = Inr (q, g, ws)" for q g
    using assms(2) by (cases ws) (simp_all add: given_def zword Let_def)
  have a: "?loop (bulks ((case agg of None \<Rightarrow> [] | Some g \<Rightarrow> [asc ''AGGREGATE'', asc (agg_name g)]) @ given ws ''WITHSCORES'')) (q, AggSum, False)
      = Inr (q, agg_of agg, ws)" for q
  proof (cases agg)
    case None
    then show ?thesis using w by (simp add: agg_of_def)
  next
    case (Some g)
    have "utf8_valid (asc (agg_name g))" "parse_aggregate (asc (agg_name g)) = Inr g"
      by (cases g; simp add: zword parse_aggregate_def)+
    then have "attempt_e (get_str (bulks (asc (agg_name g) # given ws ''WITHSCORES'')) 0 cmd) parse_aggregate = Inr g" by (simp add: word_str)
    then show ?thesis using w [of q g] by (simp add: Some agg_of_def zword Let_def)
  qed
  show ?thesis
  proof (cases wts)
    case None
    then show ?thesis using a by (simp add: join_words_def weights_of_def)
  next
    case (Some ts)
    then have t: "length ts = length ks" "list_all score_text ts" using assms(1) by (simp_all add: weights_ok_def)
    let ?rest = "(case agg of None \<Rightarrow> [] | Some g \<Rightarrow> [asc ''AGGREGATE'', asc (agg_name g)]) @ given ws ''WITHSCORES''"
    have "weights_from cmd (length ks) (bulks (ts @ ?rest)) = Inr (map score_of ts)" using weights_from_words [OF t(2), of cmd ?rest] t(1) by simp
    moreover have "join_words wts agg ws = asc ''WEIGHTS'' # ts @ ?rest" by (simp add: join_words_def Some)
    moreover have "drop (length ks) (bulks (ts @ ?rest)) = bulks ?rest" using t(1) by simp
    ultimately show ?thesis using a [of "map score_of ts"]
      by (simp add: weights_of_def Some zword Let_def del: bulks_simps(4,5))
  qed
qed

section \<open>Waking\<close>

lemma wake_ok:
  fixes s :: cmd_state
  assumes "h s = Some (w, s1)" and "ks_is lims clk (cs_db s1) A'"
  shows "\<exists>s'. wake_zset h s = Some (map_sum id fst w, s') \<and> ks_is lims clk (cs_db s') A'"
  using assms zset_wakes_db [of _ s1] by (cases w) (auto simp: wake_zset_def)

section \<open>The commands\<close>

lemma zadd_law:
  fixes s :: cmd_state
  assumes "env_ok lims E" and "zset_wf (ZAdd key op ps)" and "ks_is lims clk (cs_db s) A"
  shows "\<exists>r s' A'. zset_exec E (ZAdd key op ps) s = Some (r, s') \<and> zset_spec E (ZAdd key op ps) A r A' \<and> ks_is lims clk (cs_db s') A'"
proof -
  let ?now = "env_now E" and ?vals = "bulks (flat ps)"
  obtain t x qs where ps: "ps = (t, x) # qs" using assms(2) by (cases ps) auto
  then have first: "hd ps = (t, x)" by simp
  have st: "list_all (\<lambda>(t, x). score_text t) ps" "zadd_free t" "score_text t" using assms(2) by (simp_all add: ps)
  have opts: "zadd_options (drop 2 (bulks (zset_words (ZAdd key op ps)))) no_zadd_opts = Inr (op, ?vals)"
    using zadd_options_words [OF st(2), of op "x # flat qs"] st(3) by (simp add: ps score_text_def)
  have len: "length ?vals = 2 * length ps" by simp
  let ?h = "on_key key (\<lambda>d. let (absent, d) = (if za_xx op then (case db_get ?now key d of (x, d) \<Rightarrow> (x = None, d)) else (False, d)) in
          if absent then Some (Inr (if za_incr op then resp_null else resp_int 0, False), d)
          else upsert ?now key (DZSet zsetdata_new) (zadd_value E op ?vals) d)"
  have "\<not> length (bulks (zset_words (ZAdd key op ps))) < 4" by (simp add: ps)
  moreover have "get_bytes_vec (bulks (zset_words (ZAdd key op ps))) 1 (asc ''ZADD'') = Inr key" by (simp add: arg_defs)
  ultimately have exec: "zset_exec E (ZAdd key op ps) = attempt (zadd_check op (2 * length ps)) (\<lambda>_. wake_zset ?h)"
    unfolding zset_exec_def zset_handler.simps cmd_zadd_def if_False attempt_simps opts prod.case len by (simp only: if_False attempt_simps)
  show ?thesis
  proof (cases "zadd_check op (2 * length ps)")
    case (Inl e)
    then show ?thesis using exec assms(3) by (auto simp: fail_def)
  next
    case (Inr u)
    let ?none = "Inr (if za_incr op then resp_null else resp_int 0, False) :: (resp \<times> bool) result"
    define G where "G = (if za_incr op then zincr_rel (score_of t) x else zadd_rel op (keyed ps))"
    let ?G = "\<lambda>m w. G m (map_sum id fst w)"
    have rop: "coll_rop lims DZSet proj_zset AZSet zset_is True (zadd_value E op ?vals) (Inl WrongType) ?G"
    proof (cases "za_incr op")
      case True
      then have "qs = []" using Inr by (cases qs) (auto simp: ps zadd_check_def split: if_splits)
      then have "zadd_value E op ?vals = zincrby_value E (score_of t) x" using zadd_incr [OF True st(3)] by (simp add: ps)
      then show ?thesis using zb.coll_rop_axioms [of lims E "score_of t" x] assms(1) True
        by (simp add: G_def coll_rop_def coll_rop_axioms_def)
    next
      case False
      have "env_ok lims E \<and> \<not> za_incr op \<and> (\<forall>(t, x) \<in> set ps. score_text t)" using assms(1) False st(1) by (simp add: list_all_iff)
      then show ?thesis using za.coll_rop_axioms [of lims E op ps] False by (simp add: G_def coll_rop_def coll_rop_axioms_def)
    qed
    have spec: "zset_spec E (ZAdd key op ps) A r A' \<longleftrightarrow> (if za_xx op
        then edit_rel proj_zset AZSet ?now key (Inr (if za_incr op then resp_null else resp_int 0)) (Inl WrongType) G A r A'
        else upsert_rel proj_zset AZSet ?now key Map.empty (Inl WrongType) G A r A')" for r A'
      by (simp add: Inr zadd_at_def G_def first)
    have "\<exists>w s1 A'. ?h s = Some (w, s1) \<and> zset_spec E (ZAdd key op ps) A (map_sum id fst w) A' \<and> ks_is lims clk (cs_db s1) A'"
    proof (cases "za_xx op")
      case True
      then have h: "?h = on_key key (\<lambda>d. case db_get ?now key d of (x, d1) \<Rightarrow> if x = None then Some (?none, d1)
          else upsert ?now key (DZSet zsetdata_new) (zadd_value E op ?vals) d1)"
        by (auto simp: fun_eq_iff case_prod_beta Let_def intro!: arg_cong [of _ _ "\<lambda>f. on_key key f _"])
      from coll_rop.present_rel_ok [OF rop, OF TrueI zset_new_is assms(3), where key = key and now = ?now and none = ?none] obtain w s1 A' where
        w: "?h s = Some (w, s1)" "edit_rel proj_zset AZSet ?now key ?none (Inl WrongType) ?G A w A'" "ks_is lims clk (cs_db s1) A'" unfolding h by blast
      show ?thesis using w edit_rel_map [where f = "map_sum id fst" and G' = G, OF w(2)] True unfolding spec by (auto simp: id_def)
    next
      case False
      then have h: "?h = on_key key (upsert ?now key (DZSet zsetdata_new) (zadd_value E op ?vals))" by (simp add: Let_def)
      from coll_rop.upsert_rel_ok [OF rop, OF TrueI zset_new_is assms(3), where key = key and now = ?now] obtain w s1 A' where
        w: "?h s = Some (w, s1)" "upsert_rel proj_zset AZSet ?now key Map.empty (Inl WrongType) ?G A w A'" "ks_is lims clk (cs_db s1) A'" unfolding h by blast
      show ?thesis using w upsert_rel_map [where f = "map_sum id fst" and G' = G, OF w(2)] False unfolding spec by (auto simp: id_def)
    qed
    then show ?thesis using wake_ok [of ?h s] unfolding exec Inr attempt_simps by blast
  qed
qed

lemma zjoin_computes:
  fixes s :: cmd_state
  assumes "env_ok lims E" and "ks_is lims clk (cs_db s) A" and "weights_ok ks wts"
  shows "computes lims clk (env_now E) (compute_zunion_result E ks (weights_of ks wts) agg) s A (join_at JoinUnion (env_now E) ks (weights_of ks wts) agg A)"
    and "computes lims clk (env_now E) (compute_zinter_result E ks (weights_of ks wts) agg) s A (join_at JoinInter (env_now E) ks (weights_of ks wts) agg A)"
proof -
  have "length (weights_of ks wts) = length ks" using assms(3) by (cases wts) (simp_all add: weights_of_def weights_ok_def)
  then show "computes lims clk (env_now E) (compute_zunion_result E ks (weights_of ks wts) agg) s A (join_at JoinUnion (env_now E) ks (weights_of ks wts) agg A)"
    "computes lims clk (env_now E) (compute_zinter_result E ks (weights_of ks wts) agg) s A (join_at JoinInter (env_now E) ks (weights_of ks wts) agg A)"
    using zunion_computes [OF assms(1,2)] zinter_computes [OF assms(1,2)] by simp_all
qed

lemma zset_reply_words:
  assumes "keys_ok ks" and "weights_ok ks wts"
  shows "zset_reply_op cmd compute (bulks ([n] @ counted ks @ join_words wts agg ws)) = reply_zset ws (compute ks (weights_of ks wts) (agg_of agg))"
proof -
  let ?bs = "[n] @ counted ks @ join_words wts agg ws"
  have "\<not> length (bulks ?bs) < 3" using assms(1) by (cases ks) (simp_all add: keys_ok_def counted_def)
  moreover have "parse_numkeys_for_set_op (bulks ?bs) 1 cmd = Inr (length ks)" by (rule numkeys_words(2) [OF assms(1), where pre = "[n]"]) auto
  moreover have "keys_at (bulks ?bs) 2 (length ks) cmd = Inr ks"
    by (rule keys_at_words [where pre = "[n, dec_int (int (length ks))]" and post = "join_words wts agg ws"]) (simp_all add: counted_def)
  moreover have "drop (2 + length ks) (bulks ?bs) = bulks (join_words wts agg ws)" by (simp add: counted_def)
  ultimately show ?thesis using join_options_words [OF assms(2), of ws True cmd agg]
    by (simp add: zset_reply_op_def parse_weights_agg_withscores_def del: bulks_simps append.simps)
qed

lemma zset_store_words:
  assumes "keys_ok ks" and "weights_ok ks wts"
  shows "zset_store_op cmd compute (bulks ([n, dst] @ counted ks @ join_words wts agg False)) = store_zset dst (compute ks (weights_of ks wts) (agg_of agg))"
proof -
  let ?bs = "[n, dst] @ counted ks @ join_words wts agg False"
  have "\<not> length (bulks ?bs) < 4" using assms(1) by (cases ks) (simp_all add: keys_ok_def counted_def)
  moreover have "get_bytes_vec (bulks ?bs) 1 cmd = Inr dst" by (simp add: arg_defs)
  moreover have "parse_numkeys_for_set_op (bulks ?bs) 2 cmd = Inr (length ks)" by (rule numkeys_words(2) [OF assms(1), where pre = "[n, dst]"]) auto
  moreover have "keys_at (bulks ?bs) 3 (length ks) cmd = Inr ks"
    by (rule keys_at_words [where pre = "[n, dst, dec_int (int (length ks))]" and post = "join_words wts agg False"]) (simp_all add: counted_def)
  moreover have "drop (3 + length ks) (bulks ?bs) = bulks (join_words wts agg False)" by (simp add: counted_def numeral_3_eq_3)
  ultimately show ?thesis using join_options_words [OF assms(2), of False False cmd agg]
    by (simp add: zset_store_op_def parse_aggregate_weights_def del: bulks_simps append.simps)
qed

lemma zdiff_words:
  assumes "keys_ok ks"
  shows "cmd_zdiff E (bulks ([n] @ counted ks @ given ws ''WITHSCORES'')) = reply_zset ws (compute_zdiff_result E ks)"
proof -
  let ?bs = "[n] @ counted ks @ given ws ''WITHSCORES''"
  have "\<not> length (bulks ?bs) < 3" using assms by (cases ks) (simp_all add: keys_ok_def counted_def)
  moreover have "parse_numkeys_for_set_op (bulks ?bs) 1 (asc ''ZDIFF'') = Inr (length ks)" by (rule numkeys_words(2) [OF assms, where pre = "[n]"]) auto
  moreover have "keys_at (bulks ?bs) 2 (length ks) (asc ''ZDIFF'') = Inr ks"
    by (rule keys_at_words [where pre = "[n, dec_int (int (length ks))]" and post = "given ws ''WITHSCORES''"]) (simp_all add: counted_def)
  moreover have "zdiff_withscores (bulks ?bs) (2 + length ks) = Inr ws"
  proof (cases ws)
    case True
    have "get_str (bulks ?bs) (2 + length ks) (asc ''ZDIFF'') = Inr (asc ''WITHSCORES'')"
      using get_bulks(3) [of "2 + length ks" ?bs] zset_valid by (simp add: counted_def given_def True nth_append)
    then show ?thesis using True by (simp add: zdiff_withscores_def counted_def given_def zset_upper del: bulks_simps(1,2,4,5))
  qed (simp add: zdiff_withscores_def counted_def given_def)
  ultimately show ?thesis by (simp add: cmd_zdiff_def del: bulks_simps append.simps)
qed

lemma zdiffstore_words:
  assumes "keys_ok ks"
  shows "cmd_zdiffstore E (bulks ([n, dst] @ counted ks)) = store_zset dst (compute_zdiff_result E ks)"
proof -
  let ?bs = "[n, dst] @ counted ks"
  have "length ?bs \<ge> 4" "length ?bs = 3 + length ks" using assms by (cases ks; simp add: keys_ok_def counted_def)+
  moreover have "get_bytes_vec (bulks ?bs) 1 (asc ''ZDIFFSTORE'') = Inr dst" by (simp add: arg_defs)
  moreover have "parse_numkeys_for_set_op (bulks ?bs) 2 (asc ''ZDIFFSTORE'') = Inr (length ks)" by (rule numkeys_words(2) [OF assms, where pre = "[n, dst]" and post = "[]"]) auto
  moreover have "keys_at (bulks ?bs) 3 (length ks) (asc ''ZDIFFSTORE'') = Inr ks"
    by (rule keys_at_words [where pre = "[n, dst, dec_int (int (length ks))]" and post = "[]"]) (simp_all add: counted_def)
  moreover have "ks \<noteq> []" using assms by (simp add: keys_ok_def)
  ultimately show ?thesis by (simp add: cmd_zdiffstore_def del: bulks_simps(1,2,4,5) append.simps)
qed

lemma zintercard_law:
  fixes s :: cmd_state
  assumes "env_ok lims E" and "zset_wf (ZInterCard ks limit)" and "ks_is lims clk (cs_db s) A"
  shows "\<exists>r s' A'. zset_exec E (ZInterCard ks limit) s = Some (r, s') \<and> zset_spec E (ZInterCard ks limit) A r A' \<and> ks_is lims clk (cs_db s') A'"
proof -
  let ?bs = "zset_words (ZInterCard ks limit)" and ?now = "env_now E" and ?nm = "asc ''ZINTERCARD''"
  have w: "keys_ok ks" "ks \<noteq> []" "limit \<noteq> Some 0" using assms(2) by (auto simp: keys_ok_def)
  have len: "\<not> length (bulks ?bs) < 3" using w(2) by (cases ks; cases limit) (simp_all add: counted_def)
  have n: "parse_numkeys_for_set_op (bulks ?bs) 1 ?nm = Inr (length ks)" by (rule numkeys_words(2) [OF w(1), where pre = "[?nm]"]) simp_all
  have k: "keys_at (bulks ?bs) 2 (length ks) ?nm = Inr ks"
    by (rule keys_at_words [where pre = "[?nm, dec_int (int (length ks))]"]) (simp_all add: counted_def)
  have l: "zintercard_limit (bulks ?bs) (2 + length ks) = Inr limit"
  proof (cases limit)
    case (Some l)
    let ?i = "2 + length ks"
    have b: "?bs ! ?i = asc ''LIMIT''" "?bs ! (?i + 1) = dec_int (int l)" "length ?bs = ?i + 2" by (simp_all add: Some nth_append counted_def)
    have "l > 0" "i64_ok (int l)" using assms(2) Some by simp_all
    moreover have "get_str (bulks ?bs) ?i ?nm = Inr (asc ''LIMIT'')"
      using get_bulks(3) [of ?i ?bs ?nm] b zset_valid by (simp del: zset_words.simps)
    moreover have "get_i64 (bulks ?bs) (?i + 1) ?nm = Inr (int l)"
      using get_word_i64 [of "?i + 1" ?bs "int l"] b calculation(2) by (simp del: zset_words.simps)
    moreover have "int l mod 2 ^ 64 = int l" using calculation(2) by (simp add: i64_ok_def)
    ultimately show ?thesis using b(3) by (simp add: zintercard_limit_def zset_upper Some del: zset_words.simps bulks_simps(1,2,4,5))
  qed (simp add: zintercard_limit_def counted_def)
  from zintercard_sets_is [OF assms(3), of E ks 0 "(2 ^ 64 - 1, 0)" "[]"] obtain x s' B where
    v: "zintercard_sets E ks 0 (2 ^ 64 - 1, 0) [] s = Some (x, s')" "lazy_expire ?now A B" "ks_is lims clk (cs_db s') B"
      "case missing_operand ?now ks A of Some k \<Rightarrow> x = map_sum id (\<lambda>_. None) (zset_at ?now A k)
       | None \<Rightarrow> \<exists>Ys b. x = Inr (Some ([] @ Ys, b)) \<and> list_all2 zset_is Ys (map (scores_at ?now A) ks)
           \<and> (b = snd (2 ^ 64 - 1 :: nat, 0 :: nat) \<or> 0 \<le> b \<and> b < 0 + length ks)" by blast
  have exec: "zset_exec E (ZInterCard ks limit) s = (case x of
       Inl e \<Rightarrow> fail e s'
     | Inr None \<Rightarrow> reply (resp_int 0) s'
     | Inr (Some (Zs, best)) \<Rightarrow> if Zs = [] then reply (resp_int 0) s' else do {
         z \<leftarrow> index Zs best;
         reply (resp_int (int (zintercard_loop (take best Zs @ drop (Suc best) Zs) limit (zsetdata_member_keys (env_zset_order E) z) 0))) s' })"
    unfolding zset_exec_def zset_handler.simps cmd_zintercard_def n attempt_simps k l
    by (simp only: len if_False attempt_simps v(1) Option.bind.simps prod.case)
  have "\<exists>r. zset_exec E (ZInterCard ks limit) s = Some (r, s') \<and> r = map_sum id (\<lambda>n. resp_int (int n)) (zintercard_at ?now ks limit A)"
  proof (cases "missing_operand ?now ks A")
    case (Some k)
    then have x: "x = map_sum id (\<lambda>_. None) (zset_at ?now A k)" using v(4) by simp
    show ?thesis unfolding exec x by (cases "zset_at ?now A k") (simp_all add: zintercard_at_def Some fail_def reply_def)
  next
    case None
    then obtain Ys b where Y: "x = Inr (Some (Ys, b))" "list_all2 zset_is Ys (map (scores_at ?now A) ks)" "b = 0 \<or> b < length ks"
      using v(4) by (auto simp del: zset_is.simps)
    have len: "length Ys = length ks" using list_all2_lengthD [OF Y(2)] by simp
    have b: "b < length Ys" using Y(3) w(2) len by auto
    note c = zintercard_count [OF assms(1) Y(2) b w(3)]
    have "\<Inter> (dom ` set (map (scores_at ?now A) ks)) = (\<Inter>k \<in> set ks. dom (scores_at ?now A k))" by simp
    then have "zset_exec E (ZInterCard ks limit) s = Some (Inr (resp_int (int (capped limit (card (\<Inter>k \<in> set ks. dom (scores_at ?now A k)))))), s')"
      unfolding exec Y(1) using b c by (auto simp: reply_def index_def)
    then show ?thesis by (simp add: zintercard_at_def None)
  qed
  then show ?thesis using v(2,3) by (auto simp del: zset_words.simps)
qed

lemma zmpop_words:
  assumes "zset_wf (ZMPop ks mn n)"
  shows "cmd_zmpop E (bulks (zset_words (ZMPop ks mn n))) s
    = map_option (\<lambda>(r, s). (Inr (case r of Some v \<Rightarrow> v | None \<Rightarrow> resp_null_array), s)) (zmpop_attempt E ks mn n s)"
proof -
  let ?bs = "zset_words (ZMPop ks mn n)" and ?nm = "asc ''ZMPOP''"
  let ?dir = "if mn then asc ''MIN'' else asc ''MAX''"
  let ?tail = "[?dir, asc ''COUNT'', dec_int (int n)]"
  have w: "keys_ok ks" "i64_ok (int n)" "ks \<noteq> []" using assms by (auto simp: keys_ok_def)
  have len: "\<not> length (bulks ?bs) < 4" using w(3) by (cases ks) (simp_all add: counted_def)
  have nk: "parse_numkeys_z (bulks ?bs) 1 ?nm = Inr (length ks)" by (rule numkeys_words(3) [OF w(1), where pre = "[?nm]"]) simp_all
  have "take (length ks) (drop 2 (bulks ?bs)) = bulks ks" by (simp add: bulks_def counted_def)
  then have k: "parse_keys_z (bulks ?bs) 2 (length ks) ?nm = Inr (ks, 2 + length ks)"
    by (simp add: parse_keys_z_def keys_from_words counted_def)
  have d: "drop (2 + length ks) (bulks ?bs) = bulks ?tail" by (simp add: counted_def)
  have v: "utf8_valid ?dir" "to_ascii_uppercase ?dir = ?dir" using zset_valid zset_upper by simp_all
  have t: "get_str (bulks ?tail) 0 ?nm = Inr ?dir" "get_str (bulks ?tail) 1 ?nm = Inr (asc ''COUNT'')" "get_i64 (bulks ?tail) 2 ?nm = Inr (int n)"
    using v(1) w(2) by (simp_all add: arg_defs)
  have "parse_zmpop_tail (bulks ?tail) ?nm = Inr (mn, n)"
    unfolding parse_zmpop_tail_def t attempt_simps v(2) Let_def by (simp add: t eq_ignore_ascii_case_def asc_inject split: if_splits)
  then show ?thesis unfolding cmd_zmpop_def zmpop_once_def nk attempt_simps k prod.case d using len by (simp del: zset_words.simps bulks_simps)
qed

lemma not_withscores: "eq_ignore_ascii_case (dec_int n) (asc ''WITHSCORES'') = False"
proof -
  obtain c cs where c: "dec_int n = c # cs" "c \<le> 0x39"
  proof (cases "n < 0")
    case True
    then show thesis using that [of "0x2D" "dec (nat (- n))"] by (simp add: dec_int_def)
  next
    case False
    obtain d ds where d: "dec (nat n) = d # ds" using dec_nonempty [of "nat n"] by (cases "dec (nat n)") auto
    then show thesis using that [of d ds] dec_head [OF d] False by (simp add: dec_int_def is_digit_def)
  qed
  have "\<not> 0x61 \<le> c" using order.trans [of "0x61" c "0x39"] c(2) by auto
  then have "hd (to_ascii_uppercase (dec_int n)) = c" by (simp add: c(1) to_ascii_uppercase_def)
  moreover have "hd (to_ascii_uppercase (asc ''WITHSCORES'')) = 0x57" unfolding zset_upper by (simp add: asc_def)
  ultimately show ?thesis using c(2) by (auto simp: eq_ignore_ascii_case_def)
qed

lemma zrandmember_words:
  assumes "zset_wf (ZRandMember key cnt)"
  shows "zrandmember_args (bulks (zset_words (ZRandMember key cnt))) = Inr (map_option fst cnt, case cnt of None \<Rightarrow> False | Some (_, ws) \<Rightarrow> ws)"
proof (cases cnt)
  case (Some p)
  obtain n ws where p: "p = (n, ws)" by force
  let ?bs = "zset_words (ZRandMember key cnt)" and ?nm = "asc ''ZRANDMEMBER''"
  have n: "get_str (bulks ?bs) 2 ?nm = Inr (dec_int n)" "parse_i64 (dec_int n) = Some n"
    using assms by (simp_all add: Some p arg_defs)
  have "attempt_e (get_str (bulks ?bs) 3 ?nm) (\<lambda>w. if eq_ignore_ascii_case w (asc ''WITHSCORES'') then Inr (True, 3 + 1) else Inl SyntaxError)
      = Inr (True, 3 + 1 :: nat)" if ws
    using that zset_valid by (simp add: Some p given_def arg_defs eq_ignore_ascii_case_def)
  moreover have "length ?bs = (if ws then 4 else 3)" by (simp add: Some p given_def)
  ultimately show ?thesis unfolding zrandmember_args_def Let_def n
    by (cases ws) (simp_all add: not_withscores n(2) Some p del: zset_words.simps bulks_simps(1,2,4,5))
qed (simp add: zrandmember_args_def)

section \<open>Commands with score bounds\<close>

lemma bounded_cases:
  assumes "exec = attempt (parse_score_bound a) (\<lambda>lo. attempt (parse_score_bound b) (f lo))"
    and "\<And>lo hi. \<not> f64_is_nan (fst lo) \<and> \<not> f64_is_nan (fst hi) \<Longrightarrow> \<exists>r s' A'. f lo hi s = Some (r, s') \<and> P lo hi A r A' \<and> ks_is lims clk (cs_db s') A'"
    and "ks_is lims clk (cs_db s) A"
  shows "\<exists>r s' A'. exec s = Some (r, s') \<and> bounded a b P A r A' \<and> ks_is lims clk (cs_db s') A'"
proof (cases "parse_score_bound a"; cases "parse_score_bound b")
  fix lo hi assume b: "parse_score_bound a = Inr lo" "parse_score_bound b = Inr hi"
  then show ?thesis using assms(2) [of lo hi] parsed_number [OF b(1)] parsed_number [OF b(2)] by (simp add: assms(1) bounded_def)
qed (use assms(3) in \<open>auto simp: assms(1) bounded_def fail_def\<close>)

text \<open>A score as an argument.\<close>

lemma score_arg_words: "i < length bs \<Longrightarrow> utf8_valid (bs ! i) \<Longrightarrow> score_arg (bulks bs) i cmd = parse_score_bound (bs ! i)"
  by (simp add: score_arg_def get_bulks(3))

lemma zrangebyscore_law:
  fixes s :: cmd_state
  assumes "zset_wf (ZRangeByScore rv key a b ws lm)" and "ks_is lims clk (cs_db s) A"
  shows "\<exists>r s' A'. zset_exec E (ZRangeByScore rv key a b ws lm) s = Some (r, s') \<and> zset_spec E (ZRangeByScore rv key a b ws lm) A r A'
    \<and> ks_is lims clk (cs_db s') A'"
proof -
  let ?bs = "zset_words (ZRangeByScore rv key a b ws lm)"
  define cmd where "cmd = (if rv then asc ''ZREVRANGEBYSCORE'' else asc ''ZRANGEBYSCORE'')"
  have w: "utf8_valid a" "utf8_valid b" "limit_ok lm" using assms(1) by auto
  have len: "\<not> length (bulks ?bs) < 4" by simp
  have g: "get_bytes_vec (bulks ?bs) 1 cmd = Inr key" "get_str (bulks ?bs) (if rv then 3 else 2) cmd = Inr a" "get_str (bulks ?bs) (if rv then 2 else 3) cmd = Inr b"
    using w(1,2) by (cases rv; simp add: arg_defs)+
  have "drop 4 ?bs = given ws ''WITHSCORES'' @ limit_words lm" by simp
  then have o: "score_range_options cmd (drop 4 (bulks ?bs)) (False, 0, None) = Inr (ws, lm)"
    using score_range_options_words [OF w(3), of cmd ws] by (simp only: bulks_simps(4))
  have "zset_exec E (ZRangeByScore rv key a b ws lm) = range_by_score E (bulks ?bs) rv cmd"
    by (cases rv) (simp_all add: zset_exec_def cmd_zrangebyscore_def cmd_zrevrangebyscore_def cmd_def del: zset_words.simps)
  then have exec: "zset_exec E (ZRangeByScore rv key a b ws lm)
      = attempt (parse_score_bound a) (\<lambda>lo. attempt (parse_score_bound b) (\<lambda>hi. view_ro E key (Inr (resp_array [])) (score_range_value lo hi rv (ws, lm))))"
    unfolding range_by_score_def g attempt_simps o by (simp only: len if_False)
  show ?thesis unfolding zset_spec.simps
  proof (rule bounded_cases [OF exec])
    fix lo hi :: "f64 \<times> bool" assume n: "\<not> f64_is_nan (fst lo) \<and> \<not> f64_is_nan (fst hi)"
    from rs.view_rel_ok [OF n assms(2), of E key "Inr (resp_array [])" rv "(ws, lm)"]
    show "\<exists>r s' A'. view_ro E key (Inr (resp_array [])) (score_range_value lo hi rv (ws, lm)) s = Some (r, s') \<and> (A' = A
        \<and> list_zset (env_now E) key (resp_array []) (\<lambda>m. lists_scores (score_range lo hi rv lm m) ws) A r) \<and> ks_is lims clk (cs_db s') A'"
      using assms(2) by auto
  qed (rule assms(2))
qed

lemma zcount_law:
  fixes s :: cmd_state
  assumes "zset_wf (ZCount key a b)" and "ks_is lims clk (cs_db s) A"
  shows "\<exists>r s' A'. zset_exec E (ZCount key a b) s = Some (r, s') \<and> zset_spec E (ZCount key a b) A r A' \<and> ks_is lims clk (cs_db s') A'"
proof -
  have exec: "zset_exec E (ZCount key a b)
      = attempt (parse_score_bound a) (\<lambda>lo. attempt (parse_score_bound b) (\<lambda>hi. view_ro E key (Inr (resp_int 0)) (zcount_value lo hi)))"
    using assms(1) by (simp add: zset_exec_def cmd_zcount_def score_arg_def arg_defs)
  show ?thesis unfolding zset_spec.simps
  proof (rule bounded_cases [OF exec])
    fix lo hi :: "f64 \<times> bool" assume n: "\<not> f64_is_nan (fst lo) \<and> \<not> f64_is_nan (fst hi)"
    from rn.view_at_ok [OF n assms(2), of E key "Inr (resp_int 0)"]
    show "\<exists>r s' A'. view_ro E key (Inr (resp_int 0)) (zcount_value lo hi) s = Some (r, s') \<and> (A' = A
        \<and> r = see_zset (env_now E) key (resp_int 0) (\<lambda>m. resp_int (int (length (score_range lo hi False (0, None) m)))) A) \<and> ks_is lims clk (cs_db s') A'"
      using assms(2) by auto
  qed (rule assms(2))
qed

lemma zremrangebyscore_law:
  fixes s :: cmd_state
  assumes "env_ok lims E" and "zset_wf (ZRemRangeByScore key a b)" and "ks_is lims clk (cs_db s) A"
  shows "\<exists>r s' A'. zset_exec E (ZRemRangeByScore key a b) s = Some (r, s') \<and> zset_spec E (ZRemRangeByScore key a b) A r A' \<and> ks_is lims clk (cs_db s') A'"
proof -
  have exec: "zset_exec E (ZRemRangeByScore key a b) = attempt (parse_score_bound a) (\<lambda>lo. attempt (parse_score_bound b) (\<lambda>hi.
      on_key key (edit_live (env_now E) key (Inr (resp_int 0)) (zremrangebyscore_value E lo hi))))"
    using assms(2) by (simp add: zset_exec_def cmd_zremrangebyscore_def score_arg_def arg_defs)
  show ?thesis unfolding zset_spec.simps
  proof (rule bounded_cases [OF exec])
    fix lo hi :: "f64 \<times> bool" assume n: "\<not> f64_is_nan (fst lo) \<and> \<not> f64_is_nan (fst hi)"
    then have "env_ok lims E \<and> \<not> f64_is_nan (fst lo) \<and> \<not> f64_is_nan (fst hi)" using assms(1) by simp
    from zs.edit_at_ok [OF this assms(3), of key "env_now E" "Inr (resp_int 0)"]
    show "\<exists>r s' A'. on_key key (edit_live (env_now E) key (Inr (resp_int 0)) (zremrangebyscore_value E lo hi)) s = Some (r, s') \<and> (r, A') = edit_at proj_zset AZSet (env_now E) key (Inr (resp_int 0)) (Inl WrongType)
        (\<lambda>m. remove_listed (score_range lo hi False (0, None) m) m) A \<and> ks_is lims clk (cs_db s') A'"
      by auto
  qed (rule assms(3))
qed

lemma zincrby_law:
  fixes s :: cmd_state
  assumes "env_ok lims E" and "zset_wf (ZIncrBy key t x)" and "ks_is lims clk (cs_db s) A"
  shows "\<exists>r s' A'. zset_exec E (ZIncrBy key t x) s = Some (r, s') \<and> zset_spec E (ZIncrBy key t x) A r A' \<and> ks_is lims clk (cs_db s') A'"
proof -
  let ?h = "\<lambda>delta. on_key key (upsert (env_now E) key (DZSet zsetdata_new) (zincrby_value E delta x))"
  have exec: "zset_exec E (ZIncrBy key t x) = attempt (parse_score_bound t) (\<lambda>(delta, _). wake_zset (?h delta))"
    using assms(2) by (auto simp: zset_exec_def cmd_zincrby_def score_arg_def arg_defs split: prod.split)
  show ?thesis
  proof (cases "parse_score_bound t")
    case (Inl e)
    then show ?thesis using assms(3) by (auto simp: exec fail_def)
  next
    case (Inr v)
    obtain delta ex where v: "v = (delta, ex)" by (cases v)
    from zb.upsert_rel_ok [OF assms(1) zset_new_is assms(3), of key "env_now E" delta x] obtain w s1 A' where
      w: "?h delta s = Some (w, s1)"
        "upsert_rel proj_zset AZSet (env_now E) key Map.empty (Inl WrongType) (\<lambda>m w. zincr_rel delta x m (map_sum id fst w)) A w A'"
        "ks_is lims clk (cs_db s1) A'" by blast
    have "zset_spec E (ZIncrBy key t x) A (map_sum id fst w) A'"
      using upsert_rel_map [where f = "map_sum id fst" and G' = "zincr_rel delta x", OF w(2)] by (simp add: Inr v id_def)
    then show ?thesis using wake_ok [of "?h delta", OF w(1,3)] unfolding exec Inr v attempt_simps prod.case by blast
  qed
qed

lemma zrange_law:
  fixes s :: cmd_state
  assumes "env_ok lims E" and "zset_wf (ZRange key a b op)" and "ks_is lims clk (cs_db s) A"
  shows "\<exists>r s' A'. zset_exec E (ZRange key a b op) s = Some (r, s') \<and> zset_spec E (ZRange key a b op) A r A' \<and> ks_is lims clk (cs_db s') A'"
proof -
  let ?bs = "zset_words (ZRange key a b op)" and ?kind = "zrange_kind_of (zr_kind op) a b" and ?nm = "asc ''ZRANGE''"
  have w: "utf8_valid a" "utf8_valid b" "limit_ok (zr_limit op)" "zr_kind op \<noteq> Some ByRank" using assms(2) by auto
  have len: "\<not> length (bulks ?bs) < 4" by simp
  have g: "get_bytes_vec (bulks ?bs) 1 ?nm = Inr key" "get_str (bulks ?bs) 2 ?nm = Inr a" "get_str (bulks ?bs) 3 ?nm = Inr b"
    using w(1,2) by (simp_all add: arg_defs)
  have "drop 4 ?bs = zrange_words op" by simp
  then have o: "zrange_options (drop 4 (bulks ?bs)) no_zrange_opts = Inr op" using zrange_options_words [OF w(3,4)] by (simp only: bulks_simps(4))
  have exec: "zset_exec E (ZRange key a b op) s = (if ?kind = ByRank \<and> snd (zr_limit op) \<noteq> None then fail rank_limit_error s
      else view_ro E key (Inr (resp_array [])) (zrange_value E op ?kind a b) s)"
    unfolding zset_exec_def zset_handler.simps cmd_zrange_def g attempt_simps o Let_def by (auto simp: rank_limit_error_def)
  show ?thesis using rr.view_rel_ok [OF assms(1,3), of E key "Inr (resp_array [])" op ?kind a b] assms(3)
    unfolding exec zset_spec.simps Let_def by (auto simp: fail_def)
qed

lemma zrangestore_words:
  assumes "zset_wf (ZRangeStore dst src a b op)"
  shows "zset_exec E (ZRangeStore dst src a b op) = store_zset dst (\<lambda>s. do {
          (r, s) \<leftarrow> view_ro E src (Inr []) (rangestore_value E op a b) s;
          case r of Inl e \<Rightarrow> fail e s | Inr es \<Rightarrow> do { z \<leftarrow> insert_all E es zsetdata_new; reply z s }
        })"
proof -
  let ?bs = "zset_words (ZRangeStore dst src a b op)" and ?nm = "asc ''ZRANGESTORE''"
  have w: "utf8_valid a" "utf8_valid b" "limit_ok (rs_limit op)" "\<not> (rs_byscore op \<and> rs_bylex op)" using assms by auto
  have len: "\<not> length (bulks ?bs) < 5" by simp
  have g: "get_bytes_vec (bulks ?bs) 1 ?nm = Inr dst" "get_bytes_vec (bulks ?bs) 2 ?nm = Inr src" "get_str (bulks ?bs) 3 ?nm = Inr a" "get_str (bulks ?bs) 4 ?nm = Inr b"
    using w(1,2) by (simp_all add: arg_defs)
  have "drop 5 ?bs = rangestore_words op" by simp
  then have o: "rangestore_options (drop 5 (bulks ?bs)) no_rangestore_opts = Inr op" using rangestore_options_words [OF w(3)] by (simp only: bulks_simps(4))
  show ?thesis unfolding zset_exec_def zset_handler.simps cmd_zrangestore_def g attempt_simps o by (simp only: len w(4) if_False)
qed

section \<open>Every command implements its specification\<close>

lemma zset_readers_law:
  fixes s :: cmd_state
  assumes "env_ok lims E" and "zset_wf c" and "ks_is lims clk (cs_db s) A"
    and "c \<in> {ZCard key, ZScore key x, ZMScore key xs, ZRank rv key x, ZRevRange key i j ws, ZRangeByLex key a b, ZLexCount key a b, ZRandMember key cnt, ZScan key cursor op}"
  shows "\<exists>r s' A'. zset_exec E c s = Some (r, s') \<and> zset_spec E c A r A' \<and> ks_is lims clk (cs_db s') A'"
proof -
  consider "c = ZCard key" | "c = ZScore key x" | "c = ZMScore key xs" | "c = ZRank rv key x" | "c = ZRevRange key i j ws"
    | "c = ZRangeByLex key a b" | "c = ZLexCount key a b" | "c = ZRandMember key cnt" | "c = ZScan key cursor op" using assms(4) by blast
  then show ?thesis
  proof cases
    case 1
    then show ?thesis using rc.view_at_ok [OF TrueI assms(3), of E key "Inr (resp_int 0)"] assms(3) by (simp add: zset_exec_def cmd_zcard_def arg_defs)
  next
    case 2
    then show ?thesis using re.view_rel_ok [OF TrueI assms(3), of E key "Inr resp_null" x] assms(3) by (auto simp: zset_exec_def cmd_zscore_def arg_defs)
  next
    case 3
    let ?nulls = "Inr (resp_array (map (\<lambda>_. resp_null) (bulks xs)))"
    have "zset_exec E c s = view_ro E key ?nulls (zmscore_value (bulks xs)) s"
      using assms(2) 3 by (cases xs) (simp_all add: zset_exec_def cmd_zmscore_def arg_defs)
    then show ?thesis using rm.view_rel_ok [OF TrueI assms(3), of E key ?nulls xs] assms(3) 3 by (auto simp: Let_def)
  next
    case 4
    then have "zset_exec E c s = view_ro E key (Inr resp_null) (zrank_value x rv) s"
      by (cases rv) (simp_all add: zset_exec_def cmd_zrank_def cmd_zrevrank_def zset_rank_def arg_defs)
    then show ?thesis using rk.view_at_ok [OF TrueI assms(3), of E key "Inr resp_null" x rv] assms(3) 4 by simp
  next
    case 5
    then have "zset_exec E c s = view_ro E key (Inr (resp_array [])) (zrevrange_value i j ws) s"
      using assms(2) zset_valid by (cases ws) (simp_all add: zset_exec_def cmd_zrevrange_def arg_defs given_def eq_ignore_ascii_case_def)
    then show ?thesis using rv.view_rel_ok [OF TrueI assms(3), of E key "Inr (resp_array [])" i j ws] assms(3) 5 by auto
  next
    case 6
    then show ?thesis using rl.view_at_ok [OF assms(1,3), of E key "Inr (resp_array [])" "parse_lex_bounds a b"] assms(2,3)
      by (simp add: zset_exec_def cmd_zrangebylex_def arg_defs)
  next
    case 7
    then show ?thesis using rx.view_at_ok [OF assms(1,3), of E key "Inr (resp_int 0)" "trimmed_lex_bounds a b"] assms(2,3)
      by (simp add: zset_exec_def cmd_zlexcount_def arg_defs)
  next
    case 8
    let ?ws = "case cnt of None \<Rightarrow> False | Some (_, ws) \<Rightarrow> ws" and ?none = "Inr (if cnt \<noteq> None then resp_array [] else resp_null)"
    have len: "\<not> length (bulks (zset_words c)) < 2" "get_bytes_vec (bulks (zset_words c)) 1 (asc ''ZRANDMEMBER'') = Inr key"
      by (simp_all add: 8 arg_defs)
    have "zset_exec E c s = view_ro E key ?none (zrandmember_value E (map_option fst cnt) ?ws) s"
      using zrandmember_words assms(2) len by (simp add: 8 zset_exec_def cmd_zrandmember_def del: zset_words.simps bulks_simps)
    then show ?thesis using ra.view_rel_ok [OF assms(1,3), of E key ?none "map_option fst cnt" ?ws] assms(3) 8 by auto
  next
    case 9
    let ?cur = "if utf8_valid cursor then decode_scan_cursor cursor else None"
    have o: "scan_options (asc ''ZSCAN'') (bulks (scan_words op)) (None, 10) = Inr op" using scan_options_words assms(2) 9 by simp
    have "scan_cursor_arg (bulks (zset_words c)) 2 (asc ''ZSCAN'') = ?cur"
      by (simp add: 9 scan_cursor_arg_def get_str_def ok_or_arity_def index_def)
    then have "zset_exec E c s = view_ro E key (Inr scan_empty_reply) (zscan_value E ?cur op) s"
      using o by (simp add: 9 zset_exec_def cmd_zscan_def arg_defs del: scan_options.simps)
    then show ?thesis using ro.view_rel_ok [OF assms(1,3), of E key "Inr scan_empty_reply" ?cur op] assms(3) by (auto simp: 9)
  qed
qed

lemma zset_command_law:
  fixes s :: cmd_state
  assumes "env_ok lims E" and "zset_wf c" and "ks_is lims clk (cs_db s) A"
  shows "\<exists>r s' A'. zset_exec E c s = Some (r, s') \<and> zset_spec E c A r A' \<and> ks_is lims clk (cs_db s') A'"
proof (cases c)
  case (ZAdd key op ps)
  then show ?thesis using zadd_law [OF assms(1) _ assms(3)] assms(2) by blast
next
  case (ZIncrBy key t x)
  then show ?thesis using zincrby_law [OF assms(1) _ assms(3)] assms(2) by blast
next
  case (ZRange key a b op)
  then show ?thesis using zrange_law [OF assms(1) _ assms(3)] assms(2) by blast
next
  case (ZRangeByScore rv key a b ws lm)
  then show ?thesis using zrangebyscore_law [OF _ assms(3)] assms(2) by blast
next
  case (ZCount key a b)
  then show ?thesis using zcount_law [OF _ assms(3)] assms(2) by blast
next
  case (ZRem key xs)
  then have "zset_exec E c s = on_key key (edit_live (env_now E) key (Inr (resp_int 0)) (zrem_value E (bulks xs))) s"
    using assms(2) by (cases xs) (simp_all add: zset_exec_def cmd_zrem_def arg_defs)
  then show ?thesis using zr.edit_at_ok [OF assms(1,3), of key "env_now E" "Inr (resp_int 0)" xs] by (auto simp: ZRem)
next
  case (ZRemRangeByRank key i j)
  then have "zset_exec E c s = on_key key (edit_live (env_now E) key (Inr (resp_int 0)) (zremrangebyrank_value E i j)) s"
    using assms(2) by (simp add: zset_exec_def cmd_zremrangebyrank_def arg_defs)
  then show ?thesis using zk.edit_at_ok [OF assms(1,3), of key "env_now E" "Inr (resp_int 0)" i j] by (auto simp: ZRemRangeByRank)
next
  case (ZRemRangeByScore key a b)
  then show ?thesis using zremrangebyscore_law [OF assms(1) _ assms(3)] assms(2) by blast
next
  case (ZPop mx key cnt)
  let ?n = "case cnt of None \<Rightarrow> 1 | Some n \<Rightarrow> n"
  have "zset_exec E c s = on_key key (edit_live (env_now E) key (Inr (resp_array [])) (zpop_value E mx ?n)) s"
    using assms(2) by (cases mx; cases cnt) (simp_all add: ZPop zset_exec_def cmd_zpopmin_def cmd_zpopmax_def zpop_def arg_defs)
  then show ?thesis using zp.edit_rel_ok [OF assms(1,3), of key "env_now E" "Inr (resp_array [])" mx ?n] by (auto simp: ZPop)
next
  case (ZJoin j ks wts agg ws)
  then have w: "keys_ok ks" "weights_ok ks wts" using assms(2) by simp_all
  show ?thesis
    using reply_family [where ws = ws, OF zjoin_computes(1) [OF assms(1,3) w(2)]] reply_family [where ws = ws, OF zjoin_computes(2) [OF assms(1,3) w(2)]]
    by (cases j) (simp_all add: ZJoin zset_exec_def cmd_zunion_def cmd_zinter_def zset_reply_words [OF w, unfolded append_Cons append_Nil] del: bulks_simps)
next
  case (ZJoinStore j dst ks wts agg)
  then have w: "keys_ok ks" "weights_ok ks wts" using assms(2) by simp_all
  show ?thesis
    using zstore_family [where dst = dst, OF zjoin_computes(1) [OF assms(1,3) w(2)]] zstore_family [where dst = dst, OF zjoin_computes(2) [OF assms(1,3) w(2)]]
    by (cases j) (simp_all add: ZJoinStore zset_exec_def cmd_zunionstore_def cmd_zinterstore_def zset_store_words [OF w, unfolded append_Cons append_Nil] del: bulks_simps)
next
  case (ZDiff ks ws)
  then show ?thesis using reply_family [where ws = ws, OF zdiff_computes [OF assms(1,3), of ks]] zdiff_words [of ks E "asc ''ZDIFF''" ws] assms(2)
    by (simp add: zset_exec_def del: bulks_simps)
next
  case (ZDiffStore dst ks)
  then show ?thesis using zstore_family [where dst = dst, OF zdiff_computes [OF assms(1,3), of ks]] zdiffstore_words [of ks E "asc ''ZDIFFSTORE''" dst] assms(2)
    by (simp add: zset_exec_def del: bulks_simps)
next
  case (ZInterCard ks limit)
  then show ?thesis using zintercard_law [OF assms(1) _ assms(3)] assms(2) by blast
next
  case (ZMPop ks mn n)
  then have "zset_exec E c s = map_option (\<lambda>(r, s). (Inr (case r of Some v \<Rightarrow> v | None \<Rightarrow> resp_null_array), s)) (zmpop_attempt E ks mn n s)"
    using zmpop_words assms(2) by (simp add: zset_exec_def del: zset_words.simps)
  then show ?thesis using zmpop_attempt_ok [OF assms(1,3), of ks mn n] by (auto simp: ZMPop)
next
  case (ZRangeStore dst src a b op)
  then show ?thesis using zrangestore_words [of dst src a b op E] assms(2) zstore_family [where dst = dst, OF zrangestore_computes [OF assms(1,3), of src op a b]] by simp
qed (use zset_readers_law [OF assms] in simp_all)

interpretation zc: command_rel lims zset_wf zset_exec zset_spec for lims
  by unfold_locales (rule zset_command_law)

end
