(* ===== verification/Key_Prog.thy ===== *)
theory Key_Prog
  imports Families
begin

text \<open>
  Programs on one key: the handlers that take a shard's lock once and then look at and replace the key in
  several steps (SET with its options, GETEX, SETRANGE, EXPIRE, ...). A program is a sequence of steps on the
  locked database; its contract (\<open>key_prog\<close>) is a function on what the key holds. The contract of a sequence is
  the sequence of the contracts, so that a command is verified step by step.
\<close>

section \<open>Steps\<close>

type_synonym 'r prog = "database \<Rightarrow> ('r \<times> database) option"
type_synonym 'r prog_spec = "content option \<Rightarrow> 'r \<times> content option"

definition ret :: "'r \<Rightarrow> 'r prog" where
  "ret r d = Some (r, d)"

definition seq :: "'a prog \<Rightarrow> ('a \<Rightarrow> 'b prog) \<Rightarrow> 'b prog" where
  "seq f g d = do { (r, d) \<leftarrow> f d; g r d }"

text \<open>The operator \<^verbatim>\<open>?\<close> after a step.\<close>

definition seq_ok :: "'a result prog \<Rightarrow> ('a \<Rightarrow> 'b result prog) \<Rightarrow> 'b result prog" where
  "seq_ok f g = seq f (\<lambda>r. case r of Inl e \<Rightarrow> ret (Inl e) | Inr v \<Rightarrow> g v)"

text \<open>\<^verbatim>\<open>store_db.get(&key)\<close>, of whose entry the program uses \<open>f\<close>; \<^verbatim>\<open>contains_key\<close>; \<^verbatim>\<open>insert\<close>;
  \<^verbatim>\<open>set_expiry\<close>; \<^verbatim>\<open>remove\<close>.\<close>

definition look :: "nat \<Rightarrow> bytes \<Rightarrow> (entry \<Rightarrow> 'a) \<Rightarrow> 'a option prog" where
  "look now key f d = Some (map_prod (map_option f) id (db_get now key d))"

definition has_key :: "nat \<Rightarrow> bytes \<Rightarrow> bool prog" where
  "has_key now key d = Some (db_contains_key now key d)"

definition put_value :: "bytes \<Rightarrow> entry \<Rightarrow> unit prog" where
  "put_value key e d = Some ((), db_insert key e d)"

definition put_expiry :: "bytes \<Rightarrow> expiry option \<Rightarrow> unit prog" where
  "put_expiry key x d = Some ((), db_set_expiry key x d)"

definition drop_key :: "bytes \<Rightarrow> (entry \<Rightarrow> 'a) \<Rightarrow> 'a option prog" where
  "drop_key key f d = Some (map_prod (map_option f) id (db_remove key d))"

section \<open>The contract\<close>

definition ret_c :: "'r \<Rightarrow> 'r prog_spec" where
  "ret_c r c = (r, c)"

definition seq_c :: "'a prog_spec \<Rightarrow> ('a \<Rightarrow> 'b prog_spec) \<Rightarrow> 'b prog_spec" where
  "seq_c f g c = (case f c of (r, c) \<Rightarrow> g r c)"

locale key_prog =
  fixes lim :: list_thresholds
    and key :: bytes
    and oper :: "'r prog"
    and spec :: "'r prog_spec"
  assumes prog_law: "db_is d m \<Longrightarrow> ent_is lim (m key) c \<Longrightarrow>
      \<exists>d' x. oper d = Some (fst (spec c), d') \<and> db_is d' (m(key := x)) \<and> db_clock d' = db_clock d \<and> ent_is lim x (snd (spec c))"

sublocale key_prog \<subseteq> typed_op True lim key oper "\<lambda>c r c'. spec c = (r, c')"
  using prog_law by unfold_locales (metis prod.collapse)

context key_prog begin

lemma prog_locked:
  assumes "ks_is lim clk s A"
  shows "\<exists>s'. locked key oper s = Some (fst (spec (A key)), s') \<and> ks_is lim clk s' (A(key := snd (spec (A key))))"
  using under_typed_lock [OF TrueI assms] by (metis fst_conv snd_conv)

lemma prog_on_key:
  assumes "ks_is lim clk (cs_db s) A"
  shows "\<exists>s'. on_key key oper s = Some (fst (spec (A key)), s') \<and> ks_is lim clk (cs_db s') (A(key := snd (spec (A key))))
    \<and> cs_wakes s' = cs_wakes s"
  using on_key_ok [OF TrueI assms] by (metis fst_conv snd_conv)

end

lemma prog_conseq: "key_prog lim key oper spec \<Longrightarrow> (\<And>c. spec c = spec' c) \<Longrightarrow> key_prog lim key oper spec'"
  by (simp add: key_prog_def)

named_theorems prog_rules

lemma prog_ret [prog_rules]: "key_prog lim key (ret r) (ret_c r)"
  by unfold_locales (metis ret_c_def ret_def fst_conv fun_upd_triv snd_conv)

lemma prog_seq [prog_rules]:
  assumes "key_prog lim key f F" and "\<And>r. key_prog lim key (g r) (G r)"
  shows "key_prog lim key (seq f g) (seq_c F G)"
proof
  fix d m c assume a: "db_is d m" "ent_is lim (m key) c"
  obtain r c1 where F: "F c = (r, c1)" by force
  from key_prog.prog_law [OF assms(1) a] F obtain d1 x where
    d1: "f d = Some (r, d1)" "db_is d1 (m(key := x))" "db_clock d1 = db_clock d" "ent_is lim x c1" by auto
  from key_prog.prog_law [OF assms(2) [of r] d1(2), of c1] d1(4) obtain d2 y where
    d2: "g r d1 = Some (fst (G r c1), d2)" "db_is d2 ((m(key := x))(key := y))" "db_clock d2 = db_clock d1" "ent_is lim y (snd (G r c1))" by auto
  then show "\<exists>d' x. seq f g d = Some (fst (seq_c F G c), d') \<and> db_is d' (m(key := x)) \<and> db_clock d' = db_clock d
      \<and> ent_is lim x (snd (seq_c F G c))"
    using d1 F by (auto simp: seq_def seq_c_def)
qed

lemma prog_if [prog_rules]:
  "(b \<Longrightarrow> key_prog lim key f F) \<Longrightarrow> (\<not> b \<Longrightarrow> key_prog lim key g G) \<Longrightarrow> key_prog lim key (if b then f else g) (if b then F else G)"
  by simp

lemma prog_case_option [prog_rules]:
  "key_prog lim key f F \<Longrightarrow> (\<And>x. key_prog lim key (g x) (G x)) \<Longrightarrow> key_prog lim key (case_option f g y) (case_option F G y)"
  by (cases y) simp_all

lemma prog_case_sum [prog_rules]:
  "(\<And>x. key_prog lim key (f x) (F x)) \<Longrightarrow> (\<And>x. key_prog lim key (g x) (G x)) \<Longrightarrow> key_prog lim key (case_sum f g y) (case_sum F G y)"
  by (cases y) simp_all

text \<open>The steps.\<close>

lemma prog_key_op:
  assumes "key_op oper key rep after"
    and "\<And>x c clk. ent_is lim x c \<Longrightarrow> rep clk x = fst (spec c) \<and> ent_is lim (after clk x) (snd (spec c))"
  shows "key_prog lim key (\<lambda>d. Some (oper d)) spec"
proof
  fix d m c assume "db_is d m" and c: "ent_is lim (m key) c"
  from key_op.op_law [OF assms(1) this(1)] assms(2) [OF c, of "db_clock d"]
  show "\<exists>d' x. Some (oper d) = Some (fst (spec c), d') \<and> db_is d' (m(key := x)) \<and> db_clock d' = db_clock d \<and> ent_is lim x (snd (spec c))"
    by (metis prod.collapse)
qed

lemma touched_ent:
  "ent_is lim x c \<Longrightarrow> ent_is lim (touched now clk x) (alive now c)"
  using ent_is_alive [of lim x c now] by (cases "live_entry now x") (auto simp: touched_def)

definition look_c :: "nat \<Rightarrow> (content \<Rightarrow> 'a) \<Rightarrow> 'a option prog_spec" where
  "look_c now g c = (map_option g (alive now c), alive now c)"

lemma prog_look:
  assumes "\<And>e a. val_is lim (en_value e) a \<Longrightarrow> f e = g (a, en_expiry e)"
  shows "key_prog lim key (look now key f) (look_c now g)"
proof
  fix d m c assume d: "db_is d m" and c: "ent_is lim (m key) c"
  note l = get.op_law [OF d, of now key]
  have e: "ent_is lim (touched now (db_clock d) (m key)) (alive now c)" by (rule touched_ent [OF c])
  then have "map_option f (touched now (db_clock d) (m key)) = map_option g (alive now c)"
    using assms by (cases "touched now (db_clock d) (m key)") auto
  then show "\<exists>d' x. look now key f d = Some (fst (look_c now g c), d') \<and> db_is d' (m(key := x)) \<and> db_clock d' = db_clock d
      \<and> ent_is lim x (snd (look_c now g c))"
    using l e by (auto simp: look_def look_c_def map_prod_def case_prod_beta)
qed

definition has_c :: "nat \<Rightarrow> bool prog_spec" where
  "has_c now c = (alive now c \<noteq> None, alive now c)"

lemma prog_has [prog_rules]: "key_prog lim key (has_key now key) (has_c now)"
  unfolding has_key_def
proof (rule prog_key_op [OF has.key_op_axioms])
  fix x c clk assume c: "ent_is lim x c"
  have "live_entry now x \<noteq> None \<longleftrightarrow> alive now c \<noteq> None" using ent_is_alive [OF c, of now] by (cases "live_entry now x") auto
  then show "(live_entry now x \<noteq> None) = fst (has_c now c) \<and> ent_is lim (touched now clk x) (snd (has_c now c))"
    using touched_ent [OF c] by (simp add: has_c_def)
qed

definition put_c :: "content \<Rightarrow> unit prog_spec" where
  "put_c new c = ((), Some new)"

lemma prog_put: "val_is lim (en_value e) a \<Longrightarrow> key_prog lim key (put_value key e) (put_c (a, en_expiry e))"
  unfolding put_value_def by (rule prog_key_op [OF ins.key_op_axioms]) (simp add: put_c_def)

definition expiry_c :: "expiry option \<Rightarrow> unit prog_spec" where
  "expiry_c x c = ((), map_option (\<lambda>(a, t). (a, x)) c)"

lemma prog_expiry [prog_rules]: "key_prog lim key (put_expiry key x) (expiry_c x)"
  unfolding put_expiry_def
proof (rule prog_key_op [OF sete.key_op_axioms])
  fix e c clk assume "ent_is lim e c"
  then show "() = fst (expiry_c x c) \<and> ent_is lim (map_option (\<lambda>e. e\<lparr>en_expiry := x\<rparr>) e) (snd (expiry_c x c))"
    by (cases e) (auto simp: expiry_c_def)
qed

definition drop_c :: "(content \<Rightarrow> 'a) \<Rightarrow> 'a option prog_spec" where
  "drop_c g c = (map_option g c, None)"

lemma prog_drop:
  assumes "\<And>e a. val_is lim (en_value e) a \<Longrightarrow> f e = g (a, en_expiry e)"
  shows "key_prog lim key (drop_key key f) (drop_c g)"
proof
  fix d m c assume d: "db_is d m" and c: "ent_is lim (m key) c"
  have "map_option f (m key) = map_option g c" using assms c by (cases "m key") auto
  then show "\<exists>d' x. drop_key key f d = Some (fst (drop_c g c), d') \<and> db_is d' (m(key := x)) \<and> db_clock d' = db_clock d
      \<and> ent_is lim x (snd (drop_c g c))"
    using rem.op_law [OF d, of key] by (intro exI [of _ "snd (db_remove key d)"] exI [of _ None]) (auto simp: drop_key_def drop_c_def map_prod_def case_prod_beta)
qed

text \<open>An edit of the value in place.\<close>

lemma prog_edit:
  assumes "value_op True lim f (\<lambda>a r a'. eff a = (r, a'))"
  shows "key_prog lim key (edit_live now key none f)
    (\<lambda>c. case alive now c of None \<Rightarrow> (none, None) | Some (a, t) \<Rightarrow> (case eff a of (r, a') \<Rightarrow> (r, map_option (\<lambda>x. (x, t)) a')))"
proof
  fix d m c assume d: "db_is d m" and c: "ent_is lim (m key) c"
  from value_op.edit_live_law [OF assms TrueI d c, of now none] obtain r d' x c' where
    l: "edit_live now key none f d = Some (r, d')" "db_is d' (m(key := x))" "db_clock d' = db_clock d" "ent_is lim x c'"
      "edit_spec now none (\<lambda>a r a'. eff a = (r, a')) c r c'" by blast
  have "(case alive now c of None \<Rightarrow> (none, None) | Some (a, t) \<Rightarrow> (case eff a of (r, a') \<Rightarrow> (r, map_option (\<lambda>x. (x, t)) a'))) = (r, c')"
    using l(5) by (auto simp: edit_spec_def split: option.splits)
  then show "\<exists>d' x. edit_live now key none f d = Some (fst (case alive now c of None \<Rightarrow> (none, None)
      | Some (a, t) \<Rightarrow> (case eff a of (r, a') \<Rightarrow> (r, map_option (\<lambda>x. (x, t)) a'))), d') \<and> db_is d' (m(key := x)) \<and> db_clock d' = db_clock d
      \<and> ent_is lim x (snd (case alive now c of None \<Rightarrow> (none, None) | Some (a, t) \<Rightarrow> (case eff a of (r, a') \<Rightarrow> (r, map_option (\<lambda>x. (x, t)) a'))))"
    using l by auto
qed

lemmas prog_defs = ret_c_def seq_c_def look_c_def has_c_def put_c_def expiry_c_def drop_c_def

lemma seq_ok_prog [prog_rules]:
  assumes "key_prog lim key f F" and "\<And>v. key_prog lim key (g v) (G v)"
  shows "key_prog lim key (seq_ok f g) (seq_c F (case_sum (\<lambda>e. ret_c (Inl e)) G))"
  unfolding seq_ok_def by (intro prog_seq prog_case_sum prog_ret assms)

end
