(* ===== verification/String_Cmds.thy ===== *)
theory String_Cmds
  imports Key_Prog Float64
begin

text \<open>
  The string commands (\<^verbatim>\<open>command/string.rs\<close>): SET with all its options, the readers, the counters, the
  commands that change part of a string, and the multi-key commands. LCS is in a theory of its own.
\<close>

section \<open>SET\<close>

text \<open>The current value as a string, if the key is live: \<^const>\<open>None\<close> inside when it is of another type.\<close>

definition current_string :: "env \<Rightarrow> bytes \<Rightarrow> bytes option option prog" where
  "current_string E key = look (env_now E) key (\<lambda>e. as_string_bytes (env_itoa E) (en_value e))"

definition current_expiry :: "env \<Rightarrow> bytes \<Rightarrow> expiry option prog" where
  "current_expiry E key = seq (look (env_now E) key en_expiry) (\<lambda>x. ret (case x of Some t \<Rightarrow> t | None \<Rightarrow> None))"

record set_opts =
  so_expiry :: "expiry option"
  so_nx :: bool
  so_xx :: bool
  so_get :: bool
  so_keepttl :: bool
  so_ifeq :: "bytes option"
  so_ifgt :: "bytes option"
  so_iflt :: "bytes option"

definition no_set_opts :: set_opts where
  "no_set_opts = \<lparr>so_expiry = None, so_nx = False, so_xx = False, so_get = False, so_keepttl = False,
     so_ifeq = None, so_ifgt = None, so_iflt = None\<rparr>"

text \<open>The numeric argument of EX, PX, EXAT and PXAT.\<close>

definition expiry_arg :: "env \<Rightarrow> bytes \<Rightarrow> resp list \<Rightarrow> nat \<Rightarrow> bytes \<Rightarrow> expiry result" where
  "expiry_arg E opt args i cmd = attempt_e (get_i64 args i cmd) (\<lambda>n.
     let bad = Inl (Generic (asc ''invalid expire time in '' @ cmd)) in
     if opt = asc ''EX'' then if n \<le> 0 then bad else Inr (expiry_from_duration (env_now E) (nat n * 1000))
     else if opt = asc ''PX'' then if n \<le> 0 then bad else Inr (expiry_from_duration (env_now E) (nat n))
     else if opt = asc ''EXAT'' then if n < 0 then bad else Inr (expiry_from_secs (nat n))
     else if n < 0 then bad else Inr (expiry_from_ms (nat n)))"

abbreviation expiry_words :: "bytes list" where
  "expiry_words \<equiv> [asc ''EX'', asc ''PX'', asc ''EXAT'', asc ''PXAT'']"

fun set_options :: "env \<Rightarrow> resp list \<Rightarrow> set_opts \<Rightarrow> set_opts result" where
  "set_options E [] op = Inr op"
| "set_options E (a # rest) op = attempt_e (get_str (a # rest) 0 (asc ''SET'')) (\<lambda>w. let opt = to_uppercase w in
     if opt \<in> set expiry_words then
       attempt_e (expiry_arg E opt rest 0 (asc ''SET'')) (\<lambda>x. set_options E (drop 1 rest) (op\<lparr>so_expiry := Some x\<rparr>))
     else if opt = asc ''NX'' then set_options E rest (op\<lparr>so_nx := True\<rparr>)
     else if opt = asc ''XX'' then set_options E rest (op\<lparr>so_xx := True\<rparr>)
     else if opt = asc ''GET'' then set_options E rest (op\<lparr>so_get := True\<rparr>)
     else if opt = asc ''KEEPTTL'' then set_options E rest (op\<lparr>so_keepttl := True\<rparr>)
     else if opt = asc ''IFEQ'' then attempt_e (get_bytes_vec rest 0 (asc ''SET'')) (\<lambda>v. set_options E (drop 1 rest) (op\<lparr>so_ifeq := Some v\<rparr>))
     else if opt = asc ''IFGT'' then attempt_e (get_bytes_vec rest 0 (asc ''SET'')) (\<lambda>v. set_options E (drop 1 rest) (op\<lparr>so_ifgt := Some v\<rparr>))
     else if opt = asc ''IFLT'' then attempt_e (get_bytes_vec rest 0 (asc ''SET'')) (\<lambda>v. set_options E (drop 1 rest) (op\<lparr>so_iflt := Some v\<rparr>))
     else Inl SyntaxError)"

definition cond_count :: "set_opts \<Rightarrow> nat" where
  "cond_count op = of_bool (so_ifeq op \<noteq> None) + of_bool (so_ifgt op \<noteq> None) + of_bool (so_iflt op \<noteq> None)"

definition parse_text_f64 :: "bytes \<Rightarrow> f64 option" where
  "parse_text_f64 s = (if utf8_valid s then parse_f64 s else None)"

definition compare_gt :: "bytes \<Rightarrow> bytes \<Rightarrow> bool" where
  "compare_gt a b = (case (parse_text_f64 a, parse_text_f64 b) of (Some x, Some y) \<Rightarrow> f64_less y x | _ \<Rightarrow> a > b)"

definition compare_lt :: "bytes \<Rightarrow> bytes \<Rightarrow> bool" where
  "compare_lt a b = (case (parse_text_f64 a, parse_text_f64 b) of (Some x, Some y) \<Rightarrow> f64_less x y | _ \<Rightarrow> a < b)"

definition cond_passes :: "set_opts \<Rightarrow> bytes \<Rightarrow> bool" where
  "cond_passes op cur = (case so_ifeq op of Some t \<Rightarrow> cur = t
     | None \<Rightarrow> (case so_ifgt op of Some t \<Rightarrow> compare_gt cur t
       | None \<Rightarrow> (case so_iflt op of Some t \<Rightarrow> compare_lt cur t | None \<Rightarrow> False)))"

definition set_plain_opts :: "set_opts \<Rightarrow> bool" where
  "set_plain_opts op \<longleftrightarrow> \<not> so_nx op \<and> \<not> so_xx op \<and> \<not> so_get op \<and> \<not> so_keepttl op \<and> so_expiry op = None
     \<and> so_ifeq op = None \<and> so_ifgt op = None \<and> so_iflt op = None"

text \<open>The reply when the value is not set: the old value with GET, nil without.\<close>

definition not_set :: "resp option \<Rightarrow> resp" where
  "not_set old = (case old of Some r \<Rightarrow> r | None \<Rightarrow> resp_null)"

definition string_entry :: "bytes \<Rightarrow> expiry option \<Rightarrow> entry" where
  "string_entry v x = (case x of Some t \<Rightarrow> entry_with_expiry (DString v) t | None \<Rightarrow> entry_new (DString v))"

definition set_write :: "env \<Rightarrow> bytes \<Rightarrow> bytes \<Rightarrow> set_opts \<Rightarrow> resp option \<Rightarrow> resp result prog" where
  "set_write E key val op old =
     seq (if so_keepttl op then current_expiry E key else ret (so_expiry op)) (\<lambda>x.
     seq (put_value key (string_entry val x)) (\<lambda>_.
     ret (Inr (case old of Some r \<Rightarrow> r | None \<Rightarrow> resp_ok))))"

definition set_if_cond :: "env \<Rightarrow> bytes \<Rightarrow> bytes \<Rightarrow> set_opts \<Rightarrow> resp option \<Rightarrow> resp result prog" where
  "set_if_cond E key val op old =
     (if cond_count op > 0 then
        seq (current_string E key) (\<lambda>x. case x of
          None \<Rightarrow> ret (Inr (not_set old))
        | Some y \<Rightarrow> (case y of
            None \<Rightarrow> ret (Inl WrongType)
          | Some cur \<Rightarrow> if cond_passes op cur then set_write E key val op old else ret (Inr (not_set old))))
      else set_write E key val op old)"

definition set_if_exists :: "env \<Rightarrow> bytes \<Rightarrow> bytes \<Rightarrow> set_opts \<Rightarrow> resp option \<Rightarrow> resp result prog" where
  "set_if_exists E key val op old =
     (if so_nx op \<or> so_xx op then
        seq (has_key (env_now E) key) (\<lambda>exists.
          if so_nx op \<and> exists then ret (Inr (not_set old))
          else if so_xx op \<and> \<not> exists then ret (Inr (not_set old))
          else set_if_cond E key val op old)
      else set_if_cond E key val op old)"

definition set_flagged :: "env \<Rightarrow> bytes \<Rightarrow> bytes \<Rightarrow> set_opts \<Rightarrow> resp result prog" where
  "set_flagged E key val op =
     (if so_get op then
        seq (current_string E key) (\<lambda>x. case x of
          None \<Rightarrow> set_if_exists E key val op (Some resp_null)
        | Some y \<Rightarrow> (case y of
            None \<Rightarrow> ret (Inl WrongType)
          | Some v \<Rightarrow> set_if_exists E key val op (Some (resp_bulk v))))
      else set_if_exists E key val op None)"

definition cmd_set :: "env \<Rightarrow> resp list \<Rightarrow> resp handler" where
  "cmd_set E args =
     (if length args < 3 then fail (WrongArity (asc ''set''))
      else case (arg args 1 resp_as_bytes, arg args 2 resp_as_bytes) of
        (Some key, Some val) \<Rightarrow>
          attempt (set_options E (drop 3 args) no_set_opts) (\<lambda>op.
            if cond_count op > 1 \<or> cond_count op = 1 \<and> (so_nx op \<or> so_xx op) then fail SyntaxError
            else if set_plain_opts op then on_key key (\<lambda>d. Some (Inr resp_ok, db_set_plain (env_now E) key val d))
            else on_key key (set_flagged E key val op))
      | _ \<Rightarrow> fail (WrongArity (asc ''set'')))"

section \<open>Reading\<close>

definition string_value :: "env \<Rightarrow> (bytes \<Rightarrow> resp) \<Rightarrow> data_type \<Rightarrow> resp result option" where
  "string_value E h v = Some (case as_string_bytes (env_itoa E) v of Some b \<Rightarrow> Inr (h b) | None \<Rightarrow> Inl WrongType)"

definition cmd_get :: "env \<Rightarrow> resp list \<Rightarrow> resp handler" where
  "cmd_get E args =
     (if length args \<noteq> 2 then fail (WrongArity (asc ''get''))
      else case arg args 1 resp_as_bytes of
        None \<Rightarrow> fail (WrongArity (asc ''get''))
      | Some key \<Rightarrow> view_ro E key (Inr resp_null) (string_value E resp_bulk))"

definition cmd_strlen :: "env \<Rightarrow> resp list \<Rightarrow> resp handler" where
  "cmd_strlen E args =
     (if length args \<noteq> 2 then fail (WrongArity (asc ''strlen''))
      else attempt (get_bytes_vec args 1 (asc ''STRLEN'')) (\<lambda>key.
        view_ro E key (Inr (resp_int 0)) (string_value E (\<lambda>v. resp_int (int (length v))))))"

definition normalize_range_idx :: "int \<Rightarrow> int \<Rightarrow> nat" where
  "normalize_range_idx idx len = (if idx < 0 then nat (max (len + idx) 0) else nat idx)"

definition range_of :: "int \<Rightarrow> int \<Rightarrow> bytes \<Rightarrow> resp" where
  "range_of start stop bs =
     (let len = length bs; start = normalize_range_idx start (int len); stop = normalize_range_idx stop (int len) in
      if start > stop \<or> start \<ge> len then resp_bulk_str [] else resp_bulk (take (min stop (len - 1) + 1 - start) (drop start bs)))"

definition cmd_getrange :: "env \<Rightarrow> resp list \<Rightarrow> resp handler" where
  "cmd_getrange E args =
     (if length args \<noteq> 4 then fail (WrongArity (asc ''getrange''))
      else attempt (get_bytes_vec args 1 (asc ''GETRANGE'')) (\<lambda>key.
        attempt (get_i64 args 2 (asc ''GETRANGE'')) (\<lambda>start.
        attempt (get_i64 args 3 (asc ''GETRANGE'')) (\<lambda>stop.
        view_ro E key (Inr (resp_bulk_str [])) (string_value E (range_of start stop))))))"

text \<open>MGET reads each key under its own lock; an argument that is no string ends it.\<close>

fun mget_loop :: "env \<Rightarrow> resp list \<Rightarrow> resp list \<Rightarrow> resp handler" where
  "mget_loop E [] results s = reply (resp_array results) s"
| "mget_loop E (a # rest) results s = (case ok_or_arity (bulk_or_simple a) (asc ''MGET'') of
     Inl e \<Rightarrow> fail e s
   | Inr key \<Rightarrow> do {
       (r, s) \<leftarrow> view_ro E key (Inr resp_null) (string_value E resp_bulk) s;
       mget_loop E rest (results @ [case r of Inl _ \<Rightarrow> resp_null | Inr x \<Rightarrow> x]) s
     })"

definition cmd_mget :: "env \<Rightarrow> resp list \<Rightarrow> resp handler" where
  "cmd_mget E args = (if length args < 2 then fail (WrongArity (asc ''mget'')) else mget_loop E (drop 1 args) [])"

section \<open>Reading and replacing\<close>

definition getset_prog :: "env \<Rightarrow> bytes \<Rightarrow> bytes \<Rightarrow> resp result prog" where
  "getset_prog E key val =
     seq (current_string E key) (\<lambda>x. case x of
       None \<Rightarrow> seq (put_value key (entry_new (DString val))) (\<lambda>_. ret (Inr resp_null))
     | Some y \<Rightarrow> (case y of
         None \<Rightarrow> ret (Inl WrongType)
       | Some v \<Rightarrow> seq (put_value key (entry_new (DString val))) (\<lambda>_. ret (Inr (resp_bulk v)))))"

definition cmd_getset :: "env \<Rightarrow> resp list \<Rightarrow> resp handler" where
  "cmd_getset E args =
     (if length args \<noteq> 3 then fail (WrongArity (asc ''getset''))
      else attempt (get_bytes_vec args 1 (asc ''GETSET'')) (\<lambda>key.
        attempt (get_bytes args 2 (asc ''GETSET'')) (\<lambda>val.
        on_key key (getset_prog E key val))))"

text \<open>GETDEL removes the key whatever it holds, and whether or not it has expired.\<close>

definition getdel_prog :: "env \<Rightarrow> bytes \<Rightarrow> resp result prog" where
  "getdel_prog E key =
     seq (drop_key key (\<lambda>e. as_string_bytes (env_itoa E) (en_value e))) (\<lambda>x. ret (case x of
       None \<Rightarrow> Inr resp_null
     | Some None \<Rightarrow> Inl WrongType
     | Some (Some v) \<Rightarrow> Inr (resp_bulk v)))"

definition cmd_getdel :: "env \<Rightarrow> resp list \<Rightarrow> resp handler" where
  "cmd_getdel E args =
     (if length args \<noteq> 2 then fail (WrongArity (asc ''getdel''))
      else attempt (get_bytes_vec args 1 (asc ''GETDEL'')) (\<lambda>key. on_key key (getdel_prog E key)))"

text \<open>GETEX looks at its options after it has read the value; the inner option is the expiry to set.\<close>

definition getex_option :: "env \<Rightarrow> resp list \<Rightarrow> expiry option option result" where
  "getex_option E args =
     (if length args \<le> 2 then Inr None
      else attempt_e (get_str args 2 (asc ''GETEX'')) (\<lambda>w. let opt = to_uppercase w in
        if opt \<in> set expiry_words then
          if length args \<noteq> 4 then Inl SyntaxError else map_sum id (\<lambda>x. Some (Some x)) (expiry_arg E opt args 3 (asc ''GETEX''))
        else if opt = asc ''PERSIST'' then if length args \<noteq> 3 then Inl SyntaxError else Inr (Some None)
        else Inl SyntaxError))"

definition getex_prog :: "env \<Rightarrow> bytes \<Rightarrow> expiry option option result \<Rightarrow> resp result prog" where
  "getex_prog E key op =
     seq (current_string E key) (\<lambda>x. case x of
       None \<Rightarrow> ret (Inr resp_null)
     | Some y \<Rightarrow> (case y of
         None \<Rightarrow> ret (Inl WrongType)
       | Some v \<Rightarrow> (case op of
           Inl e \<Rightarrow> ret (Inl e)
         | Inr z \<Rightarrow> (case z of
             None \<Rightarrow> ret (Inr (resp_bulk v))
           | Some t \<Rightarrow> seq (put_expiry key t) (\<lambda>_. ret (Inr (resp_bulk v)))))))"

definition cmd_getex :: "env \<Rightarrow> resp list \<Rightarrow> resp handler" where
  "cmd_getex E args =
     (if length args < 2 then fail (WrongArity (asc ''getex''))
      else attempt (get_bytes_vec args 1 (asc ''GETEX'')) (\<lambda>key. on_key key (getex_prog E key (getex_option E args))))"

definition setnx_prog :: "env \<Rightarrow> bytes \<Rightarrow> bytes \<Rightarrow> resp result prog" where
  "setnx_prog E key val =
     seq (has_key (env_now E) key) (\<lambda>exists.
       if exists then ret (Inr (resp_int 0))
       else seq (put_value key (entry_new (DString val))) (\<lambda>_. ret (Inr (resp_int 1))))"

definition cmd_setnx :: "env \<Rightarrow> resp list \<Rightarrow> resp handler" where
  "cmd_setnx E args =
     (if length args \<noteq> 3 then fail (WrongArity (asc ''setnx''))
      else attempt (get_bytes_vec args 1 (asc ''SETNX'')) (\<lambda>key.
        attempt (get_bytes_vec args 2 (asc ''SETNX'')) (\<lambda>val. on_key key (setnx_prog E key val))))"

definition set_expiring :: "env \<Rightarrow> resp list \<Rightarrow> bytes \<Rightarrow> nat \<Rightarrow> resp handler" where
  "set_expiring E args cmd unit_ms =
     (if length args \<noteq> 4 then fail (WrongArity (to_lowercase cmd))
      else attempt (get_bytes_vec args 1 cmd) (\<lambda>key.
        attempt (get_i64 args 2 cmd) (\<lambda>n.
        attempt (get_bytes_vec args 3 cmd) (\<lambda>val.
        if n \<le> 0 then fail (Generic (asc ''invalid expire time in '' @ cmd))
        else on_key key (seq (put_value key (entry_with_expiry (DString val) (expiry_from_duration (env_now E) (nat n * unit_ms))))
          (\<lambda>_. ret (Inr resp_ok)))))))"

definition cmd_setex :: "env \<Rightarrow> resp list \<Rightarrow> resp handler" where
  "cmd_setex E args = set_expiring E args (asc ''SETEX'') 1000"

definition cmd_psetex :: "env \<Rightarrow> resp list \<Rightarrow> resp handler" where
  "cmd_psetex E args = set_expiring E args (asc ''PSETEX'') 1"

section \<open>Counters\<close>

definition incr_by :: "env \<Rightarrow> resp list \<Rightarrow> int \<Rightarrow> bytes \<Rightarrow> resp handler" where
  "incr_by E args delta cmd =
     (if length args < 2 then fail (WrongArity cmd)
      else attempt (get_bytes_vec args 1 cmd) (\<lambda>key s.
        map_option (\<lambda>(r, db). (map_sum id resp_int r, s\<lparr>cs_db := db\<rparr>)) (sh_incr_int (env_now E) key delta (cs_db s))))"

definition cmd_incr :: "env \<Rightarrow> resp list \<Rightarrow> resp handler" where
  "cmd_incr E args = incr_by E args 1 (asc ''INCR'')"

definition cmd_decr :: "env \<Rightarrow> resp list \<Rightarrow> resp handler" where
  "cmd_decr E args = incr_by E args (- 1) (asc ''DECR'')"

definition cmd_incrby :: "env \<Rightarrow> resp list \<Rightarrow> resp handler" where
  "cmd_incrby E args =
     (if length args \<noteq> 3 then fail (WrongArity (asc ''incrby''))
      else attempt (get_i64 args 2 (asc ''INCRBY'')) (\<lambda>delta. incr_by E args delta (asc ''INCRBY'')))"

text \<open>The negation of the smallest \<^verbatim>\<open>i64\<close> overflows: it wraps in the release profile.\<close>

definition wrapping_neg :: "int \<Rightarrow> int" where
  "wrapping_neg n = (if n = - (2 ^ 63) then n else - n)"

definition cmd_decrby :: "env \<Rightarrow> resp list \<Rightarrow> resp handler" where
  "cmd_decrby E args =
     (if length args \<noteq> 3 then fail (WrongArity (asc ''decrby''))
      else attempt (get_i64 args 2 (asc ''DECRBY'')) (\<lambda>delta. incr_by E args (wrapping_neg delta) (asc ''DECRBY'')))"

definition get_f64 :: "resp list \<Rightarrow> nat \<Rightarrow> bytes \<Rightarrow> f64 result" where
  "get_f64 args i cmd = attempt_e (get_str args i cmd) (\<lambda>s. case parse_f64 s of Some x \<Rightarrow> Inr x | None \<Rightarrow> Inl NotFloat)"

text \<open>The number a string holds, and the sum with the increment unless it is no finite number.\<close>

definition float_of :: "bytes \<Rightarrow> f64 result" where
  "float_of v = (case parse_text_f64 v of Some x \<Rightarrow> Inr x | None \<Rightarrow> Inl NotFloat)"

definition float_sum :: "f64 \<Rightarrow> f64 \<Rightarrow> bytes result" where
  "float_sum current delta = (let new_val = f64_add current delta in
     if f64_is_nan new_val \<or> f64_is_infinite new_val then Inl (Generic (asc ''increment would produce NaN or Infinity''))
     else Inr (format_float new_val))"

text \<open>A value written in place keeps the expiry of the key.\<close>

definition put_keeping :: "env \<Rightarrow> bytes \<Rightarrow> bytes \<Rightarrow> resp \<Rightarrow> resp result prog" where
  "put_keeping E key val r =
     seq (current_expiry E key) (\<lambda>prev_expiry.
     seq (put_value key (entry_new (DString val))) (\<lambda>_.
     if prev_expiry \<noteq> None then seq (put_expiry key prev_expiry) (\<lambda>_. ret (Inr r)) else ret (Inr r)))"

definition incrbyfloat_prog :: "env \<Rightarrow> bytes \<Rightarrow> f64 \<Rightarrow> resp result prog" where
  "incrbyfloat_prog E key delta =
     seq (current_string E key) (\<lambda>x.
       case (case x of None \<Rightarrow> Inr 0 | Some None \<Rightarrow> Inl WrongType | Some (Some v) \<Rightarrow> float_of v) of
         Inl e \<Rightarrow> ret (Inl e)
       | Inr current \<Rightarrow> (case float_sum current delta of
           Inl e \<Rightarrow> ret (Inl e)
         | Inr t \<Rightarrow> put_keeping E key t (resp_bulk_str t)))"

definition cmd_incrbyfloat :: "env \<Rightarrow> resp list \<Rightarrow> resp handler" where
  "cmd_incrbyfloat E args =
     (if length args \<noteq> 3 then fail (WrongArity (asc ''incrbyfloat''))
      else attempt (get_bytes_vec args 1 (asc ''INCRBYFLOAT'')) (\<lambda>key.
        attempt (get_f64 args 2 (asc ''INCRBYFLOAT'')) (\<lambda>delta. on_key key (incrbyfloat_prog E key delta))))"

section \<open>Changing part of a string\<close>

fun append_value :: "env \<Rightarrow> bytes \<Rightarrow> data_type \<Rightarrow> (resp result \<times> data_type \<times> int \<times> bool) option" where
  "append_value E val (DString v) =
     Some (Inr (resp_int (int (length (v @ val)))), DString (v @ val), int (length (v @ val)) - int (length v), False)"
| "append_value E val (DInt cell) =
     (let owned = env_itoa E (cell_load cell) @ val in
      Some (Inr (resp_int (int (length owned))), DString owned, int (length owned) - 8, False))"
| "append_value E val (DBitmap v) =
     Some (Inr (resp_int (int (length (v @ val)))), DString (v @ val), int (length (v @ val)) - int (length v), False)"
| "append_value E val v = Some (Inl WrongType, v, 0, False)"

definition append_prog :: "env \<Rightarrow> bytes \<Rightarrow> bytes \<Rightarrow> resp result prog" where
  "append_prog E key val =
     seq (edit_live (env_now E) key None (\<lambda>v. map_option (\<lambda>(r, x). (Some r, x)) (append_value E val v))) (\<lambda>r. case r of
       Some r \<Rightarrow> ret r
     | None \<Rightarrow> seq (put_value key (entry_new (DString val))) (\<lambda>_. ret (Inr (resp_int (int (length val))))))"

definition cmd_append :: "env \<Rightarrow> resp list \<Rightarrow> resp handler" where
  "cmd_append E args =
     (if length args \<noteq> 3 then fail (WrongArity (asc ''append''))
      else attempt (get_bytes_vec args 1 (asc ''APPEND'')) (\<lambda>key.
        attempt (get_bytes_vec args 2 (asc ''APPEND'')) (\<lambda>val. on_key key (append_prog E key val))))"

definition MAX_SETRANGE_OFFSET :: nat where "MAX_SETRANGE_OFFSET = 512 * 1024 * 1024 - 1"

definition patched :: "nat \<Rightarrow> bytes \<Rightarrow> bytes \<Rightarrow> bytes" where
  "patched offset patch bs = (let stop = offset + length patch;
       bs = (if stop > length bs then bs @ replicate (stop - length bs) 0 else bs) in
     take offset bs @ patch @ drop stop bs)"

definition setrange_prog :: "env \<Rightarrow> bytes \<Rightarrow> nat \<Rightarrow> bytes \<Rightarrow> resp result prog" where
  "setrange_prog E key offset patch =
     seq (current_string E key) (\<lambda>x.
       case (case x of None \<Rightarrow> Inr [] | Some None \<Rightarrow> Inl WrongType | Some (Some v) \<Rightarrow> Inr v) of
         Inl e \<Rightarrow> ret (Inl e)
       | Inr bs \<Rightarrow>
           if patch = [] then ret (Inr (resp_int (int (length bs))))
           else if offset + length patch > MAX_SETRANGE_OFFSET then ret (Inl (Generic (asc ''string exceeds maximum allowed size (512MB)'')))
           else put_keeping E key (patched offset patch bs) (resp_int (int (length (patched offset patch bs)))))"

definition cmd_setrange :: "env \<Rightarrow> resp list \<Rightarrow> resp handler" where
  "cmd_setrange E args =
     (if length args \<noteq> 4 then fail (WrongArity (asc ''setrange''))
      else attempt (get_bytes_vec args 1 (asc ''SETRANGE'')) (\<lambda>key.
        attempt (get_i64 args 2 (asc ''SETRANGE'')) (\<lambda>offset.
        attempt (get_bytes_vec args 3 (asc ''SETRANGE'')) (\<lambda>patch.
        if offset < 0 then fail (Generic (asc ''offset is out of range''))
        else if offset > int MAX_SETRANGE_OFFSET then fail (Generic (asc ''string exceeds maximum allowed size (512MB)''))
        else on_key key (setrange_prog E key (nat offset) patch)))))"

section \<open>Several keys\<close>

fun mset_pairs :: "bytes \<Rightarrow> resp list \<Rightarrow> (bytes \<times> entry) list result" where
  "mset_pairs cmd (a # b # rest) = (case (resp_as_bytes a, resp_as_bytes b) of
     (Some key, Some val) \<Rightarrow> attempt_e (mset_pairs cmd rest) (\<lambda>ps. Inr ((key, entry_new (DString val)) # ps))
   | _ \<Rightarrow> Inl (WrongArity cmd))"
| "mset_pairs cmd _ = Inr []"

text \<open>\<open>srt\<close> is the unstable sort by shard, as in \<^verbatim>\<open>mset\<close> of \<^verbatim>\<open>store.rs\<close>.\<close>

definition cmd_mset :: "(tagged_pair list \<Rightarrow> tagged_pair list) \<Rightarrow> env \<Rightarrow> resp list \<Rightarrow> resp handler" where
  "cmd_mset srt E args =
     (if length args < 3 \<or> even (length args) then fail (WrongArity (asc ''mset''))
      else attempt (mset_pairs (asc ''mset'') (drop 1 args)) (\<lambda>pairs s.
        map_option (\<lambda>db. (Inr resp_ok, s\<lparr>cs_db := db\<rparr>)) (sh_mset srt pairs (cs_db s))))"

definition cmd_msetnx :: "(tagged_pair list \<Rightarrow> tagged_pair list) \<Rightarrow> env \<Rightarrow> resp list \<Rightarrow> resp handler" where
  "cmd_msetnx srt E args =
     (if length args < 3 \<or> even (length args) then fail (WrongArity (asc ''msetnx''))
      else attempt (mset_pairs (asc ''msetnx'') (drop 1 args)) (\<lambda>pairs s.
        map_option (\<lambda>(ok, db). (Inr (resp_int (if ok then 1 else 0)), s\<lparr>cs_db := db\<rparr>)) (sh_msetnx srt (env_now E) pairs (cs_db s))))"

end
