(* ===== verification/String_Spec.thy ===== *)
theory String_Spec
  imports String_Cmds Hash_Spec
begin

text \<open>
  What the string commands do: the effect of each on what its key holds, that the programs of the handlers
  have these effects (by the rules of \<open>key_prog\<close>), and that every command, from its words on, implements its
  specification on the keyspace.
\<close>

section \<open>The effects on a key\<close>

text \<open>A counter reads as its decimal text.\<close>

fun str_of :: "aval \<Rightarrow> bytes option" where
  "str_of (AStr b) = Some b"
| "str_of (AInt n) = Some (dec_int n)"
| "str_of (AOther (DBitmap v)) = Some v"
| "str_of _ = None"

definition str_at :: "nat \<Rightarrow> content option \<Rightarrow> bytes option result" where
  "str_at now c = (case alive now c of
     None \<Rightarrow> Inr None
   | Some (a, t) \<Rightarrow> (case str_of a of None \<Rightarrow> Inl WrongType | Some b \<Rightarrow> Inr (Some b)))"

definition ttl_at :: "nat \<Rightarrow> content option \<Rightarrow> expiry option" where
  "ttl_at now c = (case alive now c of None \<Rightarrow> None | Some (a, t) \<Rightarrow> t)"

type_synonym effect = "content option \<Rightarrow> resp result \<times> content option"

text \<open>SET writes if NX, XX and the comparison with the present value allow it. With GET it replies the
  present value either way.\<close>

definition set_allowed :: "nat \<Rightarrow> set_opts \<Rightarrow> content option \<Rightarrow> bool" where
  "set_allowed now op c \<longleftrightarrow> (so_nx op \<longrightarrow> alive now c = None) \<and> (so_xx op \<longrightarrow> alive now c \<noteq> None)
     \<and> (cond_count op > 0 \<longrightarrow> (\<exists>v. str_at now c = Inr (Some v) \<and> cond_passes op v))"

definition set_effect :: "nat \<Rightarrow> bytes \<Rightarrow> set_opts \<Rightarrow> effect" where
  "set_effect now val op c =
     (if str_at now c = Inl WrongType \<and> (so_get op \<or> cond_count op > 0) then (Inl WrongType, alive now c)
      else let old = (case str_at now c of Inr x \<Rightarrow> bulk_or_null x | Inl e \<Rightarrow> resp_null) in
        if set_allowed now op c
        then (Inr (if so_get op then old else resp_ok), Some (AStr val, if so_keepttl op then ttl_at now c else so_expiry op))
        else (Inr (if so_get op then old else resp_null), alive now c))"

definition getset_effect :: "nat \<Rightarrow> bytes \<Rightarrow> effect" where
  "getset_effect now val c = (case str_at now c of
     Inl e \<Rightarrow> (Inl e, alive now c)
   | Inr x \<Rightarrow> (Inr (bulk_or_null x), Some (AStr val, None)))"

definition getdel_effect :: effect where
  "getdel_effect c = (case c of
     None \<Rightarrow> (Inr resp_null, None)
   | Some (a, t) \<Rightarrow> (case str_of a of None \<Rightarrow> Inl WrongType | Some v \<Rightarrow> Inr (resp_bulk v), None))"

definition getex_effect :: "nat \<Rightarrow> expiry option option result \<Rightarrow> effect" where
  "getex_effect now op c = (case str_at now c of
     Inl e \<Rightarrow> (Inl e, alive now c)
   | Inr None \<Rightarrow> (Inr resp_null, None)
   | Inr (Some v) \<Rightarrow> (case op of
       Inl e \<Rightarrow> (Inl e, alive now c)
     | Inr None \<Rightarrow> (Inr (resp_bulk v), alive now c)
     | Inr (Some x) \<Rightarrow> (Inr (resp_bulk v), map_option (\<lambda>(a, t). (a, x)) (alive now c))))"

definition setnx_effect :: "nat \<Rightarrow> bytes \<Rightarrow> effect" where
  "setnx_effect now val c =
     (if alive now c = None then (Inr (resp_int 1), Some (AStr val, None)) else (Inr (resp_int 0), alive now c))"

text \<open>A string rewritten in place keeps its expiry.\<close>

definition rewrite_effect :: "nat \<Rightarrow> (bytes option \<Rightarrow> (resp \<times> bytes option) result) \<Rightarrow> effect" where
  "rewrite_effect now g c = (case str_at now c of
     Inl e \<Rightarrow> (Inl e, alive now c)
   | Inr x \<Rightarrow> (case g x of
       Inl e \<Rightarrow> (Inl e, alive now c)
     | Inr (r, None) \<Rightarrow> (Inr r, alive now c)
     | Inr (r, Some w) \<Rightarrow> (Inr r, Some (AStr w, ttl_at now c))))"

definition append_to :: "bytes \<Rightarrow> bytes option \<Rightarrow> (resp \<times> bytes option) result" where
  "append_to val x = (let w = (case x of None \<Rightarrow> val | Some v \<Rightarrow> v @ val) in Inr (resp_int (int (length w)), Some w))"

text \<open>Bytes written from \<open>offset\<close> on, over zeros beyond the end.\<close>

definition overwrite :: "nat \<Rightarrow> bytes \<Rightarrow> bytes \<Rightarrow> bytes" where
  "overwrite offset patch bs = map (\<lambda>i.
     if offset \<le> i \<and> i < offset + length patch then patch ! (i - offset)
     else if i < length bs then bs ! i else 0) [0..<max (length bs) (offset + length patch)]"

definition setrange_to :: "nat \<Rightarrow> bytes \<Rightarrow> bytes option \<Rightarrow> (resp \<times> bytes option) result" where
  "setrange_to offset patch x = (let bs = (case x of None \<Rightarrow> [] | Some v \<Rightarrow> v) in
     if patch = [] then Inr (resp_int (int (length bs)), None)
     else if offset + length patch > MAX_SETRANGE_OFFSET then Inl (Generic (asc ''string exceeds maximum allowed size (512MB)''))
     else (let w = overwrite offset patch bs in Inr (resp_int (int (length w)), Some w)))"

definition incrbyfloat_to :: "f64 \<Rightarrow> bytes option \<Rightarrow> (resp \<times> bytes option) result" where
  "incrbyfloat_to delta x = attempt_e (case x of None \<Rightarrow> Inr 0 | Some v \<Rightarrow> float_of v) (\<lambda>current.
     attempt_e (float_sum current delta) (\<lambda>t. Inr (resp_bulk_str t, Some t)))"

text \<open>The bytes at the positions from \<open>start\<close> to \<open>stop\<close>, negative ones counted from the end.\<close>

definition getrange_of :: "int \<Rightarrow> int \<Rightarrow> bytes \<Rightarrow> bytes" where
  "getrange_of start stop bs = (let from_end = (\<lambda>i. if i < 0 then int (length bs) + i else i) in
     nths bs {i. from_end start \<le> int i \<and> int i \<le> (if stop < 0 then max 0 (from_end stop) else stop)})"

text \<open>The number a counter stands at, and the counter after an increment.\<close>

definition int_at :: "nat \<Rightarrow> content option \<Rightarrow> int result" where
  "int_at now c = (case alive now c of
     None \<Rightarrow> Inr 0
   | Some (a, t) \<Rightarrow> (case a of
       AInt n \<Rightarrow> Inr n
     | AStr b \<Rightarrow> (case parse_i64 b of None \<Rightarrow> Inl NotInteger | Some n \<Rightarrow> Inr n)
     | _ \<Rightarrow> Inl WrongType))"

definition incremented :: "nat \<Rightarrow> int \<Rightarrow> content option \<Rightarrow> int result" where
  "incremented now delta c = attempt_e (int_at now c) (\<lambda>n. if i64_ok (n + delta) then Inr (n + delta) else Inl Overflow)"

definition incr_effect :: "nat \<Rightarrow> int \<Rightarrow> effect" where
  "incr_effect now delta c = (case incremented now delta c of
     Inl e \<Rightarrow> (Inl e, c)
   | Inr n \<Rightarrow> (Inr (resp_int n), Some (AInt n, ttl_at now c)))"

section \<open>The programs have these effects\<close>

lemma as_string_of: "env_ok lims E \<Longrightarrow> val_is lims v a \<Longrightarrow> as_string_bytes (env_itoa E) v = str_of a"
  by (cases v) (auto simp: env_ok_def itoa_int_laws_def cell_load_def)

lemma current_string_prog: "env_ok lims E \<Longrightarrow> key_prog lims key (current_string E key) (look_c (env_now E) (\<lambda>(a, t). str_of a))"
  unfolding current_string_def by (rule prog_look) (simp add: as_string_of)

lemma current_expiry_prog: "key_prog lims key (current_expiry E key) (\<lambda>c. (ttl_at (env_now E) c, alive (env_now E) c))"
  unfolding current_expiry_def
  by (rule prog_conseq, (rule prog_seq prog_ret prog_look [where g = snd] | simp)+)
    (auto simp: prog_defs ttl_at_def split: option.split)

lemma put_string_prog:
  "key_prog lims key (put_value key (string_entry v x)) (put_c (AStr v, x))"
  "key_prog lims key (put_value key (entry_new (DString v))) (put_c (AStr v, None))"
  "key_prog lims key (put_value key (entry_with_expiry (DString v) t)) (put_c (AStr v, Some t))"
  using prog_put [of lims "string_entry v x" "AStr v" key] prog_put [of lims "entry_new (DString v)" "AStr v" key]
    prog_put [of lims "entry_with_expiry (DString v) t" "AStr v" key]
  by (auto simp: string_entry_def entry_new_def entry_with_expiry_def split: option.splits)

lemmas string_rules = prog_rules current_expiry_prog put_string_prog

lemma alive_None [simp]: "alive now None = None"
  by (simp add: alive_def)

lemma alive_idem [simp]: "alive now (alive now c) = alive now c"
  by (auto simp: alive_def split: option.split)

lemma str_at_None [simp]: "str_at now None = Inr None"
  by (simp add: str_at_def)

lemma ttl_at_None [simp]: "ttl_at now None = None"
  by (simp add: ttl_at_def)

lemma content_cases:
  obtains "alive now c = None" "str_at now c = Inr None" "ttl_at now c = None"
  | a t where "alive now c = Some (a, t)" "str_of a = None" "str_at now c = Inl WrongType" "ttl_at now c = t"
      "alive now (Some (a, t)) = Some (a, t)" "str_at now (Some (a, t)) = Inl WrongType" "ttl_at now (Some (a, t)) = t"
  | a t v where "alive now c = Some (a, t)" "str_of a = Some v" "str_at now c = Inr (Some v)" "ttl_at now c = t"
      "alive now (Some (a, t)) = Some (a, t)" "str_at now (Some (a, t)) = Inr (Some v)" "ttl_at now (Some (a, t)) = t"
proof (cases "alive now c")
  case (Some p)
  obtain a t where p: "p = (a, t)" by force
  have "alive now (Some (a, t)) = Some (a, t)" using alive_idem [of now c] Some p by simp
  then show thesis using that Some p by (cases "str_of a") (auto simp: str_at_def ttl_at_def)
qed (use that in \<open>simp add: str_at_def ttl_at_def\<close>)

lemma getset_prog_ok: "env_ok lims E \<Longrightarrow> key_prog lims key (getset_prog E key val) (getset_effect (env_now E) val)"
  unfolding getset_prog_def
  apply (rule prog_conseq)
   apply (rule string_rules current_string_prog | assumption)+
  subgoal for c
    by (cases rule: content_cases [of "env_now E" c]) (simp_all add: prog_defs getset_effect_def)
  done

lemma getdel_prog_ok: "env_ok lims E \<Longrightarrow> key_prog lims key (getdel_prog E key) getdel_effect"
  unfolding getdel_prog_def
  apply (rule prog_conseq)
   apply (rule string_rules prog_drop [where g = "\<lambda>(a, t). str_of a"] | simp add: as_string_of)+
  apply (auto simp: prog_defs getdel_effect_def split: option.split)
  done

lemma getex_prog_ok: "env_ok lims E \<Longrightarrow> key_prog lims key (getex_prog E key op) (getex_effect (env_now E) op)"
  unfolding getex_prog_def
  apply (rule prog_conseq)
   apply (rule string_rules current_string_prog | assumption)+
  subgoal for c
    by (cases rule: content_cases [of "env_now E" c]) (simp_all add: prog_defs getex_effect_def split: sum.split option.split)
  done

lemma setnx_prog_ok: "key_prog lims key (setnx_prog E key val) (setnx_effect (env_now E) val)"
  unfolding setnx_prog_def
  apply (rule prog_conseq)
   apply (rule string_rules)+
  apply (simp add: prog_defs setnx_effect_def)
  done

lemma put_keeping_prog:
  "key_prog lims key (put_keeping E key val r) (\<lambda>c. (Inr r, Some (AStr val, ttl_at (env_now E) c)))"
  unfolding put_keeping_def
  by (rule prog_conseq, (rule string_rules)+) (simp add: prog_defs)

lemma rewrite_prog:
  assumes "env_ok lims E" and "\<And>x. case g x of
      Inl e \<Rightarrow> f x = ret (Inl e)
    | Inr (r, None) \<Rightarrow> f x = ret (Inr r)
    | Inr (r, Some w) \<Rightarrow> f x = put_keeping E key w r"
    and "\<And>x. h x = (case x of None \<Rightarrow> f None | Some y \<Rightarrow> (case y of None \<Rightarrow> ret (Inl WrongType) | Some v \<Rightarrow> f (Some v)))"
  shows "key_prog lims key (seq (current_string E key) h) (rewrite_effect (env_now E) g)"
proof -
  let ?G = "\<lambda>x c. case g x of
      Inl e \<Rightarrow> (Inl e, c) | Inr (r, None) \<Rightarrow> (Inr r, c) | Inr (r, Some w) \<Rightarrow> (Inr r, Some (AStr w, ttl_at (env_now E) c))"
  have f: "key_prog lims key (f x) (?G x)" for x
  proof (cases "g x")
    case (Inr p)
    obtain r w where p: "p = (r, w)" by force
    show ?thesis
    proof (cases w)
      case None
      have "key_prog lims key (f x) (ret_c (Inr r))" using assms(2) [of x] Inr p None prog_ret by simp
      then show ?thesis by (rule prog_conseq) (simp add: Inr p None ret_c_def)
    next
      case (Some v)
      have "key_prog lims key (f x) (\<lambda>c. (Inr r, Some (AStr v, ttl_at (env_now E) c)))"
        using assms(2) [of x] Inr p Some put_keeping_prog by simp
      then show ?thesis by (rule prog_conseq) (simp add: Inr p Some)
    qed
  next
    case (Inl e)
    have "key_prog lims key (f x) (ret_c (Inl e))" using assms(2) [of x] Inl prog_ret by simp
    then show ?thesis by (rule prog_conseq) (simp add: Inl ret_c_def)
  qed
  have "key_prog lims key (h x) (case x of None \<Rightarrow> ?G None | Some y \<Rightarrow> (case y of None \<Rightarrow> ret_c (Inl WrongType) | Some v \<Rightarrow> ?G (Some v)))" for x
    unfolding assms(3) by (intro prog_case_option f prog_ret)
  then have "key_prog lims key (seq (current_string E key) h) (seq_c (look_c (env_now E) (\<lambda>(a, t). str_of a))
      (\<lambda>x. case x of None \<Rightarrow> ?G None | Some y \<Rightarrow> (case y of None \<Rightarrow> ret_c (Inl WrongType) | Some v \<Rightarrow> ?G (Some v))))"
    by (intro prog_seq current_string_prog assms(1))
  then show ?thesis
  proof (rule prog_conseq)
    fix c show "seq_c (look_c (env_now E) (\<lambda>(a, t). str_of a))
      (\<lambda>x. case x of None \<Rightarrow> ?G None | Some y \<Rightarrow> (case y of None \<Rightarrow> ret_c (Inl WrongType) | Some v \<Rightarrow> ?G (Some v))) c = rewrite_effect (env_now E) g c"
      by (cases rule: content_cases [of "env_now E" c])
        (simp_all add: prog_defs rewrite_effect_def split: sum.split option.split)
  qed
qed

lemma incrbyfloat_prog_ok:
  "env_ok lims E \<Longrightarrow> key_prog lims key (incrbyfloat_prog E key delta) (rewrite_effect (env_now E) (incrbyfloat_to delta))"
  unfolding incrbyfloat_prog_def
  by (rule rewrite_prog [where f = "\<lambda>x. case (case x of None \<Rightarrow> Inr 0 | Some v \<Rightarrow> float_of v) of
         Inl e \<Rightarrow> ret (Inl e)
       | Inr current \<Rightarrow> (case float_sum current delta of
           Inl e \<Rightarrow> ret (Inl e) | Inr t \<Rightarrow> put_keeping E key t (resp_bulk_str t))"])
    (auto simp: incrbyfloat_to_def attempt_e_def split: sum.split option.split)

lemma patched_is: "patched offset patch bs = overwrite offset patch bs" if "patch \<noteq> []"
proof (rule nth_equalityI)
  show "length (patched offset patch bs) = length (overwrite offset patch bs)"
    by (simp add: patched_def overwrite_def Let_def)
next
  fix i assume "i < length (patched offset patch bs)"
  then show "patched offset patch bs ! i = overwrite offset patch bs ! i"
    using that by (auto simp: patched_def overwrite_def Let_def nth_append not_le)
qed

lemma setrange_prog_ok:
  "env_ok lims E \<Longrightarrow> key_prog lims key (setrange_prog E key offset patch) (rewrite_effect (env_now E) (setrange_to offset patch))"
  unfolding setrange_prog_def
  by (rule rewrite_prog [where f = "\<lambda>x. let bs = (case x of None \<Rightarrow> [] | Some v \<Rightarrow> v) in
           if patch = [] then ret (Inr (resp_int (int (length bs))))
           else if offset + length patch > MAX_SETRANGE_OFFSET then ret (Inl (Generic (asc ''string exceeds maximum allowed size (512MB)'')))
           else put_keeping E key (patched offset patch bs) (resp_int (int (length (patched offset patch bs))))"])
    (auto simp: setrange_to_def patched_is Let_def split: sum.split option.split)

lemma append_value_op:
  assumes "env_ok lims E"
  shows "value_op True lims (\<lambda>v. map_option (\<lambda>(r, x). (Some r, x)) (append_value E val v))
    (\<lambda>a r a'. (case str_of a of None \<Rightarrow> (Some (Inl WrongType), Some a)
       | Some v \<Rightarrow> (Some (Inr (resp_int (int (length (v @ val))))), Some (AStr (v @ val)))) = (r, a'))"
proof
  fix v a assume "val_is lims v a"
  then show "\<exists>r v' delta emptied a'. map_option (\<lambda>(r, x). (Some r, x)) (append_value E val v) = Some (r, v', delta, emptied)
      \<and> val_is lims v' a' \<and> int (value_size v') = int (value_size v) + delta
      \<and> (case str_of a of None \<Rightarrow> (Some (Inl WrongType), Some a)
       | Some v \<Rightarrow> (Some (Inr (resp_int (int (length (v @ val))))), Some (AStr (v @ val)))) = (r, if emptied then None else Some a')"
    using as_string_of [OF assms \<open>val_is lims v a\<close>] by (cases v) (auto simp: Let_def)
qed

lemma append_prog_ok:
  "env_ok lims E \<Longrightarrow> key_prog lims key (append_prog E key val) (rewrite_effect (env_now E) (append_to val))"
  unfolding append_prog_def
  apply (rule prog_conseq)
   apply (rule string_rules prog_edit [OF append_value_op] | assumption)+
  subgoal for c
    by (cases rule: content_cases [of "env_now E" c]) (simp_all add: prog_defs rewrite_effect_def append_to_def)
  done

section \<open>SET\<close>

lemma set_write_prog:
  "key_prog lims key (set_write E key val op old)
     (\<lambda>c. (Inr (case old of Some r \<Rightarrow> r | None \<Rightarrow> resp_ok), Some (AStr val, if so_keepttl op then ttl_at (env_now E) c else so_expiry op)))"
  unfolding set_write_def by (rule prog_conseq, (rule string_rules)+) (simp add: prog_defs)

lemma set_if_cond_prog:
  assumes "env_ok lims E"
  shows "key_prog lims key (set_if_cond E key val op old) (\<lambda>c.
     if cond_count op > 0 \<and> str_at (env_now E) c = Inl WrongType then (Inl WrongType, alive (env_now E) c)
     else if cond_count op > 0 \<longrightarrow> (\<exists>v. str_at (env_now E) c = Inr (Some v) \<and> cond_passes op v)
     then (Inr (case old of Some r \<Rightarrow> r | None \<Rightarrow> resp_ok), Some (AStr val, if so_keepttl op then ttl_at (env_now E) c else so_expiry op))
     else (Inr (not_set old), alive (env_now E) c))"
  unfolding set_if_cond_def
  apply (rule prog_conseq)
   apply (rule prog_rules set_write_prog current_string_prog [OF assms])+
  subgoal for c
    by (cases rule: content_cases [of "env_now E" c]) (auto simp: prog_defs)
  done

lemma set_if_exists_prog:
  assumes "env_ok lims E" and "cond_count op = 0 \<or> \<not> so_nx op \<and> \<not> so_xx op"
  shows "key_prog lims key (set_if_exists E key val op old) (\<lambda>c.
     if cond_count op > 0 \<and> str_at (env_now E) c = Inl WrongType then (Inl WrongType, alive (env_now E) c)
     else if set_allowed (env_now E) op c
     then (Inr (case old of Some r \<Rightarrow> r | None \<Rightarrow> resp_ok), Some (AStr val, if so_keepttl op then ttl_at (env_now E) c else so_expiry op))
     else (Inr (not_set old), alive (env_now E) c))"
  unfolding set_if_exists_def
  apply (rule prog_conseq)
   apply (rule prog_rules set_if_cond_prog [OF assms(1)])+
  subgoal for c
    using assms(2) by (cases rule: content_cases [of "env_now E" c]) (auto simp: prog_defs set_allowed_def)
  done

lemma set_flagged_ok:
  assumes "env_ok lims E" and "cond_count op = 0 \<or> \<not> so_nx op \<and> \<not> so_xx op"
  shows "key_prog lims key (set_flagged E key val op) (set_effect (env_now E) val op)"
  unfolding set_flagged_def
  apply (rule prog_conseq)
   apply (rule prog_rules set_if_exists_prog [OF assms] current_string_prog [OF assms(1)])+
  subgoal for c
    by (cases rule: content_cases [of "env_now E" c])
      (auto simp: prog_defs set_effect_def set_allowed_def not_set_def Let_def)
  done

lemma set_plain_ok:
  assumes "set_plain_opts op"
  shows "key_prog lims key (\<lambda>d. Some (Inr resp_ok, db_set_plain (env_now E) key val d)) (set_effect (env_now E) val op)"
proof
  fix d m c assume d: "db_is d m" and c: "ent_is lims (m key) c"
  have "set_effect (env_now E) val op c = (Inr resp_ok, Some (AStr val, None))"
    using assms by (auto simp: set_plain_opts_def set_effect_def set_allowed_def cond_count_def Let_def)
  then show "\<exists>d' x. Some (Inr resp_ok, db_set_plain (env_now E) key val d) = Some (fst (set_effect (env_now E) val op c), d')
      \<and> db_is d' (m(key := x)) \<and> db_clock d' = db_clock d \<and> ent_is lims x (snd (set_effect (env_now E) val op c))"
    using set_plain_law [OF d, of "env_now E" key val]
    by (intro exI [of _ "db_set_plain (env_now E) key val d"] exI [of _ "plain_after (env_now E) val (db_clock d) (m key)"])
      (simp add: plain_after_def)
qed

section \<open>Readers and counters\<close>

lemma nths_within: "(\<And>i. i < length xs \<Longrightarrow> i \<in> I \<longleftrightarrow> i \<in> J) \<Longrightarrow> nths xs I = nths xs J"
  unfolding nths_def by (rule arg_cong [where f = "map fst"]) (rule filter_cong, auto simp: in_set_zip)

lemma take_drop_nths: "take n (drop k xs) = nths xs {i. k \<le> i \<and> i < k + n}"
proof -
  have "(+) k ` {..<n} = {i. k \<le> i \<and> i < k + n}" by (auto simp: image_iff) (metis le_add_diff_inverse lessThan_iff nat_add_left_cancel_less)
  then show ?thesis using nths_drop [of k xs "{..<n}"] by simp
qed

lemma range_of_is: "range_of start stop bs = resp_bulk (getrange_of start stop bs)"
proof -
  let ?n = "length bs"
  let ?lo = "normalize_range_idx start (int ?n)" and ?hi = "normalize_range_idx stop (int ?n)"
  have g: "getrange_of start stop bs = nths bs {i. ?lo \<le> i \<and> i \<le> ?hi}"
    unfolding getrange_of_def Let_def by (rule nths_within) (auto simp: normalize_range_idx_def)
  show ?thesis
  proof (cases "?lo > ?hi \<or> ?lo \<ge> ?n")
    case True
    have "nths bs {i. ?lo \<le> i \<and> i \<le> ?hi} = nths bs {}" by (rule nths_within) (use True in auto)
    then show ?thesis using True g by (simp add: range_of_def Let_def resp_bulk_def resp_bulk_str_def)
  next
    case False
    have "take (min ?hi (?n - 1) + 1 - ?lo) (drop ?lo bs) = nths bs {i. ?lo \<le> i \<and> i \<le> ?hi}"
      unfolding take_drop_nths by (rule nths_within) (use False in auto)
    then show ?thesis using False g by (simp add: range_of_def Let_def)
  qed
qed

definition view_str :: "nat \<Rightarrow> bytes \<Rightarrow> resp \<Rightarrow> (bytes \<Rightarrow> resp) \<Rightarrow> keyspace \<Rightarrow> resp result" where
  "view_str now key none h A = map_sum id (\<lambda>x. case x of None \<Rightarrow> none | Some v \<Rightarrow> h v) (str_at now (A key))"

lemma view_str_ok:
  assumes "env_ok lims E" and "ks_is lims clk (cs_db s) A"
  shows "view_ro E key (Inr none) (string_value E h) s = Some (view_str (env_now E) key none h A, s)"
proof -
  obtain d where d: "read_for (cs_db s) key = Some d" "ent_is lims (db_get_ro (env_now E) key d) (alive (env_now E) (A key))"
    by (rule ks_read [OF assms(2)])
  show ?thesis
  proof (cases "db_get_ro (env_now E) key d")
    case None
    then show ?thesis using d by (simp add: view_ro_def on_key_ro_def view_str_def str_at_def)
  next
    case (Some e)
    with d(2) obtain a where a: "alive (env_now E) (A key) = Some (a, en_expiry e)" "val_is lims (en_value e) a" by auto
    then show ?thesis using d(1) Some as_string_of [OF assms(1) a(2)]
      by (simp add: view_ro_def on_key_ro_def view_str_def str_at_def string_value_def split: option.split)
  qed
qed

lemma mget_loop_ok:
  assumes "env_ok lims E" and "ks_is lims clk (cs_db s) A"
  shows "mget_loop E (bulks keys) rs s = Some (Inr (resp_array (rs @ map (\<lambda>k. case str_at (env_now E) (A k) of
      Inl e \<Rightarrow> resp_null | Inr x \<Rightarrow> bulk_or_null x) keys)), s)"
proof (induction keys arbitrary: rs)
  case (Cons k keys)
  have "(case view_str (env_now E) k resp_null resp_bulk A of Inl _ \<Rightarrow> resp_null | Inr x \<Rightarrow> x)
      = (case str_at (env_now E) (A k) of Inl e \<Rightarrow> resp_null | Inr x \<Rightarrow> bulk_or_null x)"
    by (auto simp: view_str_def split: sum.split option.split)
  then show ?case using Cons.IH view_str_ok [OF assms, of k resp_null resp_bulk] by (simp add: ok_or_arity_def)
qed (simp add: reply_def)

lemma incremented_entry:
  assumes "ent_is lims x c" and "i64_ok delta"
  shows "incr_spec (live_entry now x) delta = incremented now delta c"
proof -
  have l: "ent_is lims (live_entry now x) (alive now c)" by (rule ent_is_alive) (rule assms)
  show ?thesis
  proof (cases "live_entry now x")
    case None
    then show ?thesis using l assms(2) by (simp add: incremented_def int_at_def incr_spec_def)
  next
    case (Some e)
    with l obtain a where a: "alive now c = Some (a, en_expiry e)" "val_is lims (en_value e) a" by auto
    have "int_of_value (en_value e) = int_at now c"
      using a by (cases "en_value e") (auto simp: int_at_def)
    then show ?thesis using Some
      by (simp add: incremented_def incr_spec_def attempt_e_def i64_checked_add_def split: sum.split)
  qed
qed

lemma incr_ok:
  assumes "i64_ok delta" and "ks_is lims clk (cs_db s) A"
  shows "\<exists>db. sh_incr_int (env_now E) key delta (cs_db s) = Some (incremented (env_now E) delta (A key), db)
    \<and> ks_is lims clk db (A(key := snd (incr_effect (env_now E) delta (A key))))"
proof -
  let ?now = "env_now E"
  from assms(2) obtain m where m: "sharded_is clk (cs_db s) m" "\<And>k. ent_is lims (m k) (A k)" by (auto simp: ks_is_def)
  have i: "incr_spec (live_entry ?now (m key)) delta = incremented ?now delta (A key)" by (rule incremented_entry [OF m(2) assms(1)])
  from sh_incr_int_is [OF m(1), of ?now key delta, unfolded i] obtain db x where
    l: "sh_incr_int ?now key delta (cs_db s) = Some (incremented ?now delta (A key), db)" "sharded_is clk db (m(key := x))"
      "case incremented ?now delta (A key) of Inl _ \<Rightarrow> x = m key
        | Inr v \<Rightarrow> holds_int x v \<and> Option.bind x en_expiry = Option.bind (live_entry ?now (m key)) en_expiry" by blast
  have "ent_is lims x (snd (incr_effect ?now delta (A key)))"
  proof (cases "incremented ?now delta (A key)")
    case (Inl e)
    then show ?thesis using l(3) m(2) by (simp add: incr_effect_def)
  next
    case (Inr v)
    have v: "i64_ok v" using Inr by (auto simp: incremented_def attempt_e_def split: sum.splits if_splits)
    have "Option.bind (live_entry ?now (m key)) en_expiry = ttl_at ?now (A key)"
      using ent_is_alive [OF m(2), of ?now key] by (cases "live_entry ?now (m key)") (auto simp: ttl_at_def)
    then show ?thesis using l(3) Inr v by (auto simp: incr_effect_def holds_int_def)
  qed
  then have "\<forall>k. ent_is lims ((m(key := x)) k) ((A(key := snd (incr_effect ?now delta (A key)))) k)" using m(2) by simp
  then show ?thesis using l(1,2) unfolding ks_is_def by blast
qed

section \<open>Several keys\<close>

text \<open>The keys take the values given. Where a key is given twice, one of its values is taken.\<close>

definition plain_pairs :: "pairs \<Rightarrow> (bytes \<times> content) list" where
  "plain_pairs = map (\<lambda>(k, v). (k, AStr v, None))"

definition mset_rel :: "pairs \<Rightarrow> keyspace \<Rightarrow> keyspace \<Rightarrow> bool" where
  "mset_rel kvs A A' \<longleftrightarrow> (\<exists>ps. mset ps = mset kvs \<and> A' = A ++ map_of (plain_pairs ps))"

definition plain_entries :: "pairs \<Rightarrow> (bytes \<times> entry) list" where
  "plain_entries = map (\<lambda>(k, v). (k, entry_new (DString v)))"

lemma mset_rel_distinct: "distinct (map fst kvs) \<Longrightarrow> mset_rel kvs A A' \<Longrightarrow> A' = A ++ map_of (plain_pairs kvs)"
proof -
  assume d: "distinct (map fst kvs)" and "mset_rel kvs A A'"
  then obtain ps where ps: "mset ps = mset kvs" "A' = A ++ map_of (plain_pairs ps)" by (auto simp: mset_rel_def)
  have f: "map fst (plain_pairs xs) = map fst xs" for xs by (simp add: plain_pairs_def case_prod_beta comp_def)
  have "distinct (map fst (plain_pairs ps))" unfolding f using d ps(1) by (metis mset_eq_imp_distinct_iff mset_map)
  moreover have "set (plain_pairs ps) = set (plain_pairs kvs)" using mset_eq_setD [OF ps(1)] by (simp add: plain_pairs_def)
  ultimately have "map_of (plain_pairs ps) = map_of (plain_pairs kvs)" using d f by (metis map_of_inject_set)
  then show ?thesis using ps(2) by simp
qed

lemma flat_Cons: "flat (p # kvs) = fst p # snd p # flat kvs"
  by (simp add: flat_def case_prod_beta)

lemma mset_pairs_words: "mset_pairs cmd (bulks (flat kvs)) = Inr (plain_entries kvs)"
  by (induction kvs) (auto simp: plain_entries_def flat_def)

lemma upd_pairs_rev: "upd_pairs ts m = m ++ map_of (rev (map snd ts))"
proof (induction ts arbitrary: m)
  case (Cons x ts)
  obtain t k e where x: "x = (t, k, e)" by (cases x) auto
  have "upd_pairs (x # ts) m = upd_pairs ts (m(k \<mapsto> e))" by (simp add: upd_pairs_def x)
  then show ?case unfolding Cons.IH by (simp add: x map_add_upd_left [symmetric] map_add_assoc map_add_def fun_eq_iff split: option.split)
qed (simp add: upd_pairs_def)

lemma permuted_map: "mset ys = mset (map f xs) \<Longrightarrow> \<exists>zs. mset zs = mset xs \<and> ys = map f zs"
proof (induction ys arbitrary: xs)
  case (Cons y ys)
  then have "y \<in> set (map f xs)" by (metis list.set_intros(1) mset_eq_setD)
  then obtain a x b where x: "xs = a @ x # b" "y = f x" by (metis (no_types, lifting) image_iff list.set_map split_list)
  then have "mset ys = mset (map f (a @ b))" using Cons.prems by simp
  from Cons.IH [OF this] obtain zs where "mset zs = mset (a @ b)" "ys = map f zs" by blast
  then show ?case using x by (intro exI [of _ "x # zs"]) simp
qed simp

lemma ks_is_updates:
  assumes "sharded_is clk s (m ++ map_of (plain_entries kvs))" and "\<And>k. ent_is lims (m k) (A k)"
  shows "ks_is lims clk s (A ++ map_of (plain_pairs kvs))"
proof -
  have "ent_is lims ((m ++ map_of (plain_entries kvs)) k) ((A ++ map_of (plain_pairs kvs)) k)" for k
    by (induction kvs) (use assms(2) in \<open>auto simp: plain_entries_def plain_pairs_def entry_new_def map_add_def split: option.splits\<close>)
  then show ?thesis using assms(1) by (auto simp: ks_is_def)
qed

lemma written_pairs:
  assumes "sort_laws srt" and "tag_and_sort_pairs srt num (plain_entries kvs) = (ts, si)"
    and "sharded_is clk s (upd_pairs ts m)" and "\<And>k. ent_is lims (m k) (A k)"
  shows "\<exists>A'. mset_rel kvs A A' \<and> ks_is lims clk s A'"
proof -
  have "mset (rev (map snd ts)) = mset (plain_entries kvs)" using tagged_props(6) [OF assms(1,2)] by simp
  then obtain ps where ps: "mset ps = mset kvs" "rev (map snd ts) = plain_entries ps"
    using permuted_map [of "rev (map snd ts)" "\<lambda>(k, v). (k, entry_new (DString v))" kvs] by (auto simp: plain_entries_def)
  then have "sharded_is clk s (m ++ map_of (plain_entries ps))" using assms(3) by (simp add: upd_pairs_rev)
  then have "ks_is lims clk s (A ++ map_of (plain_pairs ps))" using assms(4) by (rule ks_is_updates)
  then show ?thesis using ps(1) by (auto simp: mset_rel_def)
qed

lemma mset_ok:
  assumes "sort_laws srt" and "kvs \<noteq> []" and "ks_is lims clk s A"
  shows "\<exists>s' A'. sh_mset srt (plain_entries kvs) s = Some s' \<and> mset_rel kvs A A' \<and> ks_is lims clk s' A'"
proof -
  from assms(3) obtain m where m: "sharded_is clk s m" "\<And>k. ent_is lims (m k) (A k)" by (auto simp: ks_is_def)
  obtain ts si where t: "tag_and_sort_pairs srt (sh_num s) (plain_entries kvs) = (ts, si)" by force
  have "plain_entries kvs \<noteq> []" using assms(2) by (simp add: plain_entries_def)
  from sh_mset_upd [OF m(1) assms(1) t this] obtain s' where
    "sh_mset srt (plain_entries kvs) s = Some s'" "sharded_is clk s' (upd_pairs ts m)" by blast
  then show ?thesis using written_pairs [where m = m and A = A, OF assms(1) t _ m(2)] by blast
qed

definition all_free :: "nat \<Rightarrow> pairs \<Rightarrow> keyspace \<Rightarrow> bool" where
  "all_free now kvs A \<longleftrightarrow> (\<forall>k \<in> fst ` set kvs. alive now (A k) = None)"

lemma msetnx_ok:
  assumes "sort_laws srt" and "kvs \<noteq> []" and "ks_is lims clk s A"
  shows "\<exists>s' A'. sh_msetnx srt now (plain_entries kvs) s = Some (all_free now kvs A, s')
    \<and> (if all_free now kvs A then mset_rel kvs A A' else A' = A) \<and> ks_is lims clk s' A'"
proof -
  from assms(3) obtain m where m: "sharded_is clk s m" "\<And>k. ent_is lims (m k) (A k)" by (auto simp: ks_is_def)
  obtain ts si where t: "tag_and_sort_pairs srt (sh_num s) (plain_entries kvs) = (ts, si)" by force
  have ne: "plain_entries kvs \<noteq> []" using assms(2) by (simp add: plain_entries_def)
  have "live_entry now (m k) = None \<longleftrightarrow> alive now (A k) = None" for k
    using ent_is_alive [OF m(2), of now k] by (cases "live_entry now (m k)") auto
  then have f: "(\<forall>k \<in> fst ` set (plain_entries kvs). live_entry now (m k) = None) = all_free now kvs A"
    by (auto simp: all_free_def plain_entries_def image_image case_prod_beta)
  from sh_msetnx_upd [OF m(1) assms(1) t ne, of now, unfolded f] obtain s' where
    s': "sh_msetnx srt now (plain_entries kvs) s = Some (all_free now kvs A, s')"
      "sharded_is clk s' (if all_free now kvs A then upd_pairs ts m else m)" by blast
  show ?thesis
  proof (cases "all_free now kvs A")
    case True
    then show ?thesis using s' written_pairs [where m = m and A = A, OF assms(1) t _ m(2)] by auto
  next
    case False
    then have "ks_is lims clk s' A" using s'(2) m(2) by (auto simp: ks_is_def)
    then show ?thesis using s'(1) False by auto
  qed
qed

section \<open>The commands\<close>

datatype expiry_word = TtlSecs int | TtlMs int | AtSecs int | AtMs int

datatype set_word = WExpiry expiry_word | WNX | WXX | WGet | WKeepTtl | WIfEq bytes | WIfGt bytes | WIfLt bytes

datatype str_cmd =
    SSet bytes bytes "set_word list" | SGet bytes | SStrlen bytes | SGetRange bytes int int | SMGet "bytes list"
  | SGetSet bytes bytes | SGetDel bytes | SGetEx bytes "expiry_word option option" | SSetNX bytes bytes
  | SSetEx bytes int bytes | SPSetEx bytes int bytes | SIncr bytes | SDecr bytes | SIncrBy bytes int | SDecrBy bytes int
  | SIncrByFloat bytes bytes | SAppend bytes bytes | SSetRange bytes int bytes | SMSet pairs | SMSetNX pairs

fun expiry_words_of :: "expiry_word \<Rightarrow> bytes list" where
  "expiry_words_of (TtlSecs n) = [asc ''EX'', dec_int n]"
| "expiry_words_of (TtlMs n) = [asc ''PX'', dec_int n]"
| "expiry_words_of (AtSecs n) = [asc ''EXAT'', dec_int n]"
| "expiry_words_of (AtMs n) = [asc ''PXAT'', dec_int n]"

fun expiry_word_arg :: "expiry_word \<Rightarrow> int" where
  "expiry_word_arg (TtlSecs n) = n"
| "expiry_word_arg (TtlMs n) = n"
| "expiry_word_arg (AtSecs n) = n"
| "expiry_word_arg (AtMs n) = n"

text \<open>A time to live counts from now and is positive; a time of expiry is absolute and not negative.\<close>

fun expiry_word_time :: "nat \<Rightarrow> expiry_word \<Rightarrow> expiry option" where
  "expiry_word_time now (TtlSecs n) = (if n \<le> 0 then None else Some (now + nat n * 1000))"
| "expiry_word_time now (TtlMs n) = (if n \<le> 0 then None else Some (now + nat n))"
| "expiry_word_time now (AtSecs n) = (if n < 0 then None else Some (nat n * 1000))"
| "expiry_word_time now (AtMs n) = (if n < 0 then None else Some (nat n))"

definition expiry_word_result :: "bytes \<Rightarrow> nat \<Rightarrow> expiry_word \<Rightarrow> expiry result" where
  "expiry_word_result cmd now w = (case expiry_word_time now w of
     None \<Rightarrow> Inl (Generic (asc ''invalid expire time in '' @ cmd)) | Some x \<Rightarrow> Inr x)"

fun set_words_of :: "set_word \<Rightarrow> bytes list" where
  "set_words_of (WExpiry w) = expiry_words_of w"
| "set_words_of WNX = [asc ''NX'']"
| "set_words_of WXX = [asc ''XX'']"
| "set_words_of WGet = [asc ''GET'']"
| "set_words_of WKeepTtl = [asc ''KEEPTTL'']"
| "set_words_of (WIfEq v) = [asc ''IFEQ'', v]"
| "set_words_of (WIfGt v) = [asc ''IFGT'', v]"
| "set_words_of (WIfLt v) = [asc ''IFLT'', v]"

fun set_word_apply :: "nat \<Rightarrow> set_word \<Rightarrow> set_opts \<Rightarrow> set_opts result" where
  "set_word_apply now (WExpiry w) op = map_sum id (\<lambda>x. op\<lparr>so_expiry := Some x\<rparr>) (expiry_word_result (asc ''SET'') now w)"
| "set_word_apply now WNX op = Inr (op\<lparr>so_nx := True\<rparr>)"
| "set_word_apply now WXX op = Inr (op\<lparr>so_xx := True\<rparr>)"
| "set_word_apply now WGet op = Inr (op\<lparr>so_get := True\<rparr>)"
| "set_word_apply now WKeepTtl op = Inr (op\<lparr>so_keepttl := True\<rparr>)"
| "set_word_apply now (WIfEq v) op = Inr (op\<lparr>so_ifeq := Some v\<rparr>)"
| "set_word_apply now (WIfGt v) op = Inr (op\<lparr>so_ifgt := Some v\<rparr>)"
| "set_word_apply now (WIfLt v) op = Inr (op\<lparr>so_iflt := Some v\<rparr>)"

fun set_words_apply :: "nat \<Rightarrow> set_word list \<Rightarrow> set_opts \<Rightarrow> set_opts result" where
  "set_words_apply now [] op = Inr op"
| "set_words_apply now (w # ws) op = attempt_e (set_word_apply now w op) (set_words_apply now ws)"

fun set_word_ok :: "set_word \<Rightarrow> bool" where
  "set_word_ok (WExpiry w) \<longleftrightarrow> i64_ok (expiry_word_arg w)"
| "set_word_ok _ \<longleftrightarrow> True"

lemma set_option_upper:
  "to_uppercase (asc ''EX'') = asc ''EX''" "to_uppercase (asc ''PX'') = asc ''PX''" "to_uppercase (asc ''EXAT'') = asc ''EXAT''"
  "to_uppercase (asc ''PXAT'') = asc ''PXAT''" "to_uppercase (asc ''NX'') = asc ''NX''" "to_uppercase (asc ''XX'') = asc ''XX''"
  "to_uppercase (asc ''GET'') = asc ''GET''" "to_uppercase (asc ''KEEPTTL'') = asc ''KEEPTTL''" "to_uppercase (asc ''IFEQ'') = asc ''IFEQ''"
  "to_uppercase (asc ''IFGT'') = asc ''IFGT''" "to_uppercase (asc ''IFLT'') = asc ''IFLT''" "to_uppercase (asc ''PERSIST'') = asc ''PERSIST''"
  by code_simp+

lemma set_option_valid:
  "utf8_valid (asc ''EX'')" "utf8_valid (asc ''PX'')" "utf8_valid (asc ''EXAT'')" "utf8_valid (asc ''PXAT'')" "utf8_valid (asc ''NX'')"
  "utf8_valid (asc ''XX'')" "utf8_valid (asc ''GET'')" "utf8_valid (asc ''KEEPTTL'')" "utf8_valid (asc ''IFEQ'')" "utf8_valid (asc ''IFGT'')"
  "utf8_valid (asc ''IFLT'')" "utf8_valid (asc ''PERSIST'')"
  by code_simp+

lemma set_option_distinct:
  "distinct [asc ''EX'', asc ''PX'', asc ''EXAT'', asc ''PXAT'', asc ''NX'', asc ''XX'', asc ''GET'', asc ''KEEPTTL'', asc ''IFEQ'', asc ''IFGT'', asc ''IFLT'', asc ''PERSIST'']"
  "distinct [asc ''PERSIST'', asc ''IFLT'', asc ''IFGT'', asc ''IFEQ'', asc ''KEEPTTL'', asc ''GET'', asc ''XX'', asc ''NX'', asc ''PXAT'', asc ''EXAT'', asc ''PX'', asc ''EX'']"
  by code_simp+

lemmas set_option_words = set_option_upper set_option_valid set_option_distinct [simplified]

lemma expiry_arg_words:
  assumes "i64_ok (expiry_word_arg w)" and "expiry_words_of w = [opt, n]"
  shows "opt \<in> set expiry_words \<and> to_uppercase opt = opt \<and> utf8_valid opt
    \<and> (\<forall>args i. index args i = Some (BulkString (Some n)) \<longrightarrow> expiry_arg E opt args i cmd = expiry_word_result cmd (env_now E) w)"
  using assms
  by (cases w) (auto simp: expiry_arg_def get_i64_def get_str_def ok_or_arity_def word_simps set_option_words expiry_word_result_def Let_def
      expiry_from_duration_def expiry_from_secs_def expiry_from_ms_def)

lemma expiry_words_two: obtains opt n where "expiry_words_of w = [opt, n]"
  by (cases w) auto

lemma set_options_step:
  assumes "set_word_ok w"
  shows "set_options E (bulks (set_words_of w) @ rest) op = attempt_e (set_word_apply (env_now E) w op) (set_options E rest)"
proof (cases w)
  case (WExpiry x)
  obtain opt n where x: "expiry_words_of x = [opt, n]" by (rule expiry_words_two)
  have l: "opt \<in> set expiry_words" "to_uppercase opt = opt" "utf8_valid opt"
    "expiry_arg E opt (BulkString (Some n) # rest) 0 (asc ''SET'') = expiry_word_result (asc ''SET'') (env_now E) x"
    using expiry_arg_words [OF _ x, of E "asc ''SET''"] assms WExpiry by (auto simp: index_def)
  show ?thesis using l by (simp add: WExpiry x get_str_def ok_or_arity_def index_def Let_def attempt_e_def split: sum.split)
qed (simp_all add: get_str_def get_bytes_vec_def ok_or_arity_def index_def Let_def set_option_words)

lemma set_options_words:
  "list_all set_word_ok ws \<Longrightarrow> set_options E (bulks (concat (map set_words_of ws))) op = set_words_apply (env_now E) ws op"
proof (induction ws arbitrary: op)
  case (Cons w ws)
  then show ?case using set_options_step [of w E "bulks (concat (map set_words_of ws))" op]
    by (simp add: attempt_e_def split: sum.split)
qed simp

fun str_words :: "str_cmd \<Rightarrow> bytes list" where
  "str_words (SSet key v ws) = [asc ''SET'', key, v] @ concat (map set_words_of ws)"
| "str_words (SGet key) = [asc ''GET'', key]"
| "str_words (SStrlen key) = [asc ''STRLEN'', key]"
| "str_words (SGetRange key i j) = [asc ''GETRANGE'', key, dec_int i, dec_int j]"
| "str_words (SMGet keys) = asc ''MGET'' # keys"
| "str_words (SGetSet key v) = [asc ''GETSET'', key, v]"
| "str_words (SGetDel key) = [asc ''GETDEL'', key]"
| "str_words (SGetEx key w) = [asc ''GETEX'', key] @ (case w of None \<Rightarrow> [] | Some None \<Rightarrow> [asc ''PERSIST''] | Some (Some x) \<Rightarrow> expiry_words_of x)"
| "str_words (SSetNX key v) = [asc ''SETNX'', key, v]"
| "str_words (SSetEx key n v) = [asc ''SETEX'', key, dec_int n, v]"
| "str_words (SPSetEx key n v) = [asc ''PSETEX'', key, dec_int n, v]"
| "str_words (SIncr key) = [asc ''INCR'', key]"
| "str_words (SDecr key) = [asc ''DECR'', key]"
| "str_words (SIncrBy key n) = [asc ''INCRBY'', key, dec_int n]"
| "str_words (SDecrBy key n) = [asc ''DECRBY'', key, dec_int n]"
| "str_words (SIncrByFloat key x) = [asc ''INCRBYFLOAT'', key, x]"
| "str_words (SAppend key v) = [asc ''APPEND'', key, v]"
| "str_words (SSetRange key n v) = [asc ''SETRANGE'', key, dec_int n, v]"
| "str_words (SMSet kvs) = asc ''MSET'' # flat kvs"
| "str_words (SMSetNX kvs) = asc ''MSETNX'' # flat kvs"

fun str_wf :: "str_cmd \<Rightarrow> bool" where
  "str_wf (SSet key v ws) \<longleftrightarrow> list_all set_word_ok ws"
| "str_wf (SGetRange key i j) \<longleftrightarrow> i64_ok i \<and> i64_ok j"
| "str_wf (SMGet keys) \<longleftrightarrow> keys \<noteq> []"
| "str_wf (SGetEx key w) \<longleftrightarrow> (case w of Some (Some x) \<Rightarrow> i64_ok (expiry_word_arg x) | _ \<Rightarrow> True)"
| "str_wf (SSetEx key n v) \<longleftrightarrow> i64_ok n"
| "str_wf (SPSetEx key n v) \<longleftrightarrow> i64_ok n"
| "str_wf (SIncrBy key n) \<longleftrightarrow> i64_ok n"
| "str_wf (SDecrBy key n) \<longleftrightarrow> i64_ok n"
| "str_wf (SIncrByFloat key x) \<longleftrightarrow> utf8_valid x"
| "str_wf (SSetRange key n v) \<longleftrightarrow> i64_ok n"
| "str_wf (SMSet kvs) \<longleftrightarrow> kvs \<noteq> []"
| "str_wf (SMSetNX kvs) \<longleftrightarrow> kvs \<noteq> []"
| "str_wf _ \<longleftrightarrow> True"

fun str_handler :: "(tagged_pair list \<Rightarrow> tagged_pair list) \<Rightarrow> str_cmd \<Rightarrow> env \<Rightarrow> resp list \<Rightarrow> resp handler" where
  "str_handler srt (SSet key v ws) = cmd_set"
| "str_handler srt (SGet key) = cmd_get"
| "str_handler srt (SStrlen key) = cmd_strlen"
| "str_handler srt (SGetRange key i j) = cmd_getrange"
| "str_handler srt (SMGet keys) = cmd_mget"
| "str_handler srt (SGetSet key v) = cmd_getset"
| "str_handler srt (SGetDel key) = cmd_getdel"
| "str_handler srt (SGetEx key w) = cmd_getex"
| "str_handler srt (SSetNX key v) = cmd_setnx"
| "str_handler srt (SSetEx key n v) = cmd_setex"
| "str_handler srt (SPSetEx key n v) = cmd_psetex"
| "str_handler srt (SIncr key) = cmd_incr"
| "str_handler srt (SDecr key) = cmd_decr"
| "str_handler srt (SIncrBy key n) = cmd_incrby"
| "str_handler srt (SDecrBy key n) = cmd_decrby"
| "str_handler srt (SIncrByFloat key x) = cmd_incrbyfloat"
| "str_handler srt (SAppend key v) = cmd_append"
| "str_handler srt (SSetRange key n v) = cmd_setrange"
| "str_handler srt (SMSet kvs) = cmd_mset srt"
| "str_handler srt (SMSetNX kvs) = cmd_msetnx srt"

definition str_exec :: "(tagged_pair list \<Rightarrow> tagged_pair list) \<Rightarrow> env \<Rightarrow> str_cmd \<Rightarrow> resp handler" where
  "str_exec srt E c = str_handler srt c E (bulks (str_words c))"

text \<open>An effect on one key.\<close>

definition at_key :: "bytes \<Rightarrow> effect \<Rightarrow> keyspace \<Rightarrow> resp result \<Rightarrow> keyspace \<Rightarrow> bool" where
  "at_key key eff A r A' \<longleftrightarrow> r = fst (eff (A key)) \<and> A' = A(key := snd (eff (A key)))"

definition refused :: "nexrade_error \<Rightarrow> keyspace \<Rightarrow> resp result \<Rightarrow> keyspace \<Rightarrow> bool" where
  "refused e A r A' \<longleftrightarrow> r = Inl e \<and> A' = A"

definition setex_effect :: "nat \<Rightarrow> bytes \<Rightarrow> effect" where
  "setex_effect t v c = (Inr resp_ok, Some (AStr v, Some t))"

fun str_spec :: "env \<Rightarrow> str_cmd \<Rightarrow> keyspace \<Rightarrow> resp result \<Rightarrow> keyspace \<Rightarrow> bool" where
  "str_spec E (SSet key v ws) A r A' \<longleftrightarrow> (case set_words_apply (env_now E) ws no_set_opts of
     Inl e \<Rightarrow> refused e A r A'
   | Inr op \<Rightarrow>
       if cond_count op > 1 \<or> cond_count op = 1 \<and> (so_nx op \<or> so_xx op) then refused SyntaxError A r A'
       else at_key key (set_effect (env_now E) v op) A r A')"
| "str_spec E (SGet key) A r A' \<longleftrightarrow> A' = A \<and> r = view_str (env_now E) key resp_null resp_bulk A"
| "str_spec E (SStrlen key) A r A' \<longleftrightarrow> A' = A \<and> r = view_str (env_now E) key (resp_int 0) (\<lambda>v. resp_int (int (length v))) A"
| "str_spec E (SGetRange key i j) A r A' \<longleftrightarrow>
     A' = A \<and> r = view_str (env_now E) key (resp_bulk []) (\<lambda>v. resp_bulk (getrange_of i j v)) A"
| "str_spec E (SMGet keys) A r A' \<longleftrightarrow> A' = A \<and> r = Inr (resp_array (map (\<lambda>k. case str_at (env_now E) (A k) of
      Inl e \<Rightarrow> resp_null | Inr x \<Rightarrow> bulk_or_null x) keys))"
| "str_spec E (SGetSet key v) A r A' \<longleftrightarrow> at_key key (getset_effect (env_now E) v) A r A'"
| "str_spec E (SGetDel key) A r A' \<longleftrightarrow> at_key key getdel_effect A r A'"
| "str_spec E (SGetEx key w) A r A' \<longleftrightarrow> at_key key (getex_effect (env_now E) (case w of
     None \<Rightarrow> Inr None
   | Some None \<Rightarrow> Inr (Some None)
   | Some (Some x) \<Rightarrow> map_sum id (\<lambda>t. Some (Some t)) (expiry_word_result (asc ''GETEX'') (env_now E) x))) A r A'"
| "str_spec E (SSetNX key v) A r A' \<longleftrightarrow> at_key key (setnx_effect (env_now E) v) A r A'"
| "str_spec E (SSetEx key n v) A r A' \<longleftrightarrow>
     (if n \<le> 0 then refused (Generic (asc ''invalid expire time in SETEX'')) A r A'
      else at_key key (setex_effect (env_now E + nat n * 1000) v) A r A')"
| "str_spec E (SPSetEx key n v) A r A' \<longleftrightarrow>
     (if n \<le> 0 then refused (Generic (asc ''invalid expire time in PSETEX'')) A r A'
      else at_key key (setex_effect (env_now E + nat n) v) A r A')"
| "str_spec E (SIncr key) A r A' \<longleftrightarrow> at_key key (incr_effect (env_now E) 1) A r A'"
| "str_spec E (SDecr key) A r A' \<longleftrightarrow> at_key key (incr_effect (env_now E) (- 1)) A r A'"
| "str_spec E (SIncrBy key n) A r A' \<longleftrightarrow> at_key key (incr_effect (env_now E) n) A r A'"
| "str_spec E (SDecrBy key n) A r A' \<longleftrightarrow> at_key key (incr_effect (env_now E) (wrapping_neg n)) A r A'"
| "str_spec E (SIncrByFloat key x) A r A' \<longleftrightarrow> (case parse_f64 x of
     None \<Rightarrow> refused NotFloat A r A'
   | Some delta \<Rightarrow> at_key key (rewrite_effect (env_now E) (incrbyfloat_to delta)) A r A')"
| "str_spec E (SAppend key v) A r A' \<longleftrightarrow> at_key key (rewrite_effect (env_now E) (append_to v)) A r A'"
| "str_spec E (SSetRange key n v) A r A' \<longleftrightarrow>
     (if n < 0 then refused (Generic (asc ''offset is out of range'')) A r A'
      else if n > int MAX_SETRANGE_OFFSET then refused (Generic (asc ''string exceeds maximum allowed size (512MB)'')) A r A'
      else at_key key (rewrite_effect (env_now E) (setrange_to (nat n) v)) A r A')"
| "str_spec E (SMSet kvs) A r A' \<longleftrightarrow> r = Inr resp_ok \<and> mset_rel kvs A A'"
| "str_spec E (SMSetNX kvs) A r A' \<longleftrightarrow>
     r = Inr (resp_int (of_bool (all_free (env_now E) kvs A))) \<and> (if all_free (env_now E) kvs A then mset_rel kvs A A' else A' = A)"

section \<open>Every command implements its specification\<close>

lemma key_prog_at:
  assumes "key_prog lims key oper eff" and "ks_is lims clk (cs_db s) A" and "exec = on_key key oper s"
  shows "\<exists>r s' A'. exec = Some (r, s') \<and> at_key key eff A r A' \<and> ks_is lims clk (cs_db s') A'"
  using key_prog.prog_on_key [OF assms(1,2)] assms(3) by (auto simp: at_key_def)

lemma refused_at:
  "ks_is lims clk (cs_db s) A \<Longrightarrow> exec = fail e s \<Longrightarrow> \<exists>r s' A'. exec = Some (r, s') \<and> refused e A r A' \<and> ks_is lims clk (cs_db s') A'"
  by (auto simp: refused_def fail_def)

lemma setex_prog: "key_prog lims key (seq (put_value key (entry_with_expiry (DString v) t)) (\<lambda>_. ret (Inr resp_ok))) (setex_effect t v)"
  by (rule prog_conseq, (rule string_rules)+) (simp add: prog_defs setex_effect_def)

lemma set_law:
  assumes "env_ok lims E" and "list_all set_word_ok ws" and "ks_is lims clk (cs_db s) A"
  shows "\<exists>r s' A'. str_exec srt E (SSet key v ws) s = Some (r, s') \<and> str_spec E (SSet key v ws) A r A' \<and> ks_is lims clk (cs_db s') A'"
proof -
  have x: "str_exec srt E (SSet key v ws) = attempt (set_words_apply (env_now E) ws no_set_opts) (\<lambda>op.
      if cond_count op > 1 \<or> cond_count op = 1 \<and> (so_nx op \<or> so_xx op) then fail SyntaxError
      else if set_plain_opts op then on_key key (\<lambda>d. Some (Inr resp_ok, db_set_plain (env_now E) key v d))
      else on_key key (set_flagged E key v op))"
    using set_options_words [OF assms(2), of E no_set_opts] by (simp add: str_exec_def cmd_set_def index_def)
  show ?thesis
  proof (cases "set_words_apply (env_now E) ws no_set_opts")
    case (Inl e)
    then show ?thesis using refused_at [OF assms(3)] by (simp add: x)
  next
    case (Inr op)
    show ?thesis
    proof (cases "cond_count op > 1 \<or> cond_count op = 1 \<and> (so_nx op \<or> so_xx op)")
      case True
      then show ?thesis using refused_at [OF assms(3)] Inr by (simp add: x)
    next
      case False
      then have c: "cond_count op = 0 \<or> \<not> so_nx op \<and> \<not> so_xx op" by auto
      have sp: "str_spec E (SSet key v ws) A r A' = at_key key (set_effect (env_now E) v op) A r A'" for r A'
        using False Inr by auto
      show ?thesis
      proof (cases "set_plain_opts op")
        case True
        then have "str_exec srt E (SSet key v ws) s = on_key key (\<lambda>d. Some (Inr resp_ok, db_set_plain (env_now E) key v d)) s"
          using False Inr by (auto simp: x)
        then show ?thesis unfolding sp by (rule key_prog_at [OF set_plain_ok [OF True] assms(3)])
      next
        case f: False
        then have "str_exec srt E (SSet key v ws) s = on_key key (set_flagged E key v op) s"
          using False Inr by (auto simp: x)
        then show ?thesis unfolding sp by (rule key_prog_at [OF set_flagged_ok [OF assms(1) c] assms(3)])
      qed
    qed
  qed
qed

lemma str_incr_law:
  assumes "i64_ok delta" and "ks_is lims clk (cs_db s) A" and "index args 1 = Some (BulkString (Some key))" and "length args \<ge> 2"
  shows "\<exists>r s' A'. incr_by E args delta cmd s = Some (r, s') \<and> at_key key (incr_effect (env_now E) delta) A r A' \<and> ks_is lims clk (cs_db s') A'"
proof -
  from incr_ok [OF assms(1,2), of E key] obtain db where
    db: "sh_incr_int (env_now E) key delta (cs_db s) = Some (incremented (env_now E) delta (A key), db)"
      "ks_is lims clk db (A(key := snd (incr_effect (env_now E) delta (A key))))" by blast
  have "map_sum id resp_int (incremented (env_now E) delta (A key)) = fst (incr_effect (env_now E) delta (A key))"
    by (simp add: incr_effect_def split: sum.split)
  then show ?thesis using db assms(3,4) by (auto simp: incr_by_def get_bytes_vec_def ok_or_arity_def at_key_def)
qed

lemma getex_option_words:
  assumes "str_wf (SGetEx key w)"
  shows "getex_option E (bulks (str_words (SGetEx key w))) = (case w of
     None \<Rightarrow> Inr None
   | Some None \<Rightarrow> Inr (Some None)
   | Some (Some x) \<Rightarrow> map_sum id (\<lambda>t. Some (Some t)) (expiry_word_result (asc ''GETEX'') (env_now E) x))"
proof (cases "\<exists>x. w = Some (Some x)")
  case True
  then obtain x where w: "w = Some (Some x)" by blast
  obtain opt n where x: "expiry_words_of x = [opt, n]" by (rule expiry_words_two)
  have l: "opt \<in> set expiry_words" "to_uppercase opt = opt" "utf8_valid opt"
    "expiry_arg E opt (bulks [asc ''GETEX'', key, opt, n]) 3 (asc ''GETEX'') = expiry_word_result (asc ''GETEX'') (env_now E) x"
    using expiry_arg_words [OF _ x, of E "asc ''GETEX''"] assms w by (auto simp: index_def)
  show ?thesis using l(1,2,3) l(4) [simplified] by (simp add: w x getex_option_def get_str_def ok_or_arity_def index_def Let_def)
next
  case False
  then show ?thesis using assms
    by (auto simp: getex_option_def get_str_def ok_or_arity_def index_def Let_def set_option_words split: option.splits)
qed

lemma string_readers_law:
  assumes "env_ok lims E" and "str_wf c" and "ks_is lims clk (cs_db s) A"
    and "c = SGet key \<or> c = SStrlen key \<or> c = SGetRange key i j \<or> c = SMGet keys"
  shows "\<exists>r s' A'. str_exec srt E c s = Some (r, s') \<and> str_spec E c A r A' \<and> ks_is lims clk (cs_db s') A'"
proof -
  note v = view_str_ok [OF assms(1,3)] and u = assms(3)
  have e: "resp_bulk_str [] = resp_bulk []" by (simp add: resp_bulk_str_def resp_bulk_def)
  have m: "keys \<noteq> [] \<Longrightarrow> str_exec srt E (SMGet keys) s = mget_loop E (bulks keys) [] s"
    by (cases keys) (simp_all add: str_exec_def cmd_mget_def)
  from assms(4) show ?thesis
  proof (elim disjE)
    assume "c = SGet key"
    then show ?thesis using u v [of key resp_null resp_bulk] by (simp add: str_exec_def cmd_get_def index_def)
  next
    assume "c = SStrlen key"
    then show ?thesis using u v [of key "resp_int 0"] by (simp add: str_exec_def cmd_strlen_def arg_defs)
  next
    assume "c = SGetRange key i j"
    then show ?thesis using u v [of key "resp_bulk []" "range_of i j"] assms(2)
      by (simp add: str_exec_def cmd_getrange_def arg_defs e range_of_is [abs_def])
  next
    assume c: "c = SMGet keys"
    then show ?thesis using u m assms(2) mget_loop_ok [OF assms(1,3), of keys "[]"] by simp
  qed
qed

lemma string_command_law:
  assumes "sort_laws srt" and "env_ok lims E" and "str_wf c" and "ks_is lims clk (cs_db s) A"
  shows "\<exists>r s' A'. str_exec srt E c s = Some (r, s') \<and> str_spec E c A r A' \<and> ks_is lims clk (cs_db s') A'"
proof (cases c)
  case (SSet key v ws)
  then show ?thesis using set_law [OF assms(2) _ assms(4)] assms(3) by simp
next
  case (SGetSet key v)
  show ?thesis unfolding SGetSet str_spec.simps
    by (rule key_prog_at [OF getset_prog_ok [OF assms(2)] assms(4)]) (simp add: str_exec_def cmd_getset_def arg_defs)
next
  case (SGetDel key)
  show ?thesis unfolding SGetDel str_spec.simps
    by (rule key_prog_at [OF getdel_prog_ok [OF assms(2)] assms(4)]) (simp add: str_exec_def cmd_getdel_def arg_defs)
next
  case (SGetEx key w)
  have o: "getex_option E (bulks (str_words c)) = (case w of None \<Rightarrow> Inr None | Some None \<Rightarrow> Inr (Some None)
     | Some (Some x) \<Rightarrow> map_sum id (\<lambda>t. Some (Some t)) (expiry_word_result (asc ''GETEX'') (env_now E) x))"
    using getex_option_words assms(3) unfolding SGetEx by blast
  have "str_exec srt E c s = on_key key (getex_prog E key (getex_option E (bulks (str_words c)))) s"
    by (simp add: SGetEx str_exec_def cmd_getex_def get_bytes_vec_def ok_or_arity_def index_def)
  then show ?thesis unfolding o unfolding SGetEx str_spec.simps by (rule key_prog_at [OF getex_prog_ok [OF assms(2)] assms(4)])
next
  case (SSetNX key v)
  show ?thesis unfolding SSetNX str_spec.simps
    by (rule key_prog_at [OF setnx_prog_ok assms(4)]) (simp add: str_exec_def cmd_setnx_def arg_defs)
next
  case (SSetEx key n v)
  have e: "asc ''invalid expire time in '' @ asc ''SETEX'' = asc ''invalid expire time in SETEX''" by code_simp
  show ?thesis
    using assms(3) refused_at [OF assms(4)] key_prog_at [OF setex_prog [of lims key v "env_now E + nat n * 1000"] assms(4) refl]
    by (cases "n \<le> 0") (simp_all add: SSetEx str_exec_def cmd_setex_def set_expiring_def arg_defs e expiry_from_duration_def)
next
  case (SPSetEx key n v)
  have e: "asc ''invalid expire time in '' @ asc ''PSETEX'' = asc ''invalid expire time in PSETEX''" by code_simp
  show ?thesis
    using assms(3) refused_at [OF assms(4)] key_prog_at [OF setex_prog [of lims key v "env_now E + nat n"] assms(4) refl]
    by (cases "n \<le> 0") (simp_all add: SPSetEx str_exec_def cmd_psetex_def set_expiring_def arg_defs e expiry_from_duration_def)
next
  case (SIncr key)
  then show ?thesis using str_incr_law [of 1, OF _ assms(4)] by (simp add: str_exec_def cmd_incr_def index_def i64_ok_def)
next
  case (SDecr key)
  then show ?thesis using str_incr_law [of "- 1", OF _ assms(4)] by (simp add: str_exec_def cmd_decr_def index_def i64_ok_def)
next
  case (SIncrBy key n)
  then show ?thesis using str_incr_law [of n, OF _ assms(4)] assms(3) by (simp add: str_exec_def cmd_incrby_def arg_defs)
next
  case (SDecrBy key n)
  then have "i64_ok (wrapping_neg n)" using assms(3) by (simp add: wrapping_neg_def i64_ok_def)
  then show ?thesis using SDecrBy str_incr_law [of "wrapping_neg n", OF _ assms(4)] assms(3) by (simp add: str_exec_def cmd_decrby_def arg_defs)
next
  case (SIncrByFloat key x)
  have g: "get_f64 (bulks (str_words c)) 2 (asc ''INCRBYFLOAT'') = (case parse_f64 x of Some v \<Rightarrow> Inr v | None \<Rightarrow> Inl NotFloat)"
    using assms(3) by (simp add: SIncrByFloat get_f64_def arg_defs)
  show ?thesis
    using refused_at [OF assms(4)] key_prog_at [OF incrbyfloat_prog_ok [OF assms(2)] assms(4) refl] g
    by (cases "parse_f64 x") (simp_all add: SIncrByFloat str_exec_def cmd_incrbyfloat_def get_bytes_vec_def ok_or_arity_def index_def)
next
  case (SAppend key v)
  show ?thesis unfolding SAppend str_spec.simps
    by (rule key_prog_at [OF append_prog_ok [OF assms(2)] assms(4)]) (simp add: str_exec_def cmd_append_def arg_defs)
next
  case (SSetRange key n v)
  show ?thesis
    using assms(3) refused_at [OF assms(4)] key_prog_at [OF setrange_prog_ok [OF assms(2)] assms(4) refl]
    by (cases "n < 0"; cases "n > int MAX_SETRANGE_OFFSET") (simp_all add: SSetRange str_exec_def cmd_setrange_def arg_defs)
next
  case (SMSet kvs)
  then obtain p ps where kvs: "kvs = p # ps" using assms(3) by (cases kvs) auto
  have "str_exec srt E c s = map_option (\<lambda>db. (Inr resp_ok, s\<lparr>cs_db := db\<rparr>)) (sh_mset srt (plain_entries kvs) (cs_db s))"
    using mset_pairs_words [of "asc ''mset''" kvs] by (simp add: SMSet kvs str_exec_def cmd_mset_def flat_Cons del: mset_pairs.simps)
  then show ?thesis using mset_ok [OF assms(1) _ assms(4), of kvs] SMSet kvs by auto
next
  case (SMSetNX kvs)
  then obtain p ps where kvs: "kvs = p # ps" using assms(3) by (cases kvs) auto
  have "str_exec srt E c s = map_option (\<lambda>(ok, db). (Inr (resp_int (if ok then 1 else 0)), s\<lparr>cs_db := db\<rparr>))
      (sh_msetnx srt (env_now E) (plain_entries kvs) (cs_db s))"
    using mset_pairs_words [of "asc ''msetnx''" kvs] by (simp add: SMSetNX kvs str_exec_def cmd_msetnx_def flat_Cons del: mset_pairs.simps)
  moreover from msetnx_ok [OF assms(1) _ assms(4), of kvs "env_now E"] kvs obtain db A' where
    l: "sh_msetnx srt (env_now E) (plain_entries kvs) (cs_db s) = Some (all_free (env_now E) kvs A, db)"
      "if all_free (env_now E) kvs A then mset_rel kvs A A' else A' = A" "ks_is lims clk db A'" by blast
  ultimately have "str_exec srt E c s = Some (Inr (resp_int (of_bool (all_free (env_now E) kvs A))), s\<lparr>cs_db := db\<rparr>)" by simp
  then show ?thesis using l(2,3) unfolding SMSetNX str_spec.simps by (intro exI conjI) (assumption | simp)+
qed (use string_readers_law [OF assms(2,3,4)] in blast)+

interpretation stc: command_rel lims "\<lambda>c. sort_laws srt \<and> str_wf c" "str_exec srt" str_spec for lims srt
  by unfold_locales (use string_command_law in blast)

end
