(* ===== verification/Lcs.thy ===== *)
theory Lcs
  imports String_Spec "HOL-Library.Sublist"
begin

text \<open>
  LCS (\<^verbatim>\<open>command/string.rs\<close>): the table of \<^verbatim>\<open>compute_lcs\<close>, the walk back through it, the ranges of
  matching positions and the command. The result is a longest common subsequence of the two values, and the
  ranges are matching parts of both whose bytes, one after another, are the subsequence.
\<close>

section \<open>The table and the walk back\<close>

type_synonym table = "nat list list"

definition dp_at :: "table \<Rightarrow> nat \<Rightarrow> nat \<Rightarrow> nat" where
  "dp_at dp i j = dp ! i ! j"

definition dp_set :: "nat \<Rightarrow> nat \<Rightarrow> nat \<Rightarrow> table \<Rightarrow> table" where
  "dp_set i j v dp = dp[i := (dp ! i)[j := v]]"

definition dp_step :: "bytes \<Rightarrow> bytes \<Rightarrow> nat \<Rightarrow> nat \<Rightarrow> table \<Rightarrow> table" where
  "dp_step a b i j dp =
     dp_set i j (if a ! (i - 1) = b ! (j - 1) then dp_at dp (i - 1) (j - 1) + 1 else max (dp_at dp (i - 1) j) (dp_at dp i (j - 1))) dp"

definition dp_row :: "bytes \<Rightarrow> bytes \<Rightarrow> nat \<Rightarrow> table \<Rightarrow> table" where
  "dp_row a b i = fold (dp_step a b i) [1..<length b + 1]"

definition dp_table :: "bytes \<Rightarrow> bytes \<Rightarrow> table" where
  "dp_table a b = fold (dp_row a b) [1..<length a + 1] (replicate (length a + 1) (replicate (length b + 1) 0))"

fun backtrack :: "bytes \<Rightarrow> bytes \<Rightarrow> table \<Rightarrow> nat \<Rightarrow> nat \<Rightarrow> (nat \<times> nat) list \<Rightarrow> (nat \<times> nat) list" where
  "backtrack a b dp (Suc i) (Suc j) pairs =
     (if a ! i = b ! j then backtrack a b dp i j (pairs @ [(i, j)])
      else if dp_at dp i (Suc j) \<ge> dp_at dp (Suc i) j then backtrack a b dp i (Suc j) pairs
      else backtrack a b dp (Suc i) j pairs)"
| "backtrack a b dp _ _ pairs = pairs"

type_synonym lcs_match = "nat \<times> nat \<times> nat \<times> nat"

fun collapse :: "lcs_match \<Rightarrow> (nat \<times> nat) list \<Rightarrow> lcs_match list \<Rightarrow> lcs_match list" where
  "collapse cur [] matches = matches @ [cur]"
| "collapse (a0, a1, b0, b1) ((ai, bi) # rest) matches =
     (if ai = a1 \<and> bi = b1 then collapse (a0, a1 + 1, b0, b1 + 1) rest matches
      else collapse (ai, ai + 1, bi, bi + 1) rest (matches @ [(a0, a1, b0, b1)]))"

definition lcs_matches :: "(nat \<times> nat) list \<Rightarrow> lcs_match list" where
  "lcs_matches pairs = (case pairs of [] \<Rightarrow> [] | (a0, b0) # rest \<Rightarrow> collapse (a0, a0 + 1, b0, b0 + 1) rest [])"

definition compute_lcs :: "bytes \<Rightarrow> bytes \<Rightarrow> bytes \<times> lcs_match list" where
  "compute_lcs a b =
     (let pairs = rev (backtrack a b (dp_table a b) (length a) (length b) []) in
      (map (\<lambda>(ai, _). a ! ai) pairs, lcs_matches pairs))"

section \<open>The command\<close>

record lcs_opts =
  lo_len :: bool
  lo_idx :: bool
  lo_min :: nat
  lo_withlen :: bool

fun lcs_options :: "resp list \<Rightarrow> lcs_opts \<Rightarrow> lcs_opts result" where
  "lcs_options [] op = Inr op"
| "lcs_options (x # rest) op = attempt_e (get_str (x # rest) 0 (asc ''LCS'')) (\<lambda>w. let opt = to_uppercase w in
     if opt = asc ''LEN'' then lcs_options rest (op\<lparr>lo_len := True\<rparr>)
     else if opt = asc ''IDX'' then lcs_options rest (op\<lparr>lo_idx := True\<rparr>)
     else if opt = asc ''MINMATCHLEN'' then attempt_e (get_i64 rest 0 (asc ''LCS'')) (\<lambda>n.
       if n < 0 then Inl (Generic (asc ''value is not an integer or out of range''))
       else lcs_options (drop 1 rest) (op\<lparr>lo_min := nat n\<rparr>))
     else if opt = asc ''WITHMATCHLEN'' then lcs_options rest (op\<lparr>lo_withlen := True\<rparr>)
     else Inl SyntaxError)"

definition no_lcs_opts :: lcs_opts where
  "no_lcs_opts = \<lparr>lo_len = False, lo_idx = False, lo_min = 0, lo_withlen = False\<rparr>"

definition lcs_row :: "lcs_opts \<Rightarrow> lcs_match \<Rightarrow> resp" where
  "lcs_row op m = (case m of (a0, a1, b0, b1) \<Rightarrow> resp_array
     ([resp_array [resp_int (int a0), resp_int (int (a1 - 1))], resp_array [resp_int (int b0), resp_int (int (b1 - 1))]]
      @ (if lo_withlen op then [resp_int (int (a1 - a0))] else [])))"

definition lcs_reply :: "lcs_opts \<Rightarrow> bytes \<Rightarrow> lcs_match list \<Rightarrow> resp" where
  "lcs_reply op lcs_bytes matches =
     (if lo_len op \<and> \<not> lo_idx op then resp_int (int (length lcs_bytes))
      else if lo_idx op then resp_array
        [resp_bulk_str (asc ''matches''),
         resp_array (map (lcs_row op) (filter (\<lambda>(a0, a1, b0, b1). \<not> a1 - a0 < lo_min op) (rev matches))),
         resp_bulk_str (asc ''len''), resp_int (int (length lcs_bytes))]
      else resp_bulk lcs_bytes)"

definition string_or_empty :: "env \<Rightarrow> bytes \<Rightarrow> bytes handler" where
  "string_or_empty E key = view_ro E key (Inr []) (\<lambda>v. Some (case as_string_bytes (env_itoa E) v of Some b \<Rightarrow> Inr b | None \<Rightarrow> Inl WrongType))"

definition cmd_lcs :: "env \<Rightarrow> resp list \<Rightarrow> resp handler" where
  "cmd_lcs E args =
     (if length args < 3 then fail (WrongArity (asc ''lcs''))
      else attempt (get_bytes_vec args 1 (asc ''LCS'')) (\<lambda>key1.
        attempt (get_bytes_vec args 2 (asc ''LCS'')) (\<lambda>key2.
        attempt (lcs_options (drop 3 args) no_lcs_opts) (\<lambda>op s. do {
          (x, s) \<leftarrow> string_or_empty E key1 s;
          attempt x (\<lambda>a s. do {
            (y, s) \<leftarrow> string_or_empty E key2 s;
            attempt y (\<lambda>b. case compute_lcs a b of (lcs_bytes, matches) \<Rightarrow> reply (lcs_reply op lcs_bytes matches)) s
          }) s
        }))))"

section \<open>The table holds the lengths\<close>

text \<open>The length of a longest common subsequence of two prefixes, by the usual recursion.\<close>

fun lcs_len :: "bytes \<Rightarrow> bytes \<Rightarrow> nat \<Rightarrow> nat \<Rightarrow> nat" where
  "lcs_len a b (Suc i) (Suc j) =
     (if a ! i = b ! j then lcs_len a b i j + 1 else max (lcs_len a b i (Suc j)) (lcs_len a b (Suc i) j))"
| "lcs_len a b _ _ = 0"

lemma lcs_len_0 [simp]: "lcs_len a b 0 j = 0" "lcs_len a b i 0 = 0"
  by (cases j; simp) (cases i; simp)

text \<open>The table of \<open>n\<close> by \<open>m\<close> cells is right in all rows before \<open>i\<close>, in row \<open>i\<close> before \<open>j\<close>, and in row and column 0.\<close>

definition dp_ok :: "bytes \<Rightarrow> bytes \<Rightarrow> nat \<Rightarrow> nat \<Rightarrow> table \<Rightarrow> bool" where
  "dp_ok a b i j dp \<longleftrightarrow> length dp = length a + 1 \<and> (\<forall>r \<in> set dp. length r = length b + 1)
     \<and> (\<forall>p \<le> length a. \<forall>q \<le> length b. p < i \<or> p = i \<and> q < j \<or> q = 0 \<longrightarrow> dp_at dp p q = lcs_len a b p q)"

lemma dp_step_ok:
  assumes "dp_ok a b i j dp" and "0 < i" "i \<le> length a" "0 < j" "j \<le> length b"
  shows "dp_ok a b i (Suc j) (dp_step a b i j dp)"
proof -
  obtain p q where ij: "i = Suc p" "j = Suc q" using assms(2,4) by (metis Suc_pred)
  have len: "length dp = length a + 1" "\<And>r. r < length dp \<Longrightarrow> length (dp ! r) = length b + 1"
    using assms(1) by (auto simp: dp_ok_def)
  have v: "(if a ! (i - 1) = b ! (j - 1) then dp_at dp (i - 1) (j - 1) + 1 else max (dp_at dp (i - 1) j) (dp_at dp i (j - 1))) = lcs_len a b i j"
    using assms by (simp add: ij dp_ok_def)
  have at: "dp_at (dp_set i j x dp) r c = (if r = i \<and> c = j then x else dp_at dp r c)" if "r \<le> length a" "c \<le> length b" for x r c
    using that len assms(3,5) by (auto simp: dp_at_def dp_set_def nth_list_update)
  have "\<forall>r \<in> set (dp_set i j x dp). length r = length b + 1" for x
    using len assms(3) by (auto simp: dp_set_def in_set_conv_nth nth_list_update)
  moreover have "length (dp_set i j x dp) = length a + 1" for x using len by (simp add: dp_set_def)
  ultimately show ?thesis using assms(1) at unfolding dp_step_def v dp_ok_def by (auto simp: less_Suc_eq)
qed

lemma dp_row_ok:
  assumes "dp_ok a b i 1 dp" and "0 < i" "i \<le> length a"
  shows "dp_ok a b (Suc i) 1 (dp_row a b i dp)"
proof -
  have "k \<le> length b \<Longrightarrow> dp_ok a b i (Suc k) (fold (dp_step a b i) [1..<Suc k] dp)" for k
  proof (induction k)
    case (Suc k)
    then show ?case using dp_step_ok [of a b i "Suc k"] assms(2,3) by simp
  qed (use assms in simp)
  from this [of "length b"] have "dp_ok a b i (Suc (length b)) (dp_row a b i dp)" by (simp add: dp_row_def)
  then show ?thesis unfolding dp_ok_def by (metis less_Suc_eq less_Suc_eq_le less_one)
qed

lemma dp_table_ok: "dp_ok a b (Suc (length a)) 1 (dp_table a b)"
proof -
  let ?z = "replicate (length a + 1) (replicate (length b + 1) (0 :: nat))"
  have "dp_at ?z p q = 0" if "p \<le> length a" "q \<le> length b" for p q
    using that by (simp add: dp_at_def nth_replicate del: replicate_Suc)
  then have z: "dp_ok a b 1 1 ?z" by (auto simp: dp_ok_def simp del: replicate_Suc)
  have "k \<le> length a \<Longrightarrow> dp_ok a b (Suc k) 1 (fold (dp_row a b) [1..<Suc k] ?z)" for k
  proof (induction k)
    case (Suc k)
    then show ?case using dp_row_ok [of a b "Suc k"] by simp
  qed (use z in simp)
  from this [of "length a"] show ?thesis by (simp add: dp_table_def)
qed

lemma dp_table_at: "p \<le> length a \<Longrightarrow> q \<le> length b \<Longrightarrow> dp_at (dp_table a b) p q = lcs_len a b p q"
  using dp_table_ok [of a b] by (auto simp: dp_ok_def)

section \<open>The lengths are the largest\<close>

lemma subseq_snoc: "subseq xs (ys @ [y]) \<Longrightarrow> subseq xs ys \<or> (\<exists>xs'. xs = xs' @ [y] \<and> subseq xs' ys)"
proof -
  assume "subseq xs (ys @ [y])"
  then obtain us vs where "xs = us @ vs" "subseq us ys" "subseq vs [y]" by (auto simp: subseq_append_iff)
  then show ?thesis by (cases vs) (auto split: if_splits)
qed

lemma subseq_butlast: "subseq xs (ys @ [y]) \<Longrightarrow> subseq (butlast xs) ys"
  using subseq_snoc [of xs ys y] by (auto intro: subseq_order.trans [OF _ _] simp: prefix_imp_subseq prefixeq_butlast)

lemma common_short:
  "subseq xs (take i a) \<Longrightarrow> subseq xs (take j b) \<Longrightarrow> i \<le> length a \<Longrightarrow> j \<le> length b \<Longrightarrow> length xs \<le> lcs_len a b i j"
proof (induction a b i j arbitrary: xs rule: lcs_len.induct)
  case (1 a b i j)
  have ta: "take (Suc i) a = take i a @ [a ! i]" "take (Suc j) b = take j b @ [b ! j]" using 1 by (simp_all add: take_Suc_conv_app_nth)
  show ?case
  proof (cases "a ! i = b ! j")
    case True
    have "length (butlast xs) \<le> lcs_len a b i j"
      by (rule "1.IH"(1)) (use 1 True subseq_butlast in \<open>auto simp: ta\<close>)
    then show ?thesis using True by simp
  next
    case False
    then have "subseq xs (take i a) \<or> subseq xs (take j b)"
      using subseq_snoc [of xs "take i a" "a ! i"] subseq_snoc [of xs "take j b" "b ! j"] 1 by (auto simp: ta)
    then show ?thesis using "1.IH"(2) [OF False, of xs] "1.IH"(3) [OF False, of xs] 1 False by fastforce
  qed
qed auto

section \<open>The walk back finds one\<close>

definition alignment :: "bytes \<Rightarrow> bytes \<Rightarrow> nat \<Rightarrow> nat \<Rightarrow> (nat \<times> nat) list \<Rightarrow> bool" where
  "alignment a b i j ps \<longleftrightarrow> sorted_wrt (\<lambda>(p, q) (p', q'). p < p' \<and> q < q') ps
     \<and> (\<forall>(p, q) \<in> set ps. p < i \<and> q < j \<and> a ! p = b ! q)"

lemma backtrack_finds:
  assumes "i \<le> length a" and "j \<le> length b"
  shows "\<exists>ps. backtrack a b (dp_table a b) i j acc = acc @ rev ps \<and> alignment a b i j ps \<and> length ps = lcs_len a b i j"
  using assms
proof (induction a b "dp_table a b" i j acc rule: backtrack.induct)
  case (1 a b i j acc)
  let ?d = "dp_table a b"
  show ?case
  proof (cases "a ! i = b ! j")
    case True
    from "1.hyps"(1) [OF True] "1.prems" obtain ps where
      "backtrack a b ?d i j (acc @ [(i, j)]) = (acc @ [(i, j)]) @ rev ps" "alignment a b i j ps" "length ps = lcs_len a b i j" by auto
    then show ?thesis using True by (intro exI [of _ "ps @ [(i, j)]"]) (auto simp: alignment_def sorted_wrt_append)
  next
    case False
    have at: "dp_at ?d i (Suc j) = lcs_len a b i (Suc j)" "dp_at ?d (Suc i) j = lcs_len a b (Suc i) j"
      using "1.prems" by (simp_all add: dp_table_at)
    show ?thesis
    proof (cases "dp_at ?d (Suc i) j \<le> dp_at ?d i (Suc j)")
      case True
      from "1.hyps"(2) [OF False True] "1.prems" obtain ps where
        "backtrack a b ?d i (Suc j) acc = acc @ rev ps" "alignment a b i (Suc j) ps" "length ps = lcs_len a b i (Suc j)" by auto
      then show ?thesis using False True at by (intro exI [of _ ps]) (auto simp: alignment_def)
    next
      case t: False
      from "1.hyps"(3) [OF False t] "1.prems" obtain ps where
        "backtrack a b ?d (Suc i) j acc = acc @ rev ps" "alignment a b (Suc i) j ps" "length ps = lcs_len a b (Suc i) j" by auto
      then show ?thesis using False t at by (intro exI [of _ ps]) (auto simp: alignment_def)
    qed
  qed
qed (auto simp: alignment_def)

lemma strict_subseq:
  "sorted_wrt (<) ns \<Longrightarrow> \<forall>n \<in> set ns. n < length xs \<Longrightarrow> subseq (map (nth xs) ns) xs"
proof -
  assume s: "sorted_wrt (<) ns" and b: "\<forall>n \<in> set ns. n < length xs"
  have "filter (\<lambda>i. i \<in> set ns) [0..<length xs] = ns"
    by (rule sorted_distinct_set_unique) (use s b in \<open>auto simp: strict_sorted_iff intro: sorted_wrt_filter\<close>)
  then have "subseq ns [0..<length xs]" by (metis subseq_filter_left)
  then have "subseq (map (nth xs) ns) (map (nth xs) [0..<length xs])" by (rule subseq_map)
  then show ?thesis by (simp add: map_nth)
qed

definition is_lcs :: "bytes \<Rightarrow> bytes \<Rightarrow> bytes \<Rightarrow> bool" where
  "is_lcs xs a b \<longleftrightarrow> subseq xs a \<and> subseq xs b \<and> (\<forall>ys. subseq ys a \<and> subseq ys b \<longrightarrow> length ys \<le> length xs)"

lemma alignment_lcs:
  assumes "alignment a b (length a) (length b) ps" and "length ps = lcs_len a b (length a) (length b)"
  shows "is_lcs (map (\<lambda>(p, _). a ! p) ps) a b"
proof -
  have s: "sorted_wrt (<) (map fst ps)" "sorted_wrt (<) (map snd ps)"
    using assms(1) by (auto simp: alignment_def sorted_wrt_map elim!: sorted_wrt_mono_rel [rotated])
  have b: "\<forall>n \<in> set (map fst ps). n < length a" "\<forall>n \<in> set (map snd ps). n < length b" using assms(1) by (auto simp: alignment_def)
  have e: "map (\<lambda>(p, _). a ! p) ps = map (nth a) (map fst ps)" "map (\<lambda>(p, _). a ! p) ps = map (nth b) (map snd ps)"
    using assms(1) by (auto simp: alignment_def)
  have m: "length ys \<le> length ps" if "subseq ys a" "subseq ys b" for ys
    using common_short [of ys "length a" a "length b" b] that assms(2) by simp
  show ?thesis unfolding is_lcs_def
    using strict_subseq [OF s(1) b(1)] strict_subseq [OF s(2) b(2)] m unfolding e(1) [symmetric] e(2) [symmetric] by simp
qed

section \<open>The ranges\<close>

definition range_pairs :: "lcs_match \<Rightarrow> (nat \<times> nat) list" where
  "range_pairs m = (case m of (a0, a1, b0, b1) \<Rightarrow> zip [a0..<a1] [b0..<b1])"

definition proper :: "lcs_match \<Rightarrow> bool" where
  "proper m = (case m of (a0, a1, b0, b1) \<Rightarrow> a0 < a1 \<and> b0 < b1 \<and> a1 - a0 = b1 - b0)"

lemma collapse_pairs:
  "proper m \<Longrightarrow> list_all proper ms \<Longrightarrow>
    concat (map range_pairs (collapse m rest ms)) = concat (map range_pairs ms) @ range_pairs m @ rest \<and> list_all proper (collapse m rest ms)"
proof (induction m rest ms rule: collapse.induct)
  case (2 a0 a1 b0 b1 ai bi rest ms)
  show ?case
  proof (cases "ai = a1 \<and> bi = b1")
    case True
    have "range_pairs (a0, a1 + 1, b0, b1 + 1) = range_pairs (a0, a1, b0, b1) @ [(a1, b1)]"
      using "2.prems"(1) by (simp add: range_pairs_def proper_def)
    moreover have "proper (a0, a1 + 1, b0, b1 + 1)" using "2.prems"(1) by (auto simp: proper_def)
    ultimately show ?thesis using "2.IH"(1) [OF True] "2.prems" True by simp
  next
    case False
    have "range_pairs (ai, ai + 1, bi, bi + 1) = [(ai, bi)]" "proper (ai, ai + 1, bi, bi + 1)" by (simp_all add: range_pairs_def proper_def)
    then show ?thesis using "2.IH"(2) [OF False] "2.prems" False by (cases "ai = a1") simp_all
  qed
qed simp

lemma matches_pairs: "concat (map range_pairs (lcs_matches ps)) = ps \<and> list_all proper (lcs_matches ps)"
proof (cases ps)
  case (Cons p rest)
  obtain a0 b0 where p: "p = (a0, b0)" by force
  have "range_pairs (a0, a0 + 1, b0, b0 + 1) = [p]" "proper (a0, a0 + 1, b0, b0 + 1)" by (simp_all add: range_pairs_def proper_def p)
  then show ?thesis using collapse_pairs [of "(a0, a0 + 1, b0, b0 + 1)" "[]" rest] by (simp add: lcs_matches_def Cons p)
qed (simp add: lcs_matches_def)

definition stretch :: "bytes \<Rightarrow> nat \<Rightarrow> nat \<Rightarrow> bytes" where
  "stretch xs i j = map (nth xs) [i..<j]"

text \<open>The ranges are parts of both strings that agree, in order and apart.\<close>

definition matching_ranges :: "bytes \<Rightarrow> bytes \<Rightarrow> lcs_match list \<Rightarrow> bool" where
  "matching_ranges a b ms \<longleftrightarrow>
     (\<forall>(a0, a1, b0, b1) \<in> set ms. a0 < a1 \<and> a1 \<le> length a \<and> b0 < b1 \<and> b1 \<le> length b \<and> stretch a a0 a1 = stretch b b0 b1)
     \<and> sorted_wrt (\<lambda>(a0, a1, b0, b1) (c0, c1, d0, d1). a1 \<le> c0 \<and> b1 \<le> d0) ms"

lemma range_pairs_mem:
  "proper (a0, a1, b0, b1) \<Longrightarrow> k < a1 - a0 \<Longrightarrow> (a0 + k, b0 + k) \<in> set (range_pairs (a0, a1, b0, b1))"
  by (auto simp: range_pairs_def proper_def set_zip intro!: exI [of _ k])

lemma sorted_wrt_concat:
  "sorted_wrt R (concat xss) \<Longrightarrow> sorted_wrt (\<lambda>xs ys. \<forall>x \<in> set xs. \<forall>y \<in> set ys. R x y) xss"
  by (induction xss) (auto simp: sorted_wrt_append)

lemma alignment_ranges:
  assumes "alignment a b (length a) (length b) ps"
  shows "matching_ranges a b (lcs_matches ps)"
    and "map (\<lambda>(p, _). a ! p) ps = concat (map (\<lambda>(a0, a1, _). stretch a a0 a1) (lcs_matches ps))"
proof -
  let ?ms = "lcs_matches ps"
  have c: "concat (map range_pairs ?ms) = ps" and p: "\<And>m. m \<in> set ?ms \<Longrightarrow> proper m"
    using matches_pairs [of ps] by (auto simp: list_all_iff)
  have at: "a0 + k < length a \<and> b0 + k < length b \<and> a ! (a0 + k) = b ! (b0 + k)"
    if "(a0, a1, b0, b1) \<in> set ?ms" "k < a1 - a0" for a0 a1 b0 b1 k
  proof -
    have "(a0 + k, b0 + k) \<in> set (concat (map range_pairs ?ms))" using range_pairs_mem [OF p [OF that(1)] that(2)] that(1) by auto
    then show ?thesis using assms unfolding c by (auto simp: alignment_def)
  qed
  have each: "a0 < a1 \<and> a1 \<le> length a \<and> b0 < b1 \<and> b1 \<le> length b \<and> stretch a a0 a1 = stretch b b0 b1"
    if m: "(a0, a1, b0, b1) \<in> set ?ms" for a0 a1 b0 b1
  proof -
    have q: "a0 < a1" "b0 < b1" "a1 - a0 = b1 - b0" using p [OF m] by (auto simp: proper_def)
    have "stretch a a0 a1 = stretch b b0 b1" unfolding stretch_def by (rule nth_equalityI) (use q at [OF m] in auto)
    moreover have "a0 + (a1 - a0 - 1) < length a \<and> b0 + (a1 - a0 - 1) < length b" using at [OF m, of "a1 - a0 - 1"] q by simp
    then have "a1 \<le> length a \<and> b1 \<le> length b" using q by linarith
    ultimately show ?thesis using q by simp
  qed
  have "sorted_wrt (\<lambda>m n. \<forall>x \<in> set (range_pairs m). \<forall>y \<in> set (range_pairs n). (\<lambda>(p, q) (p', q'). p < p' \<and> q < q') x y) ?ms"
    using sorted_wrt_concat [of _ "map range_pairs ?ms"] assms by (simp add: c alignment_def sorted_wrt_map)
  then have "sorted_wrt (\<lambda>(a0, a1, b0, b1) (c0, c1, d0, d1). a1 \<le> c0 \<and> b1 \<le> d0) ?ms"
  proof (rule sorted_wrt_mono_rel [rotated])
    fix m n assume mn: "m \<in> set ?ms" "n \<in> set ?ms"
      and r: "\<forall>x \<in> set (range_pairs m). \<forall>y \<in> set (range_pairs n). (\<lambda>(p, q) (p', q'). p < p' \<and> q < q') x y"
    obtain a0 a1 b0 b1 c0 c1 d0 d1 where e: "m = (a0, a1, b0, b1)" "n = (c0, c1, d0, d1)" by (cases m, cases n) auto
    have q: "a0 < a1" "b0 < b1" "a1 - a0 = b1 - b0" "c0 < c1" using p [OF mn(1)] p [OF mn(2)] by (auto simp: e proper_def)
    have "(a0 + (a1 - a0 - 1), b0 + (a1 - a0 - 1)) \<in> set (range_pairs m)" "(c0 + 0, d0 + 0) \<in> set (range_pairs n)"
      using range_pairs_mem p mn q unfolding e by (metis diff_less zero_less_diff zero_less_one)+
    then have "a0 + (a1 - a0 - 1) < c0 + 0 \<and> b0 + (a1 - a0 - 1) < d0 + 0" using r by fastforce
    then have "a1 \<le> c0 \<and> b1 \<le> d0" using q by linarith
    then show "(\<lambda>(a0, a1, b0, b1) (c0, c1, d0, d1). a1 \<le> c0 \<and> b1 \<le> d0) m n" by (simp add: e)
  qed
  then show "matching_ranges a b ?ms" using each by (auto simp: matching_ranges_def)
  have r: "map (\<lambda>(p, _). a ! p) (range_pairs m) = (\<lambda>(a0, a1, _). stretch a a0 a1) m" if "proper m" for m
    using that by (cases m) (auto simp: range_pairs_def proper_def stretch_def intro!: nth_equalityI)
  have "map (\<lambda>(p, _). a ! p) ps = concat (map (map (\<lambda>(p, _). a ! p)) (map range_pairs ?ms))" unfolding map_concat [symmetric] c ..
  also have "\<dots> = concat (map (\<lambda>(a0, a1, _). stretch a a0 a1) ?ms)"
    unfolding map_map by (rule arg_cong [where f = concat]) (use r p in \<open>auto intro!: map_cong\<close>)
  finally show "map (\<lambda>(p, _). a ! p) ps = concat (map (\<lambda>(a0, a1, _). stretch a a0 a1) ?ms)" .
qed

definition lcs_result :: "bytes \<Rightarrow> bytes \<Rightarrow> bytes \<times> lcs_match list \<Rightarrow> bool" where
  "lcs_result a b r \<longleftrightarrow> is_lcs (fst r) a b \<and> matching_ranges a b (snd r)
     \<and> fst r = concat (map (\<lambda>(a0, a1, _). stretch a a0 a1) (snd r))"

lemma compute_lcs_ok: "lcs_result a b (compute_lcs a b)"
proof -
  obtain ps where ps: "backtrack a b (dp_table a b) (length a) (length b) [] = rev ps" "alignment a b (length a) (length b) ps"
      "length ps = lcs_len a b (length a) (length b)"
    using backtrack_finds [of "length a" a "length b" b "[]"] by auto
  then show ?thesis using alignment_lcs [OF ps(2,3)] alignment_ranges [OF ps(2)] by (simp add: lcs_result_def compute_lcs_def)
qed

section \<open>The command on the keyspace\<close>

lemma string_or_empty_ok:
  assumes "env_ok lims E" and "ks_is lims clk (cs_db s) A"
  shows "string_or_empty E key s = Some (map_sum id (\<lambda>x. case x of None \<Rightarrow> [] | Some v \<Rightarrow> v) (str_at (env_now E) (A key)), s)"
proof -
  obtain d where d: "read_for (cs_db s) key = Some d" "ent_is lims (db_get_ro (env_now E) key d) (alive (env_now E) (A key))"
    by (rule ks_read [OF assms(2)])
  show ?thesis
  proof (cases "db_get_ro (env_now E) key d")
    case None
    then show ?thesis using d by (simp add: string_or_empty_def view_ro_def on_key_ro_def str_at_def)
  next
    case (Some e)
    with d(2) obtain a where a: "alive (env_now E) (A key) = Some (a, en_expiry e)" "val_is lims (en_value e) a" by auto
    then show ?thesis using d(1) Some as_string_of [OF assms(1) a(2)]
      by (simp add: string_or_empty_def view_ro_def on_key_ro_def str_at_def split: option.split)
  qed
qed

lemma lcs_reads:
  assumes "env_ok lims E" and "ks_is lims clk (cs_db s) A"
    and "lcs_options (bulks opts) no_lcs_opts = Inr op"
  shows "cmd_lcs E (bulks ([asc ''LCS'', k1, k2] @ opts)) s = Some (
    attempt_e (str_at (env_now E) (A k1)) (\<lambda>x. attempt_e (str_at (env_now E) (A k2)) (\<lambda>y.
      Inr (case compute_lcs (case x of None \<Rightarrow> [] | Some v \<Rightarrow> v) (case y of None \<Rightarrow> [] | Some v \<Rightarrow> v) of (xs, ms) \<Rightarrow> lcs_reply op xs ms))), s)"
  using assms(3) string_or_empty_ok [OF assms(1,2)]
  by (simp add: cmd_lcs_def get_bytes_vec_def ok_or_arity_def index_def attempt_def attempt_e_def fail_def reply_def
      split: sum.split prod.split)

end
