(* ===== verification/Generic_Cmds.thy ===== *)
theory Generic_Cmds
  imports String_Cmds Keyspace
begin

text \<open>
  The commands on keys whatever they hold (\<^verbatim>\<open>command/generic.rs\<close>): deleting, existence, expiry times,
  renaming and copying, listing and picking keys, and SORT. \<open>ord\<close> is the order in which a shard's map lists
  its keys.
\<close>

section \<open>Deleting and counting\<close>

text \<open>The keys are visited in order, each under its own lock; an argument that is no string ends the loop, with
  the keys before it done.\<close>

fun each_key :: "bytes \<Rightarrow> (bytes \<Rightarrow> cmd_state \<Rightarrow> (bool \<times> cmd_state) option) \<Rightarrow> resp list \<Rightarrow> int \<Rightarrow> resp handler" where
  "each_key cmd f [] n s = reply (resp_int n) s"
| "each_key cmd f (a # rest) n s = (case ok_or_arity (bulk_or_simple a) cmd of
     Inl e \<Rightarrow> fail e s
   | Inr key \<Rightarrow> do { (b, s) \<leftarrow> f key s; each_key cmd f rest (if b then n + 1 else n) s })"

definition del_key :: "bytes \<Rightarrow> cmd_state \<Rightarrow> (bool \<times> cmd_state) option" where
  "del_key key = on_key key (\<lambda>d. case db_remove key d of (x, d) \<Rightarrow> Some (x \<noteq> None, d))"

definition exists_key :: "env \<Rightarrow> bytes \<Rightarrow> cmd_state \<Rightarrow> (bool \<times> cmd_state) option" where
  "exists_key E key = on_key_ro key (\<lambda>d. Some (db_get_ro (env_now E) key d \<noteq> None))"

definition cmd_del :: "env \<Rightarrow> resp list \<Rightarrow> resp handler" where
  "cmd_del E args = (if length args < 2 then fail (WrongArity (asc ''del'')) else each_key (asc ''DEL'') del_key (drop 1 args) 0)"

definition cmd_unlink :: "env \<Rightarrow> resp list \<Rightarrow> resp handler" where
  "cmd_unlink E args = (if length args < 2 then fail (WrongArity (asc ''unlink'')) else each_key (asc ''UNLINK'') del_key (drop 1 args) 0)"

definition cmd_exists :: "env \<Rightarrow> resp list \<Rightarrow> resp handler" where
  "cmd_exists E args = (if length args < 2 then fail (WrongArity (asc ''exists'')) else each_key (asc ''EXISTS'') (exists_key E) (drop 1 args) 0)"

definition cmd_touch :: "env \<Rightarrow> resp list \<Rightarrow> resp handler" where
  "cmd_touch E args = (if length args < 2 then fail (WrongArity (asc ''touch'')) else each_key (asc ''TOUCH'') (exists_key E) (drop 1 args) 0)"

section \<open>Expiry times\<close>

record expire_opts =
  eo_nx :: bool
  eo_xx :: bool
  eo_gt :: bool
  eo_lt :: bool

definition no_expire_opts :: expire_opts where
  "no_expire_opts = \<lparr>eo_nx = False, eo_xx = False, eo_gt = False, eo_lt = False\<rparr>"

fun expire_options :: "bytes \<Rightarrow> resp list \<Rightarrow> expire_opts \<Rightarrow> expire_opts result" where
  "expire_options cmd [] op = Inr op"
| "expire_options cmd (a # rest) op = attempt_e (get_str (a # rest) 0 cmd) (\<lambda>w. let opt = to_uppercase w in
     if opt = asc ''NX'' then expire_options cmd rest (op\<lparr>eo_nx := True\<rparr>)
     else if opt = asc ''XX'' then expire_options cmd rest (op\<lparr>eo_xx := True\<rparr>)
     else if opt = asc ''GT'' then expire_options cmd rest (op\<lparr>eo_gt := True\<rparr>)
     else if opt = asc ''LT'' then expire_options cmd rest (op\<lparr>eo_lt := True\<rparr>)
     else Inl SyntaxError)"

definition expire_conds :: "expire_opts \<Rightarrow> nat" where
  "expire_conds op = of_bool (eo_nx op) + of_bool (eo_xx op) + of_bool (eo_gt op) + of_bool (eo_lt op)"

text \<open>The deadline is a signed 128-bit number of milliseconds, which the sum cannot overflow.\<close>

definition target_ms :: "nat \<Rightarrow> bool \<Rightarrow> bool \<Rightarrow> int \<Rightarrow> int" where
  "target_ms now millis absolute val = (let unit_ms = (if millis then 1 else 1000) in
     if absolute then val * unit_ms else int now + val * unit_ms)"

definition expire_blocked :: "expire_opts \<Rightarrow> int \<Rightarrow> expiry option \<Rightarrow> bool" where
  "expire_blocked op target current \<longleftrightarrow>
     (let cur = map_option (\<lambda>e. int (min e (2 ^ 127 - 1))) current in
      eo_nx op \<and> cur \<noteq> None \<or> eo_xx op \<and> cur = None
      \<or> eo_gt op \<and> (case cur of None \<Rightarrow> True | Some c \<Rightarrow> target \<le> c)
      \<or> eo_lt op \<and> (case cur of None \<Rightarrow> False | Some c \<Rightarrow> target \<ge> c))"

definition expire_prog :: "env \<Rightarrow> bytes \<Rightarrow> expire_opts \<Rightarrow> int \<Rightarrow> resp result prog" where
  "expire_prog E key op target =
     seq (look (env_now E) key en_expiry) (\<lambda>x. case x of
       None \<Rightarrow> ret (Inr (resp_int 0))
     | Some current \<Rightarrow>
         if expire_blocked op target current then ret (Inr (resp_int 0))
         else if target \<le> int (env_now E) then seq (drop_key key (\<lambda>e. ())) (\<lambda>_. ret (Inr (resp_int 1)))
         else seq (put_expiry key (Some (expiry_from_ms (nat (min target (2 ^ 64 - 1)))))) (\<lambda>_. ret (Inr (resp_int 1))))"

definition set_expire :: "env \<Rightarrow> resp list \<Rightarrow> bool \<Rightarrow> bool \<Rightarrow> bytes \<Rightarrow> resp handler" where
  "set_expire E args millis absolute cmd =
     (if length args < 3 then fail (WrongArity cmd)
      else attempt (get_bytes_vec args 1 cmd) (\<lambda>key.
        attempt (get_i64 args 2 cmd) (\<lambda>val.
        attempt (expire_options cmd (drop 3 args) no_expire_opts) (\<lambda>op.
        if expire_conds op > 1 then fail SyntaxError
        else on_key key (expire_prog E key op (target_ms (env_now E) millis absolute val))))))"

definition cmd_expire :: "env \<Rightarrow> resp list \<Rightarrow> resp handler" where
  "cmd_expire E args = set_expire E args False False (asc ''EXPIRE'')"

definition cmd_pexpire :: "env \<Rightarrow> resp list \<Rightarrow> resp handler" where
  "cmd_pexpire E args = set_expire E args True False (asc ''PEXPIRE'')"

definition cmd_expireat :: "env \<Rightarrow> resp list \<Rightarrow> resp handler" where
  "cmd_expireat E args = set_expire E args False True (asc ''EXPIREAT'')"

definition cmd_pexpireat :: "env \<Rightarrow> resp list \<Rightarrow> resp handler" where
  "cmd_pexpireat E args = set_expire E args True True (asc ''PEXPIREAT'')"

text \<open>What a reader of the expiry replies: -2 without a key, -1 without an expiry.\<close>

definition view_expiry :: "env \<Rightarrow> bytes \<Rightarrow> (expiry \<Rightarrow> int) \<Rightarrow> resp handler" where
  "view_expiry E key f = on_key_ro key (\<lambda>d. Some (Inr (resp_int (case db_get_ro (env_now E) key d of
     None \<Rightarrow> - 2
   | Some e \<Rightarrow> (case en_expiry e of None \<Rightarrow> - 1 | Some x \<Rightarrow> f x)))))"

definition get_expire_time :: "env \<Rightarrow> resp list \<Rightarrow> bool \<Rightarrow> bytes \<Rightarrow> resp handler" where
  "get_expire_time E args millis cmd =
     (if length args \<noteq> 2 then fail (WrongArity cmd)
      else attempt (get_bytes_vec args 1 cmd) (\<lambda>key.
        view_expiry E key (\<lambda>x. int (min (if millis then x else x div 1000) (2 ^ 63 - 1)))))"

definition cmd_expiretime :: "env \<Rightarrow> resp list \<Rightarrow> resp handler" where
  "cmd_expiretime E args = get_expire_time E args False (asc ''EXPIRETIME'')"

definition cmd_pexpiretime :: "env \<Rightarrow> resp list \<Rightarrow> resp handler" where
  "cmd_pexpiretime E args = get_expire_time E args True (asc ''PEXPIRETIME'')"

text \<open>The remaining time is narrowed to \<^verbatim>\<open>u64\<close> and read as \<^verbatim>\<open>i64\<close>.\<close>

definition as_i64 :: "nat \<Rightarrow> int" where
  "as_i64 n = sint (of_nat n :: u64)"

definition get_ttl :: "env \<Rightarrow> resp list \<Rightarrow> bool \<Rightarrow> bytes \<Rightarrow> resp handler" where
  "get_ttl E args millis cmd =
     (if length args \<noteq> 2 then fail (WrongArity cmd)
      else attempt (get_bytes_vec args 1 cmd) (\<lambda>key.
        view_expiry E key (\<lambda>x. as_i64 (if millis then expiry_remaining_ms (env_now E) x else expiry_remaining_secs (env_now E) x))))"

definition cmd_ttl :: "env \<Rightarrow> resp list \<Rightarrow> resp handler" where
  "cmd_ttl E args = get_ttl E args False (asc ''TTL'')"

definition cmd_pttl :: "env \<Rightarrow> resp list \<Rightarrow> resp handler" where
  "cmd_pttl E args = get_ttl E args True (asc ''PTTL'')"

definition persist_prog :: "env \<Rightarrow> bytes \<Rightarrow> resp result prog" where
  "persist_prog E key =
     seq (look (env_now E) key (\<lambda>e. en_expiry e \<noteq> None)) (\<lambda>x.
       if x = Some True then seq (put_expiry key None) (\<lambda>_. ret (Inr (resp_int 1))) else ret (Inr (resp_int 0)))"

definition cmd_persist :: "env \<Rightarrow> resp list \<Rightarrow> resp handler" where
  "cmd_persist E args =
     (if length args \<noteq> 2 then fail (WrongArity (asc ''persist''))
      else attempt (get_bytes_vec args 1 (asc ''PERSIST'')) (\<lambda>key. on_key key (persist_prog E key)))"

section \<open>Types, names and copies\<close>

definition cmd_type :: "env \<Rightarrow> resp list \<Rightarrow> resp handler" where
  "cmd_type E args =
     (if length args \<noteq> 2 then fail (WrongArity (asc ''type''))
      else attempt (get_bytes_vec args 1 (asc ''TYPE'')) (\<lambda>key.
        view_ro E key (Inr (SimpleString (asc ''none''))) (\<lambda>v. Some (Inr (SimpleString (type_name v))))))"

definition cmd_rename :: "env \<Rightarrow> resp list \<Rightarrow> resp handler" where
  "cmd_rename E args =
     (if length args \<noteq> 3 then fail (WrongArity (asc ''rename''))
      else attempt (get_bytes_vec args 1 (asc ''RENAME'')) (\<lambda>src.
        attempt (get_bytes_vec args 2 (asc ''RENAME'')) (\<lambda>dst s.
        map_option (\<lambda>(r, db). (case r of Some _ \<Rightarrow> Inr resp_ok | None \<Rightarrow> Inl NoKey, s\<lparr>cs_db := db\<rparr>)) (sh_rename src dst (cs_db s)))))"

definition cmd_renamenx :: "env \<Rightarrow> resp list \<Rightarrow> resp handler" where
  "cmd_renamenx E args =
     (if length args \<noteq> 3 then fail (WrongArity (asc ''renamenx''))
      else attempt (get_bytes_vec args 1 (asc ''RENAMENX'')) (\<lambda>src.
        attempt (get_bytes_vec args 2 (asc ''RENAMENX'')) (\<lambda>dst s.
        map_option (\<lambda>(r, db). (case r of Some v \<Rightarrow> Inr (resp_int v) | None \<Rightarrow> Inl NoKey, s\<lparr>cs_db := db\<rparr>))
          (sh_renamenx (env_now E) src dst (cs_db s)))))"

definition cmd_copy :: "env \<Rightarrow> resp list \<Rightarrow> resp handler" where
  "cmd_copy E args =
     (if length args < 3 then fail (WrongArity (asc ''copy''))
      else attempt (get_bytes_vec args 1 (asc ''COPY'')) (\<lambda>src.
        attempt (get_bytes_vec args 2 (asc ''COPY'')) (\<lambda>dst s.
        let replace = list_ex (\<lambda>a. case resp_as_str a of Some t \<Rightarrow> to_ascii_uppercase t = asc ''REPLACE'' | None \<Rightarrow> False) args in
        map_option (\<lambda>(c, db). (Inr (resp_int (if c then 1 else 0)), s\<lparr>cs_db := db\<rparr>))
          (sh_copy_entry (env_now E) src dst replace (cs_db s)))))"

text \<open>OBJECT, of which only ENCODING looks at the key.\<close>

definition object_help :: resp where
  "object_help = resp_array [resp_bulk_str (asc ''OBJECT <subcommand> [<arg> [value] [opt] ...]. Subcommands are:''),
     resp_bulk_str (asc ''ENCODING <key>''), resp_bulk_str (asc ''REFCOUNT <key>''), resp_bulk_str (asc ''IDLETIME <key>''),
     resp_bulk_str (asc ''FREQ <key>'')]"

definition cmd_object :: "env \<Rightarrow> resp list \<Rightarrow> resp handler" where
  "cmd_object E args =
     (if length args < 3 then fail (WrongArity (asc ''object''))
      else attempt (get_str args 1 (asc ''OBJECT'')) (\<lambda>w. let sub = to_uppercase w in
        attempt (get_bytes_vec args 2 (asc ''OBJECT'')) (\<lambda>key.
        if sub = asc ''ENCODING'' then view_rw E key (Inl NoKey) (\<lambda>v. Some (Inr (resp_bulk_str (encoding v))))
        else if sub = asc ''REFCOUNT'' then reply (resp_int 1)
        else if sub = asc ''IDLETIME'' then reply (resp_int 0)
        else if sub = asc ''FREQ'' then reply (resp_int 0)
        else if sub = asc ''HELP'' then reply object_help
        else fail (Generic (asc ''unknown subcommand '' @ [0x27] @ sub @ [0x27] @ asc '' for OBJECT'')))))"

section \<open>Listing keys\<close>

definition cmd_keys :: "iter_order \<Rightarrow> env \<Rightarrow> resp list \<Rightarrow> resp handler" where
  "cmd_keys ord E args =
     (if length args \<noteq> 2 then fail (WrongArity (asc ''keys''))
      else attempt (get_bytes_vec args 1 (asc ''KEYS'')) (\<lambda>pattern s.
        case sh_keys_matching ord (env_now E) pattern (cs_db s) of
          (keys, db) \<Rightarrow> Some (Inr (resp_array (map resp_bulk keys)), s\<lparr>cs_db := db\<rparr>)))"

definition cmd_randomkey :: "iter_order \<Rightarrow> env \<Rightarrow> resp list \<Rightarrow> resp handler" where
  "cmd_randomkey ord E args s = reply (bulk_or_null (sh_random_key ord (cs_db s))) s"

record key_scan_opts =
  ks_pattern :: "bytes option"
  ks_count :: nat
  ks_type :: "bytes option"

fun key_scan_options :: "resp list \<Rightarrow> key_scan_opts \<Rightarrow> key_scan_opts result" where
  "key_scan_options [] op = Inr op"
| "key_scan_options (a # rest) op = attempt_e (get_str (a # rest) 0 (asc ''SCAN'')) (\<lambda>w. let opt = to_uppercase w in
     if opt = asc ''MATCH'' then attempt_e (get_bytes_vec rest 0 (asc ''SCAN'')) (\<lambda>p. key_scan_options (drop 1 rest) (op\<lparr>ks_pattern := Some p\<rparr>))
     else if opt = asc ''COUNT'' then attempt_e (get_i64 rest 0 (asc ''SCAN'')) (\<lambda>n.
       if n \<le> 0 then Inl (Generic (asc ''syntax error'')) else key_scan_options (drop 1 rest) (op\<lparr>ks_count := nat n\<rparr>))
     else if opt = asc ''TYPE'' then attempt_e (get_str rest 0 (asc ''SCAN'')) (\<lambda>t. key_scan_options (drop 1 rest) (op\<lparr>ks_type := Some (to_lowercase t)\<rparr>))
     else key_scan_options rest op)"

definition no_key_scan_opts :: key_scan_opts where
  "no_key_scan_opts = \<lparr>ks_pattern = None, ks_count = 10, ks_type = None\<rparr>"

definition type_matches :: "bytes option \<Rightarrow> bytes \<Rightarrow> entry \<Rightarrow> bool" where
  "type_matches tf k e = (case tf of Some t \<Rightarrow> type_name (en_value e) = t | None \<Rightarrow> True)"

definition cmd_scan :: "iter_order \<Rightarrow> env \<Rightarrow> resp list \<Rightarrow> resp handler" where
  "cmd_scan ord E args =
     (if length args < 2 then fail (WrongArity (asc ''scan''))
      else let cursor = scan_cursor_arg args 1 (asc ''SCAN'') in
        attempt (key_scan_options (drop 2 args) no_key_scan_opts) (\<lambda>op s.
        map_option (\<lambda>(keys, nxt). (Inr (scan_reply keys nxt), s))
          (sh_scan_page ord (env_now E) (case cursor of Some c \<Rightarrow> c | None \<Rightarrow> 0) (ks_count op) (scan_pattern (ks_pattern op))
            scan_order_key (type_matches (ks_type op)) (cs_db s))))"

end
