(* ===== verification/Generic_Spec.thy ===== *)
theory Generic_Spec
  imports Generic_Cmds String_Spec
begin

text \<open>
  What the commands on keys do: their specification on the abstract keyspace (\<open>generic_spec\<close>) and that every
  command, from its words on, implements it.
\<close>

section \<open>The effects\<close>

definition expire_effect :: "nat \<Rightarrow> expire_opts \<Rightarrow> int \<Rightarrow> effect" where
  "expire_effect now op target c = (case alive now c of
     None \<Rightarrow> (Inr (resp_int 0), None)
   | Some (a, t) \<Rightarrow>
       if expire_blocked op target t then (Inr (resp_int 0), Some (a, t))
       else (Inr (resp_int 1), if target \<le> int now then None else Some (a, Some (nat (min target (2 ^ 64 - 1))))))"

definition persist_effect :: "nat \<Rightarrow> effect" where
  "persist_effect now c = (case alive now c of
     None \<Rightarrow> (Inr (resp_int 0), None)
   | Some (a, t) \<Rightarrow> (Inr (resp_int (of_bool (t \<noteq> None))), Some (a, None)))"

definition ttl_reply :: "(expiry \<Rightarrow> int) \<Rightarrow> content option \<Rightarrow> resp" where
  "ttl_reply f c = resp_int (case c of None \<Rightarrow> - 2 | Some (a, t) \<Rightarrow> (case t of None \<Rightarrow> - 1 | Some x \<Rightarrow> f x))"

fun aval_type :: "aval \<Rightarrow> bytes" where
  "aval_type (AStr _) = asc ''string''"
| "aval_type (AInt _) = asc ''string''"
| "aval_type (AList _) = asc ''list''"
| "aval_type (ASet _) = asc ''set''"
| "aval_type (AHash _) = asc ''hash''"
| "aval_type (AZSet _) = asc ''zset''"
| "aval_type (AOther v) = type_name v"

definition rename_at :: "bytes \<Rightarrow> bytes \<Rightarrow> keyspace \<Rightarrow> resp result \<times> keyspace" where
  "rename_at src dst A = (case A src of
     None \<Rightarrow> (Inl NoKey, A)
   | Some c \<Rightarrow> (Inr resp_ok, (A(src := None))(dst \<mapsto> c)))"

definition renamenx_at :: "nat \<Rightarrow> bytes \<Rightarrow> bytes \<Rightarrow> keyspace \<Rightarrow> resp result \<times> keyspace" where
  "renamenx_at now src dst A =
     (if alive now (A dst) \<noteq> None then (Inr (resp_int 0), A)
      else case (A(dst := None)) src of
        None \<Rightarrow> (Inl NoKey, A(dst := None))
      | Some c \<Rightarrow> (Inr (resp_int 1), (A(dst := None, src := None))(dst \<mapsto> c)))"

definition copy_at :: "nat \<Rightarrow> bytes \<Rightarrow> bytes \<Rightarrow> bool \<Rightarrow> keyspace \<Rightarrow> resp result \<times> keyspace" where
  "copy_at now src dst replace A =
     (if \<not> replace \<and> alive now (A dst) \<noteq> None then (Inr (resp_int 0), A)
      else let B = (if replace then A else A(dst := None)) in
        case alive now (B src) of
          None \<Rightarrow> (Inr (resp_int 0), B(src := None))
        | Some c \<Rightarrow> (Inr (resp_int 1), B(dst \<mapsto> c)))"

definition keys_rel :: "nat \<Rightarrow> bytes \<Rightarrow> keyspace \<Rightarrow> resp result \<Rightarrow> keyspace \<Rightarrow> bool" where
  "keys_rel now pattern A r A' \<longleftrightarrow> A' = (\<lambda>k. alive now (A k))
     \<and> (\<exists>ks. distinct ks \<and> set ks = {k. alive now (A k) \<noteq> None \<and> glob_match pattern k} \<and> r = Inr (resp_array (map resp_bulk ks)))"

definition randomkey_rel :: "keyspace \<Rightarrow> resp result \<Rightarrow> bool" where
  "randomkey_rel A r \<longleftrightarrow> (if A = Map.empty then r = Inr resp_null else \<exists>k \<in> dom A. r = Inr (resp_bulk k))"

section \<open>The programs have these effects\<close>

lemma expire_prog_ok: "key_prog lims key (expire_prog E key op target) (expire_effect (env_now E) op target)"
  unfolding expire_prog_def
  apply (rule prog_conseq)
   apply (rule prog_rules prog_look [where g = snd] prog_drop [where g = "\<lambda>_. ()"] | simp)+
  apply (auto simp: prog_defs expire_effect_def expiry_from_ms_def split: option.split)
  done

lemma persist_prog_ok: "key_prog lims key (persist_prog E key) (persist_effect (env_now E))"
  unfolding persist_prog_def
  apply (rule prog_conseq)
   apply (rule prog_rules prog_look [where g = "\<lambda>c. snd c \<noteq> None"] | simp)+
  apply (auto simp: prog_defs persist_effect_def split: option.split)
  done

lemma type_name_of: "val_is lims v a \<Longrightarrow> type_name v = aval_type a"
  by (cases v) auto

section \<open>Loops over keys\<close>

lemma del_key_ok:
  assumes "ks_is lims clk (cs_db s) A"
  shows "\<exists>s'. del_key key s = Some (A key \<noteq> None, s') \<and> ks_is lims clk (cs_db s') (A(key := None))"
proof -
  have "key_prog lims key (\<lambda>d. case db_remove key d of (x, d) \<Rightarrow> Some (x \<noteq> None, d)) (\<lambda>c. (c \<noteq> None, None))"
  proof
    fix d m c assume d: "db_is d m" and c: "ent_is lims (m key) c"
    have "m key \<noteq> None \<longleftrightarrow> c \<noteq> None" using c by (cases "m key") auto
    then show "\<exists>d' x. (case db_remove key d of (x, d) \<Rightarrow> Some (x \<noteq> None, d)) = Some (fst (c \<noteq> None, None :: content option), d')
        \<and> db_is d' (m(key := x)) \<and> db_clock d' = db_clock d \<and> ent_is lims x (snd (c \<noteq> None, None))"
      using rem.op_law [OF d, of key] by (intro exI [of _ "snd (db_remove key d)"] exI [of _ None]) (auto simp: case_prod_beta)
  qed
  from key_prog.prog_on_key [OF this assms] show ?thesis by (auto simp: del_key_def)
qed

lemma del_loop_ok:
  assumes "ks_is lims clk (cs_db s) A"
  shows "\<exists>s'. each_key cmd del_key (bulks keys) n s = Some (Inr (resp_int (n + int (card (set keys \<inter> dom A)))), s')
    \<and> ks_is lims clk (cs_db s') (A |` (- set keys))"
  using assms
proof (induction keys arbitrary: s A n)
  case (Cons k keys)
  from del_key_ok [OF Cons.prems, of k] obtain s1 where
    s1: "del_key k s = Some (A k \<noteq> None, s1)" "ks_is lims clk (cs_db s1) (A(k := None))" by blast
  have r: "A(k := None) |` (- set keys) = A |` (- set (k # keys))" by (auto simp: restrict_map_def)
  have "set (k # keys) \<inter> dom A = (if A k = None then {} else {k}) \<union> (set keys \<inter> dom (A(k := None)))" by auto
  moreover have "card ((if A k = None then {} else {k}) \<union> (set keys \<inter> dom (A(k := None)))) =
      (if A k = None then 0 else 1) + card (set keys \<inter> dom (A(k := None)))" by (subst card_Un_disjoint) auto
  ultimately have c: "int (card (set (k # keys) \<inter> dom A)) = (if A k \<noteq> None then 1 else 0) + int (card (set keys \<inter> dom (A(k := None))))" by simp
  from Cons.IH [OF s1(2), of "if A k \<noteq> None then n + 1 else n"] obtain s2 where
    s2: "each_key cmd del_key (bulks keys) (if A k \<noteq> None then n + 1 else n) s1 =
      Some (Inr (resp_int ((if A k \<noteq> None then n + 1 else n) + int (card (set keys \<inter> dom (A(k := None)))))), s2)"
    "ks_is lims clk (cs_db s2) (A |` (- set (k # keys)))" unfolding r by blast
  have "(if A k \<noteq> None then n + 1 else n) + int (card (set keys \<inter> dom (A(k := None)))) = n + int (card (set (k # keys) \<inter> dom A))"
    unfolding c by simp
  then have "each_key cmd del_key (bulks (k # keys)) n s = Some (Inr (resp_int (n + int (card (set (k # keys) \<inter> dom A)))), s2)"
    using s1(1) s2(1) by (simp only: bulks_simps each_key.simps bulk_or_simple.simps ok_or_arity_def option.case sum.case bind.bind_lunit prod.case)
  then show ?case using s2(2) by blast
qed (simp add: reply_def)

lemma exists_key_ok:
  assumes "ks_is lims clk (cs_db s) A"
  shows "exists_key E key s = Some (alive (env_now E) (A key) \<noteq> None, s)"
proof -
  obtain d where d: "read_for (cs_db s) key = Some d" "ent_is lims (db_get_ro (env_now E) key d) (alive (env_now E) (A key))"
    by (rule ks_read [OF assms])
  then show ?thesis by (cases "db_get_ro (env_now E) key d") (auto simp: exists_key_def on_key_ro_def)
qed

lemma exists_loop_ok:
  assumes "ks_is lims clk (cs_db s) A"
  shows "each_key cmd (exists_key E) (bulks keys) n s =
    Some (Inr (resp_int (n + int (length (filter (\<lambda>k. alive (env_now E) (A k) \<noteq> None) keys)))), s)"
  by (induction keys arbitrary: n) (simp_all add: reply_def ok_or_arity_def exists_key_ok [OF assms] algebra_simps)

lemma view_expiry_ok:
  assumes "ks_is lims clk (cs_db s) A"
  shows "view_expiry E key f s = Some (Inr (ttl_reply f (alive (env_now E) (A key))), s)"
proof -
  obtain d where d: "read_for (cs_db s) key = Some d" "ent_is lims (db_get_ro (env_now E) key d) (alive (env_now E) (A key))"
    by (rule ks_read [OF assms])
  then show ?thesis by (cases "db_get_ro (env_now E) key d") (auto simp: view_expiry_def on_key_ro_def ttl_reply_def)
qed

lemma type_view_ok:
  assumes "ks_is lims clk (cs_db s) A"
  shows "view_ro E key (Inr (SimpleString (asc ''none''))) (\<lambda>v. Some (Inr (SimpleString (type_name v)))) s =
    Some (Inr (SimpleString (case alive (env_now E) (A key) of None \<Rightarrow> asc ''none'' | Some (a, t) \<Rightarrow> aval_type a)), s)"
proof -
  obtain d where d: "read_for (cs_db s) key = Some d" "ent_is lims (db_get_ro (env_now E) key d) (alive (env_now E) (A key))"
    by (rule ks_read [OF assms])
  then show ?thesis by (cases "db_get_ro (env_now E) key d") (auto simp: view_ro_def on_key_ro_def type_name_of)
qed

section \<open>Renaming, copying and listing\<close>

lemma rename_ok:
  assumes "ks_is lims clk s A"
  shows "\<exists>x s'. sh_rename src dst s = Some (x, s') \<and> (case x of Some _ \<Rightarrow> Inr resp_ok | None \<Rightarrow> Inl NoKey) = fst (rename_at src dst A)
    \<and> ks_is lims clk s' (snd (rename_at src dst A))"
proof -
  from assms obtain m where m: "sharded_is clk s m" "\<And>k. ent_is lims (m k) (A k)" by (auto simp: ks_is_def)
  from sh_rename_is [OF m(1), of src dst] obtain s' where
    s': "sh_rename src dst s = Some (map_option (\<lambda>_. ()) (m src), s')"
      "sharded_is clk s' (case m src of None \<Rightarrow> m | Some e \<Rightarrow> (m(src := None))(dst \<mapsto> e))" by blast
  show ?thesis
  proof (cases "m src")
    case None
    then have "A src = None" using m(2) [of src] by simp
    then show ?thesis using s' None m(2) by (auto simp: rename_at_def ks_is_def)
  next
    case (Some e)
    then obtain c where c: "A src = Some c" "ent_is lims (Some e) (Some c)" using m(2) [of src] by auto
    have "\<forall>k. ent_is lims (((m(src := None))(dst \<mapsto> e)) k) (((A(src := None))(dst \<mapsto> c)) k)" using m(2) c(2) by simp
    then have "ks_is lims clk s' ((A(src := None))(dst \<mapsto> c))" using s'(2) Some unfolding ks_is_def by (auto simp del: fun_upd_apply)
    then show ?thesis using s'(1) Some c(1) by (simp add: rename_at_def)
  qed
qed

lemma live_alive: "ent_is lims x c \<Longrightarrow> (live_entry now x = None) = (alive now c = None)"
  using ent_is_alive [of lims x c now] by (cases "live_entry now x") auto

lemma touched_dead: "ent_is lims x c \<Longrightarrow> alive now c \<noteq> None \<Longrightarrow> ent_is lims (touched now clk x) c"
  using touched_ent [of lims x c now clk] alive_same [of now c] by auto

lemma renamenx_ok:
  assumes "ks_is lims clk s A"
  shows "\<exists>x s'. sh_renamenx now src dst s = Some (x, s') \<and> (case x of Some v \<Rightarrow> Inr (resp_int v) | None \<Rightarrow> Inl NoKey) = fst (renamenx_at now src dst A)
    \<and> ks_is lims clk s' (snd (renamenx_at now src dst A))"
proof -
  from assms obtain m where m: "sharded_is clk s m" "\<And>k. ent_is lims (m k) (A k)" by (auto simp: ks_is_def)
  note l = live_alive [OF m(2) [of dst], of now]
  from sh_renamenx_is [OF m(1), of now src dst] obtain s' where
    s': "sh_renamenx now src dst s = Some (if live_entry now (m dst) \<noteq> None then Some 0 else map_option (\<lambda>_. 1) ((m(dst := None)) src), s')"
      "sharded_is clk s' (if live_entry now (m dst) \<noteq> None then m(dst := touched now clk (m dst))
        else case (m(dst := None)) src of None \<Rightarrow> m(dst := None) | Some e \<Rightarrow> (m(dst := None, src := None))(dst \<mapsto> e))" by blast
  show ?thesis
  proof (cases "live_entry now (m dst)")
    case (Some e)
    then have a: "alive now (A dst) \<noteq> None" using l by simp
    have "\<forall>k. ent_is lims ((m(dst := touched now clk (m dst))) k) (A k)" using m(2) touched_dead [OF m(2) a] by simp
    then show ?thesis using s' Some a by (auto simp: renamenx_at_def ks_is_def simp del: fun_upd_apply)
  next
    case None
    then have a: "alive now (A dst) = None" using l by simp
    have m': "\<And>k. ent_is lims ((m(dst := None)) k) ((A(dst := None)) k)" using m(2) by simp
    show ?thesis
    proof (cases "(m(dst := None)) src")
      case n: None
      then have "(A(dst := None)) src = None" using m' [of src] by simp
      then show ?thesis using s' None n a m' by (auto simp: renamenx_at_def ks_is_def simp del: fun_upd_apply)
    next
      case (Some e)
      then obtain c where c: "(A(dst := None)) src = Some c" "ent_is lims (Some e) (Some c)" using m' [of src] by (auto simp del: fun_upd_apply)
      have "\<forall>k. ent_is lims (((m(dst := None, src := None))(dst \<mapsto> e)) k) (((A(dst := None, src := None))(dst \<mapsto> c)) k)" using m(2) c(2) by simp
      then have "ks_is lims clk s' ((A(dst := None, src := None))(dst \<mapsto> c))"
        using s'(2) None Some unfolding ks_is_def by (auto simp del: fun_upd_apply)
      then show ?thesis using s'(1) None Some c(1) a by (simp add: renamenx_at_def del: fun_upd_apply)
    qed
  qed
qed

lemma get_insert_ok:
  assumes "ks_is lims clk s B"
  shows "\<exists>s'. (do {
       (r, s1) \<leftarrow> write_for src (db_get now src) s;
       case r of None \<Rightarrow> Some (False, s1)
       | Some e \<Rightarrow> map_option (\<lambda>(_, s2). (True, s2)) (write_for dst (\<lambda>d. ((), db_insert dst e d)) s1)
     }) = Some (alive now (B src) \<noteq> None, s')
    \<and> ks_is lims clk s' (case alive now (B src) of None \<Rightarrow> B(src := None) | Some c \<Rightarrow> B(dst \<mapsto> c))"
proof -
  from assms obtain m where m: "sharded_is clk s m" "\<And>k. ent_is lims (m k) (B k)" by (auto simp: ks_is_def)
  note l = live_alive [OF m(2) [of src], of now]
  from copy_get_insert [OF m(1), of src now dst] obtain s' where
    s': "(do {
       (r, s1) \<leftarrow> write_for src (db_get now src) s;
       case r of None \<Rightarrow> Some (False, s1)
       | Some e \<Rightarrow> map_option (\<lambda>(_, s2). (True, s2)) (write_for dst (\<lambda>d. ((), db_insert dst e d)) s1)
     }) = Some (live_entry now (m src) \<noteq> None, s')"
      "sharded_is clk s' (case touched now clk (m src) of None \<Rightarrow> m(src := None) | Some e \<Rightarrow> (m(src \<mapsto> e))(dst \<mapsto> e))" by blast
  have t: "ent_is lims (touched now clk (m src)) (alive now (B src))" by (rule touched_ent [OF m(2)])
  have "ks_is lims clk s' (case alive now (B src) of None \<Rightarrow> B(src := None) | Some c \<Rightarrow> B(dst \<mapsto> c))"
  proof (cases "touched now clk (m src)")
    case None
    then have "alive now (B src) = None" using t by simp
    moreover have "\<forall>k. ent_is lims ((m(src := None)) k) ((B(src := None)) k)" using m(2) by simp
    ultimately show ?thesis using s'(2) None unfolding ks_is_def by (auto simp del: fun_upd_apply)
  next
    case (Some e)
    then obtain c where c: "alive now (B src) = Some c" "ent_is lims (Some e) (Some c)" using t by auto
    then have "B src = Some c" using alive_same [OF c(1)] by simp
    then have "\<forall>k. ent_is lims (((m(src \<mapsto> e))(dst \<mapsto> e)) k) ((B(dst \<mapsto> c)) k)" using m(2) c(2) by simp
    then show ?thesis using s'(2) Some c(1) unfolding ks_is_def by (auto simp del: fun_upd_apply)
  qed
  then show ?thesis using s'(1) l by auto
qed

lemma copy_ok:
  assumes "ks_is lims clk s A"
  shows "\<exists>x s'. sh_copy_entry now src dst replace s = Some (x, s') \<and> Inr (resp_int (if x then 1 else 0)) = fst (copy_at now src dst replace A)
    \<and> ks_is lims clk s' (snd (copy_at now src dst replace A))"
proof -
  from assms obtain m where "sharded_is clk s m" by (auto simp: ks_is_def)
  then have len: "length (sh_shards s) > shard_idx (sh_num s) src"
    using shard_idx_less [of clk s m src] by (simp add: sharded_is_def)
  show ?thesis
  proof (cases replace)
    case True
    then show ?thesis unfolding sh_copy_steps [OF len] using get_insert_ok [OF assms, of src now dst]
      by (cases "alive now (A src)") (auto simp: copy_at_def Let_def simp del: fun_upd_apply)
  next
    case r: False
    from ks_has [OF assms, of dst now] obtain s1 where
      s1: "write_for dst (db_contains_key now dst) s = Some (alive now (A dst) \<noteq> None, s1)" "ks_is lims clk s1 (A(dst := alive now (A dst)))" by blast
    show ?thesis
    proof (cases "alive now (A dst)")
      case None
      then have k: "ks_is lims clk s1 (A(dst := None))" using s1(2) by simp
      show ?thesis unfolding sh_copy_steps [OF len] using s1(1) r None get_insert_ok [OF k, of src now dst]
        by (cases "alive now ((A(dst := None)) src)") (auto simp: copy_at_def Let_def simp del: fun_upd_apply)
    next
      case (Some c)
      then have "A(dst := alive now (A dst)) = A" using alive_same [OF Some] by (simp add: fun_upd_idem)
      then show ?thesis unfolding sh_copy_steps [OF len] using s1 r Some by (auto simp: copy_at_def)
    qed
  qed
qed

lemma keys_ok:
  assumes "iter_laws ord" and "ks_is lims clk s A"
  shows "\<exists>ks s'. sh_keys_matching ord now pattern s = (ks, s') \<and> keys_rel now pattern A (Inr (resp_array (map resp_bulk ks))) (\<lambda>k. alive now (A k))
    \<and> ks_is lims clk s' (\<lambda>k. alive now (A k))"
proof -
  from assms(2) obtain m where m: "sharded_is clk s m" "\<And>k. ent_is lims (m k) (A k)" by (auto simp: ks_is_def)
  from sh_keys_matching_is [OF m(1) assms(1), of now pattern] obtain ks s' where
    k: "sh_keys_matching ord now pattern s = (ks, s')" "set ks = {k. live_entry now (m k) \<noteq> None \<and> glob_match pattern k}" "distinct ks"
      "sharded_is clk s' (m |` (- expired_keys now m))" by blast
  have "(m |` (- expired_keys now m)) x = live_entry now (m x)" for x
    by (cases "m x") (auto simp: expired_keys_def restrict_map_def)
  then have "ent_is lims ((m |` (- expired_keys now m)) x) (alive now (A x))" for x using ent_is_alive [OF m(2)] by simp
  then have "ks_is lims clk s' (\<lambda>k. alive now (A k))" using k(4) by (auto simp: ks_is_def)
  moreover have "set ks = {k. alive now (A k) \<noteq> None \<and> glob_match pattern k}" using k(2) live_alive [OF m(2)] by auto
  ultimately show ?thesis using k(1,3) by (auto simp: keys_rel_def)
qed

lemma first_key_is:
  assumes "iter_laws ord"
  shows "case first_key ord ds of None \<Rightarrow> (\<forall>d \<in> set ds. db_entries d = []) | Some k \<Rightarrow> (\<exists>d \<in> set ds. k \<in> fst ` set (db_entries d))"
proof (induction ds)
  case (Cons d ds)
  have o: "mset (ord (db_entries d)) = mset (db_entries d)" using assms by (simp add: iter_laws_def)
  show ?case
  proof (cases "ord (db_entries d)")
    case Nil
    then show ?thesis using Cons o by (auto split: option.splits)
  next
    case c: (Cons p ps)
    obtain k v where p: "p = (k, v)" by force
    have "k \<in> fst ` set (db_entries d)" using mset_eq_setD [OF o] unfolding c p by force
    then show ?thesis by (simp add: c p)
  qed
qed simp

lemma randomkey_ok:
  assumes "iter_laws ord" and "ks_is lims clk s A"
  shows "randomkey_rel A (Inr (bulk_or_null (sh_random_key ord s)))"
proof -
  from assms(2) obtain m where m: "sharded_is clk s m" "\<And>k. ent_is lims (m k) (A k)" by (auto simp: ks_is_def)
  have "m k = None \<longleftrightarrow> A k = None" for k using m(2) [of k] by (cases "m k") auto
  then have d: "dom A = dom m" by (simp add: dom_def)
  have len: "length (sh_shards s) = sh_num s" using m(1) by (simp add: sharded_is_def)
  have e: "fst ` set (db_entries (sh_shards s ! i)) = dom (part (sh_num s) i m)" if "i < sh_num s" for i
    using db_isD(1) [OF sharded_isD(2) [OF m(1) that]] by (metis dom_map_of_conv_image_fst)
  have sh: "set (sh_shards s) = (\<lambda>i. sh_shards s ! i) ` {..<sh_num s}" using len by (auto simp: set_conv_nth)
  have u: "dom m = (\<Union>d \<in> set (sh_shards s). fst ` set (db_entries d))"
    unfolding parts_cover(2) [OF m(1)] sh using e by simp
  show ?thesis
  proof (cases "sh_random_key ord s")
    case None
    then have "dom m = {}" using first_key_is [OF assms(1), of "sh_shards s"] unfolding u by (simp add: sh_random_key_def)
    then show ?thesis using None d by (simp add: randomkey_rel_def)
  next
    case (Some k)
    then have "k \<in> dom A" using first_key_is [OF assms(1), of "sh_shards s"] unfolding d u by (auto simp: sh_random_key_def)
    then show ?thesis using Some by (auto simp: randomkey_rel_def)
  qed
qed

section \<open>The commands\<close>

datatype expire_word = ENX | EXX | EGT | ELT

datatype generic_cmd =
    GDel "bytes list" | GUnlink "bytes list" | GExists "bytes list" | GTouch "bytes list"
  | GExpire bool bool bytes int "expire_word list" | GExpireTime bool bytes | GTtl bool bytes | GPersist bytes
  | GType bytes | GRename bytes bytes | GRenameNX bytes bytes | GCopy bytes bytes bool | GKeys bytes | GRandomKey

fun expire_word_text :: "expire_word \<Rightarrow> bytes" where
  "expire_word_text ENX = asc ''NX''"
| "expire_word_text EXX = asc ''XX''"
| "expire_word_text EGT = asc ''GT''"
| "expire_word_text ELT = asc ''LT''"

definition expire_opts_of :: "expire_word list \<Rightarrow> expire_opts" where
  "expire_opts_of ws = \<lparr>eo_nx = ENX \<in> set ws, eo_xx = EXX \<in> set ws, eo_gt = EGT \<in> set ws, eo_lt = ELT \<in> set ws\<rparr>"

definition expire_name :: "bool \<Rightarrow> bool \<Rightarrow> bytes" where
  "expire_name millis absolute = (if millis then if absolute then asc ''PEXPIREAT'' else asc ''PEXPIRE''
     else if absolute then asc ''EXPIREAT'' else asc ''EXPIRE'')"

fun generic_words :: "generic_cmd \<Rightarrow> bytes list" where
  "generic_words (GDel keys) = asc ''DEL'' # keys"
| "generic_words (GUnlink keys) = asc ''UNLINK'' # keys"
| "generic_words (GExists keys) = asc ''EXISTS'' # keys"
| "generic_words (GTouch keys) = asc ''TOUCH'' # keys"
| "generic_words (GExpire millis absolute key n ws) = [expire_name millis absolute, key, dec_int n] @ map expire_word_text ws"
| "generic_words (GExpireTime millis key) = [if millis then asc ''PEXPIRETIME'' else asc ''EXPIRETIME'', key]"
| "generic_words (GTtl millis key) = [if millis then asc ''PTTL'' else asc ''TTL'', key]"
| "generic_words (GPersist key) = [asc ''PERSIST'', key]"
| "generic_words (GType key) = [asc ''TYPE'', key]"
| "generic_words (GRename src dst) = [asc ''RENAME'', src, dst]"
| "generic_words (GRenameNX src dst) = [asc ''RENAMENX'', src, dst]"
| "generic_words (GCopy src dst replace) = [asc ''COPY'', src, dst] @ (if replace then [asc ''REPLACE''] else [])"
| "generic_words (GKeys pattern) = [asc ''KEYS'', pattern]"
| "generic_words GRandomKey = [asc ''RANDOMKEY'']"

text \<open>COPY looks for the word REPLACE among all its arguments, the keys included.\<close>

definition is_replace :: "bytes \<Rightarrow> bool" where
  "is_replace w \<longleftrightarrow> utf8_valid w \<and> to_ascii_uppercase w = asc ''REPLACE''"

fun generic_wf :: "generic_cmd \<Rightarrow> bool" where
  "generic_wf (GDel keys) \<longleftrightarrow> keys \<noteq> []"
| "generic_wf (GUnlink keys) \<longleftrightarrow> keys \<noteq> []"
| "generic_wf (GExists keys) \<longleftrightarrow> keys \<noteq> []"
| "generic_wf (GTouch keys) \<longleftrightarrow> keys \<noteq> []"
| "generic_wf (GExpire millis absolute key n ws) \<longleftrightarrow> i64_ok n"
| "generic_wf _ \<longleftrightarrow> True"

fun generic_handler :: "iter_order \<Rightarrow> generic_cmd \<Rightarrow> env \<Rightarrow> resp list \<Rightarrow> resp handler" where
  "generic_handler ord (GDel keys) = cmd_del"
| "generic_handler ord (GUnlink keys) = cmd_unlink"
| "generic_handler ord (GExists keys) = cmd_exists"
| "generic_handler ord (GTouch keys) = cmd_touch"
| "generic_handler ord (GExpire millis absolute key n ws) =
     (if millis then if absolute then cmd_pexpireat else cmd_pexpire else if absolute then cmd_expireat else cmd_expire)"
| "generic_handler ord (GExpireTime millis key) = (if millis then cmd_pexpiretime else cmd_expiretime)"
| "generic_handler ord (GTtl millis key) = (if millis then cmd_pttl else cmd_ttl)"
| "generic_handler ord (GPersist key) = cmd_persist"
| "generic_handler ord (GType key) = cmd_type"
| "generic_handler ord (GRename src dst) = cmd_rename"
| "generic_handler ord (GRenameNX src dst) = cmd_renamenx"
| "generic_handler ord (GCopy src dst replace) = cmd_copy"
| "generic_handler ord (GKeys pattern) = cmd_keys ord"
| "generic_handler ord GRandomKey = cmd_randomkey ord"

definition generic_exec :: "iter_order \<Rightarrow> env \<Rightarrow> generic_cmd \<Rightarrow> resp handler" where
  "generic_exec ord E c = generic_handler ord c E (bulks (generic_words c))"

fun generic_spec :: "env \<Rightarrow> generic_cmd \<Rightarrow> keyspace \<Rightarrow> resp result \<Rightarrow> keyspace \<Rightarrow> bool" where
  "generic_spec E (GDel keys) A r A' \<longleftrightarrow> r = Inr (resp_int (int (card (set keys \<inter> dom A)))) \<and> A' = A |` (- set keys)"
| "generic_spec E (GUnlink keys) A r A' \<longleftrightarrow> r = Inr (resp_int (int (card (set keys \<inter> dom A)))) \<and> A' = A |` (- set keys)"
| "generic_spec E (GExists keys) A r A' \<longleftrightarrow>
     r = Inr (resp_int (int (length (filter (\<lambda>k. alive (env_now E) (A k) \<noteq> None) keys)))) \<and> A' = A"
| "generic_spec E (GTouch keys) A r A' \<longleftrightarrow>
     r = Inr (resp_int (int (length (filter (\<lambda>k. alive (env_now E) (A k) \<noteq> None) keys)))) \<and> A' = A"
| "generic_spec E (GExpire millis absolute key n ws) A r A' \<longleftrightarrow>
     (if expire_conds (expire_opts_of ws) > 1 then refused SyntaxError A r A'
      else at_key key (expire_effect (env_now E) (expire_opts_of ws) (target_ms (env_now E) millis absolute n)) A r A')"
| "generic_spec E (GExpireTime millis key) A r A' \<longleftrightarrow> A' = A
     \<and> r = Inr (ttl_reply (\<lambda>x. int (min (if millis then x else x div 1000) (2 ^ 63 - 1))) (alive (env_now E) (A key)))"
| "generic_spec E (GTtl millis key) A r A' \<longleftrightarrow> A' = A
     \<and> r = Inr (ttl_reply (\<lambda>x. as_i64 (if millis then expiry_remaining_ms (env_now E) x else expiry_remaining_secs (env_now E) x))
       (alive (env_now E) (A key)))"
| "generic_spec E (GPersist key) A r A' \<longleftrightarrow> at_key key (persist_effect (env_now E)) A r A'"
| "generic_spec E (GType key) A r A' \<longleftrightarrow> A' = A
     \<and> r = Inr (SimpleString (case alive (env_now E) (A key) of None \<Rightarrow> asc ''none'' | Some (a, t) \<Rightarrow> aval_type a))"
| "generic_spec E (GRename src dst) A r A' \<longleftrightarrow> (r, A') = rename_at src dst A"
| "generic_spec E (GRenameNX src dst) A r A' \<longleftrightarrow> (r, A') = renamenx_at (env_now E) src dst A"
| "generic_spec E (GCopy src dst replace) A r A' \<longleftrightarrow>
     (r, A') = copy_at (env_now E) src dst (replace \<or> is_replace src \<or> is_replace dst) A"
| "generic_spec E (GKeys pattern) A r A' \<longleftrightarrow> keys_rel (env_now E) pattern A r A'"
| "generic_spec E GRandomKey A r A' \<longleftrightarrow> A' = A \<and> randomkey_rel A r"

section \<open>Every command implements its specification\<close>

lemma expire_word_texts:
  "to_uppercase (asc ''NX'') = asc ''NX''" "to_uppercase (asc ''XX'') = asc ''XX''" "to_uppercase (asc ''GT'') = asc ''GT''"
  "to_uppercase (asc ''LT'') = asc ''LT''" "utf8_valid (asc ''NX'')" "utf8_valid (asc ''XX'')" "utf8_valid (asc ''GT'')" "utf8_valid (asc ''LT'')"
  "asc ''XX'' \<noteq> asc ''NX''" "asc ''GT'' \<noteq> asc ''NX''" "asc ''LT'' \<noteq> asc ''NX''" "asc ''GT'' \<noteq> asc ''XX''" "asc ''LT'' \<noteq> asc ''XX''"
  "asc ''LT'' \<noteq> asc ''GT''"
  by code_simp+

lemma expire_options_words:
  "expire_options cmd (bulks (map expire_word_text ws)) op = Inr (op\<lparr>eo_nx := eo_nx op \<or> ENX \<in> set ws, eo_xx := eo_xx op \<or> EXX \<in> set ws,
     eo_gt := eo_gt op \<or> EGT \<in> set ws, eo_lt := eo_lt op \<or> ELT \<in> set ws\<rparr>)"
proof (induction ws arbitrary: op)
  case (Cons w ws)
  then show ?case by (cases w) (simp_all add: get_str_def ok_or_arity_def index_def Let_def expire_word_texts)
qed simp

lemma copy_replace:
  "list_ex (\<lambda>a. case resp_as_str a of Some t \<Rightarrow> to_ascii_uppercase t = asc ''REPLACE'' | None \<Rightarrow> False) (bulks (generic_words (GCopy src dst replace)))
     \<longleftrightarrow> replace \<or> is_replace src \<or> is_replace dst"
proof -
  have "\<not> is_replace (asc ''COPY'')" "is_replace (asc ''REPLACE'')" by code_simp+
  moreover have "(case resp_as_str (BulkString (Some w)) of Some t \<Rightarrow> to_ascii_uppercase t = asc ''REPLACE'' | None \<Rightarrow> False) = is_replace w" for w
    by (simp add: is_replace_def)
  ultimately show ?thesis by auto
qed

lemma generic_command_law:
  assumes "iter_laws ord" and "env_ok lims E" and "generic_wf c" and "ks_is lims clk (cs_db s) A"
  shows "\<exists>r s' A'. generic_exec ord E c s = Some (r, s') \<and> generic_spec E c A r A' \<and> ks_is lims clk (cs_db s') A'"
proof (cases c)
  case (GDel keys)
  then have "generic_exec ord E c s = each_key (asc ''DEL'') del_key (bulks keys) 0 s"
    using assms(3) by (cases keys) (simp_all add: generic_exec_def cmd_del_def)
  then show ?thesis using del_loop_ok [OF assms(4), of "asc ''DEL''" keys 0] by (auto simp: GDel)
next
  case (GUnlink keys)
  then have "generic_exec ord E c s = each_key (asc ''UNLINK'') del_key (bulks keys) 0 s"
    using assms(3) by (cases keys) (simp_all add: generic_exec_def cmd_unlink_def)
  then show ?thesis using del_loop_ok [OF assms(4), of "asc ''UNLINK''" keys 0] by (auto simp: GUnlink)
next
  case (GExists keys)
  then have "generic_exec ord E c s = each_key (asc ''EXISTS'') (exists_key E) (bulks keys) 0 s"
    using assms(3) by (cases keys) (simp_all add: generic_exec_def cmd_exists_def)
  then show ?thesis using exists_loop_ok [OF assms(4), of "asc ''EXISTS''" E keys 0] assms(4) by (simp add: GExists)
next
  case (GTouch keys)
  then have "generic_exec ord E c s = each_key (asc ''TOUCH'') (exists_key E) (bulks keys) 0 s"
    using assms(3) by (cases keys) (simp_all add: generic_exec_def cmd_touch_def)
  then show ?thesis using exists_loop_ok [OF assms(4), of "asc ''TOUCH''" E keys 0] assms(4) by (simp add: GTouch)
next
  case (GExpire millis absolute key n ws)
  have o: "expire_options cmd (bulks (map expire_word_text ws)) no_expire_opts = Inr (expire_opts_of ws)" for cmd
    by (simp add: expire_options_words no_expire_opts_def expire_opts_of_def)
  have x: "generic_exec ord E c s = (if expire_conds (expire_opts_of ws) > 1 then fail SyntaxError s
      else on_key key (expire_prog E key (expire_opts_of ws) (target_ms (env_now E) millis absolute n)) s)"
    using assms(3) o by (simp add: GExpire generic_exec_def cmd_expire_def cmd_pexpire_def cmd_expireat_def cmd_pexpireat_def set_expire_def arg_defs)
  show ?thesis
  proof (cases "expire_conds (expire_opts_of ws) > 1")
    case True
    then show ?thesis using refused_at [OF assms(4) x [simplified True if_True]] by (simp add: GExpire)
  next
    case False
    then show ?thesis using key_prog_at [OF expire_prog_ok assms(4) x [simplified False if_False]] by (simp add: GExpire)
  qed
next
  case (GExpireTime millis key)
  then show ?thesis using view_expiry_ok [OF assms(4)] assms(4)
    by (simp add: generic_exec_def cmd_expiretime_def cmd_pexpiretime_def get_expire_time_def arg_defs)
next
  case (GTtl millis key)
  then show ?thesis using view_expiry_ok [OF assms(4)] assms(4)
    by (simp add: generic_exec_def cmd_ttl_def cmd_pttl_def get_ttl_def arg_defs)
next
  case (GPersist key)
  show ?thesis unfolding GPersist generic_spec.simps
    by (rule key_prog_at [OF persist_prog_ok assms(4)]) (simp add: generic_exec_def cmd_persist_def arg_defs)
next
  case (GType key)
  then show ?thesis using type_view_ok [OF assms(4)] assms(4) by (simp add: generic_exec_def cmd_type_def arg_defs)
next
  case (GRename src dst)
  then show ?thesis using rename_ok [OF assms(4), of src dst] by (auto simp: generic_exec_def cmd_rename_def arg_defs)
next
  case (GRenameNX src dst)
  then show ?thesis using renamenx_ok [OF assms(4), of "env_now E" src dst] by (auto simp: generic_exec_def cmd_renamenx_def arg_defs)
next
  case (GCopy src dst replace)
  let ?R = "replace \<or> is_replace src \<or> is_replace dst"
  have "generic_exec ord E c s = map_option (\<lambda>(c, db). (Inr (resp_int (if c then 1 else 0)), s\<lparr>cs_db := db\<rparr>))
      (sh_copy_entry (env_now E) src dst ?R (cs_db s))"
    unfolding copy_replace [symmetric] by (simp add: GCopy generic_exec_def cmd_copy_def get_bytes_vec_def ok_or_arity_def index_def Let_def)
  moreover obtain x db where "sh_copy_entry (env_now E) src dst ?R (cs_db s) = Some (x, db)"
    "Inr (resp_int (if x then 1 else 0)) = fst (copy_at (env_now E) src dst ?R A)" "ks_is lims clk db (snd (copy_at (env_now E) src dst ?R A))"
    using copy_ok [OF assms(4), of "env_now E" src dst ?R] by blast
  ultimately show ?thesis unfolding GCopy generic_spec.simps
    by (intro exI [of _ "fst (copy_at (env_now E) src dst ?R A)"] exI [of _ "s\<lparr>cs_db := db\<rparr>"] exI [of _ "snd (copy_at (env_now E) src dst ?R A)"])
      (simp add: GCopy)
next
  case (GKeys pattern)
  then show ?thesis using keys_ok [OF assms(1,4), of "env_now E" pattern] by (auto simp: generic_exec_def cmd_keys_def arg_defs)
next
  case GRandomKey
  then show ?thesis using randomkey_ok [OF assms(1,4)] assms(4) by (auto simp: generic_exec_def cmd_randomkey_def reply_def)
qed

interpretation gc: command_rel lims "\<lambda>c. iter_laws ord \<and> generic_wf c" "generic_exec ord" generic_spec for lims ord
  by unfold_locales (use generic_command_law in blast)

end
