(* ===== verification/Commands.thy ===== *)
theory Commands
  imports Set_Spec ZSet_Correct Lcs Generic_Spec Keyspace_Laws
begin

text \<open>
  The properties of the command handlers: every command implements its specification on the abstract
  keyspace, and what follows from the specifications.
\<close>

section \<open>Moving elements\<close>

definition elems_at :: "nat \<Rightarrow> keyspace \<Rightarrow> bytes \<Rightarrow> bytes multiset" where
  "elems_at now A key = (case alive now (A key) of Some (AList vs, _) \<Rightarrow> mset vs | _ \<Rightarrow> {#})"

lemma alive_upd: "alive now (Some (a, t)) = Some (a, t) \<Longrightarrow> alive now (Some (b, t)) = Some (b, t)"
  by (auto simp: alive_def split: option.splits if_splits)

lemma mset_taken_one:
  "taken left 1 vs = v # xs \<Longrightarrow> mset vs = add_mset v (mset (remains left 1 vs))"
proof -
  assume t: "taken left 1 vs = v # xs"
  then have "vs \<noteq> []" by (cases left) (auto simp: taken_def)
  then have "mset vs = add_mset (last vs) (mset (butlast vs))" "mset vs = add_mset (hd vs) (mset (tl vs))"
    by (metis add.right_neutral append_butlast_last_id mset.simps mset_append union_mset_add_mset_right) (use \<open>vs \<noteq> []\<close> in \<open>cases vs; simp\<close>)
  then show ?thesis using t unfolding taken_one by (auto split: if_splits)
qed

lemma pop_one_elems:
  assumes "edit_list now src (Inr None) (Inl WrongType) (pop_one_spec left) A = (r, B)"
  shows "(case r of Inr (Some v) \<Rightarrow> elems_at now A src = add_mset v (elems_at now B src) | _ \<Rightarrow> elems_at now A src = elems_at now B src)
    \<and> (\<forall>k. k \<noteq> src \<longrightarrow> B k = A k)"
proof (cases "alive now (A src)")
  case None
  then show ?thesis using assms by (auto simp: edit_at_def elems_at_def alive_def)
next
  case (Some c)
  obtain a t where c: "c = (a, t)" by force
  have al: "alive now (Some (a, t)) = Some (a, t)" using alive_same [OF Some] Some c by simp
  show ?thesis
  proof (cases "proj_list a")
    case None
    then show ?thesis using assms Some by (auto simp: edit_at_def apply_at_def c)
  next
    case v: (Some vs)
    then have a: "a = AList vs" by (cases a) auto
    show ?thesis
    proof (cases "taken left 1 vs")
      case Nil
      then have "r = Inr None" "B = A(src \<mapsto> (AList vs, t))"
        using assms Some by (simp_all add: edit_at_def apply_at_def c a pop_one_spec_def)
      then show ?thesis using Some al by (simp add: elems_at_def c a)
    next
      case (Cons v xs)
      then have r: "r = Inr (Some v)" "B = A(src := map_option (\<lambda>w. (AList w, t)) (unless_empty (remains left 1 vs)))"
        using assms Some by (simp_all add: edit_at_def apply_at_def c a pop_one_spec_def)
      have "elems_at now B src = mset (remains left 1 vs)"
        using alive_upd [OF al] by (cases "remains left 1 vs = []") (simp_all add: r(2) elems_at_def unless_empty_def del: One_nat_def)
      then show ?thesis using r mset_taken_one [OF Cons] Some by (simp add: elems_at_def c a)
    qed
  qed
qed

lemma push_one_elems:
  assumes "\<not> holds_other now A dst" and "B = snd (upsert_list now dst [] () (push_one_spec left v) A)"
  shows "elems_at now B dst = add_mset v (elems_at now A dst)" "k \<noteq> dst \<Longrightarrow> B k = A k"
proof -
  obtain a t where c: "(case alive now (A dst) of None \<Rightarrow> (AList [], None) | Some c \<Rightarrow> c) = (a, t)" by force
  then obtain vs where a: "a = AList vs" and e: "elems_at now A dst = mset vs" and al: "alive now (Some (a, t)) = Some (a, t)"
    using assms(1) alive_same [of now "A dst"]
    by (cases "alive now (A dst)"; cases a) (auto simp: holds_other_def elems_at_def alive_def split: option.splits if_splits)
  have B: "B = A(dst \<mapsto> (AList (if left then v # vs else vs @ [v]), t))"
    unfolding assms(2) upsert_at_def c by (simp add: apply_at_def a push_one_spec_def)
  show "elems_at now B dst = add_mset v (elems_at now A dst)" using e alive_upd [OF al [unfolded a]] by (simp add: B elems_at_def)
  show "k \<noteq> dst \<Longrightarrow> B k = A k" by (simp add: B)
qed

lemma elems_at_cong: "A k = B k \<Longrightarrow> elems_at now A k = elems_at now B k"
  by (simp add: elems_at_def)

lemma lmove_at_elems:
  assumes "lmove_at now src dst from_l to_l A = (r, B)"
  shows "(\<Sum>k \<in> {src, dst}. elems_at now B k) = (\<Sum>k \<in> {src, dst}. elems_at now A k)"
    and "k \<notin> {src, dst} \<Longrightarrow> B k = A k" and "r = Inr (Some v) \<Longrightarrow> v \<in># elems_at now A src \<and> v \<in># elems_at now B dst"
proof -
  obtain q C where e: "edit_list now src (Inr None) (Inl WrongType) (pop_one_spec from_l) A = (q, C)" by force
  note p = pop_one_elems [OF e]
  have "(\<Sum>k \<in> {src, dst}. elems_at now B k) = (\<Sum>k \<in> {src, dst}. elems_at now A k) \<and> (k \<notin> {src, dst} \<longrightarrow> B k = A k)
      \<and> (r = Inr (Some v) \<longrightarrow> v \<in># elems_at now A src \<and> v \<in># elems_at now B dst)"
  proof (cases "holds_other now A dst")
    case True
    then show ?thesis using assms by (auto simp: lmove_at_def)
  next
    case False
    show ?thesis
    proof (cases "\<exists>w. q = Inr (Some w)")
      case True
      then obtain w where w: "q = Inr (Some w)" by blast
      then have B: "r = Inr (Some w)" "B = snd (upsert_list now dst [] () (push_one_spec to_l w) C)"
        using assms e False by (simp_all add: lmove_at_def)
      have "\<not> holds_other now C dst" using edit_keeps_list [OF False, of src "Inr None" "Inl WrongType" "pop_one_spec from_l"] e by simp
      note u = push_one_elems [OF this B(2)]
      show ?thesis
      proof (cases "src = dst")
        case True
        then show ?thesis using p u B(1) w by auto
      next
        case d: False
        then have "elems_at now B src = elems_at now C src" "elems_at now C dst = elems_at now A dst"
          using p u(2) [of src] by (auto intro: elems_at_cong)
        then show ?thesis using p u B(1) w d by auto
      qed
    next
      case n: False
      then have B: "r = q" "B = C" using assms e False by (auto simp: lmove_at_def split: sum.splits option.splits)
      have s: "elems_at now A src = elems_at now C src" using p n by (auto split: sum.splits option.splits)
      have "elems_at now A dst = elems_at now C dst" using s p elems_at_cong [of A dst C now] by (cases "src = dst") auto
      then have "(\<Sum>k \<in> {src, dst}. elems_at now C k) = (\<Sum>k \<in> {src, dst}. elems_at now A k)" using s by (intro sum.cong) auto
      then show ?thesis using B p n by auto
    qed
  qed
  then show "(\<Sum>k \<in> {src, dst}. elems_at now B k) = (\<Sum>k \<in> {src, dst}. elems_at now A k)"
    and "k \<notin> {src, dst} \<Longrightarrow> B k = A k" and "r = Inr (Some v) \<Longrightarrow> v \<in># elems_at now A src \<and> v \<in># elems_at now B dst" by auto
qed


section \<open>Properties\<close>


abbreviation fresh_state :: cmd_state where
  "fresh_state \<equiv> \<lparr>cs_db = sh_new (2 ^ 6), cs_wakes = 0, cs_zset_wakes = 0\<rparr>"

lemma fresh_ks: "ks_is lims 0 (cs_db fresh_state) Map.empty"
  using ks_is_new [of 6 lims] by simp




text \<open>C16. Every set command, given by its words on the wire, on any keyspace: it does not panic, it replies and
  changes the keyspace as its specification on plain sets says, and it keeps the representation. Unions,
  intersections and differences are the mathematical ones of all operands, whichever shards hold them, and the
  stores leave that set at the destination; SPOP removes exactly the members it replies; SMOVE moves one member.\<close>

theorem set_commands_correct:
  assumes "env_ok lims E" and "set_wf c" and "ks_is lims clk (cs_db s) A"
  shows "\<exists>r s' A'. set_exec E c s = Some (r, s') \<and> set_spec E c A r A' \<and> ks_is lims clk (cs_db s') A'"
  using assms by (rule set_command_law)

theorem set_commands_correct_witness:
  "\<exists>s'. set_exec (default_env 0) (SAdd [1] [[7], [8], [7]]) fresh_state = Some (Inr (resp_int 2), s')
    \<and> ks_is default_list_thresholds 0 (cs_db s') [[1] \<mapsto> (ASet {[7], [8]}, None)]"
  using set_commands_correct [OF default_env_ok _ fresh_ks, of "SAdd [1] [[7], [8], [7]]" 0]
  by (auto simp: upsert_at_def apply_at_def sadd_effect_def alive_def insert_commute)


lemma inf_scores:
  "score_of (asc ''+inf'') = f64_of False f64_inf_mag" "score_of (asc ''-inf'') = f64_of True f64_inf_mag"
  "score_text (asc ''+inf'')" "score_text (asc ''-inf'')"
  by (simp_all add: score_of_def score_text_def parse_score_bound_def asc_def attempt_e_def f64_is_nan_def f64_of_def f64_inf_mag_def f64_mag_def)


text \<open>C18. Every string command, given by its words on the wire, on any keyspace: it does not panic, it replies and
  changes the keyspace as its specification says, and it keeps the representation. SET writes exactly when NX, XX
  and IFEQ, IFGT, IFLT allow it and sets, keeps or clears the time to live as its options say; the counters check
  for overflow and keep the time to live; GETRANGE and SETRANGE read and write the bytes at the given positions;
  MSETNX writes all its keys or none.\<close>

theorem string_commands_correct:
  assumes "sort_laws srt" and "env_ok lims E" and "str_wf c" and "ks_is lims clk (cs_db s) A"
  shows "\<exists>r s' A'. str_exec srt E c s = Some (r, s') \<and> str_spec E c A r A' \<and> ks_is lims clk (cs_db s') A'"
  using assms by (rule string_command_law)

theorem string_commands_correct_witness:
  "\<exists>s'. str_exec (sort_key fst) (default_env 5) (SSet [1] [7] [WExpiry (TtlSecs 10), WNX]) fresh_state = Some (Inr resp_ok, s')
    \<and> ks_is default_list_thresholds 0 (cs_db s') [[1] \<mapsto> (AStr [7], Some 10005)]"
  using string_commands_correct [OF sort_key_laws default_env_ok _ fresh_ks, of "SSet [1] [7] [WExpiry (TtlSecs 10), WNX]" 5]
  by (auto simp: expiry_word_result_def no_set_opts_def cond_count_def at_key_def set_effect_def set_allowed_def default_env_def i64_ok_def)

lemma two_strings:
  "\<exists>s :: cmd_state. ks_is default_list_thresholds 0 (cs_db s) [[1] \<mapsto> (AStr [7, 8], None), [2] \<mapsto> (AStr [9, 8], None)]"
proof -
  let ?c = "SMSet [([1], [7, 8]), ([2], [9, 8])]"
  have w: "str_wf ?c" by simp
  obtain r A and s :: cmd_state where s: "str_spec (default_env 0) ?c Map.empty r A" "ks_is default_list_thresholds 0 (cs_db s) A"
    using string_command_law [OF sort_key_laws default_env_ok w fresh_ks, of 0] by blast
  then have "A = Map.empty ++ map_of (plain_pairs [([1], [7, 8]), ([2], [9, 8])])" by (intro mset_rel_distinct) auto
  then have "A = [[1] \<mapsto> (AStr [7, 8], None), [2] \<mapsto> (AStr [9, 8], None)]" by (auto simp: plain_pairs_def)
  then show ?thesis using s(2) by blast
qed

text \<open>C19. Every command on keys whatever they hold, given by its words on the wire, on any keyspace: it does not
  panic, it replies and changes the keyspace as its specification says, and it keeps the representation. DEL counts
  each key once; the EXPIRE family applies under NX, XX, GT and LT as documented, a key without expiry counting as
  one that never expires, and deletes the key when the deadline has passed; RENAME, RENAMENX and COPY carry value
  and expiry over, in one shard or two; KEYS lists each live matching key once.\<close>

theorem generic_commands_correct:
  assumes "iter_laws ord" and "env_ok lims E" and "generic_wf c" and "ks_is lims clk (cs_db s) A"
  shows "\<exists>r s' A'. generic_exec ord E c s = Some (r, s') \<and> generic_spec E c A r A' \<and> ks_is lims clk (cs_db s') A'"
  using assms by (rule generic_command_law)

theorem generic_commands_correct_witness:
  "\<exists>s s'. generic_exec (\<lambda>x. x) (default_env 5) (GExpire False False [1] 10 [ENX]) s = Some (Inr (resp_int 1), s')
    \<and> ks_is default_list_thresholds 0 (cs_db s') [[1] \<mapsto> (AStr [7, 8], Some 10005), [2] \<mapsto> (AStr [9, 8], None)]"
proof -
  let ?A = "[[1] \<mapsto> (AStr [7, 8], None), [2] \<mapsto> (AStr [9, 8], None)] :: keyspace" and ?c = "GExpire False False [1] 10 [ENX]"
  obtain s :: cmd_state where s: "ks_is default_list_thresholds 0 (cs_db s) ?A" using two_strings by blast
  have i: "iter_laws (\<lambda>x. x)" by (simp add: iter_laws_def)
  have w: "generic_wf ?c" by (simp add: i64_ok_def)
  have e: "expire_effect 5 (expire_opts_of [ENX]) 10005 (?A [1]) = (Inr (resp_int 1), Some (AStr [7, 8], Some 10005))"
    by (simp add: expire_effect_def expire_opts_of_def expire_blocked_def alive_def)
  have u: "?A([1] := Some (AStr [7, 8], Some 10005)) = [[1] \<mapsto> (AStr [7, 8], Some 10005), [2] \<mapsto> (AStr [9, 8], None)]" by (auto simp: fun_eq_iff)
  from generic_commands_correct [OF i default_env_ok w s, of 5] obtain r s' A' where
    "generic_exec (\<lambda>x. x) (default_env 5) ?c s = Some (r, s')" "generic_spec (default_env 5) ?c ?A r A'"
    "ks_is default_list_thresholds 0 (cs_db s') A'" by blast
  moreover from this(2) have "r = Inr (resp_int 1)" "A' = ?A([1] := Some (AStr [7, 8], Some 10005))"
    using e by (simp_all add: at_key_def expire_conds_def expire_opts_of_def target_ms_def default_env_def del: fun_upd_apply)
  ultimately show ?thesis unfolding u by blast
qed

text \<open>C20. LCS on any two string values (a missing key counts as empty): the bytes it replies are a longest common
  subsequence of the two values, and the ranges of IDX are parts of both that agree, in order and apart, whose bytes
  together are that subsequence; a value of another type is refused, and nothing changes.\<close>

theorem lcs_correct:
  assumes "env_ok lims E" and "ks_is lims clk (cs_db s) A" and "lcs_options (bulks opts) no_lcs_opts = Inr op"
  shows "\<exists>r. cmd_lcs E (bulks ([asc ''LCS'', k1, k2] @ opts)) s = Some (r, s)
    \<and> (case (str_at (env_now E) (A k1), str_at (env_now E) (A k2)) of
         (Inr x, Inr y) \<Rightarrow> (let a = (case x of None \<Rightarrow> [] | Some v \<Rightarrow> v); b = (case y of None \<Rightarrow> [] | Some v \<Rightarrow> v) in
           \<exists>xs ms. r = Inr (lcs_reply op xs ms) \<and> is_lcs xs a b \<and> matching_ranges a b ms
             \<and> xs = concat (map (\<lambda>(a0, a1, _). stretch a a0 a1) ms))
       | _ \<Rightarrow> r = Inl WrongType)"
proof -
  have w: "str_at now c = Inl e \<Longrightarrow> e = WrongType" for now c e by (cases rule: content_cases [of now c]) auto
  have l: "lcs_result a b (compute_lcs a b)" for a b by (rule compute_lcs_ok)
  show ?thesis
  proof (cases "\<exists>x y. str_at (env_now E) (A k1) = Inr x \<and> str_at (env_now E) (A k2) = Inr y")
    case True
    then obtain x y where xy: "str_at (env_now E) (A k1) = Inr x" "str_at (env_now E) (A k2) = Inr y" by blast
    obtain xs ms where c: "compute_lcs (case x of None \<Rightarrow> [] | Some v \<Rightarrow> v) (case y of None \<Rightarrow> [] | Some v \<Rightarrow> v) = (xs, ms)" by force
    show ?thesis unfolding lcs_reads [OF assms] using l [of "case x of None \<Rightarrow> [] | Some v \<Rightarrow> v" "case y of None \<Rightarrow> [] | Some v \<Rightarrow> v"]
      by (auto simp: xy c lcs_result_def Let_def)
  next
    case False
    then show ?thesis unfolding lcs_reads [OF assms] using w
      by (cases "str_at (env_now E) (A k1)"; cases "str_at (env_now E) (A k2)") simp_all
  qed
qed

theorem lcs_correct_witness:
  "\<exists>s xs ms. cmd_lcs (default_env 0) (bulks ([asc ''LCS'', [1], [2]] @ [])) s = Some (Inr (resp_bulk xs), s)
    \<and> is_lcs xs [7, 8] [9, 8] \<and> matching_ranges [7, 8] [9, 8] ms"
proof -
  have o: "lcs_options (bulks []) no_lcs_opts = Inr no_lcs_opts" by simp
  obtain s :: cmd_state where s: "ks_is default_list_thresholds 0 (cs_db s) [[1] \<mapsto> (AStr [7, 8], None), [2] \<mapsto> (AStr [9, 8], None)]"
    using two_strings by blast
  show ?thesis
    using lcs_correct [OF default_env_ok s o, of 0 "[1]" "[2]"]
    by (auto simp: lcs_reply_def no_lcs_opts_def str_at_def alive_def Let_def)
qed

text \<open>C36. LMOVE and RPOPLPUSH neither lose nor duplicate an element, between any two keys, in one shard or
  two, the same key included: the elements of the two lists together stay the same, the element replied was
  at the source and is at the destination, no other key changes, and a destination of another type is refused
  before the source is touched.\<close>

theorem lmove_conserves:
  assumes "env_ok lims E" and "ks_is lims clk s A"
  shows "\<exists>r s' B. lmove_atomic E src dst from_l to_l s = Some (r, s') \<and> ks_is lims clk s' B
    \<and> (\<Sum>k \<in> {src, dst}. elems_at (env_now E) B k) = (\<Sum>k \<in> {src, dst}. elems_at (env_now E) A k)
    \<and> (\<forall>k. k \<notin> {src, dst} \<longrightarrow> B k = A k)
    \<and> (\<forall>v. r = Inr (Some v) \<longrightarrow> v \<in># elems_at (env_now E) A src \<and> v \<in># elems_at (env_now E) B dst)
    \<and> (holds_other (env_now E) A dst \<longrightarrow> r = Inl WrongType \<and> B = A)"
proof -
  obtain r B where l: "lmove_at (env_now E) src dst from_l to_l A = (r, B)" by force
  note e = lmove_at_elems [OF l]
  have "holds_other (env_now E) A dst \<longrightarrow> r = Inl WrongType \<and> B = A" using l by (auto simp: lmove_at_def)
  then show ?thesis using lmove_atomic_ok [OF assms, of src dst from_l to_l] l e by (metis fst_conv snd_conv)
qed

lemma pushed_state:
  "\<exists>s. ks_is default_list_thresholds 0 s [[1] \<mapsto> (AList [[8], [7]], None)]"
proof -
  let ?c = "LPush True False [1] [[7], [8]]"
  have e: "snd (list_spec (default_env 0) ?c Map.empty) = [[1] \<mapsto> (AList [[8], [7]], None)]"
    by (simp add: push_at_def upsert_at_def apply_at_def push_spec_def alive_def)
  have w: "list_wf ?c" by simp
  obtain s where "ks_is default_list_thresholds 0 s (snd (list_spec (default_env 0) ?c Map.empty))"
    using list_command_law [OF default_env_ok w fresh_ks, of 0] by blast
  then show ?thesis unfolding e by blast
qed

theorem lmove_conserves_witness:
  "\<exists>s r s' B. ks_is default_list_thresholds 0 s [[1] \<mapsto> (AList [[8], [7]], None)]
    \<and> lmove_atomic (default_env 0) [1] [2] True True s = Some (r, s') \<and> ks_is default_list_thresholds 0 s' B
    \<and> (\<Sum>k \<in> {[1], [2]}. elems_at 0 B k) = {#[8], [7]#}"
proof -
  obtain s where s: "ks_is default_list_thresholds 0 s [[1] \<mapsto> (AList [[8], [7]], None)]" using pushed_state by blast
  have "(\<Sum>k \<in> {[1], [2]}. elems_at 0 [[1] \<mapsto> (AList [[8], [7]], None)] k) = {#[8], [7]#}"
    by (simp add: elems_at_def alive_def)
  then show ?thesis
    using lmove_conserves [OF default_env_ok s, of 0 "[1]" "[2]" True True] s by (fastforce simp: default_env_def)
qed

end
