(* ===== verification/Acl.thy ===== *)
theory Acl
  imports Handlers
begin

text \<open>
  The access control list (\<^verbatim>\<open>acl.rs\<close>): users with their passwords, command rules and key patterns, the manager
  with its flag for the unrestricted case, and the checks that run before a command. SHA-256 and the lower
  case of Unicode text are parameters.
\<close>

section \<open>Categories\<close>

definition COMMAND_CATEGORIES :: "(bytes \<times> bytes list) list" where
  "COMMAND_CATEGORIES = [
     (asc ''keyspace'', map asc [''DEL'', ''UNLINK'', ''EXISTS'', ''TYPE'', ''RENAME'', ''RENAMENX'', ''COPY'', ''MOVE'',
       ''SORT'', ''SORT_RO'', ''OBJECT'', ''TOUCH'', ''EXPIRE'', ''PEXPIRE'', ''EXPIREAT'', ''PEXPIREAT'', ''EXPIRETIME'',
       ''PEXPIRETIME'', ''TTL'', ''PTTL'', ''PERSIST'', ''KEYS'', ''SCAN'', ''RANDOMKEY'', ''DUMP'', ''RESTORE'']),
     (asc ''read'', map asc [''GET'', ''MGET'', ''GETRANGE'', ''STRLEN'', ''GETBIT'', ''BITCOUNT'', ''BITPOS'',
       ''BITFIELD_RO'', ''HGET'', ''HMGET'', ''HKEYS'', ''HVALS'', ''HGETALL'', ''HEXISTS'', ''HLEN'', ''HRANDFIELD'',
       ''HSCAN'', ''LRANGE'', ''LINDEX'', ''LLEN'', ''LPOS'', ''SMEMBERS'', ''SISMEMBER'', ''SMISMEMBER'', ''SCARD'',
       ''SRANDMEMBER'', ''SSCAN'', ''SINTERCARD'', ''ZRANGE'', ''ZRANGEBYSCORE'', ''ZRANGEBYLEX'', ''ZSCORE'', ''ZMSCORE'',
       ''ZCARD'', ''ZCOUNT'', ''ZLEXCOUNT'', ''ZRANK'', ''ZREVRANK'', ''ZRANDMEMBER'', ''ZSCAN'', ''GETRANGE'', ''GETEX'',
       ''GETDEL'', ''GETSET'', ''LCS'', ''PFCOUNT'', ''GEOPOS'', ''GEODIST'', ''GEOHASH'', ''GEOSEARCH'', ''XLEN'',
       ''XRANGE'', ''XREVRANGE'', ''XREAD'', ''XPENDING'', ''EXISTS'']),
     (asc ''write'', map asc [''SET'', ''MSET'', ''MSETNX'', ''SETNX'', ''SETEX'', ''PSETEX'', ''SETRANGE'', ''SETBIT'',
       ''BITOP'', ''BITFIELD'', ''INCR'', ''INCRBY'', ''INCRBYFLOAT'', ''DECR'', ''DECRBY'', ''APPEND'', ''HSET'',
       ''HMSET'', ''HDEL'', ''HSETNX'', ''HINCRBY'', ''HINCRBYFLOAT'', ''LPUSH'', ''LPUSHX'', ''RPUSH'', ''RPUSHX'',
       ''LPOP'', ''RPOP'', ''LINSERT'', ''LSET'', ''LREM'', ''LTRIM'', ''LMOVE'', ''LMPOP'', ''BLMPOP'', ''BLPOP'',
       ''BRPOP'', ''BLMOVE'', ''SADD'', ''SREM'', ''SPOP'', ''SMOVE'', ''ZADD'', ''ZREM'', ''ZINCRBY'', ''ZPOPMIN'',
       ''ZPOPMAX'', ''BZPOPMIN'', ''BZPOPMAX'', ''ZREMRANGEBYRANK'', ''ZREMRANGEBYSCORE'', ''ZUNIONSTORE'', ''ZINTERSTORE'',
       ''ZDIFFSTORE'', ''ZRANGESTORE'', ''ZINTER'', ''ZUNION'', ''ZDIFF'', ''ZINTERCARD'', ''ZMPOP'', ''BZMPOP'', ''PFADD'',
       ''PFMERGE'', ''GEOADD'', ''GEOSEARCHSTORE'', ''XADD'', ''XTRIM'', ''XDEL'', ''XACK'', ''XSETID'', ''COPY'',
       ''RENAME'', ''RENAMENX'', ''MOVE'']),
     (asc ''set'', map asc [''SADD'', ''SREM'', ''SPOP'', ''SMOVE'', ''SMEMBERS'', ''SISMEMBER'', ''SMISMEMBER'', ''SCARD'',
       ''SRANDMEMBER'', ''SSCAN'', ''SINTERCARD'']),
     (asc ''sortedset'', map asc [''ZADD'', ''ZREM'', ''ZINCRBY'', ''ZPOPMIN'', ''ZPOPMAX'', ''BZPOPMIN'', ''BZPOPMAX'',
       ''ZREMRANGEBYRANK'', ''ZREMRANGEBYSCORE'', ''ZRANGE'', ''ZRANGEBYSCORE'', ''ZRANGEBYLEX'', ''ZREVRANGE'',
       ''ZREVRANGEBYSCORE'', ''ZRANGEBYLEX'', ''ZSCORE'', ''ZMSCORE'', ''ZCARD'', ''ZCOUNT'', ''ZLEXCOUNT'', ''ZRANK'',
       ''ZREVRANK'', ''ZRANDMEMBER'', ''ZSCAN'', ''ZUNIONSTORE'', ''ZINTERSTORE'', ''ZDIFFSTORE'', ''ZRANGESTORE'',
       ''ZINTER'', ''ZUNION'', ''ZDIFF'', ''ZINTERCARD'', ''ZMPOP'', ''BZMPOP'']),
     (asc ''list'', map asc [''LPUSH'', ''LPUSHX'', ''RPUSH'', ''RPUSHX'', ''LPOP'', ''RPOP'', ''LRANGE'', ''LINDEX'',
       ''LLEN'', ''LINSERT'', ''LSET'', ''LREM'', ''LTRIM'', ''LMOVE'', ''LMPOP'', ''BLMPOP'', ''BLPOP'', ''BRPOP'',
       ''BLMOVE'']),
     (asc ''hash'', map asc [''HSET'', ''HMSET'', ''HGET'', ''HMGET'', ''HDEL'', ''HEXISTS'', ''HGETALL'', ''HKEYS'',
       ''HVALS'', ''HLEN'', ''HSETNX'', ''HINCRBY'', ''HINCRBYFLOAT'', ''HSCAN'', ''HRANDFIELD'']),
     (asc ''string'', map asc [''SET'', ''GET'', ''MSET'', ''MSETNX'', ''SETNX'', ''SETEX'', ''PSETEX'', ''GETSET'',
       ''GETDEL'', ''GETEX'', ''GETRANGE'', ''SETRANGE'', ''STRLEN'', ''INCR'', ''INCRBY'', ''INCRBYFLOAT'', ''DECR'',
       ''DECRBY'', ''APPEND'']),
     (asc ''bitmap'', map asc [''SETBIT'', ''GETBIT'', ''BITCOUNT'', ''BITPOS'', ''BITOP'', ''BITFIELD'']),
     (asc ''hyperloglog'', map asc [''PFADD'', ''PFCOUNT'', ''PFMERGE'']),
     (asc ''geo'', map asc [''GEOADD'', ''GEOPOS'', ''GEODIST'', ''GEOHASH'', ''GEORADIUS'', ''GEORADIUSBYMEMBER'',
       ''GEOSEARCH'', ''GEOSEARCHSTORE'']),
     (asc ''stream'', map asc [''XADD'', ''XLEN'', ''XRANGE'', ''XREVRANGE'', ''XREAD'', ''XREADGROUP'', ''XTRIM'',
       ''XDEL'', ''XACK'', ''XPENDING'', ''XGROUP'']),
     (asc ''pubsub'', map asc [''SUBSCRIBE'', ''UNSUBSCRIBE'', ''PSUBSCRIBE'', ''PUNSUBSCRIBE'', ''PUBLISH'', ''PUBSUB'']),
     (asc ''connection'', map asc [''AUTH'', ''PING'', ''ECHO'', ''QUIT'', ''SELECT'', ''HELLO'', ''CLIENT'', ''RESET'',
       ''WAIT'']),
     (asc ''transaction'', map asc [''MULTI'', ''EXEC'', ''DISCARD'', ''WATCH'', ''UNWATCH'']),
     (asc ''scripting'', map asc [''EVAL'', ''EVALSHA'', ''SCRIPT'']),
     (asc ''admin'', map asc [''ACL'', ''BGREWRITEAOF'', ''BGSAVE'', ''COMMAND'', ''CONFIG'', ''DBSIZE'', ''DEBUG'',
       ''FLUSHALL'', ''FLUSHDB'', ''INFO'', ''LASTSAVE'', ''LATENCY'', ''MEMORY'', ''MODULE'', ''MONITOR'', ''REPLICAOF'',
       ''REPLCONF'', ''PSYNC'', ''RESET'', ''SAVE'', ''SHUTDOWN'', ''SLAVEOF'', ''SLOWLOG'', ''SWAPDB'', ''SYNC'', ''TIME'',
       ''WAIT'']),
     (asc ''dangerous'', map asc [''FLUSHDB'', ''FLUSHALL'', ''SHUTDOWN'', ''BGREWRITEAOF'', ''DEBUG'', ''CONFIG'',
       ''REPLICAOF'', ''SLAVEOF'', ''ACL'', ''KEYS'', ''MIGRATE'', ''RESTORE'', ''SORT'', ''WAIT'']),
     (asc ''slow'', map asc [''KEYS'', ''SCAN'', ''DBSIZE'', ''FLUSHDB'', ''FLUSHALL'']),
     (asc ''blocking'', map asc [''BLPOP'', ''BRPOP'', ''BLMPOP'', ''BZPOPMIN'', ''BZPOPMAX'', ''XREAD'', ''XREADGROUP'']),
     (asc ''fast'', map asc [''GET'', ''SET'', ''INCR'', ''DECR'', ''LPUSH'', ''RPUSH'', ''EXPIRE''])]"

text \<open>\<^verbatim>\<open>command_category_map\<close>: the table as a map, and the category \<^verbatim>\<open>all\<close>.\<close>

definition command_category_map :: "bytes \<rightharpoonup> bytes list" where
  "command_category_map = (map_of (rev COMMAND_CATEGORIES))(asc ''all'' \<mapsto> concat (map snd COMMAND_CATEGORIES))"

section \<open>Users\<close>

datatype acl_error =
    WrongPass | PermissionDenied bytes | UnknownUser bytes | AclWrongArity | AclSyntax | UserExists bytes | NoSuchUser bytes | UnknownCategory bytes

fun acl_error_text :: "acl_error \<Rightarrow> bytes" where
  "acl_error_text WrongPass = asc ''WRONGPASS invalid username-password pair or user is disabled''"
| "acl_error_text (PermissionDenied s) = asc ''NOPERM '' @ s"
| "acl_error_text (UnknownUser s) = asc ''ERR unknown user '' @ [0x27] @ s @ [0x27]"
| "acl_error_text AclWrongArity = asc ''ERR wrong number of arguments for ACL command''"
| "acl_error_text AclSyntax = asc ''ERR syntax error''"
| "acl_error_text (UserExists s) = asc ''ERR user '' @ [0x27] @ s @ [0x27] @ asc '' already exists''"
| "acl_error_text (NoSuchUser s) = asc ''ERR no such user '' @ [0x27] @ s @ [0x27]"
| "acl_error_text (UnknownCategory s) = asc ''ERR unknown command category '' @ [0x27] @ s @ [0x27]"

record acl_user =
  au_name :: bytes
  au_password_hash :: "bytes option"
  au_enabled :: bool
  au_all_commands :: bool
  au_all_keys :: bool
  au_command_rules :: "(bytes \<times> bool) list"
  au_key_patterns :: "bytes list"

definition acl_user_new :: "bytes \<Rightarrow> acl_user" where
  "acl_user_new name = \<lparr>au_name = name, au_password_hash = None, au_enabled = True, au_all_commands = True, au_all_keys = True,
     au_command_rules = [], au_key_patterns = []\<rparr>"

definition default_user :: acl_user where
  "default_user = \<lparr>au_name = asc ''default'', au_password_hash = None, au_enabled = True, au_all_commands = True, au_all_keys = True,
     au_command_rules = [], au_key_patterns = []\<rparr>"

fun strip_prefix :: "u8 \<Rightarrow> bytes \<Rightarrow> bytes option" where
  "strip_prefix c (b # s) = (if b = c then Some s else None)"
| "strip_prefix c [] = None"

definition rule_matches :: "bytes \<Rightarrow> bytes \<Rightarrow> bool" where
  "rule_matches cmd rule = (case strip_prefix 0x40 rule of
     Some cat \<Rightarrow> (case command_category_map cat of Some c \<Rightarrow> cmd \<in> set c | None \<Rightarrow> False)
   | None \<Rightarrow> eq_ignore_ascii_case rule cmd)"

definition command_allowed :: "acl_user \<Rightarrow> bytes \<Rightarrow> bool" where
  "command_allowed u cmd =
     (if au_all_commands u \<and> au_command_rules u = [] then True
      else foldl (\<lambda>allowed (rule, sign). if rule_matches cmd rule then sign else allowed) False (au_command_rules u))"

fun key_loop :: "bytes list \<Rightarrow> bytes \<Rightarrow> bool" where
  "key_loop [] key = False"
| "key_loop (p # ps) key =
     (if p = asc ''allkeys'' \<or> p = asc ''*'' then True
      else let pat = (case strip_prefix 0x7E p of Some q \<Rightarrow> q | None \<Rightarrow> p) in
        if glob_match pat key then True else key_loop ps key)"

definition key_allowed :: "acl_user \<Rightarrow> bytes \<Rightarrow> bool" where
  "key_allowed u key =
     (if au_all_keys u \<and> au_key_patterns u = [] then True else key_loop (rev (au_key_patterns u)) key)"

text \<open>\<open>al_sha_hex\<close> is the hexadecimal text of the SHA-256 digest, \<open>al_lowercase\<close> is \<^verbatim>\<open>str::to_lowercase\<close>.\<close>

record acl_lib =
  al_sha_hex :: "bytes \<Rightarrow> bytes"
  al_lowercase :: "bytes \<Rightarrow> bytes"

definition hash_password :: "acl_lib \<Rightarrow> bytes \<Rightarrow> bytes" where
  "hash_password L pwd = al_sha_hex L pwd"

definition normalize_rule_token :: "bytes \<Rightarrow> bytes" where
  "normalize_rule_token s = to_lowercase s"

text \<open>One token; the tokens before a bad one have been applied.\<close>

definition apply_rule :: "acl_lib \<Rightarrow> bytes \<Rightarrow> acl_user \<Rightarrow> acl_error + acl_user" where
  "apply_rule L rule u =
     (if rule = asc ''on'' then Inr (u\<lparr>au_enabled := True\<rparr>)
      else if rule = asc ''off'' then Inr (u\<lparr>au_enabled := False\<rparr>)
      else if rule = asc ''reset'' then
        Inr (u\<lparr>au_all_commands := True, au_all_keys := True, au_command_rules := [], au_key_patterns := [], au_password_hash := None\<rparr>)
      else if rule = asc ''resetpass'' then Inr (u\<lparr>au_password_hash := None\<rparr>)
      else case strip_prefix 0x3E rule of Some pwd \<Rightarrow> Inr (u\<lparr>au_password_hash := Some (hash_password L pwd)\<rparr>)
      | None \<Rightarrow> if strip_prefix 0x3C rule \<noteq> None then Inr (u\<lparr>au_password_hash := None\<rparr>)
      else case strip_prefix 0x23 rule of Some hash \<Rightarrow> Inr (u\<lparr>au_password_hash := Some (al_lowercase L hash)\<rparr>)
      | None \<Rightarrow> if rule = asc ''nopass'' then Inr (u\<lparr>au_password_hash := None\<rparr>)
      else case strip_prefix 0x7E rule of
        Some pat \<Rightarrow> Inr (u\<lparr>au_all_keys := False, au_key_patterns := filter (\<lambda>p. p \<noteq> pat) (au_key_patterns u) @ [pat]\<rparr>)
      | None \<Rightarrow> (case strip_prefix 0x2B rule of
        Some rest \<Rightarrow> Inr (u\<lparr>au_all_commands := False, au_command_rules := au_command_rules u @ [(normalize_rule_token (to_lowercase rest), True)]\<rparr>)
      | None \<Rightarrow> (case strip_prefix 0x2D rule of
        Some rest \<Rightarrow> Inr (u\<lparr>au_all_commands := False, au_command_rules := au_command_rules u @ [(normalize_rule_token (to_lowercase rest), False)]\<rparr>)
      | None \<Rightarrow> if strip_prefix 0x40 rule \<noteq> None then Inl (UnknownCategory rule) else Inl AclSyntax)))"

fun apply_rules :: "acl_lib \<Rightarrow> bytes list \<Rightarrow> acl_user \<Rightarrow> (acl_error + unit) \<times> acl_user" where
  "apply_rules L [] u = (Inr (), u)"
| "apply_rules L (rule # rules) u = (case apply_rule L rule u of Inl e \<Rightarrow> (Inl e, u) | Inr u \<Rightarrow> apply_rules L rules u)"

section \<open>The manager\<close>

record acl_log_entry =
  le_timestamp_ms :: int
  le_user :: bytes
  le_reason :: bytes

record acl_manager =
  am_users :: "(bytes \<times> acl_user) list"
  am_log :: "acl_log_entry list"
  am_open :: bool

definition acl_new :: acl_manager where
  "acl_new = \<lparr>am_users = [(asc ''default'', default_user)], am_log = [], am_open = True\<rparr>"

definition recompute_open :: "acl_manager \<Rightarrow> acl_manager" where
  "recompute_open m = m\<lparr>am_open := (case map_of (am_users m) (asc ''default'') of
     Some u \<Rightarrow> length (am_users m) = 1 \<and> au_enabled u \<and> au_all_commands u \<and> au_all_keys u \<and> au_command_rules u = [] \<and> au_key_patterns u = []
   | None \<Rightarrow> False)\<rparr>"

definition authenticate :: "acl_lib \<Rightarrow> bytes \<Rightarrow> bytes \<Rightarrow> acl_manager \<Rightarrow> acl_error + unit" where
  "authenticate L user pass m = (case map_of (am_users m) user of
     None \<Rightarrow> Inl (UnknownUser user)
   | Some u \<Rightarrow>
       if \<not> au_enabled u then Inl WrongPass
       else case au_password_hash u of
         Some expected \<Rightarrow> if expected \<noteq> hash_password L pass then Inl WrongPass else Inr ()
       | None \<Rightarrow> Inr ())"

definition log_denied :: "int \<Rightarrow> bytes \<Rightarrow> bytes \<Rightarrow> acl_manager \<Rightarrow> acl_manager" where
  "log_denied now user reason m =
     (let log = am_log m @ [\<lparr>le_timestamp_ms = now, le_user = user, le_reason = reason\<rparr>] in
      m\<lparr>am_log := (if length log > 128 then drop (length log - 128) log else log)\<rparr>)"

fun first_denied :: "acl_user \<Rightarrow> bytes list \<Rightarrow> bytes option" where
  "first_denied u [] = None"
| "first_denied u (k # ks) = (if \<not> key_allowed u k then Some k else first_denied u ks)"

definition check_permission :: "int \<Rightarrow> bytes \<Rightarrow> bytes \<Rightarrow> bytes list \<Rightarrow> acl_manager \<Rightarrow> (acl_error + unit) \<times> acl_manager" where
  "check_permission now user cmd keys m =
     (if am_open m \<and> user = asc ''default'' then (Inr (), m)
      else case map_of (am_users m) user of
        None \<Rightarrow> (Inl (UnknownUser user), m)
      | Some u \<Rightarrow>
          if \<not> au_enabled u then (Inl WrongPass, log_denied now user (asc ''user is disabled'') m)
          else if \<not> command_allowed u cmd then
            (Inl (PermissionDenied (asc ''this user has no permissions to run the '' @ [0x27] @ cmd @ [0x27] @ asc '' command'')),
             log_denied now user (asc ''can'' @ [0x27] @ asc ''t run '' @ [0x27] @ cmd @ [0x27] @ asc '': no permission'') m)
          else case first_denied u keys of
            Some k \<Rightarrow> (Inl (PermissionDenied (asc ''this user has no permissions to access the '' @ [0x27] @ utf8_lossy k @ [0x27] @ asc '' key'')),
              log_denied now user (asc ''no permission to access key'') m)
          | None \<Rightarrow> (Inr (), m))"

text \<open>\<^verbatim>\<open>setuser\<close>: on a bad rule the operator \<^verbatim>\<open>?\<close> returns before the flag is recomputed, with the user inserted and
  the rules before the bad one applied.\<close>

definition setuser :: "acl_lib \<Rightarrow> bytes \<Rightarrow> bytes list \<Rightarrow> acl_manager \<Rightarrow> (acl_error + acl_user) \<times> acl_manager" where
  "setuser L name rules m =
     (let u = (case map_of (am_users m) name of Some u \<Rightarrow> u | None \<Rightarrow> acl_user_new name) in
      case apply_rules L rules u of
        (Inl e, u) \<Rightarrow> (Inl e, m\<lparr>am_users := AList.update name u (am_users m)\<rparr>)
      | (Inr _, u) \<Rightarrow> (Inr u, recompute_open (m\<lparr>am_users := AList.update name u (am_users m)\<rparr>)))"

definition deluser :: "bytes \<Rightarrow> acl_manager \<Rightarrow> bool \<times> acl_manager" where
  "deluser name m =
     (if name = asc ''default'' then
        (True, recompute_open (m\<lparr>am_users := AList.update name default_user (AList.delete name (am_users m))\<rparr>))
      else let removed = map_of (am_users m) name \<noteq> None; m' = m\<lparr>am_users := AList.delete name (am_users m)\<rparr> in
        (removed, if removed then recompute_open m' else m'))"

definition get_user :: "bytes \<Rightarrow> acl_manager \<Rightarrow> acl_user option" where
  "get_user name m = map_of (am_users m) name"

definition list_users :: "acl_manager \<Rightarrow> bytes list" where
  "list_users m = sort (map fst (am_users m))"

definition acl_log :: "nat option \<Rightarrow> acl_manager \<Rightarrow> acl_log_entry list" where
  "acl_log cnt m = (let n = min (case cnt of Some c \<Rightarrow> c | None \<Rightarrow> length (am_log m)) (length (am_log m)) in
     drop (length (am_log m) - n) (am_log m))"

definition acl_log_reset :: "acl_manager \<Rightarrow> acl_manager" where
  "acl_log_reset m = m\<lparr>am_log := []\<rparr>"

fun join_sp :: "bytes list \<Rightarrow> bytes" where
  "join_sp [] = []"
| "join_sp [x] = x"
| "join_sp (x # y # ys) = x @ [0x20] @ join_sp (y # ys)"

definition format_user_line :: "acl_user \<Rightarrow> bytes" where
  "format_user_line u = join_sp (
     [asc ''user '' @ au_name u, asc ''on'', asc ''#'' @ (case au_password_hash u of Some h \<Rightarrow> h | None \<Rightarrow> []),
      asc ''~'' @ (case au_key_patterns u of p # _ \<Rightarrow> p | [] \<Rightarrow> asc ''*'')]
     @ map (\<lambda>(rule, sign). (if sign then asc ''+'' else asc ''-'') @ rule) (au_command_rules u))"

definition acl_list :: "acl_manager \<Rightarrow> bytes list option" where
  "acl_list m = those (map (\<lambda>name. map_option format_user_line (map_of (am_users m) name)) (list_users m))"

section \<open>What the checks decide\<close>

text \<open>The last rule that matches a command decides; a key may be used if some pattern matches it.\<close>

definition may_run :: "acl_user \<Rightarrow> bytes \<Rightarrow> bool" where
  "may_run u cmd \<longleftrightarrow> au_all_commands u \<and> au_command_rules u = []
     \<or> (\<exists>before rule after. au_command_rules u = before @ (rule, True) # after \<and> rule_matches cmd rule
          \<and> (\<forall>(r, sign) \<in> set after. \<not> rule_matches cmd r))"

definition may_use :: "acl_user \<Rightarrow> bytes \<Rightarrow> bool" where
  "may_use u key \<longleftrightarrow> au_all_keys u \<and> au_key_patterns u = []
     \<or> (\<exists>p \<in> set (au_key_patterns u). p = asc ''allkeys'' \<or> p = asc ''*''
          \<or> glob_match (case strip_prefix 0x7E p of Some q \<Rightarrow> q | None \<Rightarrow> p) key)"

lemma last_rule_decides:
  "foldl (\<lambda>allowed (rule, sign). if rule_matches cmd rule then sign else allowed) False rules \<longleftrightarrow>
    (\<exists>before rule after. rules = before @ (rule, True) # after \<and> rule_matches cmd rule \<and> (\<forall>(r, sign) \<in> set after. \<not> rule_matches cmd r))"
proof (induction rules rule: rev_induct)
  case (snoc x xs)
  obtain r s where x: "x = (r, s)" by force
  show ?case
  proof (cases "rule_matches cmd r")
    case True
    have "s" if "xs @ [x] = before @ (rule, True) # after" "\<forall>(r, sign) \<in> set after. \<not> rule_matches cmd r" for before rule after
      using that True by (cases after rule: rev_cases) (auto simp: x)
    moreover have "s \<Longrightarrow> \<exists>before rule after. xs @ [x] = before @ (rule, True) # after \<and> rule_matches cmd rule \<and> (\<forall>(r, sign) \<in> set after. \<not> rule_matches cmd r)"
      using True by (intro exI [of _ xs] exI [of _ r] exI [of _ "[]"]) (simp add: x)
    ultimately show ?thesis using True by (auto simp: x)
  next
    case False
    have "(\<exists>before rule after. xs @ [x] = before @ (rule, True) # after \<and> rule_matches cmd rule \<and> (\<forall>(r, sign) \<in> set after. \<not> rule_matches cmd r))
      \<longleftrightarrow> (\<exists>before rule after. xs = before @ (rule, True) # after \<and> rule_matches cmd rule \<and> (\<forall>(r, sign) \<in> set after. \<not> rule_matches cmd r))"
      (is "?L \<longleftrightarrow> ?R")
    proof
      assume ?L
      then obtain before rule after where "xs @ [x] = before @ (rule, True) # after" "rule_matches cmd rule" "\<forall>(r, sign) \<in> set after. \<not> rule_matches cmd r" by blast
      then show ?R using False by (cases after rule: rev_cases) (auto simp: x)
    next
      assume ?R
      then obtain before rule after where "xs = before @ (rule, True) # after" "rule_matches cmd rule" "\<forall>(r, sign) \<in> set after. \<not> rule_matches cmd r" by blast
      then show ?L using False by (intro exI [of _ before] exI [of _ rule] exI [of _ "after @ [x]"]) (auto simp: x)
    qed
    then show ?thesis using snoc False by (simp add: x)
  qed
qed simp

lemma command_allowed_is: "command_allowed u cmd \<longleftrightarrow> may_run u cmd"
  unfolding command_allowed_def may_run_def last_rule_decides by auto

lemma key_loop_is:
  "key_loop ps key \<longleftrightarrow> (\<exists>p \<in> set ps. p = asc ''allkeys'' \<or> p = asc ''*'' \<or> glob_match (case strip_prefix 0x7E p of Some q \<Rightarrow> q | None \<Rightarrow> p) key)"
  by (induction ps) (auto simp: Let_def)

lemma key_allowed_is: "key_allowed u key \<longleftrightarrow> may_use u key"
  by (auto simp: key_allowed_def may_use_def key_loop_is)

lemma first_denied_is: "first_denied u keys = None \<longleftrightarrow> (\<forall>k \<in> set keys. may_use u k)"
  by (induction keys) (auto simp: key_allowed_is)

text \<open>What a user may do, by the table of users alone.\<close>

definition permits :: "acl_manager \<Rightarrow> bytes \<Rightarrow> bytes \<Rightarrow> bytes list \<Rightarrow> bool" where
  "permits m user cmd keys \<longleftrightarrow> (\<exists>u. map_of (am_users m) user = Some u \<and> au_enabled u \<and> may_run u cmd \<and> (\<forall>k \<in> set keys. may_use u k))"

definition unrestricted :: "acl_user \<Rightarrow> bool" where
  "unrestricted u \<longleftrightarrow> au_enabled u \<and> au_all_commands u \<and> au_all_keys u \<and> au_command_rules u = [] \<and> au_key_patterns u = []"

definition acl_ok :: "acl_manager \<Rightarrow> bool" where
  "acl_ok m \<longleftrightarrow> distinct (map fst (am_users m)) \<and> length (am_log m) \<le> 128
     \<and> (am_open m \<longrightarrow> (\<exists>u. map_of (am_users m) (asc ''default'') = Some u \<and> unrestricted u))"

lemma recompute_open_ok:
  "distinct (map fst (am_users m)) \<Longrightarrow> length (am_log m) \<le> 128 \<Longrightarrow> acl_ok (recompute_open m)"
  by (auto simp: recompute_open_def acl_ok_def unrestricted_def split: option.splits)

lemma log_denied_ok: "acl_ok m \<Longrightarrow> acl_ok (log_denied now user reason m)"
  by (auto simp: acl_ok_def log_denied_def Let_def)

lemma log_denied_users [simp]: "am_users (log_denied now user reason m) = am_users m" "am_open (log_denied now user reason m) = am_open m"
  by (simp_all add: log_denied_def Let_def)

lemma check_permission_keeps: "acl_ok m \<Longrightarrow> acl_ok (snd (check_permission now user cmd keys m))"
  by (auto simp: check_permission_def log_denied_ok split: option.splits)

lemma check_permission_is:
  assumes "acl_ok m"
  shows "fst (check_permission now user cmd keys m) = Inr () \<longleftrightarrow> permits m user cmd keys"
proof (cases "am_open m \<and> user = asc ''default''")
  case True
  then obtain u where "map_of (am_users m) user = Some u" "unrestricted u" using assms by (auto simp: acl_ok_def)
  then show ?thesis using True by (auto simp: check_permission_def permits_def unrestricted_def may_run_def may_use_def)
next
  case False
  have f: "first_denied u keys = Some k \<Longrightarrow> \<exists>x \<in> set keys. \<not> may_use u x" for u k using first_denied_is [of u keys] by auto
  show ?thesis using False
    by (auto simp: check_permission_def permits_def command_allowed_is first_denied_is split: option.splits dest: f)
qed

section \<open>Histories of the manager\<close>

text \<open>The operations, a failing SETUSER set apart.\<close>

datatype acl_op = SetUser bytes "bytes list" | DelUser bytes | CheckPerm int bytes bytes "bytes list" | LogReset

fun acl_step :: "acl_lib \<Rightarrow> acl_op \<Rightarrow> acl_manager \<Rightarrow> acl_manager" where
  "acl_step L (SetUser name rules) m = snd (setuser L name rules m)"
| "acl_step L (DelUser name) m = snd (deluser name m)"
| "acl_step L (CheckPerm now user cmd keys) m = snd (check_permission now user cmd keys m)"
| "acl_step L LogReset m = acl_log_reset m"

fun acl_accepted :: "acl_lib \<Rightarrow> acl_op \<Rightarrow> acl_manager \<Rightarrow> bool" where
  "acl_accepted L (SetUser name rules) m \<longleftrightarrow> (\<exists>u. fst (setuser L name rules m) = Inr u)"
| "acl_accepted L _ m \<longleftrightarrow> True"

inductive acl_reach :: "acl_lib \<Rightarrow> acl_manager \<Rightarrow> bool" for L where
  new: "acl_reach L acl_new"
| step: "acl_reach L m \<Longrightarrow> acl_accepted L ac m \<Longrightarrow> acl_reach L (acl_step L ac m)"

lemma acl_step_ok:
  assumes "acl_ok m" and "acl_accepted L ac m"
  shows "acl_ok (acl_step L ac m)"
proof (cases ac)
  case (SetUser name rules)
  let ?u = "case map_of (am_users m) name of Some u \<Rightarrow> u | None \<Rightarrow> acl_user_new name"
  obtain r u where a: "apply_rules L rules ?u = (r, u)" by force
  have d: "distinct (map fst (AList.update name v (am_users m)))" for v using assms(1) by (simp add: acl_ok_def distinct_update)
  from assms(2) SetUser a obtain x where "r = Inr x" by (cases r) (auto simp: setuser_def Let_def)
  then have "acl_step L ac m = recompute_open (m\<lparr>am_users := AList.update name u (am_users m)\<rparr>)" using SetUser a by (simp add: setuser_def Let_def)
  then show ?thesis using d assms(1) by (auto simp: acl_ok_def [of m] intro!: recompute_open_ok)
next
  case (DelUser name)
  have d: "distinct (map fst (AList.delete name (am_users m)))" using assms(1) by (simp add: acl_ok_def distinct_delete)
  have l: "length (am_log m) \<le> 128" using assms(1) by (simp add: acl_ok_def)
  show ?thesis
  proof (cases "name = asc ''default'' \<or> map_of (am_users m) name \<noteq> None")
    case True
    have "distinct (map fst (AList.update name default_user (AList.delete name (am_users m))))" using d by (rule distinct_update)
    then show ?thesis using True d l DelUser by (auto simp: deluser_def Let_def intro!: recompute_open_ok)
  next
    case False
    then have "AList.delete name (am_users m) = am_users m" by (simp add: delete_id map_of_eq_None_iff)
    then show ?thesis using False DelUser assms(1) by (simp add: deluser_def Let_def)
  qed
next
  case (CheckPerm now user cmd keys)
  then show ?thesis using check_permission_keeps [OF assms(1)] by simp
next
  case LogReset
  then show ?thesis using assms(1) by (auto simp: acl_log_reset_def acl_ok_def dest: map_of_SomeD)
qed

lemma acl_reach_ok: "acl_reach L m \<Longrightarrow> acl_ok m"
proof (induction rule: acl_reach.induct)
  case new
  show ?case by (simp add: acl_new_def acl_ok_def unrestricted_def default_user_def)
next
  case (step m ac)
  then show ?case by (simp add: acl_step_ok)
qed

section \<open>Properties\<close>


definition plain_lib :: acl_lib where
  "plain_lib = \<lparr>al_sha_hex = id, al_lowercase = to_lowercase\<rparr>"



end
