(* ===== verification/Coordinator.thy ===== *)
theory Coordinator
  imports Prelude
begin

text \<open>
  Admission of writes during persistence (\<^verbatim>\<open>PersistenceCoordinator\<close> in \<^verbatim>\<open>db.rs\<close>). Any number of
  threads run \<^verbatim>\<open>enter_mutation\<close>, \<^verbatim>\<open>enter_mutation_waiting\<close>, \<^verbatim>\<open>quiesce\<close> and the two \<^verbatim>\<open>drop\<close>s;
  a step of the system is one atomic operation of one thread, and the threads are interleaved in every way.

  The operations on the two atomics carry the orderings \<^verbatim>\<open>Acquire\<close>, \<^verbatim>\<open>Release\<close> and \<^verbatim>\<open>AcqRel\<close>.
  They allow the store that closes admission to become visible after a later load of the same thread; the
  flag \<open>late\<close> of the step function says whether it does. \<^verbatim>\<open>notify_waiters\<close> wakes every
  \<^verbatim>\<open>Notified\<close> future that exists at that time; the async mutex admits one owner at a time.
\<close>

section \<open>State\<close>

type_synonym tid = nat

text \<open>On whose behalf \<^verbatim>\<open>enter_mutation\<close> runs: a direct call, the first attempt of
  \<^verbatim>\<open>enter_mutation_waiting\<close>, the attempt in its loop (with the armed future, and whether that has been
  woken), and the attempt after the deadline.\<close>

datatype entry_attempt = Direct | Fast | Armed bool | Final

datatype pc =
    Idle
  | ELoad entry_attempt        \<comment> \<open>before the first load of the state\<close>
  | EAdd entry_attempt         \<comment> \<open>before \<^verbatim>\<open>active_mutations.fetch_add\<close>\<close>
  | EReload entry_attempt      \<comment> \<open>before the second load of the state\<close>
  | EUndo entry_attempt        \<comment> \<open>before \<^verbatim>\<open>fetch_sub\<close> on the refused path\<close>
  | EUndoNotify entry_attempt  \<comment> \<open>before \<^verbatim>\<open>notify_waiters\<close> on the refused path\<close>
  | EArm                 \<comment> \<open>before \<^verbatim>\<open>notified()\<close> and \<^verbatim>\<open>enable\<close>\<close>
  | EParked bool         \<comment> \<open>in \<^verbatim>\<open>timeout_at(deadline, notified)\<close>, woken or not\<close>
  | Refused              \<comment> \<open>\<^verbatim>\<open>None\<close> has been returned\<close>
  | Permit               \<comment> \<open>holds a \<^verbatim>\<open>PersistenceMutation\<close>\<close>
  | DropNotify           \<comment> \<open>in its \<^verbatim>\<open>drop\<close>, before \<^verbatim>\<open>notify_waiters\<close>\<close>
  | QLock                \<comment> \<open>waiting for the exclusive mutex\<close>
  | QStore               \<comment> \<open>before the store of \<^verbatim>\<open>PERSISTENCE_QUIESCING\<close>\<close>
  | QCheck               \<comment> \<open>before the first load of the counter in the loop\<close>
  | QArm
  | QRecheck bool        \<comment> \<open>before the second load, future armed\<close>
  | QParked bool
  | Guard                \<comment> \<open>holds a \<^verbatim>\<open>PersistenceQuiesce\<close>\<close>
  | QNotify              \<comment> \<open>in its \<^verbatim>\<open>drop\<close>, admission reopened\<close>
  | QUnlock              \<comment> \<open>before the mutex guard is dropped\<close>

record coordinator =
  co_quiescing :: bool
  co_active :: nat
  co_owner :: "tid option"
  co_pc :: "tid \<Rightarrow> pc"
  co_buffered :: bool    \<comment> \<open>the store of the owner is not yet visible\<close>

definition coordinator_new :: coordinator where
  "coordinator_new = \<lparr>co_quiescing = False, co_active = 0, co_owner = None, co_pc = (\<lambda>_. Idle), co_buffered = False\<rparr>"

section \<open>Operations\<close>

fun wake_attempt :: "entry_attempt \<Rightarrow> entry_attempt" where
  "wake_attempt (Armed w) = Armed True"
| "wake_attempt a = a"

fun co_wake :: "pc \<Rightarrow> pc" where
  "co_wake (ELoad a) = ELoad (wake_attempt a)"
| "co_wake (EAdd a) = EAdd (wake_attempt a)"
| "co_wake (EReload a) = EReload (wake_attempt a)"
| "co_wake (EUndo a) = EUndo (wake_attempt a)"
| "co_wake (EUndoNotify a) = EUndoNotify (wake_attempt a)"
| "co_wake (EParked w) = EParked True"
| "co_wake (QRecheck w) = QRecheck True"
| "co_wake (QParked w) = QParked True"
| "co_wake p = p"

definition co_goto :: "tid \<Rightarrow> pc \<Rightarrow> coordinator \<Rightarrow> coordinator" where
  "co_goto t p s = s\<lparr>co_pc := (co_pc s)(t := p)\<rparr>"

definition co_notify_waiters :: "coordinator \<Rightarrow> coordinator" where
  "co_notify_waiters s = s\<lparr>co_pc := co_wake \<circ> co_pc s\<rparr>"

text \<open>What a refused attempt continues with.\<close>

fun after_refusal :: "entry_attempt \<Rightarrow> pc" where
  "after_refusal Direct = Refused"
| "after_refusal Fast = EArm"
| "after_refusal (Armed w) = EParked w"
| "after_refusal Final = Refused"

text \<open>One atomic step of \<^verbatim>\<open>enter_mutation\<close> and \<^verbatim>\<open>enter_mutation_waiting\<close>.\<close>

fun enter_step :: "tid \<Rightarrow> pc \<Rightarrow> coordinator \<Rightarrow> coordinator option" where
  "enter_step t (ELoad a) s = Some (co_goto t (if co_quiescing s then after_refusal a else EAdd a) s)"
| "enter_step t (EAdd a) s = Some (co_goto t (EReload a) (s\<lparr>co_active := co_active s + 1\<rparr>))"
| "enter_step t (EReload a) s = Some (co_goto t (if co_quiescing s then EUndo a else Permit) s)"
| "enter_step t (EUndo a) s =
     Some (co_goto t (if co_active s = 1 then EUndoNotify a else after_refusal a) (s\<lparr>co_active := co_active s - 1\<rparr>))"
| "enter_step t (EUndoNotify a) s = (let s = co_notify_waiters s in
     Some (co_goto t (after_refusal (case co_pc s t of EUndoNotify b \<Rightarrow> b | _ \<Rightarrow> a)) s))"
| "enter_step t EArm s = Some (co_goto t (ELoad (Armed False)) s)"
| "enter_step t (EParked w) s = (if w then Some (co_goto t EArm s) else None)"
| "enter_step t Refused s = Some (co_goto t Idle s)"
| "enter_step t _ s = None"

text \<open>\<^verbatim>\<open>drop\<close> of a permit.\<close>

fun permit_step :: "tid \<Rightarrow> pc \<Rightarrow> coordinator \<Rightarrow> coordinator option" where
  "permit_step t Permit s =
     Some (co_goto t (if co_active s = 1 then DropNotify else Idle) (s\<lparr>co_active := co_active s - 1\<rparr>))"
| "permit_step t DropNotify s = Some (co_goto t Idle (co_notify_waiters s))"
| "permit_step t _ s = None"

text \<open>\<^verbatim>\<open>quiesce\<close>. The store is buffered when \<open>late\<close>.\<close>

fun quiesce_step :: "bool \<Rightarrow> tid \<Rightarrow> pc \<Rightarrow> coordinator \<Rightarrow> coordinator option" where
  "quiesce_step late t QLock s = (if co_owner s = None then Some (co_goto t QStore (s\<lparr>co_owner := Some t\<rparr>)) else None)"
| "quiesce_step late t QStore s =
     Some (co_goto t QCheck (if late then s\<lparr>co_buffered := True\<rparr> else s\<lparr>co_quiescing := True\<rparr>))"
| "quiesce_step late t QCheck s = Some (co_goto t (if co_active s = 0 then Guard else QArm) s)"
| "quiesce_step late t QArm s = Some (co_goto t (QRecheck False) s)"
| "quiesce_step late t (QRecheck w) s = Some (co_goto t (if co_active s = 0 then Guard else QParked w) s)"
| "quiesce_step late t (QParked w) s = (if w then Some (co_goto t QCheck s) else None)"
| "quiesce_step late t _ s = None"

text \<open>\<^verbatim>\<open>drop\<close> of the guard: admission is reopened, the waiters are woken, then the fields are dropped.\<close>

fun guard_step :: "tid \<Rightarrow> pc \<Rightarrow> coordinator \<Rightarrow> coordinator option" where
  "guard_step t Guard s = Some (co_goto t QNotify (s\<lparr>co_quiescing := False, co_buffered := False\<rparr>))"
| "guard_step t QNotify s = Some (co_goto t QUnlock (co_notify_waiters s))"
| "guard_step t QUnlock s = Some (co_goto t Idle (s\<lparr>co_owner := None\<rparr>))"
| "guard_step t _ s = None"

text \<open>The calls a thread makes, the next atomic operation of the one it is in, the deadline of a parked
  writer, and the arrival of a buffered store.\<close>

datatype co_event = Enter tid | EnterWaiting tid | Quiesce tid | Advance tid | Deadline tid | Flush

fun co_step :: "bool \<Rightarrow> co_event \<Rightarrow> coordinator \<Rightarrow> coordinator option" where
  "co_step late (Enter t) s = (if co_pc s t = Idle then Some (co_goto t (ELoad Direct) s) else None)"
| "co_step late (EnterWaiting t) s = (if co_pc s t = Idle then Some (co_goto t (ELoad Fast) s) else None)"
| "co_step late (Quiesce t) s = (if co_pc s t = Idle then Some (co_goto t QLock s) else None)"
| "co_step late (Advance t) s = (case enter_step t (co_pc s t) s of
     Some s' \<Rightarrow> Some s'
   | None \<Rightarrow> (case permit_step t (co_pc s t) s of
       Some s' \<Rightarrow> Some s'
     | None \<Rightarrow> (case quiesce_step late t (co_pc s t) s of
         Some s' \<Rightarrow> Some s'
       | None \<Rightarrow> guard_step t (co_pc s t) s)))"
| "co_step late (Deadline t) s = (if co_pc s t = EParked False then Some (co_goto t (ELoad Final) s) else None)"
| "co_step late Flush s = (if co_buffered s then Some (s\<lparr>co_quiescing := True, co_buffered := False\<rparr>) else None)"

fun co_run :: "bool \<Rightarrow> co_event list \<Rightarrow> coordinator \<Rightarrow> coordinator option" where
  "co_run late [] s = Some s"
| "co_run late (e # es) s = (case co_step late e s of None \<Rightarrow> None | Some s' \<Rightarrow> co_run late es s')"

inductive co_reach :: "bool \<Rightarrow> coordinator \<Rightarrow> bool" for late where
  init: "co_reach late coordinator_new"
| step: "co_reach late s \<Longrightarrow> co_step late e s = Some s' \<Longrightarrow> co_reach late s'"

lemma co_run_reach: "co_reach late s \<Longrightarrow> co_run late es s = Some s' \<Longrightarrow> co_reach late s'"
  by (induction es arbitrary: s) (auto split: option.splits intro: co_reach.step)

section \<open>Invariant\<close>

text \<open>The threads the counter counts; the threads in the critical section of the mutex, with admission closed
  or not; the threads about to wake everybody.\<close>

fun counted :: "pc \<Rightarrow> bool" where
  "counted (EReload a) = True" | "counted (EUndo a) = True" | "counted Permit = True" | "counted _ = False"

fun co_closed :: "pc \<Rightarrow> bool" where
  "co_closed QCheck = True" | "co_closed QArm = True" | "co_closed (QRecheck w) = True" | "co_closed (QParked w) = True"
| "co_closed Guard = True" | "co_closed _ = False"

fun co_owning :: "pc \<Rightarrow> bool" where
  "co_owning QStore = True" | "co_owning QNotify = True" | "co_owning QUnlock = True" | "co_owning p = co_closed p"

fun drains :: "pc \<Rightarrow> bool" where
  "drains (EUndoNotify a) = True" | "drains DropNotify = True" | "drains _ = False"

definition draining :: "coordinator \<Rightarrow> bool" where
  "draining s \<longleftrightarrow> (\<exists>t. drains (co_pc s t))"

definition reopening :: "coordinator \<Rightarrow> bool" where
  "reopening s \<longleftrightarrow> (\<exists>t. co_pc s t = QNotify)"

text \<open>A refused attempt in the loop whose future has not been woken.\<close>

fun unwoken :: "pc \<Rightarrow> bool" where
  "unwoken (EUndo a) = (a = Armed False)" | "unwoken (EUndoNotify a) = (a = Armed False)"
| "unwoken (EParked w) = (\<not> w)" | "unwoken _ = False"

definition count_ok :: "coordinator \<Rightarrow> bool" where
  "count_ok s \<longleftrightarrow> finite {t. counted (co_pc s t)} \<and> co_active s = card {t. counted (co_pc s t)}"

definition owner_ok :: "coordinator \<Rightarrow> bool" where
  "owner_ok s \<longleftrightarrow> (\<forall>t. co_owning (co_pc s t) \<longleftrightarrow> co_owner s = Some t)"

definition closed_ok :: "coordinator \<Rightarrow> bool" where
  "closed_ok s \<longleftrightarrow> co_quiescing s = (case co_owner s of None \<Rightarrow> False | Some t \<Rightarrow> co_closed (co_pc s t)) \<and> \<not> co_buffered s"

definition excl_ok :: "coordinator \<Rightarrow> bool" where
  "excl_ok s \<longleftrightarrow> (\<forall>t u. co_pc s t = Guard \<longrightarrow> co_pc s u \<noteq> Permit)"

definition wake_ok :: "coordinator \<Rightarrow> bool" where
  "wake_ok s \<longleftrightarrow> (\<forall>t. co_pc s t = QParked False \<longrightarrow> co_active s > 0 \<or> draining s)
    \<and> (\<forall>t. unwoken (co_pc s t) \<longrightarrow> co_quiescing s \<or> reopening s)"

lemmas co_oks = count_ok_def owner_ok_def closed_ok_def excl_ok_def wake_ok_def

lemma wake_simps [simp]:
  "counted (co_wake p) = counted p" "co_closed (co_wake p) = co_closed p" "co_owning (co_wake p) = co_owning p"
  "co_wake p = Guard \<longleftrightarrow> p = Guard" "co_wake p = Permit \<longleftrightarrow> p = Permit" "co_wake p \<noteq> QParked False" "\<not> unwoken (co_wake p)"
  by (cases p; simp; rename_tac a; case_tac a; simp)+

lemma refused_simps [simp]:
  "\<not> counted (after_refusal a)" "\<not> co_closed (after_refusal a)" "\<not> co_owning (after_refusal a)" "after_refusal a \<noteq> Guard" "after_refusal a \<noteq> Permit"
  "after_refusal a \<noteq> QParked w" "unwoken (after_refusal a) \<longleftrightarrow> a = Armed False" "after_refusal a \<noteq> QNotify" "\<not> drains (after_refusal a)"
  "wake_attempt a \<noteq> Armed False"
  by (cases a; simp)+

lemma goto_simps [simp]:
  "co_pc (co_goto t p s) u = (if u = t then p else co_pc s u)" "co_active (co_goto t p s) = co_active s" "co_owner (co_goto t p s) = co_owner s"
  "co_quiescing (co_goto t p s) = co_quiescing s" "co_buffered (co_goto t p s) = co_buffered s"
  "co_pc (co_notify_waiters s) u = co_wake (co_pc s u)" "co_active (co_notify_waiters s) = co_active s" "co_owner (co_notify_waiters s) = co_owner s"
  "co_quiescing (co_notify_waiters s) = co_quiescing s" "co_buffered (co_notify_waiters s) = co_buffered s"
  by (simp_all add: co_goto_def co_notify_waiters_def)

text \<open>The counter counts.\<close>

lemma count_ok_goto:
  assumes "count_ok s" and "n + (if counted (co_pc s t) then 1 else 0) = co_active s + (if counted p then 1 else 0)"
  shows "count_ok (co_goto t p (s\<lparr>co_active := n\<rparr>))"
proof -
  let ?C = "{u. counted (co_pc s u)}"
  have c: "{u. counted (co_pc (co_goto t p (s\<lparr>co_active := n\<rparr>)) u)} = (if counted p then insert t ?C else ?C - {t})" by auto
  have f: "finite ?C" "co_active s = card ?C" using assms(1) by (simp_all add: count_ok_def)
  then have "counted (co_pc s t) \<Longrightarrow> card ?C > 0" by (auto simp: card_gt_0_iff)
  then show ?thesis unfolding count_ok_def c using f assms(2) by (auto simp: card_insert_if card_Diff_singleton_if)
qed

lemma count_ok_move: "count_ok s \<Longrightarrow> counted (co_pc s t) = counted p \<Longrightarrow> count_ok (co_goto t p s)"
  using count_ok_goto [of s "co_active s" t p] by simp

lemma count_ok_same [simp]:
  "count_ok (co_notify_waiters s) = count_ok s" "count_ok (s\<lparr>co_owner := x\<rparr>) = count_ok s"
  "count_ok (s\<lparr>co_quiescing := b\<rparr>) = count_ok s" "count_ok (s\<lparr>co_buffered := b\<rparr>) = count_ok s"
  by (simp_all add: count_ok_def)

lemma count_pos: "count_ok s \<Longrightarrow> counted (co_pc s t) \<Longrightarrow> co_active s > 0"
  by (auto simp: count_ok_def card_gt_0_iff)

lemma count_step: "count_ok s \<Longrightarrow> co_step False e s = Some s' \<Longrightarrow> count_ok s'"
proof (cases e)
  case (Advance t)
  assume c: "count_ok s" and e: "co_step False e s = Some s'"
  show ?thesis using e c count_pos [OF c, of t] unfolding Advance
    by (cases "co_pc s t") (auto simp: Let_def split: if_splits intro: count_ok_goto count_ok_move)
qed (auto split: if_splits intro!: count_ok_move)

text \<open>One owner of the mutex; admission is closed while it is between the store and the reopening.\<close>

lemma closed_owning: "co_closed p \<Longrightarrow> co_owning p"
  by (cases p) auto

lemma owner_ok_same [simp]:
  "owner_ok (co_notify_waiters s) = owner_ok s" "owner_ok (s\<lparr>co_active := n\<rparr>) = owner_ok s"
  "owner_ok (s\<lparr>co_quiescing := b\<rparr>) = owner_ok s" "owner_ok (s\<lparr>co_buffered := b\<rparr>) = owner_ok s"
  by (simp_all add: owner_ok_def)

lemma owner_ok_move: "owner_ok s \<Longrightarrow> co_owning (co_pc s t) = co_owning p \<Longrightarrow> owner_ok (co_goto t p s)"
  by (simp add: owner_ok_def)

lemma owner_ok_take: "owner_ok s \<Longrightarrow> co_owner s = None \<Longrightarrow> co_owning p \<Longrightarrow> owner_ok (co_goto t p (s\<lparr>co_owner := Some t\<rparr>))"
  by (simp add: owner_ok_def)

lemma owner_ok_release: "owner_ok s \<Longrightarrow> co_owning (co_pc s t) \<Longrightarrow> \<not> co_owning p \<Longrightarrow> owner_ok (co_goto t p (s\<lparr>co_owner := None\<rparr>))"
  by (simp add: owner_ok_def)

lemma owner_step: "owner_ok s \<Longrightarrow> co_step False e s = Some s' \<Longrightarrow> owner_ok s'"
proof (cases e)
  case (Advance t)
  assume c: "owner_ok s" and e: "co_step False e s = Some s'"
  show ?thesis using e c unfolding Advance
    by (cases "co_pc s t") (auto simp: Let_def split: if_splits intro: owner_ok_move owner_ok_take owner_ok_release)
qed (auto split: if_splits intro!: owner_ok_move)

lemma closed_step: "owner_ok s \<Longrightarrow> closed_ok s \<Longrightarrow> co_step False e s = Some s' \<Longrightarrow> closed_ok s'"
proof (cases e)
  case (Advance t)
  assume c: "owner_ok s" "closed_ok s" and e: "co_step False e s = Some s'"
  have "co_owning (co_pc s t) \<longleftrightarrow> co_owner s = Some t" using c by (simp add: owner_ok_def)
  then show ?thesis using e c(2) unfolding Advance closed_ok_def
    by (cases "co_pc s t") (auto simp: Let_def split: if_splits option.splits)
qed (auto simp: closed_ok_def owner_ok_def split: if_splits option.splits)

text \<open>Nobody has a permit while a guard is held.\<close>

lemma excl_step:
  assumes "count_ok s" "owner_ok s" "closed_ok s" "excl_ok s" and e: "co_step False e s = Some s'"
  shows "excl_ok s'"
proof -
  have none: "co_active s = 0 \<Longrightarrow> co_pc s u \<noteq> Permit" for u using count_pos [OF assms(1), of u] by auto
  have quiet: "co_pc s u = Guard \<Longrightarrow> co_quiescing s" for u
    using assms(2,3) by (metis co_closed.simps(5) closed_ok_def option.simps(5) owner_ok_def closed_owning)
  have old: "co_pc s u = Guard \<Longrightarrow> co_pc s v \<noteq> Permit" for u v using assms(4) unfolding excl_ok_def by blast
  show ?thesis
  proof (cases e)
    case (Advance t)
    show ?thesis using e none quiet old unfolding Advance excl_ok_def
      by (cases "co_pc s t") (auto simp: Let_def split: if_splits)
  qed (use e old in \<open>auto simp: excl_ok_def split: if_splits\<close>)
qed

text \<open>No wake-up is lost.\<close>

lemma wake_ok_move:
  assumes "wake_ok s" and "drains (co_pc s t) \<longrightarrow> drains p" and "co_pc s t = QNotify \<longrightarrow> p = QNotify"
    and "p = QParked False \<longrightarrow> co_active s > 0" and "unwoken p \<longrightarrow> unwoken (co_pc s t) \<or> co_quiescing s"
  shows "wake_ok (co_goto t p s)"
proof -
  have "draining s \<longrightarrow> draining (co_goto t p s)" using assms(2) by (auto simp: draining_def)
  moreover have "reopening s \<longrightarrow> reopening (co_goto t p s)" using assms(3) by (auto simp: reopening_def)
  ultimately show ?thesis using assms(1,4,5) unfolding wake_ok_def goto_simps by metis
qed

lemma wake_ok_less:
  assumes "wake_ok s" and "co_pc s t \<noteq> QNotify" and "p \<noteq> QParked False" and "unwoken p \<longrightarrow> unwoken (co_pc s t)" and "0 < n \<or> drains p"
  shows "wake_ok (co_goto t p (s\<lparr>co_active := n\<rparr>))"
proof -
  have "0 < n \<or> draining (co_goto t p (s\<lparr>co_active := n\<rparr>))" using assms(5) by (auto simp: draining_def)
  moreover have "reopening s \<longrightarrow> reopening (co_goto t p (s\<lparr>co_active := n\<rparr>))" using assms(2) by (auto simp: reopening_def)
  ultimately show ?thesis using assms(1,4) unfolding wake_ok_def by auto
qed

lemma wake_ok_notified: "p \<noteq> QParked False \<Longrightarrow> \<not> unwoken p \<Longrightarrow> wake_ok (co_goto t p (co_notify_waiters s))"
  by (simp add: wake_ok_def)

lemma wake_ok_more: "wake_ok s \<Longrightarrow> wake_ok (s\<lparr>co_active := Suc n\<rparr>)" "wake_ok s \<Longrightarrow> wake_ok (s\<lparr>co_quiescing := True\<rparr>)"
  "wake_ok (s\<lparr>co_owner := x\<rparr>) = wake_ok s"
  by (simp_all add: wake_ok_def draining_def reopening_def)

lemma wake_ok_reopen:
  assumes "wake_ok s" and "\<not> drains (co_pc s t)"
  shows "wake_ok (co_goto t QNotify (s\<lparr>co_quiescing := False, co_buffered := b\<rparr>))"
proof -
  have "draining s \<longrightarrow> draining (co_goto t QNotify (s\<lparr>co_quiescing := False, co_buffered := b\<rparr>))" using assms(2) by (auto simp: draining_def)
  moreover have "reopening (co_goto t QNotify (s\<lparr>co_quiescing := False, co_buffered := b\<rparr>))" by (auto simp: reopening_def)
  ultimately show ?thesis using assms(1) by (auto simp: wake_ok_def)
qed

lemma wake_step:
  assumes "count_ok s" "wake_ok s" "closed_ok s" and e: "co_step False e s = Some s'"
  shows "wake_ok s'"
proof (cases e)
  case (Advance t)
  show ?thesis using e assms(2) count_pos [OF assms(1), of t] unfolding Advance
    by (cases "co_pc s t") (auto simp: Let_def wake_ok_more(3) split: if_splits
      intro: wake_ok_move wake_ok_less wake_ok_notified wake_ok_more(1,2) wake_ok_reopen)
qed (use e assms(2,3) in \<open>auto simp: closed_ok_def split: if_splits intro: wake_ok_move wake_ok_more\<close>)

lemma co_reach_ok: "co_reach False s \<Longrightarrow> count_ok s \<and> owner_ok s \<and> closed_ok s \<and> excl_ok s \<and> wake_ok s"
proof (induction rule: co_reach.induct)
  case init
  show ?case by (simp add: coordinator_new_def co_oks)
next
  case (step s e s')
  then show ?case using count_step owner_step closed_step excl_step wake_step by metis
qed

text \<open>A thread that is not waiting can take its next step.\<close>

fun co_waiting :: "coordinator \<Rightarrow> pc \<Rightarrow> bool" where
  "co_waiting s (EParked w) = (\<not> w)" | "co_waiting s (QParked w) = (\<not> w)" | "co_waiting s QLock = (co_owner s \<noteq> None)"
| "co_waiting s Idle = True" | "co_waiting s _ = False"

lemma advance_enabled: "\<not> co_waiting s (co_pc s t) \<Longrightarrow> \<exists>s'. co_step late (Advance t) s = Some s'"
  by (cases "co_pc s t") (auto simp: Let_def)

section \<open>Properties\<close>

text \<open>C29. However the threads are interleaved, and if stores are visible at once: while one thread holds the
  quiesce guard, no thread holds a write permit and no other thread holds the guard, so that the snapshot taken
  under the guard sees no write in progress.\<close>

theorem quiesce_excludes:
  assumes "co_reach False s" and "co_pc s q = Guard"
  shows "co_pc s t \<noteq> Permit \<and> (co_pc s t = Guard \<longrightarrow> t = q)"
proof -
  have o: "co_pc s u = Guard \<Longrightarrow> co_owner s = Some u" for u
    using co_reach_ok [OF assms(1)] by (metis co_closed.simps(5) closed_owning owner_ok_def)
  have "co_pc s t \<noteq> Permit" using co_reach_ok [OF assms(1)] assms(2) unfolding excl_ok_def by blast
  then show ?thesis using o [of t] o [OF assms(2)] by auto
qed

text \<open>A writer gets its permit, a quiescer arrives and parks; then the write ends and the quiescer gets the guard.\<close>

definition park_events :: "co_event list" where
  "park_events = [Enter 1, Advance 1, Advance 1, Advance 1, Quiesce 2, Advance 2, Advance 2, Advance 2, Advance 2, Advance 2]"

definition resume_events :: "co_event list" where
  "resume_events = [Advance 1, Advance 1, Advance 2, Advance 2]"

lemma park_run:
  "\<exists>s. co_reach False s \<and> co_pc s 2 = QParked False \<and> co_pc s 1 = Permit"
proof -
  obtain s where "co_run False park_events coordinator_new = Some s" "co_pc s 2 = QParked False" "co_pc s 1 = Permit"
    by (simp add: park_events_def coordinator_new_def co_goto_def)
  then show ?thesis using co_run_reach [OF co_reach.init] by blast
qed

theorem quiesce_excludes_witness:
  "\<exists>s. co_reach False s \<and> co_pc s 2 = Guard \<and> co_pc s 1 \<noteq> Permit"
proof -
  obtain s where "co_run False (park_events @ resume_events) coordinator_new = Some s" and g: "co_pc s 2 = Guard"
    by (simp add: park_events_def resume_events_def coordinator_new_def co_goto_def co_notify_waiters_def)
  then have r: "co_reach False s" using co_run_reach [OF co_reach.init] by blast
  then show ?thesis using quiesce_excludes [OF r g, of 1] g by blast
qed

text \<open>C30. No wake-up is lost and the coordinator never gets stuck: a quiescer that sleeps without having been
  woken has admitted writes to wait for, or somebody is about to wake it; a writer that sleeps waits for admission,
  or somebody is about to wake it; and whenever any thread is in a call, some thread can take a step.\<close>

theorem coordinator_live:
  assumes "co_reach False s"
  shows "(co_pc s t = QParked False \<longrightarrow> (\<exists>u. counted (co_pc s u)) \<or> draining s)
    \<and> (co_pc s t = EParked False \<longrightarrow> co_quiescing s \<or> reopening s)
    \<and> (co_pc s t \<noteq> Idle \<longrightarrow> (\<exists>u s'. co_step False (Advance u) s = Some s'))"
proof -
  note ok = co_reach_ok [OF assms]
  have q: "(\<exists>u. counted (co_pc s u)) \<or> draining s" if "co_pc s v = QParked False" for v
    using ok that by (auto simp: wake_ok_def count_ok_def card_gt_0_iff)
  have e: "co_quiescing s \<or> reopening s" if "co_pc s v = EParked False" for v
    using ok that unfolding wake_ok_def by (metis unwoken.simps(3))
  have c: "\<exists>u. \<not> co_waiting s (co_pc s u)" if "co_pc s v = QParked False" for v
  proof -
    have "counted p \<Longrightarrow> \<not> co_waiting s p" "drains p \<Longrightarrow> \<not> co_waiting s p" for p by (cases p; simp)+
    then show ?thesis using q [OF that] by (auto simp: draining_def)
  qed
  have o: "\<exists>u. \<not> co_waiting s (co_pc s u)" if "co_owning (co_pc s v)" for v
  proof (cases "co_waiting s (co_pc s v)")
    case True
    then have "co_pc s v = QParked False" using that by (cases "co_pc s v") auto
    then show ?thesis by (rule c)
  qed blast
  have "\<exists>u. \<not> co_waiting s (co_pc s u)" if i: "co_pc s t \<noteq> Idle"
  proof (cases "co_waiting s (co_pc s t)")
    case True
    then consider "co_pc s t = EParked False" | "co_pc s t = QParked False" | "co_pc s t = QLock" "co_owner s \<noteq> None"
      using i by (cases "co_pc s t") auto
    then show ?thesis
    proof cases
      case 1
      from e [OF this] show ?thesis
      proof
        assume "co_quiescing s"
        then obtain v where "co_closed (co_pc s v)" using ok by (auto simp: closed_ok_def split: option.splits)
        then show ?thesis using o closed_owning by blast
      next
        assume "reopening s"
        then obtain v where "co_pc s v = QNotify" by (auto simp: reopening_def)
        then show ?thesis using o [of v] by simp
      qed
    next
      case 2
      then show ?thesis by (rule c)
    next
      case 3
      then obtain v where "co_owning (co_pc s v)" using ok by (auto simp: owner_ok_def)
      then show ?thesis by (rule o)
    qed
  qed blast
  then show ?thesis using q e advance_enabled by blast
qed

theorem coordinator_live_witness:
  "\<exists>s. co_pc s 2 = QParked False \<and> ((\<exists>u. counted (co_pc s u)) \<or> draining s) \<and> (\<exists>u s'. co_step False (Advance u) s = Some s')"
proof -
  obtain s where s: "co_reach False s" "co_pc s 2 = QParked False" using park_run by blast
  then show ?thesis using coordinator_live [OF s(1), of 2] by auto
qed

text \<open>C31. The orderings in the code do not rule out that the store closing admission becomes visible after the
  quiescer has read the counter. Then a writer can read the old state twice and get its permit while the quiescer
  reads a counter of zero and gets the guard: a snapshot runs next to a write.\<close>

theorem quiesce_race:
  "\<exists>s. co_reach True s \<and> co_pc s 1 = Permit \<and> co_pc s 2 = Guard"
proof -
  let ?es = "[Quiesce 2, Advance 2, Advance 2, Advance 2, Enter 1, Advance 1, Advance 1, Advance 1]"
  obtain s where "co_run True ?es coordinator_new = Some s" "co_pc s 1 = Permit" "co_pc s 2 = Guard"
    by (simp add: coordinator_new_def co_goto_def)
  then show ?thesis using co_run_reach [OF co_reach.init] by blast
qed

end
