(* ===== verification/Notify.thy ===== *)
theory Notify
  imports Handlers
begin

text \<open>
  The flags of \<^verbatim>\<open>notify-keyspace-events\<close> and the class and event name of each command (\<^verbatim>\<open>notify.rs\<close>).
  A flag word is a \<^verbatim>\<open>u64\<close>; the atomic that holds it is a field of the server's state.
\<close>

unbundle bit_operations_syntax

type_synonym notify_flags = u64

definition K_GENERIC :: u64 where "K_GENERIC = 1"
definition K_STRING :: u64 where "K_STRING = 2"
definition K_LIST :: u64 where "K_LIST = 4"
definition K_HASH :: u64 where "K_HASH = 8"
definition K_ZSET :: u64 where "K_ZSET = 16"
definition K_EXPIRED :: u64 where "K_EXPIRED = 32"
definition K_EVICTED :: u64 where "K_EVICTED = 64"
definition K_STREAM :: u64 where "K_STREAM = 128"
definition PREFIX_KEYSPACE :: u64 where "PREFIX_KEYSPACE = 0x100000000"
definition PREFIX_KEYEVENT :: u64 where "PREFIX_KEYEVENT = 0x200000000"

lemmas notify_bits = K_GENERIC_def K_STRING_def K_LIST_def K_HASH_def K_ZSET_def K_EXPIRED_def K_EVICTED_def K_STREAM_def
  PREFIX_KEYSPACE_def PREFIX_KEYEVENT_def

text \<open>The characters are ASCII, so the bytes of the text are its characters as far as the match goes.\<close>

definition notify_char :: "u8 \<Rightarrow> u64" where
  "notify_char c = (
     if c = 0x67 then K_GENERIC else if c = 0x24 then K_STRING else if c = 0x6C then K_LIST else if c = 0x68 then K_HASH
     else if c = 0x7A then K_ZSET else if c = 0x78 then K_EXPIRED else if c = 0x65 then K_EVICTED else if c = 0x74 then K_STREAM
     else if c = 0x4B then PREFIX_KEYSPACE else if c = 0x45 then PREFIX_KEYEVENT
     else if c = 0x41 then K_GENERIC OR K_STRING OR K_LIST OR K_HASH OR K_ZSET OR K_EXPIRED OR K_EVICTED OR K_STREAM
     else 0)"

definition notify_parse :: "bytes \<Rightarrow> notify_flags" where
  "notify_parse s = fold (\<lambda>c flags. flags OR notify_char c) s 0"

definition notify_contains :: "notify_flags \<Rightarrow> u64 \<Rightarrow> bool" where
  "notify_contains flags b \<longleftrightarrow> flags AND b \<noteq> 0"

definition notify_as_str :: "notify_flags \<Rightarrow> bytes" where
  "notify_as_str flags =
     (if notify_contains flags PREFIX_KEYSPACE then asc ''K'' else []) @ (if notify_contains flags PREFIX_KEYEVENT then asc ''E'' else [])
   @ (if notify_contains flags K_GENERIC then asc ''g'' else []) @ (if notify_contains flags K_STRING then [0x24] else [])
   @ (if notify_contains flags K_LIST then asc ''l'' else []) @ (if notify_contains flags K_HASH then asc ''h'' else [])
   @ (if notify_contains flags K_ZSET then asc ''z'' else []) @ (if notify_contains flags K_EXPIRED then asc ''x'' else [])
   @ (if notify_contains flags K_EVICTED then asc ''e'' else []) @ (if notify_contains flags K_STREAM then asc ''t'' else [])"

definition classify_table :: "(string list \<times> u64 \<times> string) list" where
  "classify_table = [
     ([''DEL'', ''UNLINK''], K_GENERIC, ''del''),
     ([''EXPIRE'', ''PEXPIRE'', ''EXPIREAT'', ''PEXPIREAT''], K_GENERIC, ''expire''),
     ([''PERSIST''], K_GENERIC, ''persist''),
     ([''RENAME'', ''RENAMENX''], K_GENERIC, ''rename''),
     ([''COPY''], K_GENERIC, ''copy''),
     ([''FLUSHDB'', ''FLUSHALL''], K_GENERIC, ''flushdb''),
     ([''SET'', ''SETNX'', ''SETEX'', ''PSETEX'', ''MSET'', ''MSETNX''], K_STRING, ''set''),
     ([''GETSET''], K_STRING, ''getset''),
     ([''GETDEL'', ''GETEX''], K_STRING, ''getdel''),
     ([''INCR'', ''INCRBY'', ''INCRBYFLOAT'', ''DECR'', ''DECRBY''], K_STRING, ''incr''),
     ([''APPEND'', ''SETRANGE''], K_STRING, ''append''),
     ([''LPUSH'', ''LPUSHX''], K_LIST, ''lpush''),
     ([''RPUSH'', ''RPUSHX''], K_LIST, ''rpush''),
     ([''LPOP''], K_LIST, ''lpop''),
     ([''RPOP''], K_LIST, ''rpop''),
     ([''LSET''], K_LIST, ''lset''),
     ([''LREM''], K_LIST, ''lrem''),
     ([''LTRIM''], K_LIST, ''ltrim''),
     ([''LINSERT''], K_LIST, ''linsert''),
     ([''LMOVE'', ''RPOPLPUSH''], K_LIST, ''lmove''),
     ([''HSET'', ''HSETNX'', ''HMSET''], K_HASH, ''hset''),
     ([''HDEL''], K_HASH, ''hdel''),
     ([''HINCRBY'', ''HINCRBYFLOAT''], K_HASH, ''hincrby''),
     ([''ZADD''], K_ZSET, ''zadd''),
     ([''ZINCRBY''], K_ZSET, ''zincrby''),
     ([''ZREM''], K_ZSET, ''zrem''),
     ([''ZREMRANGEBYSCORE''], K_ZSET, ''zremrangebyscore''),
     ([''ZREMRANGEBYRANK''], K_ZSET, ''zremrangebyrank''),
     ([''ZUNIONSTORE'', ''ZINTERSTORE'', ''ZDIFFSTORE''], K_ZSET, ''zunionstore''),
     ([''XADD''], K_STREAM, ''xadd''),
     ([''XDEL''], K_STREAM, ''xdel''),
     ([''XTRIM''], K_STREAM, ''xtrim''),
     ([''XREADGROUP''], K_STREAM, ''xreadgroup''),
     ([''XACK''], K_STREAM, ''xack''),
     ([''XCLAIM''], K_STREAM, ''xclaim''),
     ([''XAUTOCLAIM''], K_STREAM, ''xautoclaim''),
     ([''XSETID''], K_STREAM, ''xsetid''),
     ([''XGROUP''], K_STREAM, ''xgroup'')]"

fun classify_in :: "(string list \<times> u64 \<times> string) list \<Rightarrow> bytes \<Rightarrow> (u64 \<times> bytes) option" where
  "classify_in [] cmd = None"
| "classify_in ((names, b, ev) # rest) cmd = (if cmd \<in> set (map asc names) then Some (b, asc ev) else classify_in rest cmd)"

definition classify :: "bytes \<Rightarrow> (u64 \<times> bytes) option" where
  "classify = classify_in classify_table"

section \<open>Reading back the flags\<close>

definition notify_mask :: u64 where
  "notify_mask = PREFIX_KEYSPACE OR PREFIX_KEYEVENT OR K_GENERIC OR K_STRING OR K_LIST OR K_HASH OR K_ZSET OR K_EXPIRED OR K_EVICTED OR K_STREAM"

lemma notify_fold: "fold (\<lambda>c flags. flags OR notify_char c) s x = x OR notify_parse s"
proof (induction s arbitrary: x)
  case (Cons c s)
  have "notify_parse (c # s) = notify_char c OR notify_parse s"
    using Cons.IH [of "0 OR notify_char c"] by (simp add: notify_parse_def)
  then show ?case using Cons.IH [of "x OR notify_char c"] by (simp add: or.assoc)
qed (simp add: notify_parse_def)

lemma notify_parse_simps [simp]:
  "notify_parse [] = 0" "notify_parse (c # s) = notify_char c OR notify_parse s" "notify_parse (s @ t) = notify_parse s OR notify_parse t"
proof -
  show "notify_parse [] = 0" by (simp add: notify_parse_def)
  show "notify_parse (c # s) = notify_char c OR notify_parse s" using notify_fold [of s "0 OR notify_char c"] by (simp add: notify_parse_def)
  show "notify_parse (s @ t) = notify_parse s OR notify_parse t" using notify_fold [of t "notify_parse s"] by (simp add: notify_parse_def)
qed

lemma notify_piece:
  assumes "notify_char c = b" and "b = 2 ^ n" and "n < 64"
  shows "notify_parse (if notify_contains flags b then [c] else []) = flags AND b"
proof (cases "bit flags n")
  case True
  then have "flags AND b = b" using assms(2,3) by (intro bit_eqI) (auto simp: bit_simps)
  moreover have "bit b n" using assms(2,3) by (simp add: bit_simps)
  then have "b \<noteq> 0" by auto
  ultimately show ?thesis using assms(1) by (simp add: notify_contains_def)
next
  case False
  then have "flags AND b = 0" using assms(2,3) by (intro bit_eqI) (auto simp: bit_simps)
  then show ?thesis by (simp add: notify_contains_def)
qed

lemma notify_pieces:
  "notify_parse (if notify_contains flags PREFIX_KEYSPACE then asc ''K'' else []) = flags AND PREFIX_KEYSPACE"
  "notify_parse (if notify_contains flags PREFIX_KEYEVENT then asc ''E'' else []) = flags AND PREFIX_KEYEVENT"
  "notify_parse (if notify_contains flags K_GENERIC then asc ''g'' else []) = flags AND K_GENERIC"
  "notify_parse (if notify_contains flags K_STRING then [0x24] else []) = flags AND K_STRING"
  "notify_parse (if notify_contains flags K_LIST then asc ''l'' else []) = flags AND K_LIST"
  "notify_parse (if notify_contains flags K_HASH then asc ''h'' else []) = flags AND K_HASH"
  "notify_parse (if notify_contains flags K_ZSET then asc ''z'' else []) = flags AND K_ZSET"
  "notify_parse (if notify_contains flags K_EXPIRED then asc ''x'' else []) = flags AND K_EXPIRED"
  "notify_parse (if notify_contains flags K_EVICTED then asc ''e'' else []) = flags AND K_EVICTED"
  "notify_parse (if notify_contains flags K_STREAM then asc ''t'' else []) = flags AND K_STREAM"
proof -
  have l: "asc ''K'' = [0x4B]" "asc ''E'' = [0x45]" "asc ''g'' = [0x67]" "asc ''l'' = [0x6C]" "asc ''h'' = [0x68]" "asc ''z'' = [0x7A]"
    "asc ''x'' = [0x78]" "asc ''e'' = [0x65]" "asc ''t'' = [0x74]" by code_simp+
  show "notify_parse (if notify_contains flags PREFIX_KEYSPACE then asc ''K'' else []) = flags AND PREFIX_KEYSPACE"
    unfolding l by (rule notify_piece [of _ _ 32]) (simp_all add: notify_char_def notify_bits)
  show "notify_parse (if notify_contains flags PREFIX_KEYEVENT then asc ''E'' else []) = flags AND PREFIX_KEYEVENT"
    unfolding l by (rule notify_piece [of _ _ 33]) (simp_all add: notify_char_def notify_bits)
  show "notify_parse (if notify_contains flags K_GENERIC then asc ''g'' else []) = flags AND K_GENERIC"
    unfolding l by (rule notify_piece [of _ _ 0]) (simp_all add: notify_char_def notify_bits)
  show "notify_parse (if notify_contains flags K_STRING then [0x24] else []) = flags AND K_STRING"
    by (rule notify_piece [of _ _ 1]) (simp_all add: notify_char_def notify_bits)
  show "notify_parse (if notify_contains flags K_LIST then asc ''l'' else []) = flags AND K_LIST"
    unfolding l by (rule notify_piece [of _ _ 2]) (simp_all add: notify_char_def notify_bits)
  show "notify_parse (if notify_contains flags K_HASH then asc ''h'' else []) = flags AND K_HASH"
    unfolding l by (rule notify_piece [of _ _ 3]) (simp_all add: notify_char_def notify_bits)
  show "notify_parse (if notify_contains flags K_ZSET then asc ''z'' else []) = flags AND K_ZSET"
    unfolding l by (rule notify_piece [of _ _ 4]) (simp_all add: notify_char_def notify_bits)
  show "notify_parse (if notify_contains flags K_EXPIRED then asc ''x'' else []) = flags AND K_EXPIRED"
    unfolding l by (rule notify_piece [of _ _ 5]) (simp_all add: notify_char_def notify_bits)
  show "notify_parse (if notify_contains flags K_EVICTED then asc ''e'' else []) = flags AND K_EVICTED"
    unfolding l by (rule notify_piece [of _ _ 6]) (simp_all add: notify_char_def notify_bits)
  show "notify_parse (if notify_contains flags K_STREAM then asc ''t'' else []) = flags AND K_STREAM"
    unfolding l by (rule notify_piece [of _ _ 7]) (simp_all add: notify_char_def notify_bits)
qed

lemma notify_as_str_mask: "notify_parse (notify_as_str flags) = flags AND notify_mask"
  unfolding notify_as_str_def notify_mask_def notify_parse_simps(3) notify_pieces by (simp only: bit.conj_disj_distrib)

lemma notify_char_mask: "notify_char c AND notify_mask = notify_char c"
  by (simp add: notify_char_def notify_mask_def notify_bits)

lemma notify_parse_mask: "notify_parse s AND notify_mask = notify_parse s"
  by (induction s) (simp_all add: bit.conj_disj_distrib2 notify_char_mask)

text \<open>What \<^verbatim>\<open>CONFIG GET\<close> prints after \<^verbatim>\<open>CONFIG SET\<close> stands for the same flags.\<close>

theorem notify_roundtrip: "notify_parse (notify_as_str (notify_parse s)) = notify_parse s"
  by (simp only: notify_as_str_mask notify_parse_mask)

end
