(* ===== verification/Pubsub.thy ===== *)
theory Pubsub
  imports Handlers Glob "HOL-Library.AList"
begin

text \<open>
  Publish and subscribe (\<^verbatim>\<open>pubsub.rs\<close>) and the subscription commands of a connection
  (\<^verbatim>\<open>do_subscribe\<close> and \<^verbatim>\<open>do_unsubscribe\<close> in \<^verbatim>\<open>connection.rs\<close>).

  A \<^verbatim>\<open>tokio::sync::broadcast\<close> sender is the list of the receivers attached to it; each receiver belongs to a
  relay task of its own, numbered in the order of creation, and holds the last 1024 messages it has not taken.
  A sender that is dropped leaves its receivers without a source. The tables are association lists; their order
  stands for the iteration order of the hash maps.
\<close>

section \<open>The broker\<close>

definition CHANNEL_CAPACITY :: nat where "CHANNEL_CAPACITY = 1024"

datatype message_kind = Message | PMessage | Subscribe | Unsubscribe | PSubscribe | PUnsubscribe

record message =
  ms_kind :: message_kind
  ms_channel :: bytes
  ms_source :: bytes
  ms_payload :: bytes

record pubsub =
  ps_channels :: "(bytes \<times> nat list) list"
  ps_counts :: "(bytes \<times> nat) list"
  ps_patterns :: "(bytes \<times> nat list) list"
  ps_pattern_counts :: "(bytes \<times> nat) list"
  ps_tasks :: nat                     \<comment> \<open>the relay tasks spawned so far\<close>
  ps_inbox :: "nat \<Rightarrow> message list"   \<comment> \<open>what each has received\<close>

definition pubsub_new :: pubsub where
  "pubsub_new = \<lparr>ps_channels = [], ps_counts = [], ps_patterns = [], ps_pattern_counts = [], ps_tasks = 0, ps_inbox = \<lambda>_. []\<rparr>"

text \<open>\<^verbatim>\<open>counts.entry(c).or_insert(0) += 1\<close>, and the new receiver on the sender, created if it is missing.\<close>

definition count_up :: "bytes \<Rightarrow> (bytes \<times> nat) list \<Rightarrow> (bytes \<times> nat) list" where
  "count_up c m = AList.update c ((case map_of m c of None \<Rightarrow> 0 | Some n \<Rightarrow> n) + 1) m"

definition attach :: "bytes \<Rightarrow> nat \<Rightarrow> (bytes \<times> nat list) list \<Rightarrow> (bytes \<times> nat list) list" where
  "attach c r m = AList.update c ((case map_of m c of None \<Rightarrow> [] | Some rs \<Rightarrow> rs) @ [r]) m"

definition subscribe :: "bytes \<Rightarrow> pubsub \<Rightarrow> nat \<times> pubsub" where
  "subscribe c ps = (ps_tasks ps, ps\<lparr>ps_channels := attach c (ps_tasks ps) (ps_channels ps),
     ps_counts := count_up c (ps_counts ps), ps_tasks := ps_tasks ps + 1\<rparr>)"

definition psubscribe :: "bytes \<Rightarrow> pubsub \<Rightarrow> nat \<times> pubsub" where
  "psubscribe p ps = (ps_tasks ps, ps\<lparr>ps_patterns := attach p (ps_tasks ps) (ps_patterns ps),
     ps_pattern_counts := count_up p (ps_pattern_counts ps), ps_tasks := ps_tasks ps + 1\<rparr>)"

definition unsubscribe :: "bytes \<Rightarrow> pubsub \<Rightarrow> nat \<times> pubsub" where
  "unsubscribe c ps = (case map_of (ps_counts ps) c of
     None \<Rightarrow> (0, ps)
   | Some n \<Rightarrow> (let remaining = n - 1 in (remaining,
       if remaining = 0 then ps\<lparr>ps_channels := AList.delete c (ps_channels ps), ps_counts := AList.delete c (ps_counts ps)\<rparr>
       else ps\<lparr>ps_counts := AList.update c remaining (ps_counts ps)\<rparr>)))"

definition punsubscribe :: "bytes \<Rightarrow> pubsub \<Rightarrow> nat \<times> pubsub" where
  "punsubscribe p ps = (case map_of (ps_pattern_counts ps) p of
     None \<Rightarrow> (0, ps)
   | Some n \<Rightarrow> (let remaining = n - 1 in (remaining,
       if remaining = 0 then ps\<lparr>ps_patterns := AList.delete p (ps_patterns ps), ps_pattern_counts := AList.delete p (ps_pattern_counts ps)\<rparr>
       else ps\<lparr>ps_pattern_counts := AList.update p remaining (ps_pattern_counts ps)\<rparr>)))"

text \<open>\<^verbatim>\<open>Sender::send\<close>: every receiver gets the message, a full one loses its oldest.\<close>

definition receive :: "message \<Rightarrow> message list \<Rightarrow> message list" where
  "receive msg q = drop (length q + 1 - CHANNEL_CAPACITY) (q @ [msg])"

definition send :: "message \<Rightarrow> nat list \<Rightarrow> (nat \<Rightarrow> message list) \<Rightarrow> nat \<times> (nat \<Rightarrow> message list)" where
  "send msg rs inbox = (length rs, \<lambda>r. if r \<in> set rs then receive msg (inbox r) else inbox r)"

fun fan_out :: "bytes \<Rightarrow> bytes \<Rightarrow> (bytes \<times> nat list) list \<Rightarrow> (nat \<Rightarrow> message list) \<Rightarrow> (nat \<Rightarrow> message list)" where
  "fan_out channel pay [] inbox = inbox"
| "fan_out channel pay ((pattern, rs) # rest) inbox = fan_out channel pay rest (
     if glob_match pattern channel
     then snd (send \<lparr>ms_kind = PMessage, ms_channel = pattern, ms_source = channel, ms_payload = pay\<rparr> rs inbox)
     else inbox)"

definition publish :: "bytes \<Rightarrow> bytes \<Rightarrow> pubsub \<Rightarrow> nat \<times> pubsub" where
  "publish channel pay ps = (
     let (direct, inbox) = (case map_of (ps_channels ps) channel of
           Some rs \<Rightarrow> send \<lparr>ms_kind = Message, ms_channel = channel, ms_source = channel, ms_payload = pay\<rparr> rs (ps_inbox ps)
         | None \<Rightarrow> (0, ps_inbox ps))
     in (direct, ps\<lparr>ps_inbox := fan_out channel pay (ps_patterns ps) inbox\<rparr>))"

definition channel_count :: "pubsub \<Rightarrow> nat" where "channel_count ps = length (ps_channels ps)"
definition channel_names :: "pubsub \<Rightarrow> bytes list" where "channel_names ps = map fst (ps_channels ps)"
definition subscriber_count :: "bytes \<Rightarrow> pubsub \<Rightarrow> nat" where
  "subscriber_count c ps = (case map_of (ps_counts ps) c of Some n \<Rightarrow> n | None \<Rightarrow> 0)"
definition pattern_count :: "pubsub \<Rightarrow> nat" where "pattern_count ps = length (ps_patterns ps)"
definition pattern_names :: "pubsub \<Rightarrow> bytes list" where "pattern_names ps = map fst (ps_patterns ps)"

section \<open>The commands of a connection\<close>

record subscriber =
  sb_channels :: "bytes list"
  sb_patterns :: "bytes list"
  sb_version :: nat
  sb_tasks :: "nat list"   \<comment> \<open>the relay tasks that feed it\<close>

definition frame :: "nat \<Rightarrow> resp list \<Rightarrow> resp" where
  "frame version pay = (if version \<ge> 3 then RPush pay else resp_array pay)"

definition sb_target :: "bool \<Rightarrow> subscriber \<Rightarrow> bytes list" where
  "sb_target is_pattern sb = (if is_pattern then sb_patterns sb else sb_channels sb)"

definition sb_retarget :: "bool \<Rightarrow> bytes list \<Rightarrow> subscriber \<Rightarrow> subscriber" where
  "sb_retarget is_pattern cs sb = (if is_pattern then sb\<lparr>sb_patterns := cs\<rparr> else sb\<lparr>sb_channels := cs\<rparr>)"

definition subscribe_kind :: "bool \<Rightarrow> bytes" where
  "subscribe_kind is_pattern = (if is_pattern then asc ''psubscribe'' else asc ''subscribe'')"

fun subscribe_loop :: "bool \<Rightarrow> resp list \<Rightarrow> subscriber \<Rightarrow> pubsub \<Rightarrow> resp list \<times> subscriber \<times> pubsub" where
  "subscribe_loop is_pattern [] sb ps = ([], sb, ps)"
| "subscribe_loop is_pattern (a # rest) sb ps = (case bulk_or_simple a of
     None \<Rightarrow> subscribe_loop is_pattern rest sb ps
   | Some c \<Rightarrow>
       let (sb, ps) = (if c \<in> set (sb_target is_pattern sb) then (sb, ps)
             else let (t, ps) = (if is_pattern then psubscribe c ps else subscribe c ps)
                  in (sb_retarget is_pattern (sb_target is_pattern sb @ [c]) sb\<lparr>sb_tasks := sb_tasks sb @ [t]\<rparr>, ps));
           f = frame (sb_version sb) [resp_bulk_str (subscribe_kind is_pattern), resp_bulk c, resp_int (int (length (sb_target is_pattern sb)))];
           (fs, sb, ps) = subscribe_loop is_pattern rest sb ps
       in (f # fs, sb, ps))"

definition do_subscribe :: "resp list \<Rightarrow> bool \<Rightarrow> subscriber \<Rightarrow> pubsub \<Rightarrow> resp list \<times> subscriber \<times> pubsub" where
  "do_subscribe args is_pattern sb ps = (if length args < 2
     then ([resp_error (asc ''ERR wrong number of arguments for '' @ [0x27] @ subscribe_kind is_pattern @ [0x27] @ asc '' command'')], sb, ps)
     else subscribe_loop is_pattern (drop 1 args) sb ps)"

fun unsubscribe_loop :: "bool \<Rightarrow> bytes list \<Rightarrow> subscriber \<Rightarrow> pubsub \<Rightarrow> resp list \<times> subscriber \<times> pubsub" where
  "unsubscribe_loop is_pattern [] sb ps = ([], sb, ps)"
| "unsubscribe_loop is_pattern (c # rest) sb ps = (
     let sb = sb_retarget is_pattern (filter (\<lambda>s. s \<noteq> c) (sb_target is_pattern sb)) sb;
         ps = snd (if is_pattern then punsubscribe c ps else unsubscribe c ps);
         f = frame (sb_version sb) [resp_bulk_str (if is_pattern then asc ''punsubscribe'' else asc ''unsubscribe''), resp_bulk c,
               resp_int (int (length (sb_target is_pattern sb)))];
         (fs, sb, ps) = unsubscribe_loop is_pattern rest sb ps
     in (f # fs, sb, ps))"

definition do_unsubscribe :: "resp list \<Rightarrow> bool \<Rightarrow> subscriber \<Rightarrow> pubsub \<Rightarrow> resp list \<times> subscriber \<times> pubsub" where
  "do_unsubscribe args is_pattern sb ps = unsubscribe_loop is_pattern
     (if length args \<le> 1 then sb_target is_pattern sb else List.map_filter bulk_or_simple (drop 1 args)) sb ps"

section \<open>Several connections\<close>

text \<open>The broker with its connections, and what a connection may do. \<open>own\<close> says that a connection only
  unsubscribes from what it is subscribed to, each channel once.\<close>

datatype ps_event = PsSubscribe nat "resp list" bool | PsUnsubscribe nat "resp list" bool | PsPublish bytes bytes

type_synonym ps_system = "(nat \<Rightarrow> subscriber) \<times> pubsub"

fun ps_step :: "ps_event \<Rightarrow> ps_system \<Rightarrow> ps_system" where
  "ps_step (PsSubscribe x args is_pattern) (C, ps) = (case do_subscribe args is_pattern (C x) ps of (fs, sb, ps') \<Rightarrow> (C(x := sb), ps'))"
| "ps_step (PsUnsubscribe x args is_pattern) (C, ps) = (case do_unsubscribe args is_pattern (C x) ps of (fs, sb, ps') \<Rightarrow> (C(x := sb), ps'))"
| "ps_step (PsPublish c m) (C, ps) = (C, snd (publish c m ps))"

fun own :: "ps_event \<Rightarrow> ps_system \<Rightarrow> bool" where
  "own (PsUnsubscribe x args is_pattern) (C, ps) = (length args \<le> 1 \<or> (let cs = List.map_filter bulk_or_simple (drop 1 args) in
     distinct cs \<and> set cs \<subseteq> set (sb_target is_pattern (C x))))"
| "own _ _ = True"

definition subscriber_new :: subscriber where
  "subscriber_new = \<lparr>sb_channels = [], sb_patterns = [], sb_version = 2, sb_tasks = []\<rparr>"

inductive ps_reach :: "ps_system \<Rightarrow> bool" where
  init: "ps_reach (\<lambda>_. subscriber_new, pubsub_new)"
| step: "ps_reach S \<Longrightarrow> own ev S \<Longrightarrow> ps_reach (ps_step ev S)"

text \<open>One of the two tables with its counters: a channel is counted once for every connection subscribed to
  it, and each of these connections has a relay task on the channel's sender.\<close>

definition at :: "(bytes \<times> nat list) list \<Rightarrow> bytes \<Rightarrow> nat set" where
  "at m c = (case map_of m c of None \<Rightarrow> {} | Some rs \<Rightarrow> set rs)"

definition counted_in :: "(bytes \<times> nat) list \<Rightarrow> bytes \<Rightarrow> nat" where
  "counted_in m c = (case map_of m c of None \<Rightarrow> 0 | Some n \<Rightarrow> n)"

definition side_ok :: "(nat \<Rightarrow> bytes list) \<Rightarrow> (nat \<Rightarrow> nat list) \<Rightarrow> (bytes \<times> nat list) list \<Rightarrow> (bytes \<times> nat) list \<Rightarrow> bool" where
  "side_ok T tasks m counts \<longleftrightarrow>
     (\<forall>c. finite {x. c \<in> set (T x)} \<and> counted_in counts c = card {x. c \<in> set (T x)})
     \<and> (\<forall>x c. c \<in> set (T x) \<longrightarrow> (\<exists>t \<in> at m c. t \<in> set (tasks x)))
     \<and> (\<forall>x. distinct (T x)) \<and> distinct (map fst m)"

text \<open>A task is on one sender only.\<close>

definition tasks_ok :: "pubsub \<Rightarrow> bool" where
  "tasks_ok ps \<longleftrightarrow> (\<forall>t c. t \<in> at (ps_channels ps) c \<union> at (ps_patterns ps) c \<longrightarrow> t < ps_tasks ps)
     \<and> (\<forall>t c d. t \<in> at (ps_channels ps) c \<longrightarrow> t \<notin> at (ps_patterns ps) d \<and> (t \<in> at (ps_channels ps) d \<longrightarrow> d = c))
     \<and> (\<forall>t c d. t \<in> at (ps_patterns ps) c \<longrightarrow> t \<in> at (ps_patterns ps) d \<longrightarrow> d = c)"

definition ps_ok :: "ps_system \<Rightarrow> bool" where
  "ps_ok S \<longleftrightarrow> (case S of (C, ps) \<Rightarrow>
     side_ok (sb_channels \<circ> C) (sb_tasks \<circ> C) (ps_channels ps) (ps_counts ps)
     \<and> side_ok (sb_patterns \<circ> C) (sb_tasks \<circ> C) (ps_patterns ps) (ps_pattern_counts ps) \<and> tasks_ok ps)"

lemma at_simps [simp]:
  "at (attach c r m) d = (if d = c then insert r (at m c) else at m d)"
  "at (AList.delete c m) d = (if d = c then {} else at m d)" "at [] c = {}"
  "counted_in (count_up c k) d = (if d = c then counted_in k c + 1 else counted_in k d)"
  "counted_in (AList.delete c k) d = (if d = c then 0 else counted_in k d)"
  "counted_in (AList.update c n k) d = (if d = c then n else counted_in k d)"
  by (auto simp: at_def attach_def counted_in_def count_up_def update_conv' delete_conv' split: option.splits)

lemma at_distinct [simp]:
  "distinct (map fst m) \<Longrightarrow> distinct (map fst (attach c r m))" "distinct (map fst m) \<Longrightarrow> distinct (map fst (AList.delete c m))"
  by (simp_all add: attach_def distinct_update distinct_delete)

lemma side_ok_more:
  assumes "side_ok T tasks m k" and "\<And>x. set (tasks x) \<subseteq> set (tasks' x)"
  shows "side_ok T tasks' m k"
  using assms unfolding side_ok_def by blast

lemma side_ok_attach:
  assumes "side_ok T tasks m k" and "c \<notin> set (T x)"
  shows "side_ok (T(x := T x @ [c])) (tasks(x := tasks x @ [r])) (attach c r m) (count_up c k)"
proof -
  let ?T = "T(x := T x @ [c])"
  have s: "{y. d \<in> set (?T y)} = (if d = c then insert x {y. d \<in> set (T y)} else {y. d \<in> set (T y)})" for d by auto
  have "x \<notin> {y. c \<in> set (T y)}" using assms(2) by simp
  then have "finite {y. d \<in> set (?T y)} \<and> counted_in (count_up c k) d = card {y. d \<in> set (?T y)}" for d
    unfolding s using assms(1) by (simp add: side_ok_def)
  moreover have "\<exists>t \<in> at (attach c r m) d. t \<in> set ((tasks(x := tasks x @ [r])) y)" if "d \<in> set (?T y)" for y d
  proof (cases "d = c \<and> y = x")
    case False
    then have "d \<in> set (T y)" using that by (auto split: if_splits)
    then obtain t where "t \<in> at m d" "t \<in> set (tasks y)" using assms(1) unfolding side_ok_def by blast
    then show ?thesis by (intro bexI [of _ t]) auto
  qed auto
  moreover have "\<forall>y. distinct (?T y)" using assms by (simp add: side_ok_def)
  ultimately show ?thesis using assms(1) unfolding side_ok_def by simp
qed

lemma side_ok_detach:
  assumes "side_ok T tasks m k" and "c \<in> set (T x)" and "n = counted_in k c - 1"
    and "m' = (if n = 0 then AList.delete c m else m)" and "k' = (if n = 0 then AList.delete c k else AList.update c n k)"
  shows "side_ok (T(x := filter (\<lambda>s. s \<noteq> c) (T x))) tasks m' k'"
proof -
  let ?T = "T(x := filter (\<lambda>s. s \<noteq> c) (T x))"
  let ?S = "\<lambda>d. {y. d \<in> set (T y)}"
  have s: "{y. d \<in> set (?T y)} = (if d = c then ?S d - {x} else ?S d)" for d by auto
  have f: "finite (?S d)" "counted_in k d = card (?S d)" for d using assms(1) by (simp_all add: side_ok_def)
  have x: "x \<in> ?S c" using assms(2) by simp
  then have n: "n = card (?S c - {x})" using f assms(3) by simp
  have none: "n = 0 \<Longrightarrow> ?S c = {x}" using n f(1) [of c] x by auto
  have "counted_in k' d = card {y. d \<in> set (?T y)}" for d
    unfolding s using f n by (auto simp: assms(5))
  moreover have "\<exists>t \<in> at m' d. t \<in> set (tasks y)" if d: "d \<in> set (?T y)" for y d
  proof -
    have y: "d \<in> set (T y)" using d by (auto split: if_splits)
    have "\<not> (d = c \<and> n = 0)" using none y d by (auto split: if_splits)
    then have "at m' d = at m d" by (auto simp: assms(4))
    then show ?thesis using assms(1) y unfolding side_ok_def by auto
  qed
  ultimately show ?thesis unfolding side_ok_def s using f assms(1) by (auto simp: side_ok_def assms(4))
qed

lemma comp_upd [simp]: "f \<circ> C(x := sb) = (f \<circ> C)(x := f sb)"
  by auto

lemma upd_same [simp]: "(f \<circ> C)(x := f (C x)) = f \<circ> C"
  by auto

lemma target_simps [simp]:
  "sb_target p (sb_retarget p cs sb) = cs" "sb_tasks (sb_retarget p cs sb) = sb_tasks sb"
  "sb_channels (sb_retarget p cs sb) = (if p then sb_channels sb else cs)" "sb_patterns (sb_retarget p cs sb) = (if p then cs else sb_patterns sb)"
  "sb_target p (sb\<lparr>sb_tasks := ts\<rparr>) = sb_target p sb"
  by (simp_all add: sb_target_def sb_retarget_def)

text \<open>One subscription more, one less.\<close>

lemma ps_ok_subscribe:
  assumes "ps_ok (C, ps)" and "c \<notin> set (sb_target p (C x))" and "(if p then psubscribe c ps else subscribe c ps) = (t, ps')"
  shows "ps_ok (C(x := sb_retarget p (sb_target p (C x) @ [c]) (C x)\<lparr>sb_tasks := sb_tasks (C x) @ [t]\<rparr>), ps')"
proof -
  let ?tasks = "(sb_tasks \<circ> C)(x := sb_tasks (C x) @ [t])"
  have ok: "side_ok (sb_channels \<circ> C) (sb_tasks \<circ> C) (ps_channels ps) (ps_counts ps)"
    "side_ok (sb_patterns \<circ> C) (sb_tasks \<circ> C) (ps_patterns ps) (ps_pattern_counts ps)" "tasks_ok ps"
    using assms(1) by (simp_all add: ps_ok_def)
  have m: "side_ok (sb_channels \<circ> C) ?tasks (ps_channels ps) (ps_counts ps)" "side_ok (sb_patterns \<circ> C) ?tasks (ps_patterns ps) (ps_pattern_counts ps)"
    by (rule side_ok_more [OF ok(1)], force) (rule side_ok_more [OF ok(2)], force)
  have fresh: "t = ps_tasks ps" using assms(3) by (auto simp: psubscribe_def subscribe_def split: if_splits)
  have new: "t \<notin> at (ps_channels ps) d" "t \<notin> at (ps_patterns ps) d" for d
    using ok(3) unfolding tasks_ok_def fresh by (metis Un_iff less_irrefl)+
  have "tasks_ok ps'"
    using assms(3) ok(3) new unfolding tasks_ok_def fresh
    by (cases p) (auto simp: psubscribe_def subscribe_def less_Suc_eq split: if_splits)
  then show ?thesis
    using assms(2,3) m side_ok_attach [OF ok(1), of c x t] side_ok_attach [OF ok(2), of c x t]
    by (cases p) (auto simp: ps_ok_def psubscribe_def subscribe_def sb_target_def)
qed

lemma unsubscribe_eqs:
  assumes "counted_in (ps_counts ps) c > 0"
  shows "ps_channels (snd (unsubscribe c ps)) = (if counted_in (ps_counts ps) c - 1 = 0 then AList.delete c (ps_channels ps) else ps_channels ps)"
    "ps_counts (snd (unsubscribe c ps)) = (if counted_in (ps_counts ps) c - 1 = 0 then AList.delete c (ps_counts ps)
       else AList.update c (counted_in (ps_counts ps) c - 1) (ps_counts ps))"
    "ps_patterns (snd (unsubscribe c ps)) = ps_patterns ps" "ps_pattern_counts (snd (unsubscribe c ps)) = ps_pattern_counts ps"
    "ps_tasks (snd (unsubscribe c ps)) = ps_tasks ps"
  using assms by (auto simp: unsubscribe_def counted_in_def Let_def split: option.splits)

lemma punsubscribe_eqs:
  assumes "counted_in (ps_pattern_counts ps) c > 0"
  shows "ps_patterns (snd (punsubscribe c ps)) = (if counted_in (ps_pattern_counts ps) c - 1 = 0 then AList.delete c (ps_patterns ps) else ps_patterns ps)"
    "ps_pattern_counts (snd (punsubscribe c ps)) = (if counted_in (ps_pattern_counts ps) c - 1 = 0 then AList.delete c (ps_pattern_counts ps)
       else AList.update c (counted_in (ps_pattern_counts ps) c - 1) (ps_pattern_counts ps))"
    "ps_channels (snd (punsubscribe c ps)) = ps_channels ps" "ps_counts (snd (punsubscribe c ps)) = ps_counts ps"
    "ps_tasks (snd (punsubscribe c ps)) = ps_tasks ps"
  using assms by (auto simp: punsubscribe_def counted_in_def Let_def split: option.splits)

lemma side_ok_counted: "side_ok T tasks m k \<Longrightarrow> c \<in> set (T x) \<Longrightarrow> counted_in k c > 0"
  unfolding side_ok_def by (metis (mono_tags, lifting) card_gt_0_iff empty_iff mem_Collect_eq)

lemma ps_ok_unsubscribe:
  assumes "ps_ok (C, ps)" and "c \<in> set (sb_target p (C x))" and "ps' = snd (if p then punsubscribe c ps else unsubscribe c ps)"
  shows "ps_ok (C(x := sb_retarget p (filter (\<lambda>s. s \<noteq> c) (sb_target p (C x))) (C x)), ps')"
proof -
  have ok: "side_ok (sb_channels \<circ> C) (sb_tasks \<circ> C) (ps_channels ps) (ps_counts ps)"
    "side_ok (sb_patterns \<circ> C) (sb_tasks \<circ> C) (ps_patterns ps) (ps_pattern_counts ps)" "tasks_ok ps"
    using assms(1) by (simp_all add: ps_ok_def)
  show ?thesis
  proof (cases p)
    case True
    then have c: "c \<in> set ((sb_patterns \<circ> C) x)" using assms(2) by (simp add: sb_target_def)
    note e = punsubscribe_eqs [OF side_ok_counted [OF ok(2) c]]
    have "tasks_ok ps'" using ok(3) True unfolding tasks_ok_def assms(3) by (auto simp: e)
    then show ?thesis using True ok(1) side_ok_detach [where T = "sb_patterns \<circ> C" and x = x, OF ok(2) c refl refl refl]
      by (simp add: ps_ok_def assms(3) e sb_target_def)
  next
    case False
    then have c: "c \<in> set ((sb_channels \<circ> C) x)" using assms(2) by (simp add: sb_target_def)
    note e = unsubscribe_eqs [OF side_ok_counted [OF ok(1) c]]
    have "tasks_ok ps'" using ok(3) False unfolding tasks_ok_def assms(3) by (auto simp: e)
    then show ?thesis using False ok(2) side_ok_detach [where T = "sb_channels \<circ> C" and x = x, OF ok(1) c refl refl refl]
      by (simp add: ps_ok_def assms(3) e sb_target_def)
  qed
qed

lemma subscribe_loop_ok:
  "ps_ok (C(x := sb), ps) \<Longrightarrow> subscribe_loop p args sb ps = (fs, sb', ps') \<Longrightarrow> ps_ok (C(x := sb'), ps')"
proof (induction args arbitrary: sb ps fs)
  case (Cons a rest)
  show ?case
  proof (cases "bulk_or_simple a")
    case None
    then show ?thesis using Cons by simp
  next
    case (Some c)
    show ?thesis
    proof (cases "c \<in> set (sb_target p sb)")
      case True
      then show ?thesis using Cons Some by (auto simp: Let_def split: prod.splits)
    next
      case False
      obtain t ps1 where t: "(if p then psubscribe c ps else subscribe c ps) = (t, ps1)" by force
      let ?sb = "sb_retarget p (sb_target p sb @ [c]) sb\<lparr>sb_tasks := sb_tasks sb @ [t]\<rparr>"
      obtain fs1 where r: "subscribe_loop p rest ?sb ps1 = (fs1, sb', ps')"
        using Cons.prems(2) Some False t by (auto simp: Let_def split: prod.splits if_splits)
      have "ps_ok (C(x := ?sb), ps1)"
        using ps_ok_subscribe [OF Cons.prems(1) _ t, of x] False by (simp only: fun_upd_same fun_upd_upd not_False_eq_True)
      then show ?thesis by (rule Cons.IH [OF _ r])
    qed
  qed
qed simp

lemma unsubscribe_loop_ok:
  "ps_ok (C(x := sb), ps) \<Longrightarrow> distinct cs \<Longrightarrow> set cs \<subseteq> set (sb_target p sb) \<Longrightarrow> unsubscribe_loop p cs sb ps = (fs, sb', ps')
    \<Longrightarrow> ps_ok (C(x := sb'), ps')"
proof (induction cs arbitrary: sb ps fs)
  case (Cons c rest)
  let ?sb = "sb_retarget p (filter (\<lambda>s. s \<noteq> c) (sb_target p sb)) sb" and ?ps = "snd (if p then punsubscribe c ps else unsubscribe c ps)"
  obtain fs1 where r: "unsubscribe_loop p rest ?sb ?ps = (fs1, sb', ps')" using Cons.prems(4) by (auto simp: Let_def split: prod.splits)
  have "ps_ok (C(x := ?sb), ?ps)"
    using ps_ok_unsubscribe [OF Cons.prems(1) _ refl, of c p x] Cons.prems(3) by (simp only: fun_upd_same fun_upd_upd set_simps insert_subset)
  moreover have "distinct rest" "set rest \<subseteq> set (sb_target p ?sb)" using Cons.prems(2,3) by auto
  ultimately show ?case by (rule Cons.IH [OF _ _ _ r])
qed simp

lemma publish_same [simp]:
  "ps_channels (snd (publish c m ps)) = ps_channels ps" "ps_patterns (snd (publish c m ps)) = ps_patterns ps" "ps_counts (snd (publish c m ps)) = ps_counts ps"
  "ps_pattern_counts (snd (publish c m ps)) = ps_pattern_counts ps" "ps_tasks (snd (publish c m ps)) = ps_tasks ps"
  by (simp_all add: publish_def split: prod.split)

lemma ps_reach_ok: "ps_reach S \<Longrightarrow> ps_ok S"
proof (induction rule: ps_reach.induct)
  case init
  show ?case by (simp add: ps_ok_def side_ok_def tasks_ok_def pubsub_new_def subscriber_new_def counted_in_def)
next
  case (step S ev)
  obtain C ps where S: "S = (C, ps)" by force
  have ok: "ps_ok (C(x := C x), ps)" for x using step.IH by (simp add: S)
  have d: "distinct (sb_target p (C x))" for p x using step.IH by (cases p) (simp_all add: S ps_ok_def side_ok_def sb_target_def)
  show ?case
  proof (cases ev)
    case (PsSubscribe x args p)
    then show ?thesis using ok subscribe_loop_ok [OF ok [of x]] unfolding S by (auto simp: do_subscribe_def split: prod.split)
  next
    case (PsUnsubscribe x args p)
    obtain fs sb' ps' where r: "do_unsubscribe args p (C x) ps = (fs, sb', ps')" by (metis prod_cases3)
    have "ps_ok (C(x := sb'), ps')"
      using step.hyps(2) d [of p x] r unfolding S PsUnsubscribe do_unsubscribe_def
      by (intro unsubscribe_loop_ok [OF ok [of x] _ _ r [unfolded do_unsubscribe_def]]) (auto simp: Let_def)
    then show ?thesis using r by (simp add: S PsUnsubscribe)
  next
    case (PsPublish c m)
    then show ?thesis using step.IH by (simp add: S ps_ok_def tasks_ok_def)
  qed
qed

text \<open>What a publication puts into an inbox.\<close>

lemma fan_out_other: "(\<And>p rs. (p, rs) \<in> set ms \<Longrightarrow> t \<in> set rs \<Longrightarrow> \<not> glob_match p c) \<Longrightarrow> fan_out c m ms inbox t = inbox t"
proof (induction ms arbitrary: inbox)
  case (Cons e ms)
  obtain p rs where e: "e = (p, rs)" by force
  have "(if glob_match p c then snd (send x rs inbox) else inbox) t = inbox t" for x
    using Cons.prems [of p rs] by (auto simp: e send_def)
  moreover have "fan_out c m ms inbox' t = inbox' t" for inbox' using Cons.IH Cons.prems by auto
  ultimately show ?case by (simp add: e)
qed simp

lemma fan_out_one:
  assumes "t \<in> at ms p" and "glob_match p c" and "\<And>q. t \<in> at ms q \<Longrightarrow> q = p" and "distinct (map fst ms)"
  shows "fan_out c m ms inbox t = receive \<lparr>ms_kind = PMessage, ms_channel = p, ms_source = c, ms_payload = m\<rparr> (inbox t)"
proof -
  obtain rs where rs: "map_of ms p = Some rs" "t \<in> set rs" using assms(1) by (auto simp: at_def split: option.splits)
  have u: "q = p" if "(q, rs') \<in> set ms" "t \<in> set rs'" for q rs'
    using that assms(3) [of q] map_of_is_SomeI [OF assms(4) that(1)] by (simp add: at_def)
  obtain xs ys where ms: "ms = xs @ (p, rs) # ys" using map_of_SomeD [OF rs(1)] by (meson split_list)
  have d: "p \<notin> fst ` set xs" "p \<notin> fst ` set ys" using assms(4) by (auto simp: ms)
  have xs: "t \<notin> set rs'" if "(q, rs') \<in> set xs \<union> set ys" for q rs' using u [of q rs'] that d by (auto simp: ms rev_image_eqI)
  have app: "fan_out c m (as @ bs) box = fan_out c m bs (fan_out c m as box)" for as bs box by (induction as arbitrary: box) auto
  have "fan_out c m xs box t = box t" "fan_out c m ys box t = box t" for box using xs by (auto intro: fan_out_other)
  then show ?thesis unfolding ms app using assms(2) rs(2) by (simp add: send_def)
qed

section \<open>Properties\<close>

text \<open>C34. After any history of subscriptions, publications, and unsubscriptions by connections from what they
  are subscribed to: a message published on a channel reaches a relay task of every connection subscribed to the
  channel, as a message, and of every connection subscribed to a pattern that matches it, as a pattern message,
  once each; and the counter of a channel is the number of connections subscribed to it.\<close>

theorem publish_delivers:
  assumes "ps_reach (C, ps)" and "publish c m ps = (n, ps')"
  shows "(\<forall>x. c \<in> set (sb_channels (C x)) \<longrightarrow> (\<exists>t \<in> set (sb_tasks (C x)).
        ps_inbox ps' t = receive \<lparr>ms_kind = Message, ms_channel = c, ms_source = c, ms_payload = m\<rparr> (ps_inbox ps t)))
    \<and> (\<forall>x. \<forall>p \<in> set (sb_patterns (C x)). glob_match p c \<longrightarrow> (\<exists>t \<in> set (sb_tasks (C x)).
        ps_inbox ps' t = receive \<lparr>ms_kind = PMessage, ms_channel = p, ms_source = c, ms_payload = m\<rparr> (ps_inbox ps t)))
    \<and> subscriber_count c ps = card {x. c \<in> set (sb_channels (C x))}"
proof -
  let ?msg = "\<lparr>ms_kind = Message, ms_channel = c, ms_source = c, ms_payload = m\<rparr>"
  have ok: "side_ok (sb_channels \<circ> C) (sb_tasks \<circ> C) (ps_channels ps) (ps_counts ps)"
    "side_ok (sb_patterns \<circ> C) (sb_tasks \<circ> C) (ps_patterns ps) (ps_pattern_counts ps)" "tasks_ok ps"
    using ps_reach_ok [OF assms(1)] by (simp_all add: ps_ok_def)
  define box where "box = (\<lambda>r. if r \<in> at (ps_channels ps) c then receive ?msg (ps_inbox ps r) else ps_inbox ps r)"
  have b: "ps_inbox ps' = fan_out c m (ps_patterns ps) box"
    using assms(2) by (auto simp: publish_def send_def at_def box_def fun_eq_iff split: option.splits intro!: arg_cong [where f = "\<lambda>x. fan_out c m (ps_patterns ps) x"])
  have in_pat: "t \<in> at (ps_patterns ps) p" if "(p, rs) \<in> set (ps_patterns ps)" "t \<in> set rs" for t p rs
    using that ok(2) by (simp add: at_def side_ok_def)
  have direct: "ps_inbox ps' t = receive ?msg (ps_inbox ps t)" if t: "t \<in> at (ps_channels ps) c" for t
  proof -
    have "t \<notin> at (ps_patterns ps) p" for p using ok(3) t unfolding tasks_ok_def by blast
    then show ?thesis unfolding b using t in_pat by (subst fan_out_other) (auto simp: box_def)
  qed
  have pattern: "ps_inbox ps' t = receive \<lparr>ms_kind = PMessage, ms_channel = p, ms_source = c, ms_payload = m\<rparr> (ps_inbox ps t)"
    if t: "t \<in> at (ps_patterns ps) p" "glob_match p c" for t p
  proof -
    have "t \<notin> at (ps_channels ps) c" and u: "\<And>q. t \<in> at (ps_patterns ps) q \<Longrightarrow> q = p" using ok(3) t unfolding tasks_ok_def by blast+
    then have "box t = ps_inbox ps t" by (simp add: box_def)
    moreover have "distinct (map fst (ps_patterns ps))" using ok(2) by (simp add: side_ok_def)
    ultimately show ?thesis unfolding b using fan_out_one [OF t u] by simp
  qed
  have "\<exists>t \<in> at (ps_channels ps) c. t \<in> set (sb_tasks (C x))" if "c \<in> set (sb_channels (C x))" for x
    using ok(1) that by (simp add: side_ok_def)
  moreover have "\<exists>t \<in> at (ps_patterns ps) p. t \<in> set (sb_tasks (C x))" if "p \<in> set (sb_patterns (C x))" for x p
    using ok(2) that by (simp add: side_ok_def)
  moreover have "subscriber_count c ps = card {x. c \<in> set (sb_channels (C x))}"
    using ok(1) by (simp add: side_ok_def subscriber_count_def counted_in_def)
  ultimately show ?thesis using direct pattern by metis
qed

theorem publish_delivers_witness:
  "\<exists>C ps n ps' t. ps_reach (C, ps) \<and> publish [1] [9] ps = (n, ps') \<and> t \<in> set (sb_tasks (C 0))
    \<and> ps_inbox ps' t = receive \<lparr>ms_kind = Message, ms_channel = [1], ms_source = [1], ms_payload = [9]\<rparr> (ps_inbox ps t)"
proof -
  obtain C ps where S: "ps_step (PsSubscribe 0 (bulks [asc ''SUBSCRIBE'', [1]]) False) (\<lambda>_. subscriber_new, pubsub_new) = (C, ps)" by force
  have r: "ps_reach (C, ps)" using ps_reach.step [OF ps_reach.init, of "PsSubscribe 0 (bulks [asc ''SUBSCRIBE'', [1]]) False"] S by simp
  have c: "[1] \<in> set (sb_channels (C 0))"
    using S by (auto simp: do_subscribe_def subscriber_new_def sb_target_def sb_retarget_def subscribe_def Let_def)
  obtain n ps' where p: "publish [1] [9] ps = (n, ps')" by force
  show ?thesis using publish_delivers [OF r p] c r p by blast
qed


end
