(* ===== verification/Tracking.thy ===== *)
theory Tracking
  imports Handlers "HOL-Library.AList" "HOL-Library.Multiset"
begin

text \<open>
  Client-side caching (\<^verbatim>\<open>tracking.rs\<close>): which client has read which key, and whom a write has to
  notify. A client's channel (\<^verbatim>\<open>mpsc\<close>, bounded) is the list of the pushes waiting in it; a push to a full
  channel is dropped, as \<^verbatim>\<open>try_send\<close> does. The clients are an association list, the iteration order of a
  hash map or set is a parameter.
\<close>

section \<open>State\<close>

datatype tracking_push = PushKeys "bytes list" | FlushAll

record tracking_options =
  to_bcast :: bool
  to_optin :: bool
  to_optout :: bool
  to_noloop :: bool
  to_redirect :: "nat option"
  to_prefixes :: "bytes list"

definition tracking_default :: tracking_options where
  "tracking_default = \<lparr>to_bcast = False, to_optin = False, to_optout = False, to_noloop = False, to_redirect = None, to_prefixes = []\<rparr>"

record client_state =
  tc_enabled :: bool
  tc_opts :: tracking_options
  tc_queue :: "tracking_push list"
  tc_capacity :: nat
  tc_override :: "bool option"

record tracking =
  tr_clients :: "(nat \<times> client_state) list"
  tr_index :: "bytes \<rightharpoonup> nat set"
  tr_enabled :: nat

section \<open>Operations\<close>

definition tracking_new :: tracking where
  "tracking_new = \<lparr>tr_clients = [], tr_index = Map.empty, tr_enabled = 0\<rparr>"

definition tr_register :: "nat \<Rightarrow> nat \<Rightarrow> tracking \<Rightarrow> tracking" where
  "tr_register client capacity tr = tr\<lparr>tr_clients := AList.update client
     \<lparr>tc_enabled = False, tc_opts = tracking_default, tc_queue = [], tc_capacity = capacity, tc_override = None\<rparr> (tr_clients tr)\<rparr>"

text \<open>\<^verbatim>\<open>key_index.retain(..)\<close>: the client leaves every set, empty sets leave the index.\<close>

definition index_forget :: "nat \<Rightarrow> (bytes \<rightharpoonup> nat set) \<Rightarrow> (bytes \<rightharpoonup> nat set)" where
  "index_forget client idx k = (case idx k of
     None \<Rightarrow> None
   | Some S \<Rightarrow> if S - {client} = {} then None else Some (S - {client}))"

definition tr_unregister :: "nat \<Rightarrow> tracking \<Rightarrow> tracking" where
  "tr_unregister client tr = tr\<lparr>tr_clients := AList.delete client (tr_clients tr),
     tr_index := index_forget client (tr_index tr),
     tr_enabled := (case map_of (tr_clients tr) client of
        Some st \<Rightarrow> if tc_enabled st then tr_enabled tr - 1 else tr_enabled tr | None \<Rightarrow> tr_enabled tr)\<rparr>"

definition tr_exists :: "nat \<Rightarrow> tracking \<Rightarrow> bool" where
  "tr_exists client tr \<longleftrightarrow> map_of (tr_clients tr) client \<noteq> None"

definition tr_enable :: "nat \<Rightarrow> tracking_options \<Rightarrow> tracking \<Rightarrow> (bytes + unit) \<times> tracking" where
  "tr_enable client opts tr = (case map_of (tr_clients tr) client of
     None \<Rightarrow> (Inl (asc ''client not registered''), tr)
   | Some st \<Rightarrow> (Inr (), tr\<lparr>tr_clients := AList.update client (st\<lparr>tc_enabled := True, tc_opts := opts\<rparr>) (tr_clients tr),
       tr_enabled := (if tc_enabled st then tr_enabled tr else tr_enabled tr + 1)\<rparr>))"

definition tr_disable :: "nat \<Rightarrow> tracking \<Rightarrow> tracking" where
  "tr_disable client tr = (case map_of (tr_clients tr) client of
     None \<Rightarrow> tr\<lparr>tr_index := index_forget client (tr_index tr)\<rparr>
   | Some st \<Rightarrow> tr\<lparr>tr_clients := AList.update client (st\<lparr>tc_enabled := False, tc_opts := tracking_default\<rparr>) (tr_clients tr),
       tr_index := index_forget client (tr_index tr),
       tr_enabled := (if tc_enabled st then tr_enabled tr - 1 else tr_enabled tr)\<rparr>)"

definition tr_is_enabled :: "nat \<Rightarrow> tracking \<Rightarrow> bool" where
  "tr_is_enabled client tr = (case map_of (tr_clients tr) client of Some st \<Rightarrow> tc_enabled st | None \<Rightarrow> False)"

definition tr_options :: "nat \<Rightarrow> tracking \<Rightarrow> tracking_options option" where
  "tr_options client tr = (case map_of (tr_clients tr) client of Some st \<Rightarrow> if tc_enabled st then Some (tc_opts st) else None | None \<Rightarrow> None)"

definition set_caching_override :: "nat \<Rightarrow> bool \<Rightarrow> tracking \<Rightarrow> tracking" where
  "set_caching_override client yes tr = (case map_of (tr_clients tr) client of
     None \<Rightarrow> tr
   | Some st \<Rightarrow> tr\<lparr>tr_clients := AList.update client (st\<lparr>tc_override := Some yes\<rparr>) (tr_clients tr)\<rparr>)"

definition enabled_count :: "tracking \<Rightarrow> nat" where
  "enabled_count tr = tr_enabled tr"

text \<open>Whether a read of this client is to be remembered, given the override of \<^verbatim>\<open>CLIENT CACHING\<close>.\<close>

definition should_track :: "client_state \<Rightarrow> bool" where
  "should_track st = (
     if to_optin (tc_opts st) then (case tc_override st of Some b \<Rightarrow> b | None \<Rightarrow> False)
     else if to_optout (tc_opts st) then (case tc_override st of Some b \<Rightarrow> b | None \<Rightarrow> True)
     else True)"

definition reader_add :: "nat \<Rightarrow> bytes \<Rightarrow> (bytes \<rightharpoonup> nat set) \<Rightarrow> (bytes \<rightharpoonup> nat set)" where
  "reader_add client k idx = idx(k \<mapsto> insert client (case idx k of None \<Rightarrow> {} | Some S \<Rightarrow> S))"

definition track_read :: "nat \<Rightarrow> bytes list \<Rightarrow> tracking \<Rightarrow> tracking" where
  "track_read client keys tr = (if keys = [] \<or> tr_enabled tr = 0 then tr
     else case map_of (tr_clients tr) client of
       None \<Rightarrow> tr
     | Some st \<Rightarrow> if \<not> tc_enabled st \<or> to_bcast (tc_opts st) then tr
         else let tr = tr\<lparr>tr_clients := AList.update client (st\<lparr>tc_override := None\<rparr>) (tr_clients tr)\<rparr> in
           if \<not> should_track st then tr else tr\<lparr>tr_index := fold (reader_add client) keys (tr_index tr)\<rparr>)"

text \<open>The clients with an interest in a written key: those that read it, and those in broadcast mode with a
  matching prefix.\<close>

fun take_targets :: "bytes list \<Rightarrow> (bytes \<rightharpoonup> nat set) \<Rightarrow> nat set \<times> (bytes \<rightharpoonup> nat set)" where
  "take_targets [] idx = ({}, idx)"
| "take_targets (k # ks) idx = (let (S, idx') = take_targets ks (idx(k := None)) in
     ((case idx k of None \<Rightarrow> {} | Some T \<Rightarrow> T) \<union> S, idx'))"

definition bcast_wants :: "bytes list \<Rightarrow> client_state \<Rightarrow> bool" where
  "bcast_wants keys st \<longleftrightarrow> tc_enabled st \<and> to_bcast (tc_opts st)
     \<and> (to_prefixes (tc_opts st) = [] \<or> (\<exists>k \<in> set keys. \<exists>p \<in> set (to_prefixes (tc_opts st)). take (length p) k = p))"

definition try_send :: "tracking_push \<Rightarrow> client_state \<Rightarrow> client_state" where
  "try_send push st = (if length (tc_queue st) < tc_capacity st then st\<lparr>tc_queue := tc_queue st @ [push]\<rparr> else st)"

definition push_to :: "tracking_push \<Rightarrow> nat \<Rightarrow> (nat \<times> client_state) list \<Rightarrow> (nat \<times> client_state) list" where
  "push_to push dest clients = (case map_of clients dest of None \<Rightarrow> clients | Some st \<Rightarrow> AList.update dest (try_send push st) clients)"

definition notify_target :: "nat \<Rightarrow> bytes list \<Rightarrow> nat \<Rightarrow> (nat \<times> client_state) list \<Rightarrow> (nat \<times> client_state) list" where
  "notify_target writer keys client clients = (case map_of clients client of
     None \<Rightarrow> clients
   | Some st \<Rightarrow> if client = writer \<and> to_noloop (tc_opts st) then clients
       else push_to (PushKeys keys) (case to_redirect (tc_opts st) of Some d \<Rightarrow> d | None \<Rightarrow> client) clients)"

text \<open>\<open>ord\<close> lists a set of clients in the order of its iteration.\<close>

definition on_write :: "(nat set \<Rightarrow> nat list) \<Rightarrow> bytes list \<Rightarrow> nat \<Rightarrow> tracking \<Rightarrow> tracking" where
  "on_write ord keys writer tr = (if keys = [] \<or> tr_enabled tr = 0 then tr
     else let (readers, idx) = take_targets keys (tr_index tr);
              targets = readers \<union> set (map fst (filter (\<lambda>(c, st). bcast_wants keys st) (tr_clients tr)))
          in tr\<lparr>tr_clients := fold (notify_target writer keys) (ord targets) (tr_clients tr), tr_index := idx\<rparr>)"

definition flush_target :: "nat \<times> client_state \<Rightarrow> (nat \<times> client_state) list \<Rightarrow> (nat \<times> client_state) list" where
  "flush_target = (\<lambda>(client, st) clients. if \<not> tc_enabled st then clients
     else let dest = (case to_redirect (tc_opts st) of Some d \<Rightarrow> d | None \<Rightarrow> 0) in
       push_to FlushAll (if dest \<noteq> 0 then dest else client) clients)"

definition tr_flush_all :: "tracking \<Rightarrow> tracking" where
  "tr_flush_all tr = tr\<lparr>tr_clients := fold flush_target (tr_clients tr) (tr_clients tr), tr_index := Map.empty\<rparr>"

section \<open>What the clients have cached\<close>

text \<open>The registry under a history of events, with the pairs of a client and a key that the client has read
  under tracking and has not been told about since.\<close>

datatype tr_event = TRegister nat nat | TUnregister nat | TEnable nat tracking_options | TDisable nat | TCaching nat bool
  | TRead nat "bytes list" | TWrite "bytes list" nat | TFlush | TRecv nat

definition tr_recv :: "nat \<Rightarrow> tracking \<Rightarrow> tracking" where
  "tr_recv client tr = (case map_of (tr_clients tr) client of
     None \<Rightarrow> tr
   | Some st \<Rightarrow> tr\<lparr>tr_clients := AList.update client (st\<lparr>tc_queue := tl (tc_queue st)\<rparr>) (tr_clients tr)\<rparr>)"

fun tr_step :: "(nat set \<Rightarrow> nat list) \<Rightarrow> tr_event \<Rightarrow> tracking \<Rightarrow> tracking" where
  "tr_step ord (TRegister c n) tr = tr_register c n tr"
| "tr_step ord (TUnregister c) tr = tr_unregister c tr"
| "tr_step ord (TEnable c opts) tr = snd (tr_enable c opts tr)"
| "tr_step ord (TDisable c) tr = tr_disable c tr"
| "tr_step ord (TCaching c yes) tr = set_caching_override c yes tr"
| "tr_step ord (TRead c keys) tr = track_read c keys tr"
| "tr_step ord (TWrite keys w) tr = on_write ord keys w tr"
| "tr_step ord TFlush tr = tr_flush_all tr"
| "tr_step ord (TRecv c) tr = tr_recv c tr"

definition remembers :: "nat \<Rightarrow> tracking \<Rightarrow> bool" where
  "remembers c tr = (case map_of (tr_clients tr) c of
     None \<Rightarrow> False | Some st \<Rightarrow> tc_enabled st \<and> \<not> to_bcast (tc_opts st) \<and> should_track st)"

fun cache_step :: "tr_event \<Rightarrow> tracking \<Rightarrow> (nat \<times> bytes) set \<Rightarrow> (nat \<times> bytes) set" where
  "cache_step (TUnregister c) tr X = {(d, k) \<in> X. d \<noteq> c}"
| "cache_step (TDisable c) tr X = {(d, k) \<in> X. d \<noteq> c}"
| "cache_step (TRead c keys) tr X = (if remembers c tr then X \<union> {c} \<times> set keys else X)"
| "cache_step (TWrite keys w) tr X = {(d, k) \<in> X. k \<notin> set keys}"
| "cache_step TFlush tr X = {}"
| "cache_step _ tr X = X"

text \<open>Client numbers are not reused.\<close>

fun tr_accepted :: "tr_event \<Rightarrow> tracking \<Rightarrow> bool" where
  "tr_accepted (TRegister c n) tr = (map_of (tr_clients tr) c = None)"
| "tr_accepted _ tr = True"

inductive tr_reach :: "(nat set \<Rightarrow> nat list) \<Rightarrow> tracking \<Rightarrow> (nat \<times> bytes) set \<Rightarrow> bool" for ord where
  init: "tr_reach ord tracking_new {}"
| step: "tr_reach ord tr X \<Longrightarrow> tr_accepted ev tr \<Longrightarrow> tr_reach ord (tr_step ord ev tr) (cache_step ev tr X)"

section \<open>Invariant\<close>

definition readers_of :: "(nat \<times> bytes) set \<Rightarrow> bytes \<Rightarrow> nat set" where
  "readers_of X k = {c. (c, k) \<in> X}"

definition index_is :: "(bytes \<rightharpoonup> nat set) \<Rightarrow> (nat \<times> bytes) set \<Rightarrow> bool" where
  "index_is idx X \<longleftrightarrow> (\<forall>k. idx k = (if readers_of X k = {} then None else Some (readers_of X k)))"

definition clients_ok :: "tracking \<Rightarrow> bool" where
  "clients_ok tr \<longleftrightarrow> distinct (map fst (tr_clients tr)) \<and> tr_enabled tr = length (filter (tc_enabled \<circ> snd) (tr_clients tr))"

definition tr_ok :: "tracking \<Rightarrow> (nat \<times> bytes) set \<Rightarrow> bool" where
  "tr_ok tr X \<longleftrightarrow> clients_ok tr \<and> index_is (tr_index tr) X \<and> finite X \<and> (\<forall>(c, k) \<in> X. tr_is_enabled c tr)"

text \<open>The counter under updates of one client.\<close>

lemma enabled_update:
  assumes "distinct (map fst m)"
  shows "length (filter (tc_enabled \<circ> snd) (AList.update c st m)) + (case map_of m c of Some s \<Rightarrow> if tc_enabled s then 1 else 0 | None \<Rightarrow> 0)
    = length (filter (tc_enabled \<circ> snd) m) + (if tc_enabled st then 1 else 0)"
  using assms
proof (induction m)
  case (Cons e m)
  obtain d s where e: "e = (d, s)" by force
  have "map_of m d = None" using Cons.prems by (simp add: e map_of_eq_None_iff)
  then show ?case using Cons by (auto simp: e update_conv' split: option.splits)
qed simp

lemma enabled_delete:
  assumes "distinct (map fst m)"
  shows "length (filter (tc_enabled \<circ> snd) (AList.delete c m)) + (case map_of m c of Some s \<Rightarrow> if tc_enabled s then 1 else 0 | None \<Rightarrow> 0)
    = length (filter (tc_enabled \<circ> snd) m)"
  using assms
proof (induction m)
  case (Cons e m)
  obtain d s where e: "e = (d, s)" by force
  show ?case
  proof (cases "d = c")
    case True
    then have "c \<notin> fst ` set m" using Cons.prems by (simp add: e)
    then have "AList.delete c m = m" by (simp add: AList.delete_idem)
    then show ?thesis using True by (simp add: e)
  qed (use Cons in \<open>simp add: e\<close>)
qed simp

lemma clients_ok_update:
  assumes "clients_ok tr"
  shows "clients_ok (tr\<lparr>tr_clients := AList.update c st (tr_clients tr), tr_index := idx,
      tr_enabled := tr_enabled tr + (if tc_enabled st then 1 else 0) - (case map_of (tr_clients tr) c of Some s \<Rightarrow> if tc_enabled s then 1 else 0 | None \<Rightarrow> 0)\<rparr>)"
  using assms enabled_update [of "tr_clients tr" c st] by (auto simp: clients_ok_def distinct_update)

lemma clients_ok_pos: "clients_ok tr \<Longrightarrow> map_of (tr_clients tr) c = Some st \<Longrightarrow> tc_enabled st \<Longrightarrow> tr_enabled tr > 0"
  by (force simp: clients_ok_def filter_empty_conv dest!: map_of_SomeD)

text \<open>The index stands for the pairs.\<close>

lemma index_forget_is: "index_is idx X \<Longrightarrow> index_is (index_forget c idx) {(d, k) \<in> X. d \<noteq> c}"
proof -
  assume i: "index_is idx X"
  have "readers_of {(d, k) \<in> X. d \<noteq> c} k = readers_of X k - {c}" for k by (auto simp: readers_of_def)
  then show ?thesis using i by (auto simp: index_is_def index_forget_def)
qed

lemma reader_add_is: "index_is idx X \<Longrightarrow> index_is (reader_add c k idx) (insert (c, k) X)"
proof -
  assume i: "index_is idx X"
  have "readers_of (insert (c, k) X) j = (if j = k then insert c (readers_of X j) else readers_of X j)" for j
    by (auto simp: readers_of_def)
  then show ?thesis using i by (auto simp: index_is_def reader_add_def)
qed

lemma reader_adds_is: "index_is idx X \<Longrightarrow> index_is (fold (reader_add c) keys idx) (X \<union> {c} \<times> set keys)"
proof (induction keys arbitrary: idx X)
  case (Cons k keys)
  have "X \<union> {c} \<times> set (k # keys) = insert (c, k) X \<union> {c} \<times> set keys" by auto
  then show ?case using Cons.IH [OF reader_add_is [OF Cons.prems]] by simp
qed simp

lemma take_targets_is:
  "index_is idx X \<Longrightarrow> take_targets keys idx = (S, idx') \<Longrightarrow> S = {c. \<exists>k \<in> set keys. (c, k) \<in> X} \<and> index_is idx' {(d, k) \<in> X. k \<notin> set keys}"
proof (induction keys arbitrary: idx X S)
  case (Cons k keys)
  let ?X = "{(d, j) \<in> X. j \<noteq> k}"
  have r: "readers_of ?X j = (if j = k then {} else readers_of X j)" for j by (auto simp: readers_of_def)
  have "index_is (idx(k := None)) ?X" using Cons.prems(1) by (auto simp: index_is_def r)
  moreover obtain T where T: "take_targets keys (idx(k := None)) = (T, idx')" "S = (case idx k of None \<Rightarrow> {} | Some T \<Rightarrow> T) \<union> T"
    using Cons.prems(2) by (auto simp: Let_def split: prod.splits)
  ultimately have IH: "T = {c. \<exists>j \<in> set keys. (c, j) \<in> ?X}" "index_is idx' {(d, j) \<in> ?X. j \<notin> set keys}" using Cons.IH by blast+
  have k: "(case idx k of None \<Rightarrow> {} | Some T \<Rightarrow> T) = {c. (c, k) \<in> X}" using Cons.prems(1) by (auto simp: index_is_def readers_of_def split: option.splits)
  have "{(d, j) \<in> ?X. j \<notin> set keys} = {(d, j) \<in> X. j \<notin> set (k # keys)}" by auto
  then show ?case using IH T(2) k by auto
qed simp

section \<open>Delivery\<close>

text \<open>Whose channel a push for client \<open>c\<close> goes to, and \<open>n\<close> pushes to a channel.\<close>

definition dest_of :: "nat \<Rightarrow> (nat \<times> client_state) list \<Rightarrow> nat \<Rightarrow> nat option" where
  "dest_of w clients c = (case map_of clients c of
     None \<Rightarrow> None
   | Some st \<Rightarrow> if c = w \<and> to_noloop (tc_opts st) then None
       else Some (case to_redirect (tc_opts st) of Some d \<Rightarrow> d | None \<Rightarrow> c))"

definition send_n :: "nat \<Rightarrow> tracking_push \<Rightarrow> client_state \<Rightarrow> client_state" where
  "send_n n push st = st\<lparr>tc_queue := tc_queue st @ replicate (min n (tc_capacity st - length (tc_queue st))) push\<rparr>"

lemma send_n_0 [simp]: "send_n 0 push st = st"
  by (simp add: send_n_def)

lemma map_send_0 [simp]: "map_option (send_n 0 push) x = x" "map_option (\<lambda>st. st) x = x"
  by (cases x; simp)+

lemma send_n_Suc: "send_n n push (try_send push st) = send_n (Suc n) push st"
proof (cases "length (tc_queue st) < tc_capacity st")
  case True
  then have "min (Suc n) (tc_capacity st - length (tc_queue st)) = Suc (min n (tc_capacity st - Suc (length (tc_queue st))))" by simp
  then show ?thesis using True by (simp add: send_n_def try_send_def)
qed (simp add: send_n_def try_send_def)

lemma send_n_keeps [simp]: "tc_enabled (send_n n push st) = tc_enabled st" "tc_opts (send_n n push st) = tc_opts st"
  "tc_capacity (send_n n push st) = tc_capacity st" "tc_override (send_n n push st) = tc_override st"
  by (simp_all add: send_n_def)

lemma try_send_is: "try_send push = send_n 1 push"
  using send_n_Suc [of 0 push] by (auto simp: fun_eq_iff)

lemma push_to_of: "map_of (push_to push d clients) e = map_option (\<lambda>st. if e = d then send_n 1 push st else st) (map_of clients e)"
  by (cases "map_of clients e") (auto simp: push_to_def update_conv' try_send_is split: option.splits)

lemma notify_target_of:
  "map_of (notify_target w keys c clients) d = map_option (\<lambda>st. if dest_of w clients c = Some d then send_n 1 (PushKeys keys) st else st) (map_of clients d)"
  by (cases "map_of clients d") (auto simp: notify_target_def dest_of_def push_to_of split: option.splits)

lemma dest_of_notify [simp]: "dest_of w (notify_target v keys c clients) = dest_of w clients"
  by (auto simp: dest_of_def notify_target_of fun_eq_iff split: option.splits)

lemma notify_all_of:
  "map_of (fold (notify_target w keys) cs clients) d
    = map_option (send_n (length (filter (\<lambda>c. dest_of w clients c = Some d) cs)) (PushKeys keys)) (map_of clients d)"
proof (induction cs arbitrary: clients)
  case (Cons c cs)
  show ?case using send_n_Suc [of _ "PushKeys keys"]
    by (cases "map_of clients d") (auto simp: Cons.IH notify_target_of try_send_is)
qed simp

lemma push_to_keys [simp]: "map fst (push_to push d clients) = map fst clients"
proof (cases "map_of clients d")
  case (Some st)
  then have "d \<in> fst ` set clients" by (force dest: map_of_SomeD)
  then show ?thesis using Some by (simp add: push_to_def update_keys)
qed (simp add: push_to_def)

lemma notify_all_keys: "map fst (fold (notify_target w keys) cs clients) = map fst clients"
  by (induction cs arbitrary: clients) (auto simp: notify_target_def split: option.splits)

lemma flush_all_keys: "map fst (fold flush_target cs clients) = map fst clients"
  by (induction cs arbitrary: clients) (auto simp: flush_target_def Let_def)

lemma flush_all_of:
  "\<exists>n. map_of (fold flush_target cs clients) d = map_option (send_n n FlushAll) (map_of clients d)"
proof (induction cs arbitrary: clients)
  case (Cons e cs)
  obtain n where n: "map_of (fold flush_target cs (flush_target e clients)) d = map_option (send_n n FlushAll) (map_of (flush_target e clients) d)"
    using Cons.IH by blast
  have "\<exists>j. map_of (flush_target e clients) d = map_option (send_n j FlushAll) (map_of clients d)"
  proof -
    have "\<exists>j. map_option (\<lambda>st. if b then send_n 1 FlushAll st else st) x = map_option (send_n j FlushAll) x" for b and x :: "client_state option"
      by (intro exI [of _ "if b then 1 else 0"]) auto
    then show ?thesis by (cases e) (auto simp: flush_target_def Let_def push_to_of intro: exI [of _ 0])
  qed
  then obtain j where j: "map_of (flush_target e clients) d = map_option (send_n j FlushAll) (map_of clients d)" by blast
  have s: "send_n a FlushAll (send_n b FlushAll st) = send_n (a + b) FlushAll st" for a b st
    by (induction b arbitrary: st) (simp_all add: send_n_Suc [symmetric])
  show ?case using n j s by (auto simp: option.map_comp comp_def)
qed (auto intro: exI [of _ 0])

section \<open>Every event keeps the invariant\<close>

text \<open>A change of the clients that keeps who is enabled.\<close>

lemma enabled_length: "length (filter (tc_enabled \<circ> snd) m) = length (filter (\<lambda>c. case map_of m c of Some st \<Rightarrow> tc_enabled st | None \<Rightarrow> False) (map fst m))"
  if "distinct (map fst m)"
proof -
  have "filter (tc_enabled \<circ> snd) m = filter ((\<lambda>c. case map_of m c of Some st \<Rightarrow> tc_enabled st | None \<Rightarrow> False) \<circ> fst) m"
    using that by (intro filter_cong refl) auto
  then show ?thesis by (simp add: filter_map)
qed

lemma tr_ok_same:
  assumes "tr_ok tr X" and "map fst m = map fst (tr_clients tr)" and "\<And>c. tr_is_enabled c (tr\<lparr>tr_clients := m\<rparr>) = tr_is_enabled c tr"
  shows "tr_ok (tr\<lparr>tr_clients := m\<rparr>) X"
proof -
  have "clients_ok (tr\<lparr>tr_clients := m\<rparr>)"
    using assms(1,2) assms(3) [unfolded tr_is_enabled_def] enabled_length [of m] enabled_length [of "tr_clients tr"]
    by (simp add: clients_ok_def tr_ok_def)
  then show ?thesis using assms(1,3) by (auto simp: tr_ok_def)
qed

lemma update_same_keys: "map_of m c = Some st \<Longrightarrow> map fst (AList.update c st' m) = map fst m"
proof -
  assume "map_of m c = Some st"
  then have "c \<in> fst ` set m" by (force dest: map_of_SomeD)
  then show ?thesis by (simp add: update_keys)
qed

lemma tr_ok_edit:
  assumes "tr_ok tr X" and "map_of (tr_clients tr) c = Some st" and "tc_enabled st' = tc_enabled st"
  shows "tr_ok (tr\<lparr>tr_clients := AList.update c st' (tr_clients tr)\<rparr>) X"
  using assms by (intro tr_ok_same) (auto simp: update_same_keys tr_is_enabled_def update_conv')

lemma tr_ok_index: "tr_ok tr X \<Longrightarrow> index_is idx Y \<Longrightarrow> finite Y \<Longrightarrow> (\<And>c k. (c, k) \<in> Y \<Longrightarrow> tr_is_enabled c tr) \<Longrightarrow> tr_ok (tr\<lparr>tr_index := idx\<rparr>) Y"
  by (auto simp: tr_ok_def clients_ok_def tr_is_enabled_def)

lemma tr_okI:
  "clients_ok tr \<Longrightarrow> index_is (tr_index tr) X \<Longrightarrow> finite X \<Longrightarrow> (\<And>c k. (c, k) \<in> X \<Longrightarrow> tr_is_enabled c tr) \<Longrightarrow> tr_ok tr X"
  by (auto simp: tr_ok_def)

lemma tr_okD: "tr_ok tr X \<Longrightarrow> clients_ok tr" "tr_ok tr X \<Longrightarrow> index_is (tr_index tr) X" "tr_ok tr X \<Longrightarrow> finite X"
  "tr_ok tr X \<Longrightarrow> (c, k) \<in> X \<Longrightarrow> tr_is_enabled c tr"
  by (auto simp: tr_ok_def)

lemma finite_forget: "tr_ok tr X \<Longrightarrow> finite {(d, k) \<in> X. P d k}"
  by (auto simp: tr_ok_def intro: finite_subset [of _ X])

lemma tr_ok_register: "tr_ok tr X \<Longrightarrow> map_of (tr_clients tr) c = None \<Longrightarrow> tr_ok (tr_register c n tr) X"
proof -
  assume ok: "tr_ok tr X" and c: "map_of (tr_clients tr) c = None"
  have d: "distinct (map fst (tr_clients tr))" using tr_okD(1) [OF ok] by (simp add: clients_ok_def)
  show ?thesis
  proof (rule tr_okI)
    show "clients_ok (tr_register c n tr)"
      using tr_okD(1) [OF ok] c enabled_update [OF d, of c] by (simp add: clients_ok_def tr_register_def distinct_update)
    show "tr_is_enabled x (tr_register c n tr)" if "(x, k) \<in> X" for x k
      using tr_okD(4) [OF ok that] c by (cases "x = c") (simp_all add: tr_is_enabled_def tr_register_def update_conv')
  qed (use tr_okD [OF ok] in \<open>simp_all add: tr_register_def\<close>)
qed

lemma tr_ok_unregister: "tr_ok tr X \<Longrightarrow> tr_ok (tr_unregister c tr) {(d, k) \<in> X. d \<noteq> c}"
proof -
  assume ok: "tr_ok tr X"
  have d: "distinct (map fst (tr_clients tr))" using tr_okD(1) [OF ok] by (simp add: clients_ok_def)
  show ?thesis
  proof (rule tr_okI)
    show "clients_ok (tr_unregister c tr)"
      using tr_okD(1) [OF ok] enabled_delete [OF d, of c]
      by (cases "map_of (tr_clients tr) c") (simp_all add: clients_ok_def tr_unregister_def distinct_delete del: map_of_eq_Some_iff split: if_splits)
    show "tr_is_enabled x (tr_unregister c tr)" if "(x, k) \<in> {(d, k) \<in> X. d \<noteq> c}" for x k
      using tr_okD(4) [OF ok, of x k] that by (simp add: tr_is_enabled_def tr_unregister_def delete_conv')
  qed (use index_forget_is [OF tr_okD(2) [OF ok]] finite_forget [OF ok] in \<open>simp_all add: tr_unregister_def\<close>)
qed

lemma tr_ok_enable: "tr_ok tr X \<Longrightarrow> tr_ok (snd (tr_enable c opts tr)) X"
proof (cases "map_of (tr_clients tr) c")
  case (Some st)
  assume ok: "tr_ok tr X"
  have d: "distinct (map fst (tr_clients tr))" using tr_okD(1) [OF ok] by (simp add: clients_ok_def)
  show ?thesis
  proof (rule tr_okI)
    show "clients_ok (snd (tr_enable c opts tr))"
      using tr_okD(1) [OF ok] Some enabled_update [OF d, of c "st\<lparr>tc_enabled := True, tc_opts := opts\<rparr>"]
      by (simp add: clients_ok_def tr_enable_def distinct_update del: map_of_eq_Some_iff split: if_splits)
    show "tr_is_enabled x (snd (tr_enable c opts tr))" if "(x, k) \<in> X" for x k
      using tr_okD(4) [OF ok that] Some by (simp add: tr_is_enabled_def tr_enable_def update_conv' del: map_of_eq_Some_iff)
  qed (use tr_okD [OF ok] Some in \<open>simp_all add: tr_enable_def del: map_of_eq_Some_iff\<close>)
qed (simp add: tr_enable_def)

lemma tr_ok_disable: "tr_ok tr X \<Longrightarrow> tr_ok (tr_disable c tr) {(d, k) \<in> X. d \<noteq> c}"
proof -
  assume ok: "tr_ok tr X"
  have d: "distinct (map fst (tr_clients tr))" using tr_okD(1) [OF ok] by (simp add: clients_ok_def)
  show ?thesis
  proof (rule tr_okI)
    show "clients_ok (tr_disable c tr)"
    proof (cases "map_of (tr_clients tr) c")
      case (Some st)
      then show ?thesis using tr_okD(1) [OF ok] enabled_update [OF d, of c "st\<lparr>tc_enabled := False, tc_opts := tracking_default\<rparr>"]
        by (simp add: clients_ok_def tr_disable_def distinct_update del: map_of_eq_Some_iff split: if_splits)
    qed (use tr_okD(1) [OF ok] in \<open>simp add: clients_ok_def tr_disable_def\<close>)
    show "tr_is_enabled x (tr_disable c tr)" if "(x, k) \<in> {(d, k) \<in> X. d \<noteq> c}" for x k
      using tr_okD(4) [OF ok, of x k] that
      by (cases "map_of (tr_clients tr) c") (simp_all add: tr_is_enabled_def tr_disable_def update_conv' del: map_of_eq_Some_iff)
  qed (use index_forget_is [OF tr_okD(2) [OF ok]] finite_forget [OF ok] in \<open>simp_all add: tr_disable_def split: option.split\<close>)
qed

lemma remembers_pos: "tr_ok tr X \<Longrightarrow> remembers c tr \<Longrightarrow> tr_enabled tr > 0"
  using clients_ok_pos by (auto simp: remembers_def tr_ok_def split: option.splits)

lemma tr_ok_read: "tr_ok tr X \<Longrightarrow> tr_ok (track_read c keys tr) (if remembers c tr then X \<union> {c} \<times> set keys else X)"
proof -
  assume ok: "tr_ok tr X"
  show ?thesis
  proof (cases "keys = [] \<or> tr_enabled tr = 0 \<or> \<not> (\<exists>st. map_of (tr_clients tr) c = Some st \<and> tc_enabled st \<and> \<not> to_bcast (tc_opts st))")
    case True
    then have "track_read c keys tr = tr" by (auto simp: track_read_def split: option.splits)
    moreover have "keys = [] \<or> \<not> remembers c tr" using True remembers_pos [OF ok, of c] by (auto simp: remembers_def split: option.splits)
    ultimately show ?thesis using ok by auto
  next
    case False
    then obtain st where st: "map_of (tr_clients tr) c = Some st" "tc_enabled st" "\<not> to_bcast (tc_opts st)" "keys \<noteq> []" "tr_enabled tr \<noteq> 0" by blast
    let ?tr = "tr\<lparr>tr_clients := AList.update c (st\<lparr>tc_override := None\<rparr>) (tr_clients tr)\<rparr>"
    have ok1: "tr_ok ?tr X" by (rule tr_ok_edit [OF ok st(1)]) simp
    have e: "tr_is_enabled d ?tr" if "(d, k) \<in> X \<union> {c} \<times> set keys" for d k
      using that ok1 st(2) by (auto simp: tr_ok_def tr_is_enabled_def update_conv')
    have "tr_ok (?tr\<lparr>tr_index := fold (reader_add c) keys (tr_index tr)\<rparr>) (X \<union> {c} \<times> set keys)"
      using ok by (intro tr_ok_index [OF ok1]) (use e in \<open>auto simp: tr_ok_def intro: reader_adds_is\<close>)
    then show ?thesis using ok1 st by (simp add: track_read_def remembers_def)
  qed
qed

definition order_laws :: "(nat set \<Rightarrow> nat list) \<Rightarrow> bool" where
  "order_laws ord \<longleftrightarrow> (\<forall>S. finite S \<longrightarrow> set (ord S) = S \<and> distinct (ord S))"

text \<open>The clients a write concerns.\<close>

definition interested :: "bytes list \<Rightarrow> tracking \<Rightarrow> (nat \<times> bytes) set \<Rightarrow> nat set" where
  "interested keys tr X = {c. \<exists>k \<in> set keys. (c, k) \<in> X} \<union> {c. \<exists>st. map_of (tr_clients tr) c = Some st \<and> bcast_wants keys st}"

lemma tr_index_empty: "tr_ok tr X \<Longrightarrow> tr_enabled tr = 0 \<Longrightarrow> X = {} \<and> interested keys tr X = {}"
proof -
  assume ok: "tr_ok tr X" and z: "tr_enabled tr = 0"
  have n: "\<not> tc_enabled st" if "map_of (tr_clients tr) c = Some st" for c st using clients_ok_pos [of tr c st] ok z that by (auto simp: tr_ok_def)
  then have "X = {}" using ok by (force simp: tr_ok_def tr_is_enabled_def split: option.splits)
  then show ?thesis using n by (auto simp: interested_def bcast_wants_def)
qed

lemma on_write_is:
  assumes "order_laws ord" and "tr_ok tr X" and "keys \<noteq> []"
  shows "map_of (tr_clients (on_write ord keys w tr)) d
      = map_option (send_n (card {c \<in> interested keys tr X. dest_of w (tr_clients tr) c = Some d}) (PushKeys keys)) (map_of (tr_clients tr) d)"
    and "tr_ok (on_write ord keys w tr) {(d, k) \<in> X. k \<notin> set keys}"
proof -
  let ?X = "{(d, k) \<in> X. k \<notin> set keys}"
  have "map_of (tr_clients (on_write ord keys w tr)) d
      = map_option (send_n (card {c \<in> interested keys tr X. dest_of w (tr_clients tr) c = Some d}) (PushKeys keys)) (map_of (tr_clients tr) d)
    \<and> tr_ok (on_write ord keys w tr) ?X"
  proof (cases "tr_enabled tr = 0")
    case True
    then have e: "X = {}" "interested keys tr X = {}" using tr_index_empty [OF assms(2) True, of keys] by blast+
    have "{c \<in> interested keys tr X. dest_of w (tr_clients tr) c = Some d} = {}" unfolding e(2) by simp
    then show ?thesis using True assms(2) e(1) by (simp only: card.empty map_send_0 on_write_def) simp
  next
    case False
    obtain S idx where S: "take_targets keys (tr_index tr) = (S, idx)" by force
    have i: "S = {c. \<exists>k \<in> set keys. (c, k) \<in> X}" "index_is idx ?X"
      using take_targets_is [OF _ S] assms(2) by (auto simp: tr_ok_def)
    have dist: "distinct (map fst (tr_clients tr))" using assms(2) by (simp add: tr_ok_def clients_ok_def)
    have "set (map fst (filter (\<lambda>(c, st). bcast_wants keys st) (tr_clients tr))) = {c. \<exists>st. map_of (tr_clients tr) c = Some st \<and> bcast_wants keys st}"
      using dist by (force simp: map_of_eq_Some_iff)
    then have t: "S \<union> set (map fst (filter (\<lambda>(c, st). bcast_wants keys st) (tr_clients tr))) = interested keys tr X"
      by (simp only: i(1) interested_def)
    have "S \<subseteq> fst ` X" unfolding i(1) by force
    then have "finite S" using assms(2) by (auto simp: tr_ok_def intro: finite_subset)
    then have fin: "finite (interested keys tr X)" unfolding t [symmetric] by simp
    then have o: "set (ord (interested keys tr X)) = interested keys tr X" "distinct (ord (interested keys tr X))"
      using assms(1) by (auto simp: order_laws_def)
    let ?m = "fold (notify_target w keys) (ord (interested keys tr X)) (tr_clients tr)"
    have ow: "on_write ord keys w tr = tr\<lparr>tr_clients := ?m, tr_index := idx\<rparr>" using False assms(3) unfolding on_write_def S Let_def prod.case t by simp
    have "length (filter (\<lambda>c. dest_of w (tr_clients tr) c = Some d) (ord (interested keys tr X)))
        = card {c \<in> interested keys tr X. dest_of w (tr_clients tr) c = Some d}"
      using distinct_card [OF distinct_filter [OF o(2)], of "\<lambda>c. dest_of w (tr_clients tr) c = Some d"] by (simp add: o(1))
    then have m: "map_of ?m d = map_option (send_n (card {c \<in> interested keys tr X. dest_of w (tr_clients tr) c = Some d}) (PushKeys keys)) (map_of (tr_clients tr) d)"
      by (simp add: notify_all_of)
    have "tr_ok (tr\<lparr>tr_clients := ?m\<rparr>) X"
      by (rule tr_ok_same [OF assms(2) notify_all_keys]) (auto simp: tr_is_enabled_def notify_all_of split: option.splits)
    then have "tr_ok (tr\<lparr>tr_clients := ?m\<rparr>\<lparr>tr_index := idx\<rparr>) ?X"
      by (intro tr_ok_index) (auto simp: i(2) tr_ok_def intro: finite_subset [of _ X])
    then show ?thesis unfolding ow using m by simp
  qed
  then show "map_of (tr_clients (on_write ord keys w tr)) d
      = map_option (send_n (card {c \<in> interested keys tr X. dest_of w (tr_clients tr) c = Some d}) (PushKeys keys)) (map_of (tr_clients tr) d)"
    and "tr_ok (on_write ord keys w tr) ?X" by simp_all
qed

lemma tr_ok_flush: "tr_ok tr X \<Longrightarrow> tr_ok (tr_flush_all tr) {}"
proof -
  assume ok: "tr_ok tr X"
  let ?m = "fold flush_target (tr_clients tr) (tr_clients tr)"
  have e: "tr_is_enabled c (tr\<lparr>tr_clients := ?m\<rparr>) = tr_is_enabled c tr" for c
    using flush_all_of [of "tr_clients tr" "tr_clients tr" c] by (auto simp: tr_is_enabled_def split: option.splits)
  have "tr_ok (tr\<lparr>tr_clients := ?m\<rparr>) X" by (rule tr_ok_same [OF ok flush_all_keys e])
  then have "tr_ok (tr\<lparr>tr_clients := ?m\<rparr>\<lparr>tr_index := Map.empty\<rparr>) {}" by (intro tr_ok_index) (auto simp: index_is_def readers_of_def)
  then show ?thesis by (simp add: tr_flush_all_def)
qed

lemma tr_reach_ok: "order_laws ord \<Longrightarrow> tr_reach ord tr X \<Longrightarrow> tr_ok tr X"
proof (rotate_tac, induction rule: tr_reach.induct)
  case init
  show ?case by (simp add: tr_ok_def clients_ok_def tracking_new_def index_is_def readers_of_def)
next
  case (step tr X ev)
  then show ?case
  proof (cases ev)
    case (TWrite keys w)
    show ?thesis
    proof (cases "keys = []")
      case True
      have "{(d, k). (d, k) \<in> X} = X" by auto
      then show ?thesis using step True TWrite by (simp add: on_write_def)
    qed (use step TWrite on_write_is(2) [of ord tr X keys w] in simp)
  next
    case (TRead c keys)
    then show ?thesis using step tr_ok_read [of tr X c keys] by simp
  qed (auto intro: tr_ok_register tr_ok_unregister tr_ok_enable tr_ok_disable tr_ok_read tr_ok_flush tr_ok_edit
      simp: set_caching_override_def tr_recv_def split: option.splits)
qed

section \<open>Properties\<close>

text \<open>C33. After any history of registrations, tracking commands, reads, writes and flushes: a write to \<open>keys\<close>
  puts into each client's channel exactly one invalidation for every client that redirects to it (or is it) and is
  concerned, as far as there is room: a client is concerned if it has read one of the keys under tracking and has
  not been told since, or is in broadcast mode with a matching prefix, and is not the writer with NOLOOP. The
  shortcut that skips the work when nobody tracks loses nothing. Afterwards exactly the other reads are remembered.\<close>

theorem tracking_invalidates:
  assumes "order_laws ord" and "tr_reach ord tr X" and "keys \<noteq> []" and "map_of (tr_clients tr) d = Some st"
  shows "map_of (tr_clients (on_write ord keys w tr)) d
      = Some (send_n (card {c \<in> interested keys tr X. dest_of w (tr_clients tr) c = Some d}) (PushKeys keys) st)
    \<and> index_is (tr_index (on_write ord keys w tr)) {(c, k) \<in> X. k \<notin> set keys}
    \<and> enabled_count (on_write ord keys w tr) = length (filter (tc_enabled \<circ> snd) (tr_clients (on_write ord keys w tr)))"
proof -
  note ok = tr_reach_ok [OF assms(1,2)]
  note w = on_write_is [OF assms(1) ok assms(3), of w]
  show ?thesis using w(1) [of d] assms(4) tr_okD(1,2) [OF w(2)] by (simp add: enabled_count_def clients_ok_def del: map_of_eq_Some_iff)
qed

text \<open>Client 1 tracks, reads a key, and client 2 writes it.\<close>

theorem tracking_invalidates_witness:
  "\<exists>tr st. map_of (tr_clients (on_write sorted_list_of_set [[7]] 2 tr)) 1 = Some st \<and> tc_queue st = [PushKeys [[7]]]"
proof -
  let ?evs = "[TRegister 1 256, TEnable 1 tracking_default, TRead 1 [[7]]]"
  let ?st = "\<lparr>tc_enabled = True, tc_opts = tracking_default, tc_queue = [], tc_capacity = 256, tc_override = None\<rparr>"
  let ?tr = "\<lparr>tr_clients = [(1, ?st)], tr_index = [[7] \<mapsto> {1}], tr_enabled = 1\<rparr>"
  have o: "order_laws sorted_list_of_set" by (simp add: order_laws_def)
  have r: "tr_reach sorted_list_of_set ?tr {(1, [7])}"
  proof -
    have "tr_reach sorted_list_of_set (tr_step sorted_list_of_set (TRegister 1 256) tracking_new) {}"
      using tr_reach.step [OF tr_reach.init, of "TRegister 1 256"] by (simp add: tracking_new_def)
    from tr_reach.step [OF this, of "TEnable 1 tracking_default"]
    have "tr_reach sorted_list_of_set \<lparr>tr_clients = [(1, ?st)], tr_index = Map.empty, tr_enabled = 1\<rparr> {}"
      by (simp add: tracking_new_def tr_register_def tr_enable_def)
    from tr_reach.step [OF this, of "TRead 1 [[7]]"]
    show ?thesis by (simp add: track_read_def remembers_def should_track_def tracking_default_def reader_add_def)
  qed
  have i: "interested [[7]] ?tr {(1, [7])} = {1}" by (auto simp: interested_def bcast_wants_def tracking_default_def)
  have d: "{c \<in> {1}. dest_of 2 (tr_clients ?tr) c = Some 1} = {1}" by (auto simp: dest_of_def tracking_default_def)
  have "map_of (tr_clients ?tr) 1 = Some ?st" by simp
  from tracking_invalidates [OF o r _ this, of "[[7]]" 2] show ?thesis
    unfolding i d by (intro exI [of _ ?tr]) (auto simp: send_n_def)
qed

end
