(* ===== verification/Registry.thy ===== *)
theory Registry
  imports Handlers "HOL-Library.AList"
begin

text \<open>
  The registry of live connections (\<^verbatim>\<open>conn_registry.rs\<close>) and the slow log (\<^verbatim>\<open>slowlog.rs\<close>). The shared cells
  (\<^verbatim>\<open>Arc<RwLock<ClientMeta>>\<close>, the kill flags) are the values the registry's maps hold; an \<^verbatim>\<open>Instant\<close> is a number of
  nanoseconds.
\<close>

unbundle bit_operations_syntax

section \<open>Connections\<close>

record client_meta =
  cm_id :: nat
  cm_addr :: bytes
  cm_name :: bytes
  cm_db_index :: nat
  cm_user :: bytes
  cm_authenticated :: bool
  cm_subscriptions :: nat
  cm_pattern_subscriptions :: nat
  cm_tracking_enabled :: bool
  cm_last_cmd :: bytes
  cm_idle_instant :: nat
  cm_created_instant :: nat
  cm_flags :: u32
  cm_qbuf :: nat
  cm_qbuf_free :: nat
  cm_watch_keys :: nat
  cm_multi :: int
  cm_lib_name :: bytes
  cm_lib_ver :: bytes

definition CLIENT_FLAG_MASTER :: u32 where "CLIENT_FLAG_MASTER = 1"
definition CLIENT_FLAG_SLAVE :: u32 where "CLIENT_FLAG_SLAVE = push_bit 1 1"
definition CLIENT_FLAG_PUBSUB :: u32 where "CLIENT_FLAG_PUBSUB = push_bit 2 1"
definition CLIENT_FLAG_MULTI :: u32 where "CLIENT_FLAG_MULTI = push_bit 3 1"
definition CLIENT_FLAG_TRACKING :: u32 where "CLIENT_FLAG_TRACKING = push_bit 5 1"
definition CLIENT_FLAG_BLOCKED :: u32 where "CLIENT_FLAG_BLOCKED = push_bit 6 1"
definition CLIENT_FLAG_NO_EVICT :: u32 where "CLIENT_FLAG_NO_EVICT = push_bit 7 1"
definition CLIENT_FLAG_NO_TOUCH :: u32 where "CLIENT_FLAG_NO_TOUCH = push_bit 8 1"

record registry =
  cr_clients :: "(nat \<times> client_meta) list"
  cr_paused_until :: "nat option"
  cr_kill_flags :: "(nat \<times> bool) list"

definition registry_new :: registry where
  "registry_new = \<lparr>cr_clients = [], cr_paused_until = None, cr_kill_flags = []\<rparr>"

definition client_meta_new :: "nat \<Rightarrow> bytes \<Rightarrow> nat \<Rightarrow> client_meta" where
  "client_meta_new cid addr now =
     \<lparr>cm_id = cid, cm_addr = addr, cm_name = [], cm_db_index = 0, cm_user = asc ''default'', cm_authenticated = False,
      cm_subscriptions = 0, cm_pattern_subscriptions = 0, cm_tracking_enabled = False, cm_last_cmd = [],
      cm_idle_instant = now, cm_created_instant = now, cm_flags = 0, cm_qbuf = 0, cm_qbuf_free = 0, cm_watch_keys = 0,
      cm_multi = -1, cm_lib_name = [], cm_lib_ver = []\<rparr>"

definition cr_register :: "nat \<Rightarrow> bytes \<Rightarrow> nat \<Rightarrow> registry \<Rightarrow> registry" where
  "cr_register cid addr now g = g\<lparr>cr_clients := AList.update cid (client_meta_new cid addr now) (cr_clients g),
     cr_kill_flags := AList.update cid False (cr_kill_flags g)\<rparr>"

definition cr_unregister :: "nat \<Rightarrow> registry \<Rightarrow> registry" where
  "cr_unregister cid g = g\<lparr>cr_clients := AList.delete cid (cr_clients g), cr_kill_flags := AList.delete cid (cr_kill_flags g)\<rparr>"

definition cr_snapshot :: "registry \<Rightarrow> client_meta list" where
  "cr_snapshot g = map snd (cr_clients g)"

definition cr_meta :: "nat \<Rightarrow> registry \<Rightarrow> client_meta option" where
  "cr_meta cid g = map_of (cr_clients g) cid"

text \<open>A write through the shared cell of a client, if it is registered.\<close>

definition cr_write_meta :: "nat \<Rightarrow> (client_meta \<Rightarrow> client_meta) \<Rightarrow> registry \<Rightarrow> registry" where
  "cr_write_meta cid f g = (case cr_meta cid g of
     Some m \<Rightarrow> g\<lparr>cr_clients := AList.update cid (f m) (cr_clients g)\<rparr>
   | None \<Rightarrow> g)"

definition cr_request_kill :: "nat \<Rightarrow> registry \<Rightarrow> bool \<times> registry" where
  "cr_request_kill cid g = (case map_of (cr_kill_flags g) cid of
     Some _ \<Rightarrow> (True, g\<lparr>cr_kill_flags := AList.update cid True (cr_kill_flags g)\<rparr>)
   | None \<Rightarrow> (False, g))"

definition cr_pause_for :: "nat \<Rightarrow> nat \<Rightarrow> registry \<Rightarrow> registry" where
  "cr_pause_for now dur g = g\<lparr>cr_paused_until := (if dur = 0 then None else Some (now + dur))\<rparr>"

definition cr_unpause :: "registry \<Rightarrow> registry" where
  "cr_unpause g = g\<lparr>cr_paused_until := None\<rparr>"

definition cr_is_paused :: "nat \<Rightarrow> registry \<Rightarrow> bool" where
  "cr_is_paused now g = (case cr_paused_until g of Some deadline \<Rightarrow> now < deadline | None \<Rightarrow> False)"

definition flags_letters :: "u32 \<Rightarrow> bytes" where
  "flags_letters flags =
     (let s = concat (map (\<lambda>(bit, c). if flags AND bit \<noteq> 0 then asc c else [])
        [(CLIENT_FLAG_SLAVE, ''S''), (CLIENT_FLAG_MASTER, ''M''), (CLIENT_FLAG_PUBSUB, ''P''), (CLIENT_FLAG_MULTI, ''x''),
         (CLIENT_FLAG_TRACKING, ''t''), (CLIENT_FLAG_BLOCKED, ''b''), (CLIENT_FLAG_NO_EVICT, ''e''), (CLIENT_FLAG_NO_TOUCH, ''u'')])
      in if s = [] then asc ''N'' else s)"

text \<open>One line of \<^verbatim>\<open>CLIENT LIST\<close>; \<^verbatim>\<open>duration_since\<close> saturates at zero.\<close>

definition format_client_list_line :: "nat \<Rightarrow> client_meta \<Rightarrow> bytes" where
  "format_client_list_line now m =
     asc ''id='' @ dec (cm_id m) @ asc '' addr='' @ cm_addr m @ asc '' laddr= fd=0 name='' @ cm_name m
     @ asc '' age='' @ dec ((now - cm_created_instant m) div 10 ^ 9) @ asc '' idle='' @ dec ((now - cm_idle_instant m) div 10 ^ 9)
     @ asc '' flags='' @ flags_letters (cm_flags m) @ asc '' db='' @ dec (cm_db_index m)
     @ asc '' sub='' @ dec (cm_subscriptions m) @ asc '' psub='' @ dec (cm_pattern_subscriptions m)
     @ asc '' multi='' @ dec_int (cm_multi m) @ asc '' watch='' @ dec (cm_watch_keys m)
     @ asc '' qbuf='' @ dec (cm_qbuf m) @ asc '' qbuf-free='' @ dec (cm_qbuf_free m)
     @ asc '' argv-mem=0 multi-mem=0 tot-mem=0 rbs=16384 rbp=0 obl=0 oll=0 omem=0 events=r cmd=''
     @ (if cm_last_cmd m = [] then asc ''client'' else cm_last_cmd m) @ asc '' user='' @ cm_user m
     @ asc '' library-name='' @ cm_lib_name m @ asc '' library-ver='' @ cm_lib_ver m"

section \<open>The slow log\<close>

record slowlog_entry =
  sl_id :: u64
  sl_timestamp :: nat
  sl_duration_us :: nat
  sl_args :: "bytes list"
  sl_client_addr :: bytes

record slowlog =
  sl_entries :: "slowlog_entry list"
  sl_next_id :: u64
  sl_threshold_us :: nat
  sl_max_len :: nat

definition slowlog_new :: "nat \<Rightarrow> nat \<Rightarrow> slowlog" where
  "slowlog_new threshold n = \<lparr>sl_entries = [], sl_next_id = 0, sl_threshold_us = threshold, sl_max_len = n\<rparr>"

definition sl_set_threshold :: "nat \<Rightarrow> slowlog \<Rightarrow> slowlog" where
  "sl_set_threshold us l = l\<lparr>sl_threshold_us := us\<rparr>"

definition sl_set_max_len :: "nat \<Rightarrow> slowlog \<Rightarrow> slowlog" where
  "sl_set_max_len n l = l\<lparr>sl_max_len := n\<rparr>"

text \<open>\<^verbatim>\<open>while len > max { pop_back() }\<close>.\<close>

function sl_trim :: "nat \<Rightarrow> slowlog_entry list \<Rightarrow> slowlog_entry list" where
  "sl_trim n es = (if length es > n then sl_trim n (butlast es) else es)"
  by pat_completeness auto
termination by (relation "measure (\<lambda>(n, es). length es)") auto

declare sl_trim.simps [simp del]

text \<open>\<^verbatim>\<open>as_micros() as u64\<close>: the duration in nanoseconds, divided and truncated to 64 bits.\<close>

definition sl_record :: "nat \<Rightarrow> nat \<Rightarrow> bytes list \<Rightarrow> bytes \<Rightarrow> slowlog \<Rightarrow> slowlog" where
  "sl_record secs duration args addr l =
     (let us = duration div 1000 mod 2 ^ 64 in
      if us < sl_threshold_us l then l
      else l\<lparr>sl_next_id := sl_next_id l + 1,
        sl_entries := sl_trim (sl_max_len l) (\<lparr>sl_id = sl_next_id l, sl_timestamp = secs, sl_duration_us = us, sl_args = args,
          sl_client_addr = addr\<rparr> # sl_entries l)\<rparr>)"

definition sl_get :: "nat \<Rightarrow> slowlog \<Rightarrow> slowlog_entry list" where
  "sl_get n l = take n (sl_entries l)"

definition sl_len :: "slowlog \<Rightarrow> nat" where "sl_len l = length (sl_entries l)"

definition sl_is_empty :: "slowlog \<Rightarrow> bool" where "sl_is_empty l \<longleftrightarrow> sl_entries l = []"

definition sl_reset :: "slowlog \<Rightarrow> slowlog" where "sl_reset l = l\<lparr>sl_entries := []\<rparr>"

lemma sl_trim_take: "sl_trim n es = take n es"
proof (induction n es rule: sl_trim.induct)
  case (1 n es)
  then show ?case by (cases "length es > n") (simp_all add: sl_trim.simps [of n es] take_butlast)
qed

text \<open>What the log holds after a history of commands: the last ones that were slow enough, newest first, numbered
  without a gap. The thresholds may be set at any time; each setting holds from the next record on.\<close>

datatype sl_event = SlRecord nat nat "bytes list" bytes | SlThreshold nat | SlMaxLen nat | SlReset

fun sl_step :: "sl_event \<Rightarrow> slowlog \<Rightarrow> slowlog" where
  "sl_step (SlRecord secs d args addr) = sl_record secs d args addr"
| "sl_step (SlThreshold us) = sl_set_threshold us"
| "sl_step (SlMaxLen n) = sl_set_max_len n"
| "sl_step SlReset = sl_reset"

definition sl_numbered :: "slowlog \<Rightarrow> bool" where
  "sl_numbered l \<longleftrightarrow> (\<forall>i < length (sl_entries l). sl_id (sl_entries l ! i) = sl_next_id l - 1 - of_nat i)"

lemma sl_step_numbered: "sl_numbered l \<Longrightarrow> sl_numbered (sl_step e l)"
proof (cases e)
  case (SlRecord secs d args addr)
  assume n: "sl_numbered l"
  show ?thesis unfolding sl_numbered_def
  proof (intro allI impI)
    fix i assume "i < length (sl_entries (sl_step e l))"
    then show "sl_id (sl_entries (sl_step e l) ! i) = sl_next_id (sl_step e l) - 1 - of_nat i"
      using n unfolding SlRecord sl_numbered_def
      by (cases i) (auto simp: sl_record_def Let_def sl_trim_take split: if_splits)
  qed
qed (simp_all add: sl_numbered_def sl_set_threshold_def sl_set_max_len_def sl_reset_def)

theorem slowlog_numbered: "sl_numbered (fold sl_step es (slowlog_new threshold n))"
proof -
  have "sl_numbered l \<Longrightarrow> sl_numbered (fold sl_step es l)" for l
    by (induction es arbitrary: l) (simp_all add: sl_step_numbered)
  then show ?thesis by (simp add: sl_numbered_def slowlog_new_def)
qed

lemma slowlog_bounded: "length (sl_entries l) \<le> sl_max_len l \<Longrightarrow> length (sl_entries (sl_record secs d args addr l)) \<le> sl_max_len l"
  by (simp add: sl_record_def Let_def sl_trim_take)

end
