(* ===== verification/Server.thy ===== *)
theory Server
  imports Registry Store Acl Tracking Notify Pubsub Generic_Cmds
begin

text \<open>
  The state of the server (\<^verbatim>\<open>Db\<close> of \<^verbatim>\<open>db.rs\<close>) and the commands of \<^verbatim>\<open>command/server.rs\<close> that work on it rather than on a key:
  connection, publish and subscribe, access control, slow log and client commands. INFO, CONFIG, MEMORY, LATENCY, CLUSTER and the
  persistence and replication commands are not modelled.
\<close>

section \<open>The server\<close>

text \<open>\<open>sv_aof\<close> is the content of the log's file, \<^const>\<open>None\<close> if there is no writer; \<open>sv_limit\<close> and \<open>sv_policy\<close> are the atomics the
  dispatcher reads. The waiters' channel is the number of wake-ups. \<open>sv_replicas\<close> is the number of receivers of the
  replication stream, if there is one, and \<open>sv_propagated\<close> what was sent on it; \<open>sv_commands\<close> counts commands.\<close>

record server =
  sv_store :: store
  sv_wakes :: nat
  sv_zset_wakes :: nat
  sv_acl :: acl_manager
  sv_tracking :: tracking
  sv_pubsub :: pubsub
  sv_flags :: notify_flags
  sv_registry :: registry
  sv_slowlog :: slowlog
  sv_limit :: nat
  sv_policy :: u8
  sv_aof :: "bytes option"
  sv_aof_enabled :: bool
  sv_aof_failed :: bool
  sv_aof_failed_msg :: "bytes option"
  sv_aof_failed_time :: nat
  sv_aof_last_write_status :: u8
  sv_dirty_keys :: u64
  sv_last_save_time :: nat
  sv_requirepass :: "bytes option"
  sv_is_replica :: bool
  sv_replicas :: "nat option"
  sv_propagated :: "bytes list"
  sv_replication_offset :: u64
  sv_commands :: u64

text \<open>What one request takes from outside: the environment of the handlers, the orders of hash iteration, the clocks, whether the
  coordinator admits a write in time, how the writes to the log's file end (\<open>Some (n, e)\<close>: error \<open>e\<close> after \<open>n\<close> bytes), the
  random identifiers, and the upper case of non-ASCII text.\<close>

record inputs =
  in_env :: env
  in_ord :: iter_order
  in_srt :: "tagged_pair list \<Rightarrow> tagged_pair list"
  in_before :: "nat \<Rightarrow> nat"
  in_after :: "nat \<Rightarrow> nat"
  in_fuel :: nat
  in_instant :: nat
  in_unix_us :: nat
  in_admitted :: bool
  in_written :: "(nat \<times> bytes) option"
  in_fsync_always :: bool
  in_fsync :: "bytes option"
  in_targets :: "nat set \<Rightarrow> nat list"
  in_acl_lib :: acl_lib
  in_uuid :: "nat \<Rightarrow> bytes"
  in_upper :: "bytes \<Rightarrow> bytes"
  in_itoa :: "nat \<Rightarrow> bytes"
  in_fmt_f64 :: "f64 \<Rightarrow> bytes"

type_synonym 'r server_handler = "server \<Rightarrow> ('r result \<times> server) option"

definition answer :: "'r \<Rightarrow> 'r server_handler" where
  "answer r s = Some (Inr r, s)"

definition refuse :: "nexrade_error \<Rightarrow> 'r server_handler" where
  "refuse e s = Some (Inl e, s)"

definition try_with :: "'a result \<Rightarrow> ('a \<Rightarrow> 'r server_handler) \<Rightarrow> 'r server_handler" where
  "try_with x f = (case x of Inl e \<Rightarrow> refuse e | Inr v \<Rightarrow> f v)"

section \<open>Notifications\<close>

definition keyspace_channel :: "nat \<Rightarrow> bytes \<Rightarrow> bytes" where
  "keyspace_channel i key = asc ''__keyspace@'' @ dec i @ asc ''__:'' @ key"

definition keyevent_channel :: "nat \<Rightarrow> bytes \<Rightarrow> bytes" where
  "keyevent_channel i event = asc ''__keyevent@'' @ dec i @ asc ''__:'' @ event"

definition notify_keyspace_event :: "nat \<Rightarrow> bytes \<Rightarrow> bytes \<Rightarrow> server \<Rightarrow> server" where
  "notify_keyspace_event i event key s =
     (if sv_flags s = 0 then s
      else let emit_ks = notify_contains (sv_flags s) PREFIX_KEYSPACE; emit_ke = notify_contains (sv_flags s) PREFIX_KEYEVENT in
        if \<not> emit_ks \<and> \<not> emit_ke then s
        else let s = (if emit_ks then s\<lparr>sv_pubsub := snd (publish (keyspace_channel i key) event (sv_pubsub s))\<rparr> else s) in
          if emit_ke then s\<lparr>sv_pubsub := snd (publish (keyevent_channel i event) key (sv_pubsub s))\<rparr> else s)"

definition notify_command_keys :: "nat \<Rightarrow> bytes \<Rightarrow> bytes list \<Rightarrow> server \<Rightarrow> server" where
  "notify_command_keys i cmd keys s =
     (if sv_flags s = 0 \<or> keys = [] then s
      else case classify cmd of
        None \<Rightarrow> s
      | Some (b, event) \<Rightarrow>
          if \<not> notify_contains (sv_flags s) b then s
          else fold (notify_keyspace_event i event) keys s)"

text \<open>\<^verbatim>\<open>fail_aof\<close>: the first failure's message and time are kept, the latch is set. \<^verbatim>\<open>String::truncate\<close> panics when 512 is not
  the boundary of a character.\<close>

definition str_truncate :: "nat \<Rightarrow> bytes \<Rightarrow> bytes option" where
  "str_truncate n t = (if length t \<le> n then Some t else if utf8_cont (t ! n) then None else Some (take n t))"

definition fail_aof :: "nat \<Rightarrow> bytes \<Rightarrow> bytes \<Rightarrow> server \<Rightarrow> server option" where
  "fail_aof secs operation err s = do {
     let s = s\<lparr>sv_aof_last_write_status := 1\<rparr>;
     message \<leftarrow> str_truncate 512 (operation @ asc '': '' @ err);
     let s = (if sv_aof_failed_msg s = None then s\<lparr>sv_aof_failed_msg := Some message, sv_aof_failed_time := secs\<rparr> else s);
     Some (s\<lparr>sv_aof_failed := True\<rparr>)
   }"

section \<open>Connection commands\<close>

definition cmd_ping :: "resp list \<Rightarrow> resp server_handler" where
  "cmd_ping args s = (if length args = 1 then answer (SimpleString (asc ''PONG'')) s
     else do { v \<leftarrow> index args 1; answer v s })"

definition cmd_echo :: "resp list \<Rightarrow> resp server_handler" where
  "cmd_echo args s = (if length args \<noteq> 2 then refuse (WrongArity (asc ''echo'')) s else do { v \<leftarrow> index args 1; answer v s })"

definition cmd_quit :: "resp server_handler" where
  "cmd_quit = answer resp_ok"

definition cmd_select :: "resp list \<Rightarrow> resp server_handler" where
  "cmd_select args = (if length args \<noteq> 2 then refuse (WrongArity (asc ''select'')) else answer resp_ok)"

definition cmd_reset :: "resp server_handler" where
  "cmd_reset = answer (SimpleString (asc ''RESET''))"

definition cmd_time :: "inputs \<Rightarrow> resp server_handler" where
  "cmd_time Q = answer (resp_array [resp_bulk_str (dec (in_unix_us Q div 10 ^ 6)), resp_bulk_str (dec (in_unix_us Q mod 10 ^ 6))])"

section \<open>Keyspace-wide commands\<close>

definition cmd_dbsize :: "nat \<Rightarrow> resp server_handler" where
  "cmd_dbsize i s = do { db \<leftarrow> store_db (sv_store s) i; answer (resp_int (as_i64 (sh_len db))) s }"

definition cmd_flushdb :: "nat \<Rightarrow> resp server_handler" where
  "cmd_flushdb i s = do { st \<leftarrow> store_flush_db i (sv_store s); answer resp_ok (s\<lparr>sv_store := st\<rparr>) }"

definition cmd_flushall :: "resp server_handler" where
  "cmd_flushall s = answer resp_ok (s\<lparr>sv_store := store_flush_all (sv_store s)\<rparr>)"

definition cmd_lastsave :: "resp server_handler" where
  "cmd_lastsave s = answer (resp_int (as_i64 (sv_last_save_time s))) s"

text \<open>Every subcommand of DEBUG replies OK.\<close>

definition cmd_debug :: "resp list \<Rightarrow> resp server_handler" where
  "cmd_debug args = (if length args < 2 then refuse (WrongArity (asc ''debug''))
     else try_with (get_str args 1 (asc ''DEBUG'')) (\<lambda>_. answer resp_ok))"

section \<open>Publish and subscribe\<close>

definition cmd_publish :: "resp list \<Rightarrow> resp server_handler" where
  "cmd_publish args =
     (if length args \<noteq> 3 then refuse (WrongArity (asc ''publish''))
      else try_with (get_bytes_vec args 1 (asc ''PUBLISH'')) (\<lambda>channel.
        try_with (get_bytes_vec args 2 (asc ''PUBLISH'')) (\<lambda>payload s.
          let (n, ps) = publish channel payload (sv_pubsub s) in answer (resp_int (as_i64 n)) (s\<lparr>sv_pubsub := ps\<rparr>))))"

fun numsub_loop :: "pubsub \<Rightarrow> resp list \<Rightarrow> resp list result" where
  "numsub_loop ps [] = Inr []"
| "numsub_loop ps (a # as) = attempt_e (get_bytes_vec [a] 0 (asc ''PUBSUB'')) (\<lambda>ch.
     attempt_e (numsub_loop ps as) (\<lambda>rs. Inr (resp_bulk ch # resp_int (as_i64 (subscriber_count ch ps)) # rs)))"

definition cmd_pubsub :: "resp list \<Rightarrow> resp server_handler" where
  "cmd_pubsub args =
     (if length args < 2 then refuse (WrongArity (asc ''pubsub''))
      else try_with (get_str args 1 (asc ''PUBSUB'')) (\<lambda>t.
        let sub = to_uppercase t in
        if sub = asc ''CHANNELS'' then (\<lambda>s. answer (resp_array (map resp_bulk
             (filter (\<lambda>ch. case arg args 2 resp_as_str of Some p \<Rightarrow> glob_match p ch | None \<Rightarrow> True) (channel_names (sv_pubsub s))))) s)
        else if sub = asc ''NUMSUB'' then (\<lambda>s. try_with (numsub_loop (sv_pubsub s) (drop 2 args)) (\<lambda>rs. answer (resp_array rs)) s)
        else if sub = asc ''NUMPAT'' then (\<lambda>s. answer (resp_int (as_i64 (pattern_count (sv_pubsub s)))) s)
        else answer (resp_array [])))"

section \<open>The slow log\<close>

definition slowlog_reply :: "slowlog_entry \<Rightarrow> resp" where
  "slowlog_reply e = resp_array [resp_int (sint (sl_id e)), resp_int (as_i64 (sl_timestamp e)), resp_int (as_i64 (sl_duration_us e)),
     resp_array (map resp_bulk_str (sl_args e)), resp_bulk_str (sl_client_addr e), resp_bulk_str []]"

abbreviation em_dash :: bytes where "em_dash \<equiv> [0xE2, 0x80, 0x94]"

definition slowlog_help :: resp where
  "slowlog_help = resp_array (map resp_bulk_str [asc ''SLOWLOG <subcommand> [<arg> ...]'',
     asc ''SLOWLOG GET [count] '' @ em_dash @ asc '' show the slowlog (most recent first)'',
     asc ''SLOWLOG LEN '' @ em_dash @ asc '' length of the slowlog'',
     asc ''SLOWLOG RESET '' @ em_dash @ asc '' clear the slowlog'',
     asc ''SLOWLOG HELP '' @ em_dash @ asc '' this help''])"

definition cmd_slowlog :: "inputs \<Rightarrow> resp list \<Rightarrow> resp server_handler" where
  "cmd_slowlog Q args =
     (if length args < 2 then refuse (WrongArity (asc ''slowlog''))
      else try_with (get_str args 1 (asc ''SLOWLOG'')) (\<lambda>t.
        let sub = to_uppercase t in
        if sub = asc ''GET'' then
          let n = (case Option.bind (arg args 2 resp_as_str) parse_usize of Some n \<Rightarrow> n | None \<Rightarrow> 128) in
          (\<lambda>s. answer (resp_array (map slowlog_reply (sl_get n (sv_slowlog s)))) s)
        else if sub = asc ''LEN'' then (\<lambda>s. answer (resp_int (as_i64 (sl_len (sv_slowlog s)))) s)
        else if sub = asc ''RESET'' then (\<lambda>s. answer resp_ok (s\<lparr>sv_slowlog := sl_reset (sv_slowlog s)\<rparr>))
        else if sub = asc ''HELP'' then answer slowlog_help
        else refuse (Generic (asc ''ERR unknown subcommand or wrong number of arguments for '' @ [0x27] @ in_upper Q t @ [0x27]
          @ asc ''. Try SLOWLOG HELP.''))))"

section \<open>Access control\<close>

definition category_names :: "bytes list" where
  "category_names = remdups_adj (sort (map (\<lambda>(c, _). asc ''@'' @ c) COMMAND_CATEGORIES @ [asc ''@all'']))"

fun hex_encode :: "bytes \<Rightarrow> bytes" where
  "hex_encode [] = []"
| "hex_encode (b # bs) = (let digit = (\<lambda>n. if n < 10 then 0x30 + of_nat n else 0x57 + of_nat n) in
     digit (unat b div 16) # digit (unat b mod 16) # hex_encode bs)"

text \<open>Whole identifiers of sixteen random bytes until there are enough.\<close>

definition genpass :: "(nat \<Rightarrow> bytes) \<Rightarrow> nat \<Rightarrow> bytes" where
  "genpass uuid bits = (let bits = min (max bits 8) 4096; n = (bits + 7) div 8 in
     hex_encode (take n (concat (map uuid [0..<(n + 15) div 16]))))"

definition rule_texts :: "bytes \<Rightarrow> bytes \<Rightarrow> (bytes \<times> bool) list \<Rightarrow> bytes list" where
  "rule_texts yes no rules = map (\<lambda>(r, sign). (if sign then yes else no) @ r) rules"

definition getuser_reply :: "acl_user \<Rightarrow> resp" where
  "getuser_reply u = resp_array (
     [resp_bulk_str (asc ''flags''), resp_bulk_str (if au_enabled u then asc ''on'' else asc ''off''),
      resp_bulk_str (asc ''passwords''), (case au_password_hash u of Some h \<Rightarrow> resp_bulk_str h | None \<Rightarrow> resp_null),
      resp_bulk_str (asc ''categories''), resp_bulk_str (asc ''+@all''), resp_bulk_str (asc ''commands'')]
     @ map resp_bulk_str (rule_texts (asc ''+'') (asc ''-'') (au_command_rules u))
     @ [resp_bulk_str (asc ''keys'')] @ map (\<lambda>p. resp_bulk_str (asc ''~'' @ p)) (au_key_patterns u)
     @ [resp_bulk_str (asc ''selectors'')]
     @ map (\<lambda>t. resp_array [resp_bulk_str t]) (rule_texts (asc ''+@'') (asc ''-@'') (au_command_rules u)))"

fun deluser_loop :: "resp list \<Rightarrow> int \<Rightarrow> acl_manager \<Rightarrow> int \<times> acl_manager" where
  "deluser_loop [] n m = (n, m)"
| "deluser_loop (a # as) n m = (case resp_as_str a of
     Some name \<Rightarrow> let (removed, m) = deluser name m in deluser_loop as (if removed then n + 1 else n) m
   | None \<Rightarrow> deluser_loop as n m)"

definition acl_log_reply :: "acl_log_entry \<Rightarrow> resp" where
  "acl_log_reply e = resp_array [resp_int (le_timestamp_ms e), resp_int 0, resp_bulk_str (le_user e), resp_bulk_str (le_reason e)]"

definition acl_setuser :: "inputs \<Rightarrow> resp list \<Rightarrow> resp server_handler" where
  "acl_setuser Q args =
     (if length args < 3 then refuse (WrongArity (asc ''acl''))
      else try_with (get_str args 2 (asc ''ACL'')) (\<lambda>name s.
        let (r, m) = setuser (in_acl_lib Q) name (List.map_filter resp_as_str (drop 3 args)) (sv_acl s); s = s\<lparr>sv_acl := m\<rparr> in
        case r of Inl e \<Rightarrow> refuse (Prefixed (acl_error_text e)) s | Inr _ \<Rightarrow> answer resp_ok s))"

definition acl_log_cmd :: "resp list \<Rightarrow> resp server_handler" where
  "acl_log_cmd args =
     (let show = (\<lambda>cnt s. answer (resp_array (map acl_log_reply (acl_log cnt (sv_acl s)))) s) in
      if length args < 3 then show None
      else try_with (get_str args 2 (asc ''ACL'')) (\<lambda>opt.
        if to_uppercase opt = asc ''RESET'' then (\<lambda>s. answer resp_ok (s\<lparr>sv_acl := acl_log_reset (sv_acl s)\<rparr>))
        else try_with (get_i64 args 2 (asc ''ACL'')) (\<lambda>n. show (Some (unat (of_int n :: u64))))))"

definition acl_dryrun :: "inputs \<Rightarrow> resp list \<Rightarrow> resp server_handler" where
  "acl_dryrun Q args =
     (if length args < 4 then refuse (WrongArity (asc ''acl''))
      else try_with (get_str args 2 (asc ''ACL'')) (\<lambda>user.
        try_with (get_str args 3 (asc ''ACL'')) (\<lambda>cmd s.
          let (r, m) = check_permission (int (in_unix_us Q div 1000)) user (to_ascii_uppercase cmd)
                (List.map_filter resp_as_bytes (drop 4 args)) (sv_acl s); s = s\<lparr>sv_acl := m\<rparr> in
          case r of Inl e \<Rightarrow> refuse (Prefixed (acl_error_text e)) s | Inr _ \<Rightarrow> answer (SimpleString (asc ''OK'')) s)))"

definition acl_cat :: "resp list \<Rightarrow> resp server_handler" where
  "acl_cat args =
     (if length args = 2 then answer (resp_array (map resp_bulk_str category_names))
      else try_with (get_str args 2 (asc ''ACL'')) (\<lambda>cat. case command_category_map cat of
        Some cmds \<Rightarrow> answer (resp_array (map resp_bulk_str cmds))
      | None \<Rightarrow> refuse (Generic (asc ''ERR unknown command category '' @ [0x27] @ cat @ [0x27]))))"

definition acl_getuser :: "resp list \<Rightarrow> resp server_handler" where
  "acl_getuser args =
     (if length args < 3 then refuse (WrongArity (asc ''acl''))
      else try_with (get_str args 2 (asc ''ACL'')) (\<lambda>name s. case get_user name (sv_acl s) of
        Some u \<Rightarrow> answer (getuser_reply u) s
      | None \<Rightarrow> refuse (Generic (asc ''no such user '' @ [0x27] @ name @ [0x27])) s))"

definition cmd_acl :: "inputs \<Rightarrow> resp list \<Rightarrow> bytes \<Rightarrow> resp server_handler" where
  "cmd_acl Q args user =
     (if length args < 2 then refuse (WrongArity (asc ''acl''))
      else try_with (get_str args 1 (asc ''ACL'')) (\<lambda>t.
        let sub = to_uppercase t in
        if sub = asc ''WHOAMI'' then answer (resp_bulk_str user)
        else if sub = asc ''LIST'' then (\<lambda>s. do { ls \<leftarrow> acl_list (sv_acl s); answer (resp_array (map resp_bulk_str ls)) s })
        else if sub = asc ''USERS'' then (\<lambda>s. answer (resp_array (map resp_bulk_str (list_users (sv_acl s)))) s)
        else if sub = asc ''CAT'' then acl_cat args
        else if sub = asc ''GENPASS'' then
          (if length args \<ge> 3
           then try_with (get_i64 args 2 (asc ''ACL'')) (\<lambda>n. answer (resp_bulk_str (genpass (in_uuid Q) (unat (of_int n :: u64)))))
           else answer (resp_bulk_str (genpass (in_uuid Q) 64)))
        else if sub = asc ''GETUSER'' then acl_getuser args
        else if sub = asc ''SETUSER'' then acl_setuser Q args
        else if sub = asc ''DELUSER'' then
          (\<lambda>s. let (n, m) = deluser_loop (drop 2 args) 0 (sv_acl s) in answer (resp_int n) (s\<lparr>sv_acl := m\<rparr>))
        else if sub = asc ''LOG'' then acl_log_cmd args
        else if sub = asc ''SAVE'' \<or> sub = asc ''LOAD'' then answer resp_ok
        else if sub = asc ''DRYRUN'' then acl_dryrun Q args
        else refuse (Generic (asc ''ERR unknown ACL subcommand '' @ [0x27] @ in_upper Q t @ [0x27]))))"

section \<open>Clients\<close>

definition client_getname :: "nat \<Rightarrow> server \<Rightarrow> resp" where
  "client_getname caller s = (case cr_meta caller (sv_registry s) of
     Some m \<Rightarrow> if cm_name m = [] then resp_null else resp_bulk_str (cm_name m)
   | None \<Rightarrow> resp_null)"

definition plain_attr :: "bytes \<Rightarrow> bool" where
  "plain_attr t \<longleftrightarrow> \<not> (0x20 \<in> set t \<or> 0x0A \<in> set t \<or> 0x0D \<in> set t)"

definition client_setname :: "resp list \<Rightarrow> nat \<Rightarrow> resp server_handler" where
  "client_setname args caller s = (case arg args 2 resp_as_str of
     None \<Rightarrow> refuse (WrongArity (asc ''client|setname'')) s
   | Some name \<Rightarrow>
       if \<not> plain_attr name then refuse (Prefixed (asc ''ERR Client names cannot contain spaces, newlines or special characters.'')) s
       else answer resp_ok (s\<lparr>sv_registry := cr_write_meta caller (\<lambda>m. m\<lparr>cm_name := name\<rparr>) (sv_registry s)\<rparr>))"

definition client_info :: "inputs \<Rightarrow> nat \<Rightarrow> server \<Rightarrow> resp" where
  "client_info Q caller s = (case cr_meta caller (sv_registry s) of
     Some m \<Rightarrow> resp_bulk_str (format_client_list_line (in_instant Q) m)
   | None \<Rightarrow> resp_bulk_str [])"

text \<open>The number the lines are sorted by is parsed back from their first field.\<close>

definition line_id :: "bytes \<Rightarrow> nat" where
  "line_id line = (let f = takeWhile (\<lambda>b. b \<noteq> 0x20) line in
     if take 3 f = asc ''id='' then (case parse_usize (drop 3 f) of Some n \<Rightarrow> n | None \<Rightarrow> 0) else 0)"

fun join_lines :: "bytes list \<Rightarrow> bytes" where
  "join_lines [] = []"
| "join_lines [x] = x"
| "join_lines (x # y # ys) = x @ [0x0A] @ join_lines (y # ys)"

definition client_list :: "inputs \<Rightarrow> server \<Rightarrow> resp" where
  "client_list Q s = resp_bulk_str (join_lines (sort_key line_id
     (map (format_client_list_line (in_instant Q)) (cr_snapshot (sv_registry s)))))"

record kill_filter =
  kf_id :: "nat option"
  kf_typ :: "bytes option"
  kf_addr :: "bytes option"
  kf_laddr :: "bytes option"
  kf_user :: "bytes option"
  kf_skipme :: bool

fun parse_kill_options :: "resp list \<Rightarrow> kill_filter \<Rightarrow> kill_filter result" where
  "parse_kill_options [] f = Inr f"
| "parse_kill_options (a # as) f = (case resp_as_str a of
     None \<Rightarrow> Inl (Generic (asc ''syntax error''))
   | Some t \<Rightarrow>
       let opt = to_ascii_uppercase t; val = arg as 0 resp_as_str; text = (case val of Some v \<Rightarrow> v | None \<Rightarrow> []) in
       if opt = asc ''ID'' then
         (case parse_usize text of None \<Rightarrow> Inl NotInteger | Some n \<Rightarrow> parse_kill_options (drop 1 as) (f\<lparr>kf_id := Some n\<rparr>))
       else if opt = asc ''TYPE'' then parse_kill_options (drop 1 as) (f\<lparr>kf_typ := Some (to_ascii_uppercase text)\<rparr>)
       else if opt = asc ''ADDR'' then parse_kill_options (drop 1 as) (f\<lparr>kf_addr := Some text\<rparr>)
       else if opt = asc ''LADDR'' then parse_kill_options (drop 1 as) (f\<lparr>kf_laddr := Some text\<rparr>)
       else if opt = asc ''USER'' then parse_kill_options (drop 1 as) (f\<lparr>kf_user := Some text\<rparr>)
       else if opt = asc ''SKIPME'' then
         parse_kill_options (drop 1 as) (f\<lparr>kf_skipme := \<not> eq_ignore_ascii_case (case val of Some v \<Rightarrow> v | None \<Rightarrow> asc ''YES'') (asc ''NO'')\<rparr>)
       else Inl (Generic (asc ''syntax error'')))"

definition parse_kill_filter :: "resp list \<Rightarrow> nat \<Rightarrow> kill_filter result" where
  "parse_kill_filter args caller = attempt_e
     (parse_kill_options (drop 2 args) \<lparr>kf_id = None, kf_typ = None, kf_addr = None, kf_laddr = None, kf_user = None, kf_skipme = True\<rparr>)
     (\<lambda>f. Inr (if kf_id f = None \<and> kf_typ f = None \<and> kf_addr f = None \<and> kf_laddr f = None \<and> kf_user f = None
        then f\<lparr>kf_id := Some caller\<rparr> else f))"

definition kill_matches :: "kill_filter \<Rightarrow> nat \<Rightarrow> client_meta \<Rightarrow> bool" where
  "kill_matches f caller m \<longleftrightarrow>
     \<not> (kf_skipme f \<and> cm_id m = caller)
     \<and> (case kf_id f of Some want \<Rightarrow> cm_id m = want | None \<Rightarrow> True)
     \<and> (case kf_addr f of Some want \<Rightarrow> cm_addr m = want | None \<Rightarrow> True)
     \<and> (case kf_user f of Some want \<Rightarrow> cm_user m = want | None \<Rightarrow> True)
     \<and> (case kf_typ f of Some want \<Rightarrow> want = asc ''NORMAL'' \<or> want = asc ''MASTER''
          \<or> want = asc ''PUBSUB'' \<and> (cm_flags m AND CLIENT_FLAG_PUBSUB) \<noteq> 0 | None \<Rightarrow> True)"

fun kill_loop :: "kill_filter \<Rightarrow> nat \<Rightarrow> client_meta list \<Rightarrow> int \<Rightarrow> registry \<Rightarrow> int \<times> registry" where
  "kill_loop f caller [] n g = (n, g)"
| "kill_loop f caller (m # ms) n g =
     (if kill_matches f caller m
      then let (marked, g) = cr_request_kill (cm_id m) g in kill_loop f caller ms (if marked then n + 1 else n) g
      else kill_loop f caller ms n g)"

definition client_kill :: "resp list \<Rightarrow> nat \<Rightarrow> resp server_handler" where
  "client_kill args caller = try_with (parse_kill_filter args caller) (\<lambda>f s.
     let (n, g) = kill_loop f caller (cr_snapshot (sv_registry s)) 0 (sv_registry s) in answer (resp_int n) (s\<lparr>sv_registry := g\<rparr>))"

definition client_pause :: "inputs \<Rightarrow> resp list \<Rightarrow> resp server_handler" where
  "client_pause Q args = try_with
     (if length args < 3 then Inr 30000
      else attempt_e (get_str args 2 (asc ''CLIENT'')) (\<lambda>t. case parse_usize t of Some n \<Rightarrow> Inr n | None \<Rightarrow> Inl NotInteger))
     (\<lambda>ms. if ms = 0 then refuse (Prefixed (asc ''ERR CLIENT PAUSE 0 is invalid''))
       else (\<lambda>s. answer resp_ok (s\<lparr>sv_registry := cr_pause_for (in_instant Q) (ms * 10 ^ 6) (sv_registry s)\<rparr>)))"

definition client_no_evict :: "nat \<Rightarrow> resp server_handler" where
  "client_no_evict caller s = answer resp_ok
     (s\<lparr>sv_registry := cr_write_meta caller (\<lambda>m. m\<lparr>cm_flags := cm_flags m OR CLIENT_FLAG_NO_EVICT\<rparr>) (sv_registry s)\<rparr>)"

definition client_setinfo :: "inputs \<Rightarrow> resp list \<Rightarrow> nat \<Rightarrow> resp server_handler" where
  "client_setinfo Q args caller =
     (if length args \<noteq> 4 then refuse (WrongArity (asc ''client|setinfo''))
      else try_with (get_str args 2 (asc ''CLIENT'')) (\<lambda>t. case arg args 3 resp_as_str of
        None \<Rightarrow> refuse (WrongArity (asc ''client|setinfo''))
      | Some val \<Rightarrow>
          if \<not> plain_attr val then refuse (Prefixed (asc ''ERR Client attributes cannot contain spaces, newlines or special characters.''))
          else (\<lambda>s. if cr_meta caller (sv_registry s) = None then answer resp_ok s
            else if to_uppercase t = asc ''LIB-NAME'' then
              answer resp_ok (s\<lparr>sv_registry := cr_write_meta caller (\<lambda>m. m\<lparr>cm_lib_name := val\<rparr>) (sv_registry s)\<rparr>)
            else if to_uppercase t = asc ''LIB-VER'' then
              answer resp_ok (s\<lparr>sv_registry := cr_write_meta caller (\<lambda>m. m\<lparr>cm_lib_ver := val\<rparr>) (sv_registry s)\<rparr>)
            else refuse (Generic (asc ''ERR Unrecognized CLIENT SETINFO attribute '' @ [0x27] @ in_upper Q t @ [0x27])) s)))"

definition client_help :: resp where
  "client_help = resp_array (map (\<lambda>t. resp_bulk_str (asc t))
     [''CLIENT <subcommand> [<arg> ...]. Subcommands are:'', ''ID'', ''INFO'', ''LIST'', ''GETNAME'', ''SETNAME <name>'',
      ''SETINFO <LIB-NAME|LIB-VER> <value>'',
      ''KILL [ID <id>] [TYPE <normal|master|replica|pubsub>] [ADDR <ip:port>] [USER <username>] [SKIPME yes/no]'',
      ''PAUSE <timeout>'', ''UNPAUSE'', ''NO-EVICT'', ''HELP''])"

definition cmd_client :: "inputs \<Rightarrow> resp list \<Rightarrow> nat \<Rightarrow> resp server_handler" where
  "cmd_client Q args caller =
     (if length args < 2 then refuse (WrongArity (asc ''client''))
      else try_with (get_str args 1 (asc ''CLIENT'')) (\<lambda>t.
        let sub = to_uppercase t in
        if sub = asc ''ID'' then answer (resp_int (as_i64 caller))
        else if sub = asc ''GETNAME'' then (\<lambda>s. answer (client_getname caller s) s)
        else if sub = asc ''SETNAME'' then client_setname args caller
        else if sub = asc ''INFO'' then (\<lambda>s. answer (client_info Q caller s) s)
        else if sub = asc ''LIST'' then (\<lambda>s. answer (client_list Q s) s)
        else if sub = asc ''KILL'' then client_kill args caller
        else if sub = asc ''PAUSE'' then client_pause Q args
        else if sub = asc ''UNPAUSE'' then (\<lambda>s. answer resp_ok (s\<lparr>sv_registry := cr_unpause (sv_registry s)\<rparr>))
        else if sub = asc ''NO-EVICT'' then client_no_evict caller
        else if sub = asc ''SETINFO'' then client_setinfo Q args caller
        else if sub = asc ''REPLY'' then answer resp_ok
        else if sub = asc ''TRACKING'' \<or> sub = asc ''CACHING'' \<or> sub = asc ''TRACKINGINFO'' then
          refuse (Generic (asc ''CLIENT subcommand not supported via dispatch''))
        else if sub = asc ''HELP'' then answer client_help
        else refuse (Generic (asc ''ERR unknown CLIENT subcommand '' @ [0x27] @ in_upper Q t @ [0x27]))))"

end
