(* ===== verification/Dispatch.thy ===== *)
theory Dispatch
  imports Server Lcs List_Spec Set_Spec ZSet_Spec Generic_Spec
begin

text \<open>
  Dispatch of commands (\<^verbatim>\<open>command/mod.rs\<close>): the name of a command, which commands write, the keys a command names, the
  table of handlers, and the request as a whole: the pause gate, the gate of a failed log, admission, eviction before and
  after a write, permission, the handler, the log, and what other clients are told.
\<close>

section \<open>Names\<close>

definition parse_cmd_name :: "resp list \<Rightarrow> bytes result" where
  "parse_cmd_name args = (case arg args 0 resp_as_str of
     Some t \<Rightarrow> Inr (to_ascii_uppercase t)
   | None \<Rightarrow> Inl (ProtocolErr (asc ''empty command'')))"

definition named :: "bytes \<Rightarrow> string list \<Rightarrow> bool" where
  "named cmd names \<longleftrightarrow> list_ex (\<lambda>n. cmd = asc n) names"

definition is_write_command :: "bytes \<Rightarrow> bool" where
  "is_write_command cmd = named cmd [
     ''SET'', ''GETSET'', ''GETDEL'', ''GETEX'', ''MSET'', ''MSETNX'', ''SETNX'', ''SETEX'', ''PSETEX'', ''INCR'',
     ''INCRBY'', ''INCRBYFLOAT'', ''DECR'', ''DECRBY'', ''APPEND'', ''SETRANGE'', ''LPUSH'', ''RPUSH'', ''LPUSHX'',
     ''RPUSHX'', ''LPOP'', ''RPOP'', ''LSET'', ''LINSERT'', ''LREM'', ''LTRIM'', ''LMOVE'', ''RPOPLPUSH'', ''BLPOP'',
     ''BRPOP'', ''BLMOVE'', ''LMPOP'', ''BLMPOP'', ''HSET'', ''HMSET'', ''HDEL'', ''HSETNX'', ''HINCRBY'',
     ''HINCRBYFLOAT'', ''SADD'', ''SREM'', ''SUNIONSTORE'', ''SINTERSTORE'', ''SDIFFSTORE'', ''SMOVE'', ''SPOP'',
     ''ZADD'', ''ZINCRBY'', ''ZREM'', ''ZREMRANGEBYRANK'', ''ZREMRANGEBYSCORE'', ''ZPOPMIN'', ''ZPOPMAX'',
     ''ZUNIONSTORE'', ''ZINTERSTORE'', ''ZRANGESTORE'', ''ZDIFFSTORE'', ''ZMPOP'', ''BZMPOP'', ''BZPOPMIN'',
     ''BZPOPMAX'', ''DEL'', ''UNLINK'', ''EXPIRE'', ''PEXPIRE'', ''EXPIREAT'', ''PEXPIREAT'', ''PERSIST'',
     ''RENAME'', ''RENAMENX'', ''COPY'', ''MOVE'', ''RESTORE'', ''SORT'', ''FLUSHDB'', ''FLUSHALL'', ''XADD'',
     ''XTRIM'', ''XDEL'', ''XGROUP'', ''XREADGROUP'', ''XACK'', ''XCLAIM'', ''XAUTOCLAIM'', ''XSETID'', ''SETBIT'',
     ''BITOP'', ''BITFIELD'', ''GEOADD'', ''GEOSEARCHSTORE'', ''PFADD'', ''PFMERGE'']"

definition is_blocking_write_command :: "bytes \<Rightarrow> bool" where
  "is_blocking_write_command cmd = named cmd [
     ''BLPOP'', ''BRPOP'', ''BLMOVE'', ''BLMPOP'', ''BZMPOP'', ''BZPOPMIN'', ''BZPOPMAX'', ''XREADGROUP'']"

section \<open>Keys\<close>

text \<open>Where the keys of a command are: the first position, the stride, and how many there are at most.\<close>

definition key_specs :: "(string list \<times> nat \<times> nat \<times> nat option) list" where
  "key_specs = [
    ([
       ''GET'', ''GETSET'', ''GETDEL'', ''GETEX'', ''SET'', ''SETNX'', ''SETEX'', ''PSETEX'', ''STRLEN'',
       ''GETRANGE'', ''SETRANGE'', ''APPEND'', ''INCR'', ''INCRBY'', ''INCRBYFLOAT'', ''DECR'', ''DECRBY'',
       ''EXPIRE'', ''PEXPIRE'', ''EXPIREAT'', ''PEXPIREAT'', ''EXPIRETIME'', ''PEXPIRETIME'', ''TTL'', ''PTTL'',
       ''PERSIST'', ''DUMP'', ''RESTORE'', ''TYPE'', ''OBJECT'', ''RENAMENX'', ''TOUCH'', ''MOVE'', ''BITCOUNT'',
       ''BITPOS'', ''GETBIT'', ''SETBIT'', ''BITFIELD'', ''LPUSH'', ''LPUSHX'', ''RPUSH'', ''RPUSHX'', ''LPOP'',
       ''RPOP'', ''LLEN'', ''LRANGE'', ''LINDEX'', ''LINSERT'', ''LSET'', ''LREM'', ''LTRIM'', ''LMPOP'', ''BLMPOP'',
       ''HSET'', ''HMSET'', ''HGET'', ''HMGET'', ''HDEL'', ''HEXISTS'', ''HGETALL'', ''HKEYS'', ''HVALS'', ''HLEN'',
       ''HSETNX'', ''HINCRBY'', ''HINCRBYFLOAT'', ''HSCAN'', ''HRANDFIELD'', ''SADD'', ''SREM'', ''SISMEMBER'',
       ''SMISMEMBER'', ''SMEMBERS'', ''SCARD'', ''SRANDMEMBER'', ''SPOP'', ''SSCAN'', ''SMOVE'', ''ZADD'', ''ZREM'',
       ''ZSCORE'', ''ZMSCORE'', ''ZINCRBY'', ''ZCARD'', ''ZCOUNT'', ''ZLEXCOUNT'', ''ZRANGE'', ''ZRANGEBYSCORE'',
       ''ZRANGEBYLEX'', ''ZREVRANGE'', ''ZREVRANGEBYSCORE'', ''ZRANK'', ''ZREVRANK'', ''ZPOPMIN'', ''ZPOPMAX'',
       ''ZRANDMEMBER'', ''ZSCAN'', ''ZREMRANGEBYRANK'', ''ZREMRANGEBYSCORE'', ''PFADD'', ''PFCOUNT'', ''PFMERGE'',
       ''GEOADD'', ''GEOPOS'', ''GEODIST'', ''GEOHASH'', ''XADD'', ''XLEN'', ''XRANGE'', ''XREVRANGE'', ''XTRIM'',
       ''XDEL'', ''XGROUP'', ''XACK'', ''XPENDING'', ''XCLAIM'', ''XAUTOCLAIM'', ''XSETID'', ''WAIT'', ''BZPOPMIN'',
       ''BZPOPMAX'', ''BITFIELD_RO''],
      (1, 0, Some 1)),
    ([
       ''XINFO''],
      (2, 0, Some 1)),
    ([
       ''DEL'', ''UNLINK'', ''EXISTS''],
      (1, 1, None)),
    ([
       ''MGET''],
      (1, 1, None)),
    ([
       ''MSET''],
      (1, 2, None)),
    ([
       ''MSETNX''],
      (1, 2, None)),
    ([
       ''RENAME'', ''COPY''],
      (1, 1, Some 2)),
    ([
       ''LMOVE'', ''BLMOVE'', ''LCS''],
      (1, 1, Some 2)),
    ([
       ''GEOSEARCHSTORE''],
      (1, 1, Some 2)),
    ([
       ''BITOP''],
      (2, 1, None)),
    ([
       ''ZUNIONSTORE'', ''ZINTERSTORE'', ''ZDIFFSTORE'', ''ZRANGESTORE''],
      (2, 1, None)),
    ([
       ''ZUNION'', ''ZINTER'', ''ZDIFF'', ''ZMPOP'', ''BZMPOP''],
      (2, 1, None)),
    ([
       ''ZINTERCARD'', ''SINTERCARD''],
      (2, 1, None))]"

fun key_spec :: "(string list \<times> nat \<times> nat \<times> nat option) list \<Rightarrow> bytes \<Rightarrow> (nat \<times> nat \<times> nat option) option" where
  "key_spec [] cmd = None"
| "key_spec ((names, p) # ps) cmd = (if named cmd names then Some p else key_spec ps cmd)"

function key_loop_from :: "resp list \<Rightarrow> nat \<Rightarrow> nat option \<Rightarrow> nat \<Rightarrow> nat \<Rightarrow> bytes list" where
  "key_loop_from args stride cnt seen idx =
     (if idx < length args
      then (case arg args idx resp_as_bytes of Some b \<Rightarrow> [b] | None \<Rightarrow> [])
        @ (if (case cnt of Some limit \<Rightarrow> seen + 1 \<ge> limit | None \<Rightarrow> False) then []
           else key_loop_from args stride cnt (seen + 1) (idx + 1 + (stride - 1)))
      else [])"
  by pat_completeness auto
termination by (relation "measure (\<lambda>(args, _, _, _, idx). length args - idx)") auto

declare key_loop_from.simps [simp del]

definition extract_keys :: "bytes \<Rightarrow> resp list \<Rightarrow> bytes list" where
  "extract_keys cmd args = (case key_spec key_specs cmd of
     Some (start, stride, cnt) \<Rightarrow> key_loop_from args stride cnt 0 start
   | None \<Rightarrow> [])"

section \<open>Handlers\<close>

text \<open>The arms of the match on the command's name: the handlers of keys, the handlers of the server, and the names of the
  commands whose handlers are not modelled, which are the parameter \<open>rest\<close>.\<close>

definition key_handlers :: "iter_order \<Rightarrow> (tagged_pair list \<Rightarrow> tagged_pair list) \<Rightarrow> (string \<times> (env \<Rightarrow> resp list \<Rightarrow> resp handler)) list" where
  "key_handlers ord srt = [
     (''SET'', cmd_set), (''GET'', cmd_get), (''GETSET'', cmd_getset), (''GETDEL'', cmd_getdel),
     (''GETEX'', cmd_getex), (''MSET'', cmd_mset srt), (''MSETNX'', cmd_msetnx srt), (''MGET'', cmd_mget),
     (''SETNX'', cmd_setnx), (''SETEX'', cmd_setex), (''PSETEX'', cmd_psetex), (''INCR'', cmd_incr),
     (''INCRBY'', cmd_incrby), (''INCRBYFLOAT'', cmd_incrbyfloat), (''DECR'', cmd_decr), (''DECRBY'', cmd_decrby),
     (''APPEND'', cmd_append), (''STRLEN'', cmd_strlen), (''GETRANGE'', cmd_getrange), (''SUBSTR'', cmd_getrange),
     (''SETRANGE'', cmd_setrange), (''LCS'', cmd_lcs), (''LPUSH'', cmd_lpush), (''RPUSH'', cmd_rpush),
     (''LPUSHX'', cmd_lpushx), (''RPUSHX'', cmd_rpushx), (''LPOP'', cmd_lpop), (''RPOP'', cmd_rpop),
     (''LLEN'', cmd_llen), (''LRANGE'', cmd_lrange), (''LINDEX'', cmd_lindex), (''LSET'', cmd_lset),
     (''LINSERT'', cmd_linsert), (''LREM'', cmd_lrem), (''LTRIM'', cmd_ltrim), (''LMOVE'', cmd_lmove),
     (''RPOPLPUSH'', cmd_rpoplpush), (''LPOS'', cmd_lpos), (''LMPOP'', cmd_lmpop), (''HSET'', cmd_hset),
     (''HMSET'', cmd_hmset), (''HGET'', cmd_hget), (''HMGET'', cmd_hmget), (''HDEL'', cmd_hdel),
     (''HEXISTS'', cmd_hexists), (''HGETALL'', cmd_hgetall), (''HKEYS'', cmd_hkeys), (''HVALS'', cmd_hvals),
     (''HLEN'', cmd_hlen), (''HSETNX'', cmd_hsetnx), (''HINCRBY'', cmd_hincrby), (''HSCAN'', cmd_hscan),
     (''HRANDFIELD'', cmd_hrandfield), (''SADD'', cmd_sadd), (''SREM'', cmd_srem), (''SISMEMBER'', cmd_sismember),
     (''SMISMEMBER'', cmd_smismember), (''SMEMBERS'', cmd_smembers), (''SCARD'', cmd_scard),
     (''SUNION'', cmd_sunion), (''SUNIONSTORE'', cmd_sunionstore), (''SINTER'', cmd_sinter),
     (''SINTERSTORE'', cmd_sinterstore), (''SINTERCARD'', cmd_sintercard), (''SDIFF'', cmd_sdiff),
     (''SDIFFSTORE'', cmd_sdiffstore), (''SMOVE'', cmd_smove), (''SRANDMEMBER'', cmd_srandmember),
     (''SPOP'', cmd_spop), (''SSCAN'', cmd_sscan),
     (''ZADD'', cmd_zadd), (''ZCARD'', cmd_zcard), (''ZSCORE'', cmd_zscore), (''ZMSCORE'', cmd_zmscore),
     (''ZINCRBY'', cmd_zincrby), (''ZRANK'', cmd_zrank), (''ZREVRANK'', cmd_zrevrank), (''ZRANGE'', cmd_zrange),
     (''ZREVRANGE'', cmd_zrevrange), (''ZRANGEBYSCORE'', cmd_zrangebyscore),
     (''ZREVRANGEBYSCORE'', cmd_zrevrangebyscore), (''ZRANGEBYLEX'', cmd_zrangebylex), (''ZCOUNT'', cmd_zcount),
     (''ZLEXCOUNT'', cmd_zlexcount), (''ZREM'', cmd_zrem), (''ZREMRANGEBYRANK'', cmd_zremrangebyrank),
     (''ZREMRANGEBYSCORE'', cmd_zremrangebyscore), (''ZPOPMIN'', cmd_zpopmin), (''ZPOPMAX'', cmd_zpopmax),
     (''ZRANDMEMBER'', cmd_zrandmember), (''ZUNIONSTORE'', cmd_zunionstore), (''ZINTERSTORE'', cmd_zinterstore),
     (''ZSCAN'', cmd_zscan), (''ZRANGESTORE'', cmd_zrangestore), (''ZMPOP'', cmd_zmpop), (''ZINTER'', cmd_zinter),
     (''ZUNION'', cmd_zunion), (''ZDIFF'', cmd_zdiff), (''ZDIFFSTORE'', cmd_zdiffstore),
     (''ZINTERCARD'', cmd_zintercard),
     (''DEL'', cmd_del), (''UNLINK'', cmd_unlink),
     (''EXISTS'', cmd_exists), (''EXPIRE'', cmd_expire), (''PEXPIRE'', cmd_pexpire), (''EXPIREAT'', cmd_expireat),
     (''PEXPIREAT'', cmd_pexpireat), (''EXPIRETIME'', cmd_expiretime), (''PEXPIRETIME'', cmd_pexpiretime),
     (''TTL'', cmd_ttl), (''PTTL'', cmd_pttl), (''PERSIST'', cmd_persist), (''TYPE'', cmd_type),
     (''RENAME'', cmd_rename), (''RENAMENX'', cmd_renamenx), (''KEYS'', cmd_keys ord), (''SCAN'', cmd_scan ord),
     (''RANDOMKEY'', cmd_randomkey ord), (''COPY'', cmd_copy), (''OBJECT'', cmd_object), (''TOUCH'', cmd_touch)]"

definition other_commands :: "string list" where
  "other_commands = [
     ''BLMOVE'', ''BLPOP'', ''BRPOP'', ''BLMPOP'', ''HINCRBYFLOAT'', ''BZPOPMIN'', ''BZPOPMAX'', ''BZMPOP'',
     ''MOVE'', ''DUMP'', ''RESTORE'', ''SORT'', ''SORT_RO'', ''INFO'', ''CONFIG'', ''COMMAND'', ''SAVE'', ''BGSAVE'',
     ''BGREWRITEAOF'', ''SHUTDOWN'', ''WAIT'', ''MEMORY'', ''LATENCY'', ''ROLE'', ''CLUSTER'', ''HELLO'',
     ''REPLICAOF'', ''SLAVEOF'', ''REPLCONF'', ''PSYNC'', ''XADD'', ''XLEN'', ''XRANGE'', ''XREVRANGE'', ''XREAD'',
     ''XTRIM'', ''XDEL'', ''XGROUP'', ''XREADGROUP'', ''XACK'', ''XPENDING'', ''XINFO'', ''XCLAIM'', ''XAUTOCLAIM'',
     ''XSETID'', ''SETBIT'', ''GETBIT'', ''BITCOUNT'', ''BITOP'', ''BITPOS'', ''BITFIELD'', ''BITFIELD_RO'',
     ''GEOADD'', ''GEOPOS'', ''GEODIST'', ''GEOHASH'', ''GEORADIUS'', ''GEORADIUSBYMEMBER'', ''GEOSEARCH'',
     ''GEOSEARCHSTORE'', ''PFADD'', ''PFCOUNT'', ''PFMERGE'']"

definition server_handlers :: "inputs \<Rightarrow> resp list \<Rightarrow> nat \<Rightarrow> bytes \<Rightarrow> nat \<Rightarrow> (string \<times> resp server_handler) list" where
  "server_handlers Q args i user client =
     [(''PING'', cmd_ping args), (''ECHO'', cmd_echo args), (''QUIT'', cmd_quit), (''SELECT'', cmd_select args),
      (''DBSIZE'', cmd_dbsize i), (''FLUSHDB'', cmd_flushdb i), (''FLUSHALL'', cmd_flushall), (''LASTSAVE'', cmd_lastsave),
      (''DEBUG'', cmd_debug args), (''SLOWLOG'', cmd_slowlog Q args), (''ACL'', cmd_acl Q args user), (''RESET'', cmd_reset),
      (''TIME'', cmd_time Q), (''CLIENT'', cmd_client Q args client), (''PUBLISH'', cmd_publish args),
      (''SPUBLISH'', cmd_publish args), (''PUBSUB'', cmd_pubsub args),
      (''SENTINEL'', refuse (Generic (asc ''SENTINEL is not supported by nexrade-cache (standalone server). See docs/redis-sentinel-compat.md for failover guidance.'')))]"

fun arm :: "(string \<times> 'a) list \<Rightarrow> bytes \<Rightarrow> 'a option" where
  "arm [] cmd = None"
| "arm ((n, h) # hs) cmd = (if cmd = asc n then Some h else arm hs cmd)"

declare arm.simps [simp del]

definition on_db :: "nat \<Rightarrow> 'r handler \<Rightarrow> 'r server_handler" where
  "on_db i h s = map_option (\<lambda>((r, w, zw), st). (r, s\<lparr>sv_store := st, sv_wakes := w, sv_zset_wakes := zw\<rparr>))
     (with_db i (\<lambda>db. map_option (\<lambda>(r, c). ((r, cs_wakes c, cs_zset_wakes c), cs_db c))
       (h \<lparr>cs_db = db, cs_wakes = sv_wakes s, cs_zset_wakes = sv_zset_wakes s\<rparr>)) (sv_store s))"

definition quoted :: "bytes \<Rightarrow> bytes" where
  "quoted t = [0x27] @ t @ [0x27]"

definition unknown_suffix :: "resp list \<Rightarrow> bytes" where
  "unknown_suffix args = (let preview = join_sp (map quoted (List.map_filter resp_as_str (take 3 (drop 1 args)))) in
     if preview = [] then [] else asc '', with args beginning with: '' @ preview @ asc '' '')"

definition run_handler :: "(bytes \<Rightarrow> resp list \<Rightarrow> nat \<Rightarrow> resp server_handler) \<Rightarrow> inputs \<Rightarrow> resp list \<Rightarrow> nat \<Rightarrow> bytes \<Rightarrow> nat \<Rightarrow> bytes
    \<Rightarrow> resp server_handler" where
  "run_handler rest Q args i user client cmd = (case arm (key_handlers (in_ord Q) (in_srt Q)) cmd of
     Some h \<Rightarrow> on_db i (h (in_env Q) args)
   | None \<Rightarrow> (case arm (server_handlers Q args i user client) cmd of
       Some h \<Rightarrow> h
     | None \<Rightarrow> if named cmd other_commands then rest cmd args i else refuse (UnknownCommand cmd (unknown_suffix args))))"

definition dispatch_inner :: "(bytes \<Rightarrow> resp list \<Rightarrow> nat \<Rightarrow> resp server_handler) \<Rightarrow> inputs \<Rightarrow> resp list \<Rightarrow> nat \<Rightarrow> bytes \<Rightarrow> nat
    \<Rightarrow> bytes list \<Rightarrow> bytes \<Rightarrow> resp server_handler" where
  "dispatch_inner rest Q args i user client keys cmd s =
     (if args = [] then refuse (ProtocolErr (asc ''empty command'')) s
      else let (p, m) = check_permission (int (in_unix_us Q div 1000)) user cmd keys (sv_acl s); s = s\<lparr>sv_acl := m\<rparr> in
        case p of
          Inl e \<Rightarrow> refuse (Prefixed (acl_error_text e)) s
        | Inr _ \<Rightarrow> run_handler rest Q args i user client cmd s)"

section \<open>A request\<close>

definition decode_policy :: "u8 \<Rightarrow> max_memory_policy" where
  "decode_policy p = (if p = 1 then AllKeysRandom else if p = 2 then AllKeysLru else if p = 3 then VolatileRandom
     else if p = 4 then VolatileLru else if p = 5 then VolatileTtl else NoEviction)"

text \<open>Eviction, with its notifications in the database of the request.\<close>

definition evict_and_notify :: "inputs \<Rightarrow> (nat \<Rightarrow> nat) \<Rightarrow> nat \<Rightarrow> server \<Rightarrow> server option" where
  "evict_and_notify Q nows i s = do {
     (ks, st) \<leftarrow> store_evict_if_needed (in_ord Q) nows (in_fuel Q) (decode_policy (sv_policy s)) (sv_limit s) (sv_store s);
     let s = s\<lparr>sv_store := st\<rparr>;
     Some (if ks \<noteq> [] \<and> sv_flags s \<noteq> 0 \<and> notify_contains (sv_flags s) K_EVICTED
           then fold (notify_keyspace_event i (asc ''evicted'')) ks s else s)
   }"

text \<open>The bytes for the log: the database is selected before every command.\<close>

definition aof_bytes_of :: "inputs \<Rightarrow> resp list \<Rightarrow> nat \<Rightarrow> bytes option" where
  "aof_bytes_of Q args i = do {
     sel \<leftarrow> serialize (in_itoa Q) (in_fmt_f64 Q) (RArray (Some [resp_bulk_str (asc ''SELECT''), resp_bulk_str (dec i)]));
     cmd \<leftarrow> serialize (in_itoa Q) (in_fmt_f64 Q) (RArray (Some args));
     Some (sel @ cmd)
   }"

text \<open>\<^verbatim>\<open>writer.append\<close> then \<^verbatim>\<open>fsync\<close> where every write is to be synchronised: the error's text, and the file.\<close>

definition append_aof :: "inputs \<Rightarrow> bytes \<Rightarrow> bytes option \<Rightarrow> bytes option \<times> bytes option" where
  "append_aof Q bs file = (case file of
     None \<Rightarrow> (Some (error_text (Generic (asc ''AOF writer is unavailable''))), None)
   | Some content \<Rightarrow> (case in_written Q of
       Some (n, e) \<Rightarrow> (Some (error_text (Io e)), Some (content @ take n bs))
     | None \<Rightarrow> ((if in_fsync_always Q then map_option (\<lambda>e. error_text (Io e)) (in_fsync Q) else None), Some (content @ bs))))"

definition is_error :: "resp \<Rightarrow> bool" where
  "is_error r = (case r of RError _ \<Rightarrow> True | _ \<Rightarrow> False)"

definition log_write :: "inputs \<Rightarrow> bytes option \<Rightarrow> server \<Rightarrow> (bytes option \<times> server) option" where
  "log_write Q aof s = (let s = s\<lparr>sv_dirty_keys := sv_dirty_keys s + 1\<rparr> in
     case aof of
       None \<Rightarrow> Some (None, s)
     | Some bs \<Rightarrow> (case append_aof Q bs (sv_aof s) of
         (Some e, file) \<Rightarrow> map_option (\<lambda>s. (Some e, s)) (fail_aof (in_unix_us Q div 10 ^ 6) (asc ''append or sync'') e (s\<lparr>sv_aof := file\<rparr>))
       | (None, file) \<Rightarrow> Some (None, s\<lparr>sv_aof := file, sv_aof_last_write_status := 0\<rparr>)))"

definition tell_clients :: "inputs \<Rightarrow> nat \<Rightarrow> nat \<Rightarrow> bytes \<Rightarrow> bytes list \<Rightarrow> server \<Rightarrow> server" where
  "tell_clients Q i client cmd keys s =
     (if named cmd [''FLUSHALL'', ''FLUSHDB''] then s\<lparr>sv_tracking := tr_flush_all (sv_tracking s)\<rparr>
      else if keys = [] then s
      else if is_write_command cmd
      then notify_command_keys i cmd keys (s\<lparr>sv_tracking := on_write (in_targets Q) keys client (sv_tracking s)\<rparr>)
      else s\<lparr>sv_tracking := track_read client keys (sv_tracking s)\<rparr>)"

definition need_keys :: "bytes \<Rightarrow> server \<Rightarrow> bool" where
  "need_keys cmd s \<longleftrightarrow> \<not> named cmd [''FLUSHALL'', ''FLUSHDB'']
     \<and> (\<not> am_open (sv_acl s) \<or> enabled_count (sv_tracking s) > 0 \<or> sv_flags s \<noteq> 0)"

definition touched_keys :: "bytes \<Rightarrow> resp list \<Rightarrow> server \<Rightarrow> bytes list" where
  "touched_keys cmd args s = (if need_keys cmd s then extract_keys cmd args else [])"

text \<open>What follows the handler: eviction, the log, the other clients.\<close>

definition wind_up :: "inputs \<Rightarrow> bool \<Rightarrow> bytes option \<Rightarrow> nat \<Rightarrow> nat \<Rightarrow> bytes \<Rightarrow> bytes list \<Rightarrow> resp \<Rightarrow> server \<Rightarrow> (resp \<times> server) option" where
  "wind_up Q limited aof i client cmd keys result s = (let succeeded = \<not> is_error result in do {
     s \<leftarrow> (if succeeded \<and> limited then evict_and_notify Q (in_after Q) i s else Some s);
     (failed, s) \<leftarrow> (if is_write_command cmd \<and> succeeded then log_write Q aof s else Some (None, s));
     (case failed of
        Some e \<Rightarrow> Some (RError (asc ''MISCONF AOF persistence failed after in-memory mutation: '' @ e @ asc ''; writes are now disabled''), s)
      | None \<Rightarrow> Some (result, if succeeded then tell_clients Q i client cmd keys s else s))
   })"

fun reply_of :: "resp result \<Rightarrow> resp" where
  "reply_of (Inr v) = v"
| "reply_of (Inl e) = RError (error_text e)"

definition dispatch_tracked :: "(bytes \<Rightarrow> resp list \<Rightarrow> nat \<Rightarrow> resp server_handler) \<Rightarrow> inputs \<Rightarrow> resp list \<Rightarrow> nat \<Rightarrow> bytes \<Rightarrow> nat
    \<Rightarrow> bytes \<Rightarrow> server \<Rightarrow> (resp \<times> server) option" where
  "dispatch_tracked rest Q args i user client cmd s =
     (let writes = is_write_command cmd in
      if writes \<and> cr_is_paused (in_instant Q) (sv_registry s)
      then Some (RError (error_text (Prefixed (asc ''PAUSE Write pause in effect, please retry later''))), s)
      else if writes \<and> sv_aof_failed s
      then Some (RError (asc ''MISCONF AOF persistence is in an error state; writes are disabled until operator recovery''), s)
      else if writes \<and> \<not> is_blocking_write_command cmd \<and> \<not> in_admitted Q
      then Some (RError (asc ''MISCONF persistence is quiescing; writes are temporarily disabled''), s)
      else do {
        let keys = touched_keys cmd args s;
        aof \<leftarrow> (if writes \<and> sv_aof_enabled s then map_option Some (aof_bytes_of Q args i) else Some None);
        let limited = writes \<and> sv_limit s > 0;
        s \<leftarrow> (if limited then evict_and_notify Q (in_before Q) i s else Some s);
        (r, s) \<leftarrow> dispatch_inner rest Q args i user client keys cmd s;
        wind_up Q limited aof i client cmd keys (reply_of r) s
      })"

definition dispatch_inner_callable :: "(bytes \<Rightarrow> resp list \<Rightarrow> nat \<Rightarrow> resp server_handler) \<Rightarrow> inputs \<Rightarrow> resp list \<Rightarrow> nat \<Rightarrow> bytes
    \<Rightarrow> server \<Rightarrow> (resp \<times> server) option" where
  "dispatch_inner_callable rest Q args i user s = (case parse_cmd_name args of
     Inl e \<Rightarrow> Some (RError (error_text e), s)
   | Inr cmd \<Rightarrow> dispatch_tracked rest Q args i user 0 cmd s)"

definition dispatch :: "(bytes \<Rightarrow> resp list \<Rightarrow> nat \<Rightarrow> resp server_handler) \<Rightarrow> inputs \<Rightarrow> resp list \<Rightarrow> nat \<Rightarrow> server \<Rightarrow> (resp \<times> server) option" where
  "dispatch rest Q args i s = dispatch_inner_callable rest Q args i (asc ''default'') s"

end
