(* ===== verification/Aof.thy ===== *)
theory Aof
  imports Dispatch Resp_Parser Scan
begin

text \<open>
  The append-only log (\<^verbatim>\<open>persistence.rs\<close>: \<^verbatim>\<open>AofWriter::rewrite\<close>, \<^verbatim>\<open>AofReader\<close>) and its replay when the server starts
  (\<^verbatim>\<open>nexrade-server/src/listener.rs\<close>). A file is its content; what the reads return is a list of chunks; the temporary file and
  its publication by renaming are one step that replaces the content.
\<close>

section \<open>Rewriting\<close>

text \<open>What a rewrite takes from outside: the clock at each entry, the orders of the hash maps, and the texts of doubles
  (\<^verbatim>\<open>to_string\<close> and \<^verbatim>\<open>{:.17}\<close>).\<close>

record rewrite_inputs =
  rw_nows :: "nat \<Rightarrow> nat"
  rw_entries :: iter_order
  rw_fields :: "pairs \<Rightarrow> pairs"
  rw_scores :: "(bytes \<times> f64) list \<Rightarrow> (bytes \<times> f64) list"
  rw_groups :: "(bytes \<times> consumer_group) list \<Rightarrow> (bytes \<times> consumer_group) list"
  rw_consumers :: "(bytes \<times> consumer) list \<Rightarrow> (bytes \<times> consumer) list"
  rw_points :: "(bytes \<times> geo_point) list \<Rightarrow> (bytes \<times> geo_point) list"
  rw_f64 :: "f64 \<Rightarrow> bytes"
  rw_f64_17 :: "f64 \<Rightarrow> bytes"
  rw_itoa :: "nat \<Rightarrow> bytes"

text \<open>\<^verbatim>\<open>str::split_whitespace\<close>.\<close>

function split_white :: "bytes \<Rightarrow> bytes \<Rightarrow> bytes list" where
  "split_white token bs = (case find (\<lambda>w. w \<noteq> [] \<and> take (length w) bs = w) white_spaces of
     Some w \<Rightarrow> (if token = [] then [] else [token]) @ split_white [] (drop (length w) bs)
   | None \<Rightarrow> (case bs of [] \<Rightarrow> (if token = [] then [] else [token]) | b # bs' \<Rightarrow> split_white (token @ [b]) bs'))"
  by pat_completeness auto
termination
proof (relation "measure (\<lambda>(token, bs). length bs)")
  fix token bs w :: bytes
  assume "find (\<lambda>w. w \<noteq> [] \<and> take (length w) bs = w) white_spaces = Some w"
  then have "w \<noteq> []" "take (length w) bs = w" by (auto simp: find_Some_iff)
  then have "bs \<noteq> []" "length w > 0" by auto
  then show "(([], drop (length w) bs), (token, bs)) \<in> measure (\<lambda>(token, bs). length bs)" by simp
qed simp_all

declare split_white.simps [simp del]

abbreviation command_of :: "bytes list \<Rightarrow> resp" where
  "command_of ws \<equiv> RArray (Some (map resp_bulk ws))"

text \<open>A line of the access control list as the SETUSER that recreates the user.\<close>

definition rewrite_acl_line :: "bytes \<Rightarrow> resp list" where
  "rewrite_acl_line line = (case split_white [] line of
     u # name # toks \<Rightarrow> if u = asc ''user'' then [command_of (asc ''ACL'' # asc ''SETUSER'' # name # toks)] else []
   | _ \<Rightarrow> [])"

definition rewrite_group :: "rewrite_inputs \<Rightarrow> bytes \<Rightarrow> bytes \<times> consumer_group \<Rightarrow> resp list" where
  "rewrite_group R key ng = (case ng of (name, g) \<Rightarrow>
     [command_of [asc ''XGROUP'', asc ''CREATE'', key, name, cg_last_delivered_id g]]
     @ map (\<lambda>(c, _). command_of [asc ''XGROUP'', asc ''CREATECONSUMER'', key, name, c]) (rw_consumers R (cg_consumers g))
     @ map (\<lambda>(eid, p). command_of [asc ''XCLAIM'', key, name, pe_consumer p, asc ''0'', eid, asc ''TIME'', dec (pe_delivery_time_ms p),
         asc ''RETRYCOUNT'', dec (pe_delivery_count p), asc ''FORCE'', asc ''JUSTID'']) (cg_pending g))"

definition rewrite_stream :: "rewrite_inputs \<Rightarrow> bytes \<Rightarrow> stream_data \<Rightarrow> resp list" where
  "rewrite_stream R key d =
     map (\<lambda>e. command_of ([asc ''XADD'', key, se_id e] @ concat (map (\<lambda>(f, v). [f, v]) (se_fields e)))) (sd_entries d)
     @ (let gen = sd_last_generated_id d; top = (if sd_entries d = [] then None else Some (se_id (last (sd_entries d)))) in
        if top \<noteq> Some gen \<and> gen \<noteq> asc ''0-0''
        then [command_of ([asc ''XSETID'', key, gen]
          @ (if sd_entries_added d > 0 then [asc ''ENTRIESADDED'', dec (sd_entries_added d)] else []))] else [])
     @ concat (map (rewrite_group R key) (rw_groups R (sd_groups d)))"

fun rewrite_value :: "rewrite_inputs \<Rightarrow> bytes \<Rightarrow> data_type \<Rightarrow> resp list option" where
  "rewrite_value R key (DString v) = Some [command_of [asc ''SET'', key, v]]"
| "rewrite_value R key (DInt cell) = Some [command_of [asc ''SET'', key, dec_int (cell_load cell)]]"
| "rewrite_value R key (DList l) = (if listdata_is_empty l then Some []
     else map_option (\<lambda>vs. [command_of (asc ''RPUSH'' # key # vs)]) (listdata_to_vec_bytes l))"
| "rewrite_value R key (DSet s) = (if setdata_is_empty s then Some []
     else map_option (\<lambda>vs. [command_of (asc ''SADD'' # key # vs)]) (setdata_to_vec s))"
| "rewrite_value R key (DHash h) = (if hashdata_is_empty h then Some []
     else map_option (\<lambda>ps. [command_of (asc ''HSET'' # key # concat (map (\<lambda>(f, v). [f, v]) ps))]) (hashdata_to_pairs (rw_fields R) h))"
| "rewrite_value R key (DZSet z) = (if zsetdata_is_empty z then Some []
     else Some [command_of (asc ''ZADD'' # key # concat (map (\<lambda>(m, sc). [rw_f64 R sc, m]) (zsetdata_to_pairs (rw_scores R) z)))])"
| "rewrite_value R key (DStream d) = Some (if sd_entries d \<noteq> [] \<or> sd_last_id d \<noteq> [] then rewrite_stream R key d else [])"
| "rewrite_value R key (DBitmap v) = Some (if v = [] then [] else [command_of [asc ''SET'', key, v]])"
| "rewrite_value R key (DHyperLogLog v) = Some (if v = [] then [] else [command_of [asc ''SET'', key, v]])"
| "rewrite_value R key (DGeo g) = Some (if gd_members g = [] then []
     else [command_of (asc ''GEOADD'' # key # concat (map (\<lambda>(m, p). [rw_f64_17 R (gp_longitude p), rw_f64_17 R (gp_latitude p), m])
       (rw_points R (gd_members g))))])"

definition rewrite_entry :: "rewrite_inputs \<Rightarrow> nat \<times> bytes \<times> entry \<Rightarrow> resp list option" where
  "rewrite_entry R jke = (case jke of (j, key, e) \<Rightarrow>
     if entry_is_expired (rw_nows R j) e then Some []
     else do {
       cs \<leftarrow> rewrite_value R key (en_value e);
       Some (cs @ (case en_expiry e of Some x \<Rightarrow> [command_of [asc ''PEXPIREAT'', key, dec x]] | None \<Rightarrow> []))
     })"

definition rewrite_db :: "rewrite_inputs \<Rightarrow> nat \<times> database \<Rightarrow> resp list option" where
  "rewrite_db R idb = (case idb of (i, d) \<Rightarrow> do {
     css \<leftarrow> those (map (rewrite_entry R) (enumerate 0 (rw_entries R (db_entries d))));
     Some (command_of [asc ''SELECT'', dec i] # concat css)
   })"

definition rewrite_commands :: "rewrite_inputs \<Rightarrow> (nat \<times> database) list \<Rightarrow> bytes list \<Rightarrow> resp list option" where
  "rewrite_commands R dbs acl_lines = do {
     css \<leftarrow> those (map (rewrite_db R) dbs);
     Some (concat (map rewrite_acl_line acl_lines) @ concat css)
   }"

text \<open>The content of the new file.\<close>

definition aof_rewrite :: "rewrite_inputs \<Rightarrow> (nat \<times> database) list \<Rightarrow> bytes list \<Rightarrow> bytes option" where
  "aof_rewrite R dbs acl_lines = do {
     cs \<leftarrow> rewrite_commands R dbs acl_lines;
     bss \<leftarrow> those (map (serialize (rw_itoa R) (rw_f64 R)) cs);
     Some (concat bss)
   }"

section \<open>Reading\<close>

text \<open>\<open>ar_chunks\<close>: what the reads to come return, an error or bytes (none at the end of the file).\<close>

record aof_reader =
  ar_chunks :: "(bytes + bytes) list"
  ar_parser :: resp_parser
  ar_pending :: bytes
  ar_consumed :: nat
  ar_eof :: bool

definition aof_open :: "(bytes + bytes) list \<Rightarrow> aof_reader" where
  "aof_open chunks = \<lparr>ar_chunks = chunks, ar_parser = parser_new, ar_pending = [], ar_consumed = 0, ar_eof = False\<rparr>"

datatype buffered = Took bytes aof_reader | Bad nexrade_error | Wants aof_reader

definition take_buffered :: "(bytes \<Rightarrow> f64 option) \<Rightarrow> aof_reader \<Rightarrow> buffered option" where
  "take_buffered pf r =
     (if ar_pending r = [] then Some (Wants r)
      else case parser_parse_one pf (ar_parser r) of
        None \<Rightarrow> None
      | Some (Value _, p) \<Rightarrow>
          (let n = parser_buffered_len (ar_parser r) - parser_buffered_len p in
           if n \<le> length (ar_pending r)
           then Some (Took (take n (ar_pending r)) (r\<lparr>ar_parser := p, ar_pending := drop n (ar_pending r), ar_consumed := ar_consumed r + n\<rparr>))
           else None)
      | Some (NeedMore, p) \<Rightarrow> Some (Wants (r\<lparr>ar_parser := p\<rparr>))
      | Some (ProtocolError m, p) \<Rightarrow>
          Some (Bad (Generic (asc ''AOF parse error at byte '' @ dec (ar_consumed r) @ asc '': '' @ error_text (ProtocolErr m)))))"

function next_command :: "(bytes \<Rightarrow> f64 option) \<Rightarrow> aof_reader \<Rightarrow> (bytes option result \<times> aof_reader) option" where
  "next_command pf r = (case take_buffered pf r of
     None \<Rightarrow> None
   | Some (Took cmd r) \<Rightarrow> Some (Inr (Some cmd), r)
   | Some (Bad e) \<Rightarrow> Some (Inl e, r)
   | Some (Wants r) \<Rightarrow>
       if ar_eof r
       then (if ar_pending r = [] then Some (Inr None, r)
             else Some (Inl (Generic (asc ''AOF is truncated at byte '' @ dec (ar_consumed r) @ asc '': incomplete RESP command'')), r))
       else (case ar_chunks r of
          [] \<Rightarrow> next_command pf (r\<lparr>ar_eof := True\<rparr>)
        | Inl e # cs \<Rightarrow> Some (Inl (Io e), r\<lparr>ar_chunks := cs\<rparr>)
        | Inr bs # cs \<Rightarrow>
            if bs = [] then next_command pf (r\<lparr>ar_chunks := cs, ar_eof := True\<rparr>)
            else next_command pf (r\<lparr>ar_chunks := cs, ar_parser := parser_feed (ar_parser r) bs, ar_pending := ar_pending r @ bs\<rparr>)))"
  by pat_completeness auto

lemma wants_same: "take_buffered pf r = Some (Wants r') \<Longrightarrow> ar_chunks r' = ar_chunks r \<and> ar_eof r' = ar_eof r \<and> ar_pending r' = ar_pending r"
  by (auto simp: take_buffered_def Let_def split: if_splits option.splits prod.splits parsed.splits)

termination next_command
  by (relation "measure (\<lambda>(pf, r). length (ar_chunks r) + (if ar_eof r then 0 else 1))") (auto dest: wants_same)

declare next_command.simps [simp del]

text \<open>What is left to read shrinks with every command.\<close>

definition chunk_bytes :: "(bytes + bytes) list \<Rightarrow> nat" where
  "chunk_bytes cs = sum_list (map (case_sum (\<lambda>_. 0) length) cs)"

definition unread :: "aof_reader \<Rightarrow> nat" where
  "unread r = length (ar_pending r) + chunk_bytes (ar_chunks r)"

lemma took_shrinks: "take_buffered pf r = Some (Took cmd r') \<Longrightarrow> unread r' < unread r"
  by (auto simp: take_buffered_def unread_def Let_def parser_buffered_len_def
      split: if_splits option.splits prod.splits parsed.splits dest!: parse_one_shrinks)

definition turns :: "aof_reader \<Rightarrow> nat" where
  "turns r = length (ar_chunks r) + (if ar_eof r then 0 else 1)"

lemma next_command_shrinks: "next_command pf r = Some (Inr (Some cmd), r') \<Longrightarrow> unread r' < unread r"
proof (induction "turns r" arbitrary: r rule: less_induct)
  case less
  consider (took) c r1 where "take_buffered pf r = Some (Took c r1)" | (wants) r1 where "take_buffered pf r = Some (Wants r1)"
    using less.prems by (auto simp: next_command.simps [of pf r] split: option.splits buffered.splits)
  then show ?case
  proof cases
    case took
    then show ?thesis using less.prems took_shrinks by (simp add: next_command.simps [of pf r])
  next
    case wants
    have w: "ar_chunks r = ar_chunks r1" "ar_eof r = ar_eof r1" "ar_pending r = ar_pending r1" using wants_same [OF wants] by simp_all
    have IH: "turns r2 < turns r \<Longrightarrow> next_command pf r2 = Some (Inr (Some cmd), r') \<Longrightarrow> unread r2 \<le> unread r \<Longrightarrow> unread r' < unread r" for r2
      using less.hyps by fastforce
    show ?thesis
    proof (cases "ar_chunks r1")
      case Nil
      then show ?thesis
        using less.prems w IH [of "r1\<lparr>ar_eof := True\<rparr>"]
        by (auto simp: next_command.simps [of pf r] wants turns_def unread_def split: if_splits)
    next
      case (Cons c cs)
      show ?thesis
      proof (cases c)
        case (Inl e)
        then show ?thesis using less.prems Cons by (simp add: next_command.simps [of pf r] wants split: if_splits)
      next
        case (Inr bs)
        then show ?thesis
          using less.prems w Cons IH [of "r1\<lparr>ar_chunks := cs, ar_eof := True\<rparr>"]
            IH [of "r1\<lparr>ar_chunks := cs, ar_parser := parser_feed (ar_parser r1) bs, ar_pending := ar_pending r1 @ bs\<rparr>"]
          by (auto simp: next_command.simps [of pf r] wants turns_def unread_def chunk_bytes_def split: if_splits)
      qed
    qed
  qed
qed

section \<open>Replay\<close>

text \<open>The loop that replays the log: \<open>n\<close> commands have been applied; the inputs of a command are those of its moment. The error
  is the text the server ends with.\<close>

definition load_select :: "resp list \<Rightarrow> nat option" where
  "load_select args = Option.bind (arg args 1 resp_as_str) parse_usize"

function load_loop :: "(bytes \<Rightarrow> resp list \<Rightarrow> nat \<Rightarrow> resp server_handler) \<Rightarrow> (bytes \<Rightarrow> f64 option) \<Rightarrow> bytes \<Rightarrow> (nat \<Rightarrow> inputs) \<Rightarrow> nat \<Rightarrow> nat
    \<Rightarrow> aof_reader \<Rightarrow> server \<Rightarrow> ((bytes + nat) \<times> server) option" where
  "load_loop rest pf path Qs n cur r s = (case next_command pf r of
     None \<Rightarrow> None
   | Some (Inl e, _) \<Rightarrow> Some (Inl (asc ''failed to replay configured AOF '' @ path @ asc '': '' @ error_text e), s)
   | Some (Inr None, _) \<Rightarrow> Some (Inr n, s)
   | Some (Inr (Some bs), r') \<Rightarrow> (case parser_parse_one pf (parser_feed parser_new bs) of
       None \<Rightarrow> None
     | Some (ProtocolError m, _) \<Rightarrow>
         Some (Inl (asc ''AOF parser inconsistency in '' @ path @ asc '': '' @ error_text (ProtocolErr m)), s)
     | Some (Value (RArray (Some args)), _) \<Rightarrow>
         (let cmd = (case parse_cmd_name args of Inr c \<Rightarrow> c | Inl _ \<Rightarrow> []) in
          if cmd = asc ''SELECT''
          then (case load_select args of
              Some d \<Rightarrow> load_loop rest pf path Qs n d r' s
            | None \<Rightarrow> Some (Inl (asc ''invalid SELECT in AOF '' @ path @ asc '' at command '' @ dec (n + 1)), s))
          else (case dispatch rest (Qs n) args cur s of
              None \<Rightarrow> None
            | Some (RError e, s) \<Rightarrow> Some (Inl (asc ''AOF replay error in '' @ path @ asc '' at command '' @ dec (n + 1) @ asc '': '' @ e), s)
            | Some (_, s) \<Rightarrow> load_loop rest pf path Qs (n + 1) cur r' s))
     | Some _ \<Rightarrow> Some (Inl (asc ''AOF command '' @ dec (n + 1) @ asc '' in '' @ path @ asc '' is not a RESP array''), s)))"
  by pat_completeness auto
termination
  by (relation "measure (\<lambda>(rest, pf, path, Qs, n, cur, r, s). unread r)") (auto dest: next_command_shrinks)

declare load_loop.simps [simp del]

text \<open>Startup with a log: replay what is there, then open the writer behind it.\<close>

definition load_aof :: "(bytes \<Rightarrow> resp list \<Rightarrow> nat \<Rightarrow> resp server_handler) \<Rightarrow> (bytes \<Rightarrow> f64 option) \<Rightarrow> bytes \<Rightarrow> (nat \<Rightarrow> inputs) \<Rightarrow> bytes
    \<Rightarrow> (bytes + bytes) list \<Rightarrow> server \<Rightarrow> ((bytes + nat) \<times> server) option" where
  "load_aof rest pf path Qs content chunks s = (case load_loop rest pf path Qs 0 0 (aof_open chunks) s of
     Some (Inr n, s) \<Rightarrow> Some (Inr n, s\<lparr>sv_dirty_keys := 0, sv_aof := Some content, sv_aof_enabled := True\<rparr>)
   | other \<Rightarrow> other)"

end
