(* ===== verification/Dispatch_Tables.thy ===== *)
theory Dispatch_Tables
  imports Dispatch ZSet_Correct
begin

text \<open>
  The tables of \<open>Dispatch\<close>, looked up: each command of the six families finds its handler.
\<close>

section \<open>The tables\<close>

lemma named_asc [simp]: "named (asc n) ns \<longleftrightarrow> n \<in> set ns"
  by (auto simp: named_def list_ex_iff asc_inject)

lemma arm_asc: "arm hs (asc n) = map_of hs n"
  by (induction hs) (auto simp: asc_inject arm.simps)

lemmas arm_table = arm_asc key_handlers_def if_distrib [of "arm (key_handlers ord srt)" for ord srt]

lemma list_arm: "arm (key_handlers ord srt) (hd (list_words c)) = Some (list_handler c)"
  by (cases c rule: list_words.cases) (simp_all add: arm_table)

lemma hash_arm: "arm (key_handlers ord srt) (hd (hash_words c)) = Some (hash_handler c)"
  by (cases c) (simp_all add: arm_table)

lemma set_arm: "arm (key_handlers ord srt) (hd (set_words c)) = Some (set_handler c)"
  by (cases c) (simp_all add: arm_table)

lemma zset_arm: "arm (key_handlers ord srt) (hd (zset_words c)) = Some (zset_handler c)"
proof (cases c)
  case (ZJoin j ks wts agg ws)
  then show ?thesis by (cases j) (simp_all add: arm_table)
next
  case (ZJoinStore j dst ks wts agg)
  then show ?thesis by (cases j) (simp_all add: arm_table)
qed (simp_all add: arm_table)

lemma str_arm: "arm (key_handlers ord srt) (hd (str_words c)) = Some (str_handler srt c)"
  by (cases c) (simp_all add: arm_table)

lemma generic_arm: "arm (key_handlers ord srt) (hd (generic_words c)) = Some (generic_handler ord c)"
  by (cases c) (simp_all add: arm_table expire_name_def)

end
