(* ===== verification/Dispatch_Laws.thy ===== *)
theory Dispatch_Laws
  imports Dispatch_Tables Commands Protocol
begin

text \<open>
  What a request does (\<open>Dispatch\<close>): from the words of a command to the reply, the keyspace, the log and what other clients are
  told; and which keys the permission check sees.
\<close>

section \<open>The commands on keys as one family\<close>

datatype key_cmd = ListCmd list_cmd | HashCmd hash_cmd | SetCmd set_cmd | ZSetCmd zset_cmd | StrCmd str_cmd | GenericCmd generic_cmd

fun key_words :: "key_cmd \<Rightarrow> bytes list" where
  "key_words (ListCmd c) = list_words c"
| "key_words (HashCmd c) = hash_words c"
| "key_words (SetCmd c) = set_words c"
| "key_words (ZSetCmd c) = zset_words c"
| "key_words (StrCmd c) = str_words c"
| "key_words (GenericCmd c) = generic_words c"

fun key_wf :: "key_cmd \<Rightarrow> bool" where
  "key_wf (ListCmd c) = list_wf c"
| "key_wf (HashCmd c) = hash_wf c"
| "key_wf (SetCmd c) = set_wf c"
| "key_wf (ZSetCmd c) = zset_wf c"
| "key_wf (StrCmd c) = str_wf c"
| "key_wf (GenericCmd c) = generic_wf c"

fun key_exec :: "iter_order \<Rightarrow> (tagged_pair list \<Rightarrow> tagged_pair list) \<Rightarrow> env \<Rightarrow> key_cmd \<Rightarrow> resp handler" where
  "key_exec ord srt E (ListCmd c) = list_exec E c"
| "key_exec ord srt E (HashCmd c) = hash_exec E c"
| "key_exec ord srt E (SetCmd c) = set_exec E c"
| "key_exec ord srt E (ZSetCmd c) = zset_exec E c"
| "key_exec ord srt E (StrCmd c) = str_exec srt E c"
| "key_exec ord srt E (GenericCmd c) = generic_exec ord E c"

fun key_cmd_spec :: "env \<Rightarrow> key_cmd \<Rightarrow> keyspace \<Rightarrow> resp result \<Rightarrow> keyspace \<Rightarrow> bool" where
  "key_cmd_spec E (ListCmd c) A r A' \<longleftrightarrow> (r, A') = list_spec E c A"
| "key_cmd_spec E (HashCmd c) A r A' \<longleftrightarrow> hash_spec E c A r A'"
| "key_cmd_spec E (SetCmd c) A r A' \<longleftrightarrow> set_spec E c A r A'"
| "key_cmd_spec E (ZSetCmd c) A r A' \<longleftrightarrow> zset_spec E c A r A'"
| "key_cmd_spec E (StrCmd c) A r A' \<longleftrightarrow> str_spec E c A r A'"
| "key_cmd_spec E (GenericCmd c) A r A' \<longleftrightarrow> generic_spec E c A r A'"

abbreviation key_name :: "key_cmd \<Rightarrow> bytes" where
  "key_name c \<equiv> hd (key_words c)"

interpretation kc: command_rel lims "\<lambda>c. iter_laws ord \<and> sort_laws srt \<and> key_wf c" "key_exec ord srt" key_cmd_spec for lims ord srt
proof
  fix E :: env and c clk A and s :: cmd_state
  assume E: "env_ok lims E" and w: "iter_laws ord \<and> sort_laws srt \<and> key_wf c" and k: "ks_is lims clk (cs_db s) A"
  show "\<exists>r s' A'. key_exec ord srt E c s = Some (r, s') \<and> key_cmd_spec E c A r A' \<and> ks_is lims clk (cs_db s') A'"
  proof (cases c)
    case (ListCmd d)
    then show ?thesis using list_command_law [OF E _ k, of d] w by fastforce
  next
    case (HashCmd d)
    then show ?thesis using hash_command_law [OF E _ k, of d] w by simp
  next
    case (SetCmd d)
    then show ?thesis using set_command_law [OF E _ k, of d] w by simp
  next
    case (ZSetCmd d)
    then show ?thesis using zset_command_law [OF E _ k, of d] w by simp
  next
    case (StrCmd d)
    then show ?thesis using string_command_law [OF _ E _ k, of srt d] w by simp
  next
    case (GenericCmd d)
    then show ?thesis using generic_command_law [OF _ E _ k, of ord d] w by simp
  qed
qed

lemma words_not_empty: "key_words c \<noteq> []"
proof (cases c)
  case (ListCmd d)
  then show ?thesis by (cases d rule: list_words.cases) simp_all
next
  case (HashCmd d)
  then show ?thesis by (cases d) simp_all
next
  case (SetCmd d)
  then show ?thesis by (cases d) simp_all
next
  case (ZSetCmd d)
  then show ?thesis by (cases d) simp_all
next
  case (StrCmd d)
  then show ?thesis by (cases d) simp_all
next
  case (GenericCmd d)
  then show ?thesis by (cases d) simp_all
qed

lemma key_arm: "\<exists>h. arm (key_handlers ord srt) (key_name c) = Some h \<and> h E (bulks (key_words c)) = key_exec ord srt E c"
  by (cases c) (simp_all add: list_arm hash_arm set_arm zset_arm str_arm generic_arm list_exec_def hash_exec_def set_exec_def zset_exec_def str_exec_def generic_exec_def)

lemma run_key: "run_handler rest Q (bulks (key_words c)) i user client (key_name c) = on_db i (key_exec (in_ord Q) (in_srt Q) (in_env Q) c)"
  using key_arm [of "in_ord Q" "in_srt Q" c "in_env Q"] by (auto simp: run_handler_def)

section \<open>One request\<close>

text \<open>The databases after a handler has worked on one of them.\<close>

lemma on_db_works:
  assumes "store_db (sv_store s) i = Some db" and "h \<lparr>cs_db = db, cs_wakes = sv_wakes s, cs_zset_wakes = sv_zset_wakes s\<rparr> = Some (r, c)"
  shows "\<exists>st. on_db i h s = Some (r, s\<lparr>sv_store := st, sv_wakes := cs_wakes c, sv_zset_wakes := cs_zset_wakes c\<rparr>) \<and> store_db st i = Some (cs_db c)
    \<and> st_db_count st = st_db_count (sv_store s)
    \<and> (\<forall>j. j mod st_db_count st \<noteq> i mod st_db_count st \<longrightarrow> store_db st j = store_db (sv_store s) j)"
proof -
  let ?n = "st_db_count (sv_store s)" and ?dbs = "st_dbs (sv_store s)"
  from assms(1) have n: "?n \<noteq> 0" "i mod ?n < length ?dbs" "?dbs ! (i mod ?n) = db"
    by (auto simp: store_db_def db_slot_def index_def split: if_splits)
  let ?st = "(sv_store s)\<lparr>st_dbs := ?dbs[i mod ?n := cs_db c]\<rparr>"
  have "with_db i (\<lambda>db. map_option (\<lambda>(r, c). ((r, cs_wakes c, cs_zset_wakes c), cs_db c)) (h \<lparr>cs_db = db, cs_wakes = sv_wakes s, cs_zset_wakes = sv_zset_wakes s\<rparr>)) (sv_store s)
      = Some ((r, cs_wakes c, cs_zset_wakes c), ?st)"
    using n assms(2) by (simp add: with_db_def db_slot_def index_def)
  then have "on_db i h s = Some (r, s\<lparr>sv_store := ?st, sv_wakes := cs_wakes c, sv_zset_wakes := cs_zset_wakes c\<rparr>)" by (simp add: on_db_def)
  moreover have "store_db ?st i = Some (cs_db c)" using n by (simp add: store_db_def db_slot_def index_def)
  moreover have "j mod ?n \<noteq> i mod ?n \<Longrightarrow> store_db ?st j = store_db (sv_store s) j" for j
    by (simp add: store_db_def db_slot_def index_def)
  ultimately show ?thesis by (intro exI [of _ ?st]) simp
qed

definition quiet :: "inputs \<Rightarrow> server \<Rightarrow> bool" where
  "quiet Q s \<longleftrightarrow> \<not> cr_is_paused (in_instant Q) (sv_registry s) \<and> \<not> sv_aof_failed s \<and> in_admitted Q \<and> sv_limit s = 0
     \<and> (sv_aof_enabled s \<longrightarrow> sv_aof s \<noteq> None) \<and> in_written Q = None \<and> in_fsync Q = None \<and> itoa_laws (in_itoa Q)"

definition permitted :: "inputs \<Rightarrow> bytes \<Rightarrow> bytes \<Rightarrow> resp list \<Rightarrow> server \<Rightarrow> bool" where
  "permitted Q user cmd args s \<longleftrightarrow> fst (check_permission (int (in_unix_us Q div 1000)) user cmd (touched_keys cmd args s) (sv_acl s)) = Inr ()"

lemma permitted_acl: "permitted Q user cmd args s \<Longrightarrow>
    check_permission (int (in_unix_us Q div 1000)) user cmd (touched_keys cmd args s) (sv_acl s) = (Inr (), sv_acl s)"
  by (auto simp: permitted_def check_permission_def split: option.splits if_splits)

definition log_record :: "(f64 \<Rightarrow> bytes) \<Rightarrow> resp list \<Rightarrow> nat \<Rightarrow> bytes" where
  "log_record fmt args i = resp_bytes fmt 2 (RArray (Some [resp_bulk_str (asc ''SELECT''), resp_bulk_str (dec i)]))
     @ resp_bytes fmt 2 (RArray (Some args))"

lemma aof_bytes_record:
  assumes "itoa_laws (in_itoa Q)" and "resp_repr (in_fmt_f64 Q) (RArray (Some args))" and "i < 2 ^ 64"
  shows "aof_bytes_of Q args i = Some (log_record (in_fmt_f64 Q) args i)"
proof -
  have "resp_repr (in_fmt_f64 Q) (RArray (Some [resp_bulk_str (asc ''SELECT''), resp_bulk_str (dec i)]))"
    using length_dec [of i 20] assms(3) by (simp add: resp_bulk_str_def asc_def)
  then show ?thesis using assms(1,2) by (simp add: aof_bytes_of_def serialize_def serialize_bytes log_record_def)
qed

text \<open>What is left of the server after a handler when nothing interferes.\<close>

definition logged :: "inputs \<Rightarrow> bytes \<Rightarrow> resp list \<Rightarrow> nat \<Rightarrow> server \<Rightarrow> server" where
  "logged Q cmd args i s = (if is_write_command cmd
     then let s = s\<lparr>sv_dirty_keys := sv_dirty_keys s + 1\<rparr> in
       if sv_aof_enabled s
       then s\<lparr>sv_aof := map_option (\<lambda>content. content @ log_record (in_fmt_f64 Q) args i) (sv_aof s), sv_aof_last_write_status := 0\<rparr> else s
     else s)"

definition finished :: "inputs \<Rightarrow> resp list \<Rightarrow> nat \<Rightarrow> nat \<Rightarrow> bytes \<Rightarrow> bytes list \<Rightarrow> resp \<Rightarrow> server \<Rightarrow> server" where
  "finished Q args i client cmd keys v s = (if is_error v then s else tell_clients Q i client cmd keys (logged Q cmd args i s))"

lemma request_runs:
  assumes q: "quiet Q s" and p: "permitted Q user cmd args s" and a: "args \<noteq> []" "resp_repr (in_fmt_f64 Q) (RArray (Some args))" "i < 2 ^ 64"
    and h: "run_handler rest Q args i user client cmd s = Some (r, s\<lparr>sv_store := st, sv_wakes := w, sv_zset_wakes := zw\<rparr>)"
  shows "dispatch_tracked rest Q args i user client cmd s
    = Some (reply_of r, finished Q args i client cmd (touched_keys cmd args s) (reply_of r) (s\<lparr>sv_store := st, sv_wakes := w, sv_zset_wakes := zw\<rparr>))"
proof -
  let ?s1 = "s\<lparr>sv_store := st, sv_wakes := w, sv_zset_wakes := zw\<rparr>" and ?v = "reply_of r"
  have d: "dispatch_inner rest Q args i user client (touched_keys cmd args s) cmd s = Some (r, ?s1)"
    using a(1) h by (simp add: dispatch_inner_def permitted_acl [OF p])
  have l: "log_write Q (if sv_aof_enabled s then Some (log_record (in_fmt_f64 Q) args i) else None) ?s1 = Some (None, logged Q cmd args i ?s1)"
    if "is_write_command cmd"
    using that q by (auto simp: log_write_def logged_def append_aof_def quiet_def Let_def)
  have b: "aof_bytes_of Q args i = Some (log_record (in_fmt_f64 Q) args i)"
    using aof_bytes_record a(2,3) q by (simp add: quiet_def)
  have nl: "logged Q cmd args i ?s1 = ?s1" if "\<not> is_write_command cmd" using that by (simp add: logged_def)
  have "wind_up Q False aof i client cmd (touched_keys cmd args s) ?v ?s1
      = Some (?v, finished Q args i client cmd (touched_keys cmd args s) ?v ?s1)"
    if "is_write_command cmd \<Longrightarrow> aof = (if sv_aof_enabled s then Some (log_record (in_fmt_f64 Q) args i) else None)" for aof
    using l nl that by (auto simp: wind_up_def finished_def)
  then show ?thesis using q b by (auto simp: dispatch_tracked_def quiet_def Let_def d)
qed

text \<open>Telling the clients changes the tracking table and the inboxes of subscribers only.\<close>

lemma notify_event_frame: "\<exists>ps. notify_keyspace_event i event key s = s\<lparr>sv_pubsub := ps\<rparr>"
proof -
  have "s = s\<lparr>sv_pubsub := sv_pubsub s\<rparr>" by simp
  then show ?thesis unfolding notify_keyspace_event_def Let_def by (auto intro: exI [of _ "sv_pubsub s"])
qed

lemma notify_events_frame: "\<exists>ps. fold (notify_keyspace_event i event) keys s = s\<lparr>sv_pubsub := ps\<rparr>"
proof (induction keys arbitrary: s)
  case Nil
  then show ?case by (auto intro: exI [of _ "sv_pubsub s"])
next
  case (Cons k keys)
  obtain ps where "notify_keyspace_event i event k s = s\<lparr>sv_pubsub := ps\<rparr>" using notify_event_frame by blast
  then show ?case using Cons [of "s\<lparr>sv_pubsub := ps\<rparr>"] by auto
qed

lemma notify_keys_frame: "\<exists>ps. notify_command_keys i cmd keys s = s\<lparr>sv_pubsub := ps\<rparr>"
proof -
  have "s = s\<lparr>sv_pubsub := sv_pubsub s\<rparr>" by simp
  then show ?thesis unfolding notify_command_keys_def
    using notify_events_frame [of i _ keys s] by (auto intro: exI [of _ "sv_pubsub s"] split: option.splits)
qed

lemma tell_frame: "\<exists>t ps. tell_clients Q i client cmd keys s = s\<lparr>sv_tracking := t, sv_pubsub := ps\<rparr>"
proof -
  have e: "s\<lparr>sv_tracking := t\<rparr> = s\<lparr>sv_tracking := t, sv_pubsub := sv_pubsub s\<rparr>" for t by simp
  have "s = s\<lparr>sv_tracking := sv_tracking s, sv_pubsub := sv_pubsub s\<rparr>" by simp
  moreover obtain ps where "notify_command_keys i cmd keys (s\<lparr>sv_tracking := on_write (in_targets Q) keys client (sv_tracking s)\<rparr>)
      = s\<lparr>sv_tracking := on_write (in_targets Q) keys client (sv_tracking s), sv_pubsub := ps\<rparr>"
    using notify_keys_frame [of i cmd keys "s\<lparr>sv_tracking := on_write (in_targets Q) keys client (sv_tracking s)\<rparr>"] by auto
  ultimately show ?thesis unfolding tell_clients_def by (metis e)
qed

lemma tell_keeps [simp]:
  "sv_store (tell_clients Q i client cmd keys s) = sv_store s"
  "sv_aof (tell_clients Q i client cmd keys s) = sv_aof s"
  "sv_acl (tell_clients Q i client cmd keys s) = sv_acl s"
  "sv_registry (tell_clients Q i client cmd keys s) = sv_registry s"
  "sv_limit (tell_clients Q i client cmd keys s) = sv_limit s"
  "sv_aof_failed (tell_clients Q i client cmd keys s) = sv_aof_failed s"
  "sv_aof_enabled (tell_clients Q i client cmd keys s) = sv_aof_enabled s"
  "sv_flags (tell_clients Q i client cmd keys s) = sv_flags s"
proof -
  obtain t ps where "tell_clients Q i client cmd keys s = s\<lparr>sv_tracking := t, sv_pubsub := ps\<rparr>" using tell_frame by blast
  then show "sv_store (tell_clients Q i client cmd keys s) = sv_store s"
    "sv_aof (tell_clients Q i client cmd keys s) = sv_aof s" "sv_acl (tell_clients Q i client cmd keys s) = sv_acl s"
    "sv_registry (tell_clients Q i client cmd keys s) = sv_registry s" "sv_limit (tell_clients Q i client cmd keys s) = sv_limit s"
    "sv_aof_failed (tell_clients Q i client cmd keys s) = sv_aof_failed s"
    "sv_aof_enabled (tell_clients Q i client cmd keys s) = sv_aof_enabled s" "sv_flags (tell_clients Q i client cmd keys s) = sv_flags s"
    by simp_all
qed

lemma logged_keeps [simp]: "sv_store (logged Q cmd args i s) = sv_store s" "sv_acl (logged Q cmd args i s) = sv_acl s"
  "sv_tracking (logged Q cmd args i s) = sv_tracking s"
  "sv_aof (logged Q cmd args i s) = (if is_write_command cmd \<and> sv_aof_enabled s
     then map_option (\<lambda>l. l @ log_record (in_fmt_f64 Q) args i) (sv_aof s) else sv_aof s)"
  by (simp_all add: logged_def Let_def)

section \<open>A request as a whole\<close>

lemma request_law:
  assumes "iter_laws (in_ord Q)" and "sort_laws (in_srt Q)" and "env_ok lims (in_env Q)" and "key_wf c"
    and "quiet Q s" and "permitted Q user (key_name c) (bulks (key_words c)) s"
    and "i < 2 ^ 64" and "resp_repr (in_fmt_f64 Q) (RArray (Some (bulks (key_words c))))"
    and "store_db (sv_store s) i = Some db" and "ks_is lims clk db A"
  shows "\<exists>r A' s' db'. dispatch_tracked rest Q (bulks (key_words c)) i user client (key_name c) s = Some (reply_of r, s')
    \<and> key_cmd_spec (in_env Q) c A r A' \<and> store_db (sv_store s') i = Some db' \<and> ks_is lims clk db' A'
    \<and> (\<forall>j. j mod st_db_count (sv_store s) \<noteq> i mod st_db_count (sv_store s) \<longrightarrow> store_db (sv_store s') j = store_db (sv_store s) j)
    \<and> sv_aof s' = (if is_write_command (key_name c) \<and> sv_aof_enabled s \<and> \<not> is_error (reply_of r)
        then map_option (\<lambda>l. l @ log_record (in_fmt_f64 Q) (bulks (key_words c)) i) (sv_aof s) else sv_aof s)"
proof -
  let ?args = "bulks (key_words c)" and ?cmd = "key_name c"
  obtain r A' and d :: cmd_state where d: "key_exec (in_ord Q) (in_srt Q) (in_env Q) c \<lparr>cs_db = db, cs_wakes = sv_wakes s, cs_zset_wakes = sv_zset_wakes s\<rparr> = Some (r, d)"
    "key_cmd_spec (in_env Q) c A r A'" "ks_is lims clk (cs_db d) A'"
    using kc.command_rlaw [of lims "in_env Q" "in_ord Q" "in_srt Q" c clk "\<lparr>cs_db = db, cs_wakes = sv_wakes s, cs_zset_wakes = sv_zset_wakes s\<rparr>" A] assms(1-4,10) by auto
  from on_db_works [where h = "key_exec (in_ord Q) (in_srt Q) (in_env Q) c", OF assms(9) d(1)] obtain st where
    st: "on_db i (key_exec (in_ord Q) (in_srt Q) (in_env Q) c) s = Some (r, s\<lparr>sv_store := st, sv_wakes := cs_wakes d, sv_zset_wakes := cs_zset_wakes d\<rparr>)"
      "store_db st i = Some (cs_db d)"
      "\<forall>j. j mod st_db_count (sv_store s) \<noteq> i mod st_db_count (sv_store s) \<longrightarrow> store_db st j = store_db (sv_store s) j" by auto
  have ne: "?args \<noteq> []" using words_not_empty [of c] by (simp add: bulks_def)
  have run: "run_handler rest Q ?args i user client ?cmd s = Some (r, s\<lparr>sv_store := st, sv_wakes := cs_wakes d, sv_zset_wakes := cs_zset_wakes d\<rparr>)"
    using st(1) by (simp add: run_key)
  let ?s' = "finished Q ?args i client ?cmd (touched_keys ?cmd ?args s) (reply_of r) (s\<lparr>sv_store := st, sv_wakes := cs_wakes d, sv_zset_wakes := cs_zset_wakes d\<rparr>)"
  note ran = request_runs [OF assms(5,6) ne assms(8,7) run]
  have f: "sv_store ?s' = st" "sv_aof ?s' = (if is_write_command ?cmd \<and> sv_aof_enabled s \<and> \<not> is_error (reply_of r)
        then map_option (\<lambda>l. l @ log_record (in_fmt_f64 Q) ?args i) (sv_aof s) else sv_aof s)"
    by (simp_all add: finished_def)
  show ?thesis
    by (rule exI [of _ r], rule exI [of _ A'], rule exI [of _ ?s'], rule exI [of _ "cs_db d"])
      (simp add: ran d(2,3) f st(2,3))
qed

section \<open>The properties\<close>


text \<open>A server at rest, with the log on, and inputs under which nothing fails.\<close>

definition server_new :: "nat \<Rightarrow> nat \<Rightarrow> server" where
  "server_new cpus n = \<lparr>sv_store = store_new cpus n, sv_wakes = 0, sv_zset_wakes = 0, sv_acl = acl_new, sv_tracking = tracking_new, sv_pubsub = pubsub_new,
     sv_flags = 0, sv_registry = registry_new, sv_slowlog = slowlog_new 10000 128, sv_limit = 0, sv_policy = 0, sv_aof = Some [],
     sv_aof_enabled = True, sv_aof_failed = False, sv_aof_failed_msg = None, sv_aof_failed_time = 0, sv_aof_last_write_status = 0,
     sv_dirty_keys = 0, sv_last_save_time = 0, sv_requirepass = None, sv_is_replica = False, sv_replicas = None, sv_propagated = [],
     sv_replication_offset = 0, sv_commands = 0\<rparr>"

definition inputs_at :: "nat \<Rightarrow> inputs" where
  "inputs_at now = \<lparr>in_env = default_env now, in_ord = (\<lambda>x. x), in_srt = sort_key fst, in_before = (\<lambda>_. now), in_after = (\<lambda>_. now),
     in_fuel = 1, in_instant = now * 10 ^ 6, in_unix_us = now * 1000, in_admitted = True, in_written = None, in_fsync_always = False,
     in_fsync = None, in_targets = sorted_list_of_set, in_acl_lib = \<lparr>al_sha_hex = (\<lambda>x. x), al_lowercase = to_lowercase\<rparr>,
     in_uuid = (\<lambda>_. replicate 16 0), in_upper = to_ascii_uppercase, in_itoa = dec, in_fmt_f64 = bits_text\<rparr>"

lemma server_new_quiet: "quiet (inputs_at now) (server_new cpus n)"
  by (simp add: quiet_def inputs_at_def server_new_def registry_new_def cr_is_paused_def dec_itoa)

lemma open_permits: "am_open (sv_acl s) \<Longrightarrow> permitted Q (asc ''default'') cmd args s"
  by (simp add: permitted_def check_permission_def)

lemma server_new_db: "i < n \<Longrightarrow> \<exists>db. store_db (sv_store (server_new cpus n)) i = Some db \<and> ks_is lims 0 db Map.empty"
  using shard_count_power [of cpus] ks_is_new by (auto simp: server_new_def store_new_def store_db_def db_slot_def index_def)


end
