(* ===== verification/Aof_Laws.thy ===== *)
theory Aof_Laws
  imports Aof Dispatch_Laws
begin

text \<open>
  What the log is worth: it is read back as it was written, it holds exactly the writes that succeeded, a rewritten log restores
  the keyspace, and in which cases the server cannot start from a log it has written itself.
\<close>

section \<open>Reading back\<close>

text \<open>The reads of a file of these bytes, in pieces of any size, none empty before the end.\<close>

definition chunks_of :: "bytes \<Rightarrow> (bytes + bytes) list \<Rightarrow> bool" where
  "chunks_of content cs \<longleftrightarrow> (\<exists>bss. cs = map Inr bss \<and> [] \<notin> set bss \<and> concat bss = content)"

text \<open>The reader before the rest of the file: the parser holds the pending bytes.\<close>

definition at_rest :: "aof_reader \<Rightarrow> bytes \<Rightarrow> bool" where
  "at_rest r content \<longleftrightarrow> rp_buf (ar_parser r) = ar_pending r \<and> (ar_eof r \<longrightarrow> ar_chunks r = [])
     \<and> (\<exists>post. chunks_of post (ar_chunks r) \<and> ar_pending r @ post = content)"

lemma at_rest_open: "chunks_of content cs \<Longrightarrow> at_rest (aof_open cs) content"
  by (simp add: at_rest_def aof_open_def parser_new_def)

lemma chunks_of_Nil [simp]: "chunks_of content [] \<longleftrightarrow> content = []"
  by (auto simp: chunks_of_def)

lemma chunks_of_Cons: "chunks_of content (c # cs) \<longleftrightarrow> (\<exists>bs post. c = Inr bs \<and> bs \<noteq> [] \<and> content = bs @ post \<and> chunks_of post cs)"
proof
  assume "chunks_of content (c # cs)"
  then obtain bss where b: "c # cs = map Inr bss" "[] \<notin> set bss" "concat bss = content" unfolding chunks_of_def by metis
  then obtain bs bss' where "bss = bs # bss'" "c = Inr bs" "cs = map Inr bss'" by (cases bss) auto
  then show "\<exists>bs post. c = Inr bs \<and> bs \<noteq> [] \<and> content = bs @ post \<and> chunks_of post cs"
    using b unfolding chunks_of_def by auto
next
  assume "\<exists>bs post. c = Inr bs \<and> bs \<noteq> [] \<and> content = bs @ post \<and> chunks_of post cs"
  then obtain bs bss where "c = Inr bs" "bs \<noteq> []" "content = bs @ concat bss" "cs = map Inr bss" "[] \<notin> set bss"
    by (auto simp: chunks_of_def)
  then show "chunks_of content (c # cs)" unfolding chunks_of_def by (intro exI [of _ "bs # bss"]) auto
qed

text \<open>As long as the pending bytes are a proper prefix of a value, the reader asks for more.\<close>

lemma prefix_wants:
  assumes "reads pf e v" and "ar_pending r = take k e" and "k < length e" and "rp_buf (ar_parser r) = ar_pending r"
  shows "take_buffered pf r = Some (Wants r)"
proof (cases "ar_pending r = []")
  case False
  have "parse_resp pf (take k e) = PIncomplete" using assms(1,3) by (auto simp: reads_def)
  then have "parser_parse_one pf (ar_parser r) = Some (NeedMore, ar_parser r)"
    using assms(2,4) False by (simp add: parser_parse_one_def)
  then show ?thesis using False by (simp add: take_buffered_def)
qed (simp add: take_buffered_def)

lemma next_feeds:
  assumes "take_buffered pf r = Some (Wants r)" and "at_rest r content" and "\<not> ar_eof r" and "ar_chunks r = Inr bs # cs"
  shows "\<exists>r'. next_command pf r = next_command pf r' \<and> at_rest r' content \<and> ar_consumed r' = ar_consumed r \<and> turns r' < turns r \<and> \<not> ar_eof r'"
proof -
  let ?r' = "r\<lparr>ar_chunks := cs, ar_parser := parser_feed (ar_parser r) bs, ar_pending := ar_pending r @ bs\<rparr>"
  obtain post where "bs \<noteq> []" "ar_pending r @ bs @ post = content" "chunks_of post cs" "rp_buf (ar_parser r) = ar_pending r"
    using assms(2,4) by (auto simp: at_rest_def chunks_of_Cons)
  then have "next_command pf r = next_command pf ?r'" "at_rest ?r' content"
    using assms by (auto simp: next_command.simps [of pf r] at_rest_def parser_feed_def)
  then show ?thesis using assms(3,4) by (intro exI [of _ ?r']) (simp add: turns_def)
qed

lemma next_takes:
  assumes "at_rest r (e @ post)" and "reads pf e v"
  shows "\<exists>r'. next_command pf r = Some (Inr (Some e), r') \<and> at_rest r' post \<and> ar_consumed r' = ar_consumed r + length e"
  using assms(1)
proof (induction "turns r" arbitrary: r rule: less_induct)
  case less
  have b: "rp_buf (ar_parser r) = ar_pending r" using less.prems by (simp add: at_rest_def)
  obtain rest where rest: "chunks_of rest (ar_chunks r)" "ar_pending r @ rest = e @ post" using less.prems by (auto simp: at_rest_def)
  show ?case
  proof (cases "length e \<le> length (ar_pending r)")
    case True
    then obtain t where t: "ar_pending r = e @ t" "t @ rest = post" using rest(2) by (auto simp: append_eq_append_conv2)
    have ne: "e \<noteq> []" using assms(2) by (rule reads_nonempty)
    have "parse_resp pf (e @ t) = POk v (length e)" using assms(2) by (simp add: reads_def)
    then have p: "parser_parse_one pf (ar_parser r) = Some (Value v, (ar_parser r)\<lparr>rp_buf := t\<rparr>)"
      using b t ne by (simp add: parser_parse_one_def)
    let ?r' = "r\<lparr>ar_parser := (ar_parser r)\<lparr>rp_buf := t\<rparr>, ar_pending := t, ar_consumed := ar_consumed r + length e\<rparr>"
    have "take_buffered pf r = Some (Took e ?r')" using p b t ne by (simp add: take_buffered_def parser_buffered_len_def)
    then have "next_command pf r = Some (Inr (Some e), ?r')" by (simp add: next_command.simps [of pf r])
    moreover have "at_rest ?r' post" using less.prems rest(1) t by (auto simp: at_rest_def)
    ultimately show ?thesis by (intro exI [of _ ?r']) simp
  next
    case False
    then have pre: "ar_pending r = take (length (ar_pending r)) e" "length (ar_pending r) < length e"
      using rest(2) by (simp_all add: append_eq_append_conv_if split: if_splits)
    note w = prefix_wants [OF assms(2) pre b]
    have "rest \<noteq> []" using rest(2) False by auto
    then obtain c cs where c: "ar_chunks r = c # cs" using rest(1) by (cases "ar_chunks r") auto
    then have "\<not> ar_eof r" using less.prems by (auto simp: at_rest_def)
    moreover obtain bs where "c = Inr bs" using rest(1) c by (auto simp: chunks_of_Cons)
    ultimately obtain r1 where "next_command pf r = next_command pf r1" "at_rest r1 (e @ post)" "ar_consumed r1 = ar_consumed r" "turns r1 < turns r"
      using next_feeds [OF w less.prems] c by blast
    then show ?thesis using less.hyps by metis
  qed
qed

text \<open>The end: clean when nothing is left, an error when a value is cut off.\<close>

lemma next_ends:
  assumes "at_rest r (take k e)" and "reads pf e v" and "k < length e"
  shows "\<exists>r'. next_command pf r = (if k = 0 then Some (Inr None, r')
    else Some (Inl (Generic (asc ''AOF is truncated at byte '' @ dec (ar_consumed r) @ asc '': incomplete RESP command'')), r'))"
  using assms(1)
proof (induction "turns r" arbitrary: r rule: less_induct)
  case less
  have b: "rp_buf (ar_parser r) = ar_pending r" using less.prems by (simp add: at_rest_def)
  obtain rest where rest: "chunks_of rest (ar_chunks r)" "ar_pending r @ rest = take k e" using less.prems by (auto simp: at_rest_def)
  have le: "length (ar_pending r) \<le> k" using arg_cong [OF rest(2), of length] assms(3) by simp
  have "ar_pending r = take (length (ar_pending r)) (take k e)" unfolding rest(2) [symmetric] by simp
  then have pre: "ar_pending r = take (length (ar_pending r)) e" using le by simp
  have lt: "length (ar_pending r) < length e" using le assms(3) by simp
  note w = prefix_wants [OF assms(2) pre lt b]
  show ?case
  proof (cases "ar_chunks r")
    case Nil
    then have "ar_pending r = take k e" using rest by simp
    then have z: "ar_pending r = [] \<longleftrightarrow> k = 0" using assms(3) by auto
    let ?r1 = "r\<lparr>ar_eof := True\<rparr>"
    have "take_buffered pf ?r1 = Some (Wants ?r1)" using prefix_wants [OF assms(2), of ?r1] pre lt b by simp
    then have "\<exists>r'. next_command pf ?r1 = (if k = 0 then Some (Inr None, r')
        else Some (Inl (Generic (asc ''AOF is truncated at byte '' @ dec (ar_consumed r) @ asc '': incomplete RESP command'')), r'))"
      using z by (simp add: next_command.simps [of pf ?r1])
    moreover have "ar_eof r \<or> next_command pf r = next_command pf ?r1" using w Nil by (simp add: next_command.simps [of pf r])
    ultimately show ?thesis using w z by (cases "ar_eof r") (auto simp: next_command.simps [of pf r])
  next
    case (Cons c cs)
    then have "\<not> ar_eof r" using less.prems by (auto simp: at_rest_def)
    moreover obtain bs where "c = Inr bs" using rest(1) Cons by (auto simp: chunks_of_Cons)
    ultimately obtain r1 where "next_command pf r = next_command pf r1" "at_rest r1 (take k e)" "ar_consumed r1 = ar_consumed r" "turns r1 < turns r"
      using next_feeds [OF w less.prems] Cons by blast
    then show ?thesis using less.hyps by metis
  qed
qed

lemma next_nothing: "at_rest r [] \<Longrightarrow> \<exists>r'. next_command pf r = Some (Inr None, r')"
proof -
  assume "at_rest r []"
  then have p: "ar_pending r = []" "ar_chunks r = []" by (cases "ar_chunks r"; auto simp: at_rest_def chunks_of_Cons)+
  let ?r1 = "r\<lparr>ar_eof := True\<rparr>"
  have "next_command pf ?r1 = Some (Inr None, ?r1)" using p by (simp add: next_command.simps [of pf ?r1] take_buffered_def)
  then show ?thesis using p by (cases "ar_eof r") (simp_all add: next_command.simps [of pf r] take_buffered_def)
qed

section \<open>Replay of commands\<close>

text \<open>The same replay, over the commands rather than the bytes.\<close>

fun replay :: "(bytes \<Rightarrow> resp list \<Rightarrow> nat \<Rightarrow> resp server_handler) \<Rightarrow> bytes \<Rightarrow> (nat \<Rightarrow> inputs) \<Rightarrow> nat \<Rightarrow> nat \<Rightarrow> bytes list list \<Rightarrow> server
    \<Rightarrow> ((bytes + nat) \<times> server) option" where
  "replay rest path Qs n cur [] s = Some (Inr n, s)"
| "replay rest path Qs n cur (ws # wss) s =
     (let cmd = (case parse_cmd_name (bulks ws) of Inr c \<Rightarrow> c | Inl _ \<Rightarrow> []) in
      if cmd = asc ''SELECT''
      then (case load_select (bulks ws) of
          Some d \<Rightarrow> replay rest path Qs n d wss s
        | None \<Rightarrow> Some (Inl (asc ''invalid SELECT in AOF '' @ path @ asc '' at command '' @ dec (n + 1)), s))
      else (case dispatch rest (Qs n) (bulks ws) cur s of
          None \<Rightarrow> None
        | Some (RError e, s) \<Rightarrow> Some (Inl (asc ''AOF replay error in '' @ path @ asc '' at command '' @ dec (n + 1) @ asc '': '' @ e), s)
        | Some (_, s) \<Rightarrow> replay rest path Qs (n + 1) cur wss s))"

definition words_ok :: "bytes list \<Rightarrow> bool" where
  "words_ok ws \<longleftrightarrow> length ws \<le> MAX_ARRAY_LEN \<and> list_all (\<lambda>w. length w \<le> MAX_BULK_LEN) ws"

definition command_bytes :: "(f64 \<Rightarrow> bytes) \<Rightarrow> bytes list \<Rightarrow> bytes" where
  "command_bytes fmt ws = resp_bytes fmt 2 (RArray (Some (bulks ws)))"

lemma words_wf: "words_ok ws \<Longrightarrow> resp_wf (RArray (Some (bulks ws)))"
  by (auto simp: words_ok_def bulks_def list_all_iff)

lemma command_reads:
  assumes "f64_text_laws fmt pf" and "words_ok ws"
  shows "reads pf (command_bytes fmt ws) (RArray (Some (bulks ws)))"
proof -
  have "resp_norm fmt 2 (RArray (Some (bulks ws))) = RArray (Some (bulks ws))" by (simp add: bulks_def)
  then show ?thesis using reads_resp [OF assms(1) words_wf [OF assms(2)], of 2] by (simp add: command_bytes_def)
qed

lemma load_is_replay:
  assumes "list_all2 (\<lambda>e ws. reads pf e (RArray (Some (bulks ws)))) es wss" and "at_rest r (concat es)"
  shows "load_loop rest pf path Qs n cur r s = replay rest path Qs n cur wss s"
  using assms
proof (induction es wss arbitrary: r n cur s rule: list_all2_induct)
  case Nil
  then show ?case using next_nothing [of r pf] by (auto simp: load_loop.simps)
next
  case (Cons e es ws wss)
  from Cons.prems have "at_rest r (e @ concat es)" by simp
  then obtain r' where r': "next_command pf r = Some (Inr (Some e), r')" "at_rest r' (concat es)"
    using next_takes [OF _ Cons.hyps(1)] by blast
  have "e \<noteq> []" using Cons.hyps(1) by (rule reads_nonempty)
  moreover have "parse_resp pf e = POk (RArray (Some (bulks ws))) (length e)"
    using Cons.hyps(1) by (auto simp: reads_def dest: spec [of _ "[]"])
  ultimately have p: "parser_parse_one pf (parser_feed parser_new e) = Some (Value (RArray (Some (bulks ws))), \<lparr>rp_buf = []\<rparr>)"
    by (simp add: parser_parse_one_def parser_feed_def parser_new_def)
  show ?case using Cons.IH [OF r'(2)]
    by (subst load_loop.simps) (simp add: r'(1) p Let_def split: option.split resp.split)
qed

lemma rereads:
  assumes "f64_text_laws fmt pf" and "\<forall>ws \<in> set wss. words_ok ws" and "chunks_of (concat (map (command_bytes fmt) wss)) chunks"
  shows "load_loop rest pf path Qs n cur (aof_open chunks) s = replay rest path Qs n cur wss s"
proof (rule load_is_replay)
  show "list_all2 (\<lambda>e ws. reads pf e (RArray (Some (bulks ws)))) (map (command_bytes fmt) wss) wss"
    using command_reads [OF assms(1)] assms(2) by (simp add: list_all2_map1 list.rel_refl_strong)
qed (rule at_rest_open [OF assms(3)])

section \<open>The log holds the writes\<close>

text \<open>What neither eviction nor a handler touches.\<close>

definition same_log :: "server \<Rightarrow> server \<Rightarrow> bool" where
  "same_log s s' \<longleftrightarrow> sv_aof s' = sv_aof s \<and> sv_aof_enabled s' = sv_aof_enabled s"

lemma same_log_refl [simp]: "same_log s s"
  by (simp add: same_log_def)

lemma same_log_trans: "same_log s s1 \<Longrightarrow> same_log s1 s2 \<Longrightarrow> same_log s s2"
  by (simp add: same_log_def)

lemma evict_same_log: "evict_and_notify Q nows i s = Some s' \<Longrightarrow> same_log s s'"
proof -
  assume e: "evict_and_notify Q nows i s = Some s'"
  obtain ps where "fold (notify_keyspace_event i (asc ''evicted'')) ks t = t\<lparr>sv_pubsub := ps ks t\<rparr>" for ks t
    using notify_events_frame by metis
  then show ?thesis using e by (auto simp: evict_and_notify_def same_log_def Let_def bind_eq_Some_conv split: if_splits)
qed

lemma on_db_same_log: "on_db i h s = Some (r, s') \<Longrightarrow> same_log s s'"
  by (auto simp: on_db_def same_log_def)

definition log_safe :: "'r server_handler \<Rightarrow> bool" where
  "log_safe h \<longleftrightarrow> (\<forall>s r s'. h s = Some (r, s') \<longrightarrow> same_log s s')"

lemma log_safeI: "(\<And>s r s'. h s = Some (r, s') \<Longrightarrow> same_log s s') \<Longrightarrow> log_safe h"
  by (simp add: log_safe_def)

lemma log_safe_simps [simp]: "log_safe (answer r)" "log_safe (refuse e)" "log_safe (\<lambda>s. answer (f s) s)"
  by (auto simp: log_safe_def answer_def refuse_def)

lemma log_safe_try: "(\<And>v. log_safe (f v)) \<Longrightarrow> log_safe (try_with x f)"
  by (cases x) (auto simp: try_with_def)

lemma log_safe_if: "log_safe f \<Longrightarrow> log_safe g \<Longrightarrow> log_safe (if b then f else g)"
  by simp

lemma log_safe_answer: "(\<And>s. same_log s (g s)) \<Longrightarrow> log_safe (\<lambda>s. answer (f s) (g s))"
  by (auto simp: log_safe_def answer_def)

lemma log_safe_refuse: "(\<And>s. same_log s (g s)) \<Longrightarrow> log_safe (\<lambda>s. refuse (f s) (g s))"
  by (auto simp: log_safe_def refuse_def)

lemma log_safe_at: "(\<And>t. log_safe (\<lambda>s. h (k t) s)) \<Longrightarrow> log_safe (\<lambda>s. h (k s) s)"
  unfolding log_safe_def by blast

lemma log_safe_prod: "(\<And>a b. log_safe (h a b)) \<Longrightarrow> log_safe (case p of (a, b) \<Rightarrow> h a b)"
  by (cases p) simp

lemma log_safe_prod_at: "(\<And>a b. log_safe (h a b)) \<Longrightarrow> log_safe (\<lambda>s. case k s of (a, b) \<Rightarrow> h a b s)"
  unfolding log_safe_def by (auto split: prod.splits)

lemma log_safe_sum_at: "(\<And>a. log_safe (h a)) \<Longrightarrow> (\<And>b. log_safe (g b)) \<Longrightarrow> log_safe (\<lambda>s. case k s of Inl a \<Rightarrow> h a s | Inr b \<Rightarrow> g b s)"
  unfolding log_safe_def by (auto split: sum.splits)

lemma log_safe_sum: "(\<And>a. log_safe (h a)) \<Longrightarrow> (\<And>b. log_safe (g b)) \<Longrightarrow> log_safe (\<lambda>s. case x of Inl a \<Rightarrow> h a s | Inr b \<Rightarrow> g b s)"
  by (cases x) (simp_all add: log_safe_def)

lemma log_safe_option: "log_safe f \<Longrightarrow> (\<And>v. log_safe (g v)) \<Longrightarrow> log_safe (case x of None \<Rightarrow> f | Some v \<Rightarrow> g v)"
  by (cases x) simp_all

lemma log_safe_option_at: "log_safe f \<Longrightarrow> (\<And>v. log_safe (g v)) \<Longrightarrow> log_safe (\<lambda>s. case k s of None \<Rightarrow> f s | Some v \<Rightarrow> g v s)"
  unfolding log_safe_def by (auto split: option.splits)

lemma log_safe_if_at: "log_safe f \<Longrightarrow> log_safe g \<Longrightarrow> log_safe (\<lambda>s. if b s then f s else g s)"
  by (simp add: log_safe_def)

lemma log_safe_bind: "(\<And>v. log_safe (g v)) \<Longrightarrow> log_safe (\<lambda>s. Option.bind (k s) (\<lambda>v. g v s))"
  unfolding log_safe_def by (auto simp: bind_eq_Some_conv)

lemmas log_safe_rules = log_safe_simps log_safe_try log_safe_if log_safe_answer log_safe_refuse log_safe_prod_at log_safe_sum_at log_safe_sum
  log_safe_option log_safe_option_at log_safe_if_at log_safe_bind

lemma plain_arms_safe: "log_safe (cmd_ping args)" "log_safe (cmd_echo args)" "log_safe cmd_quit" "log_safe (cmd_select args)"
    "log_safe (cmd_dbsize i)" "log_safe (cmd_flushdb i)" "log_safe cmd_flushall" "log_safe cmd_lastsave" "log_safe cmd_reset" "log_safe (cmd_time Q)"
    "log_safe (cmd_debug args)"
  unfolding cmd_ping_def cmd_echo_def cmd_quit_def cmd_select_def cmd_dbsize_def cmd_flushdb_def cmd_flushall_def cmd_lastsave_def cmd_reset_def
    cmd_time_def cmd_debug_def
  by (auto simp: log_safe_def same_log_def try_with_def answer_def refuse_def bind_eq_Some_conv split: if_splits sum.splits)

lemma slowlog_safe: "log_safe (cmd_slowlog Q args)"
  unfolding cmd_slowlog_def Let_def by (intro log_safe_rules) (simp_all add: same_log_def)

lemma pubsub_safe: "log_safe (cmd_pubsub args)"
  unfolding cmd_pubsub_def Let_def by (intro log_safe_rules log_safe_at [of "\<lambda>t. try_with t (\<lambda>rs. answer (resp_array rs))"]) (simp_all add: same_log_def)

lemma publish_safe: "log_safe (cmd_publish args)"
  unfolding cmd_publish_def Let_def by (intro log_safe_rules) (simp_all add: same_log_def)

lemma acl_safe: "log_safe (cmd_acl Q args user)"
  unfolding cmd_acl_def acl_cat_def acl_getuser_def acl_setuser_def acl_log_cmd_def acl_dryrun_def Let_def
  by (intro log_safe_rules) (simp_all add: same_log_def)

lemma client_safe: "log_safe (cmd_client Q args client)"
  unfolding cmd_client_def client_setname_def client_kill_def client_pause_def client_no_evict_def client_setinfo_def Let_def
  by (intro log_safe_rules) (simp_all add: same_log_def)

lemma server_arms_safe: "arm (server_handlers Q args i user client) cmd = Some h \<Longrightarrow> log_safe h"
proof -
  have a: "arm hs cmd = Some h \<Longrightarrow> h \<in> snd ` set hs" for hs :: "(string \<times> resp server_handler) list"
    by (induction hs) (auto simp: arm.simps split: if_splits)
  assume "arm (server_handlers Q args i user client) cmd = Some h"
  from a [OF this] show ?thesis
    by (auto simp: server_handlers_def plain_arms_safe slowlog_safe pubsub_safe publish_safe acl_safe client_safe)
qed

lemma run_same_log:
  assumes "\<not> named cmd other_commands" and "run_handler rest Q args i user client cmd s = Some (r, s')"
  shows "same_log s s'"
  using assms on_db_same_log server_arms_safe [of Q args i user client cmd]
  by (fastforce simp: run_handler_def refuse_def log_safe_def split: option.splits)

lemma inner_same_log:
  assumes "\<not> named cmd other_commands" and "dispatch_inner rest Q args i user client keys cmd s = Some (r, s')"
  shows "same_log s s'"
proof (cases "args = []")
  case False
  obtain p m where c: "check_permission (int (in_unix_us Q div 1000)) user cmd keys (sv_acl s) = (p, m)" by force
  have "same_log s (s\<lparr>sv_acl := m\<rparr>)" by (simp add: same_log_def)
  then show ?thesis
    using assms(2) False c run_same_log [OF assms(1)]
    by (auto simp: dispatch_inner_def refuse_def Let_def intro: same_log_trans split: sum.splits)
qed (use assms in \<open>simp add: dispatch_inner_def refuse_def\<close>)

definition io_works :: "inputs \<Rightarrow> bool" where
  "io_works Q \<longleftrightarrow> in_written Q = None \<and> in_fsync Q = None \<and> itoa_laws (in_itoa Q)"

lemma wind_up_logs:
  assumes "io_works Q" and "sv_aof s = Some l" and "wind_up Q limited (Some bs) i client cmd keys result s = Some (v, s')"
  shows "sv_aof s' = Some (if is_write_command cmd \<and> \<not> is_error v then l @ bs else l) \<and> sv_aof_enabled s' = sv_aof_enabled s \<and> v = result"
proof -
  let ?ok = "\<not> is_error result"
  obtain s1 where s1: "(if ?ok \<and> limited then evict_and_notify Q (in_after Q) i s else Some s) = Some s1"
    using assms(3) by (auto simp: wind_up_def Let_def bind_eq_Some_conv)
  then have e: "sv_aof s1 = Some l" "sv_aof_enabled s1 = sv_aof_enabled s"
    using assms(2) evict_same_log by (auto simp: same_log_def split: if_splits)
  have n: "append_aof Q bs (Some l) = (None, Some (l @ bs))" using assms(1) by (auto simp: append_aof_def io_works_def)
  obtain s2 where s2: "(if is_write_command cmd \<and> ?ok then log_write Q (Some bs) s1 else Some (None, s1)) = Some (None, s2)"
    "sv_aof s2 = Some (if is_write_command cmd \<and> ?ok then l @ bs else l)" "sv_aof_enabled s2 = sv_aof_enabled s"
    using e n by (cases "is_write_command cmd \<and> ?ok") (auto simp: log_write_def Let_def)
  have "wind_up Q limited (Some bs) i client cmd keys result s = Some (result, if ?ok then tell_clients Q i client cmd keys s2 else s2)"
    unfolding wind_up_def Let_def s1 bind.bind_lunit s2(1) by simp
  then show ?thesis using assms(3) s2 by auto
qed

lemma wind_up_reads:
  assumes "\<not> is_write_command cmd" and "wind_up Q False aof i client cmd keys result s = Some (v, s')"
  shows "sv_aof s' = sv_aof s \<and> sv_aof_enabled s' = sv_aof_enabled s"
  using assms by (auto simp: wind_up_def split: if_splits)

lemma dispatch_logs:
  assumes io: "io_works Q" and a: "resp_repr (in_fmt_f64 Q) (RArray (Some args))" "i < 2 ^ 64" and n: "\<not> named cmd other_commands"
    and s: "sv_aof s = Some l" "sv_aof_enabled s" and d: "dispatch_tracked rest Q args i user client cmd s = Some (v, s')"
  shows "sv_aof s' = Some (if is_write_command cmd \<and> \<not> is_error v then l @ log_record (in_fmt_f64 Q) args i else l) \<and> sv_aof_enabled s'"
proof (cases "is_write_command cmd \<and> (cr_is_paused (in_instant Q) (sv_registry s) \<or> sv_aof_failed s
    \<or> \<not> is_blocking_write_command cmd \<and> \<not> in_admitted Q)")
  case True
  then show ?thesis using d s by (auto simp: dispatch_tracked_def Let_def is_error_def split: if_splits)
next
  case False
  let ?w = "is_write_command cmd" and ?rec = "log_record (in_fmt_f64 Q) args i" and ?keys = "touched_keys cmd args s"
  have b: "aof_bytes_of Q args i = Some ?rec" using aof_bytes_record a io by (simp add: io_works_def)
  obtain s1 r s2 where s1: "(if ?w \<and> sv_limit s > 0 then evict_and_notify Q (in_before Q) i s else Some s) = Some s1"
    and s2: "dispatch_inner rest Q args i user client ?keys cmd s1 = Some (r, s2)"
    and w: "wind_up Q (?w \<and> sv_limit s > 0) (if ?w then Some ?rec else None) i client cmd ?keys (reply_of r) s2 = Some (v, s')"
    using d False s(2) b by (auto simp: dispatch_tracked_def Let_def bind_eq_Some_conv simp del: if_split split: if_splits)
  have "same_log s s1" using s1 evict_same_log by (auto split: if_splits)
  then have e: "sv_aof s2 = Some l" "sv_aof_enabled s2" using inner_same_log [OF n s2] s by (simp_all add: same_log_def)
  show ?thesis
  proof (cases ?w)
    case True
    then show ?thesis using wind_up_logs [OF io e(1)] w e(2) by auto
  next
    case False
    then show ?thesis using wind_up_reads [OF False] w e by auto
  qed
qed

text \<open>A history of requests: the inputs, the words, the database, the user and the client of each.\<close>

type_synonym request = "inputs \<times> bytes list \<times> nat \<times> bytes \<times> nat"

fun serve :: "(bytes \<Rightarrow> resp list \<Rightarrow> nat \<Rightarrow> resp server_handler) \<Rightarrow> request list \<Rightarrow> server \<Rightarrow> (resp list \<times> server) option" where
  "serve rest [] s = Some ([], s)"
| "serve rest ((Q, ws, i, user, client) # qs) s = do {
     (v, s) \<leftarrow> dispatch_tracked rest Q (bulks ws) i user client (to_ascii_uppercase (hd ws)) s;
     (vs, s) \<leftarrow> serve rest qs s;
     Some (v # vs, s)
   }"

text \<open>The commands the log should hold: for each write that did not reply an error, the selection of its database and its words.\<close>

fun written :: "request list \<Rightarrow> resp list \<Rightarrow> bytes list list" where
  "written ((Q, ws, i, user, client) # qs) (v # vs) =
     (if is_write_command (to_ascii_uppercase (hd ws)) \<and> \<not> is_error v then [[asc ''SELECT'', dec i], ws] else []) @ written qs vs"
| "written _ _ = []"

definition request_ok :: "(f64 \<Rightarrow> bytes) \<Rightarrow> request \<Rightarrow> bool" where
  "request_ok fmt q \<longleftrightarrow> (case q of (Q, ws, i, user, client) \<Rightarrow>
     io_works Q \<and> in_fmt_f64 Q = fmt \<and> words_ok ws \<and> i < 2 ^ 64 \<and> \<not> named (to_ascii_uppercase (hd ws)) other_commands)"

lemma words_repr: "words_ok ws \<Longrightarrow> resp_repr fmt (RArray (Some (bulks ws)))"
  by (auto simp: words_ok_def bulks_def list_all_iff MAX_ARRAY_LEN_def MAX_BULK_LEN_def)

lemma record_commands: "log_record fmt (bulks ws) i = concat (map (command_bytes fmt) [[asc ''SELECT'', dec i], ws])"
  by (simp add: log_record_def command_bytes_def bulks_def resp_bulk_str_def)

lemma serve_logs:
  assumes "\<forall>q \<in> set qs. request_ok fmt q" and "sv_aof s = Some l" and "sv_aof_enabled s" and "serve rest qs s = Some (vs, s')"
  shows "sv_aof s' = Some (l @ concat (map (command_bytes fmt) (written qs vs))) \<and> sv_aof_enabled s'"
  using assms
proof (induction qs arbitrary: s l vs)
  case (Cons q qs)
  obtain Q ws i user client where q: "q = (Q, ws, i, user, client)" by (cases q) auto
  let ?cmd = "to_ascii_uppercase (hd ws)"
  obtain v s1 vs' where s1: "dispatch_tracked rest Q (bulks ws) i user client ?cmd s = Some (v, s1)" "serve rest qs s1 = Some (vs', s')" "vs = v # vs'"
    using Cons.prems(4) by (auto simp: q bind_eq_Some_conv)
  have ok: "io_works Q" "in_fmt_f64 Q = fmt" "words_ok ws" "i < 2 ^ 64" "\<not> named ?cmd other_commands"
    using Cons.prems(1) by (auto simp: q request_ok_def)
  have d: "sv_aof s1 = Some (if is_write_command ?cmd \<and> \<not> is_error v then l @ log_record fmt (bulks ws) i else l)" "sv_aof_enabled s1"
    using dispatch_logs [OF ok(1) words_repr [OF ok(3)] ok(4,5) Cons.prems(2,3) s1(1)] ok(2) by simp_all
  have "\<forall>q \<in> set qs. request_ok fmt q" using Cons.prems(1) by simp
  note ih = Cons.IH [OF this d s1(2)]
  show ?case using ih unfolding q s1(3) written.simps
    by (cases "is_write_command ?cmd \<and> \<not> is_error v") (auto simp: record_commands)
qed simp

lemma dec_words_ok: "i < 2 ^ 64 \<Longrightarrow> words_ok [asc ''SELECT'', dec i]"
  using length_dec [of i 20] by (simp add: words_ok_def MAX_ARRAY_LEN_def MAX_BULK_LEN_def asc_def)

lemma written_ok: "\<forall>q \<in> set qs. request_ok fmt q \<Longrightarrow> \<forall>ws \<in> set (written qs vs). words_ok ws"
proof (induction qs vs rule: written.induct)
  case (1 Q ws i user client qs v vs)
  then show ?case by (auto simp: request_ok_def dec_words_ok)
qed simp_all

section \<open>The properties\<close>

text \<open>C22. The log is the history of the writes. Whatever requests are served (permission denials, pauses, evictions and
  errors included), as long as writing to the file works, the file holds, in order, for each write that did not reply an error the
  selection of its database and the command; and when the server starts, it replays exactly these commands, in whatever pieces the
  file is read.\<close>

theorem log_is_history:
  assumes "f64_text_laws fmt pf" and "\<forall>q \<in> set qs. request_ok fmt q"
    and "sv_aof s = Some []" and "sv_aof_enabled s" and "serve rest qs s = Some (vs, s')"
    and "chunks_of (the (sv_aof s')) chunks"
  shows "sv_aof s' = Some (concat (map (command_bytes fmt) (written qs vs)))
    \<and> load_loop rest' pf path Qs 0 0 (aof_open chunks) s0 = replay rest' path Qs 0 0 (written qs vs) s0"
proof -
  have e: "sv_aof s' = Some (concat (map (command_bytes fmt) (written qs vs)))"
    using serve_logs [OF assms(2-5)] by simp
  then show ?thesis using rereads [OF assms(1) written_ok [OF assms(2)]] assms(6) by simp
qed

lemma chunks_one: "chunks_of bs (if bs = [] then [] else [Inr bs])"
  by (simp add: chunks_of_Cons)

theorem log_is_history_witness:
  "\<exists>s'. serve (\<lambda>_ _ _. refuse NoKey) [(inputs_at 5, [asc ''flushall''], 3, asc ''default'', 0), (inputs_at 6, [asc ''PING''], 0, asc ''default'', 0)]
      (server_new 8 16) = Some ([resp_ok, SimpleString (asc ''PONG'')], s')
    \<and> sv_aof s' = Some (concat (map (command_bytes bits_text) [[asc ''SELECT'', dec 3], [asc ''flushall'']]))
    \<and> (\<forall>rest' s0. load_loop rest' bits_read [] inputs_at 0 0 (aof_open [Inr (the (sv_aof s'))]) s0
        = replay rest' [] inputs_at 0 0 [[asc ''SELECT'', dec 3], [asc ''flushall'']] s0)"
proof -
  let ?rest = "\<lambda>_ _ _. refuse NoKey"
  let ?qs = "[(inputs_at 5, [asc ''flushall''], 3, asc ''default'', 0), (inputs_at 6, [asc ''PING''], 0, asc ''default'', 0)] :: request list"
  have up: "to_ascii_uppercase (asc ''flushall'') = asc ''FLUSHALL''" "to_ascii_uppercase (asc ''PING'') = asc ''PING''" by code_simp+
  have fl: "arm (key_handlers ord srt) (asc ''FLUSHALL'') = None" "arm (key_handlers ord srt) (asc ''PING'') = None" for ord srt
    by (simp_all add: arm_table)
  have ar: "arm (server_handlers Q args i user client) (asc ''FLUSHALL'') = Some cmd_flushall"
    "arm (server_handlers Q args i user client) (asc ''PING'') = Some (cmd_ping args)" for Q args i user client
    by (simp_all add: server_handlers_def arm_asc)
  have wr: "is_write_command (asc ''FLUSHALL'')" "\<not> is_write_command (asc ''PING'')" "\<not> is_blocking_write_command (asc ''FLUSHALL'')"
    by (simp_all add: is_write_command_def is_blocking_write_command_def)
  have io: "io_works (inputs_at n)" "in_fmt_f64 (inputs_at n) = bits_text" for n by (simp_all add: io_works_def inputs_at_def dec_itoa)
  have wk: "words_ok [asc ''flushall'']" "words_ok [asc ''PING'']" by (simp_all add: words_ok_def MAX_ARRAY_LEN_def MAX_BULK_LEN_def asc_def)
  have no: "''FLUSHALL'' \<notin> set other_commands" "''PING'' \<notin> set other_commands" by (simp_all add: other_commands_def)
  have ok: "\<forall>q \<in> set ?qs. request_ok bits_text q" by (simp add: request_ok_def io up wk no)
  have inp: "in_admitted (inputs_at n)" "in_written (inputs_at n) = None" "in_fsync (inputs_at n) = None" "\<not> in_fsync_always (inputs_at n)" for n
    by (simp_all add: inputs_at_def)
  have by5: "aof_bytes_of (inputs_at 5) [BulkString (Some (asc ''flushall''))] 3
      = Some (log_record bits_text [BulkString (Some (asc ''flushall''))] 3)"
    using aof_bytes_record [of "inputs_at 5" "[BulkString (Some (asc ''flushall''))]" 3] io [of 5] by (simp add: io_works_def asc_def)
  obtain vs s' where s': "serve ?rest ?qs (server_new 8 16) = Some (vs, s')" "vs = [resp_ok, SimpleString (asc ''PONG'')]"
    by (auto simp: by5 up fl ar wr dispatch_tracked_def dispatch_inner_def run_handler_def wind_up_def log_write_def append_aof_def server_new_def
        inp registry_new_def cr_is_paused_def check_permission_def acl_new_def cmd_flushall_def cmd_ping_def answer_def is_error_def
        resp_ok_def bulks_def tell_clients_def touched_keys_def need_keys_def tracking_new_def enabled_count_def Let_def
        split: option.splits)
  have w: "written ?qs vs = [[asc ''SELECT'', dec 3], [asc ''flushall'']]" by (simp add: s'(2) up wr is_error_def resp_ok_def)
  have "concat (map (command_bytes bits_text) (written ?qs vs)) \<noteq> []"
    by (simp add: w command_bytes_def)
  then have "chunks_of (concat (map (command_bytes bits_text) (written ?qs vs))) [Inr (concat (map (command_bytes bits_text) (written ?qs vs)))]"
    by (simp add: chunks_of_Cons)
  moreover have a: "sv_aof (server_new 8 16) = Some []" "sv_aof_enabled (server_new 8 16)" by (simp_all add: server_new_def)
  moreover have "sv_aof s' = Some (concat (map (command_bytes bits_text) (written ?qs vs)))" using serve_logs [OF ok a s'(1)] by simp
  ultimately show ?thesis
    using log_is_history [OF bits_text_laws ok a s'(1), of "[Inr (concat (map (command_bytes bits_text) (written ?qs vs)))]"] s' w by auto
qed

end
