(* ===== verification/Connection.thy ===== *)
theory Connection
  imports Dispatch Resp_Parser
begin

text \<open>
  The state and the commands of one client (\<^verbatim>\<open>nexrade-server/src/connection.rs\<close>, \<^verbatim>\<open>transaction.rs\<close>): authentication, the selected
  database, transactions, tracking options, the protocol version, and the loop that turns the bytes of a read into a batch of replies.
  The parser and the output buffer, fields of \<^verbatim>\<open>Connection\<close>, are passed beside the record. Scripts (EVAL, EVALSHA, SCRIPT,
  FUNCTION, FCALL) are the parameter \<open>scripts\<close>. Metrics, the latency monitor and the lines for MONITOR clients are left out.
\<close>

unbundle bit_operations_syntax

section \<open>Transactions\<close>

record transaction =
  tx_active :: bool
  tx_queue :: "resp list list"
  tx_error :: bool
  tx_watch_keys :: "(bytes \<times> u64) list"

definition tx_new :: transaction where
  "tx_new = \<lparr>tx_active = False, tx_queue = [], tx_error = False, tx_watch_keys = []\<rparr>"

definition tx_begin :: "transaction \<Rightarrow> transaction" where
  "tx_begin t = t\<lparr>tx_active := True, tx_queue := [], tx_error := False\<rparr>"

definition tx_discard :: "transaction \<Rightarrow> transaction" where
  "tx_discard t = t\<lparr>tx_active := False, tx_queue := [], tx_error := False, tx_watch_keys := []\<rparr>"

definition tx_enqueue :: "resp list \<Rightarrow> transaction \<Rightarrow> transaction" where
  "tx_enqueue cmd t = t\<lparr>tx_queue := tx_queue t @ [cmd]\<rparr>"

definition tx_mark_error :: "transaction \<Rightarrow> transaction" where
  "tx_mark_error t = t\<lparr>tx_error := True\<rparr>"

definition MAX_WATCH_KEYS :: nat where "MAX_WATCH_KEYS = 4096"

definition tx_watch :: "bytes \<Rightarrow> u64 \<Rightarrow> transaction \<Rightarrow> bool \<times> transaction" where
  "tx_watch key version t = (if length (tx_watch_keys t) \<ge> MAX_WATCH_KEYS then (False, t)
     else (True, t\<lparr>tx_watch_keys := tx_watch_keys t @ [(key, version)]\<rparr>))"

definition tx_unwatch :: "transaction \<Rightarrow> transaction" where
  "tx_unwatch t = t\<lparr>tx_watch_keys := []\<rparr>"

section \<open>The connection\<close>

record connection =
  cn_id :: nat
  cn_addr :: bytes
  cn_db_index :: nat
  cn_authenticated :: bool
  cn_user :: bytes
  cn_transaction :: transaction
  cn_subscriptions :: "bytes list"
  cn_pattern_subscriptions :: "bytes list"
  cn_resp_version :: nat
  cn_last_cmd :: bytes

definition connect :: "nat \<Rightarrow> bytes \<Rightarrow> nat \<Rightarrow> server \<Rightarrow> connection \<times> server" where
  "connect cid addr now s =
     (\<lparr>cn_id = cid, cn_addr = addr, cn_db_index = 0, cn_authenticated = (sv_requirepass s = None), cn_user = asc ''default'',
       cn_transaction = tx_new, cn_subscriptions = [], cn_pattern_subscriptions = [], cn_resp_version = 2, cn_last_cmd = []\<rparr>,
      s\<lparr>sv_tracking := tr_register cid 256 (sv_tracking s), sv_registry := cr_register cid addr now (sv_registry s)\<rparr>)"

text \<open>\<^verbatim>\<open>ConnectionCleanup\<close>.\<close>

definition disconnect :: "connection \<Rightarrow> server \<Rightarrow> server" where
  "disconnect c s = s\<lparr>sv_tracking := tr_unregister (cn_id c) (sv_tracking s), sv_registry := cr_unregister (cn_id c) (sv_registry s)\<rparr>"

text \<open>A write through the connection's metadata cell.\<close>

definition on_meta :: "(client_meta \<Rightarrow> client_meta) \<Rightarrow> connection \<Rightarrow> server \<Rightarrow> server" where
  "on_meta f c s = s\<lparr>sv_registry := cr_write_meta (cn_id c) f (sv_registry s)\<rparr>"

abbreviation word_or :: "bytes \<Rightarrow> resp list \<Rightarrow> nat \<Rightarrow> bytes" where
  "word_or d args i \<equiv> (case arg args i resp_as_str of Some t \<Rightarrow> t | None \<Rightarrow> d)"

section \<open>Authentication and SELECT\<close>

definition set_authenticated :: "bytes \<Rightarrow> connection \<Rightarrow> server \<Rightarrow> connection \<times> server" where
  "set_authenticated user c s = (c\<lparr>cn_authenticated := True, cn_user := user\<rparr>, on_meta (\<lambda>m. m\<lparr>cm_user := user\<rparr>) c s)"

definition wrongpass :: resp where
  "wrongpass = resp_error (asc ''WRONGPASS invalid username-password pair or user is disabled'')"

definition authenticate_as :: "inputs \<Rightarrow> bytes \<Rightarrow> bytes \<Rightarrow> connection \<Rightarrow> server \<Rightarrow> resp \<times> connection \<times> server" where
  "authenticate_as Q user pass c s =
     (case if user = asc ''default'' then sv_requirepass s else None of
        Some expected \<Rightarrow> if pass = expected then (resp_ok, set_authenticated (asc ''default'') c s) else (wrongpass, c, s)
      | None \<Rightarrow> (case authenticate (in_acl_lib Q) user pass (sv_acl s) of
          Inr _ \<Rightarrow> (resp_ok, set_authenticated user c s)
        | Inl _ \<Rightarrow> (if sv_requirepass s = None \<and> get_user user (sv_acl s) = None
            then (resp_error (asc ''ERR Client sent AUTH, but no password is set''), c, s) else (wrongpass, c, s))))"

definition handle_auth :: "inputs \<Rightarrow> resp list \<Rightarrow> connection \<Rightarrow> server \<Rightarrow> resp \<times> connection \<times> server" where
  "handle_auth Q args c s =
     (if length args \<ge> 3 then authenticate_as Q (word_or (asc ''default'') args 1) (word_or [] args 2) c s
      else if length args = 2 then authenticate_as Q (asc ''default'') (word_or [] args 1) c s
      else (resp_error (asc ''ERR wrong number of arguments for '' @ [0x27] @ asc ''auth'' @ [0x27] @ asc '' command''), c, s))"

definition handle_select :: "resp list \<Rightarrow> connection \<Rightarrow> server \<Rightarrow> resp \<times> connection \<times> server" where
  "handle_select args c s = (case parse_usize (word_or (asc ''0'') args 1) of
     Some i \<Rightarrow> (if i < st_db_count (sv_store s)
       then (resp_ok, c\<lparr>cn_db_index := i\<rparr>, on_meta (\<lambda>m. m\<lparr>cm_db_index := i\<rparr>) c s)
       else (resp_error (asc ''ERR DB index is out of range''), c, s))
   | None \<Rightarrow> (resp_error (asc ''ERR value is not an integer or out of range''), c, s))"

section \<open>MULTI, EXEC, WATCH\<close>

definition handle_multi :: "connection \<Rightarrow> server \<Rightarrow> resp \<times> connection \<times> server" where
  "handle_multi c s = (if tx_active (cn_transaction c) then (resp_error (error_text NestedMulti), c, s)
     else (resp_ok, c\<lparr>cn_transaction := tx_begin (cn_transaction c)\<rparr>, s))"

text \<open>\<^verbatim>\<open>any\<close> of the watched keys has another version now.\<close>

fun any_changed :: "nat \<Rightarrow> sharded \<Rightarrow> (bytes \<times> u64) list \<Rightarrow> bool option" where
  "any_changed now db [] = Some False"
| "any_changed now db ((key, version) # ks) = do {
     d \<leftarrow> read_for db key;
     (if db_key_version now key d \<noteq> version then Some True else any_changed now db ks)
   }"

text \<open>The queued commands, one after the other; \<open>Q k\<close> are the inputs of the \<open>k\<close>th.\<close>

fun exec_queue :: "(bytes \<Rightarrow> resp list \<Rightarrow> nat \<Rightarrow> resp server_handler) \<Rightarrow> (nat \<Rightarrow> inputs) \<Rightarrow> nat \<Rightarrow> bytes \<Rightarrow> nat \<Rightarrow> resp list list \<Rightarrow> server
    \<Rightarrow> (resp list \<times> server) option" where
  "exec_queue rest Q i user k [] s = Some ([], s)"
| "exec_queue rest Q i user k (cmd # cmds) s = do {
     (r, s) \<leftarrow> dispatch_inner_callable rest (Q k) cmd i user s;
     (rs, s) \<leftarrow> exec_queue rest Q i user (k + 1) cmds s;
     Some (r # rs, s)
   }"

definition handle_exec :: "(bytes \<Rightarrow> resp list \<Rightarrow> nat \<Rightarrow> resp server_handler) \<Rightarrow> (nat \<Rightarrow> inputs) \<Rightarrow> connection \<Rightarrow> server
    \<Rightarrow> (resp \<times> connection \<times> server) option" where
  "handle_exec rest Q c s = (let t = cn_transaction c; c' = c\<lparr>cn_transaction := tx_discard t\<rparr> in
     if \<not> tx_active t then Some (resp_error (error_text ExecWithoutMulti), c, s)
     else if tx_error t then Some (resp_error (error_text ExecAbort), c', s)
     else do {
       dirty \<leftarrow> (if tx_watch_keys t \<noteq> [] then do {
           db \<leftarrow> store_db (sv_store s) (cn_db_index c);
           any_changed (env_now (in_env (Q 0))) db (tx_watch_keys t)
         } else Some False);
       (if dirty then Some (resp_null_array, c', s)
        else do {
          (rs, s) \<leftarrow> exec_queue rest Q (cn_db_index c) (cn_user c) 1 (tx_queue t) s;
          Some (resp_array rs, c', s)
        })
     })"

definition handle_discard :: "connection \<Rightarrow> server \<Rightarrow> resp \<times> connection \<times> server" where
  "handle_discard c s = (if \<not> tx_active (cn_transaction c) then (resp_error (error_text DiscardWithoutMulti), c, s)
     else (resp_ok, c\<lparr>cn_transaction := tx_discard (cn_transaction c)\<rparr>, s))"

fun watch_loop :: "nat \<Rightarrow> sharded \<Rightarrow> resp list \<Rightarrow> transaction \<Rightarrow> (resp \<times> transaction) option" where
  "watch_loop now db [] t = Some (resp_ok, t)"
| "watch_loop now db (a # as) t = (case resp_as_bytes a of
     None \<Rightarrow> watch_loop now db as t
   | Some key \<Rightarrow> do {
       d \<leftarrow> read_for db key;
       (let (ok, t) = tx_watch key (db_key_version now key d) t in
        if ok then watch_loop now db as t else Some (resp_error (asc ''ERR too many watched keys''), t))
     })"

definition handle_watch :: "inputs \<Rightarrow> resp list \<Rightarrow> connection \<Rightarrow> server \<Rightarrow> (resp \<times> connection \<times> server) option" where
  "handle_watch Q args c s =
     (if tx_active (cn_transaction c) then Some (resp_error (asc ''ERR WATCH inside MULTI is not allowed''), c, s)
      else if length args < 2 then Some (resp_error (error_text (WrongArity (asc ''watch''))), c, s)
      else do {
        db \<leftarrow> store_db (sv_store s) (cn_db_index c);
        (r, t) \<leftarrow> watch_loop (env_now (in_env Q)) db (drop 1 args) (cn_transaction c);
        Some (r, c\<lparr>cn_transaction := t\<rparr>, s)
      })"

definition handle_unwatch :: "connection \<Rightarrow> server \<Rightarrow> resp \<times> connection \<times> server" where
  "handle_unwatch c s = (resp_ok, c\<lparr>cn_transaction := tx_unwatch (cn_transaction c)\<rparr>, s)"

definition handle_reset :: "connection \<Rightarrow> server \<Rightarrow> resp \<times> connection \<times> server" where
  "handle_reset c s =
     (let s = on_meta (\<lambda>m. m\<lparr>cm_db_index := 0\<rparr>) c s;
          s = s\<lparr>sv_tracking := tr_disable (cn_id c) (sv_tracking s)\<rparr>;
          s = s\<lparr>sv_pubsub := fold (\<lambda>ch p. snd (unsubscribe ch p)) (cn_subscriptions c) (sv_pubsub s)\<rparr>;
          s = s\<lparr>sv_pubsub := fold (\<lambda>pat p. snd (punsubscribe pat p)) (cn_pattern_subscriptions c) (sv_pubsub s)\<rparr>;
          s = on_meta (\<lambda>m. m\<lparr>cm_user := asc ''default'', cm_name := []\<rparr>) c s
      in (SimpleString (asc ''RESET''),
          c\<lparr>cn_transaction := tx_unwatch (tx_discard (cn_transaction c)), cn_db_index := 0, cn_subscriptions := [],
            cn_pattern_subscriptions := [], cn_authenticated := (sv_requirepass s = None), cn_user := asc ''default''\<rparr>, s))"

section \<open>CLIENT TRACKING, CACHING, TRACKINGINFO\<close>

definition syntax_error :: resp where
  "syntax_error = resp_error (asc ''ERR syntax error'')"

fun tracking_args :: "tracking \<Rightarrow> tracking_options \<Rightarrow> resp list \<Rightarrow> resp + tracking_options" where
  "tracking_args tr opts [] = Inr opts"
| "tracking_args tr opts (a # as) = (case resp_as_str a of
     None \<Rightarrow> Inl syntax_error
   | Some t \<Rightarrow> (let opt = to_ascii_uppercase t in
       if opt = asc ''BCAST'' then tracking_args tr (opts\<lparr>to_bcast := True\<rparr>) as
       else if opt = asc ''OPTIN'' then tracking_args tr (opts\<lparr>to_optin := True\<rparr>) as
       else if opt = asc ''OPTOUT'' then tracking_args tr (opts\<lparr>to_optout := True\<rparr>) as
       else if opt = asc ''NOLOOP'' then tracking_args tr (opts\<lparr>to_noloop := True\<rparr>) as
       else if opt = asc ''REDIRECT'' then (case as of
           [] \<Rightarrow> Inl syntax_error
         | b # bs \<Rightarrow> (case Option.bind (resp_as_str b) parse_usize of
             None \<Rightarrow> Inl syntax_error
           | Some n \<Rightarrow>
               if n \<noteq> 0 \<and> \<not> tr_exists n tr then Inl (resp_error (asc ''ERR The client ID you want redirect to does not exist''))
               else tracking_args tr (if n \<noteq> 0 then opts\<lparr>to_redirect := Some n\<rparr> else opts) bs))
       else if opt = asc ''PREFIX'' then (case as of
           [] \<Rightarrow> Inl syntax_error
         | b # bs \<Rightarrow> (case resp_as_bytes b of
             None \<Rightarrow> Inl syntax_error
           | Some p \<Rightarrow> tracking_args tr (opts\<lparr>to_prefixes := to_prefixes opts @ [p]\<rparr>) bs))
       else Inl syntax_error))"

definition handle_client_tracking :: "resp list \<Rightarrow> connection \<Rightarrow> server \<Rightarrow> resp \<times> connection \<times> server" where
  "handle_client_tracking args c s = (case arg args 2 resp_as_str of
     None \<Rightarrow> (resp_error (asc ''ERR wrong number of arguments for '' @ [0x27] @ asc ''client|tracking'' @ [0x27]), c, s)
   | Some t \<Rightarrow> (let mode = to_ascii_uppercase t in
       if mode = asc ''OFF'' then (resp_ok, c, s\<lparr>sv_tracking := tr_disable (cn_id c) (sv_tracking s)\<rparr>)
       else if mode = asc ''ON'' then (case tracking_args (sv_tracking s) tracking_default (drop 3 args) of
           Inl e \<Rightarrow> (e, c, s)
         | Inr opts \<Rightarrow>
             if to_optin opts \<and> to_optout opts
             then (resp_error (asc ''ERR You can'' @ [0x27] @ asc ''t specify both OPTIN mode and OPTOUT mode''), c, s)
             else if to_prefixes opts \<noteq> [] \<and> \<not> to_bcast opts
             then (resp_error (asc ''ERR PREFIX option requires BCAST mode to be enabled''), c, s)
             else (case tr_enable (cn_id c) opts (sv_tracking s) of
                 (Inr _, tr) \<Rightarrow> (resp_ok, c, s\<lparr>sv_tracking := tr\<rparr>)
               | (Inl e, tr) \<Rightarrow> (resp_error (asc ''ERR '' @ e), c, s\<lparr>sv_tracking := tr\<rparr>)))
       else (syntax_error, c, s)))"

definition caching_mode_error :: resp where
  "caching_mode_error = resp_error (asc ''ERR CLIENT CACHING can be called only when the client is in tracking mode with OPTIN or OPTOUT mode enabled'')"

definition handle_client_caching :: "resp list \<Rightarrow> connection \<Rightarrow> server \<Rightarrow> resp \<times> connection \<times> server" where
  "handle_client_caching args c s = (case tr_options (cn_id c) (sv_tracking s) of
     None \<Rightarrow> (caching_mode_error, c, s)
   | Some opts \<Rightarrow>
       if \<not> to_optin opts \<and> \<not> to_optout opts then (caching_mode_error, c, s)
       else (case Option.bind (arg args 2 resp_as_str) (\<lambda>t. if eq_ignore_ascii_case t (asc ''YES'') then Some True
            else if eq_ignore_ascii_case t (asc ''NO'') then Some False else None) of
           None \<Rightarrow> (syntax_error, c, s)
         | Some yes \<Rightarrow>
             if to_optin opts \<and> \<not> yes \<or> to_optout opts \<and> yes
             then (resp_error (asc ''ERR CLIENT CACHING YES is only valid when tracking is enabled in OPTIN mode.''), c, s)
             else (resp_ok, c, s\<lparr>sv_tracking := set_caching_override (cn_id c) yes (sv_tracking s)\<rparr>)))"

definition client_trackinginfo :: "connection \<Rightarrow> server \<Rightarrow> resp" where
  "client_trackinginfo c s = (let opts = tr_options (cn_id c) (sv_tracking s) in
     resp_array [resp_bulk_str (asc ''flags''),
       resp_array (case opts of
           Some o' \<Rightarrow> (if to_bcast o' then [resp_bulk_str (asc ''bcast'')] else []) @ (if to_optin o' then [resp_bulk_str (asc ''optin'')] else [])
             @ (if to_optout o' then [resp_bulk_str (asc ''optout'')] else []) @ (if to_noloop o' then [resp_bulk_str (asc ''noloop'')] else [])
         | None \<Rightarrow> [resp_bulk_str (asc ''off'')]),
       resp_bulk_str (asc ''redirect''),
       resp_int (case opts of Some o' \<Rightarrow> (case to_redirect o' of Some r \<Rightarrow> as_i64 r | None \<Rightarrow> 0) | None \<Rightarrow> -1),
       resp_bulk_str (asc ''prefixes''),
       resp_array (case opts of Some o' \<Rightarrow> map resp_bulk (to_prefixes o') | None \<Rightarrow> [])])"

section \<open>Protocol versions\<close>

fun pair_up :: "'a list \<Rightarrow> ('a \<times> 'a) list" where
  "pair_up (a # b # xs) = (a, b) # pair_up xs"
| "pair_up xs = []"

definition flat_pairs_to_map :: "resp list \<Rightarrow> resp" where
  "flat_pairs_to_map items = RMap (pair_up items)"

definition resp3_should_nest_pairs :: "bytes \<Rightarrow> resp list \<Rightarrow> bool" where
  "resp3_should_nest_pairs cmd args =
     (if named cmd [''ZRANGE'', ''ZREVRANGE'', ''ZRANGEBYSCORE'', ''ZREVRANGEBYSCORE'', ''ZINTER'', ''ZUNION'', ''ZDIFF'', ''ZRANDMEMBER'']
      then list_ex (\<lambda>a. case resp_as_str a of Some t \<Rightarrow> eq_ignore_ascii_case t (asc ''WITHSCORES'') | None \<Rightarrow> False) (drop 1 args)
      else named cmd [''ZPOPMIN'', ''ZPOPMAX''] \<and> length args \<ge> 3)"

fun stream_pair :: "resp \<Rightarrow> (resp \<times> resp) option" where
  "stream_pair (RArray (Some [key, entries])) = Some (key, entries)"
| "stream_pair _ = None"

definition upgrade_to_resp3 :: "bytes \<Rightarrow> resp \<Rightarrow> nat \<Rightarrow> bool \<Rightarrow> resp" where
  "upgrade_to_resp3 cmd r version nest = (if version < 3 then r else case r of
     RArray (Some items) \<Rightarrow>
       if named cmd [''HGETALL'', ''CONFIG'', ''MEMORY''] \<and> length items mod 2 = 0 then flat_pairs_to_map items
       else if named cmd [''HKEYS'', ''HVALS'', ''SMEMBERS''] then RSet items
       else if named cmd [''XREAD'', ''XREADGROUP''] then RMap (List.map_filter stream_pair items)
       else if named cmd [''ZRANGE'', ''ZREVRANGE'', ''ZRANGEBYSCORE'', ''ZREVRANGEBYSCORE'', ''ZINTER'', ''ZUNION'', ''ZDIFF'', ''ZPOPMIN'',
           ''ZPOPMAX'', ''ZRANDMEMBER''] \<and> nest \<and> length items mod 2 = 0
       then resp_array (map (\<lambda>(m, sc). resp_array [m, sc]) (pair_up items))
       else r
   | _ \<Rightarrow> r)"

text \<open>The options of HELLO: AUTH runs at once and ends the command if it fails.\<close>

function hello_loop :: "inputs \<Rightarrow> resp list \<Rightarrow> nat \<Rightarrow> connection \<Rightarrow> server \<Rightarrow> resp option \<times> connection \<times> server" where
  "hello_loop Q args i c s =
     (if i < length args then (case resp_as_str (args ! i) of
         None \<Rightarrow> hello_loop Q args (i + 1) c s
       | Some opt \<Rightarrow>
           if eq_ignore_ascii_case opt (asc ''AUTH'')
           then (case authenticate_as Q (word_or (asc ''default'') args (i + 1)) (word_or [] args (i + 2)) c s of
               (r, c, s) \<Rightarrow> if is_error r then (Some r, c, s) else hello_loop Q args (i + 3) c s)
           else if eq_ignore_ascii_case opt (asc ''SETNAME'')
           then hello_loop Q args (i + 2) c (case arg args (i + 1) resp_as_str of Some n \<Rightarrow> on_meta (\<lambda>m. m\<lparr>cm_name := n\<rparr>) c s | None \<Rightarrow> s)
           else hello_loop Q args (i + 1) c s)
      else (None, c, s))"
  by pat_completeness auto
termination by (relation "measure (\<lambda>(_, args, i, _, _). length args - i)") auto

declare hello_loop.simps [simp del]

definition hello_info :: "nat \<Rightarrow> nat \<Rightarrow> (resp \<times> resp) list" where
  "hello_info version cid =
     [(resp_bulk_str (asc ''server''), resp_bulk_str (asc ''nexrade-cache'')), (resp_bulk_str (asc ''version''), resp_bulk_str (asc ''1.4.2'')),
      (resp_bulk_str (asc ''proto''), RInteger (int version)), (resp_bulk_str (asc ''id''), RInteger (as_i64 cid)),
      (resp_bulk_str (asc ''mode''), resp_bulk_str (asc ''standalone'')), (resp_bulk_str (asc ''role''), resp_bulk_str (asc ''master'')),
      (resp_bulk_str (asc ''modules''), RArray (Some []))]"

definition handle_hello :: "inputs \<Rightarrow> resp list \<Rightarrow> connection \<Rightarrow> server \<Rightarrow> resp \<times> connection \<times> server" where
  "handle_hello Q args c s =
     (let version = (case Option.bind (arg args 1 resp_as_str) parse_usize of
          Some n \<Rightarrow> if n < 256 then n else cn_resp_version c
        | None \<Rightarrow> cn_resp_version c)
      in if version \<noteq> 2 \<and> version \<noteq> 3 then (resp_error (asc ''NOPROTO unsupported protocol version''), c, s)
         else (case hello_loop Q args 2 c s of
             (Some r, c, s) \<Rightarrow> (r, c, s)
           | (None, c, s) \<Rightarrow>
               (if version = 3 then RMap (hello_info version (cn_id c))
                else RArray (Some (concat (map (\<lambda>(k, v). [k, v]) (hello_info version (cn_id c))))),
                c\<lparr>cn_resp_version := version\<rparr>, s)))"

section \<open>One command\<close>

text \<open>\<open>tn_in k\<close> are the inputs of the command (\<open>k = 0\<close>) and of the commands EXEC runs; \<open>tn_elapsed\<close> is the time it took, in
  nanoseconds, and \<open>tn_end\<close> the time of day after it, in seconds.\<close>

record turn =
  tn_in :: "nat \<Rightarrow> inputs"
  tn_elapsed :: nat
  tn_end :: nat

type_synonym scripts = "bytes \<Rightarrow> resp list \<Rightarrow> connection \<Rightarrow> server \<Rightarrow> (resp \<times> server) option"

definition conn_cmd_name :: "resp list \<Rightarrow> bytes" where
  "conn_cmd_name args = (case arg args 0 resp_as_str of Some src \<Rightarrow> to_ascii_uppercase src | None \<Rightarrow> [])"

definition client_command :: "(bytes \<Rightarrow> resp list \<Rightarrow> nat \<Rightarrow> resp server_handler) \<Rightarrow> inputs \<Rightarrow> resp list \<Rightarrow> connection \<Rightarrow> server
    \<Rightarrow> (resp \<times> connection \<times> server) option" where
  "client_command rest Q args c s = (let sub = to_ascii_uppercase (word_or [] args 1) in
     if sub = asc ''TRACKING'' then Some (handle_client_tracking args c s)
     else if sub = asc ''CACHING'' then Some (handle_client_caching args c s)
     else if sub = asc ''TRACKINGINFO'' then Some (client_trackinginfo c s, c, s)
     else do {
       (r, s) \<leftarrow> dispatch_tracked rest Q args (cn_db_index c) (cn_user c) (cn_id c) (asc ''CLIENT'') s;
       Some (r, c, case if sub = asc ''SETNAME'' then arg args 2 resp_as_str else None of
           Some name \<Rightarrow> on_meta (\<lambda>m. m\<lparr>cm_name := name\<rparr>) c s
         | None \<Rightarrow> s)
     })"

text \<open>The command is sent to the replicas, if there is a stream with receivers, once it has succeeded.\<close>

definition propagate :: "bytes option \<Rightarrow> resp \<Rightarrow> server \<Rightarrow> server" where
  "propagate repl r s = (case repl of
     Some bs \<Rightarrow> if \<not> is_error r \<and> sv_replicas s \<noteq> None \<and> sv_replicas s \<noteq> Some 0
       then s\<lparr>sv_propagated := sv_propagated s @ [bs], sv_replication_offset := sv_replication_offset s + of_nat (length bs)\<rparr> else s
   | None \<Rightarrow> s)"

definition plain_command :: "(bytes \<Rightarrow> resp list \<Rightarrow> nat \<Rightarrow> resp server_handler) \<Rightarrow> inputs \<Rightarrow> resp list \<Rightarrow> bytes \<Rightarrow> connection \<Rightarrow> server
    \<Rightarrow> (resp \<times> connection \<times> server) option" where
  "plain_command rest Q args cmd c s = do {
     let s = s\<lparr>sv_commands := sv_commands s + 1\<rparr>;
     repl \<leftarrow> (if sv_replicas s \<noteq> None \<and> sv_replicas s \<noteq> Some 0 \<and> is_write_command cmd
       then map_option Some (serialize (in_itoa Q) (in_fmt_f64 Q) (RArray (Some args))) else Some None);
     (r, s) \<leftarrow> dispatch_tracked rest Q args (cn_db_index c) (cn_user c) (cn_id c) cmd s;
     Some (r, c, propagate repl r s)
   }"

definition script_commands :: "string list" where
  "script_commands = [''EVAL'', ''EVALSHA'', ''SCRIPT'', ''FUNCTION'', ''FCALL'', ''FCALL_RO'']"

text \<open>The branches of \<^verbatim>\<open>run\<close> that make the response; the flag is \<^verbatim>\<open>quit\<close>.\<close>

definition respond :: "(bytes \<Rightarrow> resp list \<Rightarrow> nat \<Rightarrow> resp server_handler) \<Rightarrow> scripts \<Rightarrow> (nat \<Rightarrow> inputs) \<Rightarrow> resp list \<Rightarrow> bytes \<Rightarrow> connection
    \<Rightarrow> server \<Rightarrow> (resp \<times> connection \<times> server) option" where
  "respond rest scripts Q args cmd c s =
     (if cmd = asc ''AUTH'' then Some (handle_auth (Q 0) args c s)
      else if \<not> cn_authenticated c then Some (resp_error (asc ''NOAUTH Authentication required''), c, s)
      else if sv_is_replica s \<and> is_write_command cmd then Some (RError (error_text ReadOnly), c, s)
      else if cmd = asc ''SELECT'' then Some (handle_select args c s)
      else if cmd = asc ''CLIENT'' then client_command rest (Q 0) args c s
      else if named cmd [''UNSUBSCRIBE'', ''PUNSUBSCRIBE'']
      then Some (resp_array [resp_bulk_str (asc ''unsubscribe''), resp_null, resp_int 0], c, s)
      else if cmd = asc ''HELLO'' then Some (handle_hello (Q 0) args c s)
      else if cmd = asc ''WATCH'' then handle_watch (Q 0) args c s
      else if cmd = asc ''UNWATCH'' then Some (handle_unwatch c s)
      else if cmd = asc ''MULTI'' then Some (handle_multi c s)
      else if cmd = asc ''EXEC'' then handle_exec rest Q c s
      else if cmd = asc ''DISCARD'' then Some (handle_discard c s)
      else if cmd = asc ''QUIT'' then Some (resp_ok, c, s)
      else if cmd = asc ''RESET'' then Some (handle_reset c s)
      else if named cmd script_commands then map_option (\<lambda>(r, s). (r, c, s)) (scripts cmd args c s)
      else if tx_active (cn_transaction c)
      then Some (SimpleString (asc ''QUEUED''), c\<lparr>cn_transaction := tx_enqueue args (cn_transaction c)\<rparr>, s)
      else plain_command rest (Q 0) args cmd c s)"

definition note_slow :: "turn \<Rightarrow> bytes \<Rightarrow> nat \<Rightarrow> connection \<Rightarrow> server \<Rightarrow> server" where
  "note_slow T cmd n c s = (if tn_elapsed T div 1000 mod 2 ^ 64 \<ge> sl_threshold_us (sv_slowlog s)
     then s\<lparr>sv_slowlog := sl_record (tn_end T) (tn_elapsed T) [cmd, asc ''('' @ dec n @ asc '' args)''] (cn_addr c) (sv_slowlog s)\<rparr> else s)"

definition run_command :: "(bytes \<Rightarrow> resp list \<Rightarrow> nat \<Rightarrow> resp server_handler) \<Rightarrow> scripts \<Rightarrow> turn \<Rightarrow> resp list \<Rightarrow> connection \<Rightarrow> server
    \<Rightarrow> (resp \<times> connection \<times> server) option" where
  "run_command rest scripts T args c s = (let cmd = conn_cmd_name args; nest = resp3_should_nest_pairs cmd args in do {
     (r, c, s) \<leftarrow> respond rest scripts (tn_in T) args cmd c s;
     let c = c\<lparr>cn_last_cmd := cmd\<rparr>;
     Some (upgrade_to_resp3 cmd r (cn_resp_version c) nest, c, note_slow T cmd (length args) c s)
   })"

section \<open>A batch\<close>

text \<open>How the loop over the buffered commands ends: no more commands, QUIT or a protocol error, or a command that takes the
  connection over; and how the loop over the reads may end, by CLIENT KILL.\<close>

datatype batch_end = Drained | Quitting | Subscribing "resp list" bool | Monitoring | Syncing | Killed

definition takes_over :: "bytes \<Rightarrow> resp list \<Rightarrow> batch_end option" where
  "takes_over cmd args =
     (if named cmd [''SUBSCRIBE'', ''PSUBSCRIBE'', ''SSUBSCRIBE''] then Some (Subscribing args (cmd = asc ''PSUBSCRIBE''))
      else if cmd = asc ''MONITOR'' then Some Monitoring
      else if cmd = asc ''PSYNC'' then Some Syncing else None)"

text \<open>\<open>\<^verbatim>\<open>write_to_for_version_owned\<close>\<close> into the output buffer; the formatting of numbers is the one of the turn.\<close>

function batch :: "(bytes \<Rightarrow> resp list \<Rightarrow> nat \<Rightarrow> resp server_handler) \<Rightarrow> scripts \<Rightarrow> (bytes \<Rightarrow> f64 option) \<Rightarrow> (nat \<Rightarrow> turn) \<Rightarrow> nat \<Rightarrow> resp_parser
    \<Rightarrow> bool \<Rightarrow> seg_buf \<Rightarrow> connection \<Rightarrow> server \<Rightarrow> (batch_end \<times> nat \<times> resp_parser \<times> bool \<times> seg_buf \<times> connection \<times> server) option" where
  "batch rest scripts pf T n p had b c s = (case parser_parse_one pf p of
     None \<Rightarrow> None
   | Some (NeedMore, p) \<Rightarrow> Some (Drained, n, p, had, b, c, s)
   | Some (ProtocolError m, p) \<Rightarrow> do {
       b \<leftarrow> write_to_for_version (in_itoa (tn_in (T n) 0)) (in_fmt_f64 (tn_in (T n) 0)) 2 (resp_error (error_text (ProtocolErr m))) b;
       Some (Quitting, n, p, had, b, c, s)
     }
   | Some (Value (RArray (Some args)), p') \<Rightarrow>
       if args = [] then batch rest scripts pf T n p' had b c s
       else (let cmd = conn_cmd_name args in
         case if cn_authenticated c then takes_over cmd args else None of
           Some e \<Rightarrow> Some (e, n, p', had, b, c, s\<lparr>sv_commands := sv_commands s + 1\<rparr>)
         | None \<Rightarrow> do {
             (r, c, s) \<leftarrow> run_command rest scripts (T n) args c s;
             b \<leftarrow> write_to_for_version_owned (in_itoa (tn_in (T n) 0)) (in_fmt_f64 (tn_in (T n) 0)) (cn_resp_version c) r b;
             (if cmd = asc ''QUIT'' \<and> cn_authenticated c then Some (Quitting, n + 1, p', True, b, c, s)
              else batch rest scripts pf T (n + 1) p' True b c s)
           })
   | Some (Value _, p') \<Rightarrow> do {
       b \<leftarrow> write_to_for_version (in_itoa (tn_in (T n) 0)) (in_fmt_f64 (tn_in (T n) 0)) 2 (resp_error (asc ''protocol error: expected array'')) b;
       batch rest scripts pf T n p' had b c s
     })"
  by pat_completeness auto
termination by (relation "measure (\<lambda>(_, _, _, _, _, p, _, _, _, _). length (rp_buf p))") (auto dest: parse_one_shrinks)

declare batch.simps [simp del]

section \<open>A read\<close>

text \<open>\<^verbatim>\<open>refresh_meta_after_batch\<close>; \<open>cap\<close> is the capacity of the parser's buffer.\<close>

definition refresh_meta :: "nat \<Rightarrow> nat \<Rightarrow> resp_parser \<Rightarrow> connection \<Rightarrow> server \<Rightarrow> server" where
  "refresh_meta now cap p c s =
     (let tracked = tr_is_enabled (cn_id c) (sv_tracking s); t = cn_transaction c;
          managed = CLIENT_FLAG_PUBSUB OR CLIENT_FLAG_MULTI OR CLIENT_FLAG_TRACKING in
      on_meta (\<lambda>m. m\<lparr>cm_last_cmd := cn_last_cmd c, cm_idle_instant := now, cm_qbuf := parser_buffered_len p,
        cm_qbuf_free := cap - parser_buffered_len p, cm_user := cn_user c, cm_authenticated := cn_authenticated c,
        cm_db_index := cn_db_index c, cm_subscriptions := length (cn_subscriptions c),
        cm_pattern_subscriptions := length (cn_pattern_subscriptions c), cm_watch_keys := length (tx_watch_keys t),
        cm_multi := (if tx_active t then int (length (tx_queue t)) else -1), cm_tracking_enabled := tracked,
        cm_flags := (cm_flags m AND NOT managed)
          OR (if cn_subscriptions c \<noteq> [] \<or> cn_pattern_subscriptions c \<noteq> [] then CLIENT_FLAG_PUBSUB else 0)
          OR (if tx_active t then CLIENT_FLAG_MULTI else 0) OR (if tracked then CLIENT_FLAG_TRACKING else 0)\<rparr>) c s)"

text \<open>One turn of the outer loop that reads \<open>data\<close> from the socket; \<open>now\<close> and \<open>cap\<close> are for the metadata. The result has the bytes
  written. MONITOR writes its \<^verbatim>\<open>+OK\<close> after what was pending.\<close>

definition serve_read :: "(bytes \<Rightarrow> resp list \<Rightarrow> nat \<Rightarrow> resp server_handler) \<Rightarrow> scripts \<Rightarrow> (bytes \<Rightarrow> f64 option) \<Rightarrow> (nat \<Rightarrow> turn) \<Rightarrow> nat \<times> nat
    \<Rightarrow> bytes \<Rightarrow> nat \<Rightarrow> resp_parser \<Rightarrow> connection \<Rightarrow> server \<Rightarrow> (bytes \<times> batch_end \<times> nat \<times> resp_parser \<times> connection \<times> server) option" where
  "serve_read rest scripts pf T clock data n p c s = do {
     (e, n, p, had, b, c, s) \<leftarrow> batch rest scripts pf T n (parser_feed p data) False (sb_with_capacity (16 * 1024)) c s;
     b \<leftarrow> (if e = Monitoring then write_to_for_version (in_itoa (tn_in (T n) 0)) (in_fmt_f64 (tn_in (T n) 0)) (cn_resp_version c) resp_ok b else Some b);
     let s = (if had \<and> e \<noteq> Monitoring \<and> e \<noteq> Syncing then refresh_meta (fst clock) (snd clock) p c s else s);
     Some (sb_content (sb_finalize b), e, n, p, c, s)
   }"

text \<open>The kill flag, which CLIENT KILL of any client sets.\<close>

definition conn_killed :: "connection \<Rightarrow> server \<Rightarrow> bool" where
  "conn_killed c s \<longleftrightarrow> map_of (cr_kill_flags (sv_registry s)) (cn_id c) = Some True"

text \<open>The outer loop over the reads of a connection, until it has been killed, a read ends it, or no more come. Pushes of
  invalidations and the idle timeout happen between the reads and are not part of it.\<close>

fun serve_reads :: "(bytes \<Rightarrow> resp list \<Rightarrow> nat \<Rightarrow> resp server_handler) \<Rightarrow> scripts \<Rightarrow> (bytes \<Rightarrow> f64 option) \<Rightarrow> (nat \<Rightarrow> turn) \<Rightarrow> (nat \<times> nat \<times> bytes) list
    \<Rightarrow> nat \<Rightarrow> resp_parser \<Rightarrow> connection \<Rightarrow> server \<Rightarrow> (bytes \<times> batch_end \<times> nat \<times> resp_parser \<times> connection \<times> server) option" where
  "serve_reads rest scripts pf T [] n p c s = Some ([], Drained, n, p, c, s)"
| "serve_reads rest scripts pf T ((now, cap, data) # segs) n p c s = (if conn_killed c s then Some ([], Killed, n, p, c, s) else do {
     (out, e, n, p, c, s) \<leftarrow> serve_read rest scripts pf T (now, cap) data n p c s;
     (if e = Drained then map_option (\<lambda>(out', r). (out @ out', r)) (serve_reads rest scripts pf T segs n p c s)
      else Some (out, e, n, p, c, s))
   })"

end
