(* ===== verification/Connection_Laws.thy ===== *)
theory Connection_Laws
  imports Connection Aof_Laws
begin

text \<open>
  What a connection promises: replies in the order of the requests however the bytes arrive, transactions, and that nothing runs
  before authentication.
\<close>

section \<open>Pipelines\<close>

text \<open>The requests of a client run one after the other; with each reply the protocol version it is written in.\<close>

fun session :: "(bytes \<Rightarrow> resp list \<Rightarrow> nat \<Rightarrow> resp server_handler) \<Rightarrow> scripts \<Rightarrow> (nat \<Rightarrow> turn) \<Rightarrow> nat \<Rightarrow> bytes list list \<Rightarrow> connection \<Rightarrow> server
    \<Rightarrow> ((nat \<times> resp) list \<times> connection \<times> server) option" where
  "session rest scripts T n [] c s = Some ([], c, s)"
| "session rest scripts T n (ws # wss) c s = do {
     (r, c, s) \<leftarrow> run_command rest scripts (T n) (bulks ws) c s;
     (rs, c', s) \<leftarrow> session rest scripts T (n + 1) wss c s;
     Some ((cn_resp_version c, r) # rs, c', s)
   }"

text \<open>The same in batches, with the metadata brought up to date after each: its clock and capacity, its requests, and the bytes of
  the next request that have already been read. A client that has been killed gets no further batch.\<close>

type_synonym batch_of = "(nat \<times> nat) \<times> bytes list list \<times> bytes"

fun sessions :: "(bytes \<Rightarrow> resp list \<Rightarrow> nat \<Rightarrow> resp server_handler) \<Rightarrow> scripts \<Rightarrow> (nat \<Rightarrow> turn) \<Rightarrow> nat \<Rightarrow> batch_of list \<Rightarrow> connection \<Rightarrow> server
    \<Rightarrow> ((nat \<times> resp) list \<times> connection \<times> server) option" where
  "sessions rest scripts T n [] c s = Some ([], c, s)"
| "sessions rest scripts T n (((now, cap), wss, left) # bs) c s = (if conn_killed c s then None else do {
     (rs, c, s) \<leftarrow> session rest scripts T n wss c s;
     (rs', c', s) \<leftarrow> sessions rest scripts T (n + length wss) bs c
       (if wss = [] then s else refresh_meta now cap \<lparr>rp_buf = left\<rparr> c s);
     Some (rs @ rs', c', s)
   })"

definition reply_bytes :: "(f64 \<Rightarrow> bytes) \<Rightarrow> (nat \<times> resp) list \<Rightarrow> bytes" where
  "reply_bytes fmt rs = concat (map (\<lambda>(v, r). resp_bytes fmt v r) rs)"

lemma reply_bytes_simps [simp]: "reply_bytes fmt [] = []" "reply_bytes fmt ((v, r) # rs) = resp_bytes fmt v r @ reply_bytes fmt rs"
  "reply_bytes fmt (rs @ rs') = reply_bytes fmt rs @ reply_bytes fmt rs'"
  by (simp_all add: reply_bytes_def)

text \<open>Requests that leave the connection in its loop.\<close>

definition stays :: "bytes list \<Rightarrow> bool" where
  "stays ws \<longleftrightarrow> ws \<noteq> [] \<and> words_ok ws
     \<and> \<not> named (conn_cmd_name (bulks ws)) [''QUIT'', ''SUBSCRIBE'', ''PSUBSCRIBE'', ''SSUBSCRIBE'', ''MONITOR'', ''PSYNC'']"

definition turns_ok :: "(f64 \<Rightarrow> bytes) \<Rightarrow> (nat \<Rightarrow> turn) \<Rightarrow> bool" where
  "turns_ok fmt T \<longleftrightarrow> (\<forall>n. itoa_laws (in_itoa (tn_in (T n) 0)) \<and> in_fmt_f64 (tn_in (T n) 0) = fmt)"

lemma owned_appends:
  assumes "itoa_laws itoa" and "resp_repr fmt r" and "sb_ok b"
  shows "\<exists>b'. write_to_for_version_owned itoa fmt v r b = Some b' \<and> sb_ok b' \<and> sb_content b' = sb_content b @ resp_bytes fmt v r"
proof (cases "\<exists>bs. r = RRaw bs")
  case True
  then show ?thesis using sb_push_raw_content [OF assms(3)] by (auto simp: write_to_for_version_owned_def)
next
  case False
  then have "write_to_for_version_owned itoa fmt v r b = write_to_for_version itoa fmt v r b"
    by (auto simp: write_to_for_version_owned_def split: resp.splits)
  then show ?thesis using write_appends(1) [OF assms, of v] by auto
qed

lemma parse_frame:
  assumes "reads pf e r"
  shows "parser_parse_one pf \<lparr>rp_buf = e @ t\<rparr> = Some (Value r, \<lparr>rp_buf = t\<rparr>)"
  using assms reads_nonempty [OF assms] by (simp add: parser_parse_one_def reads_def)

text \<open>A buffer of whole requests and the beginning of another is a batch.\<close>

lemma batch_session:
  assumes "f64_text_laws fmt pf" and "turns_ok fmt T" and "parser_parse_one pf \<lparr>rp_buf = t\<rparr> = Some (NeedMore, \<lparr>rp_buf = t\<rparr>)"
  shows "list_all stays wss \<Longrightarrow> session rest scripts T n wss c s = Some (rs, c', s') \<Longrightarrow> list_all (\<lambda>(_, r). resp_repr fmt r) rs \<Longrightarrow> sb_ok b \<Longrightarrow>
    \<exists>b'. batch rest scripts pf T n \<lparr>rp_buf = concat (map (command_bytes fmt) wss) @ t\<rparr> had b c s
        = Some (Drained, n + length wss, \<lparr>rp_buf = t\<rparr>, had \<or> wss \<noteq> [], b', c', s')
      \<and> sb_ok b' \<and> sb_content b' = sb_content b @ reply_bytes fmt rs"
proof (induction wss arbitrary: n had b c s rs)
  case Nil
  then show ?case using assms(3) by (simp add: batch.simps)
next
  case (Cons ws wss)
  obtain r c1 s1 rs1 where r: "run_command rest scripts (T n) (bulks ws) c s = Some (r, c1, s1)"
    and ss: "session rest scripts T (n + 1) wss c1 s1 = Some (rs1, c', s')" and rs: "rs = (cn_resp_version c1, r) # rs1"
    using Cons.prems(2) by (auto simp: bind_eq_Some_conv)
  let ?Q = "tn_in (T n) 0"
  have Q: "itoa_laws (in_itoa ?Q)" "in_fmt_f64 ?Q = fmt" using assms(2) by (simp_all add: turns_ok_def)
  obtain b1 where b1: "write_to_for_version_owned (in_itoa ?Q) (in_fmt_f64 ?Q) (cn_resp_version c1) r b = Some b1" "sb_ok b1"
    "sb_content b1 = sb_content b @ resp_bytes fmt (cn_resp_version c1) r"
    using owned_appends [OF Q(1) _ Cons.prems(4), of fmt r "cn_resp_version c1"] Cons.prems(3) rs Q(2) by auto
  have st: "stays ws" using Cons.prems(1) by simp
  have nb: "bulks ws \<noteq> []" using st by (simp add: stays_def bulks_def)
  have no: "takes_over (conn_cmd_name (bulks ws)) (bulks ws) = None" "conn_cmd_name (bulks ws) \<noteq> asc ''QUIT''"
    using st by (simp_all add: stays_def takes_over_def named_def)
  have p: "parser_parse_one pf \<lparr>rp_buf = concat (map (command_bytes fmt) (ws # wss)) @ t\<rparr>
      = Some (Value (RArray (Some (bulks ws))), \<lparr>rp_buf = concat (map (command_bytes fmt) wss) @ t\<rparr>)"
    using parse_frame [OF command_reads [OF assms(1)], of ws] st by (simp add: stays_def)
  have "batch rest scripts pf T n \<lparr>rp_buf = concat (map (command_bytes fmt) (ws # wss)) @ t\<rparr> had b c s
      = batch rest scripts pf T (n + 1) \<lparr>rp_buf = concat (map (command_bytes fmt) wss) @ t\<rparr> True b1 c1 s1"
    by (subst batch.simps) (simp only: p r b1 no nb option.case prod.case parsed.case resp.case Let_def if_False if_cancel
        bind.bind_lunit simp_thms)
  then show ?case using Cons.IH [OF _ ss _ b1(2), of True] Cons.prems(1,3) rs b1(3) by (simp add: ac_simps)
qed

text \<open>Where a read ends among the requests.\<close>

lemma cut_frames:
  assumes "buf @ seg @ post = concat es" and "es \<noteq> [] \<longrightarrow> length buf < length (hd es)"
  shows "\<exists>i t. i \<le> length es \<and> buf @ seg = concat (take i es) @ t \<and> t @ post = concat (drop i es)
    \<and> (drop i es \<noteq> [] \<longrightarrow> (\<exists>k < length (hd (drop i es)). t = take k (hd (drop i es)))) \<and> (drop i es = [] \<longrightarrow> t = [])"
proof -
  let ?n = "length (buf @ seg)"
  have pre: "buf @ seg = take ?n (concat es)" by (simp flip: assms(1))
  show ?thesis
  proof (cases "?n < length (concat es)")
    case True
    then obtain i k where ik: "i < length es" "k < length (es ! i)" "buf @ seg = concat (take i es) @ take k (es ! i)"
      using split_frames [of ?n es] pre by metis
    have "(buf @ seg) @ post = concat (take i es) @ concat (drop i es)" using assms(1) ik(1) take_concat_prefix [of i es] by simp
    then have "take k (es ! i) @ post = concat (drop i es)" unfolding ik(3) by simp
    then show ?thesis using ik by (intro exI [of _ i] exI [of _ "take k (es ! i)"]) (auto simp: hd_drop_conv_nth)
  next
    case False
    then have full: "buf @ seg = concat es" using pre by simp
    then have "concat es @ post = concat es" using assms(1) by (metis append.assoc)
    then have "post = []" by (simp only: append_self_conv)
    then show ?thesis using full by (intro exI [of _ "length es"] exI [of _ "[]"]) auto
  qed
qed

abbreviation data_of :: "nat \<times> nat \<times> bytes \<Rightarrow> bytes" where
  "data_of r \<equiv> snd (snd r)"

abbreviation clock_of :: "nat \<times> nat \<times> bytes \<Rightarrow> nat \<times> nat" where
  "clock_of r \<equiv> (fst r, fst (snd r))"

abbreviation requests_of :: "batch_of \<Rightarrow> bytes list list" where
  "requests_of b \<equiv> fst (snd b)"

lemma reads_sessions:
  assumes "f64_text_laws fmt pf" and "turns_ok fmt T"
  shows "list_all stays wss \<Longrightarrow> buf @ concat (map data_of segs) = concat (map (command_bytes fmt) wss)
    \<Longrightarrow> (wss \<noteq> [] \<longrightarrow> length buf < length (command_bytes fmt (hd wss))) \<Longrightarrow>
    \<exists>bs. concat (map requests_of bs) = wss \<and> map fst bs = map clock_of segs
      \<and> (\<forall>c s n rs c' s'. sessions rest scripts T n bs c s = Some (rs, c', s') \<longrightarrow> list_all (\<lambda>(_, r). resp_repr fmt r) rs \<longrightarrow>
          serve_reads rest scripts pf T segs n \<lparr>rp_buf = buf\<rparr> c s
            = Some (reply_bytes fmt rs, Drained, n + length wss, \<lparr>rp_buf = []\<rparr>, c', s'))"
proof (induction segs arbitrary: wss buf)
  case Nil
  have "wss = []"
  proof (rule ccontr)
    assume "wss \<noteq> []"
    then show False using Nil.prems(2,3) by (cases wss) auto
  qed
  then show ?case using Nil.prems by (intro exI [of _ "[]"]) auto
next
  case (Cons seg segs)
  obtain now cap data where seg: "seg = (now, cap, data)" by (metis prod_cases3)
  let ?es = "map (command_bytes fmt) wss"
  have "buf @ data @ concat (map data_of segs) = concat ?es" "?es \<noteq> [] \<longrightarrow> length buf < length (hd ?es)"
    using Cons.prems(2,3) by (simp_all add: seg hd_map)
  from cut_frames [OF this] obtain i t where i: "i \<le> length ?es" "buf @ data = concat (take i ?es) @ t"
    "t @ concat (map data_of segs) = concat (drop i ?es)"
    "drop i ?es \<noteq> [] \<longrightarrow> (\<exists>k < length (hd (drop i ?es)). t = take k (hd (drop i ?es)))" "drop i ?es = [] \<longrightarrow> t = []" by blast
  have st: "list_all stays (take i wss)" "list_all stays (drop i wss)"
    using Cons.prems(1) by (auto simp: list_all_iff dest: in_set_takeD in_set_dropD)
  have short: "drop i wss \<noteq> [] \<longrightarrow> length t < length (command_bytes fmt (hd (drop i wss)))"
    using i(4) by (auto simp: drop_map hd_map)
  from Cons.IH [OF st(2), of t] i(3) short obtain bs where bs: "concat (map requests_of bs) = drop i wss"
    "map fst bs = map clock_of segs"
    "\<And>c s n rs c' s'. sessions rest scripts T n bs c s = Some (rs, c', s') \<Longrightarrow> list_all (\<lambda>(_, r). resp_repr fmt r) rs \<Longrightarrow>
        serve_reads rest scripts pf T segs n \<lparr>rp_buf = t\<rparr> c s
          = Some (reply_bytes fmt rs, Drained, n + length (drop i wss), \<lparr>rp_buf = []\<rparr>, c', s')"
    by (auto simp: drop_map)
  have nm: "parser_parse_one pf \<lparr>rp_buf = t\<rparr> = Some (NeedMore, \<lparr>rp_buf = t\<rparr>)"
  proof (cases "drop i wss = []")
    case True
    then show ?thesis using i(5) by (simp add: parser_parse_one_def)
  next
    case False
    then obtain k where k: "k < length (command_bytes fmt (hd (drop i wss)))" "t = take k (command_bytes fmt (hd (drop i wss)))"
      using i(4) by (auto simp: drop_map hd_map)
    have "stays (hd (drop i wss))" using st(2) False by (cases "drop i wss") auto
    then have "reads pf (command_bytes fmt (hd (drop i wss))) (RArray (Some (bulks (hd (drop i wss)))))"
      by (intro command_reads [OF assms(1)]) (simp add: stays_def)
    then show ?thesis using k by (simp add: parser_parse_one_def reads_def)
  qed
  have "serve_reads rest scripts pf T (seg # segs) n \<lparr>rp_buf = buf\<rparr> c s
      = Some (reply_bytes fmt rs, Drained, n + length wss, \<lparr>rp_buf = []\<rparr>, c', s')"
    if ss: "sessions rest scripts T n (((now, cap), take i wss, t) # bs) c s = Some (rs, c', s')"
      and rr: "list_all (\<lambda>(_, r). resp_repr fmt r) rs" for c s n rs c' s'
  proof -
    let ?done = "\<lambda>c s. if take i wss = [] then s else refresh_meta now cap \<lparr>rp_buf = t\<rparr> c s"
    have alive: "\<not> conn_killed c s" using ss by (cases "conn_killed c s") simp_all
    obtain rs1 c1 s1 rs2 where one: "session rest scripts T n (take i wss) c s = Some (rs1, c1, s1)"
      and two: "sessions rest scripts T (n + length (take i wss)) bs c1 (?done c1 s1) = Some (rs2, c', s')" and rs: "rs = rs1 @ rs2"
      using ss alive by (auto simp: bind_eq_Some_conv)
    have ok: "sb_ok (sb_with_capacity (16 * 1024))" "sb_content (sb_with_capacity (16 * 1024)) = []"
      by (simp_all add: sb_with_capacity_def sb_ok_def sb_content_def)
    obtain b where b: "batch rest scripts pf T n \<lparr>rp_buf = concat (map (command_bytes fmt) (take i wss)) @ t\<rparr> False (sb_with_capacity (16 * 1024)) c s
        = Some (Drained, n + length (take i wss), \<lparr>rp_buf = t\<rparr>, take i wss \<noteq> [], b, c1, s1)" "sb_ok b" "sb_content b = reply_bytes fmt rs1"
      using batch_session [OF assms nm st(1) one _ ok(1), of False] rr rs ok(2) by auto
    have "serve_read rest scripts pf T (now, cap) data n \<lparr>rp_buf = buf\<rparr> c s
        = Some (reply_bytes fmt rs1, Drained, n + length (take i wss), \<lparr>rp_buf = t\<rparr>, c1, ?done c1 s1)"
      using b i(2) sb_finalize_content(2) [OF b(2)] by (simp add: serve_read_def parser_feed_def take_map)
    then show ?thesis using bs(3) [OF two] rr rs i(1) alive by (simp add: seg)
  qed
  then show ?case using bs(1,2) by (intro exI [of _ "((now, cap), take i wss, t) # bs"]) (auto simp: seg)
qed

section \<open>Transactions\<close>

text \<open>The version of a key in a database; a missing shard has none.\<close>

definition version_in :: "nat \<Rightarrow> sharded \<Rightarrow> bytes \<Rightarrow> u64" where
  "version_in now db k = (case read_for db k of Some d \<Rightarrow> db_key_version now k d | None \<Rightarrow> 0)"

definition all_shards :: "sharded \<Rightarrow> bool" where
  "all_shards db \<longleftrightarrow> (\<forall>k. read_for db k \<noteq> None)"

lemma any_changed_is:
  assumes "all_shards db"
  shows "any_changed now db ks = Some (list_ex (\<lambda>(k, v). version_in now db k \<noteq> v) ks)"
proof (induction ks)
  case (Cons p ks)
  obtain k v where "p = (k, v)" by (cases p)
  moreover obtain d where "read_for db k = Some d" using assms by (auto simp: all_shards_def)
  ultimately show ?case using Cons.IH by (auto simp: version_in_def)
qed simp

lemma watch_loop_is:
  assumes "all_shards db"
  shows "length (tx_watch_keys t) + length ks \<le> MAX_WATCH_KEYS \<Longrightarrow>
    watch_loop now db (bulks ks) t = Some (resp_ok, t\<lparr>tx_watch_keys := tx_watch_keys t @ map (\<lambda>k. (k, version_in now db k)) ks\<rparr>)"
proof (induction ks arbitrary: t)
  case (Cons k ks)
  obtain d where "read_for db k = Some d" using assms by (auto simp: all_shards_def)
  then show ?case using Cons by (simp add: bulks_def tx_watch_def version_in_def)
qed (simp add: bulks_def)

text \<open>Commands that MULTI queues: those the connection does not run by itself.\<close>

definition queueable :: "bytes \<Rightarrow> bool" where
  "queueable cmd \<longleftrightarrow> \<not> named cmd ([''AUTH'', ''SELECT'', ''CLIENT'', ''UNSUBSCRIBE'', ''PUNSUBSCRIBE'', ''HELLO'', ''WATCH'', ''UNWATCH'', ''MULTI'',
     ''EXEC'', ''DISCARD'', ''QUIT'', ''RESET''] @ script_commands)"

lemma queueable_names:
  assumes "queueable cmd" and "n \<in> set ([''AUTH'', ''SELECT'', ''CLIENT'', ''UNSUBSCRIBE'', ''PUNSUBSCRIBE'', ''HELLO'', ''WATCH'', ''UNWATCH'', ''MULTI'',
     ''EXEC'', ''DISCARD'', ''QUIT'', ''RESET''] @ script_commands)"
  shows "cmd \<noteq> asc n"
  using assms unfolding queueable_def named_def list_ex_iff by blast

lemma queueable_scripts: "queueable cmd \<Longrightarrow> \<not> named cmd script_commands" "queueable cmd \<Longrightarrow> \<not> named cmd [''UNSUBSCRIBE'', ''PUNSUBSCRIBE'']"
  by (auto simp: queueable_def named_def)

lemma respond_queued:
  assumes "queueable cmd" and "cn_authenticated c" and "\<not> sv_is_replica s" and "tx_active (cn_transaction c)"
  shows "respond rest scripts Q args cmd c s
    = Some (SimpleString (asc ''QUEUED''), c\<lparr>cn_transaction := tx_enqueue args (cn_transaction c)\<rparr>, s)"
  using assms(2-) queueable_scripts [OF assms(1)] queueable_names [OF assms(1)] by (simp add: respond_def)

lemma respond_simps:
  assumes "cn_authenticated c" and "\<not> sv_is_replica s"
  shows "respond rest scripts Q args (asc ''WATCH'') c s = handle_watch (Q 0) args c s"
    and "respond rest scripts Q args (asc ''MULTI'') c s = Some (handle_multi c s)"
    and "respond rest scripts Q args (asc ''EXEC'') c s = handle_exec rest Q c s"
  using assms by (simp_all add: respond_def asc_inject script_commands_def)

text \<open>What queues up between MULTI and EXEC, whatever happens to the server meanwhile.\<close>

fun queues :: "(bytes \<Rightarrow> resp list \<Rightarrow> nat \<Rightarrow> resp server_handler) \<Rightarrow> scripts \<Rightarrow> (nat \<Rightarrow> inputs) \<Rightarrow> (resp list \<times> server) list \<Rightarrow> connection \<Rightarrow> connection \<Rightarrow> bool" where
  "queues rest scripts Q [] c c' \<longleftrightarrow> c' = c"
| "queues rest scripts Q ((args, s) # qs) c c' \<longleftrightarrow>
     (\<exists>c1. respond rest scripts Q args (conn_cmd_name args) c s = Some (SimpleString (asc ''QUEUED''), c1, s) \<and> queues rest scripts Q qs c1 c')"

definition can_serve :: "server \<Rightarrow> bool" where
  "can_serve s \<longleftrightarrow> \<not> sv_is_replica s"

lemma queues_all:
  assumes "cn_authenticated c" and "tx_active (cn_transaction c)"
    and "list_all (\<lambda>(args, s). queueable (conn_cmd_name args) \<and> can_serve s) qs"
  shows "queues rest scripts Q qs c (c\<lparr>cn_transaction := (cn_transaction c)\<lparr>tx_queue := tx_queue (cn_transaction c) @ map fst qs\<rparr>\<rparr>)"
  using assms
proof (induction qs arbitrary: c)
  case (Cons q qs)
  obtain args s where q: "q = (args, s)" by (cases q)
  let ?c = "c\<lparr>cn_transaction := tx_enqueue args (cn_transaction c)\<rparr>"
  have r: "respond rest scripts Q args (conn_cmd_name args) c s = Some (SimpleString (asc ''QUEUED''), ?c, s)"
    using Cons.prems q by (intro respond_queued) (simp_all add: can_serve_def)
  have "queues rest scripts Q qs ?c (?c\<lparr>cn_transaction := (cn_transaction ?c)\<lparr>tx_queue := tx_queue (cn_transaction ?c) @ map fst qs\<rparr>\<rparr>)"
    using Cons.prems by (intro Cons.IH) (simp_all add: tx_enqueue_def)
  then show ?case using r by (simp add: q tx_enqueue_def)
qed simp


lemma ks_all_shards:
  assumes "ks_is lims clk db A"
  shows "all_shards db"
proof -
  obtain m where m: "sharded_is clk db m" using assms by (auto simp: ks_is_def)
  have "length (sh_shards db) = sh_num db" using m by (simp add: sharded_is_def)
  then show ?thesis using shard_idx_less [OF m] by (simp add: all_shards_def read_for_def index_def)
qed


section \<open>Authentication\<close>

fun auth_words :: "resp list \<Rightarrow> (bytes \<times> bytes) option" where
  "auth_words args = (if length args \<ge> 3 then Some (word_or (asc ''default'') args 1, word_or [] args 2)
     else if length args = 2 then Some (asc ''default'', word_or [] args 1) else None)"

definition credentials :: "acl_lib \<Rightarrow> bytes \<Rightarrow> bytes \<Rightarrow> server \<Rightarrow> bool" where
  "credentials L user pass s \<longleftrightarrow> (case if user = asc ''default'' then sv_requirepass s else None of
     Some expected \<Rightarrow> pass = expected
   | None \<Rightarrow> authenticate L user pass (sv_acl s) = Inr ())"

text \<open>A request that does not bring the password of a user.\<close>

definition no_password :: "acl_lib \<Rightarrow> server \<Rightarrow> bytes list \<Rightarrow> bool" where
  "no_password L s ws \<longleftrightarrow> conn_cmd_name (bulks ws) \<noteq> asc ''AUTH''
     \<or> (case auth_words (bulks ws) of Some (user, pass) \<Rightarrow> \<not> credentials L user pass s | None \<Rightarrow> True)"

lemma auth_refused:
  assumes "\<not> credentials (in_acl_lib Q) user pass s"
  shows "\<exists>r. authenticate_as Q user pass c s = (RError r, c, s)"
  using assms by (auto simp: authenticate_as_def credentials_def wrongpass_def resp_error_def split: option.splits sum.splits if_splits)

lemma note_slow_slowlog: "\<exists>l. note_slow T cmd n c s = s\<lparr>sv_slowlog := l\<rparr>"
proof (cases "tn_elapsed T div 1000 mod 2 ^ 64 \<ge> sl_threshold_us (sv_slowlog s)")
  case True
  then show ?thesis unfolding note_slow_def if_P [OF True] by blast
next
  case False
  then have "note_slow T cmd n c s = s\<lparr>sv_slowlog := sv_slowlog s\<rparr>" by (simp add: note_slow_def)
  then show ?thesis by blast
qed

lemma unauthenticated_step:
  assumes "\<not> cn_authenticated c" and "no_password (in_acl_lib (tn_in T 0)) s ws"
  shows "\<exists>r l. run_command rest scripts T (bulks ws) c s = Some (RError r, c\<lparr>cn_last_cmd := conn_cmd_name (bulks ws)\<rparr>, s\<lparr>sv_slowlog := l\<rparr>)"
proof -
  let ?args = "bulks ws" and ?cmd = "conn_cmd_name (bulks ws)"
  have "\<exists>r. respond rest scripts (tn_in T) ?args ?cmd c s = Some (RError r, c, s)"
  proof (cases "?cmd = asc ''AUTH''")
    case True
    then show ?thesis using assms(2) auth_refused
      by (auto simp: respond_def handle_auth_def no_password_def resp_error_def)
  next
    case False
    then show ?thesis using assms(1) by (simp add: respond_def resp_error_def)
  qed
  then show ?thesis using note_slow_slowlog by (auto simp: run_command_def upgrade_to_resp3_def Let_def)
qed

lemma no_password_slowlog [simp]: "no_password L (s\<lparr>sv_slowlog := l\<rparr>) = no_password L s"
  by (rule ext) (simp add: no_password_def credentials_def split: option.splits)

text \<open>C25. Before authentication nothing runs: on a connection that is not authenticated every request that does not bring a user's
  password (the configured one for the default user, the access list's for the others) is answered with an error, whatever it is, the
  connection stays unauthenticated, and the server is unchanged up to the slow log.\<close>

theorem auth_required:
  assumes "\<forall>n. in_acl_lib (tn_in (T n) 0) = L" and "\<not> cn_authenticated c" and "list_all (no_password L s) wss"
  shows "\<exists>rs c' l. session rest scripts T n wss c s = Some (rs, c', s\<lparr>sv_slowlog := l\<rparr>) \<and> \<not> cn_authenticated c'
    \<and> length rs = length wss \<and> list_all (is_error \<circ> snd) rs"
  using assms(2,3)
proof (induction wss arbitrary: n c s)
  case Nil
  then show ?case by (auto intro: exI [of _ "sv_slowlog s"])
next
  case (Cons ws wss)
  obtain r l where r: "run_command rest scripts (T n) (bulks ws) c s
      = Some (RError r, c\<lparr>cn_last_cmd := conn_cmd_name (bulks ws)\<rparr>, s\<lparr>sv_slowlog := l\<rparr>)"
    using unauthenticated_step [OF Cons.prems(1), of "T n" s ws rest scripts] Cons.prems(2) assms(1) by auto
  have "list_all (no_password L (s\<lparr>sv_slowlog := l\<rparr>)) wss" using Cons.prems(2) by simp
  from Cons.IH [OF _ this, of "c\<lparr>cn_last_cmd := conn_cmd_name (bulks ws)\<rparr>" "n + 1"] Cons.prems(1)
  show ?case using r by (auto simp: is_error_def)
qed

definition turn_at :: "nat \<Rightarrow> turn" where
  "turn_at n = \<lparr>tn_in = (\<lambda>k. inputs_at (n + k)), tn_elapsed = 0, tn_end = 0\<rparr>"

theorem auth_required_witness:
  "\<exists>rs c' s l. s = (server_new 8 16)\<lparr>sv_requirepass := Some (asc ''secret'')\<rparr>
    \<and> session (\<lambda>_ _ _. refuse NoKey) (\<lambda>_ _ _ s. Some (RNull, s)) turn_at 0
        [[asc ''FLUSHALL''], [asc ''HELLO'', asc ''3'', asc ''AUTH'', asc ''default'', asc ''secret''], [asc ''AUTH'', asc ''guess'']]
        (fst (connect 7 [] 0 s)) s = Some (rs, c', s\<lparr>sv_slowlog := l\<rparr>)
    \<and> \<not> cn_authenticated c' \<and> length rs = 3 \<and> list_all (is_error \<circ> snd) rs"
proof -
  let ?s = "(server_new 8 16)\<lparr>sv_requirepass := Some (asc ''secret'')\<rparr>"
  have u: "\<not> cn_authenticated (fst (connect 7 [] 0 ?s))" by (simp add: connect_def)
  have n: "conn_cmd_name (bulks [asc ''FLUSHALL'']) = asc ''FLUSHALL''"
    "conn_cmd_name (bulks [asc ''HELLO'', asc ''3'', asc ''AUTH'', asc ''default'', asc ''secret'']) = asc ''HELLO''"
    "auth_words (bulks [asc ''AUTH'', asc ''guess'']) = Some (asc ''default'', asc ''guess'')" by code_simp+
  have "list_all (no_password (in_acl_lib (inputs_at 0)) ?s)
      [[asc ''FLUSHALL''], [asc ''HELLO'', asc ''3'', asc ''AUTH'', asc ''default'', asc ''secret''], [asc ''AUTH'', asc ''guess'']]"
    using n by (simp add: no_password_def asc_inject credentials_def del: auth_words.simps)
  from auth_required [of turn_at, OF _ u this, where rest = "\<lambda>_ _ _. refuse NoKey" and scripts = "\<lambda>_ _ _ s. Some (RNull, s)" and n = 0]
  show ?thesis by (auto simp: turn_at_def inputs_at_def)
qed

section \<open>Pipelines and versions\<close>

text \<open>C24. However the bytes of a client's requests are cut into reads, each request runs once, in order, and the client gets one reply
  for each, in the same order, in the version negotiated by then, as long as the client is not killed: the reads are batches of whole requests, run one request after the
  other, with only the connection's metadata brought up to date in between, and what is written is the bytes of the replies.\<close>

theorem pipeline_correct:
  assumes "f64_text_laws fmt pf" and "turns_ok fmt T" and "list_all stays wss"
    and "concat (map data_of segs) = concat (map (command_bytes fmt) wss)"
  shows "\<exists>bs. concat (map requests_of bs) = wss \<and> map fst bs = map clock_of segs
    \<and> (\<forall>c s rs c' s'. sessions rest scripts T 0 bs c s = Some (rs, c', s') \<longrightarrow> list_all (\<lambda>(_, r). resp_repr fmt r) rs \<longrightarrow>
        serve_reads rest scripts pf T segs 0 parser_new c s = Some (reply_bytes fmt rs, Drained, length wss, parser_new, c', s'))"
proof -
  have "wss \<noteq> [] \<longrightarrow> length [] < length (command_bytes fmt (hd wss))" by (simp add: command_bytes_def)
  from reads_sessions [OF assms(1,2,3) _ this, of segs rest scripts] assms(4)
  obtain bs where bs: "concat (map requests_of bs) = wss" "map fst bs = map clock_of segs"
    "\<And>c s n rs c' s'. sessions rest scripts T n bs c s = Some (rs, c', s') \<Longrightarrow> list_all (\<lambda>(_, r). resp_repr fmt r) rs \<Longrightarrow>
          serve_reads rest scripts pf T segs n \<lparr>rp_buf = []\<rparr> c s
            = Some (reply_bytes fmt rs, Drained, n + length wss, \<lparr>rp_buf = []\<rparr>, c', s')" by auto
  then show ?thesis by (intro exI [of _ bs]) (simp add: parser_new_def)
qed

theorem pipeline_correct_witness:
  "\<exists>c' s'. serve_reads (\<lambda>_ _ _. refuse NoKey) (\<lambda>_ _ _ s. Some (RNull, s)) bits_read turn_at
      [(9, 64, command_bytes bits_text [asc ''multi''] @ command_bytes bits_text [asc ''DISCARD''])] 0 parser_new
      (fst (connect 7 [] 0 (server_new 8 16))) (server_new 8 16)
    = Some (asc ''+OK'' @ crlf @ asc ''+OK'' @ crlf, Drained, 2, parser_new, c', s')"
proof -
  let ?rest = "\<lambda>_ _ _. refuse NoKey" and ?scripts = "\<lambda>_ _ _ s. Some (RNull, s)" and ?s = "server_new 8 16"
  let ?c = "fst (connect 7 [] 0 ?s)" and ?wss = "[[asc ''multi''], [asc ''DISCARD'']]"
  have n: "conn_cmd_name (bulks [asc ''multi'']) = asc ''MULTI''" "conn_cmd_name (bulks [asc ''DISCARD'']) = asc ''DISCARD''" by code_simp+
  have t: "turns_ok bits_text turn_at" by (simp add: turns_ok_def turn_at_def inputs_at_def dec_itoa)
  have "words_ok [asc ''multi'']" "words_ok [asc ''DISCARD'']" by (simp_all add: words_ok_def MAX_ARRAY_LEN_def MAX_BULK_LEN_def asc_def)
  then have st: "list_all stays ?wss" using n by (simp add: stays_def)
  let ?segs = "[(9, 64, command_bytes bits_text [asc ''multi''] @ command_bytes bits_text [asc ''DISCARD''])] :: (nat \<times> nat \<times> bytes) list"
  have "concat (map data_of ?segs) = concat (map (command_bytes bits_text) ?wss)" by simp
  from pipeline_correct [OF bits_text_laws t st this, of ?rest ?scripts]
  obtain bs where bs: "concat (map requests_of bs) = ?wss" "map fst bs = map clock_of ?segs"
    and run: "\<forall>c s rs c' s'. sessions ?rest ?scripts turn_at 0 bs c s = Some (rs, c', s') \<longrightarrow> list_all (\<lambda>(_, r). resp_repr bits_text r) rs \<longrightarrow>
      serve_reads ?rest ?scripts bits_read turn_at ?segs 0 parser_new c s = Some (reply_bytes bits_text rs, Drained, length ?wss, parser_new, c', s')"
    by (elim exE conjE)
  obtain left where b: "bs = [((9, 64), ?wss, left)]" using bs by (cases bs; cases "tl bs") auto
  obtain c' s' where "sessions ?rest ?scripts turn_at 0 bs ?c ?s = Some ([(2, resp_ok), (2, resp_ok)], c', s')"
    using n by (simp add: b conn_killed_def registry_new_def run_command_def respond_def asc_inject script_commands_def handle_multi_def handle_discard_def connect_def server_new_def
        tx_new_def tx_begin_def upgrade_to_resp3_def resp_ok_def note_slow_def turn_at_def slowlog_new_def Let_def)
  then have "serve_reads ?rest ?scripts bits_read turn_at ?segs 0 parser_new ?c ?s
      = Some (reply_bytes bits_text [(2, resp_ok), (2, resp_ok)], Drained, length ?wss, parser_new, c', s')"
    using run by (simp add: resp_ok_def del: serve_reads.simps)
  then show ?thesis by (simp add: resp_ok_def asc_def del: serve_reads.simps)
qed

text \<open>C32. WATCH does not notice that a key which was written once is deleted and written anew: the insertion of a vacant key sets its
  version to one, so that for any key, values and times the version recorded at WATCH is the one EXEC finds, although the value differs.\<close>

theorem watch_misses_rewrite:
  "let d1 = db_set_plain t1 k v db_new; d2 = snd (db_remove k d1); d3 = db_set_plain t3 k w d2 in
     db_get_ro now k d1 = Some (entry_new (DString v)) \<and> db_get_ro now k d2 = None \<and> db_get_ro now k d3 = Some (entry_new (DString w))
     \<and> any_changed now \<lparr>sh_shards = [d3], sh_num = 1\<rparr> [(k, db_key_version t2 k d1)] = Some False"
  by (simp add: db_set_plain_def db_insert_def db_remove_def db_new_def index_add_def index_drop_def put_entry_def entry_new_def
      db_maybe_prune_versions_def db_bump_version_if_present_def db_sub_live_bytes_def db_get_ro_def entry_is_expired_def
      db_key_version_def read_for_def shard_idx_def index_def Let_def VERSION_PRUNE_INTERVAL_def)

end
