(* ===== verification/Key_Guard.thy ===== *)
theory Key_Guard
  imports Dispatch_Laws
begin

text \<open>
  Which keys a command writes, and whether the permission check sees them. The dispatcher passes the result of
  \<^verbatim>\<open>extract_keys\<close> to the access control list; for most commands it has every key the command can change, for some it
  does not.
\<close>

section \<open>The keys a command writes\<close>

fun list_writes :: "list_cmd \<Rightarrow> bytes set" where
  "list_writes (LPush left only key xs) = {key}"
| "list_writes (LPop left key n) = {key}"
| "list_writes (LSet key i v) = {key}"
| "list_writes (LInsert key b pivot x) = {key}"
| "list_writes (LRem key n x) = {key}"
| "list_writes (LTrim key i j) = {key}"
| "list_writes (LMove src dst from_l to_l) = {src, dst}"
| "list_writes (RPopLPush src dst) = {src, dst}"
| "list_writes (LMPop keys left n) = set keys"
| "list_writes _ = {}"

fun hash_writes :: "hash_cmd \<Rightarrow> bytes set" where
  "hash_writes (HSet key fvs) = {key}"
| "hash_writes (HMSet key fvs) = {key}"
| "hash_writes (HSetNX key f v) = {key}"
| "hash_writes (HIncrBy key f n) = {key}"
| "hash_writes (HDel key fs) = {key}"
| "hash_writes _ = {}"

fun set_writes :: "set_cmd \<Rightarrow> bytes set" where
  "set_writes (SAdd key ms) = {key}"
| "set_writes (SRem key ms) = {key}"
| "set_writes (SPop key cnt) = {key}"
| "set_writes (SUnionStore dst ks) = {dst}"
| "set_writes (SInterStore dst ks) = {dst}"
| "set_writes (SDiffStore dst ks) = {dst}"
| "set_writes (SMove src dst m) = {src, dst}"
| "set_writes _ = {}"

fun zset_writes :: "zset_cmd \<Rightarrow> bytes set" where
  "zset_writes (ZAdd key op ps) = {key}"
| "zset_writes (ZIncrBy key t x) = {key}"
| "zset_writes (ZRem key xs) = {key}"
| "zset_writes (ZRemRangeByRank key i j) = {key}"
| "zset_writes (ZRemRangeByScore key a b) = {key}"
| "zset_writes (ZPop mx key cnt) = {key}"
| "zset_writes (ZJoinStore j dst ks wts agg) = {dst}"
| "zset_writes (ZDiffStore dst ks) = {dst}"
| "zset_writes (ZMPop ks mn n) = set ks"
| "zset_writes (ZRangeStore dst src a b op) = {dst}"
| "zset_writes _ = {}"

fun str_writes :: "str_cmd \<Rightarrow> bytes set" where
  "str_writes (SSet key v ws) = {key}"
| "str_writes (SGetSet key v) = {key}"
| "str_writes (SGetDel key) = {key}"
| "str_writes (SGetEx key w) = {key}"
| "str_writes (SSetNX key v) = {key}"
| "str_writes (SSetEx key n v) = {key}"
| "str_writes (SPSetEx key n v) = {key}"
| "str_writes (SIncr key) = {key}"
| "str_writes (SDecr key) = {key}"
| "str_writes (SIncrBy key n) = {key}"
| "str_writes (SDecrBy key n) = {key}"
| "str_writes (SIncrByFloat key x) = {key}"
| "str_writes (SAppend key v) = {key}"
| "str_writes (SSetRange key n v) = {key}"
| "str_writes (SMSet kvs) = fst ` set kvs"
| "str_writes (SMSetNX kvs) = fst ` set kvs"
| "str_writes _ = {}"

fun generic_writes :: "generic_cmd \<Rightarrow> bytes set" where
  "generic_writes (GDel keys) = set keys"
| "generic_writes (GUnlink keys) = set keys"
| "generic_writes (GExpire millis absolute key n ws) = {key}"
| "generic_writes (GPersist key) = {key}"
| "generic_writes (GRename src dst) = {src, dst}"
| "generic_writes (GRenameNX src dst) = {src, dst}"
| "generic_writes (GCopy src dst replace) = {src, dst}"
| "generic_writes _ = {}"

fun key_writes :: "key_cmd \<Rightarrow> bytes set" where
  "key_writes (ListCmd c) = list_writes c"
| "key_writes (HashCmd c) = hash_writes c"
| "key_writes (SetCmd c) = set_writes c"
| "key_writes (ZSetCmd c) = zset_writes c"
| "key_writes (StrCmd c) = str_writes c"
| "key_writes (GenericCmd c) = generic_writes c"

section \<open>Other keys stay as they are\<close>

lemma edit_at_frame: "k \<noteq> key \<Longrightarrow> snd (edit_at proj emb now key none wrong g A) k = A k"
  by (auto simp: edit_at_def apply_at_def split: option.splits prod.splits)

lemma upsert_at_frame: "k \<noteq> key \<Longrightarrow> snd (upsert_at proj emb now key new wrong g A) k = A k"
  by (auto simp: upsert_at_def apply_at_def split: option.splits prod.splits)

lemma at_frames:
  "(r, A') = edit_at proj emb now key none wrong g A \<Longrightarrow> k \<noteq> key \<Longrightarrow> A' k = A k"
  "(q, A') = upsert_at proj emb now key new wrong' g' A \<Longrightarrow> k \<noteq> key \<Longrightarrow> A' k = A k"
  using edit_at_frame [of k key proj emb now none wrong g A] upsert_at_frame [of k key proj emb now new wrong' g' A]
  by (metis snd_conv)+

lemma lmove_frame: "k \<noteq> src \<Longrightarrow> k \<noteq> dst \<Longrightarrow> snd (lmove_at now src dst from_l to_l A) k = A k"
proof -
  assume k: "k \<noteq> src" "k \<noteq> dst"
  let ?e = "edit_list now src (Inr None) (Inl WrongType) (pop_one_spec from_l) A"
  have "snd ?e k = A k" using k(1) by (rule edit_at_frame)
  then show ?thesis using k(2)
    by (cases ?e; cases "fst ?e") (auto simp: lmove_at_def upsert_at_frame split: option.splits)
qed

lemma lmpop_frame: "k \<notin> set keys \<Longrightarrow> snd (lmpop_at now keys left n A) k = A k"
proof (induction keys arbitrary: A)
  case (Cons key keys)
  let ?e = "edit_list now key None None (lmpop_spec key left n) A"
  have "snd ?e k = A k" using Cons.prems by (intro edit_at_frame) simp
  then show ?case using Cons by (cases ?e; cases "fst ?e") auto
qed simp

lemma list_frame:
  assumes "(r, A') = list_spec E c A" and "k \<notin> list_writes c"
  shows "A' k = A k"
proof -
  have "snd (list_spec E c A) k = A k"
    using assms(2) by (cases c) (auto simp: push_at_def edit_at_frame upsert_at_frame lmove_frame lmpop_frame)
  then show ?thesis using assms(1) by (metis snd_conv)
qed

lemma hash_frame:
  assumes "hash_spec E c A r A'" and "k \<notin> hash_writes c"
  shows "alive (env_now E) (A' k) = alive (env_now E) (A k)"
  using assms by (cases c) (auto dest!: at_frames simp: alive_idem)

lemma lazy_frame: "lazy_expire now A B \<Longrightarrow> alive now (B k) = alive now (A k)"
  by (metis lazy_alive)

lemma smove_frame: "k \<noteq> src \<Longrightarrow> k \<noteq> dst \<Longrightarrow> snd (smove_at now src dst m A) k = A k"
proof -
  assume k: "k \<noteq> src" "k \<noteq> dst"
  let ?e = "edit_at proj_set ASet now src (Inr False) (Inl WrongType) (take_effect m) A"
  have "snd ?e k = A k" using k(1) by (rule edit_at_frame)
  then show ?thesis using k(2)
    by (cases ?e; cases "fst ?e") (auto simp: smove_at_def upsert_at_frame split: option.splits bool.splits)
qed

lemma stored_frame: "lazy_expire now A B \<Longrightarrow> stored dst x B r A' \<Longrightarrow> k \<noteq> dst \<Longrightarrow> alive now (A' k) = alive now (A k)"
  using lazy_frame [of now A B k] by (cases x) (auto simp: stored_def)

lemma set_frame:
  assumes "set_spec E c A r A'" and "k \<notin> set_writes c"
  shows "alive (env_now E) (A' k) = alive (env_now E) (A k)"
proof (cases c)
  case (SMove src dst m)
  then have "A' = snd (smove_at (env_now E) src dst m A)" using assms(1) by (metis set_spec.simps(14) snd_conv snd_map_prod id_apply)
  then show ?thesis using assms(2) SMove by (simp add: smove_frame)
next
  case (SPop key cnt)
  then show ?thesis using assms by (auto simp: edit_rel_def split: option.splits)
qed (use assms in \<open>auto dest!: at_frames dest: stored_frame lazy_frame\<close>)

lemma rel_frames:
  "edit_rel proj emb now key none wrong G A r A' \<Longrightarrow> k \<noteq> key \<Longrightarrow> A' k = A k"
  "upsert_rel proj emb now key new wrong G A r A' \<Longrightarrow> k \<noteq> key \<Longrightarrow> A' k = A k"
  by (auto simp: edit_rel_def upsert_rel_def split: option.splits prod.splits)

lemma zstored_frame: "lazy_expire now A B \<Longrightarrow> zstored dst x B r A' \<Longrightarrow> k \<noteq> dst \<Longrightarrow> alive now (A' k) = alive now (A k)"
  using lazy_frame [of now A B k] by (cases x) (auto simp: zstored_def)

lemma zmpop_frame: "zmpop_at now ks mn n A r A' \<Longrightarrow> k \<notin> set ks \<Longrightarrow> A' k = A k"
proof (induction ks arbitrary: A)
  case (Cons key ks)
  then obtain x B where "edit_rel proj_zset AZSet now key None None (zmpop_rel key mn n) A x B"
    "case x of Some v \<Rightarrow> r = Some v \<and> A' = B | None \<Rightarrow> zmpop_at now ks mn n B r A'" by auto
  then show ?case using rel_frames(1) [of proj_zset AZSet now key _ _ _ A x B k] Cons by (cases x) auto
qed simp

lemma zadd_frame: "zadd_at now key op ps A r A' \<Longrightarrow> k \<noteq> key \<Longrightarrow> A' k = A k"
  by (auto simp: zadd_at_def Let_def split: if_splits dest: rel_frames)

lemma zset_frame:
  assumes "zset_spec E c A r A'" and "k \<notin> zset_writes c"
  shows "alive (env_now E) (A' k) = alive (env_now E) (A k)"
proof (cases c)
  case (ZRange key a b op)
  then show ?thesis using assms by (simp add: Let_def)
next
  case (ZMPop ks mn n)
  then show ?thesis using assms by (auto dest: zmpop_frame)
qed (use assms in \<open>auto simp: bounded_def dest!: at_frames rel_frames zadd_frame dest: zstored_frame lazy_frame
  split: sum.splits prod.splits\<close>)

lemma mset_frame: "mset_rel kvs A A' \<Longrightarrow> k \<notin> fst ` set kvs \<Longrightarrow> A' k = A k"
proof -
  assume "mset_rel kvs A A'" and k: "k \<notin> fst ` set kvs"
  then obtain ps where "set ps = set kvs" "A' = A ++ map_of (plain_pairs ps)" by (auto simp: mset_rel_def dest: mset_eq_setD)
  moreover have "map_of (plain_pairs ps) k = None" using k \<open>set ps = set kvs\<close> by (force simp: map_of_eq_None_iff plain_pairs_def)
  ultimately show ?thesis by (simp add: map_add_def)
qed

lemma str_frame:
  assumes "str_spec E c A r A'" and "k \<notin> str_writes c"
  shows "A' k = A k"
  using assms by (cases c) (auto simp: at_key_def refused_def mset_frame split: sum.splits if_splits option.splits)

lemma generic_frame:
  assumes "generic_spec E c A r A'" and "k \<notin> generic_writes c"
  shows "alive (env_now E) (A' k) = alive (env_now E) (A k)"
  using assms by (cases c) (auto simp: at_key_def refused_def rename_at_def renamenx_at_def copy_at_def keys_rel_def alive_idem Let_def
      split: if_splits option.splits)

lemma key_frame:
  assumes "key_cmd_spec E c A r A'" and "k \<notin> key_writes c"
  shows "alive (env_now E) (A' k) = alive (env_now E) (A k)"
proof (cases c)
  case (ListCmd d)
  then show ?thesis using assms list_frame [of r A' E d A k] by simp
next
  case (StrCmd d)
  then show ?thesis using assms str_frame [of E d A r A' k] by simp
qed (use assms hash_frame set_frame zset_frame generic_frame in auto)

section \<open>The keys the check sees\<close>

lemma one_key: "key_loop_from (n # BulkString (Some k) # args) 0 (Some (Suc 0)) 0 (Suc 0) = [k]"
  by (subst key_loop_from.simps) (simp add: index_def)

lemma two_keys: "key_loop_from (n # BulkString (Some k1) # BulkString (Some k2) # args) (Suc 0) (Some 2) 0 (Suc 0) = [k1, k2]"
  by (subst key_loop_from.simps, subst key_loop_from.simps) (simp add: index_def)

lemma keys_from_on: "key_loop_from (bulks ws) 1 None seen i = drop i ws"
proof (induction "length ws - i" arbitrary: i seen)
  case 0
  then show ?case by (subst key_loop_from.simps) simp
next
  case (Suc n)
  then have i: "i < length ws" by simp
  have "key_loop_from (bulks ws) 1 None (seen + 1) (i + 1) = drop (i + 1) ws" using Suc by (intro Suc(1)) simp
  then show ?case using i by (subst key_loop_from.simps) (simp add: index_bulks Cons_nth_drop_Suc)
qed

lemma all_keys: "key_loop_from (BulkString (Some n) # bulks ks) (Suc 0) None 0 (Suc 0) = ks"
  using keys_from_on [of "n # ks" 0 1] by simp

lemma every_second: "key_loop_from (bulks (pre @ flat kvs)) 2 None seen (length pre) = map fst kvs"
proof (induction kvs arbitrary: pre seen)
  case Nil
  then show ?case by (subst key_loop_from.simps) (simp add: flat_def)
next
  case (Cons p kvs)
  have "key_loop_from (bulks ((pre @ [fst p, snd p]) @ flat kvs)) 2 None (seen + 1) (length (pre @ [fst p, snd p])) = map fst kvs"
    by (rule Cons)
  moreover have "index (bulks pre @ BulkString (Some (fst p)) # args) (length pre) = Some (BulkString (Some (fst p)))" for args
    by (simp add: index_def nth_append)
  ultimately show ?case by (subst key_loop_from.simps) (simp add: flat_Cons)
qed

lemma pair_keys: "key_loop_from (BulkString (Some n) # bulks (flat kvs)) 2 None 0 (Suc 0) = map fst kvs"
  using every_second [of "[n]" kvs 0] by simp

text \<open>Commands whose keys are all found.\<close>

fun guarded :: "key_cmd \<Rightarrow> bool" where
  "guarded (ListCmd (RPopLPush src dst)) \<longleftrightarrow> False"
| "guarded (ListCmd (LMPop keys left n)) \<longleftrightarrow> False"
| "guarded (SetCmd (SUnionStore dst ks)) \<longleftrightarrow> False"
| "guarded (SetCmd (SInterStore dst ks)) \<longleftrightarrow> False"
| "guarded (SetCmd (SDiffStore dst ks)) \<longleftrightarrow> False"
| "guarded (SetCmd (SMove src dst m)) \<longleftrightarrow> False"
| "guarded (ZSetCmd (ZJoinStore j dst ks wts agg)) \<longleftrightarrow> False"
| "guarded (ZSetCmd (ZDiffStore dst ks)) \<longleftrightarrow> False"
| "guarded (ZSetCmd (ZMPop ks mn n)) \<longleftrightarrow> False"
| "guarded (ZSetCmd (ZRangeStore dst src a b op)) \<longleftrightarrow> False"
| "guarded (GenericCmd (GRenameNX src dst)) \<longleftrightarrow> False"
| "guarded _ \<longleftrightarrow> True"

lemmas extracts = extract_keys_def key_specs_def one_key two_keys all_keys pair_keys

lemma list_guarded: "guarded (ListCmd c) \<Longrightarrow> list_writes c \<subseteq> set (extract_keys (hd (list_words c)) (bulks (list_words c)))"
  by (cases c rule: list_words.cases) (simp_all add: extracts)

lemma hash_guarded: "hash_writes c \<subseteq> set (extract_keys (hd (hash_words c)) (bulks (hash_words c)))"
  by (cases c) (simp_all add: extracts)

lemma set_guarded: "guarded (SetCmd c) \<Longrightarrow> set_writes c \<subseteq> set (extract_keys (hd (set_words c)) (bulks (set_words c)))"
  by (cases c) (simp_all add: extracts)

lemma zset_guarded: "guarded (ZSetCmd c) \<Longrightarrow> zset_writes c \<subseteq> set (extract_keys (hd (zset_words c)) (bulks (zset_words c)))"
  by (cases c) (simp_all add: extracts)

lemma str_guarded: "str_writes c \<subseteq> set (extract_keys (hd (str_words c)) (bulks (str_words c)))"
  by (cases c) (simp_all add: extracts)

lemma generic_guarded: "guarded (GenericCmd c) \<Longrightarrow> generic_writes c \<subseteq> set (extract_keys (hd (generic_words c)) (bulks (generic_words c)))"
  by (cases c) (simp_all add: extracts expire_name_def)

lemma key_guarded: "guarded c \<Longrightarrow> key_writes c \<subseteq> set (extract_keys (key_name c) (bulks (key_words c)))"
  using list_guarded hash_guarded set_guarded zset_guarded str_guarded generic_guarded by (cases c) simp_all

section \<open>Permissions protect keys\<close>

lemma join_not_flush: "join_name j @ w \<noteq> ''FLUSHALL''" "join_name j @ w \<noteq> ''FLUSHDB''" "join_name j \<noteq> ''FLUSHALL''" "join_name j \<noteq> ''FLUSHDB''"
  by (cases j; simp)+

lemma key_not_flush: "\<not> named (key_name c) [''FLUSHALL'', ''FLUSHDB'']"
proof (cases c)
  case (ListCmd d)
  then show ?thesis by (cases d rule: list_words.cases) simp_all
next
  case (HashCmd d)
  then show ?thesis by (cases d) simp_all
next
  case (SetCmd d)
  then show ?thesis by (cases d) simp_all
next
  case (ZSetCmd d)
  then show ?thesis using join_not_flush by (cases d) (auto split: if_splits)
next
  case (StrCmd d)
  then show ?thesis by (cases d) simp_all
next
  case (GenericCmd d)
  then show ?thesis by (cases d) (simp_all add: expire_name_def)
qed

lemma permitted_uses:
  assumes "permitted Q user cmd args s" and "\<not> am_open (sv_acl s)" and "map_of (am_users (sv_acl s)) user = Some u"
  shows "\<forall>k \<in> set (touched_keys cmd args s). may_use u k"
  using assms first_denied_is [of u "touched_keys cmd args s"]
  by (auto simp: permitted_def check_permission_def split: if_splits option.splits)

lemma request_denied:
  assumes "quiet Q s" and "\<not> permitted Q user cmd args s" and "args \<noteq> []" and "resp_repr (in_fmt_f64 Q) (RArray (Some args))" and "i < 2 ^ 64"
  shows "\<exists>e m. dispatch_tracked rest Q args i user client cmd s = Some (RError e, s\<lparr>sv_acl := m\<rparr>)"
proof -
  obtain e m where e: "check_permission (int (in_unix_us Q div 1000)) user cmd (touched_keys cmd args s) (sv_acl s) = (Inl e, m)"
    using assms(2) by (cases "check_permission (int (in_unix_us Q div 1000)) user cmd (touched_keys cmd args s) (sv_acl s)"; cases "fst (check_permission (int (in_unix_us Q div 1000)) user cmd (touched_keys cmd args s) (sv_acl s))")
      (auto simp: permitted_def)
  have b: "aof_bytes_of Q args i = Some (log_record (in_fmt_f64 Q) args i)"
    using aof_bytes_record [OF _ assms(4,5)] assms(1) by (simp add: quiet_def)
  have "dispatch_inner rest Q args i user client (touched_keys cmd args s) cmd s = Some (Inl (Prefixed (acl_error_text e)), s\<lparr>sv_acl := m\<rparr>)"
    using assms(3) e by (simp add: dispatch_inner_def refuse_def)
  then show ?thesis using assms(1) b by (auto simp: dispatch_tracked_def quiet_def wind_up_def is_error_def Let_def)
qed


text \<open>A user that may use keys that begin with the letter a and run every command.\<close>

definition restricted_user :: acl_user where
  "restricted_user = (acl_user_new (asc ''eve''))\<lparr>au_all_keys := False, au_key_patterns := [asc ''a*'']\<rparr>"

definition with_eve :: "server \<Rightarrow> server" where
  "with_eve s = s\<lparr>sv_acl := \<lparr>am_users = [(asc ''default'', default_user), (asc ''eve'', restricted_user)], am_log = [], am_open = False\<rparr>\<rparr>"

lemma eve_uses: "may_use restricted_user k \<longleftrightarrow> glob_match (asc ''a*'') k"
proof -
  have "asc ''a*'' \<noteq> asc ''allkeys''" "asc ''a*'' \<noteq> asc ''*''" "strip_prefix 0x7E (asc ''a*'') = None" by code_simp+
  then show ?thesis by (auto simp: may_use_def restricted_user_def)
qed


text \<open>Key patterns do not protect against the commands \<^verbatim>\<open>extract_keys\<close> does not know: a user confined to keys that begin with
  the letter a passes the permission check for SUNIONSTORE and RPOPLPUSH on any keys and for SMOVE and RENAMENX to any destination,
  so that the handlers run; LMPOP is judged by its count instead of its keys, and ZUNIONSTORE by its count and sources without its destination.\<close>

theorem key_unprotected:
  "dispatch_inner rest Q (bulks [asc ''RPOPLPUSH'', src, dst]) i (asc ''eve'') client
      (touched_keys (asc ''RPOPLPUSH'') (bulks [asc ''RPOPLPUSH'', src, dst]) (with_eve s)) (asc ''RPOPLPUSH'') (with_eve s)
    = on_db i (cmd_rpoplpush (in_env Q) (bulks [asc ''RPOPLPUSH'', src, dst])) (with_eve s)
   \<and> dispatch_inner rest Q (bulks [asc ''SUNIONSTORE'', dst, src]) i (asc ''eve'') client
      (touched_keys (asc ''SUNIONSTORE'') (bulks [asc ''SUNIONSTORE'', dst, src]) (with_eve s)) (asc ''SUNIONSTORE'') (with_eve s)
    = on_db i (cmd_sunionstore (in_env Q) (bulks [asc ''SUNIONSTORE'', dst, src])) (with_eve s)
   \<and> dispatch_inner rest Q (bulks [asc ''RENAMENX'', asc ''a'', dst]) i (asc ''eve'') client
      (touched_keys (asc ''RENAMENX'') (bulks [asc ''RENAMENX'', asc ''a'', dst]) (with_eve s)) (asc ''RENAMENX'') (with_eve s)
    = on_db i (cmd_renamenx (in_env Q) (bulks [asc ''RENAMENX'', asc ''a'', dst])) (with_eve s)
   \<and> dispatch_inner rest Q (bulks [asc ''SMOVE'', asc ''a'', dst, m]) i (asc ''eve'') client
      (touched_keys (asc ''SMOVE'') (bulks [asc ''SMOVE'', asc ''a'', dst, m]) (with_eve s)) (asc ''SMOVE'') (with_eve s)
    = on_db i (cmd_smove (in_env Q) (bulks [asc ''SMOVE'', asc ''a'', dst, m])) (with_eve s)
   \<and> touched_keys (asc ''LMPOP'') (bulks [asc ''LMPOP'', n, key, asc ''LEFT'']) (with_eve s) = [n]
   \<and> touched_keys (asc ''ZUNIONSTORE'') (bulks [asc ''ZUNIONSTORE'', dst, n, src]) (with_eve s) = [n, src]"
proof -
  have a: "key_allowed restricted_user (asc ''a'')" unfolding key_allowed_is eve_uses by code_simp
  have t: "touched_keys cmd args (with_eve s) = (if named cmd [''FLUSHALL'', ''FLUSHDB''] then [] else extract_keys cmd args)" for cmd args
    by (simp add: touched_keys_def need_keys_def with_eve_def)
  have "check_permission t (asc ''eve'') cmd keys (sv_acl (with_eve s)) = (Inr (), sv_acl (with_eve s))"
    if "list_all (key_allowed restricted_user) keys" for t cmd keys
  proof -
    have "first_denied restricted_user keys = None" using that by (induction keys) simp_all
    then show ?thesis by (simp add: check_permission_def with_eve_def asc_inject restricted_user_def acl_user_new_def command_allowed_def)
  qed
  then have p: "check_permission t (asc ''eve'') cmd [] (sv_acl (with_eve s)) = (Inr (), sv_acl (with_eve s))"
    "check_permission t (asc ''eve'') cmd [asc ''a''] (sv_acl (with_eve s)) = (Inr (), sv_acl (with_eve s))" for t cmd
    using a by simp_all
  have upd: "(with_eve s)\<lparr>sv_acl := sv_acl (with_eve s)\<rparr> = with_eve s" by (simp add: with_eve_def)
  have z: "extract_keys (asc ''ZUNIONSTORE'') (bulks [asc ''ZUNIONSTORE'', dst, n, src]) = [n, src]"
    using keys_from_on [of "[asc ''ZUNIONSTORE'', dst, n, src]" 0 2] by (simp add: extract_keys_def key_specs_def)
  show ?thesis using z by (simp add: t extracts p upd dispatch_inner_def run_handler_def arm_table)
qed

end
